(* ===== verification/Epics_Prelude.thy ===== *)
theory Epics_Prelude
  imports Main "HOL-Library.Word" "HOL-Library.Monad_Syntax"
begin

text \<open>
  Shared vocabulary of the development: the byte and machine-word types of the C sources,
  C string and memory-copy helpers, and the generic list and option lemmas that the
  component theories use.
\<close>

section \<open>Names of the C types\<close>

type_synonym byte = "8 word"
type_synonym uint16 = "16 word"
type_synonym uint32 = "32 word"
type_synonym addr = nat

named_theorems epics_frame \<open>frame rules: what an operation leaves untouched\<close>
named_theorems epics_abs \<open>abstraction equations of the component invariants\<close>

section \<open>Memory blocks\<close>

text \<open>
  \<^term>\<open>mem_read b off n\<close> is what \<^verbatim>\<open>memcpy(dst, &b[off], n)\<close> delivers, and
  \<^term>\<open>mem_write b off bs\<close> is the block after \<^verbatim>\<open>memcpy(&b[off], bs, length bs)\<close>.
\<close>

definition mem_read :: "'a list \<Rightarrow> int \<Rightarrow> int \<Rightarrow> 'a list" where
  "mem_read b off n = take (nat n) (drop (nat off) b)"

definition mem_write :: "'a list \<Rightarrow> int \<Rightarrow> 'a list \<Rightarrow> 'a list" where
  "mem_write b off bs = take (nat off) b @ bs @ drop (nat off + length bs) b"

lemma length_mem_write [simp]:
  "nat off + length bs \<le> length b \<Longrightarrow> length (mem_write b off bs) = length b"
  by (auto simp: mem_write_def)

lemma length_mem_read:
  "nat off + nat n \<le> length b \<Longrightarrow> length (mem_read b off n) = nat n"
  by (simp add: mem_read_def)

lemma mem_read_0 [simp]: "mem_read b off 0 = []"
  by (simp add: mem_read_def)

lemma mem_write_Nil [simp]: "mem_write b off [] = b"
  by (simp add: mem_write_def)

lemma mem_read_split:
  assumes "0 \<le> off" "0 \<le> n" "0 \<le> m"
  shows "mem_read b off (n + m) = mem_read b off n @ mem_read b (off + n) m"
  using assms
  by (simp add: mem_read_def nat_add_distrib take_add drop_drop add.commute [of "nat off"])

lemma take_mem_read:
  "0 \<le> n \<Longrightarrow> n \<le> m \<Longrightarrow> take (nat n) (mem_read b off m) = mem_read b off n"
  by (simp add: mem_read_def min_absorb1 nat_mono)

lemma drop_mem_read:
  assumes "0 \<le> off" "0 \<le> n" "n \<le> m"
  shows "drop (nat n) (mem_read b off m) = mem_read b (off + n) (m - n)"
  using assms
  by (simp add: mem_read_def drop_take nat_diff_distrib nat_add_distrib drop_drop
      add.commute [of "nat off"])

lemma mem_read_write_disjoint:
  assumes "0 \<le> off" "0 \<le> n" "0 \<le> off'" "nat off' + length bs \<le> length b"
    and "off + n \<le> off' \<or> off' + int (length bs) \<le> off"
  shows "mem_read (mem_write b off' bs) off n = mem_read b off n"
proof (cases "off + n \<le> off'")
  case True
  then have "nat off + nat n \<le> nat off'" using assms by linarith
  with assms(4) have "nat n \<le> nat off' - nat off" "nat n \<le> length b - nat off"
      "nat n \<le> nat off' + length bs - nat off" "nat n \<le> length b + length bs - nat off"
    by linarith+
  then show ?thesis
    using assms(4) by (simp add: mem_read_def mem_write_def drop_take min_def)
next
  case False
  with assms have "nat off' + length bs \<le> nat off" by linarith
  then show ?thesis
    using assms(4) by (simp add: mem_read_def mem_write_def drop_drop)
qed

lemma mem_read_write_same:
  assumes "0 \<le> off" "nat off + length bs \<le> length b" "n = int (length bs)"
  shows "mem_read (mem_write b off bs) off n = bs"
  using assms by (simp add: mem_read_def mem_write_def)

section \<open>Searching lists\<close>

lemma find_SomeD: "find P xs = Some x \<Longrightarrow> P x \<and> x \<in> set xs"
  by (auto simp: find_Some_iff)

end
