(* ===== verification/RingBytes.thy ===== *)
theory RingBytes
  imports Epics_Prelude
begin

text \<open>
  The byte ring buffer of \<^verbatim>\<open>modules/libcom/src/ring/epicsRingBytes.c\<close>. The buffer is the
  list of its bytes, \<open>nextPut\<close> and \<open>nextGet\<close> are the two indices of the C struct. Every
  operation is the body executed between \<^verbatim>\<open>epicsSpinLock\<close> and \<^verbatim>\<open>epicsSpinUnlock\<close>.
  The abstraction of a ring is the byte queue it holds.
\<close>

section \<open>State and operations\<close>

definition SLOP :: int where
  "SLOP = 16"

record ringPvt =
  lock :: bool
  nextPut :: int
  nextGet :: int
  size :: int
  buffer :: "byte list"

text \<open>
  The first argument is what \<^verbatim>\<open>malloc\<close> delivers: \<open>None\<close> for NULL, otherwise the
  (uninitialised) contents of the \<open>size + SLOP\<close> bytes of the buffer.
\<close>

definition epicsRingBytesCreate :: "byte list option \<Rightarrow> int \<Rightarrow> ringPvt option" where
  "epicsRingBytesCreate mem sz =
     (case mem of
        None \<Rightarrow> None
      | Some junk \<Rightarrow>
          Some \<lparr>lock = False, nextPut = 0, nextGet = 0, size = sz + SLOP, buffer = junk\<rparr>)"

definition epicsRingBytesLockedCreate :: "byte list option \<Rightarrow> int \<Rightarrow> ringPvt option" where
  "epicsRingBytesLockedCreate mem sz =
     (case epicsRingBytesCreate mem sz of
        None \<Rightarrow> None
      | Some r \<Rightarrow> Some (r\<lparr>lock := True\<rparr>))"

text \<open>The result is the new ring, the bytes copied to \<open>value\<close> and the return value.\<close>

definition epicsRingBytesGet :: "ringPvt \<Rightarrow> int \<Rightarrow> ringPvt \<times> byte list \<times> int" where
  "epicsRingBytesGet r nbytes =
     (let get = nextGet r; put = nextPut r; sz = size r in
      if get \<le> put then
        let count = put - get;
            nbytes = (if count < nbytes then count else nbytes)
        in (r\<lparr>nextGet := get + nbytes\<rparr>, mem_read (buffer r) get nbytes, nbytes)
      else
        let count = sz - get;
            count = (if count > nbytes then nbytes else count);
            val = mem_read (buffer r) get count;
            get = get + count
        in if get = sz then
             let nLeft = nbytes - count;
                 nLeft = (if nLeft > put then put else nLeft)
             in (r\<lparr>nextGet := nLeft\<rparr>, val @ mem_read (buffer r) 0 nLeft, count + nLeft)
           else (r\<lparr>nextGet := get\<rparr>, val, count))"

definition epicsRingBytesPut :: "ringPvt \<Rightarrow> byte list \<Rightarrow> int \<Rightarrow> ringPvt \<times> int" where
  "epicsRingBytesPut r val nbytes =
     (let get = nextGet r; put = nextPut r; sz = size r in
      if put < get then
        let freeCount = get - put - SLOP in
        if nbytes > freeCount then (r, 0)
        else (r\<lparr>buffer := mem_write (buffer r) put (mem_read val 0 nbytes),
                nextPut := put + nbytes\<rparr>, nbytes)
      else
        let freeCount = sz - put + get - SLOP in
        if nbytes > freeCount then (r, 0)
        else
          let topCount = sz - put;
              copyCount = (if nbytes > topCount then topCount else nbytes);
              buf = mem_write (buffer r) put (mem_read val 0 copyCount);
              put = put + copyCount
          in if put = sz then
               let nLeft = nbytes - copyCount
               in (r\<lparr>buffer := mem_write buf 0 (mem_read val copyCount nLeft),
                     nextPut := nLeft\<rparr>, nbytes)
             else (r\<lparr>buffer := buf, nextPut := put\<rparr>, nbytes))"

definition epicsRingBytesFlush :: "ringPvt \<Rightarrow> ringPvt" where
  "epicsRingBytesFlush r = r\<lparr>nextGet := nextPut r\<rparr>"

definition epicsRingBytesFreeBytes :: "ringPvt \<Rightarrow> int" where
  "epicsRingBytesFreeBytes r =
     (if nextPut r < nextGet r then nextGet r - nextPut r - SLOP
      else size r - nextPut r + nextGet r - SLOP)"

definition epicsRingBytesUsedBytes :: "ringPvt \<Rightarrow> int" where
  "epicsRingBytesUsedBytes r =
     (let used = nextPut r - nextGet r in if used < 0 then used + size r else used)"

definition epicsRingBytesSize :: "ringPvt \<Rightarrow> int" where
  "epicsRingBytesSize r = size r - SLOP"

definition epicsRingBytesIsEmpty :: "ringPvt \<Rightarrow> bool" where
  "epicsRingBytesIsEmpty r \<longleftrightarrow> nextPut r = nextGet r"

definition epicsRingBytesIsFull :: "ringPvt \<Rightarrow> bool" where
  "epicsRingBytesIsFull r \<longleftrightarrow> epicsRingBytesFreeBytes r \<le> 0"

section \<open>Invariant and abstraction\<close>

text \<open>
  Both indices stay inside the buffer, and at least \<^const>\<open>SLOP\<close> bytes stay unused: this is
  what distinguishes a full ring from an empty one.
\<close>

definition ring_wf :: "ringPvt \<Rightarrow> bool" where
  "ring_wf r \<longleftrightarrow>
     0 \<le> nextPut r \<and> nextPut r < size r \<and> 0 \<le> nextGet r \<and> nextGet r < size r \<and>
     size r = int (length (buffer r)) \<and>
     epicsRingBytesUsedBytes r \<le> size r - SLOP"

definition ring_contents :: "ringPvt \<Rightarrow> byte list" where
  "ring_contents r =
     (if nextGet r \<le> nextPut r
      then mem_read (buffer r) (nextGet r) (nextPut r - nextGet r)
      else mem_read (buffer r) (nextGet r) (size r - nextGet r) @
           mem_read (buffer r) 0 (nextPut r))"

section \<open>Lemmas\<close>

lemma ring_used_contents:
  assumes "ring_wf r"
  shows "epicsRingBytesUsedBytes r = int (length (ring_contents r))"
  using assms
  by (auto simp: ring_wf_def ring_contents_def epicsRingBytesUsedBytes_def Let_def
      mem_read_def min_def)

lemma ring_free_used:
  "ring_wf r \<Longrightarrow>
   epicsRingBytesFreeBytes r = epicsRingBytesSize r - epicsRingBytesUsedBytes r"
  by (auto simp: ring_wf_def epicsRingBytesFreeBytes_def epicsRingBytesSize_def
      epicsRingBytesUsedBytes_def Let_def)

lemma ring_put_full:
  assumes "ring_wf r" "epicsRingBytesFreeBytes r < nbytes"
  shows "epicsRingBytesPut r val nbytes = (r, 0)"
  using assms
  by (simp add: epicsRingBytesPut_def epicsRingBytesFreeBytes_def Let_def split: if_splits)

lemma ring_put_below:
  assumes wf: "ring_wf r" and n: "0 \<le> nbytes" "nbytes \<le> int (length val)"
    and room: "nbytes \<le> epicsRingBytesFreeBytes r" and below: "nextPut r < nextGet r"
  shows "\<exists>r'. epicsRingBytesPut r val nbytes = (r', nbytes) \<and> ring_wf r' \<and>
           ring_contents r' = ring_contents r @ take (nat nbytes) val"
proof -
  let ?w = "mem_read val 0 nbytes"
  have w: "?w = take (nat nbytes) val" "length ?w = nat nbytes"
    using n by (simp_all add: mem_read_def)
  have fit: "nextPut r + nbytes + SLOP \<le> nextGet r" "nextGet r < size r" "0 \<le> nextPut r"
    and sz: "size r = int (length (buffer r))"
    using below wf room by (auto simp: ring_wf_def epicsRingBytesFreeBytes_def)
  have bnd: "nat (nextPut r) + length ?w \<le> length (buffer r)"
    using fit sz w n by (simp add: SLOP_def)
  have "mem_read (mem_write (buffer r) (nextPut r) ?w) (nextGet r) (size r - nextGet r) =
          mem_read (buffer r) (nextGet r) (size r - nextGet r)"
    using fit bnd w n by (intro mem_read_write_disjoint) (auto simp: SLOP_def)
  moreover have "mem_read (mem_write (buffer r) (nextPut r) ?w) 0 (nextPut r + nbytes) =
          mem_read (buffer r) 0 (nextPut r) @ ?w"
    using fit bnd w n
    by (simp add: mem_read_split mem_read_write_disjoint mem_read_write_same)
  ultimately show ?thesis
    using below fit bnd w n room wf
    by (auto simp: epicsRingBytesPut_def ring_wf_def ring_contents_def Let_def SLOP_def
        epicsRingBytesFreeBytes_def epicsRingBytesUsedBytes_def)
qed

lemma ring_put_top:
  assumes wf: "ring_wf r" and n: "0 \<le> nbytes" "nbytes \<le> int (length val)"
    and room: "nbytes \<le> epicsRingBytesFreeBytes r"
    and above: "nextGet r \<le> nextPut r" and top: "nbytes < size r - nextPut r"
  shows "\<exists>r'. epicsRingBytesPut r val nbytes = (r', nbytes) \<and> ring_wf r' \<and>
           ring_contents r' = ring_contents r @ take (nat nbytes) val"
proof -
  let ?w = "mem_read val 0 nbytes"
  have w: "?w = take (nat nbytes) val" "length ?w = nat nbytes"
    using n by (simp_all add: mem_read_def)
  have bnd: "nat (nextPut r) + length ?w \<le> length (buffer r)" "0 \<le> nextGet r"
    using wf w n top by (auto simp: ring_wf_def)
  have "nextPut r + nbytes - nextGet r = nextPut r - nextGet r + nbytes" by simp
  then have "mem_read (mem_write (buffer r) (nextPut r) ?w) (nextGet r)
            (nextPut r + nbytes - nextGet r) =
          mem_read (buffer r) (nextGet r) (nextPut r - nextGet r) @ ?w"
    using above bnd w n
    by (simp only:) (simp add: mem_read_split mem_read_write_disjoint mem_read_write_same)
  then show ?thesis
    using above top bnd w n room wf
    by (auto simp: epicsRingBytesPut_def ring_wf_def ring_contents_def Let_def SLOP_def
        epicsRingBytesFreeBytes_def epicsRingBytesUsedBytes_def)
qed

lemma ring_put_wrap:
  assumes wf: "ring_wf r" and n: "0 \<le> nbytes" "nbytes \<le> int (length val)"
    and room: "nbytes \<le> epicsRingBytesFreeBytes r"
    and above: "nextGet r \<le> nextPut r" and top: "size r - nextPut r \<le> nbytes"
  shows "\<exists>r'. epicsRingBytesPut r val nbytes = (r', nbytes) \<and> ring_wf r' \<and>
           ring_contents r' = ring_contents r @ take (nat nbytes) val"
proof -
  define t where "t = size r - nextPut r"
  let ?w = "mem_read val 0 t" and ?v = "mem_read val t (nbytes - t)"
  let ?b = "mem_write (buffer r) (nextPut r) ?w"
  have t: "0 < t" "t \<le> nbytes" "nextPut r + t = size r" "0 \<le> nextGet r"
    and sz: "size r = int (length (buffer r))"
    and left: "nbytes - t + SLOP \<le> nextGet r"
    using wf top room above by (auto simp: ring_wf_def t_def epicsRingBytesFreeBytes_def)
  have w: "?w @ ?v = take (nat nbytes) val" "length ?w = nat t" "length ?v = nat (nbytes - t)"
    using n t mem_read_split [of 0 t "nbytes - t" val] by (simp_all add: mem_read_def)
  have bnd: "nat (nextPut r) + length ?w \<le> length (buffer r)" "length ?b = length (buffer r)"
    using wf w t sz by (auto simp: ring_wf_def)
  have bnd0: "length ?v \<le> length ?b"
    using bnd w left sz wf by (simp add: SLOP_def ring_wf_def nat_le_iff)
  have "mem_read (mem_write ?b 0 ?v) (nextGet r) (nextPut r - nextGet r + t) =
          mem_read ?b (nextGet r) (nextPut r - nextGet r + t)"
    using above bnd bnd0 w t left
    by (intro mem_read_write_disjoint) (auto simp: SLOP_def)
  also have "\<dots> = mem_read (buffer r) (nextGet r) (nextPut r - nextGet r) @ ?w"
    using above bnd w t
    by (simp add: mem_read_split mem_read_write_disjoint mem_read_write_same)
  finally have "mem_read (mem_write ?b 0 ?v) (nextGet r) (size r - nextGet r) =
          mem_read (buffer r) (nextGet r) (nextPut r - nextGet r) @ ?w"
    using t by (simp add: algebra_simps flip: t(3))
  moreover have "mem_read (mem_write ?b 0 ?v) 0 (nbytes - t) = ?v"
    using bnd0 w t by (simp add: mem_read_write_same)
  moreover have "epicsRingBytesPut r val nbytes =
      (r\<lparr>buffer := mem_write ?b 0 ?v, nextPut := nbytes - t\<rparr>, nbytes)"
    using above room t
    by (auto simp: epicsRingBytesPut_def epicsRingBytesFreeBytes_def Let_def t_def)
  ultimately show ?thesis
    using above left bnd bnd0 w t room wf
    by (auto simp: ring_wf_def ring_contents_def SLOP_def
        epicsRingBytesFreeBytes_def epicsRingBytesUsedBytes_def Let_def)
qed

lemma ring_put_room:
  assumes "ring_wf r" and "0 \<le> nbytes" "nbytes \<le> int (length val)"
    and "nbytes \<le> epicsRingBytesFreeBytes r"
  shows "\<exists>r'. epicsRingBytesPut r val nbytes = (r', nbytes) \<and> ring_wf r' \<and>
           ring_contents r' = ring_contents r @ take (nat nbytes) val"
  using ring_put_below [OF assms] ring_put_top [OF assms] ring_put_wrap [OF assms]
  by (meson not_le)

lemma ring_get_linear:
  assumes wf: "ring_wf r" and n: "0 \<le> nbytes" and lin: "nextGet r \<le> nextPut r"
  shows "\<exists>r'. epicsRingBytesGet r nbytes =
             (r', take (nat nbytes) (ring_contents r),
              min nbytes (int (length (ring_contents r)))) \<and>
           ring_wf r' \<and> ring_contents r' = drop (nat nbytes) (ring_contents r)"
proof -
  define c where "c = nextPut r - nextGet r"
  define m where "m = min c nbytes"
  have c: "0 \<le> c" "ring_contents r = mem_read (buffer r) (nextGet r) c"
    "int (length (ring_contents r)) = c"
    using lin wf ring_used_contents [OF wf]
    by (auto simp: c_def ring_contents_def epicsRingBytesUsedBytes_def)
  have m: "0 \<le> m" "m \<le> c" "0 \<le> nextGet r"
    using c n wf by (auto simp: m_def ring_wf_def)
  have len: "length (ring_contents r) = nat c" using c by linarith
  have t: "take (nat nbytes) (ring_contents r) = mem_read (buffer r) (nextGet r) m"
    and d: "drop (nat nbytes) (ring_contents r) = mem_read (buffer r) (nextGet r + m) (c - m)"
    using take_mem_read [of m c "buffer r" "nextGet r"]
      drop_mem_read [of "nextGet r" m c "buffer r"] m c(2) len n
    by (auto simp: m_def min_def)
  have "epicsRingBytesGet r nbytes =
      (r\<lparr>nextGet := nextGet r + m\<rparr>, mem_read (buffer r) (nextGet r) m, m)"
    using lin by (auto simp: epicsRingBytesGet_def Let_def m_def c_def)
  then show ?thesis
    using t d m wf c(3)
    by (auto simp: m_def ring_wf_def ring_contents_def c_def SLOP_def Let_def
        epicsRingBytesUsedBytes_def algebra_simps)
qed

lemma ring_get_wrapped:
  assumes wf: "ring_wf r" and n: "0 \<le> nbytes" and wrap: "nextPut r < nextGet r"
  shows "\<exists>r'. epicsRingBytesGet r nbytes =
             (r', take (nat nbytes) (ring_contents r),
              min nbytes (int (length (ring_contents r)))) \<and>
           ring_wf r' \<and> ring_contents r' = drop (nat nbytes) (ring_contents r)"
proof -
  define c where "c = size r - nextGet r"
  let ?hi = "mem_read (buffer r) (nextGet r) c" and ?lo = "mem_read (buffer r) 0 (nextPut r)"
  have cont: "ring_contents r = ?hi @ ?lo"
    using wrap by (simp add: ring_contents_def c_def)
  have idx: "0 < c" "0 \<le> nextPut r" "0 \<le> nextGet r" "nextGet r + c = size r"
    and len: "length ?hi = nat c" "length ?lo = nat (nextPut r)"
    using wf by (auto simp: ring_wf_def c_def mem_read_def)
  show ?thesis
  proof (cases "nbytes < c")
    case True
    have "epicsRingBytesGet r nbytes =
        (r\<lparr>nextGet := nextGet r + nbytes\<rparr>, mem_read (buffer r) (nextGet r) nbytes, nbytes)"
      using wrap True idx by (auto simp: epicsRingBytesGet_def Let_def c_def)
    moreover have "take (nat nbytes) ?hi = mem_read (buffer r) (nextGet r) nbytes"
      "drop (nat nbytes) ?hi = mem_read (buffer r) (nextGet r + nbytes) (c - nbytes)"
      using True n idx by (simp_all add: take_mem_read drop_mem_read)
    ultimately show ?thesis
      using True n idx len wf wrap cont
      by (auto simp: ring_wf_def ring_contents_def c_def SLOP_def Let_def
          epicsRingBytesUsedBytes_def algebra_simps)
  next
    case False
    define m where "m = min (nbytes - c) (nextPut r)"
    have m: "0 \<le> m" "m \<le> nextPut r" using False idx by (auto simp: m_def)
    have "epicsRingBytesGet r nbytes =
        (r\<lparr>nextGet := m\<rparr>, ?hi @ mem_read (buffer r) 0 m, c + m)"
      using wrap False idx by (auto simp: epicsRingBytesGet_def Let_def c_def m_def)
    moreover have "take (nat nbytes) (ring_contents r) = ?hi @ mem_read (buffer r) 0 m"
      "drop (nat nbytes) (ring_contents r) = mem_read (buffer r) m (nextPut r - m)"
      using False m idx len cont take_mem_read [of m "nextPut r" "buffer r" 0]
        drop_mem_read [of 0 m "nextPut r" "buffer r"]
      by (auto simp: m_def min_def nat_diff_distrib)
    ultimately show ?thesis
      using False m idx len wf wrap cont
      by (auto simp: m_def ring_wf_def ring_contents_def c_def SLOP_def Let_def
          epicsRingBytesUsedBytes_def algebra_simps)
  qed
qed

lemma ring_get_refines:
  assumes "ring_wf r" and "0 \<le> nbytes"
  shows "\<exists>r'. epicsRingBytesGet r nbytes =
             (r', take (nat nbytes) (ring_contents r),
              min nbytes (int (length (ring_contents r)))) \<and>
           ring_wf r' \<and> ring_contents r' = drop (nat nbytes) (ring_contents r)"
  using ring_get_linear [OF assms] ring_get_wrapped [OF assms] by (meson not_le)

lemma ring_flush_refines:
  "ring_wf r \<Longrightarrow> ring_wf (epicsRingBytesFlush r) \<and> ring_contents (epicsRingBytesFlush r) = []"
  by (auto simp: epicsRingBytesFlush_def ring_wf_def ring_contents_def
      epicsRingBytesUsedBytes_def Let_def SLOP_def split: if_splits)

section \<open>The byte queue interface\<close>

text \<open>
  What a user of the ring relies on: a bounded byte queue. A run of requests collects the
  bytes the queue accepted and the bytes it delivered.
\<close>

datatype fifo_op = FPut "byte list" int | FGet int

fun fifo_op_ok :: "fifo_op \<Rightarrow> bool" where
  "fifo_op_ok (FPut v n) \<longleftrightarrow> 0 \<le> n \<and> n \<le> int (length v)"
| "fifo_op_ok (FGet n) \<longleftrightarrow> 0 \<le> n"

fun fifo_run ::
  "('q \<Rightarrow> byte list \<Rightarrow> int \<Rightarrow> 'q \<times> int) \<Rightarrow> ('q \<Rightarrow> int \<Rightarrow> 'q \<times> byte list \<times> int) \<Rightarrow>
   'q \<Rightarrow> fifo_op list \<Rightarrow> 'q \<times> byte list \<times> byte list" where
  "fifo_run put get q [] = (q, [], [])"
| "fifo_run put get q (FPut v n # ops) =
     (let (q1, m) = put q v n; (q2, ins, outs) = fifo_run put get q1 ops
      in (q2, take (nat m) v @ ins, outs))"
| "fifo_run put get q (FGet n # ops) =
     (let (q1, bs, m) = get q n; (q2, ins, outs) = fifo_run put get q1 ops
      in (q2, ins, bs @ outs))"

locale byte_fifo =
  fixes put :: "'q \<Rightarrow> byte list \<Rightarrow> int \<Rightarrow> 'q \<times> int"
    and get :: "'q \<Rightarrow> int \<Rightarrow> 'q \<times> byte list \<times> int"
    and room :: "'q \<Rightarrow> int"
    and contents :: "'q \<Rightarrow> byte list"
    and inv :: "'q \<Rightarrow> bool"
  assumes put_room: "inv q \<Longrightarrow> 0 \<le> n \<Longrightarrow> n \<le> int (length v) \<Longrightarrow> n \<le> room q \<Longrightarrow>
      \<exists>q'. put q v n = (q', n) \<and> inv q' \<and> contents q' = contents q @ take (nat n) v"
    and put_full: "inv q \<Longrightarrow> room q < n \<Longrightarrow> put q v n = (q, 0)"
    and get_take: "inv q \<Longrightarrow> 0 \<le> n \<Longrightarrow>
      \<exists>q'. get q n = (q', take (nat n) (contents q), min n (int (length (contents q)))) \<and>
           inv q' \<and> contents q' = drop (nat n) (contents q)"
begin

lemma put_total:
  assumes "inv q" "0 \<le> n" "n \<le> int (length v)"
  shows "\<exists>q' m. put q v n = (q', m) \<and> inv q' \<and> contents q' = contents q @ take (nat m) v"
proof (cases "n \<le> room q")
  case True
  then show ?thesis using put_room [OF assms] by blast
next
  case False
  then have "put q v n = (q, 0)" using put_full [OF assms(1)] by simp
  then show ?thesis using assms(1) by simp
qed

text \<open>Nothing is lost, duplicated or reordered over any run of requests.\<close>

lemma run_fifo:
  assumes "inv q" "list_all fifo_op_ok ops" "fifo_run put get q ops = (q', ins, outs)"
  shows "inv q' \<and> contents q @ ins = outs @ contents q'"
  using assms
proof (induction ops arbitrary: q ins outs)
  case Nil
  then show ?case by simp
next
  case (Cons op ops)
  show ?case
  proof (cases op)
    case (FPut v n)
    with Cons.prems obtain q1 m where q1: "put q v n = (q1, m)" "inv q1"
        "contents q1 = contents q @ take (nat m) v"
      using put_total [of q n v] by auto
    obtain ins' where "fifo_run put get q1 ops = (q', ins', outs)"
        "ins = take (nat m) v @ ins'"
      using Cons.prems(3) FPut q1(1) by (auto split: prod.splits)
    with Cons.IH [OF q1(2), of ins' outs] q1(3) Cons.prems(2) show ?thesis by simp
  next
    case (FGet n)
    with Cons.prems obtain q1 m where q1: "get q n = (q1, take (nat n) (contents q), m)" "inv q1"
        "contents q1 = drop (nat n) (contents q)"
      using get_take [of q n] by auto
    obtain outs' where outs': "fifo_run put get q1 ops = (q', ins, outs')"
        "outs = take (nat n) (contents q) @ outs'"
      using Cons.prems(3) FGet q1(1) by (auto split: prod.splits)
    with Cons.IH [OF q1(2), of ins outs'] q1(3) Cons.prems(2)
    have "inv q'" "drop (nat n) (contents q) @ ins = outs' @ contents q'" by simp_all
    then show ?thesis using outs'(2)
      by (metis append_assoc append_take_drop_id)
  qed
qed

end

interpretation rb: byte_fifo epicsRingBytesPut epicsRingBytesGet epicsRingBytesFreeBytes
  ring_contents ring_wf
  by unfold_locales (fact ring_put_room ring_put_full ring_get_refines)+

section \<open>Properties\<close>

lemma ring_put_cases:
  assumes "ring_wf r" "0 \<le> n" "n \<le> int (length v)"
  shows "if n \<le> epicsRingBytesFreeBytes r
         then snd (epicsRingBytesPut r v n) = n \<and> ring_wf (fst (epicsRingBytesPut r v n)) \<and>
              ring_contents (fst (epicsRingBytesPut r v n)) = ring_contents r @ take (nat n) v
         else epicsRingBytesPut r v n = (r, 0)"
  using ring_put_room [OF assms] ring_put_full [OF assms(1), of n v] by auto

definition ring_sample :: ringPvt where
  "ring_sample = \<lparr>lock = False, nextPut = 3, nextGet = 19, size = 21,
     buffer = [10, 11, 12] @ replicate 16 0 @ [8, 9]\<rparr>"

lemma ring_sample_wf: "ring_wf ring_sample"
  by (simp add: ring_sample_def ring_wf_def epicsRingBytesUsedBytes_def SLOP_def)

text \<open>
  C13: the ring is a first-in first-out queue. Over any sequence of puts and gets starting
  in a well-formed ring, what was in the ring followed by the bytes the puts accepted is
  what the gets delivered followed by what is still in the ring.
\<close>

theorem ring_is_fifo:
  assumes "ring_wf r" "list_all fifo_op_ok ops"
    and "fifo_run epicsRingBytesPut epicsRingBytesGet r ops = (r', ins, outs)"
  shows "ring_wf r' \<and> ring_contents r @ ins = outs @ ring_contents r'"
  using assms by (rule rb.run_fifo)

theorem ring_is_fifo_witness:
  "\<exists>r' ins outs.
     fifo_run epicsRingBytesPut epicsRingBytesGet ring_sample [FGet 3, FPut [1, 2] 2, FGet 9]
       = (r', ins, outs) \<and> ring_contents ring_sample @ ins = outs @ ring_contents r'"
proof -
  obtain r' ins outs where run: "fifo_run epicsRingBytesPut epicsRingBytesGet ring_sample
      [FGet 3, FPut [1, 2] 2, FGet 9] = (r', ins, outs)"
    by (rule prod_cases3)
  then show ?thesis using ring_is_fifo [OF ring_sample_wf _ run] by auto
qed

text \<open>
  A put is all or nothing. With room for the \<open>n\<close> bytes they are all appended and \<open>n\<close>
  is returned; otherwise 0 is returned and the ring is unchanged. The room reported by
  \<^verbatim>\<open>epicsRingBytesFreeBytes\<close> is exactly the size requested at creation less the bytes stored.
\<close>

theorem ring_put_all_or_nothing:
  assumes "ring_wf r" "0 \<le> n" "n \<le> int (length v)"
  shows "epicsRingBytesFreeBytes r = epicsRingBytesSize r - int (length (ring_contents r)) \<and>
    (if n \<le> epicsRingBytesFreeBytes r
     then snd (epicsRingBytesPut r v n) = n \<and> ring_wf (fst (epicsRingBytesPut r v n)) \<and>
          ring_contents (fst (epicsRingBytesPut r v n)) = ring_contents r @ take (nat n) v
     else epicsRingBytesPut r v n = (r, 0))"
  using ring_put_cases [OF assms] ring_free_used ring_used_contents assms(1) by simp

theorem ring_put_all_or_nothing_witness:
  "epicsRingBytesPut ring_sample [7] 1 = (ring_sample, 0)"
  using ring_put_all_or_nothing [OF ring_sample_wf, of 1 "[7]"]
  by (simp add: epicsRingBytesFreeBytes_def ring_sample_def SLOP_def)

end
