(* ===== verification/RingSpsc.thy ===== *)
theory RingSpsc
  imports RingBytes
begin

text \<open>
  The unlocked ring (\<^verbatim>\<open>epicsRingBytesCreate\<close>) shared by one producer and one consumer
  thread. A put or a get is split at its accesses to the shared indices: it reads the
  other side's index into a local, copies bytes, and only then publishes its own index.
  Steps of the two threads interleave freely (sequentially consistent memory).
\<close>

section \<open>Interleaved machine\<close>

datatype producer =
    PIdle
  | PRead int "byte list" int       \<comment> \<open>local \<open>nextGet\<close>, and the request\<close>
  | PCopied int "byte list"         \<comment> \<open>local \<open>nextPut\<close>, and the bytes copied in\<close>

datatype consumer =
    CIdle
  | CRead int int                   \<comment> \<open>local \<open>nextPut\<close>, and the request\<close>
  | CCopied int "byte list"         \<comment> \<open>local \<open>nextGet\<close>, and the bytes copied out\<close>

record spsc =
  ring :: ringPvt
  producer :: producer
  consumer :: consumer
  put_log :: "byte list"   \<comment> \<open>bytes of all completed puts\<close>
  got_log :: "byte list"   \<comment> \<open>bytes of all completed gets\<close>

inductive spsc_step :: "spsc \<Rightarrow> spsc \<Rightarrow> bool" where
  p_read: "producer s = PIdle \<Longrightarrow> 0 \<le> n \<Longrightarrow> n \<le> int (length v) \<Longrightarrow>
     spsc_step s (s\<lparr>producer := PRead (nextGet (ring s)) v n\<rparr>)"
| p_full: "producer s = PRead g v n \<Longrightarrow>
     epicsRingBytesPut (ring s\<lparr>nextGet := g\<rparr>) v n = (r', 0) \<Longrightarrow>
     spsc_step s (s\<lparr>producer := PIdle\<rparr>)"
| p_copy: "producer s = PRead g v n \<Longrightarrow>
     epicsRingBytesPut (ring s\<lparr>nextGet := g\<rparr>) v n = (r', m) \<Longrightarrow> m \<noteq> 0 \<Longrightarrow>
     spsc_step s (s\<lparr>ring := ring s\<lparr>buffer := buffer r'\<rparr>,
                    producer := PCopied (nextPut r') (take (nat m) v)\<rparr>)"
| p_publish: "producer s = PCopied p w \<Longrightarrow>
     spsc_step s (s\<lparr>ring := ring s\<lparr>nextPut := p\<rparr>, producer := PIdle,
                    put_log := put_log s @ w\<rparr>)"
| c_read: "consumer s = CIdle \<Longrightarrow> 0 \<le> n \<Longrightarrow>
     spsc_step s (s\<lparr>consumer := CRead (nextPut (ring s)) n\<rparr>)"
| c_copy: "consumer s = CRead p n \<Longrightarrow>
     epicsRingBytesGet (ring s\<lparr>nextPut := p\<rparr>) n = (r', bs, m) \<Longrightarrow>
     spsc_step s (s\<lparr>consumer := CCopied (nextGet r') bs\<rparr>)"
| c_publish: "consumer s = CCopied g bs \<Longrightarrow>
     spsc_step s (s\<lparr>ring := ring s\<lparr>nextGet := g\<rparr>, consumer := CIdle,
                    got_log := got_log s @ bs\<rparr>)"

definition spsc_init :: "byte list \<Rightarrow> int \<Rightarrow> spsc" where
  "spsc_init junk sz =
     \<lparr>ring = the (epicsRingBytesCreate (Some junk) sz), producer = PIdle, consumer = CIdle,
      put_log = [], got_log = []\<rparr>"

inductive spsc_reachable :: "byte list \<Rightarrow> int \<Rightarrow> spsc \<Rightarrow> bool" for junk sz where
  start: "spsc_reachable junk sz (spsc_init junk sz)"
| step: "spsc_reachable junk sz s \<Longrightarrow> spsc_step s t \<Longrightarrow> spsc_reachable junk sz t"

section \<open>Absolute stream positions\<close>

text \<open>
  \<^term>\<open>seg b a e\<close> is the stretch of the byte stream stored at the absolute positions
  \<open>a, \<dots>, e - 1\<close>; position \<open>i\<close> lives at index \<open>i mod length b\<close>. The ring holds the
  positions from the total number of bytes taken out to the total number put in.
\<close>

definition seg :: "byte list \<Rightarrow> int \<Rightarrow> int \<Rightarrow> byte list" where
  "seg b a e = map (\<lambda>i. b ! nat (i mod int (length b))) [a..e - 1]"

definition at_pos :: "ringPvt \<Rightarrow> int \<Rightarrow> int \<Rightarrow> bool" where
  "at_pos r a e \<longleftrightarrow>
     SLOP \<le> size r \<and> size r = int (length (buffer r)) \<and>
     0 \<le> a \<and> a \<le> e \<and> e - a \<le> size r - SLOP \<and>
     nextGet r = a mod size r \<and> nextPut r = e mod size r"

lemma length_seg [simp]: "length (seg b a e) = nat (e - a)"
  by (simp add: seg_def)

lemma seg_append: "a \<le> m \<Longrightarrow> m \<le> e \<Longrightarrow> seg b a e = seg b a m @ seg b m e"
proof -
  assume "a \<le> m" "m \<le> e"
  then have "[a..e - 1] = [a..m - 1] @ [m..e - 1]"
    by (metis diff_add_cancel le_less upto_split1 upto_split2 zle_diff1_eq
        append_Nil upto_empty upto_Nil)
  then show ?thesis by (simp add: seg_def)
qed

lemma seg_nth: "a \<le> i \<Longrightarrow> i < e \<Longrightarrow> seg b a e ! nat (i - a) = b ! nat (i mod int (length b))"
  by (simp add: seg_def)

lemma mod_diff_wrap:
  fixes a e m :: int
  assumes "0 \<le> e - a" "e - a < m"
  shows "(if e mod m - a mod m < 0 then e mod m - a mod m + m else e mod m - a mod m) = e - a"
proof -
  have "(e mod m - a mod m) mod m = e - a"
    using assms by (simp add: mod_diff_eq)
  moreover define x where "x = e mod m - a mod m"
  moreover have "- m < x" "x < m"
    using assms pos_mod_bound [of m e] pos_mod_bound [of m a] pos_mod_sign [of m e]
      pos_mod_sign [of m a] unfolding x_def by linarith+
  moreover have "x < 0 \<Longrightarrow> x mod m = x + m"
    using \<open>- m < x\<close> by (metis add.commute less_add_same_cancel1 less_eq_neg_nonpos
        linorder_not_le minus_less_iff mod_add_self2 mod_pos_pos_trivial neg_less_iff_less
        add_less_cancel_left add.right_neutral diff_gt_0_iff_gt diff_minus_eq_add less_le)
  ultimately show ?thesis by (auto simp: not_less)
qed

lemma at_pos_wf:
  assumes "at_pos r a e"
  shows "ring_wf r" "epicsRingBytesUsedBytes r = e - a"
proof -
  have "0 \<le> e - a" "e - a < size r" and m: "0 < size r"
    using assms by (auto simp: at_pos_def SLOP_def)
  moreover have "nextGet r = a mod size r" "nextPut r = e mod size r"
    using assms by (auto simp: at_pos_def)
  ultimately show used: "epicsRingBytesUsedBytes r = e - a"
    unfolding epicsRingBytesUsedBytes_def Let_def by (simp only: mod_diff_wrap)
  show "ring_wf r"
    using assms m used by (simp add: ring_wf_def at_pos_def)
qed

lemma ring_contents_nth:
  assumes wf: "ring_wf r" and i: "0 \<le> i" "i < epicsRingBytesUsedBytes r"
  shows "ring_contents r ! nat i = buffer r ! nat ((nextGet r + i) mod size r)"
proof (cases "nextGet r + i < size r")
  case True
  then have "(nextGet r + i) mod size r = nextGet r + i"
    using wf i by (simp add: ring_wf_def)
  then show ?thesis
    using True wf i
    by (auto simp: ring_contents_def ring_wf_def mem_read_def epicsRingBytesUsedBytes_def Let_def
        nth_append nat_add_distrib split: if_splits)
next
  case False
  have "(nextGet r + i) mod size r = (nextGet r + i - size r) mod size r" by simp
  also have "\<dots> = nextGet r + i - size r"
    using False wf i unfolding ring_wf_def SLOP_def by (intro mod_pos_pos_trivial) linarith+
  finally show ?thesis
    using False wf i
    by (auto simp: ring_contents_def ring_wf_def mem_read_def epicsRingBytesUsedBytes_def Let_def
        nth_append nat_add_distrib nat_diff_distrib add.commute [of "nat (nextGet r)"]
        split: if_splits)
qed

lemma at_pos_contents:
  assumes "at_pos r a e"
  shows "ring_contents r = seg (buffer r) a e"
proof (rule nth_equalityI)
  have ae: "a \<le> e" and sz: "size r = int (length (buffer r))"
    and get: "nextGet r = a mod size r" using assms by (auto simp: at_pos_def)
  note wf = at_pos_wf [OF assms]
  show len: "length (ring_contents r) = length (seg (buffer r) a e)"
    using ring_used_contents [OF wf(1)] wf(2) ae by simp
  fix k assume "k < length (ring_contents r)"
  then have k: "int k < e - a" using len ae by simp
  have "ring_contents r ! nat (int k) = buffer r ! nat ((a + int k) mod size r)"
    using ring_contents_nth [OF wf(1), of "int k"] k wf(2) get by (simp add: mod_add_left_eq)
  then show "ring_contents r ! k = seg (buffer r) a e ! k"
    using seg_nth [of a "a + int k" e "buffer r"] k sz by simp
qed

section \<open>Puts and gets on stale snapshots\<close>

lemma ring_put_frame:
  "epicsRingBytesPut r v n = (r', m) \<Longrightarrow> nextGet r' = nextGet r \<and> size r' = size r"
  by (auto simp: epicsRingBytesPut_def Let_def split: if_splits)

lemma ring_get_frame:
  "epicsRingBytesGet r n = (r', bs, m) \<Longrightarrow>
   nextPut r' = nextPut r \<and> size r' = size r \<and> buffer r' = buffer r"
  by (auto simp: epicsRingBytesGet_def Let_def split: if_splits)

lemma used_index:
  assumes "ring_wf r"
  shows "nextPut r = (nextGet r + epicsRingBytesUsedBytes r) mod size r"
    and "nextGet r = (nextPut r - epicsRingBytesUsedBytes r) mod size r"
  using assms unfolding ring_wf_def epicsRingBytesUsedBytes_def Let_def
  by (auto split: if_splits)

lemma put_at_pos:
  assumes pos: "at_pos r a e" and n: "0 \<le> n" "n \<le> int (length v)"
    and res: "epicsRingBytesPut r v n = (r', m)"
  shows "(r' = r \<and> m = 0) \<or> (m = n \<and> at_pos r' a (e + n) \<and>
          seg (buffer r') a (e + n) = seg (buffer r) a e @ take (nat n) v)"
proof (cases "n \<le> epicsRingBytesFreeBytes r")
  case True
  note wf = at_pos_wf [OF pos]
  from ring_put_room [OF wf(1) n True] res
  have r': "m = n" "ring_wf r'" "ring_contents r' = ring_contents r @ take (nat n) v" by auto
  note fr = ring_put_frame [OF res]
  have used: "epicsRingBytesUsedBytes r' = e + n - a"
    using ring_used_contents [OF r'(2)] ring_used_contents [OF wf(1)] wf(2) r'(3) n by simp
  have "nextPut r' = (a mod size r + (e + n - a)) mod size r"
    using used_index(1) [OF r'(2)] used fr pos by (simp add: at_pos_def)
  also have "\<dots> = (e + n) mod size r" by (simp add: mod_add_left_eq)
  finally have "at_pos r' a (e + n)"
    using pos fr used r'(2) n by (simp add: at_pos_def ring_wf_def)
  then show ?thesis
    using r'(1,3) at_pos_contents [OF pos] at_pos_contents by metis
next
  case False
  then show ?thesis using ring_put_full [OF at_pos_wf(1) [OF pos], of n v] res by simp
qed

lemma get_at_pos:
  assumes pos: "at_pos r a e" and n: "0 \<le> n"
    and res: "epicsRingBytesGet r n = (r', bs, m)"
  shows "0 \<le> m \<and> a + m \<le> e \<and> nextGet r' = (a + m) mod size r \<and> bs = seg (buffer r) a (a + m)"
proof -
  note wf = at_pos_wf [OF pos]
  have ae: "a \<le> e" using pos by (simp add: at_pos_def)
  have cont: "ring_contents r = seg (buffer r) a e" by (rule at_pos_contents [OF pos])
  from ring_get_refines [OF wf(1) n] res
  have r': "bs = take (nat n) (ring_contents r)" "m = min n (int (length (ring_contents r)))"
    "ring_wf r'" "ring_contents r' = drop (nat n) (ring_contents r)" by auto
  note fr = ring_get_frame [OF res]
  have m: "0 \<le> m" "a + m \<le> e" "m = min n (e - a)"
    using r'(2) cont n ae by auto
  have used: "epicsRingBytesUsedBytes r' = e - (a + m)"
    using ring_used_contents [OF r'(3)] r'(4) cont m ae n by auto
  have "nextGet r' = (e mod size r - (e - (a + m))) mod size r"
    using used_index(2) [OF r'(3)] used fr pos by (simp add: at_pos_def)
  also have "\<dots> = (a + m) mod size r" by (simp add: mod_diff_left_eq)
  finally have get: "nextGet r' = (a + m) mod size r" .
  have "bs = take (nat m) (seg (buffer r) a e)"
    using r'(1) m(3) ae unfolding cont by (auto simp: min_def)
  also have "\<dots> = seg (buffer r) a (a + m)"
    using m by (subst seg_append [of a "a + m" e]) simp_all
  finally show ?thesis using m get by simp
qed

section \<open>The invariant of the interleaved machine\<close>

text \<open>
  With \<open>e\<close> bytes put and \<open>a\<close> taken out so far: a pending put was checked against an older
  number of bytes taken, so it can only have underestimated the room; a pending get was
  checked against an older number of bytes put.
\<close>

fun producer_inv :: "ringPvt \<Rightarrow> int \<Rightarrow> int \<Rightarrow> producer \<Rightarrow> bool" where
  "producer_inv r a e PIdle \<longleftrightarrow> True"
| "producer_inv r a e (PRead g v n) \<longleftrightarrow>
     0 \<le> n \<and> n \<le> int (length v) \<and> (\<exists>a'. a' \<le> a \<and> at_pos (r\<lparr>nextGet := g\<rparr>) a' e)"
| "producer_inv r a e (PCopied p w) \<longleftrightarrow>
     at_pos (r\<lparr>nextPut := p\<rparr>) a (e + int (length w)) \<and> seg (buffer r) e (e + int (length w)) = w"

fun consumer_inv :: "ringPvt \<Rightarrow> int \<Rightarrow> int \<Rightarrow> consumer \<Rightarrow> bool" where
  "consumer_inv r a e CIdle \<longleftrightarrow> True"
| "consumer_inv r a e (CRead p n) \<longleftrightarrow> 0 \<le> n \<and> (\<exists>e'. e' \<le> e \<and> at_pos (r\<lparr>nextPut := p\<rparr>) a e')"
| "consumer_inv r a e (CCopied g bs) \<longleftrightarrow>
     g = (a + int (length bs)) mod size r \<and> a + int (length bs) \<le> e \<and>
     bs = seg (buffer r) a (a + int (length bs))"

definition spsc_inv :: "spsc \<Rightarrow> bool" where
  "spsc_inv s \<longleftrightarrow>
     (let r = ring s; a = int (length (got_log s)); e = int (length (put_log s)) in
      at_pos r a e \<and> put_log s = got_log s @ seg (buffer r) a e \<and>
      producer_inv r a e (producer s) \<and> consumer_inv r a e (consumer s))"

text \<open>A put copied against a stale snapshot leaves the stored stretch of the stream alone.\<close>

lemma seg_prefix:
  assumes "seg b' a' (e + n) = seg b a' e @ w" "a' \<le> a" "a \<le> e" "0 \<le> n" "n = int (length w)"
  shows "seg b' a e = seg b a e" "seg b' e (e + n) = w"
proof -
  have "seg b' a' a @ seg b' a e @ seg b' e (e + n) = seg b a' a @ seg b a e @ w"
    using assms seg_append [of a' a e b] seg_append [of a' a "e + n" b']
      seg_append [of a e "e + n" b'] by simp
  then show "seg b' a e = seg b a e" "seg b' e (e + n) = w" by simp_all
qed

lemma seg_eq_parts:
  assumes "seg b' a e = seg b a e" "a \<le> k" "k \<le> e"
  shows "seg b' a k = seg b a k" "seg b' k e = seg b k e"
  using assms seg_append [of a k e b] seg_append [of a k e b'] by auto

lemma consumer_inv_buffer:
  assumes "consumer_inv r a e c" "seg b' a e = seg (buffer r) a e"
    "length b' = length (buffer r)"
  shows "consumer_inv (r\<lparr>buffer := b'\<rparr>) a e c"
proof (cases c)
  case (CCopied g bs)
  with assms seg_eq_parts(1) [OF assms(2), of "a + int (length bs)"] show ?thesis by auto
qed (use assms in \<open>auto simp: at_pos_def\<close>)

lemma consumer_inv_publish:
  assumes "consumer_inv r a e c" "e \<le> e'"
  shows "consumer_inv (r\<lparr>nextPut := p\<rparr>) a e' c"
proof (cases c)
  case (CRead q n)
  with assms obtain e0 where "e0 \<le> e" "at_pos (r\<lparr>nextPut := q\<rparr>) a e0" "0 \<le> n" by auto
  with assms(2) CRead show ?thesis by (auto intro!: exI [of _ e0])
qed (use assms in auto)

lemma p_copy_inv:
  assumes inv: "spsc_inv s" and p: "producer s = PRead g v n"
    and put: "epicsRingBytesPut (ring s\<lparr>nextGet := g\<rparr>) v n = (r', m)" and m: "m \<noteq> 0"
  shows "spsc_inv (s\<lparr>ring := ring s\<lparr>buffer := buffer r'\<rparr>,
                     producer := PCopied (nextPut r') (take (nat m) v)\<rparr>)"
proof -
  define r a e where "r = ring s" and "a = int (length (got_log s))"
    and "e = int (length (put_log s))"
  note abbr = r_def [symmetric] a_def [symmetric] e_def [symmetric]
  from inv p have pos: "at_pos r a e" and log: "put_log s = got_log s @ seg (buffer r) a e"
    and n: "0 \<le> n" "n \<le> int (length v)" and cons: "consumer_inv r a e (consumer s)"
    by (auto simp: spsc_inv_def Let_def abbr)
  from inv p obtain a' where a': "a' \<le> a" "at_pos (r\<lparr>nextGet := g\<rparr>) a' e"
    by (auto simp: spsc_inv_def Let_def abbr)
  from put_at_pos [OF a'(2) n put [unfolded abbr]] m
  have r': "m = n" "at_pos r' a' (e + n)"
    "seg (buffer r') a' (e + n) = seg (buffer r) a' e @ take (nat n) v" by auto
  have ae: "a \<le> e" using pos by (simp add: at_pos_def)
  note keep = seg_prefix [OF r'(3) a'(1) ae n(1)]
  have len: "length (buffer r') = length (buffer r)" "size r' = size r"
    using r'(2) pos ring_put_frame [OF put [unfolded abbr]] by (auto simp: at_pos_def)
  have w: "int (length (take (nat m) v)) = n" using n r'(1) by simp
  have "consumer_inv (r\<lparr>buffer := buffer r'\<rparr>) a e (consumer s)"
    using cons keep(1) w r'(1) len by (intro consumer_inv_buffer) simp_all
  moreover have "producer_inv (r\<lparr>buffer := buffer r'\<rparr>) a e
      (PCopied (nextPut r') (take (nat m) v))"
    using keep(2) r'(1,2) pos a'(1) len w n by (simp add: at_pos_def)
  moreover have "at_pos (r\<lparr>buffer := buffer r'\<rparr>) a e"
    using pos len by (simp add: at_pos_def)
  ultimately show ?thesis
    using log keep(1) w r'(1) ae by (simp add: spsc_inv_def Let_def abbr)
qed

lemma p_publish_inv:
  assumes "spsc_inv s" "producer s = PCopied p w"
  shows "spsc_inv (s\<lparr>ring := ring s\<lparr>nextPut := p\<rparr>, producer := PIdle,
                     put_log := put_log s @ w\<rparr>)"
proof -
  let ?a = "int (length (got_log s))" and ?e = "int (length (put_log s))"
  have ae: "?a \<le> ?e" using assms by (simp add: spsc_inv_def at_pos_def Let_def)
  have "consumer_inv (ring s\<lparr>nextPut := p\<rparr>) ?a (?e + int (length w)) (consumer s)"
    using assms by (intro consumer_inv_publish [where e = ?e]) (simp_all add: spsc_inv_def Let_def)
  then show ?thesis
    using assms seg_append [of ?a ?e "?e + int (length w)" "buffer (ring s)"] ae
    by (simp add: spsc_inv_def Let_def)
qed

lemma c_copy_inv:
  assumes "spsc_inv s" "consumer s = CRead p n"
    and get: "epicsRingBytesGet (ring s\<lparr>nextPut := p\<rparr>) n = (r', bs, m)"
  shows "spsc_inv (s\<lparr>consumer := CCopied (nextGet r') bs\<rparr>)"
proof -
  let ?a = "int (length (got_log s))" and ?e = "int (length (put_log s))"
  from assms obtain e' where e': "e' \<le> ?e" "at_pos (ring s\<lparr>nextPut := p\<rparr>) ?a e'" "0 \<le> n"
    by (auto simp: spsc_inv_def Let_def)
  from get_at_pos [OF e'(2,3) get] show ?thesis
    using assms(1) e'(1) by (auto simp: spsc_inv_def Let_def)
qed

lemma c_publish_inv:
  assumes "spsc_inv s" "consumer s = CCopied g bs"
  shows "spsc_inv (s\<lparr>ring := ring s\<lparr>nextGet := g\<rparr>, consumer := CIdle,
                     got_log := got_log s @ bs\<rparr>)"
proof -
  let ?r = "ring s" and ?a = "int (length (got_log s))" and ?e = "int (length (put_log s))"
  let ?a' = "?a + int (length bs)"
  have pos: "at_pos ?r ?a ?e" and a': "?a' \<le> ?e" "g = ?a' mod size ?r"
    and prod: "producer_inv ?r ?a ?e (producer s)"
    and log: "put_log s = got_log s @ seg (buffer ?r) ?a ?e"
    and bs: "bs = seg (buffer ?r) ?a ?a'"
    using assms by (simp_all add: spsc_inv_def Let_def)
  have "at_pos (?r\<lparr>nextGet := g\<rparr>) ?a' ?e"
    using pos a' by (simp add: at_pos_def)
  moreover have "producer_inv (?r\<lparr>nextGet := g\<rparr>) ?a' ?e (producer s)"
  proof (cases "producer s")
    case (PRead g' v n)
    with prod obtain a0 where "a0 \<le> ?a" "at_pos (?r\<lparr>nextGet := g'\<rparr>) a0 ?e" by auto
    with PRead prod show ?thesis by (auto intro!: exI [of _ a0])
  next
    case (PCopied p w)
    with prod a' show ?thesis by (simp add: at_pos_def)
  qed simp
  moreover have "put_log s = got_log s @ bs @ seg (buffer ?r) ?a' ?e"
    using log bs seg_append [of ?a ?a' ?e "buffer ?r"] a'(1) by simp
  ultimately show ?thesis by (simp add: spsc_inv_def Let_def)
qed

lemma spsc_step_inv: "spsc_step s t \<Longrightarrow> spsc_inv s \<Longrightarrow> spsc_inv t"
proof (induction rule: spsc_step.induct)
  case (p_copy s g v n r' m)
  then show ?case using p_copy_inv by blast
next
  case (p_publish s p w)
  then show ?case using p_publish_inv by blast
next
  case (c_copy s p n r' bs m)
  then show ?case using c_copy_inv by blast
next
  case (c_publish s g bs)
  then show ?case using c_publish_inv by blast
qed (auto simp: spsc_inv_def Let_def)

lemma spsc_init_inv:
  "0 \<le> sz \<Longrightarrow> int (length junk) = sz + SLOP \<Longrightarrow> spsc_inv (spsc_init junk sz)"
  by (auto simp: spsc_inv_def spsc_init_def epicsRingBytesCreate_def at_pos_def Let_def
      seg_def SLOP_def)

lemma spsc_reachable_inv:
  "spsc_reachable junk sz s \<Longrightarrow> 0 \<le> sz \<Longrightarrow> int (length junk) = sz + SLOP \<Longrightarrow> spsc_inv s"
  by (induction rule: spsc_reachable.induct) (auto intro: spsc_init_inv spsc_step_inv)

section \<open>Property\<close>

text \<open>
  C12: an unlocked ring used by one producer and one consumer thread is safe under every
  interleaving of their accesses to the shared indices and the buffer. The bytes delivered
  so far are a prefix of the bytes put so far, the rest is what the ring stores, and no more
  than the requested size is ever stored.
\<close>

theorem spsc_safe:
  assumes "spsc_reachable junk sz s" "0 \<le> sz" "int (length junk) = sz + SLOP"
  shows "put_log s = got_log s @ ring_contents (ring s) \<and> ring_wf (ring s) \<and>
         int (length (ring_contents (ring s))) \<le> size (ring s) - SLOP"
proof -
  have "spsc_inv s" using assms by (rule spsc_reachable_inv)
  then have pos: "at_pos (ring s) (int (length (got_log s))) (int (length (put_log s)))"
    and log: "put_log s = got_log s @
      seg (buffer (ring s)) (int (length (got_log s))) (int (length (put_log s)))"
    by (simp_all add: spsc_inv_def Let_def)
  note wf = at_pos_wf [OF pos]
  show ?thesis
    using at_pos_contents [OF pos] log wf ring_used_contents [OF wf(1)]
    by (simp add: ring_wf_def)
qed

definition spsc_sample :: spsc where
  "spsc_sample = (let s = spsc_init (replicate 20 0) 4 in
     s\<lparr>producer := PRead (nextGet (ring s)) [5, 6] 2, consumer := CRead (nextPut (ring s)) 3\<rparr>)"

lemma spsc_sample_reachable: "spsc_reachable (replicate 20 0) 4 spsc_sample"
proof -
  let ?s = "spsc_init (replicate 20 0) 4"
  have "spsc_step ?s (?s\<lparr>producer := PRead (nextGet (ring ?s)) [5, 6] 2\<rparr>)"
    by (rule spsc_step.p_read) (simp_all add: spsc_init_def)
  moreover have "spsc_step (?s\<lparr>producer := PRead (nextGet (ring ?s)) [5, 6] 2\<rparr>) spsc_sample"
    using spsc_step.c_read [of "?s\<lparr>producer := PRead (nextGet (ring ?s)) [5, 6] 2\<rparr>" 3]
    by (simp add: spsc_sample_def spsc_init_def Let_def)
  ultimately show ?thesis
    by (blast intro: spsc_reachable.intros)
qed

theorem spsc_safe_witness:
  "put_log spsc_sample = got_log spsc_sample @ ring_contents (ring spsc_sample)"
  using spsc_safe [OF spsc_sample_reachable] by (simp add: SLOP_def)

end
