(* ===== verification/EllLib.thy ===== *)
theory EllLib
  imports Epics_Prelude
begin

text \<open>
  The intrusive doubly linked list of \<^verbatim>\<open>modules/libcom/src/ellLib/ellLib.c\<close>. Nodes live in an
  explicit heap, a partial map from addresses to nodes; an operation that dereferences NULL
  or an address outside the heap has the result \<open>None\<close>. List headers are passed and returned
  as values, as the callers own them.
\<close>

section \<open>Nodes, headers and the heap\<close>

record ELLNODE =
  ell_next :: "addr option"
  ell_previous :: "addr option"

record ELLLIST =
  node :: ELLNODE
  count :: int

type_synonym ell_heap = "addr \<rightharpoonup> ELLNODE"

definition ellInit :: ELLLIST where
  "ellInit = \<lparr>node = \<lparr>ell_next = None, ell_previous = None\<rparr>, count = 0\<rparr>"

abbreviation ellCount :: "ELLLIST \<Rightarrow> int" where
  "ellCount l \<equiv> count l"

abbreviation ellFirst :: "ELLLIST \<Rightarrow> addr option" where
  "ellFirst l \<equiv> ell_next (node l)"

abbreviation ellLast :: "ELLLIST \<Rightarrow> addr option" where
  "ellLast l \<equiv> ell_previous (node l)"

text \<open>Reading and writing a field through a pointer.\<close>

definition ell_get_next :: "ell_heap \<Rightarrow> addr option \<Rightarrow> addr option option" where
  "ell_get_next h p = do { a \<leftarrow> p; n \<leftarrow> h a; Some (ell_next n) }"

definition ell_get_previous :: "ell_heap \<Rightarrow> addr option \<Rightarrow> addr option option" where
  "ell_get_previous h p = do { a \<leftarrow> p; n \<leftarrow> h a; Some (ell_previous n) }"

definition ell_set_next :: "ell_heap \<Rightarrow> addr option \<Rightarrow> addr option \<Rightarrow> ell_heap option" where
  "ell_set_next h p v = do { a \<leftarrow> p; n \<leftarrow> h a; Some (h(a \<mapsto> n\<lparr>ell_next := v\<rparr>)) }"

definition ell_set_previous :: "ell_heap \<Rightarrow> addr option \<Rightarrow> addr option \<Rightarrow> ell_heap option" where
  "ell_set_previous h p v = do { a \<leftarrow> p; n \<leftarrow> h a; Some (h(a \<mapsto> n\<lparr>ell_previous := v\<rparr>)) }"

definition ell_set_first :: "ELLLIST \<Rightarrow> addr option \<Rightarrow> ELLLIST" where
  "ell_set_first l v = l\<lparr>node := (node l)\<lparr>ell_next := v\<rparr>\<rparr>"

definition ell_set_last :: "ELLLIST \<Rightarrow> addr option \<Rightarrow> ELLLIST" where
  "ell_set_last l v = l\<lparr>node := (node l)\<lparr>ell_previous := v\<rparr>\<rparr>"

section \<open>Operations\<close>

definition ellAdd :: "ell_heap \<Rightarrow> ELLLIST \<Rightarrow> addr \<Rightarrow> (ell_heap \<times> ELLLIST) option" where
  "ellAdd h l n = do {
     h \<leftarrow> ell_set_next h (Some n) None;
     h \<leftarrow> ell_set_previous h (Some n) (ellLast l);
     (h, l) \<leftarrow> (if count l \<noteq> 0
                then do { h \<leftarrow> ell_set_next h (ellLast l) (Some n); Some (h, l) }
                else Some (h, ell_set_first l (Some n)));
     Some (h, (ell_set_last l (Some n))\<lparr>count := count l + 1\<rparr>) }"

definition ellConcat ::
  "ell_heap \<Rightarrow> ELLLIST \<Rightarrow> ELLLIST \<Rightarrow> (ell_heap \<times> ELLLIST \<times> ELLLIST) option" where
  "ellConcat h dst add =
     (if count add = 0 then Some (h, dst, add)
      else do {
        (h, dst) \<leftarrow>
          (if count dst = 0
           then Some (h, dst\<lparr>node := \<lparr>ell_next = ellFirst add, ell_previous = ellLast add\<rparr>,
                             count := count add\<rparr>)
           else do {
             h \<leftarrow> ell_set_next h (ellLast dst) (ellFirst add);
             h \<leftarrow> ell_set_previous h (ellFirst add) (ellLast dst);
             Some (h, (ell_set_last dst (ellLast add))\<lparr>count := count dst + count add\<rparr>) });
        Some (h, dst, ellInit) })"

definition ellDelete :: "ell_heap \<Rightarrow> ELLLIST \<Rightarrow> addr \<Rightarrow> (ell_heap \<times> ELLLIST) option" where
  "ellDelete h l n = do {
     (h, l) \<leftarrow> (if ellLast l = Some n
                then do { p \<leftarrow> ell_get_previous h (Some n); Some (h, ell_set_last l p) }
                else do {
                  q \<leftarrow> ell_get_next h (Some n);
                  p \<leftarrow> ell_get_previous h (Some n);
                  h \<leftarrow> ell_set_previous h q p;
                  Some (h, l) });
     (h, l) \<leftarrow> (if ellFirst l = Some n
                then do { q \<leftarrow> ell_get_next h (Some n); Some (h, ell_set_first l q) }
                else do {
                  p \<leftarrow> ell_get_previous h (Some n);
                  q \<leftarrow> ell_get_next h (Some n);
                  h \<leftarrow> ell_set_next h p q;
                  Some (h, l) });
     Some (h, l\<lparr>count := count l - 1\<rparr>) }"

text \<open>The counting loop of \<^verbatim>\<open>ellExtract\<close>; \<open>None\<close> when it runs off the list or never ends.\<close>

partial_function (option) ell_count_to ::
  "ell_heap \<Rightarrow> addr option \<Rightarrow> addr option \<Rightarrow> int \<Rightarrow> int option" where
  "ell_count_to h p e c =
     (if p = e then Some c
      else do { q \<leftarrow> ell_get_next h p; ell_count_to h q e (c + 1) })"

definition ellExtract ::
  "ell_heap \<Rightarrow> ELLLIST \<Rightarrow> addr \<Rightarrow> addr \<Rightarrow> ELLLIST \<Rightarrow> (ell_heap \<times> ELLLIST \<times> ELLLIST) option" where
  "ellExtract h src s e dst = do {
     sp \<leftarrow> ell_get_previous h (Some s);
     en \<leftarrow> ell_get_next h (Some e);
     (h, src) \<leftarrow> (if sp \<noteq> None
                  then do { h \<leftarrow> ell_set_next h sp en; Some (h, src) }
                  else Some (h, ell_set_first src en));
     en \<leftarrow> ell_get_next h (Some e);
     sp \<leftarrow> ell_get_previous h (Some s);
     (h, src) \<leftarrow> (if en \<noteq> None
                  then do {
                    h \<leftarrow> ell_set_previous h en sp;
                    h \<leftarrow> ell_set_next h (Some e) None;
                    Some (h, src) }
                  else Some (h, ell_set_last src sp));
     h \<leftarrow> ell_set_previous h (Some s) (ellLast dst);
     (h, dst) \<leftarrow> (if count dst \<noteq> 0
                  then do { h \<leftarrow> ell_set_next h (ellLast dst) (Some s); Some (h, dst) }
                  else Some (h, ell_set_first dst (Some s)));
     dst \<leftarrow> Some (ell_set_last dst (Some e));
     c \<leftarrow> ell_count_to h (Some s) (Some e) 1;
     Some (h, src\<lparr>count := count src - c\<rparr>, dst\<lparr>count := count dst + c\<rparr>) }"

definition ellGet :: "ell_heap \<Rightarrow> ELLLIST \<Rightarrow> (ell_heap \<times> ELLLIST \<times> addr option) option" where
  "ellGet h l =
     (case ellFirst l of
        None \<Rightarrow> Some (h, l, None)
      | Some n \<Rightarrow> do { (h, l) \<leftarrow> ellDelete h l n; Some (h, l, Some n) })"

definition ellPop :: "ell_heap \<Rightarrow> ELLLIST \<Rightarrow> (ell_heap \<times> ELLLIST \<times> addr option) option" where
  "ellPop h l =
     (case ellLast l of
        None \<Rightarrow> Some (h, l, None)
      | Some n \<Rightarrow> do { (h, l) \<leftarrow> ellDelete h l n; Some (h, l, Some n) })"

definition ellInsert ::
  "ell_heap \<Rightarrow> ELLLIST \<Rightarrow> addr option \<Rightarrow> addr \<Rightarrow> (ell_heap \<times> ELLLIST) option" where
  "ellInsert h l prev n = do {
     (h, l) \<leftarrow> (if prev \<noteq> None
                then do {
                  h \<leftarrow> ell_set_previous h (Some n) prev;
                  q \<leftarrow> ell_get_next h prev;
                  h \<leftarrow> ell_set_next h (Some n) q;
                  h \<leftarrow> ell_set_next h prev (Some n);
                  Some (h, l) }
                else do {
                  h \<leftarrow> ell_set_previous h (Some n) None;
                  h \<leftarrow> ell_set_next h (Some n) (ellFirst l);
                  Some (h, ell_set_first l (Some n)) });
     q \<leftarrow> ell_get_next h (Some n);
     (h, l) \<leftarrow> (if q = None then Some (h, ell_set_last l (Some n))
                else do { h \<leftarrow> ell_set_previous h q (Some n); Some (h, l) });
     Some (h, l\<lparr>count := count l + 1\<rparr>) }"

text \<open>\<open>k\<close> rounds of \<^verbatim>\<open>pnode = pnode->next\<close> (or \<^verbatim>\<open>->previous\<close>).\<close>

fun ell_walk ::
  "(addr option \<Rightarrow> addr option option) \<Rightarrow> nat \<Rightarrow> addr option \<Rightarrow> addr option option" where
  "ell_walk f 0 p = Some p"
| "ell_walk f (Suc k) p = do { q \<leftarrow> f p; ell_walk f k q }"

definition ellNth :: "ell_heap \<Rightarrow> ELLLIST \<Rightarrow> int \<Rightarrow> addr option option" where
  "ellNth h l nodeNum =
     (if nodeNum < 1 \<or> count l = 0 then Some None
      else if nodeNum > count l div 2 then
        (if nodeNum > count l then Some None
         else ell_walk (ell_get_previous h) (nat (count l - nodeNum)) (ellLast l))
      else ell_walk (ell_get_next h) (nat (nodeNum - 1)) (ellFirst l))"

text \<open>The loops of \<^verbatim>\<open>ellNStep\<close> also stop at NULL.\<close>

fun ell_steps ::
  "(addr option \<Rightarrow> addr option option) \<Rightarrow> nat \<Rightarrow> addr option \<Rightarrow> addr option option" where
  "ell_steps f 0 p = Some p"
| "ell_steps f (Suc k) p = (if p = None then Some p else do { q \<leftarrow> f p; ell_steps f k q })"

definition ellNStep :: "ell_heap \<Rightarrow> addr option \<Rightarrow> int \<Rightarrow> addr option option" where
  "ellNStep h p nStep =
     (if nStep > 0 then ell_steps (ell_get_next h) (nat nStep) p
      else ell_steps (ell_get_previous h) (nat (- nStep)) p)"

partial_function (option) ell_find_from ::
  "ell_heap \<Rightarrow> addr option \<Rightarrow> addr option \<Rightarrow> int \<Rightarrow> int option" where
  "ell_find_from h got n c =
     (if got \<noteq> n \<and> got \<noteq> None
      then do { q \<leftarrow> ell_get_next h got; ell_find_from h q n (c + 1) }
      else if got = None then Some (- 1) else Some c)"

definition ellFind :: "ell_heap \<Rightarrow> ELLLIST \<Rightarrow> addr option \<Rightarrow> int option" where
  "ellFind h l n = ell_find_from h (ellFirst l) n 1"

text \<open>\<open>freeFunc\<close> is the caller's function on the heap, \<^verbatim>\<open>free()\<close> for \<^verbatim>\<open>ellFree\<close>.\<close>

partial_function (option) ell_free_from ::
  "(ell_heap \<Rightarrow> addr \<Rightarrow> ell_heap) \<Rightarrow> ell_heap \<Rightarrow> addr option \<Rightarrow> ell_heap option" where
  "ell_free_from freeFunc h p =
     (case p of
        None \<Rightarrow> Some h
      | Some a \<Rightarrow> do { q \<leftarrow> ell_get_next h p; ell_free_from freeFunc (freeFunc h a) q })"

definition ellFree2 ::
  "(ell_heap \<Rightarrow> addr \<Rightarrow> ell_heap) \<Rightarrow> ell_heap \<Rightarrow> ELLLIST \<Rightarrow> (ell_heap \<times> ELLLIST) option" where
  "ellFree2 freeFunc h l = do {
     h \<leftarrow> ell_free_from freeFunc h (ellFirst l);
     Some (h, ellInit) }"

text \<open>What \<^verbatim>\<open>free()\<close> does to the heap: the address is no longer allocated.\<close>

definition ell_free_node :: "ell_heap \<Rightarrow> addr \<Rightarrow> ell_heap" where
  "ell_free_node h a = h(a := None)"

text \<open>
  \<^verbatim>\<open>ellVerify\<close> returns nothing: it gets to its end if every \<^verbatim>\<open>assert\<close> holds. A failed
  assertion is \<open>None\<close>, as are an invalid pointer and a loop without end. The loop leaves the last
  node it reached and the number of nodes it counted.
\<close>

definition ell_assert :: "bool \<Rightarrow> unit option" where
  "ell_assert b = (if b then Some () else None)"

partial_function (option) ell_verify_from ::
  "ell_heap \<Rightarrow> addr \<Rightarrow> int \<Rightarrow> (addr \<times> int) option" where
  "ell_verify_from h p c = do {
     q \<leftarrow> ell_get_next h (Some p);
     (case q of
        None \<Rightarrow> Some (p, c + 1)
      | Some x \<Rightarrow> do {
          b \<leftarrow> ell_get_previous h (Some x);
          ell_assert (b = Some p);
          ell_verify_from h x (c + 1) }) }"

definition ellVerify :: "ell_heap \<Rightarrow> ELLLIST \<Rightarrow> unit option" where
  "ellVerify h l =
     (case ellFirst l of
        None \<Rightarrow> do { ell_assert (ellLast l = None); ell_assert (count l = 0) }
      | Some p \<Rightarrow> do {
          b \<leftarrow> ell_get_previous h (Some p);
          ell_assert (b = None);
          (z, c) \<leftarrow> ell_verify_from h p 0;
          ell_assert (ellLast l = Some z);
          ell_assert (count l = c) })"

section \<open>Abstraction\<close>

definition hd_ptr :: "addr list \<Rightarrow> addr option \<Rightarrow> addr option" where
  "hd_ptr xs q = (case xs of [] \<Rightarrow> q | x # _ \<Rightarrow> Some x)"

definition last_ptr :: "addr option \<Rightarrow> addr list \<Rightarrow> addr option" where
  "last_ptr p xs = (if xs = [] then p else Some (last xs))"

fun dlseg :: "ell_heap \<Rightarrow> addr option \<Rightarrow> addr list \<Rightarrow> addr option \<Rightarrow> bool" where
  "dlseg h p [] q \<longleftrightarrow> True"
| "dlseg h p (x # xs) q \<longleftrightarrow>
     h x = Some \<lparr>ell_next = hd_ptr xs q, ell_previous = p\<rparr> \<and> dlseg h (Some x) xs q"

definition ell_list :: "ell_heap \<Rightarrow> ELLLIST \<Rightarrow> addr list \<Rightarrow> bool" where
  "ell_list h l xs \<longleftrightarrow>
     distinct xs \<and> dlseg h None xs None \<and>
     node l = \<lparr>ell_next = hd_ptr xs None, ell_previous = last_ptr None xs\<rparr> \<and>
     count l = int (length xs)"

section \<open>Segments of the heap\<close>

lemma hd_ptr_simps [simp]:
  "hd_ptr [] q = q" "hd_ptr (x # xs) q = Some x"
  by (simp_all add: hd_ptr_def)

lemma last_ptr_simps [simp]:
  "last_ptr p [] = p" "last_ptr p (xs @ [x]) = Some x"
  "last_ptr p (x # xs) = last_ptr (Some x) xs"
  by (simp_all add: last_ptr_def)

lemma hd_ptr_append [simp]: "hd_ptr (xs @ ys) q = hd_ptr xs (hd_ptr ys q)"
  by (cases xs) simp_all

lemma last_ptr_append [simp]: "last_ptr p (xs @ ys) = last_ptr (last_ptr p xs) ys"
  by (simp add: last_ptr_def)

lemma hd_ptr_outside [simp]:
  "n \<notin> set xs \<Longrightarrow> hd_ptr xs q = Some n \<longleftrightarrow> xs = [] \<and> q = Some n"
  by (cases xs) auto

lemma last_ptr_outside [simp]:
  "n \<notin> set xs \<Longrightarrow> last_ptr p xs = Some n \<longleftrightarrow> xs = [] \<and> p = Some n"
  by (cases xs rule: rev_cases) auto

lemma dlseg_append [simp]:
  "dlseg h p (xs @ ys) q \<longleftrightarrow> dlseg h p xs (hd_ptr ys q) \<and> dlseg h (last_ptr p xs) ys q"
  by (induction xs arbitrary: p) auto

lemma dlseg_frame [epics_frame]:
  "(\<And>x. x \<in> set xs \<Longrightarrow> h' x = h x) \<Longrightarrow> dlseg h' p xs q = dlseg h p xs q"
  by (induction xs arbitrary: p) auto

lemma dlseg_upd [simp]: "x \<notin> set xs \<Longrightarrow> dlseg (h(x := v)) p xs q = dlseg h p xs q"
  by (rule dlseg_frame) auto

lemma ell_access_simps [simp]:
  "h a = Some n \<Longrightarrow> ell_get_next h (Some a) = Some (ell_next n)"
  "h a = Some n \<Longrightarrow> ell_get_previous h (Some a) = Some (ell_previous n)"
  "h a = Some n \<Longrightarrow> ell_set_next h (Some a) v = Some (h(a \<mapsto> n\<lparr>ell_next := v\<rparr>))"
  "h a = Some n \<Longrightarrow> ell_set_previous h (Some a) v = Some (h(a \<mapsto> n\<lparr>ell_previous := v\<rparr>))"
  by (simp_all add: ell_get_next_def ell_get_previous_def ell_set_next_def ell_set_previous_def)

lemma ell_list_simps:
  "ell_list h l [] \<longleftrightarrow> l = ellInit"
  "ell_list h l (xs @ [x]) \<longleftrightarrow>
     distinct (xs @ [x]) \<and> dlseg h None (xs @ [x]) None \<and>
     node l = \<lparr>ell_next = hd_ptr xs (Some x), ell_previous = Some x\<rparr> \<and>
     count l = int (length xs) + 1"
  by (auto simp: ell_list_def ellInit_def)

lemma ell_list_nil: "count l = 0 \<Longrightarrow> ell_list h l xs \<Longrightarrow> xs = []"
  by (simp add: ell_list_def)

lemma ell_list_dom: "ell_list h l xs \<Longrightarrow> set xs \<subseteq> dom h"
proof -
  have "dlseg h p xs q \<Longrightarrow> set xs \<subseteq> dom h" for p q
    by (induction xs arbitrary: p) auto
  then show "ell_list h l xs \<Longrightarrow> set xs \<subseteq> dom h" by (auto simp: ell_list_def)
qed

text \<open>Two heaps that agree outside \<open>A\<close>: every list that avoids \<open>A\<close> survives.\<close>

definition heap_eq_on :: "addr set \<Rightarrow> ell_heap \<Rightarrow> ell_heap \<Rightarrow> bool" where
  "heap_eq_on A h h' \<longleftrightarrow> (\<forall>x. x \<notin> A \<longrightarrow> h' x = h x)"

lemma ell_list_frame [epics_frame]:
  "heap_eq_on A h h' \<Longrightarrow> set xs \<inter> A = {} \<Longrightarrow> ell_list h l xs \<Longrightarrow> ell_list h' l xs"
  using dlseg_frame [of xs h' h None None] by (auto simp: heap_eq_on_def ell_list_def)

lemma heap_eq_on_trans:
  "heap_eq_on A h h' \<Longrightarrow> heap_eq_on B h' h'' \<Longrightarrow> A \<union> B \<subseteq> C \<Longrightarrow> heap_eq_on C h h''"
  unfolding heap_eq_on_def by (metis UnI1 UnI2 subsetD)

lemma heap_eq_on_refl [simp]: "heap_eq_on A h h"
  by (simp add: heap_eq_on_def)

section \<open>Every operation implements its list counterpart\<close>

lemma ellAdd_refines:
  assumes l: "ell_list h l xs" and n: "n \<notin> set xs" "n \<in> dom h"
  shows "\<exists>h' l'. ellAdd h l n = Some (h', l') \<and> ell_list h' l' (xs @ [n]) \<and>
           heap_eq_on (set (xs @ [n])) h h'"
proof -
  from n obtain nd where nd: "h n = Some nd" by auto
  show ?thesis
  proof (cases xs rule: rev_cases)
    case Nil
    with l nd show ?thesis
      by (auto simp: ellAdd_def ell_list_simps ell_list_def ell_set_first_def ell_set_last_def
          ellInit_def heap_eq_on_def)
  next
    case (snoc ys y)
    with l n nd show ?thesis
      by (auto simp: ellAdd_def ell_list_def ell_set_last_def heap_eq_on_def)
  qed
qed

lemma ellDelete_refines:
  assumes l: "ell_list h l (ys @ n # zs)"
  shows "\<exists>h' l'. ellDelete h l n = Some (h', l') \<and> ell_list h' l' (ys @ zs) \<and>
           heap_eq_on (set (ys @ zs)) h h'"
proof (cases ys rule: rev_cases)
  case Nil
  show ?thesis
  proof (cases zs)
    case Nil
    with l \<open>ys = []\<close> show ?thesis
      by (auto simp: ellDelete_def ell_list_def ell_set_last_def ell_set_first_def heap_eq_on_def)
  next
    case (Cons z zs')
    with l \<open>ys = []\<close> show ?thesis
      by (auto simp: ellDelete_def ell_list_def ell_set_first_def heap_eq_on_def)
  qed
next
  case (snoc ys' y)
  show ?thesis
  proof (cases zs)
    case Nil
    with l snoc show ?thesis
      by (auto simp: ellDelete_def ell_list_def ell_set_last_def heap_eq_on_def)
  next
    case (Cons z zs')
    with l snoc show ?thesis
      by (auto simp: ellDelete_def ell_list_def heap_eq_on_def)
  qed
qed

lemma ellGet_refines:
  assumes "ell_list h l (x # xs)"
  shows "\<exists>h' l'. ellGet h l = Some (h', l', Some x) \<and> ell_list h' l' xs \<and>
           heap_eq_on (set xs) h h'"
proof -
  have "ellFirst l = Some x" using assms by (simp add: ell_list_def)
  then show ?thesis using ellDelete_refines [of h l "[]" x xs] assms by (auto simp: ellGet_def)
qed

lemma ellPop_refines:
  assumes "ell_list h l (xs @ [x])"
  shows "\<exists>h' l'. ellPop h l = Some (h', l', Some x) \<and> ell_list h' l' xs \<and>
           heap_eq_on (set xs) h h'"
proof -
  have "ellLast l = Some x" using assms by (simp add: ell_list_def)
  then show ?thesis using ellDelete_refines [of h l xs x "[]"] assms by (auto simp: ellPop_def)
qed

lemma ellGet_empty: "ell_list h l [] \<Longrightarrow> ellGet h l = Some (h, l, None)"
  and ellPop_empty: "ell_list h l [] \<Longrightarrow> ellPop h l = Some (h, l, None)"
  by (simp_all add: ellGet_def ellPop_def ell_list_def)

lemma ellConcat_refines:
  assumes d: "ell_list h dst xs" and a: "ell_list h add ys" and dis: "set xs \<inter> set ys = {}"
  shows "\<exists>h' dst'. ellConcat h dst add = Some (h', dst', ellInit) \<and>
           ell_list h' dst' (xs @ ys) \<and> heap_eq_on (set xs \<union> set ys) h h'"
proof (cases ys)
  case Nil
  with a d show ?thesis by (auto simp: ellConcat_def ell_list_simps(1) ellInit_def)
next
  case (Cons y ys')
  show ?thesis
  proof (cases xs rule: rev_cases)
    case Nil
    with Cons a d show ?thesis
      by (auto simp: ellConcat_def ell_list_def heap_eq_on_def)
  next
    case (snoc xs' x)
    with Cons a d dis show ?thesis
      by (auto simp: ellConcat_def ell_list_def heap_eq_on_def ell_set_last_def)
  qed
qed

lemma ellInsert_refines:
  assumes l: "ell_list h l (ys @ zs)" and n: "n \<notin> set (ys @ zs)" "n \<in> dom h"
  shows "\<exists>h' l'. ellInsert h l (last_ptr None ys) n = Some (h', l') \<and>
           ell_list h' l' (ys @ n # zs) \<and> heap_eq_on (set (ys @ n # zs)) h h'"
proof -
  from n obtain nd where nd: "h n = Some nd" by auto
  show ?thesis
  proof (cases ys rule: rev_cases)
    case Nil
    with l n nd show ?thesis
      by (cases zs) (auto simp: ellInsert_def ell_list_def heap_eq_on_def ell_set_first_def
          ell_set_last_def)
  next
    case (snoc ys' y)
    with l n nd show ?thesis
      by (cases zs) (auto simp: ellInsert_def ell_list_def heap_eq_on_def ell_set_last_def)
  qed
qed

text \<open>Walks along the list.\<close>

lemma ell_walk_next:
  "dlseg h p xs (Some y) \<Longrightarrow>
   ell_walk (ell_get_next h) (length xs) (hd_ptr xs (Some y)) = Some (Some y)"
  by (induction xs arbitrary: p) auto

lemma ell_walk_previous:
  "dlseg h (Some y) ys q \<Longrightarrow>
   ell_walk (ell_get_previous h) (length ys) (last_ptr (Some y) ys) = Some (Some y)"
  by (induction ys arbitrary: q rule: rev_induct) auto

lemma ellNth_in:
  assumes l: "ell_list h l xs" and i: "1 \<le> i" "i \<le> int (length xs)"
  shows "ellNth h l i = Some (Some (xs ! nat (i - 1)))"
proof -
  let ?k = "nat (i - 1)"
  have k: "?k < length xs" "xs \<noteq> []" using i by auto
  let ?a = "take ?k xs" and ?y = "xs ! ?k" and ?b = "drop (Suc ?k) xs"
  have xs: "xs = ?a @ ?y # ?b" using k(1) by (rule id_take_nth_drop)
  then have "dlseg h None (?a @ ?y # ?b) None" using l by (simp add: ell_list_def)
  then have seg: "dlseg h None ?a (Some ?y)" "dlseg h (Some ?y) ?b None"
    by (simp_all del: append_take_drop_id)
  have ends: "ellFirst l = hd_ptr ?a (Some ?y)" "ellLast l = last_ptr (Some ?y) ?b"
    using l arg_cong [OF xs, of "\<lambda>z. hd_ptr z None"] arg_cong [OF xs, of "last_ptr None"]
    unfolding ell_list_def by (simp_all only: ELLNODE.select_convs hd_ptr_append
        last_ptr_append hd_ptr_simps last_ptr_simps)
  have len: "length ?a = nat (i - 1)" "length ?b = nat (count l - i)"
    using k i l by (auto simp: ell_list_def)
  show ?thesis
  proof (cases "i > count l div 2")
    case True
    then show ?thesis
      using ell_walk_previous [OF seg(2)] ends(2) len(2) i l k(2)
      by (simp add: ellNth_def ell_list_def)
  next
    case False
    then show ?thesis
      using ell_walk_next [OF seg(1)] ends(1) len(1) i l k(2)
      by (simp add: ellNth_def ell_list_def)
  qed
qed

lemma ellNth_out:
  "ell_list h l xs \<Longrightarrow> i < 1 \<or> int (length xs) < i \<Longrightarrow> ellNth h l i = Some None"
  by (auto simp: ellNth_def ell_list_def)

lemma ell_find_hit:
  "dlseg h p ys (Some n) \<Longrightarrow> n \<notin> set ys \<Longrightarrow>
   ell_find_from h (hd_ptr ys (Some n)) (Some n) c = Some (c + int (length ys))"
proof (induction ys arbitrary: p c)
  case Nil
  then show ?case by (simp add: ell_find_from.simps)
next
  case (Cons y ys)
  then show ?case by (subst ell_find_from.simps) (auto simp: algebra_simps)
qed

lemma ell_find_miss:
  "dlseg h p ys None \<Longrightarrow> n \<notin> set ys \<Longrightarrow> ell_find_from h (hd_ptr ys None) (Some n) c = Some (- 1)"
proof (induction ys arbitrary: p c)
  case Nil
  then show ?case by (simp add: ell_find_from.simps)
next
  case (Cons y ys)
  then show ?case by (subst ell_find_from.simps) auto
qed

lemma ellFind_in:
  assumes "ell_list h l (ys @ n # zs)"
  shows "ellFind h l (Some n) = Some (int (length ys) + 1)"
  using assms ell_find_hit [of h None ys n 1] by (simp add: ellFind_def ell_list_def)

lemma ellFind_out:
  "ell_list h l xs \<Longrightarrow> n \<notin> set xs \<Longrightarrow> ellFind h l (Some n) = Some (- 1)"
  using ell_find_miss [of h None xs n 1] by (simp add: ellFind_def ell_list_def)

lemma ell_count_to_seg:
  "dlseg h p ys (Some e) \<Longrightarrow> e \<notin> set ys \<Longrightarrow>
   ell_count_to h (hd_ptr ys (Some e)) (Some e) c = Some (c + int (length ys))"
proof (induction ys arbitrary: p c)
  case Nil
  then show ?case by (simp add: ell_count_to.simps)
next
  case (Cons y ys)
  then show ?case by (subst ell_count_to.simps) (auto simp: algebra_simps)
qed

text \<open>\<^verbatim>\<open>ellVerify\<close> accepts every well-formed list.\<close>

lemma ell_verify_from_seg:
  "dlseg h p (x # xs) None \<Longrightarrow>
   ell_verify_from h x c = Some (last (x # xs), c + int (length (x # xs)))"
proof (induction xs arbitrary: p x c)
  case Nil
  then show ?case by (subst ell_verify_from.simps) (simp add: ell_assert_def)
next
  case (Cons y xs)
  from Cons.IH [of "Some x" y "c + 1"] Cons.prems show ?case
    by (subst ell_verify_from.simps) (simp add: ell_assert_def)
qed

lemma ellVerify_complete:
  assumes "ell_list h l xs"
  shows "ellVerify h l = Some ()"
proof (cases xs)
  case Nil
  with assms show ?thesis by (simp add: ellVerify_def ell_assert_def ell_list_simps ellInit_def)
next
  case (Cons y ys)
  with assms ell_verify_from_seg [of h None y ys 0] show ?thesis
    by (simp add: ellVerify_def ell_assert_def ell_list_def last_ptr_def)
qed

lemma dlseg_distinct: "dlseg h None xs q \<Longrightarrow> distinct xs"
proof (induction xs arbitrary: q rule: rev_induct)
  case Nil
  then show ?case by simp
next
  case (snoc x xs)
  then have dist: "distinct xs" by auto
  have "x \<notin> set xs"
  proof
    assume "x \<in> set xs"
    then obtain as bs where xs: "xs = as @ x # bs" by (auto simp: in_set_conv_decomp)
    then have "last_ptr None as = last_ptr (Some x) bs" using snoc.prems by auto
    with dist xs show False
      by (auto simp: last_ptr_def split: if_splits) (metis IntI emptyE last_in_set)
  qed
  with dist show ?case by simp
qed

lemma ell_assert_Some [simp]: "ell_assert b = Some u \<longleftrightarrow> b"
  by (simp add: ell_assert_def)

lemma ell_verify_from_sound:
  assumes "ell_verify_from h p c = Some r"
  shows "\<exists>xs. (\<forall>n. h p = Some n \<longrightarrow> dlseg h (ell_previous n) (p # xs) None) \<and>
           fst r = last (p # xs) \<and> snd r = c + 1 + int (length xs)"
proof (rule ell_verify_from.raw_induct [where P = "\<lambda>h p c r.
         \<exists>xs. (\<forall>n. h p = Some n \<longrightarrow> dlseg h (ell_previous n) (p # xs) None) \<and>
           fst r = last (p # xs) \<and> snd r = c + 1 + int (length xs)", OF _ assms])
  fix f h p c and r :: "addr \<times> int"
  assume IH: "\<And>h p c r. f h p c = Some r \<Longrightarrow>
         \<exists>xs. (\<forall>n. h p = Some n \<longrightarrow> dlseg h (ell_previous n) (p # xs) None) \<and>
           fst r = last (p # xs) \<and> snd r = c + 1 + int (length xs)"
    and eq: "(do { q \<leftarrow> ell_get_next h (Some p);
        (case q of None \<Rightarrow> Some (p, c + 1)
         | Some x \<Rightarrow> do { b \<leftarrow> ell_get_previous h (Some x); ell_assert (b = Some p); f h x (c + 1) }) }) = Some r"
  from eq obtain n where n: "h p = Some n"
    by (auto simp: ell_get_next_def Option.bind_eq_Some_conv)
  show "\<exists>xs. (\<forall>n. h p = Some n \<longrightarrow> dlseg h (ell_previous n) (p # xs) None) \<and>
           fst r = last (p # xs) \<and> snd r = c + 1 + int (length xs)"
  proof (cases "ell_next n")
    case None
    with eq n show ?thesis by (auto intro!: exI [of _ "[]"])
  next
    case (Some x)
    with eq n obtain m where m: "h x = Some m" "ell_previous m = Some p" "f h x (c + 1) = Some r"
      by (auto simp: ell_get_previous_def Option.bind_eq_Some_conv)
    from IH [OF m(3)] m(1,2) obtain xs where "dlseg h (Some p) (x # xs) None"
        "fst r = last (x # xs)" "snd r = c + 2 + int (length xs)" by auto
    with n Some show ?thesis by (intro exI [of _ "x # xs"]) auto
  qed
qed

lemma ellVerify_sound:
  assumes "ellVerify h l = Some ()"
  shows "\<exists>xs. ell_list h l xs"
proof (cases "ellFirst l")
  case None
  with assms have "ell_list h l []" by (simp add: ellVerify_def ell_list_def Option.bind_eq_Some_conv)
  then show ?thesis by blast
next
  case (Some p)
  with assms obtain n z c where n: "h p = Some n" "ell_previous n = None"
      and v: "ell_verify_from h p 0 = Some (z, c)" "ellLast l = Some z" "count l = c"
    by (auto simp: ellVerify_def ell_get_previous_def Option.bind_eq_Some_conv split: if_splits)
  from ell_verify_from_sound [OF v(1)] n obtain xs where
    "dlseg h None (p # xs) None" "z = last (p # xs)" "c = 1 + int (length xs)" by auto
  with Some v dlseg_distinct [of h "p # xs" None] have "ell_list h l (p # xs)"
    by (simp add: ell_list_def last_ptr_def)
  then show ?thesis by blast
qed

lemma ell_count_to_mid:
  assumes "ell_get_next h (Some s) = Some (hd_ptr m (Some e))" "dlseg h (Some s) m (Some e)"
    "e \<notin> set m" "s \<noteq> e"
  shows "ell_count_to h (Some s) (Some e) c = Some (c + 1 + int (length m))"
  using assms ell_count_to_seg [of h "Some s" m e "c + 1"] by (subst ell_count_to.simps) simp

lemmas ell_extract_simps =
  ellExtract_def ell_list_def ell_set_first_def ell_set_last_def ell_count_to_mid

lemma ellExtract_one:
  assumes "ell_list h src (as @ s # bs)" "ell_list h dst ys" "set (as @ s # bs) \<inter> set ys = {}"
  shows "\<exists>h' src' dst'. ellExtract h src s s dst = Some (h', src', dst') \<and>
           ell_list h' src' (as @ bs) \<and> ell_list h' dst' (ys @ [s])"
  using assms
  by (cases as rule: rev_cases; cases bs; cases ys rule: rev_cases)
    (auto simp: ell_extract_simps ell_count_to.simps)

lemma ellExtract_many:
  assumes "ell_list h src (as @ s # m @ e # bs)" "ell_list h dst ys"
    "set (as @ s # m @ e # bs) \<inter> set ys = {}"
  shows "\<exists>h' src' dst'. ellExtract h src s e dst = Some (h', src', dst') \<and>
           ell_list h' src' (as @ bs) \<and> ell_list h' dst' (ys @ s # m @ [e])"
  using assms
  by (cases as rule: rev_cases; cases bs; cases ys rule: rev_cases)
    (auto simp: ell_extract_simps)

lemma ellExtract_refines:
  assumes "ell_list h src (as @ mid @ bs)" "ell_list h dst ys"
    "set (as @ mid @ bs) \<inter> set ys = {}" "mid \<noteq> []"
  shows "\<exists>h' src' dst'. ellExtract h src (hd mid) (last mid) dst = Some (h', src', dst') \<and>
           ell_list h' src' (as @ bs) \<and> ell_list h' dst' (ys @ mid)"
proof (cases mid)
  case (Cons s m0)
  then show ?thesis
    using assms ellExtract_one [of h src as s bs dst ys]
      ellExtract_many [of h src as s _ _ bs dst ys]
    by (cases m0 rule: rev_cases) auto
qed (use assms in simp)

lemma ell_steps_next:
  "dlseg h p xs None \<Longrightarrow>
   ell_steps (ell_get_next h) k (hd_ptr xs None) = Some (hd_ptr (drop k xs) None)"
  by (induction xs arbitrary: k p) (case_tac k; auto)+

lemma ell_free_from_seg:
  assumes "dlseg h p xs None" "distinct xs"
  shows "ell_free_from ell_free_node h (hd_ptr xs None) = Some (h |` (- set xs))"
  using assms
proof (induction xs arbitrary: h p)
  case Nil
  then show ?case by (subst ell_free_from.simps) (simp add: restrict_map_def)
next
  case (Cons x xs)
  have "dlseg (ell_free_node h x) (Some x) xs None"
    using Cons.prems by (simp add: ell_free_node_def)
  then have "ell_free_from ell_free_node (ell_free_node h x) (hd_ptr xs None) =
      Some (ell_free_node h x |` (- set xs))"
    using Cons.IH Cons.prems(2) by simp
  moreover have "ell_free_node h x |` (- set xs) = h |` (- set (x # xs))"
    by (auto simp: restrict_map_def ell_free_node_def)
  ultimately show ?case using Cons.prems by (subst ell_free_from.simps) simp
qed

lemma ellFree2_frees:
  assumes "ell_list h l xs"
  shows "ellFree2 ell_free_node h l = Some (h |` (- set xs), ellInit)"
  using assms ell_free_from_seg [of h None xs] by (simp add: ellFree2_def ell_list_def)

section \<open>The list interface\<close>

text \<open>
  The contract that clients of \<^verbatim>\<open>ellLib\<close> use: several lists share one heap, every operation
  acts on the abstract node sequence and leaves the other lists of the heap as they are.
\<close>

locale node_list =
  fixes rep :: "'h \<Rightarrow> 'l \<Rightarrow> addr list \<Rightarrow> bool"
    and alive :: "'h \<Rightarrow> addr set"
    and add :: "'h \<Rightarrow> 'l \<Rightarrow> addr \<Rightarrow> ('h \<times> 'l) option"
    and get :: "'h \<Rightarrow> 'l \<Rightarrow> ('h \<times> 'l \<times> addr option) option"
    and same_outside :: "addr set \<Rightarrow> 'h \<Rightarrow> 'h \<Rightarrow> bool"
  assumes add_rep: "rep h l xs \<Longrightarrow> n \<notin> set xs \<Longrightarrow> n \<in> alive h \<Longrightarrow>
      \<exists>h' l'. add h l n = Some (h', l') \<and> rep h' l' (xs @ [n]) \<and> same_outside (set (xs @ [n])) h h'"
    and get_rep: "rep h l (x # xs) \<Longrightarrow>
      \<exists>h' l'. get h l = Some (h', l', Some x) \<and> rep h' l' xs \<and> same_outside (set xs) h h'"
    and rep_alive: "rep h l xs \<Longrightarrow> set xs \<subseteq> alive h"
    and rep_frame: "same_outside A h h' \<Longrightarrow> set xs \<inter> A = {} \<Longrightarrow> rep h l xs \<Longrightarrow> rep h' l xs"
    and alive_frame: "same_outside A h h' \<Longrightarrow> x \<notin> A \<Longrightarrow> x \<in> alive h \<Longrightarrow> x \<in> alive h'"
    and outside_trans: "same_outside A h h' \<Longrightarrow> same_outside B h' h'' \<Longrightarrow> A \<union> B \<subseteq> C \<Longrightarrow>
      same_outside C h h''"
begin

text \<open>Moving the head of one list to the tail of another.\<close>

lemma move_head:
  assumes "rep h src (x # xs)" "rep h dst ys" "set (x # xs) \<inter> set ys = {}" "x \<notin> set xs"
  shows "\<exists>h1 src' h2 dst'. get h src = Some (h1, src', Some x) \<and> add h1 dst x = Some (h2, dst') \<and>
           rep h2 src' xs \<and> rep h2 dst' (ys @ [x]) \<and>
           same_outside (set (x # xs) \<union> set ys) h h2"
proof -
  obtain h1 src' where h1: "get h src = Some (h1, src', Some x)" "rep h1 src' xs"
      "same_outside (set xs) h h1"
    using get_rep [OF assms(1)] by blast
  have dst: "rep h1 dst ys" using rep_frame [OF h1(3) _ assms(2)] assms(3) by auto
  have "x \<in> alive h1"
    using alive_frame [OF h1(3)] assms(4) rep_alive [OF assms(1)] by auto
  moreover have "x \<notin> set ys" using assms(3) by auto
  ultimately obtain h2 dst' where h2: "add h1 dst x = Some (h2, dst')" "rep h2 dst' (ys @ [x])"
      "same_outside (set (ys @ [x])) h1 h2"
    using add_rep [OF dst] by blast
  have "rep h2 src' xs" using rep_frame [OF h2(3) _ h1(2)] assms(3,4) by auto
  moreover have "same_outside (set (x # xs) \<union> set ys) h h2"
    using outside_trans [OF h1(3) h2(3)] by auto
  ultimately show ?thesis using h1(1) h2 by blast
qed

end

interpretation ell: node_list ell_list dom ellAdd ellGet heap_eq_on
proof (unfold_locales, goal_cases)
  case (1 h l xs n)
  then show ?case by (rule ellAdd_refines)
next
  case (2 h l x xs)
  then show ?case by (rule ellGet_refines)
next
  case (3 h l xs)
  then show ?case by (rule ell_list_dom)
next
  case (4 A h h' xs l)
  then show ?case by (rule ell_list_frame)
next
  case (5 A h h' x)
  then show ?case by (auto simp: heap_eq_on_def)
next
  case (6 A h h' B h'' C)
  then show ?case by (rule heap_eq_on_trans)
qed

section \<open>Properties\<close>

text \<open>
  C15: \<^verbatim>\<open>ellVerify\<close>, which consists of assertions, decides the list invariant: it gets to its end
  with every assertion true exactly on the headers and heaps that represent some list of nodes. On all
  others an assertion fails, a pointer is invalid, or the loop does not end.
\<close>

theorem ellVerify_decides:
  "ellVerify h l = Some () \<longleftrightarrow> (\<exists>xs. ell_list h l xs)"
  using ellVerify_complete ellVerify_sound by blast

definition ell_sample :: "ell_heap \<times> ELLLIST" where
  "ell_sample =
     ([1 \<mapsto> \<lparr>ell_next = Some 2, ell_previous = None\<rparr>,
       2 \<mapsto> \<lparr>ell_next = Some 3, ell_previous = Some 1\<rparr>,
       3 \<mapsto> \<lparr>ell_next = None, ell_previous = Some 2\<rparr>,
       4 \<mapsto> \<lparr>ell_next = None, ell_previous = None\<rparr>],
      \<lparr>node = \<lparr>ell_next = Some 1, ell_previous = Some 3\<rparr>, count = 3\<rparr>)"

lemma ell_sample_list:
  "ell_list (fst ell_sample) (snd ell_sample) [1, 2, 3]" "4 \<in> dom (fst ell_sample)"
  "ell_list (fst ell_sample) ellInit []"
  by (simp_all add: ell_sample_def ell_list_def ellInit_def)

text \<open>
  \<^verbatim>\<open>ellInsert\<close> after the last node of \<open>ys\<close> (NULL: at the front) puts the node between
  \<open>ys\<close> and \<open>zs\<close> and touches only nodes of the list; \<^verbatim>\<open>ellDelete\<close> of that node then gives
  back the original list. Neither dereferences NULL.
\<close>

theorem ellInsert_ellDelete:
  assumes "ell_list h l (ys @ zs)" "n \<notin> set (ys @ zs)" "n \<in> dom h"
  shows "\<exists>h1 l1 h2 l2.
     ellInsert h l (last_ptr None ys) n = Some (h1, l1) \<and> ell_list h1 l1 (ys @ n # zs) \<and>
     ellDelete h1 l1 n = Some (h2, l2) \<and> ell_list h2 l2 (ys @ zs) \<and>
     heap_eq_on (set (ys @ n # zs)) h h2"
proof -
  obtain h1 l1 where 1: "ellInsert h l (last_ptr None ys) n = Some (h1, l1)"
      "ell_list h1 l1 (ys @ n # zs)" "heap_eq_on (set (ys @ n # zs)) h h1"
    using ellInsert_refines [OF assms] by blast
  obtain h2 l2 where 2: "ellDelete h1 l1 n = Some (h2, l2)" "ell_list h2 l2 (ys @ zs)"
      "heap_eq_on (set (ys @ zs)) h1 h2"
    using ellDelete_refines [OF 1(2)] by blast
  have "heap_eq_on (set (ys @ n # zs)) h h2"
    by (rule heap_eq_on_trans [OF 1(3) 2(3)]) auto
  with 1 2 show ?thesis by blast
qed

theorem ellInsert_ellDelete_witness:
  "\<exists>h1 l1. ellInsert (fst ell_sample) (snd ell_sample) (Some 2) 4 = Some (h1, l1) \<and>
     ell_list h1 l1 [1, 2, 4, 3]"
  using ellInsert_ellDelete [of "fst ell_sample" "snd ell_sample" "[1, 2]" "[3]" 4] ell_sample_list
  by auto

text \<open>
  \<^verbatim>\<open>ellExtract\<close> moves the run of nodes from its first to its last node argument, in order,
  from the source list to the end of the destination list, and keeps the counts of both.
\<close>

theorem ellExtract_moves:
  assumes "ell_list h src (as @ mid @ bs)" "ell_list h dst ys"
    "set (as @ mid @ bs) \<inter> set ys = {}" "mid \<noteq> []"
  shows "\<exists>h' src' dst'. ellExtract h src (hd mid) (last mid) dst = Some (h', src', dst') \<and>
     ell_list h' src' (as @ bs) \<and> ell_list h' dst' (ys @ mid) \<and>
     ellCount src' + ellCount dst' = ellCount src + ellCount dst"
proof -
  obtain h' src' dst' where e: "ellExtract h src (hd mid) (last mid) dst = Some (h', src', dst')"
      "ell_list h' src' (as @ bs)" "ell_list h' dst' (ys @ mid)"
    using ellExtract_refines [OF assms] by blast
  moreover have "ellCount src' + ellCount dst' = ellCount src + ellCount dst"
    using e assms(1,2) by (simp add: ell_list_def)
  ultimately show ?thesis by blast
qed

theorem ellExtract_moves_witness:
  "\<exists>h' src' dst'. ellExtract (fst ell_sample) (snd ell_sample) 1 2 ellInit = Some (h', src', dst') \<and>
     ell_list h' src' [3] \<and> ell_list h' dst' [1, 2]"
  using ellExtract_moves [of "fst ell_sample" "snd ell_sample" "[]" "[1, 2]" "[3]" ellInit "[]"]
    ell_sample_list by auto

text \<open>
  \<^verbatim>\<open>ellNth\<close> and \<^verbatim>\<open>ellFind\<close> are inverse to each other on the nodes of a list (numbered
  from 1), whichever end \<^verbatim>\<open>ellNth\<close> starts from; outside the list they report NULL and ERROR.
\<close>

theorem ellNth_ellFind:
  assumes "ell_list h l xs"
  shows "(\<forall>k < length xs. ellNth h l (int k + 1) = Some (Some (xs ! k)) \<and>
            ellFind h l (Some (xs ! k)) = Some (int k + 1)) \<and>
         (\<forall>i. i < 1 \<or> int (length xs) < i \<longrightarrow> ellNth h l i = Some None) \<and>
         (\<forall>n. n \<notin> set xs \<longrightarrow> ellFind h l (Some n) = Some (- 1))"
proof (intro conjI allI impI)
  fix k assume k: "k < length xs"
  show "ellNth h l (int k + 1) = Some (Some (xs ! k))"
    using ellNth_in [OF assms, of "int k + 1"] k by simp
  have "xs = take k xs @ xs ! k # drop (Suc k) xs" using k by (rule id_take_nth_drop)
  then show "ellFind h l (Some (xs ! k)) = Some (int k + 1)"
    using ellFind_in [of h l "take k xs" "xs ! k" "drop (Suc k) xs"] assms k by simp
qed (use assms ellNth_out ellFind_out in blast)+

theorem ellNth_ellFind_witness:
  "ellNth (fst ell_sample) (snd ell_sample) 3 = Some (Some 3) \<and>
   ellFind (fst ell_sample) (snd ell_sample) (Some 4) = Some (- 1)"
  using ellNth_ellFind [OF ell_sample_list(1)] by (auto dest: spec [of _ 2])

text \<open>
  moving the head of one list to the end of another (\<^verbatim>\<open>ellGet\<close>, then \<^verbatim>\<open>ellAdd\<close>), the way
  the queues of the IOC are drained, succeeds, keeps both lists well-formed and leaves every
  node of no list alone.
\<close>

theorem ellGet_ellAdd_moves:
  assumes "ell_list h src (x # xs)" "ell_list h dst ys" "set (x # xs) \<inter> set ys = {}"
  shows "\<exists>h1 src' h2 dst'. ellGet h src = Some (h1, src', Some x) \<and>
     ellAdd h1 dst x = Some (h2, dst') \<and> ell_list h2 src' xs \<and> ell_list h2 dst' (ys @ [x]) \<and>
     heap_eq_on (set (x # xs) \<union> set ys) h h2"
proof -
  have "x \<notin> set xs" using assms(1) by (simp add: ell_list_def)
  with assms show ?thesis by (rule ell.move_head)
qed

theorem ellGet_ellAdd_moves_witness:
  "\<exists>h1 src' h2 dst'. ellGet (fst ell_sample) (snd ell_sample) = Some (h1, src', Some 1) \<and>
     ellAdd h1 ellInit 1 = Some (h2, dst') \<and> ell_list h2 src' [2, 3] \<and> ell_list h2 dst' [1]"
  using ellGet_ellAdd_moves [OF ell_sample_list(1,3)] by auto

end
