(* ===== verification/EllSort.thy ===== *)
theory EllSort
  imports EllLib "HOL-Library.Multiset"
begin

text \<open>
  The bottom-up merge sort of \<^verbatim>\<open>modules/libcom/src/ellLib/ellSort.c\<close>, on the node heap. The
  comparison callback is a parameter. Failing \<^verbatim>\<open>assert\<close>s and dereferences of NULL are
  \<open>None\<close>, as is a loop that does not end.
\<close>

section \<open>Model\<close>

fun ellMoveN ::
  "ell_heap \<Rightarrow> ELLLIST \<Rightarrow> ELLLIST \<Rightarrow> nat \<Rightarrow> (ell_heap \<times> ELLLIST \<times> ELLLIST) option" where
  "ellMoveN h to from 0 = Some (h, to, from)"
| "ellMoveN h to from (Suc k) =
     (if ellCount from = 0 then Some (h, to, from)
      else do {
        (h, from, n) \<leftarrow> ellGet h from;
        n \<leftarrow> n;
        (h, to) \<leftarrow> ellAdd h to n;
        ellMoveN h to from k })"

type_synonym ell_cmp = "addr \<Rightarrow> addr \<Rightarrow> int"

text \<open>\<^verbatim>\<open>while((p=ellFirst(&P)) && (q=ellFirst(&Q)))\<close>\<close>

partial_function (option) ell_merge ::
  "ell_cmp \<Rightarrow> ell_heap \<Rightarrow> ELLLIST \<Rightarrow> ELLLIST \<Rightarrow> ELLLIST \<Rightarrow>
   (ell_heap \<times> ELLLIST \<times> ELLLIST \<times> ELLLIST) option" where
  "ell_merge cmp h l P Q =
     (case ellFirst P of
        None \<Rightarrow> Some (h, l, P, Q)
      | Some p \<Rightarrow>
         (case ellFirst Q of
            None \<Rightarrow> Some (h, l, P, Q)
          | Some q \<Rightarrow>
             (if cmp p q < 0 then do {
                (h, P, n) \<leftarrow> ellGet h P;
                n \<leftarrow> n;
                (h, l) \<leftarrow> ellAdd h l n;
                ell_merge cmp h l P Q }
              else do {
                (h, Q, n) \<leftarrow> ellGet h Q;
                n \<leftarrow> n;
                (h, l) \<leftarrow> ellAdd h l n;
                ell_merge cmp h l P Q })))"

text \<open>\<^verbatim>\<open>if(ellFirst(&P)) ellConcat(pList, &P); else if(ellFirst(&Q)) ellConcat(pList, &Q);\<close>\<close>

definition ell_append_rest ::
  "ell_heap \<Rightarrow> ELLLIST \<Rightarrow> ELLLIST \<Rightarrow> ELLLIST \<Rightarrow> (ell_heap \<times> ELLLIST \<times> ELLLIST \<times> ELLLIST) option" where
  "ell_append_rest h l P Q =
     (if ellFirst P \<noteq> None then do { (h, l, P) \<leftarrow> ellConcat h l P; Some (h, l, P, Q) }
      else if ellFirst Q \<noteq> None then do { (h, l, Q) \<leftarrow> ellConcat h l Q; Some (h, l, P, Q) }
      else Some (h, l, P, Q))"

text \<open>\<^verbatim>\<open>while(ellCount(&INP))\<close>: one pass over the sub-lists of size \<open>insize\<close>.\<close>

partial_function (option) ell_sort_pass ::
  "ell_cmp \<Rightarrow> nat \<Rightarrow> ell_heap \<Rightarrow> ELLLIST \<Rightarrow> ELLLIST \<Rightarrow> ELLLIST \<Rightarrow> ELLLIST \<Rightarrow>
   (ell_heap \<times> ELLLIST \<times> ELLLIST \<times> ELLLIST \<times> ELLLIST) option" where
  "ell_sort_pass cmp insize h l INP P Q =
     (if ellCount INP = 0 then Some (h, l, INP, P, Q)
      else do {
        (h, Q, INP) \<leftarrow> ellMoveN h Q INP insize;
        (h, P, INP) \<leftarrow> ellMoveN h P INP insize;
        (h, l, P, Q) \<leftarrow> ell_merge cmp h l P Q;
        (h, l, P, Q) \<leftarrow> ell_append_rest h l P Q;
        (if ellFirst P = None \<and> ellFirst Q = None
         then ell_sort_pass cmp insize h l INP P Q else None) })"

partial_function (option) ell_sort_loop ::
  "ell_cmp \<Rightarrow> nat \<Rightarrow> ell_heap \<Rightarrow> ELLLIST \<Rightarrow> ELLLIST \<Rightarrow> ELLLIST \<Rightarrow> ELLLIST \<Rightarrow>
   (ell_heap \<times> ELLLIST) option" where
  "ell_sort_loop cmp insize h l INP P Q =
     (if int insize < ellCount l then
        (if ellCount INP \<noteq> 0 then None
         else do {
           (h, INP, l) \<leftarrow> ellConcat h INP l;
           (h, l, INP, P, Q) \<leftarrow> ell_sort_pass cmp insize h l INP P Q;
           ell_sort_loop cmp (insize * 2) h l INP P Q })
      else Some (h, l))"

definition ellSortStable ::
  "ell_cmp \<Rightarrow> ell_heap \<Rightarrow> ELLLIST \<Rightarrow> (ell_heap \<times> ELLLIST) option" where
  "ellSortStable cmp h l =
     (if ellCount l \<le> 1 then Some (h, l)
      else ell_sort_loop cmp 1 h l ellInit ellInit ellInit)"

section \<open>The sort on sequences\<close>

fun merge_key :: "(addr \<Rightarrow> 'k::linorder) \<Rightarrow> addr list \<Rightarrow> addr list \<Rightarrow> addr list" where
  "merge_key f [] qs = qs"
| "merge_key f ps [] = ps"
| "merge_key f (p # ps) (q # qs) =
     (if f p < f q then p # merge_key f ps (q # qs) else q # merge_key f (p # ps) qs)"

function sort_pass :: "(addr \<Rightarrow> 'k::linorder) \<Rightarrow> nat \<Rightarrow> addr list \<Rightarrow> addr list" where
  "sort_pass f n xs =
     (if n = 0 \<or> xs = [] then []
      else merge_key f (take n (drop n xs)) (take n xs) @ sort_pass f n (drop (2 * n) xs))"
  by pat_completeness auto
termination
  by (relation "measure (\<lambda>(f, n, xs). length xs)") auto

declare sort_pass.simps [simp del]

lemma mset_merge_key: "mset (merge_key f ps qs) = mset ps + mset qs"
  by (induction f ps qs rule: merge_key.induct) auto

lemma length_merge_key [simp]: "length (merge_key f ps qs) = length ps + length qs"
  by (induction f ps qs rule: merge_key.induct) auto

lemma set_merge_key [simp]: "set (merge_key f ps qs) = set ps \<union> set qs"
  using mset_merge_key [of f ps qs] by (metis set_mset_mset set_mset_union)

lemma sorted_merge_key:
  "sorted (map f ps) \<Longrightarrow> sorted (map f qs) \<Longrightarrow> sorted (map f (merge_key f ps qs))"
  by (induction f ps qs rule: merge_key.induct) fastforce+

text \<open>Stability: among equal keys the left operand of the pass (\<open>qs\<close>) stays in front.\<close>

lemma filter_merge_key:
  "sorted (map f ps) \<Longrightarrow> sorted (map f qs) \<Longrightarrow>
   filter (\<lambda>x. f x = k) (merge_key f ps qs) =
   filter (\<lambda>x. f x = k) qs @ filter (\<lambda>x. f x = k) ps"
proof (induction f ps qs rule: merge_key.induct)
  case (3 f p ps q qs)
  show ?case
  proof (cases "f p < f q")
    case True
    then have "f p \<noteq> k \<or> filter (\<lambda>x. f x = k) (q # qs) = []"
      using "3.prems"(2) by (auto simp: filter_empty_conv)
    then show ?thesis using 3 True by auto
  next
    case False
    with 3 show ?thesis by simp
  qed
qed simp_all

text \<open>All sub-lists of size \<open>n\<close> are sorted.\<close>

definition chunks_sorted :: "(addr \<Rightarrow> 'k::linorder) \<Rightarrow> nat \<Rightarrow> addr list \<Rightarrow> bool" where
  "chunks_sorted f n xs \<longleftrightarrow> (\<forall>i. sorted (map f (take n (drop (i * n) xs))))"

lemma chunks_sorted_drop:
  "chunks_sorted f n xs \<Longrightarrow> chunks_sorted f n (drop (j * n) xs)"
  unfolding chunks_sorted_def
  by (metis add_mult_distrib drop_drop)

lemma sort_pass_perm: "0 < n \<Longrightarrow> mset (sort_pass f n xs) = mset xs"
proof (induction f n xs rule: sort_pass.induct)
  case (1 f n xs)
  show ?case
  proof (cases "xs = []")
    case False
    have "mset xs = mset (take n xs @ take n (drop n xs) @ drop (2 * n) xs)"
      by (metis append_take_drop_id drop_drop mult_2)
    with 1 False show ?thesis
      by (simp add: sort_pass.simps [of f n xs] mset_merge_key)
  qed (simp add: sort_pass.simps)
qed

lemma sort_pass_stable:
  assumes "0 < n" "chunks_sorted f n xs"
  shows "filter (\<lambda>x. f x = k) (sort_pass f n xs) = filter (\<lambda>x. f x = k) xs"
  using assms
proof (induction f n xs rule: sort_pass.induct)
  case (1 f n xs)
  show ?case
  proof (cases "xs = []")
    case False
    have split: "xs = take n xs @ take n (drop n xs) @ drop (2 * n) xs"
      by (metis append_take_drop_id drop_drop mult_2)
    have srt: "sorted (map f (take n xs))" "sorted (map f (take n (drop n xs)))"
      using "1.prems"(2) unfolding chunks_sorted_def
      by (metis drop0 mult_0, metis mult_1)
    have "filter (\<lambda>x. f x = k) (sort_pass f n (drop (2 * n) xs)) =
        filter (\<lambda>x. f x = k) (drop (2 * n) xs)"
      using 1 False chunks_sorted_drop [of f n xs 2] by simp
    with 1 False srt show ?thesis
      by (subst (2) split) (simp add: sort_pass.simps [of f n xs] filter_merge_key)
  qed (simp add: sort_pass.simps)
qed

lemma length_sort_pass: "0 < n \<Longrightarrow> length (sort_pass f n xs) = length xs"
  using sort_pass_perm [of n f xs] by (metis size_mset)

lemma set_sort_pass: "0 < n \<Longrightarrow> set (sort_pass f n xs) = set xs"
  using sort_pass_perm [of n f xs] by (metis set_mset_mset)

lemma chunks_sorted_append:
  assumes "length ys = n" "sorted (map f ys)" "chunks_sorted f n zs"
  shows "chunks_sorted f n (ys @ zs)"
  unfolding chunks_sorted_def
proof
  fix i
  show "sorted (map f (take n (drop (i * n) (ys @ zs))))"
    using assms by (cases i) (simp_all add: chunks_sorted_def)
qed

lemma chunks_sorted_short:
  "length xs \<le> n \<Longrightarrow> sorted (map f xs) \<Longrightarrow> chunks_sorted f n xs"
  by (simp add: chunks_sorted_def sorted_wrt_drop drop_map [symmetric])

lemma sort_pass_sorts:
  assumes "0 < n" "chunks_sorted f n xs"
  shows "chunks_sorted f (2 * n) (sort_pass f n xs)"
  using assms
proof (induction f n xs rule: sort_pass.induct)
  case (1 f n xs)
  show ?case
  proof (cases "xs = []")
    case False
    let ?m = "merge_key f (take n (drop n xs)) (take n xs)"
    have srt: "sorted (map f ?m)"
      using "1.prems"(2) unfolding chunks_sorted_def
      by (intro sorted_merge_key; metis drop0 mult_0 mult_1)
    have len: "length ?m = min (2 * n) (length xs)"
      by (simp only: length_merge_key length_take length_drop)
    have IH: "chunks_sorted f (2 * n) (sort_pass f n (drop (2 * n) xs))"
      using 1 False chunks_sorted_drop [of f n xs 2] by simp
    have eq: "sort_pass f n xs = ?m @ sort_pass f n (drop (2 * n) xs)"
      using False "1.prems"(1) by (simp add: sort_pass.simps [of f n xs])
    show ?thesis
    proof (cases "2 * n \<le> length xs")
      case True
      with len srt IH eq show ?thesis by (simp add: chunks_sorted_append)
    next
      case False
      then have "sort_pass f n xs = ?m" using eq by (simp add: sort_pass.simps)
      with len srt show ?thesis by (simp add: chunks_sorted_short)
    qed
  qed (simp add: sort_pass.simps chunks_sorted_def)
qed

text \<open>The outer loop, on sequences, and what it computes: the stable sort.\<close>

function sort_loop :: "(addr \<Rightarrow> 'k::linorder) \<Rightarrow> nat \<Rightarrow> addr list \<Rightarrow> addr list" where
  "sort_loop f n xs =
     (if 0 < n \<and> n < length xs then sort_loop f (n * 2) (sort_pass f n xs) else xs)"
  by pat_completeness auto
termination
  by (relation "measure (\<lambda>(f, n, xs). length xs - n)") (auto simp: length_sort_pass)

declare sort_loop.simps [simp del]

lemma sort_loop_correct:
  assumes "0 < n" "chunks_sorted f n xs"
  shows "mset (sort_loop f n xs) = mset xs \<and> sorted (map f (sort_loop f n xs)) \<and>
    (\<forall>k. filter (\<lambda>x. f x = k) (sort_loop f n xs) = filter (\<lambda>x. f x = k) xs)"
  using assms
proof (induction f n xs rule: sort_loop.induct)
  case (1 f n xs)
  show ?case
  proof (cases "n < length xs")
    case True
    with 1 sort_pass_sorts [OF "1.prems"] show ?thesis
      by (simp add: sort_loop.simps [of f n xs] sort_pass_perm sort_pass_stable mult.commute)
  next
    case False
    have "sorted (map f (take n (drop (0 * n) xs)))"
      using "1.prems"(2) unfolding chunks_sorted_def by blast
    with False show ?thesis by (simp add: sort_loop.simps)
  qed
qed

lemma sort_loop_sort_key: "sort_loop f 1 xs = sort_key f xs"
proof -
  have "chunks_sorted f 1 xs"
    unfolding chunks_sorted_def by (metis length_take min.cobounded2 sorted01 length_map)
  note ok = sort_loop_correct [OF zero_less_one this]
  have "filter (\<lambda>x. f k = f x) zs = filter (\<lambda>x. f x = f k) zs" for k zs
    by (rule filter_cong) auto
  with ok show ?thesis
    by (intro properties_for_sort_key [symmetric]) simp_all
qed

section \<open>The heap program implements the sort on sequences\<close>

lemma ellMoveN_refines:
  assumes "ell_list h from xs" "ell_list h to ys" "set xs \<inter> set ys = {}"
  shows "\<exists>h' to' from'. ellMoveN h to from k = Some (h', to', from') \<and>
           ell_list h' to' (ys @ take k xs) \<and> ell_list h' from' (drop k xs) \<and>
           heap_eq_on (set xs \<union> set ys) h h'"
  using assms
proof (induction k arbitrary: h to "from" xs ys)
  case 0
  then show ?case by auto
next
  case (Suc k)
  show ?case
  proof (cases xs)
    case Nil
    with Suc.prems show ?thesis by (auto simp: ell_list_simps ellInit_def)
  next
    case (Cons x xs')
    have "x \<notin> set xs'" "ellCount from \<noteq> 0"
      using Suc.prems(1) Cons by (auto simp: ell_list_def)
    then obtain h1 from' h2 to' where
        mv: "ellGet h from = Some (h1, from', Some x)" "ellAdd h1 to x = Some (h2, to')"
          "ell_list h2 from' xs'" "ell_list h2 to' (ys @ [x])"
          "heap_eq_on (set (x # xs') \<union> set ys) h h2"
      using ell.move_head [of h "from" x xs' to ys] Suc.prems Cons by blast
    have "set xs' \<inter> set (ys @ [x]) = {}" using Suc.prems(3) Cons \<open>x \<notin> set xs'\<close> by auto
    from Suc.IH [OF mv(3,4) this] obtain h' to'' from'' where
        rest: "ellMoveN h2 to' from' k = Some (h', to'', from'')"
          "ell_list h' to'' ((ys @ [x]) @ take k xs')" "ell_list h' from'' (drop k xs')"
          "heap_eq_on (set xs' \<union> set (ys @ [x])) h2 h'"
      by blast
    have "heap_eq_on (set xs \<union> set ys) h h'"
      using heap_eq_on_trans [OF mv(5) rest(4)] Cons by auto
    with mv(1,2) rest \<open>ellCount from \<noteq> 0\<close> Cons show ?thesis by auto
  qed
qed

text \<open>The callback orders the nodes by a key.\<close>

definition cmp_by :: "ell_cmp \<Rightarrow> (addr \<Rightarrow> 'k::linorder) \<Rightarrow> bool" where
  "cmp_by cmp f \<longleftrightarrow> (\<forall>a b. cmp a b < 0 \<longleftrightarrow> f a < f b)"

lemma ell_merge_refines:
  assumes "cmp_by cmp f" "ell_list h l zs" "ell_list h P ps" "ell_list h Q qs"
    "distinct (zs @ ps @ qs)"
  shows "\<exists>h' l' P' Q' ws ps' qs'. ell_merge cmp h l P Q = Some (h', l', P', Q') \<and>
           ell_list h' l' (zs @ ws) \<and> ell_list h' P' ps' \<and> ell_list h' Q' qs' \<and>
           (ps' = [] \<or> qs' = []) \<and> merge_key f ps qs = ws @ ps' @ qs' \<and>
           heap_eq_on (set (zs @ ps @ qs)) h h'"
  using assms
proof (induction f ps qs arbitrary: h l P Q zs rule: merge_key.induct)
  case (1 f qs)
  then have "ell_merge cmp h l P Q = Some (h, l, P, Q)"
    by (subst ell_merge.simps) (simp add: ell_list_simps ellInit_def)
  then show ?case using 1
    by (intro exI [of _ h] exI [of _ l] exI [of _ P] exI [of _ Q] exI [of _ "[]"] exI [of _ qs])
      simp
next
  case (2 f p ps)
  then have "ell_merge cmp h l P Q = Some (h, l, P, Q)"
    by (subst ell_merge.simps) (simp add: ell_list_simps ellInit_def split: option.splits)
  then show ?case using 2
    by (intro exI [of _ h] exI [of _ l] exI [of _ P] exI [of _ Q] exI [of _ "[]"]
        exI [of _ "p # ps"]) simp
next
  case (3 f p ps q qs)
  have first: "ellFirst P = Some p" "ellFirst Q = Some q"
    using "3.prems" by (simp_all add: ell_list_def)
  have dis: "set (p # ps) \<inter> set zs = {}" "p \<notin> set ps" "set (q # qs) \<inter> set zs = {}" "q \<notin> set qs"
    using "3.prems"(5) by auto
  show ?case
  proof (cases "f p < f q")
    case True
    then have cmp: "cmp p q < 0" using "3.prems"(1) by (simp add: cmp_by_def)
    obtain h1 P' h2 l' where
        mv: "ellGet h P = Some (h1, P', Some p)" "ellAdd h1 l p = Some (h2, l')"
          "ell_list h2 P' ps" "ell_list h2 l' (zs @ [p])"
          "heap_eq_on (set (p # ps) \<union> set zs) h h2"
      using ell.move_head [OF "3.prems"(3,2) dis(1,2)] by blast
    have Q: "ell_list h2 Q (q # qs)"
      using ell_list_frame [OF mv(5) _ "3.prems"(4)] "3.prems"(5) by auto
    have "distinct ((zs @ [p]) @ ps @ q # qs)" using "3.prems"(5) by auto
    from "3.IH"(1) [OF True "3.prems"(1) mv(4,3) Q this]
    obtain h' l'' P'' Q'' ws ps' qs' where
        rest: "ell_merge cmp h2 l' P' Q = Some (h', l'', P'', Q'')"
          "ell_list h' l'' ((zs @ [p]) @ ws)" "ell_list h' P'' ps'" "ell_list h' Q'' qs'"
          "ps' = [] \<or> qs' = []" "merge_key f ps (q # qs) = ws @ ps' @ qs'"
          "heap_eq_on (set ((zs @ [p]) @ ps @ q # qs)) h2 h'" by blast
    have "ell_merge cmp h l P Q = Some (h', l'', P'', Q'')"
      using first cmp mv(1,2) rest(1) by (subst ell_merge.simps) simp
    moreover have "heap_eq_on (set (zs @ (p # ps) @ q # qs)) h h'"
      by (rule heap_eq_on_trans [OF mv(5) rest(7)]) auto
    ultimately show ?thesis using rest(2-6) True
      by (intro exI [of _ h'] exI [of _ l''] exI [of _ P''] exI [of _ Q''] exI [of _ "p # ws"]
          exI [of _ ps'] exI [of _ qs']) simp
  next
    case False
    then have cmp: "\<not> cmp p q < 0" using "3.prems"(1) by (simp add: cmp_by_def)
    obtain h1 Q' h2 l' where
        mv: "ellGet h Q = Some (h1, Q', Some q)" "ellAdd h1 l q = Some (h2, l')"
          "ell_list h2 Q' qs" "ell_list h2 l' (zs @ [q])"
          "heap_eq_on (set (q # qs) \<union> set zs) h h2"
      using ell.move_head [OF "3.prems"(4,2) dis(3,4)] by blast
    have P: "ell_list h2 P (p # ps)"
      using ell_list_frame [OF mv(5) _ "3.prems"(3)] "3.prems"(5) by auto
    have "distinct ((zs @ [q]) @ (p # ps) @ qs)" using "3.prems"(5) by auto
    from "3.IH"(2) [OF False "3.prems"(1) mv(4) P mv(3) this]
    obtain h' l'' P'' Q'' ws ps' qs' where
        rest: "ell_merge cmp h2 l' P Q' = Some (h', l'', P'', Q'')"
          "ell_list h' l'' ((zs @ [q]) @ ws)" "ell_list h' P'' ps'" "ell_list h' Q'' qs'"
          "ps' = [] \<or> qs' = []" "merge_key f (p # ps) qs = ws @ ps' @ qs'"
          "heap_eq_on (set ((zs @ [q]) @ (p # ps) @ qs)) h2 h'" by blast
    have "ell_merge cmp h l P Q = Some (h', l'', P'', Q'')"
      using first cmp mv(1,2) rest(1) by (subst ell_merge.simps) simp
    moreover have "heap_eq_on (set (zs @ (p # ps) @ q # qs)) h h'"
      by (rule heap_eq_on_trans [OF mv(5) rest(7)]) auto
    ultimately show ?thesis using rest(2-6) False
      by (intro exI [of _ h'] exI [of _ l''] exI [of _ P''] exI [of _ Q''] exI [of _ "q # ws"]
          exI [of _ ps'] exI [of _ qs']) simp
  qed
qed

lemma ell_append_rest_refines:
  assumes "ell_list h l zs" "ell_list h P ps" "ell_list h Q qs" "distinct (zs @ ps @ qs)"
    "ps = [] \<or> qs = []"
  shows "\<exists>h' l'. ell_append_rest h l P Q = Some (h', l', ellInit, ellInit) \<and>
           ell_list h' l' (zs @ ps @ qs) \<and> heap_eq_on (set (zs @ ps @ qs)) h h'"
proof (cases ps)
  case (Cons p ps')
  have "set zs \<inter> set ps = {}" using assms(4) by auto
  from ellConcat_refines [OF assms(1,2) this] Cons assms show ?thesis
    by (auto simp: ell_append_rest_def ell_list_simps(1)) (auto simp: ell_list_def)
next
  case Nil
  have P: "P = ellInit" using assms(2) Nil by (simp add: ell_list_simps)
  show ?thesis
  proof (cases qs)
    case (Cons q qs')
    have "set zs \<inter> set qs = {}" using assms(4) by auto
    from ellConcat_refines [OF assms(1,3) this] Nil Cons P assms show ?thesis
      by (auto simp: ell_append_rest_def ellInit_def) (auto simp: ell_list_def)
  next
    case Nil
    with assms P \<open>ps = []\<close> show ?thesis
      by (simp add: ell_append_rest_def ell_list_simps(1)) (simp add: ellInit_def)
  qed
qed

lemma ell_sort_pass_refines:
  assumes "cmp_by cmp f" "0 < n" "ell_list h l zs" "ell_list h INP xs" "distinct (zs @ xs)"
  shows "\<exists>h' l'. ell_sort_pass cmp n h l INP ellInit ellInit = Some (h', l', ellInit, ellInit, ellInit) \<and>
           ell_list h' l' (zs @ sort_pass f n xs)"
  using assms
proof (induction f n xs arbitrary: h l INP zs rule: sort_pass.induct)
  case (1 f n xs)
  show ?case
  proof (cases "xs = []")
    case True
    with 1 show ?thesis
      by (subst ell_sort_pass.simps) (simp add: ell_list_simps(1) sort_pass.simps ellInit_def)
  next
    case False
    let ?q = "take n xs" and ?p = "take n (drop n xs)" and ?r = "drop (2 * n) xs"
    let ?m = "merge_key f ?p ?q"
    have split: "xs = ?q @ drop n xs" "drop n xs = ?p @ ?r"
      by (simp, metis append_take_drop_id drop_drop mult_2)
    have dist: "distinct (zs @ ?q @ ?p @ ?r)" using "1.prems"(5) split by metis
    have sets: "set xs = set ?q \<union> set ?p \<union> set ?r" "set (drop n xs) = set ?p \<union> set ?r"
      using arg_cong [OF split(1), of set] arg_cong [OF split(2), of set]
      by (auto simp only: set_append)
    have empty: "ell_list k ellInit []" for k by (simp add: ell_list_simps)
    obtain h1 Q1 I1 where
        q: "ellMoveN h ellInit INP n = Some (h1, Q1, I1)" "ell_list h1 Q1 ?q"
          "ell_list h1 I1 (drop n xs)" "heap_eq_on (set xs) h h1"
      using ellMoveN_refines [OF "1.prems"(4) empty, of n] by auto
    have l1: "ell_list h1 l zs"
      using ell_list_frame [OF q(4) _ "1.prems"(3)] "1.prems"(5) by auto
    obtain h2 P1 I2 where
        p: "ellMoveN h1 ellInit I1 n = Some (h2, P1, I2)" "ell_list h2 P1 ?p"
          "ell_list h2 I2 ?r" "heap_eq_on (set (drop n xs)) h1 h2"
      using ellMoveN_refines [OF q(3) empty, of n] by (auto simp: mult_2)
    have "set zs \<inter> set (drop n xs) = {}" "set ?q \<inter> set (drop n xs) = {}"
      using dist sets(2) by auto
    then have l2: "ell_list h2 l zs" "ell_list h2 Q1 ?q"
      using ell_list_frame [OF p(4) _ l1] ell_list_frame [OF p(4) _ q(2)] by simp_all
    have "distinct (zs @ ?p @ ?q)" using dist by auto
    from ell_merge_refines [OF "1.prems"(1) l2(1) p(2) l2(2) this]
    obtain h3 l3 P3 Q3 ws ps qs where
        m: "ell_merge cmp h2 l P1 Q1 = Some (h3, l3, P3, Q3)" "ell_list h3 l3 (zs @ ws)"
          "ell_list h3 P3 ps" "ell_list h3 Q3 qs" "ps = [] \<or> qs = []" "?m = ws @ ps @ qs"
          "heap_eq_on (set (zs @ ?p @ ?q)) h2 h3" by blast
    have i3: "ell_list h3 I2 ?r" using ell_list_frame [OF m(7) _ p(3)] dist by auto
    have setm: "set ws \<union> set ps \<union> set qs = set ?p \<union> set ?q"
      using arg_cong [OF m(6), of set] by auto
    have "mset ?m = mset (?p @ ?q)" unfolding mset_append by (rule mset_merge_key)
    then have "distinct ?m = distinct (?p @ ?q)" by (rule mset_eq_imp_distinct_iff)
    then have "distinct ?m" using dist by auto
    then have "distinct ((zs @ ws) @ ps @ qs)" using m(6) setm dist by auto
    from ell_append_rest_refines [OF m(2-4) this m(5)]
    obtain h4 l4 where
        r: "ell_append_rest h3 l3 P3 Q3 = Some (h4, l4, ellInit, ellInit)"
          "ell_list h4 l4 (zs @ ?m)" "heap_eq_on (set ((zs @ ws) @ ps @ qs)) h3 h4"
      using m(6) by auto
    have i4: "ell_list h4 I2 ?r" using ell_list_frame [OF r(3) _ i3] setm dist by auto
    have "distinct ((zs @ ?m) @ ?r)" using \<open>distinct ?m\<close> dist by auto
    with "1.IH" [OF _ "1.prems"(1,2) r(2) i4] False "1.prems"(2) obtain h5 l5 where
        fin: "ell_sort_pass cmp n h4 l4 I2 ellInit ellInit = Some (h5, l5, ellInit, ellInit, ellInit)"
          "ell_list h5 l5 ((zs @ ?m) @ sort_pass f n ?r)" by auto
    have "ellCount INP \<noteq> 0" using "1.prems"(4) False by (auto simp: ell_list_def)
    then have "ell_sort_pass cmp n h l INP ellInit ellInit = Some (h5, l5, ellInit, ellInit, ellInit)"
      using q(1) p(1) m(1) r(1) fin(1)
      by (subst ell_sort_pass.simps) (simp add: ellInit_def)
    with fin(2) False "1.prems"(2) show ?thesis
      by (simp add: sort_pass.simps [of f n xs])
  qed
qed

lemma ell_sort_loop_refines:
  assumes "cmp_by cmp f" "0 < n" "ell_list h l xs"
  shows "\<exists>h' l'. ell_sort_loop cmp n h l ellInit ellInit ellInit = Some (h', l') \<and>
           ell_list h' l' (sort_loop f n xs)"
  using assms
proof (induction f n xs arbitrary: h l rule: sort_loop.induct)
  case (1 f n xs)
  have cnt: "ellCount l = int (length xs)" "distinct xs"
    using "1.prems"(3) by (simp_all add: ell_list_def)
  show ?case
  proof (cases "n < length xs")
    case True
    have "ell_list h ellInit []" by (simp add: ell_list_simps)
    from ellConcat_refines [OF this "1.prems"(3)] obtain h1 I1 where
        c: "ellConcat h ellInit l = Some (h1, I1, ellInit)" "ell_list h1 I1 xs" by auto
    have "ell_list h1 ellInit []" by (simp add: ell_list_simps)
    from ell_sort_pass_refines [OF "1.prems"(1,2) this c(2)] cnt obtain h2 l2 where
        p: "ell_sort_pass cmp n h1 ellInit I1 ellInit ellInit =
              Some (h2, l2, ellInit, ellInit, ellInit)" "ell_list h2 l2 (sort_pass f n xs)" by auto
    from "1.IH" [OF _ "1.prems"(1) _ p(2)] True "1.prems"(2) obtain h3 l3 where
        "ell_sort_loop cmp (n * 2) h2 l2 ellInit ellInit ellInit = Some (h3, l3)"
        "ell_list h3 l3 (sort_loop f (n * 2) (sort_pass f n xs))" by auto
    with True cnt c(1) p(1) "1.prems"(2) show ?thesis
      by (subst ell_sort_loop.simps) (simp add: ellInit_def sort_loop.simps [of f n xs])
  next
    case False
    with cnt "1.prems" show ?thesis
      by (subst ell_sort_loop.simps) (simp add: sort_loop.simps [of f n xs])
  qed
qed

lemma ellSortStable_refines:
  assumes "cmp_by cmp f" "ell_list h l xs"
  shows "\<exists>h' l'. ellSortStable cmp h l = Some (h', l') \<and> ell_list h' l' (sort_key f xs)"
proof (cases "ellCount l \<le> 1")
  case True
  then have "length xs \<le> 1" using assms(2) by (simp add: ell_list_def)
  then have "sort_key f xs = xs" by (cases xs) auto
  with True assms show ?thesis by (simp add: ellSortStable_def)
next
  case False
  with ell_sort_loop_refines [OF assms(1) zero_less_one assms(2)] show ?thesis
    by (simp add: ellSortStable_def sort_loop_sort_key [unfolded One_nat_def])
qed

section \<open>Property\<close>

text \<open>
  C14: \<^verbatim>\<open>ellSortStable\<close> terminates without a failed assertion or a NULL dereference and
  leaves the list sorted by the comparison function, with nodes that compare equal in
  their original order.
\<close>

theorem ellSortStable_sorts:
  assumes "cmp_by cmp f" "ell_list h l xs"
  shows "\<exists>h' l' ys. ellSortStable cmp h l = Some (h', l') \<and> ell_list h' l' ys \<and>
     sorted (map f ys) \<and> mset ys = mset xs \<and>
     (\<forall>k. filter (\<lambda>x. f x = k) ys = filter (\<lambda>x. f x = k) xs)"
proof -
  obtain h' l' where "ellSortStable cmp h l = Some (h', l')" "ell_list h' l' (sort_key f xs)"
    using ellSortStable_refines [OF assms] by blast
  then show ?thesis
    by (auto intro!: exI [of _ "sort_key f xs"] simp: sort_key_stable)
qed

theorem ellSortStable_sorts_witness:
  "\<exists>h' l' ys. ellSortStable (\<lambda>a b. int b - int a) (fst ell_sample) (snd ell_sample) =
     Some (h', l') \<and> ell_list h' l' ys \<and> sorted (map (\<lambda>a. - int a) ys)"
proof -
  have "cmp_by (\<lambda>a b. int b - int a) (\<lambda>a. - int a)" by (simp add: cmp_by_def)
  from ellSortStable_sorts [OF this ell_sample_list(1)] show ?thesis by blast
qed

end
