(* ===== verification/KvTable.thy ===== *)
theory KvTable
  imports Epics_Prelude
begin

text \<open>
  What the two hash tables of libCom (\<^verbatim>\<open>gpHashLib.c\<close> and \<^verbatim>\<open>bucketLib.c\<close>) have in common: the
  chains of a hash table as a list of lists, and the finite-map contract their users rely on.
\<close>

section \<open>Chains\<close>

text \<open>Unlinking the first entry of a chain that matches.\<close>

fun remove_first :: "('e \<Rightarrow> bool) \<Rightarrow> 'e list \<Rightarrow> 'e list" where
  "remove_first P [] = []"
| "remove_first P (e # es) = (if P e then es else e # remove_first P es)"

definition chains_ok :: "('k \<Rightarrow> nat) \<Rightarrow> ('e \<Rightarrow> 'k) \<Rightarrow> 'e list list \<Rightarrow> bool" where
  "chains_ok hash key bs \<longleftrightarrow>
     (\<forall>i < length bs. distinct (map key (bs ! i)) \<and> (\<forall>e \<in> set (bs ! i). hash (key e) = i))"

definition chains_find :: "('k \<Rightarrow> nat) \<Rightarrow> ('e \<Rightarrow> 'k) \<Rightarrow> 'e list list \<Rightarrow> 'k \<Rightarrow> 'e option" where
  "chains_find hash key bs k = find (\<lambda>e. key e = k) (bs ! hash k)"

lemma remove_first_subset: "set (remove_first P es) \<subseteq> set es"
  by (induction es) auto

lemma distinct_remove_first: "distinct (map f es) \<Longrightarrow> distinct (map f (remove_first P es))"
  by (induction es) (auto dest: subsetD [OF remove_first_subset])

lemma find_remove_first:
  "distinct (map key es) \<Longrightarrow>
   find (\<lambda>e. key e = k) (remove_first (\<lambda>e. key e = j) es) =
     (if k = j then None else find (\<lambda>e. key e = k) es)"
  by (induction es) (auto simp: find_None_iff image_iff)

lemma length_remove_first:
  "find P es \<noteq> None \<Longrightarrow> Suc (length (remove_first P es)) = length es"
  by (induction es) auto

lemma remove_first_none: "find P es = None \<Longrightarrow> remove_first P es = es"
  by (induction es) (auto split: if_splits)

lemma find_append: "find P (xs @ ys) = (case find P xs of None \<Rightarrow> find P ys | Some e \<Rightarrow> Some e)"
  by (induction xs) auto

lemma find_key: "find (\<lambda>e. key e = k) es = Some e \<Longrightarrow> key e = k \<and> e \<in> set es"
  by (auto simp: find_Some_iff)

lemma chains_empty: "chains_ok hash key (replicate n [])"
  "hash k < n \<Longrightarrow> chains_find hash key (replicate n []) k = None"
  by (simp_all add: chains_ok_def chains_find_def)

lemma chains_update_ok:
  assumes "chains_ok hash key bs" "distinct (map key es)" "\<forall>e \<in> set es. hash (key e) = i"
  shows "chains_ok hash key (bs[i := es])"
  unfolding chains_ok_def
proof (intro allI impI)
  fix j assume "j < length (bs[i := es])"
  with assms show "distinct (map key (bs[i := es] ! j)) \<and>
      (\<forall>e \<in> set (bs[i := es] ! j). hash (key e) = j)"
    by (cases "i = j") (simp_all add: chains_ok_def)
qed

lemma chains_find_other: "hash k \<noteq> i \<Longrightarrow> chains_find hash key (bs[i := es]) k = chains_find hash key bs k"
  by (simp add: chains_find_def)

lemma chains_insert:
  assumes ok: "chains_ok hash key bs" and i: "hash (key e) < length bs"
    and new: "chains_find hash key bs (key e) = None"
    and es: "es = e # bs ! hash (key e) \<or> es = bs ! hash (key e) @ [e]"
  shows "chains_ok hash key (bs[hash (key e) := es])"
    and "chains_find hash key (bs[hash (key e) := es]) =
           (chains_find hash key bs)(key e \<mapsto> e)"
proof -
  let ?i = "hash (key e)"
  have old: "distinct (map key (bs ! ?i))" "\<forall>x \<in> set (bs ! ?i). hash (key x) = ?i"
    using ok i unfolding chains_ok_def by blast+
  have "key e \<notin> key ` set (bs ! ?i)"
    using new by (auto simp: chains_find_def find_None_iff)
  with old(1) es have "distinct (map key es)" by auto
  moreover have "\<forall>x \<in> set es. hash (key x) = ?i"
    using old(2) es by (metis Un_iff empty_iff empty_set set_ConsD set_append)
  ultimately show "chains_ok hash key (bs[?i := es])"
    by (rule chains_update_ok [OF ok])
  show "chains_find hash key (bs[?i := es]) = (chains_find hash key bs)(key e \<mapsto> e)"
  proof
    fix k
    show "chains_find hash key (bs[?i := es]) k = ((chains_find hash key bs)(key e \<mapsto> e)) k"
    proof (cases "hash k = ?i")
      case True
      then show ?thesis using es i new
        by (auto simp: chains_find_def find_append split: option.splits)
    next
      case False
      then show ?thesis by (auto simp: chains_find_other)
    qed
  qed
qed

lemma chains_remove:
  assumes ok: "chains_ok hash key bs" and i: "hash j < length bs"
  shows "chains_ok hash key (bs[hash j := remove_first (\<lambda>e. key e = j) (bs ! hash j)])"
    and "chains_find hash key (bs[hash j := remove_first (\<lambda>e. key e = j) (bs ! hash j)]) =
           (chains_find hash key bs)(j := None)"
proof -
  let ?es = "remove_first (\<lambda>e. key e = j) (bs ! hash j)"
  have old: "distinct (map key (bs ! hash j))" "\<forall>x \<in> set (bs ! hash j). hash (key x) = hash j"
    using ok i unfolding chains_ok_def by blast+
  then show "chains_ok hash key (bs[hash j := ?es])"
    using remove_first_subset [of "\<lambda>e. key e = j" "bs ! hash j"]
    by (intro chains_update_ok [OF ok] distinct_remove_first) blast+
  show "chains_find hash key (bs[hash j := ?es]) = (chains_find hash key bs)(j := None)"
  proof
    fix k
    show "chains_find hash key (bs[hash j := ?es]) k = ((chains_find hash key bs)(j := None)) k"
      using i find_remove_first [OF old(1)]
      by (cases "hash k = hash j") (auto simp: chains_find_other, auto simp: chains_find_def)
  qed
qed

section \<open>The finite-map contract\<close>

datatype ('k, 'v) kv_op = KAdd 'k 'v | KRemove 'k

text \<open>A run of requests: the final table and, for every add, whether it was accepted.\<close>

fun kv_run ::
  "('t \<Rightarrow> 'k \<Rightarrow> 'v \<Rightarrow> 't \<times> bool) \<Rightarrow> ('t \<Rightarrow> 'k \<Rightarrow> 't) \<Rightarrow> 't \<Rightarrow> ('k, 'v) kv_op list \<Rightarrow>
   't \<times> bool list" where
  "kv_run add remove t [] = (t, [])"
| "kv_run add remove t (KAdd k v # ops) =
     (let (t1, ok) = add t k v; (t2, oks) = kv_run add remove t1 ops in (t2, ok # oks))"
| "kv_run add remove t (KRemove k # ops) = kv_run add remove (remove t k) ops"

text \<open>The same on finite maps: an add of a present key is refused.\<close>

definition map_add_new :: "('k \<rightharpoonup> 'v) \<Rightarrow> 'k \<Rightarrow> 'v \<Rightarrow> ('k \<rightharpoonup> 'v) \<times> bool" where
  "map_add_new m k v = (if m k = None then (m(k \<mapsto> v), True) else (m, False))"

definition map_remove :: "('k \<rightharpoonup> 'v) \<Rightarrow> 'k \<Rightarrow> ('k \<rightharpoonup> 'v)" where
  "map_remove m k = m(k := None)"

fun kv_op_key :: "('k, 'v) kv_op \<Rightarrow> 'k" where
  "kv_op_key (KAdd k v) = k"
| "kv_op_key (KRemove k) = k"

locale kv_table =
  fixes find :: "'t \<Rightarrow> 'k \<Rightarrow> 'v option"
    and add :: "'t \<Rightarrow> 'k \<Rightarrow> 'v \<Rightarrow> 't \<times> bool"
    and remove :: "'t \<Rightarrow> 'k \<Rightarrow> 't"
    and key_ok :: "'k \<Rightarrow> bool"
    and inv :: "'t \<Rightarrow> bool"
    and abs :: "'t \<Rightarrow> 'k \<Rightarrow> 'v option"
  assumes find_abs: "inv t \<Longrightarrow> key_ok k \<Longrightarrow> find t k = abs t k"
    and add_abs: "inv t \<Longrightarrow> key_ok k \<Longrightarrow> add t k v = (t', ok) \<Longrightarrow>
      inv t' \<and> map_add_new (abs t) k v = (abs t', ok)"
    and remove_abs: "inv t \<Longrightarrow> key_ok k \<Longrightarrow>
      inv (remove t k) \<and> abs (remove t k) = map_remove (abs t) k"
begin

text \<open>Every run of requests is the run on finite maps.\<close>

lemma run_abs:
  assumes "inv t" "list_all (\<lambda>op. key_ok (kv_op_key op)) ops" "kv_run add remove t ops = (t', oks)"
  shows "inv t' \<and> kv_run map_add_new map_remove (abs t) ops = (abs t', oks)"
  using assms
proof (induction ops arbitrary: t oks)
  case (Cons op ops)
  show ?case
  proof (cases op)
    case (KAdd k v)
    obtain t1 ok where t1: "add t k v = (t1, ok)" by fastforce
    obtain oks' where oks: "oks = ok # oks'" "kv_run add remove t1 ops = (t', oks')"
      using Cons.prems(3) KAdd t1 by (auto split: prod.splits)
    have "inv t1" "map_add_new (abs t) k v = (abs t1, ok)"
      using add_abs [OF Cons.prems(1) _ t1] Cons.prems(2) KAdd by simp_all
    with Cons.IH [OF _ _ oks(2)] Cons.prems(2) oks(1) KAdd show ?thesis by simp
  next
    case (KRemove k)
    have "inv (remove t k)" "abs (remove t k) = map_remove (abs t) k"
      using remove_abs [OF Cons.prems(1)] Cons.prems(2) KRemove by simp_all
    with Cons.IH [of "remove t k" oks] Cons.prems KRemove show ?thesis by simp
  qed
qed simp

text \<open>What was added is found until it is removed, and nothing else is disturbed.\<close>

lemma find_after_add:
  assumes "inv t" "key_ok k" "key_ok j" "find t k = None" "add t k v = (t', ok)"
  shows "ok \<and> find t' j = (if j = k then Some v else find t j)"
proof -
  have t': "inv t'" "map_add_new (abs t) k v = (abs t', ok)"
    using add_abs [OF assms(1,2,5)] by simp_all
  moreover have "abs t k = None" using find_abs assms by simp
  ultimately have "ok" "abs t' = (abs t)(k \<mapsto> v)" by (auto simp: map_add_new_def)
  then show ?thesis using find_abs t'(1) assms by simp
qed

end

end
