(* ===== verification/EpicsString.thy ===== *)
theory EpicsString
  imports Epics_Prelude "HOL-Library.Sublist"
begin

unbundle bit_operations_syntax

text \<open>
  The string routines of \<^verbatim>\<open>modules/libcom/src/misc/epicsString.c\<close>. A C string is the list of
  its characters up to the NUL; a counted buffer is the list of its \<open>srclen\<close> characters.
  What a routine stores through \<open>dst\<close> (without the closing NUL) is part of its result.
\<close>

section \<open>Characters\<close>

definition char_nul :: char where
  "char_nul = CHR 0x00"

definition char_backslash :: char where
  "char_backslash = CHR 0x5C"

text \<open>The value of a (signed) \<^verbatim>\<open>char\<close> converted to \<^verbatim>\<open>int\<close>.\<close>

definition char_int :: "char \<Rightarrow> int" where
  "char_int c = (let n = of_char c in if n < 128 then n else n - 256)"

definition char_to_upper :: "int \<Rightarrow> int" where
  "char_to_upper x = (if 97 \<le> x \<and> x \<le> 122 then x - 32 else x)"

definition is_print :: "char \<Rightarrow> bool" where
  "is_print c \<longleftrightarrow> 32 \<le> (of_char c :: nat) \<and> (of_char c :: nat) \<le> 126"

definition is_space :: "char \<Rightarrow> bool" where
  "is_space c \<longleftrightarrow> (of_char c :: nat) = 32 \<or> (9 \<le> (of_char c :: nat) \<and> (of_char c :: nat) \<le> 13)"

definition is_digit :: "char \<Rightarrow> bool" where
  "is_digit c \<longleftrightarrow> 48 \<le> (of_char c :: nat) \<and> (of_char c :: nat) \<le> 57"

definition is_odigit :: "char \<Rightarrow> bool" where
  "is_odigit c \<longleftrightarrow> 48 \<le> (of_char c :: nat) \<and> (of_char c :: nat) \<le> 55"

definition is_xdigit :: "char \<Rightarrow> bool" where
  "is_xdigit c \<longleftrightarrow> is_digit c \<or> (65 \<le> (of_char c :: nat) \<and> (of_char c :: nat) \<le> 70) \<or>
     (97 \<le> (of_char c :: nat) \<and> (of_char c :: nat) \<le> 102)"

definition xdigit_val :: "char \<Rightarrow> nat" where
  "xdigit_val c =
     (let n = of_char c in
      if n > 57 then (if 97 \<le> n then n - 32 else n) - 65 + 10 else n - 48)"

section \<open>Escape sequences\<close>

text \<open>An \<^verbatim>\<open>int\<close> has 32 bits and wraps around; sizes are converted to it.\<close>

definition c_int :: "int \<Rightarrow> int" where
  "c_int x = (x + 2147483648) mod 4294967296 - 2147483648"

lemma c_int_id [simp]: "- 2147483648 \<le> x \<Longrightarrow> x \<le> 2147483647 \<Longrightarrow> c_int x = x"
  by (simp add: c_int_def)

text \<open>
  \<^verbatim>\<open>OUT(chr)\<close> of \<^verbatim>\<open>epicsStrnRawFromEscaped\<close>: the state is the remaining space \<open>rem\<close>, which is
  an \<^verbatim>\<open>int\<close>, and the characters stored so far, whose number is \<open>ndst\<close>.
\<close>

definition raw_out :: "int \<times> string \<Rightarrow> nat \<Rightarrow> int \<times> string" where
  "raw_out st u =
     (case st of (rem, dst) \<Rightarrow>
        let rem' = c_int (rem - 1) in (rem', if rem' > 0 then dst @ [char_of u] else dst))"

text \<open>
  Reading the next character: \<open>None\<close> when the count has run out or a NUL was read, which
  ends the conversion.
\<close>

definition raw_fetch :: "string \<Rightarrow> (char \<times> string) option" where
  "raw_fetch src =
     (case src of [] \<Rightarrow> None | c # s \<Rightarrow> if c = char_nul then None else Some (c, s))"

text \<open>
  The value of \<^verbatim>\<open>\ooo\<close>, \<open>c\<close> being the first digit, and the character in hand afterwards:
  the one that ended the digits (\<^verbatim>\<open>goto input\<close>) or the next one of the loop.
\<close>

definition raw_octal :: "char \<Rightarrow> string \<Rightarrow> nat \<times> (char \<times> string) option" where
  "raw_octal c src =
     (let u = of_char c - 48 in
      case raw_fetch src of
        None \<Rightarrow> (u, None)
      | Some (c, src) \<Rightarrow>
          if \<not> is_odigit c then (u, Some (c, src))
          else
            let u = u * 8 + (of_char c - 48) in
            (case raw_fetch src of
               None \<Rightarrow> (u, None)
             | Some (c, src) \<Rightarrow>
                 if \<not> is_odigit c then (u, Some (c, src))
                 else (u * 8 + (of_char c - 48), raw_fetch src)))"

text \<open>The digits of \<^verbatim>\<open>\xXXX...\<close>, and the character that ended them.\<close>

fun raw_hex :: "nat \<Rightarrow> char \<Rightarrow> string \<Rightarrow> nat \<times> (char \<times> string) option" where
  "raw_hex u c src =
     (if is_xdigit c then
        let u = (u * 16 + xdigit_val c) mod 2 ^ 32 in
        (case src of
           [] \<Rightarrow> (u, None)
         | d # src \<Rightarrow> if d = char_nul then (u, None) else raw_hex u d src)
      else (u, Some (c, src)))"

declare raw_hex.simps [simp del]

text \<open>The single-character escapes.\<close>

definition raw_simple :: "char \<Rightarrow> nat option" where
  "raw_simple c =
     (if c = CHR ''a'' then Some 7 else if c = CHR ''b'' then Some 8
      else if c = CHR ''f'' then Some 12 else if c = CHR ''n'' then Some 10
      else if c = CHR ''r'' then Some 13 else if c = CHR ''t'' then Some 9
      else if c = CHR ''v'' then Some 11 else if c = char_backslash then Some 92
      else if c = CHR 0x27 then Some 39 else if c = CHR 0x22 then Some 34
      else None)"

text \<open>
  One round of the loop body from the label \<^verbatim>\<open>input\<close> on, \<open>c\<close> being the character in hand:
  the code that is output, if any, and the next character in hand, \<open>None\<close> at the end.
\<close>

definition raw_step :: "char \<Rightarrow> string \<Rightarrow> nat option \<times> (char \<times> string) option" where
  "raw_step c src =
     (if c \<noteq> char_backslash then (Some (of_char c), raw_fetch src)
      else
        case raw_fetch src of
          None \<Rightarrow> (None, None)
        | Some (c, src) \<Rightarrow>
            if is_odigit c then (case raw_octal c src of (u, nxt) \<Rightarrow> (Some u, nxt))
            else if c = CHR ''x'' then
              (case raw_fetch src of
                 None \<Rightarrow> (None, None)
               | Some (c, src) \<Rightarrow> (case raw_hex 0 c src of (u, nxt) \<Rightarrow> (Some u, nxt)))
            else
              (Some (case raw_simple c of Some u \<Rightarrow> u | None \<Rightarrow> of_char c), raw_fetch src))"

lemma raw_hex_shorter: "raw_hex u c src = (v, Some (d, s)) \<Longrightarrow> length s \<le> length src"
proof (induction u c src rule: raw_hex.induct)
  case (1 u c src)
  then show ?case
    by (subst (asm) raw_hex.simps) (fastforce simp: Let_def split: if_splits list.splits)
qed

lemma raw_fetch_Some: "raw_fetch src = Some (c, s) \<longleftrightarrow> src = c # s \<and> c \<noteq> char_nul"
  by (cases src) (auto simp: raw_fetch_def)

lemma raw_step_shorter: "raw_step c src = (out, Some (d, s)) \<Longrightarrow> length s < length src"
  by (auto simp: raw_step_def raw_octal_def Let_def raw_fetch_Some dest!: raw_hex_shorter
      split: if_splits option.splits prod.splits)

function raw_input :: "char \<Rightarrow> string \<Rightarrow> int \<times> string \<Rightarrow> int \<times> string" where
  "raw_input c src st =
     (case raw_step c src of
        (out, nxt) \<Rightarrow>
          let st = (case out of None \<Rightarrow> st | Some u \<Rightarrow> raw_out st u) in
          (case nxt of None \<Rightarrow> st | Some (d, s) \<Rightarrow> raw_input d s st))"
  by pat_completeness auto
termination
  by (relation "measure (\<lambda>(c, src, st). length src)") (auto dest!: raw_step_shorter [OF sym])

declare raw_input.simps [simp del]

text \<open>\<open>while (srclen--) \<dots>\<close>\<close>

definition raw_loop :: "string \<Rightarrow> int \<times> string \<Rightarrow> int \<times> string" where
  "raw_loop src st =
     (case raw_fetch src of None \<Rightarrow> st | Some (c, s) \<Rightarrow> raw_input c s st)"

text \<open>The characters stored at \<open>dst\<close>, and the return value.\<close>

definition epicsStrnRawFromEscaped :: "nat \<Rightarrow> string \<Rightarrow> string \<times> int" where
  "epicsStrnRawFromEscaped dstlen src =
     (let dst = snd (raw_loop src (c_int (int dstlen), [])) in (dst, int (length dst)))"

definition dbTranslateEscape :: "string \<Rightarrow> string \<times> int" where
  "dbTranslateEscape src = epicsStrnRawFromEscaped (length src + 1) (src @ [char_nul])"

text \<open>The characters \<^verbatim>\<open>epicsStrnEscapedFromRaw\<close> outputs for one source character.\<close>

definition esc_octal :: "char \<Rightarrow> string" where
  "esc_octal c =
     (let n = (of_char c :: nat) in
      [char_backslash, char_of (48 + n div 64), char_of (48 + n div 8 mod 8),
       char_of (48 + n mod 8)])"

definition esc_simple :: "char \<Rightarrow> char option" where
  "esc_simple c =
     (if c = CHR 0x07 then Some (CHR ''a'') else if c = CHR 0x08 then Some (CHR ''b'')
      else if c = CHR 0x0C then Some (CHR ''f'') else if c = CHR 0x0A then Some (CHR ''n'')
      else if c = CHR 0x0D then Some (CHR ''r'') else if c = CHR 0x09 then Some (CHR ''t'')
      else if c = CHR 0x0B then Some (CHR ''v'') else if c = char_backslash then Some char_backslash
      else if c = CHR 0x27 then Some (CHR 0x27) else if c = CHR 0x22 then Some (CHR 0x22)
      else None)"

definition esc_char :: "char \<Rightarrow> string" where
  "esc_char c =
     (case esc_simple c of
        Some d \<Rightarrow> [char_backslash, d]
      | None \<Rightarrow> if is_print c then [c] else esc_octal c)"

text \<open>\<^verbatim>\<open>OUT(chr)\<close> of \<^verbatim>\<open>epicsStrnEscapedFromRaw\<close>: \<open>ndst\<close> counts also what did not fit.\<close>

fun esc_out :: "char \<Rightarrow> int \<times> string \<times> int \<Rightarrow> int \<times> string \<times> int" where
  "esc_out c (rem, dst, ndst) =
     (let rem' = c_int (rem - 1) in
      (rem', if rem' > 0 then dst @ [c] else dst, c_int (ndst + 1)))"

fun esc_loop :: "string \<Rightarrow> int \<times> string \<times> int \<Rightarrow> int \<times> string \<times> int" where
  "esc_loop [] st = st"
| "esc_loop (c # src) st = esc_loop src (fold esc_out (esc_char c) st)"

definition epicsStrnEscapedFromRaw :: "bool \<Rightarrow> nat \<Rightarrow> string \<Rightarrow> string \<times> int" where
  "epicsStrnEscapedFromRaw dst_is_src dstlen src =
     (if dst_is_src then ([], - 1)
      else case esc_loop src (c_int (int dstlen), [], 0) of (_, dst, ndst) \<Rightarrow> (dst, ndst))"

fun esc_size_loop :: "string \<Rightarrow> nat \<Rightarrow> nat" where
  "esc_size_loop [] ndst = ndst"
| "esc_size_loop (c # src) ndst =
     esc_size_loop src
       (if esc_simple c \<noteq> None then ndst + 1 else if \<not> is_print c then ndst + 3 else ndst)"

definition epicsStrnEscapedFromRawSize :: "string \<Rightarrow> nat" where
  "epicsStrnEscapedFromRawSize src = esc_size_loop src (length src)"

text \<open>\<^verbatim>\<open>epicsStrPrintEscaped\<close>: what is printed to the stream, and the return value.\<close>

fun epicsStrPrintEscaped :: "string \<Rightarrow> string \<Rightarrow> int \<Rightarrow> string \<times> int" where
  "epicsStrPrintEscaped fp [] nout = (fp, nout)"
| "epicsStrPrintEscaped fp (c # s) nout =
     epicsStrPrintEscaped (fp @ esc_char c) s (c_int (nout + int (length (esc_char c))))"

section \<open>Comparison, length, hashing\<close>

text \<open>Strings end where the list ends; the NUL has the value 0.\<close>

fun epicsStrCaseCmp :: "string \<Rightarrow> string \<Rightarrow> int" where
  "epicsStrCaseCmp s1 [] = (if s1 = [] then 0 else 1)"
| "epicsStrCaseCmp [] (b # s2) = - 1"
| "epicsStrCaseCmp (a # s1) (b # s2) =
     (let ch1 = char_to_upper (char_int a); ch2 = char_to_upper (char_int b) in
      if ch1 < ch2 then - 1 else if ch1 > ch2 then 1 else epicsStrCaseCmp s1 s2)"

fun epicsStrnCaseCmp :: "string \<Rightarrow> string \<Rightarrow> nat \<Rightarrow> int" where
  "epicsStrnCaseCmp s1 s2 0 = 0"
| "epicsStrnCaseCmp s1 s2 (Suc len) =
     (case (s1, s2) of
        (_, []) \<Rightarrow> (if s1 = [] then 0 else 1)
      | ([], _) \<Rightarrow> - 1
      | (a # s1', b # s2') \<Rightarrow>
          (let ch1 = char_to_upper (char_int a); ch2 = char_to_upper (char_int b) in
           if ch1 < ch2 then - 1 else if ch1 > ch2 then 1 else epicsStrnCaseCmp s1' s2' len))"

definition epicsStrnDup :: "string \<Rightarrow> nat \<Rightarrow> string" where
  "epicsStrnDup s len = takeWhile (\<lambda>c. c \<noteq> char_nul) (take len s)"

definition epicsStrDup :: "string \<Rightarrow> string" where
  "epicsStrDup s = s"

fun epicsStrnLen :: "string \<Rightarrow> nat \<Rightarrow> nat" where
  "epicsStrnLen s 0 = 0"
| "epicsStrnLen [] (Suc n) = 0"
| "epicsStrnLen (c # s) (Suc n) = (if c = char_nul then 0 else Suc (epicsStrnLen s n))"

text \<open>The two mixing steps of the hash functions; \<open>c\<close> is sign extended to 32 bits.\<close>

definition hash_odd :: "uint32 \<Rightarrow> char \<Rightarrow> uint32" where
  "hash_odd hash c =
     hash XOR NOT (push_bit 11 hash XOR word_of_int (char_int c) XOR drop_bit 5 hash)"

definition hash_even :: "uint32 \<Rightarrow> char \<Rightarrow> uint32" where
  "hash_even hash c =
     hash XOR (push_bit 7 hash XOR word_of_int (char_int c) XOR drop_bit 3 hash)"

fun epicsStrHash :: "string \<Rightarrow> uint32 \<Rightarrow> uint32" where
  "epicsStrHash [] hash = hash"
| "epicsStrHash [c] hash = hash_odd hash c"
| "epicsStrHash (c # d # str) hash = epicsStrHash str (hash_even (hash_odd hash c) d)"

text \<open>The memory block \<open>str\<close> has at least \<open>length\<close> characters.\<close>

fun epicsMemHash :: "string \<Rightarrow> nat \<Rightarrow> uint32 \<Rightarrow> uint32" where
  "epicsMemHash str 0 hash = hash"
| "epicsMemHash str (Suc 0) hash = hash_odd hash (hd str)"
| "epicsMemHash str (Suc (Suc n)) hash =
     epicsMemHash (tl (tl str)) n (hash_even (hash_odd hash (hd str)) (hd (tl str)))"

section \<open>Tokens\<close>

text \<open>
  \<^verbatim>\<open>epicsStrtok_r(s, delim, lasts)\<close>: the argument is the string to continue with (\<open>s\<close>, or
  \<open>*lasts\<close> when \<open>s\<close> is NULL), the result is the token and the new \<open>*lasts\<close>.
\<close>

definition epicsStrtok_r :: "string option \<Rightarrow> string \<Rightarrow> string option \<times> string option" where
  "epicsStrtok_r s delim =
     (case s of
        None \<Rightarrow> (None, None)
      | Some str \<Rightarrow>
          (let str = dropWhile (\<lambda>c. c \<in> set delim) str in
           if str = [] then (None, None)
           else
             let tok = takeWhile (\<lambda>c. c \<notin> set delim) str;
                 rest = dropWhile (\<lambda>c. c \<notin> set delim) str
             in (Some tok, if rest = [] then None else Some (tl rest))))"

section \<open>Glob patterns\<close>

definition glob_eq :: "char \<Rightarrow> char \<Rightarrow> bool" where
  "glob_eq p c \<longleftrightarrow> p = c \<or> p = CHR ''?''"

text \<open>
  The second loop: \<open>mp\<close> is the pattern behind the last \<open>*\<close> and \<open>cp\<close> where the text to try
  next begins (one past the NUL is the empty text as well). \<open>None\<close> is a NULL dereference or
  an endless loop.
\<close>

partial_function (option) glob_loop ::
  "string \<Rightarrow> string \<Rightarrow> (string \<times> string) option \<Rightarrow> bool option" where
  "glob_loop str pattern back =
     (if str = [] then Some (dropWhile (\<lambda>p. p = CHR ''*'') pattern = [])
      else if pattern \<noteq> [] \<and> hd pattern = CHR ''*'' then
        (if tl pattern = [] then Some True
         else glob_loop str (tl pattern) (Some (tl pattern, tl str)))
      else if pattern \<noteq> [] \<and> glob_eq (hd pattern) (hd str) then
        glob_loop (tl str) (tl pattern) back
      else
        (case back of
           None \<Rightarrow> None
         | Some (mp, cp) \<Rightarrow> glob_loop cp mp (Some (mp, tl cp))))"

text \<open>The first loop, up to the first \<open>*\<close>.\<close>

fun epicsStrGlobMatch :: "string \<Rightarrow> string \<Rightarrow> bool option" where
  "epicsStrGlobMatch [] pattern = glob_loop [] pattern None"
| "epicsStrGlobMatch (c # str) [] = Some False"
| "epicsStrGlobMatch (c # str) (p # pattern) =
     (if p = CHR ''*'' then glob_loop (c # str) (p # pattern) None
      else if glob_eq p c then epicsStrGlobMatch str pattern
      else Some False)"

section \<open>Lemmas on escape sequences\<close>

lemma of_char_less [simp]: "(of_char c :: nat) < 256"
  by (metis of_char_mod_256 mod_less_divisor zero_less_numeral)

lemma char_digit [simp]:
  "k < 8 \<Longrightarrow> of_char (char_of (48 + k) :: char) = (48 + k :: nat)"
  "k < 8 \<Longrightarrow> is_odigit (char_of (48 + k :: nat))"
  "k < 8 \<Longrightarrow> char_of (48 + k :: nat) \<noteq> char_nul"
proof -
  assume "k < 8"
  then show c: "of_char (char_of (48 + k) :: char) = (48 + k :: nat)" by simp
  with \<open>k < 8\<close> show "is_odigit (char_of (48 + k :: nat))" by (simp add: is_odigit_def)
  show "char_of (48 + k :: nat) \<noteq> char_nul"
  proof
    assume "char_of (48 + k :: nat) = char_nul"
    with c show False by (simp add: char_nul_def)
  qed
qed

abbreviation raw_emit :: "nat list \<Rightarrow> int \<times> string \<Rightarrow> int \<times> string" where
  "raw_emit us st \<equiv> fold (\<lambda>u st. raw_out st u) us st"

text \<open>The counters do not overflow in strings of less than \<open>2\<^sup>3\<^sup>1\<close> characters.\<close>

lemma raw_emit_eq:
  "rem \<le> 2147483647 \<Longrightarrow> int (length us) - 2147483648 \<le> rem \<Longrightarrow>
   raw_emit us (rem, dst) = (rem - int (length us), dst @ map char_of (take (nat (rem - 1)) us))"
proof (induction us arbitrary: rem dst)
  case (Cons u us)
  then have c: "c_int (rem - 1) = rem - 1" by simp
  have IH: "raw_emit us (rem - 1, dst') = (rem - 1 - int (length us), dst' @ map char_of (take (nat (rem - 1 - 1)) us))" for dst'
    using Cons.prems by (intro Cons.IH) simp_all
  show ?case
  proof (cases "rem - 1 > 0")
    case True
    then have "nat (rem - 1) = Suc (nat (rem - 1 - 1))" by simp
    with IH True c show ?thesis by (simp add: raw_out_def)
  qed (use IH c in \<open>simp add: raw_out_def\<close>)
qed simp

text \<open>
  The decoder only ever appends: it emits a list of codes that does not depend on the
  space left, one code at most per source character.
\<close>

lemma raw_input_emits:
  "\<exists>us. (\<forall>st. raw_input c src st = raw_emit us st) \<and> length us \<le> length src + 1"
proof (induction "length src" arbitrary: c src rule: less_induct)
  case less
  obtain out nxt where step: "raw_step c src = (out, nxt)" by fastforce
  define v where "v = (case out of None \<Rightarrow> [] | Some u \<Rightarrow> [u :: nat])"
  have v: "length v \<le> 1" "\<And>st. (case out of None \<Rightarrow> st | Some u \<Rightarrow> raw_out st u) = raw_emit v st"
    by (auto simp: v_def split: option.splits)
  show ?case
  proof (cases nxt)
    case None
    with step v show ?thesis
      by (intro exI [of _ v]) (simp add: raw_input.simps [of c src] Let_def)
  next
    case (Some ds)
    obtain d s where ds: "ds = (d, s)" by fastforce
    with step Some have "length s < length src" by (simp add: raw_step_shorter)
    with less obtain us where "\<And>st. raw_input d s st = raw_emit us st" "length us \<le> length s + 1"
      by blast
    with step Some ds v \<open>length s < length src\<close> show ?thesis
      by (intro exI [of _ "v @ us"]) (simp add: raw_input.simps [of c src] Let_def)
  qed
qed

lemma raw_loop_emits: "\<exists>us. (\<forall>st. raw_loop src st = raw_emit us st) \<and> length us \<le> length src"
proof (cases "raw_fetch src")
  case None
  then show ?thesis by (intro exI [of _ "[]"]) (simp add: raw_loop_def)
next
  case (Some cs)
  then obtain c s where "src = c # s" "raw_fetch src = Some (c, s)"
    by (cases cs) (auto simp: raw_fetch_Some)
  with raw_input_emits [of c s] show ?thesis by (simp add: raw_loop_def)
qed

text \<open>A closing NUL ends the conversion where the source ends without it.\<close>

abbreviation with_nul :: "(char \<times> string) option \<Rightarrow> (char \<times> string) option" where
  "with_nul \<equiv> map_option (\<lambda>(c, s). (c, s @ [char_nul]))"

lemma raw_fetch_nul: "raw_fetch (src @ [char_nul]) = with_nul (raw_fetch src)"
  by (cases src) (auto simp: raw_fetch_def)

lemma raw_hex_nul: "raw_hex u c (src @ [char_nul]) = apsnd with_nul (raw_hex u c src)"
proof (induction u c src rule: raw_hex.induct)
  case (1 u c src)
  then show ?case
    by (subst (1 2) raw_hex.simps) (auto simp: Let_def split: list.splits)
qed

lemma raw_octal_nul: "raw_octal c (src @ [char_nul]) = apsnd with_nul (raw_octal c src)"
  by (auto simp: raw_octal_def Let_def raw_fetch_nul split: option.splits)

lemma raw_step_nul: "raw_step c (src @ [char_nul]) = apsnd with_nul (raw_step c src)"
  by (auto simp: raw_step_def raw_fetch_nul raw_octal_nul raw_hex_nul apsnd_def map_prod_def
      split: option.splits prod.splits)

lemma raw_input_nul: "raw_input c (src @ [char_nul]) st = raw_input c src st"
proof (induction "length src" arbitrary: c src st rule: less_induct)
  case less
  obtain out nxt where step: "raw_step c src = (out, nxt)" by fastforce
  have "raw_input d (s @ [char_nul]) st' = raw_input d s st'" if "nxt = Some (d, s)" for d s st'
    using less step that raw_step_shorter by blast
  with step show ?case
    by (subst (1 2) raw_input.simps)
      (auto simp: raw_step_nul Let_def split: option.splits)
qed

lemma raw_loop_nul: "raw_loop (src @ [char_nul]) st = raw_loop src st"
  by (simp add: raw_loop_def raw_fetch_nul raw_input_nul split: option.splits prod.splits)

lemma raw_input_fetch:
  "raw_step c src = (Some u, raw_fetch s) \<Longrightarrow> raw_input c src st = raw_loop s (raw_out st u)"
  by (simp add: raw_input.simps [of c src] raw_loop_def Let_def)

lemma raw_loop_Cons: "c \<noteq> char_nul \<Longrightarrow> raw_loop (c # t) st = raw_input c t st"
  by (simp add: raw_loop_def raw_fetch_def)

lemma raw_fetch_Cons: "c \<noteq> char_nul \<Longrightarrow> raw_fetch (c # t) = Some (c, t)"
  by (simp add: raw_fetch_def)

lemma backslash_not_nul [simp]: "char_backslash \<noteq> char_nul"
  by (simp add: char_backslash_def char_nul_def)

text \<open>What one raw character is escaped to, decodes to that character.\<close>

lemma esc_octal_decodes:
  "raw_loop (esc_octal c @ t) st = raw_loop t (raw_out st (of_char c))"
proof -
  define n where "n = (of_char c :: nat)"
  have "n < 256" by (simp add: n_def)
  then have n: "n div 64 < 8" "n div 8 mod 8 < 8" "n mod 8 < 8" by simp_all
  have "n div 64 = n div 8 div 8" using div_mult2_eq [of n 8 8] by simp
  then have val: "((n div 64) * 8 + n div 8 mod 8) * 8 + n mod 8 = n"
    by (simp only: div_mult_mod_eq)
  let ?d = "\<lambda>k. char_of (48 + k) :: char"
  have "raw_step char_backslash (?d (n div 64) # ?d (n div 8 mod 8) # ?d (n mod 8) # t) =
      (Some n, raw_fetch t)"
    using n val by (simp add: raw_step_def raw_octal_def raw_fetch_Cons Let_def)
  from raw_input_fetch [OF this] show ?thesis
    by (simp add: esc_octal_def Let_def raw_loop_Cons flip: n_def)
qed

lemma esc_simple_cases:
  assumes "esc_simple c = Some d"
  shows "d \<noteq> char_nul \<and> \<not> is_odigit d \<and> d \<noteq> CHR ''x'' \<and> raw_simple d = Some (of_char c)"
  using assms
  by (auto simp: esc_simple_def raw_simple_def char_nul_def char_backslash_def is_odigit_def
      split: if_splits)

lemma esc_simple_backslash: "esc_simple char_backslash \<noteq> None"
  by (simp add: esc_simple_def char_backslash_def)

lemma not_print_nul: "\<not> is_print char_nul"
  by (simp add: is_print_def char_nul_def)

lemma esc_char_decodes:
  "raw_loop (esc_char c @ t) st = raw_loop t (raw_out st (of_char c))"
proof (cases "esc_simple c")
  case (Some d)
  note d = esc_simple_cases [OF Some]
  then have "raw_step char_backslash (d # t) = (Some (of_char c), raw_fetch t)"
    by (simp add: raw_step_def raw_fetch_Cons)
  from raw_input_fetch [OF this] Some show ?thesis
    by (simp add: esc_char_def raw_loop_Cons)
next
  case None
  show ?thesis
  proof (cases "is_print c")
    case True
    have c: "c \<noteq> char_backslash" "c \<noteq> char_nul"
      using None True esc_simple_backslash not_print_nul by auto
    then have "raw_step c t = (Some (of_char c), raw_fetch t)" by (simp add: raw_step_def)
    from raw_input_fetch [OF this] None True c show ?thesis
      by (simp add: esc_char_def raw_loop_Cons)
  next
    case False
    with None show ?thesis by (simp add: esc_char_def esc_octal_decodes)
  qed
qed

lemma esc_string_decodes:
  "raw_loop (concat (map esc_char s) @ t) st = raw_loop t (raw_emit (map of_char s) st)"
  by (induction s arbitrary: st) (simp_all add: esc_char_decodes)

lemma fold_esc_out:
  "rem \<le> 2147483647 \<Longrightarrow> int (length cs) - 2147483648 \<le> rem \<Longrightarrow>
   0 \<le> ndst \<Longrightarrow> ndst + int (length cs) \<le> 2147483647 \<Longrightarrow>
   fold esc_out cs (rem, dst, ndst) =
     (rem - int (length cs), dst @ take (nat (rem - 1)) cs, ndst + int (length cs))"
proof (induction cs arbitrary: rem dst ndst)
  case (Cons c cs)
  then have i: "c_int (rem - 1) = rem - 1" "c_int (ndst + 1) = ndst + 1" by simp_all
  have IH: "fold esc_out cs (rem - 1, dst', ndst + 1) =
      (rem - 1 - int (length cs), dst' @ take (nat (rem - 1 - 1)) cs, ndst + 1 + int (length cs))" for dst'
    using Cons.prems by (intro Cons.IH) simp_all
  show ?case
  proof (cases "rem - 1 > 0")
    case True
    then have "nat (rem - 1) = Suc (nat (rem - 1 - 1))" by simp
    with IH True i show ?thesis by simp
  qed (use IH i in simp)
qed simp

lemma esc_loop_fold: "esc_loop src st = fold esc_out (concat (map esc_char src)) st"
  by (induction src arbitrary: st) simp_all

lemma esc_result:
  "dstlen \<le> 2147483647 \<Longrightarrow> length (concat (map esc_char src)) \<le> 2147483647 \<Longrightarrow>
   epicsStrnEscapedFromRaw False dstlen src =
     (take (dstlen - 1) (concat (map esc_char src)), int (length (concat (map esc_char src))))"
  by (simp add: epicsStrnEscapedFromRaw_def esc_loop_fold fold_esc_out nat_diff_distrib')

lemma esc_size_loop_length:
  "esc_size_loop src n + length src = n + length (concat (map esc_char src))"
  by (induction src arbitrary: n)
    (auto simp: esc_char_def esc_octal_def Let_def split: option.splits)

lemma print_escaped:
  "0 \<le> n \<Longrightarrow> n + int (length (concat (map esc_char s))) \<le> 2147483647 \<Longrightarrow>
   epicsStrPrintEscaped fp s n =
     (fp @ concat (map esc_char s), n + int (length (concat (map esc_char s))))"
  by (induction s arbitrary: fp n) simp_all

section \<open>Glob matching against its specification\<close>

text \<open>The meaning of a pattern: \<open>*\<close> is any text, \<open>?\<close> is any one character.\<close>

fun glob_spec :: "string \<Rightarrow> string \<Rightarrow> bool" where
  "glob_spec [] s \<longleftrightarrow> s = []"
| "glob_spec (p # ps) s \<longleftrightarrow>
     (if p = CHR ''*'' then \<exists>k \<le> length s. glob_spec ps (drop k s)
      else case s of [] \<Rightarrow> False | c # cs \<Rightarrow> glob_eq p c \<and> glob_spec ps cs)"

lemma glob_spec_star:
  "glob_spec (CHR ''*'' # ps) s \<longleftrightarrow> (\<exists>t. suffix t s \<and> glob_spec ps t)"
proof
  assume "glob_spec (CHR ''*'' # ps) s"
  then show "\<exists>t. suffix t s \<and> glob_spec ps t" by (auto intro: suffix_drop)
next
  assume "\<exists>t. suffix t s \<and> glob_spec ps t"
  then obtain t where "suffix t s" "glob_spec ps t" by blast
  then have "glob_spec ps (drop (length s - length t) s)"
    by (auto simp: suffix_def)
  then show "glob_spec (CHR ''*'' # ps) s"
    by (auto intro!: exI [of _ "length s - length t"])
qed

lemma suffix_Cons_iff: "suffix t (c # s) \<longleftrightarrow> t = c # s \<or> suffix t s"
  by (auto simp: suffix_Cons)

lemma glob_spec_nil: "glob_spec ps [] \<longleftrightarrow> dropWhile (\<lambda>p. p = CHR ''*'') ps = []"
  by (induction ps) auto

lemma glob_spec_prefix:
  "CHR ''*'' \<notin> set w \<Longrightarrow> glob_spec (w @ ps) t \<Longrightarrow> length w \<le> length t \<and> glob_spec ps (drop (length w) t)"
proof (induction w arbitrary: t)
  case (Cons p w)
  then show ?case by (cases t) (auto split: if_splits)
qed simp

text \<open>
  What the code relies on when it forgets earlier stars: a match tried from a later start
  of an earlier star is also a match of the last star.
\<close>

lemma glob_dominated:
  assumes "CHR ''*'' \<notin> set w" "length u = length w"
    and "suffix t (tl (u @ str))" "glob_spec (w @ CHR ''*'' # ps) t"
  shows "glob_spec (CHR ''*'' # ps) str"
proof -
  from glob_spec_prefix [OF assms(1,4)]
  have t: "length w \<le> length t" "glob_spec (CHR ''*'' # ps) (drop (length w) t)" by simp_all
  have "suffix t (u @ str)"
    using assms(3) by (cases "u @ str") (auto intro: suffix_ConsI)
  then have "suffix (drop (length w) t) (u @ str)"
    by (meson suffix_drop suffix_order.trans)
  moreover have "length (drop (length w) t) \<le> length str"
    using suffix_length_le [OF \<open>suffix t (u @ str)\<close>] assms(2) by simp
  moreover have "suffix str (u @ str)" by (simp add: suffix_def)
  ultimately have "suffix (drop (length w) t) str"
    by (meson suffix_length_suffix)
  with t(2) show ?thesis unfolding glob_spec_star by (meson suffix_order.trans)
qed

lemma glob_loop_correct:
  assumes "mp = w @ pattern" "CHR ''*'' \<notin> set w" "length u = length w" "cp = tl (u @ str)"
  shows "glob_loop str pattern (Some (mp, cp)) =
    Some (glob_spec pattern str \<or> (\<exists>t. suffix t cp \<and> glob_spec mp t))"
  using assms
proof (induction "(length mp, length cp, length str)" arbitrary: mp cp str pattern w u
    rule: wf_induct_rule [OF wf_lex_prod [OF wf_less_than wf_lex_prod [OF wf_less_than wf_less_than]]])
  case (1 mp cp str pattern w u)
  note IH = "1.hyps" and prems = "1.prems"
  show ?case
  proof (cases str)
    case Nil
    have "glob_spec pattern []" if "suffix t cp" "glob_spec mp t" for t
    proof -
      have "length w \<le> length t" using glob_spec_prefix that(2) prems by blast
      moreover have "length t \<le> length u - 1"
        using suffix_length_le [OF that(1)] prems Nil by simp
      ultimately have "length w = 0" "length t = 0" using prems(3) by linarith+
      then have "w = []" "t = []" by simp_all
      with that(2) prems show ?thesis by simp
    qed
    with Nil show ?thesis by (subst glob_loop.simps) (auto simp: glob_spec_nil)
  next
    case (Cons c cs)
    consider (star) ps where "pattern = CHR ''*'' # ps"
      | (eq) p ps where "pattern = p # ps" "p \<noteq> CHR ''*''" "glob_eq p c"
      | (fail) "\<not> glob_spec pattern str"
          "\<not> (pattern \<noteq> [] \<and> (hd pattern = CHR ''*'' \<or> glob_eq (hd pattern) c))"
      using Cons by (cases pattern) auto
    then show ?thesis
    proof cases
      case star
      have alt: "glob_spec (CHR ''*'' # ps) str" if "suffix t cp" "glob_spec mp t" for t
        using glob_dominated [of w u t str ps] prems that star by blast
      have "glob_loop str ps (Some (ps, tl str)) =
          Some (glob_spec ps str \<or> (\<exists>t. suffix t (tl str) \<and> glob_spec ps t))"
        by (rule IH [where w = "[]" and u = "[]"]) (use prems star in auto)
      also have "\<dots> = Some (glob_spec (CHR ''*'' # ps) str)"
        unfolding glob_spec_star using Cons by (auto simp: suffix_Cons_iff)
      finally have rec: "glob_loop str ps (Some (ps, tl str)) =
          Some (glob_spec (CHR ''*'' # ps) str)" .
      have "glob_spec (CHR ''*'' # ps) str" if "ps = []"
        unfolding glob_spec_star that by (auto intro!: exI [of _ "[]"])
      with rec alt star Cons show ?thesis
        by (subst glob_loop.simps) (auto simp del: glob_spec.simps)
    next
      case eq
      have "glob_loop cs ps (Some (mp, cp)) =
          Some (glob_spec ps cs \<or> (\<exists>t. suffix t cp \<and> glob_spec mp t))"
        by (rule IH [where w = "w @ [p]" and u = "u @ [c]"]) (use prems eq Cons in auto)
      with eq Cons show ?thesis by (subst glob_loop.simps) simp
    next
      case fail
      have "glob_loop cp mp (Some (mp, tl cp)) =
          Some (glob_spec mp cp \<or> (\<exists>t. suffix t (tl cp) \<and> glob_spec mp t))"
      proof (rule IH [where w = "[]" and u = "[]"])
        show "((length mp, length (tl cp), length cp), length mp, length cp, length str)
            \<in> less_than <*lex*> less_than <*lex*> less_than"
          using Cons by (cases cp) auto
      qed auto
      also have "\<dots> = Some (\<exists>t. suffix t cp \<and> glob_spec mp t)"
        by (cases cp) (auto simp: suffix_Cons_iff)
      finally show ?thesis using fail Cons by (subst glob_loop.simps) auto
    qed
  qed
qed

lemma glob_match_correct: "epicsStrGlobMatch str pattern = Some (glob_spec pattern str)"
proof (induction str pattern rule: epicsStrGlobMatch.induct)
  case (1 pattern)
  then show ?case by (simp add: glob_loop.simps glob_spec_nil)
next
  case (2 c str)
  then show ?case by simp
next
  case (3 c str p pattern)
  show ?case
  proof (cases "p = CHR ''*''")
    case True
    have "glob_loop (c # str) pattern (Some (pattern, str)) =
        Some (glob_spec pattern (c # str) \<or> (\<exists>t. suffix t str \<and> glob_spec pattern t))"
      by (rule glob_loop_correct [where w = "[]" and u = "[]"]) auto
    also have "\<dots> = Some (glob_spec (CHR ''*'' # pattern) (c # str))"
      unfolding glob_spec_star by (auto simp: suffix_Cons_iff)
    finally have "glob_loop (c # str) pattern (Some (pattern, str)) =
        Some (glob_spec (CHR ''*'' # pattern) (c # str))" .
    moreover have "pattern = [] \<Longrightarrow> glob_spec (CHR ''*'' # pattern) (c # str)"
      unfolding glob_spec_star by (auto intro!: exI [of _ "[]"])
    ultimately have "glob_loop (c # str) (CHR ''*'' # pattern) None =
        Some (glob_spec (CHR ''*'' # pattern) (c # str))"
      by (subst glob_loop.simps) (simp del: glob_spec.simps)
    with True show ?thesis by (simp del: glob_spec.simps)
  next
    case False
    with 3 show ?thesis by simp
  qed
qed

section \<open>Comparison and hashing\<close>

lemma strcasecmp_zero:
  "epicsStrCaseCmp s1 s2 = 0 \<longleftrightarrow>
   map (\<lambda>c. char_to_upper (char_int c)) s1 = map (\<lambda>c. char_to_upper (char_int c)) s2"
  by (induction s1 s2 rule: epicsStrCaseCmp.induct) (auto simp: Let_def)

lemma strcasecmp_antisym: "epicsStrCaseCmp s1 s2 = - epicsStrCaseCmp s2 s1"
proof (induction s1 s2 rule: epicsStrCaseCmp.induct)
  case (1 s1)
  then show ?case by (cases s1) auto
qed (auto simp: Let_def)

lemma strncasecmp_prefix:
  "length p = n \<Longrightarrow> epicsStrnCaseCmp s p n = 0 \<longleftrightarrow>
   n \<le> length s \<and> map (\<lambda>c. char_to_upper (char_int c)) (take n s) =
     map (\<lambda>c. char_to_upper (char_int c)) p"
proof (induction n arbitrary: s p)
  case (Suc n)
  then obtain b p' where "p = b # p'" by (cases p) auto
  with Suc show ?case by (cases s) (auto simp: Let_def)
qed simp

lemma mem_hash_str_hash: "epicsMemHash (str @ rest) (length str) seed = epicsStrHash str seed"
  by (induction str seed rule: epicsStrHash.induct) simp_all

lemma strnlen_eq: "epicsStrnLen s n = length (takeWhile (\<lambda>c. c \<noteq> char_nul) (take n s))"
  by (induction s n rule: epicsStrnLen.induct) auto

text \<open>The tokens that successive calls return, and what they are.\<close>

lemma filter_dropWhile_not: "filter P (dropWhile (\<lambda>c. \<not> P c) t) = filter P t"
  by (induction t) auto

lemma filter_split_run: "filter P a = takeWhile P a @ filter P (tl (dropWhile P a))"
  by (induction a) auto

lemma strtok_Some:
  assumes "a = dropWhile (\<lambda>c. c \<in> set delim) t" "w = takeWhile (\<lambda>c. c \<notin> set delim) a"
    "b = dropWhile (\<lambda>c. c \<notin> set delim) a"
  shows "epicsStrtok_r (Some t) delim =
    (if a = [] then (None, None) else (Some w, if b = [] then None else Some (tl b)))"
  unfolding epicsStrtok_r_def Let_def option.case assms by (rule refl)

lemma strtok_shorter:
  assumes "epicsStrtok_r (Some t) delim = (Some tok, Some r)"
  shows "length r < length t"
proof -
  define a b where "a = dropWhile (\<lambda>c. c \<in> set delim) t" and "b = dropWhile (\<lambda>c. c \<notin> set delim) a"
  have "length b \<le> length a" "length a \<le> length t"
    unfolding a_def b_def by (rule length_dropWhile_le)+
  moreover have "b \<noteq> []" "r = tl b"
    using assms strtok_Some [OF a_def refl b_def] by (simp_all split: if_splits)
  ultimately show ?thesis by (cases b) simp_all
qed

lemma strtok_none: "epicsStrtok_r None delim = (None, None)"
  by (simp add: epicsStrtok_r_def)

function strtok_all :: "string option \<Rightarrow> string \<Rightarrow> string list" where
  "strtok_all s delim =
     (case epicsStrtok_r s delim of
        (None, _) \<Rightarrow> []
      | (Some tok, lasts) \<Rightarrow> tok # strtok_all lasts delim)"
  by pat_completeness auto
termination
proof (relation "measure (\<lambda>(s, delim). case s of None \<Rightarrow> 0 | Some t \<Rightarrow> Suc (length t))", goal_cases)
  case (2 s delim x y tok)
  then have tok: "epicsStrtok_r s delim = (Some tok, y)" by simp
  then obtain t where "s = Some t" by (cases s) (auto simp: strtok_none)
  with tok show ?case using strtok_shorter [of t delim tok] by (cases y) simp_all
qed simp

declare strtok_all.simps [simp del]

lemma strtok_all_tokens:
  "(\<forall>tok \<in> set (strtok_all s delim). tok \<noteq> [] \<and> set tok \<inter> set delim = {}) \<and>
   concat (strtok_all s delim) =
     (case s of None \<Rightarrow> [] | Some t \<Rightarrow> filter (\<lambda>c. c \<notin> set delim) t)"
proof (induction s delim rule: strtok_all.induct)
  case (1 s delim)
  show ?case
  proof (cases s)
    case None
    then show ?thesis by (simp add: strtok_all.simps [of None] strtok_none)
  next
    case (Some t)
    let ?n = "\<lambda>c. c \<notin> set delim"
    define a where "a = dropWhile (\<lambda>c. c \<in> set delim) t"
    have a: "filter ?n t = filter ?n a"
      using filter_dropWhile_not [of ?n t] by (simp add: a_def)
    show ?thesis
    proof (cases "a = []")
      case True
      then have "strtok_all s delim = []"
        using Some strtok_Some [OF a_def refl refl] by (subst strtok_all.simps) simp
      with True Some a show ?thesis by simp
    next
      case False
      define w b where "w = takeWhile ?n a" and "b = dropWhile ?n a"
      define l where "l = (if b = [] then None else Some (tl b))"
      have tok: "epicsStrtok_r s delim = (Some w, l)"
        using Some False strtok_Some [OF a_def w_def b_def] by (simp add: l_def)
      have "hd a \<notin> set delim"
        using False hd_dropWhile [of "\<lambda>c. c \<in> set delim" t] unfolding a_def by blast
      then have w: "w \<noteq> []" "set w \<inter> set delim = {}"
        using False by (cases a) (auto simp: w_def dest: set_takeWhileD)
      have "filter ?n t = w @ (case l of None \<Rightarrow> [] | Some r \<Rightarrow> filter ?n r)"
        using a filter_split_run [of ?n a, folded w_def b_def] by (cases b) (simp_all add: l_def)
      moreover have "strtok_all s delim = w # strtok_all l delim"
        using tok by (subst strtok_all.simps) simp
      ultimately show ?thesis using "1.IH" [OF tok [symmetric] refl] w Some by simp
    qed
  qed
qed

section \<open>Properties\<close>

lemma raw_emit_all:
  "nat (rem - 1) \<ge> length us \<Longrightarrow> rem \<le> 2147483647 \<Longrightarrow>
   raw_emit us (rem, dst) = (rem - int (length us), dst @ map char_of us)"
  proof (cases "us = []")
  case False
  assume a: "nat (rem - 1) \<ge> length us" "rem \<le> 2147483647"
  have "0 < length us" using False by simp
  then have "int (length us) \<le> rem - 1" using a(1) by arith
  then show ?thesis using a by (simp add: raw_emit_eq)
qed simp

lemma raw_loop_nil: "raw_loop [] st = st"
  by (simp add: raw_loop_def raw_fetch_def)

text \<open>
  C16: escaping and unescaping round-trip. For every byte string, NULs and non-ASCII bytes
  included, \<^verbatim>\<open>epicsStrnEscapedFromRaw\<close> into a buffer of more than
  \<^verbatim>\<open>epicsStrnEscapedFromRawSize\<close> bytes, followed by \<^verbatim>\<open>epicsStrnRawFromEscaped\<close> into one that
  is longer than the string, gives back the string, and returns its length. Both routines keep the
  size of their buffer in an \<^verbatim>\<open>int\<close>, so neither may exceed \<^verbatim>\<open>INT_MAX\<close>.
\<close>

theorem escape_roundtrip:
  assumes "epicsStrnEscapedFromRawSize s < n" "length s < m" "n \<le> 2147483647" "m \<le> 2147483647"
  shows "epicsStrnRawFromEscaped m (fst (epicsStrnEscapedFromRaw False n s)) =
           (s, int (length s))"
proof -
  have len: "length (concat (map esc_char s)) \<le> n - 1"
    using assms(1) esc_size_loop_length [of s "length s"]
    by (simp add: epicsStrnEscapedFromRawSize_def)
  have "raw_loop (concat (map esc_char s) @ []) (int m, []) =
      raw_emit (map of_char s) (int m, [])"
    by (simp only: esc_string_decodes raw_loop_nil)
  also have "\<dots> = (int m - int (length s), s)"
    using assms(2,4) by (subst raw_emit_all) (simp_all add: comp_def)
  finally show ?thesis
    using len assms(3,4) by (simp add: epicsStrnRawFromEscaped_def esc_result Let_def)
qed

theorem escape_roundtrip_witness:
  "epicsStrnRawFromEscaped 4 (fst (epicsStrnEscapedFromRaw False 11
     [CHR 0x00, CHR ''A'', CHR 0xFF])) = ([CHR 0x00, CHR ''A'', CHR 0xFF], 3)"
  using escape_roundtrip [of "[CHR 0x00, CHR ''A'', CHR 0xFF]" 11 4]
  by (simp add: epicsStrnEscapedFromRawSize_def esc_simple_def is_print_def char_backslash_def)

text \<open>
  \<^verbatim>\<open>epicsStrnEscapedFromRawSize\<close>, the return value of \<^verbatim>\<open>epicsStrnEscapedFromRaw\<close> (for
  every buffer size) and that of \<^verbatim>\<open>epicsStrPrintEscaped\<close> are the same number, which is the
  number of characters printed; what is stored is the longest prefix that fits with its NUL.
\<close>

theorem escaped_size_agrees:
  assumes "n \<le> 2147483647" "epicsStrnEscapedFromRawSize s \<le> 2147483647"
  shows "snd (epicsStrnEscapedFromRaw False n s) = int (epicsStrnEscapedFromRawSize s) \<and>
   snd (epicsStrPrintEscaped [] s 0) = int (epicsStrnEscapedFromRawSize s) \<and>
   length (fst (epicsStrPrintEscaped [] s 0)) = epicsStrnEscapedFromRawSize s \<and>
   fst (epicsStrnEscapedFromRaw False n s) = take (n - 1) (fst (epicsStrPrintEscaped [] s 0))"
  using esc_size_loop_length [of s "length s"] assms
  by (simp add: esc_result print_escaped epicsStrnEscapedFromRawSize_def)

text \<open>
  \<^verbatim>\<open>dbTranslateEscape\<close>, which is given no size of its destination, never stores more
  characters than the source has: every larger destination receives the same string.
\<close>

theorem dbTranslateEscape_fits:
  assumes "length src < n" "n \<le> 2147483647"
  shows "epicsStrnRawFromEscaped n (src @ [char_nul]) = dbTranslateEscape src \<and>
         snd (dbTranslateEscape src) \<le> int (length src)"
proof -
  obtain us where us: "\<And>st. raw_loop src st = raw_emit us st" "length us \<le> length src"
    using raw_loop_emits [of src] by blast
  have "length us \<le> nat (int n - 1)" using us(2) assms by simp
  moreover have "c_int (int n) = int n" "c_int (1 + int (length src)) = 1 + int (length src)"
    using assms by simp_all
  ultimately show ?thesis
    using us assms
    by (simp add: dbTranslateEscape_def epicsStrnRawFromEscaped_def Let_def raw_loop_nul
        raw_emit_eq)
qed

theorem dbTranslateEscape_fits_witness:
  "epicsStrnRawFromEscaped 40 ([char_backslash, CHR ''n''] @ [char_nul]) =
     dbTranslateEscape [char_backslash, CHR ''n'']"
  using dbTranslateEscape_fits [of "[char_backslash, CHR ''n'']" 40] by simp

text \<open>
  C17: the iterative \<^verbatim>\<open>epicsStrGlobMatch\<close>, which backtracks only to the last star, terminates
  on every string and pattern and accepts exactly the strings of the recursive definition
  of shell globs (a question mark for one character, a star for any number).
\<close>

theorem glob_match_is_glob:
  "epicsStrGlobMatch str pattern = Some (glob_spec pattern str)"
  by (rule glob_match_correct)

text \<open>
  Splitting a string by repeated \<^verbatim>\<open>epicsStrtok_r\<close> calls ends; it yields non-empty tokens
  without delimiters, and these tokens in order are the string without its delimiters.
\<close>

theorem strtok_splits:
  "(\<forall>tok \<in> set (strtok_all (Some t) delim). tok \<noteq> [] \<and> set tok \<inter> set delim = {}) \<and>
   concat (strtok_all (Some t) delim) = filter (\<lambda>c. c \<notin> set delim) t"
  using strtok_all_tokens [of "Some t" delim] by simp

theorem strtok_splits_witness:
  "concat (strtok_all (Some '' a,b'') '' ,'') = ''ab''"
  using strtok_splits [of "'' a,b''" "'' ,''"] by simp

text \<open>
  \<^verbatim>\<open>epicsStrCaseCmp\<close> is antisymmetric, is zero exactly for strings that agree after
  mapping to upper case, and hashing a counted block agrees with hashing the C string.
\<close>

theorem strcasecmp_order:
  "epicsStrCaseCmp s1 s2 = - epicsStrCaseCmp s2 s1 \<and>
   (epicsStrCaseCmp s1 s2 = 0 \<longleftrightarrow>
      map (\<lambda>c. char_to_upper (char_int c)) s1 = map (\<lambda>c. char_to_upper (char_int c)) s2) \<and>
   epicsMemHash (s1 @ s2) (length s1) seed = epicsStrHash s1 seed"
  using strcasecmp_antisym strcasecmp_zero mem_hash_str_hash by blast

end
