(* ===== verification/GpHash.thy ===== *)
theory GpHash
  imports KvTable EpicsString
begin

unbundle bit_operations_syntax

text \<open>
  The general purpose directory of \<^verbatim>\<open>modules/libcom/src/gpHash/gpHashLib.c\<close>: a hash table of
  names qualified by a private pointer. The chain of a bucket, an \<^verbatim>\<open>ELLLIST\<close> created on first
  use, is \<open>None\<close> (NULL) or the list of its entries (\<open>EllLib\<close> shows that the operations on
  the nodes are those of lists). Each operation is its body between lock and unlock.
\<close>

section \<open>Model\<close>

type_synonym ptr = "64 word"

record GPHENTRY =
  gph_node :: addr
  gph_name :: string
  gph_pvtid :: ptr
  gph_userPvt :: ptr

record gphPvt =
  gph_size :: int
  gph_mask :: uint32
  paplist :: "GPHENTRY list option list"

definition GPH_MIN_SIZE :: int where "GPH_MIN_SIZE = 256"
definition GPH_DEFAULT_SIZE :: int where "GPH_DEFAULT_SIZE = 512"
definition GPH_MAX_SIZE :: int where "GPH_MAX_SIZE = 65536"

definition gphInitPvt :: "int \<Rightarrow> gphPvt" where
  "gphInitPvt sz =
     (let sz = (if sz AND (sz - 1) \<noteq> 0 then GPH_DEFAULT_SIZE else sz);
          sz = (if sz < GPH_MIN_SIZE then GPH_MIN_SIZE else sz);
          sz = (if sz > GPH_MAX_SIZE then GPH_MAX_SIZE else sz)
      in \<lparr>gph_size = sz, gph_mask = word_of_int (sz - 1),
          paplist = replicate (nat sz) None\<rparr>)"

text \<open>The \<^verbatim>\<open>sizeof(void *)\<close> bytes at \<^verbatim>\<open>&pvtid\<close> on a little-endian 64-bit machine.\<close>

definition ptr_bytes :: "ptr \<Rightarrow> string" where
  "ptr_bytes p = map (\<lambda>i. char_of (unat (drop_bit (8 * i) p) mod 256)) [0..<8]"

definition gph_mem_hash :: "gphPvt \<Rightarrow> string \<Rightarrow> nat \<Rightarrow> ptr \<Rightarrow> nat" where
  "gph_mem_hash t name len pvtid =
     unat (epicsMemHash name len (epicsMemHash (ptr_bytes pvtid) 8 0) AND gph_mask t)"

definition gph_str_hash :: "gphPvt \<Rightarrow> string \<Rightarrow> ptr \<Rightarrow> nat" where
  "gph_str_hash t name pvtid =
     unat (epicsStrHash name (epicsMemHash (ptr_bytes pvtid) 8 0) AND gph_mask t)"

text \<open>\<^verbatim>\<open>strncmp(a, b, n) == 0\<close>\<close>

definition strncmp_eq :: "string \<Rightarrow> string \<Rightarrow> nat \<Rightarrow> bool" where
  "strncmp_eq a b n \<longleftrightarrow>
     takeWhile (\<lambda>c. c \<noteq> char_nul) (take n a) = takeWhile (\<lambda>c. c \<noteq> char_nul) (take n b)"

definition gph_chain :: "GPHENTRY list option \<Rightarrow> GPHENTRY list" where
  "gph_chain l = (case l of None \<Rightarrow> [] | Some es \<Rightarrow> es)"

definition gphFindParse :: "gphPvt option \<Rightarrow> string \<Rightarrow> nat \<Rightarrow> ptr \<Rightarrow> GPHENTRY option" where
  "gphFindParse pgphPvt name len pvtid =
     (case pgphPvt of
        None \<Rightarrow> None
      | Some t \<Rightarrow>
          let hash = gph_mem_hash t name len pvtid in
          find (\<lambda>e. pvtid = gph_pvtid e \<and> length (gph_name e) = len \<and>
                    strncmp_eq name (gph_name e) len)
               (gph_chain (paplist t ! hash)))"

definition gphFind :: "gphPvt option \<Rightarrow> string \<Rightarrow> ptr \<Rightarrow> GPHENTRY option" where
  "gphFind pgphPvt name pvtid = gphFindParse pgphPvt name (length name) pvtid"

text \<open>The outcomes of the two \<^verbatim>\<open>calloc\<close> calls are parameters.\<close>

definition gphAdd ::
  "bool \<Rightarrow> addr option \<Rightarrow> gphPvt option \<Rightarrow> string \<Rightarrow> ptr \<Rightarrow> gphPvt option \<times> GPHENTRY option" where
  "gphAdd list_mem node_mem pgphPvt name pvtid =
     (case pgphPvt of
        None \<Rightarrow> (None, None)
      | Some t \<Rightarrow>
          let hash = gph_str_hash t name pvtid in
          if paplist t ! hash = None \<and> \<not> list_mem then (Some t, None)
          else
            let plist = gph_chain (paplist t ! hash);
                t = t\<lparr>paplist := (paplist t)[hash := Some plist]\<rparr> in
            if find (\<lambda>e. pvtid = gph_pvtid e \<and> name = gph_name e) plist \<noteq> None
            then (Some t, None)
            else
              (case node_mem of
                 None \<Rightarrow> (Some t, None)
               | Some a \<Rightarrow>
                   let e = \<lparr>gph_node = a, gph_name = name, gph_pvtid = pvtid, gph_userPvt = 0\<rparr>
                   in (Some (t\<lparr>paplist := (paplist t)[hash := Some (plist @ [e])]\<rparr>), Some e)))"

definition gphDelete :: "gphPvt option \<Rightarrow> string \<Rightarrow> ptr \<Rightarrow> gphPvt option" where
  "gphDelete pgphPvt name pvtid =
     (case pgphPvt of
        None \<Rightarrow> None
      | Some t \<Rightarrow>
          let hash = gph_str_hash t name pvtid in
          (case paplist t ! hash of
             None \<Rightarrow> Some t
           | Some plist \<Rightarrow>
               Some (t\<lparr>paplist := (paplist t)[hash :=
                 Some (remove_first (\<lambda>e. pvtid = gph_pvtid e \<and> name = gph_name e) plist)]\<rparr>)))"

text \<open>\<^verbatim>\<open>gphFreeMem\<close>: the nodes handed to \<^verbatim>\<open>free\<close>, in this order.\<close>

definition gphFreeMem :: "gphPvt option \<Rightarrow> addr list" where
  "gphFreeMem pgphPvt =
     (case pgphPvt of
        None \<Rightarrow> []
      | Some t \<Rightarrow> concat (map (\<lambda>h. map gph_node (gph_chain (paplist t ! h)))
                           [0..<nat (gph_size t)]))"

section \<open>Invariant and abstraction\<close>

definition gph_key :: "GPHENTRY \<Rightarrow> string \<times> ptr" where
  "gph_key e = (gph_name e, gph_pvtid e)"

abbreviation gph_hash :: "gphPvt \<Rightarrow> string \<times> ptr \<Rightarrow> nat" where
  "gph_hash t k \<equiv> gph_str_hash t (fst k) (snd k)"

abbreviation gph_chains :: "gphPvt \<Rightarrow> GPHENTRY list list" where
  "gph_chains t \<equiv> map gph_chain (paplist t)"

definition gph_wf :: "gphPvt \<Rightarrow> bool" where
  "gph_wf t \<longleftrightarrow>
     GPH_MIN_SIZE \<le> gph_size t \<and> gph_size t \<le> GPH_MAX_SIZE \<and>
     gph_mask t = word_of_int (gph_size t - 1) \<and>
     length (paplist t) = nat (gph_size t) \<and>
     chains_ok (gph_hash t) gph_key (gph_chains t) \<and>
     (\<forall>es \<in> set (gph_chains t). \<forall>e \<in> set es. char_nul \<notin> set (gph_name e))"

definition gph_map :: "gphPvt \<Rightarrow> string \<times> ptr \<Rightarrow> addr option" where
  "gph_map t k = map_option gph_node (chains_find (gph_hash t) gph_key (gph_chains t) k)"

section \<open>Lemmas\<close>

lemmas gph_sizes = GPH_MIN_SIZE_def GPH_DEFAULT_SIZE_def GPH_MAX_SIZE_def

lemma gph_chain_simps [simp]: "gph_chain None = []" "gph_chain (Some es) = es"
  by (simp_all add: gph_chain_def)

lemma gph_hash_less:
  assumes "gph_wf t"
  shows "gph_str_hash t name pvtid < length (paplist t)"
proof -
  have sz: "256 \<le> gph_size t" "gph_size t \<le> 65536" "length (paplist t) = nat (gph_size t)"
    and mask: "gph_mask t = word_of_int (gph_size t - 1)"
    using assms by (simp_all only: gph_wf_def gph_sizes)
  have "uint (gph_mask t) = gph_size t - 1"
    unfolding mask uint_word_of_int using sz by (intro mod_pos_pos_trivial) simp_all
  then have "unat (gph_mask t) = nat (gph_size t - 1)" by (simp only: unat_eq_nat_uint)
  moreover have "unat (w AND gph_mask t) \<le> unat (gph_mask t)" for w
    by (simp add: word_and_le1 flip: word_le_nat_alt)
  ultimately have "gph_str_hash t name pvtid \<le> nat (gph_size t - 1)"
    unfolding gph_str_hash_def by simp
  then show ?thesis using sz by linarith
qed

lemma gph_init_wf: "gph_wf (gphInitPvt sz)"
proof -
  have "gph_chains (gphInitPvt sz) = replicate (nat (gph_size (gphInitPvt sz))) []"
    by (simp add: gphInitPvt_def Let_def)
  then show ?thesis
    unfolding gph_wf_def
    by (simp only: chains_empty) (simp add: gphInitPvt_def Let_def gph_sizes)
qed

lemma gph_init_map: "gph_map (gphInitPvt sz) = Map.empty"
proof
  fix k
  have "gph_chains (gphInitPvt sz) = replicate (length (paplist (gphInitPvt sz))) []"
    by (simp add: gphInitPvt_def Let_def)
  then show "gph_map (gphInitPvt sz) k = None"
    using gph_hash_less [OF gph_init_wf [of sz], of "fst k" "snd k"]
    unfolding gph_map_def by (simp add: chains_empty(2))
qed

lemma gph_hash_upd [simp]: "gph_str_hash (t\<lparr>paplist := x\<rparr>) = gph_str_hash t"
  by (intro ext) (simp add: gph_str_hash_def)

lemma gph_hash_agree: "gph_mem_hash t (name @ rest) (length name) pvtid = gph_str_hash t name pvtid"
  by (simp add: gph_mem_hash_def gph_str_hash_def mem_hash_str_hash)

lemma gph_key_iff:
  "pvtid = gph_pvtid e \<and> name = gph_name e \<longleftrightarrow> gph_key e = (name, pvtid)"
  by (auto simp: gph_key_def)

lemma strncmp_name:
  assumes "char_nul \<notin> set b" "char_nul \<notin> set a"
  shows "length b = length a \<and> strncmp_eq (a @ rest) b (length a) \<longleftrightarrow> a = b"
proof -
  have tw: "takeWhile (\<lambda>c. c \<noteq> char_nul) a = a" "takeWhile (\<lambda>c. c \<noteq> char_nul) b = b"
    unfolding takeWhile_eq_all_conv using assms by blast+
  show ?thesis
  proof (cases "length b = length a")
    case True
    then have "take (length a) (a @ rest) = a" "take (length a) b = b" by simp_all
    then show ?thesis using True tw by (simp only: strncmp_eq_def simp_thms)
  qed auto
qed

lemma find_cong_set: "(\<And>e. e \<in> set es \<Longrightarrow> P e = Q e) \<Longrightarrow> find P es = find Q es"
  by (induction es) auto

lemma gph_bucket_names:
  assumes "gph_wf t" "i < length (paplist t)" "e \<in> set (gph_chain (paplist t ! i))"
  shows "char_nul \<notin> set (gph_name e)"
proof -
  have "gph_chains t ! i \<in> set (gph_chains t)" using assms(2) by (intro nth_mem) simp
  then show ?thesis using assms unfolding gph_wf_def by auto
qed

lemma gph_find_parse:
  assumes wf: "gph_wf t" and name: "char_nul \<notin> set name"
  shows "gphFindParse (Some t) (name @ rest) (length name) pvtid =
    chains_find (gph_hash t) gph_key (gph_chains t) (name, pvtid)"
proof -
  let ?i = "gph_str_hash t name pvtid"
  have i: "?i < length (paplist t)" using wf by (rule gph_hash_less)
  have "char_nul \<notin> set (gph_name e)" if "e \<in> set (gph_chain (paplist t ! ?i))" for e
    using gph_bucket_names [OF wf i that] .
  then have "find (\<lambda>e. pvtid = gph_pvtid e \<and> length (gph_name e) = length name \<and>
        strncmp_eq (name @ rest) (gph_name e) (length name)) (gph_chain (paplist t ! ?i)) =
      find (\<lambda>e. gph_key e = (name, pvtid)) (gph_chain (paplist t ! ?i))"
    using strncmp_name [OF _ name] by (intro find_cong_set) (metis gph_key_iff)
  then show ?thesis
    using i by (simp add: gphFindParse_def gph_hash_agree chains_find_def)
qed

lemma gph_find_map:
  "gph_wf t \<Longrightarrow> char_nul \<notin> set name \<Longrightarrow>
   map_option gph_node (gphFind (Some t) name pvtid) = gph_map t (name, pvtid)"
  using gph_find_parse [of t name "[]" pvtid] by (simp add: gphFind_def gph_map_def)

lemma gph_touch:
  assumes "i < length (paplist t)"
  shows "gph_chains (t\<lparr>paplist := (paplist t)[i := Some (gph_chain (paplist t ! i))]\<rparr>) =
    gph_chains t"
  using assms by (simp add: map_update list_update_same_conv)

lemma gph_wf_touch:
  assumes "gph_wf t" "i < length (paplist t)"
  shows "gph_wf (t\<lparr>paplist := (paplist t)[i := Some (gph_chain (paplist t ! i))]\<rparr>)"
    and "gph_map (t\<lparr>paplist := (paplist t)[i := Some (gph_chain (paplist t ! i))]\<rparr>) = gph_map t"
  using assms(1) unfolding gph_wf_def gph_map_def gph_touch [OF assms(2)] by simp_all

lemma gph_wf_update:
  assumes "gph_wf t" "chains_ok (gph_hash t) gph_key ((gph_chains t)[i := es])"
    and "\<And>e. e \<in> set es \<Longrightarrow> char_nul \<notin> set (gph_name e)"
  shows "gph_wf (t\<lparr>paplist := (paplist t)[i := Some es]\<rparr>)"
  using assms unfolding gph_wf_def
  by (auto simp: map_update dest!: subsetD [OF set_update_subset_insert])

lemma gph_add_dup:
  assumes wf: "gph_wf t" and old: "gph_map t (name, pvtid) \<noteq> None"
  shows "\<exists>t'. gphAdd lm nm (Some t) name pvtid = (Some t', None) \<and> gph_wf t' \<and> gph_map t' = gph_map t"
proof -
  let ?i = "gph_str_hash t name pvtid"
  have i: "?i < length (paplist t)" using wf by (rule gph_hash_less)
  have f: "find (\<lambda>e. gph_key e = (name, pvtid)) (gph_chain (paplist t ! ?i)) \<noteq> None"
    using old i by (auto simp: gph_map_def chains_find_def)
  then have "paplist t ! ?i \<noteq> None" by (metis find.simps(1) gph_chain_simps(1))
  with f show ?thesis
    using gph_wf_touch [OF wf i] unfolding gphAdd_def gph_key_iff by (auto simp: Let_def)
qed

lemma gph_add_new:
  assumes wf: "gph_wf t" and name: "char_nul \<notin> set name" and new: "gph_map t (name, pvtid) = None"
  shows "\<exists>t' e. gphAdd True (Some a) (Some t) name pvtid = (Some t', Some e) \<and> gph_wf t' \<and>
           gph_node e = a \<and> gph_map t' = (gph_map t)((name, pvtid) \<mapsto> a)"
proof -
  let ?i = "gph_str_hash t name pvtid"
  define e where "e = \<lparr>gph_node = a, gph_name = name, gph_pvtid = pvtid, gph_userPvt = 0\<rparr>"
  have key: "gph_key e = (name, pvtid)" by (simp add: e_def gph_key_def)
  let ?t = "t\<lparr>paplist := (paplist t)[?i := Some (gph_chain (paplist t ! ?i) @ [e])]\<rparr>"
  have i: "?i < length (paplist t)" using wf by (rule gph_hash_less)
  have none: "chains_find (gph_hash t) gph_key (gph_chains t) (gph_key e) = None"
    using new key by (simp add: gph_map_def)
  have ok: "chains_ok (gph_hash t) gph_key (gph_chains t)" using wf by (simp add: gph_wf_def)
  have idx: "gph_hash t (gph_key e) < length (gph_chains t)"
    "gph_chains t ! ?i = gph_chain (paplist t ! ?i)" using i key by simp_all
  note ins = chains_insert [OF ok idx(1) none, unfolded key fst_conv snd_conv idx(2), OF disjI2, OF refl]
  have "gph_wf ?t"
    using ins(1) gph_bucket_names [OF wf i] name
    by (intro gph_wf_update [OF wf]) (auto simp: e_def)
  moreover have "gph_map ?t = (gph_map t)((name, pvtid) \<mapsto> a)"
    using ins(2) by (auto simp: gph_map_def map_update e_def)
  moreover have "gphAdd True (Some a) (Some t) name pvtid = (Some ?t, Some e)"
    using none i key unfolding gphAdd_def gph_key_iff
    by (simp add: Let_def chains_find_def flip: e_def)
  ultimately show ?thesis by (auto simp: e_def)
qed

lemma gph_delete_map:
  assumes wf: "gph_wf t"
  shows "\<exists>t'. gphDelete (Some t) name pvtid = Some t' \<and> gph_wf t' \<and>
           gph_map t' = (gph_map t)((name, pvtid) := None)"
proof -
  let ?i = "gph_str_hash t name pvtid"
  have i: "?i < length (paplist t)" using wf by (rule gph_hash_less)
  have ok: "chains_ok (gph_hash t) gph_key (gph_chains t)" using wf by (simp add: gph_wf_def)
  show ?thesis
  proof (cases "paplist t ! ?i")
    case None
    then have "gph_map t (name, pvtid) = None" using i by (simp add: gph_map_def chains_find_def)
    with None wf show ?thesis by (auto simp: gphDelete_def)
  next
    case (Some es)
    let ?es = "remove_first (\<lambda>e. gph_key e = (name, pvtid)) es"
    let ?t = "t\<lparr>paplist := (paplist t)[?i := Some ?es]\<rparr>"
    have idx: "gph_hash t (name, pvtid) < length (gph_chains t)" "gph_chains t ! ?i = es"
      using i Some by simp_all
    note rem = chains_remove [OF ok idx(1), unfolded fst_conv snd_conv idx(2)]
    have "gph_wf ?t"
      using rem(1) gph_bucket_names [OF wf i] Some remove_first_subset
      by (intro gph_wf_update [OF wf]) fastforce+
    moreover have "gph_map ?t = (gph_map t)((name, pvtid) := None)"
      using rem(2) by (auto simp: gph_map_def map_update)
    ultimately show ?thesis
      using Some unfolding gphDelete_def gph_key_iff by (simp add: Let_def)
  qed
qed

section \<open>The directory is a finite map\<close>

definition gph_add_node :: "gphPvt \<Rightarrow> string \<times> ptr \<Rightarrow> addr \<Rightarrow> gphPvt \<times> bool" where
  "gph_add_node t k a =
     (case gphAdd True (Some a) (Some t) (fst k) (snd k) of (t', e) \<Rightarrow> (the t', e \<noteq> None))"

definition gph_delete_node :: "gphPvt \<Rightarrow> string \<times> ptr \<Rightarrow> gphPvt" where
  "gph_delete_node t k = the (gphDelete (Some t) (fst k) (snd k))"

definition gph_find_node :: "gphPvt \<Rightarrow> string \<times> ptr \<Rightarrow> addr option" where
  "gph_find_node t k = map_option gph_node (gphFind (Some t) (fst k) (snd k))"

interpretation gph: kv_table gph_find_node gph_add_node gph_delete_node
  "\<lambda>k. char_nul \<notin> set (fst k)" gph_wf gph_map
proof (unfold_locales, goal_cases)
  case (1 t k)
  then show ?case using gph_find_map [of t "fst k" "snd k"] by (simp add: gph_find_node_def)
next
  case (2 t k v t' ok)
  show ?case
  proof (cases "gph_map t k = None")
    case True
    then show ?thesis
      using gph_add_new [of t "fst k" "snd k" v] 2 by (auto simp: gph_add_node_def map_add_new_def)
  next
    case False
    then show ?thesis
      using gph_add_dup [of t "fst k" "snd k" True "Some v"] 2
      by (auto simp: gph_add_node_def map_add_new_def)
  qed
next
  case (3 t k)
  then show ?case
    using gph_delete_map [of t "fst k" "snd k"] by (auto simp: gph_delete_node_def map_remove_def)
qed

section \<open>Property\<close>

text \<open>
  C21: for every requested table size and every sequence of \<^verbatim>\<open>gphAdd\<close> and \<^verbatim>\<open>gphDelete\<close>
  calls (memory permitting), the adds are accepted exactly when the name and private
  pointer are not in the directory, and afterwards \<^verbatim>\<open>gphFind\<close>, as well as \<^verbatim>\<open>gphFindParse\<close> on
  any longer text that starts with the name, returns the node the finite map of the
  accepted requests has for them. No access leaves the array of chains.
\<close>

theorem gph_directory_is_map:
  assumes "list_all (\<lambda>op. char_nul \<notin> set (fst (kv_op_key op))) ops"
    and "kv_run gph_add_node gph_delete_node (gphInitPvt sz) ops = (t, oks)"
    and "char_nul \<notin> set name"
  shows "\<exists>m. kv_run map_add_new map_remove Map.empty ops = (m, oks) \<and>
     map_option gph_node (gphFind (Some t) name pvtid) = m (name, pvtid) \<and>
     gphFindParse (Some t) (name @ rest) (length name) pvtid = gphFind (Some t) name pvtid \<and>
     gph_str_hash t name pvtid < length (paplist t)"
proof -
  have t: "gph_wf t" "kv_run map_add_new map_remove Map.empty ops = (gph_map t, oks)"
    using gph.run_abs [OF gph_init_wf assms(1,2)] by (simp_all add: gph_init_map)
  then show ?thesis
    using gph_find_map [OF t(1) assms(3)] gph_find_parse [OF t(1) assms(3)]
      gph_find_parse [OF t(1) assms(3), of "[]"] gph_hash_less [OF t(1)]
    by (simp add: gphFind_def)
qed

theorem gph_directory_is_map_witness:
  "\<exists>t oks. kv_run gph_add_node gph_delete_node (gphInitPvt 100)
       [KAdd (''rec'', 1) 7, KAdd (''rec'', 1) 8, KAdd (''rec'', 2) 9, KRemove (''rec'', 2)] = (t, oks) \<and>
     oks = [True, False, True] \<and>
     map_option gph_node (gphFind (Some t) ''rec'' 1) = Some 7"
proof -
  let ?ops = "[KAdd (''rec'', 1) 7, KAdd (''rec'', 1) 8, KAdd (''rec'', 2) 9, KRemove (''rec'', 2)]"
  obtain t oks where "kv_run gph_add_node gph_delete_node (gphInitPvt 100) ?ops = (t, oks)"
    by fastforce
  moreover from gph_directory_is_map [OF _ this, of "''rec''" 1]
  have "oks = [True, False, True] \<and> map_option gph_node (gphFind (Some t) ''rec'' 1) = Some 7"
    by (simp add: char_nul_def map_add_new_def map_remove_def)
  ultimately show ?thesis by blast
qed

end
