(* ===== verification/BucketLib.thy ===== *)
theory BucketLib
  imports KvTable EpicsString
begin

unbundle bit_operations_syntax

text \<open>
  The resource id table of \<^verbatim>\<open>modules/libcom/src/bucketLib/bucketLib.c\<close>: chains of items whose
  ids are unsigned integers, pointers or strings, in one table. An id stands for the value
  at the address the C code keeps (it has to stay constant there). A failed \<^verbatim>\<open>assert\<close> and a
  loop that does not end are \<open>None\<close>; memory allocation outcomes are parameters.
\<close>

section \<open>Model\<close>

datatype bucketId = bidtUnsigned uint32 | bidtPointer "64 word" | bidtString string

record ITEM =
  pId :: bucketId
  pApp :: "addr option"

record BUCKET =
  pTable :: "ITEM list list"
  hashIdMask :: uint32
  hashIdNBits :: nat
  nInUse :: uint32

datatype bucket_status = S_bucket_success | S_bucket_noMemory | S_bucket_idInUse | S_bucket_uknId

text \<open>
  The three compare functions: the first item of the chain whose type tag and id agree
  (the address of the link to it in C).
\<close>

fun bucketUnsignedCompare :: "ITEM list \<Rightarrow> uint32 \<Rightarrow> ITEM option" where
  "bucketUnsignedCompare [] u = None"
| "bucketUnsignedCompare (i # is) u =
     (case pId i of
        bidtUnsigned v \<Rightarrow> if u = v then Some i else bucketUnsignedCompare is u
      | _ \<Rightarrow> bucketUnsignedCompare is u)"

fun bucketPointerCompare :: "ITEM list \<Rightarrow> 64 word \<Rightarrow> ITEM option" where
  "bucketPointerCompare [] u = None"
| "bucketPointerCompare (i # is) u =
     (case pId i of
        bidtPointer v \<Rightarrow> if u = v then Some i else bucketPointerCompare is u
      | _ \<Rightarrow> bucketPointerCompare is u)"

fun bucketStringCompare :: "ITEM list \<Rightarrow> string \<Rightarrow> ITEM option" where
  "bucketStringCompare [] u = None"
| "bucketStringCompare (i # is) u =
     (case pId i of
        bidtString v \<Rightarrow> if u = v then Some i else bucketStringCompare is u
      | _ \<Rightarrow> bucketStringCompare is u)"

text \<open>\<^verbatim>\<open>while (src) { hashid = hashid ^ src; src = src >> nbits; }\<close>\<close>

partial_function (option) bucket_fold :: "nat \<Rightarrow> 'w::len word \<Rightarrow> uint32 \<Rightarrow> uint32 option" where
  "bucket_fold nbits src hashid =
     (if src \<noteq> 0 then bucket_fold nbits (drop_bit nbits src) (hashid XOR ucast src)
      else Some hashid)"

definition bucketUnsignedHash :: "BUCKET \<Rightarrow> uint32 \<Rightarrow> uint32 option" where
  "bucketUnsignedHash pb src =
     do { hashid \<leftarrow> bucket_fold (hashIdNBits pb) (drop_bit (hashIdNBits pb) src) src;
          Some (hashid AND hashIdMask pb) }"

definition bucketPointerHash :: "BUCKET \<Rightarrow> 64 word \<Rightarrow> uint32 option" where
  "bucketPointerHash pb src =
     do { hashid \<leftarrow> bucket_fold (hashIdNBits pb) (drop_bit (hashIdNBits pb) src) (ucast src);
          Some (hashid AND hashIdMask pb) }"

fun bucket_string_sum :: "string \<Rightarrow> uint32 \<Rightarrow> uint32 \<Rightarrow> uint32" where
  "bucket_string_sum [] hashid i = hashid"
| "bucket_string_sum (c # s) hashid i =
     bucket_string_sum s (hashid + word_of_int (char_int c) * i) (i + 1)"

definition bucketStringHash :: "BUCKET \<Rightarrow> string \<Rightarrow> uint32 option" where
  "bucketStringHash pb s = Some (bucket_string_sum s 0 1 mod (hashIdMask pb + 1))"

text \<open>The dispatch through \<^verbatim>\<open>BSET\<close>.\<close>

definition bucket_hash :: "BUCKET \<Rightarrow> bucketId \<Rightarrow> uint32 option" where
  "bucket_hash pb i =
     (case i of
        bidtUnsigned u \<Rightarrow> bucketUnsignedHash pb u
      | bidtPointer p \<Rightarrow> bucketPointerHash pb p
      | bidtString s \<Rightarrow> bucketStringHash pb s)"

definition bucket_compare :: "ITEM list \<Rightarrow> bucketId \<Rightarrow> ITEM option" where
  "bucket_compare is i =
     (case i of
        bidtUnsigned u \<Rightarrow> bucketUnsignedCompare is u
      | bidtPointer p \<Rightarrow> bucketPointerCompare is p
      | bidtString s \<Rightarrow> bucketStringCompare is s)"

text \<open>The loop over \<open>nbits\<close>: the first width that is enough, at most 32.\<close>

function bucket_nbits :: "uint32 \<Rightarrow> nat \<Rightarrow> nat \<times> uint32" where
  "bucket_nbits n nbits =
     (if nbits < 32 then
        let msk = push_bit nbits 1 - 1 in
        if (n - 1) AND NOT msk = 0 then (nbits, msk) else bucket_nbits n (nbits + 1)
      else (nbits, push_bit 31 1 - 1))"
  by pat_completeness auto
termination
  by (relation "measure (\<lambda>(n, nbits). 32 - nbits)") auto

declare bucket_nbits.simps [simp del]

text \<open>The flags say whether the two \<^verbatim>\<open>calloc\<close> calls succeed.\<close>

definition bucketCreate :: "bool \<Rightarrow> bool \<Rightarrow> uint32 \<Rightarrow> BUCKET option" where
  "bucketCreate pb_mem table_mem nHashTableEntries =
     (if nHashTableEntries \<le> 1 then None
      else
        case bucket_nbits nHashTableEntries 0 of
          (nbits, msk) \<Rightarrow>
            if nbits \<ge> 32 then None
            else if \<not> pb_mem then None
            else if \<not> table_mem then None
            else Some \<lparr>pTable = replicate (unat (msk + 1)) [], hashIdMask = msk,
                       hashIdNBits = nbits, nInUse = 0\<rparr>)"

definition bucketFree :: "BUCKET \<Rightarrow> bucket_status option" where
  "bucketFree prb = (if nInUse prb = 0 then Some S_bucket_success else None)"

definition bucketAddItem ::
  "bool \<Rightarrow> BUCKET \<Rightarrow> bucketId \<Rightarrow> addr option \<Rightarrow> (BUCKET \<times> bucket_status) option" where
  "bucketAddItem mem prb i app =
     (if \<not> mem then Some (prb, S_bucket_noMemory)
      else do {
        hashid \<leftarrow> bucket_hash prb i;
        (if hashid AND NOT (hashIdMask prb) \<noteq> 0 then None
         else if bucket_compare (pTable prb ! unat hashid) i \<noteq> None
         then Some (prb, S_bucket_idInUse)
         else Some (prb\<lparr>pTable := (pTable prb)[unat hashid :=
                          \<lparr>pId = i, pApp = app\<rparr> # pTable prb ! unat hashid],
                        nInUse := nInUse prb + 1\<rparr>, S_bucket_success)) })"

definition bucketLookupAndRemoveItem ::
  "BUCKET \<Rightarrow> bucketId \<Rightarrow> (BUCKET \<times> addr option) option" where
  "bucketLookupAndRemoveItem prb i = do {
     hashid \<leftarrow> bucket_hash prb i;
     (if hashid AND NOT (hashIdMask prb) \<noteq> 0 then None
      else
        case bucket_compare (pTable prb ! unat hashid) i of
          None \<Rightarrow> Some (prb, None)
        | Some pi \<Rightarrow>
            Some (prb\<lparr>nInUse := nInUse prb - 1,
                     pTable := (pTable prb)[unat hashid :=
                       remove_first (\<lambda>x. pId x = i) (pTable prb ! unat hashid)]\<rparr>, pApp pi)) }"

definition bucketRemoveItem :: "BUCKET \<Rightarrow> bucketId \<Rightarrow> (BUCKET \<times> bucket_status) option" where
  "bucketRemoveItem prb i = do {
     (prb', app) \<leftarrow> bucketLookupAndRemoveItem prb i;
     Some (prb', if app \<noteq> None then S_bucket_success else S_bucket_uknId) }"

definition bucketLookupItem :: "BUCKET \<Rightarrow> bucketId \<Rightarrow> addr option option" where
  "bucketLookupItem pb i = do {
     hashid \<leftarrow> bucket_hash pb i;
     (if hashid AND NOT (hashIdMask pb) \<noteq> 0 then None
      else
        case bucket_compare (pTable pb ! unat hashid) i of
          Some pi \<Rightarrow> Some (pApp pi)
        | None \<Rightarrow> Some None) }"

section \<open>Invariant and abstraction\<close>

definition bucket_idx :: "BUCKET \<Rightarrow> bucketId \<Rightarrow> nat" where
  "bucket_idx pb i = unat (the (bucket_hash pb i))"

definition bucket_wf :: "BUCKET \<Rightarrow> bool" where
  "bucket_wf pb \<longleftrightarrow>
     1 \<le> hashIdNBits pb \<and> hashIdNBits pb < 32 \<and>
     hashIdMask pb = push_bit (hashIdNBits pb) 1 - 1 \<and>
     length (pTable pb) = 2 ^ hashIdNBits pb \<and>
     chains_ok (bucket_idx pb) pId (pTable pb) \<and>
     nInUse pb = of_nat (sum_list (map length (pTable pb)))"

definition bucket_map :: "BUCKET \<Rightarrow> bucketId \<Rightarrow> addr option option" where
  "bucket_map pb i = map_option pApp (chains_find (bucket_idx pb) pId (pTable pb) i)"

section \<open>Lemmas\<close>

lemma bucket_compare_find: "bucket_compare is i = find (\<lambda>x. pId x = i) is"
proof (cases i)
  case (bidtUnsigned u)
  then show ?thesis
    by (simp add: bucket_compare_def)
      (induction "is" u rule: bucketUnsignedCompare.induct; auto split: bucketId.splits)
next
  case (bidtPointer u)
  then show ?thesis
    by (simp add: bucket_compare_def)
      (induction "is" u rule: bucketPointerCompare.induct; auto split: bucketId.splits)
next
  case (bidtString u)
  then show ?thesis
    by (simp add: bucket_compare_def)
      (induction "is" u rule: bucketStringCompare.induct; auto split: bucketId.splits)
qed

text \<open>The folding loop ends because at least one bit is shifted out in each round.\<close>

lemma bucket_fold_total:
  assumes "0 < nbits"
  shows "\<exists>r. bucket_fold nbits (src :: 'w::len word) hashid = Some r"
proof (induction "unat src" arbitrary: src hashid rule: less_induct)
  case less
  show ?case
  proof (cases "src = 0")
    case False
    have "unat (drop_bit nbits src) = unat src div 2 ^ nbits"
      by (subst unat_drop_bit_eq) (simp add: drop_bit_eq_div)
    also have "\<dots> < unat src"
      using one_less_power [of "2 :: nat", OF _ assms] False
      by (intro div_less_dividend) (simp_all add: unat_gt_0)
    finally show ?thesis using less False by (subst bucket_fold.simps) simp
  qed (simp add: bucket_fold.simps)
qed

lemma mask_word:
  "push_bit k 1 - 1 = (mask k :: uint32)"
  "k < 32 \<Longrightarrow> unat (mask k :: uint32) = 2 ^ k - 1"
  "k < 32 \<Longrightarrow> unat (mask k + 1 :: uint32) = 2 ^ k"
proof -
  show "push_bit k 1 - 1 = (mask k :: uint32)"
    by (simp add: mask_eq_exp_minus_1 push_bit_eq_mult)
  assume k: "k < 32"
  then have le: "(2 :: nat) ^ k \<le> 2 ^ 31" by (intro power_increasing) simp_all
  have "unat (of_nat (mask k) :: uint32) = mask k"
    unfolding unat_of_nat mask_eq_exp_minus_1 using le by (intro mod_less) simp
  then show m: "unat (mask k :: uint32) = 2 ^ k - 1"
    by (simp only: of_nat_mask_eq) (simp add: mask_eq_exp_minus_1)
  with le show "unat (mask k + 1 :: uint32) = 2 ^ k"
    by (simp add: unat_word_ariths)
qed

lemma bucket_hash_masked:
  assumes "bucket_wf pb"
  shows "\<exists>x. bucket_hash pb i = Some (x AND mask (hashIdNBits pb))"
proof -
  have nb: "0 < hashIdNBits pb" "hashIdMask pb = mask (hashIdNBits pb)"
    using assms by (simp_all add: bucket_wf_def mask_eq_exp_minus_1)
  show ?thesis
  proof (cases i)
    case (bidtUnsigned u)
    then show ?thesis
      using nb bucket_fold_total [OF nb(1), of "drop_bit (hashIdNBits pb) u" u]
      by (auto simp: bucket_hash_def bucketUnsignedHash_def)
  next
    case (bidtPointer u)
    then show ?thesis
      using nb bucket_fold_total [OF nb(1), of "drop_bit (hashIdNBits pb) u" "ucast u"]
      by (auto simp: bucket_hash_def bucketPointerHash_def)
  next
    case (bidtString u)
    have "hashIdMask pb + 1 = 2 ^ hashIdNBits pb" by (simp add: nb(2) mask_eq_exp_minus_1)
    then show ?thesis
      using bidtString
      by (auto simp: bucket_hash_def bucketStringHash_def take_bit_eq_mod [symmetric] take_bit_eq_mask)
  qed
qed

text \<open>No assertion on a hash index fails, and the index is inside the table.\<close>

lemma bucket_hash_ok:
  assumes wf: "bucket_wf pb"
  shows "\<exists>h. bucket_hash pb i = Some h \<and> unat h = bucket_idx pb i \<and>
     h AND NOT (hashIdMask pb) = 0 \<and> bucket_idx pb i < length (pTable pb)"
proof -
  obtain x where x: "bucket_hash pb i = Some (x AND mask (hashIdNBits pb))"
    using bucket_hash_masked [OF wf] by blast
  have nb: "hashIdNBits pb < 32" "hashIdMask pb = mask (hashIdNBits pb)"
      "length (pTable pb) = 2 ^ hashIdNBits pb"
    using wf by (simp_all add: bucket_wf_def mask_eq_exp_minus_1)
  have "unat (x AND mask (hashIdNBits pb)) \<le> unat (mask (hashIdNBits pb) :: uint32)"
    by (simp add: word_and_le1 flip: word_le_nat_alt)
  also have "\<dots> < length (pTable pb)" using nb mask_word(2) by simp
  finally have "unat (x AND mask (hashIdNBits pb)) < length (pTable pb)" .
  moreover have "(x AND mask (hashIdNBits pb)) AND NOT (hashIdMask pb) = 0"
    by (simp add: nb(2) and.assoc)
  ultimately show ?thesis
    using x by (simp add: bucket_idx_def)
qed

lemma bucket_idx_upd [simp]:
  "bucket_idx (pb\<lparr>pTable := x, nInUse := y\<rparr>) = bucket_idx pb"
  "bucket_idx (pb\<lparr>nInUse := y, pTable := x\<rparr>) = bucket_idx pb"
  by (auto simp: bucket_idx_def bucket_hash_def bucketUnsignedHash_def bucketPointerHash_def
      bucketStringHash_def fun_eq_iff split: bucketId.splits)

lemma sum_length_update:
  "i < length bs \<Longrightarrow> sum_list (map length (bs[i := es])) + length (bs ! i) =
     sum_list (map length bs) + length es"
  by (induction bs arbitrary: i) (auto split: nat.splits)

lemma bucket_find_compare:
  assumes "bucket_wf pb"
  shows "bucket_compare (pTable pb ! bucket_idx pb i) i =
           chains_find (bucket_idx pb) pId (pTable pb) i"
  by (simp add: bucket_compare_find chains_find_def)

lemma bucket_lookup:
  assumes wf: "bucket_wf pb"
  shows "bucketLookupItem pb i = Some (case bucket_map pb i of None \<Rightarrow> None | Some app \<Rightarrow> app)"
proof -
  obtain h where "bucket_hash pb i = Some h" "unat h = bucket_idx pb i"
      "h AND NOT (hashIdMask pb) = 0"
    using bucket_hash_ok [OF wf] by blast
  then show ?thesis
    using bucket_find_compare [OF wf, of i]
    by (simp add: bucketLookupItem_def bucket_map_def split: option.splits)
qed

lemma bucket_add_new:
  assumes wf: "bucket_wf pb" and new: "bucket_map pb i = None"
  shows "\<exists>pb'. bucketAddItem True pb i app = Some (pb', S_bucket_success) \<and> bucket_wf pb' \<and>
     bucket_map pb' = (bucket_map pb)(i \<mapsto> app) \<and> nInUse pb' = nInUse pb + 1"
proof -
  let ?b = "bucket_idx pb i" and ?e = "\<lparr>pId = i, pApp = app\<rparr>"
  let ?pb = "pb\<lparr>pTable := (pTable pb)[?b := ?e # pTable pb ! ?b], nInUse := nInUse pb + 1\<rparr>"
  obtain h where h: "bucket_hash pb i = Some h" "unat h = ?b" "h AND NOT (hashIdMask pb) = 0"
    and b: "?b < length (pTable pb)"
    using bucket_hash_ok [OF wf] by blast
  have none: "chains_find (bucket_idx pb) pId (pTable pb) i = None"
    using new by (simp add: bucket_map_def)
  have ok: "chains_ok (bucket_idx pb) pId (pTable pb)" using wf by (simp add: bucket_wf_def)
  have e: "bucket_idx pb (pId ?e) < length (pTable pb)"
    "chains_find (bucket_idx pb) pId (pTable pb) (pId ?e) = None" using b none by simp_all
  note ins = chains_insert [OF ok e disjI1, OF refl, simplified]
  have "sum_list (map length (pTable ?pb)) = Suc (sum_list (map length (pTable pb)))"
    using sum_length_update [OF b, of "?e # pTable pb ! ?b"] by simp
  then have "bucket_wf ?pb" using wf ins(1) by (simp add: bucket_wf_def)
  moreover have "bucket_map ?pb = (bucket_map pb)(i \<mapsto> app)"
    using ins(2) by (auto simp: bucket_map_def)
  moreover have "bucketAddItem True pb i app = Some (?pb, S_bucket_success)"
    using h none bucket_find_compare [OF wf, of i] by (simp add: bucketAddItem_def)
  ultimately show ?thesis by auto
qed

lemma bucket_add_dup:
  assumes wf: "bucket_wf pb" and old: "bucket_map pb i \<noteq> None"
  shows "bucketAddItem True pb i app = Some (pb, S_bucket_idInUse)"
proof -
  obtain h where "bucket_hash pb i = Some h" "unat h = bucket_idx pb i"
      "h AND NOT (hashIdMask pb) = 0"
    using bucket_hash_ok [OF wf] by blast
  then show ?thesis
    using old bucket_find_compare [OF wf, of i] by (auto simp: bucketAddItem_def bucket_map_def)
qed

lemma bucket_remove_present:
  assumes wf: "bucket_wf pb" and old: "bucket_map pb i = Some app"
  shows "\<exists>pb'. bucketLookupAndRemoveItem pb i = Some (pb', app) \<and> bucket_wf pb' \<and>
     bucket_map pb' = (bucket_map pb)(i := None) \<and> nInUse pb' = nInUse pb - 1"
proof -
  let ?b = "bucket_idx pb i"
  let ?es = "remove_first (\<lambda>x. pId x = i) (pTable pb ! ?b)"
  let ?pb = "pb\<lparr>nInUse := nInUse pb - 1, pTable := (pTable pb)[?b := ?es]\<rparr>"
  obtain h where h: "bucket_hash pb i = Some h" "unat h = ?b" "h AND NOT (hashIdMask pb) = 0"
    and b: "?b < length (pTable pb)"
    using bucket_hash_ok [OF wf] by blast
  obtain e where e: "chains_find (bucket_idx pb) pId (pTable pb) i = Some e" "pApp e = app"
    using old by (auto simp: bucket_map_def)
  have ok: "chains_ok (bucket_idx pb) pId (pTable pb)" using wf by (simp add: bucket_wf_def)
  note rem = chains_remove [OF ok b]
  have "Suc (length ?es) = length (pTable pb ! ?b)"
    using e(1) by (intro length_remove_first) (simp add: chains_find_def)
  then have "sum_list (map length (pTable pb)) = Suc (sum_list (map length (pTable ?pb)))"
    using sum_length_update [OF b, of ?es] by simp
  then have "bucket_wf ?pb" using wf rem(1) by (simp add: bucket_wf_def)
  moreover have "bucket_map ?pb = (bucket_map pb)(i := None)"
    using rem(2) by (auto simp: bucket_map_def)
  moreover have "bucketLookupAndRemoveItem pb i = Some (?pb, app)"
    using h e bucket_find_compare [OF wf, of i] by (simp add: bucketLookupAndRemoveItem_def)
  ultimately show ?thesis by auto
qed

lemma bucket_remove_absent:
  assumes wf: "bucket_wf pb" and old: "bucket_map pb i = None"
  shows "bucketLookupAndRemoveItem pb i = Some (pb, None)"
proof -
  obtain h where "bucket_hash pb i = Some h" "unat h = bucket_idx pb i"
      "h AND NOT (hashIdMask pb) = 0"
    using bucket_hash_ok [OF wf] by blast
  then show ?thesis
    using old bucket_find_compare [OF wf, of i]
    by (simp add: bucketLookupAndRemoveItem_def bucket_map_def)
qed

text \<open>The table has the smallest power of two that holds the requested number of entries.\<close>

lemma masked_zero_iff:
  assumes "k < 32"
  shows "x AND NOT (mask k :: uint32) = 0 \<longleftrightarrow> unat x < 2 ^ k"
proof -
  have "x AND NOT (mask k) = 0 \<longleftrightarrow> take_bit k x = x"
    by (auto simp: bit_eq_iff bit_simps)
  also have "\<dots> \<longleftrightarrow> take_bit k (unat x) = unat x"
    by (simp add: word_eq_iff_unsigned [where ?'a = nat] unsigned_take_bit_eq)
  also have "\<dots> \<longleftrightarrow> unat x < 2 ^ k"
    by (simp add: take_bit_nat_eq_self_iff)
  finally show ?thesis .
qed

lemma bucket_nbits_least:
  assumes "bucket_nbits n k0 = (k, msk)" "k < 32" "k0 = 0 \<or> 2 ^ (k0 - 1) \<le> unat (n - 1)"
  shows "msk = mask k \<and> unat (n - 1) < 2 ^ k \<and> (k = 0 \<or> 2 ^ (k - 1) \<le> unat (n - 1))"
  using assms
proof (induction n k0 rule: bucket_nbits.induct)
  case (1 n k0)
  show ?case
  proof (cases "k0 < 32 \<and> unat (n - 1) < 2 ^ k0")
    case True
    then show ?thesis
      using 1(2-4) by (subst (asm) bucket_nbits.simps)
        (auto simp: Let_def masked_zero_iff mask_word(1) simp del: push_bit_of_1)
  next
    case False
    then have "k0 < 32" "\<not> unat (n - 1) < 2 ^ k0"
      using 1(2,3) by (auto simp: bucket_nbits.simps [of n k0] Let_def split: if_splits)
    then show ?thesis
      using 1 by (subst (asm) (2) bucket_nbits.simps)
        (auto simp: Let_def masked_zero_iff mask_word(1) simp del: push_bit_of_1)
  qed
qed

lemma bucket_nbits_bound:
  assumes "unat (n - 1) < 2 ^ m" "k0 \<le> m" "m < 32"
  shows "fst (bucket_nbits n k0) \<le> m"
  using assms
proof (induction n k0 rule: bucket_nbits.induct)
  case (1 n k0)
  then have "k0 < 32" by simp
  show ?case
  proof (cases "unat (n - 1) < 2 ^ k0")
    case True
    then show ?thesis
      using \<open>k0 < 32\<close> 1(3) by (subst bucket_nbits.simps)
        (simp add: Let_def masked_zero_iff mask_word(1) del: push_bit_of_1)
  next
    case False
    then have "k0 \<noteq> m" using 1(2) by blast
    with False \<open>k0 < 32\<close> 1 show ?thesis by (subst bucket_nbits.simps)
        (simp add: Let_def masked_zero_iff mask_word(1) del: push_bit_of_1)
  qed
qed

lemma bucketCreate_ok:
  assumes "2 \<le> unat n" "unat n \<le> 2 ^ 31"
  shows "\<exists>pb. bucketCreate True True n = Some pb \<and> bucket_wf pb \<and> bucket_map pb = Map.empty \<and>
     unat n \<le> length (pTable pb) \<and> length (pTable pb) < 2 * unat n"
proof -
  have n1: "unat (n - 1) = unat n - 1"
    using assms(1) by (intro unat_minus_one) auto
  obtain k msk where k: "bucket_nbits n 0 = (k, msk)" by fastforce
  have k32: "k < 32"
    using bucket_nbits_bound [of n 31 0] n1 k order_less_le_trans [OF _ assms(2), of "unat n - 1"]
      assms(1) by simp
  have least: "msk = mask k" "unat n - 1 < 2 ^ k" "k = 0 \<or> 2 ^ (k - 1) \<le> unat n - 1"
    using bucket_nbits_least [OF k k32] n1 by auto
  have k1: "1 \<le> k" using least(2) assms(1) by (cases k) auto
  define pb where "pb = \<lparr>pTable = replicate (2 ^ k) [], hashIdMask = msk, hashIdNBits = k, nInUse = 0\<rparr>"
  have "bucketCreate True True n = Some pb"
    using assms(1) k k32 least(1) mask_word(3) [OF k32]
    by (auto simp: bucketCreate_def pb_def word_le_nat_alt)
  moreover have wf: "bucket_wf pb"
    using k1 k32 least(1) by (simp add: bucket_wf_def pb_def chains_empty mask_eq_exp_minus_1
        sum_list_replicate)
  moreover have "bucket_map pb i = None" for i
  proof -
    have tab: "pTable pb = replicate (2 ^ k) []" by (simp add: pb_def)
    have "bucket_idx pb i < 2 ^ k" using bucket_hash_ok [OF wf, of i] tab by auto
    then show ?thesis unfolding bucket_map_def tab by (simp add: chains_empty(2))
  qed
  moreover have "2 ^ k = 2 * (2 ^ (k - 1) :: nat)" using k1 by (cases k) simp_all
  ultimately show ?thesis
    using least(2,3) k1 assms(1) by (auto simp: pb_def)
qed

section \<open>The table is a finite map\<close>

definition bucket_add_app :: "BUCKET \<Rightarrow> bucketId \<Rightarrow> addr \<Rightarrow> BUCKET \<times> bool" where
  "bucket_add_app pb i a =
     (case bucketAddItem True pb i (Some a) of
        Some (pb', st) \<Rightarrow> (pb', st = S_bucket_success) | None \<Rightarrow> (pb, False))"

definition bucket_remove_app :: "BUCKET \<Rightarrow> bucketId \<Rightarrow> BUCKET" where
  "bucket_remove_app pb i =
     (case bucketRemoveItem pb i of Some (pb', st) \<Rightarrow> pb' | None \<Rightarrow> pb)"

definition bucket_find_app :: "BUCKET \<Rightarrow> bucketId \<Rightarrow> addr option" where
  "bucket_find_app pb i = (case bucketLookupItem pb i of Some app \<Rightarrow> app | None \<Rightarrow> None)"

definition bucket_apps :: "BUCKET \<Rightarrow> bucketId \<Rightarrow> addr option" where
  "bucket_apps pb i = (case bucket_map pb i of None \<Rightarrow> None | Some app \<Rightarrow> app)"

definition bucket_inv :: "BUCKET \<Rightarrow> bool" where
  "bucket_inv pb \<longleftrightarrow> bucket_wf pb \<and> (\<forall>i. bucket_map pb i \<noteq> Some None)"

lemma bucket_apps_None: "bucket_inv pb \<Longrightarrow> bucket_apps pb i = None \<longleftrightarrow> bucket_map pb i = None"
  unfolding bucket_inv_def bucket_apps_def by (metis not_None_eq option.simps(4,5))

lemma bucket_remove_app_map:
  assumes "bucket_wf pb"
  shows "bucket_wf (bucket_remove_app pb i) \<and>
         bucket_map (bucket_remove_app pb i) = (bucket_map pb)(i := None)"
proof (cases "bucket_map pb i")
  case None
  then show ?thesis using assms bucket_remove_absent [OF assms None]
    by (auto simp: bucket_remove_app_def bucketRemoveItem_def)
next
  case (Some app)
  then show ?thesis using bucket_remove_present [OF assms Some]
    by (auto simp: bucket_remove_app_def bucketRemoveItem_def)
qed

interpretation bkt: kv_table bucket_find_app bucket_add_app bucket_remove_app "\<lambda>_. True"
  bucket_inv bucket_apps
proof (unfold_locales, goal_cases)
  case (1 t k)
  then show ?case using bucket_lookup [of t k]
    by (simp add: bucket_find_app_def bucket_apps_def bucket_inv_def)
next
  case (2 t k v t' ok)
  show ?case
  proof (cases "bucket_map t k = None")
    case True
    then show ?thesis
      using bucket_add_new [of t k "Some v"] 2 bucket_apps_None [of t k]
      by (auto simp: bucket_add_app_def map_add_new_def bucket_inv_def bucket_apps_def
          split: if_splits)
  next
    case False
    then show ?thesis
      using bucket_add_dup [of t k "Some v"] 2 bucket_apps_None [of t k]
      by (auto simp: bucket_add_app_def map_add_new_def bucket_inv_def)
  qed
next
  case (3 t k)
  then show ?case
    using bucket_remove_app_map [of t k]
    by (auto simp: map_remove_def bucket_inv_def bucket_apps_def)
qed

section \<open>Properties\<close>

text \<open>
  \<^verbatim>\<open>bucketCreate\<close> accepts every size from 2 to \<open>2 ^ 31\<close> and makes an empty, well-formed table
  whose number of chains is the least power of two that is at least the size asked for.
\<close>

theorem bucketCreate_size:
  assumes "2 \<le> unat n" "unat n \<le> 2 ^ 31"
  shows "\<exists>pb. bucketCreate True True n = Some pb \<and> bucket_wf pb \<and> bucket_map pb = Map.empty \<and>
     unat n \<le> length (pTable pb) \<and> length (pTable pb) < 2 * unat n"
  using assms by (rule bucketCreate_ok)

theorem bucketCreate_size_witness:
  "\<exists>pb. bucketCreate True True 1000 = Some pb \<and> bucket_wf pb \<and> 1000 \<le> length (pTable pb)"
  using bucketCreate_size [of 1000] by auto

text \<open>
  C22: over any sequence of \<^verbatim>\<open>bucketAddItem\<close> and \<^verbatim>\<open>bucketRemoveItem\<close> calls on a fresh table,
  with ids of the three kinds mixed, the table is a finite map: an add is refused exactly
  for an id in use, the lookup returns the application pointer last added, no assertion
  fails and every hash loop ends.
\<close>

theorem bucket_is_map:
  assumes "2 \<le> unat n" "unat n \<le> 2 ^ 31" "bucketCreate True True n = Some pb"
    and "kv_run bucket_add_app bucket_remove_app pb ops = (pb', oks)"
  shows "\<exists>m. kv_run map_add_new map_remove Map.empty ops = (m, oks) \<and>
     (\<forall>i. bucketLookupItem pb' i = Some (m i))"
proof -
  have pb: "bucket_wf pb" "bucket_map pb = Map.empty"
    using bucketCreate_ok [OF assms(1,2)] assms(3) by auto
  then have "bucket_inv pb" "bucket_apps pb = Map.empty"
    by (auto simp: bucket_inv_def bucket_apps_def)
  with bkt.run_abs [OF _ _ assms(4)]
  have r: "bucket_inv pb'" "kv_run map_add_new map_remove Map.empty ops = (bucket_apps pb', oks)"
    by (simp_all add: list_all_iff)
  moreover have "bucketLookupItem pb' i = Some (bucket_apps pb' i)" for i
    using bucket_lookup r(1) by (simp add: bucket_inv_def bucket_apps_def)
  ultimately show ?thesis by blast
qed

theorem bucket_is_map_witness:
  "\<exists>pb pb' oks. bucketCreate True True 2 = Some pb \<and>
     kv_run bucket_add_app bucket_remove_app pb
       [KAdd (bidtUnsigned 5) 1, KAdd (bidtString ''a'') 2, KAdd (bidtUnsigned 5) 3] = (pb', oks) \<and>
     oks = [True, True, False] \<and> bucketLookupItem pb' (bidtUnsigned 5) = Some (Some 1)"
proof -
  let ?ops = "[KAdd (bidtUnsigned 5) 1, KAdd (bidtString ''a'') 2, KAdd (bidtUnsigned 5) 3]"
  obtain pb where pb: "bucketCreate True True 2 = Some pb"
    using bucketCreate_ok [of 2] by auto
  obtain pb' oks where "kv_run bucket_add_app bucket_remove_app pb ?ops = (pb', oks)"
    by fastforce
  moreover from bucket_is_map [OF _ _ pb this]
  have "oks = [True, True, False] \<and> bucketLookupItem pb' (bidtUnsigned 5) = Some (Some 1)"
    by (simp add: map_add_new_def)
  ultimately show ?thesis using pb by blast
qed

text \<open>
  C23: an item stored with a NULL application pointer is removed by \<^verbatim>\<open>bucketRemoveItem\<close>, and
  the count of items drops, but the call reports the id as unknown.
\<close>

theorem bucketRemoveItem_null_app:
  assumes "bucket_wf pb" "bucket_map pb i = Some None"
  shows "\<exists>pb'. bucketRemoveItem pb i = Some (pb', S_bucket_uknId) \<and> bucket_wf pb' \<and>
     bucket_map pb' = (bucket_map pb)(i := None) \<and> nInUse pb' = nInUse pb - 1"
  using bucket_remove_present [OF assms] by (auto simp: bucketRemoveItem_def)

theorem bucketRemoveItem_null_app_witness:
  "\<exists>pb0 pb pb'. bucketCreate True True 2 = Some pb0 \<and>
     bucketAddItem True pb0 (bidtUnsigned 5) None = Some (pb, S_bucket_success) \<and>
     bucketRemoveItem pb (bidtUnsigned 5) = Some (pb', S_bucket_uknId) \<and>
     bucket_map pb' (bidtUnsigned 5) = None"
proof -
  obtain pb0 where pb0: "bucketCreate True True 2 = Some pb0" "bucket_wf pb0"
      "bucket_map pb0 = Map.empty"
    using bucketCreate_ok [of 2] by auto
  obtain pb where pb: "bucketAddItem True pb0 (bidtUnsigned 5) None = Some (pb, S_bucket_success)"
      "bucket_wf pb" "bucket_map pb = [bidtUnsigned 5 \<mapsto> None]"
    using bucket_add_new [OF pb0(2), of "bidtUnsigned 5" None] pb0(3) by auto
  from bucketRemoveItem_null_app [OF pb(2), of "bidtUnsigned 5"] pb(3) pb0(1) pb(1)
  show ?thesis by auto
qed

end
