(* ===== verification/EpicsStdlib.thy ===== *)
theory EpicsStdlib
  imports EpicsString
begin

text \<open>
  Number parsing, \<^verbatim>\<open>modules/libcom/src/misc/epicsStdlib.c\<close>, for a target whose \<^verbatim>\<open>long\<close> and
  \<^verbatim>\<open>long long\<close> have 64 bits. The C library's \<^verbatim>\<open>strtol\<close> and \<^verbatim>\<open>strtoul\<close> are modelled as the
  standard defines them; \<^verbatim>\<open>strtod\<close> is a parameter that returns the value (the bits of the
  double), the number of characters it consumed and whether it set \<^verbatim>\<open>ERANGE\<close>.
\<close>

section \<open>The C library's conversions\<close>

datatype c_errno = ENONE | EINVAL | ERANGE

definition digit_val :: "char \<Rightarrow> nat option" where
  "digit_val c =
     (let n = of_char c in
      if 48 \<le> n \<and> n \<le> 57 then Some (n - 48)
      else if 65 \<le> n \<and> n \<le> 90 then Some (n - 55)
      else if 97 \<le> n \<and> n \<le> 122 then Some (n - 87)
      else None)"

definition digit_in :: "nat \<Rightarrow> char \<Rightarrow> nat option" where
  "digit_in base c = (case digit_val c of Some d \<Rightarrow> if d < base then Some d else None | None \<Rightarrow> None)"

fun strto_digits :: "nat \<Rightarrow> nat \<Rightarrow> string \<Rightarrow> nat \<times> string" where
  "strto_digits base acc [] = (acc, [])"
| "strto_digits base acc (c # s) =
     (case digit_in base c of
        Some d \<Rightarrow> strto_digits base (acc * base + d) s
      | None \<Rightarrow> (acc, c # s))"

text \<open>The base in effect and the digits that follow the prefix.\<close>

definition strto_base :: "nat \<Rightarrow> string \<Rightarrow> nat \<times> string" where
  "strto_base base s =
     (if (base = 0 \<or> base = 16) \<and> length s > 2 \<and> s ! 0 = CHR ''0'' \<and>
         s ! 1 \<in> {CHR ''x'', CHR ''X''} \<and> digit_in 16 (s ! 2) \<noteq> None
      then (16, drop 2 s)
      else if base = 0 then (if s \<noteq> [] \<and> hd s = CHR ''0'' then 8 else 10, s)
      else (base, s))"

text \<open>Sign, magnitude and the rest of the string; \<open>None\<close> when there is nothing to convert.\<close>

definition strto_scan :: "nat \<Rightarrow> string \<Rightarrow> (bool \<times> nat \<times> string) option" where
  "strto_scan base s =
     (let s = dropWhile is_space s;
          neg = (s \<noteq> [] \<and> hd s = CHR ''-'');
          s = (if s \<noteq> [] \<and> hd s \<in> {CHR ''-'', CHR ''+''} then tl s else s)
      in case strto_base base s of
           (b, t) \<Rightarrow>
             if t = [] \<or> digit_in b (hd t) = None then None
             else case strto_digits b 0 t of (v, r) \<Rightarrow> Some (neg, v, r))"

definition LONG_MAX :: int where "LONG_MAX = 2 ^ 63 - 1"
definition LONG_MIN :: int where "LONG_MIN = - (2 ^ 63)"
definition ULONG_MAX :: int where "ULONG_MAX = 2 ^ 64 - 1"

definition base_valid :: "nat \<Rightarrow> bool" where
  "base_valid base \<longleftrightarrow> base = 0 \<or> 2 \<le> base \<and> base \<le> 36"

text \<open>
  The value, the end pointer and \<^verbatim>\<open>errno\<close>. For a base that is not supported the end pointer is
  the start of the string.
\<close>

definition strtol :: "nat \<Rightarrow> string \<Rightarrow> int \<times> string \<times> c_errno" where
  "strtol base s =
     (if \<not> base_valid base then (0, s, EINVAL)
      else case strto_scan base s of
        None \<Rightarrow> (0, s, ENONE)
      | Some (neg, v, r) \<Rightarrow>
          let x = (if neg then - int v else int v) in
          if x > LONG_MAX then (LONG_MAX, r, ERANGE)
          else if x < LONG_MIN then (LONG_MIN, r, ERANGE)
          else (x, r, ENONE))"

definition strtoul :: "nat \<Rightarrow> string \<Rightarrow> int \<times> string \<times> c_errno" where
  "strtoul base s =
     (if \<not> base_valid base then (0, s, EINVAL)
      else case strto_scan base s of
        None \<Rightarrow> (0, s, ENONE)
      | Some (neg, v, r) \<Rightarrow>
          if int v > ULONG_MAX then (ULONG_MAX, r, ERANGE)
          else ((if neg then - int v else int v) mod 2 ^ 64, r, ENONE))"

section \<open>The parsers\<close>

datatype stdlib_status =
    S_stdlib_noConversion | S_stdlib_extraneous | S_stdlib_underflow
  | S_stdlib_overflow | S_stdlib_badBase

text \<open>
  The common body of the primitives. \<open>units\<close> says whether the caller passed a pointer for
  the units; the second component of a success is what that pointer is set to.
\<close>

definition parse_body ::
  "(nat \<Rightarrow> string \<Rightarrow> int \<times> string \<times> c_errno) \<Rightarrow> string \<Rightarrow> nat \<Rightarrow> bool \<Rightarrow>
   stdlib_status + int \<times> string" where
  "parse_body strto str base units =
     (let str = dropWhile is_space str in
      case strto base str of
        (value, endp, errno) \<Rightarrow>
          if endp = str then Inl S_stdlib_noConversion
          else if errno = EINVAL then Inl S_stdlib_badBase
          else if errno = ERANGE then Inl S_stdlib_overflow
          else
            let endp = dropWhile is_space endp in
            if endp \<noteq> [] \<and> \<not> units then Inl S_stdlib_extraneous
            else Inr (value, endp))"

definition epicsParseLong :: "string \<Rightarrow> nat \<Rightarrow> bool \<Rightarrow> stdlib_status + int \<times> string" where
  "epicsParseLong = parse_body strtol"

definition epicsParseULong :: "string \<Rightarrow> nat \<Rightarrow> bool \<Rightarrow> stdlib_status + int \<times> string" where
  "epicsParseULong = parse_body strtoul"

definition epicsParseLLong :: "string \<Rightarrow> nat \<Rightarrow> bool \<Rightarrow> stdlib_status + int \<times> string" where
  "epicsParseLLong = parse_body strtol"

definition epicsParseULLong :: "string \<Rightarrow> nat \<Rightarrow> bool \<Rightarrow> stdlib_status + int \<times> string" where
  "epicsParseULLong = parse_body strtoul"

text \<open>A \<^verbatim>\<open>double\<close> is its 64 bits; \<^verbatim>\<open>value == 0\<close> holds of both zeros.\<close>

type_synonym double = "64 word"

definition fp_is_zero :: "double \<Rightarrow> bool" where
  "fp_is_zero d \<longleftrightarrow> d = 0 \<or> d = push_bit 63 1"

type_synonym c_strtod = "string \<Rightarrow> double \<times> nat \<times> bool"

definition epicsParseDouble ::
  "c_strtod \<Rightarrow> string \<Rightarrow> bool \<Rightarrow> stdlib_status + double \<times> string" where
  "epicsParseDouble strtod str units =
     (let str = dropWhile is_space str in
      case strtod str of
        (value, n, erange) \<Rightarrow>
          if n = 0 then Inl S_stdlib_noConversion
          else if erange then
            Inl (if fp_is_zero value then S_stdlib_underflow else S_stdlib_overflow)
          else
            let endp = dropWhile is_space (drop n str) in
            if endp \<noteq> [] \<and> \<not> units then Inl S_stdlib_extraneous
            else Inr (value, endp))"

text \<open>Narrowing: the result of a primitive, checked and cast.\<close>

definition epicsParseInt8 :: "string \<Rightarrow> nat \<Rightarrow> bool \<Rightarrow> stdlib_status + int \<times> string" where
  "epicsParseInt8 str base units =
     (case epicsParseLong str base units of
        Inl e \<Rightarrow> Inl e
      | Inr (value, u) \<Rightarrow>
          if value < - 0x80 \<or> value > 0x7f then Inl S_stdlib_overflow else Inr (value, u))"

definition epicsParseUInt8 :: "string \<Rightarrow> nat \<Rightarrow> bool \<Rightarrow> stdlib_status + int \<times> string" where
  "epicsParseUInt8 str base units =
     (case epicsParseULong str base units of
        Inl e \<Rightarrow> Inl e
      | Inr (value, u) \<Rightarrow>
          if value > 0xff \<and> value \<le> ULONG_MAX - 0xff then Inl S_stdlib_overflow
          else Inr (value mod 2 ^ 8, u))"

definition epicsParseInt16 :: "string \<Rightarrow> nat \<Rightarrow> bool \<Rightarrow> stdlib_status + int \<times> string" where
  "epicsParseInt16 str base units =
     (case epicsParseLong str base units of
        Inl e \<Rightarrow> Inl e
      | Inr (value, u) \<Rightarrow>
          if value < - 0x8000 \<or> value > 0x7fff then Inl S_stdlib_overflow else Inr (value, u))"

definition epicsParseUInt16 :: "string \<Rightarrow> nat \<Rightarrow> bool \<Rightarrow> stdlib_status + int \<times> string" where
  "epicsParseUInt16 str base units =
     (case epicsParseULong str base units of
        Inl e \<Rightarrow> Inl e
      | Inr (value, u) \<Rightarrow>
          if value > 0xffff \<and> value \<le> ULONG_MAX - 0xffff then Inl S_stdlib_overflow
          else Inr (value mod 2 ^ 16, u))"

definition epicsParseInt32 :: "string \<Rightarrow> nat \<Rightarrow> bool \<Rightarrow> stdlib_status + int \<times> string" where
  "epicsParseInt32 str base units =
     (case epicsParseLong str base units of
        Inl e \<Rightarrow> Inl e
      | Inr (value, u) \<Rightarrow>
          if value < - 0x80000000 \<or> value > 0x7fffffff then Inl S_stdlib_overflow
          else Inr (value, u))"

definition epicsParseUInt32 :: "string \<Rightarrow> nat \<Rightarrow> bool \<Rightarrow> stdlib_status + int \<times> string" where
  "epicsParseUInt32 str base units =
     (case epicsParseULong str base units of
        Inl e \<Rightarrow> Inl e
      | Inr (value, u) \<Rightarrow>
          if value > 0xffffffff \<and> value \<le> ULONG_MAX - 0xffffffff then Inl S_stdlib_overflow
          else Inr (value mod 2 ^ 32, u))"

definition epicsParseInt64 :: "string \<Rightarrow> nat \<Rightarrow> bool \<Rightarrow> stdlib_status + int \<times> string" where
  "epicsParseInt64 str base units = epicsParseLong str base units"

definition epicsParseUInt64 :: "string \<Rightarrow> nat \<Rightarrow> bool \<Rightarrow> stdlib_status + int \<times> string" where
  "epicsParseUInt64 str base units = epicsParseULong str base units"

section \<open>Every conversion consumes text\<close>

lemma length_dropWhile_mono: "length (dropWhile P xs) \<le> length xs"
  by (rule length_dropWhile_le)

lemma strto_digits_rest: "length (snd (strto_digits b acc s)) \<le> length s"
  by (induction b acc s rule: strto_digits.induct) (auto split: option.splits)

lemma strto_scan_rest:
  assumes "strto_scan base s = Some (neg, v, r)"
  shows "length r < length s"
proof -
  define t where "t = dropWhile is_space s"
  define u where "u = (if t \<noteq> [] \<and> hd t \<in> {CHR ''-'', CHR ''+''} then tl t else t)"
  obtain b w where w: "strto_base base u = (b, w)" by fastforce
  have len: "length w \<le> length s"
    using w length_dropWhile_mono [of is_space s]
    by (auto simp: strto_base_def u_def t_def split: if_splits)
  have "w \<noteq> []" and hd: "digit_in b (hd w) \<noteq> None" and r: "strto_digits b 0 w = (v, r)"
    using assms
    unfolding strto_scan_def Let_def t_def [symmetric] u_def [symmetric] w
    by (auto split: if_splits prod.splits)
  then obtain c x where c: "w = c # x" by (cases w) auto
  with hd r obtain d where "strto_digits b d x = (v, r)" by auto
  then show ?thesis using strto_digits_rest [of b d x] c len by simp
qed

lemma parse_ulong_rest:
  assumes "epicsParseULong s base units = Inr (v, r)"
  shows "length r < length s"
proof -
  define t where "t = dropWhile is_space s"
  from assms obtain neg v' e where "strto_scan base t = Some (neg, v', e)" "r = dropWhile is_space e"
    by (auto simp: epicsParseULong_def parse_body_def strtoul_def Let_def simp flip: t_def
        split: if_splits option.splits prod.splits)
  then have "length r < length t"
    using strto_scan_rest length_dropWhile_mono [of is_space e] by fastforce
  then show ?thesis using length_dropWhile_mono [of is_space s] by (simp add: t_def)
qed

lemma parse_uint32_rest:
  "epicsParseUInt32 s base units = Inr (v, r) \<Longrightarrow> length r < length s"
  by (auto simp: epicsParseUInt32_def split: sum.splits if_splits dest: parse_ulong_rest)

lemma parse_double_rest:
  assumes "epicsParseDouble strtod s units = Inr (v, r)" "s \<noteq> []"
  shows "length r < length s"
proof -
  define t where "t = dropWhile is_space s"
  from assms(1) obtain n e where n: "strtod t = (v, n, e)" "0 < n" "r = dropWhile is_space (drop n t)"
    by (auto simp: epicsParseDouble_def Let_def simp flip: t_def split: if_splits prod.splits)
  have "length t \<le> length s" by (simp add: t_def length_dropWhile_mono)
  moreover have "length r \<le> length t - n"
    using n(3) length_dropWhile_mono [of is_space "drop n t"] by simp
  ultimately show ?thesis using n(2) assms(2) by (cases s) auto
qed

lemma set_dropWhile_subset: "set (dropWhile P xs) \<subseteq> set xs"
  by (auto dest: set_dropWhileD)

lemma strto_digits_set: "set (snd (strto_digits b acc s)) \<subseteq> set s"
  by (induction b acc s rule: strto_digits.induct) (auto split: option.splits)

lemma strto_scan_set:
  assumes "strto_scan base s = Some (neg, v, r)"
  shows "set r \<subseteq> set s"
proof -
  define t where "t = dropWhile is_space s"
  define u where "u = (if t \<noteq> [] \<and> hd t \<in> {CHR ''-'', CHR ''+''} then tl t else t)"
  obtain b w where w: "strto_base base u = (b, w)" by fastforce
  have "set t \<subseteq> set s" unfolding t_def by (rule set_dropWhile_subset)
  moreover have "set u \<subseteq> set t" unfolding u_def by (cases t) auto
  moreover have "set w \<subseteq> set u"
    using w set_drop_subset [of 2 u] unfolding strto_base_def by (simp split: if_splits)
  moreover have "strto_digits b 0 w = (v, r)"
    using assms
    unfolding strto_scan_def Let_def t_def [symmetric] u_def [symmetric] w
    by (auto split: if_splits prod.splits)
  ultimately show ?thesis using strto_digits_set [of b 0 w] by auto
qed

lemma parse_uint32_set:
  assumes "epicsParseUInt32 s base units = Inr (v, r)"
  shows "set r \<subseteq> set s"
proof -
  define t where "t = dropWhile is_space s"
  from assms obtain v' where "epicsParseULong s base units = Inr (v', r)"
    by (auto simp: epicsParseUInt32_def split: sum.splits if_splits)
  then obtain neg n e where "strto_scan base t = Some (neg, n, e)" "r = dropWhile is_space e"
    by (auto simp: epicsParseULong_def parse_body_def strtoul_def Let_def simp flip: t_def
        split: if_splits option.splits prod.splits)
  then have "set r \<subseteq> set e" "set e \<subseteq> set t"
    using set_dropWhile_subset strto_scan_set by metis+
  moreover have "set t \<subseteq> set s" unfolding t_def by (rule set_dropWhile_subset)
  ultimately show ?thesis by (meson order_trans)
qed

lemma parse_double_set:
  assumes "epicsParseDouble strtod s units = Inr (v, r)"
  shows "set r \<subseteq> set s"
proof -
  define t where "t = dropWhile is_space s"
  from assms obtain n where "r = dropWhile is_space (drop n t)"
    by (auto simp: epicsParseDouble_def Let_def simp flip: t_def split: if_splits prod.splits)
  then show ?thesis
    using set_dropWhile_subset [of is_space "drop n t"] set_dropWhile_subset [of is_space s]
      set_drop_subset [of n t] by (auto simp: t_def)
qed

section \<open>Decimal numbers\<close>

definition dec_digit :: "nat \<Rightarrow> char" where
  "dec_digit d = char_of (48 + d)"

fun dec_digits :: "nat \<Rightarrow> nat list" where
  "dec_digits n = (if n < 10 then [n] else dec_digits (n div 10) @ [n mod 10])"

declare dec_digits.simps [simp del]

definition dec_nat :: "nat \<Rightarrow> string" where
  "dec_nat n = map dec_digit (dec_digits n)"

definition dec_int :: "int \<Rightarrow> string" where
  "dec_int i = (if i < 0 then CHR ''-'' # dec_nat (nat (- i)) else dec_nat (nat i))"

lemma dec_digit_code: "d < 10 \<Longrightarrow> (of_char (dec_digit d) :: nat) = 48 + d"
  by (simp add: dec_digit_def)

lemma dec_digit_val:
  assumes "d < 10"
  shows "digit_in 10 (dec_digit d) = Some d" "\<not> is_space (dec_digit d)"
    "dec_digit d \<noteq> CHR ''-''" "dec_digit d \<noteq> CHR ''+''"
proof -
  note n = dec_digit_code [OF assms]
  show "digit_in 10 (dec_digit d) = Some d" "\<not> is_space (dec_digit d)"
    using assms n by (simp_all add: digit_in_def digit_val_def is_space_def Let_def)
  show "dec_digit d \<noteq> CHR ''-''" "dec_digit d \<noteq> CHR ''+''"
    using n by (auto dest!: arg_cong [where f = "of_char :: char \<Rightarrow> nat"])
qed

lemma dec_digits_ne: "dec_digits n \<noteq> []"
  by (subst dec_digits.simps) simp

lemma dec_digits_less: "d \<in> set (dec_digits n) \<Longrightarrow> d < 10"
proof (induction n rule: dec_digits.induct)
  case (1 n)
  then show ?case by (auto simp: dec_digits.simps [of n] split: if_splits)
qed

lemma dec_digits_value: "foldl (\<lambda>a d. a * 10 + d) 0 (dec_digits n) = n"
proof (induction n rule: dec_digits.induct)
  case (1 n)
  then show ?case by (subst dec_digits.simps) simp
qed

lemma strto_digits_map:
  assumes "s = [] \<or> digit_in 10 (hd s) = None" "\<forall>d \<in> set ds. d < 10"
  shows "strto_digits 10 acc (map dec_digit ds @ s) = (foldl (\<lambda>a d. a * 10 + d) acc ds, s)"
  using assms(2)
proof (induction ds arbitrary: acc)
  case Nil
  then show ?case using assms(1) by (cases s) auto
qed (simp add: dec_digit_val)

lemma strto_base_10: "strto_base 10 s = (10, s)"
  by (simp add: strto_base_def)

lemma strto_scan_dec:
  assumes "s = [] \<or> digit_in 10 (hd s) = None"
  shows "strto_scan 10 (dec_int i @ s) = Some (i < 0, nat \<bar>i\<bar>, s)"
proof -
  define ds where "ds = dec_digits (nat \<bar>i\<bar>)"
  obtain d ds' where ds: "ds = d # ds'" using dec_digits_ne ds_def by (metis list.exhaust)
  have all: "\<forall>d \<in> set ds. d < 10" using dec_digits_less by (auto simp: ds_def)
  then have d: "d < 10" using ds by simp
  have val: "strto_digits 10 0 (map dec_digit ds @ s) = (nat \<bar>i\<bar>, s)"
    using strto_digits_map [OF assms all] dec_digits_value by (simp add: ds_def)
  have str: "dec_int i = (if i < 0 then CHR ''-'' # map dec_digit ds else map dec_digit ds)"
    by (simp add: dec_int_def dec_nat_def ds_def)
  have "\<not> is_space (CHR ''-'')" by (simp add: is_space_def)
  with val d show ?thesis
    unfolding str by (simp add: strto_scan_def Let_def strto_base_10 ds dec_digit_val)
qed

lemma is_space_no_digit: "is_space c \<Longrightarrow> digit_in b c = None"
  by (auto simp: is_space_def digit_in_def digit_val_def Let_def)

lemma drop_spaces: "list_all is_space ws \<Longrightarrow> dropWhile is_space (ws @ s) = dropWhile is_space s"
  by (induction ws) auto

lemma dec_int_first: "dropWhile is_space (dec_int i @ s) = dec_int i @ s" "dec_int i \<noteq> []"
proof -
  obtain d ds where "dec_digits (nat i) = d # ds" "dec_digits (nat (- i)) \<noteq> []" "d < 10"
    using dec_digits_ne dec_digits_less by (metis list.exhaust list.set_intros(1))
  moreover have "\<not> is_space (CHR ''-'')" by (simp add: is_space_def)
  ultimately show "dropWhile is_space (dec_int i @ s) = dec_int i @ s" "dec_int i \<noteq> []"
    by (simp_all add: dec_int_def dec_nat_def dec_digit_val)
qed

lemma parse_long_dec:
  assumes "list_all is_space ws" "list_all is_space ws'"
  shows "epicsParseLong (ws @ dec_int i @ ws') 10 units =
    (if LONG_MIN \<le> i \<and> i \<le> LONG_MAX then Inr (i, []) else Inl S_stdlib_overflow)"
proof -
  have ws': "ws' = [] \<or> digit_in 10 (hd ws') = None" "dropWhile is_space ws' = []"
    using assms(2) is_space_no_digit by (cases ws'; auto simp: list_all_iff)+
  have "dec_int i @ ws' \<noteq> ws'" using dec_int_first(2) by simp
  then show ?thesis
    using strto_scan_dec [OF ws'(1), of i] ws'(2) dec_int_first(1)
    by (auto simp: epicsParseLong_def parse_body_def drop_spaces [OF assms(1)] strtol_def Let_def
        base_valid_def LONG_MIN_def LONG_MAX_def)
qed

section \<open>Property\<close>

text \<open>
  \<^verbatim>\<open>epicsParseInt32\<close> inverts decimal notation. The decimal representation of any integer,
  however large, with white space around it is converted to that integer when it fits 32
  bits, and is reported as an overflow otherwise, whether it overflows \<^verbatim>\<open>long\<close> or only the
  32-bit range; the narrower types have the same property with their own bounds.
\<close>

theorem parse_decimal_roundtrip:
  assumes "list_all is_space ws" "list_all is_space ws'"
  shows "epicsParseInt32 (ws @ dec_int i @ ws') 10 units =
      (if - (2 ^ 31) \<le> i \<and> i < 2 ^ 31 then Inr (i, []) else Inl S_stdlib_overflow) \<and>
    epicsParseInt16 (ws @ dec_int i @ ws') 10 units =
      (if - (2 ^ 15) \<le> i \<and> i < 2 ^ 15 then Inr (i, []) else Inl S_stdlib_overflow) \<and>
    epicsParseInt8 (ws @ dec_int i @ ws') 10 units =
      (if - (2 ^ 7) \<le> i \<and> i < 2 ^ 7 then Inr (i, []) else Inl S_stdlib_overflow)"
  using parse_long_dec [OF assms, of i units]
  by (simp add: epicsParseInt32_def epicsParseInt16_def epicsParseInt8_def LONG_MIN_def LONG_MAX_def)

theorem parse_decimal_roundtrip_witness:
  "epicsParseInt32 ('' '' @ dec_int (- 40000) @ [CHR 0x0A]) 10 False = Inr (- 40000, []) \<and>
   epicsParseInt16 ('' '' @ dec_int (- 40000) @ [CHR 0x0A]) 10 False = Inl S_stdlib_overflow"
  using parse_decimal_roundtrip [of "'' ''" "[CHR 0x0A]" "- 40000" False]
  by (simp add: is_space_def)

end
