(* ===== verification/CalcCode.thy ===== *)
theory CalcCode
  imports EpicsStdlib
begin

text \<open>
  The instruction set of the calculation engine, \<^verbatim>\<open>modules/libcom/src/calc/postfixPvt.h\<close>, and
  its floating point primitives. A double is its bit pattern. Arithmetic and the functions
  of \<^verbatim>\<open>math.h\<close> are the fields of a record, so that every theorem holds for whatever they
  compute.
\<close>

datatype (plugins only: code) rpn_opcode =
    END_EXPRESSION
  | LITERAL_DOUBLE | LITERAL_INT | FETCH_VAL
  | FETCH nat    \<comment> \<open>\<^verbatim>\<open>FETCH_A\<close> to \<^verbatim>\<open>FETCH_L\<close>, by \<open>op - FETCH_A\<close>\<close>
  | STORE nat    \<comment> \<open>\<^verbatim>\<open>STORE_A\<close> to \<^verbatim>\<open>STORE_L\<close>, by \<open>op - STORE_A\<close>\<close>
  | CONST_PI | CONST_D2R | CONST_R2D
  | UNARY_NEG | ADD | SUB | MULT | DIV | MODULO | POWER
  | ABS_VAL | EXP | LOG_10 | LOG_E | MAX_OP | MIN_OP | SQU_RT
  | ACOS | ASIN | ATAN | ATAN2 | COS | COSH | SIN | SINH | TAN | TANH
  | CEIL | FLOOR | FINITE | ISINF | ISNAN | NINT | RANDOM
  | REL_OR | REL_AND | REL_NOT
  | BIT_OR | BIT_AND | BIT_EXCL_OR | BIT_NOT | RIGHT_SHIFT | LEFT_SHIFT
  | NOT_EQ | LESS_THAN | LESS_OR_EQ | EQUAL | GR_OR_EQ | GR_THAN
  | COND_IF | COND_ELSE | COND_END
  | NOT_GENERATED

text \<open>The opcodes from \<^verbatim>\<open>CONST_PI\<close> (28) on, in the order of the enumeration.\<close>

definition rpn_rest :: "rpn_opcode list" where
  "rpn_rest =
     [CONST_PI, CONST_D2R, CONST_R2D,
      UNARY_NEG, ADD, SUB, MULT, DIV, MODULO, POWER,
      ABS_VAL, EXP, LOG_10, LOG_E, MAX_OP, MIN_OP, SQU_RT,
      ACOS, ASIN, ATAN, ATAN2, COS, COSH, SIN, SINH, TAN, TANH,
      CEIL, FLOOR, FINITE, ISINF, ISNAN, NINT, RANDOM,
      REL_OR, REL_AND, REL_NOT,
      BIT_OR, BIT_AND, BIT_EXCL_OR, BIT_NOT, RIGHT_SHIFT, LEFT_SHIFT,
      NOT_EQ, LESS_THAN, LESS_OR_EQ, EQUAL, GR_OR_EQ, GR_THAN,
      COND_IF, COND_ELSE, COND_END, NOT_GENERATED]"

fun rpn_index :: "rpn_opcode list \<Rightarrow> rpn_opcode \<Rightarrow> nat" where
  "rpn_index [] op = 0"
| "rpn_index (x # xs) op = (if x = op then 0 else Suc (rpn_index xs op))"

definition rpn_code :: "rpn_opcode \<Rightarrow> nat" where
  "rpn_code op =
     (case op of
        END_EXPRESSION \<Rightarrow> 0 | LITERAL_DOUBLE \<Rightarrow> 1 | LITERAL_INT \<Rightarrow> 2 | FETCH_VAL \<Rightarrow> 3
      | FETCH k \<Rightarrow> 4 + k | STORE k \<Rightarrow> 16 + k
      | _ \<Rightarrow> 28 + rpn_index rpn_rest op)"

definition rpn_decode :: "nat \<Rightarrow> rpn_opcode option" where
  "rpn_decode n =
     (if n < 4 then Some ([END_EXPRESSION, LITERAL_DOUBLE, LITERAL_INT, FETCH_VAL] ! n)
      else if n < 16 then Some (FETCH (n - 4))
      else if n < 28 then Some (STORE (n - 16))
      else if n < 28 + length rpn_rest then Some (rpn_rest ! (n - 28))
      else None)"

text \<open>Opcodes that occur in code: the arguments of fetches and stores are A to L.\<close>

definition rpn_valid :: "rpn_opcode \<Rightarrow> bool" where
  "rpn_valid op \<longleftrightarrow> (case op of FETCH k \<Rightarrow> k < 12 | STORE k \<Rightarrow> k < 12 | _ \<Rightarrow> True)"

definition fetch_arg :: "rpn_opcode \<Rightarrow> nat option" where
  "fetch_arg op = (case op of FETCH k \<Rightarrow> Some k | _ \<Rightarrow> None)"

definition store_arg :: "rpn_opcode \<Rightarrow> nat option" where
  "store_arg op = (case op of STORE k \<Rightarrow> Some k | _ \<Rightarrow> None)"

text \<open>The opcodes followed by a count of arguments, and the bytes that follow an opcode.\<close>

definition rpn_vararg :: "rpn_opcode \<Rightarrow> bool" where
  "rpn_vararg op \<longleftrightarrow> op = MIN_OP \<or> op = MAX_OP \<or> op = FINITE \<or> op = ISNAN"

definition rpn_extra :: "rpn_opcode \<Rightarrow> nat" where
  "rpn_extra op =
     (if op = LITERAL_DOUBLE then 8 else if op = LITERAL_INT then 4
      else if rpn_vararg op then 1 else 0)"

lemma fetch_store_arg [simp]:
  "fetch_arg op = Some k \<longleftrightarrow> op = FETCH k" "store_arg op = Some k \<longleftrightarrow> op = STORE k"
  by (cases op; simp add: fetch_arg_def store_arg_def; fail)+

lemma rpn_index_nth: "x \<in> set xs \<Longrightarrow> xs ! rpn_index xs x = x \<and> rpn_index xs x < length xs"
  by (induction xs) auto

lemma rpn_rest_all:
  "x \<in> set rpn_rest \<or> (\<exists>k. x = FETCH k \<or> x = STORE k) \<or>
   x \<in> {END_EXPRESSION, LITERAL_DOUBLE, LITERAL_INT, FETCH_VAL}"
  by (cases x) (simp_all add: rpn_rest_def)

lemma rpn_code_rest:
  assumes "x \<in> set rpn_rest"
  shows "rpn_code x = 28 + rpn_index rpn_rest x"
proof -
  have "list_all (\<lambda>x. rpn_code x = 28 + rpn_index rpn_rest x) rpn_rest"
    by (simp add: rpn_rest_def rpn_code_def)
  then show ?thesis using assms by (simp add: list_all_iff)
qed

lemma rpn_decode_code: "rpn_valid op \<Longrightarrow> rpn_decode (rpn_code op) = Some op"
proof -
  assume v: "rpn_valid op"
  consider "op \<in> set rpn_rest" | k where "op = FETCH k \<or> op = STORE k"
    | "op \<in> {END_EXPRESSION, LITERAL_DOUBLE, LITERAL_INT, FETCH_VAL}"
    using rpn_rest_all [of op] by blast
  then show ?thesis
  proof cases
    case 1
    then show ?thesis
      using rpn_index_nth [OF 1] rpn_code_rest [OF 1] by (simp add: rpn_decode_def)
  qed (use v in \<open>auto simp: rpn_code_def rpn_decode_def rpn_valid_def\<close>)
qed

lemma rpn_code_less: "rpn_valid op \<Longrightarrow> rpn_code op < 128"
proof -
  assume v: "rpn_valid op"
  consider "op \<in> set rpn_rest" | k where "op = FETCH k \<or> op = STORE k"
    | "op \<in> {END_EXPRESSION, LITERAL_DOUBLE, LITERAL_INT, FETCH_VAL}"
    using rpn_rest_all [of op] by blast
  then show ?thesis
  proof cases
    case 1
    have "length rpn_rest = 53" by (simp add: rpn_rest_def)
    then show ?thesis
      using rpn_index_nth [OF 1] rpn_code_rest [OF 1] by simp
  qed (use v in \<open>auto simp: rpn_code_def rpn_valid_def\<close>)
qed

section \<open>Floating point\<close>

record fp_ops =
  fp_eq :: "double \<Rightarrow> double \<Rightarrow> bool"
  fp_lt :: "double \<Rightarrow> double \<Rightarrow> bool"
  fp_isnan :: "double \<Rightarrow> bool"
  fp_finite :: "double \<Rightarrow> bool"
  fp_isinf :: "double \<Rightarrow> uint32"          \<comment> \<open>the \<^verbatim>\<open>int\<close> that \<^verbatim>\<open>isinf\<close> returns\<close>
  fp_of_int32 :: "uint32 \<Rightarrow> double"       \<comment> \<open>from the bits of an \<^verbatim>\<open>epicsInt32\<close>\<close>
  fp_to_int32 :: "double \<Rightarrow> uint32"
  fp_to_uint32 :: "double \<Rightarrow> uint32"
  fp_arith :: "rpn_opcode \<Rightarrow> double \<Rightarrow> double \<Rightarrow> double"   \<comment> \<open>\<^verbatim>\<open>+ - * /\<close>, \<^verbatim>\<open>pow\<close>, \<^verbatim>\<open>atan2\<close>\<close>
  fp_math :: "rpn_opcode \<Rightarrow> double \<Rightarrow> double"             \<comment> \<open>the functions of one argument\<close>
  fp_const :: "rpn_opcode \<Rightarrow> double"                      \<comment> \<open>\<open>\<pi>\<close>, \<open>\<pi>/180\<close>, \<open>180/\<pi>\<close>\<close>
  fp_nint_half :: "double \<Rightarrow> double"      \<comment> \<open>\<^verbatim>\<open>top >= 0 ? top + 0.5 : top - 0.5\<close>\<close>
  fp_random :: "uint16 \<Rightarrow> double"         \<comment> \<open>\<^verbatim>\<open>(double) seed / 65535.0\<close>\<close>
  fp_nan :: double

text \<open>\<^verbatim>\<open>memcpy\<close> of integers and doubles, little-endian.\<close>

definition bytes_of :: "nat \<Rightarrow> 'w::len word \<Rightarrow> byte list" where
  "bytes_of n w = map (\<lambda>i. ucast (drop_bit (8 * i) w)) [0..<n]"

fun word_of_bytes :: "byte list \<Rightarrow> 'w::len word" where
  "word_of_bytes [] = 0"
| "word_of_bytes (b # bs) = ucast b + push_bit 8 (word_of_bytes bs)"

lemma length_bytes_of [simp]: "length (bytes_of n w) = n"
  by (simp add: bytes_of_def)

end
