(* ===== verification/CalcPostfix.thy ===== *)
theory CalcPostfix
  imports CalcCode
begin

text \<open>
  The compiler of calculation expressions, \<^verbatim>\<open>postfix()\<close> of
  \<^verbatim>\<open>modules/libcom/src/calc/postfix.c\<close>: an operator-precedence translation of an infix string
  to the bytes of a postfix program. The element stack is modelled without its unused entry
  0: reading that entry, or writing beyond the 80 entries, is undefined behaviour and a
  result of its own. Errors carry the bytes written to the output buffer so far.
\<close>

section \<open>Elements\<close>

datatype element_type =
    OPERAND | LITERAL_OPERAND | STORE_OPERATOR | UNARY_OPERATOR | VARARG_OPERATOR
  | BINARY_OPERATOR | SEPERATOR | CLOSE_PAREN | CONDITIONAL | EXPR_TERMINATOR

record ELEMENT =
  el_name :: string
  in_stack_pri :: int
  in_coming_pri :: int
  runtime_effect :: "8 word"    \<comment> \<open>a \<^verbatim>\<open>signed char\<close>\<close>
  el_type :: element_type
  el_code :: rpn_opcode

definition EL :: "string \<Rightarrow> int \<Rightarrow> int \<Rightarrow> int \<Rightarrow> element_type \<Rightarrow> rpn_opcode \<Rightarrow> ELEMENT" where
  "EL name isp icp eff ty op =
     \<lparr>el_name = name, in_stack_pri = isp, in_coming_pri = icp, runtime_effect = word_of_int eff,
      el_type = ty, el_code = op\<rparr>"

definition operands :: "ELEMENT list" where
  "operands =
     [EL ''!'' 7 8 0 UNARY_OPERATOR REL_NOT,
      EL ''('' 0 8 0 UNARY_OPERATOR NOT_GENERATED,
      EL ''-'' 7 8 0 UNARY_OPERATOR UNARY_NEG,
      EL ''.'' 0 0 1 LITERAL_OPERAND LITERAL_DOUBLE,
      EL ''0'' 0 0 1 LITERAL_OPERAND LITERAL_DOUBLE,
      EL ''0X'' 0 0 1 LITERAL_OPERAND LITERAL_INT,
      EL ''1'' 0 0 1 LITERAL_OPERAND LITERAL_DOUBLE,
      EL ''2'' 0 0 1 LITERAL_OPERAND LITERAL_DOUBLE,
      EL ''3'' 0 0 1 LITERAL_OPERAND LITERAL_DOUBLE,
      EL ''4'' 0 0 1 LITERAL_OPERAND LITERAL_DOUBLE,
      EL ''5'' 0 0 1 LITERAL_OPERAND LITERAL_DOUBLE,
      EL ''6'' 0 0 1 LITERAL_OPERAND LITERAL_DOUBLE,
      EL ''7'' 0 0 1 LITERAL_OPERAND LITERAL_DOUBLE,
      EL ''8'' 0 0 1 LITERAL_OPERAND LITERAL_DOUBLE,
      EL ''9'' 0 0 1 LITERAL_OPERAND LITERAL_DOUBLE,
      EL ''A'' 0 0 1 OPERAND (FETCH 0),
      EL ''ABS'' 7 8 0 UNARY_OPERATOR ABS_VAL,
      EL ''ACOS'' 7 8 0 UNARY_OPERATOR ACOS,
      EL ''ASIN'' 7 8 0 UNARY_OPERATOR ASIN,
      EL ''ATAN'' 7 8 0 UNARY_OPERATOR ATAN,
      EL ''ATAN2'' 7 8 (- 1) UNARY_OPERATOR ATAN2,
      EL ''B'' 0 0 1 OPERAND (FETCH 1),
      EL ''C'' 0 0 1 OPERAND (FETCH 2),
      EL ''CEIL'' 7 8 0 UNARY_OPERATOR CEIL,
      EL ''COS'' 7 8 0 UNARY_OPERATOR COS,
      EL ''COSH'' 7 8 0 UNARY_OPERATOR COSH,
      EL ''D'' 0 0 1 OPERAND (FETCH 3),
      EL ''D2R'' 0 0 1 OPERAND CONST_D2R,
      EL ''E'' 0 0 1 OPERAND (FETCH 4),
      EL ''EXP'' 7 8 0 UNARY_OPERATOR EXP,
      EL ''F'' 0 0 1 OPERAND (FETCH 5),
      EL ''FINITE'' 7 8 0 VARARG_OPERATOR FINITE,
      EL ''FLOOR'' 7 8 0 UNARY_OPERATOR FLOOR,
      EL ''G'' 0 0 1 OPERAND (FETCH 6),
      EL ''H'' 0 0 1 OPERAND (FETCH 7),
      EL ''I'' 0 0 1 OPERAND (FETCH 8),
      EL ''INF'' 0 0 1 LITERAL_OPERAND LITERAL_DOUBLE,
      EL ''ISINF'' 7 8 0 UNARY_OPERATOR ISINF,
      EL ''ISNAN'' 7 8 0 VARARG_OPERATOR ISNAN,
      EL ''J'' 0 0 1 OPERAND (FETCH 9),
      EL ''K'' 0 0 1 OPERAND (FETCH 10),
      EL ''L'' 0 0 1 OPERAND (FETCH 11),
      EL ''LN'' 7 8 0 UNARY_OPERATOR LOG_E,
      EL ''LOG'' 7 8 0 UNARY_OPERATOR LOG_10,
      EL ''LOGE'' 7 8 0 UNARY_OPERATOR LOG_E,
      EL ''MAX'' 7 8 0 VARARG_OPERATOR MAX_OP,
      EL ''MIN'' 7 8 0 VARARG_OPERATOR MIN_OP,
      EL ''NINT'' 7 8 0 UNARY_OPERATOR NINT,
      EL ''NAN'' 0 0 1 LITERAL_OPERAND LITERAL_DOUBLE,
      EL ''NOT'' 7 8 0 UNARY_OPERATOR BIT_NOT,
      EL ''PI'' 0 0 1 OPERAND CONST_PI,
      EL ''R2D'' 0 0 1 OPERAND CONST_R2D,
      EL ''RNDM'' 0 0 1 OPERAND RANDOM,
      EL ''SIN'' 7 8 0 UNARY_OPERATOR SIN,
      EL ''SINH'' 7 8 0 UNARY_OPERATOR SINH,
      EL ''SQR'' 7 8 0 UNARY_OPERATOR SQU_RT,
      EL ''SQRT'' 7 8 0 UNARY_OPERATOR SQU_RT,
      EL ''TAN'' 7 8 0 UNARY_OPERATOR TAN,
      EL ''TANH'' 7 8 0 UNARY_OPERATOR TANH,
      EL ''VAL'' 0 0 1 OPERAND FETCH_VAL,
      EL ''~'' 7 8 0 UNARY_OPERATOR BIT_NOT]"

definition operators :: "ELEMENT list" where
  "operators =
     [EL ''!='' 3 3 (- 1) BINARY_OPERATOR NOT_EQ,
      EL ''#'' 3 3 (- 1) BINARY_OPERATOR NOT_EQ,
      EL ''%'' 5 5 (- 1) BINARY_OPERATOR MODULO,
      EL ''&'' 2 2 (- 1) BINARY_OPERATOR BIT_AND,
      EL ''&&'' 2 2 (- 1) BINARY_OPERATOR REL_AND,
      EL '')'' 0 0 0 CLOSE_PAREN NOT_GENERATED,
      EL ''*'' 5 5 (- 1) BINARY_OPERATOR MULT,
      EL ''**'' 6 6 (- 1) BINARY_OPERATOR POWER,
      EL ''+'' 4 4 (- 1) BINARY_OPERATOR ADD,
      EL '','' 0 0 0 SEPERATOR NOT_GENERATED,
      EL ''-'' 4 4 (- 1) BINARY_OPERATOR SUB,
      EL ''/'' 5 5 (- 1) BINARY_OPERATOR DIV,
      EL '':'' 0 0 (- 1) CONDITIONAL COND_ELSE,
      EL '':='' 0 0 (- 1) STORE_OPERATOR (STORE 0),
      EL '';'' 0 0 0 EXPR_TERMINATOR NOT_GENERATED,
      EL ''<'' 3 3 (- 1) BINARY_OPERATOR LESS_THAN,
      EL ''<<'' 2 2 (- 1) BINARY_OPERATOR LEFT_SHIFT,
      EL ''<='' 3 3 (- 1) BINARY_OPERATOR LESS_OR_EQ,
      EL ''='' 3 3 (- 1) BINARY_OPERATOR EQUAL,
      EL ''=='' 3 3 (- 1) BINARY_OPERATOR EQUAL,
      EL ''>'' 3 3 (- 1) BINARY_OPERATOR GR_THAN,
      EL ''>='' 3 3 (- 1) BINARY_OPERATOR GR_OR_EQ,
      EL ''>>'' 2 2 (- 1) BINARY_OPERATOR RIGHT_SHIFT,
      EL ''?'' 0 0 (- 1) CONDITIONAL COND_IF,
      EL ''AND'' 2 2 (- 1) BINARY_OPERATOR BIT_AND,
      EL ''OR'' 1 1 (- 1) BINARY_OPERATOR BIT_OR,
      EL ''XOR'' 1 1 (- 1) BINARY_OPERATOR BIT_EXCL_OR,
      EL ''^'' 6 6 (- 1) BINARY_OPERATOR POWER,
      EL ''|'' 1 1 (- 1) BINARY_OPERATOR BIT_OR,
      EL ''||'' 1 1 (- 1) BINARY_OPERATOR REL_OR]"

text \<open>
  The next element and the text behind it, searched from the end of the table; \<open>None\<close> at
  the end of the text and when nothing matches. The second component is the text without
  leading white space.
\<close>

definition get_element :: "bool \<Rightarrow> string \<Rightarrow> (ELEMENT \<times> string) option \<times> string" where
  "get_element opnd psrc =
     (let s = dropWhile is_space psrc in
      if s = [] then (None, s)
      else
        (case find (\<lambda>e. epicsStrnCaseCmp s (el_name e) (length (el_name e)) = 0)
                   (rev (if opnd then operands else operators)) of
           None \<Rightarrow> (None, s)
         | Some e \<Rightarrow> (Some (e, drop (length (el_name e)) s), s)))"

section \<open>Results and state\<close>

datatype calc_error =
    CALC_ERR_NONE | CALC_ERR_TOOMANY | CALC_ERR_BAD_LITERAL | CALC_ERR_BAD_ASSIGNMENT
  | CALC_ERR_BAD_SEPERATOR | CALC_ERR_PAREN_NOT_OPEN | CALC_ERR_PAREN_OPEN
  | CALC_ERR_CONDITIONAL | CALC_ERR_INCOMPLETE | CALC_ERR_UNDERFLOW | CALC_ERR_OVERFLOW
  | CALC_ERR_SYNTAX | CALC_ERR_NULL_ARG | CALC_ERR_INTERNAL

datatype pf_undef = ReadsEntry0 | StackOverrun

datatype 'a pf_result = PfOk 'a | PfBad calc_error "byte list" | PfUndef pf_undef

fun pf_bind :: "'a pf_result \<Rightarrow> ('a \<Rightarrow> 'b pf_result) \<Rightarrow> 'b pf_result" where
  "pf_bind (PfOk x) f = f x"
| "pf_bind (PfBad e out) f = PfBad e out"
| "pf_bind (PfUndef u) f = PfUndef u"

record pf_state =
  pf_stack :: "ELEMENT list"   \<comment> \<open>entries 1 to \<open>pstacktop\<close>, top first\<close>
  pf_out :: "byte list"
  runtime_depth :: int
  cond_count :: int
  operand_needed :: bool

definition CALCPERFORM_STACK :: nat where "CALCPERFORM_STACK = 80"

definition op_byte :: "rpn_opcode \<Rightarrow> byte" where
  "op_byte op = of_nat (rpn_code op)"

section \<open>The operator stack\<close>

definition el_paren :: "ELEMENT \<Rightarrow> bool" where
  "el_paren e \<longleftrightarrow> el_name e \<noteq> [] \<and> hd (el_name e) = CHR ''(''"

definition el_bytes :: "ELEMENT \<Rightarrow> byte list" where
  "el_bytes e =
     op_byte (el_code e) # (if el_type e = VARARG_OPERATOR then [1 - runtime_effect e] else [])"

text \<open>Move the top of the stack to the output.\<close>

definition pf_move :: "pf_state \<Rightarrow> pf_state" where
  "pf_move st =
     (case pf_stack st of
        [] \<Rightarrow> st
      | e # es \<Rightarrow> st\<lparr>pf_stack := es, pf_out := pf_out st @ el_bytes e,
                     runtime_depth := runtime_depth st + sint (runtime_effect e)\<rparr>)"

text \<open>Move operators to the output while they satisfy a condition on their priority.\<close>

function pf_move_while :: "(ELEMENT \<Rightarrow> bool) \<Rightarrow> pf_state \<Rightarrow> pf_state" where
  "pf_move_while P st =
     (if pf_stack st \<noteq> [] \<and> P (hd (pf_stack st)) then pf_move_while P (pf_move st) else st)"
  by pat_completeness auto
termination
  by (relation "measure (\<lambda>(P, st). length (pf_stack st))")
    (auto simp: pf_move_def split: list.splits)

declare pf_move_while.simps [simp del]

text \<open>Move operators to the output until an open parenthesis.\<close>

function pf_move_paren :: "calc_error \<Rightarrow> pf_state \<Rightarrow> pf_state pf_result" where
  "pf_move_paren err st =
     (case pf_stack st of
        [] \<Rightarrow> PfUndef ReadsEntry0
      | e # es \<Rightarrow>
          if el_paren e then PfOk st
          else if es = [] then PfBad err (pf_out st)
          else pf_move_paren err (pf_move st))"
  by pat_completeness auto
termination
  by (relation "measure (\<lambda>(err, st). length (pf_stack st))") (auto simp: pf_move_def)

declare pf_move_paren.simps [simp del]

text \<open>Move everything to the output.\<close>

function pf_move_all :: "pf_state \<Rightarrow> pf_state pf_result" where
  "pf_move_all st =
     (case pf_stack st of
        [] \<Rightarrow> PfOk st
      | e # es \<Rightarrow>
          if el_paren e then PfBad CALC_ERR_PAREN_OPEN (pf_out st) else pf_move_all (pf_move st))"
  by pat_completeness auto
termination
  by (relation "measure (\<lambda>st. length (pf_stack st))") (auto simp: pf_move_def)

declare pf_move_all.simps [simp del]

definition pf_push :: "ELEMENT \<Rightarrow> pf_state \<Rightarrow> pf_state pf_result" where
  "pf_push e st =
     (if length (pf_stack st) + 1 < 80 then PfOk (st\<lparr>pf_stack := e # pf_stack st\<rparr>)
      else PfUndef StackOverrun)"

section \<open>The element types\<close>

definition pf_operand :: "ELEMENT \<Rightarrow> pf_state \<Rightarrow> pf_state" where
  "pf_operand pel st =
     st\<lparr>pf_out := pf_out st @ [op_byte (el_code pel)],
        runtime_depth := runtime_depth st + sint (runtime_effect pel), operand_needed := False\<rparr>"

text \<open>\<open>s\<close> is the text from the literal's first character on.\<close>

definition pf_literal ::
  "fp_ops \<Rightarrow> c_strtod \<Rightarrow> ELEMENT \<Rightarrow> string \<Rightarrow> pf_state \<Rightarrow> (pf_state \<times> string) pf_result" where
  "pf_literal fp strtod pel s st =
     (let st = st\<lparr>runtime_depth := runtime_depth st + sint (runtime_effect pel)\<rparr> in
      if el_code pel = LITERAL_DOUBLE then
        (case epicsParseDouble strtod s True of
           Inl _ \<Rightarrow> PfBad CALC_ERR_BAD_LITERAL (pf_out st)
         | Inr (lit_d, rest) \<Rightarrow>
             let lit_i = fp_to_int32 fp lit_d in
             PfOk (st\<lparr>pf_out := pf_out st @
                       (if \<not> fp_eq fp lit_d (fp_of_int32 fp lit_i)
                        then op_byte LITERAL_DOUBLE # bytes_of 8 lit_d
                        else op_byte LITERAL_INT # bytes_of 4 lit_i),
                      operand_needed := False\<rparr>, rest))
      else
        (case epicsParseUInt32 s 0 True of
           Inl _ \<Rightarrow> PfBad CALC_ERR_BAD_LITERAL (pf_out st)
         | Inr (lit_ui, rest) \<Rightarrow>
             PfOk (st\<lparr>pf_out := pf_out st @
                       op_byte LITERAL_INT # bytes_of 4 (word_of_int lit_ui :: uint32),
                      operand_needed := False\<rparr>, rest)))"

definition pf_store :: "ELEMENT \<Rightarrow> pf_state \<Rightarrow> pf_state pf_result" where
  "pf_store pel st =
     (if pf_out st = [] \<or> pf_stack st \<noteq> [] \<or>
         sint (last (pf_out st)) < int (rpn_code (FETCH 0)) \<or>
         sint (last (pf_out st)) > int (rpn_code (FETCH 11))
      then PfBad CALC_ERR_BAD_ASSIGNMENT (pf_out st)
      else
        pf_push (pel\<lparr>el_code := STORE (unat (last (pf_out st)) - rpn_code (FETCH 0))\<rparr>)
          (st\<lparr>pf_out := butlast (pf_out st), runtime_depth := runtime_depth st - 1,
              operand_needed := True\<rparr>))"

definition pf_unary :: "ELEMENT \<Rightarrow> pf_state \<Rightarrow> pf_state pf_result" where
  "pf_unary pel st = pf_push pel (pf_move_while (\<lambda>e. in_stack_pri e \<ge> in_coming_pri pel) st)"

definition pf_binary :: "ELEMENT \<Rightarrow> pf_state \<Rightarrow> pf_state pf_result" where
  "pf_binary pel st =
     pf_push pel ((pf_move_while (\<lambda>e. in_stack_pri e \<ge> in_coming_pri pel) st)
       \<lparr>operand_needed := True\<rparr>)"

definition pf_seperator :: "pf_state \<Rightarrow> pf_state pf_result" where
  "pf_seperator st =
     pf_bind (pf_move_paren CALC_ERR_BAD_SEPERATOR st) (\<lambda>st.
       PfOk (st\<lparr>operand_needed := True,
               pf_stack := (hd (pf_stack st))\<lparr>runtime_effect := runtime_effect (hd (pf_stack st)) - 1\<rparr>
                           # tl (pf_stack st)\<rparr>))"

definition pf_close_paren :: "pf_state \<Rightarrow> pf_state pf_result" where
  "pf_close_paren st =
     pf_bind (pf_move_paren CALC_ERR_PAREN_NOT_OPEN st) (\<lambda>st.
       case pf_stack st of
         p # v # es \<Rightarrow>
           if el_type v = VARARG_OPERATOR then
             (if sint (runtime_effect p) > 0 then PfBad CALC_ERR_INCOMPLETE (pf_out st)
              else PfOk (st\<lparr>pf_stack := v\<lparr>runtime_effect := runtime_effect p\<rparr> # es\<rparr>))
           else PfOk (st\<lparr>pf_stack := v # es\<rparr>)
       | es \<Rightarrow> PfOk (st\<lparr>pf_stack := tl es\<rparr>))"

definition pf_conditional :: "ELEMENT \<Rightarrow> pf_state \<Rightarrow> pf_state pf_result" where
  "pf_conditional pel st =
     (let st = pf_move_while (\<lambda>e. in_stack_pri e > in_coming_pri pel) st;
          st = st\<lparr>pf_out := pf_out st @ [op_byte (el_code pel)],
                 runtime_depth := runtime_depth st + sint (runtime_effect pel),
                 operand_needed := True\<rparr>
      in if hd (el_name pel) = CHR '':'' then
           (if cond_count st - 1 < 0 then PfBad CALC_ERR_CONDITIONAL (pf_out st)
            else pf_push (pel\<lparr>el_code := COND_END, runtime_effect := 0\<rparr>)
                   (st\<lparr>cond_count := cond_count st - 1\<rparr>))
         else PfOk (st\<lparr>cond_count := cond_count st + 1\<rparr>))"

definition pf_terminator :: "pf_state \<Rightarrow> pf_state pf_result" where
  "pf_terminator st =
     pf_bind (pf_move_all st) (\<lambda>st.
       if cond_count st \<noteq> 0 then PfBad CALC_ERR_CONDITIONAL (pf_out st)
       else if runtime_depth st > 1 then PfBad CALC_ERR_TOOMANY (pf_out st)
       else PfOk (st\<lparr>operand_needed := True\<rparr>))"

text \<open>
  The \<^verbatim>\<open>switch\<close>. \<open>s\<close> is the text at the element, \<open>rest\<close> the text behind it; the result has the
  text that follows.
\<close>

definition pf_switch ::
  "fp_ops \<Rightarrow> c_strtod \<Rightarrow> ELEMENT \<Rightarrow> string \<Rightarrow> string \<Rightarrow> pf_state \<Rightarrow> (pf_state \<times> string) pf_result" where
  "pf_switch fp strtod pel s rest st =
     (let go = (\<lambda>r. pf_bind r (\<lambda>st. PfOk (st, rest))) in
      case el_type pel of
        OPERAND \<Rightarrow> PfOk (pf_operand pel st, rest)
      | LITERAL_OPERAND \<Rightarrow> pf_literal fp strtod pel s st
      | STORE_OPERATOR \<Rightarrow> go (pf_store pel st)
      | UNARY_OPERATOR \<Rightarrow> go (pf_unary pel st)
      | VARARG_OPERATOR \<Rightarrow> go (pf_unary pel st)
      | BINARY_OPERATOR \<Rightarrow> go (pf_binary pel st)
      | SEPERATOR \<Rightarrow> go (pf_seperator st)
      | CLOSE_PAREN \<Rightarrow> go (pf_close_paren st)
      | CONDITIONAL \<Rightarrow> go (pf_conditional pel st)
      | EXPR_TERMINATOR \<Rightarrow> go (pf_terminator st))"

text \<open>The checks behind the \<^verbatim>\<open>switch\<close>.\<close>

definition pf_depth_check :: "pf_state \<times> string \<Rightarrow> (pf_state \<times> string) pf_result" where
  "pf_depth_check r =
     (if runtime_depth (fst r) < 0 then PfBad CALC_ERR_UNDERFLOW (pf_out (fst r))
      else if runtime_depth (fst r) \<ge> int CALCPERFORM_STACK
      then PfBad CALC_ERR_OVERFLOW (pf_out (fst r))
      else PfOk r)"

definition pf_element ::
  "fp_ops \<Rightarrow> c_strtod \<Rightarrow> ELEMENT \<Rightarrow> string \<Rightarrow> string \<Rightarrow> pf_state \<Rightarrow> (pf_state \<times> string) pf_result" where
  "pf_element fp strtod pel s rest st =
     pf_bind (pf_switch fp strtod pel s rest st) pf_depth_check"

section \<open>The translation loop\<close>

lemma table_names: "e \<in> set operands \<union> set operators \<Longrightarrow> el_name e \<noteq> []"
  by (auto simp: operands_def operators_def EL_def)

lemma get_element_some:
  assumes "get_element opnd psrc = (Some (e, rest), s)"
  shows "e \<in> set (if opnd then operands else operators) \<and> s \<noteq> [] \<and>
    rest = drop (length (el_name e)) s \<and> length s \<le> length psrc \<and>
    length (el_name e) \<le> length s \<and> length rest < length s"
proof -
  define t where "t = dropWhile is_space psrc"
  let ?tab = "if opnd then operands else operators"
  have *: "t \<noteq> [] \<and> find (\<lambda>e. epicsStrnCaseCmp t (el_name e) (length (el_name e)) = 0) (rev ?tab) =
      Some e \<and> rest = drop (length (el_name e)) t \<and> s = t"
    using assms unfolding get_element_def Let_def t_def [symmetric]
    by (cases "t = []") (auto split: option.splits)
  then have e: "e \<in> set ?tab" "epicsStrnCaseCmp t (el_name e) (length (el_name e)) = 0"
    using find_SomeD by fastforce+
  from e(2) have "length (el_name e) \<le> length t"
    by (simp add: strncasecmp_prefix)
  moreover have "el_name e \<noteq> []" using e(1) table_names by (cases opnd) auto
  ultimately show ?thesis
    using * e(1) length_dropWhile_mono [of is_space psrc] by (simp add: t_def)
qed

lemma get_element_first:
  assumes "get_element opnd psrc = (Some (e, rest), s)"
  shows "char_to_upper (char_int (hd s)) = char_to_upper (char_int (hd (el_name e)))"
    and "set s \<subseteq> set psrc"
proof -
  note ge = get_element_some [OF assms]
  have ne: "el_name e \<noteq> []" using ge table_names by (cases opnd) auto
  have s: "s = dropWhile is_space psrc"
    using assms by (auto simp: get_element_def Let_def split: if_splits option.splits)
  have "epicsStrnCaseCmp s (el_name e) (length (el_name e)) = 0"
    using assms ge find_SomeD unfolding get_element_def Let_def s [symmetric]
    by (fastforce split: option.splits)
  then show "char_to_upper (char_int (hd s)) = char_to_upper (char_int (hd (el_name e)))"
    using ne ge by (cases s; cases "el_name e") (auto simp: Let_def split: if_splits)
  show "set s \<subseteq> set psrc" by (simp add: s set_dropWhile_subset)
qed

lemma colon_upper: "char_to_upper (char_int c) = char_to_upper (char_int (CHR '':'')) \<longleftrightarrow> c = CHR '':''"
proof
  assume "char_to_upper (char_int c) = char_to_upper (char_int (CHR '':''))"
  then have "char_int c = 58"
    by (simp add: char_to_upper_def char_int_def Let_def split: if_splits)
  moreover define n where "n = (of_char c :: nat)"
  moreover have "(of_char c :: int) = int n" unfolding n_def by (simp only: of_nat_of_char)
  moreover have "n < 256" unfolding n_def by (rule of_char_less)
  ultimately have "(of_char c :: nat) = 58"
    unfolding char_int_def Let_def n_def [symmetric] by (simp split: if_splits)
  also have "(58 :: nat) = of_char (CHR '':'')" by simp
  finally show "c = CHR '':''" by (simp only: of_char_eq_iff)
qed simp

lemma pf_bind_Ok: "pf_bind r f = PfOk y \<longleftrightarrow> (\<exists>x. r = PfOk x \<and> f x = PfOk y)"
  by (cases r) auto

lemma pf_element_rest:
  assumes "pf_element fp strtod e s rest st = PfOk (st', r)" "s \<noteq> []" "length rest < length s"
  shows "length r < length s"
proof -
  have "pf_switch fp strtod e s rest st = PfOk (st', r)"
    using assms(1) by (auto simp: pf_element_def pf_bind_Ok pf_depth_check_def split: if_splits)
  then show ?thesis
    using assms(2,3) parse_double_rest [of strtod s True] parse_uint32_rest [of s 0 True]
    by (auto simp: pf_switch_def pf_literal_def pf_bind_Ok Let_def
        split: element_type.splits sum.splits if_splits)
qed

function pf_loop ::
  "fp_ops \<Rightarrow> c_strtod \<Rightarrow> string \<Rightarrow> pf_state \<Rightarrow> (pf_state \<times> string) pf_result" where
  "pf_loop fp strtod psrc st =
     (case get_element (operand_needed st) psrc of
        (None, s) \<Rightarrow> PfOk (st, s)
      | (Some (e, rest), s) \<Rightarrow>
          (case pf_element fp strtod e s rest st of
             PfOk (st', r) \<Rightarrow> pf_loop fp strtod r st'
           | PfBad err out \<Rightarrow> PfBad err out
           | PfUndef u \<Rightarrow> PfUndef u))"
  by pat_completeness auto
termination
  by (relation "measure (\<lambda>(fp, strtod, psrc, st). length psrc)")
    (auto dest!: get_element_some [OF sym] pf_element_rest)

declare pf_loop.simps [simp del]

definition pf_init :: pf_state where
  "pf_init = \<lparr>pf_stack = [], pf_out = [], runtime_depth = 0, cond_count = 0, operand_needed = True\<rparr>"

text \<open>What follows the loop.\<close>

definition pf_finish :: "pf_state \<times> string \<Rightarrow> byte list pf_result" where
  "pf_finish r =
     (if snd r \<noteq> [] then PfBad CALC_ERR_SYNTAX (pf_out (fst r))
      else
        pf_bind (pf_move_all (fst r)) (\<lambda>st.
          let out = pf_out st @ [op_byte END_EXPRESSION] in
          if cond_count st \<noteq> 0 then PfBad CALC_ERR_CONDITIONAL out
          else if operand_needed st \<or> runtime_depth st \<noteq> 1 then PfBad CALC_ERR_INCOMPLETE out
          else PfOk out))"

text \<open>
  \<open>None\<close> is a NULL source; the flags say whether \<open>pout\<close> and \<open>perror\<close> are valid pointers. The
  value 0 is returned with \<open>PfOk\<close>, the value -1 with \<open>PfBad\<close>.
\<close>

definition postfix ::
  "fp_ops \<Rightarrow> c_strtod \<Rightarrow> bool \<Rightarrow> bool \<Rightarrow> string option \<Rightarrow> byte list pf_result" where
  "postfix fp strtod pout perror psrc =
     (case psrc of
        Some (c # s) \<Rightarrow>
          if \<not> pout \<or> \<not> perror then PfBad CALC_ERR_NULL_ARG []
          else pf_bind (pf_loop fp strtod (c # s) pf_init) pf_finish
      | _ \<Rightarrow> PfBad CALC_ERR_NULL_ARG [])"

definition calcErrorStr :: "int \<Rightarrow> string option" where
  "calcErrorStr error =
     (if error < 0 \<or> error > 13 then None
      else Some (
        [''No error'',
         ''Too many results returned'',
         ''Badly formed numeric literal'',
         ''Bad assignment target'',
         ''Comma without enclosing parentheses'',
         ''Close parenthesis found without open'',
         ''Parenthesis still open at end of expression'',
         ''Unbalanced conditional ?: operators'',
         ''Incomplete expression, operand missing'',
         ''Not enough operands provided'',
         ''Runtime stack overflow'',
         ''Syntax error, unknown operator/operand'',
         ''NULL or empty input argument to postfix()'',
         ''Internal error, unknown element type''] ! nat error))"

end
