(* ===== verification/CalcSize.thy ===== *)
theory CalcSize
  imports CalcPostfix
begin

text \<open>
  The output of \<^verbatim>\<open>postfix()\<close> fits a buffer of \<^verbatim>\<open>INFIX_TO_POSTFIX_SIZE\<close> bytes, the estimate that
  \<^verbatim>\<open>postfix.h\<close> calls proven by hand. The proof counts the bytes written and the bytes the
  stacked operators will still write: one element of \<open>n\<close> characters adds at most \<open>7 n / 2\<close> of
  them, when an operand is given two bytes of credit and each open question mark half a byte.
\<close>

definition INFIX_TO_POSTFIX_SIZE :: "nat \<Rightarrow> nat" where
  "INFIX_TO_POSTFIX_SIZE n = n * 21 div 6"

section \<open>Facts about the tables\<close>

definition operand_fact :: "ELEMENT \<Rightarrow> bool" where
  "operand_fact e \<longleftrightarrow>
     (el_type e = OPERAND \<or> el_type e = LITERAL_OPERAND \<or>
      el_type e = UNARY_OPERATOR \<or> el_type e = VARARG_OPERATOR) \<and>
     (el_type e = UNARY_OPERATOR \<or> el_type e = VARARG_OPERATOR \<longrightarrow>
        in_coming_pri e = 8 \<and> (el_paren e \<longrightarrow> in_stack_pri e = 0)) \<and>
     (el_type e = VARARG_OPERATOR \<longrightarrow> length (el_name e) \<ge> 3)"

definition operator_fact :: "ELEMENT \<Rightarrow> bool" where
  "operator_fact e \<longleftrightarrow>
     \<not> el_paren e \<and>
     (el_type e = BINARY_OPERATOR \<and> in_coming_pri e \<ge> 1 \<or>
      el_type e = CONDITIONAL \<and> in_coming_pri e = 0 \<or>
      el_type e = STORE_OPERATOR \<or> el_type e = SEPERATOR \<or> el_type e = CLOSE_PAREN \<or>
      el_type e = EXPR_TERMINATOR)"

lemma operand_facts: "e \<in> set operands \<Longrightarrow> operand_fact e"
proof -
  have "list_all operand_fact operands"
    by (simp add: operands_def EL_def operand_fact_def el_paren_def)
  then show "e \<in> set operands \<Longrightarrow> operand_fact e" by (simp add: list_all_iff)
qed

lemma operator_facts: "e \<in> set operators \<Longrightarrow> operator_fact e"
proof -
  have "list_all operator_fact operators"
    by (simp add: operators_def EL_def operator_fact_def el_paren_def)
  then show "e \<in> set operators \<Longrightarrow> operator_fact e" by (simp add: list_all_iff)
qed

section \<open>The potential\<close>

definition el_pending :: "ELEMENT \<Rightarrow> nat" where
  "el_pending e = (if el_paren e then 0 else length (el_bytes e))"

definition stack_ok :: "ELEMENT list \<Rightarrow> bool" where
  "stack_ok es \<longleftrightarrow> list_all (\<lambda>e. el_paren e \<longrightarrow> in_stack_pri e = 0) es"

definition bytes_due :: "pf_state \<Rightarrow> int" where
  "bytes_due st = int (length (pf_out st)) + int (sum_list (map el_pending (pf_stack st)))"

definition pot :: "pf_state \<Rightarrow> int" where
  "pot st = 2 * bytes_due st + cond_count st - (if operand_needed st then 0 else 4)"

lemma move_due:
  assumes "pf_stack st = e # es" "\<not> el_paren e"
  shows "bytes_due (pf_move st) = bytes_due st" "pf_stack (pf_move st) = es"
    "cond_count (pf_move st) = cond_count st" "operand_needed (pf_move st) = operand_needed st"
  using assms by (simp_all add: pf_move_def bytes_due_def el_pending_def)

lemma out_due: "int (length (pf_out st)) \<le> bytes_due st"
  by (simp add: bytes_due_def)

text \<open>What moving operators to the output does not change.\<close>

definition same_due :: "pf_state \<Rightarrow> pf_state \<Rightarrow> bool" where
  "same_due st st' \<longleftrightarrow>
     bytes_due st' = bytes_due st \<and> cond_count st' = cond_count st \<and>
     operand_needed st' = operand_needed st \<and> (stack_ok (pf_stack st) \<longrightarrow> stack_ok (pf_stack st'))"

lemma same_due_refl: "same_due st st"
  by (simp add: same_due_def)

lemma same_due_move:
  "pf_stack st = e # es \<Longrightarrow> \<not> el_paren e \<Longrightarrow> same_due (pf_move st) st' \<Longrightarrow> same_due st st'"
  by (auto simp: same_due_def move_due stack_ok_def)

lemma move_while_due:
  "stack_ok (pf_stack st) \<Longrightarrow> (\<And>e. P e \<Longrightarrow> in_stack_pri e > 0) \<Longrightarrow>
   same_due st (pf_move_while P st)"
proof (induction P st rule: pf_move_while.induct)
  case (1 P st)
  show ?case
  proof (cases "pf_stack st \<noteq> [] \<and> P (hd (pf_stack st))")
    case True
    then obtain e es where e: "pf_stack st = e # es" "P e" by (cases "pf_stack st") auto
    then have "\<not> el_paren e" using 1(2,3) by (fastforce simp: stack_ok_def)
    moreover have "stack_ok (pf_stack (pf_move st))"
      using 1(2) e \<open>\<not> el_paren e\<close> by (simp add: move_due stack_ok_def)
    ultimately show ?thesis
      using 1 True e by (subst pf_move_while.simps) (auto intro: same_due_move)
  next
    case False
    then show ?thesis by (subst pf_move_while.simps) (auto simp: same_due_refl)
  qed
qed

lemma move_paren_due:
  "pf_move_paren err st = PfOk st' \<Longrightarrow>
   same_due st st' \<and> (\<exists>e es. pf_stack st' = e # es \<and> el_paren e)"
  "pf_move_paren err st = PfBad err' out \<Longrightarrow> int (length out) \<le> bytes_due st"
proof (induction err st rule: pf_move_paren.induct)
  case (1 err st)
  {
    case 1
    then show ?case using "1.IH"(1)
      by (subst (asm) pf_move_paren.simps)
        (auto split: list.splits if_splits intro: same_due_refl same_due_move)
  next
    case 2
    then show ?case using "1.IH"(2)
      by (subst (asm) pf_move_paren.simps)
        (auto simp: out_due move_due split: list.splits if_splits)
  }
qed

lemma move_all_due:
  "pf_move_all st = PfOk st' \<Longrightarrow> same_due st st' \<and> pf_stack st' = []"
  "pf_move_all st = PfBad err out \<Longrightarrow> int (length out) \<le> bytes_due st"
proof (induction st rule: pf_move_all.induct)
  case (1 st)
  {
    case 1
    then show ?case using "1.IH"(1)
      by (subst (asm) pf_move_all.simps)
        (auto split: list.splits if_splits intro: same_due_refl same_due_move)
  next
    case 2
    then show ?case using "1.IH"(2)
      by (subst (asm) pf_move_all.simps)
        (auto simp: out_due move_due split: list.splits if_splits)
  }
qed

section \<open>One element\<close>

text \<open>
  What an element of \<open>n\<close> characters does in the worst case. The bytes reported with an error
  have been written at that point.
\<close>

definition element_cost :: "pf_state \<Rightarrow> int \<Rightarrow> pf_state pf_result \<Rightarrow> bool" where
  "element_cost st n r \<longleftrightarrow>
     (case r of
        PfOk st' \<Rightarrow> stack_ok (pf_stack st') \<and> 0 \<le> cond_count st' \<and> pot st' \<le> pot st + 7 * n
      | PfBad err out \<Rightarrow> int (length out) \<le> bytes_due st + 1
      | PfUndef u \<Rightarrow> True)"

lemma el_bytes_length: "length (el_bytes e) \<le> 2"
  "el_type e \<noteq> VARARG_OPERATOR \<Longrightarrow> length (el_bytes e) = 1"
  by (simp_all add: el_bytes_def)

lemma pending_le: "el_pending e \<le> 2" "el_type e \<noteq> VARARG_OPERATOR \<Longrightarrow> el_pending e \<le> 1"
  using el_bytes_length [of e] by (auto simp: el_pending_def)

lemma push_Ok: "pf_push e st = PfOk st' \<Longrightarrow> st' = st\<lparr>pf_stack := e # pf_stack st\<rparr>"
  by (auto simp: pf_push_def split: if_splits)

lemma push_not_Bad: "pf_push e st \<noteq> PfBad err out"
  by (auto simp: pf_push_def)

lemma unary_cost:
  assumes e: "operand_fact e" "el_type e = UNARY_OPERATOR \<or> el_type e = VARARG_OPERATOR"
    and st: "stack_ok (pf_stack st)" "0 \<le> cond_count st" and n: "int (length (el_name e)) \<le> n" "1 \<le> n"
  shows "element_cost st n (pf_unary e st)"
proof -
  let ?st = "pf_move_while (\<lambda>x. in_stack_pri x \<ge> in_coming_pri e) st"
  have due: "same_due st ?st"
    using e by (intro move_while_due st) (auto simp: operand_fact_def)
  have "el_pending e \<le> 2" "el_type e \<noteq> VARARG_OPERATOR \<longrightarrow> el_pending e \<le> 1"
    "el_type e = VARARG_OPERATOR \<longrightarrow> 3 \<le> n"
    using pending_le e n by (auto simp: operand_fact_def)
  with due e st n show ?thesis
    by (auto simp: element_cost_def pf_unary_def pot_def same_due_def bytes_due_def stack_ok_def
        operand_fact_def push_not_Bad split: pf_result.splits dest!: push_Ok)
qed

lemma binary_cost:
  assumes e: "operator_fact e" "el_type e = BINARY_OPERATOR"
    and st: "stack_ok (pf_stack st)" "0 \<le> cond_count st" "\<not> operand_needed st" and n: "1 \<le> n"
  shows "element_cost st n (pf_binary e st)"
proof -
  let ?st = "pf_move_while (\<lambda>x. in_stack_pri x \<ge> in_coming_pri e) st"
  have due: "same_due st ?st"
    using e by (intro move_while_due st) (auto simp: operator_fact_def)
  have "el_pending e \<le> 1" using pending_le e by auto
  with due e st n show ?thesis
    by (auto simp: element_cost_def pf_binary_def pot_def same_due_def bytes_due_def stack_ok_def
        operator_fact_def push_not_Bad split: pf_result.splits dest!: push_Ok)
qed

lemma seperator_cost:
  assumes "stack_ok (pf_stack st)" "0 \<le> cond_count st" "\<not> operand_needed st" "1 \<le> n"
  shows "element_cost st n (pf_seperator st)"
proof (cases "pf_move_paren CALC_ERR_BAD_SEPERATOR st")
  case (PfOk st')
  from move_paren_due(1) [OF PfOk] obtain e es where
    "same_due st st'" "pf_stack st' = e # es" "el_paren e" by blast
  with PfOk assms show ?thesis
    by (auto simp: element_cost_def pf_seperator_def pot_def same_due_def bytes_due_def stack_ok_def
        el_pending_def el_paren_def)
next
  case (PfBad err out)
  with move_paren_due(2) [OF PfBad] show ?thesis
    by (simp add: element_cost_def pf_seperator_def)
qed (simp add: element_cost_def pf_seperator_def)

lemma close_paren_cost:
  assumes "stack_ok (pf_stack st)" "0 \<le> cond_count st" "1 \<le> n"
  shows "element_cost st n (pf_close_paren st)"
proof (cases "pf_move_paren CALC_ERR_PAREN_NOT_OPEN st")
  case (PfOk st')
  from move_paren_due(1) [OF PfOk] obtain e es where *:
    "same_due st st'" "pf_stack st' = e # es" "el_paren e" by blast
  have "int (length (pf_out st')) \<le> bytes_due st" using out_due [of st'] *(1) by (simp add: same_due_def)
  with PfOk * assms show ?thesis
    by (cases es) (auto simp: element_cost_def pf_close_paren_def pot_def same_due_def bytes_due_def
        stack_ok_def el_pending_def el_paren_def el_bytes_def)
next
  case (PfBad err out)
  with move_paren_due(2) [OF PfBad] show ?thesis
    by (simp add: element_cost_def pf_close_paren_def)
qed (simp add: element_cost_def pf_close_paren_def)

lemma terminator_cost:
  assumes "stack_ok (pf_stack st)" "0 \<le> cond_count st" "\<not> operand_needed st" "1 \<le> n"
  shows "element_cost st n (pf_terminator st)"
proof (cases "pf_move_all st")
  case (PfOk st')
  from move_all_due(1) [OF PfOk] have "same_due st st'" "pf_stack st' = []" by auto
  with PfOk assms out_due [of st'] show ?thesis
    by (auto simp: element_cost_def pf_terminator_def pot_def same_due_def bytes_due_def stack_ok_def)
next
  case (PfBad err out)
  with move_all_due(2) [OF PfBad] show ?thesis
    by (simp add: element_cost_def pf_terminator_def)
qed (simp add: element_cost_def pf_terminator_def)

lemma store_cost:
  assumes e: "operator_fact e" "el_type e = STORE_OPERATOR"
    and st: "stack_ok (pf_stack st)" "0 \<le> cond_count st" "\<not> operand_needed st" and n: "1 \<le> n"
  shows "element_cost st n (pf_store e st)"
proof (cases "pf_store e st")
  case (PfOk st')
  then have "pf_out st \<noteq> []" "pf_stack st = []"
    and "st' = st\<lparr>pf_out := butlast (pf_out st), runtime_depth := runtime_depth st - 1,
      operand_needed := True, pf_stack := [e\<lparr>el_code := STORE (unat (last (pf_out st)) - rpn_code (FETCH 0))\<rparr>]\<rparr>"
    by (auto simp: pf_store_def split: if_splits dest!: push_Ok)
  with PfOk e st n show ?thesis
    by (auto simp: element_cost_def pot_def bytes_due_def stack_ok_def el_pending_def el_bytes_def
        operator_fact_def el_paren_def)
next
  case (PfBad err out)
  then have "out = pf_out st" by (auto simp: pf_store_def push_not_Bad split: if_splits)
  then show ?thesis using PfBad out_due [of st] by (simp add: element_cost_def)
qed (simp add: element_cost_def)

lemma conditional_cost:
  assumes e: "operator_fact e" "el_type e = CONDITIONAL"
    and st: "stack_ok (pf_stack st)" "0 \<le> cond_count st" "\<not> operand_needed st" and n: "1 \<le> n"
  shows "element_cost st n (pf_conditional e st)"
proof -
  let ?st = "pf_move_while (\<lambda>x. in_stack_pri x > in_coming_pri e) st"
  have due: "same_due st ?st"
    using e by (intro move_while_due st) (auto simp: operator_fact_def)
  have "\<not> el_paren e" "el_type e \<noteq> VARARG_OPERATOR" using e by (auto simp: operator_fact_def)
  then have "el_pending (e\<lparr>el_code := COND_END, runtime_effect := 0\<rparr>) = 1"
    by (simp add: el_pending_def el_bytes_def el_paren_def)
  with due e st n out_due [of ?st] show ?thesis
    by (auto simp: element_cost_def pf_conditional_def pot_def same_due_def bytes_due_def stack_ok_def
        operator_fact_def push_not_Bad Let_def el_paren_def split: pf_result.splits if_splits dest!: push_Ok)
qed

text \<open>
  What the bound needs of \<^verbatim>\<open>strtod\<close>: it consumes no more than the string has, and a subject
  sequence of one character is a decimal digit, whose value an \<^verbatim>\<open>epicsInt32\<close> holds exactly.
\<close>

definition strtod_ok :: "fp_ops \<Rightarrow> c_strtod \<Rightarrow> bool" where
  "strtod_ok fp strtod \<longleftrightarrow>
     (\<forall>s d n e. strtod s = (d, n, e) \<longrightarrow>
        n \<le> length s \<and> (n = 1 \<longrightarrow> fp_eq fp d (fp_of_int32 fp (fp_to_int32 fp d))))"

lemma literal_cost:
  assumes ok: "strtod_ok fp strtod" and s: "s \<noteq> []" "\<not> is_space (hd s)"
    and st: "stack_ok (pf_stack st)" "0 \<le> cond_count st" "operand_needed st"
  shows "case pf_literal fp strtod e s st of
      PfOk (st', r) \<Rightarrow> element_cost st (int (length s) - int (length r)) (PfOk st')
    | PfBad err out \<Rightarrow> element_cost st n (PfBad err out)
    | PfUndef u \<Rightarrow> True"
proof (cases "el_code e = LITERAL_DOUBLE")
  case True
  show ?thesis
  proof (cases "epicsParseDouble strtod s True")
    case (Inl a)
    with True out_due [of st] show ?thesis
      by (simp add: pf_literal_def Let_def element_cost_def)
  next
    case (Inr b)
    obtain d r where b: "b = (d, r)" by fastforce
    have "dropWhile is_space s = s" using s by (cases s) auto
    then obtain n where n: "strtod s = (d, n, False)" "0 < n" "r = dropWhile is_space (drop n s)"
      using Inr b by (auto simp: epicsParseDouble_def Let_def split: if_splits prod.splits)
    have "length r \<le> length s - n" "n \<le> length s"
      using n length_dropWhile_mono [of is_space "drop n s"] ok by (auto simp: strtod_ok_def)
    moreover have "n = 1 \<longrightarrow> fp_eq fp d (fp_of_int32 fp (fp_to_int32 fp d))"
      using n ok unfolding strtod_ok_def by blast
    ultimately have "int n \<le> int (length s) - int (length r)"
      "\<not> fp_eq fp d (fp_of_int32 fp (fp_to_int32 fp d)) \<longrightarrow> 2 \<le> n" using n(2) by auto
    with True Inr b st n(2) show ?thesis
      by (auto simp: pf_literal_def Let_def element_cost_def pot_def bytes_due_def)
  qed
next
  case False
  show ?thesis
  proof (cases "epicsParseUInt32 s 0 True")
    case (Inl a)
    with False out_due [of st] show ?thesis
      by (simp add: pf_literal_def Let_def element_cost_def)
  next
    case (Inr b)
    obtain v r where b: "b = (v, r)" by fastforce
    with Inr have "length r < length s" using parse_uint32_rest by blast
    with False Inr b st show ?thesis
      by (auto simp: pf_literal_def Let_def element_cost_def pot_def bytes_due_def)
  qed
qed

lemma operand_cost:
  "stack_ok (pf_stack st) \<Longrightarrow> 0 \<le> cond_count st \<Longrightarrow> operand_needed st \<Longrightarrow> 1 \<le> n \<Longrightarrow>
   element_cost st n (PfOk (pf_operand e st))"
  by (simp add: element_cost_def pf_operand_def pot_def bytes_due_def)

lemmas operator_costs = binary_cost seperator_cost close_paren_cost terminator_cost store_cost
  conditional_cost

definition step_cost :: "pf_state \<Rightarrow> string \<Rightarrow> (pf_state \<times> string) pf_result \<Rightarrow> bool" where
  "step_cost st s r \<longleftrightarrow>
     (case r of
        PfOk (st', t) \<Rightarrow> element_cost st (int (length s) - int (length t)) (PfOk st')
      | PfBad err out \<Rightarrow> element_cost st 0 (PfBad err out)
      | PfUndef u \<Rightarrow> True)"

lemma step_cost_go:
  "element_cost st (int (length s) - int (length t)) r \<Longrightarrow>
   step_cost st s (pf_bind r (\<lambda>st. PfOk (st, t)))"
  by (cases r) (auto simp: step_cost_def element_cost_def)

lemma switch_cost:
  assumes ok: "strtod_ok fp strtod" and s: "s \<noteq> []" "\<not> is_space (hd s)"
    and e: "e \<in> set (if operand_needed st then operands else operators)"
    and rest: "rest = drop (length (el_name e)) s" "length (el_name e) \<le> length s" "length rest < length s"
    and st: "stack_ok (pf_stack st)" "0 \<le> cond_count st"
  shows "step_cost st s (pf_switch fp strtod e s rest st)"
proof -
  let ?n = "int (length s) - int (length rest)"
  have n: "1 \<le> ?n" "int (length (el_name e)) \<le> ?n" using rest by auto
  show ?thesis
  proof (cases "operand_needed st")
    case True
    then have f: "operand_fact e" using e operand_facts by simp
    then consider "el_type e = OPERAND" | "el_type e = LITERAL_OPERAND"
      | "el_type e = UNARY_OPERATOR \<or> el_type e = VARARG_OPERATOR"
      by (auto simp: operand_fact_def)
    then show ?thesis
    proof cases
      case 1
      with operand_cost [OF st True n(1), of e] show ?thesis
        by (simp add: pf_switch_def step_cost_def)
    next
      case 2
      with literal_cost [OF ok s st True, where e = e and n = 0] show ?thesis
        by (simp add: pf_switch_def step_cost_def split: pf_result.splits)
    next
      case 3
      with unary_cost [OF f 3 st n(2,1)] show ?thesis
        by (auto simp: pf_switch_def intro: step_cost_go)
    qed
  next
    case False
    then have f: "operator_fact e" using e operator_facts by simp
    with operator_costs(1,5,6) [OF f _ st False n(1)] operator_costs(2,4) [OF st False n(1)]
      operator_costs(3) [OF st n(1)]
    show ?thesis
      by (auto simp: pf_switch_def operator_fact_def intro: step_cost_go)
  qed
qed

section \<open>The bound\<close>

lemma loop_bytes:
  assumes "strtod_ok fp strtod" "stack_ok (pf_stack st)" "0 \<le> cond_count st"
    and "pot st \<le> 7 * (int len0 - int (length psrc))" "length psrc \<le> len0"
  shows "case pf_loop fp strtod psrc st of
      PfOk (st', t) \<Rightarrow> stack_ok (pf_stack st') \<and> 0 \<le> cond_count st' \<and>
        pot st' \<le> 7 * (int len0 - int (length t)) \<and> length t \<le> len0
    | PfBad err out \<Rightarrow> 2 * int (length out) \<le> 7 * int len0 + 7
    | PfUndef u \<Rightarrow> True"
  using assms
proof (induction fp strtod psrc st rule: pf_loop.induct)
  case (1 fp strtod psrc st)
  obtain g s where g: "get_element (operand_needed st) psrc = (g, s)" by fastforce
  have s: "s = dropWhile is_space psrc"
    using g by (auto simp: get_element_def Let_def split: if_splits option.splits)
  then have ls: "length s \<le> length psrc" by (simp add: length_dropWhile_mono)
  show ?case
  proof (cases g)
    case None
    with g 1 ls show ?thesis by (subst pf_loop.simps) simp
  next
    case (Some er)
    obtain e rest where er: "er = (e, rest)" by fastforce
    note ge = get_element_some [OF g [unfolded Some er]]
    have "\<not> is_space (hd s)" using s ge by (metis hd_dropWhile)
    with ge 1(2-4) have cost: "step_cost st s (pf_switch fp strtod e s rest st)"
      by (intro switch_cost) auto
    show ?thesis
    proof (cases "pf_element fp strtod e s rest st")
      case (PfOk r)
      obtain st' t where r: "r = (st', t)" by fastforce
      have sw: "pf_switch fp strtod e s rest st = PfOk (st', t)"
        using PfOk r by (auto simp: pf_element_def pf_bind_Ok pf_depth_check_def split: if_splits)
      have lt: "length t < length s" using pf_element_rest [OF PfOk [unfolded r]] ge by blast
      have c: "stack_ok (pf_stack st')" "0 \<le> cond_count st'"
        "pot st' \<le> pot st + 7 * (int (length s) - int (length t))"
        using cost sw by (auto simp: step_cost_def element_cost_def)
      have "pot st' \<le> 7 * (int len0 - int (length t))" "length t \<le> len0"
        using c(3) 1(5,6) ls lt by auto
      with "1.IH" [OF g [symmetric] Some er [symmetric] PfOk r [symmetric] 1(2) c(1,2)]
      have "case pf_loop fp strtod t st' of
          PfOk (st', t) \<Rightarrow> stack_ok (pf_stack st') \<and> 0 \<le> cond_count st' \<and>
            pot st' \<le> 7 * (int len0 - int (length t)) \<and> length t \<le> len0
        | PfBad err out \<Rightarrow> 2 * int (length out) \<le> 7 * int len0 + 7
        | PfUndef u \<Rightarrow> True" by simp
      with Some er r g PfOk show ?thesis
        by (subst pf_loop.simps) simp
    next
      case (PfBad err out)
      have "int (length out) \<le> bytes_due st + 1 \<or>
          (\<exists>st' t. pf_switch fp strtod e s rest st = PfOk (st', t) \<and> out = pf_out st')"
        using PfBad cost
        by (cases "pf_switch fp strtod e s rest st")
          (auto simp: pf_element_def pf_depth_check_def step_cost_def element_cost_def split: if_splits)
      moreover have "2 * bytes_due st \<le> pot st + 4" using 1(4) by (simp add: pot_def)
      moreover have "2 * int (length (pf_out st')) \<le> pot st' + 4" if "0 \<le> cond_count st'" for st'
        using out_due [of st'] that by (simp add: pot_def split: if_splits)
      ultimately have "2 * int (length out) \<le> 7 * int len0 + 7"
        using cost 1(5) ls by (fastforce simp: step_cost_def element_cost_def)
      with g Some er PfBad show ?thesis by (subst pf_loop.simps) simp
    next
      case (PfUndef u)
      with g Some er show ?thesis by (subst pf_loop.simps) simp
    qed
  qed
qed

lemma postfix_bytes:
  assumes "strtod_ok fp strtod"
    and "postfix fp strtod p q (Some src) = PfOk out \<or> postfix fp strtod p q (Some src) = PfBad err out"
  shows "length out \<le> INFIX_TO_POSTFIX_SIZE (length src + 1)"
proof -
  have "2 * int (length out) \<le> 7 * int (length src) + 7"
  proof (cases "src = [] \<or> \<not> p \<or> \<not> q")
    case True
    with assms(2) have "out = []" by (cases src) (auto simp: postfix_def split: if_splits)
    then show ?thesis by simp
  next
    case False
    then have eq: "postfix fp strtod p q (Some src) = pf_bind (pf_loop fp strtod src pf_init) pf_finish"
      by (cases src) (auto simp: postfix_def)
    have init: "stack_ok (pf_stack pf_init)" "0 \<le> cond_count pf_init"
      "pot pf_init \<le> 7 * (int (length src) - int (length src))"
      by (simp_all add: pf_init_def stack_ok_def pot_def bytes_due_def)
    note loop = loop_bytes [OF assms(1) init order_refl]
    show ?thesis
    proof (cases "pf_loop fp strtod src pf_init")
      case (PfOk r)
      obtain st t where r: "r = (st, t)" by fastforce
      have inv: "0 \<le> cond_count st" "pot st \<le> 7 * int (length src)"
        using loop PfOk r by auto
      have due: "2 * bytes_due st \<le> 7 * int (length src) + 4"
        using inv by (simp add: pot_def split: if_splits)
      show ?thesis
      proof (cases "pf_move_all st")
        case (PfOk st')
        with move_all_due(1) [OF PfOk] due out_due [of st] out_due [of st'] eq assms(2)
          \<open>pf_loop fp strtod src pf_init = PfOk r\<close> r
        show ?thesis
          by (auto simp: pf_finish_def Let_def same_due_def split: if_splits)
      next
        case (PfBad err' out')
        with move_all_due(2) [OF PfBad] due out_due [of st] eq assms(2)
          \<open>pf_loop fp strtod src pf_init = PfOk r\<close> r
        show ?thesis by (auto simp: pf_finish_def split: if_splits)
      next
        case (PfUndef u)
        with eq assms(2) \<open>pf_loop fp strtod src pf_init = PfOk r\<close> r due out_due [of st]
        show ?thesis by (auto simp: pf_finish_def split: if_splits)
      qed
    qed (use loop eq assms(2) in auto)
  qed
  then show ?thesis by (simp add: INFIX_TO_POSTFIX_SIZE_def)
qed

section \<open>Property\<close>

text \<open>
  C19: whatever expression is given to \<^verbatim>\<open>postfix()\<close>, valid or not, it never writes more than
  \<^verbatim>\<open>INFIX_TO_POSTFIX_SIZE(strlen + 1)\<close> bytes: neither to return a program nor before it
  reports an error. This holds for every \<^verbatim>\<open>strtod\<close> whose one-character numbers are exact
  32-bit integers.
\<close>

theorem postfix_fits_buffer:
  assumes "strtod_ok fp strtod"
    and "postfix fp strtod p q (Some src) = PfOk out \<or> postfix fp strtod p q (Some src) = PfBad err out"
  shows "length out \<le> INFIX_TO_POSTFIX_SIZE (length src + 1)"
  using assms by (rule postfix_bytes)

text \<open>A floating point unit on integers and a \<^verbatim>\<open>strtod\<close> for single digits, for examples.\<close>

definition sample_fp :: fp_ops where
  "sample_fp =
     \<lparr>fp_eq = (=), fp_lt = (<), fp_isnan = (\<lambda>_. False), fp_finite = (\<lambda>_. True), fp_isinf = (\<lambda>_. 0),
      fp_of_int32 = signed, fp_to_int32 = unsigned, fp_to_uint32 = unsigned,
      fp_arith = (\<lambda>op x y. if op = ADD then x + y else if op = MULT then x * y else x - y),
      fp_math = (\<lambda>op x. - x), fp_const = (\<lambda>_. 3), fp_nint_half = id, fp_random = unsigned,
      fp_nan = 0\<rparr>"

definition sample_strtod :: c_strtod where
  "sample_strtod s =
     (if s \<noteq> [] \<and> is_digit (hd s) then (of_nat (of_char (hd s) - 48), 1, False) else (0, 0, False))"

lemma sample_strtod_ok: "strtod_ok sample_fp sample_strtod"
proof -
  have *: "(of_nat k :: double) = signed (unsigned (of_nat k :: double) :: uint32)" if "k < 10" for k
    using that by (simp add: numeral_eq_Suc less_Suc_eq_0_disj) auto
  show ?thesis
    unfolding strtod_ok_def
  proof (intro allI impI)
    fix s d n e assume s: "sample_strtod s = (d, n, e)"
    show "n \<le> length s \<and>
      (n = 1 \<longrightarrow> fp_eq sample_fp d (fp_of_int32 sample_fp (fp_to_int32 sample_fp d)))"
    proof (cases "s \<noteq> [] \<and> is_digit (hd s)")
      case True
      then have "(of_char (hd s) :: nat) - 48 < 10" by (auto simp: is_digit_def)
      with * [OF this] s True show ?thesis
        by (cases s) (auto simp: sample_strtod_def sample_fp_def)
    qed (use s in \<open>auto simp: sample_strtod_def\<close>)
  qed
qed

theorem postfix_fits_buffer_witness:
  "\<exists>out. postfix sample_fp sample_strtod True True (Some ''A+1'') = PfOk out \<and>
     length out \<le> INFIX_TO_POSTFIX_SIZE (length ''A+1'' + 1)"
proof -
  have "postfix sample_fp sample_strtod True True (Some ''A+1'') = PfOk [4, 2, 1, 0, 0, 0, 32, 0]"
    by code_simp
  with postfix_fits_buffer [OF sample_strtod_ok, of True True "''A+1''" "[4, 2, 1, 0, 0, 0, 32, 0]"]
  show ?thesis by auto
qed

end
