(* ===== verification/CalcPerform.thy ===== *)
theory CalcPerform
  imports CalcPostfix "HOL-Library.Signed_Division"
begin

unbundle bit_operations_syntax

text \<open>
  The evaluator of postfix programs, \<^verbatim>\<open>modules/libcom/src/calc/calcPerform.c\<close>. Its value stack
  is the array of 81 doubles of the C code with the index \<open>ptop\<close>; the array starts with
  arbitrary contents. An access outside the array, reading behind the program, and the
  division trap of \<open>INT_MIN % -1\<close> are faults, which no C behaviour is defined for.
\<close>

section \<open>State\<close>

record calc_state =
  c_stack :: "double list"
  ptop :: int
  parg :: "double list"
  presult :: double
  c_seed :: uint16

datatype calc_fault = OutOfBounds | ReadBehindProgram | DivisionTrap

datatype calc_outcome =
    CNext "byte list" calc_state     \<comment> \<open>continue with this program text\<close>
  | CReturn int calc_state
  | CFault calc_fault

definition cell_ok :: "int \<Rightarrow> bool" where
  "cell_ok i \<longleftrightarrow> 0 \<le> i \<and> i \<le> int CALCPERFORM_STACK"

definition c_top :: "calc_state \<Rightarrow> double" where
  "c_top st = c_stack st ! nat (ptop st)"

text \<open>\<^verbatim>\<open>*++ptop = v\<close>\<close>

definition c_push :: "double \<Rightarrow> byte list \<Rightarrow> calc_state \<Rightarrow> calc_outcome" where
  "c_push v pinst st =
     (if cell_ok (ptop st + 1)
      then CNext pinst (st\<lparr>ptop := ptop st + 1, c_stack := (c_stack st)[nat (ptop st + 1) := v]\<rparr>)
      else CFault OutOfBounds)"

definition fp_bool :: "fp_ops \<Rightarrow> bool \<Rightarrow> double" where
  "fp_bool fp b = fp_of_int32 fp (if b then 1 else 0)"

section \<open>Instructions\<close>

text \<open>Instructions that replace the top of the stack.\<close>

definition un_op :: "fp_ops \<Rightarrow> rpn_opcode \<Rightarrow> (double \<Rightarrow> double) option" where
  "un_op fp op =
     (if op \<in> set [UNARY_NEG, ABS_VAL, EXP, LOG_10, LOG_E, SQU_RT, ACOS, ASIN, ATAN, COS, SIN, TAN,
                  COSH, SINH, TANH, CEIL, FLOOR]
      then Some (fp_math fp op)
      else if op = ISINF then Some (\<lambda>x. fp_of_int32 fp (fp_isinf fp x))
      else if op = NINT then Some (\<lambda>x. fp_of_int32 fp (fp_to_int32 fp (fp_nint_half fp x)))
      else if op = REL_NOT then Some (\<lambda>x. fp_bool fp (fp_is_zero x))
      else if op = BIT_NOT then Some (\<lambda>x. fp_of_int32 fp (NOT (fp_to_uint32 fp x)))
      else None)"

text \<open>
  Instructions that pop one value and replace the next. \<open>x\<close> is the lower value, \<open>top\<close> the
  popped one; the inner \<open>None\<close> is the division trap.
\<close>

definition c_modulo :: "fp_ops \<Rightarrow> double \<Rightarrow> double \<Rightarrow> double option" where
  "c_modulo fp x tp =
     (let itop = sint (fp_to_int32 fp tp); ix = sint (fp_to_int32 fp x) in
      if itop = 0 then Some (fp_nan fp)
      else if ix = - (2 ^ 31) \<and> itop = - 1 then None
      else Some (fp_of_int32 fp (word_of_int (ix smod itop))))"

definition c_bitwise :: "fp_ops \<Rightarrow> rpn_opcode \<Rightarrow> double \<Rightarrow> double \<Rightarrow> double" where
  "c_bitwise fp op x tp =
     (let utop = fp_to_uint32 fp tp; ux = fp_to_uint32 fp x in
      fp_of_int32 fp
        (if op = BIT_OR then ux OR utop
         else if op = BIT_AND then ux AND utop
         else if op = BIT_EXCL_OR then ux XOR utop
         else if op = RIGHT_SHIFT then signed_drop_bit (unat (utop AND 31)) ux
         else push_bit (unat (utop AND 31)) ux))"

definition c_relation :: "fp_ops \<Rightarrow> rpn_opcode \<Rightarrow> double \<Rightarrow> double \<Rightarrow> bool" where
  "c_relation fp op x tp \<longleftrightarrow>
     (if op = REL_OR then \<not> fp_is_zero x \<or> \<not> fp_is_zero tp
      else if op = REL_AND then \<not> fp_is_zero x \<and> \<not> fp_is_zero tp
      else if op = NOT_EQ then \<not> fp_eq fp x tp
      else if op = LESS_THAN then fp_lt fp x tp
      else if op = LESS_OR_EQ then fp_lt fp x tp \<or> fp_eq fp x tp
      else if op = EQUAL then fp_eq fp x tp
      else if op = GR_OR_EQ then fp_lt fp tp x \<or> fp_eq fp x tp
      else fp_lt fp tp x)"

definition bin_op :: "fp_ops \<Rightarrow> rpn_opcode \<Rightarrow> (double \<Rightarrow> double \<Rightarrow> double option) option" where
  "bin_op fp op =
     (if op \<in> set [ADD, SUB, MULT, DIV, POWER] then Some (\<lambda>x tp. Some (fp_arith fp op x tp))
      else if op = ATAN2 then Some (\<lambda>x tp. Some (fp_arith fp op tp x))
      else if op = MODULO then Some (c_modulo fp)
      else if op \<in> set [BIT_OR, BIT_AND, BIT_EXCL_OR, RIGHT_SHIFT, LEFT_SHIFT]
      then Some (\<lambda>x tp. Some (c_bitwise fp op x tp))
      else if op \<in> set [REL_OR, REL_AND, NOT_EQ, LESS_THAN, LESS_OR_EQ, EQUAL, GR_OR_EQ, GR_THAN]
      then Some (\<lambda>x tp. Some (fp_bool fp (c_relation fp op x tp)))
      else None)"

text \<open>
  The loops of \<^verbatim>\<open>MAX\<close> and \<^verbatim>\<open>MIN\<close>, \<^verbatim>\<open>while (--nargs)\<close>: the new \<open>ptop\<close> and stack. \<open>keep\<close>
  says that the popped value replaces the lower one.
\<close>

function c_minmax ::
  "(double \<Rightarrow> double \<Rightarrow> bool) \<Rightarrow> int \<Rightarrow> int \<Rightarrow> double list \<Rightarrow> (int \<times> double list) option" where
  "c_minmax keep nargs p stk =
     (if nargs - 1 = 0 then Some (p, stk)
      else if \<not> (cell_ok p \<and> cell_ok (p - 1)) then None
      else
        let tp = stk ! nat p; x = stk ! nat (p - 1) in
        c_minmax keep (nargs - 1) (p - 1) (if keep x tp then stk[nat (p - 1) := tp] else stk))"
  by pat_completeness auto
termination
  by (relation "measure (\<lambda>(keep, nargs, p, stk). nat (p + 1))") (auto simp: cell_ok_def)

text \<open>The loops of \<^verbatim>\<open>FINITE\<close> and \<^verbatim>\<open>ISNAN\<close>; \<open>f\<close> combines the result so far with a value.\<close>

function c_testall ::
  "(bool \<Rightarrow> double \<Rightarrow> bool) \<Rightarrow> int \<Rightarrow> int \<Rightarrow> double list \<Rightarrow> bool \<Rightarrow> (int \<times> bool) option" where
  "c_testall f nargs p stk tp =
     (if nargs - 1 = 0 then Some (p, tp)
      else if \<not> cell_ok (p - 1) then None
      else c_testall f (nargs - 1) (p - 1) stk (f tp (stk ! nat (p - 1))))"
  by pat_completeness auto
termination
  by (relation "measure (\<lambda>(f, nargs, p, stk, tp). nat (p + 1))") (auto simp: cell_ok_def)

declare c_minmax.simps [simp del] c_testall.simps [simp del]

definition c_vararg ::
  "fp_ops \<Rightarrow> rpn_opcode \<Rightarrow> byte list \<Rightarrow> calc_state \<Rightarrow> calc_outcome" where
  "c_vararg fp op pinst st =
     (case pinst of
        [] \<Rightarrow> CFault ReadBehindProgram
      | n # rest \<Rightarrow>
          let nargs = sint n in
          if op = MAX_OP \<or> op = MIN_OP then
            (case c_minmax (\<lambda>x tp. (if op = MAX_OP then fp_lt fp x tp else fp_lt fp tp x) \<or>
                                    fp_isnan fp tp)
                           nargs (ptop st) (c_stack st) of
               None \<Rightarrow> CFault OutOfBounds
             | Some (p, stk) \<Rightarrow> CNext rest (st\<lparr>ptop := p, c_stack := stk\<rparr>))
          else if \<not> cell_ok (ptop st) then CFault OutOfBounds
          else
            (let test = (if op = FINITE then fp_finite fp else fp_isnan fp) in
             case c_testall (\<lambda>t x. if op = FINITE then t \<and> test x else t \<or> test x)
                    nargs (ptop st) (c_stack st) (test (c_top st)) of
               None \<Rightarrow> CFault OutOfBounds
             | Some (p, b) \<Rightarrow>
                 CNext rest (st\<lparr>ptop := p, c_stack := (c_stack st)[nat p := fp_bool fp b]\<rparr>)))"

text \<open>
  \<^verbatim>\<open>cond_search\<close>: the program behind the matching operator; \<open>Some None\<close> when the end of the
  expression is reached (the function returns 1), \<open>None\<close> when there is no end.
\<close>

function cond_search :: "rpn_opcode \<Rightarrow> int \<Rightarrow> byte list \<Rightarrow> byte list option option" where
  "cond_search mtch cnt [] = None"
| "cond_search mtch cnt (b # pinst) =
     (let op = rpn_decode (unat b) in
      if op = Some END_EXPRESSION then Some None
      else if op = Some mtch \<and> cnt - 1 = 0 then Some (Some pinst)
      else
        let cnt = (if op = Some mtch then cnt - 1 else cnt);
            cnt = (if op = Some COND_IF then cnt + 1 else cnt) in
        cond_search mtch cnt (drop (case op of Some o' \<Rightarrow> rpn_extra o' | None \<Rightarrow> 0) pinst))"
  by pat_completeness auto
termination
  by (relation "measure (\<lambda>(mtch, cnt, pinst). length pinst)") auto

definition c_jump :: "rpn_opcode \<Rightarrow> byte list \<Rightarrow> calc_state \<Rightarrow> calc_outcome" where
  "c_jump mtch pinst st =
     (case cond_search mtch 1 pinst of
        None \<Rightarrow> CFault ReadBehindProgram
      | Some None \<Rightarrow> CReturn (- 1) st
      | Some (Some rest) \<Rightarrow> CNext rest st)"

definition calcRandom :: "uint16 \<Rightarrow> uint16" where
  "calcRandom sd = sd * (191 * 8 + 5) + 0x3141"

section \<open>The evaluation loop\<close>

text \<open>One round for an opcode other than \<^verbatim>\<open>END_EXPRESSION\<close>; \<open>pinst\<close> is the text behind it.\<close>

definition c_operand :: "fp_ops \<Rightarrow> rpn_opcode \<Rightarrow> byte list \<Rightarrow> calc_state \<Rightarrow> calc_outcome option" where
  "c_operand fp op pinst st =
     (if op = LITERAL_DOUBLE then
        Some (if length pinst < 8 then CFault ReadBehindProgram
              else c_push (word_of_bytes (take 8 pinst)) (drop 8 pinst) st)
      else if op = LITERAL_INT then
        Some (if length pinst < 4 then CFault ReadBehindProgram
              else c_push (fp_of_int32 fp (word_of_bytes (take 4 pinst))) (drop 4 pinst) st)
      else if op = FETCH_VAL then Some (c_push (presult st) pinst st)
      else if op = CONST_PI \<or> op = CONST_D2R \<or> op = CONST_R2D
      then Some (c_push (fp_const fp op) pinst st)
      else if op = RANDOM then
        (let sd = calcRandom (c_seed st) in
         Some (c_push (fp_random fp sd) pinst (st\<lparr>c_seed := sd\<rparr>)))
      else
        (case fetch_arg op of
           Some k \<Rightarrow> Some (c_push (parg st ! k) pinst st)
         | None \<Rightarrow> None))"

definition c_store :: "nat \<Rightarrow> byte list \<Rightarrow> calc_state \<Rightarrow> calc_outcome" where
  "c_store k pinst st =
     (if cell_ok (ptop st)
      then CNext pinst (st\<lparr>parg := (parg st)[k := c_top st], ptop := ptop st - 1\<rparr>)
      else CFault OutOfBounds)"

definition c_unary :: "(double \<Rightarrow> double) \<Rightarrow> byte list \<Rightarrow> calc_state \<Rightarrow> calc_outcome" where
  "c_unary f pinst st =
     (if cell_ok (ptop st)
      then CNext pinst (st\<lparr>c_stack := (c_stack st)[nat (ptop st) := f (c_top st)]\<rparr>)
      else CFault OutOfBounds)"

definition c_binary ::
  "(double \<Rightarrow> double \<Rightarrow> double option) \<Rightarrow> byte list \<Rightarrow> calc_state \<Rightarrow> calc_outcome" where
  "c_binary f pinst st =
     (if cell_ok (ptop st) \<and> cell_ok (ptop st - 1)
      then (case f (c_stack st ! nat (ptop st - 1)) (c_top st) of
              None \<Rightarrow> CFault DivisionTrap
            | Some v \<Rightarrow> CNext pinst (st\<lparr>ptop := ptop st - 1,
                                       c_stack := (c_stack st)[nat (ptop st - 1) := v]\<rparr>))
      else CFault OutOfBounds)"

definition c_control :: "rpn_opcode \<Rightarrow> byte list \<Rightarrow> calc_state \<Rightarrow> calc_outcome" where
  "c_control op pinst st =
     (if op = COND_IF then
        (if \<not> cell_ok (ptop st) then CFault OutOfBounds
         else
           let st' = st\<lparr>ptop := ptop st - 1\<rparr> in
           if fp_is_zero (c_top st) then c_jump COND_ELSE pinst st' else CNext pinst st')
      else if op = COND_ELSE then c_jump COND_END pinst st
      else if op = COND_END then CNext pinst st
      else CReturn (- 1) st)"

definition c_execute :: "fp_ops \<Rightarrow> rpn_opcode \<Rightarrow> byte list \<Rightarrow> calc_state \<Rightarrow> calc_outcome" where
  "c_execute fp op pinst st =
     (case c_operand fp op pinst st of
        Some r \<Rightarrow> r
      | None \<Rightarrow>
          (case store_arg op of
             Some k \<Rightarrow> c_store k pinst st
           | None \<Rightarrow>
               if rpn_vararg op then c_vararg fp op pinst st
               else
                 (case un_op fp op of
                    Some f \<Rightarrow> c_unary f pinst st
                  | None \<Rightarrow>
                      (case bin_op fp op of
                         Some f \<Rightarrow> c_binary f pinst st
                       | None \<Rightarrow> c_control op pinst st))))"

lemma cond_search_rest: "cond_search m c pinst = Some (Some r) \<Longrightarrow> length r < length pinst"
proof (induction "length pinst" arbitrary: c pinst rule: less_induct)
  case less
  show ?case
  proof (cases pinst)
    case (Cons b bs)
    have "length r < length bs" if "cond_search m c' (drop k bs) = Some (Some r)" for c' k
    proof -
      have "length (drop k bs) < length pinst" using Cons by simp
      from less.hyps [OF this that] show ?thesis by simp
    qed
    with less.prems Cons show ?thesis
      by (fastforce simp: Let_def split: if_splits)
  qed (use less.prems in simp)
qed

lemma c_push_rest: "c_push v pinst st = CNext r st' \<Longrightarrow> r = pinst"
  by (simp add: c_push_def split: if_splits)

lemma c_operand_rest: "c_operand fp op pinst st = Some (CNext r st') \<Longrightarrow> length r \<le> length pinst"
  by (auto simp: c_operand_def Let_def split: if_splits option.splits dest!: c_push_rest)

lemma c_jump_rest: "c_jump m pinst st = CNext r st' \<Longrightarrow> length r \<le> length pinst"
  by (auto simp: c_jump_def split: option.splits dest: cond_search_rest)

lemma c_execute_rest:
  assumes "c_execute fp op pinst st = CNext r st'"
  shows "length r \<le> length pinst"
proof (cases "c_operand fp op pinst st")
  case None
  with assms show ?thesis
    by (auto simp: c_execute_def c_store_def c_vararg_def c_unary_def c_binary_def c_control_def
        Let_def split: if_splits option.splits list.splits dest!: c_jump_rest)
next
  case (Some r)
  with assms show ?thesis by (auto simp: c_execute_def dest!: c_operand_rest)
qed

function calc_run :: "fp_ops \<Rightarrow> byte list \<Rightarrow> calc_state \<Rightarrow> calc_outcome" where
  "calc_run fp pinst st =
     (case pinst of
        [] \<Rightarrow> CFault ReadBehindProgram
      | b # rest \<Rightarrow>
          (case rpn_decode (unat b) of
             None \<Rightarrow> CReturn (- 1) st
           | Some op \<Rightarrow>
               if op = END_EXPRESSION then
                 (if ptop st \<noteq> 1 then CReturn (- 1) st
                  else CReturn 0 (st\<lparr>presult := c_top st\<rparr>))
               else
                 (case c_execute fp op rest st of
                    CNext pinst' st' \<Rightarrow> calc_run fp pinst' st'
                  | r \<Rightarrow> r)))"
  by pat_completeness auto
termination
  by (relation "measure (\<lambda>(fp, pinst, st). length pinst)")
    (auto dest!: c_execute_rest)

declare calc_run.simps [simp del]

text \<open>
  \<open>junk\<close> is what the stack array holds at the start. The outcome has the return value, the
  arguments and the result variable.
\<close>

definition calcPerform ::
  "fp_ops \<Rightarrow> double list \<Rightarrow> uint16 \<Rightarrow> double list \<Rightarrow> double \<Rightarrow> byte list \<Rightarrow> calc_outcome" where
  "calcPerform fp junk sd args res pinst =
     calc_run fp pinst \<lparr>c_stack = junk, ptop = 0, parg = args, presult = res, c_seed = sd\<rparr>"

text \<open>The input and the stored arguments of a program, as bit masks.\<close>

function calc_usage :: "byte list \<Rightarrow> uint32 \<Rightarrow> uint32 \<Rightarrow> (uint32 \<times> uint32) option" where
  "calc_usage [] inputs stores = None"
| "calc_usage (b # pinst) inputs stores =
     (case rpn_decode (unat b) of
        None \<Rightarrow> calc_usage pinst inputs stores
      | Some op \<Rightarrow>
          if op = END_EXPRESSION then Some (inputs, stores)
          else
            let inputs = (case fetch_arg op of
                            Some k \<Rightarrow> inputs OR (push_bit k 1 AND NOT stores) | None \<Rightarrow> inputs);
                stores = (case store_arg op of
                            Some k \<Rightarrow> stores OR push_bit k 1 | None \<Rightarrow> stores)
            in calc_usage (drop (rpn_extra op) pinst) inputs stores)"
  by pat_completeness auto
termination
  by (relation "measure (\<lambda>(pinst, inputs, stores). length pinst)") auto

definition calcArgUsage :: "byte list \<Rightarrow> (uint32 \<times> uint32) option" where
  "calcArgUsage pinst = calc_usage pinst 0 0"

end
