(* ===== verification/CalcSafe.thy ===== *)
theory CalcSafe
  imports CalcSize CalcPerform
begin

text \<open>
  Programs that \<^verbatim>\<open>postfix()\<close> accepts from expressions without a colon run within the value
  stack of \<^verbatim>\<open>calcPerform()\<close>. The depth that the compiler tracks is the depth of the running
  program; it is only checked after each element, but within an element it only shrinks.
  Two compiler errors that conditional expressions and literals provoke are shown as well.
\<close>

section \<open>Programs with a known stack depth\<close>

definition push_op :: "rpn_opcode \<Rightarrow> bool" where
  "push_op op \<longleftrightarrow> op \<in> set [FETCH_VAL, CONST_PI, CONST_D2R, CONST_R2D, RANDOM] \<or> (\<exists>k < 12. op = FETCH k)"

definition is_un_op :: "rpn_opcode \<Rightarrow> bool" where
  "is_un_op op \<longleftrightarrow> op \<in> set [UNARY_NEG, ABS_VAL, EXP, LOG_10, LOG_E, SQU_RT, ACOS, ASIN, ATAN, COS, SIN,
     TAN, COSH, SINH, TANH, CEIL, FLOOR, ISINF, NINT, REL_NOT, BIT_NOT]"

definition is_bin_op :: "rpn_opcode \<Rightarrow> bool" where
  "is_bin_op op \<longleftrightarrow> op \<in> set [ADD, SUB, MULT, DIV, POWER, ATAN2, MODULO, BIT_OR, BIT_AND, BIT_EXCL_OR,
     RIGHT_SHIFT, LEFT_SHIFT, REL_OR, REL_AND, NOT_EQ, LESS_THAN, LESS_OR_EQ, EQUAL, GR_OR_EQ, GR_THAN]"

text \<open>\<open>safe_instr d bs d'\<close>: the instruction \<open>bs\<close> takes the depth from \<open>d\<close> to \<open>d'\<close> inside the array.\<close>

inductive safe_instr :: "int \<Rightarrow> byte list \<Rightarrow> int \<Rightarrow> bool" where
  push: "push_op op \<Longrightarrow> 0 \<le> d \<Longrightarrow> d < 80 \<Longrightarrow> safe_instr d [op_byte op] (d + 1)"
| lit_double: "length bs = 8 \<Longrightarrow> 0 \<le> d \<Longrightarrow> d < 80 \<Longrightarrow> safe_instr d (op_byte LITERAL_DOUBLE # bs) (d + 1)"
| lit_int: "length bs = 4 \<Longrightarrow> 0 \<le> d \<Longrightarrow> d < 80 \<Longrightarrow> safe_instr d (op_byte LITERAL_INT # bs) (d + 1)"
| unary: "is_un_op op \<Longrightarrow> 0 \<le> d \<Longrightarrow> d \<le> 80 \<Longrightarrow> safe_instr d [op_byte op] d"
| binary: "is_bin_op op \<Longrightarrow> 1 \<le> d \<Longrightarrow> d \<le> 80 \<Longrightarrow> safe_instr d [op_byte op] (d - 1)"
| vararg: "rpn_vararg op \<Longrightarrow> 1 \<le> sint n \<Longrightarrow> sint n - 1 \<le> d \<Longrightarrow> d \<le> 80 \<Longrightarrow>
    safe_instr d [op_byte op, n] (d - (sint n - 1))"

inductive safe_code :: "byte list \<Rightarrow> int \<Rightarrow> bool" where
  empty: "safe_code [] 0"
| snoc: "safe_code bs d \<Longrightarrow> safe_instr d i d' \<Longrightarrow> safe_code (bs @ i) d'"

inductive_cases safe_instrE: "safe_instr d bs d'"

definition depth_is :: "int \<Rightarrow> calc_state \<Rightarrow> bool" where
  "depth_is d st \<longleftrightarrow> ptop st = d \<and> length (c_stack st) = 81"

lemma decode_op_byte:
  assumes "rpn_valid op"
  shows "rpn_decode (unat (op_byte op)) = Some op"
proof -
  have "unat (op_byte op) = rpn_code op"
    using rpn_code_less [OF assms] by (simp add: op_byte_def unat_of_nat)
  then show ?thesis using rpn_decode_code [OF assms] by simp
qed

lemma op_class_valid:
  "push_op op \<Longrightarrow> rpn_valid op \<and> op \<noteq> END_EXPRESSION"
  "is_un_op op \<Longrightarrow> rpn_valid op \<and> op \<noteq> END_EXPRESSION"
  "is_bin_op op \<Longrightarrow> rpn_valid op \<and> op \<noteq> END_EXPRESSION"
  "rpn_vararg op \<Longrightarrow> rpn_valid op \<and> op \<noteq> END_EXPRESSION"
  by (auto simp: push_op_def is_un_op_def is_bin_op_def rpn_vararg_def rpn_valid_def)

lemma run_stack_op:
  assumes "rpn_valid op" "op \<noteq> END_EXPRESSION"
  shows "calc_run fp (op_byte op # rest) st =
    (case c_execute fp op rest st of CNext r st' \<Rightarrow> calc_run fp r st' | x \<Rightarrow> x)"
  using assms by (subst calc_run.simps) (simp add: decode_op_byte)

lemma no_arg [simp]:
  "(\<And>k. op \<noteq> FETCH k) \<Longrightarrow> fetch_arg op = None" "(\<And>k. op \<noteq> STORE k) \<Longrightarrow> store_arg op = None"
  by (metis not_None_eq fetch_store_arg)+

lemma execute_push:
  assumes "push_op op" "depth_is d st" "0 \<le> d" "d < 80"
  shows "\<exists>st'. c_execute fp op rest st = CNext rest st' \<and> depth_is (d + 1) st'"
  using assms
  by (auto simp: push_op_def c_execute_def c_operand_def c_push_def depth_is_def cell_ok_def
      CALCPERFORM_STACK_def Let_def fetch_arg_def)

lemma execute_literal:
  assumes "depth_is d st" "0 \<le> d" "d < 80"
  shows "length bs = 8 \<Longrightarrow>
      \<exists>st'. c_execute fp LITERAL_DOUBLE (bs @ rest) st = CNext rest st' \<and> depth_is (d + 1) st'"
    and "length bs = 4 \<Longrightarrow>
      \<exists>st'. c_execute fp LITERAL_INT (bs @ rest) st = CNext rest st' \<and> depth_is (d + 1) st'"
  using assms
  by (auto simp: c_execute_def c_operand_def c_push_def depth_is_def cell_ok_def
      CALCPERFORM_STACK_def)

lemma un_op_exists: "is_un_op op \<Longrightarrow> \<exists>f. un_op fp op = Some f"
  by (auto simp: is_un_op_def un_op_def)

lemma un_op_plain: "is_un_op op \<Longrightarrow> c_operand fp op rest st = None \<and> store_arg op = None \<and> \<not> rpn_vararg op"
  by (auto simp: is_un_op_def c_operand_def rpn_vararg_def)

lemma bin_op_exists: "is_bin_op op \<Longrightarrow> \<exists>f. bin_op fp op = Some f"
  by (auto simp: is_bin_op_def bin_op_def)

lemma bin_op_plain:
  "is_bin_op op \<Longrightarrow> c_operand fp op rest st = None \<and> store_arg op = None \<and> \<not> rpn_vararg op \<and> un_op fp op = None"
  by (auto simp: is_bin_op_def c_operand_def rpn_vararg_def un_op_def)

lemma execute_unary:
  assumes "is_un_op op" "depth_is d st" "0 \<le> d" "d \<le> 80"
  shows "\<exists>st'. c_execute fp op rest st = CNext rest st' \<and> depth_is d st'"
proof -
  obtain f where "un_op fp op = Some f" using un_op_exists [OF assms(1)] by blast
  with un_op_plain [OF assms(1)] assms show ?thesis
    by (simp add: c_execute_def c_unary_def depth_is_def cell_ok_def CALCPERFORM_STACK_def)
qed

lemma execute_binary:
  assumes "is_bin_op op" "depth_is d st" "1 \<le> d" "d \<le> 80"
  shows "c_execute fp op rest st = CFault DivisionTrap \<or>
    (\<exists>st'. c_execute fp op rest st = CNext rest st' \<and> depth_is (d - 1) st')"
proof -
  obtain f where "bin_op fp op = Some f" using bin_op_exists [OF assms(1)] by blast
  with bin_op_plain [OF assms(1)] assms show ?thesis
    by (auto simp: c_execute_def c_binary_def depth_is_def cell_ok_def CALCPERFORM_STACK_def
        split: option.splits)
qed

lemma minmax_safe:
  assumes "1 \<le> n" "n - 1 \<le> p" "p \<le> 80"
  shows "\<exists>p' stk'. c_minmax keep n p stk = Some (p', stk') \<and> p' = p - (n - 1) \<and>
           length stk' = length stk"
  using assms
proof (induction keep n p stk rule: c_minmax.induct)
  case (1 keep n p stk)
  show ?case
  proof (cases "n = 1")
    case False
    with 1 show ?thesis
      by (subst c_minmax.simps) (auto simp: cell_ok_def CALCPERFORM_STACK_def Let_def algebra_simps)
  qed (simp add: c_minmax.simps)
qed

lemma testall_safe:
  assumes "1 \<le> n" "n - 1 \<le> p" "p \<le> 80"
  shows "\<exists>p' b'. c_testall f n p stk b = Some (p', b') \<and> p' = p - (n - 1)"
  using assms
proof (induction f n p stk b rule: c_testall.induct)
  case (1 f n p stk b)
  show ?case
  proof (cases "n = 1")
    case False
    with 1 show ?thesis
      by (subst c_testall.simps) (auto simp: cell_ok_def CALCPERFORM_STACK_def Let_def algebra_simps)
  qed (simp add: c_testall.simps)
qed

lemma execute_vararg:
  assumes "rpn_vararg op" "depth_is d st" "1 \<le> sint n" "sint n - 1 \<le> d" "d \<le> 80"
  shows "\<exists>st'. c_execute fp op (n # rest) st = CNext rest st' \<and> depth_is (d - (sint n - 1)) st'"
proof -
  have "c_operand fp op (n # rest) st = None" "store_arg op = None"
    using assms(1) by (auto simp: rpn_vararg_def c_operand_def)
  then have eq: "c_execute fp op (n # rest) st = c_vararg fp op (n # rest) st"
    using assms(1) by (simp add: c_execute_def)
  have p: "ptop st = d" "0 \<le> d" "length (c_stack st) = 81"
    using assms by (auto simp: depth_is_def)
  show ?thesis
  proof (cases "op = MAX_OP \<or> op = MIN_OP")
    case True
    let ?keep = "\<lambda>x tp. (if op = MAX_OP then fp_lt fp x tp else fp_lt fp tp x) \<or> fp_isnan fp tp"
    from minmax_safe [OF assms(3-5), of ?keep "c_stack st"] True eq p show ?thesis
      by (auto simp: c_vararg_def depth_is_def)
  next
    case False
    let ?test = "if op = FINITE then fp_finite fp else fp_isnan fp"
    let ?f = "\<lambda>t x. if op = FINITE then t \<and> ?test x else t \<or> ?test x"
    obtain p' b where "c_testall ?f (sint n) d (c_stack st) (?test (c_top st)) = Some (p', b)"
        "p' = d - (sint n - 1)"
      using testall_safe [OF assms(3-5), of ?f "c_stack st" "?test (c_top st)"] by (elim exE conjE)
    moreover have "cell_ok (ptop st)"
      using p assms(5) by (simp add: cell_ok_def CALCPERFORM_STACK_def)
    ultimately show ?thesis
      using False p unfolding eq c_vararg_def Let_def by (simp add: depth_is_def)
  qed
qed

lemma run_instr:
  assumes "safe_instr d i d'" "depth_is d st"
  shows "calc_run fp (i @ rest) st = CFault DivisionTrap \<or>
    (\<exists>st'. calc_run fp (i @ rest) st = calc_run fp rest st' \<and> depth_is d' st')"
  using assms(1)
proof cases
  case (push op)
  then show ?thesis
    using execute_push [OF push(3) assms(2), of fp rest] op_class_valid(1) [OF push(3)]
    by (auto simp: run_stack_op)
next
  case (lit_double bs)
  have "rpn_valid LITERAL_DOUBLE" by (simp add: rpn_valid_def)
  then show ?thesis
    using lit_double execute_literal(1) [OF assms(2), of bs fp rest] by (auto simp: run_stack_op)
next
  case (lit_int bs)
  have "rpn_valid LITERAL_INT" by (simp add: rpn_valid_def)
  then show ?thesis
    using lit_int execute_literal(2) [OF assms(2), of bs fp rest] by (auto simp: run_stack_op)
next
  case (unary op)
  then show ?thesis
    using execute_unary [OF unary(3) assms(2), of fp rest] op_class_valid(2) [OF unary(3)]
    by (auto simp: run_stack_op)
next
  case (binary op)
  then show ?thesis
    using execute_binary [OF binary(3) assms(2), of fp rest] op_class_valid(3) [OF binary(3)]
    by (auto simp: run_stack_op)
next
  case (vararg op n)
  then show ?thesis
    using execute_vararg [OF vararg(3) assms(2), of n fp rest] op_class_valid(4) [OF vararg(3)]
    by (auto simp: run_stack_op)
qed

lemma run_safe_code:
  assumes "safe_code bs d" "depth_is 0 st"
  shows "calc_run fp (bs @ rest) st = CFault DivisionTrap \<or>
    (\<exists>st'. calc_run fp (bs @ rest) st = calc_run fp rest st' \<and> depth_is d st')"
  using assms
proof (induction arbitrary: rest rule: safe_code.induct)
  case empty
  then show ?case by auto
next
  case (snoc bs d i d')
  from snoc.IH [OF snoc.prems, of "i @ rest"] show ?case
    using run_instr [OF snoc.hyps(2)] by fastforce
qed

section \<open>The compiler's view\<close>

text \<open>What the elements on the operator stack compile to.\<close>

definition el_safe :: "ELEMENT \<Rightarrow> bool" where
  "el_safe e \<longleftrightarrow> el_paren e \<or>
     (if el_type e = VARARG_OPERATOR then rpn_vararg (el_code e) \<and> sint (runtime_effect e) \<le> 0
      else is_un_op (el_code e) \<and> runtime_effect e = 0 \<or>
           is_bin_op (el_code e) \<and> runtime_effect e = - 1)"

definition operand_safe :: "ELEMENT \<Rightarrow> bool" where
  "operand_safe e \<longleftrightarrow>
     (el_type e = UNARY_OPERATOR \<or> el_type e = VARARG_OPERATOR \<longrightarrow> el_safe e) \<and>
     (el_type e = OPERAND \<longrightarrow> push_op (el_code e)) \<and>
     (el_type e = OPERAND \<or> el_type e = LITERAL_OPERAND \<longrightarrow> runtime_effect e = 1)"

definition operator_safe :: "ELEMENT \<Rightarrow> bool" where
  "operator_safe e \<longleftrightarrow>
     (el_type e = BINARY_OPERATOR \<longrightarrow> el_safe e) \<and>
     (el_type e = STORE_OPERATOR \<longrightarrow> hd (el_name e) = CHR '':'') \<and>
     (el_type e = CONDITIONAL \<longrightarrow> hd (el_name e) = CHR '':'' \<or> hd (el_name e) = CHR ''?'')"

lemma table_safe:
  "e \<in> set operands \<Longrightarrow> operand_safe e" "e \<in> set operators \<Longrightarrow> operator_safe e"
proof -
  have "list_all operand_safe operands"
    by (simp add: operands_def EL_def operand_safe_def el_safe_def el_paren_def rpn_vararg_def
        is_un_op_def is_bin_op_def push_op_def)
  then show "e \<in> set operands \<Longrightarrow> operand_safe e" by (simp add: list_all_iff)
  have "list_all operator_safe operators"
    by (simp add: operators_def EL_def operator_safe_def el_safe_def el_paren_def rpn_vararg_def
        is_un_op_def is_bin_op_def)
  then show "e \<in> set operators \<Longrightarrow> operator_safe e" by (simp add: list_all_iff)
qed

text \<open>
  The invariant while no conditional has been seen. Within an element the depth may already
  have gone below zero, which is detected at the end of the element.
\<close>

definition pf_safe :: "pf_state \<Rightarrow> bool" where
  "pf_safe st \<longleftrightarrow> 0 \<le> cond_count st \<and>
     (cond_count st = 0 \<longrightarrow>
        list_all el_safe (pf_stack st) \<and> stack_ok (pf_stack st) \<and> runtime_depth st \<le> 80 \<and>
        (0 \<le> runtime_depth st \<longrightarrow> safe_code (pf_out st) (runtime_depth st)))"

lemma sint_count:
  assumes "- 80 \<le> sint (e :: byte)" "sint e \<le> 0"
  shows "sint (1 - e) = 1 - sint e"
  using assms by (simp add: sint_word_diff signed_take_bit_int_eq_self)

lemma el_safe_instr:
  assumes "el_safe e" "\<not> el_paren e" "0 \<le> d + sint (runtime_effect e)" "d \<le> 80"
  shows "safe_instr d (el_bytes e) (d + sint (runtime_effect e))" "sint (runtime_effect e) \<le> 0"
proof -
  show le: "sint (runtime_effect e) \<le> 0"
    using assms by (auto simp: el_safe_def split: if_splits)
  show "safe_instr d (el_bytes e) (d + sint (runtime_effect e))"
  proof (cases "el_type e = VARARG_OPERATOR")
    case True
    then have n: "sint (1 - runtime_effect e) = 1 - sint (runtime_effect e)"
      using assms le by (intro sint_count) auto
    have "safe_instr d [op_byte (el_code e), 1 - runtime_effect e]
        (d - (sint (1 - runtime_effect e) - 1))"
      using True assms n le by (intro safe_instr.vararg) (auto simp: el_safe_def)
    then show ?thesis using True n by (simp add: el_bytes_def)
  next
    case False
    then consider "is_un_op (el_code e)" "runtime_effect e = 0"
      | "is_bin_op (el_code e)" "runtime_effect e = - 1"
      using assms by (auto simp: el_safe_def)
    then show ?thesis
    proof cases
      case 1
      with False assms safe_instr.unary [of "el_code e" d] show ?thesis by (simp add: el_bytes_def)
    next
      case 2
      with False assms safe_instr.binary [of "el_code e" d] show ?thesis by (simp add: el_bytes_def)
    qed
  qed
qed

lemma el_effect_le:
  assumes "el_safe e" "\<not> el_paren e"
  shows "sint (runtime_effect e) \<le> 0"
  using assms by (auto simp: el_safe_def split: if_splits)

lemma move_safe:
  assumes "pf_safe st" "pf_stack st = e # es" "cond_count st = 0 \<Longrightarrow> \<not> el_paren e"
  shows "pf_safe (pf_move st)"
proof (cases "cond_count st = 0")
  case True
  with assms have e: "el_safe e" "\<not> el_paren e" by (auto simp: pf_safe_def)
  note le = el_effect_le [OF this]
  have "safe_code (pf_out st @ el_bytes e) (runtime_depth st + sint (runtime_effect e))"
    if "0 \<le> runtime_depth st + sint (runtime_effect e)"
  proof (rule safe_code.snoc)
    show "safe_code (pf_out st) (runtime_depth st)" using assms(1) True le that by (auto simp: pf_safe_def)
    show "safe_instr (runtime_depth st) (el_bytes e) (runtime_depth st + sint (runtime_effect e))"
      using el_safe_instr(1) [OF e that] assms(1) True by (simp add: pf_safe_def)
  qed
  then show ?thesis
    using assms True le by (auto simp: pf_safe_def pf_move_def stack_ok_def)
qed (use assms in \<open>auto simp: pf_safe_def pf_move_def\<close>)

lemma move_while_safe:
  "pf_safe st \<Longrightarrow> (\<And>e. P e \<Longrightarrow> in_stack_pri e > 0) \<Longrightarrow> pf_safe (pf_move_while P st)"
proof (induction P st rule: pf_move_while.induct)
  case (1 P st)
  show ?case
  proof (cases "pf_stack st \<noteq> [] \<and> P (hd (pf_stack st))")
    case True
    then obtain e es where e: "pf_stack st = e # es" "P e" by (cases "pf_stack st") auto
    then have "cond_count st = 0 \<Longrightarrow> \<not> el_paren e"
      using 1(2) 1(3) [OF e(2)] by (auto simp: pf_safe_def stack_ok_def)
    then have "pf_safe (pf_move st)" by (rule move_safe [OF 1(2) e(1)])
    with 1 True show ?thesis by (subst pf_move_while.simps) auto
  next
    case False
    then show ?thesis using 1(2) by (subst pf_move_while.simps) auto
  qed
qed

lemma move_paren_safe:
  "pf_move_paren err st = PfOk st' \<Longrightarrow> pf_safe st \<Longrightarrow> pf_safe st'"
proof (induction err st rule: pf_move_paren.induct)
  case (1 err st)
  then show ?case
    by (subst (asm) pf_move_paren.simps) (auto split: list.splits if_splits intro: move_safe)
qed

lemma move_all_safe: "pf_move_all st = PfOk st' \<Longrightarrow> pf_safe st \<Longrightarrow> pf_safe st'"
proof (induction st rule: pf_move_all.induct)
  case (1 st)
  then show ?case
    by (subst (asm) pf_move_all.simps) (auto split: list.splits if_splits intro: move_safe)
qed

section \<open>One element\<close>

definition depth_ok :: "pf_state \<Rightarrow> bool" where
  "depth_ok st \<longleftrightarrow> 0 \<le> runtime_depth st \<and> runtime_depth st < 80"

lemma operand_step:
  assumes "pf_safe st" "depth_ok st" "operand_safe e" "el_type e = OPERAND"
  shows "pf_safe (pf_operand e st)"
proof -
  have "push_op (el_code e)" "runtime_effect e = 1" using assms by (auto simp: operand_safe_def)
  then show ?thesis
    using assms(1,2) safe_code.snoc [OF _ safe_instr.push]
    by (auto simp: pf_safe_def pf_operand_def depth_ok_def)
qed

lemma literal_step:
  assumes "pf_safe st" "depth_ok st" "operand_safe e" "el_type e = LITERAL_OPERAND"
    and "pf_literal fp strtod e s st = PfOk (st', r)"
  shows "pf_safe st'"
proof -
  have eff: "runtime_effect e = 1" using assms(3,4) by (auto simp: operand_safe_def)
  have "\<exists>bs. (length bs = 8 \<and> pf_out st' = pf_out st @ op_byte LITERAL_DOUBLE # bs \<or>
      length bs = 4 \<and> pf_out st' = pf_out st @ op_byte LITERAL_INT # bs) \<and>
      runtime_depth st' = runtime_depth st + 1 \<and> pf_stack st' = pf_stack st \<and>
      cond_count st' = cond_count st"
    using assms(5) eff
    by (auto simp: pf_literal_def Let_def split: if_splits sum.splits prod.splits intro!: exI)
  then show ?thesis
    using assms(1,2) safe_code.snoc [OF _ safe_instr.lit_double] safe_code.snoc [OF _ safe_instr.lit_int]
    by (auto simp: pf_safe_def depth_ok_def)
qed

lemma push_step:
  assumes "pf_push e st = PfOk st'" "pf_safe st" "el_safe e" "el_paren e \<longrightarrow> in_stack_pri e = 0"
  shows "pf_safe st'"
  using push_Ok [OF assms(1)] assms(2-4) by (auto simp: pf_safe_def stack_ok_def)

lemma seperator_step:
  assumes "pf_seperator st = PfOk st'" "pf_safe st"
  shows "pf_safe st'"
proof -
  obtain st1 where st1: "pf_move_paren CALC_ERR_BAD_SEPERATOR st = PfOk st1"
    using assms(1) by (cases "pf_move_paren CALC_ERR_BAD_SEPERATOR st") (auto simp: pf_seperator_def)
  with move_paren_due(1) [OF st1] obtain e es where e: "pf_stack st1 = e # es" "el_paren e" by blast
  have "pf_safe st1" by (rule move_paren_safe [OF st1 assms(2)])
  with assms(1) st1 e show ?thesis
    by (auto simp: pf_seperator_def pf_safe_def el_safe_def el_paren_def stack_ok_def)
qed

lemma close_paren_step:
  assumes "pf_close_paren st = PfOk st'" "pf_safe st"
  shows "pf_safe st'"
proof -
  obtain st1 where st1: "pf_move_paren CALC_ERR_PAREN_NOT_OPEN st = PfOk st1"
    using assms(1) by (cases "pf_move_paren CALC_ERR_PAREN_NOT_OPEN st") (auto simp: pf_close_paren_def)
  with move_paren_due(1) [OF st1] obtain e es where e: "pf_stack st1 = e # es" "el_paren e" by blast
  have "pf_safe st1" by (rule move_paren_safe [OF st1 assms(2)])
  with assms(1) st1 e show ?thesis
    by (cases es) (auto simp: pf_close_paren_def pf_safe_def el_safe_def el_paren_def stack_ok_def
        split: if_splits)
qed

lemma terminator_step:
  assumes "pf_terminator st = PfOk st'" "pf_safe st"
  shows "pf_safe st'"
proof -
  obtain st1 where st1: "pf_move_all st = PfOk st1"
    using assms(1) by (cases "pf_move_all st") (auto simp: pf_terminator_def)
  with move_all_safe [OF st1 assms(2)] assms(1) show ?thesis
    by (auto simp: pf_terminator_def pf_safe_def split: if_splits)
qed

lemma conditional_step:
  assumes "pf_conditional e st = PfOk st'" "pf_safe st" "operator_fact e" "el_type e = CONDITIONAL"
    and "hd (el_name e) \<noteq> CHR '':''"
  shows "pf_safe st'"
proof -
  have "pf_safe (pf_move_while (\<lambda>x. in_stack_pri x > in_coming_pri e) st)"
    using assms(2-4) by (intro move_while_safe) (auto simp: operator_fact_def)
  with assms(1,5) show ?thesis by (auto simp: pf_conditional_def pf_safe_def Let_def)
qed

lemma unary_step:
  assumes "pf_unary e st = PfOk st'" "pf_safe st" "operand_fact e" "operand_safe e"
    "el_type e = UNARY_OPERATOR \<or> el_type e = VARARG_OPERATOR"
  shows "pf_safe st'"
proof -
  have "pf_safe (pf_move_while (\<lambda>x. in_stack_pri x \<ge> in_coming_pri e) st)"
    using assms by (intro move_while_safe) (auto simp: operand_fact_def)
  with assms show ?thesis
    by (auto simp: pf_unary_def operand_safe_def operand_fact_def intro: push_step)
qed

lemma binary_step:
  assumes "pf_binary e st = PfOk st'" "pf_safe st" "operator_fact e" "operator_safe e"
    "el_type e = BINARY_OPERATOR"
  shows "pf_safe st'"
proof -
  have "pf_safe (pf_move_while (\<lambda>x. in_stack_pri x \<ge> in_coming_pri e) st)"
    using assms by (intro move_while_safe) (auto simp: operator_fact_def)
  then have "pf_safe ((pf_move_while (\<lambda>x. in_stack_pri x \<ge> in_coming_pri e) st)\<lparr>operand_needed := True\<rparr>)"
    by (simp add: pf_safe_def)
  with assms show ?thesis
    by (auto simp: pf_binary_def operator_safe_def operator_fact_def intro: push_step)
qed

lemma switch_step:
  assumes sw: "pf_switch fp strtod e s rest st = PfOk (st', r)"
    and e: "e \<in> set (if operand_needed st then operands else operators)"
    and colon: "hd (el_name e) \<noteq> CHR '':''" and st: "pf_safe st" "depth_ok st"
  shows "pf_safe st'"
proof (cases "operand_needed st")
  case True
  then have f: "operand_fact e" "operand_safe e" using e operand_facts table_safe by auto
  then consider "el_type e = OPERAND" | "el_type e = LITERAL_OPERAND"
    | "el_type e = UNARY_OPERATOR \<or> el_type e = VARARG_OPERATOR"
    by (auto simp: operand_fact_def)
  then show ?thesis
  proof cases
    case 1
    with sw st f operand_step show ?thesis by (auto simp: pf_switch_def)
  next
    case 2
    with sw st f literal_step show ?thesis by (auto simp: pf_switch_def)
  next
    case 3
    with sw have "pf_unary e st = PfOk st'" by (auto simp: pf_switch_def pf_bind_Ok)
    with st f 3 unary_step show ?thesis by blast
  qed
next
  case False
  then have f: "operator_fact e" "operator_safe e" using e operator_facts table_safe by auto
  have "el_type e \<noteq> STORE_OPERATOR" using f(2) colon by (auto simp: operator_safe_def)
  with f(1) sw st(1) colon f(2) show ?thesis
    by (auto simp: operator_fact_def pf_switch_def pf_bind_Ok
        intro: binary_step [OF _ _ f] seperator_step close_paren_step terminator_step
          conditional_step [OF _ _ f(1)])
qed

lemma switch_text:
  assumes "pf_switch fp strtod e s rest st = PfOk (st', r)" "set rest \<subseteq> set s"
  shows "set r \<subseteq> set s"
proof (cases "el_type e = LITERAL_OPERAND")
  case True
  with assms(1) have "pf_literal fp strtod e s st = PfOk (st', r)" by (simp add: pf_switch_def)
  then show ?thesis
    using parse_double_set [of strtod s True] parse_uint32_set [of s 0 True]
    by (auto simp: pf_literal_def Let_def split: if_splits sum.splits prod.splits)
next
  case False
  with assms show ?thesis
    by (cases "el_type e") (auto simp: pf_switch_def pf_bind_Ok)
qed

lemma loop_safe:
  assumes "pf_loop fp strtod psrc st = PfOk (st', t)" "pf_safe st" "depth_ok st"
    "CHR '':'' \<notin> set psrc"
  shows "pf_safe st' \<and> depth_ok st'"
  using assms
proof (induction fp strtod psrc st rule: pf_loop.induct)
  case (1 fp strtod psrc st)
  obtain g s where g: "get_element (operand_needed st) psrc = (g, s)" by fastforce
  show ?case
  proof (cases g)
    case None
    with g 1(2-4) show ?thesis by (subst (asm) pf_loop.simps) simp
  next
    case (Some er)
    obtain e rest where er: "er = (e, rest)" by fastforce
    note gg = g [unfolded Some er]
    note ge = get_element_some [OF gg] and first = get_element_first [OF gg]
    have "hd s \<in> set psrc" using ge first(2) by (meson hd_in_set subsetD)
    then have colon: "hd (el_name e) \<noteq> CHR '':''"
      using first(1) 1(5) colon_upper by metis
    from 1(2) g Some er obtain q where q: "pf_element fp strtod e s rest st = PfOk q"
      by (subst (asm) pf_loop.simps) (auto split: pf_result.splits)
    obtain st1 r where r: "q = (st1, r)" by fastforce
    have sw: "pf_switch fp strtod e s rest st = PfOk (st1, r)" and d: "depth_ok st1"
      using q r by (auto simp: pf_element_def pf_bind_Ok pf_depth_check_def depth_ok_def
          CALCPERFORM_STACK_def split: if_splits)
    have "set rest \<subseteq> set s" using ge set_drop_subset by metis
    then have nocolon: "CHR '':'' \<notin> set r" using switch_text [OF sw] first(2) 1(5) by blast
    have "pf_loop fp strtod r st1 = PfOk (st', t)"
      using 1(2) g Some er q r by (subst (asm) pf_loop.simps) simp
    with "1.IH" [OF g [symmetric] Some er [symmetric] q r [symmetric]]
      switch_step [OF sw _ colon 1(3,4)] ge d nocolon
    show ?thesis by blast
  qed
qed

lemma postfix_safe_code:
  assumes "postfix fp strtod p q (Some src) = PfOk code" "CHR '':'' \<notin> set src"
  shows "\<exists>bs. code = bs @ [op_byte END_EXPRESSION] \<and> safe_code bs 1"
proof -
  obtain st t where loop: "pf_loop fp strtod src pf_init = PfOk (st, t)"
    and fin: "pf_finish (st, t) = PfOk code"
    using assms(1) by (cases src) (auto simp: postfix_def pf_bind_Ok split: if_splits)
  have "pf_safe pf_init" "depth_ok pf_init"
    by (auto simp: pf_safe_def pf_init_def stack_ok_def depth_ok_def intro: safe_code.empty)
  with loop_safe [OF loop] assms(2) have st: "pf_safe st" by blast
  obtain st' where st': "pf_move_all st = PfOk st'" "code = pf_out st' @ [op_byte END_EXPRESSION]"
      "cond_count st' = 0" "runtime_depth st' = 1"
    using fin by (auto simp: pf_finish_def pf_bind_Ok Let_def split: if_splits)
  with move_all_safe [OF st'(1) st] show ?thesis by (auto simp: pf_safe_def)
qed

lemma safe_code_runs:
  assumes "safe_code bs 1" "depth_is 0 st"
  shows "calc_run fp (bs @ [op_byte END_EXPRESSION]) st = CFault DivisionTrap \<or>
    (\<exists>st'. calc_run fp (bs @ [op_byte END_EXPRESSION]) st = CReturn 0 st' \<and> ptop st' = 1)"
proof -
  from run_safe_code [OF assms, of fp "[op_byte END_EXPRESSION]"]
  consider "calc_run fp (bs @ [op_byte END_EXPRESSION]) st = CFault DivisionTrap"
    | st' where "calc_run fp (bs @ [op_byte END_EXPRESSION]) st = calc_run fp [op_byte END_EXPRESSION] st'"
      "depth_is 1 st'"
    by blast
  then show ?thesis
  proof cases
    case 2
    have "rpn_valid END_EXPRESSION" by (simp add: rpn_valid_def)
    then have "calc_run fp [op_byte END_EXPRESSION] st' = CReturn 0 (st'\<lparr>presult := c_top st'\<rparr>)"
      using 2(2) by (subst calc_run.simps) (simp add: decode_op_byte depth_is_def)
    with 2 show ?thesis by (simp add: depth_is_def)
  qed simp
qed

lemma accepted_code_faults:
  assumes "postfix fp strtod p q (Some src) = PfOk code" "CHR '':'' \<notin> set src"
    and "length junk = 81" "calcPerform fp' junk sd args res code = CFault g"
  shows "g = DivisionTrap"
proof -
  obtain bs where bs: "code = bs @ [op_byte END_EXPRESSION]" "safe_code bs 1"
    using postfix_safe_code [OF assms(1,2)] by blast
  have "depth_is 0 \<lparr>c_stack = junk, ptop = 0, parg = args, presult = res, c_seed = sd\<rparr>"
    using assms(3) by (simp add: depth_is_def)
  from safe_code_runs [OF bs(2) this, of fp'] show ?thesis
    using assms(4) bs(1) by (auto simp: calcPerform_def)
qed

section \<open>Properties\<close>

text \<open>
  C18: a program that \<^verbatim>\<open>postfix()\<close> makes of an expression without a colon (so without
  conditionals and assignments) is safe to run: for all arguments and whatever the stack
  array holds at the start, \<^verbatim>\<open>calcPerform()\<close> makes no access outside its stack and does not
  read behind the program; it returns 0, unless the processor traps on \<open>INT_MIN % -1\<close>.
\<close>

theorem accepted_program_runs:
  assumes "postfix fp strtod p q (Some src) = PfOk code" "CHR '':'' \<notin> set src"
    and "length junk = 81"
  shows "calcPerform fp junk sd args res code = CFault DivisionTrap \<or>
    (\<exists>st. calcPerform fp junk sd args res code = CReturn 0 st \<and> ptop st = 1)"
proof -
  obtain bs where bs: "code = bs @ [op_byte END_EXPRESSION]" "safe_code bs 1"
    using postfix_safe_code [OF assms(1,2)] by blast
  have "depth_is 0 \<lparr>c_stack = junk, ptop = 0, parg = args, presult = res, c_seed = sd\<rparr>"
    using assms(3) by (simp add: depth_is_def)
  from safe_code_runs [OF bs(2) this, of fp] show ?thesis
    by (simp add: calcPerform_def bs(1))
qed

theorem accepted_program_runs_witness:
  "\<exists>code st. postfix sample_fp sample_strtod True True (Some ''MAX(A,B)*2'') = PfOk code \<and>
     calcPerform sample_fp (replicate 81 0) 0 (replicate 12 5) 0 code = CReturn 0 st"
proof -
  let ?code = "[4, 5, 42, 2, 2, 2, 0, 0, 0, 34, 0]"
  have c: "postfix sample_fp sample_strtod True True (Some ''MAX(A,B)*2'') = PfOk ?code"
    by code_simp
  moreover have "calcPerform sample_fp (replicate 81 0) 0 (replicate 12 5) 0 ?code \<noteq> CFault DivisionTrap"
    by code_simp
  ultimately show ?thesis
    using accepted_program_runs [OF c, of "replicate 81 0" 0 "replicate 12 5" 0] by auto
qed

text \<open>
  With a conditional inside a parameter list the depth that \<^verbatim>\<open>postfix()\<close> computes need not be the depth at
  run time: it accepts \<open>MAX(A?B,C,D,E:F)\<close>, and with \<open>A = 0\<close> the program leaves the stack array. The arguments
  of the two branches are counted together, but only those of one branch are on the stack.
\<close>

lemma conditional_arguments_underflow:
  "\<exists>code. postfix sample_fp sample_strtod True True (Some ''MAX(A?B,C,D,E:F)'') = PfOk code \<and>
     calcPerform sample_fp (replicate 81 0) 0 (replicate 12 0) 0 code = CFault OutOfBounds"
proof -
  have "postfix sample_fp sample_strtod True True (Some ''MAX(A?B,C,D,E:F)'') =
      PfOk [4, 77, 5, 6, 7, 8, 78, 9, 79, 42, 4, 0]"
    by code_simp
  moreover have "calcPerform sample_fp (replicate 81 0) 0 (replicate 12 0) 0
      [4, 77, 5, 6, 7, 8, 78, 9, 79, 42, 4, 0] = CFault OutOfBounds"
    by code_simp
  ultimately show ?thesis by blast
qed

section \<open>Inputs that the compiler does not expect\<close>

text \<open>The operators that stand before their operand and are one character long.\<close>

abbreviation prefix_op :: "char \<Rightarrow> ELEMENT" where
  "prefix_op c \<equiv>
     (if c = CHR ''('' then EL ''('' 0 8 0 UNARY_OPERATOR NOT_GENERATED
      else if c = CHR ''-'' then EL ''-'' 7 8 0 UNARY_OPERATOR UNARY_NEG
      else EL ''!'' 7 8 0 UNARY_OPERATOR REL_NOT)"

lemma case_cmp_simps:
  "epicsStrnCaseCmp s [] 0 = 0"
  "epicsStrnCaseCmp (a # s) (b # t) (Suc n) = 0 \<longleftrightarrow>
     char_to_upper (char_int a) = char_to_upper (char_int b) \<and> epicsStrnCaseCmp s t n = 0"
  by (simp_all add: Let_def)

lemmas get_element_eval = get_element_def operands_def operators_def EL_def is_space_def case_cmp_simps
  char_to_upper_def char_int_def

lemma get_prefix_op:
  assumes "c \<in> set ''(-!''"
  shows "get_element True (c # s) = (Some (prefix_op c, s), c # s)"
proof -
  have "c = CHR ''('' \<or> c = CHR ''-'' \<or> c = CHR ''!''" using assms by simp
  then show ?thesis by (elim disjE; simp add: get_element_eval del: epicsStrnCaseCmp.simps)
qed

lemma get_argument:
  assumes "c \<in> set ''ABCDEFGHIJKL''" "x \<in> set ''),''"
  shows "\<exists>k. get_element True (c # x # s) = (Some (EL [c] 0 0 1 OPERAND (FETCH k), x # s), c # x # s)"
proof -
  have "c = CHR ''A'' \<or> c = CHR ''B'' \<or> c = CHR ''C'' \<or> c = CHR ''D'' \<or> c = CHR ''E'' \<or> c = CHR ''F'' \<or>
      c = CHR ''G'' \<or> c = CHR ''H'' \<or> c = CHR ''I'' \<or> c = CHR ''J'' \<or> c = CHR ''K'' \<or> c = CHR ''L''"
    using assms(1) by simp
  moreover have "x = CHR '')'' \<or> x = CHR '',''" using assms(2) by simp
  ultimately show ?thesis by (elim disjE; simp add: get_element_eval del: epicsStrnCaseCmp.simps)
qed

lemma get_behind:
  assumes "x \<in> set ''),''"
  shows "\<exists>e. get_element False (x # s) = (Some (e, s), x # s) \<and> el_type e \<in> {CLOSE_PAREN, SEPERATOR}"
proof -
  have "x = CHR '')'' \<or> x = CHR '',''" using assms by simp
  then show ?thesis by (elim disjE; simp add: get_element_eval del: epicsStrnCaseCmp.simps)
qed

lemma prefix_ops_overrun:
  "set us \<subseteq> set ''(-!'' \<Longrightarrow> 80 \<le> length (pf_stack st) + length us \<Longrightarrow> length (pf_stack st) < 80 \<Longrightarrow>
   operand_needed st \<Longrightarrow> runtime_depth st = 0 \<Longrightarrow> \<forall>e \<in> set (pf_stack st). in_stack_pri e < 8 \<Longrightarrow>
   pf_loop fp strtod (us @ rest) st = PfUndef StackOverrun"
proof (induction us arbitrary: st)
  case (Cons c us)
  let ?e = "prefix_op c"
  have g: "get_element True (c # us @ rest) = (Some (?e, us @ rest), c # us @ rest)"
    using Cons.prems(1) by (intro get_prefix_op) simp
  have t: "el_type ?e = UNARY_OPERATOR" "in_coming_pri ?e = 8" "in_stack_pri ?e < 8"
    by (simp_all add: EL_def)
  have "pf_move_while (\<lambda>e. in_coming_pri ?e \<le> in_stack_pri e) st = st"
    using Cons.prems(6) t(2) by (subst pf_move_while.simps) (cases "pf_stack st"; simp)
  then have u: "pf_unary ?e st = pf_push ?e st" by (simp add: pf_unary_def)
  show ?case
  proof (cases "length (pf_stack st) + 1 < 80")
    case True
    let ?st = "st\<lparr>pf_stack := ?e # pf_stack st\<rparr>"
    have "pf_element fp strtod ?e (c # us @ rest) (us @ rest) st = PfOk (?st, us @ rest)"
      using u t(1) True Cons.prems(5)
      by (simp add: pf_element_def pf_switch_def pf_push_def pf_depth_check_def CALCPERFORM_STACK_def Let_def)
    moreover have "pf_loop fp strtod (us @ rest) ?st = PfUndef StackOverrun"
      using Cons.prems True t(3) by (intro Cons.IH) simp_all
    ultimately show ?thesis using g Cons.prems(4) by (subst pf_loop.simps) simp
  next
    case False
    have "pf_element fp strtod ?e (c # us @ rest) (us @ rest) st = PfUndef StackOverrun"
      using u t(1) False by (simp add: pf_element_def pf_switch_def pf_push_def Let_def)
    then show ?thesis using g Cons.prems(4) by (subst pf_loop.simps) simp
  qed
qed simp

text \<open>
  C20: \<^verbatim>\<open>postfix()\<close> does not check its element stack. Any expression that begins with 80 or more open
  parentheses, minus signs and exclamation marks, in any order, makes it write behind the end of the stack
  array; and a close parenthesis or a comma right behind an argument name at the beginning of an expression
  makes it read the entry 0 of the stack, which was never written, whatever follows.
\<close>

theorem postfix_undefined_inputs:
  assumes "set us \<subseteq> set ''(-!''" "80 \<le> length us" "c \<in> set ''ABCDEFGHIJKL''" "x \<in> set ''),''"
  shows "postfix fp strtod True True (Some (us @ rest)) = PfUndef StackOverrun \<and>
    postfix fp strtod True True (Some (c # x # rest)) = PfUndef ReadsEntry0"
proof
  have l: "pf_loop fp strtod (us @ rest) pf_init = PfUndef StackOverrun"
    using assms(1,2) by (intro prefix_ops_overrun) (simp_all add: pf_init_def)
  from assms(2) obtain d ds where "us = d # ds" by (cases us) auto
  with l show "postfix fp strtod True True (Some (us @ rest)) = PfUndef StackOverrun"
    by (simp add: postfix_def)
next
  obtain k where g: "get_element True (c # x # rest) =
      (Some (EL [c] 0 0 1 OPERAND (FETCH k), x # rest), c # x # rest)"
    using get_argument [OF assms(3,4)] by blast
  let ?st = "pf_operand (EL [c] 0 0 1 OPERAND (FETCH k)) pf_init"
  have "pf_element fp strtod (EL [c] 0 0 1 OPERAND (FETCH k)) (c # x # rest) (x # rest) pf_init = PfOk (?st, x # rest)"
    by (simp add: pf_element_def pf_switch_def pf_depth_check_def CALCPERFORM_STACK_def Let_def EL_def
        pf_operand_def pf_init_def)
  then have 1: "pf_loop fp strtod (c # x # rest) pf_init = pf_loop fp strtod (x # rest) ?st"
    using g by (subst pf_loop.simps) (simp add: pf_init_def)
  obtain e where e: "get_element False (x # rest) = (Some (e, rest), x # rest)" "el_type e \<in> {CLOSE_PAREN, SEPERATOR}"
    using get_behind [OF assms(4)] by blast
  have "pf_stack ?st = []" by (simp add: pf_operand_def pf_init_def)
  then have "pf_element fp strtod e (x # rest) rest ?st = PfUndef ReadsEntry0"
    using e(2) by (auto simp: pf_element_def pf_switch_def pf_close_paren_def pf_seperator_def pf_move_paren.simps Let_def)
  moreover have "operand_needed ?st = False" by (simp add: pf_operand_def)
  ultimately have "pf_loop fp strtod (x # rest) ?st = PfUndef ReadsEntry0"
    using e(1) by (subst pf_loop.simps) simp
  with 1 show "postfix fp strtod True True (Some (c # x # rest)) = PfUndef ReadsEntry0"
    by (simp add: postfix_def)
qed

theorem postfix_undefined_inputs_witness:
  "postfix sample_fp sample_strtod True True (Some (replicate 80 (CHR ''('') @ ''A'')) = PfUndef StackOverrun \<and>
   postfix sample_fp sample_strtod True True (Some ''A)+1'') = PfUndef ReadsEntry0"
  using postfix_undefined_inputs [of "replicate 80 (CHR ''('')" "CHR ''A''" "CHR '')''" sample_fp sample_strtod "''A''"]
    postfix_undefined_inputs [of "replicate 80 (CHR ''('')" "CHR ''A''" "CHR '')''" sample_fp sample_strtod "''+1''"]
  by simp

end
