(* ===== verification/MacCore.thy ===== *)
theory MacCore
  imports EpicsString
begin

text \<open>
  The macro substitution library, \<^verbatim>\<open>modules/libcom/src/macLib/macCore.c\<close>. The linked list of
  entries is the Isabelle list in the same order, and an entry pointer is its index there: the
  routines that hold a pointer only append entries or delete a suffix behind it. A pointer
  into a NUL-terminated string is the string with an index; reading at its length gives NUL.
  A string under construction is the list of characters stored between the start of the
  buffer and the write pointer, together with the capacity \<open>cap\<close>, the distance from the start
  to \<^verbatim>\<open>valend\<close>. Allocation succeeds, and the texts printed to \<^verbatim>\<open>stdout\<close> and the error log are
  left out. \<open>getenv\<close> is a parameter: the environment of the process.

  \<open>mac_trans\<close>, \<open>mac_refer\<close> and \<open>mac_scoped\<close> call each other recursively and need not return,
  so they count down a fuel argument; \<open>None\<close> is the result of a run that is not finished.
\<close>

section \<open>Data\<close>

record MAC_ENTRY =
  ename :: string
  etype :: string
  rawval :: "string option"
  evalue :: "string option"    \<comment> \<open>the string in the buffer \<^verbatim>\<open>value\<close> of \<^verbatim>\<open>MAC_SIZE + 1\<close> bytes\<close>
  elength :: nat
  eerror :: bool
  visited :: bool
  special :: bool
  elevel :: int

record MAC_HANDLE =
  magic :: int
  dirty :: bool
  level :: int
  debug :: int
  entries :: "MAC_ENTRY list"
  flags :: "32 word"

definition MAC_SIZE :: nat where
  "MAC_SIZE = 256"

definition MAC_MAGIC :: int where
  "MAC_MAGIC = 0xbadcafe"

definition FLAG_SUPPRESS_WARNINGS :: "32 word" where
  "FLAG_SUPPRESS_WARNINGS = 0x1"

definition FLAG_USE_ENVIRONMENT :: "32 word" where
  "FLAG_USE_ENVIRONMENT = 0x80"

definition suppressing :: "MAC_HANDLE \<Rightarrow> bool" where
  "suppressing h \<longleftrightarrow> flags h AND FLAG_SUPPRESS_WARNINGS \<noteq> 0"

definition uses_environment :: "MAC_HANDLE \<Rightarrow> bool" where
  "uses_environment h \<longleftrightarrow> flags h AND FLAG_USE_ENVIRONMENT \<noteq> 0"

text \<open>The character a string pointer refers to.\<close>

definition c_at :: "string \<Rightarrow> nat \<Rightarrow> char" where
  "c_at s i = (if i < length s then s ! i else char_nul)"

section \<open>The table of entries\<close>

definition mac_create :: "MAC_HANDLE \<Rightarrow> string \<Rightarrow> bool \<Rightarrow> nat \<times> MAC_HANDLE" where
  "mac_create h name sp =
     (let e = \<lparr>ename = name, etype = '''', rawval = None, evalue = None, elength = 0,
               eerror = False, visited = False, special = sp, elevel = level h\<rparr>
      in (length (entries h), h\<lparr>entries := entries h @ [e]\<rparr>))"

definition upd_entry :: "nat \<Rightarrow> (MAC_ENTRY \<Rightarrow> MAC_ENTRY) \<Rightarrow> MAC_HANDLE \<Rightarrow> MAC_HANDLE" where
  "upd_entry k f h = h\<lparr>entries := (entries h)[k := f (entries h ! k)]\<rparr>"

definition mac_rawval :: "MAC_HANDLE \<Rightarrow> nat \<Rightarrow> string \<Rightarrow> MAC_HANDLE" where
  "mac_rawval h k value = (upd_entry k (\<lambda>e. e\<lparr>rawval := Some value\<rparr>) h)\<lparr>dirty := True\<rparr>"

definition mac_delete :: "MAC_HANDLE \<Rightarrow> nat \<Rightarrow> MAC_HANDLE" where
  "mac_delete h k = h\<lparr>entries := take k (entries h) @ drop (Suc k) (entries h), dirty := True\<rparr>"

text \<open>The backward search of \<^verbatim>\<open>lookup\<close>, over the first \<open>k\<close> entries.\<close>

fun lookup_back :: "MAC_ENTRY list \<Rightarrow> string \<Rightarrow> bool \<Rightarrow> nat \<Rightarrow> nat option" where
  "lookup_back es name sp 0 = None"
| "lookup_back es name sp (Suc k) =
     (if special (es ! k) \<noteq> sp then lookup_back es name sp k
      else if ename (es ! k) = name then Some k
      else lookup_back es name sp k)"

definition mac_lookup ::
  "(string \<Rightarrow> string option) \<Rightarrow> MAC_HANDLE \<Rightarrow> string \<Rightarrow> bool \<Rightarrow> nat option \<times> MAC_HANDLE" where
  "mac_lookup getenv h name sp =
     (case lookup_back (entries h) name sp (length (entries h)) of
        Some k \<Rightarrow> (Some k, h)
      | None \<Rightarrow>
          if \<not> sp \<and> uses_environment h then
            (case getenv name of
               None \<Rightarrow> (None, h)
             | Some value \<Rightarrow>
                 (let (k, h1) = mac_create h name False;
                      h2 = upd_entry k (\<lambda>e. e\<lparr>etype := ''environment variable''\<rparr>) h1
                  in (Some k, mac_rawval h2 k value)))
          else (None, h))"

lemma lookup_back_Some:
  "lookup_back es name sp k = Some j \<Longrightarrow>
     j < k \<and> special (es ! j) = sp \<and> ename (es ! j) = name \<and>
     (\<forall>i. j < i \<and> i < k \<longrightarrow> special (es ! i) = sp \<longrightarrow> ename (es ! i) \<noteq> name)"
  by (induction k) (auto split: if_splits simp: less_Suc_eq)

lemma lookup_back_None:
  "lookup_back es name sp k = None \<longleftrightarrow>
     (\<forall>i<k. special (es ! i) = sp \<longrightarrow> ename (es ! i) \<noteq> name)"
  by (induction k) (auto simp: less_Suc_eq)

lemma lookup_back_cong:
  "(\<And>i. i < k \<Longrightarrow> ename (es ! i) = ename (es' ! i) \<and> special (es ! i) = special (es' ! i)) \<Longrightarrow>
     lookup_back es name sp k = lookup_back es' name sp k"
  by (induction k) auto

text \<open>
  An entry that \<^verbatim>\<open>lookup\<close> returns is in the table, and unless it was made for an environment
  variable it was there before.
\<close>

lemma mac_lookup_Some:
  assumes "mac_lookup getenv h name sp = (Some k, h')"
  shows "k < length (entries h')"
    and "etype (entries h' ! k) \<noteq> ''environment variable'' \<Longrightarrow> h' = h"
  using assms
  by (auto simp: mac_lookup_def mac_create_def mac_rawval_def upd_entry_def Let_def
      dest: lookup_back_Some split: option.splits if_splits)

lemma mac_lookup_delete_shorter:
  assumes "mac_lookup getenv h name sp = (Some k, h')"
    and "etype (entries h' ! k) \<noteq> ''environment variable''"
  shows "length (entries (mac_delete h' k)) < length (entries h)"
  using mac_lookup_Some [OF assms(1)] assms(2) by (auto simp: mac_delete_def)

section \<open>Values and scopes\<close>

text \<open>The loop of \<^verbatim>\<open>macPutValue\<close> for a NULL value.\<close>

function delete_all :: "(string \<Rightarrow> string option) \<Rightarrow> MAC_HANDLE \<Rightarrow> string \<Rightarrow> MAC_HANDLE" where
  "delete_all getenv h name =
     (case mac_lookup getenv h name False of
        (None, h') \<Rightarrow> h'
      | (Some k, h') \<Rightarrow>
          if etype (entries h' ! k) = ''environment variable'' then mac_delete h' k
          else delete_all getenv (mac_delete h' k) name)"
  by pat_completeness auto

termination delete_all
  by (relation "measure (\<lambda>(getenv, h, name). length (entries h))")
     (auto dest!: sym [where s = "(Some _, _)"] simp: mac_lookup_delete_shorter)

declare delete_all.simps [simp del]

definition macPutValue ::
  "(string \<Rightarrow> string option) \<Rightarrow> MAC_HANDLE \<Rightarrow> string \<Rightarrow> string option \<Rightarrow> int \<times> MAC_HANDLE" where
  "macPutValue getenv h name value =
     (if magic h \<noteq> MAC_MAGIC then (- 1, h)
      else case value of
        None \<Rightarrow> (0, delete_all getenv h name)
      | Some v \<Rightarrow>
          (let (found, h1) = mac_lookup getenv h name False;
               (k, h2) =
                 (case found of
                    Some k \<Rightarrow>
                      if elevel (entries h1 ! k) < level h1
                      then (let (k', h') = mac_create h1 name False
                            in (k', upd_entry k' (\<lambda>e. e\<lparr>etype := ''macro''\<rparr>) h'))
                      else (k, h1)
                  | None \<Rightarrow>
                      (let (k', h') = mac_create h1 name False
                       in (k', upd_entry k' (\<lambda>e. e\<lparr>etype := ''macro''\<rparr>) h')))
           in (int (length v), mac_rawval h2 k v)))"

definition macPushScope :: "MAC_HANDLE \<Rightarrow> int \<times> MAC_HANDLE" where
  "macPushScope h =
     (if magic h \<noteq> MAC_MAGIC then (- 1, h)
      else
        let (k, h1) = mac_create (h\<lparr>level := level h + 1\<rparr>) ''<scope>'' True
        in (0, upd_entry k (\<lambda>e. e\<lparr>etype := ''scope marker''\<rparr>) h1))"

text \<open>The loop that deletes an entry and all its successors.\<close>

function delete_from :: "MAC_HANDLE \<Rightarrow> nat \<Rightarrow> MAC_HANDLE" where
  "delete_from h k =
     (if k < length (entries h) then delete_from (mac_delete h k) k else h)"
  by pat_completeness auto

termination delete_from
  by (relation "measure (\<lambda>(h, k). length (entries h))") (auto simp: mac_delete_def)

declare delete_from.simps [simp del]

definition macPopScope :: "MAC_HANDLE \<Rightarrow> int \<times> MAC_HANDLE" where
  "macPopScope h =
     (if magic h \<noteq> MAC_MAGIC then (- 1, h)
      else if level h = 0 then (- 1, h)
      else case mac_lookup (\<lambda>_. None) h ''<scope>'' True of
        (None, h1) \<Rightarrow> (- 1, h1)
      | (Some k, h1) \<Rightarrow> (let h2 = delete_from h1 k in (0, h2\<lparr>level := level h2 - 1\<rparr>)))"

definition macDeleteHandle :: "MAC_HANDLE \<Rightarrow> int \<times> MAC_HANDLE" where
  "macDeleteHandle h =
     (if magic h \<noteq> MAC_MAGIC then (- 1, h) else (0, (delete_from h 0)\<lparr>magic := 0\<rparr>))"

definition macSuppressWarning :: "MAC_HANDLE \<Rightarrow> int \<Rightarrow> MAC_HANDLE" where
  "macSuppressWarning h suppress =
     (if magic h = MAC_MAGIC
      then h\<lparr>flags := (flags h AND NOT FLAG_SUPPRESS_WARNINGS) OR
                     (if suppress \<noteq> 0 then FLAG_SUPPRESS_WARNINGS else 0)\<rparr>
      else h)"

text \<open>
  \<^verbatim>\<open>macCreateHandle\<close>: \<open>pairs\<close> is the array of names and values, NULL elements being \<open>None\<close>; a
  read behind its last element gives NULL.
\<close>

definition pair_at :: "string option list \<Rightarrow> nat \<Rightarrow> string option" where
  "pair_at pairs k = (if k < length pairs then pairs ! k else None)"

fun put_pairs ::
  "(string \<Rightarrow> string option) \<Rightarrow> MAC_HANDLE \<Rightarrow> string option list \<Rightarrow> (nat \<times> MAC_HANDLE) option" where
  "put_pairs getenv h (Some name # value # rest) =
     (let (r, h1) = macPutValue getenv h name value
      in if r < 0 then None
         else map_option (\<lambda>(n, h'). (Suc n, h')) (put_pairs getenv h1 rest))"
| "put_pairs getenv h [Some name] =
     (let (r, h1) = macPutValue getenv h name None
      in if r < 0 then None else Some (1, h1))"
| "put_pairs getenv h (None # rest) = Some (0, h)"
| "put_pairs getenv h [] = Some (0, h)"

definition empty_handle :: MAC_HANDLE where
  "empty_handle = \<lparr>magic = MAC_MAGIC, dirty = False, level = 0, debug = 0, entries = [], flags = 0\<rparr>"

definition macCreateHandle ::
  "(string \<Rightarrow> string option) \<Rightarrow> string option list \<Rightarrow> MAC_HANDLE option" where
  "macCreateHandle getenv pairs =
     (if pair_at pairs 0 = Some '''' \<and> pair_at pairs 1 = Some ''environ'' \<and> pair_at pairs 3 = None
      then Some (empty_handle\<lparr>flags := flags empty_handle OR FLAG_USE_ENVIRONMENT\<rparr>)
      else map_option snd (put_pairs getenv empty_handle pairs))"

section \<open>Translation\<close>

text \<open>\<^verbatim>\<open>if ( v < valend ) *v++ = c;\<close>\<close>

definition vput :: "nat \<Rightarrow> string \<Rightarrow> char \<Rightarrow> string" where
  "vput cap out c = (if length out < cap then out @ [c] else out)"

definition cpy2val :: "string \<Rightarrow> string \<Rightarrow> nat \<Rightarrow> string" where
  "cpy2val src out cap = out @ take (cap - length out) src"

definition is_mac_ref :: "string \<Rightarrow> nat \<Rightarrow> bool" where
  "is_mac_ref s i \<longleftrightarrow> c_at s i = CHR ''$'' \<and> c_at s (i + 1) \<in> {CHR ''('', CHR ''{''}"

text \<open>
  The quote handling at the top of the loop of \<^verbatim>\<open>trans\<close>: the new value of \<open>quote\<close> (\<open>None\<close> for
  0), and whether the character is skipped.
\<close>

definition trans_quote :: "char option \<Rightarrow> char \<Rightarrow> bool \<Rightarrow> char option \<times> bool" where
  "trans_quote quote c discard =
     (case quote of
        Some q \<Rightarrow> if c = q then (None, discard) else (quote, False)
      | None \<Rightarrow> if c \<in> {CHR 0x22, CHR 0x27} then (Some c, discard) else (None, False))"

text \<open>
  The copying of a character or of an escape sequence: the index of the last character used,
  and the output. The character behind a backslash is only stepped over when it is stored.
\<close>

definition trans_char :: "string \<Rightarrow> nat \<Rightarrow> string \<Rightarrow> nat \<Rightarrow> bool \<Rightarrow> nat \<times> string" where
  "trans_char s i out cap discard =
     (if c_at s i = char_backslash \<and> c_at s (i + 1) \<noteq> char_nul then
        let out1 = (if discard then out else vput cap out char_backslash)
        in if length out1 < cap then (i + 1, out1 @ [c_at s (i + 1)]) else (i, out1)
      else (i, vput cap out (c_at s i)))"

definition mac_end :: "string \<Rightarrow> nat \<Rightarrow> string" where
  "mac_end s i = (if c_at s i = CHR ''('' then ''=,)'' else ''=,}'')"

definition suppress_warnings :: "MAC_HANDLE \<Rightarrow> MAC_HANDLE" where
  "suppress_warnings h = h\<lparr>flags := flags h OR FLAG_SUPPRESS_WARNINGS\<rparr>"

text \<open>The text stored for a bad reference.\<close>

definition bad_reference :: "MAC_HANDLE \<Rightarrow> string \<Rightarrow> string \<Rightarrow> string \<Rightarrow> nat \<Rightarrow> string" where
  "bad_reference h refname errval out cap =
     (let v = cpy2val refname (vput cap (vput cap out CHR ''$'') CHR ''('') cap
      in if suppressing h then vput cap v CHR '')'' else cpy2val errval v cap)"

definition pop_if :: "bool \<Rightarrow> MAC_HANDLE \<Rightarrow> MAC_HANDLE" where
  "pop_if pop h = (if pop then snd (macPopScope h) else h)"

text \<open>
  \<open>mac_trans getenv n h err lev term s i quote out cap\<close> is the loop of \<^verbatim>\<open>trans\<close> from the state
  with read pointer \<open>i\<close> in \<open>s\<close>, quote state \<open>quote\<close> and output \<open>out\<close>; \<open>err\<close> is \<^verbatim>\<open>entry->error\<close>.
  The result holds the handle, the error flag, \<^verbatim>\<open>*rawval\<close> and the output. \<open>mac_refer\<close> is
  \<^verbatim>\<open>refer\<close>, in the parts that scan a default value, set the scoped macros and insert the value
  of the reference; its calls of \<^verbatim>\<open>trans\<close> are the argument \<open>tr\<close>, which the loop instantiates
  with itself at less fuel.
\<close>

type_synonym trans_result = "(MAC_HANDLE \<times> bool \<times> nat \<times> string) option"
type_synonym trans_fn =
  "MAC_HANDLE \<Rightarrow> bool \<Rightarrow> nat \<Rightarrow> string \<Rightarrow> string \<Rightarrow> nat \<Rightarrow> char option \<Rightarrow> string \<Rightarrow> nat \<Rightarrow> trans_result"

definition mac_default ::
  "trans_fn \<Rightarrow> MAC_HANDLE \<Rightarrow> nat \<Rightarrow> string \<Rightarrow> string \<Rightarrow> nat \<Rightarrow> string \<Rightarrow>
   (MAC_HANDLE \<times> nat \<times> nat option \<times> string) option" where
  "mac_default tr h lev macEnd s r out =
     (if c_at s r = CHR ''='' then
        map_option (\<lambda>(h', _, r', out'). (h'\<lparr>flags := flags h\<rparr>, r', Some (r + 1), out'))
          (tr (suppress_warnings h) False (lev + 1) (tl macEnd) s (r + 1) None out (length out))
      else Some (h, r, None, out))"

primrec scoped_loop ::
  "trans_fn \<Rightarrow> (string \<Rightarrow> string option) \<Rightarrow> nat \<Rightarrow> MAC_HANDLE \<Rightarrow> bool \<Rightarrow> nat \<Rightarrow> string \<Rightarrow> string \<Rightarrow> nat \<Rightarrow>
   (MAC_HANDLE \<times> nat) option" where
  "scoped_loop tr getenv 0 h err lev macEnd s r = None"
| "scoped_loop tr getenv (Suc n) h err lev macEnd s r =
     (if c_at s r \<noteq> CHR '','' then Some (h, r)
      else
        Option.bind (tr h err (lev + 1) macEnd s (r + 1) None [] MAC_SIZE)
          (\<lambda>(h1, err1, r1, subname).
        if c_at s r1 = CHR ''='' then
          Option.bind (tr h1 err1 (lev + 1) (tl macEnd) s (r1 + 1) None [] MAC_SIZE)
            (\<lambda>(h2, err2, r2, subval).
          let h3 = snd (macPutValue getenv h2 subname (Some subval))
          in scoped_loop tr getenv n (h3\<lparr>dirty := True\<rparr>) err2 lev macEnd s r2)
        else scoped_loop tr getenv n h1 err1 lev macEnd s r1))"

definition mac_scoped ::
  "trans_fn \<Rightarrow> (string \<Rightarrow> string option) \<Rightarrow> nat \<Rightarrow> MAC_HANDLE \<Rightarrow> nat \<Rightarrow> string \<Rightarrow> string \<Rightarrow> nat \<Rightarrow>
   (MAC_HANDLE \<times> nat \<times> bool) option" where
  "mac_scoped tr getenv n h lev macEnd s r =
     (if c_at s r = CHR '','' then
        map_option (\<lambda>(h', r'). (h'\<lparr>flags := flags h\<rparr>, r', True))
          (scoped_loop tr getenv n (snd (macPushScope (suppress_warnings h))) False lev macEnd s r)
      else Some (h, r, False))"

definition mac_value ::
  "trans_fn \<Rightarrow> (string \<Rightarrow> string option) \<Rightarrow> MAC_HANDLE \<Rightarrow> bool \<Rightarrow> nat \<Rightarrow> string \<Rightarrow> string \<Rightarrow>
   nat option \<Rightarrow> string \<Rightarrow> string \<Rightarrow> nat \<Rightarrow> (MAC_HANDLE \<times> bool \<times> string) option" where
  "mac_value tr getenv h err lev macEnd s defval refname out cap =
     (case mac_lookup getenv h refname False of
        (Some k, h1) \<Rightarrow>
          (let e = entries h1 ! k in
           if \<not> visited e then
             if \<not> dirty h1 then
               map_option (\<lambda>v. (h1, err \<or> eerror e, cpy2val v out cap)) (evalue e)
             else case rawval e of
               None \<Rightarrow> Some (h1, err, out)
             | Some rv \<Rightarrow>
                 map_option
                   (\<lambda>(h2, err2, _, out2).
                     (upd_entry k (\<lambda>e. e\<lparr>visited := False\<rparr>) h2, err2, out2))
                   (tr (upd_entry k (\<lambda>e. e\<lparr>visited := True\<rparr>) h1) err (lev + 1) [] rv 0 None out cap)
           else Some (h1, True, bad_reference h1 refname '',recursive)'' out cap))
      | (None, h1) \<Rightarrow>
          (case defval of
             Some d \<Rightarrow>
               map_option (\<lambda>(h2, err2, _, out2). (h2, err2, out2))
                 (tr h1 err (lev + 1) (tl macEnd) s d None out cap)
           | None \<Rightarrow> Some (h1, True, bad_reference h1 refname '',undefined)'' out cap)))"

definition mac_refer ::
  "trans_fn \<Rightarrow> (string \<Rightarrow> string option) \<Rightarrow> nat \<Rightarrow> MAC_HANDLE \<Rightarrow> bool \<Rightarrow> nat \<Rightarrow> string \<Rightarrow> nat \<Rightarrow>
   string \<Rightarrow> nat \<Rightarrow> trans_result" where
  "mac_refer tr getenv n h err lev s i out cap =
     (let macEnd = mac_end s (i + 1) in
      Option.bind (tr h err (lev + 1) macEnd s (i + 2) None [] MAC_SIZE) (\<lambda>(h1, err1, r1, refname).
      Option.bind (mac_default tr h1 lev macEnd s r1 out) (\<lambda>(h2, r2, defval, out2).
      Option.bind (mac_scoped tr getenv n h2 lev macEnd s r2) (\<lambda>(h3, r3, pop).
      map_option (\<lambda>(h4, err4, out4). (pop_if pop h4, err4, r3, out4))
        (mac_value tr getenv h3 err1 lev macEnd s defval refname out2 cap)))))"

primrec mac_trans :: "(string \<Rightarrow> string option) \<Rightarrow> nat \<Rightarrow> trans_fn" where
  "mac_trans getenv 0 h err lev term s i quote out cap = None"
| "mac_trans getenv (Suc n) h err lev term s i quote out cap =
     (if c_at s i = char_nul then Some (h, err, i - 1, out)
      else if c_at s i \<in> set term then Some (h, err, i, out)
      else case trans_quote quote (c_at s i) (0 < lev) of (quote', skip) \<Rightarrow>
        if skip then mac_trans getenv n h err lev term s (i + 1) quote' out cap
        else if is_mac_ref s i \<and> quote' \<noteq> Some (CHR 0x27) then
          Option.bind (mac_refer (mac_trans getenv n) getenv n h err lev s i out cap)
            (\<lambda>(h1, err1, i1, out1).
              mac_trans getenv n h1 err1 lev term s (i1 + 1) quote' out1 cap)
        else case trans_char s i out cap (0 < lev) of (i1, out1) \<Rightarrow>
          mac_trans getenv n h err lev term s (i1 + 1) quote' out1 cap)"

section \<open>Expansion\<close>

text \<open>
  The loop of \<^verbatim>\<open>expand\<close> from entry \<open>k\<close> on. While it runs \<^verbatim>\<open>dirty\<close> is set, so no other entry's
  value or error flag is read before the loop has ended.
\<close>

fun expand_loop ::
  "nat \<Rightarrow> (string \<Rightarrow> string option) \<Rightarrow> MAC_HANDLE \<Rightarrow> nat \<Rightarrow> MAC_HANDLE option" where
  "expand_loop 0 getenv h k = None"
| "expand_loop (Suc n) getenv h k =
     (if k < length (entries h) then
        Option.bind
          (case rawval (entries h ! k) of
             None \<Rightarrow> Some (h, False, 0, [])
           | Some rv \<Rightarrow> mac_trans getenv n h False 1 [] rv 0 None [] MAC_SIZE)
          (\<lambda>(h1, err, _, out).
            expand_loop n getenv
              (upd_entry k (\<lambda>e. e\<lparr>evalue := Some out, elength := length out, eerror := err\<rparr>) h1)
              (Suc k))
      else Some (h\<lparr>dirty := False\<rparr>))"

definition mac_expand :: "nat \<Rightarrow> (string \<Rightarrow> string option) \<Rightarrow> MAC_HANDLE \<Rightarrow> MAC_HANDLE option" where
  "mac_expand n getenv h = (if \<not> dirty h then Some h else expand_loop n getenv h 0)"

text \<open>
  The public routines return the C result, the string or bytes stored at the destination
  (\<open>None\<close> when it is left alone), and the handle.
\<close>

definition macExpandString ::
  "nat \<Rightarrow> (string \<Rightarrow> string option) \<Rightarrow> MAC_HANDLE \<Rightarrow> string \<Rightarrow> int \<Rightarrow>
   (int \<times> string option \<times> MAC_HANDLE) option" where
  "macExpandString n getenv h src capacity =
     (if magic h \<noteq> MAC_MAGIC then Some (- 1, None, h)
      else if capacity \<le> 1 then Some (- 1, None, h)
      else
        Option.bind (mac_expand n getenv h) (\<lambda>h1.
        map_option
          (\<lambda>(h2, err, _, out).
             ((if err then - int (length out) else int (length out)), Some out, h2))
          (mac_trans getenv n h1 False 0 [] src 0 None [] (nat (capacity - 1)))))"

definition c_strncpy :: "string \<Rightarrow> nat \<Rightarrow> string" where
  "c_strncpy s n = take n (s @ replicate n char_nul)"

definition macGetValue ::
  "nat \<Rightarrow> (string \<Rightarrow> string option) \<Rightarrow> MAC_HANDLE \<Rightarrow> string \<Rightarrow> int \<Rightarrow>
   (int \<times> string option \<times> MAC_HANDLE) option" where
  "macGetValue n getenv h name capacity =
     (if magic h \<noteq> MAC_MAGIC then Some (- 1, None, h)
      else case mac_lookup getenv h name False of (found, h1) \<Rightarrow>
        if capacity \<le> 1 then Some (if found = None then - 1 else 0, None, h1)
        else case found of
          None \<Rightarrow>
            (let b = c_strncpy name (nat capacity)
             in Some (if b ! nat (capacity - 1) = char_nul then - int (length name) else - capacity,
                      Some b, h1))
        | Some k \<Rightarrow>
            Option.bind (mac_expand n getenv h1) (\<lambda>h2.
            map_option
              (\<lambda>v.
                let b = c_strncpy v (nat capacity);
                    len = (if b ! nat (capacity - 1) = char_nul
                           then int (elength (entries h2 ! k)) else capacity)
                in (if eerror (entries h2 ! k) then - len else len, Some b, h2))
              (evalue (entries h2 ! k))))"

end
