(* ===== verification/MacUtil.thy ===== *)
theory MacUtil
  imports MacCore
begin

text \<open>
  The utility routines of the macro library: \<^verbatim>\<open>macParseDefns\<close> and \<^verbatim>\<open>macInstallMacros\<close> of
  \<^verbatim>\<open>modules/libcom/src/macLib/macUtil.c\<close> and \<^verbatim>\<open>macDefExpand\<close>, \<^verbatim>\<open>macEnvExpand\<close> of
  \<^verbatim>\<open>modules/libcom/src/macLib/macEnv.c\<close>. The three work arrays of \<^verbatim>\<open>macParseDefns\<close> have the
  length the code allocates, and a store outside of an array makes the result \<open>None\<close>.
\<close>

section \<open>Parsing definitions\<close>

datatype parse_state = preName | inName | preValue | inValue

record parse_defns =
  pd_num :: nat
  pd_ptr :: "nat list"
  pd_end :: "nat list"
  pd_del :: "bool list"
  pd_quote :: "char option"
  pd_state :: parse_state

definition arr_set :: "'a list \<Rightarrow> nat \<Rightarrow> 'a \<Rightarrow> 'a list option" where
  "arr_set a k x = (if k < length a then Some (a[k := x]) else None)"

definition set_ptr :: "parse_defns \<Rightarrow> nat \<Rightarrow> parse_defns option" where
  "set_ptr st c = map_option (\<lambda>a. st\<lparr>pd_ptr := a\<rparr>) (arr_set (pd_ptr st) (pd_num st) c)"

definition set_del :: "parse_defns \<Rightarrow> bool \<Rightarrow> parse_defns option" where
  "set_del st b = map_option (\<lambda>a. st\<lparr>pd_del := a\<rparr>) (arr_set (pd_del st) (pd_num st) b)"

text \<open>The loop that moves \<^verbatim>\<open>end[num]\<close> back over white space.\<close>

fun trim_end :: "string \<Rightarrow> nat \<Rightarrow> nat \<Rightarrow> nat" where
  "trim_end s p 0 = 0"
| "trim_end s p (Suc e) = (if p < Suc e \<and> is_space (c_at s e) then trim_end s p e else Suc e)"

text \<open>\<^verbatim>\<open>end[num] = c\<close>, trimmed, then \<^verbatim>\<open>num++\<close> and \<^verbatim>\<open>del[num] = d\<close>.\<close>

definition close_item :: "string \<Rightarrow> parse_defns \<Rightarrow> nat \<Rightarrow> bool \<Rightarrow> parse_defns option" where
  "close_item s st c d =
     Option.bind (arr_set (pd_end st) (pd_num st) (trim_end s (pd_ptr st ! pd_num st) c))
       (\<lambda>a. set_del (st\<lparr>pd_end := a, pd_num := pd_num st + 1\<rparr>) d)"

text \<open>The cases of the switch, each with the cases it falls through to.\<close>

definition step_inValue :: "string \<Rightarrow> parse_defns \<Rightarrow> nat \<Rightarrow> bool \<Rightarrow> parse_defns option" where
  "step_inValue s st c escape =
     (if pd_quote st \<noteq> None \<or> escape \<or> c_at s c \<noteq> CHR '','' then Some st
      else map_option (\<lambda>st'. st'\<lparr>pd_state := preName\<rparr>) (close_item s st c False))"

definition step_preValue :: "string \<Rightarrow> parse_defns \<Rightarrow> nat \<Rightarrow> bool \<Rightarrow> parse_defns option" where
  "step_preValue s st c escape =
     (if pd_quote st = None \<and> \<not> escape \<and> is_space (c_at s c) then Some st
      else Option.bind (set_ptr st c) (\<lambda>st'. step_inValue s (st'\<lparr>pd_state := inValue\<rparr>) c escape))"

definition step_inName :: "string \<Rightarrow> parse_defns \<Rightarrow> nat \<Rightarrow> bool \<Rightarrow> parse_defns option" where
  "step_inName s st c escape =
     (if pd_quote st \<noteq> None \<or> escape \<or> (c_at s c \<noteq> CHR ''='' \<and> c_at s c \<noteq> CHR '','') then Some st
      else
        Option.bind (close_item s st c False) (\<lambda>st1.
        let st2 = st1\<lparr>pd_state := preValue\<rparr> in
        if c_at s c \<noteq> CHR '','' then Some st2
        else Option.bind (set_del st2 True) (\<lambda>st3. step_preValue s st3 c escape)))"

definition step_preName :: "string \<Rightarrow> parse_defns \<Rightarrow> nat \<Rightarrow> bool \<Rightarrow> parse_defns option" where
  "step_preName s st c escape =
     (if pd_quote st = None \<and> \<not> escape \<and> (is_space (c_at s c) \<or> c_at s c = CHR '','') then Some st
      else Option.bind (set_ptr st c) (\<lambda>st'. step_inName s (st'\<lparr>pd_state := inName\<rparr>) c escape))"

definition next_quote :: "char option \<Rightarrow> char \<Rightarrow> char option" where
  "next_quote quote c =
     (case quote of
        Some q \<Rightarrow> if c = q then None else quote
      | None \<Rightarrow> if c \<in> {CHR 0x27, CHR 0x22} then Some c else None)"

definition is_escape :: "string \<Rightarrow> nat \<Rightarrow> bool" where
  "is_escape s c \<longleftrightarrow> c_at s c = char_backslash \<and> c_at s (c + 1) \<noteq> char_nul"

definition parse_step :: "string \<Rightarrow> parse_defns \<Rightarrow> nat \<Rightarrow> parse_defns option" where
  "parse_step s st0 c =
     (let st = st0\<lparr>pd_quote := next_quote (pd_quote st0) (c_at s c)\<rparr>;
          escape = is_escape s c
      in case pd_state st of
           preName \<Rightarrow> step_preName s st c escape
         | inName \<Rightarrow> step_inName s st c escape
         | preValue \<Rightarrow> step_preValue s st c escape
         | inValue \<Rightarrow> step_inValue s st c escape)"

function parse_loop :: "string \<Rightarrow> parse_defns \<Rightarrow> nat \<Rightarrow> (parse_defns \<times> nat) option" where
  "parse_loop s st c =
     (if c_at s c = char_nul then Some (st, c)
      else Option.bind (parse_step s st c)
             (\<lambda>st'. parse_loop s st' (if is_escape s c then c + 2 else c + 1)))"
  by pat_completeness auto

termination parse_loop
  by (relation "measure (\<lambda>(s, st, c). length s - c)")
     (auto simp: c_at_def split: if_splits)

declare parse_loop.simps [simp del]

text \<open>The switch behind the loop.\<close>

definition finish_preValue :: "string \<Rightarrow> parse_defns \<Rightarrow> nat \<Rightarrow> parse_defns option" where
  "finish_preValue s st c =
     Option.bind (set_ptr st c) (\<lambda>st'. close_item s st' c False)"

definition parse_finish :: "string \<Rightarrow> parse_defns \<Rightarrow> nat \<Rightarrow> parse_defns option" where
  "parse_finish s st c =
     (case pd_state st of
        preName \<Rightarrow> Some st
      | inName \<Rightarrow> Option.bind (close_item s st c True) (\<lambda>st'. finish_preValue s st' c)
      | preValue \<Rightarrow> finish_preValue s st c
      | inValue \<Rightarrow> close_item s st c False)"

definition item_string :: "string \<Rightarrow> parse_defns \<Rightarrow> nat \<Rightarrow> string option" where
  "item_string s st i =
     (if pd_del st ! i then None
      else Some (take (pd_end st ! i - pd_ptr st ! i) (drop (pd_ptr st ! i) s)))"

text \<open>Quotes and escapes are removed from a name in place.\<close>

fun unquote_name :: "char option \<Rightarrow> string \<Rightarrow> string" where
  "unquote_name quote [] = []"
| "unquote_name quote (c # cs) =
     (if quote = Some c then unquote_name None cs
      else if quote = None \<and> c \<in> {CHR 0x27, CHR 0x22} then unquote_name (Some c) cs
      else if c = char_backslash then
        (case cs of [] \<Rightarrow> [c] | d # ds \<Rightarrow> d # unquote_name quote ds)
      else c # unquote_name quote cs)"

fun unquote_names :: "string option list \<Rightarrow> string option list" where
  "unquote_names (Some name # value # rest) = Some (unquote_name None name) # value # unquote_names rest"
| "unquote_names rest = rest"

definition macParseDefns :: "string \<Rightarrow> (int \<times> string option list) option" where
  "macParseDefns defns =
     (let numMax = max (length defns) 4;
          st0 = \<lparr>pd_num = 0, pd_ptr = replicate numMax 0, pd_end = replicate numMax 0,
                 pd_del = replicate numMax False, pd_quote = None, pd_state = preName\<rparr>
      in Option.bind (parse_loop defns st0 0) (\<lambda>(st1, c).
         map_option
           (\<lambda>st. (int (pd_num st div 2),
                  unquote_names (map (item_string defns st) [0..<pd_num st] @ [None, None])))
           (parse_finish defns st1 c)))"

definition macInstallMacros ::
  "(string \<Rightarrow> string option) \<Rightarrow> MAC_HANDLE \<Rightarrow> string option list \<Rightarrow> int \<times> MAC_HANDLE" where
  "macInstallMacros getenv h pairs =
     (case put_pairs getenv h pairs of None \<Rightarrow> (- 1, h) | Some (n, h') \<Rightarrow> (int n, h'))"

section \<open>Expanding into an allocated string\<close>

text \<open>
  The loop of \<^verbatim>\<open>macDefExpand\<close>, which doubles the capacity until the expansion fits. The handle
  is the one left by the calls before.
\<close>

primrec def_expand_loop ::
  "nat \<Rightarrow> (string \<Rightarrow> string option) \<Rightarrow> MAC_HANDLE \<Rightarrow> string \<Rightarrow> int \<Rightarrow>
   (int \<times> string option \<times> MAC_HANDLE) option" where
  "def_expand_loop 0 getenv h str destCapacity = None"
| "def_expand_loop (Suc n) getenv h str destCapacity =
     Option.bind (macExpandString n getenv h str (destCapacity * 2)) (\<lambda>(r, dest, h1).
     if destCapacity * 2 - 1 \<le> r then def_expand_loop n getenv h1 str (destCapacity * 2)
     else Some (r, dest, h1))"

definition macDefExpand ::
  "nat \<Rightarrow> (string \<Rightarrow> string option) \<Rightarrow> string \<Rightarrow> MAC_HANDLE option \<Rightarrow>
   (string option \<times> MAC_HANDLE option) option" where
  "macDefExpand n getenv str macros =
     (case (case macros of
              Some h \<Rightarrow> Some h
            | None \<Rightarrow> macCreateHandle getenv [Some '''', Some ''environ'', None, None]) of
        None \<Rightarrow> Some (None, None)
      | Some h \<Rightarrow>
          map_option
            (\<lambda>(r, dest, h1).
              (if r < 0 then None else dest,
               if macros = None then Some (snd (macDeleteHandle h1)) else Some h1))
            (def_expand_loop n getenv h str 128))"

definition macEnvExpand ::
  "nat \<Rightarrow> (string \<Rightarrow> string option) \<Rightarrow> string \<Rightarrow> (string option \<times> MAC_HANDLE option) option" where
  "macEnvExpand n getenv str = macDefExpand n getenv str None"

end
