(* ===== verification/MacFrame.thy ===== *)
theory MacFrame
  imports MacUtil "HOL-Library.Sublist"
begin

text \<open>
  What a translation leaves of the macro table. The contract of \<^verbatim>\<open>trans\<close> is a locale: \<^verbatim>\<open>refer\<close>
  calls \<^verbatim>\<open>trans\<close> through it, and the loop of \<^verbatim>\<open>trans\<close> satisfies it for every amount of fuel.
\<close>

section \<open>Well-formed handles\<close>

definition mac_wf :: "MAC_HANDLE \<Rightarrow> bool" where
  "mac_wf h \<longleftrightarrow>
     magic h = MAC_MAGIC \<and> 0 \<le> level h \<and> (\<forall>e \<in> set (entries h). elevel e \<le> level h) \<and>
     (dirty h \<or> (\<forall>e \<in> set (entries h). special e \<or> evalue e \<noteq> None))"

text \<open>
  The entries that appear below a scope marker or on behalf of the environment.
\<close>

definition plain_entry :: "int \<Rightarrow> MAC_ENTRY \<Rightarrow> bool" where
  "plain_entry l e \<longleftrightarrow> \<not> special e \<and> \<not> visited e \<and> elevel e \<le> l"

definition extends :: "MAC_HANDLE \<Rightarrow> MAC_HANDLE \<Rightarrow> bool" where
  "extends h h' \<longleftrightarrow>
     magic h' = magic h \<and> level h' = level h \<and> debug h' = debug h \<and> flags h' = flags h \<and>
     (dirty h' \<or> h' = h) \<and>
     (\<exists>xs. entries h' = entries h @ xs \<and> (\<forall>x \<in> set xs. plain_entry (level h) x) \<and>
           (uses_environment h \<or> xs = []))"

lemma extends_refl [simp, intro]: "extends h h"
  by (auto simp: extends_def)

lemma uses_environment_extends: "extends h h' \<Longrightarrow> uses_environment h' = uses_environment h"
  by (simp add: extends_def uses_environment_def)

lemma extends_trans [trans]:
  assumes "extends h1 h2" and "extends h2 h3"
  shows "extends h1 h3"
proof -
  from assms(1) obtain xs where xs: "entries h2 = entries h1 @ xs"
      "\<forall>x \<in> set xs. plain_entry (level h1) x" "uses_environment h1 \<or> xs = []"
    by (auto simp: extends_def)
  from assms(2) obtain ys where ys: "entries h3 = entries h2 @ ys"
      "\<forall>x \<in> set ys. plain_entry (level h2) x" "uses_environment h2 \<or> ys = []"
    by (auto simp: extends_def)
  have "entries h3 = entries h1 @ (xs @ ys)" "\<forall>x \<in> set (xs @ ys). plain_entry (level h1) x"
      "uses_environment h1 \<or> xs @ ys = []"
    using xs ys assms(1) uses_environment_extends [OF assms(1)] by (auto simp: extends_def)
  then show ?thesis
    using assms unfolding extends_def by metis
qed

lemma extends_wf: "extends h h' \<Longrightarrow> mac_wf h \<Longrightarrow> mac_wf h'"
  by (auto simp: extends_def mac_wf_def plain_entry_def)

lemma extends_same:
  "extends h h' \<Longrightarrow> \<not> uses_environment h \<Longrightarrow> dirty h \<Longrightarrow> h' = h"
  by (auto simp: extends_def)

lemma nth_extends: "extends h h' \<Longrightarrow> k < length (entries h) \<Longrightarrow> entries h' ! k = entries h ! k"
  by (auto simp: extends_def nth_append)

lemma extends_length: "extends h h' \<Longrightarrow> length (entries h) \<le> length (entries h')"
  by (auto simp: extends_def)

lemma lookup_extends:
  assumes "mac_lookup getenv h name sp = (r, h')"
  shows "extends h h'"
  using assms
  by (auto simp: mac_lookup_def mac_create_def upd_entry_def mac_rawval_def Let_def extends_def
      plain_entry_def split: option.splits if_splits)

lemma lookup_bound:
  "mac_lookup getenv h name sp = (Some k, h') \<Longrightarrow> k < length (entries h')"
  by (rule mac_lookup_Some)

lemma lookup_special:
  "mac_lookup getenv h name sp = (Some k, h') \<Longrightarrow> special (entries h' ! k) = sp"
  by (auto simp: mac_lookup_def mac_create_def mac_rawval_def upd_entry_def Let_def
      dest: lookup_back_Some split: option.splits if_splits)

text \<open>Setting and clearing the mark \<^verbatim>\<open>visited\<close> around a translation is invisible afterwards.\<close>

lemma extends_visited:
  assumes "k < length (entries h)" and "\<not> visited (entries h ! k)" and "dirty h"
    and "extends (upd_entry k (\<lambda>e. e\<lparr>visited := True\<rparr>) h) h'"
  shows "extends h (upd_entry k (\<lambda>e. e\<lparr>visited := False\<rparr>) h')"
proof -
  let ?e = "entries h ! k"
  from assms(4) obtain xs where xs: "entries h' = (entries h)[k := ?e\<lparr>visited := True\<rparr>] @ xs"
      "\<forall>x \<in> set xs. plain_entry (level h) x" "uses_environment h \<or> xs = []"
    by (auto simp: extends_def upd_entry_def uses_environment_def)
  have "(?e\<lparr>visited := True\<rparr>)\<lparr>visited := False\<rparr> = ?e"
    using assms(2) by simp
  then have "(entries h')[k := (entries h' ! k)\<lparr>visited := False\<rparr>] = entries h @ xs"
    using xs(1) assms(1) by (simp add: nth_append list_update_append)
  moreover have "dirty h'"
    using assms(3,4) by (auto simp: extends_def upd_entry_def)
  ultimately show ?thesis
    using xs assms(4) by (auto simp: extends_def upd_entry_def)
qed

lemma mac_wf_visited:
  "k < length (entries h) \<Longrightarrow> dirty h \<Longrightarrow> mac_wf h \<Longrightarrow>
     mac_wf (upd_entry k (\<lambda>e. e\<lparr>visited := b\<rparr>) h)"
  by (auto simp: mac_wf_def upd_entry_def set_conv_nth nth_list_update)

lemma mac_wf_suppress [simp]: "mac_wf (suppress_warnings h) = mac_wf h"
  by (simp add: mac_wf_def suppress_warnings_def)

lemma suppress_environment [simp]:
  "uses_environment (suppress_warnings h) = uses_environment h"
  by (simp add: uses_environment_def suppress_warnings_def FLAG_SUPPRESS_WARNINGS_def
      FLAG_USE_ENVIRONMENT_def word_ao_dist)

text \<open>Running with warnings suppressed and restoring the flags.\<close>

lemma extends_restore_flags:
  "extends (suppress_warnings h) h' \<Longrightarrow> extends h (h'\<lparr>flags := flags h\<rparr>)"
  using suppress_environment [of h]
  by (auto simp: extends_def suppress_warnings_def)

section \<open>Scopes\<close>

text \<open>
  Between \<^verbatim>\<open>macPushScope\<close> and \<^verbatim>\<open>macPopScope\<close> the table is the old one, the marker and plain entries.
\<close>

definition in_scope :: "MAC_HANDLE \<Rightarrow> MAC_HANDLE \<Rightarrow> bool" where
  "in_scope h g \<longleftrightarrow>
     magic g = magic h \<and> level g = level h + 1 \<and> debug g = debug h \<and>
     uses_environment g = uses_environment h \<and> (dirty h \<longrightarrow> dirty g) \<and>
     (\<exists>m xs. entries g = entries h @ m # xs \<and> special m \<and> ename m = ''<scope>'' \<and>
             elevel m = level g \<and> (\<forall>x \<in> set xs. plain_entry (level g) x))"

lemma push_in_scope:
  assumes "mac_wf h"
  shows "in_scope h (snd (macPushScope h))"
  using assms
  by (auto simp: in_scope_def macPushScope_def mac_wf_def mac_create_def upd_entry_def Let_def
      uses_environment_def)

lemma push_flags [simp]: "flags (snd (macPushScope h)) = flags h"
  by (auto simp: macPushScope_def mac_create_def upd_entry_def Let_def)

lemma push_wf: "mac_wf h \<Longrightarrow> mac_wf (snd (macPushScope h))"
  by (auto simp: macPushScope_def mac_wf_def mac_create_def upd_entry_def Let_def)

lemma in_scope_extends:
  assumes "in_scope h g" and "extends g g'"
  shows "in_scope h g'"
proof -
  from assms(1) obtain m xs where 1: "entries g = entries h @ m # xs" "special m"
      "ename m = ''<scope>''" "elevel m = level g" "\<forall>x \<in> set xs. plain_entry (level g) x"
    by (auto simp: in_scope_def)
  from assms(2) obtain ys where 2: "entries g' = entries g @ ys"
      "\<forall>x \<in> set ys. plain_entry (level g) x"
    by (auto simp: extends_def)
  have "entries g' = entries h @ m # (xs @ ys)" "\<forall>x \<in> set (xs @ ys). plain_entry (level g') x"
      "elevel m = level g'"
    using 1 2 assms(2) by (auto simp: extends_def)
  then show ?thesis
    using assms 1(2,3) uses_environment_extends [OF assms(2)]
    unfolding in_scope_def extends_def by metis
qed

lemma in_scope_dirty: "in_scope h g \<Longrightarrow> in_scope h (g\<lparr>dirty := True\<rparr>)"
  by (auto simp: in_scope_def uses_environment_def)

lemma delete_from_eq:
  "delete_from h k =
     (if k < length (entries h) then h\<lparr>entries := take k (entries h), dirty := True\<rparr> else h)"
proof (induction h k rule: delete_from.induct)
  case (1 h k)
  show ?case
  proof (cases "k < length (entries h)")
    case True
    then have "delete_from h k = delete_from (mac_delete h k) k"
      by (subst delete_from.simps) simp
    also have "\<dots> = h\<lparr>entries := take k (entries h), dirty := True\<rparr>"
      using 1 True by (auto simp: mac_delete_def min_def)
    finally show ?thesis using True by simp
  qed (subst delete_from.simps, simp)
qed

lemma lookup_marker:
  assumes "entries g = es @ m # xs" "special m" "ename m = ''<scope>''"
    and "\<forall>x \<in> set xs. \<not> special x"
  shows "lookup_back (entries g) ''<scope>'' True (length (entries g)) = Some (length es)"
proof -
  have "lookup_back (entries g) ''<scope>'' True (length es + 1 + k) = Some (length es)"
    if "k \<le> length xs" for k
    using that
  proof (induction k)
    case (Suc k)
    then have "entries g ! (length es + 1 + k) = xs ! k"
      by (simp add: assms(1) nth_append)
    then show ?case
      using Suc assms(4) by simp
  qed (simp add: assms)
  from this [of "length xs"] show ?thesis by (simp add: assms(1))
qed

theorem pop_in_scope:
  assumes "in_scope h g" and "mac_wf h"
  shows "macPopScope g = (0, g\<lparr>entries := entries h, level := level h, dirty := True\<rparr>)"
proof -
  from assms(1) obtain m xs where g: "entries g = entries h @ m # xs" "special m"
      "ename m = ''<scope>''" "\<forall>x \<in> set xs. plain_entry (level g) x"
      "magic g = magic h" "level g = level h + 1"
    by (auto simp: in_scope_def)
  then have "mac_lookup (\<lambda>_. None) g ''<scope>'' True = (Some (length (entries h)), g)"
    using lookup_marker [OF g(1,2,3)] by (simp add: mac_lookup_def plain_entry_def)
  with g assms(2) show ?thesis
    by (simp add: macPopScope_def delete_from_eq mac_wf_def Let_def)
qed

text \<open>The two branches of \<^verbatim>\<open>macPutValue\<close>: a value is replaced, or a new entry is made.\<close>

definition macro_entry :: "string \<Rightarrow> string \<Rightarrow> int \<Rightarrow> MAC_ENTRY" where
  "macro_entry name v l =
     \<lparr>ename = name, etype = ''macro'', rawval = Some v, evalue = None, elength = 0,
      eerror = False, visited = False, special = False, elevel = l\<rparr>"

lemma put_update:
  assumes "magic g = MAC_MAGIC" "mac_lookup getenv g name False = (Some k, g1)"
    and "level g1 \<le> elevel (entries g1 ! k)"
  shows "macPutValue getenv g name (Some v) =
    (int (length v),
     g1\<lparr>entries := (entries g1)[k := (entries g1 ! k)\<lparr>rawval := Some v\<rparr>], dirty := True\<rparr>)"
  using assms by (simp add: macPutValue_def mac_rawval_def upd_entry_def)

lemma put_create:
  assumes "magic g = MAC_MAGIC" "mac_lookup getenv g name False = (r, g1)"
    and "\<And>k. r = Some k \<Longrightarrow> elevel (entries g1 ! k) < level g1"
  shows "macPutValue getenv g name (Some v) =
    (int (length v), g1\<lparr>entries := entries g1 @ [macro_entry name v (level g1)], dirty := True\<rparr>)"
  using assms
  by (cases r) (simp_all add: macPutValue_def mac_rawval_def upd_entry_def mac_create_def
      macro_entry_def Let_def)

lemma put_wf:
  assumes "mac_wf g"
  shows "mac_wf (snd (macPutValue getenv g name (Some v)))"
proof -
  obtain r g1 where 1: "mac_lookup getenv g name False = (r, g1)" by fastforce
  then have wf: "mac_wf g1" and m: "magic g = MAC_MAGIC"
    using extends_wf lookup_extends assms by (blast, simp add: mac_wf_def)
  show ?thesis
  proof (cases "\<exists>k. r = Some k \<and> level g1 \<le> elevel (entries g1 ! k)")
    case True
    then obtain k where k: "r = Some k" "level g1 \<le> elevel (entries g1 ! k)" by blast
    have b: "k < length (entries g1)" using 1 k lookup_bound by blast
    then have "elevel (entries g1 ! k) \<le> level g1"
      using wf by (simp add: mac_wf_def)
    then show ?thesis
      using put_update [OF m 1 [unfolded k(1)] k(2)] wf set_update_subset_insert
      by (fastforce simp: mac_wf_def)
  next
    case False
    then have "\<And>k. r = Some k \<Longrightarrow> elevel (entries g1 ! k) < level g1" by force
    then show ?thesis
      using put_create [OF m 1] wf by (auto simp: mac_wf_def macro_entry_def)
  qed
qed

lemma in_scope_append:
  "in_scope h g \<Longrightarrow> plain_entry (level g) e \<Longrightarrow>
     in_scope h (g\<lparr>entries := entries g @ [e], dirty := True\<rparr>)"
  by (auto simp: in_scope_def uses_environment_def)

lemma in_scope_update:
  assumes "in_scope h g" "mac_wf h" "k < length (entries g)" "\<not> special (entries g ! k)"
    and "level g \<le> elevel (entries g ! k)"
    and "\<And>l e. plain_entry l e \<Longrightarrow> plain_entry l (f e)"
  shows "in_scope h (g\<lparr>entries := (entries g)[k := f (entries g ! k)], dirty := True\<rparr>)"
proof -
  from assms(1) obtain m xs where g: "entries g = entries h @ m # xs" "special m"
      "ename m = ''<scope>''" "elevel m = level g" "\<forall>x \<in> set xs. plain_entry (level g) x"
      "level g = level h + 1"
    by (auto simp: in_scope_def)
  have "\<not> k < length (entries h)"
  proof
    assume "k < length (entries h)"
    then have "elevel (entries g ! k) \<le> level h"
      using assms(2) g(1) by (simp add: mac_wf_def nth_append)
    with assms(5) g(6) show False by simp
  qed
  moreover have "k \<noteq> length (entries h)"
    using assms(4) g by auto
  ultimately obtain j where j: "k = length (entries h) + Suc j" "j < length xs"
    using assms(3) g(1) that [of "k - length (entries h) - 1"] by simp
  then have "(entries g)[k := f (entries g ! k)] = entries h @ m # xs[j := f (xs ! j)]"
    using g(1) by (simp add: list_update_append nth_append)
  moreover have "\<forall>x \<in> set (xs[j := f (xs ! j)]). plain_entry (level g) x"
    using g(5) assms(6) j(2) set_update_subset_insert [of xs j "f (xs ! j)"] by fastforce
  ultimately show ?thesis
    using assms(1) g by (auto simp: in_scope_def uses_environment_def)
qed

lemma put_in_scope:
  assumes "in_scope h g" and "mac_wf h"
  shows "in_scope h (snd (macPutValue getenv g name (Some v)))"
proof -
  obtain r g1 where 1: "mac_lookup getenv g name False = (r, g1)" by fastforce
  then have sc: "in_scope h g1" and m: "magic g = MAC_MAGIC"
    using in_scope_extends [OF assms(1) lookup_extends] assms
    by (blast, simp add: in_scope_def mac_wf_def)
  show ?thesis
  proof (cases "\<exists>k. r = Some k \<and> level g1 \<le> elevel (entries g1 ! k)")
    case True
    then obtain k where k: "r = Some k" "level g1 \<le> elevel (entries g1 ! k)" by blast
    have b: "k < length (entries g1)" using 1 k lookup_bound by blast
    have "\<not> special (entries g1 ! k)"
      using 1 k(1) lookup_special by blast
    then show ?thesis
      using put_update [OF m 1 [unfolded k(1)] k(2)]
        in_scope_update [OF sc assms(2) b _ k(2), of "\<lambda>e. e\<lparr>rawval := Some v\<rparr>"]
      by (simp add: plain_entry_def)
  next
    case False
    then have "\<And>k. r = Some k \<Longrightarrow> elevel (entries g1 ! k) < level g1" by force
    then show ?thesis
      using put_create [OF m 1] in_scope_append [OF sc]
      by (simp add: macro_entry_def plain_entry_def)
  qed
qed

section \<open>The contract of the translation\<close>

definition appends :: "nat \<Rightarrow> string \<Rightarrow> string \<Rightarrow> bool" where
  "appends cap out out' \<longleftrightarrow> length out' \<le> cap \<and> prefix out out'"

lemma appends_refl [simp]: "appends cap out out \<longleftrightarrow> length out \<le> cap"
  by (simp add: appends_def)

lemma appends_trans: "appends cap a b \<Longrightarrow> appends cap b c \<Longrightarrow> appends cap a c"
  unfolding appends_def using prefix_order.trans by blast

lemma appends_length: "appends cap a b \<Longrightarrow> length b \<le> cap"
  by (simp add: appends_def)

lemma appends_full: "appends (length out) out out' \<Longrightarrow> out' = out"
  by (auto simp: appends_def prefix_def)

lemma appends_vput: "length out \<le> cap \<Longrightarrow> appends cap out (vput cap out c)"
  by (simp add: appends_def vput_def)

lemma appends_cpy2val: "length out \<le> cap \<Longrightarrow> appends cap out (cpy2val src out cap)"
  by (simp add: appends_def cpy2val_def)

lemma appends_bad_reference:
  assumes "length out \<le> cap"
  shows "appends cap out (bad_reference h refname errval out cap)"
proof -
  let ?v1 = "vput cap out CHR ''$''"
  let ?v2 = "vput cap ?v1 CHR ''(''"
  let ?v3 = "cpy2val refname ?v2 cap"
  have 1: "appends cap out ?v1" using assms by (rule appends_vput)
  have 2: "appends cap ?v1 ?v2" using appends_length [OF 1] by (rule appends_vput)
  have 3: "appends cap ?v2 ?v3" using appends_length [OF 2] by (rule appends_cpy2val)
  have "appends cap ?v3 (bad_reference h refname errval out cap)"
    using appends_length [OF 3] appends_vput appends_cpy2val
    by (simp add: bad_reference_def Let_def)
  with 1 2 3 show ?thesis using appends_trans by blast
qed

lemma appends_trans_char:
  assumes "length out \<le> cap" and "trans_char s i out cap d = (i', out')"
  shows "appends cap out out'"
  using assms
  by (auto simp: trans_char_def vput_def appends_def Let_def split: if_splits)

locale trans_contract =
  fixes tr :: trans_fn
  assumes tr_ok:
    "tr h err lev term s i quote out cap = Some (h', err', i', out') \<Longrightarrow> mac_wf h \<Longrightarrow>
     length out \<le> cap \<Longrightarrow> extends h h' \<and> (err \<longrightarrow> err') \<and> appends cap out out'"
begin

lemma default_ok:
  assumes "mac_default tr h lev macEnd s r out = Some (h', r', defval, out')" and "mac_wf h"
  shows "extends h h' \<and> out' = out"
proof (cases "c_at s r = CHR ''=''")
  case True
  with assms(1) obtain g e where
      "tr (suppress_warnings h) False (lev + 1) (tl macEnd) s (r + 1) None out (length out) =
         Some (g, e, r', out')" and h': "h' = g\<lparr>flags := flags h\<rparr>"
    by (auto simp: mac_default_def)
  from tr_ok [OF this(1)] show ?thesis
    using assms(2) extends_restore_flags appends_full by (simp add: h')
qed (use assms in \<open>simp add: mac_default_def\<close>)

lemma scoped_loop_ok:
  assumes "scoped_loop tr getenv n g err lev macEnd s r = Some (g', r')"
    and "in_scope h g" and "mac_wf h" and "mac_wf g"
  shows "in_scope h g' \<and> mac_wf g'"
  using assms
proof (induction n arbitrary: g err r)
  case (Suc n)
  show ?case
  proof (cases "c_at s r = CHR '',''")
    case True
    then obtain h1 err1 r1 subname where
        1: "tr g err (lev + 1) macEnd s (r + 1) None [] MAC_SIZE = Some (h1, err1, r1, subname)"
      using Suc.prems(1) by (auto split: bind_splits)
    then have h1: "in_scope h h1" "mac_wf h1"
      using tr_ok [OF 1 Suc.prems(4)] Suc.prems in_scope_extends extends_wf by auto
    show ?thesis
    proof (cases "c_at s r1 = CHR ''=''")
      case True
      with 1 \<open>c_at s r = _\<close> obtain h2 err2 r2 subval where
          2: "tr h1 err1 (lev + 1) (tl macEnd) s (r1 + 1) None [] MAC_SIZE = Some (h2, err2, r2, subval)"
        using Suc.prems(1) by (auto split: bind_splits)
      let ?h3 = "(snd (macPutValue getenv h2 subname (Some subval)))\<lparr>dirty := True\<rparr>"
      have "in_scope h h2" "mac_wf h2"
        using tr_ok [OF 2 h1(2)] h1 in_scope_extends extends_wf by auto
      then have "in_scope h ?h3" "mac_wf ?h3"
        using put_in_scope [of h h2] put_wf [of h2] in_scope_dirty Suc.prems(3)
        by (auto simp: mac_wf_def)
      moreover have "scoped_loop tr getenv n ?h3 err2 lev macEnd s r2 = Some (g', r')"
        using Suc.prems(1) 1 2 True \<open>c_at s r = _\<close> by (simp add: Let_def)
      ultimately show ?thesis
        using Suc.IH Suc.prems(3) by blast
    next
      case False
      then have "scoped_loop tr getenv n h1 err1 lev macEnd s r1 = Some (g', r')"
        using Suc.prems(1) 1 \<open>c_at s r = _\<close> by simp
      then show ?thesis
        using Suc.IH Suc.prems(3) h1 by blast
    qed
  qed (use Suc.prems in simp)
qed simp

lemma value_ok:
  assumes "mac_value tr getenv h err lev macEnd s defval refname out cap = Some (h', err', out')"
    and "mac_wf h" and "length out \<le> cap"
  shows "extends h h' \<and> (err \<longrightarrow> err') \<and> appends cap out out'"
proof -
  obtain r h1 where 1: "mac_lookup getenv h refname False = (r, h1)" by fastforce
  have ext: "extends h h1" and wf: "mac_wf h1"
    using lookup_extends [OF 1] extends_wf assms(2) by auto
  have "extends h1 h' \<and> (err \<longrightarrow> err') \<and> appends cap out out'"
  proof (cases r)
    case None
    show ?thesis
    proof (cases defval)
      case (Some d)
      then obtain i' where "tr h1 err (lev + 1) (tl macEnd) s d None out cap = Some (h', err', i', out')"
        using assms(1) 1 None by (auto simp: mac_value_def)
      from tr_ok [OF this wf assms(3)] show ?thesis .
    qed (use assms 1 None appends_bad_reference in \<open>auto simp: mac_value_def\<close>)
  next
    case (Some k)
    let ?e = "entries h1 ! k"
    have k: "k < length (entries h1)" using 1 Some lookup_bound by blast
    consider "visited ?e" | "\<not> visited ?e" "\<not> dirty h1" | "\<not> visited ?e" "dirty h1" "rawval ?e = None"
      | rv where "\<not> visited ?e" "dirty h1" "rawval ?e = Some rv"
      by (cases "rawval ?e") auto
    then show ?thesis
    proof cases
      case 4
      then obtain h2 i' where
          2: "tr (upd_entry k (\<lambda>e. e\<lparr>visited := True\<rparr>) h1) err (lev + 1) [] rv 0 None out cap =
               Some (h2, err', i', out')"
        and h': "h' = upd_entry k (\<lambda>e. e\<lparr>visited := False\<rparr>) h2"
        using assms(1) 1 Some by (auto simp: mac_value_def Let_def)
      from tr_ok [OF 2 mac_wf_visited [OF k 4(2) wf] assms(3)] show ?thesis
        using extends_visited [OF k 4(1,2)] h' by blast
    qed (use assms 1 Some appends_bad_reference appends_cpy2val in
        \<open>auto simp: mac_value_def Let_def\<close>)
  qed
  with ext show ?thesis using extends_trans by blast
qed

lemma scoped_ok:
  assumes "mac_scoped tr getenv n h lev macEnd s r = Some (h', r', pop)" and "mac_wf h"
  shows "mac_wf h' \<and> (if pop then in_scope h h' \<and> flags h' = flags h else h' = h)"
proof (cases "c_at s r = CHR '',''")
  case True
  let ?g = "snd (macPushScope (suppress_warnings h))"
  from True assms(1) obtain g where
      1: "scoped_loop tr getenv n ?g False lev macEnd s r = Some (g, r')"
    and h': "h' = g\<lparr>flags := flags h\<rparr>" "pop"
    by (auto simp: mac_scoped_def)
  have "in_scope (suppress_warnings h) g \<and> mac_wf g"
    using scoped_loop_ok [OF 1 push_in_scope _ push_wf] assms(2) by simp
  then show ?thesis
    using h' suppress_environment [of h]
    by (auto simp: in_scope_def mac_wf_def uses_environment_def suppress_warnings_def)
qed (use assms in \<open>auto simp: mac_scoped_def\<close>)

lemma refer_ok:
  assumes "mac_refer tr getenv n h err lev s i out cap = Some (h', err', i', out')"
    and "mac_wf h" and "length out \<le> cap"
  shows "extends h h' \<and> (err \<longrightarrow> err') \<and> appends cap out out'"
proof -
  let ?me = "mac_end s (i + 1)"
  from assms(1) obtain h1 err1 r1 refname h2 r2 defval out2 h3 pop h4 where
      1: "tr h err (lev + 1) ?me s (i + 2) None [] MAC_SIZE = Some (h1, err1, r1, refname)"
    and 2: "mac_default tr h1 lev ?me s r1 out = Some (h2, r2, defval, out2)"
    and 3: "mac_scoped tr getenv n h2 lev ?me s r2 = Some (h3, i', pop)"
    and 4: "mac_value tr getenv h3 err1 lev ?me s defval refname out2 cap = Some (h4, err', out')"
    and h': "h' = pop_if pop h4"
    by (auto simp: mac_refer_def Let_def split: bind_splits)
  have a: "extends h h1" "err \<longrightarrow> err1" using tr_ok [OF 1 assms(2)] by auto
  then have wf1: "mac_wf h1" using extends_wf assms(2) by blast
  have b: "extends h1 h2" "out2 = out" using default_ok [OF 2 wf1] by auto
  then have wf2: "mac_wf h2" using extends_wf wf1 by blast
  have c: "mac_wf h3" "if pop then in_scope h2 h3 \<and> flags h3 = flags h2 else h3 = h2"
    using scoped_ok [OF 3 wf2] by auto
  have d: "extends h3 h4" "err1 \<longrightarrow> err'" "appends cap out out'"
    using value_ok [OF 4 c(1)] assms(3) b(2) by auto
  have "extends h2 h'"
  proof (cases pop)
    case True
    with c d have "in_scope h2 h4" "flags h4 = flags h2"
      using in_scope_extends by (auto simp: extends_def)
    moreover from this have "h' = h4\<lparr>entries := entries h2, level := level h2, dirty := True\<rparr>"
      using pop_in_scope wf2 True by (simp add: h' pop_if_def)
    ultimately show ?thesis by (auto simp: extends_def in_scope_def)
  next
    case False
    with c d h' show ?thesis by (simp add: pop_if_def)
  qed
  with a b d show ?thesis using extends_trans by blast
qed

end

lemma mac_trans_contract: "trans_contract (mac_trans getenv n)"
proof (induction n)
  case 0
  show ?case by unfold_locales simp
next
  case (Suc n)
  show ?case
  proof
    fix h err lev "term" s i quote out cap h' err' i' out'
    assume run: "mac_trans getenv (Suc n) h err lev term s i quote out cap = Some (h', err', i', out')"
      and wf: "mac_wf h" and len: "length out \<le> cap"
    let ?P = "\<lambda>h err out. extends h h' \<and> (err \<longrightarrow> err') \<and> appends cap out out'"
    obtain quote' skip where q: "trans_quote quote (c_at s i) (0 < lev) = (quote', skip)" by fastforce
    consider "c_at s i = char_nul \<or> c_at s i \<in> set term"
      | "c_at s i \<noteq> char_nul" "c_at s i \<notin> set term" "skip"
      | "c_at s i \<noteq> char_nul" "c_at s i \<notin> set term" "\<not> skip" "is_mac_ref s i \<and> quote' \<noteq> Some (CHR 0x27)"
      | "c_at s i \<noteq> char_nul" "c_at s i \<notin> set term" "\<not> skip" "\<not> (is_mac_ref s i \<and> quote' \<noteq> Some (CHR 0x27))"
      by blast
    then show "?P h err out"
    proof cases
      case 1
      with run len show ?thesis by (auto split: if_splits)
    next
      case 2
      with run q have "mac_trans getenv n h err lev term s (i + 1) quote' out cap = Some (h', err', i', out')"
        by simp
      from trans_contract.tr_ok [OF Suc this wf len] show ?thesis .
    next
      case 3
      with run q obtain h1 err1 i1 out1 where
          a: "mac_refer (mac_trans getenv n) getenv n h err lev s i out cap = Some (h1, err1, i1, out1)"
        and b: "mac_trans getenv n h1 err1 lev term s (i1 + 1) quote' out1 cap = Some (h', err', i', out')"
        by (auto split: bind_splits)
      have c: "extends h h1 \<and> (err \<longrightarrow> err1) \<and> appends cap out out1"
        using trans_contract.refer_ok [OF Suc a wf len] .
      then have "mac_wf h1" "length out1 \<le> cap"
        using extends_wf wf appends_length by auto
      from trans_contract.tr_ok [OF Suc b this] c show ?thesis
        using extends_trans appends_trans by blast
    next
      case 4
      obtain i1 out1 where c: "trans_char s i out cap (0 < lev) = (i1, out1)" by fastforce
      with 4 run q have b: "mac_trans getenv n h err lev term s (i1 + 1) quote' out1 cap = Some (h', err', i', out')"
        by auto
      have "appends cap out out1" using appends_trans_char [OF len c] .
      with trans_contract.tr_ok [OF Suc b wf] show ?thesis
        using appends_length appends_trans by blast
    qed
  qed
qed

interpretation mt: trans_contract "mac_trans getenv n" for getenv n
  by (rule mac_trans_contract)

end
