(* ===== verification/MacInv.thy ===== *)
theory MacInv
  imports MacFrame
begin

text \<open>
  The invariant of a macro context over its life: the states a client reaches with the public
  routines are well-formed, the scope markers and the scoping level agree, and an expansion
  stays within its buffer and keeps the definitions.
\<close>

section \<open>Definitions of a table\<close>

text \<open>What an entry defines, without the cached value.\<close>

definition defn :: "MAC_ENTRY \<Rightarrow> string \<times> string option \<times> bool \<times> bool \<times> int \<times> string" where
  "defn e = (ename e, rawval e, special e, visited e, elevel e, etype e)"

text \<open>The cached value is there and fits its buffer.\<close>

definition value_fits :: "MAC_ENTRY \<Rightarrow> bool" where
  "value_fits e \<longleftrightarrow> (case evalue e of None \<Rightarrow> False | Some v \<Rightarrow> length v \<le> MAC_SIZE \<and> elength e = length v)"

definition keeps_defns :: "MAC_HANDLE \<Rightarrow> MAC_HANDLE \<Rightarrow> bool" where
  "keeps_defns h h' \<longleftrightarrow>
     magic h' = magic h \<and> level h' = level h \<and> flags h' = flags h \<and>
     (\<exists>xs. map defn (entries h') = map defn (entries h) @ map defn xs \<and>
           (\<forall>x \<in> set xs. plain_entry (level h) x) \<and> (uses_environment h \<or> xs = []))"

lemma keeps_defns_refl [simp, intro]: "keeps_defns h h"
  by (auto simp: keeps_defns_def)

lemma keeps_defns_environment: "keeps_defns h h' \<Longrightarrow> uses_environment h' = uses_environment h"
  by (simp add: keeps_defns_def uses_environment_def)

lemma extends_keeps: "extends h h' \<Longrightarrow> keeps_defns h h'"
  by (auto simp: extends_def keeps_defns_def)

lemma keeps_trans:
  assumes "keeps_defns h1 h2" and "keeps_defns h2 h3"
  shows "keeps_defns h1 h3"
proof -
  from assms(1) obtain xs where xs: "map defn (entries h2) = map defn (entries h1) @ map defn xs"
      "\<forall>x \<in> set xs. plain_entry (level h1) x" "uses_environment h1 \<or> xs = []"
    by (auto simp: keeps_defns_def)
  from assms(2) obtain ys where ys: "map defn (entries h3) = map defn (entries h2) @ map defn ys"
      "\<forall>x \<in> set ys. plain_entry (level h2) x" "uses_environment h2 \<or> ys = []"
    by (auto simp: keeps_defns_def)
  have "map defn (entries h3) = map defn (entries h1) @ map defn (xs @ ys)"
      "\<forall>x \<in> set (xs @ ys). plain_entry (level h1) x" "uses_environment h1 \<or> xs @ ys = []"
    using xs ys assms(1) keeps_defns_environment [OF assms(1)] by (auto simp: keeps_defns_def)
  then show ?thesis
    using assms unfolding keeps_defns_def by metis
qed

lemma keeps_upd:
  assumes "k < length (entries h)" and "\<And>e. defn (f e) = defn e"
  shows "keeps_defns h (upd_entry k f h)"
proof -
  have "map defn (entries (upd_entry k f h)) = map defn (entries h)"
    using assms by (intro nth_equalityI) (auto simp: upd_entry_def nth_list_update)
  then show ?thesis by (auto simp: keeps_defns_def upd_entry_def)
qed

section \<open>Expansion of the table\<close>

lemma expand_loop_ok:
  assumes "expand_loop n getenv h k = Some h'" and "mac_wf h" "dirty h" "k \<le> length (entries h)"
    and "\<forall>i<k. value_fits (entries h ! i)"
  shows "keeps_defns h h' \<and> \<not> dirty h' \<and> (\<forall>e \<in> set (entries h'). value_fits e)"
  using assms
proof (induction n arbitrary: h k)
  case (Suc n)
  show ?case
  proof (cases "k < length (entries h)")
    case True
    then obtain h1 err i out where
        1: "(case rawval (entries h ! k) of
               None \<Rightarrow> Some (h, False, 0, [])
             | Some rv \<Rightarrow> mac_trans getenv n h False 1 [] rv 0 None [] MAC_SIZE) =
             Some (h1, err, i, out)"
      and 2: "expand_loop n getenv
          (upd_entry k (\<lambda>e. e\<lparr>evalue := Some out, elength := length out, eerror := err\<rparr>) h1) (Suc k) =
          Some h'" (is "expand_loop n getenv ?h2 _ = _")
      using Suc.prems(1) by (auto split: bind_splits option.splits)
    have "extends h h1 \<and> length out \<le> MAC_SIZE"
    proof (cases "rawval (entries h ! k)")
      case (Some rv)
      with 1 have "mac_trans getenv n h False 1 [] rv 0 None [] MAC_SIZE = Some (h1, err, i, out)" by simp
      from mt.tr_ok [OF this Suc.prems(2)] show ?thesis by (auto dest: appends_length)
    qed (use 1 in simp)
    then have e: "extends h h1" and len: "length out \<le> MAC_SIZE" by auto
    then have k: "k < length (entries h1)" using True extends_length by fastforce
    have keep: "keeps_defns h1 ?h2" using k by (intro keeps_upd) (simp_all add: defn_def)
    have d: "dirty h1" using e Suc.prems(3) by (auto simp: extends_def)
    have "mac_wf ?h2"
      using extends_wf [OF e Suc.prems(2)] d k
      by (auto simp: mac_wf_def upd_entry_def set_conv_nth nth_list_update)
    moreover have "value_fits (entries ?h2 ! i)" if "i < Suc k" for i
    proof (cases "i = k")
      case True
      with k len show ?thesis by (simp add: upd_entry_def value_fits_def)
    next
      case False
      with that Suc.prems(5) nth_extends [OF e, of i] \<open>k < length (entries h)\<close> show ?thesis
        by (simp add: upd_entry_def)
    qed
    moreover have "dirty ?h2" "Suc k \<le> length (entries ?h2)" using d k by (auto simp: upd_entry_def)
    ultimately have "keeps_defns ?h2 h' \<and> \<not> dirty h' \<and> (\<forall>e \<in> set (entries h'). value_fits e)"
      using Suc.IH [OF 2] by blast
    then show ?thesis
      using keeps_trans [OF extends_keeps [OF e] keeps_trans [OF keep]] by blast
  next
    case False
    with Suc.prems show ?thesis by (auto simp: keeps_defns_def in_set_conv_nth)
  qed
qed simp

lemma expand_ok:
  assumes "mac_expand n getenv h = Some h'" and "mac_wf h"
  shows "keeps_defns h h' \<and> \<not> dirty h' \<and> (h' = h \<or> (\<forall>e \<in> set (entries h'). value_fits e))"
  using assms expand_loop_ok [of n getenv h 0 h']
  by (auto simp: mac_expand_def split: if_splits)

section \<open>The invariant\<close>

primrec scope_depth :: "MAC_ENTRY list \<Rightarrow> int" where
  "scope_depth [] = 0"
| "scope_depth (e # es) = (if special e then 1 else 0) + scope_depth es"

text \<open>
  Only scope markers are special, no mark \<^verbatim>\<open>visited\<close> is left behind, and no entry is at a deeper
  level than the scopes opened before it.
\<close>

primrec levels_ok :: "int \<Rightarrow> MAC_ENTRY list \<Rightarrow> bool" where
  "levels_ok l [] \<longleftrightarrow> True"
| "levels_ok l (e # es) \<longleftrightarrow>
     (special e \<longrightarrow> ename e = ''<scope>'') \<and> \<not> visited e \<and>
     elevel e \<le> (if special e then l + 1 else l) \<and> levels_ok (if special e then l + 1 else l) es"

definition mac_inv :: "MAC_HANDLE \<Rightarrow> bool" where
  "mac_inv h \<longleftrightarrow>
     magic h = MAC_MAGIC \<and> level h = scope_depth (entries h) \<and> levels_ok 0 (entries h) \<and>
     (dirty h \<or> (\<forall>e \<in> set (entries h). special e \<or> value_fits e))"

lemma scope_depth_append [simp]: "scope_depth (xs @ ys) = scope_depth xs + scope_depth ys"
  by (induction xs) auto

lemma levels_ok_append [simp]:
  "levels_ok l (xs @ ys) \<longleftrightarrow> levels_ok l xs \<and> levels_ok (l + scope_depth xs) ys"
  by (induction xs arbitrary: l) (auto simp: algebra_simps)

lemma scope_depth_nonneg: "0 \<le> scope_depth es"
  by (induction es) auto

lemma levels_ok_le: "levels_ok l es \<Longrightarrow> e \<in> set es \<Longrightarrow> elevel e \<le> l + scope_depth es"
proof (induction es arbitrary: l)
  case (Cons a es)
  then show ?case using scope_depth_nonneg [of es] by (force split: if_splits)
qed simp

lemma levels_ok_special: "levels_ok l es \<Longrightarrow> e \<in> set es \<Longrightarrow> special e \<Longrightarrow> ename e = ''<scope>''"
  by (induction es arbitrary: l) auto

lemma levels_ok_plain:
  "(\<forall>x \<in> set xs. plain_entry l x) \<Longrightarrow> levels_ok l xs \<and> scope_depth xs = 0"
  by (induction xs) (auto simp: plain_entry_def)

definition scope_key :: "MAC_ENTRY \<Rightarrow> string \<times> bool \<times> bool \<times> int" where
  "scope_key e = (ename e, special e, visited e, elevel e)"

lemma levels_ok_cong:
  "map scope_key es = map scope_key es' \<Longrightarrow>
     levels_ok l es = levels_ok l es' \<and> scope_depth es = scope_depth es'"
proof (induction es arbitrary: es' l)
  case (Cons e es)
  then obtain e' es1 where "es' = e' # es1" by (cases es') auto
  with Cons.prems have "scope_key e = scope_key e'" "map scope_key es = map scope_key es1" by auto
  with Cons.IH [OF this(2)] show ?case by (simp add: \<open>es' = _\<close> scope_key_def)
qed simp

lemma defn_scope_key: "map defn es = map defn es' \<Longrightarrow> map scope_key es = map scope_key es'"
proof -
  let ?f = "\<lambda>(n, r, sp, vi, l, t). (n, sp, vi, l)"
  have "scope_key = ?f \<circ> defn" by (auto simp: fun_eq_iff scope_key_def defn_def)
  moreover assume "map defn es = map defn es'"
  then have "map ?f (map defn es) = map ?f (map defn es')" by (simp only:)
  ultimately show ?thesis by simp
qed

lemma mac_inv_wf: "mac_inv h \<Longrightarrow> mac_wf h"
  using levels_ok_le [of 0 "entries h"] scope_depth_nonneg
  by (auto simp: mac_inv_def mac_wf_def value_fits_def split: option.splits)

lemma mac_inv_extends:
  assumes "mac_inv h" and "extends h h'"
  shows "mac_inv h'"
proof (cases "h' = h")
  case False
  from assms(2) obtain xs where "entries h' = entries h @ xs" "\<forall>x \<in> set xs. plain_entry (level h) x"
    by (auto simp: extends_def)
  with False assms levels_ok_plain [of xs "level h"] show ?thesis
    by (auto simp: mac_inv_def extends_def)
qed (use assms in simp)

lemma mac_inv_keeps:
  assumes "mac_inv h" and "keeps_defns h h'" and "\<forall>e \<in> set (entries h'). value_fits e"
  shows "mac_inv h'"
proof -
  from assms(2) obtain xs where "map defn (entries h') = map defn (entries h @ xs)"
      "\<forall>x \<in> set xs. plain_entry (level h) x"
    by (auto simp: keeps_defns_def)
  with levels_ok_plain [of xs "level h"] levels_ok_cong [OF defn_scope_key, of "entries h'" "entries h @ xs" 0]
    assms
  show ?thesis by (simp add: mac_inv_def keeps_defns_def)
qed

lemma mac_inv_expand:
  "mac_expand n getenv h = Some h' \<Longrightarrow> mac_inv h \<Longrightarrow> mac_inv h' \<and> keeps_defns h h' \<and> \<not> dirty h'"
  using expand_ok [of n getenv h h'] mac_inv_wf mac_inv_keeps by blast

lemma mac_inv_put:
  assumes "mac_inv g"
  shows "mac_inv (snd (macPutValue getenv g name (Some v)))"
proof -
  obtain r g1 where 1: "mac_lookup getenv g name False = (r, g1)" by fastforce
  then have inv: "mac_inv g1" and m: "magic g = MAC_MAGIC"
    using mac_inv_extends [OF assms lookup_extends] assms by (blast, simp add: mac_inv_def)
  show ?thesis
  proof (cases "\<exists>k. r = Some k \<and> level g1 \<le> elevel (entries g1 ! k)")
    case True
    then obtain k where k: "r = Some k" "level g1 \<le> elevel (entries g1 ! k)" by blast
    have b: "k < length (entries g1)" using 1 k(1) lookup_bound by blast
    have "map scope_key ((entries g1)[k := (entries g1 ! k)\<lparr>rawval := Some v\<rparr>]) =
          map scope_key (entries g1)"
      using b by (intro nth_equalityI) (auto simp: scope_key_def nth_list_update)
    with levels_ok_cong [OF this] inv put_update [OF m 1 [unfolded k(1)] k(2)] show ?thesis
      by (simp add: mac_inv_def)
  next
    case False
    then have "\<And>k. r = Some k \<Longrightarrow> elevel (entries g1 ! k) < level g1" by force
    with put_create [OF m 1] inv show ?thesis by (simp add: mac_inv_def macro_entry_def)
  qed
qed

lemma mac_inv_delete:
  assumes "mac_inv h" and "k < length (entries h)" and "\<not> special (entries h ! k)"
  shows "mac_inv (mac_delete h k)"
proof -
  have "entries h = take k (entries h) @ entries h ! k # drop (Suc k) (entries h)"
    using assms(2) by (rule id_take_nth_drop)
  then obtain xs ys where es: "entries h = xs @ entries h ! k # ys"
      "xs = take k (entries h)" "ys = drop (Suc k) (entries h)"
    by blast
  have "levels_ok 0 (xs @ entries h ! k # ys)" "level h = scope_depth (xs @ entries h ! k # ys)"
    using assms(1) es(1) unfolding mac_inv_def by metis+
  with assms(1,3) show ?thesis
    by (simp add: mac_delete_def mac_inv_def es(2,3) [symmetric])
qed

lemma mac_inv_delete_all: "mac_inv h \<Longrightarrow> mac_inv (delete_all getenv h name)"
proof (induction getenv h name rule: delete_all.induct)
  case (1 getenv h name)
  obtain r h1 where l: "mac_lookup getenv h name False = (r, h1)" by fastforce
  have inv: "mac_inv h1" using mac_inv_extends [OF 1(2) lookup_extends [OF l]] .
  show ?case
  proof (cases r)
    case None
    with l inv show ?thesis by (subst delete_all.simps) simp
  next
    case (Some k)
    have "mac_inv (mac_delete h1 k)"
      using mac_inv_delete [OF inv] lookup_bound lookup_special l Some by blast
    with 1(1) [OF l [symmetric] Some] l Some show ?thesis
      by (subst delete_all.simps) auto
  qed
qed

lemma mac_inv_push: "mac_inv h \<Longrightarrow> mac_inv (snd (macPushScope h))"
  by (auto simp: macPushScope_def mac_create_def upd_entry_def Let_def mac_inv_def)

lemma last_marker:
  assumes "levels_ok 0 es" and "lookup_back es ''<scope>'' True (length es) = Some k"
  shows "k < length es" "special (es ! k)" "\<forall>x \<in> set (drop (Suc k) es). \<not> special x"
proof -
  note l = lookup_back_Some [OF assms(2)]
  then show "k < length es" "special (es ! k)" by auto
  show "\<forall>x \<in> set (drop (Suc k) es). \<not> special x"
  proof (intro ballI notI)
    fix x assume "x \<in> set (drop (Suc k) es)" and "special x"
    then obtain j where "j < length es - Suc k" "x = es ! (Suc k + j)"
      by (auto simp: in_set_conv_nth)
    with l \<open>special x\<close> levels_ok_special [OF assms(1), of x] show False by auto
  qed
qed

lemma scope_depth_plain: "\<forall>x \<in> set xs. \<not> special x \<Longrightarrow> scope_depth xs = 0"
  by (induction xs) auto

lemma marker_exists:
  assumes "levels_ok 0 es" and "0 < scope_depth es"
  shows "lookup_back es ''<scope>'' True (length es) \<noteq> None"
proof -
  have "\<not> (\<forall>x \<in> set es. \<not> special x)"
    using assms(2) scope_depth_plain by fastforce
  then obtain i where "i < length es" "special (es ! i)" by (auto simp: in_set_conv_nth)
  with levels_ok_special [OF assms(1)] show ?thesis
    unfolding lookup_back_None by auto
qed

lemma mac_inv_pop:
  assumes "mac_inv h" and "macPopScope h = (r, h')"
  shows "mac_inv h' \<and> (if level h = 0 then r = - 1 \<and> h' = h else r = 0 \<and> level h' = level h - 1)"
proof (cases "level h = 0")
  case False
  let ?es = "entries h"
  from False assms(1) have "levels_ok 0 ?es" "0 < scope_depth ?es"
    using scope_depth_nonneg [of ?es] by (auto simp: mac_inv_def)
  then obtain k where k: "lookup_back ?es ''<scope>'' True (length ?es) = Some k"
    using marker_exists by blast
  note m = last_marker [OF \<open>levels_ok 0 ?es\<close> k]
  have h': "r = 0" "h' = h\<lparr>entries := take k ?es, dirty := True, level := level h - 1\<rparr>"
    using assms False k m(1)
    by (auto simp: macPopScope_def mac_lookup_def delete_from_eq mac_inv_def Let_def)
  have "?es = take k ?es @ ?es ! k # drop (Suc k) ?es"
    using m(1) by (rule id_take_nth_drop)
  then have "levels_ok 0 (take k ?es @ ?es ! k # drop (Suc k) ?es)"
      "scope_depth ?es = scope_depth (take k ?es @ ?es ! k # drop (Suc k) ?es)"
    using \<open>levels_ok 0 ?es\<close> by metis+
  with m(2) scope_depth_plain [OF m(3)] assms(1) h' False show ?thesis
    by (simp add: mac_inv_def)
qed (use assms in \<open>auto simp: macPopScope_def mac_inv_def\<close>)

section \<open>Reachable contexts\<close>

inductive mac_reach :: "(string \<Rightarrow> string option) \<Rightarrow> MAC_HANDLE \<Rightarrow> bool" for getenv where
  created: "macCreateHandle getenv pairs = Some h \<Longrightarrow> mac_reach getenv h"
| put: "mac_reach getenv h \<Longrightarrow> macPutValue getenv h name value = (r, h') \<Longrightarrow> mac_reach getenv h'"
| pushed: "mac_reach getenv h \<Longrightarrow> macPushScope h = (r, h') \<Longrightarrow> mac_reach getenv h'"
| popped: "mac_reach getenv h \<Longrightarrow> macPopScope h = (r, h') \<Longrightarrow> mac_reach getenv h'"
| quiet: "mac_reach getenv h \<Longrightarrow> mac_reach getenv (macSuppressWarning h suppress)"
| expanded: "mac_reach getenv h \<Longrightarrow>
    macExpandString n getenv h src capacity = Some (r, dest, h') \<Longrightarrow> mac_reach getenv h'"
| got: "mac_reach getenv h \<Longrightarrow>
    macGetValue n getenv h name capacity = Some (r, dest, h') \<Longrightarrow> mac_reach getenv h'"

lemma mac_inv_putvalue: "mac_inv h \<Longrightarrow> mac_inv (snd (macPutValue getenv h name value))"
proof (cases "value")
  case None
  assume "mac_inv h"
  then show ?thesis
    using None mac_inv_delete_all by (simp add: macPutValue_def mac_inv_def)
qed (simp add: mac_inv_put)

lemma mac_inv_put_pairs:
  "put_pairs getenv h pairs = Some (n, h') \<Longrightarrow> mac_inv h \<Longrightarrow> mac_inv h'"
proof (induction getenv h pairs arbitrary: n h' rule: put_pairs.induct)
  case (1 getenv h name "value" rest)
  obtain r h1 where p: "macPutValue getenv h name value = (r, h1)" by fastforce
  then have "mac_inv h1" using 1(3) mac_inv_putvalue [of h getenv name "value"] by simp
  with 1 p show ?case by (auto split: if_splits)
next
  case (2 getenv h name)
  then show ?case using mac_inv_putvalue [of h getenv name None] by (auto split: if_splits prod.splits)
qed auto

lemma mac_inv_empty: "mac_inv (empty_handle\<lparr>flags := f\<rparr>)" "mac_inv empty_handle"
  by (simp_all add: mac_inv_def empty_handle_def)

lemma mac_inv_create: "macCreateHandle getenv pairs = Some h \<Longrightarrow> mac_inv h"
  using mac_inv_empty mac_inv_put_pairs by (auto simp: macCreateHandle_def split: if_splits)

lemma expandString_ok:
  assumes "macExpandString n getenv h src capacity = Some (r, dest, h')" and "mac_inv h"
  shows "mac_inv h' \<and> keeps_defns h h' \<and>
    (case dest of
       None \<Rightarrow> capacity \<le> 1 \<and> r = - 1 \<and> h' = h
     | Some out \<Rightarrow> 1 < capacity \<and> int (length out) < capacity \<and> \<bar>r\<bar> = int (length out))"
proof (cases "capacity \<le> 1")
  case False
  with assms obtain h1 err i out where
      1: "mac_expand n getenv h = Some h1"
    and 2: "mac_trans getenv n h1 False 0 [] src 0 None [] (nat (capacity - 1)) = Some (h', err, i, out)"
    and 3: "dest = Some out" "\<bar>r\<bar> = int (length out)"
    by (auto simp: macExpandString_def mac_inv_def split: bind_splits)
  have "mac_inv h1" "keeps_defns h h1" using mac_inv_expand [OF 1 assms(2)] by auto
  moreover have "extends h1 h'" "length out \<le> nat (capacity - 1)"
    using mt.tr_ok [OF 2 mac_inv_wf [OF \<open>mac_inv h1\<close>]] by (auto dest: appends_length)
  ultimately show ?thesis
    using mac_inv_extends keeps_trans extends_keeps 3 False by auto
qed (use assms in \<open>auto simp: macExpandString_def mac_inv_def\<close>)

lemma getValue_ok:
  assumes "macGetValue n getenv h name capacity = Some (r, dest, h')" and "mac_inv h"
  shows "mac_inv h'"
proof -
  obtain f h1 where 1: "mac_lookup getenv h name False = (f, h1)" by fastforce
  have "mac_inv h1" using mac_inv_extends [OF assms(2) lookup_extends [OF 1]] .
  with assms 1 show ?thesis
    using mac_inv_expand
    by (auto simp: macGetValue_def Let_def mac_inv_def [of h] split: if_splits option.splits bind_splits)
qed

lemma mac_reach_inv_aux: "mac_reach getenv h \<Longrightarrow> mac_inv h"
proof (induction rule: mac_reach.induct)
  case (put h name "value" r h')
  then show ?case using mac_inv_putvalue [of h getenv name "value"] by simp
next
  case (pushed h r h')
  then show ?case using mac_inv_push [of h] by simp
next
  case (quiet h suppress)
  then show ?case by (simp add: macSuppressWarning_def mac_inv_def)
qed (auto dest: mac_inv_create mac_inv_pop expandString_ok getValue_ok)

text \<open>
  C29: Every macro context a client can build - by creating it with or without initial
  definitions and then in any order defining and deleting macros, opening and closing
  scopes, switching warnings, expanding strings and reading values - satisfies the invariant
  of the library: the scoping level counts the scope markers in the table, no entry lies at a
  deeper level than the scopes opened before it, no entry is left marked as being visited, and
  when the table is not dirty every macro has an expanded value that fits its 257 byte buffer
  and has the recorded length.
\<close>

theorem mac_reach_inv:
  assumes "mac_reach getenv h"
  shows "mac_inv h"
  using assms by (rule mac_reach_inv_aux)

theorem mac_reach_inv_witness:
  "mac_inv (snd (macPushScope empty_handle))"
proof -
  have "macCreateHandle (\<lambda>_. None) [] = Some empty_handle"
    by (simp add: macCreateHandle_def pair_at_def)
  then have "mac_reach (\<lambda>_. None) (snd (macPushScope empty_handle))"
    by (rule mac_reach.pushed [OF mac_reach.created]) (rule prod.collapse [symmetric])
  then show ?thesis by (rule mac_reach_inv)
qed

text \<open>
  C28: An expansion that returns has stored at most \<open>capacity - 1\<close> characters and their closing NUL:
  on every context a client can build, whenever \<^verbatim>\<open>macExpandString\<close> returns, the string stored at the
  destination has at most \<open>capacity - 1\<close> characters and the result is plus or minus its length;
  with a capacity of 1 or less nothing is stored and the result is -1. The definitions in the
  table, their order, and the scoping level are the same as before, whatever scoped macros
  the string has defined on the way (only entries for environment variables may be added).
\<close>

theorem macExpandString_safe:
  assumes "mac_reach getenv h"
    and "macExpandString n getenv h src capacity = Some (r, dest, h')"
  shows "(case dest of
            None \<Rightarrow> capacity \<le> 1 \<and> r = - 1 \<and> h' = h
          | Some out \<Rightarrow> 1 < capacity \<and> int (length out) < capacity \<and> \<bar>r\<bar> = int (length out)) \<and>
         level h' = level h \<and> flags h' = flags h \<and>
         (\<exists>xs. map defn (entries h') = map defn (entries h) @ xs \<and> (uses_environment h \<or> xs = []))"
  using expandString_ok [OF assms(2) mac_reach_inv_aux [OF assms(1)]]
  by (auto simp: keeps_defns_def)

theorem macExpandString_safe_witness:
  "macExpandString 9 (\<lambda>_. None) empty_handle ''$(A)'' 4 = Some (- 3, Some ''$(A'', empty_handle) \<and>
   int (length ''$(A'') < 4"
proof -
  have "macCreateHandle (\<lambda>_. None) [] = Some empty_handle"
    by (simp add: macCreateHandle_def pair_at_def)
  moreover have "macExpandString 9 (\<lambda>_. None) empty_handle ''$(A)'' 4 =
      Some (- 3, Some ''$(A'', empty_handle)"
    by code_simp
  ultimately show ?thesis
    using macExpandString_safe [OF mac_reach.created] by fastforce
qed

end
