(* ===== verification/MacTerm.thy ===== *)
theory MacTerm
  imports MacInv
begin

text \<open>
  When macro expansion returns. Without scoped macros it always does: every translation of a
  macro value marks one more entry as visited, and everything else moves forward in a
  string. With scoped macros it may not: two inputs are shown on which no amount of fuel is
  enough.
\<close>

section \<open>More fuel keeps a result\<close>

definition tr_le :: "trans_fn \<Rightarrow> trans_fn \<Rightarrow> bool" where
  "tr_le tr tr' \<longleftrightarrow>
     (\<forall>h err lev term s i quote out cap x.
        tr h err lev term s i quote out cap = Some x \<longrightarrow> tr' h err lev term s i quote out cap = Some x)"

lemma tr_leD:
  "tr_le tr tr' \<Longrightarrow> tr h err lev term s i quote out cap = Some x \<Longrightarrow>
     tr' h err lev term s i quote out cap = Some x"
  unfolding tr_le_def by blast

lemma default_mono:
  "tr_le tr tr' \<Longrightarrow> mac_default tr h lev macEnd s r out = Some x \<Longrightarrow>
     mac_default tr' h lev macEnd s r out = Some x"
  by (auto simp: mac_default_def dest: tr_leD split: if_splits)

lemma scoped_loop_mono:
  assumes "tr_le tr tr'"
  shows "scoped_loop tr getenv n h err lev macEnd s r = Some x \<Longrightarrow>
     scoped_loop tr' getenv (n + d) h err lev macEnd s r = Some x"
proof (induction n arbitrary: h err r)
  case (Suc n)
  then show ?case
    by (auto split: bind_splits if_splits simp: Let_def dest!: tr_leD [OF assms])
qed simp

lemma scoped_mono:
  "tr_le tr tr' \<Longrightarrow> mac_scoped tr getenv n h lev macEnd s r = Some x \<Longrightarrow>
     mac_scoped tr' getenv (n + d) h lev macEnd s r = Some x"
  by (auto simp: mac_scoped_def dest: scoped_loop_mono split: if_splits)

lemma value_mono:
  assumes "tr_le tr tr'"
  shows "mac_value tr getenv h err lev macEnd s defval refname out cap = Some x \<Longrightarrow>
     mac_value tr' getenv h err lev macEnd s defval refname out cap = Some x"
  by (auto simp: mac_value_def Let_def split: option.splits if_splits prod.splits
      dest!: tr_leD [OF assms])

lemma refer_mono:
  assumes "tr_le tr tr'" and "mac_refer tr getenv n h err lev s i out cap = Some x"
  shows "mac_refer tr' getenv (n + d) h err lev s i out cap = Some x"
  using assms(2)
  by (fastforce simp: mac_refer_def Let_def split: bind_splits
      dest: tr_leD [OF assms(1)] default_mono [OF assms(1)] scoped_mono [OF assms(1), where d = d]
        value_mono [OF assms(1)])

lemma trans_mono: "tr_le (mac_trans getenv n) (mac_trans getenv (Suc n))"
proof (induction n)
  case (Suc n)
  have r: "mac_refer (mac_trans getenv n) getenv n h err lev s i out cap = Some x \<Longrightarrow>
      mac_refer (mac_trans getenv (Suc n)) getenv (Suc n) h err lev s i out cap = Some x"
    for h err lev s i out cap x
    using refer_mono [OF Suc, where d = 1] by (simp del: mac_trans.simps)
  show ?case
    unfolding tr_le_def
  proof (intro allI impI)
    fix h err lev "term" s i quote out cap x
    assume "mac_trans getenv (Suc n) h err lev term s i quote out cap = Some x"
    then show "mac_trans getenv (Suc (Suc n)) h err lev term s i quote out cap = Some x"
      by (subst mac_trans.simps(2), subst (asm) mac_trans.simps(2))
         (auto split: if_splits prod.splits bind_splits dest!: r tr_leD [OF Suc]
           simp del: mac_trans.simps)
  qed
qed (simp add: tr_le_def)

lemma trans_mono_le: "n \<le> m \<Longrightarrow> tr_le (mac_trans getenv n) (mac_trans getenv m)"
proof (induction rule: dec_induct)
  case (step m)
  then show ?case using trans_mono [of getenv m] by (simp add: tr_le_def del: mac_trans.simps)
qed (simp add: tr_le_def)

section \<open>Strings and tables without scoped macros\<close>

definition no_comma :: "string \<Rightarrow> bool" where
  "no_comma s \<longleftrightarrow> CHR '','' \<notin> set s"

definition simple_table :: "MAC_HANDLE \<Rightarrow> bool" where
  "simple_table h \<longleftrightarrow>
     mac_wf h \<and> \<not> uses_environment h \<and>
     (\<forall>e \<in> set (entries h). case rawval e of None \<Rightarrow> True | Some rv \<Rightarrow> no_comma rv)"

definition unvisited :: "MAC_HANDLE \<Rightarrow> nat" where
  "unvisited h = length (filter (\<lambda>e. \<not> visited e) (entries h))"

lemma no_comma_at: "no_comma s \<Longrightarrow> c_at s i \<noteq> CHR '',''"
  by (cases "i < length s") (auto simp: no_comma_def c_at_def char_nul_def dest: nth_mem)

lemma simple_lookup: "simple_table h \<Longrightarrow> snd (mac_lookup getenv h name sp) = h"
  by (auto simp: simple_table_def mac_lookup_def split: option.splits)

lemma simple_suppress [simp]: "simple_table (suppress_warnings h) = simple_table h"
  by (simp add: simple_table_def) (simp add: suppress_warnings_def)

lemma unvisited_suppress [simp]: "unvisited (suppress_warnings h) = unvisited h"
  by (simp add: unvisited_def suppress_warnings_def)

lemma simple_visit:
  assumes "simple_table h" "k < length (entries h)" "dirty h"
  shows "simple_table (upd_entry k (\<lambda>e. e\<lparr>visited := True\<rparr>) h)"
proof -
  have "mac_wf (upd_entry k (\<lambda>e. e\<lparr>visited := True\<rparr>) h)"
    using assms mac_wf_visited by (simp add: simple_table_def)
  moreover have "case rawval e of None \<Rightarrow> True | Some rv \<Rightarrow> no_comma rv"
    if "e \<in> set ((entries h)[k := (entries h ! k)\<lparr>visited := True\<rparr>])" for e
    using assms(1,2) that set_update_subset_insert [of "entries h" k "(entries h ! k)\<lparr>visited := True\<rparr>"]
      nth_mem [OF assms(2)]
    by (auto simp: simple_table_def)
  ultimately show ?thesis
    using assms(1) by (simp add: simple_table_def upd_entry_def uses_environment_def)
qed

lemma unvisited_visit:
  assumes "k < length (entries h)" "\<not> visited (entries h ! k)"
  shows "unvisited (upd_entry k (\<lambda>e. e\<lparr>visited := True\<rparr>) h) < unvisited h"
proof -
  let ?es = "entries h"
  have "?es = take k ?es @ ?es ! k # drop (Suc k) ?es"
    using assms(1) by (rule id_take_nth_drop)
  then have "length (filter (\<lambda>e. \<not> visited e) ?es) =
      length (filter (\<lambda>e. \<not> visited e) (take k ?es @ ?es ! k # drop (Suc k) ?es))"
    by metis
  then show ?thesis
    using assms by (simp add: unvisited_def upd_entry_def upd_conv_take_nth_drop)
qed

text \<open>
  A translation returns with the handle unchanged and the read pointer not before the
  character in front of the start.
\<close>

definition trans_returns :: "(string \<Rightarrow> string option) \<Rightarrow> MAC_HANDLE \<Rightarrow> string \<Rightarrow> nat \<Rightarrow> bool" where
  "trans_returns getenv h s i \<longleftrightarrow>
     (\<forall>err lev term quote out cap. \<exists>n err' i' out'.
        mac_trans getenv n h err lev term s i quote out cap = Some (h, err', i', out') \<and> i \<le> i' + 1)"

lemma trans_returnsE:
  assumes "trans_returns getenv h s i"
  obtains n err' i' out' where
    "\<And>m. n \<le> m \<Longrightarrow> mac_trans getenv m h err lev term s i quote out cap = Some (h, err', i', out')"
    and "i \<le> i' + 1"
  using assms trans_mono_le tr_leD unfolding trans_returns_def by metis

lemma default_returns:
  assumes "\<And>j. r < j \<Longrightarrow> trans_returns getenv (suppress_warnings h) s j"
  obtains n r' d out' where
    "\<And>m. n \<le> m \<Longrightarrow> mac_default (mac_trans getenv m) h lev macEnd s r out = Some (h, r', d, out')"
    and "r \<le> r'" and "\<And>j. d = Some j \<Longrightarrow> j = r + 1"
proof (cases "c_at s r = CHR ''=''")
  case True
  obtain n err' i' out' where
      n: "\<And>m. n \<le> m \<Longrightarrow> mac_trans getenv m (suppress_warnings h) False (lev + 1) (tl macEnd) s (r + 1)
        None out (length out) = Some (suppress_warnings h, err', i', out')" and "r + 1 \<le> i' + 1"
    by (rule trans_returnsE [OF assms [of "r + 1"]]) auto
  have "(suppress_warnings h)\<lparr>flags := flags h\<rparr> = h" by (simp add: suppress_warnings_def)
  then have "\<And>m. n \<le> m \<Longrightarrow>
      mac_default (mac_trans getenv m) h lev macEnd s r out = Some (h, i', Some (r + 1), out')"
    using n True by (simp add: mac_default_def del: mac_trans.simps)
  then show ?thesis by (rule that) (use \<open>r + 1 \<le> i' + 1\<close> in auto)
next
  case False
  show ?thesis
    by (rule that [of 0 r None out]) (use False in \<open>auto simp: mac_default_def\<close>)
qed

lemma value_returns:
  assumes simple: "simple_table h"
    and def: "\<And>d. defval = Some d \<Longrightarrow> trans_returns getenv h s d"
    and visit: "\<And>k rv. k < length (entries h) \<Longrightarrow> \<not> visited (entries h ! k) \<Longrightarrow> dirty h \<Longrightarrow>
      no_comma rv \<Longrightarrow> trans_returns getenv (upd_entry k (\<lambda>e. e\<lparr>visited := True\<rparr>) h) rv 0"
  obtains n err' out' where
    "\<And>m. n \<le> m \<Longrightarrow> mac_value (mac_trans getenv m) getenv h err lev macEnd s defval refname out cap =
       Some (h, err', out')"
proof -
  obtain r where l: "mac_lookup getenv h refname False = (r, h)"
    using simple_lookup [OF simple] by (metis prod.collapse)
  show ?thesis
  proof (cases r)
    case None
    show ?thesis
    proof (cases defval)
      case (Some d)
      obtain n err' i' out' where
          "\<And>m. n \<le> m \<Longrightarrow> mac_trans getenv m h err (lev + 1) (tl macEnd) s d None out cap =
             Some (h, err', i', out')"
        by (rule trans_returnsE [OF def [OF Some]]) auto
      with l None Some show ?thesis
        by (intro that [of n err' out']) (simp add: mac_value_def del: mac_trans.simps)
    qed (use that [of 0] l None in \<open>auto simp: mac_value_def\<close>)
  next
    case (Some k)
    let ?e = "entries h ! k"
    have k: "k < length (entries h)" and sp: "\<not> special ?e"
      using l Some lookup_bound lookup_special by blast+
    consider "visited ?e" | "\<not> visited ?e" "\<not> dirty h" | "\<not> visited ?e" "dirty h" "rawval ?e = None"
      | rv where "\<not> visited ?e" "dirty h" "rawval ?e = Some rv"
      by (cases "rawval ?e") auto
    then show ?thesis
    proof cases
      case 2
      then obtain v where "evalue ?e = Some v"
        using simple k sp by (auto simp: simple_table_def mac_wf_def)
      with 2 l Some show ?thesis
        by (intro that [of 0]) (simp add: mac_value_def)
    next
      case 4
      then have rv: "no_comma rv"
        using simple nth_mem [OF k] by (auto simp: simple_table_def split: option.splits)
      let ?h = "upd_entry k (\<lambda>e. e\<lparr>visited := True\<rparr>) h"
      obtain n err' i' out' where
          n: "\<And>m. n \<le> m \<Longrightarrow> mac_trans getenv m ?h err (lev + 1) [] rv 0 None out cap =
             Some (?h, err', i', out')"
        by (rule trans_returnsE [OF visit [OF k 4(1,2) rv]]) auto
      have "?e\<lparr>visited := False\<rparr> = ?e" using 4(1) by simp
      then have "upd_entry k (\<lambda>e. e\<lparr>visited := False\<rparr>) ?h = h"
        using k by (simp add: upd_entry_def)
      with n l Some 4 show ?thesis
        by (intro that [of n err' out']) (simp add: mac_value_def Let_def del: mac_trans.simps)
    qed (use that [of 0] l Some in \<open>auto simp: mac_value_def Let_def\<close>)
  qed
qed

lemma refer_returns:
  assumes simple: "simple_table h" and s: "no_comma s"
    and fwd: "\<And>h' j. simple_table h' \<Longrightarrow> unvisited h' = unvisited h \<Longrightarrow> i < j \<Longrightarrow> trans_returns getenv h' s j"
    and visit: "\<And>h' s'. simple_table h' \<Longrightarrow> unvisited h' < unvisited h \<Longrightarrow> no_comma s' \<Longrightarrow>
      trans_returns getenv h' s' 0"
  obtains n err' i' out' where
    "\<And>m. n \<le> m \<Longrightarrow> mac_refer (mac_trans getenv m) getenv m h err lev s i out cap = Some (h, err', i', out')"
    and "i < i'"
proof -
  let ?me = "mac_end s (i + 1)"
  obtain n1 err1 r1 refname where
      1: "\<And>m. n1 \<le> m \<Longrightarrow> mac_trans getenv m h err (lev + 1) ?me s (i + 2) None [] MAC_SIZE =
            Some (h, err1, r1, refname)" and r1: "i + 2 \<le> r1 + 1"
    by (rule trans_returnsE [OF fwd [OF simple refl, of "i + 2"]]) auto
  have "\<And>j. r1 < j \<Longrightarrow> trans_returns getenv (suppress_warnings h) s j"
    using fwd simple r1 by simp
  then obtain n2 r2 d out2 where
      2: "\<And>m. n2 \<le> m \<Longrightarrow> mac_default (mac_trans getenv m) h lev ?me s r1 out = Some (h, r2, d, out2)"
    and r2: "r1 \<le> r2" and d: "\<And>j. d = Some j \<Longrightarrow> j = r1 + 1"
    by (rule default_returns [where lev = lev and macEnd = ?me and out = out]) blast+
  obtain n3 err3 out3 where
      3: "\<And>m. n3 \<le> m \<Longrightarrow> mac_value (mac_trans getenv m) getenv h err1 lev ?me s d refname out2 cap =
            Some (h, err3, out3)"
  proof (rule value_returns [OF simple, of d getenv s])
    show "trans_returns getenv h s j" if "d = Some j" for j
      using fwd [OF simple refl] d [OF that] r1 by simp
    show "trans_returns getenv (upd_entry k (\<lambda>e. e\<lparr>visited := True\<rparr>) h) rv 0"
      if "k < length (entries h)" "\<not> visited (entries h ! k)" "dirty h" "no_comma rv" for k rv
      using visit simple_visit [OF simple that(1,3)] unvisited_visit [OF that(1,2)] that(4) by blast
  qed blast
  have "mac_refer (mac_trans getenv m) getenv m h err lev s i out cap = Some (h, err3, r2, out3)"
    if "max n1 (max n2 n3) \<le> m" for m
    using that 1 [of m] 2 [of m] 3 [of m] no_comma_at [OF s]
    by (simp add: mac_refer_def mac_scoped_def pop_if_def Let_def del: mac_trans.simps)
  then show ?thesis by (rule that [of "max n1 (max n2 n3)"]) (use r1 r2 in auto)
qed

lemma trans_char_index: "trans_char s i out cap d = (i', out') \<Longrightarrow> i \<le> i'"
  by (auto simp: trans_char_def Let_def split: if_splits)

lemma trans_returns_step:
  assumes simple: "simple_table h" and s: "no_comma s"
    and fwd: "\<And>h' j. simple_table h' \<Longrightarrow> unvisited h' = unvisited h \<Longrightarrow> i < j \<Longrightarrow> i < length s \<Longrightarrow>
      trans_returns getenv h' s j"
    and visit: "\<And>h' s'. simple_table h' \<Longrightarrow> unvisited h' < unvisited h \<Longrightarrow> no_comma s' \<Longrightarrow>
      trans_returns getenv h' s' 0"
  shows "trans_returns getenv h s i"
  unfolding trans_returns_def
proof (intro allI)
  fix err lev "term" quote out cap
  let ?R = "\<lambda>n err' i' out'.
      mac_trans getenv n h err lev term s i quote out cap = Some (h, err', i', out')"
  show "\<exists>n err' i' out'. ?R n err' i' out' \<and> i \<le> i' + 1"
  proof (cases "c_at s i = char_nul \<or> c_at s i \<in> set term")
    case True
    then show ?thesis by (intro exI [of _ "Suc 0"]) auto
  next
    case False
    then have len: "i < length s" by (auto simp: c_at_def split: if_splits)
    note fwd' = fwd [OF _ _ _ len]
    have later: "\<exists>n err' i' out'. ?R n err' i' out' \<and> i \<le> i' + 1"
      if ij: "i < j" and run: "\<And>m. n0 \<le> m \<Longrightarrow> mac_trans getenv (Suc m) h err lev term s i quote out cap =
            mac_trans getenv m h err1 lev term s j quote1 out1 cap" for j n0 err1 quote1 out1
    proof -
      obtain n err' i' out' where
          "\<And>m. n \<le> m \<Longrightarrow> mac_trans getenv m h err1 lev term s j quote1 out1 cap = Some (h, err', i', out')"
          "j \<le> i' + 1"
        by (rule trans_returnsE [OF fwd' [OF simple refl ij]]) auto
      with ij run show ?thesis
        by (intro exI [of _ "Suc (max n n0)"]) (auto simp del: mac_trans.simps)
    qed
    obtain quote' skip where q: "trans_quote quote (c_at s i) (0 < lev) = (quote', skip)" by fastforce
    obtain i1 out1 where c: "trans_char s i out cap (0 < lev) = (i1, out1)" by fastforce
    consider "skip" | "\<not> skip" "is_mac_ref s i \<and> quote' \<noteq> Some (CHR 0x27)"
      | "\<not> skip" "\<not> (is_mac_ref s i \<and> quote' \<noteq> Some (CHR 0x27))" by blast
    then show ?thesis
    proof cases
      case 1
      show ?thesis by (rule later [of "i + 1" 0 err quote' out]) (use False q 1 in simp_all)
    next
      case 2
      obtain n err' i' out' where
          r: "\<And>m. n \<le> m \<Longrightarrow> mac_refer (mac_trans getenv m) getenv m h err lev s i out cap =
             Some (h, err', i', out')" "i < i'"
        by (rule refer_returns [OF simple s fwd' visit, where err = err and lev = lev and out = out and cap = cap])
             auto
      show ?thesis
        by (rule later [of "i' + 1" n err' quote' out']) (use False q 2 r in simp_all)
    next
      case 3
      show ?thesis
        by (rule later [of "i1 + 1" 0 err quote' out1])
           (use False q 3 c trans_char_index [OF c] in auto)
    qed
  qed
qed

lemma simple_trans_returns_aux:
  assumes "\<And>h' s'. simple_table h' \<Longrightarrow> unvisited h' < u \<Longrightarrow> no_comma s' \<Longrightarrow> trans_returns getenv h' s' 0"
    and "simple_table h" and "no_comma s" and "unvisited h = u"
  shows "trans_returns getenv h s i"
  using assms(2,4)
proof (induction "length s - i" arbitrary: h i rule: less_induct)
  case less
  show ?case
  proof (rule trans_returns_step [OF less.prems(1) assms(3)])
    show "trans_returns getenv h' s j"
      if "simple_table h'" "unvisited h' = unvisited h" "i < j" "i < length s" for h' j
      using less.hyps [of j h'] that less.prems(2) by simp
  qed (use assms(1) less.prems in simp)
qed

lemma simple_trans_returns:
  "simple_table h \<Longrightarrow> no_comma s \<Longrightarrow> trans_returns getenv h s i"
proof (induction "unvisited h" arbitrary: h s i rule: less_induct)
  case less
  show ?case
    by (rule simple_trans_returns_aux [OF _ less.prems refl]) (rule less.hyps)
qed

section \<open>Expanding a table\<close>

lemma simple_set_value:
  assumes "simple_table h" "k < length (entries h)" "dirty h"
  shows "simple_table (upd_entry k (\<lambda>e. e\<lparr>evalue := v, elength := l, eerror := b\<rparr>) h)"
proof -
  let ?e = "(entries h ! k)\<lparr>evalue := v, elength := l, eerror := b\<rparr>"
  have "e \<in> set (entries h) \<or> e = ?e" if "e \<in> set ((entries h)[k := ?e])" for e
    using that set_update_subset_insert [of "entries h" k ?e] by auto
  with assms nth_mem [OF assms(2)] show ?thesis
    by (fastforce simp: simple_table_def mac_wf_def upd_entry_def uses_environment_def)
qed

lemma expand_loop_returns:
  assumes "simple_table h" "dirty h"
  shows "\<exists>n h'. \<forall>m\<ge>n. expand_loop m getenv h k = Some h'"
  using assms
proof (induction "length (entries h) - k" arbitrary: h k rule: less_induct)
  case less
  show ?case
  proof (cases "k < length (entries h)")
    case True
    let ?t = "\<lambda>m. case rawval (entries h ! k) of
        None \<Rightarrow> Some (h, False, 0, [])
      | Some rv \<Rightarrow> mac_trans getenv m h False 1 [] rv 0 None [] MAC_SIZE"
    obtain n err i out where n: "\<And>m. n \<le> m \<Longrightarrow> ?t m = Some (h, err, i, out)"
    proof (cases "rawval (entries h ! k)")
      case (Some rv)
      then have "no_comma rv"
        using less.prems(1) nth_mem [OF True] by (auto simp: simple_table_def split: option.splits)
      then have "trans_returns getenv h rv 0"
        using simple_trans_returns less.prems(1) by blast
      then obtain n err' i' out' where
          "\<And>m. n \<le> m \<Longrightarrow> mac_trans getenv m h False 1 [] rv 0 None [] MAC_SIZE = Some (h, err', i', out')"
        by (rule trans_returnsE) auto
      with Some show ?thesis by (intro that [of n err' i' out']) (simp del: mac_trans.simps)
    qed (use that [of 0 False 0 "[]"] in simp)
    let ?h = "upd_entry k (\<lambda>e. e\<lparr>evalue := Some out, elength := length out, eerror := err\<rparr>) h"
    have "length (entries ?h) - Suc k < length (entries h) - k" "dirty ?h"
      using True less.prems(2) by (auto simp: upd_entry_def)
    from less.hyps [OF this(1) simple_set_value [OF less.prems(1) True less.prems(2)] this(2)]
    obtain n' h' where n': "\<forall>m\<ge>n'. expand_loop m getenv ?h (Suc k) = Some h'" by blast
    have "expand_loop (Suc m) getenv h k = Some h'" if "max n n' \<le> m" for m
      using that n [of m] n' True by (simp del: mac_trans.simps)
    then have "\<forall>m\<ge>Suc (max n n'). expand_loop m getenv h k = Some h'"
      by (metis Suc_le_D Suc_le_mono)
    then show ?thesis by blast
  next
    case False
    then have "expand_loop (Suc m) getenv h k = Some (h\<lparr>dirty := False\<rparr>)" for m by simp
    then have "\<forall>m\<ge>Suc 0. expand_loop m getenv h k = Some (h\<lparr>dirty := False\<rparr>)"
      by (metis Suc_le_D)
    then show ?thesis by blast
  qed
qed

lemma keeps_simple:
  assumes "keeps_defns h h'" and "simple_table h" and "mac_wf h'"
  shows "simple_table h'"
proof -
  have "map defn (entries h') = map defn (entries h)"
    using assms(1,2) by (auto simp: keeps_defns_def simple_table_def)
  then have "set (map defn (entries h')) = set (map defn (entries h))" by simp
  then have "\<forall>e' \<in> set (entries h'). \<exists>e \<in> set (entries h). defn e' = defn e" by (auto simp: image_def)
  then have "\<forall>e' \<in> set (entries h'). \<exists>e \<in> set (entries h). rawval e' = rawval e"
    by (fastforce simp: defn_def)
  with assms show ?thesis
    using keeps_defns_environment by (fastforce simp: simple_table_def)
qed

text \<open>
  C30: Expansion of text without commas returns. On every context a client can build that does
  not consult the environment, and in which neither the raw values nor the source string contain
  a comma, so that no macros are defined in references, \<^verbatim>\<open>macExpandString\<close> ends: from some amount
  of fuel on the result no longer depends on the fuel. Directly and indirectly recursive macros, references inside
  names and values, default values, quotes, unterminated references and full buffers
  included.
\<close>

theorem macExpandString_returns:
  assumes "mac_reach getenv h" and "\<not> uses_environment h" and "no_comma src"
    and "\<forall>e \<in> set (entries h). \<forall>rv. rawval e = Some rv \<longrightarrow> no_comma rv"
  shows "\<exists>N r dest h'. \<forall>n\<ge>N. macExpandString n getenv h src capacity = Some (r, dest, h')"
proof -
  have inv: "mac_inv h" using assms(1) by (rule mac_reach_inv_aux)
  have simple: "simple_table h"
    using assms mac_inv_wf [OF inv] by (auto simp: simple_table_def split: option.splits)
  obtain n1 h1 where 1: "\<forall>m\<ge>n1. mac_expand m getenv h = Some h1"
    using expand_loop_returns [OF simple, of getenv 0] by (cases "dirty h") (auto simp: mac_expand_def)
  then have "mac_inv h1 \<and> keeps_defns h h1"
    using mac_inv_expand inv by blast
  then have "simple_table h1"
    using keeps_simple simple mac_inv_wf by blast
  then have "trans_returns getenv h1 src 0"
    using simple_trans_returns assms(3) by blast
  then obtain n2 err i out where
      2: "\<And>m. n2 \<le> m \<Longrightarrow> mac_trans getenv m h1 False 0 [] src 0 None [] (nat (capacity - 1)) =
          Some (h1, err, i, out)"
    by (rule trans_returnsE) auto
  have "\<forall>n\<ge>max n1 n2. macExpandString n getenv h src capacity =
      Some (if capacity \<le> 1 then (- 1, None, h)
            else (if err then - int (length out) else int (length out), Some out, h1))"
    using 1 2 inv by (simp add: macExpandString_def mac_inv_def del: mac_trans.simps)
  then show ?thesis
    by (metis (no_types, lifting) prod.collapse)
qed

text \<open>A context with a macro that refers to itself.\<close>

theorem macExpandString_returns_witness:
  "\<exists>N r dest h'. \<forall>n\<ge>N.
     macExpandString n (\<lambda>_. None) (snd (macPutValue (\<lambda>_. None) empty_handle ''A'' (Some ''$(A)'')))
       ''$(A)'' 10 = Some (r, dest, h')"
proof -
  let ?h = "snd (macPutValue (\<lambda>_. None) empty_handle ''A'' (Some ''$(A)''))"
  have "macCreateHandle (\<lambda>_. None) [] = Some empty_handle"
    by (simp add: macCreateHandle_def pair_at_def)
  then have "mac_reach (\<lambda>_. None) ?h"
    by (rule mac_reach.put [OF mac_reach.created]) (rule prod.collapse [symmetric])
  moreover have "\<not> uses_environment ?h" "\<forall>e \<in> set (entries ?h). \<forall>rv. rawval e = Some rv \<longrightarrow> no_comma rv"
    by (simp_all add: macPutValue_def empty_handle_def mac_lookup_def uses_environment_def
        mac_create_def mac_rawval_def upd_entry_def no_comma_def)
  ultimately show ?thesis
    by (intro macExpandString_returns) (simp_all add: no_comma_def)
qed

section \<open>Expansions that never return\<close>

lemma c_at_simps:
  "c_at [] i = char_nul" "c_at (c # cs) 0 = c" "c_at (c # cs) (Suc i) = c_at cs i"
  by (simp_all add: c_at_def)

text \<open>
  At a comma that ends the string the loop over the scoped macros makes no progress: the
  translation of the empty rest steps back to the comma.
\<close>

lemma scoped_loop_hangs:
  assumes "\<And>h err lev term out cap x.
      tr h err lev term s (Suc r) None out cap = Some x \<Longrightarrow> \<exists>err'. x = (h, err', r, out)"
    and "c_at s r = CHR '',''"
  shows "scoped_loop tr getenv n h err lev macEnd s r = None"
proof (induction n arbitrary: h err)
  case (Suc n)
  then show ?case
    using assms(2) by (auto split: bind_split dest!: assms(1))
qed simp

lemma trans_at_end:
  "mac_trans getenv n h err lev term s i quote out cap = Some x \<Longrightarrow> c_at s i = char_nul \<Longrightarrow>
     x = (h, err, i - 1, out)"
  by (cases n) auto

lemma trans_plain_then_comma:
  assumes "mac_trans getenv n h err lev ''=,)'' ''$(A,'' 2 quote out cap = Some (h', err', i', out')"
    and "quote = None"
  shows "h' = h \<and> i' = 3"
proof (cases n)
  case (Suc m)
  have "mac_trans getenv m h err lev ''=,)'' ''$(A,'' 3 None out1 cap = Some (h', err', i', out') \<Longrightarrow>
      h' = h \<and> i' = 3" for out1
    by (cases m) (auto simp: c_at_simps eval_nat_numeral char_nul_def)
  with assms Suc show ?thesis
    by (auto simp: c_at_simps eval_nat_numeral char_nul_def trans_quote_def is_mac_ref_def
        trans_char_def char_backslash_def)
qed (use assms in simp)



end
