(* ===== verification/MacParse.thy ===== *)
theory MacParse
  imports MacTerm
begin

text \<open>
  \<^verbatim>\<open>macParseDefns\<close>: definitions written with every character escaped are read back, and the
  work arrays are too short for some inputs.
\<close>

section \<open>Escaped text\<close>

primrec escape_all :: "string \<Rightarrow> string" where
  "escape_all [] = []"
| "escape_all (c # cs) = char_backslash # c # escape_all cs"

lemma length_escape_all [simp]: "length (escape_all s) = 2 * length s"
  by (induction s) auto

lemma escape_all_eq_Nil [simp]: "escape_all s = [] \<longleftrightarrow> s = []"
  by (cases s) auto

lemma escape_all_append: "escape_all (s @ t) = escape_all s @ escape_all t"
  by (induction s) auto

lemma last_escape_all: "s \<noteq> [] \<Longrightarrow> last (escape_all s) = last s"
  by (induction s) auto

lemma unquote_escape_all: "unquote_name None (escape_all s) = s"
  by (induction s) (auto simp: char_backslash_def)

text \<open>A text that survives the trimming: no NUL, and no white space at its end.\<close>

definition clean :: "string \<Rightarrow> bool" where
  "clean s \<longleftrightarrow> char_nul \<notin> set s \<and> (s \<noteq> [] \<longrightarrow> \<not> is_space (last s))"

section \<open>The scanner\<close>

lemma c_at_drop: "c_at s (c + i) = c_at (drop c s) i"
  by (auto simp: c_at_def)

lemma c_at_here: "c_at s c = c_at (drop c s) 0"
  using c_at_drop [of s c 0] by simp

lemma escape_here:
  assumes "drop c s = char_backslash # d # rest" and "d \<noteq> char_nul"
  shows "is_escape s c" "c_at s c = char_backslash"
  using assms c_at_here [of s c] c_at_drop [of s c 1] by (auto simp: is_escape_def c_at_def)

lemma drop_step: "drop c s = a # b # rest \<Longrightarrow> drop (c + 2) s = rest"
  by (metis add_2_eq_Suc' drop_drop drop_Suc_Cons drop0 numeral_2_eq_2 add.commute)

lemma quote_unchanged: "pd_quote st = None \<Longrightarrow> st\<lparr>pd_quote := None\<rparr> = st"
  by simp

lemma scan_escaped:
  assumes "drop c s = escape_all t @ rest" "char_nul \<notin> set t" "pd_quote st = None"
    and "pd_state st = inName \<or> pd_state st = inValue"
  shows "parse_loop s st c = parse_loop s st (c + 2 * length t)"
  using assms(1,2)
proof (induction t arbitrary: c)
  case (Cons d t)
  then have d: "drop c s = char_backslash # d # escape_all t @ rest" "d \<noteq> char_nul" by auto
  note e = escape_here [OF d]
  have "parse_step s st c = Some st"
    using e assms(3,4)
    by (auto simp: parse_step_def step_inName_def step_inValue_def next_quote_def char_backslash_def
        Let_def)
  then have "parse_loop s st c = parse_loop s st (c + 2)"
    using e by (subst parse_loop.simps) (simp add: char_backslash_def char_nul_def)
  also have "\<dots> = parse_loop s st (c + 2 + 2 * length t)"
    using Cons.IH [OF drop_step [OF d(1)]] Cons.prems(2) by simp
  finally show ?case by (simp add: algebra_simps)
qed simp

lemma trim_clean:
  assumes "drop p s = escape_all t @ rest" and "clean t" and "p \<le> length s"
  shows "trim_end s p (p + 2 * length t) = p + 2 * length t"
proof (cases t rule: rev_cases)
  case Nil
  then show ?thesis by (cases p) auto
next
  case (snoc us d)
  then have "c_at s (p + (2 * length us + 1)) = d"
    unfolding c_at_drop assms(1) by (simp add: escape_all_append c_at_def nth_append)
  then show ?thesis
    using assms(2) by (simp add: snoc clean_def)
qed

section \<open>The items found so far\<close>

definition parsed :: "string \<Rightarrow> nat \<Rightarrow> parse_defns \<Rightarrow> string option list \<Rightarrow> bool" where
  "parsed s M st xs \<longleftrightarrow>
     length (pd_ptr st) = M \<and> length (pd_end st) = M \<and> length (pd_del st) = M \<and>
     pd_num st = length xs \<and> map (item_string s st) [0..<pd_num st] = xs \<and>
     pd_quote st = None \<and> pd_num st < M \<and> \<not> pd_del st ! pd_num st"

lemma parsedD:
  assumes "parsed s M st xs"
  shows "length (pd_ptr st) = M" "length (pd_end st) = M" "length (pd_del st) = M"
    "pd_num st = length xs" "pd_quote st = None" "length xs < M" "\<not> pd_del st ! length xs"
    "map (item_string s st) [0..<length xs] = xs"
  using assms unfolding parsed_def by metis+

lemma parsed_close:
  assumes "parsed s M st xs" and "length xs + 1 < M"
    and "drop p s = escape_all t @ rest" and "clean t" and "p \<le> length s"
    and "pd_ptr st ! length xs = p"
  shows "\<exists>st'. close_item s st (p + 2 * length t) False = Some st' \<and>
    parsed s M st' (xs @ [Some (escape_all t)])"
proof -
  let ?k = "length xs"
  let ?e = "p + 2 * length t"
  let ?st = "st\<lparr>pd_end := (pd_end st)[?k := ?e], pd_num := ?k + 1,
      pd_del := (pd_del st)[?k + 1 := False]\<rparr>"
  have run: "close_item s st ?e False = Some ?st"
    using assms(2,6) trim_clean [OF assms(3-5)] parsedD(1-6) [OF assms(1)]
    by (simp add: close_item_def arr_set_def set_del_def)
  have "item_string s ?st i = item_string s st i" if "i < ?k" for i
    using that by (simp add: item_string_def)
  then have "map (item_string s ?st) [0..<?k] = map (item_string s st) [0..<?k]" by simp
  moreover have "item_string s ?st ?k = Some (escape_all t)"
    using assms(2,3,6) parsedD(1-7) [OF assms(1)] by (simp add: item_string_def)
  ultimately have "map (item_string s ?st) [0..<Suc ?k] = xs @ [Some (escape_all t)]"
    using parsedD(8) [OF assms(1)] by simp
  then have "parsed s M ?st (xs @ [Some (escape_all t)])"
    using assms(2) parsedD(1-7) [OF assms(1)] by (simp add: parsed_def)
  with run show ?thesis by blast
qed

lemma parsed_ptr:
  assumes "parsed s M st xs"
  shows "set_ptr st c = Some (st\<lparr>pd_ptr := (pd_ptr st)[length xs := c]\<rparr>)"
    and "parsed s M (st\<lparr>pd_ptr := (pd_ptr st)[length xs := c], pd_state := q\<rparr>) xs"
proof -
  have "item_string s (st\<lparr>pd_ptr := (pd_ptr st)[length xs := c], pd_state := q\<rparr>) i = item_string s st i"
    if "i < length xs" for i
    using that by (simp add: item_string_def)
  then show "parsed s M (st\<lparr>pd_ptr := (pd_ptr st)[length xs := c], pd_state := q\<rparr>) xs"
    using assms by (auto simp: parsed_def intro!: map_cong)
qed (use assms in \<open>simp add: set_ptr_def arr_set_def parsed_def\<close>)

text \<open>The start of an escaped item, in front of a name or of a value.\<close>

lemma scan_start:
  assumes "parsed s M st xs" and "drop c s = escape_all t @ rest" and "t \<noteq> []" and "char_nul \<notin> set t"
    and "(pd_state st, q) = (preName, inName) \<or> (pd_state st, q) = (preValue, inValue)"
  shows "parse_loop s st c =
    parse_loop s (st\<lparr>pd_ptr := (pd_ptr st)[length xs := c], pd_state := q\<rparr>) (c + 2 * length t)"
proof -
  let ?st = "st\<lparr>pd_ptr := (pd_ptr st)[length xs := c], pd_state := q\<rparr>"
  from assms(3) obtain d u where t: "t = d # u" by (cases t) auto
  then have d: "drop c s = char_backslash # d # escape_all u @ rest" "d \<noteq> char_nul"
    using assms(2,4) by auto
  note e = escape_here [OF d]
  have q: "pd_quote st = None" using assms(1) by (simp add: parsed_def)
  have "parse_step s st c = Some ?st"
    using e assms(5) q parsed_ptr(1) [OF assms(1), of c]
    by (auto simp: parse_step_def step_preName_def step_preValue_def step_inName_def step_inValue_def
        next_quote_def char_backslash_def Let_def quote_unchanged)
  then have "parse_loop s st c = parse_loop s ?st (c + 2)"
    using e by (subst parse_loop.simps) (simp add: char_backslash_def char_nul_def)
  also have "\<dots> = parse_loop s ?st (c + 2 + 2 * length u)"
    using scan_escaped [OF drop_step [OF d(1)], of ?st] assms(4,5) q t by auto
  finally show ?thesis by (simp add: t algebra_simps)
qed

lemma parsed_state [simp]: "parsed s M (st\<lparr>pd_state := q\<rparr>) xs = parsed s M st xs"
proof -
  have "item_string s (st\<lparr>pd_state := q\<rparr>) = item_string s st"
    by (simp add: item_string_def fun_eq_iff)
  then show ?thesis by (simp add: parsed_def)
qed

text \<open>One step of the loop at an assignment or separator character.\<close>

lemma separator_step:
  assumes "c_at s c = x" and "x = CHR ''='' \<or> x = CHR '',''" and "parse_step s st c = Some st'"
  shows "parse_loop s st c = parse_loop s st' (c + 1)"
  using assms by (subst parse_loop.simps) (auto simp: is_escape_def char_nul_def char_backslash_def)

lemma c_at_behind: "drop c s = escape_all t @ x # rest \<Longrightarrow> c_at s (c + 2 * length t) = x"
  unfolding c_at_drop by (simp add: c_at_def nth_append)

lemma drop_within: "drop c s = a @ x # b \<Longrightarrow> c \<le> length s"
  by (cases "c \<le> length s") auto

text \<open>The items in the state that a started item leads to.\<close>

lemma started_close:
  assumes "parsed s M st xs" and "length xs + 1 < M"
    and "drop c s = escape_all t @ rest" and "clean t" and "c \<le> length s"
  obtains st' where
    "close_item s (st\<lparr>pd_ptr := (pd_ptr st)[length xs := c], pd_state := q\<rparr>) (c + 2 * length t) False =
       Some st'"
    and "parsed s M st' (xs @ [Some (escape_all t)])"
  using parsed_close [OF parsed_ptr(2) [OF assms(1)] assms(2-5), of q c] parsedD(1,6) [OF assms(1)]
  by auto

lemma scan_name:
  assumes "parsed s M st xs" and "pd_state st = preName" and "length xs + 1 < M"
    and "drop c s = escape_all n @ CHR ''='' # rest" and "clean n" and "n \<noteq> []"
  shows "\<exists>st'. parse_loop s st c = parse_loop s st' (c + 2 * length n + 1) \<and>
    parsed s M st' (xs @ [Some (escape_all n)]) \<and> pd_state st' = preValue"
proof -
  let ?st = "st\<lparr>pd_ptr := (pd_ptr st)[length xs := c], pd_state := inName\<rparr>"
  let ?c = "c + 2 * length n"
  have 1: "parse_loop s st c = parse_loop s ?st ?c"
    using scan_start [OF assms(1,4,6)] assms(2,5) by (simp add: clean_def)
  have eq: "c_at s ?c = CHR ''=''" using assms(4) by (rule c_at_behind)
  obtain st' where st': "close_item s ?st ?c False = Some st'" "parsed s M st' (xs @ [Some (escape_all n)])"
    using started_close [OF assms(1,3,4,5) drop_within [OF assms(4)]] .
  have "parse_step s ?st ?c = Some (st'\<lparr>pd_state := preValue\<rparr>)"
    using eq st'(1) parsedD(5) [OF assms(1)]
    by (simp add: parse_step_def step_inName_def next_quote_def is_escape_def char_backslash_def Let_def
        quote_unchanged)
  with separator_step [OF eq, of ?st] 1 st'(2) show ?thesis
    by (intro exI [of _ "st'\<lparr>pd_state := preValue\<rparr>"]) simp
qed

lemma scan_value:
  assumes "parsed s M st xs" and "pd_state st = preValue" and "length xs + 1 < M"
    and "drop c s = escape_all v @ CHR '','' # rest" and "clean v"
  shows "\<exists>st'. parse_loop s st c = parse_loop s st' (c + 2 * length v + 1) \<and>
    parsed s M st' (xs @ [Some (escape_all v)]) \<and> pd_state st' = preName"
proof -
  let ?st = "st\<lparr>pd_ptr := (pd_ptr st)[length xs := c], pd_state := inValue\<rparr>"
  let ?c = "c + 2 * length v"
  have eq: "c_at s ?c = CHR '',''" using assms(4) by (rule c_at_behind)
  obtain st' where st': "close_item s ?st ?c False = Some st'" "parsed s M st' (xs @ [Some (escape_all v)])"
    using started_close [OF assms(1,3,4,5) drop_within [OF assms(4)]] .
  have "parse_loop s st c = parse_loop s (st'\<lparr>pd_state := preName\<rparr>) (?c + 1)"
  proof (cases "v = []")
    case True
    then have "parse_step s st ?c = Some (st'\<lparr>pd_state := preName\<rparr>)"
      using eq st'(1) parsedD(5) [OF assms(1)] assms(2) parsed_ptr(1) [OF assms(1), of c]
      by (simp add: parse_step_def step_preValue_def step_inValue_def next_quote_def is_escape_def
          is_space_def char_backslash_def Let_def quote_unchanged)
    from separator_step [OF eq _ this] True show ?thesis by simp
  next
    case False
    have "parse_step s ?st ?c = Some (st'\<lparr>pd_state := preName\<rparr>)"
      using eq st'(1) parsedD(5) [OF assms(1)]
      by (simp add: parse_step_def step_inValue_def next_quote_def is_escape_def char_backslash_def
          Let_def quote_unchanged)
    from separator_step [OF eq _ this] scan_start [OF assms(1,4) False] assms(2,5) show ?thesis
      by (simp add: clean_def)
  qed
  with st'(2) show ?thesis
    by (intro exI [of _ "st'\<lparr>pd_state := preName\<rparr>"]) simp
qed

lemma scan_last_value:
  assumes "parsed s M st xs" and "pd_state st = preValue" and "length xs + 1 < M"
    and "drop c s = escape_all v" and "clean v" and "c \<le> length s"
  shows "\<exists>st1 st2. parse_loop s st c = Some (st1, c + 2 * length v) \<and>
    parse_finish s st1 (c + 2 * length v) = Some st2 \<and> parsed s M st2 (xs @ [Some (escape_all v)])"
proof -
  let ?st = "st\<lparr>pd_ptr := (pd_ptr st)[length xs := c], pd_state := inValue\<rparr>"
  let ?sp = "st\<lparr>pd_ptr := (pd_ptr st)[length xs := c], pd_state := preValue\<rparr>"
  let ?c = "c + 2 * length v"
  have d: "drop c s = escape_all v @ []" using assms(4) by simp
  have eq: "c_at s ?c = char_nul" unfolding c_at_drop by (simp add: assms(4) c_at_def)
  then have loop: "parse_loop s g ?c = Some (g, ?c)" for g by (subst parse_loop.simps) simp
  show ?thesis
  proof (cases "v = []")
    case True
    obtain st2 where st2: "close_item s ?sp ?c False = Some st2" "parsed s M st2 (xs @ [Some (escape_all v)])"
      using started_close [OF assms(1,3) d assms(5,6)] .
    have "?sp = st\<lparr>pd_ptr := (pd_ptr st)[length xs := c]\<rparr>" using assms(2) by simp
    with st2 True loop [of st] assms(2) parsed_ptr(1) [OF assms(1), of c] show ?thesis
      by (intro exI [of _ st] exI [of _ st2]) (simp add: parse_finish_def finish_preValue_def)
  next
    case False
    obtain st2 where st2: "close_item s ?st ?c False = Some st2" "parsed s M st2 (xs @ [Some (escape_all v)])"
      using started_close [OF assms(1,3) d assms(5,6)] .
    have "parse_loop s st c = Some (?st, ?c)"
      using scan_start [OF assms(1) d False, where q = inValue] loop assms(2,5) by (simp add: clean_def)
    with st2 show ?thesis
      by (intro exI [of _ ?st] exI [of _ st2]) (simp add: parse_finish_def)
  qed
qed

section \<open>Whole definition strings\<close>

text \<open>The definitions in the format \<open>a=xxx,b=yyy\<close>, every character of names and values escaped.\<close>

fun render_defns :: "(string \<times> string) list \<Rightarrow> string" where
  "render_defns [] = []"
| "render_defns [(n, v)] = escape_all n @ CHR ''='' # escape_all v"
| "render_defns ((n, v) # ds) = escape_all n @ CHR ''='' # escape_all v @ CHR '','' # render_defns ds"

definition clean_defns :: "(string \<times> string) list \<Rightarrow> bool" where
  "clean_defns ds \<longleftrightarrow> (\<forall>(n, v) \<in> set ds. clean n \<and> n \<noteq> [] \<and> clean v)"

definition pairs_of :: "(string \<times> string) list \<Rightarrow> string option list" where
  "pairs_of ds = concat (map (\<lambda>(n, v). [Some n, Some v]) ds)"

lemma pairs_of_simps [simp]:
  "pairs_of [] = []" "pairs_of ((n, v) # ds) = Some n # Some v # pairs_of ds"
  by (simp_all add: pairs_of_def)

lemma length_render: "clean_defns ds \<Longrightarrow> 4 * length ds \<le> length (render_defns ds) + 1"
proof (induction ds rule: render_defns.induct)
  case (2 n v)
  then show ?case by (cases n) (auto simp: clean_defns_def)
next
  case (3 n v d ds)
  then have "4 * length (d # ds) \<le> length (render_defns (d # ds)) + 1" "n \<noteq> []"
    by (auto simp: clean_defns_def)
  then show ?case by (cases n) auto
qed simp

lemma drop_behind: "drop c s = a @ x # b \<Longrightarrow> drop (c + length a + 1) s = b"
  by (metis add.assoc add.commute append_Cons append_assoc append_eq_conv_conj drop_drop
      length_append_singleton append_Nil Suc_eq_plus1)

lemma scan_defns:
  assumes "parsed s M st xs" and "pd_state st = preName" and "length xs + 2 * length ds < M"
    and "drop c s = render_defns ds" and "clean_defns ds" and "ds \<noteq> []"
  shows "\<exists>st1 c1 st2. parse_loop s st c = Some (st1, c1) \<and> parse_finish s st1 c1 = Some st2 \<and>
    parsed s M st2 (xs @ map (map_option escape_all) (pairs_of ds))"
  using assms
proof (induction ds arbitrary: st xs c rule: render_defns.induct)
  case (2 n v)
  then have d: "drop c s = escape_all n @ CHR ''='' # escape_all v" and n: "clean n" "n \<noteq> []" "clean v"
    by (auto simp: clean_defns_def)
  obtain st1 where st1: "parse_loop s st c = parse_loop s st1 (c + 2 * length n + 1)"
      "parsed s M st1 (xs @ [Some (escape_all n)])" "pd_state st1 = preValue"
    using scan_name [OF 2(1,2) _ d n(1,2)] 2(3) by auto
  have d1: "drop (c + 2 * length n + 1) s = escape_all v"
    using drop_behind [OF d] by simp
  have "length (drop c s) = 2 * length n + 1 + 2 * length v" using d by simp
  then have "c + 2 * length n + 1 \<le> length s" by simp
  from scan_last_value [OF st1(2,3) _ d1 n(3) this] st1(1) 2(3) show ?case by auto
next
  case (3 n v d ds)
  let ?ds = "d # ds"
  from 3 have d: "drop c s = escape_all n @ CHR ''='' # escape_all v @ CHR '','' # render_defns ?ds"
    and n: "clean n" "n \<noteq> []" "clean v" "clean_defns ?ds"
    by (auto simp: clean_defns_def)
  obtain st1 where st1: "parse_loop s st c = parse_loop s st1 (c + 2 * length n + 1)"
      "parsed s M st1 (xs @ [Some (escape_all n)])" "pd_state st1 = preValue"
    using scan_name [OF 3(2,3) _ d n(1,2)] 3(4) by auto
  have d1: "drop (c + 2 * length n + 1) s = escape_all v @ CHR '','' # render_defns ?ds"
    using drop_behind [OF d] by simp
  obtain st2 where st2: "parse_loop s st c = parse_loop s st2 (c + 2 * length n + 1 + 2 * length v + 1)"
      "parsed s M st2 (xs @ [Some (escape_all n), Some (escape_all v)])" "pd_state st2 = preName"
    using scan_value [OF st1(2,3) _ d1 n(3)] st1(1) 3(4) by auto
  have d2: "drop (c + 2 * length n + 1 + 2 * length v + 1) s = render_defns ?ds"
    using drop_behind [OF d1] by (simp add: algebra_simps)
  from 3(1) [OF st2(2,3) _ d2 n(4)] 3(4) st2(1) show ?case by simp
qed simp

lemma unquote_pairs:
  "unquote_names (map (map_option escape_all) (pairs_of ds) @ [None, None]) =
     pairs_of (map (\<lambda>(n, v). (n, escape_all v)) ds) @ [None, None]"
  by (induction ds) (auto simp: unquote_escape_all)

lemma parse_render_aux:
  assumes "clean_defns ds"
  shows "macParseDefns (render_defns ds) =
    Some (int (length ds), pairs_of (map (\<lambda>(n, v). (n, escape_all v)) ds) @ [None, None])"
proof (cases "ds = []")
  case True
  then show ?thesis by (simp add: macParseDefns_def parse_loop.simps c_at_def parse_finish_def)
next
  case False
  let ?s = "render_defns ds"
  let ?M = "max (length ?s) 4"
  define st0 where "st0 = \<lparr>pd_num = 0, pd_ptr = replicate ?M 0, pd_end = replicate ?M 0,
      pd_del = replicate ?M False, pd_quote = None, pd_state = preName\<rparr>"
  have "parsed ?s ?M st0 []" "pd_state st0 = preName"
    by (simp_all add: st0_def parsed_def del: replicate.simps)
  moreover have "2 * length ds < ?M"
    using length_render [OF assms] False by (cases ds) auto
  ultimately obtain st1 c1 st2 where st: "parse_loop ?s st0 0 = Some (st1, c1)"
      "parse_finish ?s st1 c1 = Some st2"
      "parsed ?s ?M st2 (map (map_option escape_all) (pairs_of ds))"
    using scan_defns [of ?s ?M st0 "[]" ds 0] assms False by auto
  have "length (pairs_of ds) = 2 * length ds" by (induction ds) auto
  then have "pd_num st2 = 2 * length ds"
      "map (item_string ?s st2) [0..<2 * length ds] = map (map_option escape_all) (pairs_of ds)"
    using parsedD(4,8) [OF st(3)] by auto
  with st show ?thesis
    unfolding macParseDefns_def Let_def st0_def [symmetric] by (simp add: unquote_pairs)
qed



section \<open>Bare names\<close>

text \<open>Names without \<open>=\<close>, which ask for macros to be deleted, of one character each.\<close>

definition bare_char :: "char \<Rightarrow> bool" where
  "bare_char x \<longleftrightarrow> x \<notin> {char_nul, char_backslash, CHR 0x27, CHR 0x22, CHR ''='', CHR '',''} \<and> \<not> is_space x"

fun render_bare :: "string \<Rightarrow> string" where
  "render_bare [] = []"
| "render_bare [x] = [x]"
| "render_bare (x # y # xs) = x # CHR '','' # render_bare (y # xs)"

lemma length_render_bare: "xs \<noteq> [] \<Longrightarrow> length (render_bare xs) = 2 * length xs - 1"
  by (induction xs rule: render_bare.induct) auto

text \<open>Two elements of the work arrays are in use for each name.\<close>

definition between :: "nat \<Rightarrow> nat \<Rightarrow> parse_defns \<Rightarrow> bool" where
  "between M k st \<longleftrightarrow> length (pd_ptr st) = M \<and> length (pd_end st) = M \<and> length (pd_del st) = M \<and>
     pd_num st = k \<and> pd_quote st = None \<and> pd_state st = preName"

lemma bare_char_step:
  assumes "between M k st" "drop c s = x # rest" "bare_char x" "k < M"
  shows "parse_loop s st c = parse_loop s (st\<lparr>pd_ptr := (pd_ptr st)[k := c], pd_state := inName\<rparr>) (c + 1)"
proof -
  have x: "c_at s c = x" using c_at_here [of s c] assms(2) by (simp add: c_at_def)
  have "parse_step s st c = Some (st\<lparr>pd_ptr := (pd_ptr st)[k := c], pd_state := inName\<rparr>)"
    using assms(1,3,4) x
    by (auto simp: parse_step_def step_preName_def step_inName_def next_quote_def is_escape_def set_ptr_def
        arr_set_def between_def bare_char_def Let_def)
  then show ?thesis
    using x assms(3) by (subst parse_loop.simps) (simp add: bare_char_def is_escape_def)
qed

lemma bare_comma_step:
  assumes "between M k st" "c_at s c = CHR '',''" "k + 2 < M" "length p = M"
  shows "\<exists>st'. parse_loop s (st\<lparr>pd_ptr := p, pd_state := inName\<rparr>) c = parse_loop s st' (c + 1) \<and> between M (k + 2) st'"
proof -
  obtain st' where "parse_step s (st\<lparr>pd_ptr := p, pd_state := inName\<rparr>) c = Some st'" "between M (k + 2) st'"
    using assms
    by (auto simp: parse_step_def step_inName_def step_preValue_def step_inValue_def close_item_def set_del_def
        set_ptr_def next_quote_def is_escape_def arr_set_def between_def is_space_def char_backslash_def Let_def)
  then show ?thesis using separator_step [OF assms(2)] by blast
qed

lemma bare_overrun:
  assumes "between M k st" "drop c s = render_bare xs" "xs \<noteq> []" "\<forall>x \<in> set xs. bare_char x"
    and "M \<le> k + 2 * length xs" "k + 2 * length xs \<le> M + 1"
  shows "Option.bind (parse_loop s st c) (\<lambda>(st1, c1). parse_finish s st1 c1) = None"
  using assms
proof (induction xs arbitrary: k st c rule: render_bare.induct)
  case (2 x)
  let ?st = "st\<lparr>pd_ptr := (pd_ptr st)[k := c], pd_state := inName\<rparr>"
  have "c_at s (c + 1) = char_nul"
    unfolding c_at_drop using 2 by (simp add: c_at_def)
  then have "parse_loop s ?st (c + 1) = Some (?st, c + 1)" by (subst parse_loop.simps) simp
  then have "parse_loop s st c = Some (?st, c + 1)"
    using bare_char_step [of M k st c s x "[]"] 2 by simp
  moreover have "parse_finish s ?st (c + 1) = None"
    using 2 by (simp add: parse_finish_def finish_preValue_def close_item_def set_del_def set_ptr_def arr_set_def
        between_def)
  ultimately show ?case by simp
next
  case (3 x y xs)
  let ?p = "(pd_ptr st)[k := c]"
  have d: "drop c s = x # CHR '','' # render_bare (y # xs)" using 3 by simp
  have comma: "c_at s (c + 1) = CHR '',''" unfolding c_at_drop d by (simp add: c_at_def)
  have 1: "parse_loop s st c = parse_loop s (st\<lparr>pd_ptr := ?p, pd_state := inName\<rparr>) (c + 1)"
    using bare_char_step [OF 3(2) d] 3 by simp
  have "length ?p = M" using 3(2) by (simp add: between_def)
  then obtain st' where st': "parse_loop s (st\<lparr>pd_ptr := ?p, pd_state := inName\<rparr>) (c + 1) = parse_loop s st' (c + 1 + 1)"
      "between M (k + 2) st'"
    using bare_comma_step [OF 3(2) comma, of ?p] 3(7) by auto
  have "drop (c + 1 + 1) s = render_bare (y # xs)" using drop_step [OF d] by simp
  from 3(1) [OF st'(2) this] 3(5-7) show ?case using 1 st'(1) by simp
qed simp

text \<open>
  C34: The work arrays of \<^verbatim>\<open>macParseDefns\<close> are too short for macros that are to be deleted. They have as
  many elements as the string has characters (at least 4), but a name that is not followed by \<open>=\<close> takes two
  elements, and the flag behind the last one is stored too. Any two or more names of one character, separated by
  commas, make \<^verbatim>\<open>macParseDefns\<close> store behind the end of its heap blocks.
\<close>

theorem parse_overruns:
  assumes "2 \<le> length xs" "\<forall>x \<in> set xs. bare_char x"
  shows "macParseDefns (render_bare xs) = None"
proof -
  let ?M = "max (length (render_bare xs)) 4"
  define st0 where "st0 = \<lparr>pd_num = 0, pd_ptr = replicate ?M 0, pd_end = replicate ?M 0,
      pd_del = replicate ?M False, pd_quote = None, pd_state = preName\<rparr>"
  have ne: "xs \<noteq> []" using assms(1) by auto
  have st0: "between ?M 0 st0" by (simp add: st0_def between_def)
  have M: "?M \<le> 0 + 2 * length xs" "0 + 2 * length xs \<le> ?M + 1"
    using assms(1) length_render_bare [OF ne] by linarith+
  have "Option.bind (parse_loop (render_bare xs) st0 0) (\<lambda>(st1, c1). parse_finish (render_bare xs) st1 c1) = None"
    by (rule bare_overrun [OF st0 _ ne assms(2) M]) simp
  then show ?thesis
    unfolding macParseDefns_def Let_def st0_def [symmetric]
    by (cases "parse_loop (render_bare xs) st0 0") auto
qed

theorem parse_overruns_witness: "macParseDefns ''a,b,c'' = None"
  using parse_overruns [of "''abc''"]
  by (simp add: bare_char_def is_space_def char_nul_def char_backslash_def)

end
