(* ===== verification/MacTable.thy ===== *)
theory MacTable
  imports MacParse
begin

text \<open>
  What a macro expansion computes: a table made from definitions answers like a map from names
  to values, and the expansion of a text with references is the text with the values put in.
  Scopes restore the table they were opened on.
\<close>

section \<open>Scopes restore the table\<close>

lemma put_flags: "mac_wf g \<Longrightarrow> flags (snd (macPutValue getenv g name (Some v))) = flags g"
  by (auto simp: macPutValue_def mac_lookup_def mac_create_def mac_rawval_def upd_entry_def Let_def
      split: option.splits)

lemma put_pairs_scope:
  assumes "in_scope h g" and "mac_wf h" and "mac_wf g"
  shows "\<exists>g'. put_pairs getenv g (pairs_of ds) = Some (length ds, g') \<and> in_scope h g' \<and> flags g' = flags g"
  using assms
proof (induction ds arbitrary: g)
  case (Cons d ds)
  obtain n v where d: "d = (n, v)" by fastforce
  let ?g = "snd (macPutValue getenv g n (Some v))"
  have "fst (macPutValue getenv g n (Some v)) = int (length v)"
    using Cons.prems(3) by (auto simp: macPutValue_def mac_wf_def Let_def split: prod.splits)
  moreover have "in_scope h ?g" "mac_wf ?g" "flags ?g = flags g"
    using put_in_scope put_wf put_flags Cons.prems by blast+
  ultimately show ?case
    using Cons.IH [of ?g] Cons.prems(2) d by (auto simp: split_beta)
qed simp

text \<open>
  C31: Definitions in a scope are undone by its end. After \<^verbatim>\<open>macPushScope\<close>, any number of definitions
  with values that are not NULL, installed with \<^verbatim>\<open>macInstallMacros\<close> (redefinitions of outer macros
  included), \<^verbatim>\<open>macPopScope\<close> returns 0 and
  leaves exactly the entries, the level and the flags from before \<^verbatim>\<open>macPushScope\<close>; only the mark
  that values must be expanded again is set.
\<close>

theorem scope_restores:
  assumes "mac_reach getenv h"
  shows "fst (macInstallMacros getenv (snd (macPushScope h)) (pairs_of ds)) = int (length ds) \<and>
    macPopScope (snd (macInstallMacros getenv (snd (macPushScope h)) (pairs_of ds))) =
      (0, h\<lparr>dirty := True\<rparr>)"
proof -
  have wf: "mac_wf h" using mac_reach_inv_aux [OF assms] mac_inv_wf by blast
  obtain g where g: "put_pairs getenv (snd (macPushScope h)) (pairs_of ds) = Some (length ds, g)"
      "in_scope h g" "flags g = flags h"
    using put_pairs_scope [OF push_in_scope [OF wf] wf push_wf [OF wf]] by auto
  have "g\<lparr>entries := entries h, level := level h, dirty := True\<rparr> = h\<lparr>dirty := True\<rparr>"
    using g(2,3) by (simp add: in_scope_def)
  with g pop_in_scope [OF g(2) wf] show ?thesis
    by (simp add: macInstallMacros_def)
qed

theorem scope_restores_witness:
  "macPopScope (snd (macInstallMacros (\<lambda>_. None) (snd (macPushScope empty_handle))
     [Some ''A'', Some ''1'', Some ''A'', Some ''2''])) = (0, empty_handle\<lparr>dirty := True\<rparr>)"
proof -
  have "mac_reach (\<lambda>_. None) empty_handle"
    by (rule mac_reach.created [of _ "[]"]) (simp add: macCreateHandle_def pair_at_def)
  from scope_restores [OF this, of "[(''A'', ''1''), (''A'', ''2'')]"] show ?thesis by simp
qed

text \<open>A NULL value takes away every entry for the name.\<close>

definition names_macro :: "string \<Rightarrow> MAC_ENTRY \<Rightarrow> bool" where
  "names_macro name e \<longleftrightarrow> \<not> special e \<and> ename e = name"

lemma filter_delete:
  assumes "k < length xs" "\<not> P (xs ! k)"
  shows "filter P (take k xs @ drop (Suc k) xs) = filter P xs"
proof -
  have "filter P xs = filter P (take k xs @ xs ! k # drop (Suc k) xs)"
    using id_take_nth_drop [OF assms(1)] by simp
  then show ?thesis using assms(2) by simp
qed

lemma delete_all_filter:
  "\<not> uses_environment h \<Longrightarrow> \<forall>e \<in> set (entries h). etype e \<noteq> ''environment variable'' \<Longrightarrow>
   \<exists>d. delete_all getenv h name = h\<lparr>entries := filter (\<lambda>e. \<not> names_macro name e) (entries h), dirty := d\<rparr>"
proof (induction getenv h name rule: delete_all.induct)
  case (1 getenv h name)
  show ?case
  proof (cases "lookup_back (entries h) name False (length (entries h))")
    case None
    then have "\<forall>e \<in> set (entries h). \<not> names_macro name e"
      unfolding lookup_back_None by (metis in_set_conv_nth names_macro_def)
    moreover have "delete_all getenv h name = h"
      using None 1(2) by (subst delete_all.simps) (simp add: mac_lookup_def)
    ultimately show ?thesis by (intro exI [of _ "dirty h"]) simp
  next
    case (Some k)
    note k = lookup_back_Some [OF Some]
    have l: "mac_lookup getenv h name False = (Some k, h)" using Some by (simp add: mac_lookup_def)
    have e: "etype (entries h ! k) \<noteq> ''environment variable''" using 1(3) k by simp
    let ?h = "mac_delete h k"
    have "\<forall>e \<in> set (entries ?h). etype e \<noteq> ''environment variable''"
      using 1(3) by (auto simp: mac_delete_def dest: in_set_takeD in_set_dropD)
    moreover have "\<not> uses_environment ?h" using 1(2) by (simp add: mac_delete_def uses_environment_def)
    ultimately obtain d where
        "delete_all getenv ?h name = ?h\<lparr>entries := filter (\<lambda>e. \<not> names_macro name e) (entries ?h), dirty := d\<rparr>"
      using 1(1) [OF l [symmetric] refl e] by blast
    moreover have "filter (\<lambda>e. \<not> names_macro name e) (entries ?h) = filter (\<lambda>e. \<not> names_macro name e) (entries h)"
      using k by (simp add: mac_delete_def filter_delete names_macro_def del: filter_append)
    moreover have "delete_all getenv h name = delete_all getenv ?h name"
      using l e by (subst delete_all.simps) simp
    ultimately show ?thesis by (intro exI [of _ d]) (simp add: mac_delete_def)
  qed
qed



section \<open>Tables made from definitions\<close>

definition raw_of :: "MAC_HANDLE \<Rightarrow> string \<Rightarrow> string option" where
  "raw_of h name =
     (case lookup_back (entries h) name False (length (entries h)) of
        None \<Rightarrow> None | Some k \<Rightarrow> rawval (entries h ! k))"

text \<open>A table without scopes: every entry is a macro at level 0 with a raw value.\<close>

definition flat :: "MAC_HANDLE \<Rightarrow> bool" where
  "flat h \<longleftrightarrow>
     magic h = MAC_MAGIC \<and> level h = 0 \<and> \<not> uses_environment h \<and>
     (\<forall>e \<in> set (entries h). \<not> special e \<and> \<not> visited e \<and> elevel e = 0 \<and> rawval e \<noteq> None)"

lemma flat_empty: "flat empty_handle"
  by (simp add: flat_def empty_handle_def uses_environment_def)

lemma flat_lookup:
  "flat h \<Longrightarrow> mac_lookup getenv h name False =
     (lookup_back (entries h) name False (length (entries h)), h)"
  by (auto simp: mac_lookup_def flat_def split: option.splits)

lemma lookup_back_update:
  "lookup_back (es[k := (es ! k)\<lparr>rawval := v\<rparr>]) name sp j = lookup_back es name sp j"
  by (rule lookup_back_cong) (cases "k < length es"; auto simp: nth_list_update list_update_beyond)

lemma flat_put:
  assumes "flat h" and "macPutValue getenv h name (Some v) = (r, h')"
  shows "flat h'" and "raw_of h' = (raw_of h)(name \<mapsto> v)" and "dirty h'" and "r = int (length v)"
    and "flags h' = flags h"
proof -
  note l = flat_lookup [OF assms(1), of getenv name]
  have m: "magic h = MAC_MAGIC" using assms(1) by (simp add: flat_def)
  let ?es = "entries h"
  have "flat h' \<and> raw_of h' = (raw_of h)(name \<mapsto> v) \<and> dirty h' \<and> r = int (length v) \<and> flags h' = flags h"
  proof (cases "lookup_back ?es name False (length ?es)")
    case None
    with put_create [OF m l] assms(2) have h':
        "h' = h\<lparr>entries := ?es @ [macro_entry name v (level h)], dirty := True\<rparr>" "r = int (length v)"
      by auto
    have "lookup_back (?es @ [x]) a False (length ?es) = lookup_back ?es a False (length ?es)" for x a
      by (rule lookup_back_cong) (simp add: nth_append)
    then have "raw_of h' = (raw_of h)(name \<mapsto> v)"
      using lookup_back_Some [of ?es _ False "length ?es"]
      by (auto simp: h' raw_of_def fun_eq_iff macro_entry_def nth_append split: option.splits)
    with h' assms(1) show ?thesis
      by (auto simp: flat_def macro_entry_def uses_environment_def)
  next
    case (Some k)
    have k: "k < length ?es" "ename (?es ! k) = name"
      using lookup_back_Some [OF Some] by auto
    then have "level h \<le> elevel (?es ! k)" using assms(1) by (simp add: flat_def)
    with put_update [OF m l [unfolded Some]] assms(2) have h':
        "h' = h\<lparr>entries := ?es[k := (?es ! k)\<lparr>rawval := Some v\<rparr>], dirty := True\<rparr>" "r = int (length v)"
      by auto
    have "raw_of h' a = ((raw_of h)(name \<mapsto> v)) a" for a
    proof (cases "a = name")
      case True
      with k Some show ?thesis by (simp add: h' raw_of_def lookup_back_update)
    next
      case False
      then have "lookup_back ?es a False (length ?es) \<noteq> Some k"
        using lookup_back_Some [of ?es a False "length ?es" k] k(2) by auto
      with False show ?thesis
        by (auto simp: h' raw_of_def lookup_back_update split: option.splits)
    qed
    moreover have "flat h'"
      using assms(1) k(1) set_update_subset_insert [of ?es k] by (fastforce simp: h' flat_def uses_environment_def)
    ultimately show ?thesis by (auto simp: h')
  qed
  then show "flat h'" "raw_of h' = (raw_of h)(name \<mapsto> v)" "dirty h'" "r = int (length v)" "flags h' = flags h"
    by auto
qed

lemma flat_install:
  assumes "flat h"
  shows "\<exists>h'. put_pairs getenv h (pairs_of ds @ [None, None]) = Some (length ds, h') \<and> flat h' \<and>
    raw_of h' = raw_of h ++ map_of (rev ds) \<and> (ds \<noteq> [] \<longrightarrow> dirty h') \<and> (ds = [] \<longrightarrow> h' = h) \<and>
    flags h' = flags h"
  using assms
proof (induction ds arbitrary: h)
  case (Cons d ds)
  obtain n v where d: "d = (n, v)" by fastforce
  obtain r h1 where p: "macPutValue getenv h n (Some v) = (r, h1)" by fastforce
  note f = flat_put [OF Cons.prems p]
  obtain h' where "put_pairs getenv h1 (pairs_of ds @ [None, None]) = Some (length ds, h')" "flat h'"
      "raw_of h' = raw_of h1 ++ map_of (rev ds)" "ds \<noteq> [] \<longrightarrow> dirty h'" "ds = [] \<longrightarrow> h' = h1"
      "flags h' = flags h1"
    using Cons.IH [OF f(1)] by blast
  with p f d show ?case by (auto simp: map_add_def fun_eq_iff split: option.splits)
qed simp

section \<open>Expanding escaped values\<close>

lemma trans_escaped:
  assumes "drop i s = escape_all v" and "char_nul \<notin> set v" and "length out + length v \<le> cap"
    and "0 < lev" and "length v < n"
  shows "mac_trans getenv n h err lev [] s i None out cap = Some (h, err, i + 2 * length v - 1, out @ v)"
  using assms(1-3,5)
proof (induction v arbitrary: i out n)
  case Nil
  then obtain m where "n = Suc m" by (cases n) auto
  with Nil show ?case by (simp add: c_at_here [of s i] c_at_def)
next
  case (Cons d v)
  then obtain m where n: "n = Suc m" by (cases n) auto
  have d: "drop i s = char_backslash # d # escape_all v" "d \<noteq> char_nul" using Cons.prems by auto
  note e = escape_here [OF d]
  have at: "c_at s (Suc i) = d" using c_at_drop [of s i 1] d(1) by (simp add: c_at_def)
  have "mac_trans getenv n h err lev [] s i None out cap =
      mac_trans getenv m h err lev [] s (i + 2) None (out @ [d]) cap"
    using e at d(2) Cons.prems(3) assms(4)
    by (simp add: n trans_quote_def is_mac_ref_def trans_char_def char_backslash_def char_nul_def)
  also have "\<dots> = Some (h, err, i + 2 + 2 * length v - 1, out @ [d] @ v)"
    using Cons.IH [OF drop_step [OF d(1)], of "out @ [d]" m] Cons.prems n by simp
  finally show ?case by simp
qed

text \<open>Tables whose raw values are escaped texts of at most \<^verbatim>\<open>MAC_SIZE\<close> characters.\<close>

definition escaped_entry :: "MAC_ENTRY \<Rightarrow> bool" where
  "escaped_entry e \<longleftrightarrow>
     (\<exists>v. rawval e = Some (escape_all v) \<and> char_nul \<notin> set v \<and> length v \<le> MAC_SIZE)"

definition set_value :: "MAC_ENTRY \<Rightarrow> MAC_ENTRY" where
  "set_value e =
     (let v = unquote_name None (the (rawval e))
      in e\<lparr>evalue := Some v, elength := length v, eerror := False\<rparr>)"

lemma expand_escaped:
  assumes "\<forall>e \<in> set (entries h). escaped_entry e" and "k \<le> length (entries h)"
    and "length (entries h) - k + MAC_SIZE + 1 < n"
  shows "expand_loop n getenv h k =
    Some (h\<lparr>entries := take k (entries h) @ map set_value (drop k (entries h)), dirty := False\<rparr>)"
  using assms
proof (induction "length (entries h) - k" arbitrary: h k n)
  case 0
  then obtain m where "n = Suc m" by (cases n) auto
  with 0 show ?case by simp
next
  case (Suc l)
  then obtain m where n: "n = Suc m" by (cases n) auto
  let ?es = "entries h"
  have k: "k < length ?es" using Suc.hyps(2) by simp
  then have "escaped_entry (?es ! k)" using Suc.prems(1) by simp
  then obtain v where v: "rawval (?es ! k) = Some (escape_all v)" "char_nul \<notin> set v" "length v \<le> MAC_SIZE"
    by (auto simp: escaped_entry_def)
  let ?h = "upd_entry k (\<lambda>e. e\<lparr>evalue := Some v, elength := length v, eerror := False\<rparr>) h"
  have val: "set_value (?es ! k) = (?es ! k)\<lparr>evalue := Some v, elength := length v, eerror := False\<rparr>"
    using v(1) by (simp add: set_value_def unquote_escape_all)
  have "mac_trans getenv m h False 1 [] (escape_all v) 0 None [] MAC_SIZE =
      Some (h, False, 2 * length v - 1, v)"
    using trans_escaped [of 0 "escape_all v" v "[]"] v Suc.prems(3) n by simp
  then have "expand_loop n getenv h k = expand_loop m getenv ?h (Suc k)"
    using k v(1) by (simp add: n del: mac_trans.simps)
  also have "\<dots> = Some (?h\<lparr>entries := take (Suc k) (entries ?h) @ map set_value (drop (Suc k) (entries ?h)),
      dirty := False\<rparr>)"
  proof (rule Suc.hyps(1))
    have "e \<in> set ?es \<or> e = set_value (?es ! k)" if "e \<in> set (entries ?h)" for e
      using that set_update_subset_insert [of ?es k "set_value (?es ! k)"]
      by (auto simp: upd_entry_def val)
    then show "\<forall>e \<in> set (entries ?h). escaped_entry e"
      using Suc.prems(1) v by (fastforce simp: escaped_entry_def val)
  qed (use Suc.hyps(2) Suc.prems(3) k n in \<open>auto simp: upd_entry_def\<close>)
  also have "take (Suc k) (entries ?h) @ map set_value (drop (Suc k) (entries ?h)) =
      take k ?es @ map set_value (drop k ?es)"
    using k val by (simp add: upd_entry_def take_Suc_conv_app_nth Cons_nth_drop_Suc [symmetric])
  finally show ?case by (simp add: upd_entry_def)
qed

section \<open>Texts with references\<close>

datatype piece = Text string | Ref string

fun render_piece :: "piece \<Rightarrow> string" where
  "render_piece (Text t) = t"
| "render_piece (Ref name) = ''$('' @ name @ '')''"

definition plain_char :: "char \<Rightarrow> bool" where
  "plain_char c \<longleftrightarrow> c \<notin> {CHR ''$'', char_backslash, CHR 0x22, CHR 0x27, char_nul}"

fun plain_piece :: "piece \<Rightarrow> bool" where
  "plain_piece (Text t) \<longleftrightarrow> list_all plain_char t"
| "plain_piece (Ref name) \<longleftrightarrow>
     list_all (\<lambda>c. plain_char c \<and> c \<notin> set ''=,)'') name \<and> length name \<le> MAC_SIZE"

text \<open>What a piece stands for, with the values \<open>m\<close>, and whether it is defined.\<close>

fun piece_value :: "bool \<Rightarrow> (string \<Rightarrow> string option) \<Rightarrow> piece \<Rightarrow> string" where
  "piece_value quiet m (Text t) = t"
| "piece_value quiet m (Ref name) =
     (case m name of
        Some v \<Rightarrow> v
      | None \<Rightarrow> ''$('' @ name @ (if quiet then '')'' else '',undefined)''))"

fun piece_undefined :: "(string \<Rightarrow> string option) \<Rightarrow> piece \<Rightarrow> bool" where
  "piece_undefined m (Text t) = False"
| "piece_undefined m (Ref name) = (m name = None)"

text \<open>An expanded table whose values are \<open>m\<close>.\<close>

definition expanded_table :: "MAC_HANDLE \<Rightarrow> (string \<Rightarrow> string option) \<Rightarrow> bool" where
  "expanded_table h m \<longleftrightarrow>
     flat h \<and> \<not> dirty h \<and>
     (\<forall>name. case lookup_back (entries h) name False (length (entries h)) of
        None \<Rightarrow> m name = None
      | Some k \<Rightarrow> evalue (entries h ! k) = m name \<and> m name \<noteq> None \<and> \<not> eerror (entries h ! k))"

lemma cpy2val_take: "length out \<le> cap \<Longrightarrow> cpy2val src out cap = take cap (out @ src)"
  by (simp add: cpy2val_def)

lemma vput_take: "length out \<le> cap \<Longrightarrow> vput cap out c = take cap (out @ [c])"
  by (simp add: vput_def)

lemma take_take_append: "take n (take n xs @ ys) = take n (xs @ ys)"
  by (cases "n \<le> length xs") auto

lemma bad_reference_take:
  assumes "length out \<le> cap"
  shows "bad_reference h name errval out cap =
    take cap (out @ ''$('' @ name @ (if suppressing h then '')'' else errval))"
  using assms
  by (simp add: bad_reference_def Let_def vput_take cpy2val_take take_take_append del: take_append)

lemma trans_text:
  assumes "drop i s = t @ rest" and "list_all (\<lambda>c. plain_char c \<and> c \<notin> set term) t"
    and "length out \<le> cap"
  shows "mac_trans getenv (n + length t) h err lev term s i None out cap =
    mac_trans getenv n h err lev term s (i + length t) None (take cap (out @ t)) cap"
  using assms
proof (induction t arbitrary: i out)
  case (Cons c t)
  have c: "c_at s i = c" using c_at_here [of s i] Cons.prems(1) by (simp add: c_at_def)
  have d: "drop (Suc i) s = t @ rest" using Cons.prems(1)
    by (simp add: drop_Suc tl_drop [symmetric])
  have "mac_trans getenv (n + length (c # t)) h err lev term s i None out cap =
      mac_trans getenv (n + length t) h err lev term s (Suc i) None (take cap (out @ [c])) cap"
    using c Cons.prems(2,3)
    by (simp add: trans_quote_def is_mac_ref_def trans_char_def plain_char_def vput_take)
  also have "\<dots> = mac_trans getenv n h err lev term s (Suc i + length t) None
      (take cap (take cap (out @ [c]) @ t)) cap"
    using Cons.prems(2) by (intro Cons.IH [OF d]) auto
  finally show ?case by (simp add: take_take_append del: take_append)
qed simp

lemma value_plain:
  assumes "expanded_table h m" and "length out \<le> cap"
  shows "mac_value tr getenv h err lev macEnd s None name out cap =
    Some (h, err \<or> m name = None, take cap (out @ piece_value (suppressing h) m (Ref name)))"
proof -
  have f: "flat h" and t: "case lookup_back (entries h) name False (length (entries h)) of
        None \<Rightarrow> m name = None
      | Some k \<Rightarrow> evalue (entries h ! k) = m name \<and> m name \<noteq> None \<and> \<not> eerror (entries h ! k)"
    using assms(1) unfolding expanded_table_def by blast+
  show ?thesis
  proof (cases "lookup_back (entries h) name False (length (entries h))")
    case None
    then have "m name = None" using t by simp
    with None assms(2) show ?thesis
      by (simp add: mac_value_def flat_lookup [OF f] bad_reference_take del: take_append)
  next
    case (Some k)
    then obtain v where "evalue (entries h ! k) = Some v" "m name = Some v" "\<not> eerror (entries h ! k)"
      using t by auto
    moreover have "\<not> visited (entries h ! k)" "\<not> dirty h"
      using lookup_back_Some [OF Some] assms(1) by (auto simp: expanded_table_def flat_def)
    ultimately show ?thesis
      using Some assms(2)
      by (simp add: mac_value_def flat_lookup [OF f] cpy2val_take Let_def del: take_append)
  qed
qed

lemma refer_plain:
  assumes "expanded_table h m" and "drop i s = ''$('' @ name @ CHR '')'' # rest"
    and "plain_piece (Ref name)" and "length out \<le> cap" and "length name < n"
  shows "mac_refer (mac_trans getenv n) getenv n h err lev s i out cap =
    Some (h, err \<or> m name = None, i + 2 + length name,
      take cap (out @ piece_value (suppressing h) m (Ref name)))"
proof -
  have d: "drop (i + 2) s = name @ CHR '')'' # rest" using assms(2) by (intro drop_step) simp
  have e: "mac_end s (i + 1) = ''=,)''"
    using c_at_drop [of s i 1] assms(2) by (simp add: mac_end_def c_at_def)
  have c: "c_at s (i + 2 + length name) = CHR '')''"
    unfolding c_at_drop [of s "i + 2"] d by (simp add: c_at_def)
  obtain p where n: "n = Suc p + length name" using assms(5) by (metis add_Suc less_iff_Suc_add add.commute)
  have "list_all (\<lambda>c. plain_char c \<and> c \<notin> set ''=,)'') name" "length name \<le> MAC_SIZE"
    using assms(3) by auto
  then have "mac_trans getenv n h err (lev + 1) ''=,)'' s (i + 2) None [] MAC_SIZE =
      Some (h, err, i + 2 + length name, name)"
    using trans_text [OF d, of "''=,)''" "[]" MAC_SIZE getenv "Suc p" h err "lev + 1"] c
    unfolding n by (simp add: char_nul_def)
  then show ?thesis
    using value_plain [OF assms(1,4), of "mac_trans getenv n" getenv err lev "''=,)''" s name] c e
    unfolding mac_refer_def
    by (simp add: mac_default_def mac_scoped_def pop_if_def Let_def del: mac_trans.simps take_append
        piece_value.simps)
qed

lemma trans_pieces:
  assumes "expanded_table h m" and "drop i s = concat (map render_piece ps)"
    and "list_all plain_piece ps" and "length out \<le> cap" and "length (drop i s) < n"
  shows "\<exists>j. mac_trans getenv n h err 0 [] s i None out cap =
    Some (h, err \<or> list_ex (piece_undefined m) ps, j,
      take cap (out @ concat (map (piece_value (suppressing h) m) ps)))"
  using assms(2-5)
proof (induction ps arbitrary: i out n err)
  case Nil
  then obtain p where "n = Suc p" by (cases n) auto
  with Nil show ?case by (simp add: c_at_here [of s i] c_at_def)
next
  case (Cons p ps)
  show ?case
  proof (cases p)
    case (Text t)
    let ?out = "take cap (out @ t)"
    have d: "drop i s = t @ concat (map render_piece ps)" using Cons.prems(1) Text by simp
    then have d': "drop (i + length t) s = concat (map render_piece ps)"
      by (metis add.commute append_eq_conv_conj drop_drop)
    obtain q where n: "n = q + length t" "length (drop (i + length t) s) < q"
      using Cons.prems(4) d d' by (intro that [of "n - length t"]) auto
    have "mac_trans getenv n h err 0 [] s i None out cap =
        mac_trans getenv q h err 0 [] s (i + length t) None ?out cap"
      unfolding n(1) using Cons.prems(2,3) Text by (intro trans_text [OF d]) (auto simp: list_all_iff)
    with Cons.IH [OF d' _ _ n(2), of ?out err] Cons.prems(2) Text show ?thesis
      by (simp add: take_take_append del: take_append)
  next
    case (Ref name)
    let ?v = "piece_value (suppressing h) m p"
    let ?out = "take cap (out @ ?v)"
    have d: "drop i s = ''$('' @ name @ CHR '')'' # concat (map render_piece ps)"
      using Cons.prems(1) Ref by simp
    have d': "drop (i + 2 + length name + 1) s = concat (map render_piece ps)"
      using drop_behind [of "i + 2" s name] drop_step [of i s] d by simp
    obtain q where n: "n = Suc q" using Cons.prems(4) by (cases n) auto
    have "length (drop (i + 2 + length name + 1) s) < q" "length name < q"
      using Cons.prems(4) n unfolding d d' by auto
    note IH = Cons.IH [OF d' _ _ this(1), of ?out "err \<or> m name = None"]
    have r: "mac_refer (mac_trans getenv q) getenv q h err 0 s i out cap =
        Some (h, err \<or> m name = None, i + 2 + length name, ?out)"
      using refer_plain [OF assms(1) d _ Cons.prems(3) \<open>length name < q\<close>] Cons.prems(2) Ref by simp
    have "c_at s i = CHR ''$''" "is_mac_ref s i"
      using c_at_here [of s i] c_at_drop [of s i 1] d by (simp_all add: c_at_def is_mac_ref_def)
    then have "mac_trans getenv n h err 0 [] s i None out cap =
        mac_trans getenv q h (err \<or> m name = None) 0 [] s (i + 2 + length name + 1) None ?out cap"
      using r by (simp add: n trans_quote_def char_nul_def)
    with IH Cons.prems(2) show ?thesis
      by (simp add: Ref take_take_append del: take_append piece_value.simps)
  qed
qed

section \<open>From definitions to expansions\<close>

lemma put_escaped:
  assumes "flat h" and "\<forall>e \<in> set (entries h). escaped_entry e"
    and "char_nul \<notin> set v" and "length v \<le> MAC_SIZE"
    and "macPutValue getenv h name (Some (escape_all v)) = (r, h')"
  shows "\<forall>e \<in> set (entries h'). escaped_entry e"
proof -
  note l = flat_lookup [OF assms(1), of getenv name]
  let ?es = "entries h"
  have m: "magic h = MAC_MAGIC" using assms(1) by (simp add: flat_def)
  show ?thesis
  proof (cases "lookup_back ?es name False (length ?es)")
    case None
    have "escaped_entry (macro_entry name (escape_all v) (level h))"
      unfolding escaped_entry_def using assms(3,4) by (intro exI [of _ v]) (simp add: macro_entry_def)
    with None put_create [OF m l] assms(2,5) show ?thesis by auto
  next
    case (Some k)
    then have "level h \<le> elevel (?es ! k)"
      using assms(1) lookup_back_Some [OF Some] by (simp add: flat_def)
    with put_update [OF m l [unfolded Some]] assms(5)
    have h': "entries h' = ?es[k := (?es ! k)\<lparr>rawval := Some (escape_all v)\<rparr>]" by auto
    have "escaped_entry ((?es ! k)\<lparr>rawval := Some (escape_all v)\<rparr>)"
      using assms(3,4) by (auto simp: escaped_entry_def)
    with assms(2) set_update_subset_insert [of ?es k] show ?thesis by (fastforce simp: h')
  qed
qed

lemma install_escaped:
  assumes "flat h" and "\<forall>e \<in> set (entries h). escaped_entry e"
    and "\<forall>(n, v) \<in> set ds. char_nul \<notin> set v \<and> length v \<le> MAC_SIZE"
    and "put_pairs getenv h (pairs_of (map (\<lambda>(n, v). (n, escape_all v)) ds) @ [None, None]) = Some (k, h')"
  shows "\<forall>e \<in> set (entries h'). escaped_entry e"
  using assms
proof (induction ds arbitrary: h k)
  case (Cons d ds)
  obtain n v where d: "d = (n, v)" by fastforce
  obtain r h1 where p: "macPutValue getenv h n (Some (escape_all v)) = (r, h1)" by fastforce
  have "\<forall>e \<in> set (entries h1). escaped_entry e"
    using put_escaped [OF Cons.prems(1,2) _ _ p] Cons.prems(3) d by auto
  then show ?case
    using Cons.IH [OF flat_put(1) [OF Cons.prems(1) p]] Cons.prems(3,4) p d
    by (auto split: if_splits)
qed simp

lemma expanded_escaped:
  assumes "flat h" and "\<forall>e \<in> set (entries h). escaped_entry e"
    and "raw_of h = map_option escape_all \<circ> m"
  shows "expanded_table (h\<lparr>entries := map set_value (entries h), dirty := False\<rparr>) m"
proof -
  let ?es = "entries h"
  have key: "special (set_value e) = special e" "ename (set_value e) = ename e"
      "visited (set_value e) = visited e" "elevel (set_value e) = elevel e" "rawval (set_value e) = rawval e"
    for e by (simp_all add: set_value_def Let_def)
  have l: "lookup_back (map set_value ?es) name False (length ?es) = lookup_back ?es name False (length ?es)"
    for name by (rule lookup_back_cong) (simp add: key)
  have "case lookup_back ?es name False (length ?es) of
        None \<Rightarrow> m name = None
      | Some k \<Rightarrow> evalue (map set_value ?es ! k) = m name \<and> m name \<noteq> None \<and> \<not> eerror (map set_value ?es ! k)"
    (is "?ok name") for name
  proof (cases "lookup_back ?es name False (length ?es)")
    case None
    with assms(3) have "(map_option escape_all \<circ> m) name = None"
      unfolding assms(3) [symmetric] raw_of_def by simp
    with None show ?thesis by simp
  next
    case (Some k)
    then have k: "k < length ?es" using lookup_back_Some by blast
    have "rawval (?es ! k) = map_option escape_all (m name)"
      using Some fun_cong [OF assms(3), of name] by (simp add: raw_of_def)
    moreover have "rawval (?es ! k) \<noteq> None" using assms(1) k by (simp add: flat_def)
    ultimately obtain v where "m name = Some v" "rawval (?es ! k) = Some (escape_all v)" by auto
    with Some k show ?thesis by (simp add: set_value_def unquote_escape_all Let_def)
  qed
  then have "\<forall>name. ?ok name" by blast
  moreover have "flat (h\<lparr>entries := map set_value ?es, dirty := False\<rparr>)"
    using assms(1) by (simp add: flat_def key uses_environment_def)
  moreover have "entries (h\<lparr>entries := map set_value ?es, dirty := False\<rparr>) = map set_value ?es" by simp
  ultimately show ?thesis by (simp only: expanded_table_def length_map l) simp
qed

text \<open>
  C27: From definitions to expansions. Take any definitions \<open>ds\<close> (names not empty, values of at most
  256 characters, no NUL and no trailing white space), written as an escaped string, parsed by
  \<^verbatim>\<open>macParseDefns\<close> and installed by \<^verbatim>\<open>macInstallMacros\<close> in a new context. Then \<^verbatim>\<open>macExpandString\<close> of
  a text with references \<open>$(name)\<close> returns - for every amount of fuel from a bound on - the text
  with each reference replaced by the value of the last definition of its name, or by
  \<open>$(name,undefined)\<close> when there is none, cut to the capacity of the buffer; the result is the
  length, negative exactly when some reference is undefined.
\<close>

theorem definitions_to_expansion:
  assumes "clean_defns ds" and "\<forall>(n, v) \<in> set ds. length v \<le> MAC_SIZE"
    and "list_all plain_piece ps" and "1 < capacity"
    and "out = take (nat (capacity - 1)) (concat (map (piece_value False (map_of (rev ds))) ps))"
  shows "\<exists>pairs h N. macParseDefns (render_defns ds) = Some (int (length ds), pairs) \<and>
    macInstallMacros getenv empty_handle pairs = (int (length ds), h) \<and>
    (\<forall>n\<ge>N. \<exists>h'. macExpandString n getenv h (concat (map render_piece ps)) capacity =
       Some (if list_ex (piece_undefined (map_of (rev ds))) ps then - int (length out) else int (length out),
             Some out, h'))"
proof -
  let ?m = "map_of (rev ds)"
  let ?es = "map (\<lambda>(n, v). (n, escape_all v)) ds"
  let ?s = "concat (map render_piece ps)"
  have parse: "macParseDefns (render_defns ds) = Some (int (length ds), pairs_of ?es @ [None, None])"
    using parse_render_aux [OF assms(1)] .
  obtain h where h: "put_pairs getenv empty_handle (pairs_of ?es @ [None, None]) = Some (length ds, h)"
      "flat h" "raw_of h = raw_of empty_handle ++ map_of (rev ?es)" "ds \<noteq> [] \<longrightarrow> dirty h"
      "ds = [] \<longrightarrow> h = empty_handle" "flags h = flags empty_handle"
    using flat_install [OF flat_empty, of getenv ?es] by auto
  have "raw_of empty_handle = Map.empty" by (simp add: raw_of_def empty_handle_def fun_eq_iff)
  then have raw: "raw_of h = map_option escape_all \<circ> ?m"
    using h(3) map_of_map [of escape_all "rev ds"] by (simp add: rev_map)
  have "\<forall>(n, v) \<in> set ds. char_nul \<notin> set v \<and> length v \<le> MAC_SIZE"
    using assms(1,2) by (auto simp: clean_defns_def clean_def)
  then have esc: "\<forall>e \<in> set (entries h). escaped_entry e"
    using install_escaped [OF flat_empty _ _ h(1)] by (simp add: empty_handle_def)
  let ?h = "h\<lparr>entries := map set_value (entries h), dirty := False\<rparr>"
  have exp: "mac_expand n getenv h = Some ?h" if "length (entries h) + MAC_SIZE + 1 < n" for n
    using that expand_escaped [OF esc, of 0 n getenv] h(4,5)
    by (cases "ds = []") (auto simp: mac_expand_def empty_handle_def)
  have tab: "expanded_table ?h ?m" using expanded_escaped [OF h(2) esc raw] .
  have quiet: "\<not> suppressing ?h" using h(6) by (simp add: suppressing_def empty_handle_def)
  have "\<exists>h'. macExpandString n getenv h ?s capacity =
      Some (if list_ex (piece_undefined ?m) ps then - int (length out) else int (length out), Some out, h')"
    if "length (entries h) + MAC_SIZE + 2 + length ?s \<le> n" for n
  proof -
    have "\<exists>j. mac_trans getenv n ?h False 0 [] ?s 0 None [] (nat (capacity - 1)) =
        Some (?h, False \<or> list_ex (piece_undefined ?m) ps, j,
          take (nat (capacity - 1)) ([] @ concat (map (piece_value (suppressing ?h) ?m) ps)))"
      by (rule trans_pieces [OF tab]) (use assms(3) that in auto)
    with quiet assms(5) obtain j where
        "mac_trans getenv n ?h False 0 [] ?s 0 None [] (nat (capacity - 1)) =
          Some (?h, list_ex (piece_undefined ?m) ps, j, out)"
      by (auto simp del: mac_trans.simps)
    moreover have "magic h = MAC_MAGIC" using h(2) by (simp add: flat_def)
    ultimately show ?thesis
      using exp [of n] that assms(4) by (auto simp: macExpandString_def simp del: mac_trans.simps)
  qed
  with parse h(1) show ?thesis
    by (intro exI [of _ "pairs_of ?es @ [None, None]"] exI [of _ h]
        exI [of _ "length (entries h) + MAC_SIZE + 2 + length ?s"]) (auto simp: macInstallMacros_def)
qed

theorem definitions_to_expansion_witness:
  "\<exists>pairs h N. macParseDefns (render_defns [(''A'', ''1''), (''A'', ''two'')]) = Some (2, pairs) \<and>
    macInstallMacros (\<lambda>_. None) empty_handle pairs = (2, h) \<and>
    (\<forall>n\<ge>N. \<exists>h'. macExpandString n (\<lambda>_. None) h ''<$(A)>'' 100 = Some (5, Some ''<two>'', h'))"
  using definitions_to_expansion [of "[(''A'', ''1''), (''A'', ''two'')]" "[Text ''<'', Ref ''A'', Text ''>'']"
      100 "''<two>''" "\<lambda>_. None"]
  by (simp add: clean_defns_def clean_def char_nul_def is_space_def plain_char_def char_backslash_def
      MAC_SIZE_def)

end
