(* ===== verification/AsLib.thy ===== *)
theory AsLib
  imports GpHash CalcPerform
begin

text \<open>
  Access security, \<^verbatim>\<open>modules/libcom/src/as/asLibRoutines.c\<close>: user and host access groups, access
  security groups with their rules, and the members (records) and clients (connections)
  whose rights are computed from the rules.

  The members and the clients live on a heap of their own. A pointer to one is its address;
  an address without an object stands for NULL. A user or host access group carries the
  address that \<^verbatim>\<open>asCalloc\<close> gave it, which qualifies its names in the hash table; an access
  security group is identified by its name and a rule by its place in the group. Linked lists
  are Isabelle lists, the calls of client callbacks are recorded in a log, and every routine is
  its body between \<^verbatim>\<open>LOCK\<close> and \<^verbatim>\<open>UNLOCK\<close>. \<^verbatim>\<open>asCalloc\<close> does not return without memory.
  Of the bit maps of inputs, of type \<^verbatim>\<open>unsigned long\<close>, only the bits 0 to 11 are used.
\<close>

section \<open>Data\<close>

datatype asAccessRights = asNOACCESS | asREAD | asWRITE

fun access_rank :: "asAccessRights \<Rightarrow> nat" where
  "access_rank asNOACCESS = 0"
| "access_rank asREAD = 1"
| "access_rank asWRITE = 2"

lemma access_rank_inject: "access_rank a = access_rank b \<longleftrightarrow> a = b"
  by (cases a; cases b) auto

instantiation asAccessRights :: linorder
begin

definition less_eq_asAccessRights :: "asAccessRights \<Rightarrow> asAccessRights \<Rightarrow> bool" where
  "less_eq_asAccessRights a b \<longleftrightarrow> access_rank a \<le> access_rank b"

definition less_asAccessRights :: "asAccessRights \<Rightarrow> asAccessRights \<Rightarrow> bool" where
  "less_asAccessRights a b \<longleftrightarrow> access_rank a < access_rank b"

instance
  by standard
     (auto simp: less_eq_asAccessRights_def less_asAccessRights_def access_rank_inject)

end

lemmas access_order = less_eq_asAccessRights_def less_asAccessRights_def

datatype as_status =
    AS_ok | AS_error
  | S_asLib_clientsExist | S_asLib_noUag | S_asLib_noHag | S_asLib_badConfig | S_asLib_badCalc
  | S_asLib_asNotActive | S_asLib_badMember | S_asLib_badClient | S_asLib_badAsg | S_asLib_noMemory

record UAG =
  uag_addr :: ptr
  uag_name :: string
  uag_users :: "string list"

record HAG =
  hag_addr :: ptr
  hag_name :: string
  hag_hosts :: "string list"

record ASGRULE =
  rule_access :: asAccessRights
  rule_level :: int
  rule_inpUsed :: uint32
  rule_result :: int
  rule_calc :: "string option"
  rule_rpcl :: "byte list"
  rule_uags :: "ptr list"
  rule_hags :: "ptr list"
  rule_trapMask :: int

record ASG =
  asg_name :: string
  asg_inps :: "(string \<times> int) list"
  asg_rules :: "ASGRULE list"
  asg_members :: "addr list"
  asg_pavalue :: "double list"
  asg_inpBad :: uint32
  asg_inpChanged :: uint32

record ASBASE =
  uagList :: "UAG list"
  hagList :: "HAG list"
  asgList :: "ASG list"
  as_phash :: "gphPvt option"

record ASGMEMBER =
  mem_pasg :: "string option"
  mem_clients :: "addr list"
  mem_asgName :: string
  mem_userPvt :: ptr

record ASGCLIENT =
  cl_member :: addr
  cl_user :: string
  cl_host :: string
  cl_userPvt :: ptr
  cl_callback :: "ptr option"
  cl_level :: int
  cl_access :: asAccessRights
  cl_trapMask :: int

record as_state =
  asActive :: bool
  pasbase :: "ASBASE option"
  as_members :: "addr \<Rightarrow> ASGMEMBER option"
  as_clients :: "addr \<Rightarrow> ASGCLIENT option"
  as_coar :: "(ptr \<times> addr) list"   \<comment> \<open>callbacks called with \<^verbatim>\<open>asClientCOAR\<close>, in order\<close>

definition DEFAULT :: string where
  "DEFAULT = ''DEFAULT''"

definition CALCPERFORM_NARGS :: nat where
  "CALCPERFORM_NARGS = 12"

text \<open>\<^verbatim>\<open>strcmp\<close> and \<^verbatim>\<open>tolower\<close> of the C library.\<close>

fun c_strcmp :: "string \<Rightarrow> string \<Rightarrow> int" where
  "c_strcmp [] [] = 0"
| "c_strcmp [] (b # bs) = - 1"
| "c_strcmp (a # as) [] = 1"
| "c_strcmp (a # as) (b # bs) =
     (if a = b then c_strcmp as bs else if (of_char a :: nat) < of_char b then - 1 else 1)"

definition c_tolower :: "char \<Rightarrow> char" where
  "c_tolower c =
     (if 65 \<le> (of_char c :: nat) \<and> (of_char c :: nat) \<le> 90 then char_of ((of_char c :: nat) + 32) else c)"

section \<open>Building a configuration\<close>

text \<open>
  The search loop of the \<^verbatim>\<open>Add\<close> routines and the insertion in alphabetic order; \<open>None\<close> is a
  duplicate name.
\<close>

fun insert_named :: "('a \<Rightarrow> string) \<Rightarrow> 'a \<Rightarrow> 'a list \<Rightarrow> 'a list option" where
  "insert_named nm x [] = Some [x]"
| "insert_named nm x (y # ys) =
     (let cmpvalue = c_strcmp (nm x) (nm y) in
      if cmpvalue < 0 then Some (x # y # ys)
      else if cmpvalue = 0 then None
      else map_option ((#) y) (insert_named nm x ys))"

definition asUagAdd :: "ptr \<Rightarrow> ASBASE \<Rightarrow> string \<Rightarrow> ASBASE \<times> ptr option" where
  "asUagAdd a b name =
     (case insert_named uag_name \<lparr>uag_addr = a, uag_name = name, uag_users = []\<rparr> (uagList b) of
        None \<Rightarrow> (b, None)
      | Some l \<Rightarrow> (b\<lparr>uagList := l\<rparr>, Some a))"

definition asUagAddUser :: "ASBASE \<Rightarrow> ptr option \<Rightarrow> string \<Rightarrow> ASBASE" where
  "asUagAddUser b puag user =
     (case puag of
        None \<Rightarrow> b
      | Some a \<Rightarrow> b\<lparr>uagList := map (\<lambda>u. if uag_addr u = a then u\<lparr>uag_users := uag_users u @ [user]\<rparr> else u)
                              (uagList b)\<rparr>)"

definition asHagAdd :: "ptr \<Rightarrow> ASBASE \<Rightarrow> string \<Rightarrow> ASBASE \<times> ptr option" where
  "asHagAdd a b name =
     (case insert_named hag_name \<lparr>hag_addr = a, hag_name = name, hag_hosts = []\<rparr> (hagList b) of
        None \<Rightarrow> (b, None)
      | Some l \<Rightarrow> (b\<lparr>hagList := l\<rparr>, Some a))"

definition asHagAddHost :: "ASBASE \<Rightarrow> ptr option \<Rightarrow> string \<Rightarrow> ASBASE" where
  "asHagAddHost b phag host =
     (case phag of
        None \<Rightarrow> b
      | Some a \<Rightarrow> b\<lparr>hagList := map (\<lambda>g. if hag_addr g = a
                                        then g\<lparr>hag_hosts := hag_hosts g @ [map c_tolower host]\<rparr> else g)
                              (hagList b)\<rparr>)"

definition new_asg :: "string \<Rightarrow> ASG" where
  "new_asg name =
     \<lparr>asg_name = name, asg_inps = [], asg_rules = [], asg_members = [], asg_pavalue = [],
      asg_inpBad = 0, asg_inpChanged = 0\<rparr>"

definition asAsgAdd :: "ASBASE \<Rightarrow> string \<Rightarrow> ASBASE \<times> string option" where
  "asAsgAdd b name =
     (case insert_named asg_name (new_asg name) (asgList b) of
        Some l \<Rightarrow> (b\<lparr>asgList := l\<rparr>, Some name)
      | None \<Rightarrow>
          (case find (\<lambda>g. asg_name g = name) (asgList b) of
             None \<Rightarrow> (b, None)
           | Some g \<Rightarrow>
               if name = DEFAULT \<and> asg_inps g = [] \<and> asg_rules g = [] then (b, Some name)
               else (b, None)))"

definition upd_asg :: "string \<Rightarrow> (ASG \<Rightarrow> ASG) \<Rightarrow> ASBASE \<Rightarrow> ASBASE" where
  "upd_asg name f b = b\<lparr>asgList := map (\<lambda>g. if asg_name g = name then f g else g) (asgList b)\<rparr>"

definition asAsgAddInp :: "ASBASE \<Rightarrow> string option \<Rightarrow> string \<Rightarrow> int \<Rightarrow> ASBASE" where
  "asAsgAddInp b pasg inp inpIndex =
     (case pasg of
        None \<Rightarrow> b
      | Some name \<Rightarrow> upd_asg name (\<lambda>g. g\<lparr>asg_inps := asg_inps g @ [(inp, inpIndex)]\<rparr>) b)"

text \<open>A rule pointer: the group and the index in its rule list.\<close>

definition asAsgAddRule ::
  "ASBASE \<Rightarrow> string option \<Rightarrow> asAccessRights \<Rightarrow> int \<Rightarrow> ASBASE \<times> (string \<times> nat) option" where
  "asAsgAddRule b pasg access level =
     (case pasg of
        None \<Rightarrow> (b, None)
      | Some name \<Rightarrow>
          (let r = \<lparr>rule_access = access, rule_level = level, rule_inpUsed = 0, rule_result = 0,
                    rule_calc = None, rule_rpcl = [], rule_uags = [], rule_hags = [], rule_trapMask = 0\<rparr>;
               k = (case find (\<lambda>g. asg_name g = name) (asgList b) of
                      None \<Rightarrow> 0 | Some g \<Rightarrow> length (asg_rules g))
           in (upd_asg name (\<lambda>g. g\<lparr>asg_rules := asg_rules g @ [r]\<rparr>) b, Some (name, k))))"

definition upd_rule :: "string \<times> nat \<Rightarrow> (ASGRULE \<Rightarrow> ASGRULE) \<Rightarrow> ASBASE \<Rightarrow> ASBASE" where
  "upd_rule r f = upd_asg (fst r) (\<lambda>g. g\<lparr>asg_rules := (asg_rules g)[snd r := f (asg_rules g ! snd r)]\<rparr>)"

definition asAsgAddRuleOptions :: "ASBASE \<Rightarrow> (string \<times> nat) option \<Rightarrow> int \<Rightarrow> ASBASE" where
  "asAsgAddRuleOptions b pasgrule trapMask =
     (case pasgrule of None \<Rightarrow> b | Some r \<Rightarrow> upd_rule r (\<lambda>x. x\<lparr>rule_trapMask := trapMask\<rparr>) b)"

definition asAsgRuleUagAdd :: "ASBASE \<Rightarrow> (string \<times> nat) option \<Rightarrow> string \<Rightarrow> ASBASE \<times> as_status" where
  "asAsgRuleUagAdd b pasgrule name =
     (case pasgrule of
        None \<Rightarrow> (b, AS_ok)
      | Some r \<Rightarrow>
          (case find (\<lambda>u. uag_name u = name) (uagList b) of
             None \<Rightarrow> (b, S_asLib_noUag)
           | Some u \<Rightarrow> (upd_rule r (\<lambda>x. x\<lparr>rule_uags := rule_uags x @ [uag_addr u]\<rparr>) b, AS_ok)))"

definition asAsgRuleHagAdd :: "ASBASE \<Rightarrow> (string \<times> nat) option \<Rightarrow> string \<Rightarrow> ASBASE \<times> as_status" where
  "asAsgRuleHagAdd b pasgrule name =
     (case pasgrule of
        None \<Rightarrow> (b, AS_ok)
      | Some r \<Rightarrow>
          (case find (\<lambda>g. hag_name g = name) (hagList b) of
             None \<Rightarrow> (b, S_asLib_noHag)
           | Some g \<Rightarrow> (upd_rule r (\<lambda>x. x\<lparr>rule_hags := rule_hags x @ [hag_addr g]\<rparr>) b, AS_ok)))"

text \<open>
  \<^verbatim>\<open>asAsgRuleCalc\<close>; \<open>None\<close> when \<^verbatim>\<open>postfix\<close> or \<^verbatim>\<open>calcArgUsage\<close> have no defined behaviour.
\<close>

definition asAsgRuleCalc ::
  "fp_ops \<Rightarrow> c_strtod \<Rightarrow> ASBASE \<Rightarrow> (string \<times> nat) option \<Rightarrow> string \<Rightarrow> (ASBASE \<times> as_status) option" where
  "asAsgRuleCalc fp strtod b pasgrule calc =
     (case pasgrule of
        None \<Rightarrow> Some (b, AS_ok)
      | Some r \<Rightarrow>
          (case postfix fp strtod True True (Some calc) of
             PfUndef _ \<Rightarrow> None
           | PfBad _ _ \<Rightarrow> Some (upd_rule r (\<lambda>x. x\<lparr>rule_calc := None, rule_rpcl := []\<rparr>) b, S_asLib_badCalc)
           | PfOk code \<Rightarrow>
               (case calcArgUsage code of
                  None \<Rightarrow> None
                | Some (inputs, stores) \<Rightarrow>
                    if stores \<noteq> 0
                    then Some (upd_rule r (\<lambda>x. x\<lparr>rule_inpUsed := inputs, rule_calc := None, rule_rpcl := []\<rparr>) b,
                               S_asLib_badCalc)
                    else Some (upd_rule r (\<lambda>x. x\<lparr>rule_inpUsed := inputs, rule_calc := Some calc,
                                              rule_rpcl := code\<rparr>) b, AS_ok))))"

section \<open>Computing access rights\<close>

text \<open>The group checks of \<^verbatim>\<open>asComputePvt\<close>: an empty list admits everybody.\<close>

definition in_groups :: "gphPvt option \<Rightarrow> string \<Rightarrow> ptr list \<Rightarrow> bool" where
  "in_groups h name groups \<longleftrightarrow> groups = [] \<or> list_ex (\<lambda>p. gphFind h name p \<noteq> None) groups"

definition calc_grants :: "ASG \<Rightarrow> ASGRULE \<Rightarrow> bool" where
  "calc_grants g r \<longleftrightarrow>
     rule_calc r = None \<or> (asg_inpBad g AND rule_inpUsed r = 0 \<and> rule_result r = 1)"

text \<open>The loop over the rules.\<close>

primrec compute_rules ::
  "gphPvt option \<Rightarrow> ASG \<Rightarrow> ASGCLIENT \<Rightarrow> ASGRULE list \<Rightarrow> asAccessRights \<times> int \<Rightarrow> asAccessRights \<times> int" where
  "compute_rules h g c [] acc = acc"
| "compute_rules h g c (r # rs) acc =
     (if fst acc = asWRITE then acc
      else compute_rules h g c rs
        (if rule_access r \<le> fst acc then acc
         else if rule_level r < cl_level c then acc
         else if \<not> in_groups h (cl_user c) (rule_uags r) then acc
         else if \<not> in_groups h (cl_host c) (rule_hags r) then acc
         else if calc_grants g r then (rule_access r, rule_trapMask r)
         else acc))"

definition find_asg :: "ASBASE \<Rightarrow> string \<Rightarrow> ASG option" where
  "find_asg b name = find (\<lambda>g. asg_name g = name) (asgList b)"

definition asComputePvt :: "as_state \<Rightarrow> addr \<Rightarrow> as_state \<times> as_status" where
  "asComputePvt st c =
     (if \<not> asActive st then (st, S_asLib_asNotActive)
      else case as_clients st c of
        None \<Rightarrow> (st, S_asLib_badClient)
      | Some cl \<Rightarrow>
          (case as_members st (cl_member cl) of
             None \<Rightarrow> (st, S_asLib_badMember)
           | Some m \<Rightarrow>
               (case Option.bind (mem_pasg m) (\<lambda>n. Option.bind (pasbase st) (\<lambda>b.
                       map_option (Pair b) (find_asg b n))) of
                  None \<Rightarrow> (st, S_asLib_badAsg)
                | Some (b, g) \<Rightarrow>
                    (let oldaccess = cl_access cl;
                         (access, trapMask) = compute_rules (as_phash b) g cl (asg_rules g) (asNOACCESS, 0)
                     in (st\<lparr>as_clients := (as_clients st)(c \<mapsto> cl\<lparr>cl_access := access, cl_trapMask := trapMask\<rparr>),
                            as_coar := as_coar st @
                              (case cl_callback cl of
                                 Some f \<Rightarrow> if oldaccess \<noteq> access then [(f, c)] else []
                               | None \<Rightarrow> [])\<rparr>, AS_ok)))))"

definition compute_clients :: "as_state \<Rightarrow> addr list \<Rightarrow> as_state" where
  "compute_clients st cs = fold (\<lambda>c st. fst (asComputePvt st c)) cs st"

definition upd_base :: "(ASBASE \<Rightarrow> ASBASE) \<Rightarrow> as_state \<Rightarrow> as_state" where
  "upd_base f st = st\<lparr>pasbase := map_option f (pasbase st)\<rparr>"

text \<open>
  The loop of \<^verbatim>\<open>asComputeAsgPvt\<close> over the rules. \<open>calc\<close> is a call of \<^verbatim>\<open>calcPerform\<close>, with its status
  and the value of \<^verbatim>\<open>result\<close> and with the new random seed, \<open>None\<close> when it has no defined behaviour; \<open>near_one\<close> is
  the test \<^verbatim>\<open>(result>.99) && (result<1.01)\<close>.
\<close>

definition as_calc ::
  "fp_ops \<Rightarrow> double list \<Rightarrow> uint16 \<Rightarrow> double list \<Rightarrow> double \<Rightarrow> byte list \<Rightarrow> (int \<times> double \<times> uint16) option" where
  "as_calc fp junk sd vals res code =
     (case calcPerform fp junk sd vals res code of
        CReturn status s \<Rightarrow> Some (status, presult s, c_seed s)
      | _ \<Rightarrow> None)"

record as_fp =
  as_ops :: fp_ops
  dbl_99 :: double       \<comment> \<open>the constant \<^verbatim>\<open>.99\<close>\<close>
  dbl_101 :: double      \<comment> \<open>the constant \<^verbatim>\<open>1.01\<close>\<close>

definition near_one :: "as_fp \<Rightarrow> double \<Rightarrow> bool" where
  "near_one F x \<longleftrightarrow> fp_lt (as_ops F) (dbl_99 F) x \<and> fp_lt (as_ops F) x (dbl_101 F)"

primrec eval_rules ::
  "as_fp \<Rightarrow> double list \<Rightarrow> uint16 \<Rightarrow> ASG \<Rightarrow> ASGRULE list \<Rightarrow> (ASGRULE list \<times> uint16) option" where
  "eval_rules F junk sd g [] = Some ([], sd)"
| "eval_rules F junk sd g (r # rs) =
     (if rule_calc r \<noteq> None \<and> asg_inpChanged g AND rule_inpUsed r \<noteq> 0 then
        (case as_calc (as_ops F) junk sd (asg_pavalue g)
                (fp_of_int32 (as_ops F) (word_of_int (rule_result r))) (rule_rpcl r) of
           None \<Rightarrow> None
         | Some (status, result, sd') \<Rightarrow>
             map_option (\<lambda>(rs', s). (r\<lparr>rule_result := if status \<noteq> 0 then 0
                                            else if near_one F result then 1 else 0\<rparr> # rs', s))
               (eval_rules F junk sd' g rs))
      else map_option (\<lambda>(rs', s). (r # rs', s)) (eval_rules F junk sd g rs))"

definition asComputeAsgPvt ::
  "as_fp \<Rightarrow> double list \<Rightarrow> uint16 \<Rightarrow> as_state \<Rightarrow> string \<Rightarrow> (as_state \<times> uint16 \<times> as_status) option" where
  "asComputeAsgPvt F junk sd st name =
     (if \<not> asActive st then Some (st, sd, S_asLib_asNotActive)
      else case Option.bind (pasbase st) (\<lambda>b. find_asg b name) of
        None \<Rightarrow> None
      | Some g \<Rightarrow>
          map_option
            (\<lambda>(rs, sd').
              let st1 = upd_base (upd_asg name (\<lambda>g. g\<lparr>asg_rules := rs, asg_inpChanged := 0\<rparr>)) st
              in (compute_clients st1
                    (concat (map (\<lambda>m. case as_members st m of None \<Rightarrow> [] | Some mem \<Rightarrow> mem_clients mem)
                                 (asg_members g))), sd', AS_ok))
            (eval_rules F junk sd g (asg_rules g)))"

definition asComputeAsg ::
  "as_fp \<Rightarrow> double list \<Rightarrow> uint16 \<Rightarrow> as_state \<Rightarrow> string \<Rightarrow> (as_state \<times> uint16 \<times> as_status) option" where
  "asComputeAsg F junk sd st name =
     (if \<not> asActive st then Some (st, sd, S_asLib_asNotActive) else asComputeAsgPvt F junk sd st name)"

primrec compute_asgs ::
  "as_fp \<Rightarrow> double list \<Rightarrow> uint16 \<Rightarrow> as_state \<Rightarrow> string list \<Rightarrow> (as_state \<times> uint16) option" where
  "compute_asgs F junk sd st [] = Some (st, sd)"
| "compute_asgs F junk sd st (n # ns) =
     (case asComputeAsgPvt F junk sd st n of
        None \<Rightarrow> None
      | Some (st', sd', _) \<Rightarrow> compute_asgs F junk sd' st' ns)"

definition asComputeAllAsg ::
  "as_fp \<Rightarrow> double list \<Rightarrow> uint16 \<Rightarrow> as_state \<Rightarrow> (as_state \<times> uint16 \<times> as_status) option" where
  "asComputeAllAsg F junk sd st =
     (if \<not> asActive st then Some (st, sd, S_asLib_asNotActive)
      else case pasbase st of
        None \<Rightarrow> None
      | Some b \<Rightarrow> map_option (\<lambda>(st', sd'). (st', sd', AS_ok))
                   (compute_asgs F junk sd st (map asg_name (asgList b))))"

definition asCompute :: "as_state \<Rightarrow> addr \<Rightarrow> as_state \<times> as_status" where
  "asCompute st c = (if \<not> asActive st then (st, S_asLib_asNotActive) else asComputePvt st c)"

text \<open>The macros of \<^verbatim>\<open>asLib.h\<close> through which the server checks a request.\<close>

definition asCheckGet :: "as_state \<Rightarrow> ASGCLIENT \<Rightarrow> bool" where
  "asCheckGet st c \<longleftrightarrow> \<not> asActive st \<or> asREAD \<le> cl_access c"

definition asCheckPut :: "as_state \<Rightarrow> ASGCLIENT \<Rightarrow> bool" where
  "asCheckPut st c \<longleftrightarrow> \<not> asActive st \<or> asWRITE \<le> cl_access c"

section \<open>Members and clients\<close>

text \<open>\<open>m\<close> is the member, or the address of a new one when there is none at \<open>m\<close>.\<close>

definition asAddMemberPvt :: "as_state \<Rightarrow> addr \<Rightarrow> string \<Rightarrow> as_state \<times> as_status" where
  "asAddMemberPvt st m asgName =
     (let mem = (case as_members st m of
                   Some mem \<Rightarrow> mem\<lparr>mem_asgName := asgName\<rparr>
                 | None \<Rightarrow> \<lparr>mem_pasg = None, mem_clients = [], mem_asgName = asgName, mem_userPvt = 0\<rparr>);
          group = Option.bind (pasbase st) (\<lambda>b.
                    case find_asg b asgName of
                      Some g \<Rightarrow> Some (asg_name g)
                    | None \<Rightarrow> map_option asg_name (find_asg b DEFAULT))
      in case group of
           None \<Rightarrow> (st\<lparr>as_members := (as_members st)(m \<mapsto> mem)\<rparr>, AS_error)
         | Some n \<Rightarrow>
             (let st1 = upd_base (upd_asg n (\<lambda>g. g\<lparr>asg_members := asg_members g @ [m]\<rparr>))
                          (st\<lparr>as_members := (as_members st)(m \<mapsto> mem\<lparr>mem_pasg := Some n\<rparr>)\<rparr>)
              in (compute_clients st1 (mem_clients mem), AS_ok)))"

definition asAddMember :: "as_state \<Rightarrow> addr \<Rightarrow> string \<Rightarrow> as_state \<times> as_status" where
  "asAddMember st m asgName =
     (if \<not> asActive st then (st, S_asLib_asNotActive) else asAddMemberPvt st m asgName)"

definition unlist_member :: "addr \<Rightarrow> string \<Rightarrow> as_state \<Rightarrow> as_state" where
  "unlist_member m n = upd_base (upd_asg n (\<lambda>g. g\<lparr>asg_members := remove1 m (asg_members g)\<rparr>))"

definition asRemoveMember :: "as_state \<Rightarrow> addr \<Rightarrow> as_state \<times> as_status" where
  "asRemoveMember st m =
     (if \<not> asActive st then (st, S_asLib_asNotActive)
      else case as_members st m of
        None \<Rightarrow> (st, S_asLib_badMember)
      | Some mem \<Rightarrow>
          if mem_clients mem \<noteq> [] then (st, S_asLib_clientsExist)
          else case mem_pasg mem of
            None \<Rightarrow> (st, AS_error)
          | Some n \<Rightarrow> ((unlist_member m n st)\<lparr>as_members := (as_members st)(m := None)\<rparr>, AS_ok))"

definition asChangeGroup :: "as_state \<Rightarrow> addr \<Rightarrow> string \<Rightarrow> as_state \<times> as_status" where
  "asChangeGroup st m newAsgName =
     (if \<not> asActive st then (st, S_asLib_asNotActive)
      else case as_members st m of
        None \<Rightarrow> (st, S_asLib_badMember)
      | Some mem \<Rightarrow>
          (case mem_pasg mem of
             None \<Rightarrow> (st, AS_error)
           | Some n \<Rightarrow> asAddMemberPvt (unlist_member m n st) m newAsgName))"

definition asGetMemberPvt :: "as_state \<Rightarrow> addr \<Rightarrow> ptr" where
  "asGetMemberPvt st m =
     (if \<not> asActive st then 0
      else case as_members st m of None \<Rightarrow> 0 | Some mem \<Rightarrow> mem_userPvt mem)"

definition asPutMemberPvt :: "as_state \<Rightarrow> addr \<Rightarrow> ptr \<Rightarrow> as_state" where
  "asPutMemberPvt st m userPvt =
     (if \<not> asActive st then st
      else case as_members st m of
        None \<Rightarrow> st
      | Some mem \<Rightarrow> st\<lparr>as_members := (as_members st)(m \<mapsto> mem\<lparr>mem_userPvt := userPvt\<rparr>)\<rparr>)"

text \<open>\<open>c\<close> is what \<^verbatim>\<open>freeListCalloc\<close> returns.\<close>

definition asAddClient ::
  "as_state \<Rightarrow> addr option \<Rightarrow> addr \<Rightarrow> int \<Rightarrow> string \<Rightarrow> string \<Rightarrow> as_state \<times> as_status" where
  "asAddClient st pc m asl user host =
     (if \<not> asActive st then (st, S_asLib_asNotActive)
      else case as_members st m of
        None \<Rightarrow> (st, S_asLib_badMember)
      | Some mem \<Rightarrow>
          (case pc of
             None \<Rightarrow> (st, S_asLib_noMemory)
           | Some c \<Rightarrow>
               (let cl = \<lparr>cl_member = m, cl_user = user, cl_host = map c_tolower host, cl_userPvt = 0,
                          cl_callback = None, cl_level = asl, cl_access = asNOACCESS, cl_trapMask = 0\<rparr>
                in asComputePvt
                     (st\<lparr>as_clients := (as_clients st)(c \<mapsto> cl),
                        as_members := (as_members st)(m \<mapsto> mem\<lparr>mem_clients := mem_clients mem @ [c]\<rparr>)\<rparr>) c)))"

definition asChangeClient ::
  "as_state \<Rightarrow> addr \<Rightarrow> int \<Rightarrow> string \<Rightarrow> string \<Rightarrow> as_state \<times> as_status" where
  "asChangeClient st c asl user host =
     (if \<not> asActive st then (st, S_asLib_asNotActive)
      else case as_clients st c of
        None \<Rightarrow> (st, S_asLib_badClient)
      | Some cl \<Rightarrow>
          asComputePvt
            (st\<lparr>as_clients := (as_clients st)(c \<mapsto> cl\<lparr>cl_level := asl, cl_user := user,
                                                      cl_host := map c_tolower host\<rparr>)\<rparr>) c)"

definition asRemoveClient :: "as_state \<Rightarrow> addr \<Rightarrow> as_state \<times> as_status" where
  "asRemoveClient st c =
     (if \<not> asActive st then (st, S_asLib_asNotActive)
      else case as_clients st c of
        None \<Rightarrow> (st, S_asLib_badClient)
      | Some cl \<Rightarrow>
          (case as_members st (cl_member cl) of
             None \<Rightarrow> (st, AS_error)
           | Some mem \<Rightarrow>
               (st\<lparr>as_members := (as_members st)(cl_member cl \<mapsto> mem\<lparr>mem_clients := remove1 c (mem_clients mem)\<rparr>),
                  as_clients := (as_clients st)(c := None)\<rparr>, AS_ok)))"

definition asRegisterClientCallback :: "as_state \<Rightarrow> addr \<Rightarrow> ptr \<Rightarrow> as_state \<times> as_status" where
  "asRegisterClientCallback st c pcallback =
     (if \<not> asActive st then (st, S_asLib_asNotActive)
      else case as_clients st c of
        None \<Rightarrow> (st, S_asLib_badClient)
      | Some cl \<Rightarrow>
          (st\<lparr>as_clients := (as_clients st)(c \<mapsto> cl\<lparr>cl_callback := Some pcallback\<rparr>),
             as_coar := as_coar st @ [(pcallback, c)]\<rparr>, AS_ok))"

definition asGetClientPvt :: "as_state \<Rightarrow> addr \<Rightarrow> ptr" where
  "asGetClientPvt st c =
     (if \<not> asActive st then 0
      else case as_clients st c of None \<Rightarrow> 0 | Some cl \<Rightarrow> cl_userPvt cl)"

definition asPutClientPvt :: "as_state \<Rightarrow> addr \<Rightarrow> ptr \<Rightarrow> as_state" where
  "asPutClientPvt st c userPvt =
     (if \<not> asActive st then st
      else case as_clients st c of
        None \<Rightarrow> st
      | Some cl \<Rightarrow> st\<lparr>as_clients := (as_clients st)(c \<mapsto> cl\<lparr>cl_userPvt := userPvt\<rparr>)\<rparr>)"

section \<open>Loading a configuration\<close>

text \<open>
  The statements of a configuration file, as the grammar of \<^verbatim>\<open>asLib.y\<close> has them; the addresses
  are those of the groups created. The scanner and the parser driver are generated code: what
  they hand to the actions of the grammar is the list of statements, and whether the text was
  derivable from the grammar.
\<close>

datatype rule_item = RUag "string list" | RHag "string list" | RCalc string

datatype asg_item =
    AInp string int
  | ARule int string "string option" "rule_item list"

datatype as_item =
    DUag ptr string "string list"
  | DHag ptr string "string list"
  | DAsg string "asg_item list"

text \<open>The actions return the new base and whether \<^verbatim>\<open>yyerror\<close> was called.\<close>

definition parse_uag :: "ptr \<Rightarrow> string \<Rightarrow> string list \<Rightarrow> ASBASE \<Rightarrow> ASBASE \<times> bool" where
  "parse_uag a name users b =
     (let (b1, yyUag) = asUagAdd a b name
      in (fold (\<lambda>u b. asUagAddUser b yyUag u) users b1, yyUag = None))"

definition parse_hag :: "ptr \<Rightarrow> string \<Rightarrow> string list \<Rightarrow> ASBASE \<Rightarrow> ASBASE \<times> bool" where
  "parse_hag a name hosts b =
     (let (b1, yyHag) = asHagAdd a b name
      in (fold (\<lambda>h b. asHagAddHost b yyHag h) hosts b1, yyHag = None))"

fun parse_rule_item ::
  "fp_ops \<Rightarrow> c_strtod \<Rightarrow> (string \<times> nat) option \<Rightarrow> rule_item \<Rightarrow> ASBASE \<times> bool \<Rightarrow> (ASBASE \<times> bool) option" where
  "parse_rule_item fp strtod yyAsgRule (RUag names) (b, failed) =
     Some (fold (\<lambda>n (b, failed). case asAsgRuleUagAdd b yyAsgRule n of
                                   (b', s) \<Rightarrow> (b', failed \<or> s \<noteq> AS_ok)) names (b, failed))"
| "parse_rule_item fp strtod yyAsgRule (RHag names) (b, failed) =
     Some (fold (\<lambda>n (b, failed). case asAsgRuleHagAdd b yyAsgRule n of
                                   (b', s) \<Rightarrow> (b', failed \<or> s \<noteq> AS_ok)) names (b, failed))"
| "parse_rule_item fp strtod yyAsgRule (RCalc calc) (b, failed) =
     map_option (\<lambda>(b', s). (b', failed \<or> s \<noteq> AS_ok)) (asAsgRuleCalc fp strtod b yyAsgRule calc)"

definition access_of_name :: "string \<Rightarrow> asAccessRights option" where
  "access_of_name s =
     (if s = ''NONE'' then Some asNOACCESS
      else if s = ''READ'' then Some asREAD
      else if s = ''WRITE'' then Some asWRITE
      else None)"

primrec parse_rule_items ::
  "fp_ops \<Rightarrow> c_strtod \<Rightarrow> (string \<times> nat) option \<Rightarrow> rule_item list \<Rightarrow> ASBASE \<times> bool \<Rightarrow>
   (ASBASE \<times> bool) option" where
  "parse_rule_items fp strtod yyAsgRule [] s = Some s"
| "parse_rule_items fp strtod yyAsgRule (i # is) s =
     Option.bind (parse_rule_item fp strtod yyAsgRule i s) (parse_rule_items fp strtod yyAsgRule is)"

fun parse_asg_item ::
  "fp_ops \<Rightarrow> c_strtod \<Rightarrow> string option \<Rightarrow> asg_item \<Rightarrow> ASBASE \<times> bool \<Rightarrow> (ASBASE \<times> bool) option" where
  "parse_asg_item fp strtod yyAsg (AInp inp idx) (b, failed) =
     Some (asAsgAddInp b yyAsg inp idx, failed)"
| "parse_asg_item fp strtod yyAsg (ARule level rights opt items) (b, failed) =
     (let access = (case access_of_name rights of Some a \<Rightarrow> a | None \<Rightarrow> asNOACCESS);
          failed1 = (failed \<or> access_of_name rights = None);
          (b1, yyAsgRule) = asAsgAddRule b yyAsg access level;
          (b2, failed2) =
            (case opt of
               None \<Rightarrow> (b1, failed1)
             | Some o1 \<Rightarrow>
                 if o1 = ''TRAPWRITE'' then (asAsgAddRuleOptions b1 yyAsgRule 1, failed1)
                 else (b1, failed1 \<or> o1 \<noteq> ''NOTRAPWRITE''))
      in parse_rule_items fp strtod yyAsgRule items (b2, failed2))"

primrec parse_asg_items ::
  "fp_ops \<Rightarrow> c_strtod \<Rightarrow> string option \<Rightarrow> asg_item list \<Rightarrow> ASBASE \<times> bool \<Rightarrow> (ASBASE \<times> bool) option" where
  "parse_asg_items fp strtod yyAsg [] s = Some s"
| "parse_asg_items fp strtod yyAsg (i # is) s =
     Option.bind (parse_asg_item fp strtod yyAsg i s) (parse_asg_items fp strtod yyAsg is)"

primrec parse_items ::
  "fp_ops \<Rightarrow> c_strtod \<Rightarrow> as_item list \<Rightarrow> ASBASE \<times> bool \<Rightarrow> (ASBASE \<times> bool) option" where
  "parse_items fp strtod [] s = Some s"
| "parse_items fp strtod (i # is) s =
     Option.bind
       (case i of
          DUag a name users \<Rightarrow> (case parse_uag a name users (fst s) of (b, e) \<Rightarrow> Some (b, snd s \<or> e))
        | DHag a name hosts \<Rightarrow> (case parse_hag a name hosts (fst s) of (b, e) \<Rightarrow> Some (b, snd s \<or> e))
        | DAsg name body \<Rightarrow>
            (case asAsgAdd (fst s) name of
               (b, yyAsg) \<Rightarrow> parse_asg_items fp strtod yyAsg body (b, snd s \<or> yyAsg = None)))
       (parse_items fp strtod is)"

text \<open>The names of all groups go to the hash table. The addresses of its nodes are not used.\<close>

definition hash_names :: "(string \<times> ptr) list \<Rightarrow> gphPvt option \<Rightarrow> gphPvt option" where
  "hash_names ks h = fold (\<lambda>(name, p) h. fst (gphAdd True (Some 0) h name p)) ks h"

definition base_names :: "ASBASE \<Rightarrow> (string \<times> ptr) list" where
  "base_names b =
     concat (map (\<lambda>u. map (\<lambda>n. (n, uag_addr u)) (uag_users u)) (uagList b)) @
     concat (map (\<lambda>g. map (\<lambda>n. (n, hag_addr g)) (hag_hosts g)) (hagList b))"

definition empty_base :: ASBASE where
  "empty_base = fst (asAsgAdd \<lparr>uagList = [], hagList = [], asgList = [], as_phash = None\<rparr> DEFAULT)"

definition finish_base :: "ASBASE \<Rightarrow> ASBASE" where
  "finish_base b =
     b\<lparr>asgList := map (\<lambda>g. g\<lparr>asg_pavalue := replicate CALCPERFORM_NARGS 0\<rparr>) (asgList b),
       as_phash := hash_names (base_names b) (Some (gphInitPvt 256))\<rparr>"

definition readd_member :: "addr \<Rightarrow> as_state \<Rightarrow> as_state" where
  "readd_member m st =
     (case as_members st m of
        None \<Rightarrow> st
      | Some mem \<Rightarrow> fst (asAddMemberPvt st m (mem_asgName mem)))"

definition old_members :: "as_state \<Rightarrow> addr list" where
  "old_members st =
     (case pasbase st of None \<Rightarrow> [] | Some b \<Rightarrow> concat (map asg_members (asgList b)))"

definition asInitialize ::
  "fp_ops \<Rightarrow> c_strtod \<Rightarrow> as_state \<Rightarrow> as_item list \<Rightarrow> bool \<Rightarrow> (as_state \<times> as_status) option" where
  "asInitialize fp strtod st items derivable =
     map_option
       (\<lambda>(b, yyFailed).
         if \<not> derivable \<or> yyFailed then (st, S_asLib_badConfig)
         else ((fold readd_member (old_members st) (st\<lparr>pasbase := Some (finish_base b)\<rparr>))\<lparr>asActive := True\<rparr>,
               AS_ok))
       (parse_items fp strtod items (empty_base, False))"

end
