(* ===== verification/AsPolicy.thy ===== *)
theory AsPolicy
  imports AsLib
begin

text \<open>
  The policy that a configuration expresses, and that the loop over the rules together with the
  hash table of group members computes it.
\<close>

section \<open>The loop over the rules\<close>

definition rule_matches :: "gphPvt option \<Rightarrow> ASG \<Rightarrow> ASGCLIENT \<Rightarrow> ASGRULE \<Rightarrow> bool" where
  "rule_matches h g c r \<longleftrightarrow>
     cl_level c \<le> rule_level r \<and> in_groups h (cl_user c) (rule_uags r) \<and>
     in_groups h (cl_host c) (rule_hags r) \<and> calc_grants g r"

text \<open>
  The best rights among the rules that match, starting from \<open>a\<close>, and the trap mask of the first
  matching rule that grants them.
\<close>

definition best_access :: "(ASGRULE \<Rightarrow> bool) \<Rightarrow> ASGRULE list \<Rightarrow> asAccessRights \<Rightarrow> asAccessRights" where
  "best_access P rs a = fold max (map rule_access (filter P rs)) a"

definition best_trap :: "(ASGRULE \<Rightarrow> bool) \<Rightarrow> ASGRULE list \<Rightarrow> asAccessRights \<Rightarrow> int \<Rightarrow> int" where
  "best_trap P rs a t =
     (let m = best_access P rs a in
      if m = a then t
      else case find (\<lambda>r. P r \<and> rule_access r = m) rs of None \<Rightarrow> t | Some r \<Rightarrow> rule_trapMask r)"

lemma access_cases: "a \<noteq> asWRITE \<Longrightarrow> a < asWRITE" "a \<le> asWRITE" "asNOACCESS \<le> a"
  by (cases a; simp add: access_order)+

lemma best_access_simps [simp]:
  "best_access P [] a = a"
  "best_access P (r # rs) a = best_access P rs (if P r then max (rule_access r) a else a)"
  by (simp_all add: best_access_def)

lemma best_access_ge: "a \<le> best_access P rs a"
proof (induction rs arbitrary: a)
  case (Cons r rs)
  show ?case
    using Cons.IH [of "max (rule_access r) a"] Cons.IH [of a] by (auto intro: order_trans)
qed simp

lemma best_access_write: "best_access P rs asWRITE = asWRITE"
  using best_access_ge [of asWRITE P rs] access_cases(2) by (metis antisym)

lemma best_access_Max: "best_access P rs a = Max (insert a (rule_access ` {r \<in> set rs. P r}))"
proof -
  have "set (a # map rule_access (filter P rs)) = insert a (rule_access ` {r \<in> set rs. P r})" by auto
  then show ?thesis
    using Max.set_eq_fold [of a "map rule_access (filter P rs)"] by (simp add: best_access_def)
qed

lemma compute_rules_best:
  "compute_rules h g c rs (a, t) =
     (best_access (rule_matches h g c) rs a, best_trap (rule_matches h g c) rs a t)"
proof (induction rs arbitrary: a t)
  case (Cons r rs)
  let ?P = "rule_matches h g c"
  show ?case
  proof (cases "a = asWRITE")
    case True
    have "best_access ?P (r # rs) asWRITE = asWRITE" by (rule best_access_write)
    then show ?thesis using True by (simp add: best_trap_def Let_def del: best_access_simps)
  next
    case False
    show ?thesis
    proof (cases "?P r \<and> a < rule_access r")
      case True
      have "compute_rules h g c (r # rs) (a, t) = compute_rules h g c rs (rule_access r, rule_trapMask r)"
        using True \<open>a \<noteq> asWRITE\<close> leD [of "rule_access r" a] by (auto simp: rule_matches_def)
      moreover have "best_trap ?P (r # rs) a t = best_trap ?P rs (rule_access r) (rule_trapMask r)"
      proof -
        let ?m = "best_access ?P rs (rule_access r)"
        have m: "best_access ?P (r # rs) a = ?m" using True by (simp add: max_absorb1)
        moreover have "?m \<noteq> a"
          using best_access_ge [of "rule_access r" ?P rs] True by auto
        moreover have "\<exists>x. find (\<lambda>x. ?P x \<and> rule_access x = ?m) rs = Some x" if "?m \<noteq> rule_access r"
        proof -
          have "?m \<in> insert (rule_access r) (rule_access ` {x \<in> set rs. ?P x})"
            unfolding best_access_Max by (rule Max_in) auto
          with that obtain x where "x \<in> set rs" "?P x" "rule_access x = ?m" by auto
          then have "find (\<lambda>x. ?P x \<and> rule_access x = ?m) rs \<noteq> None"
            by (auto simp: find_None_iff)
          then show ?thesis by blast
        qed
        ultimately show ?thesis
          using True by (auto simp: best_trap_def Let_def simp del: best_access_simps)
      qed
      ultimately show ?thesis using Cons.IH True by (simp add: max_absorb1)
    next
      case noupd: False
      have "compute_rules h g c (r # rs) (a, t) = compute_rules h g c rs (a, t)"
        using noupd \<open>a \<noteq> asWRITE\<close> by (auto simp: rule_matches_def not_le)
      moreover have m: "best_access ?P (r # rs) a = best_access ?P rs a"
        using noupd by (auto simp: max_absorb2 not_less)
      moreover have "best_trap ?P (r # rs) a t = best_trap ?P rs a t"
      proof (cases "best_access ?P rs a = a")
        case False
        then have "a < best_access ?P rs a" using best_access_ge [of a ?P rs] by simp
        then have "\<not> (?P r \<and> rule_access r = best_access ?P rs a)" using noupd by auto
        with False m show ?thesis by (auto simp: best_trap_def Let_def simp del: best_access_simps)
      qed (use m in \<open>simp add: best_trap_def Let_def del: best_access_simps\<close>)
      ultimately show ?thesis using Cons.IH by simp
    qed
  qed
qed (simp add: best_trap_def Let_def)

section \<open>Group membership\<close>

lemma hash_names_ok:
  assumes "gph_wf t" and "\<forall>(n, p) \<in> set ks. char_nul \<notin> set n"
  shows "\<exists>t'. hash_names ks (Some t) = Some t' \<and> gph_wf t' \<and> dom (gph_map t') = dom (gph_map t) \<union> set ks"
  using assms
proof (induction ks arbitrary: t)
  case (Cons k ks)
  obtain n p where k: "k = (n, p)" by fastforce
  obtain t1 ok where a: "gph_add_node t (n, p) 0 = (t1, ok)" by fastforce
  have "gph_wf t1 \<and> map_add_new (gph_map t) (n, p) 0 = (gph_map t1, ok)"
    using gph.add_abs [OF Cons.prems(1) _ a] Cons.prems(2) k by simp
  then have "gph_wf t1 \<and>
      gph_map t1 = (if gph_map t (n, p) = None then (gph_map t)((n, p) \<mapsto> 0) else gph_map t)"
    by (auto simp: map_add_new_def split: if_splits)
  then have t1: "gph_wf t1" "dom (gph_map t1) = insert (n, p) (dom (gph_map t))"
    by (auto split: if_splits)
  have "fst (gphAdd True (Some 0) (Some t) n p) = Some t1"
    using a by (auto simp: gph_add_node_def gphAdd_def Let_def split: prod.splits if_splits)
  then have "hash_names (k # ks) (Some t) = hash_names ks (Some t1)"
    by (simp add: hash_names_def k)
  with Cons.IH [OF t1(1)] Cons.prems(2) t1(2) k show ?case by auto
qed (simp add: hash_names_def)

lemma hash_find:
  assumes "\<forall>(n, p) \<in> set ks. char_nul \<notin> set n" and "char_nul \<notin> set name"
  shows "gphFind (hash_names ks (Some (gphInitPvt sz))) name p \<noteq> None \<longleftrightarrow> (name, p) \<in> set ks"
proof -
  obtain t where t: "hash_names ks (Some (gphInitPvt sz)) = Some t" "gph_wf t"
      "dom (gph_map t) = dom (gph_map (gphInitPvt sz)) \<union> set ks"
    using hash_names_ok [OF gph_init_wf assms(1)] by blast
  have "gph_find_node t (name, p) = gph_map t (name, p)"
    using gph.find_abs [OF t(2)] assms(2) by simp
  then have "gphFind (Some t) name p = None \<longleftrightarrow> gph_map t (name, p) = None"
    by (metis fst_conv gph_find_node_def option.map_disc_iff snd_conv)
  then have "gphFind (Some t) name p \<noteq> None \<longleftrightarrow> (name, p) \<in> dom (gph_map t)"
    by (simp add: dom_def)
  then show ?thesis
    using t by (simp add: gph_init_map)
qed

end
