(* ===== verification/AsConfig.thy ===== *)
theory AsConfig
  imports AsPolicy "HOL-Library.List_Lexorder"
begin

text \<open>
  Configurations that were loaded: the lists of groups are in strict alphabetic order, the rules
  refer to groups that exist, and the hash table knows exactly the members of the groups.
\<close>

section \<open>Alphabetic order\<close>

definition name_key :: "string \<Rightarrow> nat list" where
  "name_key s = map of_char s"

lemma name_key_inject: "name_key a = name_key b \<longleftrightarrow> a = b"
  by (auto simp: name_key_def inj_map_eq_map [OF inj_of_char])

lemma c_strcmp_order:
  "c_strcmp a b < 0 \<longleftrightarrow> name_key a < name_key b" "c_strcmp a b = 0 \<longleftrightarrow> a = b"
proof (induction a b rule: c_strcmp.induct)
  case (4 a as b bs)
  {
    case 1
    show ?case using 4 by (auto simp: name_key_def)
  next
    case 2
    show ?case using 4 by auto
  }
qed (auto simp: name_key_def)

definition named_sorted :: "('a \<Rightarrow> string) \<Rightarrow> 'a list \<Rightarrow> bool" where
  "named_sorted nm xs \<longleftrightarrow> sorted_wrt (<) (map (name_key \<circ> nm) xs)"

lemma insert_named_set: "insert_named nm x ys = Some zs \<Longrightarrow> set zs = insert x (set ys)"
  by (induction ys arbitrary: zs) (auto simp: Let_def split: if_splits)

lemma insert_named_sorted:
  "insert_named nm x ys = Some zs \<Longrightarrow> named_sorted nm ys \<Longrightarrow> named_sorted nm zs"
proof (induction ys arbitrary: zs)
  case (Cons y ys)
  consider "c_strcmp (nm x) (nm y) < 0" "zs = x # y # ys"
    | zs' where "0 < c_strcmp (nm x) (nm y)" "insert_named nm x ys = Some zs'" "zs = y # zs'"
    using Cons.prems(1) by (auto simp: Let_def split: if_splits)
  then show ?case
  proof cases
    case 1
    then have "name_key (nm x) < name_key (nm y)" by (simp add: c_strcmp_order)
    with 1 Cons.prems(2) show ?thesis by (auto simp: named_sorted_def intro: less_trans)
  next
    case 2
    then have "\<not> name_key (nm x) < name_key (nm y)" "nm x \<noteq> nm y"
      by (auto simp: c_strcmp_order [symmetric])
    then have "name_key (nm y) < name_key (nm x)" by (metis linorder_neqE name_key_inject)
    with 2 Cons.IH [OF 2(2)] Cons.prems(2) insert_named_set [OF 2(2)] show ?thesis
      by (auto simp: named_sorted_def)
  qed
qed (simp add: named_sorted_def)

lemma insert_named_None:
  "insert_named nm x ys = None \<Longrightarrow> \<exists>y \<in> set ys. nm y = nm x"
  by (induction ys) (auto simp: Let_def c_strcmp_order split: if_splits)

lemma named_sorted_distinct: "named_sorted nm xs \<Longrightarrow> distinct (map nm xs)"
proof -
  assume "named_sorted nm xs"
  then have "distinct (map (name_key \<circ> nm) xs)"
    unfolding named_sorted_def using strict_sorted_imp_sorted by (metis strict_sorted_iff)
  then show ?thesis by (simp add: distinct_map inj_on_def)
qed

lemma named_sorted_map: "(\<And>x. nm (f x) = nm x) \<Longrightarrow> named_sorted nm (map f xs) = named_sorted nm xs"
  by (simp add: named_sorted_def comp_def)

section \<open>What loading guarantees\<close>

text \<open>A rule that is being built has no result yet.\<close>

definition rule_new :: "ptr set \<Rightarrow> ptr set \<Rightarrow> ASGRULE \<Rightarrow> bool" where
  "rule_new U H r \<longleftrightarrow> set (rule_uags r) \<subseteq> U \<and> set (rule_hags r) \<subseteq> H \<and> rule_result r = 0"

definition uag_addrs :: "ASBASE \<Rightarrow> ptr set" where
  "uag_addrs b = set (map uag_addr (uagList b))"

definition hag_addrs :: "ASBASE \<Rightarrow> ptr set" where
  "hag_addrs b = set (map hag_addr (hagList b))"

definition names_ok :: "ASBASE \<Rightarrow> bool" where
  "names_ok b \<longleftrightarrow>
     (\<forall>u \<in> set (uagList b). \<forall>n \<in> set (uag_users u). char_nul \<notin> set n) \<and>
     (\<forall>g \<in> set (hagList b). \<forall>n \<in> set (hag_hosts g). char_nul \<notin> set n)"

text \<open>\<open>U\<close> and \<open>H\<close> are the addresses that may have been used for groups.\<close>

definition base_ok :: "ptr set \<Rightarrow> ptr set \<Rightarrow> ASBASE \<Rightarrow> bool" where
  "base_ok U H b \<longleftrightarrow>
     uag_addrs b \<subseteq> U \<and> hag_addrs b \<subseteq> H \<and>
     names_ok b \<and>
     named_sorted asg_name (asgList b) \<and> DEFAULT \<in> asg_name ` set (asgList b) \<and>
     (\<forall>g \<in> set (asgList b). asg_members g = [] \<and>
        (\<forall>r \<in> set (asg_rules g). rule_new (uag_addrs b) (hag_addrs b) r))"

definition item_ok :: "ptr set \<Rightarrow> ptr set \<Rightarrow> as_item \<Rightarrow> bool" where
  "item_ok U H i \<longleftrightarrow>
     (case i of
        DUag a name users \<Rightarrow> a \<in> U \<and> (\<forall>u \<in> set users. char_nul \<notin> set u)
      | DHag a name hosts \<Rightarrow> a \<in> H \<and> (\<forall>h \<in> set hosts. char_nul \<notin> set h)
      | DAsg name body \<Rightarrow> True)"

lemma names_ok_base: "names_ok b \<Longrightarrow> \<forall>(n, p) \<in> set (base_names b). char_nul \<notin> set n"
  by (auto simp: names_ok_def base_names_def)

lemma base_names_iff:
  "(n, p) \<in> set (base_names b) \<longleftrightarrow>
     (\<exists>u \<in> set (uagList b). uag_addr u = p \<and> n \<in> set (uag_users u)) \<or>
     (\<exists>g \<in> set (hagList b). hag_addr g = p \<and> n \<in> set (hag_hosts g))"
  by (auto simp: base_names_def)

lemma base_ok_empty: "base_ok U H empty_base"
  by (simp add: base_ok_def empty_base_def asAsgAdd_def new_asg_def uag_addrs_def hag_addrs_def
      names_ok_def named_sorted_def)

lemma base_ok_groups:
  assumes "base_ok U H b" and "asgList b' = asgList b"
    and "uag_addrs b \<subseteq> uag_addrs b'" "uag_addrs b' \<subseteq> U" "hag_addrs b \<subseteq> hag_addrs b'" "hag_addrs b' \<subseteq> H"
    and "names_ok b'"
  shows "base_ok U H b'"
proof -
  have "rule_new (uag_addrs b) (hag_addrs b) r \<Longrightarrow> rule_new (uag_addrs b') (hag_addrs b') r" for r
    using assms(3,5) by (auto simp: rule_new_def)
  with assms show ?thesis by (simp add: base_ok_def)
qed

lemma uag_add_ok:
  assumes "base_ok U H b" and "a \<in> U" and "asUagAdd a b name = (b', u)"
  shows "base_ok U H b'" and "u = None \<or> u = Some a"
proof -
  consider "b' = b" "u = None"
    | l where "insert_named uag_name \<lparr>uag_addr = a, uag_name = name, uag_users = []\<rparr> (uagList b) = Some l"
        "b' = b\<lparr>uagList := l\<rparr>" "u = Some a"
    using assms(3) by (auto simp: asUagAdd_def split: option.splits)
  then have "base_ok U H b' \<and> (u = None \<or> u = Some a)"
  proof cases
    case 2
    note l = insert_named_set [OF 2(1)]
    have "uag_addrs b' = insert a (uag_addrs b)" "hag_addrs b' = hag_addrs b"
      using 2 l by (auto simp: uag_addrs_def hag_addrs_def)
    moreover have "names_ok b'"
      using 2 l assms(1) by (simp add: base_ok_def names_ok_def)
    ultimately have "base_ok U H b'"
      using assms(1,2) 2 by (intro base_ok_groups [OF assms(1)]) (auto simp: base_ok_def)
    with 2 show ?thesis by simp
  qed (use assms in simp)
  then show "base_ok U H b'" "u = None \<or> u = Some a" by auto
qed

lemma hag_add_ok:
  assumes "base_ok U H b" and "a \<in> H" and "asHagAdd a b name = (b', u)"
  shows "base_ok U H b'" and "u = None \<or> u = Some a"
proof -
  consider "b' = b" "u = None"
    | l where "insert_named hag_name \<lparr>hag_addr = a, hag_name = name, hag_hosts = []\<rparr> (hagList b) = Some l"
        "b' = b\<lparr>hagList := l\<rparr>" "u = Some a"
    using assms(3) by (auto simp: asHagAdd_def split: option.splits)
  then have "base_ok U H b' \<and> (u = None \<or> u = Some a)"
  proof cases
    case 2
    note l = insert_named_set [OF 2(1)]
    have "hag_addrs b' = insert a (hag_addrs b)" "uag_addrs b' = uag_addrs b"
      using 2 l by (auto simp: uag_addrs_def hag_addrs_def)
    moreover have "names_ok b'"
      using 2 l assms(1) by (simp add: base_ok_def names_ok_def)
    ultimately have "base_ok U H b'"
      using assms(1,2) 2 by (intro base_ok_groups [OF assms(1)]) (auto simp: base_ok_def)
    with 2 show ?thesis by simp
  qed (use assms in simp)
  then show "base_ok U H b'" "u = None \<or> u = Some a" by auto
qed

lemma add_user_ok:
  assumes "base_ok U H b" and "char_nul \<notin> set user"
  shows "base_ok U H (asUagAddUser b u user)"
proof (cases u)
  case (Some a)
  let ?f = "\<lambda>u. if uag_addr u = a then u\<lparr>uag_users := uag_users u @ [user]\<rparr> else u"
  let ?b = "asUagAddUser b u user"
  have "map uag_addr (uagList ?b) = map uag_addr (uagList b)" using Some by (simp add: asUagAddUser_def)
  then have "uag_addrs ?b = uag_addrs b" "hag_addrs ?b = hag_addrs b" "asgList ?b = asgList b"
    using Some by (simp_all only: uag_addrs_def) (simp_all add: asUagAddUser_def hag_addrs_def)
  moreover have "names_ok ?b"
    using assms Some by (auto simp: base_ok_def names_ok_def asUagAddUser_def)
  ultimately show ?thesis
    using assms(1) by (intro base_ok_groups [OF assms(1)]) (auto simp: base_ok_def)
qed (use assms in \<open>simp add: asUagAddUser_def\<close>)

lemma tolower_nul: "char_nul \<notin> set s \<Longrightarrow> char_nul \<notin> set (map c_tolower s)"
proof -
  have "c_tolower c = char_nul \<Longrightarrow> c = char_nul" for c
  proof -
    assume a: "c_tolower c = char_nul"
    show ?thesis
    proof (cases "65 \<le> (of_char c :: nat) \<and> (of_char c :: nat) \<le> 90")
      case True
      with a have "char_of ((of_char c :: nat) + 32) = char_nul" by (simp add: c_tolower_def)
      then have "of_char (char_of ((of_char c :: nat) + 32) :: char) = (of_char char_nul :: nat)" by simp
      with True show ?thesis by (simp add: char_nul_def)
    qed (use a in \<open>auto simp: c_tolower_def split: if_splits\<close>)
  qed
  moreover assume "char_nul \<notin> set s"
  ultimately show ?thesis by (auto dest: sym)
qed

lemma add_host_ok:
  assumes "base_ok U H b" and "char_nul \<notin> set host"
  shows "base_ok U H (asHagAddHost b u host)"
proof (cases u)
  case (Some a)
  let ?b = "asHagAddHost b u host"
  have "map hag_addr (hagList ?b) = map hag_addr (hagList b)" using Some by (simp add: asHagAddHost_def)
  then have "hag_addrs ?b = hag_addrs b" "uag_addrs ?b = uag_addrs b" "asgList ?b = asgList b"
    using Some by (simp_all only: hag_addrs_def) (simp_all add: asHagAddHost_def uag_addrs_def)
  moreover have "names_ok ?b"
    using assms(1) tolower_nul [OF assms(2)] Some by (auto simp: base_ok_def names_ok_def asHagAddHost_def)
  ultimately show ?thesis
    using assms(1) by (intro base_ok_groups [OF assms(1)]) (auto simp: base_ok_def)
qed (use assms in \<open>simp add: asHagAddHost_def\<close>)

lemma upd_asg_ok:
  assumes "base_ok U H b" and "\<And>g. asg_name (f g) = asg_name g" and "\<And>g. asg_members (f g) = asg_members g"
    and "\<And>g. g \<in> set (asgList b) \<Longrightarrow> \<forall>r \<in> set (asg_rules g). rule_new (uag_addrs b) (hag_addrs b) r \<Longrightarrow>
      \<forall>r \<in> set (asg_rules (f g)). rule_new (uag_addrs b) (hag_addrs b) r"
  shows "base_ok U H (upd_asg n f b)"
proof -
  let ?h = "\<lambda>g. if asg_name g = n then f g else g"
  have "named_sorted asg_name (map ?h (asgList b)) = named_sorted asg_name (asgList b)"
    by (rule named_sorted_map) (simp add: assms(2))
  moreover have "map asg_name (map ?h (asgList b)) = map asg_name (asgList b)"
    using assms(2) by simp
  then have "asg_name ` set (map ?h (asgList b)) = asg_name ` set (asgList b)"
    by (metis list.set_map)
  moreover have "asg_members (?h g) = [] \<and> (\<forall>r \<in> set (asg_rules (?h g)). rule_new (uag_addrs b) (hag_addrs b) r)"
    if "g \<in> set (asgList b)" for g
    using assms that by (auto simp: base_ok_def)
  then have "\<forall>g \<in> set (map ?h (asgList b)). asg_members g = [] \<and>
      (\<forall>r \<in> set (asg_rules g). rule_new (uag_addrs b) (hag_addrs b) r)"
    unfolding list.set_map by blast
  moreover have "asgList (upd_asg n f b) = map ?h (asgList b)" "uag_addrs (upd_asg n f b) = uag_addrs b"
      "hag_addrs (upd_asg n f b) = hag_addrs b" "names_ok (upd_asg n f b) = names_ok b"
    by (simp_all add: upd_asg_def uag_addrs_def hag_addrs_def names_ok_def)
  ultimately show ?thesis
    using assms(1) unfolding base_ok_def by metis
qed

lemma update_all:
  "\<forall>x \<in> set xs. P x \<Longrightarrow> (\<And>x. P x \<Longrightarrow> P (f x)) \<Longrightarrow> \<forall>x \<in> set (xs[k := f (xs ! k)]). P x"
proof (cases "k < length xs")
  case True
  assume a: "\<forall>x \<in> set xs. P x" "\<And>x. P x \<Longrightarrow> P (f x)"
  with True show ?thesis using set_update_subset_insert [of xs k "f (xs ! k)"] by auto
qed (simp add: list_update_beyond)

lemma upd_rule_ok:
  assumes "base_ok U H b"
    and "\<And>x. rule_new (uag_addrs b) (hag_addrs b) x \<Longrightarrow> rule_new (uag_addrs b) (hag_addrs b) (f x)"
  shows "base_ok U H (upd_rule r f b)"
  unfolding upd_rule_def
proof (rule upd_asg_ok [OF assms(1)])
  fix g
  assume "\<forall>x \<in> set (asg_rules g). rule_new (uag_addrs b) (hag_addrs b) x"
  then show "\<forall>x \<in> set (asg_rules (g\<lparr>asg_rules := (asg_rules g)[snd r := f (asg_rules g ! snd r)]\<rparr>)).
      rule_new (uag_addrs b) (hag_addrs b) x"
    using update_all [of "asg_rules g" "rule_new (uag_addrs b) (hag_addrs b)" f "snd r"] assms(2) by simp
qed simp_all

lemma asg_add_ok:
  assumes "base_ok U H b" and "asAsgAdd b name = (b', u)"
  shows "base_ok U H b'"
proof (cases "insert_named asg_name (new_asg name) (asgList b)")
  case None
  then show ?thesis using assms by (auto simp: asAsgAdd_def split: option.splits if_splits)
next
  case (Some l)
  then have b': "b' = b\<lparr>asgList := l\<rparr>" using assms(2) by (simp add: asAsgAdd_def)
  have "set l = insert (new_asg name) (set (asgList b))" "named_sorted asg_name l"
    using insert_named_set [OF Some] insert_named_sorted [OF Some] assms(1) by (auto simp: base_ok_def)
  with assms(1) show ?thesis
    by (auto simp: b' base_ok_def new_asg_def names_ok_def uag_addrs_def hag_addrs_def)
qed

lemma add_rule_ok:
  assumes "base_ok U H b" and "asAsgAddRule b pasg a l = (b', r)"
  shows "base_ok U H b'"
proof (cases pasg)
  case (Some n)
  then have "\<exists>x. b' = upd_asg n (\<lambda>g. g\<lparr>asg_rules := asg_rules g @ [x]\<rparr>) b \<and> rule_new {} {} x"
    using assms(2) by (auto simp: asAsgAddRule_def Let_def rule_new_def)
  then show ?thesis
    using upd_asg_ok [OF assms(1)] by (auto simp: rule_new_def)
qed (use assms in \<open>simp add: asAsgAddRule_def\<close>)

lemma find_uag_addr: "find P (uagList b) = Some u \<Longrightarrow> uag_addr u \<in> uag_addrs b"
  using find_SomeD by (fastforce simp: uag_addrs_def)

lemma find_hag_addr: "find P (hagList b) = Some u \<Longrightarrow> hag_addr u \<in> hag_addrs b"
  using find_SomeD by (fastforce simp: hag_addrs_def)

lemma rule_item_ok:
  assumes "base_ok U H b" and "parse_rule_item fp strtod r i (b, e) = Some (b', e')"
  shows "base_ok U H b'"
proof -
  have uag: "base_ok U H c' " if "base_ok U H c" "asAsgRuleUagAdd c r n = (c', s)" for c c' n s
    using that find_uag_addr
    by (auto simp: asAsgRuleUagAdd_def split: option.splits intro!: upd_rule_ok simp: rule_new_def)
  have hag: "base_ok U H c' " if "base_ok U H c" "asAsgRuleHagAdd c r n = (c', s)" for c c' n s
    using that find_hag_addr
    by (auto simp: asAsgRuleHagAdd_def split: option.splits intro!: upd_rule_ok simp: rule_new_def)
  show ?thesis
  proof (cases i)
    case (RUag names)
    have "base_ok U H c \<Longrightarrow> fold (\<lambda>n (b, failed). case asAsgRuleUagAdd b r n of
        (b', s) \<Rightarrow> (b', failed \<or> s \<noteq> AS_ok)) names (c, e0) = (c', e') \<Longrightarrow> base_ok U H c'" for c c' e0
      by (induction names arbitrary: c e0) (auto split: prod.splits dest: uag)
    with RUag assms show ?thesis by auto
  next
    case (RHag names)
    have "base_ok U H c \<Longrightarrow> fold (\<lambda>n (b, failed). case asAsgRuleHagAdd b r n of
        (b', s) \<Rightarrow> (b', failed \<or> s \<noteq> AS_ok)) names (c, e0) = (c', e') \<Longrightarrow> base_ok U H c'" for c c' e0
      by (induction names arbitrary: c e0) (auto split: prod.splits dest: hag)
    with RHag assms show ?thesis by auto
  next
    case (RCalc calc)
    with assms show ?thesis
      by (auto simp: asAsgRuleCalc_def split: option.splits pf_result.splits if_splits
          intro!: upd_rule_ok simp: rule_new_def)
  qed
qed

lemma rule_items_ok:
  "parse_rule_items fp strtod r is s = Some (b', e') \<Longrightarrow> base_ok U H (fst s) \<Longrightarrow> base_ok U H b'"
proof (induction "is" arbitrary: s)
  case (Cons i "is")
  then show ?case
    by (cases s) (auto split: bind_splits dest: rule_item_ok)
qed simp

lemma asg_item_ok:
  assumes "parse_asg_item fp strtod u i s = Some (b', e')" and "base_ok U H (fst s)"
  shows "base_ok U H b'"
proof -
  obtain b e where s: "s = (b, e)" by fastforce
  show ?thesis
  proof (cases i)
    case (AInp inp idx)
    with assms s show ?thesis
      by (auto simp: asAsgAddInp_def split: option.splits intro!: upd_asg_ok)
  next
    case (ARule level rights opt items)
    obtain b1 r where r: "asAsgAddRule b u (case access_of_name rights of Some a \<Rightarrow> a | None \<Rightarrow> asNOACCESS) level =
        (b1, r)" by fastforce
    have 1: "base_ok U H b1" using add_rule_ok [OF _ r] assms(2) s by simp
    then have "base_ok U H (asAsgAddRuleOptions b1 r 1)"
      by (auto simp: asAsgAddRuleOptions_def split: option.splits intro!: upd_rule_ok simp: rule_new_def)
    with 1 assms(1) s ARule r show ?thesis
      by (auto simp: Let_def split: option.splits if_splits dest!: rule_items_ok [where U = U and H = H])
  qed
qed

lemma asg_items_ok:
  "parse_asg_items fp strtod u is s = Some (b', e') \<Longrightarrow> base_ok U H (fst s) \<Longrightarrow> base_ok U H b'"
proof (induction "is" arbitrary: s)
  case (Cons i "is")
  then show ?case by (auto split: bind_splits dest: asg_item_ok)
qed simp

lemma fold_base_ok:
  "base_ok U H b \<Longrightarrow> (\<And>b x. x \<in> set xs \<Longrightarrow> base_ok U H b \<Longrightarrow> base_ok U H (f x b)) \<Longrightarrow> base_ok U H (fold f xs b)"
  by (induction xs arbitrary: b) auto

lemma parse_items_ok:
  assumes "parse_items fp strtod is s = Some (b', e')" and "base_ok U H (fst s)"
    and "\<forall>i \<in> set is. item_ok U H i"
  shows "base_ok U H b'"
  using assms
proof (induction "is" arbitrary: s)
  case (Cons i "is")
  obtain b e where s: "s = (b, e)" by fastforce
  obtain b1 e1 where step: "(case i of
          DUag a name users \<Rightarrow> (case parse_uag a name users (fst s) of (b, e) \<Rightarrow> Some (b, snd s \<or> e))
        | DHag a name hosts \<Rightarrow> (case parse_hag a name hosts (fst s) of (b, e) \<Rightarrow> Some (b, snd s \<or> e))
        | DAsg name body \<Rightarrow>
            (case asAsgAdd (fst s) name of
               (b, yyAsg) \<Rightarrow> parse_asg_items fp strtod yyAsg body (b, snd s \<or> yyAsg = None))) = Some (b1, e1)"
    and rest: "parse_items fp strtod is (b1, e1) = Some (b', e')"
    using Cons.prems(1) by (auto split: bind_splits simp del: split_paired_All)
  have "base_ok U H b1"
  proof (cases i)
    case (DUag a name users)
    obtain b2 u where u: "asUagAdd a b name = (b2, u)" by fastforce
    have "base_ok U H (fold (\<lambda>x b. asUagAddUser b u x) users b2)"
      using uag_add_ok(1) [OF _ _ u] Cons.prems(2,3) s DUag
      by (intro fold_base_ok add_user_ok) (auto simp: item_ok_def)
    with step DUag s u show ?thesis by (auto simp: parse_uag_def)
  next
    case (DHag a name hosts)
    obtain b2 u where u: "asHagAdd a b name = (b2, u)" by fastforce
    have "base_ok U H (fold (\<lambda>x b. asHagAddHost b u x) hosts b2)"
      using hag_add_ok(1) [OF _ _ u] Cons.prems(2,3) s DHag
      by (intro fold_base_ok add_host_ok) (auto simp: item_ok_def)
    with step DHag s u show ?thesis by (auto simp: parse_hag_def)
  next
    case (DAsg name body)
    with step s Cons.prems(2) show ?thesis
      by (auto split: prod.splits dest!: asg_items_ok [where U = U and H = H] dest: asg_add_ok)
  qed
  with Cons.IH [OF rest] Cons.prems(3) show ?case by simp
qed simp

end
