(* ===== verification/AsInv.thy ===== *)
theory AsInv
  imports AsConfig
begin

text \<open>
  The invariant of access security: members and clients are linked consistently, and the rights
  stored for a client are always those its group's rules give it now.
\<close>

section \<open>The rights of a client\<close>

definition as_rights :: "as_state \<Rightarrow> ASGCLIENT \<Rightarrow> (asAccessRights \<times> int) option" where
  "as_rights st cl =
     Option.bind (as_members st (cl_member cl)) (\<lambda>m.
     Option.bind (mem_pasg m) (\<lambda>n.
     Option.bind (pasbase st) (\<lambda>b.
     map_option (\<lambda>g. compute_rules (as_phash b) g cl (asg_rules g) (asNOACCESS, 0)) (find_asg b n))))"

definition set_rights :: "as_state \<Rightarrow> ASGCLIENT \<Rightarrow> ASGCLIENT" where
  "set_rights st cl =
     (case as_rights st cl of
        None \<Rightarrow> cl | Some (a, t) \<Rightarrow> cl\<lparr>cl_access := a, cl_trapMask := t\<rparr>)"

definition coherent :: "as_state \<Rightarrow> ASGCLIENT \<Rightarrow> bool" where
  "coherent st cl \<longleftrightarrow> as_rights st cl = Some (cl_access cl, cl_trapMask cl)"

lemma compute_rules_cong:
  assumes "cl_level c' = cl_level c" "cl_user c' = cl_user c" "cl_host c' = cl_host c"
  shows "compute_rules h g c' rs acc = compute_rules h g c rs acc"
  using assms by (induction rs arbitrary: acc) simp_all

lemma as_rights_cong:
  assumes "cl_level c' = cl_level c" "cl_user c' = cl_user c" "cl_host c' = cl_host c"
    "cl_member c' = cl_member c"
  shows "as_rights st c' = as_rights st c"
  using compute_rules_cong [OF assms(1-3)] assms(4) by (simp add: as_rights_def)

lemma as_rights_frame [simp]:
  "as_rights (st\<lparr>as_clients := x\<rparr>) cl = as_rights st cl"
  "as_rights (st\<lparr>as_coar := y\<rparr>) cl = as_rights st cl"
  by (simp_all add: as_rights_def)

lemma set_rights_keep [simp]:
  "cl_member (set_rights st cl) = cl_member cl" "cl_user (set_rights st cl) = cl_user cl"
  "cl_host (set_rights st cl) = cl_host cl" "cl_level (set_rights st cl) = cl_level cl"
  "cl_callback (set_rights st cl) = cl_callback cl"
  by (auto simp: set_rights_def split: option.splits)

lemma as_rights_set [simp]: "as_rights st (set_rights st' cl) = as_rights st cl"
  by (rule as_rights_cong) simp_all

lemma set_rights_coherent: "as_rights st cl \<noteq> None \<Longrightarrow> coherent st (set_rights st cl)"
  unfolding coherent_def as_rights_set by (auto simp: set_rights_def)

lemma set_rights_idem: "as_rights st' = as_rights st \<Longrightarrow> set_rights st' (set_rights st cl) = set_rights st cl"
proof -
  assume a: "as_rights st' = as_rights st"
  have "as_rights st' (set_rights st cl) = as_rights st cl" using a by simp
  then show ?thesis by (auto simp: set_rights_def split: option.splits)
qed

lemma asComputePvt_eq:
  assumes "asActive st" "as_clients st c = Some cl" "as_rights st cl \<noteq> None"
  obtains log where "asComputePvt st c =
    (st\<lparr>as_clients := (as_clients st)(c \<mapsto> set_rights st cl), as_coar := as_coar st @ log\<rparr>, AS_ok)"
proof -
  from assms(3) obtain m n b g where
      "as_members st (cl_member cl) = Some m" "mem_pasg m = Some n" "pasbase st = Some b" "find_asg b n = Some g"
    by (auto simp: as_rights_def split: bind_splits)
  with assms(1,2) have "\<exists>log. asComputePvt st c =
      (st\<lparr>as_clients := (as_clients st)(c \<mapsto> set_rights st cl), as_coar := as_coar st @ log\<rparr>, AS_ok)"
    by (cases "compute_rules (as_phash b) g cl (asg_rules g) (asNOACCESS, 0)")
       (simp add: asComputePvt_def as_rights_def set_rights_def, rule exI, rule refl)
  then show thesis using that by blast
qed

lemma compute_clients_eq:
  assumes "asActive st" "\<forall>c \<in> set cs. \<exists>cl. as_clients st c = Some cl \<and> as_rights st cl \<noteq> None"
  shows "\<exists>log. compute_clients st cs =
    st\<lparr>as_clients := (\<lambda>c. if c \<in> set cs then map_option (set_rights st) (as_clients st c) else as_clients st c),
       as_coar := as_coar st @ log\<rparr>"
  using assms
proof (induction cs arbitrary: st)
  case Nil
  then show ?case by (intro exI [of _ "[]"]) (simp add: compute_clients_def)
next
  case (Cons c cs)
  then obtain cl where cl: "as_clients st c = Some cl" "as_rights st cl \<noteq> None" by auto
  obtain log where log: "asComputePvt st c =
      (st\<lparr>as_clients := (as_clients st)(c \<mapsto> set_rights st cl), as_coar := as_coar st @ log\<rparr>, AS_ok)"
    using asComputePvt_eq [OF Cons.prems(1) cl] .
  let ?st = "st\<lparr>as_clients := (as_clients st)(c \<mapsto> set_rights st cl), as_coar := as_coar st @ log\<rparr>"
  have r: "as_rights ?st = as_rights st" by (simp add: fun_eq_iff as_rights_def)
  have "\<forall>x \<in> set cs. \<exists>cl. as_clients ?st x = Some cl \<and> as_rights ?st cl \<noteq> None"
    using Cons.prems(2) cl r by (auto simp: fun_upd_apply)
  then obtain log' where log': "compute_clients ?st cs =
      ?st\<lparr>as_clients := (\<lambda>c. if c \<in> set cs then map_option (set_rights ?st) (as_clients ?st c) else as_clients ?st c),
         as_coar := as_coar ?st @ log'\<rparr>"
    using Cons.IH [of ?st] Cons.prems(1) by auto
  have sr: "set_rights ?st = set_rights st" using r by (simp add: fun_eq_iff set_rights_def)
  have "(\<lambda>x. if x \<in> set cs then map_option (set_rights ?st) (as_clients ?st x) else as_clients ?st x) =
      (\<lambda>x. if x \<in> set (c # cs) then map_option (set_rights st) (as_clients st x) else as_clients st x)"
    unfolding sr using cl(1) set_rights_idem [of st st cl] by (auto simp: fun_eq_iff)
  with log log' show ?case
    by (intro exI [of _ "log @ log'"]) (simp add: compute_clients_def)
qed

section \<open>Consistent links\<close>

definition listed :: "as_state \<Rightarrow> ASBASE \<Rightarrow> addr set \<Rightarrow> bool" where
  "listed st b P \<longleftrightarrow>
     (\<forall>g \<in> set (asgList b). distinct (asg_members g) \<and>
        (\<forall>m \<in> set (asg_members g). m \<in> P \<and>
           (\<exists>mem. as_members st m = Some mem \<and> mem_pasg mem = Some (asg_name g)))) \<and>
     (\<forall>m mem. as_members st m = Some mem \<longrightarrow> m \<in> P \<longrightarrow>
        (\<exists>g \<in> set (asgList b). mem_pasg mem = Some (asg_name g) \<and> m \<in> set (asg_members g)))"

definition clients_ok :: "as_state \<Rightarrow> bool" where
  "clients_ok st \<longleftrightarrow>
     (\<forall>m mem. as_members st m = Some mem \<longrightarrow> distinct (mem_clients mem) \<and>
        (\<forall>c \<in> set (mem_clients mem). \<exists>cl. as_clients st c = Some cl \<and> cl_member cl = m)) \<and>
     (\<forall>c cl. as_clients st c = Some cl \<longrightarrow>
        (\<exists>mem. as_members st (cl_member cl) = Some mem \<and> c \<in> set (mem_clients mem)))"

text \<open>
  A rule refers to groups that exist, and it has a result only when its expression uses inputs.
\<close>

definition rule_refs :: "ptr set \<Rightarrow> ptr set \<Rightarrow> ASGRULE \<Rightarrow> bool" where
  "rule_refs U H r \<longleftrightarrow>
     set (rule_uags r) \<subseteq> U \<and> set (rule_hags r) \<subseteq> H \<and> (rule_inpUsed r = 0 \<longrightarrow> rule_result r = 0)"

definition loaded_ok :: "ASBASE \<Rightarrow> bool" where
  "loaded_ok b \<longleftrightarrow>
     uag_addrs b \<inter> hag_addrs b = {} \<and> names_ok b \<and>
     as_phash b = hash_names (base_names b) (Some (gphInitPvt 256)) \<and>
     named_sorted asg_name (asgList b) \<and> DEFAULT \<in> asg_name ` set (asgList b) \<and>
     (\<forall>g \<in> set (asgList b). \<forall>r \<in> set (asg_rules g). rule_refs (uag_addrs b) (hag_addrs b) r)"

text \<open>The group a member goes to.\<close>

definition home_group :: "ASBASE \<Rightarrow> string \<Rightarrow> string" where
  "home_group b name = (if find_asg b name = None then DEFAULT else name)"

definition homed :: "as_state \<Rightarrow> ASBASE \<Rightarrow> addr set \<Rightarrow> bool" where
  "homed st b P \<longleftrightarrow>
     (\<forall>m mem. as_members st m = Some mem \<longrightarrow> m \<in> P \<longrightarrow> mem_pasg mem = Some (home_group b (mem_asgName mem)))"

text \<open>
  The members in \<open>P\<close> are placed in groups. The clients in \<open>C\<close> have the rights that they should have.
\<close>

definition as_links :: "addr set \<Rightarrow> as_state \<Rightarrow> bool" where
  "as_links P st \<longleftrightarrow> (\<exists>b. pasbase st = Some b \<and> loaded_ok b \<and> listed st b P \<and> homed st b P) \<and> clients_ok st"

definition as_coh :: "addr set \<Rightarrow> as_state \<Rightarrow> bool" where
  "as_coh C st \<longleftrightarrow> (\<forall>c \<in> C. \<forall>cl. as_clients st c = Some cl \<longrightarrow> coherent st cl)"

definition clients_of :: "addr set \<Rightarrow> as_state \<Rightarrow> addr set" where
  "clients_of P st = {c. \<exists>cl. as_clients st c = Some cl \<and> cl_member cl \<in> P}"

definition as_inv_on :: "addr set \<Rightarrow> as_state \<Rightarrow> bool" where
  "as_inv_on P st \<longleftrightarrow> as_links P st \<and> as_coh (clients_of P st) st"

definition as_inv :: "as_state \<Rightarrow> bool" where
  "as_inv st \<longleftrightarrow>
     (if pasbase st = None
      then \<not> asActive st \<and> as_members st = Map.empty \<and> as_clients st = Map.empty
      else asActive st \<and> as_inv_on UNIV st)"

lemma find_asg_name:
  assumes "distinct (map asg_name (asgList b))" "g \<in> set (asgList b)"
  shows "find_asg b (asg_name g) = Some g"
proof -
  have "find_asg b (asg_name g) \<noteq> None"
    using assms(2) by (auto simp: find_asg_def find_None_iff)
  then obtain x where x: "find_asg b (asg_name g) = Some x" by blast
  then have "x \<in> set (asgList b)" "asg_name x = asg_name g"
    using find_SomeD unfolding find_asg_def by fastforce+
  with assms have "x = g" by (auto simp: distinct_map dest: inj_onD)
  with x show ?thesis by simp
qed

lemma loaded_distinct: "loaded_ok b \<Longrightarrow> distinct (map asg_name (asgList b))"
  by (simp add: loaded_ok_def named_sorted_distinct)

lemma find_asg_Some: "find_asg b n = Some g \<Longrightarrow> g \<in> set (asgList b) \<and> asg_name g = n"
  unfolding find_asg_def using find_SomeD by fastforce

text \<open>Changing the member lists, the cached results or the inputs of a group.\<close>

lemma find_asg_upd:
  assumes "\<And>g. asg_name (f g) = asg_name g"
  shows "find_asg (upd_asg n f b) k = map_option (\<lambda>g. if asg_name g = n then f g else g) (find_asg b k)"
proof -
  have "find (\<lambda>g. asg_name g = k) (map (\<lambda>g. if asg_name g = n then f g else g) gs) =
      map_option (\<lambda>g. if asg_name g = n then f g else g) (find (\<lambda>g. asg_name g = k) gs)" for gs
    by (induction gs) (auto simp: assms)
  then show ?thesis by (simp add: find_asg_def upd_asg_def)
qed

lemma home_group_upd: "(\<And>g. asg_name (f g) = asg_name g) \<Longrightarrow> home_group (upd_asg n f b) = home_group b"
  by (simp add: fun_eq_iff home_group_def find_asg_upd)

lemma homed_upd: "(\<And>g. asg_name (f g) = asg_name g) \<Longrightarrow> homed st (upd_asg n f b) P = homed st b P"
  by (simp add: homed_def home_group_upd)

lemma loaded_upd:
  assumes "loaded_ok b" and "\<And>g. asg_name (f g) = asg_name g"
    and "\<And>g. g \<in> set (asgList b) \<Longrightarrow> asg_name g = n \<Longrightarrow>
      \<forall>r \<in> set (asg_rules g). rule_refs (uag_addrs b) (hag_addrs b) r \<Longrightarrow>
      \<forall>r \<in> set (asg_rules (f g)). rule_refs (uag_addrs b) (hag_addrs b) r"
  shows "loaded_ok (upd_asg n f b)"
proof -
  let ?h = "\<lambda>g. if asg_name g = n then f g else g"
  have "named_sorted asg_name (map ?h (asgList b)) = named_sorted asg_name (asgList b)"
    by (rule named_sorted_map) (simp add: assms(2))
  moreover have "map asg_name (map ?h (asgList b)) = map asg_name (asgList b)" using assms(2) by simp
  then have "asg_name ` set (map ?h (asgList b)) = asg_name ` set (asgList b)" by (metis list.set_map)
  moreover have "\<forall>r \<in> set (asg_rules (?h g)). rule_refs (uag_addrs b) (hag_addrs b) r"
    if "g \<in> set (asgList b)" for g
    using assms that by (auto simp: loaded_ok_def)
  then have "\<forall>g \<in> set (map ?h (asgList b)). \<forall>r \<in> set (asg_rules g). rule_refs (uag_addrs b) (hag_addrs b) r"
    unfolding list.set_map by blast
  moreover have "asgList (upd_asg n f b) = map ?h (asgList b)" "uag_addrs (upd_asg n f b) = uag_addrs b"
      "hag_addrs (upd_asg n f b) = hag_addrs b" "names_ok (upd_asg n f b) = names_ok b"
      "as_phash (upd_asg n f b) = as_phash b" "base_names (upd_asg n f b) = base_names b"
    by (simp_all add: upd_asg_def uag_addrs_def hag_addrs_def names_ok_def base_names_def)
  ultimately show ?thesis
    using assms(1) unfolding loaded_ok_def by metis
qed

lemma calc_grants_cong: "asg_inpBad g' = asg_inpBad g \<Longrightarrow> calc_grants g' = calc_grants g"
  by (simp add: calc_grants_def fun_eq_iff)

lemma compute_rules_group:
  assumes "asg_inpBad g' = asg_inpBad g"
  shows "compute_rules h g' c rs acc = compute_rules h g c rs acc"
  unfolding calc_grants_cong [OF assms]
  by (induction rs arbitrary: acc) (simp_all add: calc_grants_cong [OF assms])

lemma as_rights_members:
  assumes "\<And>g. asg_name (f g) = asg_name g" "\<And>g. asg_inpBad (f g) = asg_inpBad g"
    "\<And>g. asg_rules (f g) = asg_rules g"
  shows "as_rights (upd_base (upd_asg n f) st) cl = as_rights st cl"
proof -
  have ph: "as_phash (upd_asg n f b) = as_phash b" for b by (simp add: upd_asg_def)
  have "compute_rules h (if asg_name g = n then f g else g) c (asg_rules (if asg_name g = n then f g else g)) acc =
      compute_rules h g c (asg_rules g) acc" for h g c acc
    using assms(3) compute_rules_group [OF assms(2), of h g c "asg_rules g" acc] by simp
  then show ?thesis
    by (cases "pasbase st")
       (simp_all add: as_rights_def upd_base_def find_asg_upd [OF assms(1)] ph option.map_comp comp_def)
qed

section \<open>Placing a member in a group\<close>

lemma loaded_default: "loaded_ok b \<Longrightarrow> find_asg b DEFAULT \<noteq> None"
  by (auto simp: loaded_ok_def find_asg_def find_None_iff)

lemma home_group_found: "loaded_ok b \<Longrightarrow> \<exists>g. find_asg b (home_group b name) = Some g"
  using loaded_default by (auto simp: home_group_def)

definition place :: "addr \<Rightarrow> ASGMEMBER \<Rightarrow> string \<Rightarrow> as_state \<Rightarrow> as_state" where
  "place m mem n st =
     upd_base (upd_asg n (\<lambda>g. g\<lparr>asg_members := asg_members g @ [m]\<rparr>))
       (st\<lparr>as_members := (as_members st)(m \<mapsto> mem\<lparr>mem_pasg := Some n\<rparr>)\<rparr>)"

lemma addMember_eq:
  assumes "pasbase st = Some b" "loaded_ok b"
    and "mem = (case as_members st m of
                  Some mem \<Rightarrow> mem\<lparr>mem_asgName := name\<rparr>
                | None \<Rightarrow> \<lparr>mem_pasg = None, mem_clients = [], mem_asgName = name, mem_userPvt = 0\<rparr>)"
  shows "asAddMemberPvt st m name =
    (compute_clients (place m mem (home_group b name) st) (mem_clients mem), AS_ok)"
proof -
  obtain d where "find_asg b DEFAULT = Some d" "asg_name d = DEFAULT"
    using loaded_default [OF assms(2)] find_asg_Some by blast
  then show ?thesis
    using assms(1) find_asg_Some [of b name]
    by (auto simp: asAddMemberPvt_def place_def home_group_def Let_def assms(3) split: option.splits)
qed

lemma listed_place:
  assumes "listed st b P" "m \<notin> P" "distinct (map asg_name (asgList b))" "find_asg b n = Some g0"
  shows "listed (place m mem n st) (upd_asg n (\<lambda>g. g\<lparr>asg_members := asg_members g @ [m]\<rparr>) b) (insert m P)"
proof -
  let ?f = "\<lambda>g. if asg_name g = n then g\<lparr>asg_members := asg_members g @ [m]\<rparr> else g"
  let ?st = "place m mem n st"
  have al: "asgList (upd_asg n (\<lambda>g. g\<lparr>asg_members := asg_members g @ [m]\<rparr>) b) = map ?f (asgList b)"
    by (simp add: upd_asg_def)
  have mm: "as_members ?st = (as_members st)(m \<mapsto> mem\<lparr>mem_pasg := Some n\<rparr>)"
    by (simp add: place_def upd_base_def)
  have g0: "g0 \<in> set (asgList b)" "asg_name g0 = n" using find_asg_Some [OF assms(4)] by auto
  have 1: "distinct (asg_members (?f g)) \<and> (\<forall>x \<in> set (asg_members (?f g)). x \<in> insert m P \<and>
      (\<exists>mem'. as_members ?st x = Some mem' \<and> mem_pasg mem' = Some (asg_name (?f g))))"
    if "g \<in> set (asgList b)" for g
    using assms(1,2) that by (auto simp: listed_def mm)
  have 2: "\<exists>g \<in> set (asgList b). mem_pasg mem' = Some (asg_name (?f g)) \<and> x \<in> set (asg_members (?f g))"
    if "as_members ?st x = Some mem'" "x \<in> insert m P" for x mem'
  proof (cases "x = m")
    case True
    with that g0 show ?thesis by (intro bexI [of _ g0]) (auto simp: mm)
  next
    case False
    with that have "as_members st x = Some mem'" "x \<in> P" by (auto simp: mm)
    then obtain g where "g \<in> set (asgList b)" "mem_pasg mem' = Some (asg_name g)" "x \<in> set (asg_members g)"
      using assms(1) unfolding listed_def by blast
    then show ?thesis by (intro bexI [of _ g]) auto
  qed
  show ?thesis
    unfolding listed_def al using 1 2 by (simp only: list.set_map) blast
qed

lemma place_rights:
  assumes "cl_member cl \<noteq> m"
  shows "as_rights (place m mem n st) cl = as_rights st cl"
proof -
  have "as_rights (place m mem n st) cl =
      as_rights (st\<lparr>as_members := (as_members st)(m \<mapsto> mem\<lparr>mem_pasg := Some n\<rparr>)\<rparr>) cl"
    unfolding place_def by (rule as_rights_members) simp_all
  also have "\<dots> = as_rights st cl" using assms by (simp add: as_rights_def)
  finally show ?thesis .
qed

lemma place_rights_some:
  assumes "pasbase st = Some b" "find_asg b n = Some g" "cl_member cl = m"
  shows "as_rights (place m mem n st) cl \<noteq> None"
  using assms by (simp add: as_rights_def place_def upd_base_def find_asg_upd)

section \<open>Recomputing clients\<close>

lemma clients_okD:
  assumes "clients_ok st"
  shows "as_members st m = Some mem \<Longrightarrow> distinct (mem_clients mem)"
    and "as_members st m = Some mem \<Longrightarrow> c \<in> set (mem_clients mem) \<Longrightarrow>
      \<exists>cl. as_clients st c = Some cl \<and> cl_member cl = m"
    and "as_clients st c = Some cl \<Longrightarrow>
      \<exists>mem. as_members st (cl_member cl) = Some mem \<and> c \<in> set (mem_clients mem)"
  using assms unfolding clients_ok_def by blast+

lemma clients_ok_cong:
  assumes "\<And>m. map_option mem_clients (as_members st' m) = map_option mem_clients (as_members st m)"
    and "\<And>c. map_option cl_member (as_clients st' c) = map_option cl_member (as_clients st c)"
  shows "clients_ok st' = clients_ok st"
proof -
  have imp: "clients_ok y" if ok: "clients_ok x"
      and a: "\<And>m. map_option mem_clients (as_members y m) = map_option mem_clients (as_members x m)"
      and c: "\<And>c. map_option cl_member (as_clients y c) = map_option cl_member (as_clients x c)" for x y
  proof -
    have 1: "distinct (mem_clients mem) \<and>
        (\<forall>k \<in> set (mem_clients mem). \<exists>cl. as_clients y k = Some cl \<and> cl_member cl = m)"
      if mem: "as_members y m = Some mem" for m mem
    proof -
      obtain mem' where m': "as_members x m = Some mem'" "mem_clients mem' = mem_clients mem"
        using a [of m] mem by (cases "as_members x m") auto
      have "\<exists>cl. as_clients y k = Some cl \<and> cl_member cl = m" if k: "k \<in> set (mem_clients mem)" for k
      proof -
        obtain cl where "as_clients x k = Some cl" "cl_member cl = m"
          using clients_okD(2) [OF ok m'(1), of k] k m'(2) by auto
        with c [of k] show ?thesis by (cases "as_clients y k") auto
      qed
      moreover have "distinct (mem_clients mem)" using clients_okD(1) [OF ok m'(1)] m'(2) by simp
      ultimately show ?thesis by blast
    qed
    have 2: "\<exists>mem. as_members y (cl_member cl) = Some mem \<and> k \<in> set (mem_clients mem)"
      if k: "as_clients y k = Some cl" for k cl
    proof -
      obtain cl' where "as_clients x k = Some cl'" "cl_member cl' = cl_member cl"
        using c [of k] k by (cases "as_clients x k") auto
      then obtain mem where "as_members x (cl_member cl) = Some mem" "k \<in> set (mem_clients mem)"
        using clients_okD(3) [OF ok] by fastforce
      with a [of "cl_member cl"] show ?thesis by (cases "as_members y (cl_member cl)") auto
    qed
    show ?thesis unfolding clients_ok_def using 1 2 by blast
  qed
  show ?thesis
  proof
    show "clients_ok st'" if "clients_ok st" using imp [OF that] assms by blast
    show "clients_ok st" if "clients_ok st'" using imp [OF that] assms by metis
  qed
qed

lemma links_rights:
  assumes "as_links P st" "as_clients st c = Some cl" "cl_member cl \<in> P"
  shows "as_rights st cl \<noteq> None"
proof -
  obtain b where b: "pasbase st = Some b" "loaded_ok b" "listed st b P"
    using assms(1) by (auto simp: as_links_def)
  obtain mem where m: "as_members st (cl_member cl) = Some mem"
    using assms(1) clients_okD(3) [OF _ assms(2)] by (auto simp: as_links_def)
  then obtain g where "g \<in> set (asgList b)" "mem_pasg mem = Some (asg_name g)"
    using b(3) assms(3) unfolding listed_def by blast
  with b m find_asg_name [OF loaded_distinct [OF b(2)]] show ?thesis by (simp add: as_rights_def)
qed

lemma coherent_set [simp]:
  "coherent (st\<lparr>as_clients := x\<rparr>) cl = coherent st cl"
  "coherent (st\<lparr>as_coar := y\<rparr>) cl = coherent st cl"
  by (simp_all add: coherent_def)

text \<open>What stays the same when the rights of clients are computed again.\<close>

definition same_objects :: "as_state \<Rightarrow> as_state \<Rightarrow> bool" where
  "same_objects st st' \<longleftrightarrow>
     asActive st' = asActive st \<and> pasbase st' = pasbase st \<and> as_members st' = as_members st \<and>
     (\<forall>c. map_option cl_member (as_clients st' c) = map_option cl_member (as_clients st c))"

lemma same_clients_of: "same_objects st st' \<Longrightarrow> clients_of P st' = clients_of P st"
proof -
  assume "same_objects st st'"
  then have "map_option cl_member (as_clients st' c) = map_option cl_member (as_clients st c)" for c
    by (simp add: same_objects_def)
  then show ?thesis
    by (auto simp: clients_of_def) (metis (mono_tags) map_option_eq_Some)+
qed

lemma same_links: "same_objects st st' \<Longrightarrow> as_links P st' = as_links P st"
  using clients_ok_cong [of st' st] by (simp add: same_objects_def as_links_def listed_def homed_def)

lemma compute_clients_inv:
  assumes "asActive st" "as_links P st" "as_coh C st" "set cs \<subseteq> clients_of P st"
  shows "same_objects st (compute_clients st cs) \<and> as_coh (C \<union> set cs) (compute_clients st cs)"
proof -
  have "\<forall>c \<in> set cs. \<exists>cl. as_clients st c = Some cl \<and> as_rights st cl \<noteq> None"
    using assms(4) links_rights [OF assms(2)] by (fastforce simp: clients_of_def)
  then obtain log where eq: "compute_clients st cs =
      st\<lparr>as_clients := (\<lambda>c. if c \<in> set cs then map_option (set_rights st) (as_clients st c) else as_clients st c),
         as_coar := as_coar st @ log\<rparr>"
    using compute_clients_eq [OF assms(1)] by blast
  have "coherent st cl"
    if "c \<in> C \<union> set cs" "as_clients (compute_clients st cs) c = Some cl" for c cl
  proof (cases "c \<in> set cs")
    case True
    with that(2) eq obtain cl' where "as_clients st c = Some cl'" "cl = set_rights st cl'" by auto
    moreover have "as_rights st cl' \<noteq> None"
      using links_rights [OF assms(2)] calculation(1) True assms(4) by (fastforce simp: clients_of_def)
    ultimately show ?thesis by (simp add: set_rights_coherent)
  next
    case False
    with that eq assms(3) show ?thesis by (simp add: as_coh_def)
  qed
  then show ?thesis
    unfolding as_coh_def using eq
    by (simp add: same_objects_def option.map_comp comp_def)
qed

end
