(* ===== verification/AsSteps.thy ===== *)
theory AsSteps
  imports AsInv
begin

text \<open>
  Every operation on members, clients and inputs keeps the links consistent and leaves every
  client with the rights it should have.
\<close>

section \<open>Members\<close>

lemma place_fields [simp]:
  "as_clients (place m mem n st) = as_clients st" "asActive (place m mem n st) = asActive st"
  "as_members (place m mem n st) = (as_members st)(m \<mapsto> mem\<lparr>mem_pasg := Some n\<rparr>)"
  "pasbase (place m mem n st) =
     map_option (upd_asg n (\<lambda>g. g\<lparr>asg_members := asg_members g @ [m]\<rparr>)) (pasbase st)"
  by (simp_all add: place_def upd_base_def)

lemma clients_ok_member:
  assumes "clients_ok st"
    and "mem_clients mem = (case as_members st m of Some old \<Rightarrow> mem_clients old | None \<Rightarrow> [])"
    and "as_clients st' = as_clients st" "as_members st' = (as_members st)(m \<mapsto> mem)"
  shows "clients_ok st'"
proof (cases "as_members st m")
  case None
  have "\<exists>x. as_members st' (cl_member cl) = Some x \<and> c \<in> set (mem_clients x)"
    if "as_clients st c = Some cl" for c cl
    using clients_okD(3) [OF assms(1) that] None assms(4) by auto
  moreover have "distinct (mem_clients x) \<and>
      (\<forall>c \<in> set (mem_clients x). \<exists>cl. as_clients st c = Some cl \<and> cl_member cl = k)"
    if "as_members st' k = Some x" for k x
    using that clients_okD(1,2) [OF assms(1), of k x] assms(2,4) None by (auto split: if_splits)
  ultimately show ?thesis using assms(3) by (simp add: clients_ok_def)
next
  case (Some old)
  then have "clients_ok st' = clients_ok st"
    using assms(2-4) by (intro clients_ok_cong) auto
  with assms(1) show ?thesis by simp
qed

lemma member_clients:
  assumes "clients_ok st"
  shows "clients_of {m} st = (case as_members st m of Some mem \<Rightarrow> set (mem_clients mem) | None \<Rightarrow> {})"
proof (cases "as_members st m")
  case None
  with clients_okD(3) [OF assms] show ?thesis by (fastforce simp: clients_of_def)
next
  case (Some mem)
  with clients_okD(2) [OF assms Some] clients_okD(3) [OF assms] show ?thesis
    by (fastforce simp: clients_of_def)
qed

lemma place_links:
  assumes "as_links P st" "pasbase st = Some b" "m \<notin> P" "find_asg b n = Some g" "n = home_group b (mem_asgName mem)"
    and "mem_clients mem = (case as_members st m of Some old \<Rightarrow> mem_clients old | None \<Rightarrow> [])"
  shows "as_links (insert m P) (place m mem n st)"
proof -
  have ok: "loaded_ok b" "listed st b P" "clients_ok st" "homed st b P"
    using assms(1,2) by (auto simp: as_links_def)
  have "clients_ok (place m mem n st)"
    by (rule clients_ok_member [OF ok(3), of "mem\<lparr>mem_pasg := Some n\<rparr>" m]) (simp_all add: assms(6))
  moreover have "homed (place m mem n st) (upd_asg n (\<lambda>g. g\<lparr>asg_members := asg_members g @ [m]\<rparr>) b) (insert m P)"
    using ok(4) assms(5) by (auto simp: homed_upd) (auto simp: homed_def)
  moreover have "loaded_ok (upd_asg n (\<lambda>g. g\<lparr>asg_members := asg_members g @ [m]\<rparr>) b)"
    by (rule loaded_upd [OF ok(1)]) simp_all
  ultimately show ?thesis
    using listed_place [OF ok(2) assms(3) loaded_distinct [OF ok(1)] assms(4)] assms(2)
    by (simp add: as_links_def)
qed

lemma addMember_inv:
  assumes "as_inv_on P st" "asActive st" "m \<notin> P" "asAddMemberPvt st m name = (st', s)"
  shows "as_inv_on (insert m P) st' \<and> asActive st' \<and> s = AS_ok \<and>
    (\<forall>k. k \<noteq> m \<longrightarrow> as_members st' k = as_members st k)"
proof -
  obtain b where b: "pasbase st = Some b" "loaded_ok b"
    using assms(1) by (auto simp: as_inv_on_def as_links_def)
  define mem where "mem = (case as_members st m of
      Some mem \<Rightarrow> mem\<lparr>mem_asgName := name\<rparr>
    | None \<Rightarrow> \<lparr>mem_pasg = None, mem_clients = [], mem_asgName = name, mem_userPvt = 0\<rparr>)"
  let ?n = "home_group b name"
  let ?sp = "place m mem ?n st"
  obtain g where g: "find_asg b ?n = Some g" using home_group_found [OF b(2)] by blast
  have mc: "mem_clients mem = (case as_members st m of Some old \<Rightarrow> mem_clients old | None \<Rightarrow> [])"
    by (simp add: mem_def split: option.split)
  have st': "st' = compute_clients ?sp (mem_clients mem)" "s = AS_ok"
    using addMember_eq [OF b mem_def] assms(4) by simp_all
  have links: "as_links P st" "as_coh (clients_of P st) st" using assms(1) by (auto simp: as_inv_on_def)
  have "mem_asgName mem = name" by (simp add: mem_def split: option.split)
  then have links': "as_links (insert m P) ?sp" by (intro place_links [OF links(1) b(1) assms(3) g _ mc]) simp
  have "coherent ?sp cl" if "c \<in> clients_of P st" "as_clients ?sp c = Some cl" for c cl
    using that links(2) place_rights [of cl m mem ?n st] assms(3)
    by (auto simp: as_coh_def coherent_def clients_of_def)
  then have coh: "as_coh (clients_of P st) ?sp" by (simp add: as_coh_def)
  have cs: "set (mem_clients mem) = clients_of {m} st"
    using links(1) member_clients [of st m] by (simp add: mc as_links_def split: option.split)
  have "same_objects ?sp st' \<and> as_coh (clients_of P st \<union> set (mem_clients mem)) st'"
    unfolding st' using cs assms(2)
    by (intro compute_clients_inv [OF _ links' coh]) (auto simp: clients_of_def)
  moreover have "clients_of P st \<union> set (mem_clients mem) = clients_of (insert m P) ?sp"
    unfolding cs by (auto simp: clients_of_def)
  ultimately have so: "same_objects ?sp st'" "as_coh (clients_of (insert m P) ?sp) st'" by simp_all
  then have "as_inv_on (insert m P) st'"
    using same_links [OF so(1)] same_clients_of [OF so(1)] links' by (simp add: as_inv_on_def)
  with so(1) st'(2) assms(2) show ?thesis by (simp add: same_objects_def)
qed

lemma listed_unlist:
  assumes "listed st b P" "as_members st m = Some mem" "mem_pasg mem = Some n"
  shows "listed st (upd_asg n (\<lambda>g. g\<lparr>asg_members := remove1 m (asg_members g)\<rparr>) b) (P - {m})"
proof -
  let ?f = "\<lambda>g. if asg_name g = n then g\<lparr>asg_members := remove1 m (asg_members g)\<rparr> else g"
  have al: "asgList (upd_asg n (\<lambda>g. g\<lparr>asg_members := remove1 m (asg_members g)\<rparr>) b) = map ?f (asgList b)"
    by (simp add: upd_asg_def)
  have in_n: "asg_name g = n" if "g \<in> set (asgList b)" "m \<in> set (asg_members g)" for g
  proof -
    have "\<exists>mem'. as_members st m = Some mem' \<and> mem_pasg mem' = Some (asg_name g)"
      using assms(1) that unfolding listed_def by blast
    with assms(2,3) show ?thesis by simp
  qed
  have 1: "distinct (asg_members (?f g)) \<and> (\<forall>x \<in> set (asg_members (?f g)). x \<in> P - {m} \<and>
      (\<exists>mem'. as_members st x = Some mem' \<and> mem_pasg mem' = Some (asg_name (?f g))))"
    if g: "g \<in> set (asgList b)" for g
  proof -
    have "distinct (asg_members g)" "\<forall>x \<in> set (asg_members g). x \<in> P \<and>
        (\<exists>mem'. as_members st x = Some mem' \<and> mem_pasg mem' = Some (asg_name g))"
      using assms(1) g unfolding listed_def by blast+
    with in_n [OF g] show ?thesis by (auto simp: set_remove1_eq)
  qed
  have 2: "\<exists>g \<in> set (asgList b). mem_pasg mem' = Some (asg_name (?f g)) \<and> x \<in> set (asg_members (?f g))"
    if x: "as_members st x = Some mem'" "x \<in> P - {m}" for x mem'
  proof -
    obtain g where "g \<in> set (asgList b)" "mem_pasg mem' = Some (asg_name g)" "x \<in> set (asg_members g)"
      using assms(1) x unfolding listed_def by blast
    with x(2) show ?thesis by (intro bexI [of _ g]) auto
  qed
  show ?thesis
    unfolding listed_def al using 1 2 by (simp only: list.set_map) blast
qed

lemma unlist_fields [simp]:
  "as_clients (unlist_member m n st) = as_clients st" "asActive (unlist_member m n st) = asActive st"
  "as_members (unlist_member m n st) = as_members st"
  "pasbase (unlist_member m n st) =
     map_option (upd_asg n (\<lambda>g. g\<lparr>asg_members := remove1 m (asg_members g)\<rparr>)) (pasbase st)"
  by (simp_all add: unlist_member_def upd_base_def)

lemma unlist_inv:
  assumes "as_inv_on P st" "as_members st m = Some mem" "mem_pasg mem = Some n"
  shows "as_inv_on (P - {m}) (unlist_member m n st)"
proof -
  let ?su = "unlist_member m n st"
  obtain b where b: "pasbase st = Some b" "loaded_ok b" "listed st b P" "clients_ok st"
      "as_coh (clients_of P st) st" "homed st b P"
    using assms(1) by (auto simp: as_inv_on_def as_links_def)
  have "clients_ok ?su = clients_ok st" by (rule clients_ok_cong) simp_all
  moreover have "homed ?su (upd_asg n (\<lambda>g. g\<lparr>asg_members := remove1 m (asg_members g)\<rparr>) b) (P - {m})"
    using b(6) by (simp add: homed_upd) (simp add: homed_def)
  moreover have "loaded_ok (upd_asg n (\<lambda>g. g\<lparr>asg_members := remove1 m (asg_members g)\<rparr>) b)"
    by (rule loaded_upd [OF b(2)]) simp_all
  moreover have "listed ?su b' P' = listed st b' P'" for b' P' by (simp add: listed_def)
  moreover have "as_rights ?su cl = as_rights st cl" for cl
    unfolding unlist_member_def by (rule as_rights_members) simp_all
  ultimately show ?thesis
    using b listed_unlist [OF b(3) assms(2,3)]
    by (auto simp: as_inv_on_def as_links_def as_coh_def coherent_def clients_of_def)
qed

lemma changeGroup_inv:
  assumes "as_inv_on UNIV st" "asChangeGroup st m name = (st', s)"
  shows "as_inv_on UNIV st' \<and> asActive st' = asActive st"
proof (cases "asActive st \<and> as_members st m \<noteq> None")
  case True
  then obtain mem where m: "as_members st m = Some mem" by blast
  obtain n where n: "mem_pasg mem = Some n"
    using assms(1) m unfolding as_inv_on_def as_links_def listed_def by blast
  have "asAddMemberPvt (unlist_member m n st) m name = (st', s)"
    using assms(2) True m n by (simp add: asChangeGroup_def)
  then have "as_inv_on (insert m (UNIV - {m})) st' \<and> asActive st'"
    using addMember_inv [OF unlist_inv [OF assms(1) m n]] True by simp
  with True show ?thesis by (simp add: insert_Diff_if insert_UNIV)
qed (use assms in \<open>auto simp: asChangeGroup_def split: if_splits option.splits\<close>)

text \<open>Member addresses that carry no member can be added to the placed ones.\<close>

lemma inv_on_cong:
  assumes "as_inv_on P st" "P \<inter> dom (as_members st) = Q \<inter> dom (as_members st)"
  shows "as_inv_on Q st"
proof -
  obtain b where b: "pasbase st = Some b" "loaded_ok b" "listed st b P" "clients_ok st"
      "as_coh (clients_of P st) st" "homed st b P"
    using assms(1) by (auto simp: as_inv_on_def as_links_def)
  have iff: "x \<in> P \<longleftrightarrow> x \<in> Q" if "as_members st x = Some y" for x y
    using assms(2) that by blast
  have "listed st b Q"
    using b(3) iff unfolding listed_def by metis
  moreover have "homed st b Q" using b(6) iff unfolding homed_def by metis
  moreover have "clients_of Q st = clients_of P st"
    using clients_okD(3) [OF b(4)] iff by (auto simp: clients_of_def) metis+
  ultimately show ?thesis using b by (auto simp: as_inv_on_def as_links_def)
qed

lemma addMember_fresh_inv:
  assumes "as_inv_on UNIV st" "as_members st m = None" "asAddMember st m name = (st', s)"
  shows "as_inv_on UNIV st' \<and> asActive st' = asActive st"
proof (cases "asActive st")
  case True
  have "as_inv_on (UNIV - {m}) st" by (rule inv_on_cong [OF assms(1)]) (use assms(2) in auto)
  then have "as_inv_on (insert m (UNIV - {m})) st' \<and> asActive st'"
    using addMember_inv assms(3) True by (fastforce simp: asAddMember_def)
  with True show ?thesis by (simp add: insert_Diff_if insert_UNIV)
qed (use assms in \<open>auto simp: asAddMember_def\<close>)

lemma removeMember_inv:
  assumes "as_inv_on UNIV st" "asRemoveMember st m = (st', s)"
  shows "as_inv_on UNIV st' \<and> asActive st' = asActive st"
proof (cases "st' = st")
  case False
  then obtain mem n where m: "as_members st m = Some mem" "mem_clients mem = []" "mem_pasg mem = Some n"
      and st': "st' = (unlist_member m n st)\<lparr>as_members := (as_members st)(m := None)\<rparr>"
    using assms(2) by (auto simp: asRemoveMember_def split: if_splits option.splits)
  let ?su = "unlist_member m n st"
  have inv: "as_inv_on (UNIV - {m}) ?su" by (rule unlist_inv [OF assms(1) m(1,3)])
  then obtain b where b: "pasbase ?su = Some b" "loaded_ok b" "listed ?su b (UNIV - {m})" "clients_ok ?su"
      "as_coh (clients_of (UNIV - {m}) ?su) ?su" "homed ?su b (UNIV - {m})"
    by (auto simp: as_inv_on_def as_links_def)
  have none: "cl_member cl \<noteq> m" if "as_clients st c = Some cl" for c cl
    using clients_okD(3) [OF b(4), of c cl] that m by auto
  have "listed st' b (UNIV - {m})"
    using b(3) unfolding listed_def st' by auto
  moreover have "homed st' b (UNIV - {m})" using b(6) unfolding homed_def st' by auto
  moreover have "clients_ok st'"
    using b(4) none unfolding clients_ok_def st' by auto
  moreover have "as_rights st' cl = as_rights ?su cl" if "cl_member cl \<noteq> m" for cl
    using that by (simp add: as_rights_def st')
  then have "as_coh (clients_of (UNIV - {m}) st') st'"
    using b(5) by (auto simp: as_coh_def clients_of_def coherent_def st')
  moreover have "pasbase st' = Some b" using b(1) by (simp add: st')
  ultimately have "as_inv_on (UNIV - {m}) st'"
    using b(2) unfolding as_inv_on_def as_links_def by blast
  then have "as_inv_on UNIV st'" by (rule inv_on_cong) (auto simp: st')
  then show ?thesis by (simp add: st')
qed (use assms in simp)

section \<open>Clients\<close>

text \<open>A state whose links are consistent and in which one client is still to be computed.\<close>

lemma insert_compl: "insert x (- {x}) = UNIV"
  by auto

lemma computePvt_inv:
  assumes "as_links UNIV st" "asActive st" "as_coh (- {c}) st" "asComputePvt st c = (st', s)"
  shows "as_inv_on UNIV st' \<and> asActive st'"
proof (cases "as_clients st c")
  case None
  then have "st' = st" using assms(2,4) by (simp add: asComputePvt_def)
  moreover have "as_coh UNIV st" using assms(3) None by (auto simp: as_coh_def)
  ultimately show ?thesis using assms(1,2) by (auto simp: as_inv_on_def as_coh_def)
next
  case (Some cl)
  have st': "st' = compute_clients st [c]" using assms(4) by (simp add: compute_clients_def)
  have "same_objects st st' \<and> as_coh (- {c} \<union> set [c]) st'"
    unfolding st' using Some by (intro compute_clients_inv [OF assms(2,1,3)]) (simp add: clients_of_def)
  then have so: "same_objects st st'" "as_coh UNIV st'" by (simp_all add: insert_compl)
  then have "as_coh (clients_of UNIV st') st'" by (simp add: as_coh_def)
  with so same_links [OF so(1)] assms(1,2) show ?thesis by (simp add: as_inv_on_def same_objects_def)
qed

lemma inv_coh: "as_inv_on UNIV st \<Longrightarrow> as_coh C st"
  by (auto simp: as_inv_on_def as_coh_def clients_of_def)

lemma compute_inv:
  assumes "as_inv_on UNIV st" "asCompute st c = (st', s)"
  shows "as_inv_on UNIV st' \<and> asActive st' = asActive st"
  using assms computePvt_inv [OF _ _ inv_coh [OF assms(1)]]
  by (fastforce simp: asCompute_def as_inv_on_def split: if_splits)

text \<open>Only the group of a member matters for lists and rights.\<close>

lemma listed_cong:
  assumes "\<And>m. map_option mem_pasg (as_members st' m) = map_option mem_pasg (as_members st m)"
  shows "listed st' b P = listed st b P"
proof -
  have 1: "(\<exists>mem. as_members st' m = Some mem \<and> mem_pasg mem = n) \<longleftrightarrow>
      (\<exists>mem. as_members st m = Some mem \<and> mem_pasg mem = n)" for m n
    using assms [of m] by (cases "as_members st' m"; cases "as_members st m") auto
  have 2: "(\<forall>mem. as_members st' m = Some mem \<longrightarrow> Q (mem_pasg mem)) \<longleftrightarrow>
      (\<forall>mem. as_members st m = Some mem \<longrightarrow> Q (mem_pasg mem))" for m Q
    using assms [of m] by (cases "as_members st' m"; cases "as_members st m") auto
  have "(\<forall>mem. as_members st' m = Some mem \<longrightarrow> m \<in> P \<longrightarrow>
        (\<exists>g \<in> set (asgList b). mem_pasg mem = Some (asg_name g) \<and> m \<in> set (asg_members g))) \<longleftrightarrow>
      (\<forall>mem. as_members st m = Some mem \<longrightarrow> m \<in> P \<longrightarrow>
        (\<exists>g \<in> set (asgList b). mem_pasg mem = Some (asg_name g) \<and> m \<in> set (asg_members g)))" for m
    using 2 [of m "\<lambda>n. m \<in> P \<longrightarrow> (\<exists>g \<in> set (asgList b). n = Some (asg_name g) \<and> m \<in> set (asg_members g))"] .
  then show ?thesis
    unfolding listed_def 1 by simp
qed

lemma as_rights_pasg:
  assumes "\<And>m. map_option mem_pasg (as_members st' m) = map_option mem_pasg (as_members st m)"
    and "pasbase st' = pasbase st"
  shows "as_rights st' cl = as_rights st cl"
  using assms(1) [of "cl_member cl"] assms(2)
  by (cases "as_members st' (cl_member cl)"; cases "as_members st (cl_member cl)") (auto simp: as_rights_def)

lemma map_option_pair:
  "map_option (\<lambda>x. (f x, g x)) o1 = map_option (\<lambda>x. (f x, g x)) o2 \<Longrightarrow> map_option f o1 = map_option f o2"
  by (cases o1; cases o2) auto

lemma homed_cong:
  assumes "\<And>m. map_option (\<lambda>x. (mem_pasg x, mem_asgName x)) (as_members st' m) =
    map_option (\<lambda>x. (mem_pasg x, mem_asgName x)) (as_members st m)"
  shows "homed st' b P = homed st b P"
proof -
  have "(\<forall>mem. as_members st' m = Some mem \<longrightarrow> Q (mem_pasg mem) (mem_asgName mem)) \<longleftrightarrow>
      (\<forall>mem. as_members st m = Some mem \<longrightarrow> Q (mem_pasg mem) (mem_asgName mem))" for m Q
    using assms [of m] by (cases "as_members st' m"; cases "as_members st m") auto
  from this [of m "\<lambda>p n. m \<in> P \<longrightarrow> p = Some (home_group b n)" for m] show ?thesis
    unfolding homed_def by simp
qed

lemma links_cong:
  assumes "as_links P st" "clients_ok st'" "pasbase st' = pasbase st"
    and "\<And>m. map_option (\<lambda>x. (mem_pasg x, mem_asgName x)) (as_members st' m) =
      map_option (\<lambda>x. (mem_pasg x, mem_asgName x)) (as_members st m)"
  shows "as_links P st'"
  using assms(1-3) listed_cong [OF map_option_pair [OF assms(4)]] homed_cong [OF assms(4)]
  by (simp add: as_links_def)

lemma clients_ok_add:
  assumes "clients_ok st" "as_members st m = Some mem" "as_clients st c = None" "cl_member cl = m"
  shows "clients_ok (st\<lparr>as_clients := (as_clients st)(c \<mapsto> cl),
    as_members := (as_members st)(m \<mapsto> mem\<lparr>mem_clients := mem_clients mem @ [c]\<rparr>)\<rparr>)"
proof -
  have new: "c \<notin> set (mem_clients x)" if "as_members st k = Some x" for k x
    using clients_okD(2) [OF assms(1) that, of c] assms(3) by auto
  have "\<exists>x. ((as_members st)(m \<mapsto> mem\<lparr>mem_clients := mem_clients mem @ [c]\<rparr>)) (cl_member d) = Some x \<and>
      k \<in> set (mem_clients x)" if "((as_clients st)(c \<mapsto> cl)) k = Some d" for k d
    using that clients_okD(3) [OF assms(1), of k d] assms(2,4) by (auto split: if_splits)
  moreover have "distinct (mem_clients x) \<and>
      (\<forall>k \<in> set (mem_clients x). \<exists>d. ((as_clients st)(c \<mapsto> cl)) k = Some d \<and> cl_member d = n)"
    if "((as_members st)(m \<mapsto> mem\<lparr>mem_clients := mem_clients mem @ [c]\<rparr>)) n = Some x" for n x
  proof (cases "n = m")
    case True
    with that clients_okD(1,2) [OF assms(1,2)] new [OF assms(2)] assms(4) show ?thesis by auto
  next
    case False
    with that have "as_members st n = Some x" by simp
    with clients_okD(1,2) [OF assms(1) this] new [OF this] show ?thesis by auto
  qed
  ultimately show ?thesis by (simp add: clients_ok_def)
qed

lemma addClient_inv:
  assumes "as_inv_on UNIV st" "\<forall>c. pc = Some c \<longrightarrow> as_clients st c = None"
    and "asAddClient st pc m asl user host = (st', s)"
  shows "as_inv_on UNIV st' \<and> asActive st' = asActive st"
proof (cases "asActive st \<and> as_members st m \<noteq> None \<and> pc \<noteq> None")
  case True
  then obtain mem c where m: "as_members st m = Some mem" and c: "pc = Some c" by blast
  define cl where "cl = \<lparr>cl_member = m, cl_user = user, cl_host = map c_tolower host, cl_userPvt = 0,
    cl_callback = None, cl_level = asl, cl_access = asNOACCESS, cl_trapMask = 0\<rparr>"
  define sa where "sa = st\<lparr>as_clients := (as_clients st)(c \<mapsto> cl),
    as_members := (as_members st)(m \<mapsto> mem\<lparr>mem_clients := mem_clients mem @ [c]\<rparr>)\<rparr>"
  have step: "asComputePvt sa c = (st', s)"
    using assms(3) True m c by (simp add: asAddClient_def sa_def cl_def Let_def)
  have pasg: "map_option (\<lambda>x. (mem_pasg x, mem_asgName x)) (as_members sa k) =
      map_option (\<lambda>x. (mem_pasg x, mem_asgName x)) (as_members st k)" for k
    using m by (simp add: sa_def)
  have links: "as_links UNIV st" and ok: "clients_ok st"
    using assms(1) by (auto simp: as_inv_on_def as_links_def)
  have ok': "clients_ok sa"
    unfolding sa_def by (rule clients_ok_add [OF ok m]) (use assms(2) c in \<open>simp_all add: cl_def\<close>)
  have "as_links UNIV sa" by (rule links_cong [OF links ok' _ pasg]) (simp add: sa_def)
  moreover have "as_rights sa k = as_rights st k" for k
    by (rule as_rights_pasg [OF map_option_pair [OF pasg]]) (simp add: sa_def)
  then have "as_coh (- {c}) sa"
    using inv_coh [OF assms(1), of "- {c}"] by (auto simp: as_coh_def coherent_def sa_def)
  ultimately have "as_inv_on UNIV st' \<and> asActive st'"
    using computePvt_inv [OF _ _ _ step] True by (simp add: sa_def)
  with True show ?thesis by simp
qed (use assms in \<open>auto simp: asAddClient_def split: if_splits option.splits\<close>)

lemma clients_ok_update:
  assumes "clients_ok st" "as_clients st c = Some cl" "cl_member cl' = cl_member cl"
  shows "clients_ok (st\<lparr>as_clients := (as_clients st)(c \<mapsto> cl')\<rparr>)"
proof -
  have "clients_ok (st\<lparr>as_clients := (as_clients st)(c \<mapsto> cl')\<rparr>) = clients_ok st"
    using assms(2,3) by (intro clients_ok_cong) auto
  with assms(1) show ?thesis by simp
qed

lemma changeClient_inv:
  assumes "as_inv_on UNIV st" "asChangeClient st c asl user host = (st', s)"
  shows "as_inv_on UNIV st' \<and> asActive st' = asActive st"
proof (cases "asActive st \<and> as_clients st c \<noteq> None")
  case True
  then obtain cl where c: "as_clients st c = Some cl" by blast
  define cl' where "cl' = cl\<lparr>cl_level := asl, cl_user := user, cl_host := map c_tolower host\<rparr>"
  let ?sc = "st\<lparr>as_clients := (as_clients st)(c \<mapsto> cl')\<rparr>"
  have step: "asComputePvt ?sc c = (st', s)"
    using assms(2) True c by (simp add: asChangeClient_def cl'_def)
  have links: "as_links UNIV st" and ok: "clients_ok st"
    using assms(1) by (auto simp: as_inv_on_def as_links_def)
  have "clients_ok ?sc" by (rule clients_ok_update [OF ok c]) (simp add: cl'_def)
  then have "as_links UNIV ?sc" by (rule links_cong [OF links]) simp_all
  moreover have "as_coh (- {c}) ?sc"
    using inv_coh [OF assms(1), of "- {c}"] by (auto simp: as_coh_def)
  ultimately have "as_inv_on UNIV st' \<and> asActive st'"
    using computePvt_inv [OF _ _ _ step] True by simp
  with True show ?thesis by simp
qed (use assms in \<open>auto simp: asChangeClient_def split: if_splits option.splits\<close>)

lemma clients_ok_remove:
  assumes "clients_ok st" "as_clients st c = Some cl" "as_members st (cl_member cl) = Some mem"
  shows "clients_ok (st\<lparr>as_members := (as_members st)(cl_member cl \<mapsto> mem\<lparr>mem_clients := remove1 c (mem_clients mem)\<rparr>),
    as_clients := (as_clients st)(c := None)\<rparr>)"
proof -
  let ?m = "cl_member cl"
  have elsewhere: "c \<notin> set (mem_clients x)" if "as_members st k = Some x" "k \<noteq> ?m" for k x
    using clients_okD(2) [OF assms(1) that(1), of c] assms(2) that(2) by auto
  note d = clients_okD(1) [OF assms(1)] and cl = clients_okD(2) [OF assms(1)]
  have "\<exists>x. ((as_members st)(?m \<mapsto> mem\<lparr>mem_clients := remove1 c (mem_clients mem)\<rparr>)) (cl_member e) = Some x \<and>
      k \<in> set (mem_clients x)" if "k \<noteq> c" "as_clients st k = Some e" for k e
    using that clients_okD(3) [OF assms(1), of k e] assms(3) by auto
  moreover have "distinct (mem_clients x) \<and>
      (\<forall>k \<in> set (mem_clients x). \<exists>e. ((as_clients st)(c := None)) k = Some e \<and> cl_member e = n)"
    if x: "((as_members st)(?m \<mapsto> mem\<lparr>mem_clients := remove1 c (mem_clients mem)\<rparr>)) n = Some x" for n x
  proof (cases "n = ?m")
    case True
    with x have "x = mem\<lparr>mem_clients := remove1 c (mem_clients mem)\<rparr>" by simp
    with True d [OF assms(3)] cl [OF assms(3)] show ?thesis by (simp add: set_remove1_eq)
  next
    case False
    with x have n: "as_members st n = Some x" by simp
    have "k \<noteq> c" if "k \<in> set (mem_clients x)" for k using that elsewhere [OF n False] by auto
    with d [OF n] cl [OF n] show ?thesis by simp
  qed
  ultimately show ?thesis by (simp add: clients_ok_def)
qed

lemma removeClient_inv:
  assumes "as_inv_on UNIV st" "asRemoveClient st c = (st', s)"
  shows "as_inv_on UNIV st' \<and> asActive st' = asActive st"
proof (cases "st' = st")
  case False
  then obtain cl mem where c: "as_clients st c = Some cl" "as_members st (cl_member cl) = Some mem"
      and st': "st' = st\<lparr>as_members := (as_members st)(cl_member cl \<mapsto> mem\<lparr>mem_clients := remove1 c (mem_clients mem)\<rparr>),
        as_clients := (as_clients st)(c := None)\<rparr>"
    using assms(2) by (auto simp: asRemoveClient_def split: if_splits option.splits)
  have links: "as_links UNIV st" and ok: "clients_ok st"
    using assms(1) by (auto simp: as_inv_on_def as_links_def)
  have pasg: "map_option (\<lambda>x. (mem_pasg x, mem_asgName x)) (as_members st' k) =
      map_option (\<lambda>x. (mem_pasg x, mem_asgName x)) (as_members st k)" for k
    using c(2) by (simp add: st')
  have "clients_ok st'" unfolding st' by (rule clients_ok_remove [OF ok c])
  then have "as_links UNIV st'" by (rule links_cong [OF links _ _ pasg]) (simp add: st')
  moreover have "as_rights st' k = as_rights st k" for k
    by (rule as_rights_pasg [OF map_option_pair [OF pasg]]) (simp add: st')
  then have "as_coh (clients_of UNIV st') st'"
    using inv_coh [OF assms(1), of UNIV] by (auto simp: as_coh_def coherent_def st')
  ultimately show ?thesis by (simp add: as_inv_on_def st')
qed (use assms in simp)

text \<open>Changes that no computation of rights depends on.\<close>

lemma frame_inv:
  assumes "as_inv_on UNIV st" "pasbase st' = pasbase st"
    and "\<And>m. map_option (\<lambda>x. (mem_pasg x, mem_asgName x, mem_clients x)) (as_members st' m) =
      map_option (\<lambda>x. (mem_pasg x, mem_asgName x, mem_clients x)) (as_members st m)"
    and "\<And>c. map_option (\<lambda>x. (cl_member x, cl_user x, cl_host x, cl_level x, cl_access x, cl_trapMask x)) (as_clients st' c) =
      map_option (\<lambda>x. (cl_member x, cl_user x, cl_host x, cl_level x, cl_access x, cl_trapMask x)) (as_clients st c)"
  shows "as_inv_on UNIV st'"
proof -
  have links: "as_links UNIV st" and ok: "clients_ok st"
    using assms(1) by (auto simp: as_inv_on_def as_links_def)
  have mem: "map_option (\<lambda>x. (mem_pasg x, mem_asgName x)) (as_members st' m) =
        map_option (\<lambda>x. (mem_pasg x, mem_asgName x)) (as_members st m)"
      "map_option mem_clients (as_members st' m) = map_option mem_clients (as_members st m)" for m
    using assms(3) [of m] by (cases "as_members st' m"; cases "as_members st m"; simp)+
  have cl: "map_option cl_member (as_clients st' c) = map_option cl_member (as_clients st c)" for c
    using assms(4) [of c] by (cases "as_clients st' c"; cases "as_clients st c") simp_all
  have "clients_ok st' = clients_ok st" by (rule clients_ok_cong [OF mem(2) cl])
  then have "as_links UNIV st'" using ok by (intro links_cong [OF links _ assms(2) mem(1)]) simp
  moreover have "coherent st' x" if x: "as_clients st' c = Some x" for c x
  proof -
    obtain y where y: "as_clients st c = Some y" "cl_member x = cl_member y" "cl_user x = cl_user y"
        "cl_host x = cl_host y" "cl_level x = cl_level y" "cl_access x = cl_access y" "cl_trapMask x = cl_trapMask y"
      using assms(4) [of c] x by (cases "as_clients st c") auto
    have "coherent st y" using inv_coh [OF assms(1), of UNIV] y(1) by (simp add: as_coh_def)
    moreover have "as_rights st' x = as_rights st y"
      using as_rights_pasg [OF map_option_pair [OF mem(1)] assms(2)] as_rights_cong [of x y st] y by simp
    ultimately show ?thesis using y by (simp add: coherent_def)
  qed
  ultimately show ?thesis by (auto simp: as_inv_on_def as_coh_def)
qed

lemma registerCallback_inv:
  assumes "as_inv_on UNIV st" "asRegisterClientCallback st c f = (st', s)"
  shows "as_inv_on UNIV st' \<and> asActive st' = asActive st"
proof -
  have "as_inv_on UNIV st'"
    by (rule frame_inv [OF assms(1)])
       (use assms(2) in \<open>auto simp: asRegisterClientCallback_def split: if_splits option.splits\<close>)
  then show ?thesis using assms(2) by (auto simp: asRegisterClientCallback_def split: if_splits option.splits)
qed

lemma putPvt_inv:
  assumes "as_inv_on UNIV st"
  shows "as_inv_on UNIV (asPutMemberPvt st m p)" "asActive (asPutMemberPvt st m p) = asActive st"
    and "as_inv_on UNIV (asPutClientPvt st c p)" "asActive (asPutClientPvt st c p) = asActive st"
proof -
  show "as_inv_on UNIV (asPutMemberPvt st m p)"
    by (rule frame_inv [OF assms]) (auto simp: asPutMemberPvt_def split: option.splits)
  show "as_inv_on UNIV (asPutClientPvt st c p)"
    by (rule frame_inv [OF assms]) (auto simp: asPutClientPvt_def split: option.splits)
qed (auto simp: asPutMemberPvt_def asPutClientPvt_def split: option.splits)

end
