(* ===== verification/AsCompute.thy ===== *)
theory AsCompute
  imports AsSteps
begin

text \<open>
  Computing the rules of a group again, and loading a configuration while members and clients
  exist.
\<close>

section \<open>One group\<close>

definition group_clients :: "string \<Rightarrow> as_state \<Rightarrow> addr set" where
  "group_clients n st =
     {c. \<exists>cl mem. as_clients st c = Some cl \<and> as_members st (cl_member cl) = Some mem \<and> mem_pasg mem = Some n}"

lemma upd_base_fields [simp]:
  "as_clients (upd_base f st) = as_clients st" "as_members (upd_base f st) = as_members st"
  "asActive (upd_base f st) = asActive st" "pasbase (upd_base f st) = map_option f (pasbase st)"
  by (simp_all add: upd_base_def)

lemma listed_upd:
  assumes "\<And>g. asg_name (f g) = asg_name g" "\<And>g. asg_members (f g) = asg_members g"
  shows "listed st (upd_asg n f b) P = listed st b P"
proof -
  let ?h = "\<lambda>g. if asg_name g = n then f g else g"
  have h: "asg_name (?h g) = asg_name g" "asg_members (?h g) = asg_members g" for g
    using assms by simp_all
  have "asgList (upd_asg n f b) = map ?h (asgList b)" by (simp add: upd_asg_def)
  then show ?thesis
    by (simp only: listed_def list.set_map ball_simps bex_simps h)
qed

lemma group_links:
  assumes "as_links P st" "\<And>g. asg_name (f g) = asg_name g" "\<And>g. asg_members (f g) = asg_members g"
    and "\<And>b g. pasbase st = Some b \<Longrightarrow> g \<in> set (asgList b) \<Longrightarrow> asg_name g = n \<Longrightarrow>
      \<forall>r \<in> set (asg_rules g). rule_refs (uag_addrs b) (hag_addrs b) r \<Longrightarrow>
      \<forall>r \<in> set (asg_rules (f g)). rule_refs (uag_addrs b) (hag_addrs b) r"
  shows "as_links P (upd_base (upd_asg n f) st)"
proof -
  let ?sg = "upd_base (upd_asg n f) st"
  obtain b where b: "pasbase st = Some b" "loaded_ok b" "listed st b P" "clients_ok st" "homed st b P"
    using assms(1) by (auto simp: as_links_def)
  have "homed ?sg (upd_asg n f b) P"
    using b(5) homed_upd [OF assms(2)] homed_cong [of ?sg st] by simp
  moreover have "clients_ok ?sg = clients_ok st" by (rule clients_ok_cong) simp_all
  moreover have "loaded_ok (upd_asg n f b)" by (rule loaded_upd [OF b(2) assms(2) assms(4) [OF b(1)]])
  moreover have "listed ?sg (upd_asg n f b) P = listed st b P"
    using listed_cong [of ?sg st] listed_upd [OF assms(2,3)] by simp
  ultimately show ?thesis using b by (simp add: as_links_def)
qed

lemma group_rights_other:
  assumes "\<And>g. asg_name (f g) = asg_name g"
    and "\<And>mem. as_members st (cl_member cl) = Some mem \<Longrightarrow> mem_pasg mem \<noteq> Some n"
  shows "as_rights (upd_base (upd_asg n f) st) cl = as_rights st cl"
proof -
  have ph: "as_phash (upd_asg n f b) = as_phash b" for b by (simp add: upd_asg_def)
  have "find_asg (upd_asg n f b) k = find_asg b k" if "k \<noteq> n" for b k
  proof (cases "find_asg b k")
    case (Some g)
    with that show ?thesis using find_asg_upd [OF assms(1)] find_asg_Some [OF Some] by simp
  qed (simp add: find_asg_upd [OF assms(1)])
  then show ?thesis
    using assms(2) ph
    by (cases "pasbase st"; cases "as_members st (cl_member cl)"; cases "mem_pasg (the (as_members st (cl_member cl)))")
       (auto simp: as_rights_def)
qed

lemma group_coh:
  assumes "as_coh C st" "\<And>g. asg_name (f g) = asg_name g"
  shows "as_coh (C - group_clients n st) (upd_base (upd_asg n f) st)"
  unfolding as_coh_def
proof (intro ballI allI impI)
  fix c cl
  assume c: "c \<in> C - group_clients n st" "as_clients (upd_base (upd_asg n f) st) c = Some cl"
  then have "as_rights (upd_base (upd_asg n f) st) cl = as_rights st cl"
    by (intro group_rights_other [OF assms(2)]) (auto simp: group_clients_def)
  moreover have "coherent st cl" using c assms(1) by (auto simp: as_coh_def)
  ultimately show "coherent (upd_base (upd_asg n f) st) cl" by (simp add: coherent_def)
qed

lemma eval_rules_ok:
  "eval_rules F junk sd g rs = Some (rs', sd') \<Longrightarrow> \<forall>r \<in> set rs. rule_refs U H r \<Longrightarrow>
   \<forall>r \<in> set rs'. rule_refs U H r"
proof (induction rs arbitrary: sd rs' sd')
  case (Cons r rs)
  show ?case
  proof (cases "rule_calc r \<noteq> None \<and> asg_inpChanged g AND rule_inpUsed r \<noteq> 0")
    case True
    then obtain v sd1 rs1 where "eval_rules F junk sd1 g rs = Some (rs1, sd')" "rs' = r\<lparr>rule_result := v\<rparr> # rs1"
      using Cons.prems(1) by (auto simp: option.case_eq_if split: if_splits)
    moreover have "rule_refs U H (r\<lparr>rule_result := v\<rparr>)"
      using True Cons.prems(2) by (auto simp: rule_refs_def)
    ultimately show ?thesis using Cons.IH Cons.prems(2) by simp
  next
    case False
    then obtain rs1 where "eval_rules F junk sd g rs = Some (rs1, sd')" "rs' = r # rs1"
      using Cons.prems(1) by (auto simp del: de_Morgan_conj)
    with Cons.IH Cons.prems(2) show ?thesis by simp
  qed
qed simp

text \<open>The clients of the members of a group.\<close>

lemma group_members_clients:
  assumes "as_links UNIV st" "pasbase st = Some b" "find_asg b n = Some g"
  shows "set (concat (map (\<lambda>m. case as_members st m of None \<Rightarrow> [] | Some mem \<Rightarrow> mem_clients mem)
    (asg_members g))) = group_clients n st"
proof -
  have l: "listed st b UNIV" "clients_ok st" "distinct (map asg_name (asgList b))"
    using assms(1,2) loaded_distinct by (auto simp: as_links_def)
  have g: "g \<in> set (asgList b)" "asg_name g = n" using find_asg_Some [OF assms(3)] by auto
  have in_g: "m \<in> set (asg_members g) \<longleftrightarrow> mem_pasg mem = Some n" if m: "as_members st m = Some mem" for m mem
  proof
    assume "m \<in> set (asg_members g)"
    then have "\<exists>mem. as_members st m = Some mem \<and> mem_pasg mem = Some (asg_name g)"
      using l(1) g(1) unfolding listed_def by blast
    with m g(2) show "mem_pasg mem = Some n" by simp
  next
    assume a: "mem_pasg mem = Some n"
    have "\<exists>h \<in> set (asgList b). mem_pasg mem = Some (asg_name h) \<and> m \<in> set (asg_members h)"
      using l(1) m unfolding listed_def by blast
    then obtain h where h: "h \<in> set (asgList b)" "asg_name h = n" "m \<in> set (asg_members h)" using a by auto
    have "h = g" using find_asg_name [OF l(3) h(1)] h(2) assms(3) by simp
    with h show "m \<in> set (asg_members g)" by simp
  qed
  have "c \<in> group_clients n st" if "m \<in> set (asg_members g)" "as_members st m = Some mem" "c \<in> set (mem_clients mem)" for c m mem
    using clients_okD(2) [OF l(2) that(2,3)] in_g [OF that(2)] that(1,2) by (auto simp: group_clients_def)
  moreover have "\<exists>m \<in> set (asg_members g). \<exists>mem. as_members st m = Some mem \<and> c \<in> set (mem_clients mem)"
    if c: "c \<in> group_clients n st" for c
  proof -
    obtain cl mem where c: "as_clients st c = Some cl" "as_members st (cl_member cl) = Some mem" "mem_pasg mem = Some n"
      using c by (auto simp: group_clients_def)
    with clients_okD(3) [OF l(2) c(1)] in_g [OF c(2)] show ?thesis by auto
  qed
  moreover have "set (concat (map (\<lambda>m. case as_members st m of None \<Rightarrow> [] | Some mem \<Rightarrow> mem_clients mem) (asg_members g))) =
      {c. \<exists>m \<in> set (asg_members g). \<exists>mem. as_members st m = Some mem \<and> c \<in> set (mem_clients mem)}"
    by (auto split: option.splits intro: sym)
  ultimately show ?thesis by blast
qed

definition group_names :: "as_state \<Rightarrow> string list" where
  "group_names st = (case pasbase st of None \<Rightarrow> [] | Some b \<Rightarrow> map asg_name (asgList b))"

text \<open>What recomputing a group or changing its inputs leaves alone.\<close>

definition same_shape :: "as_state \<Rightarrow> as_state \<Rightarrow> bool" where
  "same_shape st st' \<longleftrightarrow>
     asActive st' = asActive st \<and> group_names st' = group_names st \<and> as_members st' = as_members st \<and>
     (\<forall>c. map_option cl_member (as_clients st' c) = map_option cl_member (as_clients st c))"

lemma same_shape_trans: "same_shape a b \<Longrightarrow> same_shape b c \<Longrightarrow> same_shape a c"
  by (simp add: same_shape_def)

lemma same_shape_refl [simp]: "same_shape a a"
  by (simp add: same_shape_def)

lemma group_names_upd:
  assumes "\<And>g. asg_name (f g) = asg_name g"
  shows "same_shape st (upd_base (upd_asg n f) st)"
  using assms by (auto simp: same_shape_def group_names_def upd_asg_def split: option.split)

lemma group_clients_shape: "same_shape st st' \<Longrightarrow> group_clients n st' = group_clients n st"
proof -
  assume a: "same_shape st st'"
  have "(\<exists>cl. as_clients st' c = Some cl \<and> Q (cl_member cl)) \<longleftrightarrow> (\<exists>cl. as_clients st c = Some cl \<and> Q (cl_member cl))" for c Q
    using a spec [of "\<lambda>c. map_option cl_member (as_clients st' c) = map_option cl_member (as_clients st c)" c]
    by (cases "as_clients st' c"; cases "as_clients st c") (auto simp: same_shape_def)
  from this [of _ "\<lambda>m. \<exists>mem. as_members st m = Some mem \<and> mem_pasg mem = Some n"] a
  show ?thesis by (auto simp: group_clients_def same_shape_def)
qed

lemma computeAsg_inv:
  assumes "as_links UNIV st" "asActive st" "as_coh C st" "asComputeAsgPvt F junk sd st n = Some (st', sd', s)"
  shows "as_links UNIV st' \<and> as_coh (C \<union> group_clients n st) st' \<and> same_shape st st'"
proof -
  obtain b where b: "pasbase st = Some b" using assms(1) by (auto simp: as_links_def)
  then obtain g rs where g: "find_asg b n = Some g" and rs: "eval_rules F junk sd g (asg_rules g) = Some (rs, sd')"
    using assms(2,4) by (auto simp: asComputeAsgPvt_def Let_def split: option.splits)
  define f :: "ASG \<Rightarrow> ASG" where "f = (\<lambda>g. g\<lparr>asg_rules := rs, asg_inpChanged := 0\<rparr>)"
  define cs where "cs = concat (map (\<lambda>m. case as_members st m of None \<Rightarrow> [] | Some mem \<Rightarrow> mem_clients mem) (asg_members g))"
  let ?sg = "upd_base (upd_asg n f) st"
  have st': "st' = compute_clients ?sg cs"
    using assms(2,4) b g rs by (simp add: asComputeAsgPvt_def Let_def f_def cs_def)
  have "x = g" if "x \<in> set (asgList b)" "asg_name x = n" for x
    using find_asg_name [of b x] loaded_distinct assms(1) b g that by (auto simp: as_links_def)
  then have links: "as_links UNIV ?sg"
    using b eval_rules_ok [OF rs] by (intro group_links [OF assms(1)]) (auto simp: f_def)
  have shape: "same_shape st ?sg" by (rule group_names_upd) (simp add: f_def)
  have coh: "as_coh (C - group_clients n st) ?sg"
    by (rule group_coh [OF assms(3)]) (simp add: f_def)
  have cs: "set cs = group_clients n st"
    unfolding cs_def by (rule group_members_clients [OF assms(1) b g])
  have "same_objects ?sg st' \<and> as_coh (C - group_clients n st \<union> set cs) st'"
    unfolding st' using assms(2) cs
    by (intro compute_clients_inv [OF _ links coh]) (auto simp: clients_of_def group_clients_def)
  then have so: "same_objects ?sg st'" "as_coh (C \<union> group_clients n st) st'" by (simp_all add: cs)
  have "same_shape ?sg st'" using so(1) by (simp add: same_objects_def same_shape_def group_names_def)
  with same_links [OF so(1)] so(2) links same_shape_trans [OF shape] show ?thesis by blast
qed

lemma asComputeAsg_inv:
  assumes "as_inv_on UNIV st" "asComputeAsg F junk sd st n = Some (st', sd', s)"
  shows "as_inv_on UNIV st' \<and> asActive st' = asActive st"
proof (cases "asActive st")
  case True
  then have "as_links UNIV st' \<and> as_coh UNIV st' \<and> same_shape st st'"
    using computeAsg_inv [OF _ _ inv_coh [OF assms(1), of UNIV]] assms
    by (simp add: asComputeAsg_def as_inv_on_def)
  then show ?thesis by (auto simp: as_inv_on_def as_coh_def same_shape_def)
qed (use assms in \<open>simp add: asComputeAsg_def\<close>)

section \<open>All groups\<close>

lemma compute_asgs_inv:
  "as_links UNIV st \<Longrightarrow> asActive st \<Longrightarrow> as_coh C st \<Longrightarrow> compute_asgs F junk sd st ns = Some (st', sd') \<Longrightarrow>
   as_links UNIV st' \<and> as_coh (C \<union> (\<Union>n \<in> set ns. group_clients n st)) st' \<and> same_shape st st'"
proof (induction ns arbitrary: st sd C)
  case (Cons n ns)
  obtain st1 sd1 s1 where step: "asComputeAsgPvt F junk sd st n = Some (st1, sd1, s1)"
      and rest: "compute_asgs F junk sd1 st1 ns = Some (st', sd')"
    using Cons.prems(4) by (auto split: option.splits)
  have 1: "as_links UNIV st1" "as_coh (C \<union> group_clients n st) st1" "same_shape st st1"
    using computeAsg_inv [OF Cons.prems(1-3) step] by auto
  have "asActive st1" using 1(3) Cons.prems(2) by (simp add: same_shape_def)
  from Cons.IH [OF 1(1) this 1(2) rest]
  show ?case
    using group_clients_shape [OF 1(3)] same_shape_trans [OF 1(3)] by (auto simp: Un_assoc)
qed simp

lemma all_group_clients:
  assumes "as_links UNIV st"
  shows "as_coh (\<Union>n \<in> set (group_names st). group_clients n st) st' \<Longrightarrow> same_shape st st' \<Longrightarrow> as_coh UNIV st'"
proof -
  assume coh: "as_coh (\<Union>n \<in> set (group_names st). group_clients n st) st'" and shape: "same_shape st st'"
  obtain b where b: "pasbase st = Some b" "listed st b UNIV" "clients_ok st"
    using assms by (auto simp: as_links_def)
  have "c \<in> (\<Union>n \<in> set (group_names st). group_clients n st)" if c: "as_clients st' c = Some cl" for c cl
  proof -
    have "map_option cl_member (as_clients st' c) = map_option cl_member (as_clients st c)"
      using shape by (simp add: same_shape_def)
    with c obtain cl0 where cl0: "as_clients st c = Some cl0" by (cases "as_clients st c") auto
    obtain mem where mem: "as_members st (cl_member cl0) = Some mem" using clients_okD(3) [OF b(3) cl0] by blast
    then obtain g where "g \<in> set (asgList b)" "mem_pasg mem = Some (asg_name g)"
      using b(2) unfolding listed_def by blast
    with cl0 mem b(1) show ?thesis by (auto simp: group_clients_def group_names_def)
  qed
  with coh show "as_coh UNIV st'" unfolding as_coh_def by blast
qed

text \<open>Whatever the rights were before, after all groups were computed they are right.\<close>

lemma asComputeAllAsg_inv:
  assumes "as_links UNIV st" "asActive st" "asComputeAllAsg F junk sd st = Some (st', sd', s)"
  shows "as_inv_on UNIV st' \<and> same_shape st st'"
proof -
  have "compute_asgs F junk sd st (group_names st) = Some (st', sd')"
    using assms(2,3) by (auto simp: asComputeAllAsg_def group_names_def split: option.splits)
  from compute_asgs_inv [OF assms(1,2) _ this, of "{}"]
  have 1: "as_links UNIV st'" "as_coh (\<Union>n \<in> set (group_names st). group_clients n st) st'" "same_shape st st'"
    by (simp_all add: as_coh_def)
  from all_group_clients [OF assms(1) 1(2,3)] 1 show ?thesis by (simp add: as_inv_on_def as_coh_def)
qed

section \<open>Loading a configuration\<close>

lemma finish_loaded:
  assumes "base_ok U H b" "U \<inter> H = {}"
  shows "loaded_ok (finish_base b)"
proof -
  let ?h = "\<lambda>g. g\<lparr>asg_pavalue := replicate CALCPERFORM_NARGS 0\<rparr>"
  have "named_sorted asg_name (map ?h (asgList b)) = named_sorted asg_name (asgList b)"
    by (rule named_sorted_map) simp
  moreover have "asg_name ` set (map ?h (asgList b)) = asg_name ` set (asgList b)"
    by (simp add: image_image)
  moreover have "uag_addrs (finish_base b) = uag_addrs b" "hag_addrs (finish_base b) = hag_addrs b"
      "names_ok (finish_base b) = names_ok b" "base_names (finish_base b) = base_names b"
    by (simp_all add: finish_base_def uag_addrs_def hag_addrs_def names_ok_def base_names_def)
  moreover have "uag_addrs b \<inter> hag_addrs b = {}" using assms by (auto simp: base_ok_def)
  ultimately show ?thesis
    using assms(1) by (simp add: loaded_ok_def base_ok_def finish_base_def rule_new_def rule_refs_def)
qed

lemma finish_listed: "base_ok U H b \<Longrightarrow> listed st (finish_base b) {} \<and> homed st (finish_base b) {}"
  by (simp add: base_ok_def listed_def homed_def finish_base_def)

lemma readd_inv:
  assumes "as_inv_on P st" "asActive st" "distinct ms" "set ms \<inter> P = {}"
    and "\<forall>m \<in> set ms. as_members st m \<noteq> None"
  shows "as_inv_on (P \<union> set ms) (fold readd_member ms st) \<and> asActive (fold readd_member ms st) \<and>
    dom (as_members (fold readd_member ms st)) = dom (as_members st)"
  using assms
proof (induction ms arbitrary: P st)
  case (Cons m ms)
  then obtain mem where mem: "as_members st m = Some mem" by auto
  obtain st1 s1 where step: "asAddMemberPvt st m (mem_asgName mem) = (st1, s1)" by fastforce
  have 1: "as_inv_on (insert m P) st1" "asActive st1" "\<forall>k. k \<noteq> m \<longrightarrow> as_members st1 k = as_members st k"
    using addMember_inv [OF Cons.prems(1,2) _ step] Cons.prems(4) by auto
  have "dom (as_members st1) = dom (as_members st)"
  proof -
    have "as_members st1 m \<noteq> None"
    proof -
      obtain b where b: "pasbase st = Some b" "loaded_ok b"
        using Cons.prems(1) by (auto simp: as_inv_on_def as_links_def)
      note eq = addMember_eq [OF b refl, of m "mem_asgName mem"]
      have keep: "as_members (compute_clients s cs) = as_members s" for s cs
        by (induction cs arbitrary: s)
           (auto simp: compute_clients_def asComputePvt_def Let_def split: option.splits prod.splits)
      show ?thesis using eq step keep by (auto dest: sym)
    qed
    with 1(3) mem show ?thesis by (auto simp: dom_def)
  qed
  moreover have "fold readd_member (m # ms) st = fold readd_member ms st1"
    using mem step by (simp add: readd_member_def)
  moreover have "set ms \<inter> insert m P = {}" "distinct ms" using Cons.prems(3,4) by auto
  moreover have "\<forall>k \<in> set ms. as_members st1 k \<noteq> None"
    using Cons.prems(3,5) 1(3) by auto
  ultimately show ?case using Cons.IH [OF 1(1,2)] by simp
qed simp

lemma old_members_all:
  assumes "as_links UNIV st"
  shows "distinct (old_members st) \<and> set (old_members st) = dom (as_members st)"
proof -
  obtain b where b: "pasbase st = Some b" "loaded_ok b" "listed st b UNIV"
    using assms by (auto simp: as_links_def)
  have own: "g = h" if "g \<in> set (asgList b)" "h \<in> set (asgList b)" "m \<in> set (asg_members g)" "m \<in> set (asg_members h)" for g h m
  proof -
    have "\<exists>mem. as_members st m = Some mem \<and> mem_pasg mem = Some (asg_name g)"
        "\<exists>mem. as_members st m = Some mem \<and> mem_pasg mem = Some (asg_name h)"
      using b(3) that unfolding listed_def by blast+
    then have "asg_name g = asg_name h" by auto
    with that(1,2) loaded_distinct [OF b(2)] show ?thesis by (auto simp: distinct_map dest: inj_onD)
  qed
  have "distinct gs \<Longrightarrow> set gs \<subseteq> set (asgList b) \<Longrightarrow> distinct (concat (map asg_members gs))" for gs
  proof (induction gs)
    case (Cons g gs)
    have "distinct (asg_members g)" using Cons.prems b(3) by (auto simp: listed_def)
    moreover have "set (asg_members g) \<inter> set (asg_members h) = {}" if "h \<in> set gs" for h
      using own [of g h] Cons.prems that by auto
    ultimately show ?case using Cons by auto
  qed simp
  moreover have "distinct (asgList b)" using loaded_distinct [OF b(2)] by (simp add: distinct_map)
  moreover have "set (concat (map asg_members (asgList b))) = dom (as_members st)"
  proof
    show "set (concat (map asg_members (asgList b))) \<subseteq> dom (as_members st)"
      using b(3) by (fastforce simp: listed_def)
    show "dom (as_members st) \<subseteq> set (concat (map asg_members (asgList b)))"
    proof
      fix m assume "m \<in> dom (as_members st)"
      then obtain mem where "as_members st m = Some mem" by blast
      then have "\<exists>g \<in> set (asgList b). mem_pasg mem = Some (asg_name g) \<and> m \<in> set (asg_members g)"
        using b(3) unfolding listed_def by blast
      then show "m \<in> set (concat (map asg_members (asgList b)))" by auto
    qed
  qed
  ultimately show ?thesis using b(1) by (simp add: old_members_def)
qed

text \<open>The addresses of user groups and of host groups are those of different objects.\<close>

definition items_ok :: "as_item list \<Rightarrow> bool" where
  "items_ok is \<longleftrightarrow> (\<exists>U H. U \<inter> H = {} \<and> (\<forall>i \<in> set is. item_ok U H i))"

lemma initialize_inv:
  assumes "as_inv st" "items_ok is" "asInitialize fp strtod st is derivable = Some (st', s)"
  shows "as_inv st' \<and> (s = AS_ok \<and> asActive st' \<or> st' = st)"
proof (cases "st' = st")
  case False
  obtain U H where UH: "U \<inter> H = {}" "\<forall>i \<in> set is. item_ok U H i" using assms(2) by (auto simp: items_ok_def)
  obtain b e where b: "parse_items fp strtod is (empty_base, False) = Some (b, e)"
      and st': "st' = (fold readd_member (old_members st) (st\<lparr>pasbase := Some (finish_base b)\<rparr>))\<lparr>asActive := True\<rparr>"
      and s: "s = AS_ok"
    using assms(3) False by (auto simp: asInitialize_def split: if_splits)
  let ?sb = "st\<lparr>pasbase := Some (finish_base b)\<rparr>"
  have ok: "base_ok U H b" using parse_items_ok [OF b] base_ok_empty UH(2) by simp
  have "clients_ok st"
    using assms(1) by (auto simp: as_inv_def as_inv_on_def as_links_def clients_ok_def split: if_splits)
  moreover have "clients_ok ?sb = clients_ok st" by (rule clients_ok_cong) simp_all
  ultimately have start: "as_inv_on {} ?sb"
    using finish_loaded [OF ok UH(1)] finish_listed [OF ok]
    by (simp add: as_inv_on_def as_links_def as_coh_def clients_of_def)
  have inv: "as_inv_on UNIV (fold readd_member (old_members st) ?sb)"
  proof (cases "pasbase st")
    case None
    then have "as_members st = Map.empty" "old_members st = []"
      using assms(1) by (simp_all add: as_inv_def old_members_def)
    then show ?thesis using inv_on_cong [OF start, of UNIV] by simp
  next
    case (Some b0)
    then have st: "asActive st" "as_links UNIV st" using assms(1) by (simp_all add: as_inv_def as_inv_on_def)
    note old = old_members_all [OF st(2)]
    have "as_inv_on ({} \<union> set (old_members st)) (fold readd_member (old_members st) ?sb) \<and>
        asActive (fold readd_member (old_members st) ?sb) \<and>
        dom (as_members (fold readd_member (old_members st) ?sb)) = dom (as_members ?sb)"
      by (rule readd_inv [OF start]) (use st old in \<open>auto simp: dom_def\<close>)
    then show ?thesis
      using old by (intro inv_on_cong [of "set (old_members st)" _ UNIV]) auto
  qed
  have "as_inv_on UNIV st'"
    unfolding st' by (rule frame_inv [OF inv]) simp_all
  moreover have "pasbase st' \<noteq> None" using calculation by (auto simp: as_inv_on_def as_links_def)
  ultimately show ?thesis using s by (simp add: as_inv_def st')
qed (use assms in simp)

end
