(* ===== verification/AsCa.thy ===== *)
theory AsCa
  imports AsCompute
begin

text \<open>
  The inputs of access security groups, \<^verbatim>\<open>modules/database/src/ioc/as/asCa.c\<close>: the Channel Access
  callbacks that set the values of the inputs and have the group computed again, and the pass of
  \<^verbatim>\<open>asCaTask\<close> that connects the inputs of a new configuration. What the Channel Access client library
  reports is an argument of the callbacks. Then the runs of access security, and that the rights
  of every client are those of the configuration at any time.
\<close>

section \<open>Callbacks\<close>

record event_args =
  ev_normal :: bool     \<comment> \<open>\<^verbatim>\<open>arg.status == ECA_NORMAL\<close>\<close>
  ev_chid :: bool       \<comment> \<open>\<^verbatim>\<open>arg.chid == pcapvt->chid\<close>\<close>
  ev_readable :: bool   \<comment> \<open>\<^verbatim>\<open>ca_state(chid) == cs_conn && ca_read_access(chid)\<close>\<close>
  ev_invalid :: bool    \<comment> \<open>\<^verbatim>\<open>pdata->severity == INVALID_ALARM\<close>\<close>
  ev_value :: double

text \<open>An input: the name of its group and its index.\<close>

type_synonym pasginp = "string \<times> nat"

definition inp_bit :: "nat \<Rightarrow> uint32" where
  "inp_bit k = push_bit k 1"

definition set_bad :: "nat \<Rightarrow> ASG \<Rightarrow> ASG" where
  "set_bad k g = g\<lparr>asg_inpBad := asg_inpBad g OR inp_bit k\<rparr>"

text \<open>\<^verbatim>\<open>if(!caInitializing) asComputeAsg(pasg)\<close>.\<close>

definition ca_compute ::
  "as_fp \<Rightarrow> double list \<Rightarrow> bool \<Rightarrow> string \<Rightarrow> as_state \<times> uint16 \<Rightarrow> (as_state \<times> uint16) option" where
  "ca_compute F junk caInitializing n s =
     (if caInitializing then Some s
      else map_option (\<lambda>(st, sd, _). (st, sd)) (asComputeAsg F junk (snd s) (fst s) n))"

definition mark_bad ::
  "as_fp \<Rightarrow> double list \<Rightarrow> bool \<Rightarrow> pasginp \<Rightarrow> as_state \<times> uint16 \<Rightarrow> (as_state \<times> uint16) option" where
  "mark_bad F junk caInitializing inp s =
     (case Option.bind (pasbase (fst s)) (\<lambda>b. find_asg b (fst inp)) of
        None \<Rightarrow> None
      | Some g \<Rightarrow>
          if asg_inpBad g AND inp_bit (snd inp) = 0
          then ca_compute F junk caInitializing (fst inp)
                 (upd_base (upd_asg (fst inp) (set_bad (snd inp))) (fst s), snd s)
          else Some s)"

definition connectCallback ::
  "as_fp \<Rightarrow> double list \<Rightarrow> bool \<Rightarrow> pasginp \<Rightarrow> bool \<Rightarrow> as_state \<times> uint16 \<Rightarrow> (as_state \<times> uint16) option" where
  "connectCallback F junk caInitializing inp connected s =
     (if connected then Some s else mark_bad F junk caInitializing inp s)"

definition set_input :: "nat \<Rightarrow> event_args \<Rightarrow> ASG \<Rightarrow> ASG" where
  "set_input k a g =
     (let g1 = (if ev_invalid a then set_bad k g
                else g\<lparr>asg_inpBad := asg_inpBad g AND NOT (inp_bit k),
                       asg_pavalue := (asg_pavalue g)[k := ev_value a]\<rparr>)
      in g1\<lparr>asg_inpChanged := asg_inpChanged g1 OR inp_bit k\<rparr>)"

text \<open>\<open>None\<close> also when \<^verbatim>\<open>pavalue\<close> has no element for the input.\<close>

definition eventCallback ::
  "as_fp \<Rightarrow> double list \<Rightarrow> bool \<Rightarrow> pasginp \<Rightarrow> event_args \<Rightarrow> as_state \<times> uint16 \<Rightarrow> (as_state \<times> uint16) option" where
  "eventCallback F junk caInitializing inp a s =
     (if \<not> ev_normal a then Some s
      else if \<not> ev_chid a then Some s
      else if \<not> ev_readable a then mark_bad F junk caInitializing inp s
      else case Option.bind (pasbase (fst s)) (\<lambda>b. find_asg b (fst inp)) of
        None \<Rightarrow> None
      | Some g \<Rightarrow>
          if \<not> ev_invalid a \<and> \<not> snd inp < length (asg_pavalue g) then None
          else ca_compute F junk caInitializing (fst inp)
                 (upd_base (upd_asg (fst inp) (set_input (snd inp) a)) (fst s), snd s))"

datatype ca_call = CaConnect pasginp bool | CaEvent pasginp event_args

fun run_ca_call ::
  "as_fp \<Rightarrow> double list \<Rightarrow> bool \<Rightarrow> ca_call \<Rightarrow> as_state \<times> uint16 \<Rightarrow> (as_state \<times> uint16) option" where
  "run_ca_call F junk i (CaConnect inp connected) s = connectCallback F junk i inp connected s"
| "run_ca_call F junk i (CaEvent inp a) s = eventCallback F junk i inp a s"

primrec ca_calls ::
  "as_fp \<Rightarrow> double list \<Rightarrow> ca_call list \<Rightarrow> as_state \<times> uint16 \<Rightarrow> (as_state \<times> uint16) option" where
  "ca_calls F junk [] s = Some s"
| "ca_calls F junk (c # cs) s = Option.bind (run_ca_call F junk True c s) (ca_calls F junk cs)"

section \<open>Connecting the inputs\<close>

text \<open>
  The loop of \<^verbatim>\<open>asCaTask\<close> over the inputs; \<open>cbs inp\<close> are the callbacks that run while \<open>inp\<close> is being
  connected.
\<close>

primrec connect_inputs ::
  "as_fp \<Rightarrow> double list \<Rightarrow> (pasginp \<Rightarrow> ca_call list) \<Rightarrow> pasginp list \<Rightarrow> as_state \<times> uint16 \<Rightarrow>
   (as_state \<times> uint16) option" where
  "connect_inputs F junk cbs [] s = Some s"
| "connect_inputs F junk cbs (inp # inps) s =
     Option.bind
       (ca_calls F junk (cbs inp) (upd_base (upd_asg (fst inp) (set_bad (snd inp))) (fst s), snd s))
       (connect_inputs F junk cbs inps)"

definition base_inputs :: "ASBASE \<Rightarrow> pasginp list" where
  "base_inputs b = concat (map (\<lambda>g. map (\<lambda>(inp, idx). (asg_name g, nat idx)) (asg_inps g)) (asgList b))"

definition asCaTask_add ::
  "as_fp \<Rightarrow> double list \<Rightarrow> (pasginp \<Rightarrow> ca_call list) \<Rightarrow> as_state \<times> uint16 \<Rightarrow> (as_state \<times> uint16) option" where
  "asCaTask_add F junk cbs s =
     (case pasbase (fst s) of
        None \<Rightarrow> None
      | Some b \<Rightarrow>
          Option.bind (connect_inputs F junk cbs (base_inputs b) s) (\<lambda>(st, sd).
            map_option (\<lambda>(st, sd, _). (st, sd)) (asComputeAllAsg F junk sd st)))"

section \<open>Callbacks keep the rights right\<close>

lemma set_bad_keep [simp]:
  "asg_name (set_bad k g) = asg_name g" "asg_members (set_bad k g) = asg_members g"
  "asg_rules (set_bad k g) = asg_rules g"
  by (simp_all add: set_bad_def)

lemma set_input_keep [simp]:
  "asg_name (set_input k a g) = asg_name g" "asg_members (set_input k a g) = asg_members g"
  "asg_rules (set_input k a g) = asg_rules g"
  by (simp_all add: set_input_def Let_def)

lemma input_links:
  assumes "as_links UNIV st" "\<And>g. asg_name (f g) = asg_name g" "\<And>g. asg_members (f g) = asg_members g"
    "\<And>g. asg_rules (f g) = asg_rules g"
  shows "as_links UNIV (upd_base (upd_asg n f) st) \<and> same_shape st (upd_base (upd_asg n f) st)"
  using group_links [OF assms(1-3)] group_names_upd [OF assms(2)] assms(4) by simp

lemma input_computed:
  assumes "as_inv_on UNIV st" "asActive st" "\<And>g. asg_name (f g) = asg_name g"
    "\<And>g. asg_members (f g) = asg_members g" "\<And>g. asg_rules (f g) = asg_rules g"
    and "ca_compute F junk False n (upd_base (upd_asg n f) st, sd) = Some (st', sd')"
  shows "as_inv_on UNIV st' \<and> asActive st'"
proof -
  let ?si = "upd_base (upd_asg n f) st"
  have links: "as_links UNIV ?si" and shape: "same_shape st ?si"
    using input_links [OF _ assms(3-5)] assms(1) by (auto simp: as_inv_on_def)
  have coh: "as_coh (UNIV - group_clients n st) ?si"
    by (rule group_coh [OF inv_coh [OF assms(1)] assms(3)])
  obtain s where step: "asComputeAsgPvt F junk sd ?si n = Some (st', sd', s)"
    using assms(2,6) by (auto simp: ca_compute_def asComputeAsg_def)
  have "as_links UNIV st' \<and> as_coh (UNIV - group_clients n st \<union> group_clients n ?si) st' \<and> same_shape ?si st'"
    using computeAsg_inv [OF links _ coh step] assms(2) by simp
  moreover have "UNIV - group_clients n st \<union> group_clients n ?si = UNIV"
    unfolding group_clients_shape [OF shape] by auto
  ultimately show ?thesis
    using assms(2) by (auto simp: as_inv_on_def as_coh_def same_shape_def)
qed

lemma mark_bad_inv:
  assumes "as_inv_on UNIV st" "asActive st" "mark_bad F junk False inp (st, sd) = Some (st', sd')"
  shows "as_inv_on UNIV st' \<and> asActive st'"
  using assms input_computed [OF assms(1,2), of "set_bad (snd inp)"]
  by (auto simp: mark_bad_def split: option.splits if_splits)

lemma ca_call_inv:
  assumes "as_inv_on UNIV st" "asActive st" "run_ca_call F junk False c (st, sd) = Some (st', sd')"
  shows "as_inv_on UNIV st' \<and> asActive st'"
proof (cases c)
  case (CaConnect inp connected)
  with assms mark_bad_inv [OF assms(1,2)] show ?thesis
    by (auto simp: connectCallback_def split: if_splits)
next
  case (CaEvent inp a)
  with assms mark_bad_inv [OF assms(1,2)] input_computed [OF assms(1,2), of "set_input (snd inp) a"]
  show ?thesis
    by (auto simp: eventCallback_def split: option.splits if_splits)
qed

lemma mark_bad_links:
  assumes "as_links UNIV (fst s)" "mark_bad F junk True inp s = Some s'"
  shows "as_links UNIV (fst s') \<and> same_shape (fst s) (fst s')"
  using assms input_links [OF assms(1), of "set_bad (snd inp)" "fst inp"]
  by (auto simp: mark_bad_def ca_compute_def split: option.splits if_splits)

lemma ca_call_links:
  assumes "as_links UNIV (fst s)" "run_ca_call F junk True c s = Some s'"
  shows "as_links UNIV (fst s') \<and> same_shape (fst s) (fst s')"
proof (cases c)
  case (CaConnect inp connected)
  with assms mark_bad_links [OF assms(1)] show ?thesis
    by (auto simp: connectCallback_def split: if_splits)
next
  case (CaEvent inp a)
  with assms mark_bad_links [OF assms(1)] input_links [OF assms(1), of "set_input (snd inp) a" "fst inp"]
  show ?thesis
    by (auto simp: eventCallback_def ca_compute_def split: option.splits if_splits)
qed

lemma ca_calls_links:
  "as_links UNIV (fst s) \<Longrightarrow> ca_calls F junk cs s = Some s' \<Longrightarrow>
   as_links UNIV (fst s') \<and> same_shape (fst s) (fst s')"
proof (induction cs arbitrary: s)
  case (Cons c cs)
  obtain s1 where s1: "run_ca_call F junk True c s = Some s1" "ca_calls F junk cs s1 = Some s'"
    using Cons.prems(2) by (auto split: bind_splits)
  note 1 = ca_call_links [OF Cons.prems(1) s1(1)]
  with Cons.IH [OF _ s1(2)] show ?case by (blast intro: same_shape_trans)
qed simp

lemma connect_inputs_links:
  "as_links UNIV (fst s) \<Longrightarrow> connect_inputs F junk cbs inps s = Some s' \<Longrightarrow>
   as_links UNIV (fst s') \<and> same_shape (fst s) (fst s')"
proof (induction inps arbitrary: s)
  case (Cons inp inps)
  let ?sm = "(upd_base (upd_asg (fst inp) (set_bad (snd inp))) (fst s), snd s)"
  obtain s1 where s1: "ca_calls F junk (cbs inp) ?sm = Some s1" "connect_inputs F junk cbs inps s1 = Some s'"
    using Cons.prems(2) by (auto split: bind_splits)
  have m: "as_links UNIV (fst ?sm) \<and> same_shape (fst s) (fst ?sm)"
    using input_links [OF Cons.prems(1)] by simp
  with ca_calls_links [OF _ s1(1)] have 1: "as_links UNIV (fst s1)" "same_shape (fst s) (fst s1)"
    by (blast intro: same_shape_trans)+
  with Cons.IH [OF 1(1) s1(2)] show ?case by (blast intro: same_shape_trans)
qed simp

lemma asCaTask_add_inv:
  assumes "as_inv_on UNIV st" "asActive st" "asCaTask_add F junk cbs (st, sd) = Some (st', sd')"
  shows "as_inv_on UNIV st' \<and> asActive st'"
proof -
  obtain b st1 sd1 s where 1: "connect_inputs F junk cbs (base_inputs b) (st, sd) = Some (st1, sd1)"
      "asComputeAllAsg F junk sd1 st1 = Some (st', sd', s)"
    using assms(3) by (auto simp: asCaTask_add_def split: option.splits bind_splits)
  have links: "as_links UNIV st1" "same_shape st st1"
    using connect_inputs_links [OF _ 1(1)] assms(1) by (simp_all add: as_inv_on_def)
  have "asActive st1" using links(2) assms(2) by (simp add: same_shape_def)
  from asComputeAllAsg_inv [OF links(1) this 1(2)] this show ?thesis by (simp add: same_shape_def)
qed

end
