(* ===== verification/AsRuns.thy ===== *)
theory AsRuns
  imports AsCa CalcSize
begin

text \<open>
  The runs of access security, and that at any time the rights of every client are those the
  configuration gives it.
\<close>

section \<open>Runs\<close>

definition as_initial :: as_state where
  "as_initial = \<lparr>asActive = False, pasbase = None, as_members = Map.empty, as_clients = Map.empty, as_coar = []\<rparr>"

text \<open>
  A new member or client has an address that no other has. Callbacks arrive outside the pass of
  \<^verbatim>\<open>asCaTask\<close> that connects the inputs or, as its argument, inside.
\<close>

inductive as_reach :: "as_fp \<Rightarrow> c_strtod \<Rightarrow> as_state \<Rightarrow> bool"
  for F :: as_fp and strtod :: c_strtod where
  reach_start: "as_reach F strtod as_initial"
| reach_load: "as_reach F strtod st \<Longrightarrow> items_ok is \<Longrightarrow>
    asInitialize (as_ops F) strtod st is derivable = Some (st', s) \<Longrightarrow> as_reach F strtod st'"
| reach_member: "as_reach F strtod st \<Longrightarrow> as_members st m = None \<Longrightarrow>
    asAddMember st m name = (st', s) \<Longrightarrow> as_reach F strtod st'"
| reach_unmember: "as_reach F strtod st \<Longrightarrow> asRemoveMember st m = (st', s) \<Longrightarrow> as_reach F strtod st'"
| reach_regroup: "as_reach F strtod st \<Longrightarrow> asChangeGroup st m name = (st', s) \<Longrightarrow> as_reach F strtod st'"
| reach_client: "as_reach F strtod st \<Longrightarrow> \<forall>c. pc = Some c \<longrightarrow> as_clients st c = None \<Longrightarrow>
    asAddClient st pc m asl user host = (st', s) \<Longrightarrow> as_reach F strtod st'"
| reach_rename: "as_reach F strtod st \<Longrightarrow> asChangeClient st c asl user host = (st', s) \<Longrightarrow> as_reach F strtod st'"
| reach_unclient: "as_reach F strtod st \<Longrightarrow> asRemoveClient st c = (st', s) \<Longrightarrow> as_reach F strtod st'"
| reach_callback: "as_reach F strtod st \<Longrightarrow> asRegisterClientCallback st c f = (st', s) \<Longrightarrow> as_reach F strtod st'"
| reach_memberPvt: "as_reach F strtod st \<Longrightarrow> as_reach F strtod (asPutMemberPvt st m p)"
| reach_clientPvt: "as_reach F strtod st \<Longrightarrow> as_reach F strtod (asPutClientPvt st c p)"
| reach_compute: "as_reach F strtod st \<Longrightarrow> asCompute st c = (st', s) \<Longrightarrow> as_reach F strtod st'"
| reach_group: "as_reach F strtod st \<Longrightarrow> asComputeAsg F junk sd st n = Some (st', sd', s) \<Longrightarrow> as_reach F strtod st'"
| reach_groups: "as_reach F strtod st \<Longrightarrow> asComputeAllAsg F junk sd st = Some (st', sd', s) \<Longrightarrow> as_reach F strtod st'"
| reach_input: "as_reach F strtod st \<Longrightarrow> asActive st \<Longrightarrow> run_ca_call F junk False c (st, sd) = Some (st', sd') \<Longrightarrow>
    as_reach F strtod st'"
| reach_connect: "as_reach F strtod st \<Longrightarrow> asActive st \<Longrightarrow> asCaTask_add F junk cbs (st, sd) = Some (st', sd') \<Longrightarrow>
    as_reach F strtod st'"

lemma as_inv_cases:
  assumes "as_inv st"
  obtains "pasbase st = None" "\<not> asActive st" "as_members st = Map.empty" "as_clients st = Map.empty"
  | "as_inv_on UNIV st" "asActive st"
  using assms by (auto simp: as_inv_def split: if_splits)

lemma as_inv_on_active: "as_inv_on UNIV st \<Longrightarrow> asActive st \<Longrightarrow> as_inv st"
  by (auto simp: as_inv_def as_inv_on_def as_links_def)

lemma inactive_steps:
  assumes "\<not> asActive st"
  shows "asAddMember st m name = (st, S_asLib_asNotActive)" "asRemoveMember st m = (st, S_asLib_asNotActive)"
    "asChangeGroup st m name = (st, S_asLib_asNotActive)"
    "asAddClient st pc m asl user host = (st, S_asLib_asNotActive)"
    "asChangeClient st c asl user host = (st, S_asLib_asNotActive)"
    "asRemoveClient st c = (st, S_asLib_asNotActive)"
    "asRegisterClientCallback st c f = (st, S_asLib_asNotActive)"
    "asPutMemberPvt st m p = st" "asPutClientPvt st c p = st"
    "asCompute st c = (st, S_asLib_asNotActive)"
    "asComputeAsg F junk sd st n = Some (st, sd, S_asLib_asNotActive)"
    "asComputeAllAsg F junk sd st = Some (st, sd, S_asLib_asNotActive)"
  using assms
  by (simp_all add: asAddMember_def asRemoveMember_def asChangeGroup_def asAddClient_def asChangeClient_def
      asRemoveClient_def asRegisterClientCallback_def asPutMemberPvt_def asPutClientPvt_def asCompute_def
      asComputeAsg_def asComputeAllAsg_def)

lemma step_inv:
  assumes "as_inv st" "\<not> asActive st \<Longrightarrow> st' = st"
    and "as_inv_on UNIV st \<Longrightarrow> asActive st \<Longrightarrow> as_inv_on UNIV st' \<and> asActive st'"
  shows "as_inv st'"
  using assms(1)
proof (cases rule: as_inv_cases)
  case 1
  with assms(1,2) show ?thesis by simp
next
  case 2
  with assms(3) show ?thesis by (simp add: as_inv_on_active)
qed

lemma as_reach_as_inv: "as_reach F strtod st \<Longrightarrow> as_inv st"
proof (induction rule: as_reach.induct)
  case reach_start
  show ?case by (simp add: as_inv_def as_initial_def)
next
  case (reach_load st "is" derivable st' s)
  then show ?case using initialize_inv by blast
next
  case (reach_member st m name st' s)
  show ?case
    by (rule step_inv [OF reach_member.IH])
       (use reach_member addMember_fresh_inv [of st m name st' s] in \<open>auto simp: inactive_steps\<close>)
next
  case (reach_unmember st m st' s)
  show ?case
    by (rule step_inv [OF reach_unmember.IH])
       (use reach_unmember removeMember_inv [of st m st' s] in \<open>auto simp: inactive_steps\<close>)
next
  case (reach_regroup st m name st' s)
  show ?case
    by (rule step_inv [OF reach_regroup.IH])
       (use reach_regroup changeGroup_inv [of st m name st' s] in \<open>auto simp: inactive_steps\<close>)
next
  case (reach_client st pc m asl user host st' s)
  show ?case
    by (rule step_inv [OF reach_client.IH])
       (use reach_client addClient_inv [of st pc m asl user host st' s] in \<open>auto simp: inactive_steps\<close>)
next
  case (reach_rename st c asl user host st' s)
  show ?case
    by (rule step_inv [OF reach_rename.IH])
       (use reach_rename changeClient_inv [of st c asl user host st' s] in \<open>auto simp: inactive_steps\<close>)
next
  case (reach_unclient st c st' s)
  show ?case
    by (rule step_inv [OF reach_unclient.IH])
       (use reach_unclient removeClient_inv [of st c st' s] in \<open>auto simp: inactive_steps\<close>)
next
  case (reach_callback st c f st' s)
  show ?case
    by (rule step_inv [OF reach_callback.IH])
       (use reach_callback registerCallback_inv [of st c f st' s] in \<open>auto simp: inactive_steps\<close>)
next
  case (reach_memberPvt st m p)
  show ?case
    by (rule step_inv [OF reach_memberPvt.IH]) (use putPvt_inv(1,2) in \<open>auto simp: inactive_steps\<close>)
next
  case (reach_clientPvt st c p)
  show ?case
    by (rule step_inv [OF reach_clientPvt.IH]) (use putPvt_inv(3,4) in \<open>auto simp: inactive_steps\<close>)
next
  case (reach_compute st c st' s)
  show ?case
    by (rule step_inv [OF reach_compute.IH])
       (use reach_compute compute_inv [of st c st' s] in \<open>auto simp: inactive_steps\<close>)
next
  case (reach_group st junk sd n st' sd' s)
  show ?case
    by (rule step_inv [OF reach_group.IH])
       (use reach_group asComputeAsg_inv [of st F junk sd n st' sd' s] in \<open>auto simp: inactive_steps\<close>)
next
  case (reach_groups st junk sd st' sd' s)
  show ?case
    by (rule step_inv [OF reach_groups.IH])
       (use reach_groups asComputeAllAsg_inv [of st F junk sd st' sd' s] in
         \<open>auto simp: inactive_steps as_inv_on_def same_shape_def\<close>)
next
  case (reach_input st junk c sd st' sd')
  show ?case
    by (rule step_inv [OF reach_input.IH])
       (use reach_input ca_call_inv [of st F junk c sd st' sd'] in auto)
next
  case (reach_connect st junk cbs sd st' sd')
  show ?case
    by (rule step_inv [OF reach_connect.IH])
       (use reach_connect asCaTask_add_inv [of st F junk cbs sd st' sd'] in auto)
qed

section \<open>What the configuration says\<close>

text \<open>
  The meaning of a rule in terms of the groups of the configuration, without the hash table.
\<close>

definition rule_admits :: "ASBASE \<Rightarrow> ASG \<Rightarrow> ASGCLIENT \<Rightarrow> ASGRULE \<Rightarrow> bool" where
  "rule_admits b g cl r \<longleftrightarrow>
     cl_level cl \<le> rule_level r \<and>
     (rule_uags r = [] \<or>
       (\<exists>u \<in> set (uagList b). uag_addr u \<in> set (rule_uags r) \<and> cl_user cl \<in> set (uag_users u))) \<and>
     (rule_hags r = [] \<or>
       (\<exists>h \<in> set (hagList b). hag_addr h \<in> set (rule_hags r) \<and> cl_host cl \<in> set (hag_hosts h))) \<and>
     calc_grants g r"

lemma in_groups_iff:
  assumes "loaded_ok b" "char_nul \<notin> set name"
  shows "in_groups (as_phash b) name ps \<longleftrightarrow> ps = [] \<or> (\<exists>p \<in> set ps. (name, p) \<in> set (base_names b))"
proof -
  have "gphFind (as_phash b) name p \<noteq> None \<longleftrightarrow> (name, p) \<in> set (base_names b)" for p
    using assms hash_find [OF names_ok_base] by (simp add: loaded_ok_def)
  then show ?thesis by (auto simp: in_groups_def list_ex_iff)
qed

lemma rule_matches_admits:
  assumes "loaded_ok b" "g \<in> set (asgList b)" "r \<in> set (asg_rules g)"
    and "char_nul \<notin> set (cl_user cl)" "char_nul \<notin> set (cl_host cl)"
  shows "rule_matches (as_phash b) g cl r \<longleftrightarrow> rule_admits b g cl r"
proof -
  have r: "set (rule_uags r) \<subseteq> uag_addrs b" "set (rule_hags r) \<subseteq> hag_addrs b"
      and d: "uag_addrs b \<inter> hag_addrs b = {}"
    using assms(1-3) by (auto simp: loaded_ok_def rule_refs_def)
  have "in_groups (as_phash b) (cl_user cl) (rule_uags r) \<longleftrightarrow> rule_uags r = [] \<or>
      (\<exists>u \<in> set (uagList b). uag_addr u \<in> set (rule_uags r) \<and> cl_user cl \<in> set (uag_users u))"
    unfolding in_groups_iff [OF assms(1,4)] base_names_iff using r(1) d by (fastforce simp: hag_addrs_def)
  moreover have "in_groups (as_phash b) (cl_host cl) (rule_hags r) \<longleftrightarrow> rule_hags r = [] \<or>
      (\<exists>h \<in> set (hagList b). hag_addr h \<in> set (rule_hags r) \<and> cl_host cl \<in> set (hag_hosts h))"
    unfolding in_groups_iff [OF assms(1,5)] base_names_iff using r(2) d by (fastforce simp: uag_addrs_def)
  ultimately show ?thesis by (simp add: rule_matches_def rule_admits_def)
qed

lemma client_rights:
  assumes "as_inv st" "as_clients st c = Some cl"
    and "char_nul \<notin> set (cl_user cl)" "char_nul \<notin> set (cl_host cl)"
  obtains b mem g where "pasbase st = Some b" "asActive st" "as_members st (cl_member cl) = Some mem"
    "find_asg b (home_group b (mem_asgName mem)) = Some g"
    "cl_access cl = best_access (rule_admits b g cl) (asg_rules g) asNOACCESS"
    "cl_trapMask cl = best_trap (rule_admits b g cl) (asg_rules g) asNOACCESS 0"
proof -
  have inv: "as_inv_on UNIV st" "asActive st" using assms(1,2) by (auto elim: as_inv_cases)
  then obtain b where b: "pasbase st = Some b" "loaded_ok b" "homed st b UNIV" "clients_ok st"
    by (auto simp: as_inv_on_def as_links_def)
  obtain mem where mem: "as_members st (cl_member cl) = Some mem" using clients_okD(3) [OF b(4) assms(2)] by blast
  then have home: "mem_pasg mem = Some (home_group b (mem_asgName mem))" using b(3) by (simp add: homed_def)
  obtain g where g: "find_asg b (home_group b (mem_asgName mem)) = Some g" using home_group_found [OF b(2)] by blast
  let ?m = "rule_matches (as_phash b) g cl" and ?a = "rule_admits b g cl"
  have "coherent st cl" using inv_coh [OF inv(1), of UNIV] assms(2) by (simp add: as_coh_def)
  then have acc: "cl_access cl = best_access ?m (asg_rules g) asNOACCESS"
      "cl_trapMask cl = best_trap ?m (asg_rules g) asNOACCESS 0"
    using b(1) mem home g by (simp_all add: coherent_def as_rights_def compute_rules_best)
  have iff: "?m r = ?a r" if "r \<in> set (asg_rules g)" for r
    using rule_matches_admits [OF b(2) _ that assms(3,4)] find_asg_Some [OF g] by blast
  have access: "best_access ?m (asg_rules g) a = best_access ?a (asg_rules g) a" for a
    using iff by (simp add: best_access_def cong: filter_cong)
  moreover have "find (\<lambda>r. ?m r \<and> rule_access r = x) (asg_rules g) = find (\<lambda>r. ?a r \<and> rule_access r = x) (asg_rules g)" for x
    by (rule find_cong) (use iff in auto)
  then have "best_trap ?m (asg_rules g) a t = best_trap ?a (asg_rules g) a t" for a t
    by (simp add: best_trap_def access Let_def)
  ultimately show thesis using that [OF b(1) inv(2) mem g] acc by simp
qed

lemma best_access_atleast:
  assumes "asNOACCESS < a"
  shows "a \<le> best_access P rs asNOACCESS \<longleftrightarrow> (\<exists>r \<in> set rs. P r \<and> a \<le> rule_access r)"
proof -
  have "finite (insert asNOACCESS (rule_access ` {r \<in> set rs. P r}))" by simp
  then show ?thesis
    unfolding best_access_Max using assms by (subst Max_ge_iff) auto
qed

lemma find_best:
  assumes "best_access P rs asNOACCESS \<noteq> asNOACCESS"
  shows "\<exists>r. find (\<lambda>r. P r \<and> rule_access r = best_access P rs asNOACCESS) rs = Some r"
proof -
  have "best_access P rs asNOACCESS \<in> insert asNOACCESS (rule_access ` {r \<in> set rs. P r})"
    unfolding best_access_Max by (rule Max_in) auto
  with assms obtain r where "r \<in> set rs" "P r" "rule_access r = best_access P rs asNOACCESS" by auto
  then have "find (\<lambda>r. P r \<and> rule_access r = best_access P rs asNOACCESS) rs \<noteq> None"
    by (auto simp: find_None_iff)
  then show ?thesis by blast
qed

section \<open>Properties\<close>

text \<open>
  C24: In every state access security can be in, the checks that guard a read and a write answer
  for a client exactly what the configuration says: the group is the one the member names, or
  \<^verbatim>\<open>DEFAULT\<close> when there is no such group; a read is granted when some rule of the group admits the
  client with at least \<^verbatim>\<open>READ\<close>, a write when some rule admits it with \<^verbatim>\<open>WRITE\<close>. A rule admits a client by
  its level, the users of its user groups, the hosts of its host groups and its \<^verbatim>\<open>CALC\<close>. A granted
  access carries the trap mask of the first rule that grants it.
\<close>

theorem access_decision:
  assumes "as_reach F strtod st" "as_clients st c = Some cl"
    and "char_nul \<notin> set (cl_user cl)" "char_nul \<notin> set (cl_host cl)"
  shows "\<exists>b mem g. pasbase st = Some b \<and> as_members st (cl_member cl) = Some mem \<and>
    find_asg b (if find_asg b (mem_asgName mem) = None then DEFAULT else mem_asgName mem) = Some g \<and>
    (asCheckGet st cl \<longleftrightarrow> (\<exists>r \<in> set (asg_rules g). rule_admits b g cl r \<and> asREAD \<le> rule_access r)) \<and>
    (asCheckPut st cl \<longleftrightarrow> (\<exists>r \<in> set (asg_rules g). rule_admits b g cl r \<and> rule_access r = asWRITE)) \<and>
    (asCheckGet st cl \<longrightarrow> (\<exists>r. find (\<lambda>r. rule_admits b g cl r \<and> rule_access r = cl_access cl) (asg_rules g) = Some r \<and>
       cl_trapMask cl = rule_trapMask r))"
proof -
  obtain b mem g where b: "pasbase st = Some b" "asActive st" "as_members st (cl_member cl) = Some mem"
      "find_asg b (home_group b (mem_asgName mem)) = Some g"
    and acc: "cl_access cl = best_access (rule_admits b g cl) (asg_rules g) asNOACCESS"
    and trap: "cl_trapMask cl = best_trap (rule_admits b g cl) (asg_rules g) asNOACCESS 0"
    using client_rights [OF as_reach_as_inv [OF assms(1)] assms(2-4)] .
  have "asREAD \<le> cl_access cl \<longleftrightarrow> (\<exists>r \<in> set (asg_rules g). rule_admits b g cl r \<and> asREAD \<le> rule_access r)"
    unfolding acc by (rule best_access_atleast) (simp add: access_order)
  moreover have "asWRITE \<le> cl_access cl \<longleftrightarrow> (\<exists>r \<in> set (asg_rules g). rule_admits b g cl r \<and> asWRITE \<le> rule_access r)"
    unfolding acc by (rule best_access_atleast) (simp add: access_order)
  moreover have "asWRITE \<le> a \<longleftrightarrow> a = asWRITE" for a by (cases a) (simp_all add: access_order)
  moreover have "\<exists>r. find (\<lambda>r. rule_admits b g cl r \<and> rule_access r = cl_access cl) (asg_rules g) = Some r \<and>
      cl_trapMask cl = rule_trapMask r" if "asREAD \<le> cl_access cl"
  proof -
    have "best_access (rule_admits b g cl) (asg_rules g) asNOACCESS \<noteq> asNOACCESS"
      using that acc by (auto simp: access_order)
    from this find_best [OF this] show ?thesis by (auto simp: acc trap best_trap_def)
  qed
  ultimately show ?thesis
    using b by (auto simp: asCheckGet_def asCheckPut_def home_group_def)
qed

text \<open>An example: users of \<^verbatim>\<open>ops\<close> may write, others read, and a rule whose expression has no inputs.\<close>

definition sample_as_fp :: as_fp where
  "sample_as_fp = \<lparr>as_ops = sample_fp, dbl_99 = 0, dbl_101 = 2\<rparr>"

definition sample_items :: "as_item list" where
  "sample_items =
     [DUag 1 ''ops'' [''ann''],
      DAsg ''SEC'' [ARule 1 ''READ'' None [], ARule 1 ''WRITE'' (Some ''TRAPWRITE'') [RUag [''ops'']],
                    ARule 1 ''WRITE'' None [RCalc ''1'']]]"

definition sample_loaded :: as_state where
  "sample_loaded = fst (the (asInitialize sample_fp sample_strtod as_initial sample_items True))"

definition sample_member :: as_state where
  "sample_member = fst (asAddMember sample_loaded 5 ''SEC'')"

definition sample_state :: as_state where
  "sample_state = fst (asAddClient sample_member (Some 7) 5 1 ''ann'' ''Host'')"

lemma sample_member_reach: "as_reach sample_as_fp sample_strtod sample_member"
proof -
  have ok: "items_ok sample_items"
    unfolding items_ok_def by (rule exI [of _ "{1}"], rule exI [of _ "{}"])
      (simp add: sample_items_def item_ok_def char_nul_def)
  have "asInitialize sample_fp sample_strtod as_initial sample_items True \<noteq> None" by code_simp
  then obtain s where "asInitialize sample_fp sample_strtod as_initial sample_items True = Some (sample_loaded, s)"
    by (cases "the (asInitialize sample_fp sample_strtod as_initial sample_items True)") (auto simp: sample_loaded_def)
  then have 1: "as_reach sample_as_fp sample_strtod sample_loaded"
    using reach_load [OF reach_start ok] by (simp add: sample_as_fp_def)
  have "as_members sample_loaded 5 = None" by code_simp
  then show ?thesis
    unfolding sample_member_def using reach_member [OF 1, of 5 "''SEC''"] by (metis prod.collapse)
qed

lemma sample_member_fields:
  "asActive sample_member" "as_clients sample_member 7 = None"
  "map_option mem_asgName (as_members sample_member 5) = Some ''SEC''"
  by code_simp+

lemma sample_reach: "as_reach sample_as_fp sample_strtod sample_state"
  unfolding sample_state_def
  using reach_client [OF sample_member_reach, of "Some 7" 5 1 "''ann''" "''Host''"] sample_member_fields(2)
  by (metis option.inject prod.collapse)

definition sample_client :: ASGCLIENT where
  "sample_client = the (as_clients sample_state 7)"

lemma addClient_fields:
  assumes "asActive st" "as_members st m = Some mem"
  shows "map_option (\<lambda>cl. (cl_member cl, cl_user cl, cl_host cl, cl_level cl))
      (as_clients (fst (asAddClient st (Some c) m asl user host)) c) = Some (m, user, map c_tolower host, asl)"
    and "pasbase (fst (asAddClient st (Some c) m asl user host)) = pasbase st"
    and "map_option mem_asgName (as_members (fst (asAddClient st (Some c) m asl user host)) m) = Some (mem_asgName mem)"
  using assms
  by (auto simp: asAddClient_def asComputePvt_def Let_def split: option.split prod.split)

lemma sample_client_fields:
  "as_clients sample_state 7 = Some sample_client" "cl_member sample_client = 5" "cl_user sample_client = ''ann''"
  "cl_host sample_client = ''host''" "cl_level sample_client = 1" "pasbase sample_state = pasbase sample_member"
  "map_option mem_asgName (as_members sample_state 5) = Some ''SEC''"
proof -
  obtain mem where mem: "as_members sample_member 5 = Some mem" "mem_asgName mem = ''SEC''"
    using sample_member_fields(3) by auto
  have low: "map c_tolower ''Host'' = ''host''" by code_simp
  note f = addClient_fields [OF sample_member_fields(1) mem(1), where c = 7 and asl = 1 and user = "''ann''"
      and host = "''Host''", folded sample_state_def]
  show "as_clients sample_state 7 = Some sample_client" "cl_member sample_client = 5" "cl_user sample_client = ''ann''"
      "cl_host sample_client = ''host''" "cl_level sample_client = 1" "pasbase sample_state = pasbase sample_member"
      "map_option mem_asgName (as_members sample_state 5) = Some ''SEC''"
    using f mem(2) low by (auto simp: sample_client_def)
qed

definition sample_base :: ASBASE where
  "sample_base = the (pasbase sample_member)"

definition sample_asg :: ASG where
  "sample_asg = asgList sample_base ! 1"

lemma sample_base_state: "pasbase sample_state = Some sample_base"
proof -
  have "pasbase sample_member \<noteq> None" by code_simp
  then show ?thesis by (simp add: sample_client_fields(6) sample_base_def)
qed

lemma sample_config:
  "find_asg sample_base ''SEC'' = Some sample_asg" "length (asg_rules sample_asg) = 3"
  "uagList sample_base = [\<lparr>uag_addr = 1, uag_name = ''ops'', uag_users = [''ann'']\<rparr>]"
  "asg_rules sample_asg ! 1 =
     \<lparr>rule_access = asWRITE, rule_level = 1, rule_inpUsed = 0, rule_result = 0, rule_calc = None, rule_rpcl = [],
      rule_uags = [1], rule_hags = [], rule_trapMask = 1\<rparr>"
  "rule_calc (asg_rules sample_asg ! 2) = Some ''1''" "rule_inpUsed (asg_rules sample_asg ! 2) = 0"
  by code_simp+

theorem access_decision_witness:
  "asCheckPut sample_state sample_client"
proof -
  have nul: "char_nul \<notin> set (cl_user sample_client)" "char_nul \<notin> set (cl_host sample_client)"
    by (simp_all add: sample_client_fields char_nul_def)
  obtain mem where mem: "as_members sample_state 5 = Some mem" "mem_asgName mem = ''SEC''"
    using sample_client_fields(7) by auto
  have "asCheckPut sample_state sample_client \<longleftrightarrow>
      (\<exists>r \<in> set (asg_rules sample_asg). rule_admits sample_base sample_asg sample_client r \<and> rule_access r = asWRITE)"
    using access_decision [OF sample_reach sample_client_fields(1) nul] sample_base_state mem sample_config(1)
    by (auto simp: sample_client_fields(2))
  moreover have "asg_rules sample_asg ! 1 \<in> set (asg_rules sample_asg)" by (rule nth_mem) (simp add: sample_config(2))
  moreover have "rule_admits sample_base sample_asg sample_client (asg_rules sample_asg ! 1)"
    unfolding sample_config(4) by (simp add: rule_admits_def sample_config(3) sample_client_fields calc_grants_def)
  ultimately show ?thesis by (metis ASGRULE.select_convs(1) sample_config(4))
qed

text \<open>
  C25: Whatever is loaded, added, changed and removed, and whatever the inputs do, access security
  stays consistent: every member is in exactly the list of the group it belongs to, every client in
  the list of its member, the rules refer to groups of the configuration in force, and the rights
  stored in every client are those that computing them again would give.
\<close>

theorem as_consistent: "as_reach F strtod st \<Longrightarrow> as_inv st"
  by (rule as_reach_as_inv)

theorem as_consistent_witness: "as_reach sample_as_fp sample_strtod sample_state \<and> as_inv sample_state"
  using sample_reach as_consistent [OF sample_reach] by simp

text \<open>
  C26: A rule with a \<^verbatim>\<open>CALC\<close> in whose expression no input occurs never admits anybody, in any state:
  its expression is only evaluated when an input it uses has changed, and its result starts as 0.
  \<^verbatim>\<open>CALC("1")\<close> does not grant.
\<close>

theorem constant_calc_never_admits:
  assumes "as_reach F strtod st" "pasbase st = Some b" "g \<in> set (asgList b)" "r \<in> set (asg_rules g)"
    and "rule_calc r \<noteq> None" "rule_inpUsed r = 0"
  shows "\<not> rule_admits b g cl r"
proof -
  have "loaded_ok b"
    using as_reach_as_inv [OF assms(1)] assms(2) by (auto simp: as_inv_def as_inv_on_def as_links_def)
  then have "rule_result r = 0" using assms(3,4,6) by (auto simp: loaded_ok_def rule_refs_def)
  with assms(5) show ?thesis by (simp add: rule_admits_def calc_grants_def)
qed

theorem constant_calc_never_admits_witness:
  "rule_calc (asg_rules sample_asg ! 2) = Some ''1'' \<and>
   \<not> rule_admits sample_base sample_asg sample_client (asg_rules sample_asg ! 2)"
proof -
  have "sample_asg \<in> set (asgList sample_base)" using find_asg_Some [OF sample_config(1)] by simp
  moreover have "asg_rules sample_asg ! 2 \<in> set (asg_rules sample_asg)" by (rule nth_mem) (simp add: sample_config(2))
  ultimately show ?thesis
    using constant_calc_never_admits [OF sample_reach sample_base_state] sample_config(5,6) by simp
qed

end
