(* ===== verification/DbLock.thy ===== *)
theory DbLock
  imports Epics_Prelude
begin

text \<open>
  Lock sets, \<^verbatim>\<open>modules/database/src/ioc/db/dbLock.c\<close>: the records that database links connect share one
  lock. Records and lock sets are addresses. A \<^verbatim>\<open>lockRecord\<close> is identified by its record; the links of a
  record and the links that point to it are those of \<^verbatim>\<open>dbDbLink.c\<close>. The operations are as one
  thread runs them while it holds the locks it needs. A failed assertion, \<^verbatim>\<open>cantProceed\<close> and the use
  of a null pointer are \<open>None\<close>, and so is a loop that does not end.
\<close>

section \<open>Data\<close>

record lockSet =
  lockRecordList :: "addr list"
  refcount :: int
  ownerlocker :: "addr option"

record lock_state =
  plockSet :: "addr \<Rightarrow> addr option"       \<comment> \<open>\<^verbatim>\<open>prec->lset->plockSet\<close>; without \<^verbatim>\<open>lset\<close> there is none\<close>
  compflag :: "addr \<Rightarrow> nat"
  lock_sets :: "addr \<Rightarrow> lockSet"
  lockSetsActive :: "addr list"
  lockSetsFree :: "addr list"
  set_brk :: addr                         \<comment> \<open>lock sets at this address and above are not allocated\<close>
  recomputeCnt :: "64 word"
  db_links :: "addr \<Rightarrow> addr option list"   \<comment> \<open>per link field, the record a \<^verbatim>\<open>DB_LINK\<close> points to\<close>
  bklnk :: "addr \<Rightarrow> (addr \<times> nat) list"    \<comment> \<open>the links that point here: record and field\<close>

record dbLocker =
  locker_addr :: addr
  locked :: "addr list"
  recomp :: "64 word"
  lk_refs :: "(addr option \<times> addr option) list"   \<comment> \<open>\<^verbatim>\<open>plr\<close> and \<^verbatim>\<open>plockSet\<close>\<close>

definition upd_set :: "addr \<Rightarrow> (lockSet \<Rightarrow> lockSet) \<Rightarrow> lock_state \<Rightarrow> lock_state" where
  "upd_set s f st = st\<lparr>lock_sets := (lock_sets st)(s := f (lock_sets st s))\<rparr>"

definition add_ref :: "addr \<Rightarrow> int \<Rightarrow> lock_state \<Rightarrow> lock_state" where
  "add_ref s n = upd_set s (\<lambda>l. l\<lparr>refcount := refcount l + n\<rparr>)"

section \<open>References\<close>

definition makeSet :: "lock_state \<Rightarrow> (addr \<times> lock_state) option" where
  "makeSet st =
     (let (s, st1) =
            (case lockSetsFree st of
               s # ss \<Rightarrow> (s, st\<lparr>lockSetsFree := ss\<rparr>)
             | [] \<Rightarrow> (set_brk st,
                    upd_set (set_brk st) (\<lambda>_. \<lparr>lockRecordList = [], refcount = 0, ownerlocker = None\<rparr>)
                      (st\<lparr>set_brk := set_brk st + 1\<rparr>)));
          st2 = (add_ref s 1 st1)\<lparr>lockSetsActive := lockSetsActive st1 @ [s]\<rparr>
      in if refcount (lock_sets st2 s) > 0 \<and> lockRecordList (lock_sets st2 s) = []
         then Some (s, st2) else None)"

definition dbLockIncRef :: "addr \<Rightarrow> lock_state \<Rightarrow> lock_state option" where
  "dbLockIncRef s st =
     (if refcount (lock_sets st s) + 1 \<le> 1 then None else Some (add_ref s 1 st))"

definition dbLockDecRef :: "addr \<Rightarrow> lock_state \<Rightarrow> lock_state option" where
  "dbLockDecRef s st =
     (let cnt = refcount (lock_sets st s) - 1;
          st1 = add_ref s (- 1) st
      in if cnt < 0 then None
         else if cnt \<noteq> 0 then Some st1
         else if lockRecordList (lock_sets st1 s) \<noteq> [] then None
         else Some (st1\<lparr>lockSetsActive := remove1 s (lockSetsActive st1),
                       lockSetsFree := lockSetsFree st1 @ [s]\<rparr>))"

definition createLockRecord :: "addr \<Rightarrow> lock_state \<Rightarrow> lock_state option" where
  "createLockRecord r st =
     (if plockSet st r \<noteq> None then None
      else do {
        (s, st1) \<leftarrow> makeSet st;
        Some (upd_set s (\<lambda>l. l\<lparr>lockRecordList := lockRecordList l @ [r]\<rparr>)
                (st1\<lparr>plockSet := (plockSet st1)(r \<mapsto> s)\<rparr>))
      })"

definition freeLockRecord :: "addr \<Rightarrow> lock_state \<Rightarrow> lock_state option" where
  "freeLockRecord r st =
     (case plockSet st r of
        None \<Rightarrow> None
      | Some s \<Rightarrow>
          if refcount (lock_sets st s) \<le> 0 \<or> lockRecordList (lock_sets st s) = [] then None
          else dbLockDecRef s
                 (upd_set s (\<lambda>l. l\<lparr>lockRecordList := remove1 r (lockRecordList l)\<rparr>)
                   (st\<lparr>plockSet := (plockSet st)(r := None)\<rparr>)))"

fun free_records :: "addr list \<Rightarrow> lock_state \<Rightarrow> lock_state option" where
  "free_records [] st = Some st"
| "free_records (r # rs) st = Option.bind (freeLockRecord r st) (free_records rs)"

text \<open>\<^verbatim>\<open>dbLockCleanupRecords\<close> for the records of the database: whether it warns of a leak, and the state.\<close>

definition dbLockCleanupRecords :: "addr list \<Rightarrow> lock_state \<Rightarrow> (bool \<times> lock_state) option" where
  "dbLockCleanupRecords rs st =
     do {
       st1 \<leftarrow> free_records rs st;
       if list_all (\<lambda>s. refcount (lock_sets st1 s) = 0 \<and> lockRecordList (lock_sets st1 s) = []) (lockSetsFree st1)
       then Some (lockSetsActive st1 \<noteq> [], st1\<lparr>lockSetsFree := []\<rparr>) else None
     }"

section \<open>Locking several records\<close>

text \<open>\<^verbatim>\<open>qsort\<close> with \<^verbatim>\<open>lrrcompare\<close>: by the address of the lock set, NULL last.\<close>

definition sort_refs :: "(addr option \<times> addr option) list \<Rightarrow> (addr option \<times> addr option) list" where
  "sort_refs rs =
     sort_key (\<lambda>r. the (snd r)) (filter (\<lambda>r. snd r \<noteq> None) rs) @ filter (\<lambda>r. snd r = None) rs"

text \<open>The loop of \<^verbatim>\<open>dbLockUpdateRefs\<close>: the references, whether one was changed.\<close>

fun update_refs ::
  "bool \<Rightarrow> (addr option \<times> addr option) list \<Rightarrow> lock_state \<Rightarrow>
   ((addr option \<times> addr option) list \<times> bool \<times> lock_state) option" where
  "update_refs update [] st = Some ([], False, st)"
| "update_refs update ((plr, old) # rs) st =
     (case plr of
        None \<Rightarrow>
          if old \<noteq> None then None
          else do { (rs', c, st') \<leftarrow> update_refs update rs st; Some ((None, old) # rs', c, st') }
      | Some r \<Rightarrow>
          if old = plockSet st r
          then do { (rs', c, st') \<leftarrow> update_refs update rs st; Some ((plr, old) # rs', c, st') }
          else if \<not> update then Some ((plr, old) # rs, True, st)
          else case plockSet st r of
            None \<Rightarrow> None
          | Some s \<Rightarrow> do {
              st1 \<leftarrow> dbLockIncRef s st;
              st2 \<leftarrow> (case old of None \<Rightarrow> Some st1 | Some t \<Rightarrow> dbLockDecRef t st1);
              (rs', c, st') \<leftarrow> update_refs update rs st2;
              Some ((plr, Some s) # rs', True, st')
            })"

definition dbLockUpdateRefs :: "dbLocker \<Rightarrow> bool \<Rightarrow> lock_state \<Rightarrow> (dbLocker \<times> bool \<times> lock_state) option" where
  "dbLockUpdateRefs lk update st =
     (if recomp lk \<noteq> recomputeCnt st
      then do {
        (rs, changed, st') \<leftarrow> update_refs update (lk_refs lk) st;
        Some (lk\<lparr>lk_refs := (if changed \<and> update then sort_refs rs else rs),
                recomp := (if update then recomputeCnt st else recomp lk)\<rparr>, changed, st')
      }
      else Some (lk, False, st))"

definition dbLockerPrepare :: "addr \<Rightarrow> addr option list \<Rightarrow> lock_state \<Rightarrow> (dbLocker \<times> lock_state) option" where
  "dbLockerPrepare a precs st =
     do {
       (lk, _, st') \<leftarrow> dbLockUpdateRefs
          \<lparr>locker_addr = a, locked = [], recomp = recomputeCnt st - 1,
           lk_refs = map (\<lambda>p. (case p of None \<Rightarrow> None
                               | Some r \<Rightarrow> if plockSet st r = None then None else Some r, None)) precs\<rparr> True st;
       Some (lk, st')
     }"

fun release_refs :: "(addr option \<times> addr option) list \<Rightarrow> lock_state \<Rightarrow> lock_state option" where
  "release_refs [] st = Some st"
| "release_refs ((_, None) # rs) st = release_refs rs st"
| "release_refs ((_, Some s) # rs) st = Option.bind (dbLockDecRef s st) (release_refs rs)"

definition dbLockerFinalize :: "dbLocker \<Rightarrow> lock_state \<Rightarrow> lock_state option" where
  "dbLockerFinalize lk st = (if locked lk \<noteq> [] then None else release_refs (lk_refs lk) st)"

definition set_owner :: "addr \<Rightarrow> addr option \<Rightarrow> lock_state \<Rightarrow> lock_state" where
  "set_owner s ow = upd_set s (\<lambda>l. l\<lparr>ownerlocker := ow\<rparr>)"

text \<open>The loop of \<^verbatim>\<open>dbScanLockMany\<close> over the sorted references.\<close>

fun lock_refs ::
  "addr option \<Rightarrow> (addr option \<times> addr option) list \<Rightarrow> dbLocker \<Rightarrow> lock_state \<Rightarrow> (dbLocker \<times> lock_state) option" where
  "lock_refs plock [] lk st = Some (lk, st)"
| "lock_refs plock ((plr, ls) # rs) lk st =
     (if plr = None \<or> (plock \<noteq> None \<and> plock = ls) then lock_refs plock rs lk st
      else case ls of
        None \<Rightarrow> None
      | Some s \<Rightarrow>
          if ownerlocker (lock_sets st s) \<noteq> None then None
          else do {
            st1 \<leftarrow> dbLockIncRef s (set_owner s (Some (locker_addr lk)) st);
            lock_refs ls rs (lk\<lparr>locked := locked lk @ [s]\<rparr>) st1
          })"

fun unlock_list :: "addr \<Rightarrow> addr list \<Rightarrow> lock_state \<Rightarrow> lock_state option" where
  "unlock_list a [] st = Some st"
| "unlock_list a (s # ss) st =
     (if ownerlocker (lock_sets st s) \<noteq> Some a then None
      else Option.bind (dbLockDecRef s (set_owner s None st)) (unlock_list a ss))"

definition dbScanUnlockMany :: "dbLocker \<Rightarrow> lock_state \<Rightarrow> (dbLocker \<times> lock_state) option" where
  "dbScanUnlockMany lk st =
     map_option (\<lambda>st'. (lk\<lparr>locked := []\<rparr>, st')) (unlock_list (locker_addr lk) (locked lk) st)"

partial_function (option) lock_retry :: "dbLocker \<Rightarrow> lock_state \<Rightarrow> (dbLocker \<times> lock_state) option" where
  "lock_retry lk st =
     (if locked lk \<noteq> [] then None
      else do {
        (lk1, _, st1) \<leftarrow> dbLockUpdateRefs lk True st;
        (lk2, st2) \<leftarrow> lock_refs None (lk_refs lk1) lk1 st1;
        (lk3, changed, st3) \<leftarrow> dbLockUpdateRefs lk2 False st2;
        if changed then do {
          (lk4, st4) \<leftarrow> dbScanUnlockMany lk3 st3;
          lock_retry lk4 st4
        }
        else if lk_refs lk3 \<noteq> [] \<and> locked lk3 = [] then None
        else Some (lk3, st3)
      })"

definition dbScanLockMany :: "dbLocker \<Rightarrow> lock_state \<Rightarrow> (dbLocker \<times> lock_state) option" where
  "dbScanLockMany lk st = (if locked lk \<noteq> [] then None else lock_retry lk st)"

section \<open>Merging\<close>

definition owns :: "dbLocker option \<Rightarrow> addr \<Rightarrow> lock_state \<Rightarrow> bool" where
  "owns lk s st = (case lk of None \<Rightarrow> True | Some l \<Rightarrow> ownerlocker (lock_sets st s) = Some (locker_addr l))"

text \<open>A record goes from the list of one set to the end of the list of another.\<close>

definition move_record :: "addr \<Rightarrow> addr \<Rightarrow> addr \<Rightarrow> lock_state \<Rightarrow> lock_state option" where
  "move_record r from to st =
     (if plockSet st r \<noteq> Some from then None
      else Some ((upd_set to (\<lambda>l. l\<lparr>lockRecordList := lockRecordList l @ [r]\<rparr>)
                   (upd_set from (\<lambda>l. l\<lparr>lockRecordList := remove1 r (lockRecordList l)\<rparr>) st))
                 \<lparr>plockSet := (plockSet st)(r \<mapsto> to), recomputeCnt := recomputeCnt st + 1\<rparr>))"

fun move_records :: "addr list \<Rightarrow> addr \<Rightarrow> addr \<Rightarrow> lock_state \<Rightarrow> lock_state option" where
  "move_records [] from to st = Some st"
| "move_records (r # rs) from to st = Option.bind (move_record r from to st) (move_records rs from to)"

definition dbLockSetMerge ::
  "dbLocker option \<Rightarrow> addr \<Rightarrow> addr \<Rightarrow> lock_state \<Rightarrow> (dbLocker option \<times> lock_state) option" where
  "dbLockSetMerge lk pfirst psecond st =
     (case (plockSet st pfirst, plockSet st psecond) of
        (Some A, Some B) \<Rightarrow>
          if \<not> owns lk A st \<or> \<not> owns lk B st then None
          else if A = B then Some (lk, st)
          else
            (let rs = lockRecordList (lock_sets st B); Nb = int (length rs)
             in if Nb \<le> 0 then None
                else do {
                  st1 \<leftarrow> move_records rs B A st;
                  if refcount (lock_sets st1 B) < Nb + (if lk = None then 0 else 1) then None
                  else do {
                    (lk', st2) \<leftarrow>
                      (let st2 = add_ref B (1 - Nb) (add_ref A Nb st1)
                       in case lk of
                            None \<Rightarrow> Some (None, st2)
                          | Some l \<Rightarrow>
                              if ownerlocker (lock_sets st2 B) \<noteq> Some (locker_addr l) then None
                              else Some (Some (l\<lparr>locked := remove1 B (locked l)\<rparr>),
                                         add_ref B (- 1) (set_owner B None st2)));
                    st3 \<leftarrow> dbLockDecRef B st2;
                    if plockSet st3 psecond = Some A then Some (lk', st3) else None
                  }
                })
      | _ \<Rightarrow> None)"

section \<open>Splitting\<close>

text \<open>
  The loops over the links of a record: whether \<open>pfirst\<close> was met, and the records that were met first
  here, appended to the work list with their flag set.
\<close>

fun visit_links :: "addr \<Rightarrow> addr list \<Rightarrow> lock_state \<Rightarrow> addr list \<Rightarrow> (bool \<times> lock_state \<times> addr list) option" where
  "visit_links pfirst [] st toInspect = Some (False, st, toInspect)"
| "visit_links pfirst (r # rs) st toInspect =
     (if plockSet st r = None then None
      else if r = pfirst then Some (True, st, toInspect)
      else if compflag st r \<noteq> 0 then visit_links pfirst rs st toInspect
      else visit_links pfirst rs (st\<lparr>compflag := (compflag st)(r := 1)\<rparr>) (toInspect @ [r]))"

definition link_targets :: "lock_state \<Rightarrow> addr \<Rightarrow> addr list" where
  "link_targets st r = List.map_filter id (db_links st r)"

definition link_sources :: "lock_state \<Rightarrow> addr \<Rightarrow> addr list" where
  "link_sources st r = map fst (bklnk st r)"

partial_function (option) split_search ::
  "addr \<Rightarrow> addr list \<Rightarrow> addr list \<Rightarrow> lock_state \<Rightarrow> (bool \<times> lock_state \<times> addr list \<times> addr list) option" where
  "split_search pfirst toInspect newLS st =
     (case toInspect of
        [] \<Rightarrow> Some (False, st, [], newLS)
      | r # rest \<Rightarrow> do {
          (found, st1, q1) \<leftarrow> visit_links pfirst (link_targets st r)
                                 (st\<lparr>compflag := (compflag st)(r := 2)\<rparr>) rest;
          if found then Some (True, st1, q1, newLS @ [r])
          else do {
            (found, st2, q2) \<leftarrow> visit_links pfirst (link_sources st1 r) st1 q1;
            if found then Some (True, st2, q2, newLS @ [r])
            else split_search pfirst q2 (newLS @ [r]) st2
          }
        })"

definition reset_flags :: "addr list \<Rightarrow> lock_state \<Rightarrow> lock_state" where
  "reset_flags rs st = st\<lparr>compflag := fold (\<lambda>r c. c(r := 0)) rs (compflag st)\<rparr>"

definition dbLockSetSplit ::
  "dbLocker \<Rightarrow> addr \<Rightarrow> addr \<Rightarrow> lock_state \<Rightarrow> (dbLocker \<times> lock_state) option" where
  "dbLockSetSplit lk pfirst psecond st =
     (case plockSet st pfirst of
        None \<Rightarrow> None
      | Some ls \<Rightarrow>
          if plockSet st psecond \<noteq> Some ls then None
          else if pfirst = psecond then Some (lk, st)
          else if refcount (lock_sets st ls) < int (length (lockRecordList (lock_sets st ls))) + 1 then None
          else do {
            (found, st1, toInspect, newLS) \<leftarrow>
              split_search pfirst [psecond] [] (st\<lparr>compflag := (compflag st)(psecond := 1)\<rparr>);
            if found then Some (lk, reset_flags (toInspect @ newLS) st1)
            else if newLS = [] \<or> length newLS \<ge> length (lockRecordList (lock_sets st1 ls)) \<or>
                    int (length newLS) \<ge> refcount (lock_sets st1 ls) then None
            else do {
              (sp, st2) \<leftarrow> makeSet st1;
              if ownerlocker (lock_sets st2 sp) \<noteq> None \<or> refcount (lock_sets st2 sp) \<noteq> 1 then None
              else do {
                st3 \<leftarrow> move_records newLS ls sp
                         (reset_flags newLS (set_owner sp (Some (locker_addr lk)) st2));
                let n = int (length (lockRecordList (lock_sets st3 sp)));
                    st4 = add_ref sp n (add_ref ls (- n) st3)
                in if refcount (lock_sets st4 ls) < 2 \<or> refcount (lock_sets st4 sp) < n + 1 \<or>
                      plockSet st4 psecond \<noteq> Some sp then None
                   else Some (lk\<lparr>locked := locked lk @ [sp]\<rparr>, st4)
              }
            }
          })"

section \<open>Links\<close>

text \<open>\<^verbatim>\<open>dbDbInitLink\<close>, \<^verbatim>\<open>dbDbAddLink\<close> and \<^verbatim>\<open>dbDbRemoveLink\<close> of link field \<open>i\<close> of record \<open>r\<close>.\<close>

definition set_link :: "addr \<Rightarrow> nat \<Rightarrow> addr \<Rightarrow> lock_state \<Rightarrow> lock_state" where
  "set_link r i t st =
     st\<lparr>db_links := (db_links st)(r := (db_links st r)[i := Some t]),
       bklnk := (bklnk st)(t := bklnk st t @ [(r, i)])\<rparr>"

definition dbDbInitLink :: "addr \<Rightarrow> nat \<Rightarrow> addr \<Rightarrow> lock_state \<Rightarrow> lock_state option" where
  "dbDbInitLink r i t st =
     do {
       (_, st') \<leftarrow> dbLockSetMerge None r t (set_link r i t st);
       if plockSet st' r = plockSet st' t then Some st' else None
     }"

definition dbDbAddLink ::
  "dbLocker \<Rightarrow> addr \<Rightarrow> nat \<Rightarrow> addr \<Rightarrow> lock_state \<Rightarrow> (dbLocker \<times> lock_state) option" where
  "dbDbAddLink lk r i t st =
     map_option (\<lambda>(l, st'). (case l of None \<Rightarrow> lk | Some l' \<Rightarrow> l', st')) (dbLockSetMerge (Some lk) r t (set_link r i t st))"

definition dbDbRemoveLink :: "dbLocker \<Rightarrow> addr \<Rightarrow> nat \<Rightarrow> lock_state \<Rightarrow> (dbLocker \<times> lock_state) option" where
  "dbDbRemoveLink lk r i st =
     (case db_links st r ! i of
        None \<Rightarrow> None
      | Some t \<Rightarrow>
          dbLockSetSplit lk r t
            (st\<lparr>db_links := (db_links st)(r := (db_links st r)[i := None]),
               bklnk := (bklnk st)(t := remove1 (r, i) (bklnk st t))\<rparr>))"

text \<open>
  What \<^verbatim>\<open>dbPutFieldLink\<close> does to lock sets and database links when field \<open>i\<close> of record \<open>r\<close> is written: \<open>target\<close> is the
  record of the new link if that is to be a database link. Both records are locked. A put that is \<open>refused\<close>
  because of the link type or of device support changes nothing; otherwise an old database link is
  removed, and the new one added unless setting the link or the special processing of the record \<open>failed\<close>.
\<close>

definition dbPutFieldLink ::
  "addr \<Rightarrow> addr \<Rightarrow> nat \<Rightarrow> addr option \<Rightarrow> bool \<Rightarrow> bool \<Rightarrow> lock_state \<Rightarrow> lock_state option" where
  "dbPutFieldLink a r i target refused failed st =
     do {
       (lk, st) \<leftarrow> dbLockerPrepare a [Some r, target] st;
       (lk, st) \<leftarrow> dbScanLockMany lk st;
       (lk, st) \<leftarrow>
         (if refused then Some (lk, st)
          else do {
            (lk, st) \<leftarrow> (if db_links st r ! i = None then Some (lk, st) else dbDbRemoveLink lk r i st);
            if failed then Some (lk, st)
            else case target of None \<Rightarrow> Some (lk, st) | Some t \<Rightarrow> dbDbAddLink lk r i t st
          });
       (lk, st) \<leftarrow> dbScanUnlockMany lk st;
       dbLockerFinalize lk st
     }"

end
