(* ===== verification/DbLockInv.thy ===== *)
theory DbLockInv
  imports DbLock
begin

text \<open>
  The bookkeeping of lock sets: reference counts, the lists of active and free sets, and what the
  basic operations do to them.
\<close>

declare split_search.simps [code] lock_retry.simps [code]

section \<open>The invariant\<close>

abbreviation members_of :: "lock_state \<Rightarrow> addr \<Rightarrow> addr list" where
  "members_of st s \<equiv> lockRecordList (lock_sets st s)"

text \<open>
  \<open>ext s\<close> is the number of references to \<open>s\<close> that are not those of its records: those held by a locker.
\<close>

definition set_ok :: "lock_state \<Rightarrow> (addr \<Rightarrow> nat) \<Rightarrow> addr \<Rightarrow> bool" where
  "set_ok st ext s \<longleftrightarrow>
     distinct (members_of st s) \<and>
     refcount (lock_sets st s) = int (length (members_of st s) + ext s) \<and>
     0 < length (members_of st s) + ext s \<and>
     (\<forall>r \<in> set (members_of st s). plockSet st r = Some s)"

definition free_ok :: "lock_state \<Rightarrow> addr \<Rightarrow> bool" where
  "free_ok st s \<longleftrightarrow> lock_sets st s = \<lparr>lockRecordList = [], refcount = 0, ownerlocker = None\<rparr>"

definition sets_inv :: "(addr \<Rightarrow> nat) \<Rightarrow> lock_state \<Rightarrow> bool" where
  "sets_inv ext st \<longleftrightarrow>
     distinct (lockSetsActive st @ lockSetsFree st) \<and>
     (\<forall>s \<in> set (lockSetsActive st) \<union> set (lockSetsFree st). s < set_brk st) \<and>
     (\<forall>s \<in> set (lockSetsActive st). set_ok st ext s) \<and>
     (\<forall>s \<in> set (lockSetsFree st). free_ok st s) \<and>
     (\<forall>s. s \<notin> set (lockSetsActive st) \<longrightarrow> ext s = 0) \<and>
     (\<forall>r s. plockSet st r = Some s \<longrightarrow> s \<in> set (lockSetsActive st) \<and> r \<in> set (members_of st s))"

text \<open>The locker at \<open>a\<close> owns exactly the sets in \<open>L\<close>.\<close>

definition owned :: "addr \<Rightarrow> addr set \<Rightarrow> lock_state \<Rightarrow> bool" where
  "owned a L st \<longleftrightarrow>
     L \<subseteq> set (lockSetsActive st) \<and>
     (\<forall>s \<in> set (lockSetsActive st). ownerlocker (lock_sets st s) = (if s \<in> L then Some a else None))"

lemma sets_invD:
  assumes "sets_inv ext st"
  shows "distinct (lockSetsActive st)" "set (lockSetsActive st) \<inter> set (lockSetsFree st) = {}"
    and "s \<in> set (lockSetsActive st) \<Longrightarrow> set_ok st ext s"
    and "0 < ext s \<Longrightarrow> s \<in> set (lockSetsActive st)"
    and "plockSet st r = Some s \<Longrightarrow> s \<in> set (lockSetsActive st) \<and> r \<in> set (members_of st s)"
  using assms by (auto simp: sets_inv_def)

section \<open>References\<close>

lemma upd_set_simps [simp]:
  "lock_sets (upd_set s f st) = (lock_sets st)(s := f (lock_sets st s))"
  "plockSet (upd_set s f st) = plockSet st" "compflag (upd_set s f st) = compflag st"
  "lockSetsActive (upd_set s f st) = lockSetsActive st" "lockSetsFree (upd_set s f st) = lockSetsFree st"
  "set_brk (upd_set s f st) = set_brk st" "recomputeCnt (upd_set s f st) = recomputeCnt st"
  "db_links (upd_set s f st) = db_links st" "bklnk (upd_set s f st) = bklnk st"
  by (simp_all add: upd_set_def)

lemma add_ref_simps [simp]:
  "lock_sets (add_ref s n st) =
     (lock_sets st)(s := (lock_sets st s)\<lparr>refcount := refcount (lock_sets st s) + n\<rparr>)"
  "plockSet (add_ref s n st) = plockSet st" "compflag (add_ref s n st) = compflag st"
  "lockSetsActive (add_ref s n st) = lockSetsActive st" "lockSetsFree (add_ref s n st) = lockSetsFree st"
  "set_brk (add_ref s n st) = set_brk st" "recomputeCnt (add_ref s n st) = recomputeCnt st"
  "db_links (add_ref s n st) = db_links st" "bklnk (add_ref s n st) = bklnk st"
  by (simp_all add: add_ref_def)

lemma set_owner_simps [simp]:
  "lock_sets (set_owner s w st) = (lock_sets st)(s := (lock_sets st s)\<lparr>ownerlocker := w\<rparr>)"
  "plockSet (set_owner s w st) = plockSet st" "compflag (set_owner s w st) = compflag st"
  "lockSetsActive (set_owner s w st) = lockSetsActive st" "lockSetsFree (set_owner s w st) = lockSetsFree st"
  "set_brk (set_owner s w st) = set_brk st" "recomputeCnt (set_owner s w st) = recomputeCnt st"
  "db_links (set_owner s w st) = db_links st" "bklnk (set_owner s w st) = bklnk st"
  by (simp_all add: set_owner_def)

text \<open>What only the graph and the assignment of records depend on.\<close>

definition same_graph :: "lock_state \<Rightarrow> lock_state \<Rightarrow> bool" where
  "same_graph st st' \<longleftrightarrow>
     plockSet st' = plockSet st \<and> compflag st' = compflag st \<and> db_links st' = db_links st \<and>
     bklnk st' = bklnk st \<and> recomputeCnt st' = recomputeCnt st"

lemma same_graph_refl [simp]: "same_graph st st"
  by (simp add: same_graph_def)

lemma same_graph_trans: "same_graph a b \<Longrightarrow> same_graph b c \<Longrightarrow> same_graph a c"
  by (simp add: same_graph_def)

text \<open>Changing the counts or the owner of one active set.\<close>

lemma set_ok_other:
  "lock_sets st' t = lock_sets st t \<Longrightarrow> ext' t = ext t \<Longrightarrow> plockSet st' = plockSet st \<Longrightarrow> set_ok st' ext' t = set_ok st ext t"
  by (simp add: set_ok_def)

lemma sets_inv_upd:
  assumes "sets_inv ext st" "s \<in> set (lockSetsActive st)" "set_ok st' ext' s" "members_of st' s = members_of st s"
    and "lockSetsActive st' = lockSetsActive st" "lockSetsFree st' = lockSetsFree st" "set_brk st' = set_brk st"
      "plockSet st' = plockSet st"
    and "\<And>t. t \<noteq> s \<Longrightarrow> lock_sets st' t = lock_sets st t" "\<And>t. t \<noteq> s \<Longrightarrow> ext' t = ext t"
  shows "sets_inv ext' st'"
proof -
  have nf: "s \<notin> set (lockSetsFree st)" using sets_invD(2) [OF assms(1)] assms(2) by auto
  have "set_ok st' ext' t" if "t \<in> set (lockSetsActive st)" for t
    using sets_invD(3) [OF assms(1) that] assms(3,8-10) set_ok_other [of st' t st ext' ext] by (cases "t = s") auto
  moreover have "free_ok st' t" if "t \<in> set (lockSetsFree st)" for t
  proof -
    have "t \<noteq> s" using nf that by auto
    then show ?thesis using assms(1,9) that by (simp add: sets_inv_def free_ok_def)
  qed
  moreover have "members_of st' t = members_of st t" for t using assms(4,9) by (cases "t = s") auto
  moreover have "ext' t = 0" if "t \<notin> set (lockSetsActive st)" for t
  proof -
    have "t \<noteq> s" using that assms(2) by auto
    then show ?thesis using assms(1,10) that by (simp add: sets_inv_def)
  qed
  ultimately show ?thesis
    using assms(1,5-8) unfolding sets_inv_def by simp
qed

lemma owner_inv:
  assumes "sets_inv ext st" "s \<in> set (lockSetsActive st)"
  shows "sets_inv ext (set_owner s w st)"
  by (rule sets_inv_upd [OF assms]) (use sets_invD(3) [OF assms] in \<open>simp_all add: set_ok_def\<close>)

lemma incRef:
  assumes "sets_inv ext st" "s \<in> set (lockSetsActive st)"
  shows "dbLockIncRef s st = Some (add_ref s 1 st)" "sets_inv (ext(s := ext s + 1)) (add_ref s 1 st)"
    and "same_graph st (add_ref s 1 st)"
proof -
  have ok: "set_ok st ext s" by (rule sets_invD(3) [OF assms])
  then have "0 < refcount (lock_sets st s)" unfolding set_ok_def by (metis of_nat_0_less_iff)
  then show "dbLockIncRef s st = Some (add_ref s 1 st)" by (simp add: dbLockIncRef_def)
  show "sets_inv (ext(s := ext s + 1)) (add_ref s 1 st)"
    by (rule sets_inv_upd [OF assms]) (use ok in \<open>simp_all add: set_ok_def\<close>)
  show "same_graph st (add_ref s 1 st)" by (simp add: same_graph_def)
qed

text \<open>The active sets after a reference to \<open>s\<close> was dropped.\<close>

lemma decRef:
  assumes "sets_inv ext st" "0 < ext s"
    and "members_of st s = [] \<Longrightarrow> ext s = 1 \<Longrightarrow> ownerlocker (lock_sets st s) = None"
  shows "\<exists>st'. dbLockDecRef s st = Some st' \<and> sets_inv (ext(s := ext s - 1)) st' \<and> same_graph st st' \<and>
    (\<forall>t. ownerlocker (lock_sets st' t) = ownerlocker (lock_sets st t)) \<and>
    (\<forall>t. members_of st' t = members_of st t) \<and>
    set (lockSetsActive st') = (if members_of st s = [] \<and> ext s = 1 then set (lockSetsActive st) - {s}
      else set (lockSetsActive st))"
proof -
  have act: "s \<in> set (lockSetsActive st)" by (rule sets_invD(4) [OF assms(1,2)])
  have nf: "s \<notin> set (lockSetsFree st)" using sets_invD(2) [OF assms(1)] act by auto
  have ok: "set_ok st ext s" by (rule sets_invD(3) [OF assms(1) act])
  let ?st1 = "add_ref s (- 1) st"
  show ?thesis
  proof (cases "members_of st s = [] \<and> ext s = 1")
    case True
    define st2 where "st2 = ?st1\<lparr>lockSetsActive := remove1 s (lockSetsActive st), lockSetsFree := lockSetsFree st @ [s]\<rparr>"
    have eq: "dbLockDecRef s st = Some st2" using ok True by (simp add: dbLockDecRef_def set_ok_def Let_def st2_def)
    have g: "same_graph st st2" by (simp add: st2_def same_graph_def)
    have f: "lock_sets st2 = (lock_sets st)(s := (lock_sets st s)\<lparr>refcount := 0\<rparr>)"
        "lockSetsActive st2 = remove1 s (lockSetsActive st)" "lockSetsFree st2 = lockSetsFree st @ [s]"
        "set_brk st2 = set_brk st"
      using ok True by (simp_all add: st2_def set_ok_def)
    have d: "distinct (lockSetsActive st)" by (rule sets_invD(1) [OF assms(1)])
    have p: "plockSet st2 = plockSet st" using g by (simp add: same_graph_def)
    have "set_ok st2 (ext(s := ext s - 1)) t" if "t \<in> set (lockSetsActive st) - {s}" for t
      using sets_invD(3) [OF assms(1), of t] that f(1) p by (simp add: set_ok_def)
    moreover have "free_ok st2 t" if "t \<in> insert s (set (lockSetsFree st))" for t
      using that assms(1,3) True f(1) nf by (auto simp: sets_inv_def free_ok_def)
    moreover have "t \<in> set (lockSetsActive st) - {s} \<and> r \<in> set (members_of st2 t)" if "plockSet st r = Some t" for r t
      using sets_invD(5) [OF assms(1) that] True f(1) by auto
    ultimately have "sets_inv (ext(s := ext s - 1)) st2"
      using assms(1) True nf act d f(2-4) p unfolding sets_inv_def by auto
    with eq True d g f show ?thesis by (intro exI [of _ st2]) simp
  next
    case False
    with ok assms(2) have nz: "0 < length (members_of st s) + (ext s - 1)"
      by (cases "members_of st s") auto
    have "dbLockDecRef s st = Some ?st1"
      using ok nz assms(2) by (auto simp: dbLockDecRef_def set_ok_def Let_def)
    moreover have "sets_inv (ext(s := ext s - 1)) ?st1"
      by (rule sets_inv_upd [OF assms(1) act]) (use ok nz assms(2) in \<open>auto simp: set_ok_def\<close>)
    ultimately show ?thesis
      using False by (intro exI [of _ ?st1]) (auto simp: same_graph_def)
  qed
qed

text \<open>A set that becomes active with one reference.\<close>

lemma sets_inv_new:
  assumes "sets_inv ext st" "s \<notin> set (lockSetsActive st)" "same_graph st st'"
    and "lock_sets st' = (lock_sets st)(s := \<lparr>lockRecordList = [], refcount = 1, ownerlocker = None\<rparr>)"
    and "lockSetsActive st' = lockSetsActive st @ [s]" "set (lockSetsFree st') = set (lockSetsFree st) - {s}"
      "distinct (lockSetsFree st')" "\<forall>t \<in> insert s (set (lockSetsActive st) \<union> set (lockSetsFree st)). t < set_brk st'"
  shows "sets_inv (ext(s := 1)) st'"
proof -
  have p: "plockSet st' = plockSet st" using assms(3) by (simp add: same_graph_def)
  have "set_ok st' (ext(s := 1)) t" if "t \<in> set (lockSetsActive st)" for t
    using sets_invD(3) [OF assms(1) that] that assms(2,4) p by (auto simp: set_ok_def)
  moreover have "set_ok st' (ext(s := 1)) s" using assms(4) by (simp add: set_ok_def)
  moreover have "free_ok st' t" if "t \<in> set (lockSetsFree st) - {s}" for t
    using assms(1,4) that by (auto simp: sets_inv_def free_ok_def)
  moreover have "t \<in> set (lockSetsActive st) \<and> r \<in> set (members_of st' t)" if "plockSet st r = Some t" for r t
    using sets_invD(5) [OF assms(1) that] assms(2,4) by auto
  ultimately show ?thesis
    using assms p unfolding sets_inv_def by auto
qed

lemma makeSet_ok:
  assumes "sets_inv ext st"
  obtains s st' where "makeSet st = Some (s, st')" "s \<notin> set (lockSetsActive st)"
    "sets_inv (ext(s := 1)) st'" "same_graph st st'" "set (lockSetsActive st') = insert s (set (lockSetsActive st))"
    "lock_sets st' = (lock_sets st)(s := \<lparr>lockRecordList = [], refcount = 1, ownerlocker = None\<rparr>)"
proof -
  have "\<exists>s st'. makeSet st = Some (s, st') \<and> s \<notin> set (lockSetsActive st) \<and> same_graph st st' \<and>
    lock_sets st' = (lock_sets st)(s := \<lparr>lockRecordList = [], refcount = 1, ownerlocker = None\<rparr>) \<and>
    lockSetsActive st' = lockSetsActive st @ [s] \<and> set (lockSetsFree st') = set (lockSetsFree st) - {s} \<and>
    distinct (lockSetsFree st') \<and> (\<forall>t \<in> insert s (set (lockSetsActive st) \<union> set (lockSetsFree st)). t < set_brk st')"
  proof (cases "lockSetsFree st")
    case Nil
    have "set_brk st \<notin> set (lockSetsActive st)" using assms by (auto simp: sets_inv_def)
    with Nil assms show ?thesis
      by (simp add: makeSet_def same_graph_def sets_inv_def less_Suc_eq)
  next
    case (Cons s ss)
    have "s \<notin> set (lockSetsActive st)" "free_ok st s" "s \<notin> set ss" "distinct ss"
      using assms Cons by (auto simp: sets_inv_def)
    with Cons assms show ?thesis
      by (auto simp: makeSet_def same_graph_def free_ok_def sets_inv_def)
  qed
  then obtain s st' where st': "makeSet st = Some (s, st')" "s \<notin> set (lockSetsActive st)" "same_graph st st'"
      "lock_sets st' = (lock_sets st)(s := \<lparr>lockRecordList = [], refcount = 1, ownerlocker = None\<rparr>)"
      "lockSetsActive st' = lockSetsActive st @ [s]" "set (lockSetsFree st') = set (lockSetsFree st) - {s}"
      "distinct (lockSetsFree st')" "\<forall>t \<in> insert s (set (lockSetsActive st) \<union> set (lockSetsFree st)). t < set_brk st'"
    by blast
  show thesis
    using that [OF st'(1,2) sets_inv_new [OF assms st'(2-8)] st'(3)] st'(4,5) by simp
qed

section \<open>Moving records\<close>

definition moved :: "addr list \<Rightarrow> addr \<Rightarrow> addr \<Rightarrow> lock_state \<Rightarrow> lock_state" where
  "moved rs from to st =
     st\<lparr>plockSet := (\<lambda>r. if r \<in> set rs then Some to else plockSet st r),
       lock_sets := (lock_sets st)
         (from := (lock_sets st from)\<lparr>lockRecordList := filter (\<lambda>r. r \<notin> set rs) (members_of st from)\<rparr>,
          to := (lock_sets st to)\<lparr>lockRecordList := members_of st to @ rs\<rparr>),
       recomputeCnt := recomputeCnt st + of_nat (length rs)\<rparr>"

lemma move_records_moved:
  "from \<noteq> to \<Longrightarrow> distinct rs \<Longrightarrow> distinct (members_of st from) \<Longrightarrow> \<forall>r \<in> set rs. plockSet st r = Some from \<Longrightarrow>
   move_records rs from to st = Some (moved rs from to st)"
proof (induction rs arbitrary: st)
  case (Cons r rs)
  define st1 where "st1 = (upd_set to (\<lambda>l. l\<lparr>lockRecordList := lockRecordList l @ [r]\<rparr>)
      (upd_set from (\<lambda>l. l\<lparr>lockRecordList := remove1 r (lockRecordList l)\<rparr>) st))
      \<lparr>plockSet := (plockSet st)(r \<mapsto> to), recomputeCnt := recomputeCnt st + 1\<rparr>"
  have "move_record r from to st = Some st1"
    using Cons.prems(1,4) by (simp add: move_record_def st1_def)
  moreover have "move_records rs from to st1 = Some (moved rs from to st1)"
    using Cons.prems by (intro Cons.IH) (auto simp: st1_def)
  moreover have "moved rs from to st1 = moved (r # rs) from to st"
    using Cons.prems(1,3)
    by (auto simp: moved_def st1_def fun_eq_iff distinct_remove1_removeAll removeAll_filter_not_eq filter_filter
        intro!: lock_state.equality lockSet.equality filter_cong)
  ultimately show ?case by simp
qed (simp add: moved_def)

lemma moved_fields [simp]:
  "plockSet (moved rs from to st) = (\<lambda>r. if r \<in> set rs then Some to else plockSet st r)"
  "compflag (moved rs from to st) = compflag st" "lockSetsActive (moved rs from to st) = lockSetsActive st"
  "lockSetsFree (moved rs from to st) = lockSetsFree st" "set_brk (moved rs from to st) = set_brk st"
  "db_links (moved rs from to st) = db_links st" "bklnk (moved rs from to st) = bklnk st"
  "recomputeCnt (moved rs from to st) = recomputeCnt st + of_nat (length rs)"
  "lock_sets (moved rs from to st) = (lock_sets st)
         (from := (lock_sets st from)\<lparr>lockRecordList := filter (\<lambda>r. r \<notin> set rs) (members_of st from)\<rparr>,
          to := (lock_sets st to)\<lparr>lockRecordList := members_of st to @ rs\<rparr>)"
  by (simp_all add: moved_def)

text \<open>Moving records and the references that they hold.\<close>

lemma moved_inv:
  assumes "sets_inv ext st" "from \<noteq> to" "from \<in> set (lockSetsActive st)" "to \<in> set (lockSetsActive st)"
    and "distinct rs" "set rs \<subseteq> set (members_of st from)"
    and "0 < length (members_of st from) - length rs + ext from"
  shows "sets_inv ext (add_ref to (int (length rs)) (add_ref from (- int (length rs)) (moved rs from to st)))"
proof -
  let ?sm = "add_ref to (int (length rs)) (add_ref from (- int (length rs)) (moved rs from to st))"
  have F: "set_ok st ext from" and T: "set_ok st ext to" using sets_invD(3) [OF assms(1)] assms(3,4) by auto
  have in_from: "plockSet st r = Some from" if "r \<in> set rs" for r
    using F assms(6) that by (auto simp: set_ok_def)
  have len: "length (filter (\<lambda>r. r \<notin> set rs) (members_of st from)) = length (members_of st from) - length rs"
      "length rs \<le> length (members_of st from)"
  proof -
    have "set (filter (\<lambda>r. r \<in> set rs) (members_of st from)) = set rs" using assms(6) by auto
    then have "length (filter (\<lambda>r. r \<in> set rs) (members_of st from)) = length rs"
      using F assms(5) by (metis distinct_card distinct_filter set_ok_def)
    then show "length (filter (\<lambda>r. r \<notin> set rs) (members_of st from)) = length (members_of st from) - length rs"
        "length rs \<le> length (members_of st from)"
      using sum_length_filter_compl [of "\<lambda>r. r \<in> set rs" "members_of st from"] by auto
  qed
  have not_to: "r \<notin> set (members_of st to)" if "r \<in> set rs" for r
    using T in_from [OF that] assms(2) by (auto simp: set_ok_def)
  have "set_ok ?sm ext from"
    using F len assms(2,7) by (auto simp: set_ok_def of_nat_diff)
  moreover have "set_ok ?sm ext to"
    using T assms(2,5) not_to by (auto simp: set_ok_def)
  moreover have "set_ok ?sm ext s" if "set_ok st ext s" "s \<noteq> from" "s \<noteq> to" for s
    using that in_from by (fastforce simp: set_ok_def)
  ultimately have act: "\<forall>s \<in> set (lockSetsActive st). set_ok ?sm ext s"
    using sets_invD(3) [OF assms(1)] by blast
  have "from \<notin> set (lockSetsFree st)" "to \<notin> set (lockSetsFree st)" using sets_invD(2) [OF assms(1)] assms(3,4) by auto
  then have "\<forall>s \<in> set (lockSetsFree st). free_ok ?sm s"
    using assms(1) by (auto simp: sets_inv_def free_ok_def)
  moreover have "s \<in> set (lockSetsActive st) \<and> r \<in> set (members_of ?sm s)"
    if "plockSet ?sm r = Some s" for r s
  proof (cases "r \<in> set rs")
    case True
    with that assms(2,4) show ?thesis by auto
  next
    case False
    with that sets_invD(5) [OF assms(1), of r s] assms(2) show ?thesis by auto
  qed
  ultimately show ?thesis
    using assms(1) act unfolding sets_inv_def by simp
qed

end
