(* ===== verification/DbLockMerge.thy ===== *)
theory DbLockMerge
  imports DbLockInv
begin

text \<open>
  Merging two lock sets, and the search that decides whether a set is to be split.
\<close>

section \<open>Merging\<close>

text \<open>What changes neither links nor flags, and gives the sets that stay active the same owners.\<close>

definition same_links :: "lock_state \<Rightarrow> lock_state \<Rightarrow> bool" where
  "same_links st st' \<longleftrightarrow> compflag st' = compflag st \<and> db_links st' = db_links st \<and> bklnk st' = bklnk st"

lemma same_links_refl [simp]: "same_links st st"
  by (simp add: same_links_def)

lemma same_links_trans: "same_links a b \<Longrightarrow> same_links b c \<Longrightarrow> same_links a c"
  by (simp add: same_links_def)

lemma graph_links: "same_graph st st' \<Longrightarrow> same_links st st'"
  by (simp add: same_graph_def same_links_def)

definition merged :: "addr \<Rightarrow> addr \<Rightarrow> lock_state \<Rightarrow> addr \<Rightarrow> addr option" where
  "merged A B st = (\<lambda>r. if plockSet st r = Some B then Some A else plockSet st r)"

lemma merged_same [simp]: "merged A A st = plockSet st"
  by (auto simp: merged_def)

lemma moved_all:
  assumes "sets_inv ext st" "B \<in> set (lockSetsActive st)"
  shows "plockSet (moved (members_of st B) B A st) = merged A B st"
proof -
  have "r \<in> set (members_of st B) \<longleftrightarrow> plockSet st r = Some B" for r
    using sets_invD(3) [OF assms] sets_invD(5) [OF assms(1), of r B] by (auto simp: set_ok_def)
  then show ?thesis by (simp add: merged_def)
qed

lemma merge_init:
  assumes "sets_inv ext st" "plockSet st a = Some A" "plockSet st b = Some B" "ext B = 0"
    and "owned x {} st"
  shows "\<exists>st'. dbLockSetMerge None a b st = Some (None, st') \<and> sets_inv ext st' \<and> owned x {} st' \<and>
    plockSet st' = merged A B st \<and> same_links st st'"
proof (cases "A = B")
  case True
  with assms show ?thesis by (auto simp: dbLockSetMerge_def owns_def)
next
  case False
  define rs where "rs = members_of st B"
  define n where "n = int (length rs)"
  have act: "A \<in> set (lockSetsActive st)" "B \<in> set (lockSetsActive st)" and b: "b \<in> set rs"
    using sets_invD(5) [OF assms(1)] assms(2,3) by (auto simp: rs_def)
  have ok: "set_ok st ext B" by (rule sets_invD(3) [OF assms(1) act(2)])
  let ?s0 = "add_ref B 1 st"
  let ?sm = "add_ref A n (add_ref B (- n) (moved rs B A ?s0))"
  have inv: "sets_inv (ext(B := 1)) ?sm"
    unfolding n_def using incRef(2) [OF assms(1) act(2)] assms(4) False act ok
    by (intro moved_inv) (auto simp: rs_def set_ok_def)
  have sm: "?sm = add_ref B (1 - n) (add_ref A n (moved rs B A st))"
    using False by (auto intro!: lock_state.equality simp: fun_eq_iff)
  have owner: "ownerlocker (lock_sets ?sm s) = ownerlocker (lock_sets st s)" for s by simp
  have "ownerlocker (lock_sets ?sm B) = None"
    using assms(5) act(2) owner [of B] by (simp add: owned_def)
  then obtain st' where st': "dbLockDecRef B ?sm = Some st'" "sets_inv ((ext(B := 1))(B := 0)) st'" "same_graph ?sm st'"
      "\<forall>t. ownerlocker (lock_sets st' t) = ownerlocker (lock_sets ?sm t)"
      "set (lockSetsActive st') \<subseteq> set (lockSetsActive ?sm)"
    using decRef [OF inv, of B] by fastforce
  have "ext(B := 1, B := 0) = ext" using assms(4) by auto
  then have "sets_inv ext st'" using st'(2) by simp
  moreover have p: "plockSet st' = merged A B st"
    using moved_all [OF assms(1) act(2), of A] st'(3) by (simp add: same_graph_def sm rs_def cong: if_cong)
  moreover have "same_links st st'" using st'(3) by (simp add: same_graph_def same_links_def)
  moreover have "owned x {} st'"
    using assms(5) st'(4,5) owner by (auto simp: owned_def)
  moreover have "dbLockSetMerge None a b st = Some (None, st')"
  proof -
    have mv: "move_records rs B A st = Some (moved rs B A st)"
      using ok False by (intro move_records_moved) (auto simp: rs_def set_ok_def)
    have "n \<le> refcount (lock_sets (moved rs B A st) B)" "0 < n" "rs \<noteq> []"
      using ok False b by (auto simp: set_ok_def n_def rs_def)
    moreover have "plockSet st' b = Some A" using p assms(3) by (simp add: merged_def)
    ultimately show ?thesis
      using assms(2,3) False mv st'(1) [unfolded sm]
      by (simp add: dbLockSetMerge_def owns_def Let_def rs_def [symmetric] n_def [symmetric])
  qed
  ultimately show ?thesis by blast
qed

lemma merge_locked:
  assumes "sets_inv ext st" "plockSet st a = Some A" "plockSet st b = Some B" "A \<noteq> B" "0 < ext B"
    and "owned (locker_addr l) L st" "A \<in> L" "B \<in> L"
  shows "\<exists>st'. dbLockSetMerge (Some l) a b st = Some (Some (l\<lparr>locked := remove1 B (locked l)\<rparr>), st') \<and>
    sets_inv (ext(B := ext B - 1)) st' \<and> owned (locker_addr l) (L - {B}) st' \<and>
    plockSet st' = merged A B st \<and> same_links st st'"
proof -
  define rs where "rs = members_of st B"
  define n where "n = int (length rs)"
  have act: "A \<in> set (lockSetsActive st)" "B \<in> set (lockSetsActive st)" and b: "b \<in> set rs"
    using sets_invD(5) [OF assms(1)] assms(2,3) by (auto simp: rs_def)
  have ok: "set_ok st ext B" by (rule sets_invD(3) [OF assms(1) act(2)])
  let ?sm = "add_ref A n (add_ref B (- n) (moved rs B A st))"
  let ?so = "set_owner B None ?sm"
  have "sets_inv ext ?sm"
    unfolding n_def using assms(1,4,5) act ok by (intro moved_inv) (auto simp: rs_def set_ok_def)
  then have inv: "sets_inv ext ?so" by (rule owner_inv) (simp add: act)
  have so: "?so = add_ref B (- 1) (set_owner B None (add_ref B (1 - n) (add_ref A n (moved rs B A st))))"
    using assms(4) by (auto intro!: lock_state.equality simp: fun_eq_iff)
  have owner: "ownerlocker (lock_sets ?so s) = (if s = B then None else ownerlocker (lock_sets st s))" for s by simp
  then obtain st' where st': "dbLockDecRef B ?so = Some st'" "sets_inv (ext(B := ext B - 1)) st'" "same_graph ?so st'"
      "\<forall>t. ownerlocker (lock_sets st' t) = ownerlocker (lock_sets ?so t)"
      "set (lockSetsActive st) - {B} \<subseteq> set (lockSetsActive st')" "set (lockSetsActive st') \<subseteq> set (lockSetsActive st)"
    using decRef [OF inv assms(5)] by fastforce
  have p: "plockSet st' = merged A B st"
    using moved_all [OF assms(1) act(2), of A] st'(3) by (simp add: same_graph_def rs_def)
  moreover have "same_links st st'" using st'(3) by (simp add: same_graph_def same_links_def)
  moreover have "owned (locker_addr l) (L - {B}) st'"
    using assms(6) st'(4-6) owner by (auto simp: owned_def)
  moreover have "dbLockSetMerge (Some l) a b st = Some (Some (l\<lparr>locked := remove1 B (locked l)\<rparr>), st')"
  proof -
    have mv: "move_records rs B A st = Some (moved rs B A st)"
      using ok assms(4) by (intro move_records_moved) (auto simp: rs_def set_ok_def)
    have own: "ownerlocker (lock_sets st A) = Some (locker_addr l)" "ownerlocker (lock_sets st B) = Some (locker_addr l)"
      using assms(6-8) act by (auto simp: owned_def)
    have "\<not> refcount (lock_sets (moved rs B A st) B) < n + 1" "0 < n" "rs \<noteq> []"
      using ok assms(4,5) b by (auto simp: set_ok_def n_def rs_def)
    moreover have "plockSet st' b = Some A" using p assms(3) by (simp add: merged_def)
    ultimately show ?thesis
      using assms(2-4) mv own st'(1) [unfolded so]
      by (simp add: dbLockSetMerge_def owns_def Let_def rs_def [symmetric] n_def [symmetric])
  qed
  ultimately show ?thesis using st'(2) by blast
qed

end
