(* ===== verification/DbLockSplit.thy ===== *)
theory DbLockSplit
  imports DbLockMerge
begin

text \<open>
  Splitting a lock set: the search finds the records that links still connect, and these become a
  set of their own when the other record is not among them.
\<close>

section \<open>The graph of links\<close>

definition edges :: "lock_state \<Rightarrow> (addr \<times> addr) set" where
  "edges st = {(r, t). Some t \<in> set (db_links st r)}"

definition conn :: "(addr \<times> addr) set \<Rightarrow> (addr \<times> addr) set" where
  "conn E = (E \<union> E\<inverse>)\<^sup>*"

definition links_ok :: "lock_state \<Rightarrow> bool" where
  "links_ok st \<longleftrightarrow>
     (\<forall>r t. (r, t) \<in> edges st \<longrightarrow> plockSet st r \<noteq> None \<and> plockSet st t \<noteq> None) \<and>
     (\<forall>t. distinct (bklnk st t) \<and>
        (\<forall>r i. (r, i) \<in> set (bklnk st t) \<longleftrightarrow> i < length (db_links st r) \<and> db_links st r ! i = Some t))"

definition nbrs :: "lock_state \<Rightarrow> addr \<Rightarrow> addr set" where
  "nbrs st r = set (link_targets st r) \<union> set (link_sources st r)"

lemma set_link_targets: "set (link_targets st r) = {t. Some t \<in> set (db_links st r)}"
  by (force simp: link_targets_def map_filter_def)

lemma nbrs_edges: "links_ok st \<Longrightarrow> x \<in> nbrs st r \<longleftrightarrow> (r, x) \<in> edges st \<union> (edges st)\<inverse>"
proof -
  assume ok: "links_ok st"
  have "x \<in> set (link_sources st r) \<longleftrightarrow> (\<exists>i. (x, i) \<in> set (bklnk st r))"
    by (force simp: link_sources_def)
  also have "\<dots> \<longleftrightarrow> Some r \<in> set (db_links st x)"
    using ok by (auto simp: links_ok_def in_set_conv_nth)
  finally show ?thesis by (simp add: nbrs_def set_link_targets edges_def)
qed

lemma conn_refl [simp]: "(a, a) \<in> conn E"
  by (simp add: conn_def)

lemma conn_sym: "(a, b) \<in> conn E \<Longrightarrow> (b, a) \<in> conn E"
proof -
  have "sym (E \<union> E\<inverse>)" by (simp add: sym_Un_converse)
  then show "(a, b) \<in> conn E \<Longrightarrow> (b, a) \<in> conn E"
    unfolding conn_def using sym_rtrancl symD by metis
qed

lemma conn_trans: "(a, b) \<in> conn E \<Longrightarrow> (b, c) \<in> conn E \<Longrightarrow> (a, c) \<in> conn E"
  unfolding conn_def by (rule rtrancl_trans)

lemma conn_mono: "E \<subseteq> F \<Longrightarrow> (a, b) \<in> conn E \<Longrightarrow> (a, b) \<in> conn F"
  unfolding conn_def using rtrancl_mono [of "E \<union> E\<inverse>" "F \<union> F\<inverse>"] by blast

lemma conn_step: "(b, c) \<in> E \<union> E\<inverse> \<Longrightarrow> (a, b) \<in> conn E \<Longrightarrow> (a, c) \<in> conn E"
  unfolding conn_def by (rule rtrancl_into_rtrancl)

text \<open>One more edge joins the classes of its ends.\<close>

lemma conn_insert:
  "(x, y) \<in> conn (insert (a, b) E) \<longleftrightarrow>
     (x, y) \<in> conn E \<or> ((x, a) \<in> conn E \<or> (x, b) \<in> conn E) \<and> ((y, a) \<in> conn E \<or> (y, b) \<in> conn E)"
proof
  assume "(x, y) \<in> conn (insert (a, b) E)"
  then have "(x, y) \<in> (insert (a, b) E \<union> (insert (a, b) E)\<inverse>)\<^sup>*" by (simp only: conn_def)
  then show "(x, y) \<in> conn E \<or> ((x, a) \<in> conn E \<or> (x, b) \<in> conn E) \<and> ((y, a) \<in> conn E \<or> (y, b) \<in> conn E)"
  proof (induction rule: rtrancl_induct)
    case (step y z)
    consider "(y, z) \<in> E \<union> E\<inverse>" | "y = a \<and> z = b \<or> y = b \<and> z = a" using step.hyps(2) by auto
    then show ?case
    proof cases
      case 1
      then have "(z, y) \<in> conn E" using conn_step [of y z E y] conn_sym by auto
      then show ?thesis using step.IH 1 conn_step conn_trans by blast
    next
      case 2
      then show ?thesis using step.IH by auto
    qed
  qed simp
next
  have ab: "(a, b) \<in> conn (insert (a, b) E)" using conn_step [of a b "insert (a, b) E" a] by simp
  have up: "(u, v) \<in> conn (insert (a, b) E)" if "(u, v) \<in> conn E" for u v
    using conn_mono [OF subset_insertI that] .
  assume "(x, y) \<in> conn E \<or> ((x, a) \<in> conn E \<or> (x, b) \<in> conn E) \<and> ((y, a) \<in> conn E \<or> (y, b) \<in> conn E)"
  then show "(x, y) \<in> conn (insert (a, b) E)"
    using up ab conn_sym conn_trans by metis
qed

section \<open>The search\<close>

text \<open>
  A visit changes the flags from \<open>c\<close> to \<open>c'\<close>, adds \<open>q'\<close> to the work list and tells by \<open>f\<close> whether it met \<open>p\<close>.
\<close>

definition visited :: "addr \<Rightarrow> addr list \<Rightarrow> (addr \<Rightarrow> nat) \<Rightarrow> bool \<Rightarrow> (addr \<Rightarrow> nat) \<Rightarrow> addr list \<Rightarrow> bool" where
  "visited p rs c f c' q' \<longleftrightarrow>
     (\<forall>x. c' x \<noteq> 0 \<longleftrightarrow> c x \<noteq> 0 \<or> x \<in> set q') \<and> distinct q' \<and> set q' \<subseteq> set rs \<and>
     (\<forall>x \<in> set q'. c x = 0) \<and> p \<notin> set q' \<and> (if f then p \<in> set rs else \<forall>x \<in> set rs. c' x \<noteq> 0)"

lemma visitedD:
  assumes "visited p rs c f c' q'"
  shows "distinct q'" "set q' \<subseteq> set rs" "\<forall>x \<in> set q'. c x = 0" "p \<notin> set q'" "f \<longrightarrow> p \<in> set rs"
    "\<not> f \<longrightarrow> (\<forall>x \<in> set rs. c' x \<noteq> 0)" "{x. c' x \<noteq> 0} = {x. c x \<noteq> 0} \<union> set q'"
  using assms unfolding visited_def by (auto split: if_splits)

lemma visited_skip: "visited p rs c f c' q' \<Longrightarrow> c r \<noteq> 0 \<Longrightarrow> visited p (r # rs) c f c' q'"
  unfolding visited_def by (auto split: if_splits)

lemma visited_add:
  assumes "visited p rs (c(r := 1)) f c' q'" "r \<noteq> p" "c r = 0"
  shows "visited p (r # rs) c f c' (r # q')"
proof -
  have v: "\<forall>x. c' x \<noteq> 0 \<longleftrightarrow> (c(r := 1)) x \<noteq> 0 \<or> x \<in> set q'" "distinct q'" "set q' \<subseteq> set rs"
      "\<forall>x \<in> set q'. (c(r := 1)) x = 0" "p \<notin> set q'" "if f then p \<in> set rs else \<forall>x \<in> set rs. c' x \<noteq> 0"
    using assms(1) by (auto simp only: visited_def)
  have "r \<notin> set q'" using v(4) by auto
  with v(2) have 2: "distinct (r # q')" by simp
  have 4: "\<forall>x \<in> set (r # q'). c x = 0" using v(4) assms(3) by (metis fun_upd_apply set_ConsD zero_neq_one)
  have 1: "\<forall>x. c' x \<noteq> 0 \<longleftrightarrow> c x \<noteq> 0 \<or> x \<in> set (r # q')"
  proof
    show "c' x \<noteq> 0 \<longleftrightarrow> c x \<noteq> 0 \<or> x \<in> set (r # q')" for x using spec [OF v(1), of x] by (cases "x = r") simp_all
  qed
  have "c' r \<noteq> 0" using spec [OF v(1), of r] by simp
  then have 6: "if f then p \<in> set (r # rs) else \<forall>x \<in> set (r # rs). c' x \<noteq> 0" using v(6) by (cases f) simp_all
  have 3: "set (r # q') \<subseteq> set (r # rs)" using v(3) by auto
  have 5: "p \<notin> set (r # q')" using v(5) assms(2) by simp
  from 1 2 3 4 5 6 show ?thesis unfolding visited_def by (intro conjI)
qed

lemma visit_links_ok:
  "\<forall>r \<in> set rs. plockSet st r \<noteq> None \<Longrightarrow>
   \<exists>f c' q'. visit_links p rs (st\<lparr>compflag := c\<rparr>) q = Some (f, st\<lparr>compflag := c'\<rparr>, q @ q') \<and> visited p rs c f c' q'"
proof (induction rs arbitrary: c q)
  case Nil
  show ?case by (intro exI [of _ False] exI [of _ c] exI [of _ "[]"]) (simp add: visited_def)
next
  case (Cons r rs)
  have ok: "plockSet st r \<noteq> None" "\<forall>r \<in> set rs. plockSet st r \<noteq> None" using Cons.prems by auto
  consider "r = p" | "r \<noteq> p" "c r \<noteq> 0" | "r \<noteq> p" "c r = 0" by blast
  then show ?case
  proof cases
    case 1
    with ok show ?thesis by (intro exI [of _ True] exI [of _ c] exI [of _ "[]"]) (simp add: visited_def)
  next
    case 2
    from Cons.IH [OF ok(2), of c q] visited_skip [where c = c and r = r and rs = rs] show ?thesis using 2 ok(1) by fastforce
  next
    case 3
    obtain f c' q' where "visit_links p rs (st\<lparr>compflag := c(r := 1)\<rparr>) (q @ [r]) =
        Some (f, st\<lparr>compflag := c'\<rparr>, (q @ [r]) @ q')" "visited p rs (c(r := 1)) f c' q'"
      using Cons.IH [OF ok(2), of "c(r := 1)" "q @ [r]"] by blast
    with visited_add [OF this(2) 3] 3 ok(1) show ?thesis
      by (intro exI [of _ f] exI [of _ c'] exI [of _ "r # q'"]) simp
  qed
qed

lemma nbrs_flags [simp]:
  "link_targets (st\<lparr>compflag := c\<rparr>) = link_targets st" "link_sources (st\<lparr>compflag := c\<rparr>) = link_sources st"
  by (simp_all add: fun_eq_iff link_targets_def link_sources_def)

text \<open>\<open>D\<close> is the set of the records that can be met, \<open>R\<close> a set that is closed under links.\<close>

lemma split_search_ok:
  assumes "finite D" "\<forall>r \<in> D. plockSet st r \<noteq> None" "\<forall>r \<in> D. nbrs st r \<subseteq> D"
    and "\<forall>r \<in> R. nbrs st r \<subseteq> R"
    and "{x. c x \<noteq> 0} = set q \<union> set new" "distinct (q @ new)" "set q \<union> set new \<subseteq> D \<inter> R" "p \<notin> set q \<union> set new"
    and "\<forall>r \<in> set new. nbrs st r \<subseteq> set q \<union> set new"
  shows "\<exists>f c' q' new'. split_search p q new (st\<lparr>compflag := c\<rparr>) = Some (f, st\<lparr>compflag := c'\<rparr>, q', new') \<and>
    {x. c' x \<noteq> 0} = set q' \<union> set new' \<and> (f \<longrightarrow> p \<in> R) \<and>
    (\<not> f \<longrightarrow> q' = [] \<and> distinct new' \<and> set q \<union> set new \<subseteq> set new' \<and> set new' \<subseteq> D \<inter> R \<and> p \<notin> set new' \<and>
       (\<forall>r \<in> set new'. nbrs st r \<subseteq> set new'))"
  using assms(5-9)
proof (induction "card D - length new" arbitrary: c q new rule: less_induct)
  case less
  show ?case
  proof (cases q)
    case Nil
    with less.prems show ?thesis
      by (subst split_search.simps) (auto intro!: exI [of _ False] exI [of _ c])
  next
    case (Cons r rest)
    have rD: "r \<in> D" "r \<in> R" using less.prems(3) Cons by auto
    have lt: "\<forall>x \<in> set (link_targets st r). plockSet st x \<noteq> None" "\<forall>x \<in> set (link_sources st r). plockSet st x \<noteq> None"
    proof -
      have "set (link_targets st r) \<subseteq> D" "set (link_sources st r) \<subseteq> D"
        using assms(3) rD(1) unfolding nbrs_def by blast+
      with assms(2) show "\<forall>x \<in> set (link_targets st r). plockSet st x \<noteq> None"
          "\<forall>x \<in> set (link_sources st r). plockSet st x \<noteq> None"
        by blast+
    qed
    have fl: "{x. (c(r := 2)) x \<noteq> 0} = set q \<union> set new" using less.prems(1) Cons by auto
    obtain f1 c1 q1 where v1: "visit_links p (link_targets st r) (st\<lparr>compflag := c(r := 2)\<rparr>) rest =
          Some (f1, st\<lparr>compflag := c1\<rparr>, rest @ q1)"
        and w1: "visited p (link_targets st r) (c(r := 2)) f1 c1 q1"
      using visit_links_ok [OF lt(1), of p "c(r := 2)" rest] by blast
    note q1 = visitedD [OF w1] and c1 = visitedD(7) [OF w1]
    obtain f2 c2 q2 where v2: "visit_links p (link_sources st r) (st\<lparr>compflag := c1\<rparr>) (rest @ q1) =
          Some (f2, st\<lparr>compflag := c2\<rparr>, (rest @ q1) @ q2)"
        and w2: "visited p (link_sources st r) c1 f2 c2 q2"
      using visit_links_ok [OF lt(2), of p c1 "rest @ q1"] by blast
    note q2 = visitedD [OF w2] and c2 = visitedD(7) [OF w2]
    note step = split_search.simps [of p q new "st\<lparr>compflag := c\<rparr>"]
    have nr: "nbrs st r \<subseteq> D \<inter> R" using rD assms(3,4) by blast
    show ?thesis
    proof (cases "f1 \<or> f2")
      case True
      have "p \<in> R" using True q1(5) q2(5) nr by (auto simp: nbrs_def)
      moreover have "\<exists>c' q'. split_search p q new (st\<lparr>compflag := c\<rparr>) = Some (True, st\<lparr>compflag := c'\<rparr>, q', new @ [r]) \<and>
          {x. c' x \<noteq> 0} = set q' \<union> set (new @ [r])"
      proof (cases f1)
        case True
        have "{x. c1 x \<noteq> 0} = set (rest @ q1) \<union> set (new @ [r])" using c1 fl Cons by auto
        with True v1 step Cons show ?thesis by (intro exI [of _ c1] exI [of _ "rest @ q1"]) simp
      next
        case False
        have "{x. c2 x \<noteq> 0} = set (rest @ q1 @ q2) \<union> set (new @ [r])" using c2 c1 fl Cons by auto
        with False \<open>f1 \<or> f2\<close> v1 v2 step Cons show ?thesis by (intro exI [of _ c2] exI [of _ "rest @ q1 @ q2"]) simp
      qed
      ultimately show ?thesis by blast
    next
      case False
      let ?q = "rest @ q1 @ q2" and ?new = "new @ [r]"
      have eq: "split_search p q new (st\<lparr>compflag := c\<rparr>) = split_search p ?q ?new (st\<lparr>compflag := c2\<rparr>)"
        using False v1 v2 step Cons by simp
      have fl2: "{x. c2 x \<noteq> 0} = set ?q \<union> set ?new" using c2 c1 fl Cons by auto
      have dist: "distinct (?q @ ?new)"
      proof -
        have "set q1 \<inter> {x. (c(r := 2)) x \<noteq> 0} = {}" using q1(3) by (auto simp del: fun_upd_apply)
        moreover have "set q2 \<inter> {x. c1 x \<noteq> 0} = {}" using q2(3) by auto
        ultimately show ?thesis using less.prems(2) q1(1) q2(1) Cons fl c1 by auto
      qed
      have sub: "set ?q \<union> set ?new \<subseteq> D \<inter> R"
        using less.prems(3) Cons q1(2) q2(2) nr by (auto simp: nbrs_def)
      have np: "p \<notin> set ?q \<union> set ?new" using less.prems(4) Cons q1(4) q2(4) by auto
      have "nbrs st r \<subseteq> {x. c2 x \<noteq> 0}" using False q1(6) q2(6) c2 by (auto simp: nbrs_def)
      then have closed: "\<forall>x \<in> set ?new. nbrs st x \<subseteq> set ?q \<union> set ?new"
        using less.prems(5) fl2 Cons by auto
      have "length ?new \<le> card D"
        using dist sub assms(1) by (metis card_mono distinct_append distinct_card inf.bounded_iff le_sup_iff)
      then have "card D - length ?new < card D - length new" by simp
      from less.hyps [OF this fl2 dist sub np closed] obtain f c' q' new' where
        res: "split_search p ?q ?new (st\<lparr>compflag := c2\<rparr>) = Some (f, st\<lparr>compflag := c'\<rparr>, q', new')"
          "{x. c' x \<noteq> 0} = set q' \<union> set new'" "f \<longrightarrow> p \<in> R"
          "\<not> f \<longrightarrow> q' = [] \<and> distinct new' \<and> set ?q \<union> set ?new \<subseteq> set new' \<and> set new' \<subseteq> D \<inter> R \<and> p \<notin> set new' \<and>
             (\<forall>r \<in> set new'. nbrs st r \<subseteq> set new')"
        by blast
      have "set q \<union> set new \<subseteq> set ?q \<union> set ?new" using Cons by auto
      with res(4) have "\<not> f \<longrightarrow> q' = [] \<and> distinct new' \<and> set q \<union> set new \<subseteq> set new' \<and> set new' \<subseteq> D \<inter> R \<and>
          p \<notin> set new' \<and> (\<forall>r \<in> set new'. nbrs st r \<subseteq> set new')"
        by (meson order_trans)
      with res(1-3) eq show ?thesis by metis
    qed
  qed
qed

section \<open>Lock sets are components\<close>

definition comps :: "lock_state \<Rightarrow> (addr \<times> addr) set \<Rightarrow> bool" where
  "comps st E \<longleftrightarrow>
     (\<forall>x y. plockSet st x \<noteq> None \<longrightarrow> plockSet st y \<noteq> None \<longrightarrow> (plockSet st x = plockSet st y \<longleftrightarrow> (x, y) \<in> conn E))"

lemma compsD: "comps st E \<Longrightarrow> plockSet st x = Some s \<Longrightarrow> plockSet st y \<noteq> None \<Longrightarrow> plockSet st y = Some s \<longleftrightarrow> (x, y) \<in> conn E"
  unfolding comps_def by (metis option.distinct(1))

lemma conn_in: "(a, b) \<in> conn E \<Longrightarrow> conn (insert (a, b) E) = conn E"
proof -
  assume ab: "(a, b) \<in> conn E"
  have "(x, y) \<in> conn (insert (a, b) E) \<longleftrightarrow> (x, y) \<in> conn E" for x y
    unfolding conn_insert using ab conn_sym conn_trans by metis
  then show ?thesis by auto
qed

lemma merged_comps:
  assumes "comps st E" "plockSet st a = Some A" "plockSet st b = Some B" "plockSet st' = merged A B st"
  shows "comps st' (insert (a, b) E)"
  unfolding comps_def
proof (intro allI impI)
  fix x y assume xy': "plockSet st' x \<noteq> None" "plockSet st' y \<noteq> None"
  have xy: "plockSet st x \<noteq> None" "plockSet st y \<noteq> None"
    using xy' assms(3,4) by (auto simp: merged_def split: if_splits)
  have A: "plockSet st z = Some A \<longleftrightarrow> (z, a) \<in> conn E" and B: "plockSet st z = Some B \<longleftrightarrow> (z, b) \<in> conn E"
    if "plockSet st z \<noteq> None" for z
    using compsD [OF assms(1,2) that] compsD [OF assms(1,3) that] conn_sym by blast+
  have "plockSet st x = plockSet st y \<longleftrightarrow> (x, y) \<in> conn E" using assms(1) xy by (simp add: comps_def)
  then show "plockSet st' x = plockSet st' y \<longleftrightarrow> (x, y) \<in> conn (insert (a, b) E)"
    unfolding conn_insert assms(4) merged_def using A [OF xy(1)] A [OF xy(2)] B [OF xy(1)] B [OF xy(2)] by auto
qed

lemma flags_inv [simp]:
  "sets_inv ext (st\<lparr>compflag := c\<rparr>) = sets_inv ext st" "owned a L (st\<lparr>compflag := c\<rparr>) = owned a L st"
  by (simp_all add: sets_inv_def set_ok_def free_ok_def owned_def)

lemma reset_all:
  assumes "\<forall>x. c x \<noteq> 0 \<longrightarrow> x \<in> set rs"
  shows "reset_flags rs (st\<lparr>compflag := c\<rparr>) = st\<lparr>compflag := \<lambda>_. 0\<rparr>"
proof -
  have "fold (\<lambda>r c. c(r := 0)) xs c x = (if x \<in> set xs then 0 else c x)" for xs x and c :: "addr \<Rightarrow> nat"
    by (induction xs arbitrary: c) auto
  then have "fold (\<lambda>r c. c(r := 0)) rs c = (\<lambda>_. 0)" using assms by (auto simp: fun_eq_iff)
  then show ?thesis by (simp add: reset_flags_def)
qed

text \<open>The records connected to \<open>b\<close> leave the set.\<close>

lemma split_comps:
  assumes "comps st (insert (a, b) E)" "\<forall>x. x \<in> set new \<longleftrightarrow> (b, x) \<in> conn E" "a \<notin> set new"
    and "plockSet st b \<noteq> None" "\<forall>r. plockSet st r \<noteq> Some sp"
    and "\<forall>r \<in> set new. plockSet st r \<noteq> None"
    and "plockSet st' = (\<lambda>r. if r \<in> set new then Some sp else plockSet st r)"
  shows "comps st' E"
  unfolding comps_def
proof (intro allI impI)
  fix x y assume xy: "plockSet st' x \<noteq> None" "plockSet st' y \<noteq> None"
  have dom: "plockSet st z \<noteq> None" if "plockSet st' z \<noteq> None" for z using that assms(6,7) by (cases "z \<in> set new") auto
  show "plockSet st' x = plockSet st' y \<longleftrightarrow> (x, y) \<in> conn E"
  proof (cases "x \<in> set new \<or> y \<in> set new")
    case True
    have sep: "(x \<in> set new \<longleftrightarrow> y \<in> set new)" if "(x, y) \<in> conn E" using that assms(2) conn_trans conn_sym by metis
    have "(x, y) \<in> conn E" if "x \<in> set new" "y \<in> set new" using that assms(2) conn_trans conn_sym by metis
    moreover have "plockSet st' x = plockSet st' y \<longleftrightarrow> x \<in> set new \<and> y \<in> set new"
      using True assms(5,7) by (auto dest: sym)
    ultimately show ?thesis using True sep by blast
  next
    case False
    then have "(x, b) \<notin> conn E" "(y, b) \<notin> conn E" using assms(2) conn_sym by blast+
    then have "(x, y) \<in> conn (insert (a, b) E) \<longleftrightarrow> (x, y) \<in> conn E"
      unfolding conn_insert using conn_sym conn_trans by metis
    with False assms(1,7) dom [OF xy(1)] dom [OF xy(2)] show ?thesis by (simp add: comps_def)
  qed
qed

lemma class_closed:
  assumes "(b, x) \<in> conn E" "b \<in> N" "\<And>r x. r \<in> N \<Longrightarrow> (r, x) \<in> E \<union> E\<inverse> \<Longrightarrow> x \<in> N"
  shows "x \<in> N"
proof -
  have "(b, x) \<in> (E \<union> E\<inverse>)\<^sup>*" using assms(1) by (simp add: conn_def)
  then show ?thesis by (induction rule: rtrancl_induct) (use assms(2,3) in blast)+
qed

text \<open>
  The search from \<open>b\<close>: either \<open>a\<close> is connected to \<open>b\<close>, or the records found are exactly those that are.
\<close>

lemma search_class:
  assumes "sets_inv ext st" "links_ok st" "compflag st = (\<lambda>_. 0)" "plockSet st a = Some A" "plockSet st b = Some A"
    and "comps st (insert (a, b) (edges st))" "a \<noteq> b"
  shows "\<exists>f c' q new. split_search a [b] [] (st\<lparr>compflag := (compflag st)(b := 1)\<rparr>) = Some (f, st\<lparr>compflag := c'\<rparr>, q, new) \<and>
    (\<forall>x. c' x \<noteq> 0 \<longrightarrow> x \<in> set (q @ new)) \<and> (f \<longrightarrow> (a, b) \<in> conn (edges st)) \<and>
    (\<not> f \<longrightarrow> q = [] \<and> distinct new \<and> (\<forall>x. x \<in> set new \<longleftrightarrow> (b, x) \<in> conn (edges st)) \<and> a \<notin> set new \<and>
       set new \<subseteq> set (members_of st A))"
proof -
  let ?E = "edges st"
  let ?D = "set (members_of st A)" and ?R = "{x. (b, x) \<in> conn ?E}"
  have A: "A \<in> set (lockSetsActive st)" and bD: "b \<in> ?D" using sets_invD(5) [OF assms(1)] assms(5) by auto
  have inD: "x \<in> ?D \<longleftrightarrow> plockSet st x = Some A" for x
    using sets_invD(3) [OF assms(1) A] sets_invD(5) [OF assms(1), of x A] by (auto simp: set_ok_def)
  have ends: "plockSet st x \<noteq> None" "plockSet st y \<noteq> None" if "(x, y) \<in> ?E \<union> ?E\<inverse>" for x y
    using that assms(2) by (auto simp: links_ok_def)
  have D: "y \<in> ?D" if "x \<in> ?D" "y \<in> nbrs st x" for x y
  proof -
    have e: "(x, y) \<in> ?E \<union> ?E\<inverse>" using that(2) nbrs_edges [OF assms(2)] by blast
    then have "(x, y) \<in> conn (insert (a, b) ?E)" by (intro conn_mono [OF subset_insertI conn_step [OF e]]) simp
    then show ?thesis using compsD [OF assms(6), of x A y] that(1) inD ends [OF e] by blast
  qed
  have R: "y \<in> ?R" if "x \<in> ?R" "y \<in> nbrs st x" for x y
    using that nbrs_edges [OF assms(2), of y x] conn_step [of x y ?E b] by blast
  have fl: "{x. ((compflag st)(b := 1)) x \<noteq> 0} = set [b] \<union> set []" using assms(3) by auto
  have p1: "\<forall>r \<in> ?D. plockSet st r \<noteq> None" using inD by auto
  have p2: "\<forall>r \<in> ?D. nbrs st r \<subseteq> ?D" using D by blast
  have p3: "\<forall>r \<in> ?R. nbrs st r \<subseteq> ?R" using R by blast
  have p4: "distinct ([b] @ [])" "set [b] \<union> set [] \<subseteq> ?D \<inter> ?R" "a \<notin> set [b] \<union> set []"
      "\<forall>r \<in> set []. nbrs st r \<subseteq> set [b] \<union> set []"
    using bD assms(7) by simp_all
  obtain f c' q new where s: "split_search a [b] [] (st\<lparr>compflag := (compflag st)(b := 1)\<rparr>) = Some (f, st\<lparr>compflag := c'\<rparr>, q, new)"
      "{x. c' x \<noteq> 0} = set q \<union> set new" "f \<longrightarrow> a \<in> ?R"
      "\<not> f \<longrightarrow> q = [] \<and> distinct new \<and> set [b] \<union> set [] \<subseteq> set new \<and> set new \<subseteq> ?D \<inter> ?R \<and> a \<notin> set new \<and>
         (\<forall>r \<in> set new. nbrs st r \<subseteq> set new)"
    using split_search_ok [OF finite_set p1 p2 p3 fl p4] by blast
  have "x \<in> set new" if "\<not> f" "(b, x) \<in> conn ?E" for x
  proof (rule class_closed [OF that(2)])
    show "b \<in> set new" using s(4) that(1) by simp
    show "y \<in> set new" if "r \<in> set new" "(r, y) \<in> ?E \<union> ?E\<inverse>" for r y
      using s(4) \<open>\<not> f\<close> that nbrs_edges [OF assms(2), of y r] by blast
  qed
  moreover have "f \<longrightarrow> (a, b) \<in> conn ?E" using s(3) conn_sym by auto
  moreover have "\<forall>x. c' x \<noteq> 0 \<longrightarrow> x \<in> set (q @ new)" using s(2) by auto
  ultimately show ?thesis
    using s(1,4) by (intro exI [of _ f] exI [of _ c'] exI [of _ q] exI [of _ new]) auto
qed

text \<open>What splitting leaves: the locker holds a new set, or nothing has changed.\<close>

lemma split_ok:
  assumes "sets_inv ext st" "owned (locker_addr l) L st" "links_ok st" "compflag st = (\<lambda>_. 0)"
    and "plockSet st a = Some A" "plockSet st b \<noteq> None" "0 < ext A"
    and comps: "comps st (insert (a, b) (edges st))"
  shows "\<exists>l' st'. dbLockSetSplit l a b st = Some (l', st') \<and> comps st' (edges st) \<and> same_links st st' \<and>
    dom (plockSet st') = dom (plockSet st) \<and>
    (l' = l \<and> st' = st \<or>
     (\<exists>B. B \<notin> set (lockSetsActive st) \<and> l' = l\<lparr>locked := locked l @ [B]\<rparr> \<and> sets_inv (ext(B := 1)) st' \<and>
        owned (locker_addr l) (insert B L) st' \<and> plockSet st' a = Some A \<and>
        (\<forall>r. plockSet st' r = Some B \<or> plockSet st' r = plockSet st r)))"
proof -
  have b: "plockSet st b = Some A"
    using compsD [OF comps assms(5,6)] conn_step [of a b "insert (a, b) (edges st)" a] by simp
  have A: "A \<in> set (lockSetsActive st)" "a \<in> set (members_of st A)" using sets_invD(5) [OF assms(1,5)] by auto
  have ok: "set_ok st ext A" by (rule sets_invD(3) [OF assms(1) A(1)])
  have cnt: "\<not> refcount (lock_sets st A) < int (length (members_of st A)) + 1"
    using ok assms(7) by (simp add: set_ok_def)
  have same: "comps st (edges st)" if "(a, b) \<in> conn (edges st)" using comps by (simp add: comps_def conn_in [OF that])
  show ?thesis
  proof (cases "a = b")
    case True
    then have "dbLockSetSplit l a b st = Some (l, st)" using assms(5) by (simp add: dbLockSetSplit_def)
    moreover have "comps st (edges st)" using same True by simp
    ultimately show ?thesis by (intro exI [of _ l] exI [of _ st]) simp
  next
    case False
    note unf = dbLockSetSplit_def
    from search_class [OF assms(1,3,4,5) b comps False] obtain f c' q new where
      s: "split_search a [b] [] (st\<lparr>compflag := (compflag st)(b := 1)\<rparr>) = Some (f, st\<lparr>compflag := c'\<rparr>, q, new)"
      and fl: "\<forall>x. c' x \<noteq> 0 \<longrightarrow> x \<in> set (q @ new)" and f: "f \<longrightarrow> (a, b) \<in> conn (edges st)"
      and nf: "\<not> f \<longrightarrow> q = [] \<and> distinct new \<and> (\<forall>x. x \<in> set new \<longleftrightarrow> (b, x) \<in> conn (edges st)) \<and> a \<notin> set new \<and>
         set new \<subseteq> set (members_of st A)"
      by blast
    have st0: "st\<lparr>compflag := \<lambda>_. 0\<rparr> = st" using assms(4) by (simp add: lock_state.equality)
    show ?thesis
    proof (cases f)
      case True
      have "dbLockSetSplit l a b st = Some (l, st)"
        using assms(5) b False cnt s True reset_all [OF fl, of st] st0 by (simp add: dbLockSetSplit_def)
      then show ?thesis using same f True by (intro exI [of _ l] exI [of _ st]) simp
    next
      case nofind: False
      then have new: "q = []" "distinct new" "\<forall>x. x \<in> set new \<longleftrightarrow> (b, x) \<in> conn (edges st)" "a \<notin> set new"
          "set new \<subseteq> set (members_of st A)" using nf by auto
      have "set new \<subset> set (members_of st A)" using new(4,5) A(2) by blast
      then have len: "length new < length (members_of st A)"
        using psubset_card_mono [OF finite_set] new(2) ok by (metis distinct_card set_ok_def)
      have ne: "new \<noteq> []" using new(3) by (metis conn_refl list.set_intros(1) empty_iff empty_set)
      obtain sp st2 where mk: "makeSet (st\<lparr>compflag := c'\<rparr>) = Some (sp, st2)" "sp \<notin> set (lockSetsActive st)"
          "sets_inv (ext(sp := 1)) st2" "same_graph (st\<lparr>compflag := c'\<rparr>) st2"
          "set (lockSetsActive st2) = insert sp (set (lockSetsActive st))"
          "lock_sets st2 = (lock_sets st)(sp := \<lparr>lockRecordList = [], refcount = 1, ownerlocker = None\<rparr>)"
        using makeSet_ok [of ext "st\<lparr>compflag := c'\<rparr>"] assms(1) by auto
      define st3 where "st3 = (set_owner sp (Some (locker_addr l)) st2)\<lparr>compflag := \<lambda>_. 0\<rparr>"
      have reset: "reset_flags new (set_owner sp (Some (locker_addr l)) st2) = st3"
        using reset_all [of c' new "set_owner sp (Some (locker_addr l)) st2"] fl new(1) mk(4)
        by (simp add: st3_def same_graph_def set_owner_def upd_set_def reset_flags_def)
      have inv3: "sets_inv (ext(sp := 1)) st3"
        unfolding st3_def flags_inv by (rule owner_inv [OF mk(3)]) (simp add: mk(5))
      have Asp: "A \<noteq> sp" using A(1) mk(2) by auto
      have f3: "plockSet st3 = plockSet st" "members_of st3 A = members_of st A" "members_of st3 sp = []"
          "set (lockSetsActive st3) = insert sp (set (lockSetsActive st))" "refcount (lock_sets st3 sp) = 1"
          "refcount (lock_sets st3 A) = refcount (lock_sets st A)"
        using mk(4-6) Asp by (simp_all add: st3_def same_graph_def)
      have mv: "move_records new A sp st3 = Some (moved new A sp st3)"
        using ok new(2,5) Asp f3 by (intro move_records_moved) (auto simp: set_ok_def)
      let ?n = "int (length new)"
      define st4 where "st4 = add_ref sp ?n (add_ref A (- ?n) (moved new A sp st3))"
      have inv4: "sets_inv (ext(sp := 1)) st4"
        unfolding st4_def using A(1) Asp f3 new(2,5) assms(7)
        by (intro moved_inv [OF inv3]) auto
      have p4: "plockSet st4 = (\<lambda>r. if r \<in> set new then Some sp else plockSet st r)"
        by (simp add: st4_def f3(1) cong: if_cong)
      have bnew: "b \<in> set new" using new(3) by simp
      have nosp: "\<forall>r. plockSet st r \<noteq> Some sp" using sets_invD(5) [OF assms(1)] mk(2) by blast
      have domn: "\<forall>r \<in> set new. plockSet st r = Some A" using ok new(5) by (auto simp: set_ok_def)
      have "dbLockSetSplit l a b st = Some (l\<lparr>locked := locked l @ [sp]\<rparr>, st4)"
      proof -
        have "refcount (lock_sets st A) = int (length (members_of st A) + ext A)" using ok by (simp add: set_ok_def)
        with len assms(7) have c: "\<not> refcount (lock_sets st3 A) - ?n < 2" "0 < refcount (lock_sets st3 sp)" "sp \<noteq> A"
          using Asp f3(5,6) by auto
        have o: "ownerlocker (lock_sets st2 sp) = None" "refcount (lock_sets st2 sp) = 1" using mk(6) by simp_all
        have m: "length (members_of (moved new A sp st3) sp) = length new" using f3(3) by simp
        show ?thesis
          using assms(5) b False cnt s nofind ne len mk(1) o reset mv bnew p4 c m
          by (simp add: dbLockSetSplit_def Let_def st4_def [symmetric] not_le)
      qed
      moreover have "comps st4 (edges st)"
        by (rule split_comps [OF comps new(3,4) _ nosp _ p4]) (use b domn in auto)
      moreover have "same_links st st4"
        using mk(4) assms(4) by (simp add: same_links_def st4_def st3_def same_graph_def)
      moreover have "dom (plockSet st4) = dom (plockSet st)" using p4 domn by (auto split: if_splits)
      moreover have "owned (locker_addr l) (insert sp L) st4"
        using assms(2) mk(2,5,6) Asp by (auto simp: owned_def st4_def st3_def)
      moreover have "plockSet st4 a = Some A" using p4 new(4) assms(5) by simp
      ultimately show ?thesis
        using inv4 mk(2) p4 by (intro exI [of _ "l\<lparr>locked := locked l @ [sp]\<rparr>"] exI [of _ st4]) auto
    qed
  qed
qed

end
