(* ===== verification/DbLockRun.thy ===== *)
theory DbLockRun
  imports DbLockSplit
begin

text \<open>
  The protocol of a locker, and that lock sets are the connected components of the database links
  whatever records are created and links set, changed and removed.
\<close>

section \<open>What a locker holds\<close>

definition held :: "(addr option \<times> addr option) list \<Rightarrow> addr \<Rightarrow> nat" where
  "held rs s = length (filter (\<lambda>r. snd r = Some s) rs)"

abbreviation holds :: "dbLocker \<Rightarrow> addr \<Rightarrow> nat" where
  "holds lk s \<equiv> held (lk_refs lk) s + of_bool (s \<in> set (locked lk))"

definition lock_mid :: "dbLocker \<Rightarrow> lock_state \<Rightarrow> bool" where
  "lock_mid lk st \<longleftrightarrow>
     sets_inv (holds lk) st \<and> distinct (locked lk) \<and> owned (locker_addr lk) (set (locked lk)) st \<and>
     links_ok st \<and> compflag st = (\<lambda>_. 0)"

definition lock_inv :: "lock_state \<Rightarrow> bool" where
  "lock_inv st \<longleftrightarrow>
     sets_inv (\<lambda>_. 0) st \<and> (\<forall>a. owned a {} st) \<and> links_ok st \<and> compflag st = (\<lambda>_. 0) \<and> comps st (edges st)"

lemma held_Cons [simp]: "held (x # rs) s = of_bool (snd x = Some s) + held rs s" "held [] s = 0"
  by (simp_all add: held_def)

lemma same_graph_links:
  assumes "same_graph st st'"
  shows "links_ok st' = links_ok st" "edges st' = edges st" "comps st' E = comps st E"
  using assms by (simp_all add: same_graph_def links_ok_def edges_def comps_def)

lemma unlock_ok:
  "sets_inv (\<lambda>s. h s + of_bool (s \<in> set ls)) st \<Longrightarrow> distinct ls \<Longrightarrow> owned a (set ls) st \<Longrightarrow>
   \<exists>st'. unlock_list a ls st = Some st' \<and> sets_inv h st' \<and> owned a {} st' \<and> same_graph st st'"
proof (induction ls arbitrary: st)
  case (Cons s ss)
  let ?e = "\<lambda>x. h x + of_bool (x \<in> set (s # ss))"
  have act: "s \<in> set (lockSetsActive st)" using Cons.prems(3) by (auto simp: owned_def)
  let ?so = "set_owner s None st"
  have inv: "sets_inv ?e ?so" by (rule owner_inv [OF Cons.prems(1) act])
  have pos: "0 < ?e s" by simp
  obtain st1 where st1: "dbLockDecRef s ?so = Some st1" "sets_inv (?e(s := ?e s - 1)) st1" "same_graph ?so st1"
      "\<forall>t. ownerlocker (lock_sets st1 t) = ownerlocker (lock_sets ?so t)"
      "set (lockSetsActive st) - {s} \<subseteq> set (lockSetsActive st1)" "set (lockSetsActive st1) \<subseteq> set (lockSetsActive st)"
    using decRef [OF inv pos] by fastforce
  have "?e(s := ?e s - 1) = (\<lambda>x. h x + of_bool (x \<in> set ss))" using Cons.prems(2) by auto
  then have inv1: "sets_inv (\<lambda>x. h x + of_bool (x \<in> set ss)) st1" using st1(2) by simp
  have own1: "owned a (set ss) st1"
    using Cons.prems(2,3) st1(4-6) by (auto simp: owned_def)
  obtain st' where st': "unlock_list a ss st1 = Some st'" "sets_inv h st'" "owned a {} st'" "same_graph st1 st'"
    using Cons.IH [OF inv1 _ own1] Cons.prems(2) by auto
  have "same_graph st st1" using st1(3) by (simp add: same_graph_def)
  moreover have "ownerlocker (lock_sets st s) = Some a" using Cons.prems(3) act by (simp add: owned_def)
  ultimately show ?case using st' st1(1) same_graph_trans by auto
qed simp

lemma release_ok:
  "sets_inv (held rs) st \<Longrightarrow> owned a {} st \<Longrightarrow>
   \<exists>st'. release_refs rs st = Some st' \<and> sets_inv (\<lambda>_. 0) st' \<and> owned a {} st' \<and> same_graph st st'"
proof (induction rs arbitrary: st)
  case Nil
  have "held [] = (\<lambda>_. 0)" by (simp add: fun_eq_iff)
  with Nil show ?case by simp
next
  case (Cons x rs)
  obtain p o' where x: "x = (p, o')" by fastforce
  show ?case
  proof (cases o')
    case None
    then have "held (x # rs) = held rs" by (simp add: fun_eq_iff x)
    with Cons None x show ?thesis by simp
  next
    case (Some s)
    have pos: "0 < held (x # rs) s" using Some x by simp
    have act: "s \<in> set (lockSetsActive st)" by (rule sets_invD(4) [OF Cons.prems(1) pos])
    obtain st1 where st1: "dbLockDecRef s st = Some st1" "sets_inv ((held (x # rs))(s := held (x # rs) s - 1)) st1"
        "same_graph st st1" "\<forall>t. ownerlocker (lock_sets st1 t) = ownerlocker (lock_sets st t)"
        "set (lockSetsActive st1) \<subseteq> set (lockSetsActive st)"
      using decRef [OF Cons.prems(1) pos] Cons.prems(2) act by (fastforce simp: owned_def)
    have "(held (x # rs))(s := held (x # rs) s - 1) = held rs" using Some x by (auto simp: fun_eq_iff)
    then have "sets_inv (held rs) st1" using st1(2) by simp
    moreover have "owned a {} st1" using Cons.prems(2) st1(4,5) by (auto simp: owned_def)
    ultimately obtain st' where "release_refs rs st1 = Some st'" "sets_inv (\<lambda>_. 0) st'" "owned a {} st'" "same_graph st1 st'"
      using Cons.IH by blast
    with st1(1,3) Some x same_graph_trans show ?thesis by auto
  qed
qed

text \<open>Releasing everything.\<close>

lemma release_all:
  assumes "lock_mid lk st" "comps st (edges st)"
  shows "\<exists>st1 st'. dbScanUnlockMany lk st = Some (lk\<lparr>locked := []\<rparr>, st1) \<and> dbLockerFinalize (lk\<lparr>locked := []\<rparr>) st1 = Some st' \<and>
    lock_inv st' \<and> same_graph st st'"
proof -
  have m: "sets_inv (holds lk) st" "distinct (locked lk)" "owned (locker_addr lk) (set (locked lk)) st"
      "links_ok st" "compflag st = (\<lambda>_. 0)"
    using assms(1) by (simp_all add: lock_mid_def)
  obtain st1 where st1: "unlock_list (locker_addr lk) (locked lk) st = Some st1" "sets_inv (held (lk_refs lk)) st1"
      "owned (locker_addr lk) {} st1" "same_graph st st1"
    using unlock_ok [OF m(1-3)] by blast
  obtain st' where st': "release_refs (lk_refs lk) st1 = Some st'" "sets_inv (\<lambda>_. 0) st'" "owned (locker_addr lk) {} st'"
      "same_graph st1 st'"
    using release_ok [OF st1(2,3)] by blast
  have g: "same_graph st st'" by (rule same_graph_trans [OF st1(4) st'(4)])
  have "lock_inv st'"
    using st'(2,3) same_graph_links [OF g] m(4,5) assms(2) g by (simp add: lock_inv_def owned_def same_graph_def)
  with st1(1) st'(1) g show ?thesis
    by (intro exI [of _ st1] exI [of _ st']) (simp add: dbScanUnlockMany_def dbLockerFinalize_def)
qed

section \<open>Acquiring locks\<close>

lemma lock_one:
  assumes "sets_inv e st" "s \<in> set (lockSetsActive st)" "owned a L st" "s \<notin> L"
  defines "st1 \<equiv> add_ref s 1 (set_owner s (Some a) st)"
  shows "ownerlocker (lock_sets st s) = None" "dbLockIncRef s (set_owner s (Some a) st) = Some st1"
    "sets_inv (e(s := e s + 1)) st1" "owned a (insert s L) st1" "same_graph st st1"
    "lockSetsActive st1 = lockSetsActive st"
proof -
  have inv: "sets_inv e (set_owner s (Some a) st)" by (rule owner_inv [OF assms(1,2)])
  show "ownerlocker (lock_sets st s) = None" using assms(2-4) by (simp add: owned_def)
  show "dbLockIncRef s (set_owner s (Some a) st) = Some st1" "sets_inv (e(s := e s + 1)) st1"
    unfolding st1_def using incRef [OF inv] assms(2) by simp_all
  show "owned a (insert s L) st1" using assms(2,3) by (auto simp: st1_def owned_def)
  show "same_graph st st1" "lockSetsActive st1 = lockSetsActive st" by (simp_all add: st1_def same_graph_def)
qed

text \<open>A locker with up to two different sets, both not locked yet.\<close>

lemma lock_retry_once:
  assumes "locked lk = []" "recomp lk = recomputeCnt st" "lock_refs None (lk_refs lk) lk st = Some (lk', st')"
    and "recomp lk' = recomputeCnt st'" "locked lk' \<noteq> []"
  shows "dbScanLockMany lk st = Some (lk', st')"
  using assms by (simp add: dbScanLockMany_def lock_retry.simps [of lk st] dbLockUpdateRefs_def)

lemma lock_refs_one:
  assumes "sets_inv (held rs) st" "owned a {} st" "S \<in> set (lockSetsActive st)"
    and "rs = [(Some x, Some S), (None, None)] \<or> rs = [(Some x, Some S), (Some y, Some S)]"
    and "locker_addr lk = a" "locked lk = []" "lk_refs lk = rs" "recomp lk = recomputeCnt st"
  shows "\<exists>st'. dbScanLockMany lk st = Some (lk\<lparr>locked := [S]\<rparr>, st') \<and> same_graph st st' \<and>
    sets_inv (holds (lk\<lparr>locked := [S]\<rparr>)) st' \<and> owned a {S} st'"
proof -
  let ?s1 = "add_ref S 1 (set_owner S (Some a) st)"
  note l = lock_one [OF assms(1,3,2), simplified]
  have "lock_refs None (lk_refs lk) lk st = Some (lk\<lparr>locked := [S]\<rparr>, ?s1)"
    using assms(4-7) l(1,2) by auto
  moreover have "recomputeCnt ?s1 = recomputeCnt st" by simp
  ultimately have "dbScanLockMany lk st = Some (lk\<lparr>locked := [S]\<rparr>, ?s1)"
    using assms(6,8) by (intro lock_retry_once) simp_all
  moreover have "(held rs)(S := Suc (held rs S)) = holds (lk\<lparr>locked := [S]\<rparr>)"
    using assms(7) by (auto simp: fun_eq_iff)
  ultimately show ?thesis using l(3-5) by (intro exI [of _ ?s1]) (simp del: held_Cons)
qed

lemma lock_refs_two:
  assumes "sets_inv (held rs) st" "owned a {} st" "S \<in> set (lockSetsActive st)" "T \<in> set (lockSetsActive st)" "S \<noteq> T"
    and "rs = [(Some x, Some S), (Some y, Some T)]"
    and "locker_addr lk = a" "locked lk = []" "lk_refs lk = rs" "recomp lk = recomputeCnt st"
  shows "\<exists>st'. dbScanLockMany lk st = Some (lk\<lparr>locked := [S, T]\<rparr>, st') \<and> same_graph st st' \<and>
    sets_inv (holds (lk\<lparr>locked := [S, T]\<rparr>)) st' \<and> owned a {S, T} st'"
proof -
  define s1 where "s1 = add_ref S 1 (set_owner S (Some a) st)"
  define s2 where "s2 = add_ref T 1 (set_owner T (Some a) s1)"
  have S: "S \<notin> {}" by simp
  note l1 = lock_one [OF assms(1,3,2) S, folded s1_def]
  have "T \<in> set (lockSetsActive s1)" using assms(4) l1(6) by simp
  note l2 = lock_one [OF l1(3) this l1(4), folded s2_def]
  have T: "T \<notin> {S}" using assms(5) by simp
  note l2 = l2 [OF T]
  have "lock_refs None (lk_refs lk) lk st = Some (lk\<lparr>locked := [S, T]\<rparr>, s2)"
    using assms(5-9) l1(1,2) l2(1,2) by simp
  moreover have "recomputeCnt s2 = recomputeCnt st" by (simp add: s2_def s1_def)
  ultimately have "dbScanLockMany lk st = Some (lk\<lparr>locked := [S, T]\<rparr>, s2)"
    using assms(8,10) by (intro lock_retry_once) simp_all
  moreover have "((held rs)(S := held rs S + 1))(T := ((held rs)(S := held rs S + 1)) T + 1) = holds (lk\<lparr>locked := [S, T]\<rparr>)"
    using assms(5,9) by (simp add: fun_eq_iff del: held_Cons)
  moreover have "same_graph st s2" by (rule same_graph_trans [OF l1(5) l2(5)])
  moreover have "owned a {S, T} s2" using l2(4) by (simp add: insert_commute)
  ultimately show ?thesis using l2(3) by (intro exI [of _ s2]) (simp del: held_Cons)
qed

lemma prepare_ok:
  assumes "sets_inv (\<lambda>_. 0) st" "plockSet st r = Some R" "\<forall>t. target = Some t \<longrightarrow> plockSet st t \<noteq> None"
  shows "\<exists>st'. dbLockerPrepare a [Some r, target] st =
      Some (\<lparr>locker_addr = a, locked = [], recomp = recomputeCnt st,
        lk_refs = sort_refs [(Some r, Some R), (target, Option.bind target (plockSet st))]\<rparr>, st') \<and>
    sets_inv (held [(Some r, Some R), (target, Option.bind target (plockSet st))]) st' \<and> same_graph st st' \<and>
    lockSetsActive st' = lockSetsActive st \<and> (\<forall>s. ownerlocker (lock_sets st' s) = ownerlocker (lock_sets st s))"
proof -
  have R: "R \<in> set (lockSetsActive st)" using sets_invD(5) [OF assms(1,2)] by simp
  note i1 = incRef [OF assms(1) R]
  have ne: "recomputeCnt st - 1 \<noteq> recomputeCnt st" by simp
  show ?thesis
  proof (cases target)
    case None
    have "(\<lambda>_. 0)(R := Suc 0) = held [(Some r, Some R), (None, None)]" by (auto simp: fun_eq_iff)
    with i1 None assms(2) ne show ?thesis
      by (intro exI [of _ "add_ref R 1 st"]) (simp add: dbLockerPrepare_def dbLockUpdateRefs_def)
  next
    case (Some t)
    then obtain T where T: "plockSet st t = Some T" using assms(3) by auto
    have "T \<in> set (lockSetsActive (add_ref R 1 st))" using sets_invD(5) [OF assms(1) T] by simp
    note i2 = incRef [OF i1(2) this]
    have "((\<lambda>_. 0)(R := 0 + 1))(T := ((\<lambda>_. 0)(R := 0 + 1)) T + 1) = held [(Some r, Some R), (Some t, Some T)]"
      by (auto simp: fun_eq_iff)
    then have "sets_inv (held [(Some r, Some R), (Some t, Some T)]) (add_ref T 1 (add_ref R 1 st))" using i2(2) by simp
    moreover have "same_graph st (add_ref T 1 (add_ref R 1 st))" by (simp add: same_graph_def)
    ultimately show ?thesis
      using i1(1) i2(1) Some T assms(2) ne
      by (intro exI [of _ "add_ref T 1 (add_ref R 1 st)"]) (simp add: dbLockerPrepare_def dbLockUpdateRefs_def)
  qed
qed

lemma acquire:
  assumes "lock_inv st" "plockSet st r = Some R" "\<forall>t. target = Some t \<longrightarrow> plockSet st t \<noteq> None"
  shows "\<exists>lk0 st0 lk st1. dbLockerPrepare a [Some r, target] st = Some (lk0, st0) \<and>
    dbScanLockMany lk0 st0 = Some (lk, st1) \<and> lock_mid lk st1 \<and> same_graph st st1 \<and> R \<in> set (locked lk) \<and>
    (\<forall>t T. target = Some t \<longrightarrow> plockSet st t = Some T \<longrightarrow> T \<in> set (locked lk))"
proof -
  have inv: "sets_inv (\<lambda>_. 0) st" "owned a {} st" "links_ok st" "compflag st = (\<lambda>_. 0)"
    using assms(1) by (auto simp: lock_inv_def)
  let ?rs = "[(Some r, Some R), (target, Option.bind target (plockSet st))]"
  let ?lk = "\<lparr>locker_addr = a, locked = [], recomp = recomputeCnt st, lk_refs = sort_refs ?rs\<rparr>"
  obtain st0 where p: "dbLockerPrepare a [Some r, target] st = Some (?lk, st0)" "sets_inv (held ?rs) st0" "same_graph st st0"
      "lockSetsActive st0 = lockSetsActive st" "\<forall>s. ownerlocker (lock_sets st0 s) = ownerlocker (lock_sets st s)"
    using prepare_ok [OF inv(1) assms(2,3)] by blast
  have own: "owned a {} st0" using inv(2) p(4,5) by (simp add: owned_def)
  have act: "S \<in> set (lockSetsActive st0)" if "plockSet st x = Some S" for x S
    using sets_invD(5) [OF inv(1) that] p(4) by simp
  have perm: "held (sort_refs ?rs) = held ?rs" by (auto simp: fun_eq_iff sort_refs_def)
  have "\<exists>lk st1. dbScanLockMany ?lk st0 = Some (lk, st1) \<and> same_graph st0 st1 \<and> sets_inv (holds lk) st1 \<and>
      owned a (set (locked lk)) st1 \<and> distinct (locked lk) \<and> locker_addr lk = a \<and>
      set (locked lk) = insert R (case target of None \<Rightarrow> {} | Some t \<Rightarrow> {the (plockSet st t)})"
  proof (cases target)
    case None
    have "sort_refs ?rs = [(Some r, Some R), (None, None)]" using None by (simp add: sort_refs_def)
    from lock_refs_one [of "sort_refs ?rs" st0 a R r _ ?lk] this p(2,3) own act [OF assms(2)] perm None
    show ?thesis by (fastforce simp: same_graph_def)
  next
    case (Some t)
    then obtain T where T: "plockSet st t = Some T" using assms(3) by auto
    have rec: "recomp ?lk = recomputeCnt st0" using p(3) by (simp add: same_graph_def)
    have inv0: "sets_inv (held (sort_refs ?rs)) st0" using p(2) perm by simp
    consider "R = T" | "R \<noteq> T" "sort_refs ?rs = [(Some r, Some R), (Some t, Some T)]"
      | "R \<noteq> T" "sort_refs ?rs = [(Some t, Some T), (Some r, Some R)]"
      using Some T by (cases "R \<le> T") (auto simp: sort_refs_def)
    then show ?thesis
    proof cases
      case 1
      then have "sort_refs ?rs = [(Some r, Some R), (Some t, Some R)]" using Some T by (simp add: sort_refs_def)
      then show ?thesis
        using lock_refs_one [OF inv0 own act [OF assms(2)], of r t ?lk] rec Some T 1 by fastforce
    next
      case 2
      then show ?thesis
        using lock_refs_two [OF inv0 own act [OF assms(2)] act [OF T], of r t ?lk] rec Some T by fastforce
    next
      case 3
      then show ?thesis
        using lock_refs_two [OF inv0 own act [OF T] act [OF assms(2)], of t r ?lk] rec Some T by fastforce
    qed
  qed
  then obtain lk st1 where l: "dbScanLockMany ?lk st0 = Some (lk, st1)" "same_graph st0 st1" "sets_inv (holds lk) st1"
      "owned a (set (locked lk)) st1" "distinct (locked lk)" "locker_addr lk = a"
      "set (locked lk) = insert R (case target of None \<Rightarrow> {} | Some t \<Rightarrow> {the (plockSet st t)})"
    by blast
  have g: "same_graph st st1" by (rule same_graph_trans [OF p(3) l(2)])
  have "lock_mid lk st1"
    using l inv(3,4) g same_graph_links(1) [OF g] by (simp add: lock_mid_def same_graph_def)
  with p(1) l(1,7) g show ?thesis by (intro exI [of _ ?lk] exI [of _ st0] exI [of _ lk] exI [of _ st1]) auto
qed

section \<open>Changing links\<close>

lemma set_clear_slot:
  assumes "i < length xs" "xs ! i = Some t"
  shows "Some x \<in> set xs \<longleftrightarrow> x = t \<or> Some x \<in> set (xs[i := None])"
proof -
  have "Some x \<in> set xs \<longleftrightarrow> (\<exists>j < length xs. xs ! j = Some x)" by (auto simp: in_set_conv_nth)
  moreover have "Some x \<in> set (xs[i := None]) \<longleftrightarrow> (\<exists>j < length xs. j \<noteq> i \<and> xs ! j = Some x)"
    unfolding in_set_conv_nth length_list_update by (metis nth_list_update_eq nth_list_update_neq option.distinct(1))
  ultimately show ?thesis using assms by (metis option.inject)
qed

lemma set_fill_slot:
  assumes "i < length xs" "xs ! i = None"
  shows "Some x \<in> set (xs[i := Some t]) \<longleftrightarrow> x = t \<or> Some x \<in> set xs"
proof -
  have "xs[i := None] = xs" using list_update_id [of xs i] assms(2) by simp
  then show ?thesis using set_clear_slot [of i "xs[i := Some t]" t x] assms(1) by simp
qed

definition clear_link :: "addr \<Rightarrow> nat \<Rightarrow> addr \<Rightarrow> lock_state \<Rightarrow> lock_state" where
  "clear_link r i t st =
     st\<lparr>db_links := (db_links st)(r := (db_links st r)[i := None]),
       bklnk := (bklnk st)(t := remove1 (r, i) (bklnk st t))\<rparr>"

lemma link_frame [simp]:
  "sets_inv e (clear_link r i t st) = sets_inv e st" "owned a L (clear_link r i t st) = owned a L st"
  "compflag (clear_link r i t st) = compflag st" "plockSet (clear_link r i t st) = plockSet st"
  "comps (clear_link r i t st) E = comps st E"
  "sets_inv e (set_link r i t st) = sets_inv e st" "owned a L (set_link r i t st) = owned a L st"
  "compflag (set_link r i t st) = compflag st" "plockSet (set_link r i t st) = plockSet st"
  "comps (set_link r i t st) E = comps st E"
  "db_links (clear_link r i t st) = (db_links st)(r := (db_links st r)[i := None])"
  "db_links (set_link r i t st) = (db_links st)(r := (db_links st r)[i := Some t])"
  by (simp_all add: clear_link_def set_link_def sets_inv_def set_ok_def free_ok_def owned_def comps_def)

lemma clear_link_edges:
  assumes "i < length (db_links st r)" "db_links st r ! i = Some t"
  shows "edges st = insert (r, t) (edges (clear_link r i t st))"
proof -
  have "(x, y) \<in> edges st \<longleftrightarrow> (x, y) \<in> insert (r, t) (edges (clear_link r i t st))" for x y
    using set_clear_slot [OF assms, of y] by (cases "x = r") (auto simp: edges_def)
  then show ?thesis by auto
qed

lemma set_link_edges:
  assumes "i < length (db_links st r)" "db_links st r ! i = None"
  shows "edges (set_link r i t st) = insert (r, t) (edges st)"
proof -
  have "(x, y) \<in> edges (set_link r i t st) \<longleftrightarrow> (x, y) \<in> insert (r, t) (edges st)" for x y
    using set_fill_slot [OF assms, of y t] by (cases "x = r") (auto simp: edges_def)
  then show ?thesis by auto
qed

lemma clear_link_ok:
  assumes "links_ok st" "i < length (db_links st r)" "db_links st r ! i = Some t"
  shows "links_ok (clear_link r i t st)"
proof -
  have e: "edges (clear_link r i t st) \<subseteq> edges st" using clear_link_edges [OF assms(2,3)] by auto
  have b: "distinct (bklnk st y)" "(x, j) \<in> set (bklnk st y) \<longleftrightarrow> j < length (db_links st x) \<and> db_links st x ! j = Some y" for x y j
    using assms(1) by (auto simp: links_ok_def)
  have "distinct (bklnk (clear_link r i t st) y)" for y using b(1) by (simp add: clear_link_def)
  moreover have "(x, j) \<in> set (bklnk (clear_link r i t st) y) \<longleftrightarrow>
      j < length (db_links (clear_link r i t st) x) \<and> db_links (clear_link r i t st) x ! j = Some y" for x y j
    using b assms(2,3) by (auto simp: clear_link_def set_remove1_eq nth_list_update)
  ultimately show ?thesis using e assms(1) by (auto simp: links_ok_def)
qed

lemma set_link_ok:
  assumes "links_ok st" "i < length (db_links st r)" "db_links st r ! i = None" "plockSet st r \<noteq> None" "plockSet st t \<noteq> None"
  shows "links_ok (set_link r i t st)"
proof -
  have b: "distinct (bklnk st y)" "(x, j) \<in> set (bklnk st y) \<longleftrightarrow> j < length (db_links st x) \<and> db_links st x ! j = Some y" for x y j
    using assms(1) by (auto simp: links_ok_def)
  have "distinct (bklnk (set_link r i t st) y)" for y using b assms(3) by (auto simp: set_link_def)
  moreover have "(x, j) \<in> set (bklnk (set_link r i t st) y) \<longleftrightarrow>
      j < length (db_links (set_link r i t st) x) \<and> db_links (set_link r i t st) x ! j = Some y" for x y j
    using b assms(2,3) by (auto simp: set_link_def nth_list_update)
  moreover have "plockSet st x \<noteq> None \<and> plockSet st y \<noteq> None" if "(x, y) \<in> edges (set_link r i t st)" for x y
    using that assms(1,4,5) set_link_edges [OF assms(2,3), of t] by (auto simp: links_ok_def)
  ultimately show ?thesis by (simp add: links_ok_def)
qed

lemma same_links_ok:
  assumes "same_links st st'" "dom (plockSet st') = dom (plockSet st)" "links_ok st"
  shows "links_ok st'" "edges st' = edges st"
proof -
  have "plockSet st' x = None \<longleftrightarrow> plockSet st x = None" for x using assms(2) by (metis domIff)
  then show "links_ok st'" "edges st' = edges st"
    using assms(1,3) by (auto simp: same_links_def links_ok_def edges_def)
qed

lemma remove_link_ok:
  assumes "lock_mid lk st" "comps st (edges st)" "plockSet st r = Some R" "R \<in> set (locked lk)"
    and "i < length (db_links st r)" "db_links st r ! i = Some t"
  shows "\<exists>lk' st'. dbDbRemoveLink lk r i st = Some (lk', st') \<and> lock_mid lk' st' \<and> comps st' (edges st') \<and>
    db_links st' = (db_links st)(r := (db_links st r)[i := None]) \<and> dom (plockSet st') = dom (plockSet st) \<and>
    plockSet st' r = Some R \<and> R \<in> set (locked lk') \<and>
    (\<forall>x S. plockSet st x = Some S \<longrightarrow> S \<in> set (locked lk) \<longrightarrow> (\<exists>S' \<in> set (locked lk'). plockSet st' x = Some S'))"
proof -
  let ?sc = "clear_link r i t st"
  have m: "sets_inv (holds lk) st" "distinct (locked lk)" "owned (locker_addr lk) (set (locked lk)) st"
      "links_ok st" "compflag st = (\<lambda>_. 0)"
    using assms(1) by (simp_all add: lock_mid_def)
  have ok: "links_ok ?sc" by (rule clear_link_ok [OF m(4) assms(5,6)])
  have c: "comps ?sc (insert (r, t) (edges ?sc))" using assms(2) clear_link_edges [OF assms(5,6)] by simp
  have t: "plockSet ?sc t \<noteq> None"
    using m(4) assms(5,6) nth_mem [OF assms(5)] by (fastforce simp: links_ok_def edges_def)
  have pos: "0 < holds lk R" using assms(4) by simp
  have pre: "sets_inv (holds lk) ?sc" "owned (locker_addr lk) (set (locked lk)) ?sc" "compflag ?sc = (\<lambda>_. 0)"
      "plockSet ?sc r = Some R"
    using m assms(3) by simp_all
  from split_ok [OF pre(1,2) ok pre(3,4) t pos c] obtain l' st' where
    s: "dbLockSetSplit lk r t ?sc = Some (l', st')" "comps st' (edges ?sc)" "same_links ?sc st'"
      "dom (plockSet st') = dom (plockSet ?sc)"
    and alt: "l' = lk \<and> st' = ?sc \<or>
     (\<exists>B. B \<notin> set (lockSetsActive ?sc) \<and> l' = lk\<lparr>locked := locked lk @ [B]\<rparr> \<and> sets_inv ((holds lk)(B := 1)) st' \<and>
        owned (locker_addr lk) (insert B (set (locked lk))) st' \<and> plockSet st' r = Some R \<and>
        (\<forall>x. plockSet st' x = Some B \<or> plockSet st' x = plockSet ?sc x))"
    by blast
  note links = same_links_ok [OF s(3,4) ok]
  have rem: "dbDbRemoveLink lk r i st = Some (l', st')"
    using s(1) assms(6) by (simp add: dbDbRemoveLink_def clear_link_def)
  have fin: "comps st' (edges st')" "db_links st' = (db_links st)(r := (db_links st r)[i := None])"
      "dom (plockSet st') = dom (plockSet st)"
    using s(2-4) links by (simp_all add: same_links_def)
  show ?thesis
  proof (cases "l' = lk \<and> st' = ?sc")
    case True
    then have "lock_mid l' st'" using m ok by (simp add: lock_mid_def)
    with True rem fin assms(3,4) show ?thesis by (intro exI [of _ l'] exI [of _ st']) auto
  next
    case False
    with alt obtain B where B: "B \<notin> set (lockSetsActive ?sc)" "l' = lk\<lparr>locked := locked lk @ [B]\<rparr>"
        "sets_inv ((holds lk)(B := 1)) st'" "owned (locker_addr lk) (insert B (set (locked lk))) st'"
        "plockSet st' r = Some R" "\<forall>x. plockSet st' x = Some B \<or> plockSet st' x = plockSet ?sc x"
      by blast
    have "holds lk B = 0" using pre(1) B(1) by (simp add: sets_inv_def)
    then have "(holds lk)(B := 1) = holds l'" "distinct (locked l')" using B(2) m(2) by (auto simp: fun_eq_iff)
    then have "lock_mid l' st'" using B(2-4) links(1) s(3) m(5) by (simp add: lock_mid_def same_links_def)
    moreover have "\<exists>S' \<in> set (locked l'). plockSet st' x = Some S'"
      if "plockSet st x = Some S" "S \<in> set (locked lk)" for x S
      using B(2,6) that by (metis Un_iff link_frame(4) list.set_intros(1) dbLocker.simps(2) dbLocker.surjective dbLocker.update_convs(2) set_append)
    ultimately show ?thesis using rem fin B(2,5) assms(4) by (intro exI [of _ l'] exI [of _ st']) auto
  qed
qed

lemma add_link_ok:
  assumes "lock_mid lk st" "comps st (edges st)" "plockSet st r = Some A" "plockSet st t = Some B"
    and "A \<in> set (locked lk)" "B \<in> set (locked lk)" "i < length (db_links st r)" "db_links st r ! i = None"
  shows "\<exists>lk' st'. dbDbAddLink lk r i t st = Some (lk', st') \<and> lock_mid lk' st' \<and> comps st' (edges st') \<and>
    db_links st' = (db_links st)(r := (db_links st r)[i := Some t]) \<and> dom (plockSet st') = dom (plockSet st)"
proof -
  let ?sl = "set_link r i t st"
  have m: "sets_inv (holds lk) ?sl" "distinct (locked lk)" "owned (locker_addr lk) (set (locked lk)) ?sl"
      "links_ok st" "compflag st = (\<lambda>_. 0)"
    using assms(1) by (simp_all add: lock_mid_def)
  have ok: "links_ok ?sl" by (rule set_link_ok [OF m(4) assms(7,8)]) (use assms(3,4) in auto)
  have e: "edges ?sl = insert (r, t) (edges st)" by (rule set_link_edges [OF assms(7,8)])
  have p: "plockSet ?sl r = Some A" "plockSet ?sl t = Some B" using assms(3,4) by simp_all
  show ?thesis
  proof (cases "A = B")
    case True
    have "owns (Some lk) A ?sl" using m(3) assms(5) by (auto simp: owns_def owned_def)
    then have "dbDbAddLink lk r i t st = Some (lk, ?sl)"
      using p True by (simp add: dbDbAddLink_def dbLockSetMerge_def)
    moreover have "(r, t) \<in> conn (edges st)" using compsD [OF assms(2,3), of t] assms(4) True by simp
    then have "comps ?sl (edges ?sl)" using assms(2) e conn_in by (simp add: comps_def)
    moreover have "lock_mid lk ?sl" using m ok by (simp add: lock_mid_def)
    ultimately show ?thesis by (intro exI [of _ lk] exI [of _ ?sl]) simp
  next
    case False
    let ?lk = "lk\<lparr>locked := remove1 B (locked lk)\<rparr>"
    have pos: "0 < holds lk B" using assms(6) by simp
    obtain st' where s: "dbLockSetMerge (Some lk) r t ?sl = Some (Some ?lk, st')" "sets_inv ((holds lk)(B := holds lk B - 1)) st'"
        "owned (locker_addr lk) (set (locked lk) - {B}) st'" "plockSet st' = merged A B ?sl" "same_links ?sl st'"
      using merge_locked [OF m(1) p False pos m(3) assms(5,6)] by blast
    have d: "dom (plockSet st') = dom (plockSet ?sl)" using s(4) assms(4) by (auto simp: merged_def split: if_splits)
    note links = same_links_ok [OF s(5) d ok]
    have "(holds lk)(B := holds lk B - 1) = holds ?lk" using m(2) assms(6) by (auto simp: fun_eq_iff)
    then have "lock_mid ?lk st'"
      using s(2,3,5) m(2,5) links(1) by (simp add: lock_mid_def same_links_def)
    moreover have "comps st' (edges st')"
      using merged_comps [of ?sl "edges st" r A t B st'] assms(2-4) s(4) links(2) e by simp
    ultimately show ?thesis
      using s(1,5) d by (intro exI [of _ ?lk] exI [of _ st']) (simp add: dbDbAddLink_def same_links_def)
  qed
qed

section \<open>Creating records and links\<close>

lemma create_ok:
  assumes "lock_inv st" "plockSet st r = None"
  shows "\<exists>s st'. createLockRecord r st = Some st' \<and> lock_inv st' \<and> plockSet st' = (plockSet st)(r \<mapsto> s) \<and>
    db_links st' = db_links st"
proof -
  have inv: "sets_inv (\<lambda>_. 0) st" "\<And>a. owned a {} st" "links_ok st" "compflag st = (\<lambda>_. 0)" "comps st (edges st)"
    using assms(1) by (auto simp: lock_inv_def)
  obtain s st1 where mk: "makeSet st = Some (s, st1)" "s \<notin> set (lockSetsActive st)"
      "sets_inv ((\<lambda>_. 0)(s := 1)) st1" "same_graph st st1" "set (lockSetsActive st1) = insert s (set (lockSetsActive st))"
      "lock_sets st1 = (lock_sets st)(s := \<lparr>lockRecordList = [], refcount = 1, ownerlocker = None\<rparr>)"
    using makeSet_ok [OF inv(1)] by blast
  define st2 where "st2 = upd_set s (\<lambda>l. l\<lparr>lockRecordList := lockRecordList l @ [r]\<rparr>) (st1\<lparr>plockSet := (plockSet st1)(r \<mapsto> s)\<rparr>)"
  have eq: "createLockRecord r st = Some st2" using assms(2) mk(1) by (simp add: createLockRecord_def st2_def)
  have g: "plockSet st2 = (plockSet st)(r \<mapsto> s)" "compflag st2 = compflag st" "db_links st2 = db_links st" "bklnk st2 = bklnk st"
    using mk(4) by (simp_all add: st2_def same_graph_def)
  have f: "lock_sets st2 = (lock_sets st)(s := \<lparr>lockRecordList = [r], refcount = 1, ownerlocker = None\<rparr>)"
      "lockSetsActive st2 = lockSetsActive st1" "lockSetsFree st2 = lockSetsFree st1" "set_brk st2 = set_brk st1"
    using mk(6) by (simp_all add: st2_def)
  have nosr: "r \<notin> set (members_of st t)" if "t \<in> set (lockSetsActive st)" for t
    using sets_invD(3) [OF inv(1) that] assms(2) by (auto simp: set_ok_def)
  have "set_ok st2 (\<lambda>_. 0) t" if "t \<in> set (lockSetsActive st1)" for t
    using sets_invD(3) [OF inv(1), of t] that mk(2,5) f(1) g(1) nosr [of t]
    by (cases "t = s") (auto simp: set_ok_def)
  moreover have "free_ok st2 t" if "t \<in> set (lockSetsFree st1)" for t
  proof -
    have "t \<noteq> s" using that sets_invD(2) [OF mk(3)] mk(5) by auto
    then have "lock_sets st2 t = lock_sets st1 t" using mk(6) f(1) by simp
    moreover have "free_ok st1 t" using mk(3) that by (simp add: sets_inv_def)
    ultimately show ?thesis by (simp add: free_ok_def)
  qed
  moreover have "t \<in> set (lockSetsActive st1) \<and> x \<in> set (members_of st2 t)" if "plockSet st2 x = Some t" for x t
    using that sets_invD(5) [OF inv(1), of x t] mk(2,5) f(1) g(1) by (cases "x = r") auto
  ultimately have "sets_inv (\<lambda>_. 0) st2"
    using mk(3) f(2-4) unfolding sets_inv_def by auto
  moreover have "owned a {} st2" for a using inv(2) [of a] mk(2,5) f by (auto simp: owned_def)
  moreover have e: "edges st2 = edges st" "links_ok st2" using inv(3) g by (auto simp: edges_def links_ok_def)
  moreover have "comps st2 (edges st)"
  proof -
    have nor: "\<not> (r, y) \<in> edges st \<union> (edges st)\<inverse>" for y
      using inv(3) assms(2) unfolding links_ok_def by (metis Un_iff converseD)
    have iso: "(r, x) \<in> conn (edges st) \<longleftrightarrow> x = r" for x
      using class_closed [of r x "edges st" "{r}"] nor by (metis conn_refl singletonD singletonI)
    have iso': "(x, r) \<in> conn (edges st) \<longleftrightarrow> x = r" for x using iso conn_sym by blast
    have "\<forall>x. plockSet st x \<noteq> Some s" using sets_invD(5) [OF inv(1)] mk(2) by blast
    then have "plockSet st2 x = plockSet st2 y \<longleftrightarrow> (x, y) \<in> conn (edges st)"
      if "plockSet st2 x \<noteq> None" "plockSet st2 y \<noteq> None" for x y
      using that iso iso' inv(5) g(1) by (cases "x = r"; cases "y = r") (auto simp: comps_def dest: sym)
    then show ?thesis by (simp add: comps_def)
  qed
  ultimately have "lock_inv st2" using inv(4) g(2) by (simp add: lock_inv_def)
  with eq g show ?thesis by blast
qed

lemma init_link_ok:
  assumes "lock_inv st" "plockSet st r \<noteq> None" "plockSet st t \<noteq> None" "i < length (db_links st r)" "db_links st r ! i = None"
  shows "\<exists>st'. dbDbInitLink r i t st = Some st' \<and> lock_inv st' \<and> dom (plockSet st') = dom (plockSet st) \<and>
    db_links st' = (db_links st)(r := (db_links st r)[i := Some t])"
proof -
  let ?sl = "set_link r i t st"
  obtain A B where AB: "plockSet ?sl r = Some A" "plockSet ?sl t = Some B" using assms(2,3) by auto
  have inv: "sets_inv (\<lambda>_. 0) ?sl" "\<And>a. owned a {} ?sl" "links_ok st" "compflag st = (\<lambda>_. 0)" "comps ?sl (edges st)"
    using assms(1) by (auto simp: lock_inv_def)
  have ok: "links_ok ?sl" by (rule set_link_ok [OF inv(3) assms(4,5,2,3)])
  obtain st' where s: "dbLockSetMerge None r t ?sl = Some (None, st')" "sets_inv (\<lambda>_. 0) st'" "owned 0 {} st'"
      "plockSet st' = merged A B ?sl" "same_links ?sl st'"
    using merge_init [OF inv(1) AB _ inv(2)] by blast
  have d: "dom (plockSet st') = dom (plockSet ?sl)" using s(4) AB by (auto simp: merged_def split: if_splits)
  note links = same_links_ok [OF s(5) d ok]
  have "plockSet st' r = plockSet st' t" using s(4) AB by (simp add: merged_def)
  then have eq: "dbDbInitLink r i t st = Some st'" using s(1) by (simp add: dbDbInitLink_def)
  have "comps st' (edges st')"
    using merged_comps [OF inv(5) AB s(4)] links(2) set_link_edges [OF assms(4,5), of t] by simp
  then have "lock_inv st'"
    using s(2,3,5) links(1) inv(4) by (simp add: lock_inv_def owned_def same_links_def)
  with eq d s(5) show ?thesis by (auto simp: same_links_def)
qed

text \<open>The link field after a put, and replacing the link while the sets of both records are locked.\<close>

definition put_result :: "addr option \<Rightarrow> bool \<Rightarrow> bool \<Rightarrow> addr option \<Rightarrow> addr option" where
  "put_result target refused failed old = (if refused then old else if failed then None else target)"

lemma replace_link_ok:
  assumes "lock_mid lk1 st1" "comps st1 (edges st1)" "plockSet st1 r = Some R" "R \<in> set (locked lk1)"
    and "\<forall>t. target = Some t \<longrightarrow> (\<exists>T \<in> set (locked lk1). plockSet st1 t = Some T)" "i < length (db_links st1 r)"
  shows "\<exists>lk3 st3.
    (if refused then Some (lk1, st1)
     else do {
       (lk, st) \<leftarrow> (if db_links st1 r ! i = None then Some (lk1, st1) else dbDbRemoveLink lk1 r i st1);
       if failed then Some (lk, st) else case target of None \<Rightarrow> Some (lk, st) | Some t \<Rightarrow> dbDbAddLink lk r i t st
     }) = Some (lk3, st3) \<and>
    lock_mid lk3 st3 \<and> comps st3 (edges st3) \<and> dom (plockSet st3) = dom (plockSet st1) \<and>
    db_links st3 = (db_links st1)(r := (db_links st1 r)[i := put_result target refused failed (db_links st1 r ! i)])"
proof (cases refused)
  case True
  with assms(1,2) show ?thesis by (intro exI [of _ lk1] exI [of _ st1]) (simp add: put_result_def)
next
  case False
  have "\<exists>lk2 st2. (if db_links st1 r ! i = None then Some (lk1, st1) else dbDbRemoveLink lk1 r i st1) = Some (lk2, st2) \<and>
      lock_mid lk2 st2 \<and> comps st2 (edges st2) \<and> db_links st2 = (db_links st1)(r := (db_links st1 r)[i := None]) \<and>
      dom (plockSet st2) = dom (plockSet st1) \<and> plockSet st2 r = Some R \<and> R \<in> set (locked lk2) \<and>
      (\<forall>t. target = Some t \<longrightarrow> (\<exists>T \<in> set (locked lk2). plockSet st2 t = Some T))"
  proof (cases "db_links st1 r ! i")
    case None
    then have "(db_links st1)(r := (db_links st1 r)[i := None]) = db_links st1"
      using list_update_id [of "db_links st1 r" i] by simp
    with None show ?thesis using assms by (intro exI [of _ lk1] exI [of _ st1]) auto
  next
    case (Some t)
    from remove_link_ok [OF assms(1-4,6) Some] Some show ?thesis using assms(5) by fastforce
  qed
  then obtain lk2 st2 where m: "(if db_links st1 r ! i = None then Some (lk1, st1) else dbDbRemoveLink lk1 r i st1) = Some (lk2, st2)"
      "lock_mid lk2 st2" "comps st2 (edges st2)" "db_links st2 = (db_links st1)(r := (db_links st1 r)[i := None])"
      "dom (plockSet st2) = dom (plockSet st1)" "plockSet st2 r = Some R" "R \<in> set (locked lk2)"
      "\<forall>t. target = Some t \<longrightarrow> (\<exists>T \<in> set (locked lk2). plockSet st2 t = Some T)"
    by blast
  show ?thesis
  proof (cases "failed \<or> target = None")
    case True
    with False m show ?thesis by (intro exI [of _ lk2] exI [of _ st2]) (auto simp: put_result_def)
  next
    case ok: False
    then obtain t T where t: "target = Some t" "plockSet st2 t = Some T" "T \<in> set (locked lk2)" using m(8) by auto
    have "i < length (db_links st2 r)" "db_links st2 r ! i = None" using m(4) assms(6) by simp_all
    from add_link_ok [OF m(2,3,6) t(2) m(7) t(3) this] m(1,4,5) t(1) ok False show ?thesis
      by (auto simp: put_result_def)
  qed
qed

lemma put_link_ok:
  assumes "lock_inv st" "plockSet st r \<noteq> None" "\<forall>t. target = Some t \<longrightarrow> plockSet st t \<noteq> None" "i < length (db_links st r)"
  shows "\<exists>st'. dbPutFieldLink a r i target refused failed st = Some st' \<and> lock_inv st' \<and> dom (plockSet st') = dom (plockSet st) \<and>
    db_links st' = (db_links st)(r := (db_links st r)[i := put_result target refused failed (db_links st r ! i)])"
proof -
  obtain R where R: "plockSet st r = Some R" using assms(2) by auto
  obtain lk0 st0 lk1 st1 where q: "dbLockerPrepare a [Some r, target] st = Some (lk0, st0)"
      "dbScanLockMany lk0 st0 = Some (lk1, st1)" "lock_mid lk1 st1" "same_graph st st1" "R \<in> set (locked lk1)"
      "\<forall>t T. target = Some t \<longrightarrow> plockSet st t = Some T \<longrightarrow> T \<in> set (locked lk1)"
    using acquire [OF assms(1) R assms(3)] by blast
  have g: "plockSet st1 = plockSet st" "db_links st1 = db_links st" "comps st1 (edges st1)"
    using q(4) same_graph_links [OF q(4)] assms(1) by (simp_all add: same_graph_def lock_inv_def)
  have tg: "\<forall>t. target = Some t \<longrightarrow> (\<exists>T \<in> set (locked lk1). plockSet st1 t = Some T)" using q(6) g(1) assms(3) by fastforce
  from replace_link_ok [OF q(3) g(3) _ q(5) tg, of r i refused failed] R g assms(4) obtain lk3 st3 where
    n: "(if refused then Some (lk1, st1)
     else do {
       (lk, st) \<leftarrow> (if db_links st1 r ! i = None then Some (lk1, st1) else dbDbRemoveLink lk1 r i st1);
       if failed then Some (lk, st) else case target of None \<Rightarrow> Some (lk, st) | Some t \<Rightarrow> dbDbAddLink lk r i t st
     }) = Some (lk3, st3)" "lock_mid lk3 st3" "comps st3 (edges st3)" "dom (plockSet st3) = dom (plockSet st)"
      "db_links st3 = (db_links st)(r := (db_links st r)[i := put_result target refused failed (db_links st r ! i)])"
    by auto
  obtain st4 st' where f: "dbScanUnlockMany lk3 st3 = Some (lk3\<lparr>locked := []\<rparr>, st4)"
      "dbLockerFinalize (lk3\<lparr>locked := []\<rparr>) st4 = Some st'" "lock_inv st'" "same_graph st3 st'"
    using release_all [OF n(2,3)] by blast
  have "dbPutFieldLink a r i target refused failed st = Some st'"
    unfolding dbPutFieldLink_def q(1) bind.bind_lunit prod.case q(2) n(1) f(1,2) by simp
  with f(3,4) n(4,5) show ?thesis by (auto simp: same_graph_def)
qed

section \<open>Every run\<close>

text \<open>
  The runs of an IOC as lock sets see them: the records get their lock records, the links that the
  database files name are initialised, then links are rewritten by puts.
\<close>

definition no_records :: "(addr \<Rightarrow> nat) \<Rightarrow> lock_state" where
  "no_records nlinks =
     \<lparr>plockSet = Map.empty, compflag = (\<lambda>_. 0), lock_sets = (\<lambda>_. \<lparr>lockRecordList = [], refcount = 0, ownerlocker = None\<rparr>),
      lockSetsActive = [], lockSetsFree = [], set_brk = 0, recomputeCnt = 0,
      db_links = (\<lambda>r. replicate (nlinks r) None), bklnk = (\<lambda>_. [])\<rparr>"

inductive lock_reach :: "(addr \<Rightarrow> nat) \<Rightarrow> lock_state \<Rightarrow> bool" for nlinks where
  start: "lock_reach nlinks (no_records nlinks)"
| new_record: "lock_reach nlinks st \<Longrightarrow> plockSet st r = None \<Longrightarrow> createLockRecord r st = Some st' \<Longrightarrow> lock_reach nlinks st'"
| init: "lock_reach nlinks st \<Longrightarrow> plockSet st r \<noteq> None \<Longrightarrow> plockSet st t \<noteq> None \<Longrightarrow> i < nlinks r \<Longrightarrow>
    db_links st r ! i = None \<Longrightarrow> dbDbInitLink r i t st = Some st' \<Longrightarrow> lock_reach nlinks st'"
| put: "lock_reach nlinks st \<Longrightarrow> plockSet st r \<noteq> None \<Longrightarrow> \<forall>t. target = Some t \<longrightarrow> plockSet st t \<noteq> None \<Longrightarrow> i < nlinks r \<Longrightarrow>
    dbPutFieldLink a r i target refused failed st = Some st' \<Longrightarrow> lock_reach nlinks st'"

lemma start_inv: "lock_inv (no_records nlinks)"
  by (simp add: lock_inv_def no_records_def sets_inv_def owned_def links_ok_def edges_def comps_def)

lemma reach_inv: "lock_reach nlinks st \<Longrightarrow> lock_inv st \<and> (\<forall>r. length (db_links st r) = nlinks r)"
proof (induction rule: lock_reach.induct)
  case start
  show ?case using start_inv by (simp add: no_records_def)
next
  case (new_record st r st')
  then show ?case using create_ok [of st r] by auto
next
  case (init st r t i st')
  then show ?case using init_link_ok [of st r t i] by auto
next
  case (put st r target i a refused failed st')
  then show ?case using put_link_ok [of st r target i a refused failed] by auto
qed

lemma reach_comps:
  assumes "lock_reach nlinks st" "plockSet st x \<noteq> None" "plockSet st y \<noteq> None"
  shows "plockSet st x = plockSet st y \<longleftrightarrow> (x, y) \<in> conn (edges st)"
  using reach_inv [OF assms(1)] assms(2,3) by (simp add: lock_inv_def comps_def)

lemma reach_set:
  assumes "lock_reach nlinks st" "s \<in> set (lockSetsActive st)"
  shows "set (members_of st s) = {r. plockSet st r = Some s}" "distinct (members_of st s)" "members_of st s \<noteq> []"
    "refcount (lock_sets st s) = int (length (members_of st s))" "ownerlocker (lock_sets st s) = None"
proof -
  have inv: "sets_inv (\<lambda>_. 0) st" "owned 0 {} st" using reach_inv [OF assms(1)] by (auto simp: lock_inv_def)
  show "set (members_of st s) = {r. plockSet st r = Some s}" "distinct (members_of st s)" "members_of st s \<noteq> []"
    "refcount (lock_sets st s) = int (length (members_of st s))"
    using sets_invD(3) [OF inv(1) assms(2)] sets_invD(5) [OF inv(1), of _ s] by (auto simp: set_ok_def)
  show "ownerlocker (lock_sets st s) = None" using inv(2) assms(2) by (simp add: owned_def)
qed

text \<open>
  C7: Whatever records are created and whatever links are initialised, changed and removed, two records are in the
  same lock set exactly when database links connect them, in either direction and over any number of
  records; every active lock set lists exactly its records, each once and at least one, has as many references as
  records, and no owner.\<close>

theorem lock_sets_are_components:
  assumes "lock_reach nlinks st"
  shows "(\<forall>x y. plockSet st x \<noteq> None \<longrightarrow> plockSet st y \<noteq> None \<longrightarrow>
      (plockSet st x = plockSet st y \<longleftrightarrow> (x, y) \<in> conn (edges st))) \<and>
    (\<forall>s \<in> set (lockSetsActive st).
      set (lockRecordList (lock_sets st s)) = {r. plockSet st r = Some s} \<and> distinct (lockRecordList (lock_sets st s)) \<and>
      lockRecordList (lock_sets st s) \<noteq> [] \<and>
      refcount (lock_sets st s) = int (length (lockRecordList (lock_sets st s))) \<and> ownerlocker (lock_sets st s) = None)"
  using reach_comps [OF assms] reach_set [OF assms] by blast

text \<open>Three records, each with one link field, the first of them linked to the second.\<close>

lemma linked_records:
  "\<exists>st. lock_reach (\<lambda>_. 1) st \<and> plockSet st 0 \<noteq> None \<and> plockSet st 1 \<noteq> None \<and> plockSet st 2 \<noteq> None \<and>
     db_links st = (\<lambda>_. [None])(0 := [Some 1])"
proof -
  let ?s0 = "no_records (\<lambda>_. 1)"
  have r0: "lock_reach (\<lambda>_. 1) ?s0" "plockSet ?s0 = Map.empty" "db_links ?s0 = (\<lambda>_. [None])"
    by (rule lock_reach.start) (simp_all add: no_records_def)
  note inv = conjunct1 [OF reach_inv]
  obtain a s1 where s1: "createLockRecord 0 ?s0 = Some s1" "plockSet s1 = [0 \<mapsto> a]" "db_links s1 = (\<lambda>_. [None])"
    using create_ok [OF inv [OF r0(1)], of 0] r0 by auto
  have r1: "lock_reach (\<lambda>_. 1) s1" using lock_reach.new_record [OF r0(1) _ s1(1)] r0(2) by simp
  obtain b s2 where s2: "createLockRecord 1 s1 = Some s2" "plockSet s2 = [0 \<mapsto> a, 1 \<mapsto> b]" "db_links s2 = (\<lambda>_. [None])"
    using create_ok [OF inv [OF r1], of 1] s1 by auto
  have r2: "lock_reach (\<lambda>_. 1) s2" using lock_reach.new_record [OF r1 _ s2(1)] s1(2) by simp
  obtain c s3 where s3: "createLockRecord 2 s2 = Some s3" "plockSet s3 = [0 \<mapsto> a, 1 \<mapsto> b, 2 \<mapsto> c]" "db_links s3 = (\<lambda>_. [None])"
    using create_ok [OF inv [OF r2], of 2] s2 by auto
  have r3: "lock_reach (\<lambda>_. 1) s3" using lock_reach.new_record [OF r2 _ s3(1)] s2(2) by simp
  obtain s4 where s4: "dbDbInitLink 0 0 1 s3 = Some s4" "dom (plockSet s4) = dom (plockSet s3)"
      "db_links s4 = (\<lambda>_. [None])(0 := [Some 1])"
    using init_link_ok [OF inv [OF r3], of 0 1 0] s3 by auto
  have "lock_reach (\<lambda>_. 1) s4" using lock_reach.init [OF r3 _ _ _ _ s4(1)] s3 by simp
  moreover have "\<forall>x \<in> {0, 1, 2}. plockSet s4 x \<noteq> None" using s4(2) s3(2) by (auto simp: domIff [symmetric])
  ultimately show ?thesis using s4(3) by auto
qed

theorem lock_sets_are_components_witness:
  "\<exists>st. lock_reach (\<lambda>_. 1) st \<and> plockSet st 1 \<noteq> None \<and> plockSet st 2 \<noteq> None \<and>
     plockSet st 0 = plockSet st 1 \<and> plockSet st 1 \<noteq> plockSet st 2"
proof -
  obtain st where st: "lock_reach (\<lambda>_. 1) st" "plockSet st 0 \<noteq> None" "plockSet st 1 \<noteq> None" "plockSet st 2 \<noteq> None"
      "db_links st = (\<lambda>_. [None])(0 := [Some 1])"
    using linked_records by blast
  have e: "edges st = {(0, 1)}" using st(5) by (auto simp: edges_def split: if_splits)
  have "(0, 1) \<in> conn (edges st)" using conn_step [of 0 1 "edges st" 0] e by simp
  moreover have "(2, 1) \<notin> conn (edges st)" using class_closed [of 2 1 "edges st" "{2}"] e by auto
  ultimately show ?thesis using lock_sets_are_components [OF st(1)] st by metis
qed

text \<open>
  C8: Writing a link field of a record always completes: no assertion of the lock set code fails, both lock sets
  can be taken and are released again; the field has the new link, the old one when the put was refused and no
  database link when it failed half way; no record is lost, and two records share a lock set afterwards exactly
  when the links that are left connect them.\<close>

theorem put_link_completes:
  assumes "lock_reach nlinks st" "plockSet st r \<noteq> None" "\<forall>t. target = Some t \<longrightarrow> plockSet st t \<noteq> None" "i < nlinks r"
  shows "\<exists>st'. dbPutFieldLink a r i target refused failed st = Some st' \<and> lock_reach nlinks st' \<and>
    db_links st' = (db_links st)(r := (db_links st r)[i :=
      if refused then db_links st r ! i else if failed then None else target]) \<and>
    dom (plockSet st') = dom (plockSet st) \<and>
    (\<forall>x y. plockSet st x \<noteq> None \<longrightarrow> plockSet st y \<noteq> None \<longrightarrow>
       (plockSet st' x = plockSet st' y \<longleftrightarrow> (x, y) \<in> conn (edges st')))"
proof -
  have inv: "lock_inv st" "i < length (db_links st r)" using reach_inv [OF assms(1)] assms(4) by auto
  obtain st' where p: "dbPutFieldLink a r i target refused failed st = Some st'" "lock_inv st'" "dom (plockSet st') = dom (plockSet st)"
      "db_links st' = (db_links st)(r := (db_links st r)[i := put_result target refused failed (db_links st r ! i)])"
    using put_link_ok [OF inv(1) assms(2,3) inv(2)] by blast
  have r: "lock_reach nlinks st'" by (rule lock_reach.put [OF assms p(1)])
  have d: "plockSet st' x \<noteq> None" if "plockSet st x \<noteq> None" for x using that p(3) by (metis domIff)
  show ?thesis
    using p(1,3,4) r reach_comps [OF r d d] by (intro exI [of _ st']) (simp add: put_result_def)
qed

theorem put_link_completes_witness:
  "\<exists>st st'. lock_reach (\<lambda>_. 1) st \<and> db_links st 0 = [Some 1] \<and> dbPutFieldLink 9 0 0 (Some 2) False False st = Some st' \<and>
     db_links st' 0 = [Some 2] \<and> plockSet st' 0 = plockSet st' 2 \<and> plockSet st' 0 \<noteq> plockSet st' 1"
proof -
  obtain st where st: "lock_reach (\<lambda>_. 1) st" "plockSet st 0 \<noteq> None" "plockSet st 1 \<noteq> None" "plockSet st 2 \<noteq> None"
      "db_links st = (\<lambda>_. [None])(0 := [Some 1])"
    using linked_records by blast
  obtain st' where p: "dbPutFieldLink 9 0 0 (Some 2) False False st = Some st'" "db_links st' = (db_links st)(0 := (db_links st 0)[0 := Some 2])"
      "\<forall>x y. plockSet st x \<noteq> None \<longrightarrow> plockSet st y \<noteq> None \<longrightarrow>
       (plockSet st' x = plockSet st' y \<longleftrightarrow> (x, y) \<in> conn (edges st'))"
    using put_link_completes [OF st(1,2), of "Some 2" 0 9 False False] st(4) by auto
  have e: "edges st' = {(0, 2)}" using p(2) st(5) by (auto simp: edges_def split: if_splits)
  have "(0, 2) \<in> conn (edges st')" using conn_step [of 0 2 "edges st'" 0] e by simp
  moreover have "(1, 0) \<notin> conn (edges st')" using class_closed [of 1 0 "edges st'" "{1}"] e by auto
  ultimately have "plockSet st' 0 = plockSet st' 2" "plockSet st' 0 \<noteq> plockSet st' 1" using p(3) st(2-4) by metis+
  moreover have "db_links st 0 = [Some 1]" "db_links st' 0 = [Some 2]" using st(5) p(2) by simp_all
  ultimately show ?thesis using st(1) p(1) by blast
qed

section \<open>Cleaning up\<close>

lemma forget_inv:
  assumes "sets_inv ext st" "plockSet st r = Some s"
  shows "sets_inv (ext(s := ext s + 1))
    (upd_set s (\<lambda>l. l\<lparr>lockRecordList := remove1 r (lockRecordList l)\<rparr>) (st\<lparr>plockSet := (plockSet st)(r := None)\<rparr>))"
    (is "sets_inv ?e ?st")
proof -
  have s: "s \<in> set (lockSetsActive st)" "r \<in> set (members_of st s)" using sets_invD(5) [OF assms] by auto
  note ok = sets_invD(3) [OF assms(1)]
  have d: "distinct (members_of st s)" using ok [OF s(1)] by (simp add: set_ok_def)
  have other: "r \<notin> set (members_of st t)" if "t \<in> set (lockSetsActive st)" "t \<noteq> s" for t
    using ok [OF that(1)] assms(2) that(2) by (auto simp: set_ok_def)
  have "set_ok ?st ?e t" if "t \<in> set (lockSetsActive st)" for t
  proof (cases "t = s")
    case True
    have "length (members_of st s) = Suc (length (remove1 r (members_of st s)))"
      using s(2) length_pos_if_in_set [OF s(2)] by (simp add: length_remove1)
    with True ok [OF s(1)] d show ?thesis by (auto simp: set_ok_def)
  next
    case False
    with ok [OF that] other [OF that] show ?thesis by (auto simp: set_ok_def)
  qed
  moreover have "free_ok ?st t" if "t \<in> set (lockSetsFree st)" for t
    using that assms(1) sets_invD(2) [OF assms(1)] s(1) by (auto simp: sets_inv_def free_ok_def)
  moreover have "t \<in> set (lockSetsActive st) \<and> x \<in> set (members_of ?st t)" if "plockSet ?st x = Some t" for x t
    using that sets_invD(5) [OF assms(1), of x t] by (auto split: if_splits)
  moreover have "?e t = 0" if "t \<notin> set (lockSetsActive st)" for t
    using that s(1) assms(1) by (auto simp: sets_inv_def)
  ultimately show ?thesis using assms(1) unfolding sets_inv_def by simp
qed

lemma free_one:
  assumes "sets_inv (\<lambda>_. 0) st" "owned a {} st" "plockSet st r = Some s"
  shows "\<exists>st'. freeLockRecord r st = Some st' \<and> sets_inv (\<lambda>_. 0) st' \<and> owned a {} st' \<and> plockSet st' = (plockSet st)(r := None)"
proof -
  let ?st = "upd_set s (\<lambda>l. l\<lparr>lockRecordList := remove1 r (lockRecordList l)\<rparr>) (st\<lparr>plockSet := (plockSet st)(r := None)\<rparr>)"
  have s: "s \<in> set (lockSetsActive st)" "r \<in> set (members_of st s)" using sets_invD(5) [OF assms(1,3)] by auto
  have cnt: "0 < refcount (lock_sets st s)" "members_of st s \<noteq> []"
    using sets_invD(3) [OF assms(1) s(1)] s(2) by (auto simp: set_ok_def)
  have inv: "sets_inv ((\<lambda>_. 0)(s := 0 + 1)) ?st" by (rule forget_inv [OF assms(1,3)])
  have own: "ownerlocker (lock_sets ?st t) = ownerlocker (lock_sets st t)" for t by simp
  have none: "ownerlocker (lock_sets ?st s) = None" using assms(2) s(1) by (simp add: owned_def)
  obtain st' where st': "dbLockDecRef s ?st = Some st'" "sets_inv (((\<lambda>_. 0)(s := 0 + 1))(s := ((\<lambda>_. 0)(s := 0 + 1)) s - 1)) st'"
      "same_graph ?st st'" "\<forall>t. ownerlocker (lock_sets st' t) = ownerlocker (lock_sets ?st t)"
      "set (lockSetsActive st') \<subseteq> set (lockSetsActive st)"
    using decRef [OF inv, of s] none by fastforce
  have "((\<lambda>_. 0)(s := 0 + 1))(s := ((\<lambda>_. 0)(s := 0 + 1)) s - 1) = (\<lambda>_. 0 :: nat)" by auto
  then have "sets_inv (\<lambda>_. 0) st'" using st'(2) by simp
  moreover have "owned a {} st'" using assms(2) st'(4,5) own by (auto simp: owned_def)
  moreover have "plockSet st' = (plockSet st)(r := None)" using st'(3) by (simp add: same_graph_def)
  moreover have "freeLockRecord r st = Some st'" using assms(3) cnt st'(1) by (simp add: freeLockRecord_def)
  ultimately show ?thesis by blast
qed

lemma free_all:
  "sets_inv (\<lambda>_. 0) st \<Longrightarrow> owned a {} st \<Longrightarrow> distinct rs \<Longrightarrow> set rs \<subseteq> dom (plockSet st) \<Longrightarrow>
   \<exists>st'. free_records rs st = Some st' \<and> sets_inv (\<lambda>_. 0) st' \<and> dom (plockSet st') = dom (plockSet st) - set rs"
proof (induction rs arbitrary: st)
  case (Cons r rs)
  then obtain s where s: "plockSet st r = Some s" by auto
  obtain st1 where st1: "freeLockRecord r st = Some st1" "sets_inv (\<lambda>_. 0) st1" "owned a {} st1" "plockSet st1 = (plockSet st)(r := None)"
    using free_one [OF Cons.prems(1,2) s] by blast
  have "set rs \<subseteq> dom (plockSet st1)" using Cons.prems(3,4) st1(4) by auto
  then obtain st' where "free_records rs st1 = Some st'" "sets_inv (\<lambda>_. 0) st'" "dom (plockSet st') = dom (plockSet st1) - set rs"
    using Cons.IH [OF st1(2,3)] Cons.prems(3) by auto
  moreover have "dom (plockSet st1) = dom (plockSet st) - {r}" by (simp add: st1(4))
  ultimately show ?case using st1(1) by auto
qed simp

text \<open>
  C40: At shutdown, after any run, freeing the lock records of all records of the database completes without a failed
  assertion and leaves no lock set: none is active, so there is no leak to warn of, and none is on the free list.\<close>

theorem cleanup_leaks_nothing:
  assumes "lock_reach nlinks st" "distinct rs" "set rs = dom (plockSet st)"
  shows "\<exists>st'. dbLockCleanupRecords rs st = Some (False, st') \<and> lockSetsActive st' = [] \<and> lockSetsFree st' = [] \<and>
    plockSet st' = Map.empty"
proof -
  have inv: "sets_inv (\<lambda>_. 0) st" "owned 0 {} st" using reach_inv [OF assms(1)] by (auto simp: lock_inv_def)
  obtain st1 where st1: "free_records rs st = Some st1" "sets_inv (\<lambda>_. 0) st1" "dom (plockSet st1) = {}"
    using free_all [OF inv assms(2)] assms(3) by auto
  have "s \<notin> set (lockSetsActive st1)" for s
    using sets_invD(3) [OF st1(2), of s] st1(3) by (cases "members_of st1 s") (auto simp: set_ok_def)
  then have e: "lockSetsActive st1 = []" by (cases "lockSetsActive st1") force+
  have "list_all (\<lambda>s. refcount (lock_sets st1 s) = 0 \<and> lockRecordList (lock_sets st1 s) = []) (lockSetsFree st1)"
    using st1(2) by (auto simp: list_all_iff sets_inv_def free_ok_def)
  then show ?thesis using st1(1,3) e by (simp add: dbLockCleanupRecords_def)
qed

theorem cleanup_leaks_nothing_witness:
  "\<exists>st rs st'. lock_reach (\<lambda>_. 1) st \<and> plockSet st 0 \<noteq> None \<and> dbLockCleanupRecords rs st = Some (False, st') \<and> plockSet st' 0 = None"
proof -
  let ?s0 = "no_records (\<lambda>_. 1)"
  have r0: "lock_reach (\<lambda>_. 1) ?s0" "plockSet ?s0 = Map.empty" by (rule lock_reach.start) (simp add: no_records_def)
  obtain a st where st: "createLockRecord 0 ?s0 = Some st" "plockSet st = [0 \<mapsto> a]"
    using create_ok [OF conjunct1 [OF reach_inv [OF r0(1)]], of 0] r0(2) by auto
  have r: "lock_reach (\<lambda>_. 1) st" using lock_reach.new_record [OF r0(1) _ st(1)] r0(2) by simp
  obtain st' where "dbLockCleanupRecords [0] st = Some (False, st')" "plockSet st' = Map.empty"
    using cleanup_leaks_nothing [OF r, of "[0]"] st(2) by auto
  with r st(2) show ?thesis by (intro exI [of _ st] exI [of _ "[0]"] exI [of _ st']) simp
qed

end
