(* ===== verification/DbEvent.thy ===== *)
theory DbEvent
  imports Epics_Prelude
begin

unbundle bit_operations_syntax

text \<open>
  The event queues of the database, \<^verbatim>\<open>modules/database/src/ioc/db/dbEvent.c\<close>: what records post for the
  subscriptions to their fields, queued for the event task of a client. Subscriptions are addresses; the
  chain of queues of an event user is a list, a queue is named by its place in it. A failed assertion and the use
  of a null or dangling pointer are \<open>None\<close>. The contents \<open>'v\<close> of a field log are those of the field, its alarm
  state and its time stamp. Logs that are deleted go back to a free list and are not followed further.
\<close>

section \<open>Data\<close>

definition EVENTSPERQUE :: nat where "EVENTSPERQUE = 32"
definition EVENTENTRIES :: nat where "EVENTENTRIES = 4"
definition EVENTQUESIZE :: nat where "EVENTQUESIZE = EVENTENTRIES * EVENTSPERQUE"
definition USHRT :: nat where "USHRT = 65536"
definition DB_UCHAR_MAX :: nat where "DB_UCHAR_MAX = 255"

datatype 'v db_field_log = Log_rec | Log_val 'v | Log_ref 'v

record dbChannel =
  chan_record :: addr
  chan_field :: addr
  chan_elements :: int
  chan_dbaddr :: bool            \<comment> \<open>\<^verbatim>\<open>dbChannelSpecial(chan) == SPC_DBADDR\<close>\<close>
  chan_size :: nat

definition native_value_size :: nat where "native_value_size = 8"

record evSubscrip =
  ev_chan :: dbChannel
  user_sub :: "addr option"
  ev_que :: nat
  pLastLog :: "nat option"       \<comment> \<open>the index of \<^verbatim>\<open>valque\<close> that it points to\<close>
  npend :: nat
  nreplace :: "64 word"
  ev_select :: "8 word"
  useValque :: bool
  callBackInProgress :: bool
  enabled :: bool

datatype que_entry = EVENTQEMPTY | canceledEvent | Queued addr

record 'v event_que =
  valque :: "'v db_field_log option list"
  evque :: "que_entry list"
  putix :: nat
  getix :: nat
  quota :: nat
  nDuplicates :: nat
  nCanceled :: nat

record 'v event_user =
  ques :: "'v event_que list"
  subs :: "addr \<Rightarrow> evSubscrip option"
  mlis :: "addr \<Rightarrow> addr list"    \<comment> \<open>per record, the subscriptions that are enabled\<close>
  ppendsem :: bool
  pSuicideEvent :: "addr option"
  flowCtrlMode :: bool

definition new_que :: "'v event_que" where
  "new_que = \<lparr>valque = replicate EVENTQUESIZE None, evque = replicate EVENTQUESIZE EVENTQEMPTY,
     putix = 0, getix = 0, quota = 0, nDuplicates = 0, nCanceled = 0\<rparr>"

definition RNGINC :: "nat \<Rightarrow> nat" where
  "RNGINC old = (if old \<ge> EVENTQUESIZE - 1 then 0 else old + 1)"

definition ringSpace :: "'v event_que \<Rightarrow> nat" where
  "ringSpace q =
     (if evque q ! putix q = EVENTQEMPTY
      then (if getix q > putix q then getix q - putix q else EVENTQUESIZE + getix q - putix q)
      else 0)"

definition upd_que :: "nat \<Rightarrow> ('v event_que \<Rightarrow> 'v event_que) \<Rightarrow> 'v event_user \<Rightarrow> 'v event_user" where
  "upd_que k f u = u\<lparr>ques := (ques u)[k := f (ques u ! k)]\<rparr>"

definition upd_sub :: "addr \<Rightarrow> evSubscrip \<Rightarrow> 'v event_user \<Rightarrow> 'v event_user" where
  "upd_sub p e u = u\<lparr>subs := (subs u)(p \<mapsto> e)\<rparr>"

section \<open>Subscriptions\<close>

definition db_init_events :: "'v event_user" where
  "db_init_events = \<lparr>ques = [new_que], subs = Map.empty, mlis = (\<lambda>_. []), ppendsem = False,
     pSuicideEvent = None, flowCtrlMode = False\<rparr>"

text \<open>
  The search of \<^verbatim>\<open>db_add_event\<close> for a queue with room for one more subscription; \<open>mem\<close> tells whether a new queue can
  be allocated.
\<close>

fun claim_quota :: "bool \<Rightarrow> 'v event_que list \<Rightarrow> 'v event_que list \<times> nat option" where
  "claim_quota mem [] =
     (if mem then ([new_que\<lparr>quota := EVENTENTRIES\<rparr>], Some 0) else ([], None))"
| "claim_quota mem (q # qs) =
     (if quota q + nCanceled q < EVENTQUESIZE - EVENTENTRIES
      then (q\<lparr>quota := (quota q + EVENTENTRIES) mod USHRT\<rparr> # qs, Some 0)
      else let (qs', r) = claim_quota mem qs in (q # qs', map_option Suc r))"

text \<open>\<open>p\<close> is the block that the free list of subscriptions gives, if it has memory.\<close>

definition db_add_event ::
  "addr option \<Rightarrow> bool \<Rightarrow> dbChannel \<Rightarrow> addr \<Rightarrow> nat \<Rightarrow> 'v event_user \<Rightarrow> addr option \<times> 'v event_user" where
  "db_add_event p mem chan sub select u =
     (if select = 0 \<or> select > DB_UCHAR_MAX then (None, u)
      else case p of
        None \<Rightarrow> (None, u)
      | Some a \<Rightarrow>
          (case claim_quota mem (ques u) of
             (qs, None) \<Rightarrow> (None, u\<lparr>ques := qs\<rparr>)
           | (qs, Some k) \<Rightarrow>
               (Some a,
                upd_sub a \<lparr>ev_chan = chan, user_sub = Some sub, ev_que = k, pLastLog = None, npend = 0, nreplace = 0,
                   ev_select = of_nat select,
                   useValque = (chan_elements chan = 1 \<and> \<not> chan_dbaddr chan \<and> chan_size chan \<le> native_value_size),
                   callBackInProgress = False, enabled = False\<rparr>
                  (u\<lparr>ques := qs\<rparr>))))"

definition db_event_enable :: "addr \<Rightarrow> 'v event_user \<Rightarrow> 'v event_user option" where
  "db_event_enable p u =
     (case subs u p of
        None \<Rightarrow> None
      | Some e \<Rightarrow>
          if enabled e then Some u
          else let r = chan_record (ev_chan e)
               in Some (upd_sub p (e\<lparr>enabled := True\<rparr>) (u\<lparr>mlis := (mlis u)(r := mlis u r @ [p])\<rparr>)))"

definition db_event_disable :: "addr \<Rightarrow> 'v event_user \<Rightarrow> 'v event_user option" where
  "db_event_disable p u =
     (case subs u p of
        None \<Rightarrow> None
      | Some e \<Rightarrow>
          if \<not> enabled e then Some u
          else let r = chan_record (ev_chan e)
               in Some (upd_sub p (e\<lparr>enabled := False\<rparr>) (u\<lparr>mlis := (mlis u)(r := remove1 p (mlis u r))\<rparr>)))"

section \<open>Removing entries\<close>

definition event_remove :: "nat \<Rightarrow> nat \<Rightarrow> que_entry \<Rightarrow> 'v event_user \<Rightarrow> 'v event_user option" where
  "event_remove k index placeHolder u =
     (case evque (ques u ! k) ! index of
        Queued p \<Rightarrow>
          (case subs u p of
             None \<Rightarrow> None
           | Some e \<Rightarrow>
               let u1 = upd_que k (\<lambda>q. q\<lparr>evque := (evque q)[index := placeHolder], valque := (valque q)[index := None]\<rparr>) u
               in if npend e = 1 then Some (upd_sub p (e\<lparr>pLastLog := None, npend := npend e - 1\<rparr>) u1)
                  else if npend e \<le> 1 \<or> nDuplicates (ques u1 ! k) < 1 then None
                  else Some (upd_sub p (e\<lparr>npend := npend e - 1\<rparr>)
                         (upd_que k (\<lambda>q. q\<lparr>nDuplicates := nDuplicates q - 1\<rparr>) u1)))
      | _ \<Rightarrow> None)"

text \<open>
  The loop of \<^verbatim>\<open>db_cancel_event\<close> over the queue, from index \<open>ix\<close>; it ends at the first empty entry or after one
  turn, so at most \<open>n\<close> entries are left to look at.
\<close>

fun purge_event :: "nat \<Rightarrow> addr \<Rightarrow> nat \<Rightarrow> nat \<Rightarrow> 'v event_user \<Rightarrow> 'v event_user option" where
  "purge_event 0 p k ix u = Some u"
| "purge_event (Suc n) p k ix u =
     (if evque (ques u ! k) ! ix = EVENTQEMPTY then Some u
      else do {
        u1 \<leftarrow> (if evque (ques u ! k) ! ix = Queued p
               then if nCanceled (ques u ! k) \<ge> USHRT - 1 then None
                    else event_remove k ix canceledEvent (upd_que k (\<lambda>q. q\<lparr>nCanceled := nCanceled q + 1\<rparr>) u)
               else Some u);
        if RNGINC ix = getix (ques u1 ! k) then Some u1 else purge_event n p k (RNGINC ix) u1
      })"

text \<open>
  The part of \<^verbatim>\<open>db_cancel_event\<close> before it may have to wait, in the event task (\<open>by_task\<close>) or another thread, and the
  part after no callback is in progress, or at once in the event task.
\<close>

definition db_cancel_event_begin :: "bool \<Rightarrow> addr \<Rightarrow> 'v event_user \<Rightarrow> 'v event_user option" where
  "db_cancel_event_begin by_task p u =
     do {
       u1 \<leftarrow> db_event_disable p u;
       e \<leftarrow> subs u1 p;
       u2 \<leftarrow> purge_event EVENTQUESIZE p (ev_que e) (getix (ques u1 ! ev_que e)) (upd_sub p (e\<lparr>user_sub := None\<rparr>) u1);
       e2 \<leftarrow> subs u2 p;
       if npend e2 \<noteq> 0 then None
       else Some (if by_task then u2\<lparr>pSuicideEvent := Some p\<rparr> else u2)
     }"

definition db_cancel_event_end :: "addr \<Rightarrow> 'v event_user \<Rightarrow> 'v event_user option" where
  "db_cancel_event_end p u =
     (case subs u p of
        None \<Rightarrow> None
      | Some e \<Rightarrow>
          Some ((upd_que (ev_que e) (\<lambda>q. q\<lparr>quota := (quota q + USHRT - EVENTENTRIES) mod USHRT\<rparr>) u)
                \<lparr>subs := (subs u)(p := None)\<rparr>))"

section \<open>Posting\<close>

definition db_create_event_log :: "(dbChannel \<Rightarrow> 'v) \<Rightarrow> evSubscrip \<Rightarrow> 'v db_field_log" where
  "db_create_event_log cur e = (if useValque e then Log_val (cur (ev_chan e)) else Log_rec)"

definition db_queue_event_log :: "addr \<Rightarrow> 'v db_field_log \<Rightarrow> 'v event_user \<Rightarrow> 'v event_user option" where
  "db_queue_event_log p pLog u =
     (case subs u p of
        None \<Rightarrow> None
      | Some e \<Rightarrow>
          let k = ev_que e; q = ques u ! k;
              last = (case pLastLog e of None \<Rightarrow> None | Some i \<Rightarrow> valque q ! i);
              rngSpace = ringSpace q
          in if npend e > 0 \<and> (pLastLog e = None \<or> last = None) then None
             else if npend e > 0 \<and> last = Some Log_rec \<and> pLog = Log_rec then Some u
             else if npend e > 0 \<and> (flowCtrlMode u \<or> rngSpace \<le> EVENTSPERQUE)
             then Some (upd_sub p (e\<lparr>nreplace := nreplace e + 1\<rparr>)
                          (upd_que k (\<lambda>q. q\<lparr>valque := (valque q)[the (pLastLog e) := Some pLog]\<rparr>) u))
             else if evque q ! putix q \<noteq> EVENTQEMPTY then None
             else
               let u1 = upd_que k (\<lambda>q. q\<lparr>evque := (evque q)[putix q := Queued p],
                                        valque := (valque q)[putix q := Some pLog],
                                        nDuplicates := (if npend e > 0 then (nDuplicates q + 1) mod USHRT else nDuplicates q),
                                        putix := RNGINC (putix q)\<rparr>) u
               in Some ((upd_sub p (e\<lparr>pLastLog := Some (putix q), npend := npend e + 1\<rparr>) u1)
                        \<lparr>ppendsem := ppendsem u \<or> rngSpace = EVENTQUESIZE\<rparr>))"

text \<open>
  \<open>cur\<close> is what the record holds for a channel, \<open>pre\<close> the filters of the channel that run before the queue:
  plugins, which may drop the log.
\<close>

definition db_post_single_event ::
  "(dbChannel \<Rightarrow> 'v) \<Rightarrow> (addr \<Rightarrow> 'v db_field_log \<Rightarrow> 'v db_field_log option) \<Rightarrow> addr \<Rightarrow> 'v event_user \<Rightarrow> 'v event_user option" where
  "db_post_single_event cur pre p u =
     (case subs u p of
        None \<Rightarrow> None
      | Some e \<Rightarrow>
          (case pre p (db_create_event_log cur e) of
             None \<Rightarrow> Some u
           | Some pLog \<Rightarrow> db_queue_event_log p pLog u))"

fun post_events ::
  "(dbChannel \<Rightarrow> 'v) \<Rightarrow> (addr \<Rightarrow> 'v db_field_log \<Rightarrow> 'v db_field_log option) \<Rightarrow> addr option \<Rightarrow> 32 word \<Rightarrow>
   addr list \<Rightarrow> 'v event_user \<Rightarrow> 'v event_user option" where
  "post_events cur pre pField caEventMask [] u = Some u"
| "post_events cur pre pField caEventMask (p # ps) u =
     (case subs u p of
        None \<Rightarrow> None
      | Some e \<Rightarrow>
          if (pField = Some (chan_field (ev_chan e)) \<or> pField = None) \<and> caEventMask AND ucast (ev_select e) \<noteq> 0
          then Option.bind (db_post_single_event cur pre p u) (post_events cur pre pField caEventMask ps)
          else post_events cur pre pField caEventMask ps u)"

definition db_post_events ::
  "(dbChannel \<Rightarrow> 'v) \<Rightarrow> (addr \<Rightarrow> 'v db_field_log \<Rightarrow> 'v db_field_log option) \<Rightarrow> addr \<Rightarrow> addr option \<Rightarrow> 32 word \<Rightarrow>
   'v event_user \<Rightarrow> 'v event_user option" where
  "db_post_events cur pre prec pField caEventMask u = post_events cur pre pField caEventMask (mlis u prec) u"

section \<open>Reading\<close>

text \<open>
  The event task waits for its semaphore, then goes through the queues. It gives up the lock of a queue to call
  the routine of a subscription; between these calls \<^verbatim>\<open>event_read\<close> is the loop over the queue.
\<close>

datatype 'v event_task = Waiting | Next_que nat | Reading nat | Calling nat addr "'v db_field_log option"

text \<open>One turn of the loop of \<^verbatim>\<open>event_read\<close>.\<close>

definition event_read_turn :: "nat \<Rightarrow> 'v event_user \<Rightarrow> ('v event_task \<times> 'v event_user) option" where
  "event_read_turn k u =
     (let q = ques u ! k; ix = getix q
      in case evque q ! ix of
           EVENTQEMPTY \<Rightarrow> Some (Next_que (k + 1), u)
         | canceledEvent \<Rightarrow>
             if nCanceled q = 0 then None
             else Some (Reading k,
                    upd_que k (\<lambda>q. q\<lparr>evque := (evque q)[ix := EVENTQEMPTY], valque := (valque q)[ix := None],
                                     getix := RNGINC ix, nCanceled := nCanceled q - 1\<rparr>) u)
         | Queued p \<Rightarrow>
             do {
               u1 \<leftarrow> event_remove k ix EVENTQEMPTY u;
               let u2 = upd_que k (\<lambda>q. q\<lparr>getix := RNGINC ix\<rparr>) u1
               in do {
                 e \<leftarrow> subs u2 p;
                 if user_sub e = None then Some (Reading k, u2)
                 else Some (Calling k p (valque q ! ix), upd_sub p (e\<lparr>callBackInProgress := True\<rparr>) u2)
               }
             })"

text \<open>After the call.\<close>

definition event_read_called :: "nat \<Rightarrow> addr \<Rightarrow> 'v event_user \<Rightarrow> ('v event_task \<times> 'v event_user) option" where
  "event_read_called k p u =
     (if pSuicideEvent u = Some p then Some (Reading k, u\<lparr>pSuicideEvent := None\<rparr>)
      else case subs u p of
        None \<Rightarrow> None
      | Some e \<Rightarrow> Some (Reading k, upd_sub p (e\<lparr>callBackInProgress := False\<rparr>) u))"

text \<open>What the event task does next, a callback being over when it is called again.\<close>

definition event_task_step :: "'v event_task \<Rightarrow> 'v event_user \<Rightarrow> ('v event_task \<times> 'v event_user) option" where
  "event_task_step t u =
     (case t of
        Waiting \<Rightarrow> Some (if ppendsem u then (Next_que 0, u\<lparr>ppendsem := False\<rparr>) else (Waiting, u))
      | Next_que k \<Rightarrow>
          Some (if k \<ge> length (ques u) then (Waiting, u)
                else if flowCtrlMode u \<and> nDuplicates (ques u ! k) = 0 then (Next_que (k + 1), u)
                else (Reading k, u))
      | Reading k \<Rightarrow> event_read_turn k u
      | Calling k p _ \<Rightarrow> event_read_called k p u)"

definition db_event_flow_ctrl_mode_on :: "'v event_user \<Rightarrow> 'v event_user" where
  "db_event_flow_ctrl_mode_on u = u\<lparr>flowCtrlMode := True, ppendsem := True\<rparr>"

definition db_event_flow_ctrl_mode_off :: "'v event_user \<Rightarrow> 'v event_user" where
  "db_event_flow_ctrl_mode_off u = u\<lparr>flowCtrlMode := False, ppendsem := True\<rparr>"

end
