(* ===== verification/DbEventRing.thy ===== *)
theory DbEventRing
  imports DbEvent
begin

text \<open>
  The ring of an event queue as a list: its entries in the order in which they are read, and what the
  operations on the ring do to them.
\<close>

lemma que_sizes [simp]:
  "EVENTQUESIZE = 128" "EVENTSPERQUE = 32" "EVENTENTRIES = 4" "USHRT = 65536" "DB_UCHAR_MAX = 255"
  by (simp_all add: EVENTQUESIZE_def EVENTSPERQUE_def EVENTENTRIES_def USHRT_def DB_UCHAR_MAX_def)

lemma RNGINC_mod: "i < 128 \<Longrightarrow> RNGINC i = (i + 1) mod 128"
  by (cases "i = 127") (auto simp: RNGINC_def)

section \<open>Entries\<close>

definition que_at :: "'v event_que \<Rightarrow> nat \<Rightarrow> nat" where
  "que_at q i = (getix q + i) mod 128"

type_synonym 'v entry = "que_entry \<times> 'v db_field_log option"

definition entry_at :: "'v event_que \<Rightarrow> nat \<Rightarrow> 'v entry" where
  "entry_at q i = (evque q ! que_at q i, valque q ! que_at q i)"

definition contents :: "'v event_que \<Rightarrow> 'v entry list" where
  "contents q = map (entry_at q) [0 ..< 128 - ringSpace q]"

text \<open>The ring holds exactly the entries \<open>L\<close>.\<close>

definition que_rel :: "'v event_que \<Rightarrow> 'v entry list \<Rightarrow> bool" where
  "que_rel q L \<longleftrightarrow>
     length (evque q) = 128 \<and> length (valque q) = 128 \<and> getix q < 128 \<and> length L \<le> 128 \<and>
     putix q = que_at q (length L) \<and> EVENTQEMPTY \<notin> fst ` set L \<and>
     (\<forall>i < 128. entry_at q i = (if i < length L then L ! i else (EVENTQEMPTY, None)))"

lemma que_at_lt [simp]: "que_at q i < 128"
  by (simp add: que_at_def)

lemma que_at_inj: "i < 128 \<Longrightarrow> j < 128 \<Longrightarrow> que_at q i = que_at q j \<Longrightarrow> i = j"
proof (induction i j rule: linorder_wlog)
  case (le i j)
  then have "128 dvd j - i" using mod_eq_dvd_iff_nat [of "getix q + i" "getix q + j" 128] by (simp add: que_at_def)
  with le show ?case by (auto dest: dvd_imp_le)
qed simp

lemma que_at_upd [simp]:
  "que_at (q\<lparr>evque := a\<rparr>) = que_at q" "que_at (q\<lparr>valque := b\<rparr>) = que_at q" "que_at (q\<lparr>putix := c\<rparr>) = que_at q"
  by (simp_all add: fun_eq_iff que_at_def)

lemma que_at_0: "getix q < 128 \<Longrightarrow> que_at q 0 = getix q"
  by (simp add: que_at_def)

lemma que_relD:
  assumes "que_rel q L"
  shows "length (evque q) = 128" "length (valque q) = 128" "getix q < 128" "length L \<le> 128"
    "putix q = que_at q (length L)" "putix q < 128" "EVENTQEMPTY \<notin> fst ` set L"
    and "i < 128 \<Longrightarrow> entry_at q i = (if i < length L then L ! i else (EVENTQEMPTY, None))"
  using assms by (auto simp: que_rel_def)

lemma rel_entry:
  assumes "que_rel q L" "i < length L"
  shows "evque q ! que_at q i = fst (L ! i)" "valque q ! que_at q i = snd (L ! i)"
proof -
  have "entry_at q i = L ! i" using que_relD(4,8) [OF assms(1)] assms(2) by simp
  then show "evque q ! que_at q i = fst (L ! i)" "valque q ! que_at q i = snd (L ! i)"
    unfolding entry_at_def by (metis fst_conv snd_conv)+
qed

lemma rel_put_empty:
  assumes "que_rel q L"
  shows "evque q ! putix q = EVENTQEMPTY \<longleftrightarrow> length L < 128"
proof (cases "length L < 128")
  case True
  then have "entry_at q (length L) = (EVENTQEMPTY, None)" using que_relD(8) [OF assms] by simp
  with True que_relD(5) [OF assms] show ?thesis by (simp add: entry_at_def)
next
  case False
  then have n: "length L = 128" using que_relD(4) [OF assms] by simp
  then have "putix q = que_at q 0" using que_relD(5) [OF assms] by (simp add: que_at_def)
  moreover have "fst (L ! 0) \<noteq> EVENTQEMPTY" using que_relD(7) [OF assms] n nth_mem [of 0 L] by (metis imageI zero_less_numeral)
  ultimately show ?thesis using rel_entry(1) [OF assms, of 0] n by simp
qed

lemma rel_ringSpace: "que_rel q L \<Longrightarrow> ringSpace q = 128 - length L"
proof -
  assume rel: "que_rel q L"
  have g: "getix q < 128" "length L \<le> 128" "putix q = (getix q + length L) mod 128"
    using que_relD [OF rel] by (simp_all add: que_at_def)
  show ?thesis
  proof (cases "length L < 128")
    case True
    have "putix q = (if getix q + length L < 128 then getix q + length L else getix q + length L - 128)"
      using g True by (simp add: mod_if)
    then show ?thesis using rel_put_empty [OF rel] True g(1) by (auto simp: ringSpace_def)
  next
    case False
    then show ?thesis using rel_put_empty [OF rel] by (simp add: ringSpace_def)
  qed
qed

lemma rel_contents: "que_rel q L \<Longrightarrow> contents q = L"
proof (rule nth_equalityI)
  assume rel: "que_rel q L"
  show n: "length (contents q) = length L" using rel_ringSpace [OF rel] que_relD(4) [OF rel] by (simp add: contents_def)
  show "contents q ! i = L ! i" if "i < length (contents q)" for i
    using that n rel_ringSpace [OF rel] que_relD(4,8) [OF rel] by (simp add: contents_def)
qed

lemma rel_head:
  assumes "que_rel q L"
  shows "evque q ! getix q = (case L of [] \<Rightarrow> EVENTQEMPTY | x # _ \<Rightarrow> fst x)"
    and "L \<noteq> [] \<Longrightarrow> valque q ! getix q = snd (hd L)"
proof -
  have "entry_at q 0 = (if 0 < length L then L ! 0 else (EVENTQEMPTY, None))" using que_relD(8) [OF assms, of 0] by simp
  then show "evque q ! getix q = (case L of [] \<Rightarrow> EVENTQEMPTY | x # _ \<Rightarrow> fst x)" "L \<noteq> [] \<Longrightarrow> valque q ! getix q = snd (hd L)"
    using que_at_0 [OF que_relD(3) [OF assms]] by (cases L; auto simp: entry_at_def)+
qed

section \<open>Changes\<close>

lemma rel_new: "que_rel new_que []"
  by (simp add: que_rel_def new_que_def entry_at_def que_at_def)

text \<open>The counters are not part of the ring.\<close>

lemma rel_counters [simp]:
  "que_rel (q\<lparr>quota := a\<rparr>) = que_rel q" "que_rel (q\<lparr>nDuplicates := a\<rparr>) = que_rel q" "que_rel (q\<lparr>nCanceled := a\<rparr>) = que_rel q"
  by (simp_all add: fun_eq_iff que_rel_def entry_at_def que_at_def)

lemma rel_set:
  assumes "que_rel q L" "j < length L" "x \<noteq> EVENTQEMPTY"
  shows "que_rel (q\<lparr>evque := (evque q)[que_at q j := x], valque := (valque q)[que_at q j := v]\<rparr>) (L[j := (x, v)])"
    (is "que_rel ?q ?L")
proof -
  note d = que_relD [OF assms(1)]
  have "entry_at ?q i = (if i < length L then ?L ! i else (EVENTQEMPTY, None))" if "i < 128" for i
    using d(1,2,4) d(8) [OF that] que_at_inj [OF that, of j q] assms(2)
    by (cases "i = j") (auto simp: entry_at_def nth_list_update)
  moreover have "EVENTQEMPTY \<notin> fst ` set ?L" using d(7) assms(3) set_update_subset_insert [of L j "(x, v)"] by auto
  ultimately show ?thesis using d(1-5) by (simp add: que_rel_def)
qed

lemma rel_push:
  assumes "que_rel q L" "length L < 128" "x \<noteq> EVENTQEMPTY"
  shows "que_rel (q\<lparr>evque := (evque q)[putix q := x], valque := (valque q)[putix q := v], putix := RNGINC (putix q)\<rparr>) (L @ [(x, v)])"
    (is "que_rel ?q ?L")
proof -
  note d = que_relD [OF assms(1)]
  have "entry_at ?q i = (if i < length ?L then ?L ! i else (EVENTQEMPTY, None))" if "i < 128" for i
    using d(1,2,5) d(8) [OF that] que_at_inj [OF that assms(2), of q]
    by (cases "i = length L") (auto simp: entry_at_def nth_append nth_list_update)
  moreover have "putix ?q = que_at ?q (length ?L)"
    using d(5,6) by (simp add: RNGINC_mod que_at_def mod_Suc_eq)
  ultimately show ?thesis using d(1-4,7) assms(2,3) by (auto simp: que_rel_def)
qed

lemma rel_pop:
  assumes "que_rel q (y # L)"
  shows "que_rel (q\<lparr>evque := (evque q)[getix q := EVENTQEMPTY], valque := (valque q)[getix q := None], getix := RNGINC (getix q)\<rparr>) L"
    (is "que_rel ?q L")
proof -
  note d = que_relD [OF assms]
  have at: "que_at ?q i = que_at q (Suc i)" for i
    using RNGINC_mod [OF d(3)] by (simp add: que_at_def mod_add_left_eq)
  have g: "getix q = que_at q 0" by (rule que_at_0 [OF d(3), symmetric])
  have "entry_at ?q i = (if i < length L then L ! i else (EVENTQEMPTY, None))" if "i < 128" for i
  proof (cases "i = 127")
    case True
    then have "que_at ?q i = getix q" using d(3) unfolding at by (simp add: que_at_def)
    moreover have "\<not> i < length L" using True d(4) by simp
    ultimately show ?thesis using d(1-3) by (simp add: entry_at_def)
  next
    case False
    then have "que_at q (Suc i) \<noteq> getix q" using that que_at_inj [of "Suc i" 0 q] g by auto
    then show ?thesis using that False d(8) [of "Suc i"] by (simp add: entry_at_def at nth_list_update)
  qed
  moreover have "putix ?q = que_at ?q (length L)" using d(5) at by simp
  moreover have "getix ?q < 128" using d(3) by (simp add: RNGINC_mod)
  ultimately show ?thesis using d(1,2,4,7) by (simp add: que_rel_def)
qed

end
