(* ===== verification/DbEventInv.thy ===== *)
theory DbEventInv
  imports DbEventRing
begin

text \<open>
  The bookkeeping of event queues: the counters of subscriptions and queues agree with the entries that are
  queued, and every operation keeps it so.
\<close>

section \<open>Entries of a subscription\<close>

definition entries_of :: "'v entry list \<Rightarrow> addr \<Rightarrow> 'v entry list" where
  "entries_of L p = filter (\<lambda>x. fst x = Queued p) L"

definition last_at :: "'v entry list \<Rightarrow> addr \<Rightarrow> nat \<Rightarrow> bool" where
  "last_at L p j \<longleftrightarrow> j < length L \<and> fst (L ! j) = Queued p \<and> (\<forall>i < length L. j < i \<longrightarrow> fst (L ! i) \<noteq> Queued p)"

definition canceled :: "'v entry list \<Rightarrow> nat" where
  "canceled L = length (filter (\<lambda>x. fst x = canceledEvent) L)"

definition queued :: "'v entry list \<Rightarrow> addr set" where
  "queued L = {p. Queued p \<in> fst ` set L}"

lemma finite_queued [simp]: "finite (queued L)"
proof -
  have "inj_on Queued (queued L)" by (simp add: inj_on_def)
  moreover have "Queued ` queued L \<subseteq> fst ` set L" by (auto simp: queued_def)
  then have "finite (Queued ` queued L)" by (rule finite_subset) simp
  ultimately show ?thesis by (simp add: finite_image_iff)
qed

lemma entries_of_simps [simp]:
  "entries_of [] p = []" "entries_of (x # L) p = (if fst x = Queued p then x # entries_of L p else entries_of L p)"
  "entries_of (L @ M) p = entries_of L p @ entries_of M p"
  by (simp_all add: entries_of_def)

lemma canceled_simps [simp]:
  "canceled [] = 0" "canceled (x # L) = of_bool (fst x = canceledEvent) + canceled L" "canceled (L @ M) = canceled L + canceled M"
  by (simp_all add: canceled_def)

lemma queued_simps [simp]:
  "queued [] = {}" "queued (x # L) = {p. fst x = Queued p} \<union> queued L" "queued (L @ M) = queued L \<union> queued M"
  by (auto simp: queued_def)

lemma queued_iff: "p \<in> queued L \<longleftrightarrow> entries_of L p \<noteq> []"
  by (induction L) (auto split: if_splits)

lemma split_at: "j < length L \<Longrightarrow> L = take j L @ L ! j # drop (Suc j) L"
  by (rule id_take_nth_drop)

lemma split_update:
  assumes "j < length L" "fst (L ! j) = Queued p"
  obtains A y B where "L = A @ (Queued p, y) # B" "\<And>x. L[j := x] = A @ x # B"
proof -
  have "L = take j L @ (Queued p, snd (L ! j)) # drop (Suc j) L"
    using split_at [OF assms(1)] assms(2) by (metis prod.collapse)
  moreover have "L[j := x] = take j L @ x # drop (Suc j) L" for x by (rule upd_conv_take_nth_drop [OF assms(1)])
  ultimately show thesis using that by blast
qed

lemma update_canceled:
  assumes "j < length L" "fst (L ! j) = Queued p"
  shows "p' \<noteq> p \<Longrightarrow> entries_of (L[j := (canceledEvent, v)]) p' = entries_of L p'"
    and "Suc (length (entries_of (L[j := (canceledEvent, v)]) p)) = length (entries_of L p)"
    and "canceled (L[j := (canceledEvent, v)]) = Suc (canceled L)"
  by (rule split_update [OF assms]; simp)+

lemma update_log:
  assumes "j < length L" "fst (L ! j) = Queued p"
  shows "p' \<noteq> p \<Longrightarrow> entries_of (L[j := (Queued p, v)]) p' = entries_of L p'"
    and "length (entries_of (L[j := (Queued p, v)]) p) = length (entries_of L p)"
    and "canceled (L[j := (Queued p, v)]) = canceled L" "queued (L[j := (Queued p, v)]) = queued L"
  by (rule split_update [OF assms]; auto)+

lemma last_at_exists: "entries_of L p \<noteq> [] \<Longrightarrow> \<exists>j. last_at L p j"
proof (induction L rule: rev_induct)
  case (snoc x L)
  show ?case
  proof (cases "fst x = Queued p")
    case True
    then have "last_at (L @ [x]) p (length L)" by (simp add: last_at_def)
    then show ?thesis by blast
  next
    case False
    with snoc obtain j where "last_at L p j" by (auto split: if_splits)
    with False have "last_at (L @ [x]) p j" by (auto simp: last_at_def nth_append less_Suc_eq)
    then show ?thesis by blast
  qed
qed simp

lemma last_at_unique: "last_at L p i \<Longrightarrow> last_at L p j \<Longrightarrow> i = j"
  unfolding last_at_def by (metis linorder_neqE_nat)

lemma last_at_rest:
  assumes "last_at L p j"
  shows "j < length L" "fst (L ! j) = Queued p" "entries_of (drop (Suc j) L) p = []"
proof -
  show j: "j < length L" "fst (L ! j) = Queued p" using assms by (auto simp: last_at_def)
  have "fst x \<noteq> Queued p" if x: "x \<in> set (drop (Suc j) L)" for x
  proof -
    from x obtain i where "i < length (drop (Suc j) L)" "x = drop (Suc j) L ! i" by (metis in_set_conv_nth)
    with assms show ?thesis by (auto simp: last_at_def)
  qed
  then show "entries_of (drop (Suc j) L) p = []" by (auto simp: entries_of_def filter_empty_conv)
qed

lemma last_at_entries:
  assumes "last_at L p j"
  shows "entries_of L p \<noteq> [] \<and> last (entries_of L p) = L ! j"
proof -
  note j = last_at_rest [OF assms]
  then have "entries_of L p = entries_of (take j L) p @ [L ! j]"
    using entries_of_simps(3) [of "take j L" "L ! j # drop (Suc j) L" p] split_at [of j L] by simp
  then show ?thesis by simp
qed

lemma last_at_append: "fst x \<noteq> Queued p \<Longrightarrow> last_at L p j \<Longrightarrow> last_at (L @ [x]) p j"
  by (auto simp: last_at_def nth_append less_Suc_eq)

lemma last_at_tl: "last_at (x # L) p j \<Longrightarrow> entries_of L p \<noteq> [] \<Longrightarrow> \<exists>i. j = Suc i \<and> last_at L p i"
proof -
  assume l: "last_at (x # L) p j" and "entries_of L p \<noteq> []"
  then obtain i where i: "last_at L p i" using last_at_exists by blast
  then have "last_at (x # L) p (Suc i)" by (auto simp: last_at_def nth_Cons split: nat.splits)
  with l i show ?thesis using last_at_unique by blast
qed

lemma last_at_update:
  assumes "last_at L p j" "(fst x = Queued p \<longleftrightarrow> fst (L ! m) = Queued p) \<or> m \<noteq> j \<and> fst x \<noteq> Queued p"
  shows "last_at (L[m := x]) p j"
proof -
  have upd: "fst (L[m := x] ! i) = (if i = m then fst x else fst (L ! i))" if "i < length L" for i using that by simp
  show ?thesis
    using assms unfolding last_at_def length_list_update by (metis upd)
qed

section \<open>The invariant\<close>

abbreviation conts :: "'v event_user \<Rightarrow> nat \<Rightarrow> 'v entry list" where
  "conts u k \<equiv> contents (ques u ! k)"

definition que_subs :: "'v event_user \<Rightarrow> nat \<Rightarrow> addr set" where
  "que_subs u k = {p. \<exists>e. subs u p = Some e \<and> ev_que e = k}"

definition entry_ok :: "'v event_user \<Rightarrow> nat \<Rightarrow> 'v entry \<Rightarrow> bool" where
  "entry_ok u k x \<longleftrightarrow> x = (canceledEvent, None) \<or> (\<exists>p l. x = (Queued p, Some l) \<and> p \<in> que_subs u k)"

definition que_inv :: "'v event_user \<Rightarrow> nat \<Rightarrow> bool" where
  "que_inv u k \<longleftrightarrow>
     que_rel (ques u ! k) (conts u k) \<and> (\<forall>x \<in> set (conts u k). entry_ok u k x) \<and>
     nCanceled (ques u ! k) = canceled (conts u k) \<and>
     canceled (conts u k) + nDuplicates (ques u ! k) + card (queued (conts u k)) = length (conts u k) \<and>
     nDuplicates (ques u ! k) \<le> 95 \<and>
     finite (que_subs u k) \<and> card (que_subs u k) \<le> 31 \<and> quota (ques u ! k) = 4 * card (que_subs u k)"

definition sub_inv :: "'v event_user \<Rightarrow> addr \<Rightarrow> evSubscrip \<Rightarrow> bool" where
  "sub_inv u p e \<longleftrightarrow>
     ev_que e < length (ques u) \<and> npend e = length (entries_of (conts u (ev_que e)) p) \<and>
     (if npend e = 0 then pLastLog e = None
      else \<exists>j. last_at (conts u (ev_que e)) p j \<and> pLastLog e = Some (que_at (ques u ! ev_que e) j))"

definition ques_inv :: "'v event_user \<Rightarrow> bool" where
  "ques_inv u \<longleftrightarrow> ques u \<noteq> [] \<and> (\<forall>k < length (ques u). que_inv u k) \<and> (\<forall>p e. subs u p = Some e \<longrightarrow> sub_inv u p e)"

text \<open>What a change of the queue does not alter for a subscription.\<close>

definition same_for :: "addr \<Rightarrow> 'v event_que \<Rightarrow> 'v event_que \<Rightarrow> bool" where
  "same_for p q q' \<longleftrightarrow>
     length (entries_of (contents q') p) = length (entries_of (contents q) p) \<and>
     (\<forall>j. last_at (contents q) p j \<longrightarrow> (\<exists>j'. last_at (contents q') p j' \<and> que_at q' j' = que_at q j))"

lemma ques_inv_upd:
  assumes "ques_inv u" "k < length (ques u)" "ques u' = (ques u)[k := q']" "que_inv u' k"
    and "\<And>k. que_subs u' k = que_subs u k"
    and "\<And>p e. subs u' p = Some e \<Longrightarrow> subs u p = Some e \<and> (ev_que e = k \<longrightarrow> same_for p (ques u ! k) q') \<or> sub_inv u' p e"
  shows "ques_inv u'"
proof -
  have ne: "ques u' \<noteq> []" using assms(1,3) by (auto simp: ques_inv_def)
  have other: "ques u' ! i = ques u ! i" if "i \<noteq> k" for i using assms(3) that by simp
  have "que_inv u' i" if "i < length (ques u')" for i
  proof (cases "i = k")
    case False
    then have "que_inv u i" using assms(1,3) that by (simp add: ques_inv_def)
    with False show ?thesis using other [OF False] assms(5) by (simp add: que_inv_def entry_ok_def)
  qed (use assms(4) in simp)
  moreover have "sub_inv u' p e" if p: "subs u' p = Some e" for p e
  proof (rule ccontr)
    assume n: "\<not> sub_inv u' p e"
    then have old: "subs u p = Some e" "ev_que e = k \<longrightarrow> same_for p (ques u ! k) q'" using assms(6) [OF p] by auto
    then have s: "sub_inv u p e" using assms(1) by (simp add: ques_inv_def)
    have "sub_inv u' p e"
    proof (cases "ev_que e = k")
      case True
      then have "ques u' ! ev_que e = q'" using assms(2,3) by simp
      with s old(2) True assms(3) show ?thesis unfolding sub_inv_def same_for_def by (metis length_list_update)
    next
      case False
      with s other [OF False] assms(3) show ?thesis by (simp add: sub_inv_def)
    qed
    with n show False ..
  qed
  ultimately show ?thesis using ne by (simp add: ques_inv_def)
qed

lemma que_subs_upd:
  assumes "subs u p = Some e" "ev_que e' = ev_que e" "subs u' = (subs u)(p \<mapsto> e')"
  shows "que_subs u' k = que_subs u k"
  using assms by (auto simp: que_subs_def)

lemma que_invD:
  assumes "que_inv u k"
  shows "que_rel (ques u ! k) (conts u k)" "x \<in> set (conts u k) \<Longrightarrow> entry_ok u k x"
    "nCanceled (ques u ! k) = canceled (conts u k)"
    "canceled (conts u k) + nDuplicates (ques u ! k) + card (queued (conts u k)) = length (conts u k)"
    "nDuplicates (ques u ! k) \<le> 95" "finite (que_subs u k)" "card (que_subs u k) \<le> 31" "quota (ques u ! k) = 4 * card (que_subs u k)"
  using assms by (auto simp: que_inv_def)

lemma ques_invD:
  assumes "ques_inv u" "subs u p = Some e"
  shows "sub_inv u p e" "ev_que e < length (ques u)" "que_inv u (ev_que e)" "p \<in> que_subs u (ev_que e)"
  using assms by (auto simp: ques_inv_def sub_inv_def que_subs_def)

lemma queued_subs: "que_inv u k \<Longrightarrow> queued (conts u k) \<subseteq> que_subs u k"
  using que_invD(2) [of u k] by (fastforce simp: queued_def entry_ok_def)

end
