(* ===== verification/DbEventOps.thy ===== *)
theory DbEventOps
  imports DbEventInv
begin

text \<open>
  What posting, reading and cancelling do to the queues of an event user.
\<close>

section \<open>Frames\<close>

definition erase :: "evSubscrip \<Rightarrow> evSubscrip" where
  "erase e = e\<lparr>pLastLog := None, npend := 0, nreplace := 0\<rparr>"

lemma erase_eqD:
  assumes "erase e' = erase e"
  shows "ev_chan e' = ev_chan e" "user_sub e' = user_sub e" "ev_que e' = ev_que e" "ev_select e' = ev_select e"
    "useValque e' = useValque e" "callBackInProgress e' = callBackInProgress e" "enabled e' = enabled e"
  using assms by (cases e; cases e'; simp add: erase_def)+

text \<open>Only the queues and the bookkeeping of subscriptions change.\<close>

definition que_frame :: "'v event_user \<Rightarrow> 'v event_user \<Rightarrow> bool" where
  "que_frame u u' \<longleftrightarrow>
     length (ques u') = length (ques u) \<and> mlis u' = mlis u \<and> pSuicideEvent u' = pSuicideEvent u \<and>
     flowCtrlMode u' = flowCtrlMode u \<and> (\<forall>p. map_option erase (subs u' p) = map_option erase (subs u p))"

lemma que_frameD:
  assumes "que_frame u u'"
  shows "length (ques u') = length (ques u)" "mlis u' = mlis u" "pSuicideEvent u' = pSuicideEvent u"
    "flowCtrlMode u' = flowCtrlMode u" "subs u' p = Some e' \<Longrightarrow> \<exists>e. subs u p = Some e \<and> erase e' = erase e"
    "subs u p = Some e \<Longrightarrow> \<exists>e'. subs u' p = Some e' \<and> erase e' = erase e"
proof -
  have "map_option erase (subs u' p) = map_option erase (subs u p)" using assms by (simp add: que_frame_def)
  then show "subs u' p = Some e' \<Longrightarrow> \<exists>e. subs u p = Some e \<and> erase e' = erase e"
    "subs u p = Some e \<Longrightarrow> \<exists>e'. subs u' p = Some e' \<and> erase e' = erase e"
    by (cases "subs u p"; cases "subs u' p"; simp)+
qed (use assms in \<open>simp_all add: que_frame_def\<close>)

lemma que_frame_refl [simp]: "que_frame u u"
  by (simp add: que_frame_def)

lemma que_frame_trans: "que_frame a b \<Longrightarrow> que_frame b c \<Longrightarrow> que_frame a c"
  by (simp add: que_frame_def)

text \<open>The logs queued for a subscription.\<close>

definition logs :: "'v entry list \<Rightarrow> addr \<Rightarrow> 'v db_field_log list" where
  "logs L p = map (the \<circ> snd) (entries_of L p)"

lemma logs_simps [simp]:
  "logs [] p = []" "logs (x # L) p = (if fst x = Queued p then the (snd x) # logs L p else logs L p)"
  "logs (L @ M) p = logs L p @ logs M p"
  by (simp_all add: logs_def)

lemma logs_Nil: "logs L p = [] \<longleftrightarrow> entries_of L p = []"
  by (simp add: logs_def)

lemma logs_last: "last_at L p j \<Longrightarrow> logs L p \<noteq> [] \<and> last (logs L p) = the (snd (L ! j))"
  using last_at_entries [of L p j] by (auto simp: logs_def last_map)

lemma logs_replace:
  assumes "last_at L p j"
  shows "logs (L[j := (Queued p, Some l)]) p = butlast (logs L p) @ [l]"
proof -
  note j = last_at_rest [OF assms]
  have d: "logs (drop (Suc j) L) p = []" using j(3) by (simp add: logs_Nil)
  have "logs L p = logs (take j L @ L ! j # drop (Suc j) L) p" using split_at [OF j(1)] by simp
  then have "logs L p = logs (take j L) p @ [the (snd (L ! j))]" using j(2) d by simp
  then show ?thesis using d by (simp add: upd_conv_take_nth_drop [OF j(1)])
qed

section \<open>Posting\<close>

lemma upd_simps [simp]:
  "ques (upd_sub p e u) = ques u" "subs (upd_sub p e u) = (subs u)(p \<mapsto> e)" "mlis (upd_sub p e u) = mlis u"
  "ppendsem (upd_sub p e u) = ppendsem u" "pSuicideEvent (upd_sub p e u) = pSuicideEvent u" "flowCtrlMode (upd_sub p e u) = flowCtrlMode u"
  "ques (upd_que k f u) = (ques u)[k := f (ques u ! k)]" "subs (upd_que k f u) = subs u" "mlis (upd_que k f u) = mlis u"
  "ppendsem (upd_que k f u) = ppendsem u" "pSuicideEvent (upd_que k f u) = pSuicideEvent u" "flowCtrlMode (upd_que k f u) = flowCtrlMode u"
  by (simp_all add: upd_sub_def upd_que_def)

text \<open>A step that changes queue \<open>k\<close> to \<open>q'\<close> and a subscription of it to \<open>e'\<close>.\<close>

definition changed :: "'v event_user \<Rightarrow> nat \<Rightarrow> 'v event_que \<Rightarrow> addr \<Rightarrow> evSubscrip \<Rightarrow> 'v event_user \<Rightarrow> bool" where
  "changed u k q' p e' u' \<longleftrightarrow>
     ques u' = (ques u)[k := q'] \<and> subs u' = (subs u)(p \<mapsto> e') \<and> mlis u' = mlis u \<and>
     pSuicideEvent u' = pSuicideEvent u \<and> flowCtrlMode u' = flowCtrlMode u"

lemma changed_frame:
  assumes "changed u k q' p e' u'" "subs u p = Some e" "erase e' = erase e"
  shows "que_frame u u'" "que_subs u' i = que_subs u i" "i \<noteq> k \<Longrightarrow> ques u' ! i = ques u ! i"
proof -
  show "que_frame u u'" using assms by (auto simp: changed_def que_frame_def)
  show "que_subs u' i = que_subs u i"
    using assms erase_eqD(3) [OF assms(3)] by (intro que_subs_upd) (auto simp: changed_def)
  show "i \<noteq> k \<Longrightarrow> ques u' ! i = ques u ! i" using assms(1) by (simp add: changed_def)
qed

lemma changed_inv:
  assumes "ques_inv u" "subs u p = Some e" "erase e' = erase e" "changed u (ev_que e) q' p e' u'"
    and rel: "que_rel q' L'" and ok: "\<forall>x \<in> set L'. entry_ok u (ev_que e) x"
    and cnt: "nCanceled q' = canceled L'" "canceled L' + nDuplicates q' + card (queued L') = length L'" "nDuplicates q' \<le> 95"
      "quota q' = quota (ques u ! ev_que e)"
    and others: "\<And>p'. p' \<noteq> p \<Longrightarrow> same_for p' (ques u ! ev_que e) q'"
    and sub: "npend e' = length (entries_of L' p)" "npend e' = 0 \<Longrightarrow> pLastLog e' = None"
      "0 < npend e' \<Longrightarrow> \<exists>j. last_at L' p j \<and> pLastLog e' = Some (que_at q' j)"
  shows "ques_inv u'" "conts u' (ev_que e) = L'"
proof -
  note s = ques_invD [OF assms(1,2)]
  note c = assms(4) [unfolded changed_def]
  have q': "ques u' ! ev_que e = q'" using c s(2) by simp
  have L': "contents q' = L'" by (rule rel_contents [OF rel])
  then show "conts u' (ev_que e) = L'" using q' by simp
  note f = changed_frame [OF assms(4,2,3)]
  note old = que_invD [OF s(3)]
  have "que_inv u' (ev_que e)"
    unfolding que_inv_def q' L' f(2) using rel ok cnt old(6-8) f(2) by (simp add: entry_ok_def)
  moreover have "sub_inv u' p e'"
    using sub L' q' s(2) c erase_eqD(3) [OF assms(3)] by (auto simp: sub_inv_def)
  ultimately show "ques_inv u'"
    using others c f(2) by (intro ques_inv_upd [OF assms(1) s(2)]) (auto split: if_splits)
qed

text \<open>A log goes to the end of the queue.\<close>

lemma push_inv:
  assumes "ques_inv u" "subs u p = Some e" "length (conts u (ev_que e)) < 128"
    and "0 < npend e \<Longrightarrow> length (conts u (ev_que e)) < 96"
    and "q = ques u ! ev_que e"
    and "q' = q\<lparr>evque := (evque q)[putix q := Queued p], valque := (valque q)[putix q := Some l],
      nDuplicates := (if npend e > 0 then (nDuplicates q + 1) mod USHRT else nDuplicates q), putix := RNGINC (putix q)\<rparr>"
    and "changed u (ev_que e) q' p (e\<lparr>pLastLog := Some (putix q), npend := npend e + 1\<rparr>) u'"
  shows "ques_inv u'" "conts u' (ev_que e) = conts u (ev_que e) @ [(Queued p, Some l)]"
proof -
  let ?L = "conts u (ev_que e)" and ?e = "e\<lparr>pLastLog := Some (putix q), npend := npend e + 1\<rparr>"
  let ?L' = "?L @ [(Queued p, Some l)]"
  note s = ques_invD [OF assms(1,2)]
  note old = que_invD [OF s(3)]
  have er: "erase ?e = erase e" by (simp add: erase_def)
  have pend: "npend e = length (entries_of ?L p)" using s(1) by (simp add: sub_inv_def)
  have d: "nDuplicates q \<le> 95" "canceled ?L + nDuplicates q + card (queued ?L) = length ?L" using old(4,5) assms(5) by simp_all
  have q': "nDuplicates q' = (if npend e > 0 then nDuplicates q + 1 else nDuplicates q)" "nCanceled q' = nCanceled q" "quota q' = quota q"
    using d(1) by (simp_all add: assms(6))
  have "que_rel (q\<lparr>evque := (evque q)[putix q := Queued p], valque := (valque q)[putix q := Some l], putix := RNGINC (putix q)\<rparr>) ?L'"
    using rel_push [OF old(1) assms(3), of "Queued p" "Some l"] assms(5) by simp
  then have rel: "que_rel q' ?L'"
    unfolding assms(6) by (simp add: que_rel_def entry_at_def que_at_def)
  have at: "que_at q' = que_at q" by (simp add: assms(6) fun_eq_iff que_at_def)
  have qd: "card (queued ?L') = (if npend e > 0 then card (queued ?L) else Suc (card (queued ?L)))"
    using pend queued_iff [of p ?L] by (auto simp: insert_absorb)
  have pos: "0 < card (queued ?L)" if "0 < npend e" using that pend queued_iff [of p ?L] card_gt_0_iff finite_queued by fastforce
  have others: "same_for p' (ques u ! ev_que e) q'" if "p' \<noteq> p" for p'
    using that last_at_append [of "(Queued p, Some l)" p' ?L] at assms(5) rel_contents [OF rel] by (auto simp: same_for_def)
  have last: "last_at ?L' p (length ?L)" by (simp add: last_at_def)
  have ok: "\<forall>x \<in> set ?L'. entry_ok u (ev_que e) x" using old(2) s(4) by (auto simp: entry_ok_def)
  have cnt: "nCanceled q' = canceled ?L'" "canceled ?L' + nDuplicates q' + card (queued ?L') = length ?L'" "nDuplicates q' \<le> 95"
      "quota q' = quota (ques u ! ev_que e)"
    using old(3) q' assms(5) qd d pos assms(4) by (auto split: if_splits)
  have put: "putix q = que_at q' (length ?L)" using que_relD(5) [OF old(1)] at assms(5) by simp
  note c = changed_inv [OF assms(1,2) er assms(7) rel ok cnt others]
  show "ques_inv u'" using last put pend by (intro c(1)) auto
  show "conts u' (ev_que e) = ?L'" using last put pend by (intro c(2)) auto
qed

text \<open>A log replaces the last one of its subscription.\<close>

lemma replace_inv:
  assumes "ques_inv u" "subs u p = Some e" "last_at (conts u (ev_que e)) p j" "pLastLog e = Some (que_at (ques u ! ev_que e) j)"
    and "q = ques u ! ev_que e" "q' = q\<lparr>valque := (valque q)[que_at q j := Some l]\<rparr>"
    and "changed u (ev_que e) q' p (e\<lparr>nreplace := r\<rparr>) u'"
  shows "ques_inv u'" "conts u' (ev_que e) = (conts u (ev_que e))[j := (Queued p, Some l)]"
proof -
  let ?L = "conts u (ev_que e)" and ?e = "e\<lparr>nreplace := r\<rparr>"
  let ?L' = "?L[j := (Queued p, Some l)]"
  note s = ques_invD [OF assms(1,2)]
  note old = que_invD [OF s(3)]
  note j = last_at_rest [OF assms(3)]
  have er: "erase ?e = erase e" by (simp add: erase_def)
  have pend: "npend e = length (entries_of ?L p)" using s(1) by (simp add: sub_inv_def)
  have rel0: "que_rel q ?L" using old(1) assms(5) by simp
  have "(evque q)[que_at q j := Queued p] = evque q"
    using rel_entry(1) [OF rel0 j(1)] j(2) by (metis list_update_id)
  then have rel: "que_rel q' ?L'" using rel_set [OF rel0 j(1), of "Queued p" "Some l"] by (simp add: assms(6))
  have at: "que_at q' = que_at q" by (simp add: assms(6))
  have L': "contents q' = ?L'" by (rule rel_contents [OF rel])
  have others: "same_for p' (ques u ! ev_que e) q'" if "p' \<noteq> p" for p'
  proof -
    have "last_at ?L' p' i" if "last_at ?L p' i" for i
      by (rule last_at_update [OF that]) (use \<open>p' \<noteq> p\<close> j(2) in auto)
    moreover have "entries_of ?L' p' = entries_of ?L p'" by (rule update_log(1) [OF j(1,2) that])
    ultimately show ?thesis using at assms(5) L' by (auto simp: same_for_def)
  qed
  have last: "last_at ?L' p j" by (rule last_at_update [OF assms(3)]) (use j(2) in auto)
  have ok: "\<forall>x \<in> set ?L'. entry_ok u (ev_que e) x"
  proof
    have "entry_ok u (ev_que e) (Queued p, Some l)" using s(4) by (simp add: entry_ok_def)
    then show "entry_ok u (ev_que e) x" if "x \<in> set ?L'" for x
      using that old(2) set_update_subset_insert [of ?L j "(Queued p, Some l)"] by blast
  qed
  have n: "length (entries_of ?L' p) = length (entries_of ?L p)" "canceled ?L' = canceled ?L" "queued ?L' = queued ?L"
    by (rule update_log(2-4) [OF j(1,2)])+
  have cnt: "nCanceled q' = canceled ?L'" "canceled ?L' + nDuplicates q' + card (queued ?L') = length ?L'" "nDuplicates q' \<le> 95"
      "quota q' = quota (ques u ! ev_que e)"
    using old(3-5) n assms(5) by (simp_all add: assms(6))
  have pos: "0 < npend e" using last_at_entries [OF assms(3)] pend by simp
  note c = changed_inv [OF assms(1,2) er assms(7) rel ok cnt others]
  show "ques_inv u'" using last pend n(1) pos assms(4,5) at by (intro c(1)) auto
  show "conts u' (ev_que e) = ?L'" using last pend n(1) pos assms(4,5) at by (intro c(2)) auto
qed

text \<open>
  A queue takes a log if there is room for it; the logs of the subscription then are the old ones and the new one,
  which may have replaced the last of them.
\<close>

definition logs_after :: "'v db_field_log list \<Rightarrow> 'v db_field_log \<Rightarrow> 'v db_field_log list \<Rightarrow> bool" where
  "logs_after ls l ls' \<longleftrightarrow> ls' = ls @ [l] \<or> ls \<noteq> [] \<and> ls' = butlast ls @ [l]"

definition queue_step :: "'v event_user \<Rightarrow> nat \<Rightarrow> addr \<Rightarrow> 'v db_field_log \<Rightarrow> 'v event_user \<Rightarrow> bool" where
  "queue_step u k p l u' \<longleftrightarrow>
     ques_inv u' \<and> que_frame u u' \<and> (\<forall>i. canceled (conts u' i) = canceled (conts u i)) \<and>
     (\<forall>i. i \<noteq> k \<longrightarrow> conts u' i = conts u i) \<and> conts u' k \<noteq> [] \<and>
     logs_after (logs (conts u k) p) l (logs (conts u' k) p) \<and>
     (\<forall>p'. p' \<noteq> p \<longrightarrow> logs (conts u' k) p' = logs (conts u k) p') \<and>
     ppendsem u' = (ppendsem u \<or> conts u k = []) \<and>
     (entries_of (conts u k) p = [] \<or> \<not> flowCtrlMode u \<and> length (conts u k) < 96 \<and> l \<noteq> Log_rec \<longrightarrow>
        length (conts u' k) = Suc (length (conts u k)))"

lemma queue_ok:
  assumes "ques_inv u" "subs u p = Some e" "npend e = 0 \<Longrightarrow> length (conts u (ev_que e)) < 128"
  shows "\<exists>u'. db_queue_event_log p l u = Some u' \<and> queue_step u (ev_que e) p l u'"
proof -
  define k where "k = ev_que e"
  define q where "q = ques u ! k"
  let ?L = "conts u k"
  note s = ques_invD [OF assms(1,2)]
  have rel: "que_rel q ?L" using que_invD(1) [OF s(3)] by (simp add: k_def q_def)
  note space = rel_ringSpace [OF rel]
  have pend: "npend e = length (entries_of ?L p)" using s(1) by (simp add: sub_inv_def k_def)
  have step: "queue_step u k p l u'" if u': "changed u k q' p e' u'" "ques_inv u'" "erase e' = erase e"
      "canceled (conts u' k) = canceled ?L" "conts u' k \<noteq> []"
      "logs_after (logs ?L p) l (logs (conts u' k) p)" "\<forall>p'. p' \<noteq> p \<longrightarrow> logs (conts u' k) p' = logs ?L p'"
      "ppendsem u' = (ppendsem u \<or> ?L = [])"
      "entries_of ?L p = [] \<or> \<not> flowCtrlMode u \<and> length ?L < 96 \<and> l \<noteq> Log_rec \<Longrightarrow> length (conts u' k) = Suc (length ?L)" for u' q' e'
  proof -
    note f = changed_frame [OF u'(1) assms(2) u'(3)]
    have "canceled (conts u' i) = canceled (conts u i)" for i using f(3) [of i] u'(4) by (cases "i = k") simp_all
    then show ?thesis using u'(2,5-9) f(1,3) by (simp add: queue_step_def)
  qed
  note unf = db_queue_event_log_def Let_def assms(2) option.case k_def [symmetric] q_def [symmetric]
  define qp where "qp = q\<lparr>evque := (evque q)[putix q := Queued p], valque := (valque q)[putix q := Some l],
      nDuplicates := (if npend e > 0 then (nDuplicates q + 1) mod USHRT else nDuplicates q), putix := RNGINC (putix q)\<rparr>"
  define up where "up = (upd_sub p (e\<lparr>pLastLog := Some (putix q), npend := npend e + 1\<rparr>) (upd_que k (\<lambda>_. qp) u))
      \<lparr>ppendsem := ppendsem u \<or> ringSpace q = EVENTQUESIZE\<rparr>"
  have push: ?thesis if L: "length ?L < 128" "0 < npend e \<Longrightarrow> length ?L < 96"
    and c: "npend e = 0 \<or> (\<exists>l0 i. pLastLog e = Some i \<and> valque q ! i = Some l0 \<and> \<not> (l0 = Log_rec \<and> l = Log_rec)) \<and>
      \<not> (flowCtrlMode u \<or> ringSpace q \<le> 32)"
  proof -
    have e: "evque q ! putix q = EVENTQEMPTY" using rel_put_empty [OF rel] L(1) by simp
    have eq: "db_queue_event_log p l u = Some up"
      unfolding unf using c e by (auto simp: up_def qp_def upd_que_def q_def)
    have c: "changed u k qp p (e\<lparr>pLastLog := Some (putix q), npend := npend e + 1\<rparr>) up"
      by (simp add: changed_def up_def)
    note pi = push_inv [OF assms(1,2) _ _ q_def [unfolded k_def] qp_def, of up, folded k_def]
    have "ques_inv up" "conts up k = ?L @ [(Queued p, Some l)]" using pi L c by simp_all
    moreover have "ppendsem up = (ppendsem u \<or> ?L = [])" using space L by (cases ?L) (auto simp: up_def)
    ultimately have "queue_step u k p l up"
      by (intro step [OF c]) (simp_all add: erase_def logs_after_def)
    with eq show ?thesis by (auto simp: k_def)
  qed
  show ?thesis
  proof (cases "npend e = 0")
    case True
    then show ?thesis using assms(3) by (intro push) (simp_all add: k_def)
  next
    case False
    then obtain j where j: "last_at ?L p j" "pLastLog e = Some (que_at q j)"
      using s(1) by (auto simp: sub_inv_def k_def q_def)
    note jr = last_at_rest [OF j(1)]
    have "entry_ok u k (?L ! j)" using que_invD(2) [OF s(3)] jr(1) by (simp add: k_def)
    then obtain l0 where l0: "?L ! j = (Queued p, Some l0)" using jr(2) by (auto simp: entry_ok_def)
    have v: "valque q ! que_at q j = Some l0" using rel_entry(2) [OF rel jr(1)] l0 by simp
    have ll: "logs ?L p \<noteq> []" "last (logs ?L p) = l0" using logs_last [OF j(1)] l0 by simp_all
    have ne: "?L \<noteq> []" using jr(1) by auto
    consider "l0 = Log_rec" "l = Log_rec" | "\<not> (l0 = Log_rec \<and> l = Log_rec)" "flowCtrlMode u \<or> ringSpace q \<le> 32"
      | "\<not> (l0 = Log_rec \<and> l = Log_rec)" "\<not> (flowCtrlMode u \<or> ringSpace q \<le> 32)" by blast
    then show ?thesis
    proof cases
      case 1
      then have "db_queue_event_log p l u = Some u" unfolding unf using False j(2) v by simp
      moreover have "logs_after (logs ?L p) l (logs ?L p)" using ll 1 append_butlast_last_id [of "logs ?L p"] by (simp add: logs_after_def)
      ultimately show ?thesis using assms(1) ne 1 False pend by (intro exI [of _ u]) (simp add: queue_step_def k_def)
    next
      case 2
      define q' where "q' = q\<lparr>valque := (valque q)[que_at q j := Some l]\<rparr>"
      define u' where "u' = upd_sub p (e\<lparr>nreplace := nreplace e + 1\<rparr>) (upd_que k (\<lambda>_. q') u)"
      have eq: "db_queue_event_log p l u = Some u'"
        unfolding unf using False j(2) v 2 by (auto simp: u'_def q'_def upd_que_def q_def)
      have c: "changed u k q' p (e\<lparr>nreplace := nreplace e + 1\<rparr>) u'" by (simp add: changed_def u'_def)
      have L': "ques_inv u'" "conts u' k = ?L[j := (Queued p, Some l)]"
        using replace_inv [OF assms(1,2) _ _ q_def [unfolded k_def] q'_def, where u' = u', folded k_def] j c by (simp_all add: q_def)
      have "logs (?L[j := (Queued p, Some l)]) p' = logs ?L p'" if "p' \<noteq> p" for p'
        using update_log(1) [OF jr(1,2) that] by (simp add: logs_def)
      moreover have "flowCtrlMode u \<or> \<not> length ?L < 96" using 2(2) space by auto
      ultimately have "queue_step u k p l u'"
        using L' ll(1) ne False pend update_log(3) [OF jr(1,2), of "Some l"] logs_replace [OF j(1), of l]
        by (intro step [OF c]) (simp_all add: erase_def logs_after_def u'_def)
      with eq show ?thesis by (auto simp: k_def)
    next
      case 3
      with space j(2) v show ?thesis by (intro push) auto
    qed
  qed
qed

section \<open>Reading\<close>

lemma ques_inv_sub:
  assumes "ques_inv u" "subs u p = Some e" "ques u' = ques u" "subs u' = (subs u)(p \<mapsto> e')"
    and "ev_que e' = ev_que e" "npend e' = npend e" "pLastLog e' = pLastLog e"
  shows "ques_inv u'" "que_subs u' k = que_subs u k"
proof -
  show qs: "que_subs u' k = que_subs u k" for k by (rule que_subs_upd [OF assms(2,5,4)])
  have "sub_inv u' p' e''" if "subs u' p' = Some e''" for p' e''
    using that assms by (cases "p' = p") (auto simp: ques_inv_def sub_inv_def)
  moreover have "que_inv u' i" if "que_inv u i" for i using that qs assms(3) by (simp add: que_inv_def entry_ok_def)
  ultimately show "ques_inv u'" using assms(1,3) by (simp add: ques_inv_def)
qed

lemma canceled_queued: "canceled L + card (queued L) \<le> length L"
proof (induction L)
  case (Cons x L)
  have "card ({p. fst x = Queued p} \<union> queued L) \<le> (case fst x of Queued p \<Rightarrow> 1 | _ \<Rightarrow> 0) + card (queued L)"
    by (cases "fst x") (simp_all add: card_insert_if)
  with Cons show ?case by (cases "fst x") auto
qed simp

text \<open>What removing the entry between \<open>A\<close> and \<open>B\<close> does to the counts.\<close>

lemma queued_remove:
  assumes "n = length (entries_of (A @ (Queued p, v) # B) p)"
  shows "n = 1 \<Longrightarrow> card (queued (A @ (Queued p, v) # B)) = Suc (card (queued (A @ B)))"
    and "n \<noteq> 1 \<Longrightarrow> queued (A @ (Queued p, v) # B) = queued (A @ B) \<and> 1 < n \<and>
      canceled (A @ B) + card (queued (A @ B)) < length (A @ (Queued p, v) # B)"
proof -
  have "queued (A @ (Queued p, v) # B) = insert p (queued (A @ B))" by auto
  moreover have "p \<in> queued (A @ B) \<longleftrightarrow> n \<noteq> 1" using assms by (simp add: queued_iff del: queued_simps)
  moreover have "n \<noteq> 1 \<Longrightarrow> 1 < n" using assms by simp
  ultimately show "n = 1 \<Longrightarrow> card (queued (A @ (Queued p, v) # B)) = Suc (card (queued (A @ B)))"
    "n \<noteq> 1 \<Longrightarrow> queued (A @ (Queued p, v) # B) = queued (A @ B) \<and> 1 < n \<and>
      canceled (A @ B) + card (queued (A @ B)) < length (A @ (Queued p, v) # B)"
    using canceled_queued [of "A @ B"] by (auto simp: insert_absorb simp del: queued_simps)
qed

lemma same_for_pop:
  assumes "contents q = (x, v) # contents q'" "\<And>i. que_at q' i = que_at q (Suc i)" "x \<noteq> Queued p"
  shows "same_for p q q'"
proof -
  have "\<exists>j'. last_at (contents q') p j' \<and> que_at q' j' = que_at q j" if l: "last_at (contents q) p j" for j
  proof -
    have "entries_of (contents q') p \<noteq> []" using last_at_entries [OF l] assms(1,3) by simp
    then obtain i where "j = Suc i" "last_at (contents q') p i" using last_at_tl l [unfolded assms(1)] by blast
    with assms(2) show ?thesis by auto
  qed
  with assms(1,3) show ?thesis by (simp add: same_for_def)
qed

lemma pop_at: "getix q < 128 \<Longrightarrow> que_at (q\<lparr>getix := RNGINC (getix q)\<rparr>) i = que_at q (Suc i)"
  by (simp add: que_at_def RNGINC_mod mod_add_left_eq)

text \<open>A cancelled entry is dropped.\<close>

lemma pop_canceled:
  assumes "ques_inv u" "k < length (ques u)" "conts u k = (canceledEvent, v) # L"
    and "q = ques u ! k" "q' = q\<lparr>evque := (evque q)[getix q := EVENTQEMPTY], valque := (valque q)[getix q := None],
      getix := RNGINC (getix q), nCanceled := nCanceled q - 1\<rparr>"
    and "u' = upd_que k (\<lambda>_. q') u"
  shows "nCanceled q \<noteq> 0" "ques_inv u'" "conts u' k = L" "que_frame u u'" "i \<noteq> k \<Longrightarrow> ques u' ! i = ques u ! i"
proof -
  have inv: "que_inv u k" using assms(1,2) by (simp add: ques_inv_def)
  note old = que_invD [OF inv]
  show "nCanceled q \<noteq> 0" using old(3) assms(3,4) by simp
  have rel0: "que_rel q ((canceledEvent, v) # L)" using old(1) assms(3,4) by simp
  have "que_rel (q\<lparr>evque := (evque q)[getix q := EVENTQEMPTY], valque := (valque q)[getix q := None], getix := RNGINC (getix q)\<rparr>) L"
    by (rule rel_pop [OF rel0])
  then have rel: "que_rel q' L" unfolding assms(5) by simp
  have L: "contents q' = L" by (rule rel_contents [OF rel])
  have q': "ques u' ! k = q'" using assms(2,6) by simp
  show c: "conts u' k = L" using L q' by simp
  show fr: "que_frame u u'" by (simp add: que_frame_def assms(6))
  show "i \<noteq> k \<Longrightarrow> ques u' ! i = ques u ! i" by (simp add: assms(6))
  have qs: "que_subs u' i = que_subs u i" for i by (simp add: que_subs_def assms(6))
  have at: "que_at q' i = que_at q (Suc i)" for i using pop_at [OF que_relD(3) [OF rel0]] by (simp add: assms(5) que_at_def)
  have "que_inv u' k"
    using old assms(3,4) rel c q' qs by (simp add: que_inv_def entry_ok_def assms(5))
  moreover have "same_for p (ques u ! k) q'" for p using same_for_pop [of "ques u ! k"] L at assms(3,4) by simp
  ultimately show "ques_inv u'"
    by (intro ques_inv_upd [OF assms(1,2), of u' q']) (auto simp: assms(6) que_subs_def)
qed

text \<open>The log at the head is taken from the queue.\<close>

lemma pop_queued:
  assumes "ques_inv u" "k < length (ques u)" "conts u k = (Queued p, Some l) # L" "ix = getix (ques u ! k)"
  shows "\<exists>e e' u1 u2 q'. subs u p = Some e \<and> ev_que e = k \<and> event_remove k ix EVENTQEMPTY u = Some u1 \<and>
    u2 = upd_que k (\<lambda>q. q\<lparr>getix := RNGINC ix\<rparr>) u1 \<and> changed u k q' p e' u2 \<and> erase e' = erase e \<and>
    ques_inv u2 \<and> conts u2 k = L \<and> ppendsem u2 = ppendsem u"
proof -
  define q where "q = ques u ! k"
  have inv: "que_inv u k" using assms(1,2) by (simp add: ques_inv_def)
  note old = que_invD [OF inv]
  have "entry_ok u k (Queued p, Some l)" using old(2) assms(3) by simp
  then obtain e where e: "subs u p = Some e" "ev_que e = k" by (auto simp: entry_ok_def que_subs_def)
  note s = ques_invD(1) [OF assms(1) e(1), unfolded sub_inv_def e(2)]
  have pend: "npend e = length (entries_of ([] @ (Queued p, Some l) # L) p)" using s assms(3) by simp
  note rm = queued_remove [OF pend]
  have rel0: "que_rel q ((Queued p, Some l) # L)" using old(1) assms(3) by (simp add: q_def)
  define dup where "dup = (if npend e = 1 then nDuplicates q else nDuplicates q - 1)"
  define q' where "q' = q\<lparr>evque := (evque q)[getix q := EVENTQEMPTY], valque := (valque q)[getix q := None],
    getix := RNGINC (getix q), nDuplicates := dup\<rparr>"
  define e' where "e' = e\<lparr>pLastLog := (if npend e = 1 then None else pLastLog e), npend := npend e - 1\<rparr>"
  have "que_rel (q\<lparr>evque := (evque q)[getix q := EVENTQEMPTY], valque := (valque q)[getix q := None], getix := RNGINC (getix q)\<rparr>) L"
    by (rule rel_pop [OF rel0])
  then have rel: "que_rel q' L" unfolding q'_def by simp
  have head: "evque q ! ix = Queued p" using rel_head(1) [OF rel0] assms(4) by (simp add: q_def)
  have sum: "canceled L + nDuplicates q + card (queued ((Queued p, Some l) # L)) = Suc (length L)"
    using old(4) assms(3) by (simp add: q_def)
  have nd: "npend e \<noteq> 1 \<Longrightarrow> 1 < npend e \<and> 0 < nDuplicates q"
    using rm(2) sum by (simp del: queued_simps)
  define u1 where "u1 = upd_sub p e' (upd_que k (\<lambda>_. q'\<lparr>getix := getix q\<rparr>) u)"
  define u2 where "u2 = upd_que k (\<lambda>q. q\<lparr>getix := RNGINC ix\<rparr>) u1"
  have ev: "event_remove k ix EVENTQEMPTY u = Some u1"
    using e head nd assms(2,4) unfolding event_remove_def Let_def
    by (cases "npend e = 1") (auto simp: q_def [symmetric] u1_def e'_def q'_def dup_def upd_que_def upd_sub_def)
  have "q'\<lparr>getix := getix q, getix := RNGINC ix\<rparr> = q'"
    by (rule event_que.equality) (simp_all add: q'_def assms(4) q_def)
  then have ch: "changed u k q' p e' u2" using assms(2) by (simp add: changed_def u2_def u1_def)
  have er: "erase e' = erase e" by (simp add: e'_def erase_def)
  have L: "contents q' = L" by (rule rel_contents [OF rel])
  have at: "que_at q' i = que_at q (Suc i)" for i
    using pop_at [OF que_relD(3) [OF rel0]] by (simp add: q'_def que_at_def)
  have others: "same_for p' (ques u ! k) q'" if "p' \<noteq> p" for p'
    using same_for_pop [of "ques u ! k" "Queued p" "Some l" q' p'] L at assms(3) that by (simp add: q_def)
  have ok: "\<forall>x \<in> set L. entry_ok u k x" using old(2) assms(3) by simp
  have c: "nCanceled q' = canceled L" "nDuplicates q' \<le> 95" "quota q' = quota (ques u ! k)"
    using old(3,5) assms(3) by (auto simp: q'_def q_def dup_def)
  have c2: "canceled L + nDuplicates q' + card (queued L) = length L"
    using sum rm nd by (cases "npend e = 1") (simp_all add: q'_def dup_def del: queued_simps)
  have last: "\<exists>j. last_at L p j \<and> pLastLog e' = Some (que_at q' j)" if "0 < npend e'"
  proof -
    have n: "npend e \<noteq> 1" "entries_of L p \<noteq> []" using that pend by (auto simp: e'_def)
    then obtain j where j: "last_at ((Queued p, Some l) # L) p j" "pLastLog e = Some (que_at q j)"
      using s assms(3) by (auto simp: q_def split: if_splits)
    obtain i where "j = Suc i" "last_at L p i" using last_at_tl [OF j(1) n(2)] by blast
    with j(2) n(1) at show ?thesis by (auto simp: e'_def)
  qed
  have pn: "npend e' = length (entries_of L p)" "npend e' = 0 \<Longrightarrow> pLastLog e' = None"
    using pend nd by (auto simp: e'_def)
  note r = changed_inv [OF assms(1) e(1) er, unfolded e(2), OF ch rel ok c(1) c2 c(2,3) others pn last]
  have "ppendsem u2 = ppendsem u" by (simp add: u2_def u1_def)
  with e ev ch er r show ?thesis using u2_def by blast
qed

section \<open>Cancelling\<close>

text \<open>The first entry of a subscription is marked as cancelled.\<close>

lemma cancel_entry:
  assumes "ques_inv u" "subs u p = Some e" "k = ev_que e" "j < length (conts u k)" "fst (conts u k ! j) = Queued p"
    and "\<forall>i < j. fst (conts u k ! i) \<noteq> Queued p" "ix = que_at (ques u ! k) j"
  shows "\<exists>q' e' u'. event_remove k ix canceledEvent (upd_que k (\<lambda>q. q\<lparr>nCanceled := nCanceled q + 1\<rparr>) u) = Some u' \<and>
    changed u k q' p e' u' \<and> erase e' = erase e \<and> ques_inv u' \<and> conts u' k = (conts u k)[j := (canceledEvent, None)] \<and>
    getix q' = getix (ques u ! k) \<and> ppendsem u' = ppendsem u"
proof -
  define q where "q = ques u ! k"
  define L where "L = conts u k"
  note s = ques_invD [OF assms(1,2), folded assms(3)]
  note old = que_invD [OF s(3), folded q_def, folded L_def [unfolded q_def [symmetric]]]
  have Lq: "contents q = L" by (simp add: L_def q_def)
  have sb: "npend e = length (entries_of L p)"
      "if npend e = 0 then pLastLog e = None else \<exists>j. last_at L p j \<and> pLastLog e = Some (que_at q j)"
    using s(1) unfolding sub_inv_def assms(3) [symmetric] L_def q_def by blast+
  have j: "j < length L" "fst (L ! j) = Queued p" using assms(4,5) by (simp_all add: L_def)
  have rel0: "que_rel q L" using que_invD(1) [OF s(3)] by (simp add: q_def L_def)
  let ?L = "L[j := (canceledEvent, None)]"
  have split: "L = take j L @ (Queued p, snd (L ! j)) # drop (Suc j) L" using split_at [OF j(1)] j(2) by (metis prod.collapse)
  note upd = update_canceled [OF j]
  have rm: "npend e = 1 \<Longrightarrow> card (queued L) = Suc (card (queued ?L))"
      "npend e \<noteq> 1 \<Longrightarrow> queued L = queued ?L \<and> 1 < npend e \<and> canceled L + card (queued L) < length L"
  proof -
    have n: "npend e = length (entries_of (take j L @ (Queued p, snd (L ! j)) # drop (Suc j) L) p)" using sb(1) split by simp
    have q: "queued ?L = queued (take j L @ drop (Suc j) L)" "canceled L = canceled (take j L @ drop (Suc j) L)"
      using arg_cong [OF split, of canceled] by (auto simp: upd_conv_take_nth_drop [OF j(1)])
    show "npend e = 1 \<Longrightarrow> card (queued L) = Suc (card (queued ?L))"
      "npend e \<noteq> 1 \<Longrightarrow> queued L = queued ?L \<and> 1 < npend e \<and> canceled L + card (queued L) < length L"
      using queued_remove [OF n] split q by (metis, metis)
  qed
  define dup where "dup = (if npend e = 1 then nDuplicates q else nDuplicates q - 1)"
  define q' where "q' = q\<lparr>evque := (evque q)[ix := canceledEvent], valque := (valque q)[ix := None],
    nDuplicates := dup, nCanceled := nCanceled q + 1\<rparr>"
  define e' where "e' = e\<lparr>pLastLog := (if npend e = 1 then None else pLastLog e), npend := npend e - 1\<rparr>"
  define u' where "u' = upd_sub p e' (upd_que k (\<lambda>_. q') u)"
  have cn: "nCanceled q = canceled L" "canceled L + nDuplicates q + card (queued L) = length L" "nDuplicates q \<le> 95"
    using que_invD(3-5) [OF s(3)] by (simp_all add: q_def L_def)
  have rel: "que_rel q' ?L" unfolding q'_def using rel_set [OF rel0 j(1), of canceledEvent None] assms(7) by (simp add: q_def)
  have L': "contents q' = ?L" by (rule rel_contents [OF rel])
  have at: "que_at q' = que_at q" by (simp add: q'_def fun_eq_iff que_at_def)
  have ent: "evque q ! ix = Queued p" using rel_entry(1) [OF rel0 j(1)] j(2) assms(7) by (simp add: q_def)
  have nd: "npend e \<noteq> 1 \<Longrightarrow> 0 < nDuplicates q" using rm(2) cn(2) by linarith
  have k: "k < length (ques u)" by (rule s(2))
  have "q\<lparr>nCanceled := nCanceled q + 1, evque := (evque q)[ix := canceledEvent], valque := (valque q)[ix := None], nDuplicates := dup\<rparr> = q'"
      "npend e = 1 \<Longrightarrow> q\<lparr>nCanceled := nCanceled q + 1, evque := (evque q)[ix := canceledEvent], valque := (valque q)[ix := None]\<rparr> = q'"
    by (rule event_que.equality; simp add: q'_def dup_def)+
  then have ev: "event_remove k ix canceledEvent (upd_que k (\<lambda>q. q\<lparr>nCanceled := nCanceled q + 1\<rparr>) u) = Some u'"
    using assms(2) ent nd rm(2) k unfolding event_remove_def Let_def
    by (cases "npend e = 1") (simp_all add: q_def [symmetric] u'_def e'_def dup_def upd_que_def upd_sub_def)
  have ch: "changed u k q' p e' u'" by (simp add: changed_def u'_def)
  have er: "erase e' = erase e" by (simp add: e'_def erase_def)
  have others: "same_for p' (ques u ! k) q'" if "p' \<noteq> p" for p'
    using that upd(1) [OF that, of None] last_at_update [of L p' _ "(canceledEvent, None)" j] j(2) at Lq L'
    by (auto simp: same_for_def q_def [symmetric])
  have ok: "\<forall>x \<in> set ?L. entry_ok u k x"
  proof
    have "entry_ok u k (canceledEvent, None)" by (simp add: entry_ok_def)
    then show "entry_ok u k x" if "x \<in> set ?L" for x
      using that que_invD(2) [OF s(3), folded L_def] set_update_subset_insert [of L j "(canceledEvent, None)"] by blast
  qed
  have c: "nCanceled q' = canceled ?L" "nDuplicates q' \<le> 95" "quota q' = quota (ques u ! k)"
    using cn upd(3) by (auto simp: q'_def dup_def q_def)
  have c2: "canceled ?L + nDuplicates q' + card (queued ?L) = length ?L"
    using cn(2) rm nd upd(3) by (cases "npend e = 1") (auto simp: q'_def dup_def)
  have n': "npend e' = length (entries_of ?L p)" using sb(1) upd(2) [of None] by (simp add: e'_def)
  have z: "npend e' = 0 \<Longrightarrow> pLastLog e' = None" using rm(2) by (auto simp: e'_def)
  have last: "\<exists>i. last_at ?L p i \<and> pLastLog e' = Some (que_at q' i)" if "0 < npend e'"
  proof -
    have n: "npend e \<noteq> 1" "npend e \<noteq> 0" "entries_of ?L p \<noteq> []" using that n' by (auto simp: e'_def)
    then obtain i where i: "last_at L p i" "pLastLog e = Some (que_at q i)" using sb(2) by auto
    have "i \<noteq> j"
    proof
      assume "i = j"
      then have "entries_of (take j L) p = []" "entries_of (drop (Suc j) L) p = []"
        using assms(6) last_at_rest(3) [OF i(1)]
        by (auto simp: entries_of_def filter_empty_conv in_set_conv_nth L_def) (metis fst_conv)
      then show False using n(3) by (simp add: upd_conv_take_nth_drop [OF j(1)])
    qed
    then have "last_at ?L p i" by (intro last_at_update [OF i(1)]) simp
    with i(2) n(1) at show ?thesis by (auto simp: e'_def)
  qed
  note r = changed_inv [OF assms(1,2) er, folded assms(3), OF ch rel ok c(1) c2 c(2,3) others n' z last]
  have "getix q' = getix (ques u ! k)" "ppendsem u' = ppendsem u" by (simp_all add: q'_def q_def u'_def)
  with ev ch er r show ?thesis unfolding L_def by blast
qed

end
