(* ===== verification/DbEventUser.thy ===== *)
theory DbEventUser
  imports DbEventOps
begin

text \<open>
  The operations of an event user: adding, enabling and cancelling subscriptions, posting, and the turns of the
  event task, each with what it leaves of the invariant and of the queues.
\<close>

section \<open>Purging\<close>

definition cancel_of :: "addr \<Rightarrow> 'v entry \<Rightarrow> 'v entry" where
  "cancel_of p x = (if fst x = Queued p then (canceledEvent, None) else x)"

lemma purge_ok:
  assumes "ques_inv u" "subs u p = Some e" "k = ev_que e" "i < 128" "n = 128 - i"
    and "\<forall>x \<in> set (take i (conts u k)). fst x \<noteq> Queued p"
  shows "\<exists>u'. purge_event n p k (que_at (ques u ! k) i) u = Some u' \<and> ques_inv u' \<and> que_frame u u' \<and>
    conts u' k = map (cancel_of p) (conts u k) \<and> (\<forall>m. m \<noteq> k \<longrightarrow> ques u' ! m = ques u ! m) \<and> ppendsem u' = ppendsem u"
  using assms
proof (induction n arbitrary: u e i)
  case (Suc n)
  let ?L = "conts u k" and ?q = "ques u ! k"
  note s = ques_invD [OF Suc.prems(1,2), folded Suc.prems(3)]
  note old = que_invD [OF s(3)]
  note d = que_relD [OF old(1)]
  have n: "n = 127 - i" using Suc.prems(5) by simp
  have inc: "RNGINC (que_at ?q i) = que_at ?q (Suc i)" using RNGINC_mod [OF que_at_lt] by (simp add: que_at_def mod_Suc_eq)
  have wrap: "que_at ?q (Suc i) = getix ?q \<longleftrightarrow> i = 127"
    using que_at_inj [of "Suc i" 0 ?q] que_at_0 [OF d(3)] Suc.prems(4) d(3) by (cases "i = 127") (auto simp: que_at_def)
  show ?case
  proof (cases "i < length ?L")
    case False
    then have "entry_at ?q i = (EVENTQEMPTY, None)" using d(8) [OF Suc.prems(4)] by simp
    then have "evque ?q ! que_at ?q i = EVENTQEMPTY" by (simp add: entry_at_def)
    moreover have "map (cancel_of p) ?L = ?L"
      using False Suc.prems(6) by (intro map_idI) (simp add: cancel_of_def)
    ultimately show ?thesis using Suc.prems(1) by (intro exI [of _ u]) simp
  next
    case True
    have ent: "evque ?q ! que_at ?q i = fst (?L ! i)" by (rule rel_entry(1) [OF old(1) True])
    have nempty: "fst (?L ! i) \<noteq> EVENTQEMPTY" using d(7) True by (metis imageI nth_mem)
    have "\<exists>u1 e1. (if evque ?q ! que_at ?q i = Queued p
         then if nCanceled ?q \<ge> USHRT - 1 then None
              else event_remove k (que_at ?q i) canceledEvent (upd_que k (\<lambda>q. q\<lparr>nCanceled := nCanceled q + 1\<rparr>) u)
         else Some u) = Some u1 \<and> ques_inv u1 \<and> que_frame u u1 \<and> subs u1 p = Some e1 \<and> ev_que e1 = k \<and>
       conts u1 k = ?L[i := cancel_of p (?L ! i)] \<and> getix (ques u1 ! k) = getix ?q \<and>
       (\<forall>m. m \<noteq> k \<longrightarrow> ques u1 ! m = ques u ! m) \<and> ppendsem u1 = ppendsem u"
    proof (cases "fst (?L ! i) = Queued p")
      case False
      then show ?thesis using Suc.prems(1-3) ent by (intro exI [of _ u] exI [of _ e]) (simp add: cancel_of_def)
    next
      case q: True
      have "canceled ?L \<le> length ?L" by (simp add: canceled_def)
      then have c: "nCanceled ?q < 65535" using old(3) d(4) by simp
      have first: "\<forall>m < i. fst (?L ! m) \<noteq> Queued p"
      proof (intro allI impI)
        fix m assume m: "m < i"
        then have "?L ! m \<in> set (take i ?L)" using True nth_mem [of m "take i ?L"] by simp
        then show "fst (?L ! m) \<noteq> Queued p" using Suc.prems(6) by blast
      qed
      obtain q' e' u1 where u1: "event_remove k (que_at ?q i) canceledEvent (upd_que k (\<lambda>q. q\<lparr>nCanceled := nCanceled q + 1\<rparr>) u) = Some u1"
          "changed u k q' p e' u1" "erase e' = erase e" "ques_inv u1" "conts u1 k = ?L[i := (canceledEvent, None)]"
          "getix q' = getix ?q" "ppendsem u1 = ppendsem u"
        using cancel_entry [OF Suc.prems(1-3) True q first refl] by blast
      have "ques u1 ! k = q'" "subs u1 p = Some e'" using u1(2) s(2) by (simp_all add: changed_def)
      with u1 ent q c Suc.prems(3) erase_eqD(3) [OF u1(3)] changed_frame [OF u1(2) Suc.prems(2) u1(3)] show ?thesis
        by (intro exI [of _ u1] exI [of _ e']) (simp add: cancel_of_def)
    qed
    then obtain u1 e1 where u1: "(if evque ?q ! que_at ?q i = Queued p
         then if nCanceled ?q \<ge> USHRT - 1 then None
              else event_remove k (que_at ?q i) canceledEvent (upd_que k (\<lambda>q. q\<lparr>nCanceled := nCanceled q + 1\<rparr>) u)
         else Some u) = Some u1" "ques_inv u1" "que_frame u u1" "subs u1 p = Some e1" "ev_que e1 = k"
        "conts u1 k = ?L[i := cancel_of p (?L ! i)]" "getix (ques u1 ! k) = getix ?q"
        "\<forall>m. m \<noteq> k \<longrightarrow> ques u1 ! m = ques u ! m" "ppendsem u1 = ppendsem u"
      by blast
    have at: "que_at (ques u1 ! k) = que_at ?q" using u1(7) by (simp add: fun_eq_iff que_at_def)
    have step: "purge_event (Suc n) p k (que_at ?q i) u =
        (if i = 127 then Some u1 else purge_event n p k (que_at (ques u1 ! k) (Suc i)) u1)"
      using u1(1,7) ent nempty inc wrap at by simp
    have "cancel_of p (cancel_of p (?L ! i)) = map (cancel_of p) ?L ! i" using True by (simp add: cancel_of_def)
    then have mp: "map (cancel_of p) (?L[i := cancel_of p (?L ! i)]) = map (cancel_of p) ?L"
      by (metis map_update list_update_id)
    show ?thesis
    proof (cases "i = 127")
      case last: True
      have "\<forall>x \<in> set (conts u1 k). fst x \<noteq> Queued p"
      proof -
        have "conts u1 k = take i ?L @ [cancel_of p (?L ! i)]"
          using u1(6) True last d(4) by (simp add: upd_conv_take_nth_drop)
        then show ?thesis using Suc.prems(6) by (auto simp: cancel_of_def)
      qed
      then have "map (cancel_of p) (conts u1 k) = conts u1 k" by (intro map_idI) (simp add: cancel_of_def)
      then show ?thesis using step u1 last mp by (intro exI [of _ u1]) simp
    next
      case False
      have "take (Suc i) (conts u1 k) = take i ?L @ [cancel_of p (?L ! i)]"
        using u1(6) True by (simp add: take_Suc_conv_app_nth)
      then have pre: "\<forall>x \<in> set (take (Suc i) (conts u1 k)). fst x \<noteq> Queued p" using Suc.prems(6) by (auto simp: cancel_of_def)
      obtain u' where u': "purge_event n p k (que_at (ques u1 ! k) (Suc i)) u1 = Some u'" "ques_inv u'" "que_frame u1 u'"
          "conts u' k = map (cancel_of p) (conts u1 k)" "\<forall>m. m \<noteq> k \<longrightarrow> ques u' ! m = ques u1 ! m" "ppendsem u' = ppendsem u1"
        using Suc.IH [OF u1(2,4) u1(5) [symmetric] _ _ pre] False Suc.prems(4) n by auto
      then show ?thesis
        using step False mp u1 que_frame_trans [OF u1(3) u'(3)] by (intro exI [of _ u']) simp
    qed
  qed
qed simp

section \<open>Subscriptions\<close>

text \<open>The lists of enabled subscriptions, and what is left of a cancelled one.\<close>

definition mlis_inv :: "'v event_user \<Rightarrow> bool" where
  "mlis_inv u \<longleftrightarrow>
     (\<forall>r. distinct (mlis u r) \<and>
        (\<forall>p. p \<in> set (mlis u r) \<longleftrightarrow> (\<exists>e. subs u p = Some e \<and> enabled e \<and> chan_record (ev_chan e) = r))) \<and>
     (\<forall>p e. subs u p = Some e \<longrightarrow> user_sub e = None \<longrightarrow> \<not> enabled e)"

definition subs_inv :: "'v event_user \<Rightarrow> bool" where
  "subs_inv u \<longleftrightarrow> mlis_inv u \<and> (\<forall>p e. subs u p = Some e \<longrightarrow> user_sub e = None \<longrightarrow> npend e = 0)"

definition user_inv :: "'v event_user \<Rightarrow> bool" where
  "user_inv u \<longleftrightarrow> ques_inv u \<and> subs_inv u"

lemma contents_counters [simp]:
  "contents (q\<lparr>quota := a\<rparr>) = contents q" "que_at (q\<lparr>quota := a\<rparr>) = que_at q"
  by (simp_all add: fun_eq_iff contents_def entry_at_def que_at_def ringSpace_def)

lemma contents_new [simp]: "contents new_que = []"
  by (rule rel_contents [OF rel_new])

lemma claim_quota_cases:
  "claim_quota mem qs = (qs', r) \<Longrightarrow>
   (case r of
      None \<Rightarrow> qs' = qs
    | Some k \<Rightarrow> k < length qs \<and> quota (qs ! k) + nCanceled (qs ! k) < 124 \<and>
          qs' = qs[k := (qs ! k)\<lparr>quota := (quota (qs ! k) + 4) mod 65536\<rparr>] \<or>
        k = length qs \<and> qs' = qs @ [new_que\<lparr>quota := 4\<rparr>])"
proof (induction qs arbitrary: qs' r)
  case (Cons q qs)
  show ?case
  proof (cases "quota q + nCanceled q < 124")
    case False
    obtain qs1 r1 where c: "claim_quota mem qs = (qs1, r1)" by fastforce
    with Cons.IH [OF c] Cons.prems False show ?thesis by (cases r1) auto
  qed (use Cons.prems in auto)
qed (auto split: if_splits)

lemma que_inv_cong:
  assumes "ques u' ! k = ques u ! k" "que_subs u' k = que_subs u k"
  shows "que_inv u' k = que_inv u k"
  using assms by (simp add: que_inv_def entry_ok_def)

lemma sub_inv_cong:
  assumes "ev_que e < length (ques u) \<Longrightarrow> ev_que e < length (ques u')"
    and "contents (ques u' ! ev_que e) = conts u (ev_que e)" "que_at (ques u' ! ev_que e) = que_at (ques u ! ev_que e)"
    and "sub_inv u p e"
  shows "sub_inv u' p e"
  using assms by (auto simp: sub_inv_def split: if_splits)

lemma add_cases:
  assumes "db_add_event (Some p) mem chan f sel u = (r, u')"
  obtains "u' = u"
  | k qs e where "u' = upd_sub p e (u\<lparr>ques := qs\<rparr>)" "ev_que e = k" "npend e = 0" "pLastLog e = None" "user_sub e \<noteq> None"
      "\<not> enabled e" "\<not> callBackInProgress e" "k < length qs"
      "k < length (ques u) \<and> quota (ques u ! k) + nCanceled (ques u ! k) < 124 \<and>
         qs = (ques u)[k := (ques u ! k)\<lparr>quota := (quota (ques u ! k) + 4) mod 65536\<rparr>] \<or>
       k = length (ques u) \<and> qs = ques u @ [new_que\<lparr>quota := 4\<rparr>]"
proof -
  obtain qs r' where c: "claim_quota mem (ques u) = (qs, r')" by fastforce
  show thesis
  proof (cases "u' = u \<or> r' = None")
    case True
    then have "u' = u" using claim_quota_cases [OF c] assms c by (auto simp: db_add_event_def split: if_splits)
    then show ?thesis by (rule that(1))
  next
    case False
    then obtain k where k: "r' = Some k" by auto
    note d = claim_quota_cases [OF c, unfolded k option.case]
    have "k < length qs" using d by auto
    with False assms c k d show ?thesis
      by (intro that(2) [of "the (subs u' p)" qs k]) (auto simp: db_add_event_def split: if_splits)
  qed
qed

text \<open>What adding a subscription at \<open>p\<close> leaves.\<close>

definition added :: "'v event_user \<Rightarrow> addr \<Rightarrow> 'v event_user \<Rightarrow> bool" where
  "added u p u' \<longleftrightarrow>
     user_inv u' \<and> ppendsem u' = ppendsem u \<and> flowCtrlMode u' = flowCtrlMode u \<and> pSuicideEvent u' = pSuicideEvent u \<and>
     length (ques u) \<le> length (ques u') \<and>
     (\<forall>k < length (ques u'). conts u' k = (if k < length (ques u) then conts u k else [])) \<and>
     (\<forall>p'. p' \<noteq> p \<longrightarrow> subs u' p' = subs u p') \<and>
     (\<forall>e. subs u' p = Some e \<longrightarrow> user_sub e \<noteq> None \<and> \<not> callBackInProgress e \<and> logs (conts u' (ev_que e)) p = [])"

lemma add_ok:
  assumes "user_inv u" "subs u p = None" "db_add_event (Some p) mem chan f sel u = (r, u')"
  shows "added u p u'"
proof (cases rule: add_cases [OF assms(3)])
  case 1
  with assms(1,2) show ?thesis by (simp add: added_def)
next
  case (2 k qs e)
  note c = 2(9)
  have inv: "ques_inv u" "subs_inv u" using assms(1) by (simp_all add: user_inv_def)
  have q: "ques u' = qs" "subs u' = (subs u)(p \<mapsto> e)" "mlis u' = mlis u" using 2(1) by simp_all
  have len: "length (ques u) \<le> length qs" using c by auto
  have ct: "contents (qs ! i) = (if i < length (ques u) then conts u i else [])" if "i < length qs" for i
    using c that by (auto simp: nth_list_update nth_append)
  have nop: "entries_of (conts u i) p = []" if "i < length (ques u)" for i
  proof -
    have "que_inv u i" using inv(1) that by (simp add: ques_inv_def)
    from queued_subs [OF this] assms(2) have "p \<notin> queued (conts u i)" by (auto simp: que_subs_def)
    then show ?thesis by (simp add: queued_iff)
  qed
  have nop': "entries_of (conts u' k) p = []" using ct [OF 2(8)] nop [of k] q(1) by simp
  have qs: "que_subs u' i = (if i = k then insert p (que_subs u i) else que_subs u i)" for i
    using q(2) 2(2) assms(2) by (auto simp: que_subs_def)
  have pn: "p \<notin> que_subs u i" for i using assms(2) by (simp add: que_subs_def)
  have "sub_inv u' p' e'" if "subs u' p' = Some e'" for p' e'
  proof (cases "p' = p")
    case True
    then have "e' = e" using that q(2) by simp
    then show ?thesis using True 2(2-4,8) nop' q(1) by (simp add: sub_inv_def)
  next
    case False
    then have s: "sub_inv u p' e'" "ev_que e' < length (ques u)" using that q(2) ques_invD [OF inv(1)] by auto
    have l: "ev_que e' < length (ques u')" using s(2) len q(1) by simp
    have at: "que_at (ques u' ! ev_que e') = que_at (ques u ! ev_que e')"
      using c s(2) q(1) by (auto simp: nth_list_update nth_append)
    have ctn: "contents (ques u' ! ev_que e') = conts u (ev_que e')" using ct [of "ev_que e'"] l s(2) q(1) by simp
    show ?thesis by (rule sub_inv_cong [OF l ctn at s(1)])
  qed
  moreover have "que_inv u' i" if iq: "i < length qs" for i
  proof -
    have "length qs = length (ques u) \<or> length qs = Suc (length (ques u)) \<and> k = length (ques u)" using c by auto
    then consider "i < length (ques u)" "i \<noteq> k" | "i < length (ques u)" "i = k" | "i = length (ques u)" "i = k"
      using iq by linarith
    then show ?thesis
    proof cases
      case 1
      then have "ques u' ! i = ques u ! i" using c q(1) by (auto simp: nth_append)
      then show ?thesis using que_inv_cong [of u' i u] qs [of i] 1 inv(1) by (simp add: ques_inv_def)
    next
      case i: 2
      then have o: "que_inv u i" using inv(1) by (simp add: ques_inv_def)
      note old = que_invD [OF o]
      have e: "ques u' ! i = (ques u ! i)\<lparr>quota := (quota (ques u ! i) + 4) mod 65536\<rparr>" "quota (ques u ! i) < 124"
        using c i q(1) by auto
      have "card (insert p (que_subs u i)) = Suc (card (que_subs u i))" using old(6) pn by simp
      then show ?thesis using old e qs [of i] i by (auto simp: que_inv_def entry_ok_def)
    next
      case 3
      have "que_subs u i = {}" using 3 ques_invD(2) [OF inv(1)] by (fastforce simp: que_subs_def)
      then have "que_subs u' i = {p}" using qs [of i] 3 by simp
      moreover have "ques u' ! i = new_que\<lparr>quota := 4\<rparr>" using c 3 q(1) by (auto simp: nth_append)
      ultimately show ?thesis using rel_new by (simp add: que_inv_def) (simp add: new_que_def)
    qed
  qed
  moreover have "qs \<noteq> []" using 2(8) by auto
  ultimately have "ques_inv u'" using q(1) by (simp add: ques_inv_def)
  moreover have "subs_inv u'" using inv(2) q(2,3) assms(2) 2(5,6) by (auto simp: subs_inv_def mlis_inv_def)
  ultimately show ?thesis
    using q len ct nop' 2 by (auto simp: added_def user_inv_def logs_Nil)
qed

text \<open>What the run of an event user depends on in a subscription.\<close>

definition view :: "evSubscrip \<Rightarrow> addr option \<times> nat \<times> bool" where
  "view e = (user_sub e, ev_que e, callBackInProgress e)"

definition same_view :: "addr set \<Rightarrow> 'v event_user \<Rightarrow> 'v event_user \<Rightarrow> bool" where
  "same_view P u u' \<longleftrightarrow>
     length (ques u') = length (ques u) \<and> flowCtrlMode u' = flowCtrlMode u \<and>
     (\<forall>p. p \<notin> P \<longrightarrow> map_option view (subs u' p) = map_option view (subs u p))"

lemma same_viewD:
  assumes "same_view P u u'" "p \<notin> P"
  shows "subs u' p = Some e' \<Longrightarrow> \<exists>e. subs u p = Some e \<and> user_sub e' = user_sub e \<and> ev_que e' = ev_que e \<and>
      callBackInProgress e' = callBackInProgress e"
    and "subs u p = Some e \<Longrightarrow> \<exists>e'. subs u' p = Some e' \<and> user_sub e' = user_sub e \<and> ev_que e' = ev_que e \<and>
      callBackInProgress e' = callBackInProgress e"
proof -
  have "map_option view (subs u' p) = map_option view (subs u p)" using assms by (simp add: same_view_def)
  then show "subs u' p = Some e' \<Longrightarrow> \<exists>e. subs u p = Some e \<and> user_sub e' = user_sub e \<and> ev_que e' = ev_que e \<and>
      callBackInProgress e' = callBackInProgress e"
    "subs u p = Some e \<Longrightarrow> \<exists>e'. subs u' p = Some e' \<and> user_sub e' = user_sub e \<and> ev_que e' = ev_que e \<and>
      callBackInProgress e' = callBackInProgress e"
    by (cases "subs u p"; cases "subs u' p"; simp add: view_def)+
qed

lemma erase_view: "erase e' = erase e \<Longrightarrow> view e' = view e"
  using erase_eqD [of e' e] by (simp add: view_def)

lemma frame_map:
  assumes "que_frame u u'" "\<And>e e'. erase e' = erase e \<Longrightarrow> g e' = g e"
  shows "map_option g (subs u' p) = map_option g (subs u p)"
proof -
  have "map_option erase (subs u' p) = map_option erase (subs u p)" using assms(1) by (simp add: que_frame_def)
  then show ?thesis by (cases "subs u p"; cases "subs u' p") (auto intro: assms(2))
qed

lemma frame_view: "que_frame u u' \<Longrightarrow> same_view P u u'"
  using frame_map [of u u' view, OF _ erase_view] by (simp add: same_view_def que_frame_def)

lemma mlis_inv_frame:
  assumes "mlis_inv u" "que_frame u u'"
  shows "mlis_inv u'"
proof -
  have m: "map_option (\<lambda>e. (enabled e, ev_chan e, user_sub e)) (subs u' p) = map_option (\<lambda>e. (enabled e, ev_chan e, user_sub e)) (subs u p)" for p
    by (rule frame_map [OF assms(2)]) (use erase_eqD in blast)
  have "(\<exists>e. subs u' p = Some e \<and> enabled e \<and> chan_record (ev_chan e) = r) \<longleftrightarrow>
      (\<exists>e. subs u p = Some e \<and> enabled e \<and> chan_record (ev_chan e) = r)" for p r
    using m [of p] by (cases "subs u p"; cases "subs u' p") auto
  moreover have "\<not> enabled e" if "subs u' p = Some e" "user_sub e = None" for p e
    using m [of p] that assms(1) by (cases "subs u p") (auto simp: mlis_inv_def)
  ultimately show ?thesis using assms(1) que_frameD(2) [OF assms(2)] by (simp add: mlis_inv_def)
qed

text \<open>Enabling and disabling.\<close>

lemma subs_inv_remove:
  assumes "subs_inv u" "subs u p = Some e" "enabled e" "ques u' = ques u" "subs u' = (subs u)(p \<mapsto> e')"
    and "mlis u' = (mlis u)(chan_record (ev_chan e) := remove1 p (mlis u (chan_record (ev_chan e))))"
    and "\<not> enabled e'" "user_sub e' = None \<Longrightarrow> npend e' = 0"
  shows "subs_inv u'"
  using assms by (auto simp: subs_inv_def mlis_inv_def split: if_splits)

lemma enable_ok:
  assumes "user_inv u" "subs u p = Some e" "user_sub e \<noteq> None"
  shows "\<exists>u'. db_event_enable p u = Some u' \<and> user_inv u' \<and> same_view {} u u' \<and> ques u' = ques u \<and>
    ppendsem u' = ppendsem u \<and> pSuicideEvent u' = pSuicideEvent u"
proof (cases "enabled e")
  case True
  with assms show ?thesis by (auto simp: db_event_enable_def same_view_def)
next
  case False
  let ?r = "chan_record (ev_chan e)"
  let ?u = "upd_sub p (e\<lparr>enabled := True\<rparr>) (u\<lparr>mlis := (mlis u)(?r := mlis u ?r @ [p])\<rparr>)"
  have inv: "ques_inv u" "subs_inv u" using assms(1) by (simp_all add: user_inv_def)
  have "ques_inv ?u" by (rule ques_inv_sub(1) [OF inv(1) assms(2), where e' = "e\<lparr>enabled := True\<rparr>"]) simp_all
  moreover have "subs_inv ?u" using inv(2) assms(2,3) False by (auto simp: subs_inv_def mlis_inv_def)
  moreover have "db_event_enable p u = Some ?u" using False assms(2) by (simp add: db_event_enable_def Let_def)
  moreover have "same_view {} u ?u" using assms(2) by (simp add: same_view_def view_def)
  ultimately show ?thesis by (intro exI [of _ ?u]) (simp add: user_inv_def)
qed

lemma disable_ok:
  assumes "user_inv u" "subs u p = Some e"
  shows "\<exists>u'. db_event_disable p u = Some u' \<and> user_inv u' \<and> same_view {} u u' \<and> ques u' = ques u \<and>
    ppendsem u' = ppendsem u \<and> pSuicideEvent u' = pSuicideEvent u \<and> subs u' = (subs u)(p \<mapsto> e\<lparr>enabled := False\<rparr>)"
proof (cases "enabled e")
  case False
  then have "e\<lparr>enabled := False\<rparr> = e" by (cases e) simp
  with assms False show ?thesis by (auto simp: db_event_disable_def same_view_def)
next
  case True
  let ?r = "chan_record (ev_chan e)"
  let ?u = "upd_sub p (e\<lparr>enabled := False\<rparr>) (u\<lparr>mlis := (mlis u)(?r := remove1 p (mlis u ?r))\<rparr>)"
  have inv: "ques_inv u" "subs_inv u" using assms(1) by (simp_all add: user_inv_def)
  have "ques_inv ?u" by (rule ques_inv_sub(1) [OF inv(1) assms(2), where e' = "e\<lparr>enabled := False\<rparr>"]) simp_all
  moreover have "user_sub e \<noteq> None" using inv(2) assms(2) True by (auto simp: subs_inv_def mlis_inv_def)
  then have "subs_inv ?u" by (intro subs_inv_remove [OF inv(2) assms(2) True, where e' = "e\<lparr>enabled := False\<rparr>"]) simp_all
  moreover have "db_event_disable p u = Some ?u" using True assms(2) by (simp add: db_event_disable_def Let_def)
  moreover have "same_view {} u ?u" using assms(2) by (simp add: same_view_def view_def)
  ultimately show ?thesis by (intro exI [of _ ?u]) (simp add: user_inv_def)
qed

section \<open>Cancelling\<close>

lemma entries_cancel: "entries_of (map (cancel_of p) L) p' = (if p' = p then [] else entries_of L p')"
  by (induction L) (auto simp: cancel_of_def)

lemma logs_cancel: "p' \<noteq> p \<Longrightarrow> logs (map (cancel_of p) L) p' = logs L p'"
  by (simp add: logs_def entries_cancel)

definition canceling :: "bool \<Rightarrow> addr \<Rightarrow> evSubscrip \<Rightarrow> 'v event_user \<Rightarrow> 'v event_user \<Rightarrow> bool" where
  "canceling by_task p e u u' \<longleftrightarrow>
     user_inv u' \<and> same_view {p} u u' \<and> ppendsem u' = ppendsem u \<and>
     pSuicideEvent u' = (if by_task then Some p else pSuicideEvent u) \<and>
     (\<exists>e'. subs u' p = Some e' \<and> user_sub e' = None \<and> ev_que e' = ev_que e \<and> callBackInProgress e' = callBackInProgress e) \<and>
     (\<forall>i. conts u' i = (if i = ev_que e then map (cancel_of p) (conts u i) else conts u i))"

lemma cancel_begin_ok:
  assumes "user_inv u" "subs u p = Some e"
  shows "\<exists>u'. db_cancel_event_begin by_task p u = Some u' \<and> canceling by_task p e u u'"
proof -
  obtain u1 where u1: "db_event_disable p u = Some u1" "user_inv u1" "same_view {} u u1" "ques u1 = ques u"
      "ppendsem u1 = ppendsem u" "pSuicideEvent u1 = pSuicideEvent u" "subs u1 = (subs u)(p \<mapsto> e\<lparr>enabled := False\<rparr>)"
    using disable_ok [OF assms] by blast
  define e2 where "e2 = e\<lparr>enabled := False, user_sub := None\<rparr>"
  define u2 where "u2 = upd_sub p e2 u1"
  have inv1: "ques_inv u1" "subs_inv u1" using u1(2) by (simp_all add: user_inv_def)
  have s1: "subs u1 p = Some (e\<lparr>enabled := False\<rparr>)" using u1(7) by simp
  have inv2: "ques_inv u2"
    by (rule ques_inv_sub(1) [OF inv1(1) s1, where e' = e2]) (simp_all add: u2_def e2_def)
  have k: "ev_que e < length (ques u)" using ques_invD(2) [of u p e] assms by (simp add: user_inv_def)
  have "que_inv u2 (ev_que e)" using inv2 k u1(4) by (simp add: ques_inv_def u2_def)
  from que_relD(3) [OF que_invD(1) [OF this]] have g: "getix (ques u ! ev_que e) < 128" using u1(4) by (simp add: u2_def)
  obtain u3 where u3: "purge_event 128 p (ev_que e) (que_at (ques u2 ! ev_que e) 0) u2 = Some u3" "ques_inv u3" "que_frame u2 u3"
      "conts u3 (ev_que e) = map (cancel_of p) (conts u2 (ev_que e))" "\<forall>m. m \<noteq> ev_que e \<longrightarrow> ques u3 ! m = ques u2 ! m"
      "ppendsem u3 = ppendsem u2"
    using purge_ok [OF inv2, of p e2 "ev_que e" 0 128] by (auto simp: u2_def e2_def)
  have q2: "ques u2 = ques u" "pSuicideEvent u2 = pSuicideEvent u" "mlis u2 = mlis u1" by (simp_all add: u2_def u1)
  have p3: "purge_event EVENTQUESIZE p (ev_que e) (getix (ques u1 ! ev_que e)) u2 = Some u3"
    using u3(1) q2(1) u1(4) que_at_0 [OF g] by simp
  have "subs u2 p = Some e2" by (simp add: u2_def)
  then obtain e3 where e3: "subs u3 p = Some e3" "erase e3 = erase e2" using que_frameD(6) [OF u3(3)] by blast
  have v3: "user_sub e3 = None" "ev_que e3 = ev_que e" "callBackInProgress e3 = callBackInProgress e" "enabled e3 = False"
    using erase_eqD [OF e3(2)] by (simp_all add: e2_def)
  have n3: "npend e3 = 0"
    using ques_invD(1) [OF u3(2) e3(1)] v3(2) u3(4) by (simp add: sub_inv_def entries_cancel)
  define u' where "u' = (if by_task then u3\<lparr>pSuicideEvent := Some p\<rparr> else u3)"
  have eq: "db_cancel_event_begin by_task p u = Some u'"
    using u1(1) s1 p3 e3(1) n3 unfolding u2_def e2_def by (simp add: db_cancel_event_begin_def u'_def)
  have "npend e' = 0" if s3: "subs u3 p' = Some e'" "user_sub e' = None" for p' e'
  proof (cases "p' = p")
    case False
    obtain e0 where e0: "subs u2 p' = Some e0" "erase e' = erase e0" using que_frameD(5) [OF u3(3) s3(1)] by blast
    then have s: "subs u1 p' = Some e0" "user_sub e0 = None" using False s3(2) erase_eqD(2) [OF e0(2)] by (simp_all add: u2_def)
    then have z: "npend e0 = 0" using inv1(2) by (auto simp: subs_inv_def)
    have "entries_of (conts u (ev_que e0)) p' = []"
      using ques_invD(1) [OF inv2 e0(1)] z q2(1) by (simp add: sub_inv_def)
    then have "entries_of (conts u3 (ev_que e')) p' = []"
      using u3(4,5) q2(1) erase_eqD(3) [OF e0(2)] False by (cases "ev_que e0 = ev_que e") (auto simp: entries_cancel)
    then show ?thesis using ques_invD(1) [OF u3(2) s3(1)] by (simp add: sub_inv_def)
  qed (use s3 e3(1) n3 in simp)
  moreover have "mlis_inv u2" using inv1(2) s1 by (auto simp: subs_inv_def mlis_inv_def u2_def e2_def)
  then have "mlis_inv u3" by (rule mlis_inv_frame [OF _ u3(3)])
  ultimately have sinv: "subs_inv u3" by (simp add: subs_inv_def)
  have "user_inv u'" using u3(2) sinv by (simp add: user_inv_def u'_def ques_inv_def que_inv_def sub_inv_def entry_ok_def que_subs_def subs_inv_def mlis_inv_def)
  moreover have "same_view {p} u u'"
    using frame_view [OF u3(3), of "{p}"] u1(7) q2(1) u1(3) by (auto simp: same_view_def u'_def u2_def)
  ultimately have "canceling by_task p e u u'"
    using e3(1) v3 u3(4-6) q2 u1(5) que_frameD(3) [OF u3(3)] by (auto simp: canceling_def u'_def u2_def)
  with eq show ?thesis by blast
qed

lemma cancel_end_ok:
  assumes "user_inv u" "subs u p = Some e" "user_sub e = None"
  shows "\<exists>u'. db_cancel_event_end p u = Some u' \<and> user_inv u' \<and> subs u' = (subs u)(p := None) \<and> same_view {p} u u' \<and>
    (\<forall>i. conts u' i = conts u i) \<and> ppendsem u' = ppendsem u \<and> pSuicideEvent u' = pSuicideEvent u"
proof -
  let ?k = "ev_que e"
  have inv: "ques_inv u" "subs_inv u" using assms(1) by (simp_all add: user_inv_def)
  note s = ques_invD [OF inv(1) assms(2)]
  define u' where "u' = (upd_que ?k (\<lambda>q. q\<lparr>quota := (quota q + USHRT - EVENTENTRIES) mod USHRT\<rparr>) u)\<lparr>subs := (subs u)(p := None)\<rparr>"
  have eq: "db_cancel_event_end p u = Some u'" using assms(2) by (simp add: db_cancel_event_end_def u'_def)
  have q: "ques u' = (ques u)[?k := (ques u ! ?k)\<lparr>quota := (quota (ques u ! ?k) + 65532) mod 65536\<rparr>]" "subs u' = (subs u)(p := None)"
      "mlis u' = mlis u"
    by (simp_all add: u'_def add.commute)
  have ct: "contents (ques u' ! i) = conts u i" "que_at (ques u' ! i) = que_at (ques u ! i)" for i
    using s(2) q(1) by (cases "i = ?k"; simp)+
  have qs: "que_subs u' i = (if i = ?k then que_subs u i - {p} else que_subs u i)" for i
    using q(2) assms(2) by (auto simp: que_subs_def)
  have z: "npend e = 0" "\<not> enabled e" using inv(2) assms(2,3) by (auto simp: subs_inv_def mlis_inv_def)
  then have none: "p \<notin> queued (conts u ?k)" using s(1) by (simp add: sub_inv_def queued_iff)
  have "que_inv u' i" if i: "i < length (ques u)" for i
  proof (cases "i = ?k")
    case False
    then have "que_inv u i" using inv(1) i by (simp add: ques_inv_def)
    then show ?thesis using que_inv_cong [of u' i u] qs [of i] q(1) False by simp
  next
    case True
    note old = que_invD [OF s(3)]
    have "p \<in> que_subs u ?k" using assms(2) by (auto simp: que_subs_def)
    then have c: "card (que_subs u ?k) = Suc (card (que_subs u ?k - {p}))" using old(6) by (metis card.remove)
    then have quo: "quota (ques u' ! ?k) = 4 * card (que_subs u ?k - {p})" using q(1) s(2) old(7,8) by simp
    have ok: "entry_ok u' ?k x" if x: "x \<in> set (conts u ?k)" for x
    proof -
      have "fst x \<noteq> Queued p" using none x by (force simp: queued_def)
      then show ?thesis using old(2) [OF x] qs [of ?k] by (auto simp: entry_ok_def)
    qed
    have r: "nCanceled (ques u' ! ?k) = nCanceled (ques u ! ?k)" "nDuplicates (ques u' ! ?k) = nDuplicates (ques u ! ?k)"
        "que_rel (ques u' ! ?k) = que_rel (ques u ! ?k)"
      using q(1) s(2) by simp_all
    show ?thesis
      unfolding True que_inv_def ct r quo using old(1,3-7) ok qs [of ?k] c by simp
  qed
  moreover have "sub_inv u' p' e'" if s': "subs u' p' = Some e'" for p' e'
  proof -
    have "sub_inv u p' e'" using s' q(2) ques_invD(1) [OF inv(1)] by (auto split: if_splits)
    then show ?thesis using q(1) by (intro sub_inv_cong [OF _ ct(1,2)]) simp_all
  qed
  ultimately have "ques_inv u'" using inv(1) q(1) by (simp add: ques_inv_def)
  moreover have "subs_inv u'" using inv(2) q(2,3) assms(2) z by (auto simp: subs_inv_def mlis_inv_def)
  moreover have "same_view {p} u u'" using q(2) by (simp add: same_view_def u'_def)
  ultimately show ?thesis
    using eq q(2) ct(1) by (intro exI [of _ u']) (simp add: user_inv_def u'_def)
qed

section \<open>Posting and reading\<close>

lemma post_ok:
  assumes "user_inv u" "subs u p = Some e" "user_sub e \<noteq> None" "npend e = 0 \<Longrightarrow> length (conts u (ev_que e)) < 128"
  shows "\<exists>u'. db_queue_event_log p l u = Some u' \<and> queue_step u (ev_que e) p l u' \<and> user_inv u'"
proof -
  have inv: "ques_inv u" "subs_inv u" using assms(1) by (simp_all add: user_inv_def)
  obtain u' where u': "db_queue_event_log p l u = Some u'" "queue_step u (ev_que e) p l u'"
    using queue_ok [OF inv(1) assms(2,4)] by blast
  then have q: "ques_inv u'" "que_frame u u'" "\<And>i. i \<noteq> ev_que e \<Longrightarrow> conts u' i = conts u i"
      "\<And>p'. p' \<noteq> p \<Longrightarrow> logs (conts u' (ev_que e)) p' = logs (conts u (ev_que e)) p'"
    by (simp_all add: queue_step_def)
  have "npend e' = 0" if s: "subs u' p' = Some e'" "user_sub e' = None" for p' e'
  proof -
    obtain e0 where e0: "subs u p' = Some e0" "erase e' = erase e0" using que_frameD(5) [OF q(2) s(1)] by blast
    note er = erase_eqD [OF e0(2)]
    have z: "npend e0 = 0" "p' \<noteq> p" using e0(1) er(2) s(2) inv(2) assms(2,3) by (auto simp: subs_inv_def)
    have "logs (conts u (ev_que e0)) p' = []" using ques_invD(1) [OF inv(1) e0(1)] z(1) by (simp add: sub_inv_def logs_Nil)
    then have "logs (conts u' (ev_que e')) p' = []" using q(3,4) z(2) er(3) by (cases "ev_que e0 = ev_que e") simp_all
    then show ?thesis using ques_invD(1) [OF q(1) s(1)] by (simp add: sub_inv_def logs_Nil)
  qed
  moreover have "mlis_inv u'" using mlis_inv_frame [OF _ q(2)] inv(2) by (simp add: subs_inv_def)
  ultimately show ?thesis using u' q(1) by (auto simp: user_inv_def subs_inv_def)
qed

text \<open>The entries at the head of a queue go to the event task in turn.\<close>

definition read_step :: "nat \<Rightarrow> 'v event_user \<Rightarrow> 'v event_task \<Rightarrow> 'v event_user \<Rightarrow> bool" where
  "read_step k u t' u' \<longleftrightarrow>
     user_inv u' \<and> length (ques u') = length (ques u) \<and> (\<forall>i. i \<noteq> k \<longrightarrow> ques u' ! i = ques u ! i) \<and>
     ppendsem u' = ppendsem u \<and> pSuicideEvent u' = pSuicideEvent u \<and> flowCtrlMode u' = flowCtrlMode u \<and>
     (conts u k = [] \<and> t' = Next_que (k + 1) \<and> u' = u \<or>
      (\<exists>x. conts u k = x # conts u' k \<and> fst x = canceledEvent \<and> t' = Reading k \<and> same_view {} u u') \<or>
      (\<exists>p l e e'. conts u k = (Queued p, Some l) # conts u' k \<and> t' = Calling k p (Some l) \<and> same_view {p} u u' \<and>
         subs u p = Some e \<and> user_sub e \<noteq> None \<and> ev_que e = k \<and>
         subs u' p = Some e' \<and> user_sub e' \<noteq> None \<and> ev_que e' = k \<and> callBackInProgress e'))"

lemma subs_inv_pop:
  assumes "subs_inv u" "ques_inv u" "ques_inv u'" "que_frame u u'" "conts u k = x # conts u' k"
    and "\<And>i. i \<noteq> k \<Longrightarrow> ques u' ! i = ques u ! i"
  shows "subs_inv u'"
proof -
  have "npend e' = 0" if s: "subs u' p' = Some e'" "user_sub e' = None" for p' e'
  proof -
    obtain e0 where e0: "subs u p' = Some e0" "erase e' = erase e0" using que_frameD(5) [OF assms(4) s(1)] by blast
    note er = erase_eqD [OF e0(2)]
    have "npend e0 = 0" using e0(1) er(2) s(2) assms(1) by (auto simp: subs_inv_def)
    then have "entries_of (conts u (ev_que e0)) p' = []" using ques_invD(1) [OF assms(2) e0(1)] by (simp add: sub_inv_def)
    then have "entries_of (conts u' (ev_que e')) p' = []"
      using assms(5,6) er(3) by (cases "ev_que e0 = k") (auto split: if_splits)
    then show ?thesis using ques_invD(1) [OF assms(3) s(1)] by (simp add: sub_inv_def)
  qed
  moreover have "mlis_inv u'" using mlis_inv_frame [OF _ assms(4)] assms(1) by (simp add: subs_inv_def)
  ultimately show ?thesis by (simp add: subs_inv_def)
qed

lemma turn_ok:
  assumes "user_inv u" "k < length (ques u)"
  shows "\<exists>t' u'. event_read_turn k u = Some (t', u') \<and> read_step k u t' u'"
proof -
  have inv: "ques_inv u" "subs_inv u" using assms(1) by (simp_all add: user_inv_def)
  have qi: "que_inv u k" using inv(1) assms(2) by (simp add: ques_inv_def)
  note rel = que_invD(1) [OF qi]
  note unf = event_read_turn_def Let_def rel_head(1) [OF rel]
  show ?thesis
  proof (cases "conts u k")
    case Nil
    then have "event_read_turn k u = Some (Next_que (k + 1), u)" unfolding unf by simp
    with Nil assms(1) show ?thesis by (auto simp: read_step_def)
  next
    case (Cons x L)
    then have ok: "entry_ok u k x" using que_invD(2) [OF qi] by simp
    then consider "x = (canceledEvent, None)" | p l where "x = (Queued p, Some l)" "p \<in> que_subs u k" by (auto simp: entry_ok_def)
    then show ?thesis
    proof cases
      case 1
      define q where "q = ques u ! k"
      define q' where "q' = q\<lparr>evque := (evque q)[getix q := EVENTQEMPTY], valque := (valque q)[getix q := None],
        getix := RNGINC (getix q), nCanceled := nCanceled q - 1\<rparr>"
      define u' where "u' = upd_que k (\<lambda>_. q') u"
      note p = pop_canceled [OF inv(1) assms(2) _ q_def q'_def u'_def, of None L]
      have c: "conts u k = (canceledEvent, None) # L" using Cons 1 by simp
      note p = p [OF c]
      have "event_read_turn k u = Some (Reading k, u')"
        unfolding unf using Cons 1 p(1) by (simp add: q_def [symmetric] u'_def q'_def upd_que_def)
      moreover have "subs_inv u'" using subs_inv_pop [OF inv(2,1) p(2,4), of k] c p(3,5) by simp
      ultimately show ?thesis
        using p(2-5) c frame_view [OF p(4)] que_frameD [OF p(4)]
        by (intro exI [of _ "Reading k"] exI [of _ u']) (simp add: read_step_def user_inv_def u'_def)
    next
      case (2 p l)
      have c: "conts u k = (Queued p, Some l) # L" using Cons 2(1) by simp
      obtain e e' u1 u2 q' where p: "subs u p = Some e" "ev_que e = k" "event_remove k (getix (ques u ! k)) EVENTQEMPTY u = Some u1"
          "u2 = upd_que k (\<lambda>q. q\<lparr>getix := RNGINC (getix (ques u ! k))\<rparr>) u1" "changed u k q' p e' u2" "erase e' = erase e" "ques_inv u2"
          "conts u2 k = L" "ppendsem u2 = ppendsem u"
        using pop_queued [OF inv(1) assms(2) c refl] by blast
      note fr = changed_frame [OF p(5,1,6)]
      note er = erase_eqD [OF p(6)]
      have s2: "subs u2 p = Some e'" using p(5) by (simp add: changed_def)
      have "npend e \<noteq> 0" using ques_invD(1) [OF inv(1) p(1)] p(2) c by (simp add: sub_inv_def)
      then have us: "user_sub e \<noteq> None" using inv(2) p(1) unfolding subs_inv_def by metis
      define u' where "u' = upd_sub p (e'\<lparr>callBackInProgress := True\<rparr>) u2"
      have vk: "valque (ques u ! k) ! getix (ques u ! k) = Some l" using rel_head(2) [OF rel] c by simp
      have "event_read_turn k u = Some (Calling k p (Some l), u')"
        unfolding unf using c p(3,4) s2 us er(2) vk by (simp add: u'_def)
      moreover have "subs_inv u2" using subs_inv_pop [OF inv(2,1) p(7) fr(1), of k] c p(8) fr(3) by simp
      then have "subs_inv u'" using s2 us er(2) by (auto simp: subs_inv_def mlis_inv_def u'_def)
      moreover have "ques_inv u'"
        by (rule ques_inv_sub(1) [OF p(7) s2, where e' = "e'\<lparr>callBackInProgress := True\<rparr>"]) (simp_all add: u'_def)
      moreover have "same_view {p} u u'" using frame_view [OF fr(1), of "{p}"] by (simp add: same_view_def u'_def)
      ultimately show ?thesis
        using p(1,2,8,9) c us er(2,3) que_frameD [OF fr(1)] fr(3)
        by (intro exI [of _ "Calling k p (Some l)"] exI [of _ u']) (simp add: read_step_def user_inv_def u'_def)
    qed
  qed
qed

end
