(* ===== verification/DbEventRun.thy ===== *)
theory DbEventRun
  imports DbEventUser "HOL-Library.Sublist"
begin

text \<open>
  The runs of an event user: records post, clients add and cancel subscriptions and switch flow control, and the
  event task delivers, interleaved in any order; each step is what one thread does while it holds the lock of
  a queue. Two histories are kept beside the state: the logs that were posted for a subscription, and those
  that its routine was called with.
\<close>

section \<open>Runs\<close>

record 'v ev_run =
  ev_user :: "'v event_user"
  ev_task :: "'v event_task"
  sent :: "addr \<Rightarrow> 'v db_field_log list"
  got :: "addr \<Rightarrow> 'v db_field_log list"

definition delivered :: "'v event_task \<Rightarrow> (addr \<Rightarrow> 'v db_field_log list) \<Rightarrow> addr \<Rightarrow> 'v db_field_log list" where
  "delivered t g = (case t of Calling k p (Some l) \<Rightarrow> g(p := g p @ [l]) | _ \<Rightarrow> g)"

definition active :: "'v ev_run \<Rightarrow> addr \<Rightarrow> evSubscrip \<Rightarrow> bool" where
  "active s p e \<longleftrightarrow> subs (ev_user s) p = Some e \<and> user_sub e \<noteq> None"

text \<open>
  A routine of a subscription runs in the event task. It may cancel its own subscription; with \<open>others\<close> it may
  cancel any, as \<^verbatim>\<open>db_cancel_event\<close> allows.
\<close>

inductive ev_step :: "bool \<Rightarrow> 'v ev_run \<Rightarrow> 'v ev_run \<Rightarrow> bool" for others where
  add: "subs (ev_user s) p = None \<Longrightarrow> db_add_event (Some p) mem chan f sel (ev_user s) = (r, u') \<Longrightarrow>
    ev_step others s (s\<lparr>ev_user := u', sent := (sent s)(p := []), got := (got s)(p := [])\<rparr>)"
| enable: "active s p e \<Longrightarrow> db_event_enable p (ev_user s) = Some u' \<Longrightarrow> ev_step others s (s\<lparr>ev_user := u'\<rparr>)"
| disable: "active s p e \<Longrightarrow> db_event_disable p (ev_user s) = Some u' \<Longrightarrow> ev_step others s (s\<lparr>ev_user := u'\<rparr>)"
| cancel: "active s p e \<Longrightarrow> db_cancel_event_begin False p (ev_user s) = Some u' \<Longrightarrow> ev_step others s (s\<lparr>ev_user := u'\<rparr>)"
| cancel_end: "subs (ev_user s) p = Some e \<Longrightarrow> user_sub e = None \<Longrightarrow> \<not> callBackInProgress e \<Longrightarrow>
    db_cancel_event_end p (ev_user s) = Some u' \<Longrightarrow> ev_step others s (s\<lparr>ev_user := u'\<rparr>)"
| cancel_in_call: "ev_task s = Calling k q l \<Longrightarrow> p = q \<or> others \<Longrightarrow> active s p e \<Longrightarrow>
    db_cancel_event_begin True p (ev_user s) = Some u \<Longrightarrow>
    db_cancel_event_end p u = Some u' \<Longrightarrow> ev_step others s (s\<lparr>ev_user := u'\<rparr>)"
| post: "active s p e \<Longrightarrow> db_queue_event_log p l (ev_user s) = Some u' \<Longrightarrow>
    ev_step others s (s\<lparr>ev_user := u', sent := (sent s)(p := sent s p @ [l])\<rparr>)"
| flow_on: "ev_step others s (s\<lparr>ev_user := db_event_flow_ctrl_mode_on (ev_user s)\<rparr>)"
| flow_off: "ev_step others s (s\<lparr>ev_user := db_event_flow_ctrl_mode_off (ev_user s)\<rparr>)"
| task: "event_task_step (ev_task s) (ev_user s) = Some (t', u') \<Longrightarrow>
    ev_step others s (s\<lparr>ev_user := u', ev_task := t', got := delivered t' (got s)\<rparr>)"

definition ev_initial :: "'v ev_run" where
  "ev_initial = \<lparr>ev_user = db_init_events, ev_task = Waiting, sent = (\<lambda>_. []), got = (\<lambda>_. [])\<rparr>"

inductive ev_reach :: "bool \<Rightarrow> 'v ev_run \<Rightarrow> bool" for others where
  start: "ev_reach others ev_initial"
| step: "ev_reach others s \<Longrightarrow> ev_step others s s' \<Longrightarrow> ev_reach others s'"

section \<open>The invariant of runs\<close>

text \<open>The queue that the event task will come to before it waits again.\<close>

fun comes_to :: "'v event_task \<Rightarrow> nat \<Rightarrow> bool" where
  "comes_to Waiting k = False"
| "comes_to (Next_que j) k = (j \<le> k)"
| "comes_to (Reading j) k = (j \<le> k)"
| "comes_to (Calling j _ _) k = (j \<le> k)"

fun task_que :: "'v event_task \<Rightarrow> nat option" where
  "task_que (Reading j) = Some j"
| "task_que (Calling j _ _) = Some j"
| "task_que _ = None"

fun called :: "'v event_task \<Rightarrow> addr option" where
  "called (Calling _ p _) = Some p"
| "called _ = None"

definition wake_inv :: "'v event_task \<Rightarrow> 'v event_user \<Rightarrow> bool" where
  "wake_inv t u \<longleftrightarrow>
     (\<forall>k < length (ques u). conts u k \<noteq> [] \<longrightarrow> ppendsem u \<or> flowCtrlMode u \<or> comes_to t k)"

definition in_call :: "'v event_user \<Rightarrow> addr \<Rightarrow> bool" where
  "in_call u p \<longleftrightarrow> (\<exists>e. subs u p = Some e \<and> callBackInProgress e)"

definition call_inv :: "bool \<Rightarrow> 'v event_task \<Rightarrow> 'v event_user \<Rightarrow> bool" where
  "call_inv others t u \<longleftrightarrow>
     (\<forall>k. task_que t = Some k \<longrightarrow> k < length (ques u)) \<and>
     (\<not> others \<longrightarrow>
        (\<forall>p. in_call u p \<longrightarrow> called t = Some p) \<and>
        (\<forall>p. called t = Some p \<longrightarrow> pSuicideEvent u = Some p \<or> in_call u p) \<and>
        (\<forall>p. pSuicideEvent u = Some p \<longrightarrow> called t = Some p \<and> \<not> in_call u p))"

definition follows :: "'v db_field_log list \<Rightarrow> 'v db_field_log list \<Rightarrow> bool" where
  "follows ls posted \<longleftrightarrow> subseq ls posted \<and> (posted \<noteq> [] \<longrightarrow> ls \<noteq> [] \<and> last ls = last posted)"

definition hist_inv :: "'v ev_run \<Rightarrow> bool" where
  "hist_inv s \<longleftrightarrow>
     (\<forall>p e. active s p e \<longrightarrow> follows (got s p @ logs (conts (ev_user s) (ev_que e)) p) (sent s p))"

definition run_inv :: "bool \<Rightarrow> 'v ev_run \<Rightarrow> bool" where
  "run_inv others s \<longleftrightarrow> user_inv (ev_user s) \<and> wake_inv (ev_task s) (ev_user s) \<and> call_inv others (ev_task s) (ev_user s) \<and> hist_inv s"

lemma follows_snoc:
  assumes "follows (g @ ls) posted" "logs_after ls l ls'"
  shows "follows (g @ ls') (posted @ [l])"
proof -
  have sub: "subseq (g @ ls) posted" using assms(1) by (simp add: follows_def)
  consider "ls' = ls @ [l]" | "ls \<noteq> []" "ls' = butlast ls @ [l]" using assms(2) by (auto simp: logs_after_def)
  then show ?thesis
  proof cases
    case 1
    then show ?thesis using sub by (simp add: follows_def flip: append_assoc)
  next
    case 2
    have "subseq (butlast ls) ls" by (simp add: prefix_imp_subseq prefixeq_butlast)
    then have "subseq (g @ butlast ls) posted" using sub subseq_order.trans by (metis list_emb_append_mono subseq_order.order_refl)
    then show ?thesis using 2 by (simp add: follows_def flip: append_assoc)
  qed
qed

lemma wake_mono:
  assumes "wake_inv t u" "ppendsem u \<Longrightarrow> ppendsem u'" "flowCtrlMode u' = flowCtrlMode u"
    and "\<And>k. k < length (ques u') \<Longrightarrow> conts u' k \<noteq> [] \<Longrightarrow> k < length (ques u) \<and> conts u k \<noteq> [] \<or> ppendsem u'"
  shows "wake_inv t u'"
  using assms unfolding wake_inv_def by metis

lemma view_in_call: "same_view P u u' \<Longrightarrow> p \<notin> P \<Longrightarrow> in_call u' p = in_call u p"
  using same_viewD [of P u u' p] unfolding in_call_def by blast

lemma call_same:
  assumes "call_inv others t u" "pSuicideEvent u' = pSuicideEvent u" "length (ques u) \<le> length (ques u')" "\<And>p. in_call u' p = in_call u p"
  shows "call_inv others t u'"
  using assms by (auto simp: call_inv_def)

lemma hist_same:
  assumes "hist_inv s" "same_view {} (ev_user s) u'" "\<And>k p. logs (conts u' k) p = logs (conts (ev_user s) k) p"
  shows "hist_inv (s\<lparr>ev_user := u'\<rparr>)"
proof -
  have "follows (got s p @ logs (conts u' (ev_que e')) p) (sent s p)" if a: "subs u' p = Some e'" "user_sub e' \<noteq> None" for p e'
  proof -
    obtain e where "subs (ev_user s) p = Some e" "user_sub e' = user_sub e" "ev_que e' = ev_que e"
      using same_viewD(1) [OF assms(2) _ a(1)] by auto
    with assms(1,3) a(2) show ?thesis by (simp add: hist_inv_def active_def)
  qed
  then show ?thesis by (simp add: hist_inv_def active_def)
qed

section \<open>Every step keeps the invariant\<close>

lemma run_invD:
  assumes "run_inv others s"
  shows "user_inv (ev_user s)" "wake_inv (ev_task s) (ev_user s)" "call_inv others (ev_task s) (ev_user s)" "hist_inv s"
  using assms by (simp_all add: run_inv_def)

lemma quiet_step:
  assumes "run_inv others s" "user_inv u'" "same_view {} (ev_user s) u'" "\<And>k. conts u' k = conts (ev_user s) k"
    and "ppendsem (ev_user s) \<Longrightarrow> ppendsem u'" "pSuicideEvent u' = pSuicideEvent (ev_user s)"
  shows "run_inv others (s\<lparr>ev_user := u'\<rparr>)"
proof -
  note r = run_invD [OF assms(1)]
  have "flowCtrlMode u' = flowCtrlMode (ev_user s)" "length (ques u') = length (ques (ev_user s))"
    using assms(3) by (simp_all add: same_view_def)
  then have "wake_inv (ev_task s) u'" using assms(4,5) by (intro wake_mono [OF r(2)]) simp_all
  moreover have "call_inv others (ev_task s) u'"
    using view_in_call [OF assms(3)] assms(3) by (intro call_same [OF r(3) assms(6)]) (simp_all add: same_view_def)
  moreover have "hist_inv (s\<lparr>ev_user := u'\<rparr>)" by (rule hist_same [OF r(4) assms(3)]) (simp add: assms(4))
  ultimately show ?thesis using assms(2) by (simp add: run_inv_def)
qed

lemma add_step:
  assumes "run_inv others s" "subs (ev_user s) p = None" "added (ev_user s) p u'"
  shows "run_inv others (s\<lparr>ev_user := u', sent := (sent s)(p := []), got := (got s)(p := [])\<rparr>)"
proof -
  let ?u = "ev_user s"
  note r = run_invD [OF assms(1)]
  have a: "user_inv u'" "ppendsem u' = ppendsem ?u" "flowCtrlMode u' = flowCtrlMode ?u" "pSuicideEvent u' = pSuicideEvent ?u"
      "length (ques ?u) \<le> length (ques u')"
      "\<And>k. k < length (ques u') \<Longrightarrow> conts u' k = (if k < length (ques ?u) then conts ?u k else [])"
      "\<And>p'. p' \<noteq> p \<Longrightarrow> subs u' p' = subs ?u p'"
      "\<And>e. subs u' p = Some e \<Longrightarrow> user_sub e \<noteq> None \<and> \<not> callBackInProgress e \<and> logs (conts u' (ev_que e)) p = []"
    using assms(3) by (auto simp: added_def)
  have "wake_inv (ev_task s) u'" using a(2,3,6) by (intro wake_mono [OF r(2)]) (auto split: if_splits)
  moreover have "in_call u' p' = in_call ?u p'" for p' using a(7,8) assms(2) by (cases "p' = p") (auto simp: in_call_def)
  then have "call_inv others (ev_task s) u'" by (rule call_same [OF r(3) a(4,5)])
  moreover have "follows ((if p' = p then [] else got s p') @ logs (conts u' (ev_que e)) p') (if p' = p then [] else sent s p')"
    if e: "subs u' p' = Some e" "user_sub e \<noteq> None" for p' e
  proof (cases "p' = p")
    case True
    with a(8) e show ?thesis by (simp add: follows_def)
  next
    case False
    then have o: "subs ?u p' = Some e" using e(1) a(7) by simp
    then have "ev_que e < length (ques ?u)" using ques_invD(2) [of ?u p' e] r(1) by (simp add: user_inv_def)
    then have "conts u' (ev_que e) = conts ?u (ev_que e)" using a(5,6) by simp
    with False r(4) o e(2) show ?thesis by (simp add: hist_inv_def active_def)
  qed
  ultimately show ?thesis using a(1) by (auto simp: run_inv_def hist_inv_def active_def)
qed

lemma cancel_step:
  assumes "run_inv others s" "active s p e" "canceling False p e (ev_user s) u'"
  shows "run_inv others (s\<lparr>ev_user := u'\<rparr>)"
proof -
  let ?u = "ev_user s"
  note r = run_invD [OF assms(1)]
  have s: "subs ?u p = Some e" using assms(2) by (simp add: active_def)
  obtain e' where c: "user_inv u'" "same_view {p} ?u u'" "ppendsem u' = ppendsem ?u" "pSuicideEvent u' = pSuicideEvent ?u"
      "subs u' p = Some e'" "user_sub e' = None" "ev_que e' = ev_que e" "callBackInProgress e' = callBackInProgress e"
      "\<And>i. conts u' i = (if i = ev_que e then map (cancel_of p) (conts ?u i) else conts ?u i)"
    using assms(3) by (auto simp: canceling_def)
  have len: "length (ques u') = length (ques ?u)" "flowCtrlMode u' = flowCtrlMode ?u" using c(2) by (simp_all add: same_view_def)
  have "wake_inv (ev_task s) u'" using c(3,9) len by (intro wake_mono [OF r(2)]) (auto split: if_splits)
  moreover have "in_call u' p' = in_call ?u p'" for p'
    using view_in_call [OF c(2), of p'] c(5,8) s by (cases "p' = p") (simp_all add: in_call_def)
  then have "call_inv others (ev_task s) u'" using len by (intro call_same [OF r(3) c(4)]) simp_all
  moreover have "follows (got s p' @ logs (conts u' (ev_que e1)) p') (sent s p')"
    if q: "subs u' p' = Some e1" "user_sub e1 \<noteq> None" for p' e1
  proof -
    have ne: "p' \<noteq> p" using q c(5,6) by auto
    then obtain e0 where e0: "subs ?u p' = Some e0" "user_sub e1 = user_sub e0" "ev_que e1 = ev_que e0"
      using same_viewD(1) [OF c(2) _ q(1)] by auto
    have "logs (conts u' (ev_que e1)) p' = logs (conts ?u (ev_que e0)) p'" using c(9) e0(3) by (simp add: logs_cancel [OF ne])
    with r(4) e0 q(2) show ?thesis by (simp add: hist_inv_def active_def)
  qed
  ultimately show ?thesis using c(1) by (auto simp: run_inv_def hist_inv_def active_def)
qed

text \<open>A subscription is gone.\<close>

lemma gone_step:
  assumes "run_inv others s" "user_inv u'" "subs u' p = None" "same_view {p} (ev_user s) u'" "ppendsem u' = ppendsem (ev_user s)"
    and "\<And>i. conts u' i = [] \<or> conts (ev_user s) i \<noteq> []" "\<And>i p'. p' \<noteq> p \<Longrightarrow> logs (conts u' i) p' = logs (conts (ev_user s) i) p'"
    and "others \<or> called (ev_task s) = Some p \<and> pSuicideEvent u' = Some p \<or>
      pSuicideEvent u' = pSuicideEvent (ev_user s) \<and> (\<forall>e. subs (ev_user s) p = Some e \<longrightarrow> \<not> callBackInProgress e)"
  shows "run_inv others (s\<lparr>ev_user := u'\<rparr>)"
proof -
  let ?u = "ev_user s"
  note r = run_invD [OF assms(1)]
  have len: "length (ques u') = length (ques ?u)" "flowCtrlMode u' = flowCtrlMode ?u" using assms(4) by (simp_all add: same_view_def)
  have "wake_inv (ev_task s) u'" using assms(5,6) len by (intro wake_mono [OF r(2)]) metis+
  moreover have c: "in_call u' p' \<longleftrightarrow> p' \<noteq> p \<and> in_call ?u p'" for p'
    using view_in_call [OF assms(4), of p'] assms(3) by (cases "p' = p") (simp_all add: in_call_def)
  have "call_inv others (ev_task s) u'"
  proof (cases "others \<or> called (ev_task s) = Some p \<and> pSuicideEvent u' = Some p")
    case True
    then have "\<not> others \<Longrightarrow> \<not> in_call u' p'" for p' using c [of p'] r(3) by (auto simp: call_inv_def)
    with True r(3) len(1) show ?thesis by (auto simp: call_inv_def)
  next
    case False
    then have d: "pSuicideEvent u' = pSuicideEvent ?u" "\<not> in_call ?u p" using assms(8) by (auto simp: in_call_def)
    have "in_call u' p' = in_call ?u p'" for p' using c [of p'] d(2) by auto
    then show ?thesis using len(1) by (intro call_same [OF r(3) d(1)]) simp_all
  qed
  moreover have "follows (got s p' @ logs (conts u' (ev_que e1)) p') (sent s p')"
    if q: "subs u' p' = Some e1" "user_sub e1 \<noteq> None" for p' e1
  proof -
    have ne: "p' \<noteq> p" using q assms(3) by auto
    then obtain e0 where e0: "subs ?u p' = Some e0" "user_sub e1 = user_sub e0" "ev_que e1 = ev_que e0"
      using same_viewD(1) [OF assms(4) _ q(1)] by auto
    with r(4) assms(7) [OF ne] q(2) show ?thesis by (simp add: hist_inv_def active_def)
  qed
  ultimately show ?thesis using assms(2) by (auto simp: run_inv_def hist_inv_def active_def)
qed

lemma post_step:
  assumes "run_inv others s" "active s p e" "queue_step (ev_user s) (ev_que e) p l u'" "user_inv u'"
  shows "run_inv others (s\<lparr>ev_user := u', sent := (sent s)(p := sent s p @ [l])\<rparr>)"
proof -
  let ?u = "ev_user s"
  note r = run_invD [OF assms(1)]
  have q: "que_frame ?u u'" "\<And>i. i \<noteq> ev_que e \<Longrightarrow> conts u' i = conts ?u i"
      "logs_after (logs (conts ?u (ev_que e)) p) l (logs (conts u' (ev_que e)) p)"
      "\<And>p'. p' \<noteq> p \<Longrightarrow> logs (conts u' (ev_que e)) p' = logs (conts ?u (ev_que e)) p'"
      "ppendsem u' = (ppendsem ?u \<or> conts ?u (ev_que e) = [])"
    using assms(3) by (simp_all add: queue_step_def)
  note fr = que_frameD [OF q(1)]
  have "wake_inv (ev_task s) u'" using q(2,5) fr(1,4) by (intro wake_mono [OF r(2)]) metis+
  moreover have "call_inv others (ev_task s) u'"
    using view_in_call [OF frame_view [OF q(1)], of _ "{}"] fr(1) by (intro call_same [OF r(3) fr(3)]) simp_all
  moreover have "follows (got s p' @ logs (conts u' (ev_que e1)) p') (if p' = p then sent s p @ [l] else sent s p')"
    if a: "subs u' p' = Some e1" "user_sub e1 \<noteq> None" for p' e1
  proof -
    obtain e0 where e0: "subs ?u p' = Some e0" "erase e1 = erase e0" using fr(5) [OF a(1)] by blast
    note er = erase_eqD [OF e0(2)]
    have h: "follows (got s p' @ logs (conts ?u (ev_que e0)) p') (sent s p')"
      using r(4) e0(1) er(2) a(2) by (simp add: hist_inv_def active_def)
    show ?thesis
    proof (cases "p' = p")
      case True
      then have "e0 = e" using e0(1) assms(2) by (simp add: active_def)
      with True h q(3) er(3) show ?thesis using follows_snoc [of "got s p"] by simp
    next
      case False
      then have "logs (conts u' (ev_que e1)) p' = logs (conts ?u (ev_que e0)) p'"
        using q(2,4) er(3) by (cases "ev_que e0 = ev_que e") simp_all
      with False h show ?thesis by simp
    qed
  qed
  ultimately show ?thesis using assms(4) by (auto simp: run_inv_def hist_inv_def active_def)
qed

lemma user_inv_flags [simp]:
  "user_inv (u\<lparr>ppendsem := a\<rparr>) = user_inv u" "user_inv (u\<lparr>flowCtrlMode := b\<rparr>) = user_inv u" "user_inv (u\<lparr>pSuicideEvent := c\<rparr>) = user_inv u"
  by (simp_all add: user_inv_def ques_inv_def que_inv_def sub_inv_def entry_ok_def que_subs_def subs_inv_def mlis_inv_def)

lemma hist_task [simp]: "hist_inv (s\<lparr>ev_task := t\<rparr>) = hist_inv s"
  by (simp add: hist_inv_def active_def)

lemma read_task_step:
  assumes "run_inv others s" "ev_task s = Reading k" "read_step k (ev_user s) t' u'"
  shows "run_inv others (s\<lparr>ev_user := u', ev_task := t', got := delivered t' (got s)\<rparr>)"
proof -
  let ?u = "ev_user s"
  note r = run_invD [OF assms(1), unfolded assms(2)]
  have b: "user_inv u'" "length (ques u') = length (ques ?u)" "\<And>i. i \<noteq> k \<Longrightarrow> ques u' ! i = ques ?u ! i"
      "ppendsem u' = ppendsem ?u" "pSuicideEvent u' = pSuicideEvent ?u" "flowCtrlMode u' = flowCtrlMode ?u"
    using assms(3) by (simp_all add: read_step_def)
  have k: "k < length (ques ?u)" using r(3) by (simp add: call_inv_def)
  consider "conts ?u k = []" "t' = Next_que (k + 1)" "u' = ?u"
    | x where "conts ?u k = x # conts u' k" "fst x = canceledEvent" "t' = Reading k" "same_view {} ?u u'"
    | p l e e' where "conts ?u k = (Queued p, Some l) # conts u' k" "t' = Calling k p (Some l)" "same_view {p} ?u u'"
        "subs ?u p = Some e" "user_sub e \<noteq> None" "ev_que e = k"
        "subs u' p = Some e'" "user_sub e' \<noteq> None" "ev_que e' = k" "callBackInProgress e'"
    using assms(3) unfolding read_step_def by blast
  then show ?thesis
  proof cases
    case 1
    have "Suc k \<le> i" if "k \<le> i" "conts ?u i \<noteq> []" for i using that 1(1) by (cases "i = k") auto
    then have "wake_inv t' u'" using r(2) 1 by (auto simp: wake_inv_def)
    moreover have "call_inv others t' u'" using r(3) 1 by (auto simp: call_inv_def)
    moreover have "hist_inv (s\<lparr>ev_user := u', ev_task := t', got := delivered t' (got s)\<rparr>)"
      using r(4) 1 by (simp add: delivered_def hist_inv_def active_def)
    ultimately show ?thesis using b(1) by (simp add: run_inv_def)
  next
    case 2
    have c: "conts u' i \<noteq> [] \<Longrightarrow> conts ?u i \<noteq> []" "logs (conts u' i) p = logs (conts ?u i) p" for i p
      using 2(1,2) b(3) by (cases "i = k"; simp)+
    have "wake_inv t' u'" using r(2) 2(3) c(1) b(2,4,6) by (auto simp: wake_inv_def)
    moreover have "call_inv others t' u'" using call_same [OF r(3) b(5)] view_in_call [OF 2(4)] b(2) 2(3) by simp
    moreover have "hist_inv (s\<lparr>ev_user := u'\<rparr>)" by (rule hist_same [OF r(4) 2(4) c(2)])
    then have "hist_inv (s\<lparr>ev_user := u', ev_task := t', got := delivered t' (got s)\<rparr>)"
      using 2(3) by (simp add: delivered_def hist_inv_def active_def)
    ultimately show ?thesis using b(1) by (simp add: run_inv_def)
  next
    case (3 p l e e')
    have c: "conts u' i \<noteq> [] \<Longrightarrow> conts ?u i \<noteq> []" for i using 3(1) b(3) by (cases "i = k"; simp)
    have "wake_inv t' u'" using r(2) 3(2) c b(2,4,6) by (auto simp: wake_inv_def)
    moreover have "in_call u' p' \<longleftrightarrow> p' = p \<or> in_call ?u p'" for p'
      using view_in_call [OF 3(3), of p'] 3(7,10) by (cases "p' = p") (simp_all add: in_call_def)
    then have "call_inv others t' u'" using r(3) 3(2) k b(2,5) by (auto simp: call_inv_def)
    moreover have "follows ((delivered t' (got s)) p' @ logs (conts u' (ev_que e1)) p') (sent s p')"
      if q: "subs u' p' = Some e1" "user_sub e1 \<noteq> None" for p' e1
    proof (cases "p' = p")
      case True
      have "follows (got s p @ logs (conts ?u k) p) (sent s p)" using r(4) 3(4-6) by (auto simp: hist_inv_def active_def)
      then show ?thesis using True q 3(1,2,7,9) by (simp add: delivered_def)
    next
      case False
      then obtain e0 where e0: "subs ?u p' = Some e0" "user_sub e1 = user_sub e0" "ev_que e1 = ev_que e0"
        using same_viewD(1) [OF 3(3) _ q(1)] by auto
      have "logs (conts u' i) p' = logs (conts ?u i) p'" for i using 3(1) b(3) False by (cases "i = k") auto
      then show ?thesis using r(4) e0 q(2) False 3(2) by (simp add: delivered_def hist_inv_def active_def)
    qed
    ultimately show ?thesis using b(1) by (auto simp: run_inv_def hist_inv_def active_def)
  qed
qed

text \<open>The routine returns: unless the subscription was freed and is not the one last cancelled here.\<close>

lemma called_cases:
  assumes "event_read_called k p u = Some (t', u')"
  shows "t' = Reading k \<and> ques u' = ques u \<and> ppendsem u' = ppendsem u \<and> flowCtrlMode u' = flowCtrlMode u \<and>
    (\<forall>p' e'. subs u' p' = Some e' \<longrightarrow> (\<exists>e. subs u p' = Some e \<and> user_sub e' = user_sub e \<and> ev_que e' = ev_que e)) \<and>
    (user_inv u \<longrightarrow> user_inv u')"
proof (cases "pSuicideEvent u = Some p")
  case True
  then show ?thesis using assms by (auto simp: event_read_called_def)
next
  case False
  then obtain e where e: "subs u p = Some e" "t' = Reading k" "u' = upd_sub p (e\<lparr>callBackInProgress := False\<rparr>) u"
    using assms by (auto simp: event_read_called_def split: option.splits)
  have "user_inv u'" if "user_inv u"
  proof -
    have "ques_inv u'"
      unfolding e(3) by (rule ques_inv_sub(1) [OF _ e(1), where e' = "e\<lparr>callBackInProgress := False\<rparr>"])
        (use that in \<open>simp_all add: user_inv_def\<close>)
    moreover have "subs_inv u'" using that e by (auto simp: user_inv_def subs_inv_def mlis_inv_def)
    ultimately show ?thesis by (simp add: user_inv_def)
  qed
  then show ?thesis using e by simp
qed

lemma called_calls:
  assumes "call_inv False (Calling k p l) u"
  shows "\<exists>u'. event_read_called k p u = Some (Reading k, u') \<and> pSuicideEvent u' = None \<and> (\<forall>p'. \<not> in_call u' p')"
proof (cases "pSuicideEvent u = Some p")
  case True
  then have "\<not> in_call u p'" for p' using assms by (auto simp: call_inv_def)
  then show ?thesis using True by (simp add: event_read_called_def in_call_def)
next
  case False
  then obtain e where e: "subs u p = Some e" "callBackInProgress e" using assms by (auto simp: call_inv_def in_call_def)
  let ?u = "upd_sub p (e\<lparr>callBackInProgress := False\<rparr>) u"
  have "pSuicideEvent u = None" using False assms by (cases "pSuicideEvent u") (auto simp: call_inv_def)
  moreover have "\<not> in_call ?u p'" for p' using assms e(1) by (cases "p' = p") (auto simp: call_inv_def in_call_def)
  ultimately show ?thesis using e False by (intro exI [of _ ?u]) (simp add: event_read_called_def)
qed

lemma called_step:
  assumes "run_inv others s" "ev_task s = Calling k p l" "event_read_called k p (ev_user s) = Some (t', u')"
  shows "run_inv others (s\<lparr>ev_user := u', ev_task := t', got := delivered t' (got s)\<rparr>)"
proof -
  let ?u = "ev_user s"
  note r = run_invD [OF assms(1), unfolded assms(2)]
  have u': "t' = Reading k" "user_inv u'" "ques u' = ques ?u" "ppendsem u' = ppendsem ?u" "flowCtrlMode u' = flowCtrlMode ?u"
      "\<And>p' e'. subs u' p' = Some e' \<Longrightarrow> \<exists>e. subs ?u p' = Some e \<and> user_sub e' = user_sub e \<and> ev_que e' = ev_que e"
    using called_cases [OF assms(3)] r(1) by auto
  have "wake_inv (Reading k) u'" using r(2) u'(3-5) by (simp add: wake_inv_def)
  moreover have "call_inv others (Reading k) u'"
  proof (cases others)
    case True
    then show ?thesis using r(3) u'(3) by (simp add: call_inv_def)
  next
    case False
    then have "call_inv False (Calling k p l) ?u" using r(3) by simp
    from called_calls [OF this] assms(3) have "pSuicideEvent u' = None" "\<And>p'. \<not> in_call u' p'" by auto
    then show ?thesis using r(3) u'(3) by (auto simp: call_inv_def)
  qed
  moreover have "follows (got s p' @ logs (conts u' (ev_que e1)) p') (sent s p')"
    if q: "subs u' p' = Some e1" "user_sub e1 \<noteq> None" for p' e1
    using u'(6) [OF q(1)] q(2) r(4) u'(3) by (auto simp: hist_inv_def active_def)
  ultimately show ?thesis
    using u'(1,2) by (simp add: run_inv_def hist_inv_def active_def delivered_def)
qed

end
