(* ===== verification/DbEventProps.thy ===== *)
theory DbEventProps
  imports DbEventRun
begin

text \<open>
  What the event queues promise: no operation fails on a run except for a post to a queue full of cancelled
  entries, updates arrive in order and the last one always does, and the event task is always woken.
\<close>

section \<open>Reachable runs\<close>

lemma initial_inv: "run_inv others ev_initial"
proof -
  have "que_inv (db_init_events :: 'v event_user) 0"
    using rel_new by (simp add: que_inv_def db_init_events_def que_subs_def) (simp add: new_que_def)
  then have "user_inv (db_init_events :: 'v event_user)"
    by (simp add: user_inv_def ques_inv_def subs_inv_def mlis_inv_def) (simp add: db_init_events_def)
  then show ?thesis
    by (simp add: run_inv_def ev_initial_def wake_inv_def call_inv_def hist_inv_def active_def in_call_def)
       (simp add: db_init_events_def)
qed

text \<open>The turns of the event task keep the invariant.\<close>

lemma task_keeps:
  assumes "run_inv others s" "event_task_step (ev_task s) (ev_user s) = Some (t', u')"
  shows "run_inv others (s\<lparr>ev_user := u', ev_task := t', got := delivered t' (got s)\<rparr>)"
proof -
  let ?u = "ev_user s"
  note r = run_invD [OF assms(1)]
  have keep: "run_inv others (s\<lparr>ev_user := ?u, ev_task := t', got := delivered t' (got s)\<rparr>)"
    if t': "wake_inv t' ?u" "call_inv others t' ?u" "called t' = None" for t'
  proof -
    have "delivered t' (got s) = got s" using t'(3) by (cases t') (simp_all add: delivered_def)
    then show ?thesis using r t' by (simp add: run_inv_def hist_inv_def active_def)
  qed
  show ?thesis
  proof (cases "ev_task s")
    case Waiting
    show ?thesis
    proof (cases "ppendsem ?u")
      case True
      let ?u' = "?u\<lparr>ppendsem := False\<rparr>"
      have "wake_inv (Next_que 0) ?u'" "call_inv others (Next_que 0) ?u'"
        using r(3) Waiting by (simp_all add: wake_inv_def call_inv_def in_call_def)
      then show ?thesis
        using True Waiting r(1,4) assms(2) by (auto simp: event_task_step_def run_inv_def delivered_def hist_inv_def active_def)
    next
      case False
      then have "t' = Waiting" "u' = ?u" using Waiting assms(2) by (auto simp: event_task_step_def)
      then show ?thesis using keep [of Waiting] r(2,3) Waiting by simp
    qed
  next
    case (Next_que k)
    have c: "call_inv others Waiting ?u" "call_inv others (Next_que j) ?u" "k < length (ques ?u) \<Longrightarrow> call_inv others (Reading k) ?u" for j
      using r(3) Next_que by (simp_all add: call_inv_def)
    consider "length (ques ?u) \<le> k" | "k < length (ques ?u)" "flowCtrlMode ?u \<and> nDuplicates (ques ?u ! k) = 0"
      | "k < length (ques ?u)" "\<not> (flowCtrlMode ?u \<and> nDuplicates (ques ?u ! k) = 0)" by linarith
    then show ?thesis
    proof cases
      case 1
      then have "wake_inv Waiting ?u" using r(2) Next_que by (auto simp: wake_inv_def)
      moreover have "t' = Waiting" "u' = ?u" using 1 Next_que assms(2) by (auto simp: event_task_step_def)
      ultimately show ?thesis using keep [of Waiting] c(1) by simp
    next
      case 2
      then have "wake_inv (Next_que (k + 1)) ?u" by (simp add: wake_inv_def)
      moreover have "t' = Next_que (k + 1)" "u' = ?u" using 2 Next_que assms(2) by (auto simp: event_task_step_def)
      ultimately show ?thesis using keep [of "Next_que (k + 1)"] c(2) by simp
    next
      case 3
      then have "wake_inv (Reading k) ?u" using r(2) Next_que by (simp add: wake_inv_def)
      moreover have "t' = Reading k" "u' = ?u" using 3 Next_que assms(2) by (auto simp: event_task_step_def)
      ultimately show ?thesis using keep [of "Reading k"] c(3) 3(1) by simp
    qed
  next
    case (Reading k)
    then have "k < length (ques ?u)" using r(3) by (simp add: call_inv_def)
    from turn_ok [OF r(1) this] have "read_step k ?u t' u'" using assms(2) Reading by (auto simp: event_task_step_def)
    then show ?thesis using read_task_step [OF assms(1) Reading] by simp
  next
    case (Calling k p l)
    then show ?thesis using called_step [OF assms(1) Calling] assms(2) by (simp add: event_task_step_def)
  qed
qed

text \<open>They do not fail, as long as no routine cancels a subscription other than its own.\<close>

lemma task_goes:
  assumes "run_inv False s"
  shows "\<exists>t' u'. event_task_step (ev_task s) (ev_user s) = Some (t', u')"
proof (cases "ev_task s")
  case (Reading k)
  note r = run_invD [OF assms]
  have "k < length (ques (ev_user s))" using r(3) Reading by (simp add: call_inv_def)
  then show ?thesis using turn_ok [OF r(1)] Reading by (fastforce simp: event_task_step_def)
next
  case (Calling k p l)
  then show ?thesis using called_calls [of k p l "ev_user s"] run_invD(3) [OF assms] by (auto simp: event_task_step_def)
qed (simp_all add: event_task_step_def)

lemma activeD: "active s p e \<Longrightarrow> subs (ev_user s) p = Some e \<and> user_sub e \<noteq> None"
  by (simp add: active_def)

lemma ev_step_inv:
  assumes "ev_step others s s'" "run_inv others s"
  shows "run_inv others s'"
  using assms
proof (induction rule: ev_step.induct)
  case (add s p mem chan f sel r u')
  then show ?case using add_step add_ok run_invD(1) by blast
next
  case (enable s p e u')
  then show ?case using quiet_step [OF enable.prems] enable_ok [OF run_invD(1) [OF enable.prems]] activeD [OF enable.hyps(1)] by force
next
  case (disable s p e u')
  then show ?case using quiet_step [OF disable.prems] disable_ok [OF run_invD(1) [OF disable.prems]] activeD [OF disable.hyps(1)] by force
next
  case (cancel s p e u')
  then show ?case
    using cancel_step [OF cancel.prems cancel.hyps(1)] cancel_begin_ok [OF run_invD(1) [OF cancel.prems]] activeD [OF cancel.hyps(1)] by fastforce
next
  case (cancel_end s p e u')
  have "user_inv u' \<and> subs u' = (subs (ev_user s))(p := None) \<and> same_view {p} (ev_user s) u' \<and>
    (\<forall>i. conts u' i = conts (ev_user s) i) \<and> ppendsem u' = ppendsem (ev_user s) \<and> pSuicideEvent u' = pSuicideEvent (ev_user s)"
    using cancel_end_ok [OF run_invD(1) [OF cancel_end.prems] cancel_end.hyps(1,2)] cancel_end.hyps(4) by auto
  then show ?case using cancel_end.hyps(1,3) by (intro gone_step [OF cancel_end.prems, of u' p]) auto
next
  case (cancel_in_call s k q l p e u u')
  let ?u = "ev_user s"
  have a: "subs ?u p = Some e" using activeD [OF cancel_in_call.hyps(3)] by simp
  have c: "canceling True p e ?u u" using cancel_begin_ok [OF run_invD(1) [OF cancel_in_call.prems] a, of True] cancel_in_call.hyps(4) by fastforce
  then obtain e1 where e1: "user_inv u" "subs u p = Some e1" "user_sub e1 = None" "same_view {p} ?u u" "ppendsem u = ppendsem ?u"
      "pSuicideEvent u = Some p" "\<And>i. conts u i = (if i = ev_que e then map (cancel_of p) (conts ?u i) else conts ?u i)"
    by (auto simp: canceling_def)
  have d: "user_inv u'" "subs u' p = None" "same_view {p} u u'" "\<And>i. conts u' i = conts u i" "ppendsem u' = ppendsem u"
      "pSuicideEvent u' = pSuicideEvent u"
    using cancel_end_ok [OF e1(1-3)] cancel_in_call.hyps(5) by auto
  have "same_view {p} ?u u'" using e1(4) d(3) by (simp add: same_view_def)
  moreover have "conts u' i = [] \<or> conts ?u i \<noteq> []" for i using d(4) e1(7) by auto
  moreover have "logs (conts u' i) p' = logs (conts ?u i) p'" if "p' \<noteq> p" for i p'
    using d(4) e1(7) by (simp add: logs_cancel [OF that])
  ultimately show ?case
    using d e1(5,6) cancel_in_call.hyps(1,2) by (intro gone_step [OF cancel_in_call.prems, of u' p]) auto
next
  case (post s p e l u')
  let ?u = "ev_user s"
  note r = run_invD [OF post.prems]
  have a: "subs ?u p = Some e" "user_sub e \<noteq> None" using activeD [OF post.hyps(1)] by simp_all
  have room: "length (conts ?u (ev_que e)) < 128" if "npend e = 0"
  proof -
    have "que_inv ?u (ev_que e)" using r(1) a(1) ques_invD(3) by (auto simp: user_inv_def)
    from rel_put_empty [OF que_invD(1) [OF this]] show ?thesis
      using post.hyps(2) a(1) that by (auto simp: db_queue_event_log_def Let_def split: if_splits)
  qed
  have "queue_step ?u (ev_que e) p l u' \<and> user_inv u'" using post_ok [OF r(1) a room, of l] post.hyps(2) by auto
  then show ?case using post_step [OF post.prems post.hyps(1)] by blast
next
  case (flow_on s)
  note r = run_invD [OF flow_on]
  show ?case
    using r by (simp add: run_inv_def db_event_flow_ctrl_mode_on_def wake_inv_def call_inv_def in_call_def hist_inv_def active_def)
next
  case (flow_off s)
  note r = run_invD [OF flow_off]
  show ?case
    using r by (simp add: run_inv_def db_event_flow_ctrl_mode_off_def wake_inv_def call_inv_def in_call_def hist_inv_def active_def)
next
  case (task s t' u')
  then show ?case using task_keeps [OF task.prems] by blast
qed

lemma ev_reach_inv: "ev_reach others s \<Longrightarrow> run_inv others s"
  by (induction rule: ev_reach.induct) (auto intro: initial_inv ev_step_inv)

section \<open>Delivery\<close>

definition task_next :: "'v ev_run \<Rightarrow> 'v ev_run option" where
  "task_next s =
     map_option (\<lambda>(t', u'). s\<lparr>ev_user := u', ev_task := t', got := delivered t' (got s)\<rparr>) (event_task_step (ev_task s) (ev_user s))"

fun task_run :: "nat \<Rightarrow> 'v ev_run \<Rightarrow> 'v ev_run option" where
  "task_run 0 s = Some s"
| "task_run (Suc n) s = Option.bind (task_next s) (task_run n)"

text \<open>What is left to do before the event task waits for good.\<close>

definition que_load :: "'v event_user \<Rightarrow> nat" where
  "que_load u = (\<Sum>k < length (ques u). length (conts u k))"

definition task_load :: "nat \<Rightarrow> bool \<Rightarrow> 'v event_task \<Rightarrow> nat" where
  "task_load n sem t =
     (case t of
        Waiting \<Rightarrow> if sem then 2 * n + 2 else 0
      | Next_que j \<Rightarrow> 2 * (n - j) + 1 + (if sem then 2 * n + 4 else 0)
      | Reading j \<Rightarrow> 2 * (n - j) + (if sem then 2 * n + 4 else 0)
      | Calling j _ _ \<Rightarrow> 2 * (n - j) + 1 + (if sem then 2 * n + 4 else 0))"

definition work :: "'v ev_run \<Rightarrow> nat" where
  "work s = 4 * que_load (ev_user s) + task_load (length (ques (ev_user s))) (ppendsem (ev_user s)) (ev_task s)"

lemma load_pop:
  assumes "k < length (ques u)" "length (ques u') = length (ques u)" "conts u k = x # conts u' k" "\<And>i. i \<noteq> k \<Longrightarrow> ques u' ! i = ques u ! i"
  shows "que_load u = Suc (que_load u')"
proof -
  have "que_load v = length (conts v k) + (\<Sum>i \<in> {..<length (ques u)} - {k}. length (conts v i))" if "length (ques v) = length (ques u)" for v :: "'a event_user"
    using assms(1) that by (simp add: que_load_def sum.remove)
  moreover have "(\<Sum>i \<in> {..<length (ques u)} - {k}. length (conts u' i)) = (\<Sum>i \<in> {..<length (ques u)} - {k}. length (conts u i))"
    using assms(4) by (intro sum.cong) auto
  ultimately show ?thesis using assms(2,3) by simp
qed

text \<open>Without flow control every turn of the event task brings it nearer to waiting.\<close>

definition keeps_active :: "'v event_user \<Rightarrow> 'v event_user \<Rightarrow> bool" where
  "keeps_active u u' \<longleftrightarrow>
     (\<forall>p e. subs u p = Some e \<longrightarrow> user_sub e \<noteq> None \<longrightarrow> (\<exists>e'. subs u' p = Some e' \<and> user_sub e' \<noteq> None))"

lemma view_keeps:
  assumes "same_view P u u'" "\<forall>p \<in> P. \<exists>e'. subs u' p = Some e' \<and> user_sub e' \<noteq> None"
  shows "keeps_active u u'"
  unfolding keeps_active_def
proof (intro allI impI)
  fix p e assume e: "subs u p = Some e" "user_sub e \<noteq> None"
  show "\<exists>e'. subs u' p = Some e' \<and> user_sub e' \<noteq> None"
  proof (cases "p \<in> P")
    case False
    then show ?thesis using same_viewD(2) [OF assms(1) _ e(1)] e(2) by auto
  qed (use assms(2) in blast)
qed

lemma read_progress:
  assumes "k < length (ques u)" "read_step k u t' u'"
  shows "4 * que_load u' + task_load (length (ques u')) (ppendsem u') t' <
      4 * que_load u + task_load (length (ques u)) (ppendsem u) (Reading k)"
    and "keeps_active u u'"
proof -
  have b: "length (ques u') = length (ques u)" "\<And>i. i \<noteq> k \<Longrightarrow> ques u' ! i = ques u ! i" "ppendsem u' = ppendsem u"
    using assms(2) by (simp_all add: read_step_def)
  consider "t' = Next_que (k + 1)" "u' = u"
    | x where "conts u k = x # conts u' k" "t' = Reading k" "same_view {} u u'"
    | p l x e' where "conts u k = x # conts u' k" "t' = Calling k p l" "same_view {p} u u'" "subs u' p = Some e'" "user_sub e' \<noteq> None"
    using assms(2) unfolding read_step_def by blast
  note c = this
  show "4 * que_load u' + task_load (length (ques u')) (ppendsem u') t' <
      4 * que_load u + task_load (length (ques u)) (ppendsem u) (Reading k)"
    using c
  proof cases
    case 1
    then show ?thesis using assms(1) by (simp add: task_load_def)
  next
    case 2
    then show ?thesis using load_pop [OF assms(1) b(1) 2(1) b(2)] b(1,3) by (simp add: task_load_def)
  next
    case 3
    then show ?thesis using load_pop [OF assms(1) b(1) 3(1) b(2)] b(1,3) by (simp add: task_load_def)
  qed
  show "keeps_active u u'"
    using c
  proof cases
    case 1
    then show ?thesis by (simp add: keeps_active_def)
  next
    case 2
    then show ?thesis by (intro view_keeps [OF 2(3)]) simp
  next
    case 3
    then show ?thesis by (intro view_keeps [OF 3(3)]) simp
  qed
qed

lemma load_flags [simp]:
  "que_load (u\<lparr>ppendsem := a\<rparr>) = que_load u" "que_load (u\<lparr>pSuicideEvent := b\<rparr>) = que_load u" "que_load (upd_sub p e u) = que_load u"
  by (simp_all add: que_load_def)

lemma turn_progress:
  assumes "run_inv False s" "\<not> flowCtrlMode (ev_user s)" "ev_task s \<noteq> Waiting \<or> ppendsem (ev_user s)"
    and "event_task_step (ev_task s) (ev_user s) = Some (t', u')"
  shows "flowCtrlMode u' = False \<and> keeps_active (ev_user s) u' \<and>
    4 * que_load u' + task_load (length (ques u')) (ppendsem u') t' < work s"
proof -
  let ?u = "ev_user s"
  note r = run_invD [OF assms(1)]
  show ?thesis
  proof (cases "ev_task s")
    case Waiting
    then have "t' = Next_que 0" "u' = ?u\<lparr>ppendsem := False\<rparr>" "ppendsem ?u" using assms(3,4) by (auto simp: event_task_step_def)
    with Waiting assms(2) show ?thesis by (auto simp: work_def task_load_def keeps_active_def)
  next
    case (Next_que j)
    then have "u' = ?u" "t' = (if length (ques ?u) \<le> j then Waiting else Reading j)"
      using assms(2,4) by (auto simp: event_task_step_def split: if_splits)
    with Next_que assms(2) show ?thesis by (auto simp: work_def task_load_def keeps_active_def)
  next
    case (Reading k)
    then have k: "k < length (ques ?u)" using r(3) by (simp add: call_inv_def)
    have s: "read_step k ?u t' u'" using turn_ok [OF r(1) k] assms(4) Reading by (auto simp: event_task_step_def)
    then have "flowCtrlMode u' = flowCtrlMode ?u" by (simp add: read_step_def)
    with read_progress [OF k s] Reading assms(2) show ?thesis by (simp add: work_def)
  next
    case (Calling k p l)
    then have c: "event_read_called k p ?u = Some (t', u')" using assms(4) by (simp add: event_task_step_def)
    have "keeps_active ?u u'"
      using c by (auto simp: event_read_called_def keeps_active_def split: if_splits option.splits)
    moreover have "t' = Reading k \<and> que_load u' = que_load ?u \<and> ques u' = ques ?u \<and> ppendsem u' = ppendsem ?u \<and> flowCtrlMode u' = flowCtrlMode ?u"
      using c by (auto simp: event_read_called_def split: if_splits option.splits)
    ultimately show ?thesis using Calling assms(2) by (simp add: work_def task_load_def)
  qed
qed

lemma task_runs_to_end:
  "run_inv False s \<Longrightarrow> \<not> flowCtrlMode (ev_user s) \<Longrightarrow>
   \<exists>n s'. task_run n s = Some s' \<and> run_inv False s' \<and> \<not> flowCtrlMode (ev_user s') \<and> ev_task s' = Waiting \<and> \<not> ppendsem (ev_user s') \<and>
     sent s' = sent s \<and> keeps_active (ev_user s) (ev_user s')"
proof (induction "work s" arbitrary: s rule: less_induct)
  case less
  show ?case
  proof (cases "ev_task s = Waiting \<and> \<not> ppendsem (ev_user s)")
    case True
    with less.prems show ?thesis by (intro exI [of _ 0] exI [of _ s]) (simp add: keeps_active_def)
  next
    case False
    obtain t' u' where t: "event_task_step (ev_task s) (ev_user s) = Some (t', u')"
        "run_inv False (s\<lparr>ev_user := u', ev_task := t', got := delivered t' (got s)\<rparr>)" (is "run_inv False ?s")
      using task_goes [OF less.prems(1)] task_keeps [OF less.prems(1)] by blast
    have p: "flowCtrlMode u' = False" "keeps_active (ev_user s) u'" "work ?s < work s"
      using turn_progress [OF less.prems _ t(1)] False by (simp_all add: work_def)
    then obtain n s' where s': "task_run n ?s = Some s'" "run_inv False s'" "\<not> flowCtrlMode (ev_user s')" "ev_task s' = Waiting"
        "\<not> ppendsem (ev_user s')" "sent s' = sent ?s" "keeps_active u' (ev_user s')"
      using less.hyps [OF p(3) t(2)] by auto
    have "keeps_active (ev_user s) (ev_user s')" using p(2) s'(7) unfolding keeps_active_def by blast
    with s' t(1) show ?thesis by (intro exI [of _ "Suc n"] exI [of _ s']) (simp add: task_next_def)
  qed
qed

section \<open>Properties\<close>

text \<open>
  C9: The most recent update of a subscription always arrives. In every run of posts, cancellations and flow control
  in which no routine cancels a subscription other than its own, however they interleave with the event task: once flow control is off, the event task comes to rest by its own
  turns, wherever it was, even waiting; then all queues are empty, and the last log that the routine of each
  subscription was called with is the last that was posted for it.\<close>

theorem updates_arrive:
  assumes "ev_reach False s" "\<not> flowCtrlMode (ev_user s)"
  shows "\<exists>n s'. task_run n s = Some s' \<and> ev_task s' = Waiting \<and> sent s' = sent s \<and>
    (\<forall>k < length (ques (ev_user s')). contents (ques (ev_user s') ! k) = []) \<and>
    (\<forall>p e. active s p e \<longrightarrow> sent s p \<noteq> [] \<longrightarrow> got s' p \<noteq> [] \<and> last (got s' p) = last (sent s p))"
proof -
  obtain n s' where s': "task_run n s = Some s'" "run_inv False s'" "\<not> flowCtrlMode (ev_user s')" "ev_task s' = Waiting"
      "\<not> ppendsem (ev_user s')" "sent s' = sent s" "keeps_active (ev_user s) (ev_user s')"
    using task_runs_to_end [OF ev_reach_inv [OF assms(1)] assms(2)] by blast
  note r = run_invD [OF s'(2)]
  have empty: "conts (ev_user s') k = []" if "k < length (ques (ev_user s'))" for k
    using that r(2) s'(3-5) by (auto simp: wake_inv_def)
  have "got s' p \<noteq> [] \<and> last (got s' p) = last (sent s p)" if a: "active s p e" "sent s p \<noteq> []" for p e
  proof -
    obtain e' where e': "subs (ev_user s') p = Some e'" "user_sub e' \<noteq> None" using s'(7) a(1) unfolding keeps_active_def active_def by blast
    then have f: "follows (got s' p @ logs (conts (ev_user s') (ev_que e')) p) (sent s p)"
      using r(4) s'(6) by (auto simp: hist_inv_def active_def)
    have "ev_que e' < length (ques (ev_user s'))" using r(1) ques_invD(2) [OF _ e'(1)] by (simp add: user_inv_def)
    with empty f a(2) show ?thesis by (simp add: follows_def)
  qed
  with s'(1,4,6) empty show ?thesis by (intro exI [of _ n] exI [of _ s']) blast
qed

text \<open>A run with one subscription, for which one value was posted.\<close>

definition sample_chan :: dbChannel where
  "sample_chan = \<lparr>chan_record = 10, chan_field = 11, chan_elements = 1, chan_dbaddr = False, chan_size = 8\<rparr>"

lemma reach_post:
  assumes "ev_reach False s" "active s p e" "npend e = 0 \<Longrightarrow> length (conts (ev_user s) (ev_que e)) < 128"
    "s' = (\<lambda>u'. s\<lparr>ev_user := u', sent := (sent s)(p := sent s p @ [l])\<rparr>)"
  shows "\<exists>u'. ev_reach False (s' u') \<and> queue_step (ev_user s) (ev_que e) p l u'"
proof -
  note r = run_invD [OF ev_reach_inv [OF assms(1)]]
  obtain u' where "db_queue_event_log p l (ev_user s) = Some u'" "queue_step (ev_user s) (ev_que e) p l u'"
    using post_ok [OF r(1) _ _ assms(3)] activeD [OF assms(2)] by blast
  then show ?thesis using ev_reach.step [OF assms(1) ev_step.post [OF assms(2)]] assms(4) by blast
qed

text \<open>One queue, no call, and no subscriptions other than those at \<open>P\<close>.\<close>

definition only_subs :: "addr set \<Rightarrow> 'v ev_run \<Rightarrow> bool" where
  "only_subs P s \<longleftrightarrow>
     ev_reach False s \<and> length (ques (ev_user s)) = 1 \<and> \<not> flowCtrlMode (ev_user s) \<and> ev_task s = Waiting \<and>
     dom (subs (ev_user s)) = P \<and> (\<forall>p e. subs (ev_user s) p = Some e \<longrightarrow> user_sub e \<noteq> None)"

lemma only_add:
  assumes "only_subs P s" "p \<notin> P" "finite P" "4 * card P + canceled (conts (ev_user s) 0) < 124"
  shows "\<exists>s'. only_subs (insert p P) s' \<and> conts (ev_user s') 0 = conts (ev_user s) 0 \<and> sent s' = (sent s)(p := [])"
proof -
  let ?u = "ev_user s"
  have o: "ev_reach False s" "length (ques ?u) = 1" "\<not> flowCtrlMode ?u" "ev_task s = Waiting" "dom (subs ?u) = P"
      "\<And>p e. subs ?u p = Some e \<Longrightarrow> user_sub e \<noteq> None"
    using assms(1) by (auto simp: only_subs_def)
  note r = run_invD [OF ev_reach_inv [OF o(1)]]
  have inv: "ques_inv ?u" "que_inv ?u 0" using r(1) o(2) by (simp_all add: user_inv_def ques_inv_def)
  have "que_subs ?u 0 = P" using o(2,5) ques_invD(2) [OF inv(1)] by (fastforce simp: que_subs_def)
  then have q: "quota (ques ?u ! 0) + nCanceled (ques ?u ! 0) < 124" using que_invD(3,8) [OF inv(2)] assms(4) by simp
  obtain q0 where q0: "ques ?u = [q0]" using o(2) by (cases "ques ?u") auto
  obtain u' e where u': "db_add_event (Some p) True sample_chan 7 1 ?u = (Some p, u')" "u' = upd_sub p e (?u\<lparr>ques := ques u'\<rparr>)"
      "user_sub e = Some 7" "length (ques u') = 1" "ev_que e = 0"
    using q q0 by (auto simp: db_add_event_def)
  have none: "subs ?u p = None" using o(5) assms(2) by auto
  note a = add_ok [OF r(1) none u'(1)]
  let ?s = "s\<lparr>ev_user := u', sent := (sent s)(p := []), got := (got s)(p := [])\<rparr>"
  have "ev_reach False ?s" using ev_reach.step [OF o(1) ev_step.add [OF none u'(1)]] .
  moreover have sb: "subs u' = (subs ?u)(p \<mapsto> e)" using arg_cong [OF u'(2), of subs] by simp
  moreover have "flowCtrlMode u' = flowCtrlMode ?u" "conts u' 0 = conts ?u 0" using a o(2) u'(4) by (simp_all add: added_def)
  ultimately show ?thesis
    using o(3-6) u'(3,4) by (intro exI [of _ ?s]) (auto simp: only_subs_def)
qed

lemma only_start: "only_subs {} ev_initial" "conts (ev_user ev_initial) 0 = []" "sent ev_initial = (\<lambda>_. [])"
  using ev_reach.start by (simp_all add: only_subs_def) (simp_all add: ev_initial_def db_init_events_def)

lemma only_post:
  assumes "only_subs P s" "p \<in> P" "entries_of (conts (ev_user s) 0) p = [] \<and> length (conts (ev_user s) 0) < 128 \<or>
      length (conts (ev_user s) 0) < 96 \<and> l \<noteq> Log_rec"
  shows "\<exists>s'. only_subs P s' \<and> length (conts (ev_user s') 0) = Suc (length (conts (ev_user s) 0)) \<and>
    canceled (conts (ev_user s') 0) = canceled (conts (ev_user s) 0) \<and> sent s' = (sent s)(p := sent s p @ [l]) \<and>
    (\<exists>e. active s' p e) \<and>
    (entries_of (conts (ev_user s) 0) p = [] \<longrightarrow> length (entries_of (conts (ev_user s') 0) p) = 1)"
proof -
  let ?u = "ev_user s"
  have o: "ev_reach False s" "length (ques ?u) = 1" "\<not> flowCtrlMode ?u" "ev_task s = Waiting" "dom (subs ?u) = P"
      "\<And>p e. subs ?u p = Some e \<Longrightarrow> user_sub e \<noteq> None"
    using assms(1) by (auto simp: only_subs_def)
  note r = run_invD [OF ev_reach_inv [OF o(1)]]
  have inv: "ques_inv ?u" using r(1) by (simp add: user_inv_def)
  obtain e where e: "subs ?u p = Some e" using o(5) assms(2) by auto
  have k: "ev_que e = 0" using ques_invD(2) [OF inv e] o(2) by simp
  have a: "active s p e" using e o(6) by (simp add: active_def)
  obtain u' where u': "ev_reach False (s\<lparr>ev_user := u', sent := (sent s)(p := sent s p @ [l])\<rparr>)" (is "ev_reach False ?s") "queue_step ?u 0 p l u'"
    using reach_post [OF o(1) a _ refl, of l] assms(3) k by auto
  have q: "que_frame ?u u'" "canceled (conts u' 0) = canceled (conts ?u 0)" "length (conts u' 0) = Suc (length (conts ?u 0))"
      "logs_after (logs (conts ?u 0) p) l (logs (conts u' 0) p)"
    using u'(2) assms(3) o(3) by (auto simp: queue_step_def)
  note fr = que_frameD [OF q(1)]
  have "length (logs (conts u' 0) p) = 1" if "logs (conts ?u 0) p = []" using q(4) that by (simp add: logs_after_def)
  then have ev: "entries_of (conts ?u 0) p = [] \<longrightarrow> length (entries_of (conts u' 0) p) = 1" by (simp add: logs_def)
  have us: "user_sub e' \<noteq> None" if e': "subs u' p' = Some e'" for p' e'
    using fr(5) [OF e'] o(6) erase_eqD(2) by metis
  have "dom (subs u') = P" using fr(5,6) o(5) by (auto simp: dom_def) blast+
  moreover obtain e' where "subs u' p = Some e'" using fr(6) [OF e] by blast
  ultimately show ?thesis
    using u'(1) q(2,3) ev us o(2-4) fr(1,4) by (intro exI [of _ ?s]) (auto simp: only_subs_def active_def)
qed

lemma only_one: "\<exists>s. only_subs {1} s \<and> conts (ev_user s) 0 = [] \<and> sent s 1 = []"
proof -
  have "4 * card ({} :: addr set) + canceled (conts (ev_user ev_initial) 0) < 124" by (simp add: only_start(2))
  from only_add [OF only_start(1) _ _ this, of 1] show ?thesis by (auto simp: only_start(2))
qed

theorem updates_arrive_witness:
  "\<exists>s n s'. ev_reach False s \<and> sent s 1 = [Log_val (5 :: nat), Log_val 6] \<and> task_run n s = Some s' \<and> last (got s' 1) = Log_val 6"
proof -
  obtain s1 :: "nat ev_run" where s1: "only_subs {1} s1" "conts (ev_user s1) 0 = []" "sent s1 1 = []"
    using only_one by blast
  obtain s2 :: "nat ev_run" where s2: "only_subs {1} s2" "length (conts (ev_user s2) 0) = 1" "sent s2 1 = [Log_val 5]"
    using only_post [OF s1(1), of 1 "Log_val 5"] s1(2,3) by auto
  obtain s3 :: "nat ev_run" and e where s3: "only_subs {1} s3" "sent s3 1 = [Log_val 5, Log_val 6]" "active s3 1 e"
    using only_post [OF s2(1), of 1 "Log_val 6"] s2(2,3) by auto
  have "ev_reach False s3" "\<not> flowCtrlMode (ev_user s3)" using s3(1) by (simp_all add: only_subs_def)
  with updates_arrive [OF this] s3(2,3) show ?thesis by force
qed

text \<open>
  C11: The logs that the routine of a subscription was called with, followed by those still queued for it, are always a
  subsequence of the logs posted for it: updates are never reordered, repeated or made up. Some may be left
  out when the queue fills up or flow control is on, but never the last. Routines may cancel any subscription.\<close>

theorem updates_in_order:
  assumes "ev_reach others s" "active s p e"
  shows "subseq (got s p @ logs (contents (ques (ev_user s) ! ev_que e)) p) (sent s p) \<and>
    (sent s p \<noteq> [] \<longrightarrow> last (got s p @ logs (contents (ques (ev_user s) ! ev_que e)) p) = last (sent s p))"
  using run_invD(4) [OF ev_reach_inv [OF assms(1)]] assms(2) by (auto simp: hist_inv_def follows_def)

theorem updates_in_order_witness:
  "\<exists>s e. ev_reach False s \<and> active s 1 e \<and> sent s 1 = [Log_val (5 :: nat)] \<and>
     last (got s 1 @ logs (contents (ques (ev_user s) ! ev_que e)) 1) = Log_val 5"
proof -
  obtain s1 :: "nat ev_run" where s1: "only_subs {1} s1" "conts (ev_user s1) 0 = []" "sent s1 1 = []"
    using only_one by blast
  obtain s2 :: "nat ev_run" and e where s2: "only_subs {1} s2" "sent s2 1 = [Log_val 5]" "active s2 1 e"
    using only_post [OF s1(1), of 1 "Log_val 5"] s1(2,3) by auto
  have "ev_reach False s2" using s2(1) by (simp add: only_subs_def)
  with updates_in_order [OF this s2(3)] s2(2,3) show ?thesis by auto
qed

text \<open>Room for one more log of a subscription that has none, unless many entries were cancelled.\<close>

lemma room_ok:
  assumes "user_inv u" "subs u p = Some e" "nCanceled (ques u ! ev_que e) \<le> 2" "npend e = 0"
  shows "length (conts u (ev_que e)) < 128"
proof -
  have inv: "ques_inv u" using assms(1) by (simp add: user_inv_def)
  note s = ques_invD [OF inv assms(2)]
  note q = que_invD [OF s(3)]
  have "p \<notin> queued (conts u (ev_que e))" using s(1) assms(4) by (simp add: sub_inv_def queued_iff)
  then have "queued (conts u (ev_que e)) \<subseteq> que_subs u (ev_que e) - {p}" using queued_subs [OF s(3)] by blast
  then have "card (queued (conts u (ev_que e))) \<le> card (que_subs u (ev_que e) - {p})" using q(6) by (intro card_mono) auto
  moreover have "card (que_subs u (ev_que e) - {p}) < card (que_subs u (ev_que e))" using q(6) s(4) by (rule card_Diff1_less)
  ultimately show ?thesis using q(3-5,7) assms(3) by linarith
qed

lemma post_events_ok:
  "user_inv u \<Longrightarrow> \<forall>p \<in> set ps. \<exists>e. subs u p = Some e \<and> user_sub e \<noteq> None \<Longrightarrow>
   \<forall>k < length (ques u). nCanceled (ques u ! k) \<le> 2 \<Longrightarrow> \<exists>u'. post_events cur pre pField m ps u = Some u'"
proof (induction ps arbitrary: u)
  case (Cons p ps)
  obtain e where e: "subs u p = Some e" "user_sub e \<noteq> None" using Cons.prems(2) by auto
  have IH: "\<exists>u'. post_events cur pre pField m ps u = Some u'" using Cons by simp
  show ?case
  proof (cases "pre p (db_create_event_log cur e)")
    case None
    with e IH show ?thesis by (simp add: db_post_single_event_def)
  next
    case (Some l)
    have k: "ev_que e < length (ques u)" using ques_invD(2) [OF _ e(1)] Cons.prems(1) by (simp add: user_inv_def)
    obtain u1 where u1: "db_queue_event_log p l u = Some u1" "queue_step u (ev_que e) p l u1" "user_inv u1"
      using post_ok [OF Cons.prems(1) e, of l] room_ok [OF Cons.prems(1) e(1)] Cons.prems(3) k by blast
    have fr: "que_frame u u1" and cn: "\<And>i. canceled (conts u1 i) = canceled (conts u i)" using u1(2) by (auto simp: queue_step_def)
    have nc: "nCanceled (ques v ! i) = canceled (conts v i)" if "user_inv v" "i < length (ques v)" for v i
      using that que_invD(3) [of v i] by (simp add: user_inv_def ques_inv_def)
    have "\<forall>i < length (ques u1). nCanceled (ques u1 ! i) \<le> 2"
      using Cons.prems(3) nc [OF u1(3)] nc [OF Cons.prems(1)] cn que_frameD(1) [OF fr] by simp
    moreover have "\<forall>p' \<in> set ps. \<exists>e. subs u1 p' = Some e \<and> user_sub e \<noteq> None"
      using Cons.prems(2) que_frameD(6) [OF fr] erase_eqD(2) by (metis list.set_intros(2))
    ultimately have "\<exists>u'. post_events cur pre pField m ps u1 = Some u'" using Cons.IH [OF u1(3)] by blast
    with e IH Some u1(1) show ?thesis by (simp add: db_post_single_event_def)
  qed
qed simp



section \<open>Two ways to fail\<close>

lemma canceled_map: "canceled (map (cancel_of p) L) = canceled L + length (entries_of L p)"
  by (induction L) (auto simp: cancel_of_def)

lemma only_cancel:
  fixes s :: "'v ev_run"
  assumes "only_subs (insert p P) s" "p \<notin> P"
  shows "\<exists>s' :: 'v ev_run. only_subs P s' \<and> length (conts (ev_user s') 0) = length (conts (ev_user s) 0) \<and>
    canceled (conts (ev_user s') 0) = canceled (conts (ev_user s) 0) + length (entries_of (conts (ev_user s) 0) p)"
proof -
  let ?u = "ev_user s"
  have o: "ev_reach False s" "length (ques ?u) = 1" "\<not> flowCtrlMode ?u" "ev_task s = Waiting" "dom (subs ?u) = insert p P"
      "\<And>p e. subs ?u p = Some e \<Longrightarrow> user_sub e \<noteq> None"
    using assms(1) by (auto simp: only_subs_def)
  note r = run_invD [OF ev_reach_inv [OF o(1)]]
  obtain e where e: "subs ?u p = Some e" using o(5) by auto
  have k: "ev_que e = 0" using ques_invD(2) [OF _ e] r(1) o(2) by (simp add: user_inv_def)
  have a: "active s p e" using e o(6) by (simp add: active_def)
  obtain u1 where u1: "db_cancel_event_begin False p ?u = Some u1" "canceling False p e ?u u1"
    using cancel_begin_ok [OF r(1) e] by blast
  then obtain e1 where e1: "user_inv u1" "subs u1 p = Some e1" "user_sub e1 = None" "callBackInProgress e1 = callBackInProgress e"
      "same_view {p} ?u u1" "conts u1 0 = map (cancel_of p) (conts ?u 0)"
    using k by (auto simp: canceling_def)
  let ?s1 = "s\<lparr>ev_user := u1\<rparr>"
  have r1: "ev_reach False ?s1" by (rule ev_reach.step [OF o(1) ev_step.cancel [OF a u1(1)]])
  have "\<not> in_call ?u p" using r(3) o(4) by (simp add: call_inv_def)
  then have nc: "\<not> callBackInProgress e1" using e e1(4) by (simp add: in_call_def)
  obtain u2 where u2: "db_cancel_event_end p u1 = Some u2" "subs u2 = (subs u1)(p := None)" "same_view {p} u1 u2" "conts u2 0 = conts u1 0"
    using cancel_end_ok [OF e1(1-3)] by blast
  let ?s2 = "s\<lparr>ev_user := u2\<rparr>"
  have r2: "ev_reach False ?s2" using ev_reach.step [OF r1 ev_step.cancel_end, of p e1 u2] e1(2,3) nc u2(1) by simp
  have v: "same_view {p} ?u u2" using e1(5) u2(3) by (simp add: same_view_def)
  have "dom (subs u2) = P"
  proof (rule set_eqI)
    fix x show "x \<in> dom (subs u2) \<longleftrightarrow> x \<in> P"
    proof (cases "x = p")
      case False
      then have "map_option view (subs u2 x) = map_option view (subs ?u x)" using v by (simp add: same_view_def)
      then have "x \<in> dom (subs u2) \<longleftrightarrow> x \<in> dom (subs ?u)" by (cases "subs u2 x"; cases "subs ?u x") auto
      with o(5) False show ?thesis by simp
    qed (use u2(2) assms(2) in simp)
  qed
  moreover have "user_sub e' \<noteq> None" if "subs u2 x = Some e'" for x e'
    using that u2(2) same_viewD(1) [OF v, of x e'] o(6) by (cases "x = p") auto
  moreover have "length (ques u2) = 1" "\<not> flowCtrlMode u2" using v o(2,3) by (simp_all add: same_view_def)
  ultimately have "only_subs P ?s2" using r2 o(4) by (auto simp: only_subs_def)
  moreover have "conts u2 0 = map (cancel_of p) (conts ?u 0)" using u2(4) e1(6) by simp
  ultimately show ?thesis by (intro exI [of _ ?s2]) (simp add: canceled_map)
qed

lemma only_no_entries:
  assumes "only_subs P s" "p \<notin> P"
  shows "entries_of (conts (ev_user s) 0) p = []"
proof -
  have o: "ev_reach False s" "length (ques (ev_user s)) = 1" "dom (subs (ev_user s)) = P" using assms(1) by (auto simp: only_subs_def)
  have "que_inv (ev_user s) 0" using run_invD(1) [OF ev_reach_inv [OF o(1)]] o(2) by (simp add: user_inv_def ques_inv_def)
  from queued_subs [OF this] o(3) assms(2) have "p \<notin> queued (conts (ev_user s) 0)" by (auto simp: que_subs_def)
  then show ?thesis by (simp add: queued_iff)
qed

text \<open>A client that does not read, and values for one subscription.\<close>

lemma many_posts: "n \<le> 96 \<Longrightarrow> \<exists>s :: nat ev_run. only_subs {1} s \<and> length (conts (ev_user s) 0) = n \<and> canceled (conts (ev_user s) 0) = 0"
proof (induction n)
  case 0
  then show ?case using only_one by force
next
  case (Suc n)
  then obtain s :: "nat ev_run" where s: "only_subs {1} s" "length (conts (ev_user s) 0) = n" "canceled (conts (ev_user s) 0) = 0" by auto
  then show ?case using only_post [OF s(1), of 1 "Log_val 5"] Suc.prems by fastforce
qed

text \<open>Then another subscription is added, posted to and cancelled again and again.\<close>

lemma many_cancels:
  "c \<le> 32 \<Longrightarrow> \<exists>s :: nat ev_run. only_subs {1} s \<and> length (conts (ev_user s) 0) = 96 + c \<and> canceled (conts (ev_user s) 0) = c"
proof (induction c)
  case 0
  then show ?case using many_posts [of 96] by auto
next
  case (Suc c)
  then obtain s :: "nat ev_run" where s: "only_subs {1} s" "length (conts (ev_user s) 0) = 96 + c" "canceled (conts (ev_user s) 0) = c" by auto
  obtain s1 :: "nat ev_run" where s1: "only_subs {2, 1} s1" "conts (ev_user s1) 0 = conts (ev_user s) 0"
    using only_add [OF s(1), of 2] s(3) Suc.prems by auto
  have e1: "entries_of (conts (ev_user s1) 0) 2 = []" using only_no_entries [OF s(1), of 2] s1(2) by simp
  obtain s2 :: "nat ev_run" where s2: "only_subs {2, 1} s2" "length (conts (ev_user s2) 0) = 97 + c" "canceled (conts (ev_user s2) 0) = c"
      "length (entries_of (conts (ev_user s2) 0) 2) = 1"
    using only_post [OF s1(1), of 2 "Log_val 5"] s1(2) s(2,3) e1 Suc.prems by auto
  obtain s3 :: "nat ev_run" where "only_subs {1} s3" "length (conts (ev_user s3) 0) = 97 + c" "canceled (conts (ev_user s3) 0) = Suc c"
    using only_cancel [of 2 "{1}" s2] s2 by auto
  then show ?case by auto
qed

text \<open>
  C38: The assertion that there is room in the queue can fail: the test in \<^verbatim>\<open>db_add_event\<close> counts the entries
  that subscriptions may need and those that were cancelled, but not the duplicates that other subscriptions
  have queued. While the event task does not read, ninety-six values posted for one subscription and thirty-two
  rounds of adding, posting to and cancelling a second one fill the queue; a third subscription is accepted and
  the first post to it fails.\<close>

theorem event_queue_overflows:
  "\<exists>(s :: nat ev_run) e. ev_reach False s \<and> active s 2 e \<and> npend e = 0 \<and> (\<forall>l. db_queue_event_log 2 l (ev_user s) = None)"
proof -
  obtain s :: "nat ev_run" where s: "only_subs {1} s" "length (conts (ev_user s) 0) = 128" "canceled (conts (ev_user s) 0) = 32"
    using many_cancels [of 32] by auto
  obtain s1 :: "nat ev_run" where s1: "only_subs {2, 1} s1" "conts (ev_user s1) 0 = conts (ev_user s) 0"
    using only_add [OF s(1), of 2] s(3) by auto
  have o: "ev_reach False s1" "length (ques (ev_user s1)) = 1" "2 \<in> dom (subs (ev_user s1))" "\<And>p e. subs (ev_user s1) p = Some e \<Longrightarrow> user_sub e \<noteq> None"
    using s1(1) by (auto simp: only_subs_def)
  then obtain e where e: "subs (ev_user s1) 2 = Some e" by auto
  have inv: "ques_inv (ev_user s1)" using run_invD(1) [OF ev_reach_inv [OF o(1)]] by (simp add: user_inv_def)
  note i = ques_invD [OF inv e]
  have k: "ev_que e = 0" using i(2) o(2) by simp
  have n: "npend e = 0" using i(1) only_no_entries [OF s(1), of 2] s1(2) k by (simp add: sub_inv_def)
  have "evque (ques (ev_user s1) ! 0) ! putix (ques (ev_user s1) ! 0) \<noteq> EVENTQEMPTY"
    using rel_put_empty [OF que_invD(1) [OF i(3)]] s(2) s1(2) k by simp
  then have "db_queue_event_log 2 l (ev_user s1) = None" for l using e n k by (simp add: db_queue_event_log_def Let_def)
  with o(1,4) e n show ?thesis unfolding active_def by blast
qed

text \<open>A routine cancels a subscription.\<close>

lemma call_cancels:
  assumes "ev_reach True s" "ev_task s = Calling k p l" "active s q e"
  shows "\<exists>s'. ev_step True s s' \<and> ev_task s' = ev_task s \<and> subs (ev_user s') q = None \<and>
    pSuicideEvent (ev_user s') = Some q \<and> (\<forall>p'. p' \<noteq> q \<longrightarrow> map_option view (subs (ev_user s') p') = map_option view (subs (ev_user s) p'))"
proof -
  let ?u = "ev_user s"
  note r = run_invD [OF ev_reach_inv [OF assms(1)]]
  note a = activeD [OF assms(3)]
  obtain u1 where u1: "db_cancel_event_begin True q ?u = Some u1" "canceling True q e ?u u1"
    using cancel_begin_ok [OF r(1)] a by blast
  then obtain e1 where e1: "user_inv u1" "subs u1 q = Some e1" "user_sub e1 = None" "same_view {q} ?u u1" "pSuicideEvent u1 = Some q"
    by (auto simp: canceling_def)
  obtain u2 where u2: "db_cancel_event_end q u1 = Some u2" "subs u2 = (subs u1)(q := None)" "same_view {q} u1 u2"
      "pSuicideEvent u2 = pSuicideEvent u1"
    using cancel_end_ok [OF e1(1-3)] by blast
  have "ev_step True s (s\<lparr>ev_user := u2\<rparr>)"
    by (rule ev_step.cancel_in_call [OF assms(2) _ assms(3) u1(1) u2(1)]) simp
  then show ?thesis
    using u2(2-4) e1(4,5) by (intro exI [of _ "s\<lparr>ev_user := u2\<rparr>"]) (simp add: same_view_def)
qed

lemma active_view:
  assumes "active s p e" "map_option view (subs (ev_user s') p) = map_option view (subs (ev_user s) p)"
  shows "\<exists>e'. active s' p e'"
  using assms by (cases "subs (ev_user s') p") (auto simp: active_def view_def)

text \<open>
  C39: \<^verbatim>\<open>event_read\<close> can use a freed subscription. Whenever the event task is in the routine of a subscription and
  there is another one, the routine can cancel its own and then the other, and the event task then reads the
  freed one on return, since \<^verbatim>\<open>pSuicideEvent\<close> holds the last subscription cancelled. If it cancels the other one
  only, \<^verbatim>\<open>pSuicideEvent\<close> keeps the address of that freed subscription after the return.\<close>

theorem cancel_other_uses_freed:
  assumes "ev_reach True s" "ev_task s = Calling k p l" "active s p e" "active s q e'" "p \<noteq> q"
  shows "(\<exists>s1 s2. ev_step True s s1 \<and> subs (ev_user s1) p = None \<and> ev_step True s1 s2 \<and> subs (ev_user s2) q = None \<and>
      ev_task s2 = Calling k p l \<and> event_task_step (ev_task s2) (ev_user s2) = None) \<and>
    (\<exists>s1 t' u'. ev_step True s s1 \<and> event_task_step (ev_task s1) (ev_user s1) = Some (t', u') \<and>
      pSuicideEvent u' = Some q \<and> subs u' q = None)"
proof (rule conjI)
  obtain s1 where s1: "ev_step True s s1" "ev_task s1 = Calling k p l" "subs (ev_user s1) p = None"
      "\<And>p'. p' \<noteq> p \<Longrightarrow> map_option view (subs (ev_user s1) p') = map_option view (subs (ev_user s) p')"
    using call_cancels [OF assms(1,2,3)] assms(2) by auto
  have r1: "ev_reach True s1" by (rule ev_reach.step [OF assms(1) s1(1)])
  obtain e1 where "active s1 q e1" using active_view [OF assms(4) s1(4)] assms(5) by blast
  from call_cancels [OF r1 s1(2) this] obtain s2 where s2: "ev_step True s1 s2" "ev_task s2 = Calling k p l"
      "subs (ev_user s2) q = None" "pSuicideEvent (ev_user s2) = Some q"
      "\<And>p'. p' \<noteq> q \<Longrightarrow> map_option view (subs (ev_user s2) p') = map_option view (subs (ev_user s1) p')"
    using s1(2) by auto
  have "subs (ev_user s2) p = None" using s2(5) [OF assms(5)] s1(3) by simp
  then have "event_task_step (ev_task s2) (ev_user s2) = None"
    using s2(2,4) assms(5) by (simp add: event_task_step_def event_read_called_def)
  with s1(1,3) s2(1-3) show "\<exists>s1 s2. ev_step True s s1 \<and> subs (ev_user s1) p = None \<and> ev_step True s1 s2 \<and>
      subs (ev_user s2) q = None \<and> ev_task s2 = Calling k p l \<and> event_task_step (ev_task s2) (ev_user s2) = None"
    by blast
next
  obtain s1 where s1: "ev_step True s s1" "ev_task s1 = Calling k p l" "subs (ev_user s1) q = None"
      "pSuicideEvent (ev_user s1) = Some q"
      "\<And>p'. p' \<noteq> q \<Longrightarrow> map_option view (subs (ev_user s1) p') = map_option view (subs (ev_user s) p')"
    using call_cancels [OF assms(1,2,4)] assms(2) by auto
  obtain e1 where "subs (ev_user s1) p = Some e1" using active_view [OF assms(3) s1(5)] assms(5) by (auto simp: active_def)
  then show "\<exists>s1 t' u'. ev_step True s s1 \<and> event_task_step (ev_task s1) (ev_user s1) = Some (t', u') \<and>
      pSuicideEvent u' = Some q \<and> subs u' q = None"
    using s1 assms(5) by (intro exI [of _ s1]) (simp add: event_task_step_def event_read_called_def)
qed

text \<open>The event task gets to a call.\<close>

lemma ev_step_others: "ev_step False s s' \<Longrightarrow> ev_step True s s'"
  by (induction rule: ev_step.induct) (blast intro: ev_step.intros)+

lemma ev_reach_others: "ev_reach False s \<Longrightarrow> ev_reach True s"
  by (induction rule: ev_reach.induct) (blast intro: ev_reach.intros ev_step_others)+

lemma reach_task:
  assumes "ev_reach others s" "event_task_step (ev_task s) (ev_user s) = Some (t', u')"
  obtains s' where "ev_reach others s'" "ev_task s' = t'" "ev_user s' = u'"
  using ev_reach.step [OF assms(1) ev_step.task [OF assms(2)]] by (rule that) simp_all

lemma task_calls:
  fixes s :: "'v ev_run"
  assumes "only_subs P s" "conts (ev_user s) 0 \<noteq> []" "canceled (conts (ev_user s) 0) = 0"
  shows "\<exists>(s' :: 'v ev_run) p l. ev_reach False s' \<and> ev_task s' = Calling 0 p l \<and> p \<in> P \<and> (\<forall>q \<in> P. \<exists>e. active s' q e)"
proof -
  let ?u = "ev_user s"
  let ?u1 = "?u\<lparr>ppendsem := False\<rparr>"
  have o: "ev_reach False s" "length (ques ?u) = 1" "\<not> flowCtrlMode ?u" "ev_task s = Waiting" "dom (subs ?u) = P"
      "\<And>p e. subs ?u p = Some e \<Longrightarrow> user_sub e \<noteq> None"
    using assms(1) by (auto simp: only_subs_def)
  have "ppendsem ?u" using run_invD(2) [OF ev_reach_inv [OF o(1)]] o(2-4) assms(2) by (auto simp: wake_inv_def)
  then have "event_task_step (ev_task s) ?u = Some (Next_que 0, ?u1)" using o(4) by (simp add: event_task_step_def)
  from reach_task [OF o(1) this] obtain s1 where s1: "ev_reach False s1" "ev_task s1 = Next_que 0" "ev_user s1 = ?u1" .
  then have "event_task_step (ev_task s1) (ev_user s1) = Some (Reading 0, ?u1)" using o(2,3) by (simp add: event_task_step_def)
  from reach_task [OF s1(1) this] obtain s2 where s2: "ev_reach False s2" "ev_task s2 = Reading 0" "ev_user s2 = ?u1" .
  have "user_inv ?u1" using run_invD(1) [OF ev_reach_inv [OF s2(1)]] s2(3) by simp
  then obtain t' u' where t: "event_read_turn 0 ?u1 = Some (t', u')" "read_step 0 ?u1 t' u'"
    using turn_ok [of ?u1 0] o(2) by auto
  then have "event_task_step (ev_task s2) (ev_user s2) = Some (t', u')" using s2 by (simp add: event_task_step_def)
  from reach_task [OF s2(1) this] obtain s3 where s3: "ev_reach False s3" "ev_task s3 = t'" "ev_user s3 = u'" .
  have "fst x \<noteq> canceledEvent" if "conts ?u 0 = x # L" for x L using that assms(3) by (auto simp: canceled_def)
  with t(2) assms(2) obtain p l e e' where c: "t' = Calling 0 p l" "same_view {p} ?u u'" "subs ?u p = Some e"
      "subs u' p = Some e'" "user_sub e' \<noteq> None"
    unfolding read_step_def by (auto simp: same_view_def)
  have "\<exists>e. active s3 q e" if q: "q \<in> P" for q
  proof (cases "q = p")
    case False
    obtain e0 where e0: "subs ?u q = Some e0" using q o(5) by auto
    then have "active s q e0" using o(6) by (simp add: active_def)
    then show ?thesis using active_view [of s q e0 s3] c(2) s3(3) False by (simp add: same_view_def)
  qed (use c s3(3) in \<open>simp add: active_def\<close>)
  moreover have "p \<in> P" using c(3) o(5) by auto
  ultimately show ?thesis using s3(1,2) c(1) by blast
qed

theorem cancel_other_uses_freed_witness:
  "\<exists>(s :: nat ev_run) s1 s2. ev_reach True s \<and> ev_step True s s1 \<and> ev_step True s1 s2 \<and>
     event_task_step (ev_task s2) (ev_user s2) = None"
proof -
  obtain s0 :: "nat ev_run" where s0: "only_subs {1} s0" "length (conts (ev_user s0) 0) = 1" "canceled (conts (ev_user s0) 0) = 0"
    using many_posts [of 1] by auto
  obtain s1 :: "nat ev_run" where s1: "only_subs {2, 1} s1" "conts (ev_user s1) 0 = conts (ev_user s0) 0"
    using only_add [OF s0(1), of 2] s0(3) by auto
  have "conts (ev_user s1) 0 \<noteq> []" using s0(2) s1(2) by auto
  then obtain s :: "nat ev_run" and p l where s: "ev_reach False s" "ev_task s = Calling 0 p l" "p \<in> {2, 1}"
      "\<forall>q \<in> {2, 1}. \<exists>e. active s q e"
    using task_calls [OF s1(1)] s1(2) s0(3) by metis
  define q where "q = (if p = 1 then 2 else 1 :: addr)"
  have q: "p \<noteq> q" "q \<in> {2, 1}" using s(3) by (auto simp: q_def)
  then obtain e e' where "active s p e" "active s q e'" using s(3,4) by blast
  with cancel_other_uses_freed [OF ev_reach_others [OF s(1)] s(2) _ _ q(1)] ev_reach_others [OF s(1)] show ?thesis by blast
qed

end
