(* ===== verification/DbRecord.thy ===== *)
theory DbRecord
  imports CalcPerform
begin

unbundle bit_operations_syntax

text \<open>
  The record database of an IOC as its processing code sees it: \<^verbatim>\<open>dbCommon\<close> and the fields of
  the \<^verbatim>\<open>calc\<close> and \<^verbatim>\<open>calcout\<close> record types, links, and the state that processing changes besides
  records (posted monitor events, the \<^verbatim>\<open>scanOnce\<close> queue, delayed callbacks, process-notify
  requests). Operations are state transformers that may crash (a failed \<^verbatim>\<open>assert\<close>, undefined
  behaviour) and, for the recursion of record processing, run out of fuel.
\<close>

section \<open>Fields and links\<close>

datatype ms_mode = NMS | MS | MSI | MSS

datatype db_field =
  VAL | ARG nat | OVAL | HIHI | LOLO | HIGH | LOW | PROC | DISP | DISA
| STAT | SEVR | ACKS | ACKT | DLYA

datatype dbf_value = V_double double | V_uchar byte | V_short uint16 | V_ushort uint16

datatype dbr_put =
  Put_double double | Put_short uint16 | DBR_PUT_ACKT uint16 | DBR_PUT_ACKS uint16

text \<open>
  A link without support table, a constant, or a database link: the record and field it
  points to, the process-passive flag and the severity mode of \<^verbatim>\<open>pvlMask\<close>.
\<close>

datatype link = NO_LSET | CONST_LINK | DB_LINK nat db_field bool ms_mode

datatype rset = NO_RSET | calcRSET | calcoutRSET

datatype dset = NO_DSET | devCalcoutSoft

record epicsTimeStamp =
  secPastEpoch :: uint32
  nsec :: uint32

record dbCommon =
  scan :: uint16
  pact :: bool
  putf :: bool
  rpro :: bool
  lcnt :: byte
  disp_f :: byte
  proc_f :: byte
  disa :: uint16
  disv :: uint16
  diss :: uint16
  stat :: uint16
  sevr :: uint16
  nsta :: uint16
  nsev :: uint16
  acks :: uint16
  ackt :: uint16
  udf :: bool
  udfs :: uint16
  tse :: uint16
  tse_time :: bool           \<comment> \<open>\<^verbatim>\<open>DBLINK_FLAG_TSELisTIME\<close> of the link \<^verbatim>\<open>TSEL\<close>\<close>
  time :: epicsTimeStamp
  sdis :: link
  tsel :: link
  flnk :: link
  mlis :: nat                \<comment> \<open>the number of subscriptions\<close>
  rset :: rset
  dset :: dset
  ppn :: "nat option"        \<comment> \<open>the process-notify that owns the record\<close>
  wait_on :: bool            \<comment> \<open>\<^verbatim>\<open>ppnr->waitNode.isOnList\<close>\<close>
  restartList :: "nat list"

record calcRecord = dbCommon +
  val :: double
  rpcl :: "byte list"
  inp :: "link list"
  args :: "double list"
  la :: "double list"
  hihi :: double
  lolo :: double
  high :: double
  low :: double
  hhsv :: uint16
  llsv :: uint16
  hsv :: uint16
  lsv :: uint16
  aftc :: double
  afvl :: double
  hyst :: double
  adel :: double
  mdel :: double
  lalm :: double
  alst :: double
  mlst :: double

text \<open>What a \<^verbatim>\<open>calcout\<close> record has beside; a \<^verbatim>\<open>calc\<close> record does not use these fields.\<close>

record calcoutRecord = calcRecord +
  pval :: double
  oval :: double
  povl :: double
  out :: link
  oopt :: uint16
  odly :: double
  dlya :: bool
  dopt :: uint16
  orpc :: "byte list"
  epvt :: "nat option"
  ivoa :: uint16
  ivov :: double

type_synonym dbrec = calcoutRecord

datatype notifyState =
  notifyNotActive | notifyWaitForRestart | notifyRestartCallbackRequested | notifyRestartInProgress
| notifyProcessInProgress | notifyUserCallbackRequested | notifyUserCallbackActive

datatype notifyRequestType =
  processRequest | putProcessRequest | processGetRequest | putProcessGetRequest

datatype notifyStatus = notifyOK | notifyCanceled | notifyError | notifyPutDisabled

text \<open>A process-notify request, with the \<^verbatim>\<open>notifyPvt\<close> that it has while it is in use.\<close>

record processNotify =
  pn_state :: notifyState
  waitList :: "nat list"
  pn_chan :: nat             \<comment> \<open>the record of \<^verbatim>\<open>chan\<close>\<close>
  pn_field :: db_field       \<comment> \<open>the field of \<^verbatim>\<open>chan\<close>\<close>
  pn_value :: dbr_put        \<comment> \<open>what the client puts\<close>
  pn_got :: "dbf_value option"   \<comment> \<open>what the client got\<close>
  requestType :: notifyRequestType
  pn_status :: notifyStatus
  wasProcessed :: bool
  restart_on :: bool         \<comment> \<open>\<^verbatim>\<open>restartNode.isOnList\<close>\<close>
  pvt :: bool                \<comment> \<open>\<^verbatim>\<open>pnotifyPvt\<close> is not null\<close>
  cancelWait :: bool
  userCallbackWait :: bool
  cancelEvent :: bool
  userCallbackEvent :: bool

text \<open>
  Beside the state of the code, \<^typ>\<open>nat\<close> numbers of requests: those whose \<^verbatim>\<open>doneCallback\<close> is
  running, those for which a call of \<^verbatim>\<open>dbNotifyCancel()\<close> or \<^verbatim>\<open>dbProcessNotify()\<close> is blocked (with
  the request whose \<^verbatim>\<open>doneCallback\<close> made the call, if one did), and the history of the requests.
\<close>

datatype notify_event = Requested | Completed | Canceled

record db =
  recs :: "dbrec list"
  pns :: "processNotify list"
  notify_cbs :: "nat list"   \<comment> \<open>process-notify callbacks requested\<close>
  posts :: "(nat \<times> db_field option \<times> uint16) list"   \<comment> \<open>\<^verbatim>\<open>None\<close>: the null field pointer\<close>
  onceQ :: "nat list"
  delayed :: "nat list"      \<comment> \<open>records with a delayed \<^verbatim>\<open>ProcessCallback\<close>\<close>
  soft_events :: "nat list"
  ticks :: nat               \<comment> \<open>time stamps taken so far\<close>
  calc_seed :: uint16
  calling :: "nat list"
  cancellers :: "(nat \<times> nat option) list"
  restarters :: "(nat \<times> nat option) list"
  notify_log :: "(nat \<times> notify_event) list"

section \<open>Parameters\<close>

text \<open>
  Floating point beyond \<^typ>\<open>fp_ops\<close>, the contents of the uninitialised stack of
  \<^verbatim>\<open>calcPerform()\<close>, the time provider (\<open>None\<close>: it fails) and the length of the
  \<^verbatim>\<open>scanOnce\<close> queue.
\<close>

record env =
  fp :: fp_ops
  fp_inf :: double
  fp_threshold :: double                   \<comment> \<open>0.6321\<close>
  fp_floor_int :: "double \<Rightarrow> int"          \<comment> \<open>\<^verbatim>\<open>(int)floor(x)\<close>\<close>
  fp_to_int16 :: "double \<Rightarrow> uint16"
  fp_to_uint8 :: "double \<Rightarrow> byte"
  junk :: "double list"
  time_event :: "uint16 \<Rightarrow> nat \<Rightarrow> epicsTimeStamp option"
  time_diff :: "epicsTimeStamp \<Rightarrow> epicsTimeStamp \<Rightarrow> double"
  onceQueueSize :: nat

section \<open>State transformers\<close>

datatype fault = Assert_fault | Calc_fault calc_fault | Range_fault | Field_fault

datatype 'a res = Done 'a db | Crash fault | NoFuel

type_synonym 'a dbm = "db \<Rightarrow> 'a res"

definition dret :: "'a \<Rightarrow> 'a dbm" where
  "dret x = (\<lambda>s. Done x s)"

definition dbind :: "'a dbm \<Rightarrow> ('a \<Rightarrow> 'b dbm) \<Rightarrow> 'b dbm" where
  "dbind m k = (\<lambda>s. case m s of Done x s' \<Rightarrow> k x s' | Crash f \<Rightarrow> Crash f | NoFuel \<Rightarrow> NoFuel)"

definition dthen :: "unit dbm \<Rightarrow> 'a dbm \<Rightarrow> 'a dbm" where
  "dthen m k = dbind m (\<lambda>_. k)"

definition dcrash :: "fault \<Rightarrow> 'a dbm" where
  "dcrash f = (\<lambda>s. Crash f)"

definition dwhen :: "bool \<Rightarrow> unit dbm \<Rightarrow> unit dbm" where
  "dwhen b m = (if b then m else dret ())"

definition dassert :: "bool \<Rightarrow> unit dbm" where
  "dassert b = (if b then dret () else dcrash Assert_fault)"

definition dget :: "(db \<Rightarrow> 'a) \<Rightarrow> 'a dbm" where
  "dget f = (\<lambda>s. Done (f s) s)"

definition dmod :: "(db \<Rightarrow> db) \<Rightarrow> unit dbm" where
  "dmod f = (\<lambda>s. Done () (f s))"

lemma dbind_assoc: "dbind (dbind m k) l = dbind m (\<lambda>x. dbind (k x) l)"
  by (rule ext) (simp add: dbind_def split: res.split)

text \<open>Field access through a record pointer.\<close>

definition getr :: "nat \<Rightarrow> (dbrec \<Rightarrow> 'a) \<Rightarrow> 'a dbm" where
  "getr r f = dget (\<lambda>s. f (recs s ! r))"

definition upd_rec :: "nat \<Rightarrow> (dbrec \<Rightarrow> dbrec) \<Rightarrow> db \<Rightarrow> db" where
  "upd_rec r f s = s\<lparr>recs := (recs s)[r := f (recs s ! r)]\<rparr>"

definition updr :: "nat \<Rightarrow> (dbrec \<Rightarrow> dbrec) \<Rightarrow> unit dbm" where
  "updr r f = dmod (upd_rec r f)"

definition upd_pn :: "nat \<Rightarrow> (processNotify \<Rightarrow> processNotify) \<Rightarrow> db \<Rightarrow> db" where
  "upd_pn p f s = s\<lparr>pns := (pns s)[p := f (pns s ! p)]\<rparr>"

text \<open>Monitor events are handed to the event queues; here they are recorded.\<close>

definition post_monitor :: "nat \<Rightarrow> db_field option \<Rightarrow> uint16 \<Rightarrow> unit dbm" where
  "post_monitor r f ev = dmod (\<lambda>s. s\<lparr>posts := posts s @ [(r, f, ev)]\<rparr>)"

named_theorems db_simps \<open>evaluation of state transformers\<close>

lemmas dbm_defs = dret_def dbind_def dthen_def dcrash_def dwhen_def dassert_def dget_def dmod_def
  getr_def updr_def post_monitor_def

lemma run_getr [db_simps]: "dbind (getr r f) k s = k (f (recs s ! r)) s"
  by (simp add: dbind_def getr_def dget_def)

lemma run_dget [db_simps]: "dbind (dget f) k s = k (f s) s"
  by (simp add: dbind_def dget_def)

lemma run_updr [db_simps]: "dthen (updr r f) k s = k (upd_rec r f s)"
  by (simp add: dthen_def dbind_def updr_def dmod_def)

lemma run_dmod [db_simps]: "dthen (dmod f) k s = k (f s)"
  by (simp add: dthen_def dbind_def dmod_def)

lemma upd_rec_simps [simp]:
  "length (recs (upd_rec r f s)) = length (recs s)"
  "pns (upd_rec r f s) = pns s" "notify_cbs (upd_rec r f s) = notify_cbs s"
  "onceQ (upd_rec r f s) = onceQ s" "delayed (upd_rec r f s) = delayed s"
  "posts (upd_rec r f s) = posts s" "calling (upd_rec r f s) = calling s"
  "cancellers (upd_rec r f s) = cancellers s" "restarters (upd_rec r f s) = restarters s"
  "notify_log (upd_rec r f s) = notify_log s"
  by (simp_all add: upd_rec_def)

lemma recs_upd_rec [simp]:
  "x < length (recs s) \<Longrightarrow>
   recs (upd_rec r f s) ! x = (if x = r then f (recs s ! r) else recs s ! x)"
  by (auto simp: upd_rec_def nth_list_update)

lemma upd_pn_simps [simp]:
  "recs (upd_pn p f s) = recs s" "length (pns (upd_pn p f s)) = length (pns s)"
  "notify_cbs (upd_pn p f s) = notify_cbs s" "onceQ (upd_pn p f s) = onceQ s"
  "delayed (upd_pn p f s) = delayed s" "posts (upd_pn p f s) = posts s"
  "calling (upd_pn p f s) = calling s" "cancellers (upd_pn p f s) = cancellers s"
  "restarters (upd_pn p f s) = restarters s" "notify_log (upd_pn p f s) = notify_log s"
  by (simp_all add: upd_pn_def)

lemma pns_upd_pn [simp]:
  "q < length (pns s) \<Longrightarrow>
   pns (upd_pn p f s) ! q = (if q = p then f (pns s ! p) else pns s ! q)"
  by (auto simp: upd_pn_def nth_list_update)

section \<open>Alarm severities, states and event masks\<close>

definition INVALID_ALARM :: uint16 where "INVALID_ALARM = 3"
definition HIHI_ALARM :: uint16 where "HIHI_ALARM = 3"
definition HIGH_ALARM :: uint16 where "HIGH_ALARM = 4"
definition LOLO_ALARM :: uint16 where "LOLO_ALARM = 5"
definition LOW_ALARM :: uint16 where "LOW_ALARM = 6"
definition CALC_ALARM :: uint16 where "CALC_ALARM = 12"
definition SCAN_ALARM :: uint16 where "SCAN_ALARM = 13"
definition LINK_ALARM :: uint16 where "LINK_ALARM = 14"
definition SOFT_ALARM :: uint16 where "SOFT_ALARM = 15"
definition UDF_ALARM :: uint16 where "UDF_ALARM = 17"
definition DISABLE_ALARM :: uint16 where "DISABLE_ALARM = 18"

definition DBE_VALUE :: uint16 where "DBE_VALUE = 1"
definition DBE_LOG :: uint16 where "DBE_LOG = 2"
definition DBE_ALARM :: uint16 where "DBE_ALARM = 4"
definition DBE_PROPERTY :: uint16 where "DBE_PROPERTY = 8"

datatype db_status =
  OK | S_error | S_db_noMod | S_db_putDisabled | S_db_noRSET | S_db_noLSET

end
