(* ===== verification/RecGbl.thy ===== *)
theory RecGbl
  imports DbRecord
begin

unbundle bit_operations_syntax

text \<open>
  The alarm and monitor helpers of \<^verbatim>\<open>modules/database/src/ioc/db/recGbl.c\<close> that all record
  types share. The site hook \<^verbatim>\<open>recGblAlarmHook\<close> is not set.
\<close>

definition recGblSetSevr :: "nat \<Rightarrow> uint16 \<Rightarrow> uint16 \<Rightarrow> bool dbm" where
  "recGblSetSevr r new_stat new_sevr =
     dbind (getr r nsev) (\<lambda>cur.
     if cur < new_sevr
     then dthen (updr r (\<lambda>p. p\<lparr>nsta := new_stat, nsev := new_sevr\<rparr>)) (dret True)
     else dret False)"

definition raise_sevr :: "nat \<Rightarrow> uint16 \<Rightarrow> uint16 \<Rightarrow> unit dbm" where
  "raise_sevr r st sv = dbind (recGblSetSevr r st sv) (\<lambda>_. dret ())"

definition recGblInheritSevr :: "ms_mode \<Rightarrow> nat \<Rightarrow> uint16 \<Rightarrow> uint16 \<Rightarrow> unit dbm" where
  "recGblInheritSevr msMode r st sv =
     (case msMode of
        NMS \<Rightarrow> dret ()
      | MSI \<Rightarrow> if sv < INVALID_ALARM then dret () else raise_sevr r LINK_ALARM sv
      | MS \<Rightarrow> raise_sevr r LINK_ALARM sv
      | MSS \<Rightarrow> raise_sevr r st sv)"

definition recGblResetAlarms :: "nat \<Rightarrow> uint16 dbm" where
  "recGblResetAlarms r =
     dbind (getr r id) (\<lambda>p.
     let prev_stat = stat p; prev_sevr = sevr p; new_stat = nsta p;
         new_sevr = (if INVALID_ALARM < nsev p then INVALID_ALARM else nsev p) in
     dthen (updr r (\<lambda>p. p\<lparr>stat := new_stat, sevr := new_sevr, nsta := 0, nsev := 0\<rparr>))
     (dthen (dwhen (prev_sevr \<noteq> new_sevr) (post_monitor r (Some SEVR) DBE_VALUE))
     (let stat_mask = (if prev_sevr \<noteq> new_sevr then DBE_ALARM else 0) OR
            (if prev_stat \<noteq> new_stat then DBE_VALUE else 0) in
      if stat_mask = 0 then dret 0
      else
        dthen (post_monitor r (Some STAT) stat_mask)
        (dthen (dbind (getr r id) (\<lambda>p.
           dwhen (ackt p = 0 \<or> acks p \<le> new_sevr)
             (dthen (updr r (\<lambda>p. p\<lparr>acks := new_sevr\<rparr>)) (post_monitor r (Some ACKS) DBE_VALUE))))
        (dret DBE_ALARM)))))"

text \<open>The new values of \<^verbatim>\<open>*poldval\<close> and \<^verbatim>\<open>*monitor_mask\<close>.\<close>

definition recGblCheckDeadband ::
  "env \<Rightarrow> double \<Rightarrow> double \<Rightarrow> double \<Rightarrow> uint16 \<Rightarrow> uint16 \<Rightarrow> double \<times> uint16" where
  "recGblCheckDeadband e oldval newval deadband monitor_mask add_mask =
     (let f = fp e;
          delta =
            (if fp_finite f newval \<and> fp_finite f oldval then
               (let d = fp_arith f SUB oldval newval in
                if fp_lt f d 0 then fp_math f UNARY_NEG d else d)
             else if fp_isnan f newval \<noteq> fp_isnan f oldval \<or>
                     (fp_isinf f newval = 0) \<noteq> (fp_isinf f oldval = 0) then fp_inf e
             else if fp_isinf f newval \<noteq> 0 \<and> \<not> fp_eq f newval oldval then fp_inf e
             else 0)
      in if fp_lt f deadband delta then (newval, monitor_mask OR add_mask)
         else (oldval, monitor_mask))"

end
