(* ===== verification/DbNotify.thy ===== *)
theory DbNotify
  imports RecGbl
begin

text \<open>
  The part of \<^verbatim>\<open>modules/database/src/ioc/db/dbNotify.c\<close> that record processing calls. A
  process-notify request waits for the records of its \<^verbatim>\<open>waitList\<close>; a record that a request
  owns keeps the other requests for it on its \<^verbatim>\<open>restartList\<close>. The assertions of the source
  are kept; \<^verbatim>\<open>wait_on\<close> is the flag that \<^verbatim>\<open>ellSafeAdd\<close> and \<^verbatim>\<open>ellSafeDelete\<close> check.
\<close>

definition ellSafeAdd_wait :: "nat \<Rightarrow> nat \<Rightarrow> unit dbm" where
  "ellSafeAdd_wait p r =
     dbind (getr r wait_on) (\<lambda>on.
     dthen (dassert (\<not> on))
     (dthen (dmod (upd_pn p (\<lambda>n. n\<lparr>waitList := waitList n @ [r]\<rparr>)))
     (updr r (\<lambda>c. c\<lparr>wait_on := True\<rparr>))))"

definition ellSafeDelete_wait :: "nat \<Rightarrow> nat \<Rightarrow> unit dbm" where
  "ellSafeDelete_wait p r =
     dbind (getr r wait_on) (\<lambda>on.
     dthen (dassert on)
     (dthen (dmod (upd_pn p (\<lambda>n. n\<lparr>waitList := remove1 r (waitList n)\<rparr>)))
     (updr r (\<lambda>c. c\<lparr>wait_on := False\<rparr>))))"

definition set_state :: "nat \<Rightarrow> notifyState \<Rightarrow> unit dbm" where
  "set_state p st = dmod (upd_pn p (\<lambda>n. n\<lparr>pn_state := st\<rparr>))"

definition get_pn :: "nat \<Rightarrow> (processNotify \<Rightarrow> 'a) \<Rightarrow> 'a dbm" where
  "get_pn p f = dget (\<lambda>s. f (pns s ! p))"

text \<open>The same for \<^verbatim>\<open>restartNode\<close>.\<close>

definition ellSafeAdd_restart :: "nat \<Rightarrow> nat \<Rightarrow> unit dbm" where
  "ellSafeAdd_restart r p =
     dbind (get_pn p restart_on) (\<lambda>on.
     dthen (dassert (\<not> on))
     (dthen (updr r (\<lambda>c. c\<lparr>restartList := restartList c @ [p]\<rparr>))
     (dmod (upd_pn p (\<lambda>n. n\<lparr>restart_on := True\<rparr>)))))"

definition ellSafeDelete_restart :: "nat \<Rightarrow> nat \<Rightarrow> unit dbm" where
  "ellSafeDelete_restart r p =
     dbind (get_pn p restart_on) (\<lambda>on.
     dthen (dassert on)
     (dthen (updr r (\<lambda>c. c\<lparr>restartList := remove1 p (restartList c)\<rparr>))
     (dmod (upd_pn p (\<lambda>n. n\<lparr>restart_on := False\<rparr>)))))"

definition callbackRequest :: "nat \<Rightarrow> unit dbm" where
  "callbackRequest p = dmod (\<lambda>s. s\<lparr>notify_cbs := notify_cbs s @ [p]\<rparr>)"

definition restartCheck :: "nat \<Rightarrow> unit dbm" where
  "restartCheck r =
     dbind (getr r ppn) (\<lambda>owner.
     dthen (dassert (owner \<noteq> None))
     (dbind (getr r restartList) (\<lambda>rl.
      case rl of
        [] \<Rightarrow> updr r (\<lambda>c. c\<lparr>ppn := None\<rparr>)
      | pfirst # _ \<Rightarrow>
          dbind (get_pn pfirst pn_state) (\<lambda>st.
          dthen (dassert (st = notifyWaitForRestart))
          (dthen (ellSafeDelete_restart r pfirst)
          (dthen (updr r (\<lambda>c. c\<lparr>ppn := Some pfirst\<rparr>))
          (dthen (set_state pfirst notifyRestartCallbackRequested)
          (callbackRequest pfirst))))))))"

definition dbNotifyCompletion :: "nat \<Rightarrow> unit dbm" where
  "dbNotifyCompletion r =
     dbind (getr r ppn) (\<lambda>owner.
     case owner of
       None \<Rightarrow> dcrash Assert_fault
     | Some p \<Rightarrow>
         dbind (get_pn p pn_state) (\<lambda>st.
         if st \<noteq> notifyRestartInProgress \<and> st \<noteq> notifyProcessInProgress then dret ()
         else
           dthen (ellSafeDelete_wait p r)
           (dbind (get_pn p waitList) (\<lambda>wl.
            if wl \<noteq> [] then restartCheck r
            else if st = notifyProcessInProgress then
              dthen (set_state p notifyUserCallbackRequested)
              (dthen (restartCheck r) (callbackRequest p))
            else
              dthen (set_state p notifyRestartCallbackRequested) (callbackRequest p)))))"

definition dbNotifyAdd :: "nat \<Rightarrow> nat \<Rightarrow> unit dbm" where
  "dbNotifyAdd pfrom pto =
     dbind (getr pto pact) (\<lambda>active.
     if active then dret ()
     else
       dbind (getr pfrom ppn) (\<lambda>owner.
       case owner of
         None \<Rightarrow> dcrash Assert_fault
       | Some p \<Rightarrow>
           dbind (getr pto ppn) (\<lambda>other.
           dbind (get_pn p id) (\<lambda>n.
           dwhen (other = None \<and> pn_state n = notifyProcessInProgress \<and> pto \<noteq> pn_chan n)
             (dthen (updr pto (\<lambda>c. c\<lparr>ppn := Some p\<rparr>)) (ellSafeAdd_wait p pto))))))"

end
