(* ===== verification/DbLink.thy ===== *)
theory DbLink
  imports DbNotify
begin

unbundle bit_operations_syntax

text \<open>
  Database links, \<^verbatim>\<open>modules/database/src/ioc/db/dbDbLink.c\<close> and \<^verbatim>\<open>dbLink.c\<close>, \<^verbatim>\<open>dbPut()\<close> of
  \<^verbatim>\<open>dbAccess.c\<close>, and the parts of \<^verbatim>\<open>recGbl.c\<close> that use links. A link may process the record it
  points to: \<open>proc\<close> stands for \<^verbatim>\<open>dbProcess()\<close>, with which these operations are recursive.
\<close>

section \<open>Field values\<close>

datatype dbr_type = DBR_DOUBLE | DBR_SHORT

definition get_field :: "db_field \<Rightarrow> dbrec \<Rightarrow> dbf_value" where
  "get_field f p =
     (case f of
        VAL \<Rightarrow> V_double (val p) | ARG i \<Rightarrow> V_double (args p ! i) | OVAL \<Rightarrow> V_double (oval p)
      | HIHI \<Rightarrow> V_double (hihi p) | LOLO \<Rightarrow> V_double (lolo p)
      | HIGH \<Rightarrow> V_double (high p) | LOW \<Rightarrow> V_double (low p)
      | PROC \<Rightarrow> V_uchar (proc_f p) | DISP \<Rightarrow> V_uchar (disp_f p) | DISA \<Rightarrow> V_short (disa p)
      | STAT \<Rightarrow> V_ushort (stat p) | SEVR \<Rightarrow> V_ushort (sevr p)
      | ACKS \<Rightarrow> V_ushort (acks p) | ACKT \<Rightarrow> V_ushort (ackt p)
      | DLYA \<Rightarrow> V_ushort (if dlya p then 1 else 0))"

text \<open>The conversions of \<^verbatim>\<open>dbFastLinkConv.c\<close> that are used.\<close>

definition cvt_double :: "env \<Rightarrow> dbf_value \<Rightarrow> double" where
  "cvt_double e v =
     (case v of
        V_double d \<Rightarrow> d
      | V_uchar b \<Rightarrow> fp_of_int32 (fp e) (ucast b)
      | V_short w \<Rightarrow> fp_of_int32 (fp e) (scast w)
      | V_ushort w \<Rightarrow> fp_of_int32 (fp e) (ucast w))"

definition cvt_short :: "env \<Rightarrow> dbf_value \<Rightarrow> uint16" where
  "cvt_short e v =
     (case v of
        V_double d \<Rightarrow> fp_to_int16 e d | V_uchar b \<Rightarrow> ucast b | V_short w \<Rightarrow> w | V_ushort w \<Rightarrow> w)"

definition put_double :: "env \<Rightarrow> dbr_put \<Rightarrow> double" where
  "put_double e v = (case v of Put_double d \<Rightarrow> d | Put_short w \<Rightarrow> fp_of_int32 (fp e) (scast w) | _ \<Rightarrow> 0)"

definition put_uchar :: "env \<Rightarrow> dbr_put \<Rightarrow> byte" where
  "put_uchar e v = (case v of Put_double d \<Rightarrow> fp_to_uint8 e d | Put_short w \<Rightarrow> ucast w | _ \<Rightarrow> 0)"

definition put_short :: "env \<Rightarrow> dbr_put \<Rightarrow> uint16" where
  "put_short e v = (case v of Put_double d \<Rightarrow> fp_to_int16 e d | Put_short w \<Rightarrow> w | _ \<Rightarrow> 0)"

definition set_field :: "env \<Rightarrow> db_field \<Rightarrow> dbr_put \<Rightarrow> dbrec \<Rightarrow> dbrec" where
  "set_field e f v p =
     (case f of
        VAL \<Rightarrow> p\<lparr>val := put_double e v\<rparr> | ARG i \<Rightarrow> p\<lparr>args := (args p)[i := put_double e v]\<rparr>
      | OVAL \<Rightarrow> p\<lparr>oval := put_double e v\<rparr>
      | HIHI \<Rightarrow> p\<lparr>hihi := put_double e v\<rparr> | LOLO \<Rightarrow> p\<lparr>lolo := put_double e v\<rparr>
      | HIGH \<Rightarrow> p\<lparr>high := put_double e v\<rparr> | LOW \<Rightarrow> p\<lparr>low := put_double e v\<rparr>
      | PROC \<Rightarrow> p\<lparr>proc_f := put_uchar e v\<rparr> | DISP \<Rightarrow> p\<lparr>disp_f := put_uchar e v\<rparr>
      | DISA \<Rightarrow> p\<lparr>disa := put_short e v\<rparr>
      | _ \<Rightarrow> p)"

text \<open>The properties of the field descriptions (the \<^verbatim>\<open>.dbd\<close> files).\<close>

definition spc_nomod :: "db_field \<Rightarrow> bool" where
  "spc_nomod f \<longleftrightarrow> f \<in> {STAT, SEVR, ACKS, ACKT, DLYA}"

definition process_passive :: "db_field \<Rightarrow> bool" where
  "process_passive f \<longleftrightarrow>
     (case f of ARG i \<Rightarrow> True | PROC \<Rightarrow> True | HIHI \<Rightarrow> True | LOLO \<Rightarrow> True | HIGH \<Rightarrow> True | LOW \<Rightarrow> True
      | _ \<Rightarrow> False)"

definition prop_field :: "db_field \<Rightarrow> bool" where
  "prop_field f \<longleftrightarrow> f \<in> {HIHI, LOLO, HIGH, LOW}"

section \<open>Putting a value\<close>

definition putAckt :: "nat \<Rightarrow> uint16 \<Rightarrow> db_status dbm" where
  "putAckt r ptrans =
     dbind (getr r ackt) (\<lambda>old.
     if ptrans = old then dret OK
     else
       dthen (updr r (\<lambda>p. p\<lparr>ackt := ptrans\<rparr>))
       (dthen (post_monitor r (Some ACKT) (DBE_VALUE OR DBE_ALARM))
       (dthen (dbind (getr r id) (\<lambda>p.
          dwhen (ackt p = 0 \<and> sevr p < acks p)
            (dthen (updr r (\<lambda>p. p\<lparr>acks := sevr p\<rparr>))
            (post_monitor r (Some ACKS) (DBE_VALUE OR DBE_ALARM)))))
       (dthen (post_monitor r None DBE_ALARM) (dret OK)))))"

definition putAcks :: "nat \<Rightarrow> uint16 \<Rightarrow> db_status dbm" where
  "putAcks r psev =
     dbind (getr r acks) (\<lambda>a.
     dthen (dwhen (a \<le> psev)
       (dthen (updr r (\<lambda>p. p\<lparr>acks := 0\<rparr>))
       (dthen (post_monitor r (Some ACKS) (DBE_VALUE OR DBE_ALARM))
       (post_monitor r None DBE_ALARM))))
     (dret OK))"

definition dbPut :: "env \<Rightarrow> nat \<Rightarrow> db_field \<Rightarrow> dbr_put \<Rightarrow> db_status dbm" where
  "dbPut e r f v =
     (case v of
        DBR_PUT_ACKT w \<Rightarrow> putAckt r w
      | DBR_PUT_ACKS w \<Rightarrow> putAcks r w
      | _ \<Rightarrow>
        if spc_nomod f then dret S_db_noMod
        else
          dthen (updr r (set_field e f v))
          (dthen (dwhen (f = VAL) (updr r (\<lambda>p. p\<lparr>udf := False\<rparr>)))
          (dbind (getr r mlis) (\<lambda>n.
           dthen (dwhen (n \<noteq> 0 \<and> \<not> (f = VAL \<and> process_passive f))
             (post_monitor r (Some f) (DBE_VALUE OR DBE_LOG)))
           (dthen (dwhen (n \<noteq> 0 \<and> prop_field f) (post_monitor r None DBE_PROPERTY))
           (dret OK))))))"

section \<open>Processing through a link\<close>

type_synonym process_fun = "nat \<Rightarrow> db_status dbm"

text \<open>Without the trace output and the warning about a stray \<^verbatim>\<open>PUTF\<close>.\<close>

definition processTarget :: "process_fun \<Rightarrow> nat \<Rightarrow> nat \<Rightarrow> db_status dbm" where
  "processTarget proc psrc pdst =
     dbind (getr psrc pact) (\<lambda>pact0.
     dthen (updr psrc (\<lambda>p. p\<lparr>pact := True\<rparr>))
     (dbind (getr psrc ppn) (\<lambda>owner.
      dthen (dwhen (owner \<noteq> None) (dbNotifyAdd psrc pdst))
      (dbind (getr pdst pact) (\<lambda>busy.
       dbind (getr psrc putf) (\<lambda>put.
       dthen (if \<not> busy then updr pdst (\<lambda>p. p\<lparr>putf := put\<rparr>)
              else if put then updr pdst (\<lambda>p. p\<lparr>putf := False, rpro := True\<rparr>)
              else dret ())
       (dbind (proc pdst) (\<lambda>status.
        dthen (updr psrc (\<lambda>p. p\<lparr>pact := pact0\<rparr>)) (dret status)))))))))"

definition dbScanPassive :: "process_fun \<Rightarrow> nat \<Rightarrow> nat \<Rightarrow> db_status dbm" where
  "dbScanPassive proc pfrom pto =
     dbind (getr pto scan) (\<lambda>sc. if sc \<noteq> 0 then dret OK else processTarget proc pfrom pto)"

text \<open>
  The value read, already converted, or \<open>None\<close> where the buffer is left alone. The record
  \<open>r\<close> owns the link.
\<close>

definition dbDbGetValue ::
  "process_fun \<Rightarrow> nat \<Rightarrow> nat \<Rightarrow> db_field \<Rightarrow> bool \<Rightarrow> ms_mode \<Rightarrow> (db_status \<times> dbf_value option) dbm" where
  "dbDbGetValue proc r t f pp ms =
     dbind (if pp then dbScanPassive proc r t else dret OK) (\<lambda>status.
     if status \<noteq> OK then dret (status, None)
     else
       dbind (getr t id) (\<lambda>p.
       dthen (dwhen (r \<noteq> t) (recGblInheritSevr ms r (stat p) (sevr p)))
       (dret (OK, Some (get_field f p)))))"

definition dbTryGetLink :: "process_fun \<Rightarrow> nat \<Rightarrow> link \<Rightarrow> (db_status \<times> dbf_value option) dbm" where
  "dbTryGetLink proc r lk =
     (case lk of
        NO_LSET \<Rightarrow> dret (S_db_noLSET, None)
      | CONST_LINK \<Rightarrow> dret (OK, None)
      | DB_LINK t f pp ms \<Rightarrow> dbDbGetValue proc r t f pp ms)"

definition dbGetLink :: "process_fun \<Rightarrow> nat \<Rightarrow> link \<Rightarrow> (db_status \<times> dbf_value option) dbm" where
  "dbGetLink proc r lk =
     dbind (dbTryGetLink proc r lk) (\<lambda>(status, v).
     if status = S_db_noLSET then dret (S_error, None)
     else dthen (dwhen (status \<noteq> OK) (raise_sevr r LINK_ALARM INVALID_ALARM)) (dret (status, v)))"

definition dbDbPutValue ::
  "env \<Rightarrow> process_fun \<Rightarrow> nat \<Rightarrow> nat \<Rightarrow> db_field \<Rightarrow> bool \<Rightarrow> ms_mode \<Rightarrow> dbr_put \<Rightarrow> db_status dbm" where
  "dbDbPutValue e proc r t f pp ms v =
     dbind (dbPut e t f v) (\<lambda>status.
     dbind (getr r id) (\<lambda>p.
     dthen (recGblInheritSevr ms t (nsta p) (nsev p))
     (if status \<noteq> OK then dret status
      else
        dbind (getr t scan) (\<lambda>sc.
        if f = PROC \<or> (pp \<and> sc = 0) then processTarget proc r t else dret status))))"

definition dbPutLink :: "env \<Rightarrow> process_fun \<Rightarrow> nat \<Rightarrow> link \<Rightarrow> dbr_put \<Rightarrow> db_status dbm" where
  "dbPutLink e proc r lk v =
     (case lk of
        NO_LSET \<Rightarrow> dret S_db_noLSET
      | CONST_LINK \<Rightarrow> dret OK
      | DB_LINK t f pp ms \<Rightarrow>
          dbind (dbDbPutValue e proc r t f pp ms v) (\<lambda>status.
          dthen (dwhen (status \<noteq> OK) (raise_sevr r LINK_ALARM INVALID_ALARM)) (dret status)))"

definition dbScanFwdLink :: "process_fun \<Rightarrow> nat \<Rightarrow> link \<Rightarrow> unit dbm" where
  "dbScanFwdLink proc r lk =
     (case lk of
        DB_LINK t f pp ms \<Rightarrow> dbind (dbScanPassive proc r t) (\<lambda>_. dret ())
      | _ \<Rightarrow> dret ())"

section \<open>Completion of processing\<close>

text \<open>\<^verbatim>\<open>scanOnce()\<close>: a full queue drops the request; the result tells whether it did.\<close>

definition scanOnce :: "env \<Rightarrow> nat \<Rightarrow> bool dbm" where
  "scanOnce e r =
     dbind (dget onceQ) (\<lambda>q.
     if length q < onceQueueSize e then dthen (dmod (\<lambda>s. s\<lparr>onceQ := q @ [r]\<rparr>)) (dret False)
     else dret True)"

definition recGblFwdLink :: "env \<Rightarrow> process_fun \<Rightarrow> nat \<Rightarrow> unit dbm" where
  "recGblFwdLink e proc r =
     dbind (getr r flnk) (\<lambda>lk.
     dthen (dbScanFwdLink proc r lk)
     (dbind (getr r ppn) (\<lambda>owner.
      dthen (dwhen (owner \<noteq> None) (dbNotifyCompletion r))
      (dbind (getr r rpro) (\<lambda>again.
       dthen (dwhen again
         (dthen (updr r (\<lambda>p. p\<lparr>rpro := False\<rparr>)) (dbind (scanOnce e r) (\<lambda>_. dret ()))))
       (updr r (\<lambda>p. p\<lparr>putf := False\<rparr>)))))))"

text \<open>\<^verbatim>\<open>epicsTimeEventDeviceTime\<close> is \<open>-2\<close>. A provider that fails leaves the time stamp alone.\<close>

definition recGblGetTimeStamp :: "env \<Rightarrow> process_fun \<Rightarrow> nat \<Rightarrow> unit dbm" where
  "recGblGetTimeStamp e proc r =
     dbind (getr r id) (\<lambda>p.
     case (tsel p, tse_time p) of
       (DB_LINK t f pp ms, True) \<Rightarrow> dbind (getr t time) (\<lambda>ts. updr r (\<lambda>p. p\<lparr>time := ts\<rparr>))
     | (lk, _) \<Rightarrow>
        dthen
          (case lk of
             DB_LINK t f pp ms \<Rightarrow>
               dbind (dbGetLink proc r lk) (\<lambda>(status, v).
               case v of None \<Rightarrow> dret () | Some w \<Rightarrow> updr r (\<lambda>p. p\<lparr>tse := cvt_short e w\<rparr>))
           | _ \<Rightarrow> dret ())
          (dbind (getr r tse) (\<lambda>ev.
           dwhen (ev \<noteq> - 2)
             (dbind (dget ticks) (\<lambda>n.
              dthen (dmod (\<lambda>s. s\<lparr>ticks := n + 1\<rparr>))
              (case time_event e ev n of
                 None \<Rightarrow> dret ()
               | Some ts \<Rightarrow> updr r (\<lambda>p. p\<lparr>time := ts\<rparr>)))))))"

end
