(* ===== verification/CalcRecord.thy ===== *)
theory CalcRecord
  imports DbLink
begin

unbundle bit_operations_syntax

text \<open>
  Record support of \<^verbatim>\<open>calc\<close> records, \<^verbatim>\<open>modules/database/src/std/rec/calcRecord.c\<close>. Inputs are
  fetched through links, which may process other records; then the program of the record runs
  in the evaluator of \<^verbatim>\<open>calcPerform.c\<close>.
\<close>

definition CALC_NARGS :: nat where "CALC_NARGS = 12"

text \<open>Comparisons of doubles.\<close>

definition fp_ge :: "fp_ops \<Rightarrow> double \<Rightarrow> double \<Rightarrow> bool" where
  "fp_ge f x y \<longleftrightarrow> fp_lt f y x \<or> fp_eq f x y"

definition fp_le :: "fp_ops \<Rightarrow> double \<Rightarrow> double \<Rightarrow> bool" where
  "fp_le f x y \<longleftrightarrow> fp_lt f x y \<or> fp_eq f x y"

section \<open>Inputs and the program\<close>

text \<open>The rest of the loop over the inputs, with the first error so far.\<close>

fun fetch_from :: "env \<Rightarrow> process_fun \<Rightarrow> nat \<Rightarrow> nat list \<Rightarrow> db_status \<Rightarrow> db_status dbm" where
  "fetch_from e proc r [] status = dret status"
| "fetch_from e proc r (i # is) status =
     dbind (getr r (\<lambda>p. inp p ! i)) (\<lambda>lk.
     dbind (dbGetLink proc r lk) (\<lambda>(newStatus, v).
     dthen (case v of None \<Rightarrow> dret ()
            | Some w \<Rightarrow> updr r (\<lambda>p. p\<lparr>args := (args p)[i := cvt_double e w]\<rparr>))
     (fetch_from e proc r is (if status = OK then newStatus else status))))"

definition fetch_values :: "env \<Rightarrow> process_fun \<Rightarrow> nat \<Rightarrow> db_status dbm" where
  "fetch_values e proc r = fetch_from e proc r [0..<CALC_NARGS] OK"

text \<open>
  The call of \<^verbatim>\<open>calcPerform()\<close> on the arguments of the record and a result variable in it; the
  result is whether it returns an error.
\<close>

definition calc_perform ::
  "env \<Rightarrow> nat \<Rightarrow> byte list \<Rightarrow> (dbrec \<Rightarrow> double) \<Rightarrow> (double \<Rightarrow> dbrec \<Rightarrow> dbrec) \<Rightarrow> bool dbm" where
  "calc_perform e r prog getv setv =
     dbind (getr r id) (\<lambda>p.
     dbind (dget calc_seed) (\<lambda>sd.
     case calcPerform (fp e) (junk e) sd (args p) (getv p) prog of
       CReturn code st \<Rightarrow>
         dthen (dmod (\<lambda>s. s\<lparr>calc_seed := c_seed st\<rparr>))
         (dthen (updr r (\<lambda>p. setv (presult st) (p\<lparr>args := parg st\<rparr>))) (dret (code \<noteq> 0)))
     | CFault f \<Rightarrow> dcrash (Calc_fault f)
     | CNext rest st \<Rightarrow> dcrash Field_fault))"

text \<open>\<^verbatim>\<open>calcPerform(&prec->a, &prec->val, prec->rpcl)\<close> and what depends on its result.\<close>

definition calc_evaluate :: "env \<Rightarrow> nat \<Rightarrow> unit dbm" where
  "calc_evaluate e r =
     dbind (getr r rpcl) (\<lambda>prog.
     dbind (calc_perform e r prog val (\<lambda>v p. p\<lparr>val := v\<rparr>)) (\<lambda>failed.
     if failed then raise_sevr r CALC_ALARM INVALID_ALARM
     else updr r (\<lambda>p. p\<lparr>udf := fp_isnan (fp e) (val p)\<rparr>)))"

section \<open>Alarms\<close>

text \<open>
  The alarm range of the value: its number (1 to 5 for \<^verbatim>\<open>range_Lolo\<close> to \<^verbatim>\<open>range_Hihi\<close>), its
  severity and its level.
\<close>

definition over :: "fp_ops \<Rightarrow> dbrec \<Rightarrow> double \<Rightarrow> bool" where
  "over f p alev \<longleftrightarrow> fp_ge f (val p) alev \<or>
     fp_eq f (lalm p) alev \<and> fp_ge f (val p) (fp_arith f SUB alev (hyst p))"

definition under :: "fp_ops \<Rightarrow> dbrec \<Rightarrow> double \<Rightarrow> bool" where
  "under f p alev \<longleftrightarrow> fp_le f (val p) alev \<or>
     fp_eq f (lalm p) alev \<and> fp_le f (val p) (fp_arith f ADD alev (hyst p))"

definition alarm_range :: "fp_ops \<Rightarrow> dbrec \<Rightarrow> nat \<times> uint16 \<times> double" where
  "alarm_range f p =
     (if hhsv p \<noteq> 0 \<and> over f p (hihi p) then (5, hhsv p, hihi p)
      else if llsv p \<noteq> 0 \<and> under f p (lolo p) then (1, llsv p, lolo p)
      else if hsv p \<noteq> 0 \<and> over f p (high p) then (4, hsv p, high p)
      else if lsv p \<noteq> 0 \<and> under f p (low p) then (2, lsv p, low p)
      else (3, 0, val p))"

text \<open>
  The low-pass filter on the alarm range. The new range is not checked before it selects the
  status; a range outside 1 to 5 leaves the severity and the level.
\<close>

definition alarm_filter ::
  "env \<Rightarrow> dbrec \<Rightarrow> epicsTimeStamp \<Rightarrow> nat \<times> uint16 \<times> double \<Rightarrow> double \<times> nat \<times> uint16 \<times> double" where
  "alarm_filter e p timeLast rg =
     (let f = fp e; (range, asev, alev) = rg in
      if fp_lt f 0 (aftc p) then
        if fp_eq f (afvl p) 0 then (fp_of_int32 f (of_nat range), range, asev, alev)
        else
          let t = time_diff e (time p) timeLast;
              alpha = fp_arith f DIV (aftc p) (fp_arith f ADD t (aftc p));
              one = fp_of_int32 f 1;
              w = (if fp_lt f 0 (afvl p) then fp_arith f SUB one alpha else fp_arith f SUB alpha one);
              v = fp_arith f ADD (fp_arith f MULT alpha (afvl p))
                    (fp_arith f MULT w (fp_of_int32 f (of_nat range)));
              v' = (if fp_lt f (fp_threshold e) (fp_arith f SUB v (fp_math f FLOOR v))
                    then fp_math f UNARY_NEG v else v);
              range' = nat \<bar>fp_floor_int e v'\<bar>
          in (v', range',
              (if range' = 5 then (hhsv p, hihi p)
               else if range' = 4 then (hsv p, high p)
               else if range' = 3 then (0, alev)
               else if range' = 2 then (lsv p, low p)
               else if range' = 1 then (llsv p, lolo p)
               else (asev, alev)))
      else (0, range, asev, alev))"

definition range_stat :: "uint16 list" where
  "range_stat = [SOFT_ALARM, LOLO_ALARM, LOW_ALARM, 0, HIGH_ALARM, HIHI_ALARM]"

definition calc_checkAlarms :: "env \<Rightarrow> nat \<Rightarrow> epicsTimeStamp \<Rightarrow> unit dbm" where
  "calc_checkAlarms e r timeLast =
     dbind (getr r id) (\<lambda>p.
     if udf p then dthen (raise_sevr r UDF_ALARM (udfs p)) (updr r (\<lambda>p. p\<lparr>afvl := 0\<rparr>))
     else
       let (v, range, asev, alev) = alarm_filter e p timeLast (alarm_range (fp e) p) in
       dthen (updr r (\<lambda>p. p\<lparr>afvl := v\<rparr>))
       (if asev \<noteq> 0 then
          if range < length range_stat then
            dbind (recGblSetSevr r (range_stat ! range) asev) (\<lambda>raised.
            dwhen raised (updr r (\<lambda>p. p\<lparr>lalm := alev\<rparr>)))
          else dcrash Range_fault
        else updr r (\<lambda>p. p\<lparr>lalm := val p\<rparr>)))"

section \<open>Monitors\<close>

fun monitor_inputs :: "env \<Rightarrow> nat \<Rightarrow> uint16 \<Rightarrow> nat list \<Rightarrow> unit dbm" where
  "monitor_inputs e r monitor_mask [] = dret ()"
| "monitor_inputs e r monitor_mask (i # is) =
     dbind (getr r id) (\<lambda>p.
     dthen (dwhen (\<not> fp_eq (fp e) (args p ! i) (la p ! i) \<or> monitor_mask AND DBE_ALARM \<noteq> 0)
       (dthen (post_monitor r (Some (ARG i)) (monitor_mask OR DBE_VALUE OR DBE_LOG))
       (updr r (\<lambda>p. p\<lparr>la := (la p)[i := args p ! i]\<rparr>))))
     (monitor_inputs e r monitor_mask is))"

text \<open>The value and archive deadbands, the event for the value, the events for the inputs.\<close>

definition calc_monitor :: "env \<Rightarrow> nat \<Rightarrow> uint16 dbm" where
  "calc_monitor e r =
     dbind (recGblResetAlarms r) (\<lambda>mask0.
     dbind (getr r id) (\<lambda>p.
     let (m1, mask1) = recGblCheckDeadband e (mlst p) (val p) (mdel p) mask0 DBE_VALUE;
         (a1, mask2) = recGblCheckDeadband e (alst p) (val p) (adel p) mask1 DBE_LOG in
     dthen (updr r (\<lambda>p. p\<lparr>mlst := m1, alst := a1\<rparr>))
     (dthen (dwhen (mask2 \<noteq> 0) (post_monitor r (Some VAL) mask2))
     (dthen (monitor_inputs e r mask2 [0..<CALC_NARGS]) (dret mask2)))))"

section \<open>Processing\<close>

definition calc_process :: "env \<Rightarrow> process_fun \<Rightarrow> nat \<Rightarrow> db_status dbm" where
  "calc_process e proc r =
     dthen (updr r (\<lambda>p. p\<lparr>pact := True\<rparr>))
     (dbind (fetch_values e proc r) (\<lambda>status.
      dthen (dwhen (status = OK) (calc_evaluate e r))
      (dbind (getr r time) (\<lambda>timeLast.
       dthen (recGblGetTimeStamp e proc r)
       (dthen (calc_checkAlarms e r timeLast)
       (dbind (calc_monitor e r) (\<lambda>_.
        dthen (recGblFwdLink e proc r)
        (dthen (updr r (\<lambda>p. p\<lparr>pact := False\<rparr>)) (dret OK)))))))))"

end
