(* ===== verification/CalcoutRecord.thy ===== *)
theory CalcoutRecord
  imports CalcRecord
begin

unbundle bit_operations_syntax

text \<open>
  Record support of \<^verbatim>\<open>calcout\<close> records, \<^verbatim>\<open>modules/database/src/std/rec/calcoutRecord.c\<close>, with the
  device support \<^verbatim>\<open>devCalcoutSoft.c\<close>. A record with a delay (\<^verbatim>\<open>ODLY\<close>) is asynchronous: it stays
  active until a callback processes it again. No link is a Channel Access link, so the
  connection checks of the record do nothing.
\<close>

section \<open>Alarms and output\<close>

definition raise_limit :: "nat \<Rightarrow> uint16 \<Rightarrow> uint16 \<Rightarrow> double \<Rightarrow> unit dbm" where
  "raise_limit r st asev alev =
     dbind (recGblSetSevr r st asev) (\<lambda>raised. dwhen raised (updr r (\<lambda>p. p\<lparr>lalm := alev\<rparr>)))"

definition calcout_checkAlarms :: "env \<Rightarrow> nat \<Rightarrow> unit dbm" where
  "calcout_checkAlarms e r =
     dbind (getr r id) (\<lambda>p.
     if udf p then raise_sevr r UDF_ALARM (udfs p)
     else if hhsv p \<noteq> 0 \<and> over (fp e) p (hihi p) then raise_limit r HIHI_ALARM (hhsv p) (hihi p)
     else if llsv p \<noteq> 0 \<and> under (fp e) p (lolo p) then raise_limit r LOLO_ALARM (llsv p) (lolo p)
     else if hsv p \<noteq> 0 \<and> over (fp e) p (high p) then raise_limit r HIGH_ALARM (hsv p) (high p)
     else if lsv p \<noteq> 0 \<and> under (fp e) p (low p) then raise_limit r LOW_ALARM (lsv p) (low p)
     else updr r (\<lambda>p. p\<lparr>lalm := val p\<rparr>))"

definition write_calcout :: "env \<Rightarrow> process_fun \<Rightarrow> nat \<Rightarrow> db_status dbm" where
  "write_calcout e proc r =
     dbind (getr r id) (\<lambda>p. dbPutLink e proc r (out p) (Put_double (oval p)))"

definition writeValue :: "env \<Rightarrow> process_fun \<Rightarrow> nat \<Rightarrow> db_status dbm" where
  "writeValue e proc r =
     dbind (getr r dset) (\<lambda>d.
     case d of
       NO_DSET \<Rightarrow>
         dthen (raise_sevr r SOFT_ALARM INVALID_ALARM)
         (dthen (updr r (\<lambda>p. p\<lparr>pact := True\<rparr>)) (dret S_error))
     | devCalcoutSoft \<Rightarrow> write_calcout e proc r)"

text \<open>The output, and the soft event of the record if it has one.\<close>

definition write_and_post :: "env \<Rightarrow> process_fun \<Rightarrow> nat \<Rightarrow> unit dbm" where
  "write_and_post e proc r =
     dbind (writeValue e proc r) (\<lambda>_.
     dbind (getr r epvt) (\<lambda>ev.
     case ev of None \<Rightarrow> dret () | Some k \<Rightarrow> dmod (\<lambda>s. s\<lparr>soft_events := soft_events s @ [k]\<rparr>)))"

definition output_data :: "env \<Rightarrow> nat \<Rightarrow> unit dbm" where
  "output_data e r =
     dbind (getr r id) (\<lambda>p.
     if dopt p = 0 then updr r (\<lambda>p. p\<lparr>oval := val p\<rparr>)
     else if dopt p = 1 then
       dbind (calc_perform e r (orpc p) oval (\<lambda>v p. p\<lparr>oval := v\<rparr>)) (\<lambda>failed.
       if failed then raise_sevr r CALC_ALARM INVALID_ALARM
       else updr r (\<lambda>p. p\<lparr>udf := fp_isnan (fp e) (oval p)\<rparr>))
     else dret ())"

definition execOutput :: "env \<Rightarrow> process_fun \<Rightarrow> nat \<Rightarrow> unit dbm" where
  "execOutput e proc r =
     dthen (output_data e r)
     (dthen (dbind (getr r id) (\<lambda>p. dwhen (udf p) (raise_sevr r UDF_ALARM (udfs p))))
     (dbind (getr r id) (\<lambda>p.
      if nsev p < INVALID_ALARM then write_and_post e proc r
      else if ivoa p = 0 then write_and_post e proc r
      else if ivoa p = 1 then dret ()
      else if ivoa p = 2 then
        dthen (updr r (\<lambda>p. p\<lparr>oval := ivov p\<rparr>)) (write_and_post e proc r)
      else dret ())))"

definition calcout_monitor :: "env \<Rightarrow> nat \<Rightarrow> unit dbm" where
  "calcout_monitor e r =
     dbind (calc_monitor e r) (\<lambda>monitor_mask.
     dbind (getr r id) (\<lambda>p.
     dwhen (\<not> fp_eq (fp e) (povl p) (oval p))
       (dthen (post_monitor r (Some OVAL) (monitor_mask OR DBE_VALUE OR DBE_LOG))
       (updr r (\<lambda>p. p\<lparr>povl := oval p\<rparr>)))))"

section \<open>Processing\<close>

definition doOutput :: "env \<Rightarrow> dbrec \<Rightarrow> bool" where
  "doOutput e p \<longleftrightarrow>
     (let f = fp e in
      if oopt p = 0 then True
      else if oopt p = 1 then
        \<not> fp_le f (fp_math f ABS_VAL (fp_arith f SUB (pval p) (val p))) (mdel p)
      else if oopt p = 2 then fp_eq f (val p) 0
      else if oopt p = 3 then \<not> fp_eq f (val p) 0
      else if oopt p = 4 then \<not> fp_eq f (pval p) 0 \<and> fp_eq f (val p) 0
      else if oopt p = 5 then fp_eq f (pval p) 0 \<and> \<not> fp_eq f (val p) 0
      else False)"

definition calcout_done :: "env \<Rightarrow> process_fun \<Rightarrow> nat \<Rightarrow> db_status dbm" where
  "calcout_done e proc r =
     dthen (calcout_monitor e r)
     (dthen (recGblFwdLink e proc r)
     (dthen (updr r (\<lambda>p. p\<lparr>pact := False\<rparr>)) (dret OK)))"

text \<open>
  \<^verbatim>\<open>pact = FALSE; execOutput(prec); if (pact) return 0; pact = TRUE;\<close> followed by \<open>rest\<close>: the
  device support may have become asynchronous.
\<close>

definition output_then :: "env \<Rightarrow> process_fun \<Rightarrow> nat \<Rightarrow> db_status dbm \<Rightarrow> db_status dbm" where
  "output_then e proc r rest =
     dthen (updr r (\<lambda>p. p\<lparr>pact := False\<rparr>))
     (dthen (execOutput e proc r)
     (dbind (getr r pact) (\<lambda>active.
      if active then dret OK
      else dthen (updr r (\<lambda>p. p\<lparr>pact := True\<rparr>)) rest)))"

definition calcout_start :: "env \<Rightarrow> process_fun \<Rightarrow> nat \<Rightarrow> db_status dbm" where
  "calcout_start e proc r =
     dthen (updr r (\<lambda>p. p\<lparr>pact := True\<rparr>))
     (dbind (fetch_values e proc r) (\<lambda>status.
      dthen (dwhen (status = OK) (calc_evaluate e r))
      (dthen (calcout_checkAlarms e r)
      (dbind (getr r (doOutput e)) (\<lambda>outp.
       dthen (updr r (\<lambda>p. p\<lparr>pval := val p\<rparr>))
       (dbind (getr r odly) (\<lambda>delay.
        if outp then
          if fp_lt (fp e) 0 delay then
            dthen (updr r (\<lambda>p. p\<lparr>dlya := True\<rparr>))
            (dthen (recGblGetTimeStamp e proc r)
            (dthen (post_monitor r (Some DLYA) DBE_VALUE)
            (dthen (dmod (\<lambda>s. s\<lparr>delayed := delayed s @ [r]\<rparr>)) (dret OK))))
          else
            output_then e proc r (dthen (recGblGetTimeStamp e proc r) (calcout_done e proc r))
        else dthen (recGblGetTimeStamp e proc r) (calcout_done e proc r))))))))"

definition calcout_continue :: "env \<Rightarrow> process_fun \<Rightarrow> nat \<Rightarrow> db_status dbm" where
  "calcout_continue e proc r =
     dbind (getr r dlya) (\<lambda>waiting.
     if waiting then
       dthen (updr r (\<lambda>p. p\<lparr>dlya := False\<rparr>))
       (dthen (recGblGetTimeStamp e proc r)
       (dthen (post_monitor r (Some DLYA) DBE_VALUE)
       (output_then e proc r (calcout_done e proc r))))
     else
       dbind (writeValue e proc r) (\<lambda>_.
       dthen (recGblGetTimeStamp e proc r) (calcout_done e proc r)))"

definition calcout_process :: "env \<Rightarrow> process_fun \<Rightarrow> nat \<Rightarrow> db_status dbm" where
  "calcout_process e proc r =
     dbind (getr r pact) (\<lambda>active.
     if active then calcout_continue e proc r else calcout_start e proc r)"

end
