(* ===== verification/DbAccess.thy ===== *)
theory DbAccess
  imports CalcoutRecord
begin

unbundle bit_operations_syntax

text \<open>
  Record processing, \<^verbatim>\<open>dbProcess()\<close> and \<^verbatim>\<open>dbPutField()\<close> of \<^verbatim>\<open>modules/database/src/ioc/db/dbAccess.c\<close>, and
  the tasks that process records: \<^verbatim>\<open>onceTask()\<close> of \<^verbatim>\<open>dbScan.c\<close> and \<^verbatim>\<open>ProcessCallback()\<close> of
  \<^verbatim>\<open>callback.c\<close>. Break points and trace output are not modelled. Each operation holds the lock
  of the lock set of its record, so operations on a lock set are one after the other.
\<close>

definition MAX_LOCK :: byte where "MAX_LOCK = 10"

text \<open>The record support of a type.\<close>

definition rset_process :: "env \<Rightarrow> process_fun \<Rightarrow> rset \<Rightarrow> nat \<Rightarrow> db_status dbm" where
  "rset_process e proc rs r =
     (case rs of
        NO_RSET \<Rightarrow> dcrash Field_fault
      | calcRSET \<Rightarrow> calc_process e proc r
      | calcoutRSET \<Rightarrow> calcout_process e proc r)"

text \<open>A record that is active already.\<close>

definition process_active :: "nat \<Rightarrow> db_status dbm" where
  "process_active r =
     dbind (getr r id) (\<lambda>p.
     if stat p = SCAN_ALARM then dret OK
     else
       dthen (updr r (\<lambda>p. p\<lparr>lcnt := lcnt p + 1\<rparr>))
       (if lcnt p < MAX_LOCK \<or> INVALID_ALARM \<le> sevr p then dret OK
        else
          dthen (raise_sevr r SCAN_ALARM INVALID_ALARM)
          (dbind (recGblResetAlarms r) (\<lambda>monitor_mask.
           dthen (post_monitor r (Some VAL) (monitor_mask OR DBE_VALUE OR DBE_LOG))
           (dret OK)))))"

text \<open>\<^verbatim>\<open>if (callNotifyCompletion && precord->ppn) dbNotifyCompletion(precord);\<close>\<close>

definition notify_if_owned :: "nat \<Rightarrow> unit dbm" where
  "notify_if_owned r =
     dbind (getr r ppn) (\<lambda>owner. dwhen (owner \<noteq> None) (dbNotifyCompletion r))"

text \<open>A record whose disable link has the value that disables it.\<close>

definition process_disabled :: "nat \<Rightarrow> unit dbm" where
  "process_disabled r =
     dthen (updr r (\<lambda>p. p\<lparr>rpro := False, putf := False\<rparr>))
     (dthen (dbind (getr r stat) (\<lambda>st.
        dwhen (st \<noteq> DISABLE_ALARM)
          (dthen (updr r (\<lambda>p. p\<lparr>sevr := diss p, stat := DISABLE_ALARM, nsev := 0, nsta := 0\<rparr>))
          (dthen (post_monitor r (Some STAT) DBE_VALUE)
          (dthen (post_monitor r (Some SEVR) DBE_VALUE)
          (post_monitor r (Some VAL) (DBE_VALUE OR DBE_ALARM)))))))
     (notify_if_owned r))"

definition dbProcess_body :: "env \<Rightarrow> process_fun \<Rightarrow> nat \<Rightarrow> db_status dbm" where
  "dbProcess_body e proc r =
     dbind (getr r pact) (\<lambda>active.
     if active then process_active r
     else
       dthen (updr r (\<lambda>p. p\<lparr>lcnt := 0\<rparr>))
       (dbind (getr r sdis) (\<lambda>lk.
        dbind (dbGetLink proc r lk) (\<lambda>(status, v).
        dthen (case v of None \<Rightarrow> dret () | Some w \<Rightarrow> updr r (\<lambda>p. p\<lparr>disa := cvt_short e w\<rparr>))
        (dbind (getr r id) (\<lambda>p.
         if disa p = disv p then dthen (process_disabled r) (dret status)
         else if rset p = NO_RSET then
           dthen (updr r (\<lambda>p. p\<lparr>pact := True\<rparr>))
           (dthen (notify_if_owned r) (dret S_db_noRSET))
         else rset_process e proc (rset p) r))))))"

text \<open>\<^verbatim>\<open>dbProcess()\<close> to a bounded depth of the recursion through links.\<close>

fun dbProcess :: "env \<Rightarrow> nat \<Rightarrow> process_fun" where
  "dbProcess e 0 r = (\<lambda>s. NoFuel)"
| "dbProcess e (Suc n) r = dbProcess_body e (dbProcess e n) r"

text \<open>\<^verbatim>\<open>dbPutField()\<close> of a field that is not a link.\<close>

definition dbPutField :: "env \<Rightarrow> nat \<Rightarrow> nat \<Rightarrow> db_field \<Rightarrow> dbr_put \<Rightarrow> db_status dbm" where
  "dbPutField e n r f v =
     dbind (getr r disp_f) (\<lambda>off.
     if off \<noteq> 0 \<and> f \<noteq> DISP then dret S_db_putDisabled
     else
       dbind (dbPut e r f v) (\<lambda>status.
       if status \<noteq> OK then dret status
       else
         dbind (getr r id) (\<lambda>p.
         if f = PROC \<or>
            (process_passive f \<and> scan p = 0 \<and>
             (case v of DBR_PUT_ACKT w \<Rightarrow> False | DBR_PUT_ACKS w \<Rightarrow> False | _ \<Rightarrow> True))
         then
           if pact p then dthen (updr r (\<lambda>p. p\<lparr>rpro := True\<rparr>)) (dret status)
           else dthen (updr r (\<lambda>p. p\<lparr>putf := True\<rparr>)) (dbProcess e n r)
         else dret status)))"

text \<open>The request at the head of the queue of \<^verbatim>\<open>scanOnce()\<close>.\<close>

definition onceTask :: "env \<Rightarrow> nat \<Rightarrow> db_status dbm" where
  "onceTask e n =
     dbind (dget onceQ) (\<lambda>q.
     case q of
       [] \<Rightarrow> dret OK
     | r # rest \<Rightarrow> dthen (dmod (\<lambda>s. s\<lparr>onceQ := rest\<rparr>)) (dbProcess e n r))"

text \<open>The delayed callback number \<open>i\<close> expires.\<close>

definition ProcessCallback :: "env \<Rightarrow> nat \<Rightarrow> nat \<Rightarrow> db_status dbm" where
  "ProcessCallback e n i =
     dbind (dget delayed) (\<lambda>d.
     if i < length d then
       dthen (dmod (\<lambda>s. s\<lparr>delayed := take i d @ drop (Suc i) d\<rparr>))
       (dbind (getr (d ! i) rset) (\<lambda>rs. rset_process e (dbProcess e n) rs (d ! i)))
     else dret OK)"

end
