(* ===== verification/DbNotifyApi.thy ===== *)
theory DbNotifyApi
  imports DbAccess
begin

text \<open>
  Process-notify requests as clients use them: \<^verbatim>\<open>dbProcessNotify()\<close>, \<^verbatim>\<open>dbNotifyCancel()\<close> and the
  callback of the requests in \<^verbatim>\<open>modules/database/src/ioc/db/dbNotify.c\<close>. The client puts a number
  and reads a field, as the Channel Access server does. A routine that gives up the lock of the
  record, or that waits for an event, is cut in two there; the tasks in between are recorded in
  \<^verbatim>\<open>calling\<close>, \<^verbatim>\<open>cancellers\<close> and \<^verbatim>\<open>restarters\<close>. Channels of link fields are not modelled, nor is
  an overflow of the queue of the callback task.
\<close>

section \<open>Requests\<close>

definition upd_notify :: "nat \<Rightarrow> (processNotify \<Rightarrow> processNotify) \<Rightarrow> unit dbm" where
  "upd_notify p f = dmod (upd_pn p f)"

text \<open>History of what clients see; not part of the code.\<close>

definition log_notify :: "nat \<Rightarrow> notify_event \<Rightarrow> unit dbm" where
  "log_notify p ev = dmod (\<lambda>s. s\<lparr>notify_log := notify_log s @ [(p, ev)]\<rparr>)"

definition notifyInit :: "nat \<Rightarrow> unit dbm" where
  "notifyInit p = upd_notify p (\<lambda>n. n\<lparr>pn_state := notifyNotActive, waitList := [],
     pn_status := notifyOK, wasProcessed := False, cancelWait := False, userCallbackWait := False,
     pvt := True\<rparr>)"

definition notifyCleanup :: "nat \<Rightarrow> unit dbm" where
  "notifyCleanup p = upd_notify p (\<lambda>n. n\<lparr>pn_state := notifyNotActive, pvt := False\<rparr>)"

section \<open>Callbacks of the client\<close>

datatype notifyPutType = putDisabledType | putFieldType | putType

definition db_put_process :: "env \<Rightarrow> nat \<Rightarrow> nat \<Rightarrow> notifyPutType \<Rightarrow> bool dbm" where
  "db_put_process e n p type =
     dbind (get_pn p id) (\<lambda>q.
     if type = putDisabledType then
       dthen (upd_notify p (\<lambda>q. q\<lparr>pn_status := notifyError\<rparr>)) (dret False)
     else
       dbind (if type = putFieldType then dbPutField e n (pn_chan q) (pn_field q) (pn_value q)
              else dbPut e (pn_chan q) (pn_field q) (pn_value q)) (\<lambda>status.
       dthen (dwhen (status \<noteq> OK) (upd_notify p (\<lambda>q. q\<lparr>pn_status := notifyError\<rparr>)))
       (dret True)))"

definition write_notify_put_callback :: "env \<Rightarrow> nat \<Rightarrow> nat \<Rightarrow> notifyPutType \<Rightarrow> bool dbm" where
  "write_notify_put_callback e n p type =
     dbind (get_pn p pn_status) (\<lambda>st.
     if st = notifyCanceled then dret False else db_put_process e n p type)"

text \<open>\<^verbatim>\<open>dbtpn\<close> reads the field as a string; here the client reads it as it is.\<close>

definition getCallback :: "nat \<Rightarrow> unit dbm" where
  "getCallback p =
     dbind (get_pn p id) (\<lambda>q.
     if pn_status q = notifyCanceled then dret ()
     else
       dbind (getr (pn_chan q) (get_field (pn_field q))) (\<lambda>v.
       upd_notify p (\<lambda>q. q\<lparr>pn_got := Some v\<rparr>)))"

section \<open>The end of a request\<close>

text \<open>\<^verbatim>\<open>callDone()\<close> up to the call of \<^verbatim>\<open>doneCallback\<close>, and from its return.\<close>

definition callDone_begin :: "nat \<Rightarrow> unit dbm" where
  "callDone_begin p =
     dbind (get_pn p requestType) (\<lambda>type.
     dthen (dwhen (type = processGetRequest \<or> type = putProcessGetRequest) (getCallback p))
     (dthen (log_notify p Completed)
     (dmod (\<lambda>s. s\<lparr>calling := p # calling s\<rparr>))))"

definition callDone_end :: "nat \<Rightarrow> unit dbm" where
  "callDone_end p =
     dthen (dmod (\<lambda>s. s\<lparr>calling := remove1 p (calling s)\<rparr>))
     (dthen (dbind (get_pn p id) (\<lambda>q. dwhen (cancelWait q \<and> userCallbackWait q)
        (upd_notify p (\<lambda>q. q\<lparr>cancelWait := False, userCallbackWait := False\<rparr>))))
     (dbind (get_pn p id) (\<lambda>q.
      if \<not> cancelWait q \<and> \<not> userCallbackWait q then notifyCleanup p
      else if cancelWait q then upd_notify p (\<lambda>q. q\<lparr>cancelWait := False, cancelEvent := True\<rparr>)
      else upd_notify p (\<lambda>q. q\<lparr>userCallbackWait := False, userCallbackEvent := True\<rparr>))))"

section \<open>Processing for a request\<close>

text \<open>The put, for requests that put, and whether the record is to be processed.\<close>

definition notify_put :: "env \<Rightarrow> nat \<Rightarrow> nat \<Rightarrow> nat \<Rightarrow> bool dbm" where
  "notify_put e n p r =
     dbind (get_pn p id) (\<lambda>q.
     if requestType q = putProcessRequest \<or> requestType q = putProcessGetRequest then
       dbind (getr r disp_f) (\<lambda>off.
       if off \<noteq> 0 \<and> pn_field q \<noteq> DISP then
         dbind (write_notify_put_callback e n p putDisabledType) (\<lambda>_. dret False)
       else write_notify_put_callback e n p putType)
     else dret False)"

definition notify_doProcess :: "processNotify \<Rightarrow> dbrec \<Rightarrow> bool \<Rightarrow> bool" where
  "notify_doProcess q c didPut \<longleftrightarrow>
     didPut \<and> (pn_field q = PROC \<or> process_passive (pn_field q) \<and> scan c = 0) \<or>
     requestType q = processGetRequest \<and> scan c = 0"

definition processNotifyCommon :: "env \<Rightarrow> nat \<Rightarrow> nat \<Rightarrow> nat \<Rightarrow> unit dbm" where
  "processNotifyCommon e n p r =
     dbind (getr r id) (\<lambda>c.
     dbind (get_pn p pn_state) (\<lambda>st.
     if ppn c \<noteq> None \<and> st \<noteq> notifyRestartCallbackRequested then
       dthen (set_state p notifyWaitForRestart) (ellSafeAdd_restart r p)
     else
       dthen (dassert (ppn c \<noteq> None \<longrightarrow> ppn c = Some p))
       (if pact c then
          dthen (updr r (\<lambda>c. c\<lparr>ppn := Some p\<rparr>))
          (dthen (ellSafeAdd_wait p r) (set_state p notifyRestartInProgress))
        else
          dbind (notify_put e n p r) (\<lambda>didPut.
          dbind (getr r id) (\<lambda>c.
          dbind (get_pn p id) (\<lambda>q.
          if notify_doProcess q c didPut then
            dthen (upd_notify p (\<lambda>q. q\<lparr>wasProcessed := True\<rparr>))
            (dthen (updr r (\<lambda>c. c\<lparr>ppn := Some p\<rparr>))
            (dthen (ellSafeAdd_wait p r)
            (dthen (set_state p notifyProcessInProgress)
            (dbind (dbProcess e n r) (\<lambda>_. dret ())))))
          else
            dthen (dwhen (pn_state q = notifyRestartCallbackRequested) (restartCheck r))
            (dthen (set_state p notifyUserCallbackActive)
            (dbind (getr r ppn) (\<lambda>owner.
             dthen (dassert (owner \<noteq> Some p)) (callDone_begin p))))))))))"

text \<open>The callback number \<open>i\<close> of those requested.\<close>

definition notifyCallback :: "env \<Rightarrow> nat \<Rightarrow> nat \<Rightarrow> unit dbm" where
  "notifyCallback e n i =
     dbind (dget notify_cbs) (\<lambda>cbs.
     let p = cbs ! i in
     dthen (dmod (\<lambda>s. s\<lparr>notify_cbs := take i cbs @ drop (Suc i) cbs\<rparr>))
     (dbind (get_pn p id) (\<lambda>q.
      let r = pn_chan q; st = pn_state q in
      dthen (dassert (st = notifyRestartCallbackRequested \<or> st = notifyUserCallbackRequested))
      (dthen (dassert (waitList q = []))
      (if cancelWait q then
         dthen (dwhen (st = notifyRestartCallbackRequested) (restartCheck r))
         (dthen (log_notify p Canceled) (upd_notify p (\<lambda>q. q\<lparr>cancelEvent := True\<rparr>)))
       else if st = notifyRestartCallbackRequested then processNotifyCommon e n p r
       else
         dthen (set_state p notifyUserCallbackActive)
         (dbind (getr r ppn) (\<lambda>owner.
          dthen (dassert (owner \<noteq> Some p)) (callDone_begin p))))))))"

section \<open>Calls of the client\<close>

definition dbProcessNotify_start :: "env \<Rightarrow> nat \<Rightarrow> nat \<Rightarrow> unit dbm" where
  "dbProcessNotify_start e n p =
     dthen (notifyInit p)
     (dthen (log_notify p Requested)
     (dbind (get_pn p pn_chan) (\<lambda>r. processNotifyCommon e n p r)))"

definition dbProcessNotify :: "env \<Rightarrow> nat \<Rightarrow> nat \<Rightarrow> nat option \<Rightarrow> unit dbm" where
  "dbProcessNotify e n p by =
     dthen (upd_notify p (\<lambda>q. q\<lparr>pn_status := notifyOK, wasProcessed := False\<rparr>))
     (dbind (get_pn p id) (\<lambda>q.
      if pvt q then
        dthen (dassert (pn_state q = notifyUserCallbackActive))
        (dthen (upd_notify p (\<lambda>q. q\<lparr>userCallbackWait := True\<rparr>))
        (dmod (\<lambda>s. s\<lparr>restarters := restarters s @ [(p, by)]\<rparr>)))
      else dbProcessNotify_start e n p))"

text \<open>The wait for \<^verbatim>\<open>userCallbackEvent\<close> is over.\<close>

definition dbProcessNotify_resume :: "env \<Rightarrow> nat \<Rightarrow> nat \<Rightarrow> unit dbm" where
  "dbProcessNotify_resume e n p =
     dthen (dmod (\<lambda>s. s\<lparr>restarters := filter (\<lambda>(q, by). q \<noteq> p) (restarters s)\<rparr>))
     (dthen (upd_notify p (\<lambda>q. q\<lparr>userCallbackEvent := False\<rparr>))
     (dthen (notifyCleanup p) (dbProcessNotify_start e n p)))"

text \<open>All records of the wait list are taken out of it.\<close>

fun cancel_waits :: "nat \<Rightarrow> nat list \<Rightarrow> unit dbm" where
  "cancel_waits p [] = dret ()"
| "cancel_waits p (x # xs) =
     dthen (ellSafeDelete_wait p x) (dthen (restartCheck x) (cancel_waits p xs))"

definition dbNotifyCancel :: "nat \<Rightarrow> nat option \<Rightarrow> unit dbm" where
  "dbNotifyCancel p by =
     dthen (upd_notify p (\<lambda>q. q\<lparr>pn_status := notifyCanceled\<rparr>))
     (dbind (get_pn p id) (\<lambda>q.
      let r = pn_chan q; st = pn_state q in
      if \<not> pvt q \<or> st = notifyNotActive then dret ()
      else if st = notifyUserCallbackRequested \<or> st = notifyRestartCallbackRequested \<or>
              st = notifyUserCallbackActive then
        dthen (upd_notify p (\<lambda>q. q\<lparr>cancelWait := True\<rparr>))
        (dmod (\<lambda>s. s\<lparr>cancellers := cancellers s @ [(p, by)]\<rparr>))
      else
        dthen
          (if st = notifyWaitForRestart then
             dbind (getr r ppn) (\<lambda>owner.
             dthen (dassert (owner \<noteq> None \<and> owner \<noteq> Some p)) (ellSafeDelete_restart r p))
           else
             dthen (cancel_waits p (waitList q))
             (dbind (getr r ppn) (\<lambda>owner. dwhen (owner = Some p) (restartCheck r))))
        (dthen (log_notify p Canceled) (notifyCleanup p))))"

text \<open>The wait for \<^verbatim>\<open>cancelEvent\<close> is over.\<close>

definition dbNotifyCancel_resume :: "nat \<Rightarrow> unit dbm" where
  "dbNotifyCancel_resume p =
     dthen (dmod (\<lambda>s. s\<lparr>cancellers := filter (\<lambda>(q, by). q \<noteq> p) (cancellers s)\<rparr>))
     (dthen (upd_notify p (\<lambda>q. q\<lparr>cancelEvent := False\<rparr>)) (notifyCleanup p))"

end
