(* ===== verification/DbNotifyInv.thy ===== *)
theory DbNotifyInv
  imports DbNotifyApi
begin

text \<open>
  The bookkeeping of process-notify requests: who owns a record, which records a request waits
  for, and which requests wait for a record. The operations that record processing calls keep
  it, so that none of their assertions fails.
\<close>

definition in_progress :: "notifyState \<Rightarrow> bool" where
  "in_progress st \<longleftrightarrow> st = notifyRestartInProgress \<or> st = notifyProcessInProgress"

definition may_own :: "processNotify \<Rightarrow> nat \<Rightarrow> bool" where
  "may_own n r \<longleftrightarrow>
     pn_state n = notifyProcessInProgress \<or>
     pn_chan n = r \<and> (pn_state n = notifyRestartInProgress \<or> pn_state n = notifyRestartCallbackRequested)"

text \<open>The requests that wait for a record.\<close>

definition queue_ok :: "db \<Rightarrow> nat \<Rightarrow> bool" where
  "queue_ok s r \<longleftrightarrow> distinct (restartList (recs s ! r)) \<and>
     (\<forall>q \<in> set (restartList (recs s ! r)).
        q < length (pns s) \<and> pn_state (pns s ! q) = notifyWaitForRestart \<and> restart_on (pns s ! q) \<and>
        pn_chan (pns s ! q) = r)"

definition owner_ok :: "db \<Rightarrow> nat \<Rightarrow> bool" where
  "owner_ok s r \<longleftrightarrow>
     (case ppn (recs s ! r) of
        None \<Rightarrow> \<not> wait_on (recs s ! r) \<and> restartList (recs s ! r) = []
      | Some p \<Rightarrow> p < length (pns s) \<and> may_own (pns s ! p) r \<and>
          wait_on (recs s ! r) = in_progress (pn_state (pns s ! p)))"

text \<open>The records that a request waits for, leaving out those of \<open>X\<close>.\<close>

definition waits_ok :: "nat set \<Rightarrow> db \<Rightarrow> nat \<Rightarrow> bool" where
  "waits_ok X s p \<longleftrightarrow> distinct (waitList (pns s ! p)) \<and>
     set (waitList (pns s ! p)) =
       (if in_progress (pn_state (pns s ! p))
        then {r. r < length (recs s) \<and> ppn (recs s ! r) = Some p \<and> r \<notin> X} else {})"

definition book_ok :: "db \<Rightarrow> bool" where
  "book_ok s \<longleftrightarrow>
     (\<forall>r < length (recs s). queue_ok s r \<and> owner_ok s r) \<and> (\<forall>p < length (pns s). waits_ok {} s p)"

text \<open>The record \<open>r\<close> has left the list of its owner and has no new owner yet.\<close>

definition book_ok_but :: "nat \<Rightarrow> db \<Rightarrow> bool" where
  "book_ok_but r s \<longleftrightarrow>
     (\<forall>x < length (recs s). queue_ok s x \<and> (x \<noteq> r \<longrightarrow> owner_ok s x)) \<and>
     \<not> wait_on (recs s ! r) \<and> (\<forall>p < length (pns s). waits_ok {r} s p)"

lemmas notify_defs = queue_ok_def owner_ok_def waits_ok_def in_progress_def may_own_def

text \<open>The part of a record that process-notify uses.\<close>

definition notify_part :: "dbrec \<Rightarrow> nat option \<times> bool \<times> nat list" where
  "notify_part p = (ppn p, wait_on p, restartList p)"

lemma book_ok_cong:
  assumes "length (recs s') = length (recs s)" "pns s' = pns s"
    and "\<And>x. x < length (recs s) \<Longrightarrow> notify_part (recs s' ! x) = notify_part (recs s ! x)"
  shows "book_ok s' = book_ok s"
proof -
  have eq: "ppn (recs s' ! x) = ppn (recs s ! x)" "wait_on (recs s' ! x) = wait_on (recs s ! x)"
    "restartList (recs s' ! x) = restartList (recs s ! x)" if "x < length (recs s)" for x
    using assms(3) [OF that] by (simp_all add: notify_part_def)
  have "queue_ok s' x = queue_ok s x" "owner_ok s' x = owner_ok s x" if "x < length (recs s)" for x
    using eq [OF that] assms(2) by (simp_all add: queue_ok_def owner_ok_def split: option.split)
  moreover have "waits_ok X s' p = waits_ok X s p" for X p
  proof -
    have "{r. r < length (recs s) \<and> ppn (recs s' ! r) = Some p \<and> r \<notin> X} =
        {r. r < length (recs s) \<and> ppn (recs s ! r) = Some p \<and> r \<notin> X}"
      using eq by auto
    then show ?thesis using assms(1,2) by (simp add: waits_ok_def)
  qed
  ultimately show ?thesis using assms(1,2) by (simp add: book_ok_def)
qed

text \<open>Nothing but the bookkeeping of process-notify changes.\<close>

definition rest_of :: "dbrec \<Rightarrow> dbrec" where
  "rest_of p = p\<lparr>ppn := None, wait_on := False, restartList := []\<rparr>"

definition notify_frame :: "db \<Rightarrow> db \<Rightarrow> bool" where
  "notify_frame s s' \<longleftrightarrow> length (recs s') = length (recs s) \<and> length (pns s') = length (pns s) \<and>
     calling s' = calling s \<and> cancellers s' = cancellers s \<and> restarters s' = restarters s \<and>
     notify_log s' = notify_log s \<and>
     (\<forall>x < length (recs s). rest_of (recs s' ! x) = rest_of (recs s ! x)) \<and>
     delayed s' = delayed s \<and> onceQ s' = onceQ s \<and> posts s' = posts s"

lemma notify_frame_refl [simp]: "notify_frame s s"
  by (simp add: notify_frame_def)

lemma notify_frame_trans [trans]: "notify_frame s t \<Longrightarrow> notify_frame t u \<Longrightarrow> notify_frame s u"
  by (simp add: notify_frame_def)

lemma notify_frame_rec:
  "(\<And>p. rest_of (f p) = rest_of p) \<Longrightarrow> notify_frame s t \<Longrightarrow> notify_frame s (upd_rec r f t)"
  by (simp add: notify_frame_def)

lemma notify_frame_pn [simp]: "notify_frame s (upd_pn p f t) = notify_frame s t"
  by (simp add: notify_frame_def)

lemma notify_frame_cbs [simp]: "notify_frame s (t\<lparr>notify_cbs := l\<rparr>) = notify_frame s t"
  by (simp add: notify_frame_def)

section \<open>Handing a record on\<close>

lemma upd_twice:
  "r < length (recs s) \<Longrightarrow> upd_rec r f (upd_rec r g s) = upd_rec r (\<lambda>c. f (g c)) s"
  "p < length (pns s) \<Longrightarrow> upd_pn p f' (upd_pn p g' s) = upd_pn p (\<lambda>n. f' (g' n)) s"
  "upd_rec r f (upd_pn p g' s) = upd_pn p g' (upd_rec r f s)"
  by (simp_all add: upd_rec_def upd_pn_def)

text \<open>The record passes to the first request that waits for it.\<close>

definition pass_on :: "nat \<Rightarrow> nat \<Rightarrow> db \<Rightarrow> db" where
  "pass_on r q s = (upd_pn q (\<lambda>n. n\<lparr>restart_on := False, pn_state := notifyRestartCallbackRequested\<rparr>)
     (upd_rec r (\<lambda>c. c\<lparr>restartList := tl (restartList c), ppn := Some q\<rparr>) s))
     \<lparr>notify_cbs := notify_cbs s @ [q]\<rparr>"

lemma restartCheck_run:
  assumes "r < length (recs s)" "ppn (recs s ! r) \<noteq> None" "restartList (recs s ! r) = q # rest"
    and "q < length (pns s)" "pn_state (pns s ! q) = notifyWaitForRestart" "restart_on (pns s ! q)"
  shows "restartCheck r s = Done () (pass_on r q s)"
proof -
  have "upd_rec r (\<lambda>c. c\<lparr>restartList := remove1 q (restartList c), ppn := Some q\<rparr>) s =
      upd_rec r (\<lambda>c. c\<lparr>restartList := tl (restartList c), ppn := Some q\<rparr>) s"
    using assms by (simp add: upd_rec_def)
  then show ?thesis
    using assms
    by (simp add: restartCheck_def dbm_defs get_pn_def set_state_def callbackRequest_def
        ellSafeDelete_restart_def upd_twice pass_on_def)
qed

lemma restartCheck_ok:
  assumes ok: "book_ok_but r s" and r: "r < length (recs s)" and own: "ppn (recs s ! r) \<noteq> None"
  shows "\<exists>s'. restartCheck r s = Done () s' \<and> book_ok s' \<and> notify_frame s s'"
proof (cases "restartList (recs s ! r)")
  case Nil
  let ?s' = "upd_rec r (\<lambda>c. c\<lparr>ppn := None\<rparr>) s"
  have "book_ok ?s'"
    using ok r Nil
    by (auto simp: book_ok_def book_ok_but_def notify_defs split: if_splits option.splits)
  moreover have "notify_frame s ?s'" by (rule notify_frame_rec) (simp_all add: rest_of_def)
  ultimately show ?thesis
    using own Nil by (simp add: restartCheck_def dbm_defs)
next
  case (Cons q rest)
  let ?s' = "upd_pn q (\<lambda>n. n\<lparr>restart_on := False, pn_state := notifyRestartCallbackRequested\<rparr>)
    (upd_rec r (\<lambda>c. c\<lparr>restartList := tl (restartList c), ppn := Some q\<rparr>) s)"
  have q: "q < length (pns s)" "pn_state (pns s ! q) = notifyWaitForRestart" "pn_chan (pns s ! q) = r"
    "q \<notin> set rest" "restart_on (pns s ! q)"
    using ok r Cons by (auto simp: book_ok_but_def queue_ok_def)
  have neq: "p \<noteq> q" if "x < length (recs s)" "x \<noteq> r" "ppn (recs s ! x) = Some p" for x p
    using ok that q(2) by (auto simp: book_ok_but_def owner_ok_def may_own_def)
  have out: "q \<notin> set (restartList (recs s ! x))" if "x < length (recs s)" "x \<noteq> r" for x
    using ok that q(3) by (metis book_ok_but_def queue_ok_def)
  have "queue_ok ?s' x" if "x < length (recs s)" for x
    using ok that r Cons q(4) out [OF that] by (auto simp: book_ok_but_def queue_ok_def)
  moreover have "owner_ok ?s' x" if "x < length (recs s)" for x
  proof (cases "x = r")
    case True
    then show ?thesis using ok r q by (simp add: book_ok_but_def notify_defs)
  next
    case False
    then show ?thesis
      using ok that neq [OF that False] by (auto simp: book_ok_but_def owner_ok_def split: option.splits)
  qed
  moreover have "waits_ok {} ?s' p" if p: "p < length (pns s)" for p
  proof -
    have w: "waits_ok {r} s p" using ok p by (simp add: book_ok_but_def)
    show ?thesis
    proof (cases "p = q")
      case True
      then show ?thesis using w q by (simp add: waits_ok_def in_progress_def)
    next
      case False
      then have "{x. x < length (recs s) \<and> ppn (recs ?s' ! x) = Some p} =
          {x. x < length (recs s) \<and> ppn (recs s ! x) = Some p \<and> x \<noteq> r}"
        by (auto split: if_splits)
      then show ?thesis using w False p by (simp add: waits_ok_def)
    qed
  qed
  ultimately have "book_ok ?s'" by (simp add: book_ok_def)
  then have "book_ok (?s'\<lparr>notify_cbs := notify_cbs ?s' @ [q]\<rparr>)"
    by (subst book_ok_cong) auto
  moreover have "notify_frame s (?s'\<lparr>notify_cbs := notify_cbs ?s' @ [q]\<rparr>)"
    by (simp add: notify_frame_rec rest_of_def)
  ultimately show ?thesis
    using restartCheck_run [OF r own Cons] q by (simp add: pass_on_def)
qed

lemma delete_wait_ok:
  assumes ok: "book_ok s" and r: "r < length (recs s)" and p: "ppn (recs s ! r) = Some p"
    and st: "in_progress (pn_state (pns s ! p))"
  shows "\<exists>s'. ellSafeDelete_wait p r s = Done () s' \<and> book_ok_but r s' \<and>
    waitList (pns s' ! p) = remove1 r (waitList (pns s ! p)) \<and>
    s' = upd_rec r (\<lambda>c. c\<lparr>wait_on := False\<rparr>) (upd_pn p (\<lambda>n. n\<lparr>waitList := remove1 r (waitList n)\<rparr>) s)"
proof -
  let ?s' = "upd_rec r (\<lambda>c. c\<lparr>wait_on := False\<rparr>)
    (upd_pn p (\<lambda>n. n\<lparr>waitList := remove1 r (waitList n)\<rparr>) s)"
  have own: "p < length (pns s)" "wait_on (recs s ! r)"
    using ok r p st by (auto simp: book_ok_def owner_ok_def)
  have "queue_ok ?s' x" if "x < length (recs s)" for x
    using ok that r own by (auto simp: book_ok_def queue_ok_def)
  moreover have "owner_ok ?s' x" if "x < length (recs s)" "x \<noteq> r" for x
    using ok that own by (auto simp: book_ok_def owner_ok_def may_own_def split: option.splits)
  moreover have "waits_ok {r} ?s' k" if k: "k < length (pns s)" for k
  proof -
    have w: "waits_ok {} s k" using ok k by (simp add: book_ok_def)
    have eq: "{x. x < length (recs s) \<and> ppn (recs ?s' ! x) = Some k \<and> x \<noteq> r} =
        {x. x < length (recs s) \<and> ppn (recs s ! x) = Some k} - {r}"
      by (auto split: if_splits)
    show ?thesis using w eq p k by (auto simp: waits_ok_def distinct_remove1 set_remove1_eq)
  qed
  ultimately have "book_ok_but r ?s'" using r by (simp add: book_ok_but_def)
  then show ?thesis
    using own by (simp add: ellSafeDelete_wait_def dbm_defs)
qed

text \<open>A request that no record but \<open>r\<close> belongs to may change its state.\<close>

lemma book_ok_but_state:
  assumes ok: "book_ok_but r s" and p: "p < length (pns s)" "waitList (pns s ! p) = []"
    and st: "in_progress (pn_state (pns s ! p))" "\<not> in_progress st'"
  shows "book_ok_but r (upd_pn p (\<lambda>n. n\<lparr>pn_state := st'\<rparr>) s)" (is "book_ok_but r ?s'")
proof -
  have none: "x = r" if "x < length (recs s)" "ppn (recs s ! x) = Some p" for x
    using ok p st that by (auto simp: book_ok_but_def waits_ok_def)
  have "queue_ok ?s' x" if "x < length (recs s)" for x
    using ok that p st by (auto simp: book_ok_but_def queue_ok_def in_progress_def)
  moreover have "owner_ok ?s' x" if "x < length (recs s)" "x \<noteq> r" for x
  proof -
    have "owner_ok s x" "ppn (recs s ! x) \<noteq> Some p"
      using ok that none by (auto simp: book_ok_but_def)
    then show ?thesis by (auto simp: owner_ok_def split: option.splits)
  qed
  moreover have "waits_ok {r} ?s' k" if "k < length (pns s)" for k
    using ok that p st by (auto simp: book_ok_but_def waits_ok_def)
  ultimately show ?thesis using ok by (simp add: book_ok_but_def)
qed

text \<open>The record becomes the property of its request again.\<close>

lemma book_ok_restart:
  assumes ok: "book_ok_but r s" and r: "r < length (recs s)" and p: "p < length (pns s)"
    and own: "ppn (recs s ! r) = Some p" "pn_chan (pns s ! p) = r"
    and st: "pn_state (pns s ! p) = notifyRestartCallbackRequested"
  shows "book_ok s"
proof -
  have "owner_ok s x" if "x < length (recs s)" for x
    using ok that own st p
    by (cases "x = r") (auto simp: book_ok_but_def owner_ok_def may_own_def in_progress_def)
  moreover have "waits_ok {} s k" if "k < length (pns s)" for k
  proof -
    have w: "waits_ok {r} s k" using ok that by (simp add: book_ok_but_def)
    show ?thesis
    proof (cases "k = p")
      case True
      then show ?thesis using w st by (simp add: waits_ok_def in_progress_def)
    next
      case False
      then have "{x. x < length (recs s) \<and> ppn (recs s ! x) = Some k \<and> x \<noteq> r} =
          {x. x < length (recs s) \<and> ppn (recs s ! x) = Some k}"
        using own(1) by auto
      then show ?thesis using w by (simp add: waits_ok_def)
    qed
  qed
  ultimately show ?thesis using ok by (simp add: book_ok_but_def book_ok_def)
qed

lemma dbNotifyAdd_book:
  assumes ok: "book_ok s" and x: "x < length (recs s)" and r: "r < length (recs s)"
    and own: "ppn (recs s ! x) \<noteq> None"
  shows "\<exists>s'. dbNotifyAdd x r s = Done () s' \<and> book_ok s' \<and> notify_frame s s'"
proof -
  obtain p where p: "ppn (recs s ! x) = Some p" using own by auto
  have pl: "p < length (pns s)" using ok x p by (auto simp: book_ok_def owner_ok_def)
  note run = dbNotifyAdd_def ellSafeAdd_wait_def dbm_defs get_pn_def
  show ?thesis
  proof (cases "pact (recs s ! r) \<or> \<not> (ppn (recs s ! r) = None \<and>
      pn_state (pns s ! p) = notifyProcessInProgress \<and> r \<noteq> pn_chan (pns s ! p))")
    case True
    then show ?thesis using p ok by (auto simp: run)
  next
    case False
    let ?s' = "upd_rec r (\<lambda>c. c\<lparr>wait_on := True\<rparr>)
      (upd_pn p (\<lambda>n. n\<lparr>waitList := waitList n @ [r]\<rparr>) (upd_rec r (\<lambda>c. c\<lparr>ppn := Some p\<rparr>) s))"
    have rn: "\<not> wait_on (recs s ! r)" "restartList (recs s ! r) = []"
      using ok r False by (auto simp: book_ok_def owner_ok_def)
    have "queue_ok ?s' k" if "k < length (recs s)" for k
      using ok that r rn by (auto simp: book_ok_def queue_ok_def)
    moreover have "owner_ok ?s' k" if "k < length (recs s)" for k
    proof (cases "k = r")
      case True
      then show ?thesis using r pl False by (simp add: owner_ok_def may_own_def in_progress_def)
    next
      case other: False
      have "owner_ok s k" using ok that by (simp add: book_ok_def)
      then show ?thesis using that other by (auto simp: owner_ok_def may_own_def split: option.splits)
    qed
    moreover have "waits_ok {} ?s' k" if "k < length (pns s)" for k
    proof -
      have w: "waits_ok {} s k" using ok that by (simp add: book_ok_def)
      have "{j. j < length (recs s) \<and> ppn (recs ?s' ! j) = Some k} =
          {j. j < length (recs s) \<and> ppn (recs s ! j) = Some k} \<union> (if k = p then {r} else {})"
        using r False by (auto split: if_splits)
      then show ?thesis using w False that by (auto simp: waits_ok_def in_progress_def)
    qed
    ultimately have "book_ok ?s'" by (simp add: book_ok_def)
    moreover have "notify_frame s ?s'" by (simp add: notify_frame_rec rest_of_def)
    ultimately show ?thesis using False p rn r by (auto simp: run)
  qed
qed

end
