(* ===== verification/DbRequests.thy ===== *)
theory DbRequests
  imports DbNotifyInv
begin

text \<open>
  The state of each process-notify request: a request that waits is on the list of its record,
  one that is in progress waits for some record, one whose callback is due is in the queue of the
  callback task, and a blocked call of a client has its event to come. The history of a request
  alternates between being requested and its one outcome.
\<close>

section \<open>Histories\<close>

definition history :: "nat \<Rightarrow> db \<Rightarrow> notify_event list" where
  "history p s = map snd (filter (\<lambda>(q, _). q = p) (notify_log s))"

text \<open>Whether the request is under way after the events; \<open>None\<close>: they do not alternate.\<close>

fun step_event :: "bool option \<Rightarrow> notify_event \<Rightarrow> bool option" where
  "step_event (Some False) Requested = Some True"
| "step_event (Some True) Completed = Some False"
| "step_event (Some True) Canceled = Some False"
| "step_event _ _ = None"

definition under_way :: "notify_event list \<Rightarrow> bool option" where
  "under_way = foldl step_event (Some False)"

lemma under_way_Nil [simp]: "under_way [] = Some False"
  by (simp add: under_way_def)

lemma under_way_snoc [simp]: "under_way (l @ [ev]) = step_event (under_way l) ev"
  by (simp add: under_way_def)

lemma history_log [simp]:
  "history p (s\<lparr>notify_log := notify_log s @ [(q, ev)]\<rparr>) =
     history p s @ (if q = p then [ev] else [])"
  by (simp add: history_def)

section \<open>Requests\<close>

definition callback_due :: "notifyState \<Rightarrow> bool" where
  "callback_due st \<longleftrightarrow> st = notifyRestartCallbackRequested \<or> st = notifyUserCallbackRequested"

definition outstanding :: "processNotify \<Rightarrow> bool" where
  "outstanding n \<longleftrightarrow> pn_state n = notifyWaitForRestart \<or> in_progress (pn_state n) \<or>
     callback_due (pn_state n) \<and> \<not> cancelEvent n"

text \<open>The request in relation to its record and to the queues of records and callbacks.\<close>

definition place_ok :: "db \<Rightarrow> nat \<Rightarrow> bool" where
  "place_ok s p \<longleftrightarrow>
     (let n = pns s ! p; c = recs s ! pn_chan n in
      pn_chan n < length (recs s) \<and>
      (restart_on n \<longleftrightarrow> pn_state n = notifyWaitForRestart) \<and>
      (pn_state n = notifyWaitForRestart \<longrightarrow> p \<in> set (restartList c)) \<and>
      (in_progress (pn_state n) \<longrightarrow> waitList n \<noteq> []) \<and>
      (pn_state n = notifyRestartCallbackRequested \<and> \<not> cancelEvent n \<longrightarrow> ppn c = Some p) \<and>
      (cancelEvent n \<longrightarrow> (\<forall>x < length (recs s). ppn (recs s ! x) \<noteq> Some p)) \<and>
      (p \<in> set (notify_cbs s) \<longleftrightarrow> callback_due (pn_state n) \<and> \<not> cancelEvent n))"

text \<open>The request in relation to the tasks of clients.\<close>

definition client_ok :: "db \<Rightarrow> nat \<Rightarrow> bool" where
  "client_ok s p \<longleftrightarrow>
     (let n = pns s ! p; st = pn_state n; may_wait = callback_due st \<or> st = notifyUserCallbackActive in
      (pvt n \<longleftrightarrow> st \<noteq> notifyNotActive) \<and>
      (p \<in> set (calling s) \<longleftrightarrow>
         st = notifyUserCallbackActive \<and> \<not> cancelEvent n \<and> \<not> userCallbackEvent n) \<and>
      (p \<in> fst ` set (cancellers s) \<longleftrightarrow> may_wait \<and> (cancelWait n \<or> cancelEvent n)) \<and>
      (p \<in> fst ` set (restarters s) \<longleftrightarrow>
         st = notifyUserCallbackActive \<and> (userCallbackWait n \<or> userCallbackEvent n)) \<and>
      (cancelWait n \<longrightarrow> may_wait \<or> st = notifyNotActive) \<and>
      (cancelEvent n \<longrightarrow> may_wait) \<and>
      \<not> (userCallbackWait n \<and> userCallbackEvent n) \<and>
      (userCallbackWait n \<or> userCallbackEvent n \<longrightarrow>
         st = notifyUserCallbackActive \<and> \<not> cancelWait n \<and> \<not> cancelEvent n) \<and>
      under_way (history p s) = Some (outstanding n))"

definition tasks_ok :: "db \<Rightarrow> bool" where
  "tasks_ok s \<longleftrightarrow> distinct (notify_cbs s) \<and> distinct (calling s) \<and>
     set (notify_cbs s) \<union> set (calling s) \<union> fst ` set (cancellers s) \<union> fst ` set (restarters s)
       \<subseteq> {..<length (pns s)}"

text \<open>All requests but those of \<open>A\<close>.\<close>

definition reqs_but :: "nat set \<Rightarrow> db \<Rightarrow> bool" where
  "reqs_but A s \<longleftrightarrow> tasks_ok s \<and>
     (\<forall>p < length (pns s). p \<notin> A \<longrightarrow> place_ok s p \<and> client_ok s p)"

definition notify_ok :: "db \<Rightarrow> bool" where
  "notify_ok s \<longleftrightarrow> book_ok s \<and> reqs_but {} s"

lemmas req_defs = place_ok_def client_ok_def callback_due_def outstanding_def in_progress_def Let_def

lemma reqs_but_cong:
  assumes "length (recs s') = length (recs s)" "pns s' = pns s" "notify_cbs s' = notify_cbs s"
    and "calling s' = calling s" "cancellers s' = cancellers s" "restarters s' = restarters s"
    and "notify_log s' = notify_log s"
    and "\<And>x. x < length (recs s) \<Longrightarrow> notify_part (recs s' ! x) = notify_part (recs s ! x)"
  shows "reqs_but A s' = reqs_but A s"
proof -
  have eq: "ppn (recs s' ! x) = ppn (recs s ! x)" "restartList (recs s' ! x) = restartList (recs s ! x)"
    if "x < length (recs s)" for x
    using assms(8) [OF that] by (simp_all add: notify_part_def)
  have "place_ok s' p = place_ok s p" for p
    using assms(1-3) eq by (auto simp: place_ok_def Let_def)
  moreover have "client_ok s' p = client_ok s p" for p
    using assms(2,4-7) by (simp add: client_ok_def history_def)
  ultimately show ?thesis
    using assms(2-6) by (simp add: reqs_but_def tasks_ok_def)
qed

lemma notify_ok_cong:
  assumes "length (recs s') = length (recs s)" "pns s' = pns s" "notify_cbs s' = notify_cbs s"
    and "calling s' = calling s" "cancellers s' = cancellers s" "restarters s' = restarters s"
    and "notify_log s' = notify_log s"
    and "\<And>x. x < length (recs s) \<Longrightarrow> notify_part (recs s' ! x) = notify_part (recs s ! x)"
  shows "notify_ok s' = notify_ok s"
  using book_ok_cong [OF assms(1,2,8)] reqs_but_cong [OF assms] by (simp add: notify_ok_def)

section \<open>What record processing calls\<close>

lemma reqs_release:
  assumes s: "reqs_but A s" and r: "r < length (recs s)" and own: "ppn (recs s ! r) = Some p"
    and p: "p \<in> A \<or> pn_state (pns s ! p) \<noteq> notifyRestartCallbackRequested"
    and rl: "restartList (recs s ! r) = []"
  shows "reqs_but A (upd_rec r (\<lambda>c. c\<lparr>ppn := None\<rparr>) s)"
proof -
  have "place_ok (upd_rec r (\<lambda>c. c\<lparr>ppn := None\<rparr>) s) k"
    if "k < length (pns s)" "k \<notin> A" for k
    using s that own p rl by (auto simp: reqs_but_def place_ok_def Let_def)
  then show ?thesis
    using s by (simp add: reqs_but_def tasks_ok_def client_ok_def history_def)
qed

lemma reqs_pass_on:
  assumes s: "reqs_but A s" and r: "r < length (recs s)" and own: "ppn (recs s ! r) = Some p"
    and p: "p \<in> A \<or> pn_state (pns s ! p) \<noteq> notifyRestartCallbackRequested"
    and q: "queue_ok s r" "restartList (recs s ! r) = q # rest" and A: "q \<notin> A"
  shows "reqs_but A (pass_on r q s)"
proof -
  let ?s' = "pass_on r q s"
  have ql: "q < length (pns s)" "pn_state (pns s ! q) = notifyWaitForRestart" "pn_chan (pns s ! q) = r"
    using q by (auto simp: queue_ok_def)
  have qp: "place_ok s q" "client_ok s q" using s ql(1) A by (auto simp: reqs_but_def)
  have ev: "\<not> cancelEvent (pns s ! q)" "q \<notin> set (notify_cbs s)" "\<not> cancelWait (pns s ! q)"
    using qp ql(2) by (auto simp: req_defs)
  have "tasks_ok ?s'" using s ql(1) ev(2) by (simp add: reqs_but_def tasks_ok_def pass_on_def)
  moreover have "place_ok ?s' k" if k: "k < length (pns s)" "k \<notin> A" for k
  proof (cases "k = q")
    case True
    then show ?thesis using qp ql ev r by (auto simp: req_defs pass_on_def)
  next
    case False
    have pk: "place_ok s k" using s k by (simp add: reqs_but_def)
    have "k \<noteq> p \<or> pn_state (pns s ! k) \<noteq> notifyRestartCallbackRequested" using p k by auto
    then show ?thesis
      using pk False q(2) own k ev(1) by (auto simp: place_ok_def Let_def pass_on_def)
  qed
  moreover have "client_ok ?s' k" if k: "k < length (pns s)" "k \<notin> A" for k
  proof -
    have ck: "client_ok s k" using s k by (simp add: reqs_but_def)
    show ?thesis
    proof (cases "k = q")
      case True
      then show ?thesis using qp(2) ql ev by (simp add: req_defs pass_on_def history_def)
    next
      case False
      then show ?thesis using ck k by (simp add: client_ok_def pass_on_def history_def)
    qed
  qed
  ultimately show ?thesis by (simp add: reqs_but_def pass_on_def)
qed

text \<open>A record without new waits.\<close>

definition fewer_waits :: "db \<Rightarrow> db \<Rightarrow> bool" where
  "fewer_waits s s' \<longleftrightarrow> (\<forall>x < length (recs s). wait_on (recs s' ! x) \<longrightarrow> wait_on (recs s ! x))"

lemma restartCheck_reqs:
  assumes ok: "book_ok_but r s" and s: "reqs_but A s" and r: "r < length (recs s)"
    and own: "ppn (recs s ! r) = Some p" "p \<in> A \<or> pn_state (pns s ! p) \<noteq> notifyRestartCallbackRequested"
    and pw: "p < length (pns s)" "pn_state (pns s ! p) \<noteq> notifyWaitForRestart"
    and A: "\<And>q. q \<in> A \<Longrightarrow> pn_state (pns s ! q) \<noteq> notifyWaitForRestart"
  shows "\<exists>s'. restartCheck r s = Done () s' \<and> book_ok s' \<and> reqs_but A s' \<and> notify_frame s s' \<and>
    fewer_waits s s' \<and> ppn (recs s' ! r) \<noteq> Some p \<and>
    pns s' ! p = pns s ! p \<and> (p \<in> set (notify_cbs s') \<longleftrightarrow> p \<in> set (notify_cbs s))"
proof -
  obtain s' where run: "restartCheck r s = Done () s'" "book_ok s'" "notify_frame s s'"
    using restartCheck_ok [OF ok r] own(1) by auto
  show ?thesis
  proof (cases "restartList (recs s ! r)")
    case Nil
    then have "s' = upd_rec r (\<lambda>c. c\<lparr>ppn := None\<rparr>) s"
      using run(1) own(1) by (simp add: restartCheck_def dbm_defs)
    then show ?thesis using run reqs_release [OF s r own Nil] r by (auto simp: fewer_waits_def)
  next
    case (Cons q rest)
    have qk: "queue_ok s r" using ok r by (simp add: book_ok_but_def)
    then have q: "q < length (pns s)" "pn_state (pns s ! q) = notifyWaitForRestart" "restart_on (pns s ! q)"
      using Cons by (auto simp: queue_ok_def)
    then have s': "s' = pass_on r q s"
      using run(1) restartCheck_run [OF r _ Cons] own(1) by simp
    have "q \<notin> A" using A q(2) by auto
    note reqs = reqs_pass_on [OF s r own qk Cons this]
    show ?thesis
      using run reqs q r s' pw by (auto simp: pass_on_def fewer_waits_def)
  qed
qed

text \<open>
  A request in the hands of a task: no callback of it is due and no client waits for it. All that
  is left to say is its state.
\<close>

definition in_hand :: "db \<Rightarrow> nat \<Rightarrow> bool" where
  "in_hand s p \<longleftrightarrow>
     (let n = pns s ! p in
      p < length (pns s) \<and> pn_chan n < length (recs s) \<and> pvt n \<and> \<not> restart_on n \<and>
      \<not> cancelWait n \<and> \<not> cancelEvent n \<and> \<not> userCallbackWait n \<and> \<not> userCallbackEvent n \<and>
      p \<notin> set (notify_cbs s) \<and> p \<notin> set (calling s) \<and> p \<notin> fst ` set (cancellers s) \<and>
      p \<notin> fst ` set (restarters s) \<and> under_way (history p s) = Some True)"

lemma in_hand_progress:
  "p < length (pns s) \<Longrightarrow> place_ok s p \<Longrightarrow> client_ok s p \<Longrightarrow> in_progress (pn_state (pns s ! p)) \<Longrightarrow>
   in_hand s p"
  by (cases "pn_state (pns s ! p)") (simp_all add: req_defs in_hand_def)

lemma reqs_but_all:
  "reqs_but {p} s \<Longrightarrow> place_ok s p \<Longrightarrow> client_ok s p \<Longrightarrow> reqs_but {} s"
  by (auto simp: reqs_but_def)

lemma reqs_but_mono: "reqs_but A s \<Longrightarrow> A \<subseteq> B \<Longrightarrow> reqs_but B s"
  by (auto simp: reqs_but_def)

text \<open>Changes to the request itself do not matter for the others.\<close>

lemma reqs_but_upd_pn: "reqs_but {p} (upd_pn p f s) = reqs_but {p} s"
  by (auto simp: reqs_but_def tasks_ok_def place_ok_def client_ok_def history_def Let_def)

lemma reqs_but_wait: "reqs_but A (upd_rec r (\<lambda>c. c\<lparr>wait_on := b\<rparr>) s) = reqs_but A s"
proof -
  have eq: "ppn (recs (upd_rec r (\<lambda>c. c\<lparr>wait_on := b\<rparr>) s) ! x) = ppn (recs s ! x)"
    "restartList (recs (upd_rec r (\<lambda>c. c\<lparr>wait_on := b\<rparr>) s) ! x) = restartList (recs s ! x)"
    if "x < length (recs s)" for x
    using that by simp_all
  have "place_ok (upd_rec r (\<lambda>c. c\<lparr>wait_on := b\<rparr>) s) k = place_ok s k" for k
    by (cases "pn_chan (pns s ! k) < length (recs s)") (simp_all add: place_ok_def Let_def eq del: recs_upd_rec)
  then show ?thesis by (simp add: reqs_but_def tasks_ok_def client_ok_def history_def)
qed

text \<open>Its callback is requested.\<close>

lemma reqs_callback:
  assumes s: "reqs_but {p} s" and p: "in_hand s p" and st: "callback_due (pn_state (pns s ! p))"
    and own: "pn_state (pns s ! p) = notifyRestartCallbackRequested \<Longrightarrow>
      ppn (recs s ! pn_chan (pns s ! p)) = Some p"
  shows "reqs_but {} (s\<lparr>notify_cbs := notify_cbs s @ [p]\<rparr>)"
proof (rule reqs_but_all)
  let ?s' = "s\<lparr>notify_cbs := notify_cbs s @ [p]\<rparr>"
  show "reqs_but {p} ?s'"
    using s p by (auto simp: reqs_but_def tasks_ok_def in_hand_def place_ok_def client_ok_def history_def Let_def)
  show "place_ok ?s' p" using p st own by (auto simp: in_hand_def req_defs)
  show "client_ok ?s' p" using p st by (auto simp: in_hand_def req_defs history_def)
qed

lemma dbNotifyCompletion_ok:
  assumes ok: "notify_ok s" and r: "r < length (recs s)" and own: "ppn (recs s ! r) \<noteq> None"
  shows "\<exists>s'. dbNotifyCompletion r s = Done () s' \<and> notify_ok s' \<and> notify_frame s s' \<and>
    fewer_waits s s' \<and> \<not> wait_on (recs s' ! r)"
proof -
  obtain p where p: "ppn (recs s ! r) = Some p" using own by auto
  have bk: "book_ok s" "reqs_but {} s" using ok by (simp_all add: notify_ok_def)
  have pl: "p < length (pns s)" "may_own (pns s ! p) r"
    and wt: "wait_on (recs s ! r) = in_progress (pn_state (pns s ! p))"
    using bk r p by (auto simp: book_ok_def owner_ok_def)
  have pp: "place_ok s p" "client_ok s p" using bk(2) pl(1) by (auto simp: reqs_but_def)
  show ?thesis
  proof (cases "in_progress (pn_state (pns s ! p))")
    case False
    then show ?thesis
      using p ok wt by (auto simp: dbNotifyCompletion_def dbm_defs get_pn_def in_progress_def fewer_waits_def)
  next
    case True
    have ih: "in_hand s p" by (rule in_hand_progress [OF pl(1) pp True])
    let ?s1 = "upd_rec r (\<lambda>c. c\<lparr>wait_on := False\<rparr>) (upd_pn p (\<lambda>n. n\<lparr>waitList := remove1 r (waitList n)\<rparr>) s)"
    have del: "ellSafeDelete_wait p r s = Done () ?s1" and ok1: "book_ok_but r ?s1"
      using delete_wait_ok [OF bk(1) r p True] by auto
    have reqs1: "reqs_but {p} ?s1"
      unfolding reqs_but_wait reqs_but_upd_pn by (rule reqs_but_mono [OF bk(2)]) simp
    have f1: "notify_frame s ?s1" by (simp add: notify_frame_rec rest_of_def)
    have fw1: "fewer_waits s ?s1" using r by (simp add: fewer_waits_def)
    have nw: "pn_state (pns s ! p) \<noteq> notifyWaitForRestart" using True by (auto simp: in_progress_def)
    have nw1: "\<not> wait_on (recs ?s1 ! r)" "r < length (recs ?s1)" using r by simp_all
    note run = dbNotifyCompletion_def dbm_defs get_pn_def set_state_def callbackRequest_def
    show ?thesis
    proof (cases "waitList (pns ?s1 ! p) = []")
      case False
      have "place_ok ?s1 p" "client_ok ?s1 p"
        using pp False True pl(1) r
        by (auto simp: place_ok_def client_ok_def Let_def outstanding_def history_def)
      from reqs_but_all [OF reqs1 this]
      obtain s2 where s2: "restartCheck r ?s1 = Done () s2" "book_ok s2" "reqs_but {} s2"
        "notify_frame ?s1 s2" "fewer_waits ?s1 s2"
        using restartCheck_reqs [OF ok1 _ nw1(2), of "{}" p] p True pl(1) r
        by (auto simp: in_progress_def)
      then have "dbNotifyCompletion r s = Done () s2"
        using p True del False pl(1) by (auto simp: run in_progress_def)
      moreover have "notify_frame s s2" by (rule notify_frame_trans [OF f1 s2(4)])
      moreover have "fewer_waits s s2" "\<not> wait_on (recs s2 ! r)"
        using s2(5) nw1 r by (auto simp: fewer_waits_def split: if_splits)
      ultimately show ?thesis using s2(2,3) by (simp add: notify_ok_def)
    next
      case empty: True
      show ?thesis
      proof (cases "pn_state (pns s ! p) = notifyProcessInProgress")
        case pip: True
        let ?s2 = "upd_pn p (\<lambda>n. n\<lparr>pn_state := notifyUserCallbackRequested\<rparr>) ?s1"
        have ok2: "book_ok_but r ?s2"
          by (rule book_ok_but_state [OF ok1]) (use pl True empty in \<open>simp_all add: in_progress_def\<close>)
        have reqs2: "reqs_but {p} ?s2" by (simp only: reqs_but_upd_pn reqs1)
        obtain s3 where s3: "restartCheck r ?s2 = Done () s3" "book_ok s3" "reqs_but {p} s3"
          "notify_frame ?s2 s3" "fewer_waits ?s2 s3" "pns s3 ! p = pns ?s2 ! p"
          "p \<notin> set (notify_cbs s3)"
          using restartCheck_reqs [OF ok2 reqs2, of p] p pl(1) r ih
          by (auto simp: in_hand_def Let_def)
        have fr: "notify_frame s s3" using notify_frame_trans [OF _ s3(4), of s] f1 by simp
        have "in_hand s3 p"
          using s3(6,7) fr ih pl(1) by (auto simp: in_hand_def Let_def history_def notify_frame_def)
        then have "reqs_but {} (s3\<lparr>notify_cbs := notify_cbs s3 @ [p]\<rparr>)"
          using s3(6) pl(1) by (intro reqs_callback [OF s3(3)]) (auto simp: callback_due_def)
        moreover have "book_ok (s3\<lparr>notify_cbs := notify_cbs s3 @ [p]\<rparr>)"
          using s3(2) by (subst book_ok_cong) auto
        moreover have "dbNotifyCompletion r s = Done () (s3\<lparr>notify_cbs := notify_cbs s3 @ [p]\<rparr>)"
          using s3(1) del empty pip p by (simp add: run)
        moreover have "fewer_waits s s3" "\<not> wait_on (recs s3 ! r)"
          using s3(5) nw1 r by (auto simp: fewer_waits_def split: if_splits)
        ultimately show ?thesis using fr by (simp add: notify_ok_def fewer_waits_def)
      next
        case rip: False
        let ?s2 = "upd_pn p (\<lambda>n. n\<lparr>pn_state := notifyRestartCallbackRequested\<rparr>) ?s1"
        have ok2: "book_ok_but r ?s2"
          by (rule book_ok_but_state [OF ok1]) (use pl True empty in \<open>simp_all add: in_progress_def\<close>)
        have reqs2: "reqs_but {p} ?s2" by (simp only: reqs_but_upd_pn reqs1)
        have chan: "pn_chan (pns s ! p) = r"
          using pl(2) rip True by (simp add: may_own_def in_progress_def)
        have bk2: "book_ok ?s2"
          using r pl(1) p chan by (intro book_ok_restart [OF ok2, of p]) simp_all
        have "in_hand ?s2 p" using ih pl(1) r by (auto simp: in_hand_def Let_def history_def)
        then have "reqs_but {} (?s2\<lparr>notify_cbs := notify_cbs ?s2 @ [p]\<rparr>)"
          using pl(1) p r chan by (intro reqs_callback [OF reqs2]) (auto simp: callback_due_def)
        moreover have "book_ok (?s2\<lparr>notify_cbs := notify_cbs ?s2 @ [p]\<rparr>)"
          using bk2 by (subst book_ok_cong) auto
        ultimately show ?thesis
          using del empty rip True p f1 fw1 nw1 r
          by (simp add: run in_progress_def notify_ok_def) (auto simp: fewer_waits_def)
      qed
    qed
  qed
qed

lemma reqs_append:
  assumes s: "reqs_but {} s" and p: "p < length (pns s)"
  shows "reqs_but {} (upd_pn p (\<lambda>n. n\<lparr>waitList := waitList n @ [r]\<rparr>) s)" (is "reqs_but {} ?s'")
proof (rule reqs_but_all)
  show "reqs_but {p} ?s'" unfolding reqs_but_upd_pn by (rule reqs_but_mono [OF s]) simp
  have "place_ok s p" "client_ok s p" using s p by (simp_all add: reqs_but_def)
  then show "place_ok ?s' p" "client_ok ?s' p"
    using p by (simp_all add: place_ok_def client_ok_def Let_def outstanding_def history_def)
qed

text \<open>A record joins the wait list of a request; only that record can be one that waits anew.\<close>

lemma reqs_join:
  assumes s: "reqs_but {} s" and r: "r < length (recs s)" "ppn (recs s ! r) = None"
    and p: "p < length (pns s)" "in_progress (pn_state (pns s ! p))"
  shows "reqs_but {} (upd_rec r (\<lambda>c. c\<lparr>wait_on := True\<rparr>)
    (upd_pn p (\<lambda>n. n\<lparr>waitList := waitList n @ [r]\<rparr>) (upd_rec r (\<lambda>c. c\<lparr>ppn := Some p\<rparr>) s)))"
proof -
  let ?s1 = "upd_rec r (\<lambda>c. c\<lparr>ppn := Some p\<rparr>) s"
  have ev: "\<not> cancelEvent (pns s ! p)"
    using s p in_hand_progress [of p s] by (simp add: reqs_but_def in_hand_def Let_def)
  have "place_ok ?s1 k" if "k < length (pns s)" for k
    using s that r ev by (auto simp: reqs_but_def place_ok_def Let_def)
  then have s1: "reqs_but {} ?s1"
    using s by (simp add: reqs_but_def tasks_ok_def client_ok_def history_def)
  show ?thesis unfolding reqs_but_wait by (rule reqs_append [OF s1]) (simp add: p)
qed

lemma dbNotifyAdd_ok:
  assumes ok: "notify_ok s" and x: "x < length (recs s)" and r: "r < length (recs s)"
    and own: "ppn (recs s ! x) \<noteq> None"
  shows "\<exists>s'. dbNotifyAdd x r s = Done () s' \<and> notify_ok s' \<and> notify_frame s s' \<and>
    (\<forall>k < length (recs s). k \<noteq> r \<longrightarrow> wait_on (recs s' ! k) = wait_on (recs s ! k))"
proof -
  obtain p where p: "ppn (recs s ! x) = Some p" using own by auto
  have bk: "book_ok s" "reqs_but {} s" using ok by (simp_all add: notify_ok_def)
  have pl: "p < length (pns s)" using bk x p by (auto simp: book_ok_def owner_ok_def)
  obtain s' where s': "dbNotifyAdd x r s = Done () s'" "book_ok s'" "notify_frame s s'"
    using dbNotifyAdd_book [OF bk(1) x r own] by auto
  note run = dbNotifyAdd_def ellSafeAdd_wait_def dbm_defs get_pn_def
  show ?thesis
  proof (cases "pact (recs s ! r) \<or> \<not> (ppn (recs s ! r) = None \<and>
      pn_state (pns s ! p) = notifyProcessInProgress \<and> r \<noteq> pn_chan (pns s ! p))")
    case True
    then have "s' = s" using p s'(1) by (auto simp: run split: if_splits)
    then show ?thesis using s' bk by (simp add: notify_ok_def)
  next
    case False
    have "\<not> wait_on (recs s ! r)"
      using bk(1) r False by (auto simp: book_ok_def owner_ok_def)
    then have eq: "s' = upd_rec r (\<lambda>c. c\<lparr>wait_on := True\<rparr>)
      (upd_pn p (\<lambda>n. n\<lparr>waitList := waitList n @ [r]\<rparr>) (upd_rec r (\<lambda>c. c\<lparr>ppn := Some p\<rparr>) s))"
      using False p s'(1) r by (simp add: run)
    have "reqs_but {} s'"
      unfolding eq using False by (intro reqs_join [OF bk(2) r]) (auto simp: pl in_progress_def)
    then show ?thesis using s' eq by (simp add: notify_ok_def)
  qed
qed

end
