(* ===== verification/DbFlow.thy ===== *)
theory DbFlow
  imports DbRequests
begin

text \<open>
  What the operations of record processing do to the flags that control it. An operation that
  processes nothing is \<open>simple\<close>: it changes neither the configuration nor the flags of any
  record. An operation that a record \<open>r\<close> performs while it is processed \<open>serves\<close> it: the flags
  of \<open>r\<close> that say whether it is active are restored, and the other records are left in order.
\<close>

section \<open>Configuration, flags, invariant\<close>

text \<open>The fields that processing does not write.\<close>

definition config where
  "config p = (scan p, sdis p, tsel p, flnk p, inp p, out p, rset p, dset p, rpcl p, orpc p, aftc p)"

definition flags :: "dbrec \<Rightarrow> bool \<times> bool \<times> bool \<times> bool" where
  "flags p = (pact p, putf p, rpro p, dlya p)"

definition link_ok :: "nat \<Rightarrow> link \<Rightarrow> bool" where
  "link_ok N lk \<longleftrightarrow> (case lk of DB_LINK t f pp ms \<Rightarrow> t < N | _ \<Rightarrow> True)"

definition rec_ok :: "nat \<Rightarrow> dbrec \<Rightarrow> bool" where
  "rec_ok N p \<longleftrightarrow> link_ok N (sdis p) \<and> link_ok N (tsel p) \<and> link_ok N (flnk p) \<and> link_ok N (out p) \<and>
     (\<forall>i < CALC_NARGS. link_ok N (inp p ! i))"

text \<open>A delayed callback is for an active \<^verbatim>\<open>calcout\<close> record that waits for it.\<close>

definition delayed_ok :: "db \<Rightarrow> bool" where
  "delayed_ok s \<longleftrightarrow> distinct (delayed s) \<and>
     (\<forall>x \<in> set (delayed s). x < length (recs s) \<and> pact (recs s ! x) \<and> dlya (recs s ! x) \<and>
        rset (recs s ! x) = calcoutRSET)"

definition db_ok :: "db \<Rightarrow> bool" where
  "db_ok s \<longleftrightarrow> (\<forall>x < length (recs s). rec_ok (length (recs s)) (recs s ! x)) \<and>
     notify_ok s \<and> delayed_ok s \<and> set (onceQ s) \<subseteq> {..<length (recs s)}"

definition same_config :: "db \<Rightarrow> db \<Rightarrow> bool" where
  "same_config s s' \<longleftrightarrow> length (recs s') = length (recs s) \<and>
     (\<forall>x < length (recs s). config (recs s' ! x) = config (recs s ! x))"

text \<open>The faults that the programs and filter settings of the records can cause.\<close>

definition rec_crash :: "env \<Rightarrow> dbrec \<Rightarrow> fault \<Rightarrow> bool" where
  "rec_crash e p f \<longleftrightarrow>
     (\<exists>g sd as v. f = Calc_fault g \<and>
        (calcPerform (fp e) (junk e) sd as v (rpcl p) = CFault g \<or>
         calcPerform (fp e) (junk e) sd as v (orpc p) = CFault g)) \<or>
     f = Range_fault \<and> fp_lt (fp e) 0 (aftc p)"

definition may_crash :: "env \<Rightarrow> db \<Rightarrow> fault \<Rightarrow> bool" where
  "may_crash e s f \<longleftrightarrow> (\<exists>x < length (recs s). rec_crash e (recs s ! x) f)"

lemma same_config_refl [simp]: "same_config s s"
  by (simp add: same_config_def)

lemma same_config_trans [trans]: "same_config s t \<Longrightarrow> same_config t u \<Longrightarrow> same_config s u"
  by (simp add: same_config_def)

lemma config_fields:
  assumes "config p = config q"
  shows "scan p = scan q" "sdis p = sdis q" "tsel p = tsel q" "flnk p = flnk q" "inp p = inp q"
    "out p = out q" "rset p = rset q" "dset p = dset q" "rpcl p = rpcl q" "orpc p = orpc q"
    "aftc p = aftc q"
  using assms by (simp_all add: config_def)

lemma flags_fields:
  assumes "flags p = flags q"
  shows "pact p = pact q" "putf p = putf q" "rpro p = rpro q" "dlya p = dlya q"
  using assms by (simp_all add: flags_def)

lemma rec_ok_config: "config p = config q \<Longrightarrow> rec_ok N p = rec_ok N q"
  using config_fields [of p q] by (simp add: rec_ok_def)

lemma rec_crash_config: "config p = config q \<Longrightarrow> rec_crash e p f = rec_crash e q f"
  using config_fields [of p q] by (simp add: rec_crash_def)

lemma may_crash_config: "same_config s s' \<Longrightarrow> may_crash e s' f \<Longrightarrow> may_crash e s f"
  unfolding may_crash_def same_config_def using rec_crash_config by metis

section \<open>Simple operations\<close>

definition calm :: "db \<Rightarrow> db \<Rightarrow> bool" where
  "calm s s' \<longleftrightarrow> same_config s s' \<and> delayed s' = delayed s \<and> fewer_waits s s' \<and>
     set (onceQ s') \<subseteq> set (onceQ s) \<union> {..<length (recs s)} \<and>
     (\<forall>x < length (recs s). flags (recs s' ! x) = flags (recs s ! x))"

lemma calm_refl [simp]: "calm s s"
  by (simp add: calm_def fewer_waits_def)

lemma calm_trans: "calm s t \<Longrightarrow> calm t u \<Longrightarrow> calm s u"
  by (auto simp: calm_def same_config_def fewer_waits_def)

lemma calm_length: "calm s s' \<Longrightarrow> length (recs s') = length (recs s)"
  by (simp add: calm_def same_config_def)

lemma calm_db_ok:
  assumes "calm s s'" "db_ok s" "notify_ok s'"
  shows "db_ok s'"
proof -
  have "rec_ok (length (recs s)) (recs s' ! x)" if "x < length (recs s)" for x
    using assms(1,2) that rec_ok_config unfolding calm_def same_config_def db_ok_def by metis
  moreover have "delayed_ok s'"
  proof -
    have "pact (recs s' ! x) \<and> dlya (recs s' ! x) \<and> rset (recs s' ! x) = calcoutRSET"
      if "x \<in> set (delayed s)" for x
    proof -
      have x: "x < length (recs s)" "pact (recs s ! x)" "dlya (recs s ! x)"
        "rset (recs s ! x) = calcoutRSET"
        using that assms(2) by (auto simp: db_ok_def delayed_ok_def)
      then have "flags (recs s' ! x) = flags (recs s ! x)" "config (recs s' ! x) = config (recs s ! x)"
        using assms(1) by (auto simp: calm_def same_config_def)
      then show ?thesis using x config_fields(7) flags_fields(1,4) by metis
    qed
    then show ?thesis
      using assms(1,2) by (auto simp: calm_def same_config_def db_ok_def delayed_ok_def)
  qed
  moreover have "set (onceQ s') \<subseteq> {..<length (recs s)}"
    using assms(1,2) by (auto simp: calm_def db_ok_def)
  ultimately show ?thesis using assms by (simp add: db_ok_def calm_length)
qed

text \<open>The outcome of a simple operation in the state \<open>s\<close>.\<close>

definition calm_run :: "env \<Rightarrow> db \<Rightarrow> 'a res \<Rightarrow> bool" where
  "calm_run e s res \<longleftrightarrow>
     (case res of Done x s' \<Rightarrow> calm s s' \<and> notify_ok s' | Crash f \<Rightarrow> may_crash e s f | NoFuel \<Rightarrow> False)"

definition simple :: "env \<Rightarrow> nat \<Rightarrow> 'a dbm \<Rightarrow> bool" where
  "simple e N m \<longleftrightarrow> (\<forall>s. length (recs s) = N \<and> db_ok s \<longrightarrow> calm_run e s (m s))"

named_theorems simple_rules \<open>rules for simple operations\<close>

lemma simple_ret [simple_rules]: "simple e N (dret x)"
  by (simp add: simple_def calm_run_def dret_def db_ok_def)

lemma calm_run_bind:
  assumes m: "calm_run e s (m s)" and s: "db_ok s" "length (recs s) = N"
    and k: "\<And>x. simple e N (k x)"
  shows "calm_run e s (dbind m k s)"
proof (cases "m s")
  case (Done x s1)
  then have s1: "calm s s1" "notify_ok s1" using m by (auto simp: calm_run_def)
  have "length (recs s1) = N \<and> db_ok s1" using calm_db_ok [OF s1(1)] s s1 by (simp add: calm_length)
  then have "calm_run e s1 (k x s1)" using k [of x] by (simp add: simple_def)
  moreover have "same_config s s1" using s1(1) by (simp add: calm_def)
  ultimately show ?thesis
    using Done calm_trans [OF s1(1)] may_crash_config
    by (cases "k x s1") (auto simp: dbind_def calm_run_def)
qed (use m in \<open>auto simp: calm_run_def dbind_def\<close>)

lemma simple_bind [simple_rules]:
  "simple e N m \<Longrightarrow> (\<And>x. simple e N (k x)) \<Longrightarrow> simple e N (dbind m k)"
  unfolding simple_def [of _ _ "dbind m k"] by (blast intro: calm_run_bind dest: simple_def [THEN iffD1])

lemma simple_then [simple_rules]:
  "simple e N m \<Longrightarrow> simple e N k \<Longrightarrow> simple e N (dthen m k)"
  unfolding dthen_def by (rule simple_bind)

lemma simple_if [simple_rules]:
  "(b \<Longrightarrow> simple e N m) \<Longrightarrow> (\<not> b \<Longrightarrow> simple e N k) \<Longrightarrow> simple e N (if b then m else k)"
  by simp

lemma simple_when [simple_rules]: "(b \<Longrightarrow> simple e N m) \<Longrightarrow> simple e N (dwhen b m)"
  by (simp add: dwhen_def simple_ret)

lemma simple_get [simple_rules]: "simple e N (dget f)"
  by (simp add: simple_def calm_run_def dget_def db_ok_def)

lemma simple_getr [simple_rules]: "simple e N (getr r f)"
  unfolding getr_def by (rule simple_get)

text \<open>Updates of fields that matter neither for the configuration nor for the flags.\<close>

definition stable :: "(dbrec \<Rightarrow> dbrec) \<Rightarrow> bool" where
  "stable f \<longleftrightarrow>
     (\<forall>p. config (f p) = config p \<and> flags (f p) = flags p \<and> notify_part (f p) = notify_part p)"

lemmas stable_simps = stable_def config_def flags_def notify_part_def

lemma simple_updr [simple_rules]: "stable f \<Longrightarrow> simple e N (updr r f)"
proof (simp add: simple_def calm_run_def updr_def dmod_def, intro allI impI conjI)
  fix s assume f: "stable f" and s: "length (recs s) = N \<and> db_ok s"
  show "calm s (upd_rec r f s)"
    using f by (simp add: calm_def same_config_def stable_def fewer_waits_def notify_part_def)
  show "notify_ok (upd_rec r f s)"
    using f s by (subst notify_ok_cong [of _ s]) (auto simp: stable_def db_ok_def)
qed

lemma simple_dmod [simple_rules]:
  assumes "\<And>s. recs (f s) = recs s" "\<And>s. pns (f s) = pns s" "\<And>s. delayed (f s) = delayed s"
    "\<And>s. onceQ (f s) = onceQ s" "\<And>s. notify_cbs (f s) = notify_cbs s"
    "\<And>s. calling (f s) = calling s" "\<And>s. cancellers (f s) = cancellers s"
    "\<And>s. restarters (f s) = restarters s" "\<And>s. notify_log (f s) = notify_log s"
  shows "simple e N (dmod f)"
proof -
  have "notify_ok (f s) = notify_ok s" for s
    using assms by (intro notify_ok_cong) simp_all
  then show ?thesis
    using assms by (simp add: simple_def calm_run_def dmod_def calm_def same_config_def db_ok_def fewer_waits_def)
qed

lemma simple_post [simple_rules]: "simple e N (post_monitor r f m)"
  unfolding post_monitor_def by (rule simple_dmod) simp_all

lemma rest_of_eq: "rest_of p = rest_of q \<Longrightarrow> config p = config q \<and> flags p = flags q"
  by (cases p, cases q) (simp add: rest_of_def config_def flags_def)

lemma notify_frame_calm: "notify_frame s s' \<Longrightarrow> fewer_waits s s' \<Longrightarrow> calm s s'"
proof -
  assume f: "notify_frame s s'" "fewer_waits s s'"
  have "config (recs s' ! x) = config (recs s ! x) \<and> flags (recs s' ! x) = flags (recs s ! x)"
    if "x < length (recs s)" for x
    using f that by (intro rest_of_eq) (simp add: notify_frame_def)
  with f show "calm s s'" by (simp add: calm_def same_config_def notify_frame_def)
qed

text \<open>Process-notify: the calls are guarded by a test for an owner.\<close>

lemma simple_guarded:
  assumes "\<And>s. length (recs s) = N \<Longrightarrow> db_ok s \<Longrightarrow> ppn (recs s ! r) \<noteq> None \<Longrightarrow>
    \<exists>s'. m s = Done () s' \<and> notify_ok s' \<and> notify_frame s s' \<and> fewer_waits s s'"
  shows "simple e N (dbind (getr r ppn) (\<lambda>owner. dwhen (owner \<noteq> None) m))"
  unfolding simple_def
proof (intro allI impI)
  fix s assume s: "length (recs s) = N \<and> db_ok s"
  show "calm_run e s (dbind (getr r ppn) (\<lambda>owner. dwhen (owner \<noteq> None) m) s)"
  proof (cases "ppn (recs s ! r)")
    case None
    then show ?thesis using s by (simp add: calm_run_def dbm_defs db_ok_def)
  next
    case (Some p)
    then obtain s' where "m s = Done () s'" "notify_ok s'" "notify_frame s s'" "fewer_waits s s'"
      using assms [of s] s by auto
    then show ?thesis using Some notify_frame_calm [of s s'] by (simp add: calm_run_def dbm_defs)
  qed
qed

lemma simple_completion [simple_rules]:
  "r < N \<Longrightarrow> simple e N (dbind (getr r ppn) (\<lambda>owner. dwhen (owner \<noteq> None) (dbNotifyCompletion r)))"
proof (rule simple_guarded)
  fix s assume "r < N" "length (recs s) = N" "db_ok s" "ppn (recs s ! r) \<noteq> None"
  then show "\<exists>s'. dbNotifyCompletion r s = Done () s' \<and> notify_ok s' \<and> notify_frame s s' \<and> fewer_waits s s'"
    using dbNotifyCompletion_ok [of s r] by (auto simp: db_ok_def)
qed

text \<open>Afterwards the record is on no wait list.\<close>

lemma completion_waits:
  assumes "db_ok s" "r < length (recs s)"
    and "dbind (getr r ppn) (\<lambda>owner. dwhen (owner \<noteq> None) (dbNotifyCompletion r)) s = Done () s'"
  shows "\<not> wait_on (recs s' ! r)"
proof (cases "ppn (recs s ! r)")
  case None
  then have "owner_ok s r" using assms(1,2) by (simp add: db_ok_def notify_ok_def book_ok_def)
  with None show ?thesis using assms(3) by (simp add: dbm_defs owner_ok_def)
next
  case (Some p)
  then show ?thesis
    using dbNotifyCompletion_ok [of s r] assms by (auto simp: dbm_defs db_ok_def)
qed

section \<open>The simple operations\<close>

lemma simple_setSevr [simple_rules]: "simple e N (recGblSetSevr r st sv)"
  unfolding recGblSetSevr_def by (intro simple_rules) (simp add: stable_simps)

lemma simple_raise [simple_rules]: "simple e N (raise_sevr r st sv)"
  unfolding raise_sevr_def by (intro simple_rules)

lemma simple_inherit [simple_rules]: "simple e N (recGblInheritSevr ms r st sv)"
  unfolding recGblInheritSevr_def by (cases ms) (simp_all add: simple_ret simple_raise)

lemma simple_resetAlarms [simple_rules]: "simple e N (recGblResetAlarms r)"
  unfolding recGblResetAlarms_def Let_def by (intro simple_rules) (simp_all add: stable_simps)

lemma simple_putAckt [simple_rules]: "simple e N (putAckt r w)"
  unfolding putAckt_def by (intro simple_rules) (simp_all add: stable_simps)

lemma simple_putAcks [simple_rules]: "simple e N (putAcks r w)"
  unfolding putAcks_def by (intro simple_rules) (simp_all add: stable_simps)

lemma stable_set_field: "stable (set_field e f v)"
  by (cases f) (simp_all add: stable_simps set_field_def)

lemma simple_dbPut [simple_rules]: "simple e N (dbPut e' r f v)"
proof -
  have "stable (\<lambda>p. p\<lparr>udf := False\<rparr>)" by (simp add: stable_simps)
  then show ?thesis
    unfolding dbPut_def by (cases v) (simp_all add: simple_rules stable_set_field)
qed

lemma simple_scanOnce [simple_rules]:
  assumes r: "r < N"
  shows "simple e N (scanOnce e' r)"
proof -
  have "notify_ok (s\<lparr>onceQ := q\<rparr>) = notify_ok s" for s q by (rule notify_ok_cong) simp_all
  then show ?thesis
    using r by (auto simp: scanOnce_def dbm_defs simple_def calm_run_def calm_def same_config_def db_ok_def fewer_waits_def)
qed

lemma simple_monitor_inputs [simple_rules]: "simple e N (monitor_inputs e' r m is)"
proof (induction "is")
  case (Cons i "is")
  then show ?case by (simp, intro simple_rules) (simp_all add: stable_simps)
qed (simp add: simple_ret)

lemma simple_calc_monitor [simple_rules]: "simple e N (calc_monitor e' r)"
  unfolding calc_monitor_def Let_def case_prod_beta
  by (intro simple_rules) (simp_all add: stable_simps)

lemma simple_calcout_monitor [simple_rules]: "simple e N (calcout_monitor e' r)"
  unfolding calcout_monitor_def by (intro simple_rules) (simp_all add: stable_simps)

lemma simple_raise_limit [simple_rules]: "simple e N (raise_limit r st sv lev)"
  unfolding raise_limit_def by (intro simple_rules) (simp_all add: stable_simps)

lemma simple_calcout_checkAlarms [simple_rules]: "simple e N (calcout_checkAlarms e' r)"
  unfolding calcout_checkAlarms_def by (intro simple_rules) (simp_all add: stable_simps)

lemma simple_process_active [simple_rules]: "simple e N (process_active r)"
  unfolding process_active_def by (intro simple_rules) (simp_all add: stable_simps)

lemma simple_notify_if_owned [simple_rules]: "r < N \<Longrightarrow> simple e N (notify_if_owned r)"
  unfolding notify_if_owned_def by (rule simple_completion)

text \<open>Operations whose faults depend on the record.\<close>

lemma simple_at_record:
  assumes "\<And>s. length (recs s) = N \<Longrightarrow> db_ok s \<Longrightarrow> calm_run e s (k (f (recs s ! r)) s)"
  shows "simple e N (dbind (getr r f) k)"
  using assms by (simp add: simple_def dbind_def getr_def dget_def)

lemma calc_run_ends: "calc_run f prog st \<noteq> CNext rest st'"
proof (induction f prog st rule: calc_run.induct)
  case (1 f prog st)
  then show ?case
    by (subst calc_run.simps) (auto split: list.split option.split calc_outcome.split)
qed

lemma calm_run_perform:
  assumes s: "db_ok s" "length (recs s) = N" and set: "\<And>v. stable (setv v)"
    and crash: "\<And>g sd as v. calcPerform (fp e) (junk e) sd as v prog = CFault g \<Longrightarrow>
      may_crash e s (Calc_fault g)"
  shows "calm_run e s (calc_perform e r prog getv setv s)"
proof -
  let ?run = "calcPerform (fp e) (junk e) (calc_seed s) (args (recs s ! r)) (getv (recs s ! r)) prog"
  show ?thesis
  proof (cases ?run)
    case (CReturn code st)
    have "stable (\<lambda>p. setv (presult st) (p\<lparr>args := parg st\<rparr>))"
      using set by (simp add: stable_simps)
    then have "simple e N (dthen (dmod (\<lambda>s. s\<lparr>calc_seed := c_seed st\<rparr>))
         (dthen (updr r (\<lambda>p. setv (presult st) (p\<lparr>args := parg st\<rparr>))) (dret (code \<noteq> 0))))"
      by (intro simple_rules) simp_all
    then show ?thesis
      using s CReturn by (simp add: calc_perform_def dbind_def getr_def dget_def simple_def)
  next
    case (CFault g)
    then show ?thesis
      using crash by (simp add: calc_perform_def dbind_def getr_def dget_def dcrash_def calm_run_def)
  next
    case (CNext rest st)
    then show ?thesis using calc_run_ends by (simp add: calcPerform_def)
  qed
qed

lemma may_crash_program:
  assumes "r < length (recs s)" "prog = rpcl (recs s ! r) \<or> prog = orpc (recs s ! r)"
    and "calcPerform (fp e) (junk e) sd as v prog = CFault g"
  shows "may_crash e s (Calc_fault g)"
  using assms by (auto simp: may_crash_def rec_crash_def)

lemma simple_calc_evaluate [simple_rules]: "r < N \<Longrightarrow> simple e N (calc_evaluate e r)"
  unfolding calc_evaluate_def
proof (rule simple_at_record, rule calm_run_bind [where N = N])
  fix s assume r: "r < N" and s: "length (recs s) = N" "db_ok s"
  show "calm_run e s (calc_perform e r (rpcl (recs s ! r)) val (\<lambda>v p. p\<lparr>val := v\<rparr>) s)"
    by (rule calm_run_perform [where N = N])
      (use s r in \<open>auto simp: stable_simps intro: may_crash_program [of r]\<close>)
qed (auto intro!: simple_rules simp: stable_simps)

lemma simple_output_data [simple_rules]: "r < N \<Longrightarrow> simple e N (output_data e r)"
  unfolding output_data_def
proof (rule simple_at_record)
  fix s assume r: "r < N" and s: "length (recs s) = N" "db_ok s"
  let ?p = "recs s ! r"
  have "simple e N (updr r (\<lambda>p. p\<lparr>oval := val p\<rparr>))" "simple e N (dret ())"
    by (simp_all add: simple_rules stable_simps)
  moreover have "calm_run e s (dbind (calc_perform e r (orpc ?p) oval (\<lambda>v p. p\<lparr>oval := v\<rparr>)) (\<lambda>failed.
       if failed then raise_sevr r CALC_ALARM INVALID_ALARM
       else updr r (\<lambda>p. p\<lparr>udf := fp_isnan (fp e) (oval p)\<rparr>)) s)"
  proof (rule calm_run_bind [where N = N])
    show "calm_run e s (calc_perform e r (orpc ?p) oval (\<lambda>v p. p\<lparr>oval := v\<rparr>) s)"
      by (rule calm_run_perform [where N = N])
      (use s r in \<open>auto simp: stable_simps intro: may_crash_program [of r]\<close>)
  qed (use s in \<open>auto intro!: simple_rules simp: stable_simps\<close>)
  ultimately show "calm_run e s ((if dopt (id ?p) = 0 then updr r (\<lambda>p. p\<lparr>oval := val p\<rparr>)
     else if dopt (id ?p) = 1 then
       dbind (calc_perform e r (orpc (id ?p)) oval (\<lambda>v p. p\<lparr>oval := v\<rparr>)) (\<lambda>failed.
       if failed then raise_sevr r CALC_ALARM INVALID_ALARM
       else updr r (\<lambda>p. p\<lparr>udf := fp_isnan (fp e) (oval p)\<rparr>))
     else dret ()) s)"
    using s by (simp add: simple_def)
qed

lemma alarm_range_bound: "fst (alarm_range f p) < length range_stat"
  by (simp add: alarm_range_def range_stat_def)

lemma simple_calc_checkAlarms [simple_rules]: "r < N \<Longrightarrow> simple e N (calc_checkAlarms e r ts)"
  unfolding calc_checkAlarms_def
proof (rule simple_at_record)
  fix s assume r: "r < N" and s: "length (recs s) = N" "db_ok s"
  let ?p = "recs s ! r"
  obtain v rg sv lev where f: "alarm_filter e ?p ts (alarm_range (fp e) ?p) = (v, rg, sv, lev)"
    by (metis surj_pair)
  let ?ok = "sv \<noteq> 0 \<longrightarrow> rg < length range_stat"
  have range: "?ok \<or> fp_lt (fp e) 0 (aftc ?p)"
    using f alarm_range_bound [of "fp e" ?p] by (auto simp: alarm_filter_def case_prod_beta)
  let ?m = "dthen (updr r (\<lambda>p. p\<lparr>afvl := v\<rparr>))
       (if sv \<noteq> 0 then
          if rg < length range_stat then
            dbind (recGblSetSevr r (range_stat ! rg) sv) (\<lambda>raised.
            dwhen raised (updr r (\<lambda>p. p\<lparr>lalm := lev\<rparr>)))
          else dcrash Range_fault
        else updr r (\<lambda>p. p\<lparr>lalm := val p\<rparr>))"
  have "calm_run e s (?m s)"
  proof (cases ?ok)
    case True
    then have "simple e N ?m" by (auto intro!: simple_rules simp: stable_simps)
    then show ?thesis using s by (simp add: simple_def)
  next
    case False
    then have "may_crash e s Range_fault"
      using range r s by (auto simp: may_crash_def rec_crash_def)
    then show ?thesis using False by (simp add: dbm_defs calm_run_def)
  qed
  moreover have "simple e N (dthen (raise_sevr r UDF_ALARM (udfs ?p)) (updr r (\<lambda>p. p\<lparr>afvl := 0\<rparr>)))"
    by (auto intro!: simple_rules simp: stable_simps)
  ultimately show "calm_run e s
    ((if udf (id ?p) then dthen (raise_sevr r UDF_ALARM (udfs (id ?p))) (updr r (\<lambda>p. p\<lparr>afvl := 0\<rparr>))
      else let (v, range, asev, alev) = alarm_filter e (id ?p) ts (alarm_range (fp e) (id ?p)) in
       dthen (updr r (\<lambda>p. p\<lparr>afvl := v\<rparr>))
       (if asev \<noteq> 0 then
          if range < length range_stat then
            dbind (recGblSetSevr r (range_stat ! range) asev) (\<lambda>raised.
            dwhen raised (updr r (\<lambda>p. p\<lparr>lalm := alev\<rparr>)))
          else dcrash Range_fault
        else updr r (\<lambda>p. p\<lparr>lalm := val p\<rparr>))) s)"
    using s f by (simp add: simple_def)
qed

end
