(* ===== verification/DbServe.thy ===== *)
theory DbServe
  imports DbFlow
begin

text \<open>
  Operations that process other records through links. The interface \<open>processes\<close> states what
  the rest of the code may assume of \<^verbatim>\<open>dbProcess()\<close>; every operation that is called while a
  record is processed is shown to serve that record under it.
\<close>

section \<open>The effect of processing on the flags\<close>

text \<open>
  A record that is idle has no \<^verbatim>\<open>PUTF\<close> and no \<^verbatim>\<open>RPRO\<close> left over, and no process-notify
  request waits for it.
\<close>

definition at_rest :: "db \<Rightarrow> nat \<Rightarrow> bool" where
  "at_rest s x \<longleftrightarrow> pact (recs s ! x) \<or>
     \<not> putf (recs s ! x) \<and> \<not> rpro (recs s ! x) \<and> \<not> wait_on (recs s ! x)"

text \<open>An active record has a callback to come, or its support is incomplete.\<close>

definition waits :: "db \<Rightarrow> nat \<Rightarrow> bool" where
  "waits s x \<longleftrightarrow> x \<in> set (delayed s) \<or> rset (recs s ! x) = NO_RSET \<or>
     rset (recs s ! x) = calcoutRSET \<and> dset (recs s ! x) = NO_DSET"

definition stays :: "db \<Rightarrow> db \<Rightarrow> nat \<Rightarrow> bool" where
  "stays s s' x \<longleftrightarrow>
     (pact (recs s ! x) \<longrightarrow> pact (recs s' ! x) \<and> dlya (recs s' ! x) = dlya (recs s ! x) \<and>
        (x \<in> set (delayed s') \<longrightarrow> x \<in> set (delayed s))) \<and>
     (pact (recs s' ! x) \<longrightarrow> pact (recs s ! x) \<or> waits s' x)"

definition around :: "nat \<Rightarrow> db \<Rightarrow> db \<Rightarrow> bool" where
  "around r s s' \<longleftrightarrow> same_config s s' \<and> set (delayed s) \<subseteq> set (delayed s') \<and>
     (\<forall>x < length (recs s). x \<noteq> r \<longrightarrow> stays s s' x \<and> (at_rest s x \<longrightarrow> at_rest s' x))"

text \<open>What the processing of \<open>r\<close> does, and what an operation that \<open>r\<close> calls does.\<close>

definition flow :: "nat \<Rightarrow> db \<Rightarrow> db \<Rightarrow> bool" where
  "flow r s s' \<longleftrightarrow> around r s s' \<and> stays s s' r \<and> at_rest s' r"

text \<open>Only a \<^verbatim>\<open>calcout\<close> record without device support becomes active on its own output.\<close>

definition unsupported :: "dbrec \<Rightarrow> bool" where
  "unsupported p \<longleftrightarrow> rset p = calcoutRSET \<and> dset p = NO_DSET"

definition inner :: "nat \<Rightarrow> db \<Rightarrow> db \<Rightarrow> bool" where
  "inner r s s' \<longleftrightarrow> around r s s' \<and> (pact (recs s ! r) \<longrightarrow> pact (recs s' ! r)) \<and>
     (pact (recs s' ! r) \<longrightarrow> pact (recs s ! r) \<or> unsupported (recs s' ! r)) \<and>
     dlya (recs s' ! r) = dlya (recs s ! r) \<and> (r \<in> set (delayed s') \<longrightarrow> r \<in> set (delayed s))"

lemma around_refl [simp]: "around r s s"
  by (simp add: around_def stays_def)

lemma waits_mono:
  assumes "same_config s s'" "set (delayed s) \<subseteq> set (delayed s')" "x < length (recs s)" "waits s x"
  shows "waits s' x"
proof -
  have "config (recs s' ! x) = config (recs s ! x)" using assms(1,3) by (simp add: same_config_def)
  from config_fields(7,8) [OF this] show ?thesis using assms(2,4) by (auto simp: waits_def)
qed

lemma stays_trans:
  assumes "stays s t x" "stays t u x" "same_config t u" "set (delayed t) \<subseteq> set (delayed u)"
    and "x < length (recs t)"
  shows "stays s u x"
  using assms waits_mono [OF assms(3-5)] by (auto simp: stays_def)

lemma around_trans:
  assumes "around r s t" "around r t u"
  shows "around r s u"
proof -
  have "length (recs t) = length (recs s)" using assms(1) by (simp add: around_def same_config_def)
  then show ?thesis
    using assms stays_trans [of s t _ u] same_config_trans [of s t u] by (auto simp: around_def)
qed

lemma around_length: "around r s s' \<Longrightarrow> length (recs s') = length (recs s)"
  by (simp add: around_def same_config_def)

lemma unsupported_config: "config p = config q \<Longrightarrow> unsupported p = unsupported q"
  using config_fields(7,8) [of p q] by (simp add: unsupported_def)

lemma inner_trans:
  assumes "inner r s t" "inner r t u" "r < length (recs s)"
  shows "inner r s u"
proof -
  have "config (recs u ! r) = config (recs t ! r)"
    using assms by (auto simp: inner_def around_def same_config_def)
  from unsupported_config [OF this] show ?thesis
    using assms around_trans [of r s t u] by (auto simp: inner_def)
qed

lemma calm_at_rest:
  assumes "calm s s'" "x < length (recs s)"
  shows "at_rest s x \<Longrightarrow> at_rest s' x" "pact (recs s' ! x) = pact (recs s ! x)"
    "dlya (recs s' ! x) = dlya (recs s ! x)"
proof -
  have "flags (recs s' ! x) = flags (recs s ! x)" using assms by (simp add: calm_def)
  from flags_fields [OF this] show "at_rest s x \<Longrightarrow> at_rest s' x"
    "pact (recs s' ! x) = pact (recs s ! x)" "dlya (recs s' ! x) = dlya (recs s ! x)"
    using assms by (auto simp: at_rest_def calm_def fewer_waits_def)
qed

lemma calm_inner: "calm s s' \<Longrightarrow> r < length (recs s) \<Longrightarrow> inner r s s'"
  using calm_at_rest [of s s'] by (auto simp: inner_def around_def stays_def calm_def)

section \<open>The depth of the recursion\<close>

text \<open>The number of records that are not active bounds it.\<close>

definition idle_but :: "nat \<Rightarrow> db \<Rightarrow> nat" where
  "idle_but r s = card {x. x < length (recs s) \<and> x \<noteq> r \<and> \<not> pact (recs s ! x)}"

definition idle :: "db \<Rightarrow> nat" where
  "idle s = card {x. x < length (recs s) \<and> \<not> pact (recs s ! x)}"

lemma idle_but_mono: "around r s s' \<Longrightarrow> idle_but r s' \<le> idle_but r s"
  unfolding idle_but_def
  by (rule card_mono) (auto simp: around_def same_config_def stays_def)

lemma idle_active: "pact (recs s ! r) \<Longrightarrow> idle s = idle_but r s"
  unfolding idle_def idle_but_def by (rule arg_cong [where f = card]) auto

lemma idle_idle:
  assumes "\<not> pact (recs s ! r)" "r < length (recs s)"
  shows "idle s = Suc (idle_but r s)"
proof -
  have "{x. x < length (recs s) \<and> \<not> pact (recs s ! x)} =
      insert r {x. x < length (recs s) \<and> x \<noteq> r \<and> \<not> pact (recs s ! x)}"
    using assms by auto
  then show ?thesis by (simp add: idle_def idle_but_def)
qed

section \<open>Serving a record\<close>

definition ready :: "nat \<Rightarrow> nat \<Rightarrow> nat \<Rightarrow> db \<Rightarrow> bool" where
  "ready N n r s \<longleftrightarrow> length (recs s) = N \<and> r < N \<and> db_ok s \<and> r \<notin> set (delayed s) \<and> idle_but r s < n"

lemma ready_around:
  "ready N n r s \<Longrightarrow> around r s s' \<Longrightarrow> db_ok s' \<Longrightarrow> r \<notin> set (delayed s') \<Longrightarrow> ready N n r s'"
  using idle_but_mono [of r s s'] by (auto simp: ready_def around_length)

lemma ready_inner: "ready N n r s \<Longrightarrow> inner r s s' \<Longrightarrow> db_ok s' \<Longrightarrow> ready N n r s'"
  by (rule ready_around) (auto simp: inner_def ready_def)

definition inner_run :: "env \<Rightarrow> nat \<Rightarrow> db \<Rightarrow> 'a res \<Rightarrow> bool" where
  "inner_run e r s res \<longleftrightarrow>
     (case res of Done x s' \<Rightarrow> inner r s s' \<and> db_ok s' | Crash f \<Rightarrow> may_crash e s f | NoFuel \<Rightarrow> False)"

definition serves :: "env \<Rightarrow> nat \<Rightarrow> nat \<Rightarrow> nat \<Rightarrow> 'a dbm \<Rightarrow> bool" where
  "serves e N n r m \<longleftrightarrow> (\<forall>s. ready N n r s \<longrightarrow> inner_run e r s (m s))"

named_theorems serves_rules \<open>rules for operations that serve a record\<close>

lemma servesD: "serves e N n r m \<Longrightarrow> ready N n r s \<Longrightarrow> inner_run e r s (m s)"
  by (simp add: serves_def)

lemma calm_run_inner: "calm_run e s res \<Longrightarrow> db_ok s \<Longrightarrow> r < length (recs s) \<Longrightarrow> inner_run e r s res"
  using calm_inner [of s _ r] calm_db_ok [of s]
  by (auto simp: calm_run_def inner_run_def split: res.splits)

lemma serves_simple: "simple e N m \<Longrightarrow> serves e N n r m"
  unfolding serves_def simple_def ready_def by (auto intro: calm_run_inner)

lemmas serves_prims [serves_rules] =
  simple_ret [THEN serves_simple] simple_getr [THEN serves_simple] simple_get [THEN serves_simple]
  simple_raise [THEN serves_simple] simple_inherit [THEN serves_simple]
  simple_resetAlarms [THEN serves_simple] simple_post [THEN serves_simple]
  simple_dbPut [THEN serves_simple] simple_scanOnce [THEN serves_simple]
  simple_calc_monitor [THEN serves_simple] simple_calcout_monitor [THEN serves_simple]
  simple_calcout_checkAlarms [THEN serves_simple] simple_completion [THEN serves_simple]
  simple_calc_evaluate [THEN serves_simple] simple_output_data [THEN serves_simple]
  simple_calc_checkAlarms [THEN serves_simple] simple_notify_if_owned [THEN serves_simple]

lemma inner_run_bind:
  assumes m: "inner_run e r s (m s)" and s: "ready N n r s"
    and k: "\<And>x s1. inner r s s1 \<Longrightarrow> ready N n r s1 \<Longrightarrow> inner_run e r s1 (k x s1)"
  shows "inner_run e r s (dbind m k s)"
proof (cases "m s")
  case (Done x s1)
  then have s1: "inner r s s1" "db_ok s1" using m by (auto simp: inner_run_def)
  then have "inner_run e r s1 (k x s1)" using s by (intro k) (auto intro: ready_inner)
  moreover have "same_config s s1" using s1(1) by (simp add: inner_def around_def)
  ultimately show ?thesis
    using Done inner_trans [OF s1(1)] may_crash_config s
    by (cases "k x s1") (auto simp: dbind_def inner_run_def ready_def)
qed (use m in \<open>auto simp: inner_run_def dbind_def\<close>)

lemma serves_bind [serves_rules]:
  "serves e N n r m \<Longrightarrow> (\<And>x. serves e N n r (k x)) \<Longrightarrow> serves e N n r (dbind m k)"
  unfolding serves_def [of _ _ _ _ "dbind m k"] by (blast intro: inner_run_bind servesD)

lemma serves_then [serves_rules]:
  "serves e N n r m \<Longrightarrow> serves e N n r k \<Longrightarrow> serves e N n r (dthen m k)"
  unfolding dthen_def by (rule serves_bind)

lemma serves_if [serves_rules]:
  "(b \<Longrightarrow> serves e N n r m) \<Longrightarrow> (\<not> b \<Longrightarrow> serves e N n r k) \<Longrightarrow>
   serves e N n r (if b then m else k)"
  by simp

lemma serves_when [serves_rules]: "(b \<Longrightarrow> serves e N n r m) \<Longrightarrow> serves e N n r (dwhen b m)"
  by (simp add: dwhen_def serves_simple simple_ret)

text \<open>Reading a record: its links are in range.\<close>

lemma serves_getr_bind:
  assumes "t < N" "\<And>p. rec_ok N p \<Longrightarrow> serves e N n r (k (f p))"
  shows "serves e N n r (dbind (getr t f) k)"
  unfolding serves_def
proof (intro allI impI)
  fix s assume s: "ready N n r s"
  then have "rec_ok N (recs s ! t)" using assms(1) by (auto simp: ready_def db_ok_def)
  from servesD [OF assms(2) [OF this] s] show "inner_run e r s (dbind (getr t f) k s)"
    by (simp add: dbind_def getr_def dget_def)
qed

text \<open>Updates of the flags.\<close>

definition same_but_flags :: "(dbrec \<Rightarrow> dbrec) \<Rightarrow> bool" where
  "same_but_flags f \<longleftrightarrow> (\<forall>p. config (f p) = config p \<and> notify_part (f p) = notify_part p)"

lemmas flags_simps = same_but_flags_def config_def notify_part_def

lemma upd_config: "same_but_flags f \<Longrightarrow> same_config s (upd_rec r f s)"
  by (simp add: same_config_def same_but_flags_def)

lemma upd_db_ok:
  assumes f: "same_but_flags f" and s: "db_ok s"
    and r: "r \<in> set (delayed s) \<Longrightarrow> \<forall>p. pact (f p) = pact p \<and> dlya (f p) = dlya p"
  shows "db_ok (upd_rec r f s)"
proof -
  have "notify_ok (upd_rec r f s)"
    using f s by (subst notify_ok_cong [of _ s]) (auto simp: same_but_flags_def db_ok_def)
  moreover have "rec_ok (length (recs s)) (recs (upd_rec r f s) ! x)" if "x < length (recs s)" for x
  proof -
    have "config (recs (upd_rec r f s) ! x) = config (recs s ! x)"
      using that f by (simp add: same_but_flags_def)
    from rec_ok_config [OF this] show ?thesis using s that by (simp add: db_ok_def)
  qed
  moreover have "delayed_ok (upd_rec r f s)"
  proof -
    have "rset (f (recs s ! r)) = rset (recs s ! r)"
      using f config_fields(7) [of "f (recs s ! r)" "recs s ! r"] by (simp add: same_but_flags_def)
    then show ?thesis using s r by (auto simp: db_ok_def delayed_ok_def)
  qed
  moreover have "set (onceQ s) \<subseteq> {..<length (recs s)}" using s by (simp add: db_ok_def)
  ultimately show ?thesis by (simp add: db_ok_def)
qed

lemma upd_around:
  "same_but_flags f \<Longrightarrow> around r s (upd_rec r f s)"
  using upd_config [of f s r] by (auto simp: around_def stays_def at_rest_def)

lemma ready_upd: "same_but_flags f \<Longrightarrow> ready N n r s \<Longrightarrow> ready N n r (upd_rec r f s)"
  by (rule ready_around [OF _ upd_around]) (auto simp: ready_def intro!: upd_db_ok)

lemma serves_updr:
  assumes "same_but_flags f" "\<And>p. pact (f p) = pact p \<and> dlya (f p) = dlya p"
  shows "serves e N n r (updr r f)"
  unfolding serves_def
proof (intro allI impI)
  fix s assume s: "ready N n r s"
  then have "inner r s (upd_rec r f s)" "db_ok (upd_rec r f s)"
    using assms upd_around [of f r s] upd_db_ok [of f s r] by (auto simp: inner_def ready_def)
  then show "inner_run e r s (updr r f s)" by (simp add: updr_def dmod_def inner_run_def)
qed

section \<open>The interface of dbProcess\<close>

definition process_ok :: "env \<Rightarrow> nat \<Rightarrow> db \<Rightarrow> 'a res \<Rightarrow> bool" where
  "process_ok e r s res \<longleftrightarrow>
     (case res of Done x s' \<Rightarrow> flow r s s' \<and> db_ok s' | Crash f \<Rightarrow> may_crash e s f | NoFuel \<Rightarrow> False)"

locale processes =
  fixes e :: env and N n :: nat and proc :: process_fun
  assumes proc_ok:
    "\<lbrakk>t < N; length (recs s) = N; db_ok s; idle s < n\<rbrakk> \<Longrightarrow> process_ok e t s (proc t s)"
begin

text \<open>\<^verbatim>\<open>processTarget()\<close> from the moment that the source is active.\<close>

definition process_target :: "nat \<Rightarrow> nat \<Rightarrow> db_status dbm" where
  "process_target r t =
     dbind (getr t pact) (\<lambda>busy.
     dbind (getr r putf) (\<lambda>put.
     dthen (if \<not> busy then updr t (\<lambda>p. p\<lparr>putf := put\<rparr>)
            else if put then updr t (\<lambda>p. p\<lparr>putf := False, rpro := True\<rparr>)
            else dret ())
     (proc t)))"

lemma target_inner:
  assumes r: "ready N n r s" and t: "t < N" and act: "pact (recs s ! r)"
  shows "inner_run e r s (process_target r t s)"
    "process_target r t s = Done st s' \<Longrightarrow> at_rest s' t"
proof -
  define f where "f = (\<lambda>p :: dbrec. if \<not> pact (recs s ! t) then p\<lparr>putf := putf (recs s ! r)\<rparr>
    else if putf (recs s ! r) then p\<lparr>putf := False, rpro := True\<rparr> else p)"
  let ?s1 = "upd_rec t f s"
  have f: "same_but_flags f" "pact (f p) = pact p" "dlya (f p) = dlya p" for p
    by (simp_all add: flags_simps f_def)
  have len: "length (recs s) = N" "r < N" "r \<notin> set (delayed s)" using r by (auto simp: ready_def)
  have ok1: "db_ok ?s1" using upd_db_ok [OF f(1)] f(2,3) r by (simp add: ready_def)
  have pact1: "pact (recs ?s1 ! x) = pact (recs s ! x)" "dlya (recs ?s1 ! x) = dlya (recs s ! x)"
    if "x < N" for x
    using that f(2,3) len by simp_all
  have rest1: "at_rest ?s1 x = at_rest s x" if "x < N" "x \<noteq> t \<or> pact (recs s ! t)" for x
    using that len pact1 [OF that(1)] by (auto simp: at_rest_def)
  have "idle_but r ?s1 = idle_but r s"
    unfolding idle_but_def using pact1 len by (intro arg_cong [where f = card]) auto
  then have "idle ?s1 < n"
    using r act idle_active [of ?s1 r] pact1 [OF len(2)] by (simp add: ready_def)
  then have run: "process_ok e t ?s1 (proc t ?s1)"
    using proc_ok [OF t _ ok1] len by simp
  have cfg: "same_config s ?s1" by (rule upd_config [OF f(1)])
  have step: "process_target r t s = proc t ?s1"
    by (simp add: process_target_def dbm_defs upd_rec_def f_def)
  have "inner r s s'" if "flow t ?s1 s'" for s'
  proof -
    have ar: "around t ?s1 s'" "stays ?s1 s' t" "at_rest s' t" using that by (auto simp: flow_def)
    have st: "stays ?s1 s' x" if "x < N" for x
      using ar that len by (cases "x = t") (auto simp: around_def)
    then have "stays s s' x" if "x < N" for x
      using that pact1 [OF that] by (auto simp: stays_def)
    moreover have "at_rest s' x" if "x < N" "at_rest s x" for x
      using ar that rest1 [OF that(1)] len by (cases "x = t") (auto simp: around_def)
    ultimately have "around r s s'"
      using ar(1) cfg same_config_trans len by (auto simp: around_def)
    then show ?thesis
      using st [OF len(2)] act pact1 [OF len(2)] by (auto simp: inner_def stays_def)
  qed
  then show "inner_run e r s (process_target r t s)"
    using run may_crash_config [OF cfg] unfolding step
    by (cases "proc t ?s1") (auto simp: process_ok_def inner_run_def)
  show "at_rest s' t" if "process_target r t s = Done st s'"
    using run that unfolding step by (simp add: process_ok_def flow_def)
qed

text \<open>
  The target may join the wait list of a request before: that is over when it has been
  processed.
\<close>

lemma notify_target_inner:
  assumes s: "ready N n r s" and t: "t < N" and act: "pact (recs s ! r)"
  shows "inner_run e r s (dbind (dbind (getr r ppn) (\<lambda>owner. dwhen (owner \<noteq> None) (dbNotifyAdd r t)))
    (\<lambda>_. process_target r t) s)"
proof (cases "ppn (recs s ! r)")
  case None
  then show ?thesis using target_inner(1) [OF s t act] by (simp add: dbm_defs)
next
  case (Some q)
  have len: "length (recs s) = N" "r < N" and ok: "notify_ok s" using s by (auto simp: ready_def db_ok_def)
  obtain s2 where add: "dbNotifyAdd r t s = Done () s2" and ok2: "notify_ok s2"
    and fr: "notify_frame s s2"
    and wt: "\<And>k. k < N \<Longrightarrow> k \<noteq> t \<Longrightarrow> wait_on (recs s2 ! k) = wait_on (recs s ! k)"
    using dbNotifyAdd_ok [of s r t] ok len t Some by auto
  have eq: "config (recs s2 ! k) = config (recs s ! k)" "flags (recs s2 ! k) = flags (recs s ! k)"
    if "k < N" for k
    using fr that len rest_of_eq [of "recs s2 ! k" "recs s ! k"] by (auto simp: notify_frame_def)
  note fl = flags_fields [OF eq(2)]
  have len2: "length (recs s2) = N" "delayed s2 = delayed s" "onceQ s2 = onceQ s"
    using fr len by (auto simp: notify_frame_def)
  have cfg: "same_config s s2" using eq(1) len len2 by (simp add: same_config_def)
  have "rec_ok N (recs s2 ! k)" if "k < N" for k
    using s that rec_ok_config [OF eq(1) [OF that]] len by (simp add: ready_def db_ok_def)
  moreover have "delayed_ok s2"
    using s fl(1,4) config_fields(7) [OF eq(1)] len len2 by (auto simp: ready_def db_ok_def delayed_ok_def)
  ultimately have db2: "db_ok s2" using s ok2 len len2 by (simp add: ready_def db_ok_def)
  have "idle_but r s2 = idle_but r s"
    unfolding idle_but_def using fl(1) len len2 by (intro arg_cong [where f = card]) auto
  then have s2: "ready N n r s2" using s db2 len2 by (simp add: ready_def)
  have act2: "pact (recs s2 ! r)" using act fl(1) len by simp
  have "inner r s s3" if i: "inner r s2 s3" and rest: "at_rest s3 t" for s3
  proof -
    have "stays s s3 x \<and> (at_rest s x \<longrightarrow> at_rest s3 x)" if x: "x < N" "x \<noteq> r" for x
    proof -
      have "stays s2 s3 x" "at_rest s2 x \<longrightarrow> at_rest s3 x"
        using i x len2 by (auto simp: inner_def around_def)
      then show ?thesis
        using fl [OF x(1)] wt [OF x(1)] rest len2 by (cases "x = t") (auto simp: stays_def at_rest_def)
    qed
    then show ?thesis
      using i fl [OF len(2)] same_config_trans [OF cfg] len len2 by (auto simp: inner_def around_def)
  qed
  then show ?thesis
    using target_inner [OF s2 t act2] Some add may_crash_config [OF cfg]
    by (cases "process_target r t s2") (auto simp: dbm_defs inner_run_def)
qed

lemma serves_target [serves_rules]:
  assumes t: "t < N"
  shows "serves e N n r (processTarget proc r t)"
  unfolding serves_def
proof (intro allI impI)
  fix s assume s: "ready N n r s"
  have set: "same_but_flags (\<lambda>p. p\<lparr>pact := b\<rparr>)" for b by (simp add: flags_simps)
  let ?s1 = "upd_rec r (\<lambda>p. p\<lparr>pact := True\<rparr>) s"
  let ?b = "pact (recs s ! r)"
  let ?main = "process_target r t"
  let ?mid = "dbind (dbind (getr r ppn) (\<lambda>owner. dwhen (owner \<noteq> None) (dbNotifyAdd r t))) (\<lambda>_. ?main)"
  have len: "length (recs s) = N" "r < N" using s by (auto simp: ready_def)
  have s1: "ready N n r ?s1" by (rule ready_upd [OF set s])
  have act: "pact (recs ?s1 ! r)" using len by simp
  have "inner_run e r ?s1 (?mid ?s1)" by (rule notify_target_inner [OF s1 t act])
  moreover have "processTarget proc r t s =
      dbind ?mid (\<lambda>status. dthen (updr r (\<lambda>p. p\<lparr>pact := ?b\<rparr>)) (dret status)) ?s1"
    by (simp add: processTarget_def process_target_def dthen_def dbind_assoc)
      (simp add: dbind_def getr_def dget_def updr_def dmod_def)
  moreover have "inner r s (upd_rec r (\<lambda>p. p\<lparr>pact := ?b\<rparr>) s2) \<and> db_ok (upd_rec r (\<lambda>p. p\<lparr>pact := ?b\<rparr>) s2)"
    if s2: "inner r ?s1 s2" "db_ok s2" for s2
  proof -
    have len2: "length (recs s2) = N" using s2 len around_length by (auto simp: inner_def)
    have "r \<notin> set (delayed s2)" using s2 s by (auto simp: inner_def ready_def)
    moreover have "around r s (upd_rec r (\<lambda>p. p\<lparr>pact := ?b\<rparr>) s2)"
      using around_trans [OF upd_around [OF set] around_trans [OF _ upd_around [OF set]]] s2
      by (auto simp: inner_def)
    ultimately show ?thesis
      using s2 len len2 by (auto simp: inner_def intro!: upd_db_ok set)
  qed
  moreover have "same_config s ?s1" by (rule upd_config [OF set])
  ultimately show "inner_run e r s (processTarget proc r t s)"
    using may_crash_config by (cases "?mid ?s1") (auto simp: inner_run_def dbm_defs)
qed

lemma serves_scanPassive [serves_rules]: "t < N \<Longrightarrow> serves e N n r (dbScanPassive proc r t)"
  unfolding dbScanPassive_def
  by (intro serves_rules)

lemma serves_dbDbGetValue: "t < N \<Longrightarrow> serves e N n r (dbDbGetValue proc r t f pp ms)"
  unfolding dbDbGetValue_def by (intro serves_rules)

lemma serves_tryGetLink: "link_ok N lk \<Longrightarrow> serves e N n r (dbTryGetLink proc r lk)"
  by (cases lk) (auto simp: dbTryGetLink_def link_ok_def intro!: serves_dbDbGetValue serves_prims)

lemma serves_getLink [serves_rules]: "link_ok N lk \<Longrightarrow> serves e N n r (dbGetLink proc r lk)"
  unfolding dbGetLink_def
  by (auto intro!: serves_tryGetLink serves_rules split: prod.split)

lemma serves_putValue: "t < N \<Longrightarrow> serves e N n r (dbDbPutValue e' proc r t f pp ms v)"
  unfolding dbDbPutValue_def by (intro serves_rules)

lemma serves_putLink [serves_rules]: "link_ok N lk \<Longrightarrow> serves e N n r (dbPutLink e' proc r lk v)"
  unfolding dbPutLink_def
  by (cases lk) (auto simp: link_ok_def intro!: serves_putValue serves_rules)

lemma serves_fwdLink [serves_rules]: "link_ok N lk \<Longrightarrow> serves e N n r (dbScanFwdLink proc r lk)"
  unfolding dbScanFwdLink_def
  by (cases lk) (auto simp: link_ok_def intro!: serves_rules)

end

end
