(* ===== verification/DbProcess.thy ===== *)
theory DbProcess
  imports DbServe
begin

text \<open>
  Record support and \<^verbatim>\<open>dbProcess()\<close> keep the interface of record processing: by induction on the
  depth of the recursion, \<^verbatim>\<open>dbProcess()\<close> itself satisfies what its callers assume.
\<close>

section \<open>Operations of record support\<close>

context processes
begin

lemma serves_timeStamp [serves_rules]: "r < N \<Longrightarrow> serves e N n r (recGblGetTimeStamp e' proc r)"
  unfolding recGblGetTimeStamp_def
proof (rule serves_getr_bind)
  fix p assume r: "r < N" and p: "rec_ok N p"
  have st: "simple e N (updr r (\<lambda>p. p\<lparr>time := ts\<rparr>))" "simple e N (updr r (\<lambda>p. p\<lparr>tse := w\<rparr>))"
    "simple e N (dmod (\<lambda>s. s\<lparr>ticks := k\<rparr>))" for ts w k
    by (auto intro!: simple_rules simp: stable_simps)
  have tail: "serves e N n r (dbind (getr r tse) (\<lambda>ev.
           dwhen (ev \<noteq> - 2)
             (dbind (dget ticks) (\<lambda>n.
              dthen (dmod (\<lambda>s. s\<lparr>ticks := n + 1\<rparr>))
              (case time_event e' ev n of None \<Rightarrow> dret () | Some ts \<Rightarrow> updr r (\<lambda>p. p\<lparr>time := ts\<rparr>))))))"
    by (intro serves_rules) (auto intro!: serves_rules st [THEN serves_simple] split: option.split)
  have lk: "link_ok N (tsel p)" using p by (simp add: rec_ok_def)
  have head: "serves e N n r (case tsel p of
             DB_LINK t f pp ms \<Rightarrow>
               dbind (dbGetLink proc r (tsel p)) (\<lambda>(status, v).
               case v of None \<Rightarrow> dret () | Some w \<Rightarrow> updr r (\<lambda>p. p\<lparr>tse := cvt_short e' w\<rparr>))
           | _ \<Rightarrow> dret ())"
    by (cases "tsel p") (use lk in \<open>auto intro!: serves_rules st [THEN serves_simple] split: prod.split option.split\<close>)
  have stamp: "serves e N n r (dbind (getr t time) (\<lambda>ts. updr r (\<lambda>p. p\<lparr>time := ts\<rparr>)))" for t
    by (intro serves_rules st [THEN serves_simple])
  show "serves e N n r (case (tsel (id p), tse_time (id p)) of
       (DB_LINK t f pp ms, True) \<Rightarrow> dbind (getr t time) (\<lambda>ts. updr r (\<lambda>p. p\<lparr>time := ts\<rparr>))
     | (lk, _) \<Rightarrow>
        dthen
          (case lk of
             DB_LINK t f pp ms \<Rightarrow>
               dbind (dbGetLink proc r lk) (\<lambda>(status, v).
               case v of None \<Rightarrow> dret () | Some w \<Rightarrow> updr r (\<lambda>p. p\<lparr>tse := cvt_short e' w\<rparr>))
           | _ \<Rightarrow> dret ())
          (dbind (getr r tse) (\<lambda>ev.
           dwhen (ev \<noteq> - 2)
             (dbind (dget ticks) (\<lambda>n.
              dthen (dmod (\<lambda>s. s\<lparr>ticks := n + 1\<rparr>))
              (case time_event e' ev n of
                 None \<Rightarrow> dret ()
               | Some ts \<Rightarrow> updr r (\<lambda>p. p\<lparr>time := ts\<rparr>)))))))"
    using serves_then [OF head tail] stamp
    by (cases "tsel p"; cases "tse_time p") simp_all
qed

lemma serves_recGblFwdLink [serves_rules]: "r < N \<Longrightarrow> serves e N n r (recGblFwdLink e' proc r)"
  unfolding recGblFwdLink_def
proof (rule serves_getr_bind)
  fix p assume r: "r < N" and p: "rec_ok N p"
  have lk: "link_ok N (flnk p)" using p by (simp add: rec_ok_def)
  have up: "serves e N n r (updr r (\<lambda>p. p\<lparr>rpro := False\<rparr>))" "serves e N n r (updr r (\<lambda>p. p\<lparr>putf := False\<rparr>))"
    by (auto intro!: serves_updr simp: flags_simps)
  have compl: "serves e N n r (dbind (getr r ppn) (\<lambda>owner. dwhen (owner \<noteq> None) (dbNotifyCompletion r)))"
    by (rule serves_simple [OF simple_completion [OF r]])
  have "serves e N n r (dthen (dbScanFwdLink proc r (flnk p))
     (dthen (dbind (getr r ppn) (\<lambda>owner. dwhen (owner \<noteq> None) (dbNotifyCompletion r)))
      (dbind (getr r rpro) (\<lambda>again.
       dthen (dwhen again
         (dthen (updr r (\<lambda>p. p\<lparr>rpro := False\<rparr>)) (dbind (scanOnce e' r) (\<lambda>_. dret ()))))
       (updr r (\<lambda>p. p\<lparr>putf := False\<rparr>))))))"
    by (intro serves_then serves_fwdLink lk compl serves_rules up r)
  then show "serves e N n r (dthen (dbScanFwdLink proc r (flnk p))
     (dbind (getr r ppn) (\<lambda>owner.
      dthen (dwhen (owner \<noteq> None) (dbNotifyCompletion r))
      (dbind (getr r rpro) (\<lambda>again.
       dthen (dwhen again
         (dthen (updr r (\<lambda>p. p\<lparr>rpro := False\<rparr>)) (dbind (scanOnce e' r) (\<lambda>_. dret ()))))
       (updr r (\<lambda>p. p\<lparr>putf := False\<rparr>)))))))"
    by (simp add: dthen_def dbind_assoc)
qed

lemma serves_fetch_from: "r < N \<Longrightarrow> set is \<subseteq> {..<CALC_NARGS} \<Longrightarrow>
    serves e N n r (fetch_from e' proc r is status)"
proof (induction "is" arbitrary: status)
  case (Cons i "is")
  have st: "serves e N n r (updr r (\<lambda>p. p\<lparr>args := (args p)[i := x]\<rparr>))" for x
    by (intro serves_simple simple_rules) (simp add: stable_simps)
  show ?case
    unfolding fetch_from.simps
  proof (rule serves_getr_bind [OF Cons.prems(1)])
    fix p assume "rec_ok N p"
    then have "link_ok N (inp p ! i)" using Cons.prems by (simp add: rec_ok_def)
    then show "serves e N n r (dbind (dbGetLink proc r (inp p ! i)) (\<lambda>(newStatus, v).
     dthen (case v of None \<Rightarrow> dret ()
            | Some w \<Rightarrow> updr r (\<lambda>p. p\<lparr>args := (args p)[i := cvt_double e' w]\<rparr>))
     (fetch_from e' proc r is (if status = OK then newStatus else status))))"
      using Cons by (auto intro!: serves_rules st split: prod.split option.split)
  qed
qed (simp add: serves_rules)

lemma serves_fetch_values [serves_rules]: "r < N \<Longrightarrow> serves e N n r (fetch_values e' proc r)"
  unfolding fetch_values_def by (rule serves_fetch_from) auto

text \<open>The output of a \<^verbatim>\<open>calcout\<close> record; without device support it becomes active.\<close>

lemma inner_rset:
  assumes "inner r s s1" "r < length (recs s)"
  shows "rset (recs s1 ! r) = rset (recs s ! r)"
proof -
  have "config (recs s1 ! r) = config (recs s ! r)"
    using assms by (auto simp: inner_def around_def same_config_def)
  from config_fields(7) [OF this] show ?thesis .
qed

lemma inner_run_serves_bind:
  assumes m: "serves e N n r m" and s: "ready N n r s" "rset (recs s ! r) = calcoutRSET"
    and k: "\<And>x s1. ready N n r s1 \<Longrightarrow> rset (recs s1 ! r) = calcoutRSET \<Longrightarrow> inner_run e r s1 (k x s1)"
  shows "inner_run e r s (dbind m k s)"
proof (rule inner_run_bind)
  show "inner_run e r s (m s)" "ready N n r s" by (rule servesD [OF m s(1)], rule s(1))
next
  fix x s1 assume "inner r s s1" "ready N n r s1"
  then show "inner_run e r s1 (k x s1)"
    using inner_rset [of r s s1] s by (intro k) (auto simp: ready_def)
qed

lemma writeValue_inner:
  assumes s: "ready N n r s" and co: "rset (recs s ! r) = calcoutRSET"
  shows "inner_run e r s (writeValue e' proc r s)"
proof (cases "dset (recs s ! r)")
  case NO_DSET
  have f: "same_but_flags (\<lambda>p. p\<lparr>pact := True\<rparr>)" by (simp add: flags_simps)
  let ?m = "raise_sevr r SOFT_ALARM INVALID_ALARM"
  have "inner_run e r s (dthen ?m (dthen (updr r (\<lambda>p. p\<lparr>pact := True\<rparr>)) (dret S_error)) s)"
    unfolding dthen_def
  proof (rule inner_run_bind)
    show "inner_run e r s (?m s)" by (rule servesD [OF _ s]) (rule serves_prims)
    show "ready N n r s" by (rule s)
  next
    fix x s1 assume i: "inner r s s1" and s1: "ready N n r s1"
    have "config (recs s1 ! r) = config (recs s ! r)"
      using i s by (auto simp: inner_def around_def same_config_def ready_def)
    from config_fields(7,8) [OF this] have "unsupported (recs (upd_rec r (\<lambda>p. p\<lparr>pact := True\<rparr>) s1) ! r)"
      using co NO_DSET s1 by (simp add: unsupported_def ready_def)
    then show "inner_run e r s1 (dbind (updr r (\<lambda>p. p\<lparr>pact := True\<rparr>)) (\<lambda>_. dret S_error) s1)"
      using upd_around [OF f, of r s1] upd_db_ok [OF f, of s1 r] s1
      by (auto simp: inner_run_def inner_def dbm_defs ready_def)
  qed
  then show ?thesis
    using NO_DSET by (simp add: writeValue_def db_simps)
next
  case devCalcoutSoft
  have "serves e N n r (write_calcout e' proc r)"
    unfolding write_calcout_def
  proof (rule serves_getr_bind)
    show "r < N" using s by (simp add: ready_def)
    show "serves e N n r (dbPutLink e' proc r (out (id p)) (Put_double (oval (id p))))" if "rec_ok N p" for p
      using that by (intro serves_putLink) (simp add: rec_ok_def)
  qed
  from servesD [OF this s] show ?thesis
    using devCalcoutSoft by (simp add: writeValue_def db_simps)
qed

lemma write_and_post_inner:
  assumes s: "ready N n r s" and co: "rset (recs s ! r) = calcoutRSET"
  shows "inner_run e r s (write_and_post e' proc r s)"
  unfolding write_and_post_def
proof (rule inner_run_bind)
  show "inner_run e r s (writeValue e' proc r s)" "ready N n r s"
    by (rule writeValue_inner [OF s co], rule s)
next
  fix x s1 assume "ready N n r s1"
  moreover have "serves e N n r (dbind (getr r epvt) (\<lambda>ev. case ev of None \<Rightarrow> dret ()
      | Some k \<Rightarrow> dmod (\<lambda>s. s\<lparr>soft_events := soft_events s @ [k]\<rparr>)))"
    by (intro serves_simple simple_rules) (auto intro!: simple_rules split: option.split)
  ultimately show "inner_run e r s1 (dbind (getr r epvt) (\<lambda>ev. case ev of None \<Rightarrow> dret ()
      | Some k \<Rightarrow> dmod (\<lambda>s. s\<lparr>soft_events := soft_events s @ [k]\<rparr>)) s1)"
    by (rule servesD [rotated])
qed

lemma execOutput_inner:
  assumes s: "ready N n r s" and co: "rset (recs s ! r) = calcoutRSET"
  shows "inner_run e r s (execOutput e proc r s)"
proof -
  have r: "r < N" using s by (simp add: ready_def)
  have ov: "serves e N n r (updr r (\<lambda>p. p\<lparr>oval := ivov p\<rparr>))"
    by (intro serves_simple simple_rules) (simp add: stable_simps)
  show ?thesis
    unfolding execOutput_def dthen_def
  proof (rule inner_run_serves_bind [OF _ s co])
    show "serves e N n r (output_data e r)" by (rule serves_prims) (rule r)
  next
    fix x s1 assume s1: "ready N n r s1" "rset (recs s1 ! r) = calcoutRSET"
    show "inner_run e r s1 (dbind (dbind (getr r id) (\<lambda>p. dwhen (udf p) (raise_sevr r UDF_ALARM (udfs p))))
      (\<lambda>_. dbind (getr r id) (\<lambda>p.
      if nsev p < INVALID_ALARM then write_and_post e proc r
      else if ivoa p = 0 then write_and_post e proc r
      else if ivoa p = 1 then dret ()
      else if ivoa p = 2 then
        dbind (updr r (\<lambda>p. p\<lparr>oval := ivov p\<rparr>)) (\<lambda>_. write_and_post e proc r)
      else dret ())) s1)"
    proof (rule inner_run_serves_bind [OF _ s1])
      show "serves e N n r (dbind (getr r id) (\<lambda>p. dwhen (udf p) (raise_sevr r UDF_ALARM (udfs p))))"
        by (intro serves_rules)
    next
      fix y s2 assume s2: "ready N n r s2" "rset (recs s2 ! r) = calcoutRSET"
      note wp = write_and_post_inner [OF s2, of e]
      have "inner_run e r s2 (dbind (updr r (\<lambda>p. p\<lparr>oval := ivov p\<rparr>)) (\<lambda>_. write_and_post e proc r) s2)"
        by (rule inner_run_serves_bind [OF ov s2]) (rule write_and_post_inner)
      moreover have "inner_run e r s2 (dret () s2)" by (rule servesD [OF serves_prims(1) s2(1)])
      ultimately show "inner_run e r s2 (dbind (getr r id) (\<lambda>p.
      if nsev p < INVALID_ALARM then write_and_post e proc r
      else if ivoa p = 0 then write_and_post e proc r
      else if ivoa p = 1 then dret ()
      else if ivoa p = 2 then
        dbind (updr r (\<lambda>p. p\<lparr>oval := ivov p\<rparr>)) (\<lambda>_. write_and_post e proc r)
      else dret ()) s2)"
        using wp by (simp add: run_getr)
    qed
  qed
qed

end

section \<open>Processing\<close>

text \<open>The outcome of the rest of the processing of \<open>r\<close>.\<close>

definition fin :: "env \<Rightarrow> nat \<Rightarrow> db \<Rightarrow> 'a res \<Rightarrow> bool" where
  "fin e r s res \<longleftrightarrow>
     (case res of
        Done x s' \<Rightarrow> around r s s' \<and> db_ok s' \<and> at_rest s' r \<and> (pact (recs s' ! r) \<longrightarrow> waits s' r)
      | Crash f \<Rightarrow> may_crash e s f
      | NoFuel \<Rightarrow> False)"

lemma fin_around: "around r s s1 \<Longrightarrow> fin e r s1 res \<Longrightarrow> fin e r s res"
  using around_trans [of r s s1] may_crash_config [of s s1 e]
  by (auto simp: fin_def around_def [of r s s1] split: res.splits)

lemma fin_process:
  assumes "fin e r s res" "\<not> pact (recs s ! r)"
  shows "process_ok e r s res"
  using assms by (auto simp: fin_def process_ok_def flow_def stays_def split: res.splits)

lemma fin_bind:
  assumes m: "inner_run e r s (m s)" and s: "ready N n r s"
    and k: "\<And>x s1. m s = Done x s1 \<Longrightarrow> inner r s s1 \<Longrightarrow> ready N n r s1 \<Longrightarrow> fin e r s1 (k x s1)"
  shows "fin e r s (dbind m k s)"
proof (cases "m s")
  case (Done x s1)
  then have s1: "inner r s s1" "db_ok s1" using m by (auto simp: inner_run_def)
  then have "fin e r s1 (k x s1)" using s Done by (intro k) (auto intro: ready_inner)
  then have "fin e r s (k x s1)" using s1(1) by (auto intro: fin_around simp: inner_def)
  then show ?thesis using Done by (simp add: dbind_def)
qed (use m in \<open>auto simp: inner_run_def dbind_def fin_def\<close>)

lemma fin_then:
  assumes "serves e N n r m" "ready N n r s"
    and "\<And>s1. m s = Done () s1 \<Longrightarrow> inner r s s1 \<Longrightarrow> ready N n r s1 \<Longrightarrow> fin e r s1 (k s1)"
  shows "fin e r s (dthen m k s)"
  unfolding dthen_def using assms by (auto intro!: fin_bind servesD)

lemma fin_upd:
  assumes f: "same_but_flags f" and s: "ready N n r s"
    and k: "ready N n r (upd_rec r f s) \<Longrightarrow> fin e r (upd_rec r f s) (k (upd_rec r f s))"
  shows "fin e r s (dthen (updr r f) k s)"
  using fin_around [OF upd_around [OF f] k [OF ready_upd [OF f s]]]
  by (simp add: dthen_def dbind_def updr_def dmod_def)

lemma fin_ret:
  assumes "ready N n r s" "at_rest s r" "pact (recs s ! r) \<longrightarrow> waits s r"
  shows "fin e r s (dret x s)"
  using assms by (simp add: fin_def dret_def ready_def)

lemma fin_idle:
  assumes s: "ready N n r s" and "\<not> putf (recs s ! r)" "\<not> rpro (recs s ! r)" "\<not> wait_on (recs s ! r)"
  shows "fin e r s (dthen (updr r (\<lambda>p. p\<lparr>pact := False\<rparr>)) (dret x) s)"
proof (rule fin_upd [OF _ s])
  assume "ready N n r (upd_rec r (\<lambda>p. p\<lparr>pact := False\<rparr>) s)"
  then show "fin e r (upd_rec r (\<lambda>p. p\<lparr>pact := False\<rparr>) s) (dret x (upd_rec r (\<lambda>p. p\<lparr>pact := False\<rparr>) s))"
    using assms by (intro fin_ret) (auto simp: at_rest_def ready_def)
qed (simp add: flags_simps)

text \<open>\<^verbatim>\<open>recGblFwdLink()\<close> leaves neither \<^verbatim>\<open>PUTF\<close> nor \<^verbatim>\<open>RPRO\<close>.\<close>

lemma dbind_Done:
  assumes "dbind m k s = Done x s'"
  obtains y t where "m s = Done y t" "k y t = Done x s'"
  using assms by (auto simp: dbind_def split: res.splits)

lemma recGblFwdLink_clears:
  assumes "recGblFwdLink e proc r s = Done x s'" "r < length (recs s')"
  shows "\<not> putf (recs s' ! r) \<and> \<not> rpro (recs s' ! r)"
proof -
  have clears: "\<not> putf (recs s2 ! r) \<and> \<not> rpro (recs s2 ! r)"
    if "getr r rpro s0 = Done again s1" "dthen (dwhen again
         (dthen (updr r (\<lambda>p. p\<lparr>rpro := False\<rparr>)) (dbind (scanOnce e r) (\<lambda>_. dret ()))))
       (updr r (\<lambda>p. p\<lparr>putf := False\<rparr>)) s1 = Done x s2" "r < length (recs s2)" for s0 s1 s2 again
    using that by (auto simp: dbm_defs scanOnce_def upd_rec_def split: if_splits)
  show ?thesis
    using assms unfolding recGblFwdLink_def dthen_def [of "dbScanFwdLink proc r _"]
      dthen_def [of "dwhen (_ \<noteq> None) _"]
    by (elim dbind_Done) (rule clears)
qed

lemma fin_getr: "fin e r s (k (f (recs s ! t)) s) \<Longrightarrow> fin e r s (dbind (getr t f) k s)"
  by (simp add: run_getr)

context processes
begin

lemma fwdLink_waits:
  assumes s: "ready N n r s" and run: "recGblFwdLink e proc r s = Done x s'"
  shows "\<not> wait_on (recs s' ! r)"
proof -
  have r: "r < N" "r < length (recs s)" and lk: "link_ok N (flnk (recs s ! r))"
    using s by (auto simp: ready_def db_ok_def rec_ok_def)
  have "dbind (dbScanFwdLink proc r (flnk (recs s ! r))) (\<lambda>_.
     dbind (dbind (getr r ppn) (\<lambda>owner. dwhen (owner \<noteq> None) (dbNotifyCompletion r)))
      (\<lambda>_. dbind (getr r rpro) (\<lambda>again.
       dthen (dwhen again
         (dthen (updr r (\<lambda>p. p\<lparr>rpro := False\<rparr>)) (dbind (scanOnce e r) (\<lambda>_. dret ()))))
       (updr r (\<lambda>p. p\<lparr>putf := False\<rparr>))))) s = Done x s'"
    using run by (simp add: recGblFwdLink_def run_getr dthen_def dbind_assoc)
  then obtain u s1 where m1: "dbScanFwdLink proc r (flnk (recs s ! r)) s = Done u s1"
    and m23: "dbind (dbind (getr r ppn) (\<lambda>owner. dwhen (owner \<noteq> None) (dbNotifyCompletion r)))
      (\<lambda>_. dbind (getr r rpro) (\<lambda>again.
       dthen (dwhen again
         (dthen (updr r (\<lambda>p. p\<lparr>rpro := False\<rparr>)) (dbind (scanOnce e r) (\<lambda>_. dret ()))))
       (updr r (\<lambda>p. p\<lparr>putf := False\<rparr>)))) s1 = Done x s'"
    by (rule dbind_Done)
  from m23 obtain v s2
    where m2: "dbind (getr r ppn) (\<lambda>owner. dwhen (owner \<noteq> None) (dbNotifyCompletion r)) s1 = Done v s2"
    and m3: "dbind (getr r rpro) (\<lambda>again.
       dthen (dwhen again
         (dthen (updr r (\<lambda>p. p\<lparr>rpro := False\<rparr>)) (dbind (scanOnce e r) (\<lambda>_. dret ()))))
       (updr r (\<lambda>p. p\<lparr>putf := False\<rparr>))) s2 = Done x s'"
    by (rule dbind_Done)
  have "inner r s s1" "db_ok s1" using servesD [OF serves_fwdLink [OF lk] s] m1 by (auto simp: inner_run_def)
  then have s1: "ready N n r s1" by (rule ready_inner [OF s])
  then have "db_ok s1" "r < length (recs s1)" by (auto simp: ready_def)
  then have w: "\<not> wait_on (recs s2 ! r)" using completion_waits [of s1 r s2] m2 by simp
  have "calm_run e s1 (Done v s2)"
    using simple_completion [OF r(1), of e] s1 m2 by (auto simp: simple_def ready_def)
  then have "r < length (recs s2)" using s1 by (auto simp: calm_run_def calm_length ready_def)
  then show ?thesis
    using w m3 by (auto simp: dbm_defs scanOnce_def upd_rec_def split: if_splits)
qed

lemma fin_fwdLink:
  assumes s: "ready N n r s"
  shows "fin e r s (dthen (recGblFwdLink e proc r) (dthen (updr r (\<lambda>p. p\<lparr>pact := False\<rparr>)) (dret x)) s)"
proof (rule fin_then [OF _ s])
  show "serves e N n r (recGblFwdLink e proc r)"
    using s by (intro serves_recGblFwdLink) (simp add: ready_def)
  fix s1 assume run: "recGblFwdLink e proc r s = Done () s1" and s1: "ready N n r s1"
  then have "\<not> putf (recs s1 ! r) \<and> \<not> rpro (recs s1 ! r)"
    by (intro recGblFwdLink_clears) (auto simp: ready_def)
  moreover have "\<not> wait_on (recs s1 ! r)" by (rule fwdLink_waits [OF s run])
  ultimately show "fin e r s1 (dthen (updr r (\<lambda>p. p\<lparr>pact := False\<rparr>)) (dret x) s1)"
    using fin_idle [OF s1] by simp
qed

lemma fin_calc_process:
  assumes s: "ready N n r s"
  shows "fin e r s (calc_process e proc r s)"
  unfolding calc_process_def
proof (rule fin_upd [OF _ s])
  have r: "r < N" using s by (simp add: ready_def)
  have rest: "fin e r s2 (dthen (recGblGetTimeStamp e proc r) (dthen (calc_checkAlarms e r tl)
       (dbind (calc_monitor e r) (\<lambda>_. dthen (recGblFwdLink e proc r)
        (dthen (updr r (\<lambda>p. p\<lparr>pact := False\<rparr>)) (dret OK))))) s2)" if "ready N n r s2" for s2 tl
    by (rule fin_then [OF serves_timeStamp [OF r] that], rule fin_then, rule serves_prims, rule r,
        assumption, rule fin_bind, rule servesD, rule serves_prims, assumption, assumption,
        rule fin_fwdLink)
  show "ready N n r (upd_rec r (\<lambda>p. p\<lparr>pact := True\<rparr>) s) \<Longrightarrow>
    fin e r (upd_rec r (\<lambda>p. p\<lparr>pact := True\<rparr>) s)
      (dbind (fetch_values e proc r) (\<lambda>status.
      dthen (dwhen (status = OK) (calc_evaluate e r))
      (dbind (getr r time) (\<lambda>timeLast.
       dthen (recGblGetTimeStamp e proc r)
       (dthen (calc_checkAlarms e r timeLast)
       (dbind (calc_monitor e r) (\<lambda>_.
        dthen (recGblFwdLink e proc r)
        (dthen (updr r (\<lambda>p. p\<lparr>pact := False\<rparr>)) (dret OK))))))))
      (upd_rec r (\<lambda>p. p\<lparr>pact := True\<rparr>) s))"
    by (rule fin_bind, rule servesD, rule serves_fetch_values, rule r, assumption, assumption,
        rule fin_then, rule serves_when, rule serves_prims, rule r, assumption, rule fin_getr, rule rest)
qed (simp add: flags_simps)

text \<open>A \<^verbatim>\<open>calcout\<close> record that is being processed and, if \<open>b\<close>, about to wait.\<close>

definition active_out :: "nat \<Rightarrow> bool \<Rightarrow> db \<Rightarrow> bool" where
  "active_out r b s \<longleftrightarrow> ready N n r s \<and> pact (recs s ! r) \<and> rset (recs s ! r) = calcoutRSET \<and>
     (b \<longrightarrow> dlya (recs s ! r))"

lemma active_out_inner:
  "active_out r b s \<Longrightarrow> inner r s s1 \<Longrightarrow> ready N n r s1 \<Longrightarrow> active_out r b s1"
  using inner_rset [of r s s1] by (auto simp: active_out_def inner_def ready_def)

lemma fin_active_bind:
  assumes "serves e N n r m" "active_out r b s"
    and "\<And>x s1. active_out r b s1 \<Longrightarrow> fin e r s1 (k x s1)"
  shows "fin e r s (dbind m k s)"
proof (rule fin_bind)
  show "inner_run e r s (m s)" "ready N n r s"
    using assms(1,2) by (auto simp: active_out_def intro: servesD)
qed (use assms(2,3) active_out_inner in blast)

lemma fin_active_then:
  "serves e N n r m \<Longrightarrow> active_out r b s \<Longrightarrow> (\<And>s1. active_out r b s1 \<Longrightarrow> fin e r s1 (k s1)) \<Longrightarrow>
   fin e r s (dthen m k s)"
  unfolding dthen_def by (rule fin_active_bind)

lemma fin_calcout_done:
  assumes s: "ready N n r s"
  shows "fin e r s (calcout_done e proc r s)"
  unfolding calcout_done_def
  by (rule fin_then, rule serves_prims, rule s, rule fin_fwdLink)

lemma fin_stamp_done:
  assumes s: "ready N n r s"
  shows "fin e r s (dthen (recGblGetTimeStamp e proc r) (calcout_done e proc r) s)"
proof (rule fin_then [OF _ s])
  show "serves e N n r (recGblGetTimeStamp e proc r)"
    using s by (intro serves_timeStamp) (simp add: ready_def)
qed (rule fin_calcout_done)

lemma fin_output_then:
  assumes s: "ready N n r s" and co: "rset (recs s ! r) = calcoutRSET"
    and rest: "\<And>s1. ready N n r s1 \<Longrightarrow> fin e r s1 (rest s1)"
  shows "fin e r s (output_then e proc r rest s)"
  unfolding output_then_def
proof (rule fin_upd [OF _ s])
  let ?s0 = "upd_rec r (\<lambda>p. p\<lparr>pact := False\<rparr>) s"
  assume s0: "ready N n r ?s0"
  have r: "r < length (recs s)" using s by (simp add: ready_def)
  have co0: "rset (recs ?s0 ! r) = calcoutRSET" using co r by simp
  show "fin e r ?s0 (dthen (execOutput e proc r) (dbind (getr r pact) (\<lambda>active.
      if active then dret OK else dthen (updr r (\<lambda>p. p\<lparr>pact := True\<rparr>)) rest)) ?s0)"
    unfolding dthen_def [of "execOutput e proc r"]
  proof (rule fin_bind [OF _ s0])
    show "inner_run e r ?s0 (execOutput e proc r ?s0)" by (rule execOutput_inner [OF s0 co0])
    fix x s1 assume i: "inner r ?s0 s1" and s1: "ready N n r s1"
    show "fin e r s1 (dbind (getr r pact) (\<lambda>active.
      if active then dret OK else dthen (updr r (\<lambda>p. p\<lparr>pact := True\<rparr>)) rest) s1)"
    proof (cases "pact (recs s1 ! r)")
      case True
      then have "unsupported (recs s1 ! r)" using i r by (auto simp: inner_def)
      then show ?thesis
        using True s1 by (simp add: run_getr) (auto intro!: fin_ret simp: at_rest_def waits_def unsupported_def)
    next
      case False
      have "fin e r s1 (dthen (updr r (\<lambda>p. p\<lparr>pact := True\<rparr>)) rest s1)"
        by (rule fin_upd [OF _ s1]) (simp_all add: flags_simps rest)
      then show ?thesis using False by (simp add: run_getr)
    qed
  qed
qed (simp add: flags_simps)

text \<open>The record goes to sleep until its callback.\<close>

lemma fin_delay:
  assumes a: "active_out r True s"
  shows "fin e r s (dthen (recGblGetTimeStamp e proc r)
     (dthen (post_monitor r f m) (dthen (dmod (\<lambda>s. s\<lparr>delayed := delayed s @ [r]\<rparr>)) (dret OK))) s)"
proof (rule fin_active_then [OF _ a], goal_cases)
  case 1
  show ?case using a by (intro serves_timeStamp) (simp add: active_out_def ready_def)
next
  case (2 s1)
  show ?case
  proof (rule fin_active_then [OF _ 2], goal_cases)
    case 1
    show ?case by (rule serves_prims)
  next
    case (2 s2)
    let ?s' = "s2\<lparr>delayed := delayed s2 @ [r]\<rparr>"
    have "notify_ok ?s' = notify_ok s2" by (rule notify_ok_cong) simp_all
    then have "db_ok ?s'"
      using 2 by (auto simp: active_out_def ready_def db_ok_def delayed_ok_def)
    moreover have "around r s2 ?s'"
      by (auto simp: around_def same_config_def stays_def at_rest_def)
    moreover have "at_rest ?s' r" "waits ?s' r" using 2 by (auto simp: active_out_def at_rest_def waits_def)
    ultimately show ?case by (simp add: run_dmod dret_def fin_def)
  qed
qed

lemma stable_flags: "stable f \<Longrightarrow> same_but_flags f"
  by (simp add: stable_def same_but_flags_def)

lemma fin_calcout_start:
  assumes s: "ready N n r s" and co: "rset (recs s ! r) = calcoutRSET"
  shows "fin e r s (calcout_start e proc r s)"
  unfolding calcout_start_def
proof (rule fin_upd [OF _ s])
  let ?s0 = "upd_rec r (\<lambda>p. p\<lparr>pact := True\<rparr>) s"
  assume s0: "ready N n r ?s0"
  have r: "r < N" "r < length (recs s)" using s by (auto simp: ready_def)
  have a0: "active_out r False ?s0" using s0 co r by (simp add: active_out_def)
  have last: "fin e r s2 (dbind (getr r odly) (\<lambda>delay.
        if outp then
          if fp_lt (fp e) 0 delay then
            dthen (updr r (\<lambda>p. p\<lparr>dlya := True\<rparr>))
            (dthen (recGblGetTimeStamp e proc r)
            (dthen (post_monitor r (Some DLYA) DBE_VALUE)
            (dthen (dmod (\<lambda>s. s\<lparr>delayed := delayed s @ [r]\<rparr>)) (dret OK))))
          else
            output_then e proc r (dthen (recGblGetTimeStamp e proc r) (calcout_done e proc r))
        else dthen (recGblGetTimeStamp e proc r) (calcout_done e proc r)) s2)"
    if a: "active_out r False s2" for s2 outp
  proof (rule fin_getr)
    have s2: "ready N n r s2" "rset (recs s2 ! r) = calcoutRSET" using a by (auto simp: active_out_def)
    have "fin e r s2 (dthen (updr r (\<lambda>p. p\<lparr>dlya := True\<rparr>))
            (dthen (recGblGetTimeStamp e proc r)
            (dthen (post_monitor r (Some DLYA) DBE_VALUE)
            (dthen (dmod (\<lambda>s. s\<lparr>delayed := delayed s @ [r]\<rparr>)) (dret OK)))) s2)"
    proof (rule fin_upd [OF _ s2(1)], goal_cases)
      case 2
      then show ?case using a by (intro fin_delay) (auto simp: active_out_def ready_def)
    qed (simp add: flags_simps)
    moreover note fin_output_then [OF s2 fin_stamp_done] fin_stamp_done [OF s2(1)]
    ultimately show "fin e r s2 ((if outp then
          if fp_lt (fp e) 0 (odly (recs s2 ! r)) then
            dthen (updr r (\<lambda>p. p\<lparr>dlya := True\<rparr>))
            (dthen (recGblGetTimeStamp e proc r)
            (dthen (post_monitor r (Some DLYA) DBE_VALUE)
            (dthen (dmod (\<lambda>s. s\<lparr>delayed := delayed s @ [r]\<rparr>)) (dret OK))))
          else
            output_then e proc r (dthen (recGblGetTimeStamp e proc r) (calcout_done e proc r))
        else dthen (recGblGetTimeStamp e proc r) (calcout_done e proc r)) s2)"
      by simp
  qed
  have pv: "serves e N n r (updr r (\<lambda>p. p\<lparr>pval := val p\<rparr>))"
    by (intro serves_simple simple_rules) (simp add: stable_simps)
  show "fin e r ?s0 (dbind (fetch_values e proc r) (\<lambda>status.
      dthen (dwhen (status = OK) (calc_evaluate e r))
      (dthen (calcout_checkAlarms e r)
      (dbind (getr r (doOutput e)) (\<lambda>outp.
       dthen (updr r (\<lambda>p. p\<lparr>pval := val p\<rparr>))
       (dbind (getr r odly) (\<lambda>delay.
        if outp then
          if fp_lt (fp e) 0 delay then
            dthen (updr r (\<lambda>p. p\<lparr>dlya := True\<rparr>))
            (dthen (recGblGetTimeStamp e proc r)
            (dthen (post_monitor r (Some DLYA) DBE_VALUE)
            (dthen (dmod (\<lambda>s. s\<lparr>delayed := delayed s @ [r]\<rparr>)) (dret OK))))
          else
            output_then e proc r (dthen (recGblGetTimeStamp e proc r) (calcout_done e proc r))
        else dthen (recGblGetTimeStamp e proc r) (calcout_done e proc r))))))) ?s0)"
    by (rule fin_active_bind [OF _ a0], rule serves_fetch_values, rule r(1),
        rule fin_active_then, rule serves_when, rule serves_prims, rule r(1), assumption,
        rule fin_active_then, rule serves_prims, assumption, rule fin_getr,
        rule fin_active_then, rule pv, assumption, rule last)
qed (simp add: flags_simps)

lemma fin_calcout_continue:
  assumes s: "ready N n r s" and co: "rset (recs s ! r) = calcoutRSET"
  shows "fin e r s (calcout_continue e proc r s)"
  unfolding calcout_continue_def
proof (rule fin_getr, goal_cases)
  case 1
  have r: "r < N" "r < length (recs s)" using s by (auto simp: ready_def)
  have "fin e r s (dthen (updr r (\<lambda>p. p\<lparr>dlya := False\<rparr>))
       (dthen (recGblGetTimeStamp e proc r)
       (dthen (post_monitor r (Some DLYA) DBE_VALUE)
       (output_then e proc r (calcout_done e proc r)))) s)"
  proof (rule fin_upd [OF _ s], goal_cases)
    case 2
    let ?s0 = "upd_rec r (\<lambda>p. p\<lparr>dlya := False\<rparr>) s"
    have co0: "rset (recs ?s0 ! r) = calcoutRSET" using co r by simp
    show ?case
    proof (rule fin_then [OF serves_timeStamp [OF r(1)] 2], goal_cases)
      case (1 s1)
      then have co1: "rset (recs s1 ! r) = calcoutRSET" using co0 r inner_rset [of r ?s0 s1] by simp
      show ?case
      proof (rule fin_then [OF _ 1(3)], goal_cases)
        case (2 s2)
        then have "rset (recs s2 ! r) = calcoutRSET"
          using co1 inner_rset [of r s1 s2] 1(3) by (simp add: ready_def)
        with 2 show ?case by (intro fin_output_then fin_calcout_done)
      qed (rule serves_prims)
    qed
  qed (simp add: flags_simps)
  moreover have "fin e r s (dbind (writeValue e proc r) (\<lambda>_.
       dthen (recGblGetTimeStamp e proc r) (calcout_done e proc r)) s)"
    by (rule fin_bind) (rule writeValue_inner [OF s co], rule s, rule fin_stamp_done)
  ultimately show ?case by simp
qed

lemma fin_rset_process:
  assumes s: "ready N n r s" and rs: "rs = rset (recs s ! r)" "rs \<noteq> NO_RSET"
  shows "fin e r s (rset_process e proc rs r s)"
proof (cases rs)
  case calcoutRSET
  then have "rset (recs s ! r) = calcoutRSET" using rs by simp
  with fin_calcout_start [OF s] fin_calcout_continue [OF s] show ?thesis
    using calcoutRSET by (simp add: rset_process_def calcout_process_def run_getr)
qed (use rs fin_calc_process [OF s] in \<open>simp_all add: rset_process_def\<close>)

section \<open>dbProcess keeps its interface\<close>

lemma active_process_ok:
  assumes t: "t < length (recs s)" and s: "db_ok s" and act: "pact (recs s ! t)"
  shows "process_ok e t s (process_active t s)"
proof -
  have "calm_run e s (process_active t s)"
    using simple_process_active [of e "length (recs s)" t] s by (simp add: simple_def)
  moreover have "flow t s s'" if "calm s s'" for s'
    using calm_at_rest [OF that] calm_inner [OF that t] that t act
    by (auto simp: flow_def inner_def stays_def at_rest_def calm_def)
  ultimately show ?thesis
    using calm_db_ok [of s] s by (auto simp: calm_run_def process_ok_def split: res.splits)
qed

lemma fin_disabled:
  assumes s: "ready N n r s" and off: "pact (recs s ! r) \<longrightarrow> unsupported (recs s ! r)"
  shows "fin e r s (dthen (process_disabled r) (dret x) s)"
proof -
  let ?f = "\<lambda>p. p\<lparr>rpro := False, putf := False\<rparr>"
  let ?s0 = "upd_rec r ?f s"
  let ?rest = "dthen (dbind (getr r stat) (\<lambda>st.
        dwhen (st \<noteq> DISABLE_ALARM)
          (dthen (updr r (\<lambda>p. p\<lparr>sevr := diss p, stat := DISABLE_ALARM, nsev := 0, nsta := 0\<rparr>))
          (dthen (post_monitor r (Some STAT) DBE_VALUE)
          (dthen (post_monitor r (Some SEVR) DBE_VALUE)
          (post_monitor r (Some VAL) (DBE_VALUE OR DBE_ALARM)))))))
     (notify_if_owned r)"
  have r: "r < N" "r < length (recs s)" using s by (auto simp: ready_def)
  have f: "same_but_flags ?f" by (simp add: flags_simps)
  have s0: "ready N n r ?s0" by (rule ready_upd [OF f s])
  have "simple e N ?rest"
    by (intro simple_rules) (simp_all add: stable_simps r)
  then have run: "calm_run e ?s0 (?rest ?s0)" using s0 by (simp add: simple_def ready_def)
  let ?alarm = "dbind (getr r stat) (\<lambda>st.
        dwhen (st \<noteq> DISABLE_ALARM)
          (dthen (updr r (\<lambda>p. p\<lparr>sevr := diss p, stat := DISABLE_ALARM, nsev := 0, nsta := 0\<rparr>))
          (dthen (post_monitor r (Some STAT) DBE_VALUE)
          (dthen (post_monitor r (Some SEVR) DBE_VALUE)
          (post_monitor r (Some VAL) (DBE_VALUE OR DBE_ALARM))))))"
  have quiet: "\<not> wait_on (recs s1 ! r)" if "?rest ?s0 = Done y s1" for y s1
  proof -
    from that obtain z t where a: "?alarm ?s0 = Done z t" and b: "notify_if_owned r t = Done y s1"
      by (subst (asm) dthen_def) (rule dbind_Done)
    have "simple e N ?alarm" by (intro simple_rules) (simp_all add: stable_simps)
    then have "calm_run e ?s0 (?alarm ?s0)" using s0 unfolding simple_def ready_def by blast
    then have t: "calm ?s0 t" "notify_ok t" using a by (simp_all add: calm_run_def)
    have "db_ok t" using calm_db_ok [OF t(1) _ t(2)] s0 by (simp add: ready_def)
    moreover have "r < length (recs t)" using t(1) r by (simp add: calm_length)
    ultimately show ?thesis using completion_waits [of t r s1] b by (simp add: notify_if_owned_def)
  qed
  have "fin e r ?s0 (dthen ?rest (dret x) ?s0)"
    unfolding dthen_def [of ?rest]
  proof (rule fin_bind [OF _ s0])
    show "inner_run e r ?s0 (?rest ?s0)"
      using calm_run_inner [OF run, of r] s0 by (simp add: ready_def)
    fix y s1 assume m: "?rest ?s0 = Done y s1" and i: "inner r ?s0 s1" and s1: "ready N n r s1"
    have c: "calm ?s0 s1" using run m by (simp add: calm_run_def)
    have "flags (recs s1 ! r) = flags (recs ?s0 ! r)" using c r by (simp add: calm_def)
    from flags_fields [OF this] have "\<not> putf (recs s1 ! r)" "\<not> rpro (recs s1 ! r)"
      using r by simp_all
    moreover have "\<not> wait_on (recs s1 ! r)" by (rule quiet [OF m])
    moreover have "at_rest s1 r" using calculation by (simp add: at_rest_def)
    moreover have "pact (recs s1 ! r) \<longrightarrow> waits s1 r"
    proof -
      have "config (recs s1 ! r) = config (recs s ! r)"
        using c r f by (simp add: calm_def same_config_def same_but_flags_def)
      from unsupported_config [OF this] show ?thesis
        using off i r by (auto simp: inner_def waits_def unsupported_def)
    qed
    ultimately show "fin e r s1 (dret x s1)" by (intro fin_ret [OF s1])
  qed
  then show ?thesis
    using fin_around [OF upd_around [OF f, of r s]]
    by (simp add: process_disabled_def dthen_def dbind_assoc) (simp add: dbind_def updr_def dmod_def)
qed

lemma idle_process_ok:
  assumes t: "t < N" and len: "length (recs s) = N" and s: "db_ok s"
    and depth: "idle s < Suc n" and off: "\<not> pact (recs s ! t)"
  shows "process_ok e t s (dbProcess_body e proc t s)"
proof (rule fin_process [OF _ off])
  have rd: "ready N n t s"
    using assms idle_idle [of s t] by (auto simp: ready_def db_ok_def delayed_ok_def)
  let ?s0 = "upd_rec t (\<lambda>p. p\<lparr>lcnt := 0\<rparr>) s"
  have f: "same_but_flags (\<lambda>p. p\<lparr>lcnt := 0\<rparr>)" by (simp add: flags_simps)
  have s0: "ready N n t ?s0" by (rule ready_upd [OF f rd])
  have lk: "link_ok N (sdis (recs ?s0 ! t))"
    using s0 by (auto simp: ready_def db_ok_def rec_ok_def)
  have da: "serves e N n t (updr t (\<lambda>p. p\<lparr>disa := w\<rparr>))" for w
    by (intro serves_simple simple_rules) (simp add: stable_simps)
  have rest: "fin e t s2 ((if disa (id (recs s2 ! t)) = disv (id (recs s2 ! t))
         then dthen (process_disabled t) (dret status)
         else if rset (id (recs s2 ! t)) = NO_RSET then
           dthen (updr t (\<lambda>p. p\<lparr>pact := True\<rparr>)) (dthen (notify_if_owned t) (dret S_db_noRSET))
         else rset_process e proc (rset (id (recs s2 ! t))) t) s2)"
    if s2: "ready N n t s2" and off2: "pact (recs s2 ! t) \<longrightarrow> unsupported (recs s2 ! t)" for s2 status
  proof -
    have "fin e t s2 (dthen (updr t (\<lambda>p. p\<lparr>pact := True\<rparr>))
        (dthen (notify_if_owned t) (dret S_db_noRSET)) s2)" if rs: "rset (recs s2 ! t) = NO_RSET"
    proof (rule fin_upd [OF _ s2], goal_cases)
      case 2
      show ?case
      proof (rule fin_then [OF _ 2], goal_cases)
        case 1
        show ?case using t by (intro serves_prims)
      next
        case (2 s3)
        then have "rset (recs s3 ! t) = NO_RSET" "pact (recs s3 ! t)"
          using rs inner_rset [OF 2(2)] s2 by (auto simp: ready_def inner_def)
        then show ?case using 2(3) by (intro fin_ret) (auto simp: at_rest_def waits_def)
      qed
    qed (simp add: flags_simps)
    then show ?thesis using fin_disabled [OF s2 off2, of status] fin_rset_process [OF s2] by simp
  qed
  have "fin e t ?s0 (dbind (dbGetLink proc t (sdis (recs ?s0 ! t))) (\<lambda>(status, v).
        dthen (case v of None \<Rightarrow> dret () | Some w \<Rightarrow> updr t (\<lambda>p. p\<lparr>disa := cvt_short e w\<rparr>))
        (dbind (getr t id) (\<lambda>p.
         if disa p = disv p then dthen (process_disabled t) (dret status)
         else if rset p = NO_RSET then
           dthen (updr t (\<lambda>p. p\<lparr>pact := True\<rparr>)) (dthen (notify_if_owned t) (dret S_db_noRSET))
         else rset_process e proc (rset p) t))) ?s0)"
  proof (rule fin_bind, rule servesD, rule serves_getLink, rule lk, rule s0, rule s0, goal_cases)
    case (1 x s1)
    obtain status v where x: "x = (status, v)" by force
    have da': "serves e N n t (case v of None \<Rightarrow> dret () | Some w \<Rightarrow> updr t (\<lambda>p. p\<lparr>disa := cvt_short e w\<rparr>))"
      by (cases v) (simp_all add: serves_prims da)
    show ?case
      unfolding x case_prod_conv
    proof (rule fin_then [OF da' 1(3)], rule fin_getr, rule rest, assumption, goal_cases)
      case (1 s2)
      then have "inner t ?s0 s2" using inner_trans [OF \<open>inner t ?s0 s1\<close>] t len by simp
      then show ?case using off t len by (auto simp: inner_def)
    qed
  qed
  then have "fin e t ?s0 (dbind (getr t sdis) (\<lambda>lk. dbind (dbGetLink proc t lk) (\<lambda>(status, v).
        dthen (case v of None \<Rightarrow> dret () | Some w \<Rightarrow> updr t (\<lambda>p. p\<lparr>disa := cvt_short e w\<rparr>))
        (dbind (getr t id) (\<lambda>p.
         if disa p = disv p then dthen (process_disabled t) (dret status)
         else if rset p = NO_RSET then
           dthen (updr t (\<lambda>p. p\<lparr>pact := True\<rparr>)) (dthen (notify_if_owned t) (dret S_db_noRSET))
         else rset_process e proc (rset p) t)))) ?s0)"
    by (rule fin_getr)
  then show "fin e t s (dbProcess_body e proc t s)"
    using fin_around [OF upd_around [OF f]] off by (simp add: dbProcess_body_def run_getr run_updr)
qed

lemma body_process_ok:
  "\<lbrakk>t < N; length (recs s) = N; db_ok s; idle s < Suc n\<rbrakk> \<Longrightarrow>
   process_ok e t s (dbProcess_body e proc t s)"
  using idle_process_ok active_process_ok [of t s]
  by (cases "pact (recs s ! t)") (simp_all add: dbProcess_body_def run_getr)

end

text \<open>By induction on the depth.\<close>

lemma dbProcess_processes: "processes e N n (dbProcess e n)"
proof (induction n)
  case (Suc n)
  show ?case
  proof
    fix t s assume "t < N" "length (recs s) = N" "db_ok s" "idle s < Suc n"
    then show "process_ok e t s (dbProcess e (Suc n) t s)"
      using processes.body_process_ok [OF Suc] by simp
  qed
qed (simp add: processes_def)

interpretation dbp: processes e N n "dbProcess e n" for e N n
  by (rule dbProcess_processes)

end
