(* ===== verification/DbSettle.thy ===== *)
theory DbSettle
  imports DbProcess
begin

text \<open>
  The state of a lock set between operations, and the operations of the tasks that process
  records: each leaves it settled. The depth to which \<^verbatim>\<open>dbProcess()\<close> recurs is bounded by the
  number of records, so that bound is the fuel of each operation.
\<close>

section \<open>Between operations\<close>

text \<open>
  No operation is under way: an active record waits for a callback (or lacks support), an idle
  record has no request left over.
\<close>

definition settled :: "db \<Rightarrow> bool" where
  "settled s \<longleftrightarrow> db_ok s \<and>
     (\<forall>x < length (recs s). at_rest s x \<and> (pact (recs s ! x) \<longrightarrow> waits s x))"

definition settles :: "env \<Rightarrow> db \<Rightarrow> 'a res \<Rightarrow> bool" where
  "settles e s res \<longleftrightarrow>
     (case res of
        Done x s' \<Rightarrow> same_config s s' \<and> settled s'
      | Crash f \<Rightarrow> may_crash e s f
      | NoFuel \<Rightarrow> False)"

lemma idle_bound: "idle s \<le> length (recs s)"
  using card_mono [of "{..<length (recs s)}" "{x. x < length (recs s) \<and> \<not> pact (recs s ! x)}"]
  by (auto simp: idle_def)

lemma flow_settles:
  assumes res: "process_ok e r s res" and s: "db_ok s"
    and others: "\<forall>x < length (recs s). x \<noteq> r \<longrightarrow> at_rest s x"
    and act: "\<forall>x < length (recs s). pact (recs s ! x) \<longrightarrow> waits s x" and r: "r < length (recs s)"
  shows "settles e s res"
proof (cases res)
  case (Done x s')
  then have f: "flow r s s'" "db_ok s'" using res by (auto simp: process_ok_def)
  have cfg: "same_config s s'" and sub: "set (delayed s) \<subseteq> set (delayed s')"
    using f by (auto simp: flow_def around_def)
  have len: "length (recs s') = length (recs s)" using cfg by (simp add: same_config_def)
  have st: "stays s s' x" if "x < length (recs s)" for x
    using f(1) that by (cases "x = r") (auto simp: flow_def around_def)
  have "at_rest s' x" if "x < length (recs s)" for x
    using f(1) that others by (cases "x = r") (auto simp: flow_def around_def)
  moreover have "pact (recs s' ! x) \<longrightarrow> waits s' x" if "x < length (recs s)" for x
    using st [OF that] act waits_mono [OF cfg sub that] that by (auto simp: stays_def)
  ultimately show ?thesis using Done f cfg len by (simp add: settles_def settled_def)
qed (use res in \<open>auto simp: process_ok_def settles_def\<close>)

lemma fin_settles:
  assumes res: "fin e r s res"
    and others: "\<forall>x < length (recs s). x \<noteq> r \<longrightarrow> at_rest s x \<and> (pact (recs s ! x) \<longrightarrow> waits s x)"
    and r: "r < length (recs s)"
  shows "settles e s res"
proof (cases res)
  case (Done x s')
  then have f: "around r s s'" "db_ok s'" "at_rest s' r" "pact (recs s' ! r) \<longrightarrow> waits s' r"
    using res by (auto simp: fin_def)
  have cfg: "same_config s s'" and sub: "set (delayed s) \<subseteq> set (delayed s')"
    using f by (auto simp: around_def)
  have len: "length (recs s') = length (recs s)" using cfg by (simp add: same_config_def)
  have "at_rest s' x \<and> (pact (recs s' ! x) \<longrightarrow> waits s' x)" if "x < length (recs s)" for x
  proof (cases "x = r")
    case False
    then have "stays s s' x" "at_rest s' x" using f(1) others that by (auto simp: around_def)
    then show ?thesis
      using others that False waits_mono [OF cfg sub that] by (auto simp: stays_def)
  qed (use f in simp)
  then show ?thesis using Done f cfg len by (simp add: settles_def settled_def)
qed (use res in \<open>auto simp: fin_def settles_def\<close>)

lemma settles_trans: "same_config s s1 \<Longrightarrow> settles e s1 res \<Longrightarrow> settles e s res"
  using may_crash_config [of s s1 e] same_config_trans [of s s1]
  by (auto simp: settles_def split: res.splits)

lemma settles_bind:
  assumes "settles e s (m s)" and "\<And>x s1. same_config s s1 \<Longrightarrow> settled s1 \<Longrightarrow> settles e s1 (k x s1)"
  shows "settles e s (dbind m k s)"
  using assms settles_trans [of s _ e]
  by (cases "m s") (auto simp: settles_def [of _ _ "m s"] dbind_def, auto simp: settles_def)

section \<open>Each task leaves the lock set settled\<close>

lemma dbProcess_settles:
  assumes s: "settled s" and r: "r < length (recs s)" and n: "length (recs s) < n"
  shows "settles e s (dbProcess e n r s)"
proof (rule flow_settles [OF _ _ _ _ r])
  show "process_ok e r s (dbProcess e n r s)"
    using s r n idle_bound [of s] by (intro dbp.proc_ok) (auto simp: settled_def)
qed (use s in \<open>auto simp: settled_def\<close>)

lemma calm_settled:
  assumes s: "settled s" and c: "calm s s'" and ok: "db_ok s'"
  shows "settled s'"
proof -
  have "at_rest s x \<Longrightarrow> at_rest s' x" "pact (recs s' ! x) = pact (recs s ! x)" if "x < length (recs s)" for x
    using calm_at_rest [OF c that] by auto
  moreover have "waits s' x" if "waits s x" "x < length (recs s)" for x
    using waits_mono [of s s' x] c that by (auto simp: calm_def)
  ultimately show ?thesis
    using s ok calm_length [OF c] by (auto simp: settled_def)
qed

lemma simple_settles:
  assumes "simple e (length (recs s)) m" "settled s"
  shows "settles e s (m s)"
proof -
  have "calm_run e s (m s)" using assms by (simp add: simple_def settled_def)
  then show ?thesis
    using calm_settled [OF assms(2)] calm_db_ok [of s] assms(2)
    by (auto simp: calm_run_def settles_def settled_def calm_def split: res.splits)
qed

lemma dbPutField_settles:
  assumes s: "settled s" and r: "r < length (recs s)" and n: "length (recs s) < n"
  shows "settles e s (dbPutField e n r f v s)"
proof -
  have ret: "settles e s1 (dret x s1)" if "settled s1" for s1 and x :: db_status
    using that by (simp add: settles_def dret_def)
  have go: "settles e s1 (dthen (updr r (\<lambda>p. p\<lparr>rpro := True\<rparr>)) (dret x) s1)"
    if s1: "settled s1" "pact (recs s1 ! r)" "length (recs s1) = length (recs s)" for s1 and x :: db_status
  proof -
    let ?s2 = "upd_rec r (\<lambda>p. p\<lparr>rpro := True\<rparr>) s1"
    have f: "same_but_flags (\<lambda>p. p\<lparr>rpro := True\<rparr>)" by (simp add: flags_simps)
    have "db_ok ?s2" using s1 by (intro upd_db_ok f) (auto simp: settled_def)
    moreover have "at_rest ?s2 x \<and> (pact (recs ?s2 ! x) \<longrightarrow> waits ?s2 x)" if "x < length (recs s1)" for x
      using s1 that by (auto simp: settled_def at_rest_def waits_def)
    ultimately have "settled ?s2" by (simp add: settled_def)
    then show ?thesis using upd_config [OF f, of s1 r] by (simp add: run_updr settles_def dret_def)
  qed
  have proc: "settles e s1 (dthen (updr r (\<lambda>p. p\<lparr>putf := True\<rparr>)) (dbProcess e n r) s1)"
    if s1: "settled s1" "length (recs s1) = length (recs s)" for s1
  proof -
    let ?s2 = "upd_rec r (\<lambda>p. p\<lparr>putf := True\<rparr>) s1"
    have f: "same_but_flags (\<lambda>p. p\<lparr>putf := True\<rparr>)" by (simp add: flags_simps)
    have ok: "db_ok ?s2" using s1 by (intro upd_db_ok f) (auto simp: settled_def)
    have "settles e ?s2 (dbProcess e n r ?s2)"
    proof (rule flow_settles)
      show "process_ok e r ?s2 (dbProcess e n r ?s2)"
        using ok r n s1 idle_bound [of ?s2] by (intro dbp.proc_ok) auto
    qed (use ok s1 r in \<open>auto simp: settled_def at_rest_def waits_def\<close>)
    with upd_config [OF f, of s1 r] show ?thesis by (auto simp: run_updr intro: settles_trans)
  qed
  have put: "settles e s (dbPut e r f v s)" by (intro simple_settles simple_dbPut s)
  show ?thesis
    unfolding dbPutField_def
  proof (subst run_getr, cases "disp_f (recs s ! r) \<noteq> 0 \<and> f \<noteq> DISP", goal_cases)
    case 1
    then show ?case using ret [OF s] by simp
  next
    case 2
    show ?case
    proof (subst if_not_P [OF 2], rule settles_bind, rule put, goal_cases)
      case (1 x s1)
      then have "length (recs s1) = length (recs s)" by (simp add: same_config_def)
      with 1 show ?case by (simp add: ret run_getr go proc)
    qed
  qed
qed

lemma onceTask_settles:
  assumes s: "settled s" and n: "length (recs s) < n"
  shows "settles e s (onceTask e n s)"
proof (cases "onceQ s")
  case Nil
  then show ?thesis using s by (simp add: onceTask_def run_dget dret_def settles_def)
next
  case (Cons r rest)
  let ?s1 = "s\<lparr>onceQ := rest\<rparr>"
  have "notify_ok ?s1 = notify_ok s" by (rule notify_ok_cong) simp_all
  then have "settled ?s1"
    using s Cons by (auto simp: settled_def db_ok_def delayed_ok_def at_rest_def waits_def)
  moreover have "r < length (recs s)" using s Cons by (auto simp: settled_def db_ok_def)
  ultimately have "settles e ?s1 (dbProcess e n r ?s1)" using n by (intro dbProcess_settles) auto
  then have "settles e s (dbProcess e n r ?s1)" by (rule settles_trans [rotated]) (simp add: same_config_def)
  then show ?thesis using Cons by (simp add: onceTask_def run_dget run_dmod)
qed

text \<open>The callback number \<open>i\<close> is taken off the list; its record is ready to be processed.\<close>

lemma callback_ready:
  assumes s: "settled s" and i: "i < length (delayed s)" and n: "length (recs s) < n"
  defines "s1 \<equiv> s\<lparr>delayed := take i (delayed s) @ drop (Suc i) (delayed s)\<rparr>" and "r \<equiv> delayed s ! i"
  shows "ready (length (recs s)) n r s1" "rset (recs s ! r) = calcoutRSET" "pact (recs s ! r)"
    "same_config s s1"
    "\<And>x. x < length (recs s) \<Longrightarrow> x \<noteq> r \<Longrightarrow> at_rest s1 x \<and> (pact (recs s1 ! x) \<longrightarrow> waits s1 x)"
proof -
  let ?d = "delayed s"
  have split: "?d = take i ?d @ r # drop (Suc i) ?d" using i by (simp add: r_def id_take_nth_drop)
  have d: "distinct ?d" "r \<in> set ?d" using s i by (auto simp: settled_def db_ok_def delayed_ok_def r_def)
  have set: "set (take i ?d @ drop (Suc i) ?d) = set ?d - {r}"
    using d(1) by (subst (3) split, subst (asm) split) auto
  have dist: "distinct (take i ?d @ drop (Suc i) ?d)"
    using d(1) by (subst (asm) split) auto
  have r: "r < length (recs s)" "rset (recs s ! r) = calcoutRSET" "pact (recs s ! r)"
    using s d(2) by (auto simp: settled_def db_ok_def delayed_ok_def)
  then show "rset (recs s ! r) = calcoutRSET" "pact (recs s ! r)" by auto
  show "same_config s s1" by (simp add: s1_def same_config_def)
  have "notify_ok s1 = notify_ok s" unfolding s1_def by (rule notify_ok_cong) simp_all
  then have "db_ok s1"
    using s set dist by (auto simp: s1_def settled_def db_ok_def delayed_ok_def)
  moreover have "idle_but r s1 < n"
    using idle_active [of s1 r] idle_bound [of s1] r n by (simp add: s1_def)
  ultimately show "ready (length (recs s)) n r s1" using r set by (auto simp: ready_def s1_def)
  show "at_rest s1 x \<and> (pact (recs s1 ! x) \<longrightarrow> waits s1 x)" if "x < length (recs s)" "x \<noteq> r" for x
    using s that set by (auto simp: s1_def settled_def at_rest_def waits_def)
qed

lemma ProcessCallback_settles:
  assumes s: "settled s" and n: "length (recs s) < n"
  shows "settles e s (ProcessCallback e n i s)"
proof (cases "i < length (delayed s)")
  case False
  then show ?thesis using s by (simp add: ProcessCallback_def run_dget dret_def settles_def)
next
  case True
  let ?s1 = "s\<lparr>delayed := take i (delayed s) @ drop (Suc i) (delayed s)\<rparr>"
  let ?r = "delayed s ! i"
  note c = callback_ready [OF s True n]
  have "fin e ?r ?s1 (rset_process e (dbProcess e n) (rset (recs ?s1 ! ?r)) ?r ?s1)"
    using c(1,2) by (intro dbp.fin_rset_process) simp_all
  then have "settles e ?s1 (rset_process e (dbProcess e n) (rset (recs ?s1 ! ?r)) ?r ?s1)"
    by (rule fin_settles) (use c(1,5) in \<open>auto simp: ready_def\<close>)
  from settles_trans [OF c(4) this] show ?thesis
    using True by (simp add: ProcessCallback_def run_dget run_dmod run_getr)
qed

end
