(* ===== verification/DbNotifySettle.thy ===== *)
theory DbNotifySettle
  imports DbSettle
begin

text \<open>
  Requests of clients leave the lock set settled, too: starting, restarting and cancelling a
  process-notify request, the callback of a request and the return of its \<^verbatim>\<open>doneCallback\<close>. A task
  takes a request in hand, so that only that request is out of order, and puts it back.
\<close>

section \<open>Quiet operations\<close>

text \<open>They touch fields that matter neither for processing nor for process-notify.\<close>

definition still_step :: "db \<Rightarrow> db \<Rightarrow> bool" where
  "still_step s s' \<longleftrightarrow> length (recs s') = length (recs s) \<and> pns s' = pns s \<and>
     notify_cbs s' = notify_cbs s \<and> onceQ s' = onceQ s \<and> delayed s' = delayed s \<and>
     calling s' = calling s \<and> cancellers s' = cancellers s \<and> restarters s' = restarters s \<and>
     notify_log s' = notify_log s \<and>
     (\<forall>x < length (recs s). config (recs s' ! x) = config (recs s ! x) \<and>
        flags (recs s' ! x) = flags (recs s ! x) \<and> notify_part (recs s' ! x) = notify_part (recs s ! x))"

definition quiet :: "'a dbm \<Rightarrow> bool" where
  "quiet m \<longleftrightarrow> (\<forall>s. \<exists>x s'. m s = Done x s' \<and> still_step s s')"

named_theorems quiet_rules \<open>rules for quiet operations\<close>

lemma still_step_trans: "still_step s t \<Longrightarrow> still_step t u \<Longrightarrow> still_step s u"
  by (simp add: still_step_def)

lemma quiet_ret [quiet_rules]: "quiet (dret x)"
  by (simp add: quiet_def dret_def still_step_def)

lemma quiet_getr [quiet_rules]: "quiet (getr r f)"
  by (simp add: quiet_def getr_def dget_def still_step_def)

lemma quiet_updr [quiet_rules]: "stable f \<Longrightarrow> quiet (updr r f)"
  by (simp add: quiet_def updr_def dmod_def still_step_def stable_def)

lemma quiet_post [quiet_rules]: "quiet (post_monitor r f m)"
  by (simp add: quiet_def post_monitor_def dmod_def still_step_def)

lemma quiet_bind [quiet_rules]:
  assumes "quiet m" "\<And>x. quiet (k x)"
  shows "quiet (dbind m k)"
  unfolding quiet_def
proof
  fix s
  obtain x s1 where 1: "m s = Done x s1" "still_step s s1" using assms(1) unfolding quiet_def by blast
  obtain y s2 where "k x s1 = Done y s2" "still_step s1 s2" using assms(2) [of x] unfolding quiet_def by blast
  then show "\<exists>y s'. dbind m k s = Done y s' \<and> still_step s s'"
    using 1 still_step_trans by (auto simp: dbind_def)
qed

lemma quiet_then [quiet_rules]: "quiet m \<Longrightarrow> quiet k \<Longrightarrow> quiet (dthen m k)"
  unfolding dthen_def by (rule quiet_bind)

lemma quiet_when [quiet_rules]: "quiet m \<Longrightarrow> quiet (dwhen b m)"
  by (simp add: dwhen_def quiet_ret)

lemma quiet_if [quiet_rules]: "quiet m \<Longrightarrow> quiet k \<Longrightarrow> quiet (if b then m else k)"
  by simp

lemma quiet_dbPut: "quiet (dbPut e r f v)"
proof -
  have st: "stable (\<lambda>p. p\<lparr>ackt := a\<rparr>)" "stable (\<lambda>p. p\<lparr>acks := sevr p\<rparr>)" "stable (\<lambda>p. p\<lparr>acks := 0\<rparr>)"
    "stable (\<lambda>p. p\<lparr>udf := False\<rparr>)" for a
    by (simp_all add: stable_simps)
  show ?thesis
    unfolding dbPut_def putAckt_def putAcks_def
    by (cases v) (simp_all add: quiet_rules st stable_set_field)
qed

section \<open>A request in hand\<close>

text \<open>All of \<^const>\<open>settled\<close> but the requests.\<close>

definition base_rest :: "db \<Rightarrow> bool" where
  "base_rest s \<longleftrightarrow> (\<forall>x < length (recs s). rec_ok (length (recs s)) (recs s ! x)) \<and>
     delayed_ok s \<and> set (onceQ s) \<subseteq> {..<length (recs s)} \<and>
     (\<forall>x < length (recs s). pact (recs s ! x) \<longrightarrow> waits s x)"

definition rest_ok :: "db \<Rightarrow> bool" where
  "rest_ok s \<longleftrightarrow> base_rest s \<and> (\<forall>x < length (recs s). at_rest s x)"

lemma settled_parts: "settled s \<longleftrightarrow> notify_ok s \<and> rest_ok s"
  by (auto simp: settled_def db_ok_def rest_ok_def base_rest_def)

lemma db_ok_parts: "notify_ok s \<Longrightarrow> base_rest s \<Longrightarrow> db_ok s"
  by (simp add: db_ok_def base_rest_def)

lemma base_rest_frame:
  assumes s: "base_rest s" and len: "length (recs s') = length (recs s)"
    and d: "delayed s' = delayed s" "onceQ s' = onceQ s"
    and eq: "\<And>x. x < length (recs s) \<Longrightarrow>
      config (recs s' ! x) = config (recs s ! x) \<and> flags (recs s' ! x) = flags (recs s ! x)"
  shows "base_rest s'" "same_config s s'"
proof -
  have c: "config (recs s' ! x) = config (recs s ! x)" "flags (recs s' ! x) = flags (recs s ! x)"
    if "x < length (recs s)" for x
    using eq [OF that] by simp_all
  note fl = flags_fields [OF c(2)] and cf = config_fields [OF c(1)]
  have "rec_ok (length (recs s)) (recs s' ! x)" if "x < length (recs s)" for x
    using s that rec_ok_config [OF c(1) [OF that]] by (simp add: base_rest_def)
  moreover have "delayed_ok s'"
    using s d len fl(1,4) cf(7) by (auto simp: base_rest_def delayed_ok_def)
  moreover have "pact (recs s' ! x) \<longrightarrow> waits s' x" if "x < length (recs s)" for x
    using s that fl [OF that] cf(7,8) [OF that] d by (auto simp: base_rest_def waits_def)
  ultimately show "base_rest s'" using s len d by (simp add: base_rest_def)
  show "same_config s s'" using c len by (simp add: same_config_def)
qed

lemma rest_ok_frame:
  assumes s: "rest_ok s" and len: "length (recs s') = length (recs s)"
    and d: "delayed s' = delayed s" "onceQ s' = onceQ s" and fw: "fewer_waits s s'"
    and eq: "\<And>x. x < length (recs s) \<Longrightarrow>
      config (recs s' ! x) = config (recs s ! x) \<and> flags (recs s' ! x) = flags (recs s ! x)"
  shows "rest_ok s'" "same_config s s'"
proof -
  have "at_rest s' x" if "x < length (recs s)" for x
    using s that flags_fields [of "recs s' ! x" "recs s ! x"] eq [OF that] fw
    by (auto simp: rest_ok_def at_rest_def fewer_waits_def)
  then show "rest_ok s'" using base_rest_frame [OF _ len d eq] s len by (simp add: rest_ok_def)
  show "same_config s s'" using len eq by (simp add: same_config_def)
qed

lemma rest_ok_notify_frame:
  assumes "rest_ok s" "notify_frame s s'" "fewer_waits s s'"
  shows "rest_ok s'" "same_config s s'"
proof -
  have "config (recs s' ! x) = config (recs s ! x) \<and> flags (recs s' ! x) = flags (recs s ! x)"
    if "x < length (recs s)" for x
    using assms(2) that by (intro rest_of_eq) (simp add: notify_frame_def)
  then show "rest_ok s'" "same_config s s'"
    using assms rest_ok_frame [of s s'] by (auto simp: notify_frame_def)
qed

lemma rest_ok_upd_pn [simp]: "rest_ok (upd_pn p f s) = rest_ok s"
  by (simp add: rest_ok_def base_rest_def delayed_ok_def at_rest_def waits_def)

lemma rest_ok_tasks [simp]:
  "rest_ok (s\<lparr>notify_cbs := a\<rparr>) = rest_ok s" "rest_ok (s\<lparr>calling := a\<rparr>) = rest_ok s"
  "rest_ok (s\<lparr>cancellers := b\<rparr>) = rest_ok s" "rest_ok (s\<lparr>restarters := b\<rparr>) = rest_ok s"
  "rest_ok (s\<lparr>notify_log := c\<rparr>) = rest_ok s"
  by (simp_all add: rest_ok_def base_rest_def delayed_ok_def at_rest_def waits_def)

lemma same_config_tasks [simp]:
  "same_config s (upd_pn p f t) = same_config s t" "same_config s (t\<lparr>notify_cbs := a\<rparr>) = same_config s t"
  "same_config s (t\<lparr>calling := a\<rparr>) = same_config s t" "same_config s (t\<lparr>cancellers := b\<rparr>) = same_config s t"
  "same_config s (t\<lparr>restarters := b\<rparr>) = same_config s t" "same_config s (t\<lparr>notify_log := c\<rparr>) = same_config s t"
  by (simp_all add: same_config_def)

lemma book_ok_tasks [simp]:
  "book_ok (s\<lparr>notify_cbs := a\<rparr>) = book_ok s" "book_ok (s\<lparr>calling := a\<rparr>) = book_ok s"
  "book_ok (s\<lparr>cancellers := b\<rparr>) = book_ok s" "book_ok (s\<lparr>restarters := b\<rparr>) = book_ok s"
  "book_ok (s\<lparr>notify_log := c\<rparr>) = book_ok s"
  by (rule book_ok_cong; simp)+

text \<open>No record belongs to the request, and it waits for none.\<close>

definition unattached :: "db \<Rightarrow> nat \<Rightarrow> bool" where
  "unattached s p \<longleftrightarrow> p < length (pns s) \<and> pn_chan (pns s ! p) < length (recs s) \<and>
     (\<forall>x < length (recs s). ppn (recs s ! x) \<noteq> Some p) \<and> waitList (pns s ! p) = [] \<and>
     pn_state (pns s ! p) \<noteq> notifyWaitForRestart \<and> \<not> restart_on (pns s ! p)"

lemma book_ok_unattached:
  assumes s: "book_ok s" and u: "unattached s p"
    and f: "\<And>n. waitList n = [] \<Longrightarrow> waitList (f n) = []" "\<not> in_progress (pn_state (f (pns s ! p)))"
  shows "book_ok (upd_pn p f s)"
proof -
  have "queue_ok (upd_pn p f s) x" if "x < length (recs s)" for x
    using s u that by (auto simp: book_ok_def queue_ok_def unattached_def)
  moreover have "owner_ok (upd_pn p f s) x" if x: "x < length (recs s)" for x
  proof -
    have "owner_ok s x" "ppn (recs s ! x) \<noteq> Some p" using s u x by (auto simp: book_ok_def unattached_def)
    then show ?thesis by (auto simp: owner_ok_def split: option.splits)
  qed
  moreover have "waits_ok {} (upd_pn p f s) k" if "k < length (pns s)" for k
    using s u f that by (auto simp: book_ok_def waits_ok_def unattached_def)
  ultimately show ?thesis by (simp add: book_ok_def)
qed

text \<open>A new entry in the history of the request.\<close>

lemma reqs_log:
  assumes "reqs_but {p} s" "notify_log s = l"
  shows "reqs_but {p} (s\<lparr>notify_log := l @ [(p, ev)]\<rparr>)"
proof -
  let ?t = "s\<lparr>notify_log := l @ [(p, ev)]\<rparr>"
  have "place_ok ?t k = place_ok s k" for k by (simp add: place_ok_def)
  moreover have "client_ok ?t k = client_ok s k" if "k \<noteq> p" for k
    using assms(2) that by (simp add: client_ok_def history_def)
  ultimately show ?thesis using assms(1) by (simp add: reqs_but_def tasks_ok_def)
qed

text \<open>A state of the request that no callback, no record and no client is concerned with.\<close>

lemma settled_put_back:
  assumes "book_ok s" "reqs_but {p} s" "rest_ok s" "place_ok s p" "client_ok s p"
  shows "settled s"
  using assms reqs_but_all [of p s] by (simp add: settled_parts notify_ok_def)

section \<open>Claiming the record\<close>

text \<open>The request takes a record that nobody else owns, and waits for it.\<close>

definition claims :: "nat \<Rightarrow> notifyState \<Rightarrow> (processNotify \<Rightarrow> processNotify) \<Rightarrow> bool" where
  "claims r st f \<longleftrightarrow> (\<forall>n. pn_state (f n) = st \<and> waitList (f n) = waitList n @ [r] \<and>
     pn_chan (f n) = pn_chan n \<and> restart_on (f n) = restart_on n \<and> pvt (f n) = pvt n \<and>
     cancelWait (f n) = cancelWait n \<and> cancelEvent (f n) = cancelEvent n \<and>
     userCallbackWait (f n) = userCallbackWait n \<and> userCallbackEvent (f n) = userCallbackEvent n)"

definition free_for :: "db \<Rightarrow> nat \<Rightarrow> nat \<Rightarrow> bool" where
  "free_for s r p \<longleftrightarrow> r < length (recs s) \<and> pn_chan (pns s ! p) = r \<and> waitList (pns s ! p) = [] \<and>
     (pn_state (pns s ! p) = notifyNotActive \<and> ppn (recs s ! r) = None \<or>
      pn_state (pns s ! p) = notifyRestartCallbackRequested \<and> ppn (recs s ! r) = Some p)"

lemma free_for_owner:
  assumes "book_ok s" "free_for s r p" "x < length (recs s)" "ppn (recs s ! x) = Some p"
  shows "x = r"
  using assms by (auto simp: book_ok_def owner_ok_def may_own_def free_for_def)

lemma free_for_wait:
  assumes "book_ok s" "free_for s r p"
  shows "\<not> wait_on (recs s ! r)"
  using assms by (auto simp: book_ok_def owner_ok_def free_for_def in_progress_def split: option.splits)

lemma claim_ok:
  assumes bk: "book_ok s" and reqs: "reqs_but {p} s" and p: "in_hand s p" and r: "free_for s r p"
    and f: "claims r st f" and st: "st = notifyRestartInProgress \<or> st = notifyProcessInProgress"
  shows "notify_ok (upd_rec r (\<lambda>c. c\<lparr>ppn := Some p, wait_on := True\<rparr>) (upd_pn p f s))"
proof -
  let ?s' = "upd_rec r (\<lambda>c. c\<lparr>ppn := Some p, wait_on := True\<rparr>) (upd_pn p f s)"
  have pl: "p < length (pns s)" "pn_chan (pns s ! p) = r" and rl: "r < length (recs s)"
    using p r by (auto simp: in_hand_def free_for_def Let_def)
  have fn: "pn_state (f n) = st" "waitList (f n) = waitList n @ [r]" "pn_chan (f n) = pn_chan n"
    "restart_on (f n) = restart_on n" "pvt (f n) = pvt n" "cancelWait (f n) = cancelWait n"
    "cancelEvent (f n) = cancelEvent n" "userCallbackWait (f n) = userCallbackWait n"
    "userCallbackEvent (f n) = userCallbackEvent n" for n
    using f by (simp_all add: claims_def)
  have own: "ppn (recs s ! x) \<noteq> Some p" if "x < length (recs s)" "x \<noteq> r" for x
    using free_for_owner [OF bk r] that by auto
  have "queue_ok ?s' x" if x: "x < length (recs s)" for x
  proof -
    have q: "queue_ok s x" using bk x by (simp add: book_ok_def)
    have "pn_state (pns s ! p) \<noteq> notifyWaitForRestart" using r by (auto simp: free_for_def)
    then have "\<And>k. k \<in> set (restartList (recs s ! x)) \<Longrightarrow> k \<noteq> p" using q by (auto simp: queue_ok_def)
    moreover have "restartList (recs ?s' ! x) = restartList (recs s ! x)" using x by simp
    ultimately show ?thesis using q by (simp add: queue_ok_def del: recs_upd_rec)
  qed
  moreover have "owner_ok ?s' x" if x: "x < length (recs s)" for x
  proof (cases "x = r")
    case True
    then show ?thesis using st pl fn rl by (auto simp: owner_ok_def may_own_def in_progress_def)
  next
    case False
    then have "owner_ok s x" "ppn (recs s ! x) \<noteq> Some p" using bk own x by (auto simp: book_ok_def)
    then show ?thesis using False x by (auto simp: owner_ok_def split: option.splits)
  qed
  moreover have "waits_ok {} ?s' k" if k: "k < length (pns s)" for k
  proof (cases "k = p")
    case True
    have "{x. x < length (recs s) \<and> ppn (recs ?s' ! x) = Some p} = {r}"
      using own rl by (auto split: if_splits)
    then show ?thesis using True st fn r pl by (auto simp: waits_ok_def in_progress_def free_for_def)
  next
    case False
    have "ppn (recs s ! r) \<noteq> Some k" using r False by (auto simp: free_for_def)
    then have "{x. x < length (recs s) \<and> ppn (recs ?s' ! x) = Some k} =
        {x. x < length (recs s) \<and> ppn (recs s ! x) = Some k}"
      using False by (auto split: if_splits)
    then show ?thesis using bk k False by (simp add: book_ok_def waits_ok_def)
  qed
  ultimately have book: "book_ok ?s'" by (simp add: book_ok_def)
  have others: "reqs_but {p} ?s'"
  proof -
    let ?s1 = "upd_rec r (\<lambda>c. c\<lparr>ppn := Some p, wait_on := True\<rparr>) s"
    have "place_ok ?s1 k" if k: "k < length (pns s)" "k \<noteq> p" for k
    proof -
      have pk: "place_ok s k" using reqs k by (simp add: reqs_but_def)
      have "ppn (recs s ! r) \<noteq> Some k" using r k by (auto simp: free_for_def)
      then show ?thesis using pk k by (auto simp: place_ok_def Let_def)
    qed
    then have "reqs_but {p} ?s1"
      using reqs by (simp add: reqs_but_def tasks_ok_def client_ok_def history_def)
    then show ?thesis by (simp add: upd_twice reqs_but_upd_pn)
  qed
  have "place_ok ?s' p"
    using p pl fn st rl by (auto simp: in_hand_def Let_def place_ok_def in_progress_def callback_due_def)
  moreover have "client_ok ?s' p"
    using p pl fn st
    by (auto simp: in_hand_def Let_def client_ok_def callback_due_def outstanding_def in_progress_def history_def)
  ultimately show ?thesis using book reqs_but_all [OF others] by (simp add: notify_ok_def)
qed

text \<open>The record is taken by another request: this one queues up.\<close>

lemma enqueue_ok:
  assumes bk: "book_ok s" and reqs: "reqs_but {p} s" and p: "in_hand s p" "waitList (pns s ! p) = []"
    and st: "pn_state (pns s ! p) = notifyNotActive" and r: "pn_chan (pns s ! p) = r"
    and own: "ppn (recs s ! r) \<noteq> None"
  shows "notify_ok (upd_rec r (\<lambda>c. c\<lparr>restartList := restartList c @ [p]\<rparr>)
    (upd_pn p (\<lambda>n. n\<lparr>pn_state := notifyWaitForRestart, restart_on := True\<rparr>) s))" (is "notify_ok ?s'")
proof -
  have pl: "p < length (pns s)" and rl: "r < length (recs s)"
    using p r by (auto simp: in_hand_def Let_def)
  have notin: "p \<notin> set (restartList (recs s ! x))" if "x < length (recs s)" for x
    using bk that st by (auto simp: book_ok_def queue_ok_def)
  have unown: "ppn (recs s ! x) \<noteq> Some p" if "x < length (recs s)" for x
    using bk that st by (auto simp: book_ok_def owner_ok_def may_own_def)
  have "queue_ok ?s' x" if "x < length (recs s)" for x
    using bk that notin pl r by (auto simp: book_ok_def queue_ok_def)
  moreover have "owner_ok ?s' x" if x: "x < length (recs s)" for x
  proof -
    have "owner_ok s x" using bk x by (simp add: book_ok_def)
    then show ?thesis using unown [OF x] own x by (auto simp: owner_ok_def split: option.splits if_splits)
  qed
  moreover have "waits_ok {} ?s' k" if k: "k < length (pns s)" for k
  proof -
    have "waits_ok {} s k" using bk k by (simp add: book_ok_def)
    moreover have "{x. x < length (recs s) \<and> ppn (recs ?s' ! x) = Some k} =
        {x. x < length (recs s) \<and> ppn (recs s ! x) = Some k}"
      by (auto split: if_splits)
    ultimately show ?thesis using k p(2) by (auto simp: waits_ok_def in_progress_def)
  qed
  ultimately have book: "book_ok ?s'" by (simp add: book_ok_def)
  have others: "reqs_but {p} ?s'"
  proof -
    let ?s1 = "upd_rec r (\<lambda>c. c\<lparr>restartList := restartList c @ [p]\<rparr>) s"
    have "place_ok ?s1 k" if k: "k < length (pns s)" "k \<noteq> p" for k
    proof -
      have "place_ok s k" using reqs k by (simp add: reqs_but_def)
      then show ?thesis by (auto simp: place_ok_def Let_def)
    qed
    then have "reqs_but {p} ?s1"
      using reqs by (simp add: reqs_but_def tasks_ok_def client_ok_def history_def)
    then show ?thesis by (simp add: upd_twice reqs_but_upd_pn)
  qed
  have "place_ok ?s' p"
    using p pl rl r by (auto simp: in_hand_def Let_def place_ok_def in_progress_def callback_due_def)
  moreover have "client_ok ?s' p"
    using p pl by (auto simp: in_hand_def Let_def client_ok_def callback_due_def outstanding_def history_def)
  ultimately show ?thesis using book reqs_but_all [OF others] by (simp add: notify_ok_def)
qed

section \<open>The end of a request\<close>

lemma upd_pn_id [simp]: "upd_pn p (\<lambda>n. n) s = s"
  by (simp add: upd_pn_def)

lemma callDone_begin_run:
  "\<exists>v. callDone_begin p s = Done () ((upd_pn p (\<lambda>n. n\<lparr>pn_got := v\<rparr>) s)
     \<lparr>notify_log := notify_log s @ [(p, Completed)], calling := p # calling s\<rparr>)"
proof -
  let ?q = "pns s ! p"
  have same: "upd_pn p (\<lambda>n. n\<lparr>pn_got := pn_got ?q\<rparr>) s = s" by (simp add: upd_pn_def)
  let ?get = "(requestType ?q = processGetRequest \<or> requestType ?q = putProcessGetRequest) \<and>
    pn_status ?q \<noteq> notifyCanceled"
  show ?thesis
    by (cases ?get, rule exI [of _ "Some (get_field (pn_field ?q) (recs s ! pn_chan ?q))"],
        simp_all add: callDone_begin_def getCallback_def dbm_defs get_pn_def upd_notify_def log_notify_def)
      (auto simp: same intro!: exI [of _ "pn_got ?q"])
qed

lemma finish_settles:
  assumes bk: "book_ok s" and reqs: "reqs_but {p} s" and p: "in_hand s p" "unattached s p"
    and rest: "rest_ok s" and r: "r < length (recs s)"
  shows "settles e s (dthen (set_state p notifyUserCallbackActive)
    (dbind (getr r ppn) (\<lambda>owner. dthen (dassert (owner \<noteq> Some p)) (callDone_begin p))) s)"
proof -
  let ?s1 = "upd_pn p (\<lambda>n. n\<lparr>pn_state := notifyUserCallbackActive\<rparr>) s"
  have pl: "p < length (pns s)" using p by (simp add: in_hand_def Let_def)
  obtain v where run: "callDone_begin p ?s1 = Done () ((upd_pn p (\<lambda>n. n\<lparr>pn_got := v\<rparr>) ?s1)
     \<lparr>notify_log := notify_log s @ [(p, Completed)], calling := p # calling s\<rparr>)" (is "_ = Done () ?s'")
    using callDone_begin_run [of p ?s1] by auto
  have eq: "?s' = (upd_pn p (\<lambda>n. n\<lparr>pn_state := notifyUserCallbackActive, pn_got := v\<rparr>) s)
     \<lparr>notify_log := notify_log s @ [(p, Completed)], calling := p # calling s\<rparr>"
    using pl by (simp add: upd_twice)
  have "ppn (recs s ! r) \<noteq> Some p" using p r by (simp add: unattached_def)
  then have step: "dthen (set_state p notifyUserCallbackActive)
    (dbind (getr r ppn) (\<lambda>owner. dthen (dassert (owner \<noteq> Some p)) (callDone_begin p))) s = Done () ?s'"
    using run by (simp add: set_state_def dbm_defs)
  have "settled ?s'"
    unfolding eq
  proof (rule settled_put_back)
    let ?u = "upd_pn p (\<lambda>n. n\<lparr>pn_state := notifyUserCallbackActive, pn_got := v\<rparr>) s"
    let ?t = "?u\<lparr>notify_log := notify_log s @ [(p, Completed)], calling := p # calling s\<rparr>"
    show "book_ok ?t"
      using book_ok_unattached [OF bk p(2), of "\<lambda>n. n\<lparr>pn_state := notifyUserCallbackActive, pn_got := v\<rparr>"]
        pl by (simp add: in_progress_def)
    have "reqs_but {p} ?u" unfolding reqs_but_upd_pn by (rule reqs)
    then show "reqs_but {p} ?t"
      using p(1) by (auto simp: reqs_but_def tasks_ok_def place_ok_def client_ok_def history_def in_hand_def Let_def)
    show "rest_ok ?t" using rest by simp
    show "place_ok ?t p"
      using p pl by (auto simp: place_ok_def in_hand_def unattached_def callback_due_def in_progress_def Let_def)
    show "client_ok ?t p"
      using p pl by (auto simp: client_ok_def in_hand_def callback_due_def outstanding_def in_progress_def
          history_def Let_def under_way_snoc [symmetric])
  qed
  then show ?thesis unfolding step by (simp add: settles_def)
qed

section \<open>Starting and restarting\<close>

lemma book_ok_but_intro:
  assumes s: "book_ok s" and w: "\<not> wait_on (recs s ! r)" and own: "ppn (recs s ! r) = Some p"
    and st: "\<not> in_progress (pn_state (pns s ! p))"
  shows "book_ok_but r s"
proof -
  have "waits_ok {r} s k" if k: "k < length (pns s)" for k
  proof (cases "k = p")
    case False
    then have "{x. x < length (recs s) \<and> ppn (recs s ! x) = Some k \<and> x \<noteq> r} =
        {x. x < length (recs s) \<and> ppn (recs s ! x) = Some k}"
      using own by auto
    then show ?thesis using s k by (simp add: book_ok_def waits_ok_def)
  qed (use s k st in \<open>auto simp: book_ok_def waits_ok_def\<close>)
  then show ?thesis using s w by (simp add: book_ok_def book_ok_but_def)
qed

text \<open>The request that a task has in hand, at \<^verbatim>\<open>processNotifyCommon()\<close>.\<close>

definition taken :: "db \<Rightarrow> nat \<Rightarrow> bool" where
  "taken s p \<longleftrightarrow> book_ok s \<and> reqs_but {p} s \<and> rest_ok s \<and> in_hand s p \<and> waitList (pns s ! p) = [] \<and>
     (pn_state (pns s ! p) = notifyNotActive \<or>
      pn_state (pns s ! p) = notifyRestartCallbackRequested \<and>
      ppn (recs s ! pn_chan (pns s ! p)) = Some p)"

lemma taken_quiet:
  assumes s: "taken s p" and q: "still_step s s'"
  shows "taken s' p" "same_config s s'"
proof -
  have "book_ok s' = book_ok s" using q by (intro book_ok_cong) (auto simp: still_step_def)
  moreover have "reqs_but {p} s' = reqs_but {p} s"
    using q by (intro reqs_but_cong) (auto simp: still_step_def)
  moreover have fw: "fewer_waits s s'" using q by (auto simp: fewer_waits_def still_step_def notify_part_def)
  moreover have "in_hand s' p = in_hand s p"
    using q by (simp add: in_hand_def still_step_def history_def)
  moreover have "ppn (recs s' ! pn_chan (pns s ! p)) = ppn (recs s ! pn_chan (pns s ! p))"
    using q s by (auto simp: still_step_def notify_part_def taken_def in_hand_def Let_def)
  moreover have "pns s' = pns s" using q by (simp add: still_step_def)
  moreover have "rest_ok s'" "same_config s s'"
    using q s fw rest_ok_frame [of s s'] by (auto simp: still_step_def taken_def)
  ultimately show "taken s' p" "same_config s s'" using s by (simp_all add: taken_def)
qed

text \<open>What the client reads of the request does not matter.\<close>

definition neutral :: "(processNotify \<Rightarrow> processNotify) \<Rightarrow> bool" where
  "neutral f \<longleftrightarrow> (\<forall>n. pn_state (f n) = pn_state n \<and> waitList (f n) = waitList n \<and>
     pn_chan (f n) = pn_chan n \<and> restart_on (f n) = restart_on n \<and> pvt (f n) = pvt n \<and>
     cancelWait (f n) = cancelWait n \<and> cancelEvent (f n) = cancelEvent n \<and>
     userCallbackWait (f n) = userCallbackWait n \<and> userCallbackEvent (f n) = userCallbackEvent n)"

lemma neutral_fields:
  assumes "neutral f" "k < length (pns s)"
  shows "pn_state (pns (upd_pn p f s) ! k) = pn_state (pns s ! k)"
    "waitList (pns (upd_pn p f s) ! k) = waitList (pns s ! k)"
    "pn_chan (pns (upd_pn p f s) ! k) = pn_chan (pns s ! k)"
    "restart_on (pns (upd_pn p f s) ! k) = restart_on (pns s ! k)"
    "pvt (pns (upd_pn p f s) ! k) = pvt (pns s ! k)"
    "cancelWait (pns (upd_pn p f s) ! k) = cancelWait (pns s ! k)"
    "cancelEvent (pns (upd_pn p f s) ! k) = cancelEvent (pns s ! k)"
    "userCallbackWait (pns (upd_pn p f s) ! k) = userCallbackWait (pns s ! k)"
    "userCallbackEvent (pns (upd_pn p f s) ! k) = userCallbackEvent (pns s ! k)"
  using assms by (auto simp: neutral_def)

lemma book_ok_neutral: "neutral f \<Longrightarrow> book_ok s \<Longrightarrow> book_ok (upd_pn p f s)"
  by (auto simp: book_ok_def queue_ok_def owner_ok_def may_own_def waits_ok_def neutral_fields
      simp del: pns_upd_pn split: option.splits)

lemma settled_neutral:
  assumes f: "neutral f" and s: "settled s" and p: "p < length (pns s)"
  shows "settled (upd_pn p f s)"
proof (rule settled_put_back)
  have "book_ok s" "reqs_but {} s" "rest_ok s" "place_ok s p" "client_ok s p"
    using s p by (auto simp: settled_parts notify_ok_def reqs_but_def)
  then show "book_ok (upd_pn p f s)" "reqs_but {p} (upd_pn p f s)" "rest_ok (upd_pn p f s)"
    "place_ok (upd_pn p f s) p" "client_ok (upd_pn p f s) p"
    using f p reqs_but_mono [of "{}" s "{p}"]
    by (simp_all add: book_ok_neutral reqs_but_upd_pn place_ok_def client_ok_def outstanding_def
        history_def neutral_fields Let_def del: pns_upd_pn)
qed

lemma taken_upd_status:
  assumes "taken s p"
  shows "taken (upd_pn p (\<lambda>n. n\<lparr>pn_status := st\<rparr>) s) p"
proof -
  have "neutral (\<lambda>n. n\<lparr>pn_status := st\<rparr>)" by (simp add: neutral_def)
  then have "book_ok (upd_pn p (\<lambda>n. n\<lparr>pn_status := st\<rparr>) s)"
    using assms by (simp add: taken_def book_ok_neutral)
  then show ?thesis
    using assms by (simp add: taken_def reqs_but_upd_pn in_hand_def history_def Let_def)
qed

text \<open>The put of the client.\<close>

lemma notify_put_taken:
  assumes s: "taken s p" and r: "pn_chan (pns s ! p) = r"
  shows "\<exists>b s'. notify_put e n p r s = Done b s' \<and> taken s' p \<and> same_config s s' \<and>
    pn_chan (pns s' ! p) = r \<and> flags (recs s' ! r) = flags (recs s ! r) \<and>
    ppn (recs s' ! r) = ppn (recs s ! r) \<and> pn_state (pns s' ! p) = pn_state (pns s ! p)"
proof -
  let ?q = "pns s ! p"
  have pl: "p < length (pns s)" "r < length (recs s)"
    using s r by (auto simp: taken_def in_hand_def Let_def)
  let ?done = "\<lambda>res. \<exists>b s'. res = Done b s' \<and> taken s' p \<and> same_config s s' \<and>
    pn_chan (pns s' ! p) = r \<and> flags (recs s' ! r) = flags (recs s ! r) \<and>
    ppn (recs s' ! r) = ppn (recs s ! r) \<and> pn_state (pns s' ! p) = pn_state (pns s ! p)"
  have err: "?done (Done b (upd_pn p (\<lambda>q. q\<lparr>pn_status := notifyError\<rparr>) s))" for b :: bool
    using taken_upd_status [OF s] pl r by simp
  have ret: "?done (Done b s)" for b :: bool using s r by simp
  have put: "?done (db_put_process e n p putType s)"
  proof -
    obtain st s1 where m: "dbPut e r (pn_field ?q) (pn_value ?q) s = Done st s1" "still_step s s1"
      using quiet_dbPut [of e r "pn_field ?q" "pn_value ?q"] unfolding quiet_def by blast
    note s1 = taken_quiet [OF s m(2)]
    have eq: "pns s1 = pns s" "flags (recs s1 ! r) = flags (recs s ! r)" "ppn (recs s1 ! r) = ppn (recs s ! r)"
      using m(2) pl by (simp_all add: still_step_def notify_part_def)
    show ?thesis
    proof (cases "st = OK")
      case True
      then have "db_put_process e n p putType s = Done True s1"
        using m(1) r by (simp add: db_put_process_def dbm_defs get_pn_def)
      then show ?thesis using s1 eq r by auto
    next
      case False
      then have "db_put_process e n p putType s =
          Done True (upd_pn p (\<lambda>q. q\<lparr>pn_status := notifyError\<rparr>) s1)"
        using m(1) r by (simp add: db_put_process_def dbm_defs get_pn_def upd_notify_def)
      then show ?thesis using s1 taken_upd_status [OF s1(1)] eq r pl by auto
    qed
  qed
  have off: "?done (dbind (write_notify_put_callback e n p putDisabledType) (\<lambda>_. dret False) s)"
    using err [of False] ret [of False]
    by (simp add: write_notify_put_callback_def db_put_process_def dbm_defs get_pn_def upd_notify_def)
  have on: "?done (write_notify_put_callback e n p putType s)"
    using put ret [of False] by (simp add: write_notify_put_callback_def dbm_defs get_pn_def)
  show ?thesis
    using off on ret [of False]
    by (simp add: notify_put_def [of e n p r] run_getr) (simp add: get_pn_def run_dget dret_def run_getr)
qed

lemma taken_free_for:
  assumes "taken s p" "pn_state (pns s ! p) = notifyNotActive \<longrightarrow> ppn (recs s ! pn_chan (pns s ! p)) = None"
  shows "free_for s (pn_chan (pns s ! p)) p"
  using assms by (auto simp: taken_def free_for_def in_hand_def Let_def)

lemma claim_settles:
  assumes s: "taken s p" and r: "free_for s r p" and f: "claims r st f"
    and st: "st = notifyRestartInProgress \<or> st = notifyProcessInProgress"
  defines "s' \<equiv> upd_rec r (\<lambda>c. c\<lparr>ppn := Some p, wait_on := True\<rparr>) (upd_pn p f s)"
  shows "notify_ok s'" "base_rest s'" "same_config s s'"
    "\<And>x. x < length (recs s) \<Longrightarrow> x \<noteq> r \<Longrightarrow> at_rest s' x"
    "pact (recs s ! r) \<Longrightarrow> settled s'"
proof -
  have rl: "r < length (recs s)" using r by (simp add: free_for_def)
  show ok: "notify_ok s'"
    unfolding s'_def using s claim_ok [OF _ _ _ r f st] by (simp add: taken_def)
  have eq: "config (recs s' ! x) = config (recs s ! x)" "flags (recs s' ! x) = flags (recs s ! x)"
    if "x < length (recs s)" for x
    using that by (simp_all add: s'_def config_def flags_def)
  have base: "base_rest s" using s by (simp add: taken_def rest_ok_def)
  show b: "base_rest s'"
    by (rule base_rest_frame [OF base]) (simp_all add: eq, simp_all add: s'_def)
  show "same_config s s'"
    by (rule base_rest_frame [OF base]) (simp_all add: eq, simp_all add: s'_def)
  show rest: "at_rest s' x" if "x < length (recs s)" "x \<noteq> r" for x
    using s that by (auto simp: taken_def rest_ok_def at_rest_def s'_def)
  show "settled s'" if "pact (recs s ! r)"
  proof -
    have "at_rest s' r" using that rl by (simp add: at_rest_def s'_def)
    then have "rest_ok s'" using b rest unfolding rest_ok_def by (auto simp: s'_def)
    then show ?thesis using ok by (simp add: settled_parts)
  qed
qed

lemma taken_unowned:
  assumes "taken s p" "pn_state (pns s ! p) = notifyNotActive"
  shows "unattached s p"
proof -
  have "ppn (recs s ! x) \<noteq> Some p" if "x < length (recs s)" for x
    using assms that by (auto simp: taken_def book_ok_def owner_ok_def may_own_def)
  then show ?thesis using assms by (simp add: taken_def in_hand_def unattached_def Let_def)
qed

text \<open>A request that does not process its record hands it on.\<close>

lemma hand_on_settles:
  assumes s: "taken s p" and r: "free_for s r p"
  shows "settles e s (dthen (dwhen (pn_state (pns s ! p) = notifyRestartCallbackRequested) (restartCheck r))
     (dthen (set_state p notifyUserCallbackActive)
     (dbind (getr r ppn) (\<lambda>owner. dthen (dassert (owner \<noteq> Some p)) (callDone_begin p)))) s)"
    (is "settles e s (dthen ?check ?finish s)")
proof (cases "pn_state (pns s ! p) = notifyNotActive")
  case True
  then show ?thesis
    using finish_settles [OF _ _ _ taken_unowned [OF s True], where r = r] s r
    by (auto simp: taken_def free_for_def dwhen_def dthen_def dbind_def dret_def)
next
  case False
  then have st: "pn_state (pns s ! p) = notifyRestartCallbackRequested" "ppn (recs s ! r) = Some p"
    and rl: "r < length (recs s)"
    using s r by (auto simp: taken_def free_for_def)
  have bk: "book_ok s" and reqs: "reqs_but {p} s" and ih: "in_hand s p" and rest: "rest_ok s"
    using s by (auto simp: taken_def)
  have pl: "p < length (pns s)" using ih by (simp add: in_hand_def Let_def)
  obtain s1 where s1: "restartCheck r s = Done () s1" "book_ok s1" "reqs_but {p} s1"
    "notify_frame s s1" "fewer_waits s s1" "ppn (recs s1 ! r) \<noteq> Some p" "pns s1 ! p = pns s ! p"
    "p \<in> set (notify_cbs s1) \<longleftrightarrow> p \<in> set (notify_cbs s)"
    using restartCheck_reqs [OF book_ok_but_intro [OF bk free_for_wait [OF bk r] st(2)] reqs rl st(2)] st pl
    by (auto simp: in_progress_def)
  have rest1: "rest_ok s1" "same_config s s1"
    using rest_ok_notify_frame [OF rest s1(4,5)] by auto
  have ih1: "in_hand s1 p" using ih s1 by (auto simp: in_hand_def Let_def notify_frame_def history_def)
  have "ppn (recs s1 ! x) \<noteq> Some p" if x: "x < length (recs s1)" for x
  proof
    assume own: "ppn (recs s1 ! x) = Some p"
    have "owner_ok s1 x" using s1(2) x by (simp add: book_ok_def)
    then have "pn_chan (pns s1 ! p) = x" using own s1(7) st(1) by (simp add: owner_ok_def may_own_def)
    then show False using own s1(6,7) r by (simp add: free_for_def)
  qed
  then have "unattached s1 p"
    using ih1 s1(7) st(1) r by (simp add: unattached_def in_hand_def free_for_def Let_def)
  then have "settles e s1 (?finish s1)"
    using rl s1(4) by (intro finish_settles s1 ih1 rest1) (simp_all add: notify_frame_def)
  then have "settles e s (?finish s1)" by (rule settles_trans [OF rest1(2)])
  then show ?thesis using s1(1) st(1) by (simp add: dwhen_def dthen_def dbind_def)
qed

lemma processNotifyCommon_settles:
  assumes s: "taken s p" and r: "pn_chan (pns s ! p) = r" and n: "length (recs s) < n"
  shows "settles e s (processNotifyCommon e n p r s)"
proof -
  have bk: "book_ok s" and reqs: "reqs_but {p} s" and rest: "rest_ok s" and ih: "in_hand s p"
    and wl: "waitList (pns s ! p) = []"
    using s by (auto simp: taken_def)
  have pl: "p < length (pns s)" "\<not> restart_on (pns s ! p)" and rl: "r < length (recs s)"
    using ih r by (auto simp: in_hand_def Let_def)
  note run = processNotifyCommon_def set_state_def ellSafeAdd_restart_def ellSafeAdd_wait_def
    upd_notify_def get_pn_def dbm_defs
  show ?thesis
  proof (cases "pn_state (pns s ! p) = notifyNotActive \<and> ppn (recs s ! r) \<noteq> None")
    case True
    let ?s' = "upd_rec r (\<lambda>c. c\<lparr>restartList := restartList c @ [p]\<rparr>)
      (upd_pn p (\<lambda>n. n\<lparr>pn_state := notifyWaitForRestart, restart_on := True\<rparr>) s)"
    have "processNotifyCommon e n p r s = Done () ?s'"
      using True pl by (simp add: run upd_twice)
    moreover have "notify_ok ?s'" using True by (intro enqueue_ok bk reqs ih wl) (simp_all add: r)
    moreover have "rest_ok ?s'" "same_config s ?s'"
      using rest_ok_frame [OF rest, of ?s'] by (auto simp: fewer_waits_def config_def flags_def)
    ultimately show ?thesis by (simp add: settles_def settled_parts)
  next
    case False
    then have fr: "free_for s r p" using taken_free_for [OF s] r by auto
    have own: "ppn (recs s ! r) \<noteq> None \<Longrightarrow>
        ppn (recs s ! r) = Some p \<and> pn_state (pns s ! p) = notifyRestartCallbackRequested"
      using fr by (auto simp: free_for_def)
    have nw: "\<not> wait_on (recs s ! r)" by (rule free_for_wait [OF bk fr])
    show ?thesis
    proof (cases "pact (recs s ! r)")
      case act: True
      let ?f = "\<lambda>n. n\<lparr>waitList := waitList n @ [r], pn_state := notifyRestartInProgress\<rparr>"
      have f: "claims r notifyRestartInProgress ?f" by (simp add: claims_def)
      note c = claim_settles [OF s fr f, simplified]
      have "processNotifyCommon e n p r s =
          Done () (upd_rec r (\<lambda>c. c\<lparr>ppn := Some p, wait_on := True\<rparr>) (upd_pn p ?f s))"
        using own nw act pl rl by (auto simp: run upd_twice)
      then show ?thesis using c(3,5) act by (simp add: settles_def)
    next
      case idle: False
      let ?rest = "\<lambda>didPut. dbind (getr r id) (\<lambda>c. dbind (get_pn p id) (\<lambda>q.
          if notify_doProcess q c didPut then
            dthen (upd_notify p (\<lambda>q. q\<lparr>wasProcessed := True\<rparr>))
            (dthen (updr r (\<lambda>c. c\<lparr>ppn := Some p\<rparr>))
            (dthen (ellSafeAdd_wait p r)
            (dthen (set_state p notifyProcessInProgress)
            (dbind (dbProcess e n r) (\<lambda>_. dret ())))))
          else
            dthen (dwhen (pn_state q = notifyRestartCallbackRequested) (restartCheck r))
            (dthen (set_state p notifyUserCallbackActive)
            (dbind (getr r ppn) (\<lambda>owner.
             dthen (dassert (owner \<noteq> Some p)) (callDone_begin p))))))"
      have step: "processNotifyCommon e n p r s = dbind (notify_put e n p r) ?rest s"
        using own idle unfolding processNotifyCommon_def run_getr get_pn_def run_dget
        by (auto simp: dthen_def dassert_def dbind_def dret_def)
      obtain b s1 where put: "notify_put e n p r s = Done b s1" and s1: "taken s1 p" "same_config s s1"
        "pn_chan (pns s1 ! p) = r" "flags (recs s1 ! r) = flags (recs s ! r)"
        "ppn (recs s1 ! r) = ppn (recs s ! r)" "pn_state (pns s1 ! p) = pn_state (pns s ! p)"
        using notify_put_taken [OF s r] by blast
      have len: "length (recs s1) = length (recs s)" using s1(2) by (simp add: same_config_def)
      have fr1: "free_for s1 r p"
        using taken_free_for [OF s1(1)] s1(3,5,6) fr by (auto simp: free_for_def)
      have pl1: "p < length (pns s1)" using s1(1) by (simp add: taken_def in_hand_def Let_def)
      have nw1: "\<not> wait_on (recs s1 ! r)" "\<not> pact (recs s1 ! r)"
        using free_for_wait [OF _ fr1] s1(1) flags_fields(1) [OF s1(4)] idle by (auto simp: taken_def)
      have "settles e s1 (?rest b s1)"
      proof (cases "notify_doProcess (pns s1 ! p) (recs s1 ! r) b")
        case True
        let ?f = "\<lambda>n. n\<lparr>wasProcessed := True, waitList := waitList n @ [r], pn_state := notifyProcessInProgress\<rparr>"
        let ?s2 = "upd_rec r (\<lambda>c. c\<lparr>ppn := Some p, wait_on := True\<rparr>) (upd_pn p ?f s1)"
        have f: "claims r notifyProcessInProgress ?f" by (simp add: claims_def)
        note c = claim_settles [OF s1(1) fr1 f, simplified]
        have "process_ok e r ?s2 (dbProcess e n r ?s2)"
          using rl n len idle_bound [of ?s2] by (intro dbp.proc_ok db_ok_parts c) auto
        then have "settles e ?s2 (dbProcess e n r ?s2)"
          using c rl len by (intro flow_settles db_ok_parts) (auto simp: base_rest_def)
        then have "settles e ?s2 (dbind (dbProcess e n r) (\<lambda>_. dret ()) ?s2)"
          by (rule settles_bind) (simp add: settles_def dret_def)
        then have "settles e s1 (dbind (dbProcess e n r) (\<lambda>_. dret ()) ?s2)"
          by (rule settles_trans [OF c(3)])
        moreover have "?rest b s1 = dbind (dbProcess e n r) (\<lambda>_. dret ()) ?s2"
          using True nw1 pl1 rl len
          by (simp add: run_getr get_pn_def run_dget upd_notify_def run_dmod run_updr set_state_def)
            (simp add: ellSafeAdd_wait_def dbm_defs upd_twice)
        ultimately show ?thesis by simp
      next
        case False
        then have "?rest b s1 =
            dthen (dwhen (pn_state (pns s1 ! p) = notifyRestartCallbackRequested) (restartCheck r))
            (dthen (set_state p notifyUserCallbackActive)
            (dbind (getr r ppn) (\<lambda>owner.
             dthen (dassert (owner \<noteq> Some p)) (callDone_begin p)))) s1"
          by (simp add: run_getr get_pn_def run_dget)
        then show ?thesis using hand_on_settles [OF s1(1) fr1] by simp
      qed
      then have "settles e s (?rest b s1)" by (rule settles_trans [OF s1(2)])
      then show ?thesis unfolding step using put by (simp add: dbind_def)
    qed
  qed
qed

section \<open>The callback of a request\<close>

text \<open>What a settled state says of one request.\<close>

lemma settled_request:
  assumes "settled s" "p < length (pns s)"
  shows "book_ok s" "reqs_but {} s" "rest_ok s" "place_ok s p" "client_ok s p" "tasks_ok s"
    "\<not> in_progress (pn_state (pns s ! p)) \<Longrightarrow> waitList (pns s ! p) = []"
  using assms by (auto simp: settled_parts notify_ok_def reqs_but_def book_ok_def waits_ok_def)

lemma client_may_wait:
  assumes "client_ok s p" "p \<in> fst ` set (cancellers s)"
  shows "pn_state (pns s ! p) \<in> {notifyRestartCallbackRequested, notifyUserCallbackRequested,
    notifyUserCallbackActive}"
  using assms by (auto simp: client_ok_def callback_due_def Let_def)

lemma no_owner:
  assumes "book_ok s" "p < length (pns s)"
    "pn_state (pns s ! p) \<in> {notifyNotActive, notifyUserCallbackRequested, notifyUserCallbackActive}"
    "x < length (recs s)"
  shows "ppn (recs s ! x) \<noteq> Some p"
  using assms by (auto simp: book_ok_def owner_ok_def may_own_def)

text \<open>The callback is taken off the queue.\<close>

lemma list_without:
  assumes d: "distinct xs" and i: "i < length xs"
  shows "set (take i xs @ drop (Suc i) xs) = set xs - {xs ! i}"
    "distinct (take i xs @ drop (Suc i) xs)"
proof -
  obtain x where split: "xs = take i xs @ x # drop (Suc i) xs" and x: "x = xs ! i"
    using i by (simp add: id_take_nth_drop)
  from d have "distinct (take i xs @ x # drop (Suc i) xs)" using split by simp
  then show "distinct (take i xs @ drop (Suc i) xs)"
    and "set (take i xs @ drop (Suc i) xs) = set xs - {xs ! i}"
    using arg_cong [OF split, of set] x by auto
qed

lemma reqs_dequeue:
  assumes s: "reqs_but {} s" and i: "i < length (notify_cbs s)"
  defines "s1 \<equiv> s\<lparr>notify_cbs := take i (notify_cbs s) @ drop (Suc i) (notify_cbs s)\<rparr>"
  shows "reqs_but {notify_cbs s ! i} s1" "notify_cbs s ! i \<notin> set (notify_cbs s1)"
    "notify_cbs s ! i < length (pns s)"
proof -
  let ?d = "notify_cbs s" and ?p = "notify_cbs s ! i"
  have d: "distinct ?d" and mem: "?p \<in> set ?d" using s i by (auto simp: reqs_but_def tasks_ok_def)
  note set = list_without(1) [OF d i] and dist = list_without(2) [OF d i]
  show "?p \<notin> set (notify_cbs s1)" using set by (simp add: s1_def)
  show "?p < length (pns s)" using s mem by (auto simp: reqs_but_def tasks_ok_def)
  have cbs: "notify_cbs s1 = take i ?d @ drop (Suc i) ?d" by (simp add: s1_def)
  have "tasks_ok s1" using s dist set unfolding reqs_but_def tasks_ok_def cbs by (auto simp: s1_def)
  moreover have "place_ok s1 k" if "k < length (pns s)" "k \<noteq> ?p" for k
  proof -
    have "k \<in> set (notify_cbs s1) \<longleftrightarrow> k \<in> set ?d" unfolding cbs set using that(2) by simp
    moreover have "place_ok s k" using s that(1) by (simp add: reqs_but_def)
    ultimately show ?thesis by (simp add: place_ok_def Let_def) (simp add: s1_def)
  qed
  ultimately show "reqs_but {?p} s1"
    using s by (simp add: reqs_but_def) (simp add: s1_def client_ok_def history_def)
qed

text \<open>A cancelled request lets its canceller go.\<close>

lemma cancelled_settles:
  assumes bk: "book_ok s" and reqs: "reqs_but {p} s" and rest: "rest_ok s" and u: "unattached s p"
    and p: "p \<notin> set (notify_cbs s)" "callback_due (pn_state (pns s ! p))" "cancelWait (pns s ! p)"
    and cl: "client_ok s p" "\<not> cancelEvent (pns s ! p)"
  shows "settled ((upd_pn p (\<lambda>q. q\<lparr>cancelEvent := True\<rparr>) s)
    \<lparr>notify_log := notify_log s @ [(p, Canceled)]\<rparr>)" (is "settled ?t")
proof (rule settled_put_back)
  let ?u = "upd_pn p (\<lambda>q. q\<lparr>cancelEvent := True\<rparr>) s"
  have pl: "p < length (pns s)" using u by (simp add: unattached_def)
  show "book_ok ?t"
    using book_ok_unattached [OF bk u, of "\<lambda>q. q\<lparr>cancelEvent := True\<rparr>"] p(2) pl
    by (auto simp: callback_due_def in_progress_def)
  have "reqs_but {p} ?u" unfolding reqs_but_upd_pn by (rule reqs)
  then show "reqs_but {p} ?t" by (rule reqs_log) simp
  show "rest_ok ?t" using rest by simp
  show "place_ok ?t p"
    using u p pl by (auto simp: place_ok_def unattached_def callback_due_def in_progress_def Let_def)
  have "under_way (history p s) = Some True"
    using cl p(2) by (simp add: client_ok_def outstanding_def Let_def)
  moreover have "history p ?t = history p s @ [Canceled]" by (simp add: history_def)
  ultimately show "client_ok ?t p"
    using cl p(3) pl disjE [OF p(2) [unfolded callback_due_def]]
    by (cases "pn_state (pns s ! p)")
      (simp_all add: client_ok_def callback_due_def outstanding_def in_progress_def Let_def)
qed

lemma due_in_hand:
  assumes "p < length (pns s)" "place_ok s p" "client_ok s p" "callback_due (pn_state (pns s ! p))"
    "\<not> cancelWait (pns s ! p)" "\<not> cancelEvent (pns s ! p)"
  shows "in_hand (s\<lparr>notify_cbs := l\<rparr>) p \<longleftrightarrow> p \<notin> set l"
  using assms by (cases "pn_state (pns s ! p)")
    (simp_all add: in_hand_def place_ok_def client_ok_def callback_due_def outstanding_def
      history_def Let_def)

lemma notifyCallback_settles:
  assumes s: "settled s" and i: "i < length (notify_cbs s)" and n: "length (recs s) < n"
  shows "settles e s (notifyCallback e n i s)"
proof -
  let ?p = "notify_cbs s ! i"
  let ?s1 = "s\<lparr>notify_cbs := take i (notify_cbs s) @ drop (Suc i) (notify_cbs s)\<rparr>"
  let ?q = "pns s ! ?p" and ?r = "pn_chan (pns s ! ?p)"
  have reqs0: "reqs_but {} s" using s by (simp add: settled_parts notify_ok_def)
  note d = reqs_dequeue [OF reqs0 i]
  note sr = settled_request [OF s d(3)]
  have mem: "?p \<in> set (notify_cbs s)" using i by simp
  then have due: "callback_due (pn_state ?q)" "\<not> cancelEvent ?q" and rl: "?r < length (recs s)"
    and ron: "\<not> restart_on ?q"
    and own: "pn_state ?q = notifyRestartCallbackRequested \<Longrightarrow> ppn (recs s ! ?r) = Some ?p"
    using sr(4) by (auto simp: place_ok_def callback_due_def Let_def)
  have wl: "waitList ?q = []" using sr(7) due(1) by (auto simp: callback_due_def in_progress_def)
  have bk1: "book_ok ?s1" and rest1: "rest_ok ?s1" and cfg: "same_config s ?s1"
    using sr by simp_all
  have cl1: "client_ok ?s1 ?p" using sr(5) by (simp add: client_ok_def history_def)
  have unat: "unattached t ?p" if "pns t ! ?p = ?q" "length (pns t) = length (pns s)" "length (recs t) = length (recs s)"
    "\<And>x. x < length (recs t) \<Longrightarrow> ppn (recs t ! x) \<noteq> Some ?p" for t
    using that wl rl ron d(3) due by (auto simp: unattached_def callback_due_def)
  let ?body = "(if cancelWait ?q then
         dthen (dwhen (pn_state ?q = notifyRestartCallbackRequested) (restartCheck ?r))
         (dthen (log_notify ?p Canceled) (upd_notify ?p (\<lambda>q. q\<lparr>cancelEvent := True\<rparr>)))
       else if pn_state ?q = notifyRestartCallbackRequested then processNotifyCommon e n ?p ?r
       else
         dthen (set_state ?p notifyUserCallbackActive)
         (dbind (getr ?r ppn) (\<lambda>owner.
          dthen (dassert (owner \<noteq> Some ?p)) (callDone_begin ?p))))"
  have step: "notifyCallback e n i s = ?body ?s1"
    using due wl
    by (simp add: notifyCallback_def run_dget Let_def run_dmod get_pn_def callback_due_def)
      (simp add: dthen_def dassert_def dbind_def dret_def)
  have stop: "dthen (log_notify ?p Canceled) (upd_notify ?p (\<lambda>q. q\<lparr>cancelEvent := True\<rparr>)) t =
      Done () ((upd_pn ?p (\<lambda>q. q\<lparr>cancelEvent := True\<rparr>) t)\<lparr>notify_log := notify_log t @ [(?p, Canceled)]\<rparr>)" for t
    by (simp add: log_notify_def upd_notify_def dbm_defs) (simp add: upd_pn_def)
  have "settles e ?s1 (?body ?s1)"
  proof (cases "cancelWait ?q")
    case cw: True
    show ?thesis
    proof (cases "pn_state ?q = notifyRestartCallbackRequested")
      case True
      have nip: "\<not> in_progress (pn_state ?q)" using due by (auto simp: callback_due_def in_progress_def)
      have "owner_ok s ?r" using sr(1) rl by (simp add: book_ok_def)
      then have "\<not> wait_on (recs ?s1 ! ?r)" using own [OF True] nip by (simp add: owner_ok_def)
      then have but: "book_ok_but ?r ?s1"
        using own [OF True] nip by (intro book_ok_but_intro [OF bk1]) simp_all
      obtain s2 where s2: "restartCheck ?r ?s1 = Done () s2" "book_ok s2" "reqs_but {?p} s2"
        "notify_frame ?s1 s2" "fewer_waits ?s1 s2" "ppn (recs s2 ! ?r) \<noteq> Some ?p" "pns s2 ! ?p = pns ?s1 ! ?p"
        "?p \<in> set (notify_cbs s2) \<longleftrightarrow> ?p \<in> set (notify_cbs ?s1)"
        using restartCheck_reqs [OF but d(1), of ?p] rl own [OF True] d(3) True by auto
      have fr: "rest_ok s2" "same_config ?s1 s2" using rest_ok_notify_frame [OF rest1 s2(4,5)] by auto
      have "ppn (recs s2 ! x) \<noteq> Some ?p" if x: "x < length (recs s2)" for x
      proof
        assume o: "ppn (recs s2 ! x) = Some ?p"
        have "owner_ok s2 x" using s2(2) x by (simp add: book_ok_def)
        then have "?r = x" using o s2(7) True by (simp add: owner_ok_def may_own_def)
        then show False using o s2(6) by simp
      qed
      then have u: "unattached s2 ?p" using s2(4,7) by (intro unat) (simp_all add: notify_frame_def)
      have "client_ok s2 ?p"
        using cl1 s2(4,7) by (simp add: client_ok_def history_def notify_frame_def)
      then have "settled ((upd_pn ?p (\<lambda>q. q\<lparr>cancelEvent := True\<rparr>) s2)
          \<lparr>notify_log := notify_log s2 @ [(?p, Canceled)]\<rparr>)"
        using s2 d(2) due cw by (intro cancelled_settles fr u) simp_all
      then show ?thesis
        using cw True s2(1) fr(2) stop [of s2] by (simp add: dwhen_def dthen_def dbind_def settles_def)
    next
      case False
      then have "pn_state ?q = notifyUserCallbackRequested" using due by (simp add: callback_due_def)
      then have u: "unattached ?s1 ?p" using no_owner [OF sr(1) d(3)] by (intro unat) simp_all
      have "settled ((upd_pn ?p (\<lambda>q. q\<lparr>cancelEvent := True\<rparr>) ?s1)
          \<lparr>notify_log := notify_log ?s1 @ [(?p, Canceled)]\<rparr>)"
        using d due cw by (intro cancelled_settles bk1 rest1 u cl1) simp_all
      then show ?thesis
        using cw False stop [of ?s1] by (simp add: dwhen_def dthen_def dbind_def dret_def settles_def)
    qed
  next
    case ncw: False
    have ih: "in_hand ?s1 ?p" using due_in_hand [OF d(3) sr(4,5) due(1) ncw due(2)] d(2) by simp
    show ?thesis
    proof (cases "pn_state ?q = notifyRestartCallbackRequested")
      case True
      then have "taken ?s1 ?p" using bk1 d(1) rest1 ih wl own by (simp add: taken_def)
      then have "settles e ?s1 (processNotifyCommon e n ?p ?r ?s1)"
        using n by (intro processNotifyCommon_settles) simp_all
      then show ?thesis using ncw True by simp
    next
      case False
      then have "pn_state ?q = notifyUserCallbackRequested" using due by (simp add: callback_due_def)
      then have u: "unattached ?s1 ?p" using no_owner [OF sr(1) d(3)] by (intro unat) simp_all
      show ?thesis
        using finish_settles [OF bk1 d(1) ih u rest1, of ?r e] rl ncw False by simp
    qed
  qed
  then show ?thesis unfolding step by (rule settles_trans [OF cfg])
qed

section \<open>Calls of the client\<close>

text \<open>A call of the client begins or ends; the entries of other requests stay.\<close>

lemma filter_others:
  "k \<noteq> p \<Longrightarrow> k \<in> fst ` set (filter (\<lambda>(q, by). q \<noteq> p) l) \<longleftrightarrow> k \<in> fst ` set l"
  "p \<notin> fst ` set (filter (\<lambda>(q, by). q \<noteq> p) l)"
  "fst ` set l \<subseteq> N \<Longrightarrow> fst ` set (filter (\<lambda>(q, by). q \<noteq> p) l) \<subseteq> N"
  by force+

lemma reqs_tasks:
  assumes s: "reqs_but {p} s"
    and len: "set cs \<union> fst ` set ks \<union> fst ` set rs \<subseteq> {..<length (pns s)}" "distinct cs"
    and eq: "\<And>k. k \<noteq> p \<Longrightarrow> (k \<in> set cs \<longleftrightarrow> k \<in> set (calling s)) \<and>
      (k \<in> fst ` set ks \<longleftrightarrow> k \<in> fst ` set (cancellers s)) \<and>
      (k \<in> fst ` set rs \<longleftrightarrow> k \<in> fst ` set (restarters s))"
  shows "reqs_but {p} (s\<lparr>calling := cs, cancellers := ks, restarters := rs\<rparr>)"
proof -
  let ?t = "s\<lparr>calling := cs, cancellers := ks, restarters := rs\<rparr>"
  have "tasks_ok ?t" using s len by (simp add: reqs_but_def tasks_ok_def)
  moreover have "place_ok ?t k = place_ok s k" for k by (simp add: place_ok_def)
  moreover have "client_ok ?t k = client_ok s k" if "k \<noteq> p" for k
    using eq [OF that] by (simp add: client_ok_def history_def)
  ultimately show ?thesis using s by (simp add: reqs_but_def)
qed

lemma reqs_call:
  assumes s: "reqs_but {p} s" and p: "p < length (pns s)"
  shows "reqs_but {p} (s\<lparr>restarters := restarters s @ [(p, by)]\<rparr>)"
    "reqs_but {p} (s\<lparr>cancellers := cancellers s @ [(p, by)]\<rparr>)"
proof -
  have t: "tasks_ok s" using s by (simp add: reqs_but_def)
  show "reqs_but {p} (s\<lparr>restarters := restarters s @ [(p, by)]\<rparr>)"
    using reqs_tasks [OF s, of "calling s" "cancellers s" "restarters s @ [(p, by)]"] t p
    by (simp add: tasks_ok_def image_Un)
  show "reqs_but {p} (s\<lparr>cancellers := cancellers s @ [(p, by)]\<rparr>)"
    using reqs_tasks [OF s, of "calling s" "cancellers s @ [(p, by)]" "restarters s"] t p
    by (simp add: tasks_ok_def image_Un)
qed

lemma reqs_uncall:
  assumes s: "reqs_but {p} s"
  shows "reqs_but {p} (s\<lparr>cancellers := filter (\<lambda>(q, by). q \<noteq> p) (cancellers s)\<rparr>)"
    "reqs_but {p} (s\<lparr>restarters := filter (\<lambda>(q, by). q \<noteq> p) (restarters s)\<rparr>)"
    "reqs_but {p} (s\<lparr>calling := remove1 p (calling s)\<rparr>)"
proof -
  have t: "tasks_ok s" using s by (simp add: reqs_but_def)
  show "reqs_but {p} (s\<lparr>cancellers := filter (\<lambda>(q, by). q \<noteq> p) (cancellers s)\<rparr>)"
    using reqs_tasks [OF s, of "calling s" "filter (\<lambda>(q, by). q \<noteq> p) (cancellers s)" "restarters s"] t
    by (simp add: tasks_ok_def filter_others(1,3) del: set_filter)
  show "reqs_but {p} (s\<lparr>restarters := filter (\<lambda>(q, by). q \<noteq> p) (restarters s)\<rparr>)"
    using reqs_tasks [OF s, of "calling s" "cancellers s" "filter (\<lambda>(q, by). q \<noteq> p) (restarters s)"] t
    by (simp add: tasks_ok_def filter_others(1,3) del: set_filter)
  have "set (remove1 p (calling s)) \<subseteq> {..<length (pns s)}"
    using t set_remove1_subset [of p "calling s"] by (auto simp: tasks_ok_def)
  then show "reqs_but {p} (s\<lparr>calling := remove1 p (calling s)\<rparr>)"
    using reqs_tasks [OF s, of "remove1 p (calling s)" "cancellers s" "restarters s"] t
    by (simp add: tasks_ok_def distinct_remove1 in_set_remove1)
qed

text \<open>The fields of a request that is not in use.\<close>

lemma unused_request:
  assumes "settled s" "p < length (pns s)" "pn_state (pns s ! p) = notifyNotActive"
  shows "unattached s p" "\<not> cancelEvent (pns s ! p)" "\<not> userCallbackWait (pns s ! p)"
    "\<not> userCallbackEvent (pns s ! p)" "p \<notin> set (notify_cbs s)" "p \<notin> set (calling s)"
    "p \<notin> fst ` set (cancellers s)" "p \<notin> fst ` set (restarters s)" "under_way (history p s) = Some False"
proof -
  note sr = settled_request [OF assms(1,2)]
  have "waitList (pns s ! p) = []" using sr(7) assms(3) by (simp add: in_progress_def)
  then show "unattached s p"
    using no_owner [OF sr(1) assms(2)] assms(2,3) sr(4) by (simp add: unattached_def place_ok_def Let_def)
  show "\<not> cancelEvent (pns s ! p)" "\<not> userCallbackWait (pns s ! p)"
    "\<not> userCallbackEvent (pns s ! p)" "p \<notin> set (notify_cbs s)" "p \<notin> set (calling s)"
    "p \<notin> fst ` set (cancellers s)" "p \<notin> fst ` set (restarters s)" "under_way (history p s) = Some False"
    using sr(4,5) assms(3)
    by (simp_all add: place_ok_def client_ok_def callback_due_def outstanding_def in_progress_def Let_def)
qed

lemma start_settles:
  assumes s: "settled s" and p: "p < length (pns s)" and st: "pn_state (pns s ! p) = notifyNotActive"
    and n: "length (recs s) < n"
  shows "settles e s (dbProcessNotify_start e n p s)"
proof -
  let ?init = "\<lambda>n. n\<lparr>pn_state := notifyNotActive, waitList := [], pn_status := notifyOK,
    wasProcessed := False, cancelWait := False, userCallbackWait := False, pvt := True\<rparr>"
  let ?t = "(upd_pn p ?init s)\<lparr>notify_log := notify_log s @ [(p, Requested)]\<rparr>"
  note un = unused_request [OF s p st]
  note sr = settled_request [OF s p]
  have "book_ok ?t" using book_ok_unattached [OF sr(1) un(1), of ?init] by (simp add: in_progress_def)
  moreover have "reqs_but {p} (upd_pn p ?init s)"
    unfolding reqs_but_upd_pn by (rule reqs_but_mono [OF sr(2)]) simp
  then have "reqs_but {p} ?t" by (rule reqs_log) simp
  moreover have "history p ?t = history p s @ [Requested]" by (simp add: history_def)
  then have "in_hand ?t p" using un p by (simp add: in_hand_def unattached_def Let_def)
  ultimately have "taken ?t p" using sr(3) p st by (simp add: taken_def)
  then have "settles e ?t (processNotifyCommon e n p (pn_chan (pns s ! p)) ?t)"
    using p n by (intro processNotifyCommon_settles) simp_all
  moreover have "dbProcessNotify_start e n p s = processNotifyCommon e n p (pn_chan (pns s ! p)) ?t"
    using p by (simp add: dbProcessNotify_start_def notifyInit_def upd_notify_def log_notify_def
        get_pn_def run_dmod run_dget)
  ultimately show ?thesis using settles_trans [of s ?t e] by simp
qed

text \<open>No client has a call on the request that is blocked.\<close>

definition no_call :: "db \<Rightarrow> nat \<Rightarrow> bool" where
  "no_call s p \<longleftrightarrow> p \<notin> fst ` set (cancellers s) \<and> p \<notin> fst ` set (restarters s)"

lemma dbProcessNotify_settles:
  assumes s: "settled s" and p: "p < length (pns s)" "no_call s p"
    and st: "\<not> pvt (pns s ! p) \<or> pn_state (pns s ! p) = notifyUserCallbackActive"
    and n: "length (recs s) < n"
  shows "settles e s (dbProcessNotify e n p by s)"
proof -
  let ?f = "\<lambda>q. q\<lparr>pn_status := notifyOK, wasProcessed := False\<rparr>"
  let ?s1 = "upd_pn p ?f s"
  have f: "neutral ?f" by (simp add: neutral_def)
  have s1: "settled ?s1" by (rule settled_neutral [OF f s p(1)])
  note sr = settled_request [OF s1, simplified, OF p(1)]
  show ?thesis
  proof (cases "pvt (pns s ! p)")
    case True
    then have uca: "pn_state (pns ?s1 ! p) = notifyUserCallbackActive" using st p by simp
    let ?u = "upd_pn p (\<lambda>q. q\<lparr>userCallbackWait := True\<rparr>) ?s1"
    let ?t = "?u\<lparr>restarters := restarters s @ [(p, by)]\<rparr>"
    have run: "dbProcessNotify e n p by s = Done () ?t"
      using True uca p by (simp add: dbProcessNotify_def upd_notify_def get_pn_def dbm_defs)
    have nc: "p \<notin> fst ` set (cancellers s)" "p \<notin> fst ` set (restarters s)" using p by (auto simp: no_call_def)
    have "settled ?t"
    proof (rule settled_put_back)
      have un: "unattached ?s1 p"
        using no_owner [OF sr(1)] sr(4,7) uca p
        by (simp add: unattached_def place_ok_def in_progress_def Let_def)
      show "book_ok ?t"
        using book_ok_unattached [OF sr(1) un, of "\<lambda>q. q\<lparr>userCallbackWait := True\<rparr>"] uca p
        by (simp add: in_progress_def)
      have "reqs_but {p} ?u"
        unfolding reqs_but_upd_pn by (rule reqs_but_mono [OF settled_request(2) [OF s p(1)]]) simp
      then show "reqs_but {p} ?t" using reqs_call(1) [of p ?u "by"] p by simp
      show "rest_ok ?t" using sr(3) by simp
      show "place_ok ?t p" using sr(4) uca p by (simp add: place_ok_def Let_def)
      have uca': "pn_state (pns s ! p) = notifyUserCallbackActive" using uca p(1) by simp
      have "client_ok s p" by (rule settled_request(5) [OF s p(1)])
      then have c: "\<not> cancelWait (pns s ! p)" "\<not> cancelEvent (pns s ! p)" "p \<in> set (calling s)"
        "\<not> userCallbackWait (pns s ! p)" "\<not> userCallbackEvent (pns s ! p)" "pvt (pns s ! p)"
        "under_way (history p s) = Some False"
        using uca' p(1) nc
        by (auto simp: client_ok_def callback_due_def outstanding_def in_progress_def Let_def)
      have "p \<in> fst ` set (restarters ?t)" "history p ?t = history p s" by (simp_all add: history_def)
      then show "client_ok ?t p"
        using c uca' p(1) nc by (simp add: client_ok_def callback_due_def outstanding_def in_progress_def Let_def)
    qed
    then show ?thesis unfolding run by (simp add: settles_def)
  next
    case False
    then have "pn_state (pns ?s1 ! p) = notifyNotActive"
      using sr(5) p by (simp add: client_ok_def Let_def)
    then have "settles e ?s1 (dbProcessNotify_start e n p ?s1)"
      using p n by (intro start_settles s1) simp_all
    moreover have "dbProcessNotify e n p by s = dbProcessNotify_start e n p ?s1"
      using False p by (simp add: dbProcessNotify_def upd_notify_def get_pn_def run_dmod run_dget)
    ultimately show ?thesis using settles_trans [of s ?s1 e] by simp
  qed
qed

text \<open>A request whose client has come back is free for a new use.\<close>

definition released :: "processNotify \<Rightarrow> processNotify \<Rightarrow> bool" where
  "released n n' \<longleftrightarrow> pn_state n' = notifyNotActive \<and> \<not> pvt n' \<and> waitList n' = waitList n \<and>
     pn_chan n' = pn_chan n \<and> restart_on n' = restart_on n \<and> \<not> cancelEvent n' \<and>
     \<not> userCallbackEvent n' \<and> \<not> userCallbackWait n'"

lemma cleanup_settled:
  assumes bk: "book_ok s" and reqs: "reqs_but {p} s" and rest: "rest_ok s" and u: "unattached s p"
    and p: "p \<notin> set (notify_cbs s)" "p \<notin> set (calling s)" "no_call s p"
      "under_way (history p s) = Some False"
    and f: "\<And>n. waitList n = [] \<Longrightarrow> waitList (f n) = []" "released (pns s ! p) (f (pns s ! p))"
  shows "settled (upd_pn p f s)"
proof (rule settled_put_back)
  have pl: "p < length (pns s)" using u by (simp add: unattached_def)
  show "book_ok (upd_pn p f s)"
    by (rule book_ok_unattached [OF bk u f(1)]) (use f(2) in \<open>simp_all add: in_progress_def released_def\<close>)
  show "reqs_but {p} (upd_pn p f s)" unfolding reqs_but_upd_pn by (rule reqs)
  show "rest_ok (upd_pn p f s)" using rest by simp
  show "place_ok (upd_pn p f s) p"
    using u p f(2) pl
    by (simp add: place_ok_def unattached_def callback_due_def in_progress_def released_def Let_def)
  show "client_ok (upd_pn p f s) p"
    using p f(2) pl by (simp add: client_ok_def no_call_def callback_due_def outstanding_def
        in_progress_def history_def released_def Let_def)
qed

lemma resume_settles:
  assumes s: "settled s" and p: "p < length (pns s)" "p \<in> fst ` set (restarters s)"
    and ev: "userCallbackEvent (pns s ! p)" and n: "length (recs s) < n"
  shows "settles e s (dbProcessNotify_resume e n p s)"
proof -
  let ?s1 = "s\<lparr>restarters := filter (\<lambda>(q, by). q \<noteq> p) (restarters s)\<rparr>"
  let ?s2 = "upd_pn p (\<lambda>q. q\<lparr>userCallbackEvent := False\<rparr>) ?s1"
  let ?t = "upd_pn p (\<lambda>n. n\<lparr>pn_state := notifyNotActive, pvt := False\<rparr>) ?s2"
  note sr = settled_request [OF s p(1)]
  have st: "pn_state (pns s ! p) = notifyUserCallbackActive" "p \<notin> fst ` set (cancellers s)"
    "p \<notin> set (calling s)" "p \<notin> set (notify_cbs s)" "\<not> cancelEvent (pns s ! p)"
    "\<not> userCallbackWait (pns s ! p)"
    "under_way (history p s) = Some False" "\<not> restart_on (pns s ! p)" "pn_chan (pns s ! p) < length (recs s)"
    using sr(4,5) ev p(2)
    by (auto simp: place_ok_def client_ok_def callback_due_def outstanding_def in_progress_def Let_def)
  have wl: "waitList (pns s ! p) = []" using sr(7) st(1) by (simp add: in_progress_def)
  have un: "unattached s p"
    using no_owner [OF sr(1) p(1)] wl st p(1) by (simp add: unattached_def)
  let ?g = "\<lambda>n. n\<lparr>userCallbackEvent := False, pn_state := notifyNotActive, pvt := False\<rparr>"
  have eq: "?t = upd_pn p ?g ?s1" using p(1) by (simp add: upd_twice)
  have "settled ?t"
    unfolding eq
  proof (rule cleanup_settled)
    show "reqs_but {p} ?s1" by (rule reqs_uncall(2), rule reqs_but_mono [OF sr(2)]) simp
    show "no_call ?s1 p" using st(2) filter_others(2) [of p "restarters s"] by (simp add: no_call_def)
  qed (use sr st un wl in \<open>simp_all add: unattached_def history_def released_def\<close>)
  then have "settles e ?t (dbProcessNotify_start e n p ?t)"
    using p n by (intro start_settles) simp_all
  moreover have "dbProcessNotify_resume e n p s = dbProcessNotify_start e n p ?t"
    by (simp add: dbProcessNotify_resume_def notifyCleanup_def upd_notify_def run_dmod)
  moreover have "same_config s ?t" by simp
  ultimately show ?thesis using settles_trans [of s ?t e] by simp
qed

section \<open>The return of a callback\<close>

lemma active_request:
  assumes s: "settled s" and p: "p < length (pns s)" and st: "pn_state (pns s ! p) = notifyUserCallbackActive"
  shows "unattached s p" "p \<notin> set (notify_cbs s)" "under_way (history p s) = Some False"
proof -
  note sr = settled_request [OF s p]
  have "waitList (pns s ! p) = []" using sr(7) st by (simp add: in_progress_def)
  then show "unattached s p"
    using no_owner [OF sr(1) p] st p sr(4) by (simp add: unattached_def place_ok_def Let_def)
  show "p \<notin> set (notify_cbs s)" "under_way (history p s) = Some False"
    using sr(4,5) st
    by (simp_all add: place_ok_def client_ok_def callback_due_def outstanding_def in_progress_def Let_def)
qed

lemma callDone_end_settles:
  assumes s: "settled s" and p: "p \<in> set (calling s)"
  shows "settles e s (callDone_end p s)"
proof -
  let ?s1 = "s\<lparr>calling := remove1 p (calling s)\<rparr>" and ?n = "pns s ! p"
  have pl: "p < length (pns s)" and dist: "distinct (calling s)"
    using s p by (auto simp: settled_parts notify_ok_def reqs_but_def tasks_ok_def)
  note sr = settled_request [OF s pl]
  have st: "pn_state ?n = notifyUserCallbackActive" "\<not> cancelEvent ?n" "\<not> userCallbackEvent ?n"
    and calls: "p \<in> fst ` set (cancellers s) \<longleftrightarrow> cancelWait ?n"
      "p \<in> fst ` set (restarters s) \<longleftrightarrow> userCallbackWait ?n" "userCallbackWait ?n \<longrightarrow> \<not> cancelWait ?n" "pvt ?n"
    using sr(5) p by (auto simp: client_ok_def callback_due_def Let_def)
  note ac = active_request [OF s pl st(1)]
  have notin: "p \<notin> set (remove1 p (calling s))" using dist by simp
  have reqs1: "reqs_but {p} ?s1" by (rule reqs_uncall(3), rule reqs_but_mono [OF sr(2)]) simp
  have un1: "unattached ?s1 p" using ac(1) by (simp add: unattached_def)
  have h1: "history p ?s1 = history p s" by (simp add: history_def)
  note run = callDone_end_def upd_notify_def get_pn_def notifyCleanup_def dbm_defs
  have event: "settled (upd_pn p f ?s1)"
    if f: "f = (\<lambda>q. q\<lparr>cancelWait := False, cancelEvent := True\<rparr>) \<and> cancelWait ?n \<or>
      f = (\<lambda>q. q\<lparr>userCallbackWait := False, userCallbackEvent := True\<rparr>) \<and> userCallbackWait ?n" for f
  proof (rule settled_put_back)
    have fn: "waitList (f n) = waitList n" "pn_state (f n) = pn_state n" "pn_chan (f n) = pn_chan n"
      "restart_on (f n) = restart_on n" "pvt (f n) = pvt n" for n
      using f by auto
    show "book_ok (upd_pn p f ?s1)"
      using book_ok_unattached [OF _ un1, of f] sr(1) fn st by (simp add: in_progress_def)
    show "reqs_but {p} (upd_pn p f ?s1)" unfolding reqs_but_upd_pn by (rule reqs1)
    show "rest_ok (upd_pn p f ?s1)" using sr(3) by simp
    show "place_ok (upd_pn p f ?s1) p"
      using ac un1 fn st pl by (simp add: place_ok_def unattached_def callback_due_def in_progress_def Let_def)
    show "client_ok (upd_pn p f ?s1) p"
      using f fn st calls pl notin ac(3) sr(5)
      by (elim disjE conjE) (simp_all add: client_ok_def callback_due_def outstanding_def in_progress_def
        history_def Let_def)
  qed
  consider (none) "\<not> cancelWait ?n" "\<not> userCallbackWait ?n" | (cancel) "cancelWait ?n" "\<not> userCallbackWait ?n"
    | (user) "userCallbackWait ?n" "\<not> cancelWait ?n"
    using calls(3) by auto
  then show ?thesis
  proof cases
    case none
    have "settled (upd_pn p (\<lambda>n. n\<lparr>pn_state := notifyNotActive, pvt := False\<rparr>) ?s1)"
      by (rule cleanup_settled)
        (use sr reqs1 un1 ac notin none calls st h1 in \<open>simp_all add: no_call_def released_def\<close>)
    then show ?thesis using none pl by (simp add: run settles_def)
  next
    case cancel
    then show ?thesis using event pl by (simp add: run settles_def)
  next
    case user
    then show ?thesis using event pl by (simp add: run settles_def)
  qed
qed

section \<open>Cancelling\<close>

lemma cancel_resume_settles:
  assumes s: "settled s" and p: "p \<in> fst ` set (cancellers s)" and ev: "cancelEvent (pns s ! p)"
  shows "settles e s (dbNotifyCancel_resume p s)"
proof -
  let ?s1 = "s\<lparr>cancellers := filter (\<lambda>(q, by). q \<noteq> p) (cancellers s)\<rparr>" and ?n = "pns s ! p"
  let ?f = "\<lambda>q. q\<lparr>cancelEvent := False, pn_state := notifyNotActive, pvt := False\<rparr>"
  have pl: "p < length (pns s)" using s p by (auto simp: settled_parts notify_ok_def reqs_but_def tasks_ok_def)
  note sr = settled_request [OF s pl]
  have st: "callback_due (pn_state ?n) \<or> pn_state ?n = notifyUserCallbackActive"
    using sr(5) ev by (simp add: client_ok_def Let_def)
  have wl: "waitList ?n = []" using sr(7) st by (auto simp: callback_due_def in_progress_def)
  have un: "unattached ?s1 p"
    using sr(4) ev wl st pl by (auto simp: unattached_def place_ok_def callback_due_def Let_def)
  have c: "p \<notin> set (notify_cbs s)" "p \<notin> set (calling s)" "p \<notin> fst ` set (restarters s)"
    "\<not> userCallbackEvent ?n" "\<not> userCallbackWait ?n"
    using sr(4,5) ev by (auto simp: place_ok_def client_ok_def Let_def)
  have "under_way (history p s) = Some (outstanding ?n)" using sr(5) by (simp add: client_ok_def Let_def)
  moreover have "\<not> outstanding ?n"
    using st ev by (auto simp: outstanding_def callback_due_def in_progress_def)
  ultimately have h: "under_way (history p ?s1) = Some False" by (simp add: history_def)
  have "settled (upd_pn p ?f ?s1)"
  proof (rule cleanup_settled)
    show "reqs_but {p} ?s1" by (rule reqs_uncall(1), rule reqs_but_mono [OF sr(2)]) simp
    show "no_call ?s1 p" using c(3) filter_others(2) [of p "cancellers s"] by (simp add: no_call_def)
  qed (use sr c un h in \<open>simp_all add: released_def\<close>)
  moreover have "dbNotifyCancel_resume p s = Done () (upd_pn p ?f ?s1)"
    using pl by (simp add: dbNotifyCancel_resume_def notifyCleanup_def upd_notify_def dbm_defs upd_twice)
  ultimately show ?thesis by (simp add: settles_def)
qed

text \<open>Taking the records out of the wait list hands each of them on.\<close>

definition cancelling :: "db \<Rightarrow> nat \<Rightarrow> bool" where
  "cancelling s p \<longleftrightarrow> book_ok s \<and> reqs_but {p} s \<and> rest_ok s \<and> in_hand s p \<and>
     in_progress (pn_state (pns s ! p))"

lemma cancel_waits_run:
  assumes "cancelling s p" "waitList (pns s ! p) = xs"
  shows "\<exists>s'. cancel_waits p xs s = Done () s' \<and> cancelling s' p \<and> waitList (pns s' ! p) = [] \<and>
    same_config s s' \<and> pn_chan (pns s' ! p) = pn_chan (pns s ! p) \<and> pn_state (pns s' ! p) = pn_state (pns s ! p)"
  using assms
proof (induction xs arbitrary: s)
  case Nil
  then show ?case by (simp add: dret_def)
next
  case (Cons x xs)
  have bk: "book_ok s" and reqs: "reqs_but {p} s" and rest: "rest_ok s" and ih: "in_hand s p"
    and st: "in_progress (pn_state (pns s ! p))"
    using Cons.prems(1) by (auto simp: cancelling_def)
  have pl: "p < length (pns s)" using ih by (simp add: in_hand_def Let_def)
  have "waits_ok {} s p" using bk pl by (simp add: book_ok_def)
  then have "set (x # xs) = {r. r < length (recs s) \<and> ppn (recs s ! r) = Some p}"
    using Cons.prems(2) st by (simp add: waits_ok_def)
  then have x: "x < length (recs s)" "ppn (recs s ! x) = Some p" by auto
  have nw: "pn_state (pns s ! p) \<noteq> notifyWaitForRestart" using st by (auto simp: in_progress_def)
  let ?s1 = "upd_rec x (\<lambda>c. c\<lparr>wait_on := False\<rparr>) (upd_pn p (\<lambda>n. n\<lparr>waitList := remove1 x (waitList n)\<rparr>) s)"
  have del: "ellSafeDelete_wait p x s = Done () ?s1" and ok1: "book_ok_but x ?s1"
    using delete_wait_ok [OF bk x st] by auto
  have reqs1: "reqs_but {p} ?s1" unfolding reqs_but_wait reqs_but_upd_pn by (rule reqs)
  have p1: "pns ?s1 ! p = (pns s ! p)\<lparr>waitList := xs\<rparr>" using pl Cons.prems(2) by simp
  have rest1: "rest_ok ?s1" "same_config s ?s1"
    using rest_ok_frame [OF rest, of ?s1] x by (auto simp: fewer_waits_def config_def flags_def)
  obtain s2 where s2: "restartCheck x ?s1 = Done () s2" "book_ok s2" "reqs_but {p} s2"
    "notify_frame ?s1 s2" "fewer_waits ?s1 s2" "pns s2 ! p = pns ?s1 ! p"
    "p \<in> set (notify_cbs s2) \<longleftrightarrow> p \<in> set (notify_cbs ?s1)"
    using restartCheck_reqs [OF ok1 reqs1, of p] x pl nw by auto
  have rest2: "rest_ok s2" "same_config ?s1 s2" using rest_ok_notify_frame [OF rest1(1) s2(4,5)] by auto
  have "in_hand s2 p"
    using ih s2(4,6,7) p1 by (auto simp: in_hand_def Let_def notify_frame_def history_def)
  then have "cancelling s2 p" using s2 rest2 p1 st by (simp add: cancelling_def)
  moreover have "waitList (pns s2 ! p) = xs" using s2(6) p1 by simp
  ultimately obtain s3 where s3: "cancel_waits p xs s2 = Done () s3" "cancelling s3 p"
    "waitList (pns s3 ! p) = []" "same_config s2 s3" "pn_chan (pns s3 ! p) = pn_chan (pns s2 ! p)"
    "pn_state (pns s3 ! p) = pn_state (pns s2 ! p)"
    using Cons.IH by blast
  have "cancel_waits p (x # xs) s = Done () s3" using del s2(1) s3(1) by (simp add: dthen_def dbind_def)
  moreover have "same_config s s3"
    using rest1(2) rest2(2) s3(4) same_config_trans by blast
  ultimately show ?case using s3 s2(6) p1 by auto
qed

text \<open>A request leaves the list of those that wait for the record.\<close>

lemma leave_ok:
  assumes s: "settled s" and p: "p < length (pns s)" and st: "pn_state (pns s ! p) = notifyWaitForRestart"
    and r: "pn_chan (pns s ! p) = r"
  defines "s' \<equiv> upd_pn p (\<lambda>n. n\<lparr>restart_on := False, pn_state := notifyNotActive, pvt := False\<rparr>)
    (upd_rec r (\<lambda>c. c\<lparr>restartList := remove1 p (restartList c)\<rparr>) s)"
  shows "settled (s'\<lparr>notify_log := notify_log s @ [(p, Canceled)]\<rparr>)" (is "settled ?t")
    and "restart_on (pns s ! p)" "ppn (recs s ! r) \<noteq> None" "ppn (recs s ! r) \<noteq> Some p" "same_config s s'"
proof -
  note sr = settled_request [OF s p]
  have rl: "r < length (recs s)" and mem: "p \<in> set (restartList (recs s ! r))" and on: "restart_on (pns s ! p)"
    and ev: "\<not> cancelEvent (pns s ! p)" and cbs: "p \<notin> set (notify_cbs s)"
    using sr(4,5) st r
    by (simp_all add: place_ok_def client_ok_def callback_due_def in_progress_def Let_def)
  show "restart_on (pns s ! p)" by (rule on)
  have own: "owner_ok s r" and que: "queue_ok s r" using sr(1) rl by (simp_all add: book_ok_def)
  show some: "ppn (recs s ! r) \<noteq> None" using own mem by (auto simp: owner_ok_def split: option.splits)
  have unown: "ppn (recs s ! x) \<noteq> Some p" if "x < length (recs s)" for x
    using sr(1) that st by (auto simp: book_ok_def owner_ok_def may_own_def)
  show "ppn (recs s ! r) \<noteq> Some p" by (rule unown [OF rl])
  have rest: "rest_ok s'" "same_config s s'"
    using rest_ok_frame [OF sr(3), of s'] by (auto simp: s'_def fewer_waits_def config_def flags_def)
  show "same_config s s'" by (rule rest(2))
  have "queue_ok s' x" if x: "x < length (recs s)" for x
  proof -
    have q: "queue_ok s x" using sr(1) x by (simp add: book_ok_def)
    have rx: "restartList (recs s' ! x) =
        (if x = r then remove1 p (restartList (recs s ! x)) else restartList (recs s ! x))"
      using x by (simp add: s'_def)
    have sub: "set (restartList (recs s' ! x)) \<subseteq> set (restartList (recs s ! x)) - {p}"
      using q r rx by (auto simp: queue_ok_def set_remove1_eq)
    have "k \<noteq> p \<Longrightarrow> k < length (pns s) \<Longrightarrow> pns s' ! k = pns s ! k" for k by (simp add: s'_def)
    then show ?thesis
      using q sub rx by (auto simp: queue_ok_def distinct_remove1 s'_def subset_iff)
  qed
  moreover have "owner_ok s' x" if x: "x < length (recs s)" for x
  proof -
    have "owner_ok s x" using sr(1) x by (simp add: book_ok_def)
    then show ?thesis using unown [OF x] some x by (auto simp: s'_def owner_ok_def split: option.splits)
  qed
  moreover have "waits_ok {} s' k" if k: "k < length (pns s)" for k
  proof -
    have "waits_ok {} s k" using sr(1) k by (simp add: book_ok_def)
    moreover have "{x. x < length (recs s) \<and> ppn (recs s' ! x) = Some k} =
        {x. x < length (recs s) \<and> ppn (recs s ! x) = Some k}"
      by (auto simp: s'_def split: if_splits)
    moreover have "waitList (pns s ! p) = []" using sr(7) st by (simp add: in_progress_def)
    ultimately show ?thesis using k st by (auto simp: waits_ok_def in_progress_def s'_def)
  qed
  ultimately have book: "book_ok s'" by (simp add: book_ok_def s'_def)
  have others: "reqs_but {p} s'"
  proof -
    let ?s1 = "upd_rec r (\<lambda>c. c\<lparr>restartList := remove1 p (restartList c)\<rparr>) s"
    have "place_ok ?s1 k" if k: "k < length (pns s)" "k \<noteq> p" for k
    proof -
      have "place_ok s k" using sr(2) k by (simp add: reqs_but_def)
      then show ?thesis using k(2) by (auto simp: place_ok_def Let_def)
    qed
    then have "reqs_but {p} ?s1"
      using sr(2) by (simp add: reqs_but_def tasks_ok_def client_ok_def history_def)
    then show ?thesis by (simp add: s'_def reqs_but_upd_pn)
  qed
  show "settled ?t"
  proof (rule settled_put_back)
    show "book_ok ?t" "rest_ok ?t" using book rest by simp_all
    show "reqs_but {p} ?t" by (rule reqs_log [OF others]) (simp add: s'_def)
    have eq: "length (recs ?t) = length (recs s)" "pn_chan (pns ?t ! p) = r" "pn_state (pns ?t ! p) = notifyNotActive"
      "\<not> restart_on (pns ?t ! p)" "\<not> pvt (pns ?t ! p)" "notify_cbs ?t = notify_cbs s" "calling ?t = calling s"
      "cancellers ?t = cancellers s" "restarters ?t = restarters s"
      "cancelEvent (pns ?t ! p) = cancelEvent (pns s ! p)" "cancelWait (pns ?t ! p) = cancelWait (pns s ! p)"
      "userCallbackWait (pns ?t ! p) = userCallbackWait (pns s ! p)"
      "userCallbackEvent (pns ?t ! p) = userCallbackEvent (pns s ! p)"
      "history p ?t = history p s @ [Canceled]" "outstanding (pns ?t ! p) = False"
      using p r by (simp_all add: s'_def history_def outstanding_def callback_due_def in_progress_def)
    show "place_ok ?t p"
      using rl ev cbs by (simp only: place_ok_def eq Let_def) (simp add: callback_due_def in_progress_def)
    have c: "under_way (history p s) = Some True" "p \<notin> set (calling s)" "p \<notin> fst ` set (cancellers s)"
      "p \<notin> fst ` set (restarters s)" "\<not> userCallbackWait (pns s ! p)" "\<not> userCallbackEvent (pns s ! p)"
      using sr(5) st by (simp_all add: client_ok_def outstanding_def callback_due_def in_progress_def Let_def)
    show "client_ok ?t p"
      using c ev by (simp only: client_ok_def eq Let_def) (simp add: callback_due_def)
  qed
qed

lemma leave_run:
  assumes "r < length (recs s)" "p < length (pns s)" "restart_on (pns s ! p)"
    "ppn (recs s ! r) \<noteq> None" "ppn (recs s ! r) \<noteq> Some p"
  shows "dthen (dbind (getr r ppn) (\<lambda>owner.
      dthen (dassert (owner \<noteq> None \<and> owner \<noteq> Some p)) (ellSafeDelete_restart r p)))
    (dthen (log_notify p Canceled) (notifyCleanup p)) s =
    Done () ((upd_pn p (\<lambda>n. n\<lparr>restart_on := False, pn_state := notifyNotActive, pvt := False\<rparr>)
      (upd_rec r (\<lambda>c. c\<lparr>restartList := remove1 p (restartList c)\<rparr>) s))
      \<lparr>notify_log := notify_log s @ [(p, Canceled)]\<rparr>)"
  using assms
  by (simp add: ellSafeDelete_restart_def log_notify_def notifyCleanup_def upd_notify_def get_pn_def
      dbm_defs) (simp add: upd_pn_def)

text \<open>The client waits for the callback.\<close>

lemma block_settled:
  assumes s: "settled s" and p: "p < length (pns s)" "no_call s p"
    and st: "callback_due (pn_state (pns s ! p)) \<or> pn_state (pns s ! p) = notifyUserCallbackActive"
  shows "settled ((upd_pn p (\<lambda>q. q\<lparr>cancelWait := True\<rparr>) s)\<lparr>cancellers := cancellers s @ [(p, by)]\<rparr>)"
    (is "settled ?t")
proof (rule settled_put_back)
  note sr = settled_request [OF s p(1)]
  let ?u = "upd_pn p (\<lambda>q. q\<lparr>cancelWait := True\<rparr>) s"
  have f: "\<not> cancelWait (pns s ! p)" "\<not> cancelEvent (pns s ! p)" "\<not> userCallbackWait (pns s ! p)"
    "\<not> userCallbackEvent (pns s ! p)" "pvt (pns s ! p)"
  proof -
    let ?n = "pns s ! p"
    have c: "p \<in> fst ` set (cancellers s) \<longleftrightarrow> (callback_due (pn_state ?n) \<or>
        pn_state ?n = notifyUserCallbackActive) \<and> (cancelWait ?n \<or> cancelEvent ?n)"
      and u: "p \<in> fst ` set (restarters s) \<longleftrightarrow> pn_state ?n = notifyUserCallbackActive \<and>
        (userCallbackWait ?n \<or> userCallbackEvent ?n)"
      "userCallbackWait ?n \<or> userCallbackEvent ?n \<longrightarrow> pn_state ?n = notifyUserCallbackActive"
      and v: "pvt ?n \<longleftrightarrow> pn_state ?n \<noteq> notifyNotActive"
      using sr(5) unfolding client_ok_def Let_def by blast+
    show "\<not> cancelWait ?n" "\<not> cancelEvent ?n" using c st p(2) unfolding no_call_def by blast+
    show "\<not> userCallbackWait ?n" "\<not> userCallbackEvent ?n" using u p(2) unfolding no_call_def by blast+
    show "pvt ?n" using v st by (auto simp: callback_due_def)
  qed
  have nip: "\<not> in_progress (pn_state (pns s ! p))" using st by (auto simp: callback_due_def in_progress_def)
  have eq: "book_ok ?u"
  proof -
    have eq: "pn_state (pns ?u ! k) = pn_state (pns s ! k)" "waitList (pns ?u ! k) = waitList (pns s ! k)"
      "pn_chan (pns ?u ! k) = pn_chan (pns s ! k)" "restart_on (pns ?u ! k) = restart_on (pns s ! k)"
      if "k < length (pns s)" for k
      using that p by simp_all
    show ?thesis
      using sr(1) by (auto simp: book_ok_def queue_ok_def owner_ok_def may_own_def waits_ok_def
        eq split: option.splits simp del: pns_upd_pn)
  qed
  then show "book_ok ?t" by simp
  have "reqs_but {p} ?u" unfolding reqs_but_upd_pn by (rule reqs_but_mono [OF sr(2)]) simp
  then show "reqs_but {p} ?t" using reqs_call(2) [of p ?u "by"] p(1) by simp
  show "rest_ok ?t" using sr(3) by simp
  show "place_ok ?t p" using sr(4) p(1) by (simp add: place_ok_def Let_def)
  have eq: "pn_state (pns ?t ! p) = pn_state (pns s ! p)" "pvt (pns ?t ! p)" "cancelWait (pns ?t ! p)"
    "\<not> cancelEvent (pns ?t ! p)" "\<not> userCallbackWait (pns ?t ! p)" "\<not> userCallbackEvent (pns ?t ! p)"
    "calling ?t = calling s" "p \<in> fst ` set (cancellers ?t)" "restarters ?t = restarters s"
    "history p ?t = history p s" "outstanding (pns ?t ! p) = outstanding (pns s ! p)"
    using f p(1) by (simp_all add: history_def outstanding_def)
  have c: "p \<in> set (calling s) \<longleftrightarrow> pn_state (pns s ! p) = notifyUserCallbackActive"
    "p \<notin> fst ` set (restarters s)" "under_way (history p s) = Some (outstanding (pns s ! p))"
    using sr(5) f by (auto simp: client_ok_def Let_def)
  show "client_ok ?t p"
    using st c f by (simp only: client_ok_def eq Let_def) (auto simp: callback_due_def)
qed

text \<open>The request gives up all its records.\<close>

lemma abort_settles:
  assumes s: "settled s" and p: "p < length (pns s)" and st: "in_progress (pn_state (pns s ! p))"
    and r: "pn_chan (pns s ! p) = r"
  shows "settles e s (dthen
      (dthen (cancel_waits p (waitList (pns s ! p)))
      (dbind (getr r ppn) (\<lambda>owner. dwhen (owner = Some p) (restartCheck r))))
    (dthen (log_notify p Canceled) (notifyCleanup p)) s)"
proof -
  note sr = settled_request [OF s p]
  have "reqs_but {p} s" by (rule reqs_but_mono [OF sr(2)]) simp
  then have "cancelling s p"
    using sr in_hand_progress [OF p sr(4,5) st] st by (simp add: cancelling_def)
  then obtain s2 where run: "cancel_waits p (waitList (pns s ! p)) s = Done () s2"
    and c: "cancelling s2 p" "waitList (pns s2 ! p) = []" "same_config s s2"
      "pn_chan (pns s2 ! p) = r" "pn_state (pns s2 ! p) = pn_state (pns s ! p)"
    using cancel_waits_run [of s p] r by auto
  have bk: "book_ok s2" and reqs: "reqs_but {p} s2" and rest: "rest_ok s2" and ih: "in_hand s2 p"
    using c(1) by (auto simp: cancelling_def)
  have pl: "p < length (pns s2)" and rl: "r < length (recs s2)" using ih c(4) by (auto simp: in_hand_def Let_def)
  have "waits_ok {} s2 p" using bk pl by (simp add: book_ok_def)
  then have unown: "ppn (recs s2 ! x) \<noteq> Some p" if "x < length (recs s2)" for x
    using c(2,5) st that by (auto simp: waits_ok_def)
  have un: "unattached s2 p"
    using ih unown c(2,5) st by (auto simp: unattached_def in_hand_def in_progress_def Let_def)
  let ?s3 = "s2\<lparr>notify_log := notify_log s2 @ [(p, Canceled)]\<rparr>"
  let ?f = "\<lambda>n. n\<lparr>pn_state := notifyNotActive, pvt := False\<rparr>"
  have "settled (upd_pn p ?f ?s3)"
  proof (rule cleanup_settled)
    show "reqs_but {p} ?s3" by (rule reqs_log [OF reqs refl])
    have "history p ?s3 = history p s2 @ [Canceled]" by (simp add: history_def)
    then show "under_way (history p ?s3) = Some False" using ih by (simp add: in_hand_def Let_def)
  qed (use bk rest un ih in \<open>simp_all add: unattached_def in_hand_def no_call_def released_def Let_def\<close>)
  moreover have "dthen (dthen (cancel_waits p (waitList (pns s ! p)))
      (dbind (getr r ppn) (\<lambda>owner. dwhen (owner = Some p) (restartCheck r))))
    (dthen (log_notify p Canceled) (notifyCleanup p)) s = Done () (upd_pn p ?f ?s3)"
    using run unown [OF rl]
    by (simp add: log_notify_def notifyCleanup_def upd_notify_def dbm_defs)
  ultimately show ?thesis using c(3) by (simp add: settles_def)
qed

lemma dbNotifyCancel_settles:
  assumes s: "settled s" and p: "p < length (pns s)" "no_call s p"
  shows "settles e s (dbNotifyCancel p by s)"
proof -
  let ?g = "\<lambda>q. q\<lparr>pn_status := notifyCanceled\<rparr>"
  let ?s1 = "upd_pn p ?g s"
  have s1: "settled ?s1" by (rule settled_neutral [OF _ s p(1)]) (simp add: neutral_def)
  have p1: "p < length (pns ?s1)" using p by simp
  note sr = settled_request [OF s1 p1]
  obtain st where st: "pn_state (pns ?s1 ! p) = st" by simp
  obtain r where r: "pn_chan (pns ?s1 ! p) = r" by simp
  have pv: "pvt (pns ?s1 ! p) \<longleftrightarrow> st \<noteq> notifyNotActive" using sr(5) st by (simp add: client_ok_def Let_def)
  let ?body = "if \<not> pvt (pns ?s1 ! p) \<or> st = notifyNotActive then dret ()
      else if st = notifyUserCallbackRequested \<or> st = notifyRestartCallbackRequested \<or>
              st = notifyUserCallbackActive then
        dthen (upd_notify p (\<lambda>q. q\<lparr>cancelWait := True\<rparr>))
        (dmod (\<lambda>s. s\<lparr>cancellers := cancellers s @ [(p, by)]\<rparr>))
      else
        dthen
          (if st = notifyWaitForRestart then
             dbind (getr r ppn) (\<lambda>owner.
             dthen (dassert (owner \<noteq> None \<and> owner \<noteq> Some p)) (ellSafeDelete_restart r p))
           else
             dthen (cancel_waits p (waitList (pns ?s1 ! p)))
             (dbind (getr r ppn) (\<lambda>owner. dwhen (owner = Some p) (restartCheck r))))
        (dthen (log_notify p Canceled) (notifyCleanup p))"
  have step: "dbNotifyCancel p by s = ?body ?s1"
    unfolding dbNotifyCancel_def upd_notify_def [of p ?g] run_dmod get_pn_def run_dget Let_def id_apply st r
    by (rule refl)
  have block: "settles e ?s1 (?body ?s1)"
    if "st = x" "x \<in> {notifyRestartCallbackRequested, notifyUserCallbackRequested, notifyUserCallbackActive}" for x
  proof -
    have "callback_due (pn_state (pns ?s1 ! p)) \<or> pn_state (pns ?s1 ! p) = notifyUserCallbackActive"
      unfolding st using that by (auto simp: callback_due_def)
    then have "settled ((upd_pn p (\<lambda>q. q\<lparr>cancelWait := True\<rparr>) ?s1)\<lparr>cancellers := cancellers ?s1 @ [(p, by)]\<rparr>)"
      using p by (intro block_settled [OF s1 p1]) (simp_all add: no_call_def)
    moreover have "?body ?s1 = dthen (upd_notify p (\<lambda>q. q\<lparr>cancelWait := True\<rparr>))
        (dmod (\<lambda>s. s\<lparr>cancellers := cancellers s @ [(p, by)]\<rparr>)) ?s1"
      using that pv by auto
    ultimately show ?thesis by (simp add: upd_notify_def run_dmod) (simp add: dmod_def settles_def)
  qed
  have "settles e ?s1 (?body ?s1)"
  proof (cases st)
    case notifyNotActive
    then show ?thesis using s1 by (simp add: settles_def dret_def)
  next
    case wait: notifyWaitForRestart
    note l = leave_ok [OF s1 p1 st [unfolded wait] r]
    have rl: "r < length (recs ?s1)" using sr(4) r by (simp add: place_ok_def Let_def)
    have "?body ?s1 = dthen (dbind (getr r ppn) (\<lambda>owner.
      dthen (dassert (owner \<noteq> None \<and> owner \<noteq> Some p)) (ellSafeDelete_restart r p)))
    (dthen (log_notify p Canceled) (notifyCleanup p)) ?s1"
      using wait pv by simp
    then show ?thesis
      using leave_run [OF rl p1 l(2-4)] l(1,5) by (simp add: settles_def)
  next
    case restart: notifyRestartInProgress
    have "in_progress (pn_state (pns ?s1 ! p))" unfolding st restart by (simp add: in_progress_def)
    from abort_settles [OF s1 p1 this r, of e] show ?thesis using restart pv by simp
  next
    case process: notifyProcessInProgress
    have "in_progress (pn_state (pns ?s1 ! p))" unfolding st process by (simp add: in_progress_def)
    from abort_settles [OF s1 p1 this r, of e] show ?thesis using process pv by simp
  next
    case notifyRestartCallbackRequested
    then show ?thesis by (rule block) simp
  next
    case notifyUserCallbackRequested
    then show ?thesis by (rule block) simp
  next
    case notifyUserCallbackActive
    then show ?thesis by (rule block) simp
  qed
  then show ?thesis unfolding step by (rule settles_trans [rotated]) simp
qed

end
