(* ===== verification/DbRun.thy ===== *)
theory DbRun
  imports DbNotifySettle
begin

text \<open>
  Histories of a lock set: scan tasks, puts by clients, the \<^verbatim>\<open>scanOnce\<close> task and the delayed
  callbacks process its records one after the other, and clients start and cancel process-notify
  requests. The depth to which \<^verbatim>\<open>dbProcess()\<close> recurs is bounded by the number of records, so that
  bound is the fuel of each operation.
\<close>

section \<open>Operations of the tasks\<close>

text \<open>
  A call of a client is made in its own thread or, with \<open>Some q\<close>, in the \<^verbatim>\<open>doneCallback\<close> of the
  request \<open>q\<close>. The last four are the callback task, the return of a \<^verbatim>\<open>doneCallback\<close>, and calls
  that wake up.
\<close>

datatype db_op =
  Scan_task nat | Client_put nat db_field dbr_put | Once_task | Callback_task nat
| Notify_start nat "nat option" | Notify_cancel nat "nat option"
| Notify_callback nat | Done_return nat | Start_resume nat | Cancel_resume nat

fun op_ok :: "nat \<Rightarrow> db_op \<Rightarrow> bool" where
  "op_ok N (Scan_task r) = (r < N)"
| "op_ok N (Client_put r f v) = (r < N)"
| "op_ok N _ = True"

text \<open>The thread in the \<^verbatim>\<open>doneCallback\<close> of \<open>q\<close> is blocked in a call.\<close>

definition blocked_in :: "db \<Rightarrow> nat \<Rightarrow> bool" where
  "blocked_in s q \<longleftrightarrow> Some q \<in> snd ` set (cancellers s) \<or> Some q \<in> snd ` set (restarters s)"

definition thread_free :: "db \<Rightarrow> nat option \<Rightarrow> bool" where
  "thread_free s by \<longleftrightarrow> (case by of None \<Rightarrow> True | Some q \<Rightarrow> q \<in> set (calling s) \<and> \<not> blocked_in s q)"

text \<open>
  A client starts a request that is not under way, and has one call on a request at a time; a
  blocked thread goes on when its event is signalled. An operation that is not enabled is not
  performed.
\<close>

fun op_enabled :: "db_op \<Rightarrow> db \<Rightarrow> bool" where
  "op_enabled (Notify_start p by) s \<longleftrightarrow> p < length (pns s) \<and> no_call s p \<and>
     (\<not> pvt (pns s ! p) \<or> pn_state (pns s ! p) = notifyUserCallbackActive) \<and> thread_free s by"
| "op_enabled (Notify_cancel p by) s \<longleftrightarrow> p < length (pns s) \<and> no_call s p \<and> thread_free s by"
| "op_enabled (Notify_callback i) s \<longleftrightarrow> i < length (notify_cbs s)"
| "op_enabled (Done_return p) s \<longleftrightarrow> p \<in> set (calling s) \<and> \<not> blocked_in s p"
| "op_enabled (Start_resume p) s \<longleftrightarrow> p \<in> fst ` set (restarters s) \<and> userCallbackEvent (pns s ! p)"
| "op_enabled (Cancel_resume p) s \<longleftrightarrow> p \<in> fst ` set (cancellers s) \<and> cancelEvent (pns s ! p)"
| "op_enabled _ s \<longleftrightarrow> True"

definition ok_after :: "unit dbm \<Rightarrow> db_status dbm" where
  "ok_after m = dbind m (\<lambda>_. dret OK)"

fun perform :: "env \<Rightarrow> nat \<Rightarrow> db_op \<Rightarrow> db_status dbm" where
  "perform e n (Scan_task r) = dbProcess e n r"
| "perform e n (Client_put r f v) = dbPutField e n r f v"
| "perform e n Once_task = onceTask e n"
| "perform e n (Callback_task i) = ProcessCallback e n i"
| "perform e n (Notify_start p by) = ok_after (dbProcessNotify e n p by)"
| "perform e n (Notify_cancel p by) = ok_after (dbNotifyCancel p by)"
| "perform e n (Notify_callback i) = ok_after (notifyCallback e n i)"
| "perform e n (Done_return p) = ok_after (callDone_end p)"
| "perform e n (Start_resume p) = ok_after (dbProcessNotify_resume e n p)"
| "perform e n (Cancel_resume p) = ok_after (dbNotifyCancel_resume p)"

definition run_op :: "env \<Rightarrow> nat \<Rightarrow> db_op \<Rightarrow> db_status dbm" where
  "run_op e n a = (\<lambda>s. if op_enabled a s then perform e n a s else Done OK s)"

fun run_ops :: "env \<Rightarrow> nat \<Rightarrow> db_op list \<Rightarrow> unit dbm" where
  "run_ops e n [] = dret ()"
| "run_ops e n (a # as) = dbind (run_op e n a) (\<lambda>_. run_ops e n as)"

section \<open>Each operation leaves the lock set settled\<close>

lemma ok_after_settles: "settles e s (m s) \<Longrightarrow> settles e s (ok_after m s)"
  unfolding ok_after_def by (rule settles_bind) (simp_all add: settles_def dret_def)

lemma settled_tasks:
  assumes "settled s"
  shows "p \<in> fst ` set (restarters s) \<Longrightarrow> p < length (pns s)" "p \<in> fst ` set (cancellers s) \<Longrightarrow> p < length (pns s)"
  using assms by (auto simp: settled_parts notify_ok_def reqs_but_def tasks_ok_def)

lemma run_op_settles:
  assumes s: "settled s" and a: "op_ok (length (recs s)) a" and n: "length (recs s) < n"
  shows "settles e s (run_op e n a s)"
proof (cases "op_enabled a s")
  case True
  then have "settles e s (perform e n a s)"
    using s a n
    by (cases a) (auto intro!: ok_after_settles dbProcess_settles dbPutField_settles onceTask_settles
        ProcessCallback_settles dbProcessNotify_settles dbNotifyCancel_settles notifyCallback_settles
        callDone_end_settles resume_settles cancel_resume_settles dest: settled_tasks)
  then show ?thesis using True by (simp add: run_op_def)
next
  case False
  then show ?thesis using s by (simp add: run_op_def settles_def)
qed

lemma run_ops_settles:
  "settled s \<Longrightarrow> \<forall>a \<in> set as. op_ok (length (recs s)) a \<Longrightarrow> length (recs s) < n \<Longrightarrow>
   settles e s (run_ops e n as s)"
proof (induction as arbitrary: s)
  case Nil
  then show ?case by (simp add: settles_def dret_def)
next
  case (Cons a as)
  have "settles e s (dbind (run_op e n a) (\<lambda>_. run_ops e n as) s)"
  proof (rule settles_bind, goal_cases)
    case 1
    show ?case using Cons.prems by (intro run_op_settles) auto
  next
    case (2 x s1)
    then have "length (recs s1) = length (recs s)" by (simp add: same_config_def)
    with 2 Cons.prems show ?case by (intro Cons.IH) auto
  qed
  then show ?case by simp
qed

end
