(* ===== verification/DbProps.thy ===== *)
theory DbProps
  imports DbRun CalcSafe
begin

text \<open>
  What record processing guarantees: it returns for every graph of links, leaves no request and
  no active record behind, and its programs do not fault. Two small databases show that the
  properties apply.
\<close>

section \<open>Completion of a delayed record\<close>

lemma calcout_done_idle:
  assumes "calcout_done e proc r s = Done st s'" "r < length (recs s')"
  shows "\<not> pact (recs s' ! r)"
proof -
  have last: "\<not> pact (recs t' ! r)"
    if "dthen (updr r (\<lambda>p. p\<lparr>pact := False\<rparr>)) (dret OK) t = Done x t'" "r < length (recs t')" for t t' x
    using that by (auto simp: dbm_defs)
  show ?thesis
    using assms unfolding calcout_done_def dthen_def [of "calcout_monitor e r"]
      dthen_def [of "recGblFwdLink e proc r"]
    by (elim dbind_Done) (rule last)
qed

lemma output_then_idle:
  assumes s: "ready N n r s" and co: "rset (recs s ! r) = calcoutRSET" "dset (recs s ! r) \<noteq> NO_DSET"
    and run: "output_then e (dbProcess e n) r (calcout_done e (dbProcess e n) r) s = Done st s'"
    and r: "r < length (recs s')"
  shows "\<not> pact (recs s' ! r)"
proof -
  let ?s0 = "upd_rec r (\<lambda>p. p\<lparr>pact := False\<rparr>) s"
  have f: "same_but_flags (\<lambda>p. p\<lparr>pact := False\<rparr>)" by (simp add: flags_simps)
  have s0: "ready N n r ?s0" by (rule ready_upd [OF f s])
  have rl: "r < length (recs s)" using s by (simp add: ready_def)
  have "output_then e (dbProcess e n) r (calcout_done e (dbProcess e n) r) s =
      dbind (execOutput e (dbProcess e n) r) (\<lambda>_. dbind (getr r pact) (\<lambda>active. if active then dret OK
      else dthen (updr r (\<lambda>p. p\<lparr>pact := True\<rparr>)) (calcout_done e (dbProcess e n) r))) ?s0"
    unfolding output_then_def by (subst run_updr) (simp add: dthen_def [of "execOutput e _ r"])
  with run obtain u s1 where ex: "execOutput e (dbProcess e n) r ?s0 = Done u s1"
    and rest: "dbind (getr r pact) (\<lambda>active. if active then dret OK
      else dthen (updr r (\<lambda>p. p\<lparr>pact := True\<rparr>)) (calcout_done e (dbProcess e n) r)) s1 = Done st s'"
    by (auto elim: dbind_Done)
  have "inner_run e r ?s0 (execOutput e (dbProcess e n) r ?s0)"
    using co rl by (intro dbp.execOutput_inner [OF s0]) simp
  then have i: "inner r ?s0 s1" using ex by (simp add: inner_run_def)
  have "config (recs s1 ! r) = config (recs ?s0 ! r)"
    using i rl by (simp add: inner_def around_def same_config_def del: recs_upd_rec)
  from unsupported_config [OF this] have "\<not> pact (recs s1 ! r)"
    using i co rl by (auto simp: inner_def unsupported_def)
  with rest have "calcout_done e (dbProcess e n) r (upd_rec r (\<lambda>p. p\<lparr>pact := True\<rparr>) s1) = Done st s'"
    by (simp add: run_getr run_updr)
  then show ?thesis using r by (rule calcout_done_idle)
qed

lemma calcout_continue_idle:
  assumes s: "ready N n r s"
    and co: "rset (recs s ! r) = calcoutRSET" "dset (recs s ! r) \<noteq> NO_DSET" "dlya (recs s ! r)"
    and run: "calcout_continue e (dbProcess e n) r s = Done st s'" and r: "r < length (recs s')"
  shows "\<not> pact (recs s' ! r)"
proof -
  let ?s0 = "upd_rec r (\<lambda>p. p\<lparr>dlya := False\<rparr>) s"
  have s0: "ready N n r ?s0" by (rule ready_upd [OF _ s]) (simp add: flags_simps)
  have rl: "r < N" "r < length (recs s)" using s by (auto simp: ready_def)
  obtain u s1 v s2 where m1: "recGblGetTimeStamp e (dbProcess e n) r ?s0 = Done u s1"
    and m2: "post_monitor r (Some DLYA) DBE_VALUE s1 = Done v s2"
    and rest: "output_then e (dbProcess e n) r (calcout_done e (dbProcess e n) r) s2 = Done st s'"
    using run co(3) unfolding calcout_continue_def run_getr dthen_def [of "recGblGetTimeStamp e _ r"]
      dthen_def [of "post_monitor r _ _"]
    by (auto simp: run_updr elim!: dbind_Done)
  have i1: "inner r ?s0 s1" "db_ok s1"
    using servesD [OF dbp.serves_timeStamp [OF rl(1), where e = e and e' = e] s0] m1 by (auto simp: inner_run_def)
  have s1: "ready N n r s1" by (rule ready_inner [OF s0 i1])
  have i2: "inner r s1 s2" "db_ok s2"
    using servesD [OF serves_simple [OF simple_post [of e N r "Some DLYA" DBE_VALUE]] s1] m2
    by (auto simp: inner_run_def)
  have s2: "ready N n r s2" by (rule ready_inner [OF s1 i2])
  have "config (recs s2 ! r) = config (recs ?s0 ! r)"
    using inner_trans [OF i1(1) i2(1)] rl
    by (simp add: inner_def around_def same_config_def del: recs_upd_rec)
  from config_fields(7,8) [OF this] show ?thesis
    using co rl by (intro output_then_idle [OF s2 _ _ rest r]) simp_all
qed

text \<open>A supported record that is active has a callback to come, which completes it.\<close>

definition supported :: "dbrec \<Rightarrow> bool" where
  "supported p \<longleftrightarrow> rset p = calcRSET \<or> rset p = calcoutRSET \<and> dset p = devCalcoutSoft"

definition completes :: "env \<Rightarrow> nat \<Rightarrow> db \<Rightarrow> 'a res \<Rightarrow> bool" where
  "completes e x s res \<longleftrightarrow>
     (case res of
        Done st s' \<Rightarrow> settled s' \<and> \<not> pact (recs s' ! x)
      | Crash f \<Rightarrow> may_crash e s f
      | NoFuel \<Rightarrow> False)"

lemma callback_completes:
  assumes s: "settled s" and x: "x < length (recs s)" "pact (recs s ! x)" "supported (recs s ! x)"
    and n: "length (recs s) < n"
  shows "\<exists>i < length (delayed s). delayed s ! i = x \<and> completes e x s (ProcessCallback e n i s)"
proof -
  have "waits s x" using s x by (simp add: settled_def)
  then have "x \<in> set (delayed s)" using x(3) by (auto simp: waits_def supported_def)
  then obtain i where i: "i < length (delayed s)" "delayed s ! i = x" by (metis in_set_conv_nth)
  let ?s1 = "s\<lparr>delayed := take i (delayed s) @ drop (Suc i) (delayed s)\<rparr>"
  have dl: "dlya (recs s ! x)"
    using s \<open>x \<in> set (delayed s)\<close> by (auto simp: settled_def db_ok_def delayed_ok_def)
  note c = callback_ready [OF s i(1) n, unfolded i(2)]
  have run: "ProcessCallback e n i s = calcout_continue e (dbProcess e n) x ?s1"
    using i c(2) x(2)
    by (simp add: ProcessCallback_def run_dget run_dmod run_getr rset_process_def calcout_process_def)
  have "\<not> pact (recs s' ! x)" if d: "ProcessCallback e n i s = Done st s'" for st s'
  proof (rule calcout_continue_idle [OF c(1)])
    show "calcout_continue e (dbProcess e n) x ?s1 = Done st s'" using d run by simp
    have "settles e s (Done st s')" using ProcessCallback_settles [OF s n, of e i] d by simp
    then show "x < length (recs s')" using x(1) by (simp add: settles_def same_config_def)
  qed (use c(2) x dl in \<open>auto simp: supported_def\<close>)
  then show ?thesis
    using i ProcessCallback_settles [OF s n, of e i]
    by (intro exI [of _ i]) (auto simp: completes_def settles_def split: res.splits)
qed

section \<open>Programs that do not fault\<close>

text \<open>The programs of the record were accepted by \<^verbatim>\<open>postfix()\<close>, without a colon; no alarm filter.\<close>

definition accepted :: "env \<Rightarrow> byte list \<Rightarrow> bool" where
  "accepted e prog \<longleftrightarrow>
     (\<exists>strtod p q src. postfix (fp e) strtod p q (Some src) = PfOk prog \<and> CHR '':'' \<notin> set src)"

definition sound_programs :: "env \<Rightarrow> db \<Rightarrow> bool" where
  "sound_programs e s \<longleftrightarrow> length (junk e) = 81 \<and>
     (\<forall>p \<in> set (recs s). accepted e (rpcl p) \<and> accepted e (orpc p) \<and> \<not> fp_lt (fp e) 0 (aftc p))"

lemma sound_programs_crash:
  assumes "sound_programs e s" "may_crash e s f"
  shows "f = Calc_fault DivisionTrap"
proof -
  obtain x where x: "x < length (recs s)" "rec_crash e (recs s ! x) f"
    using assms(2) by (auto simp: may_crash_def)
  then have p: "accepted e (rpcl (recs s ! x))" "accepted e (orpc (recs s ! x))"
    "\<not> fp_lt (fp e) 0 (aftc (recs s ! x))" "length (junk e) = 81"
    using assms(1) by (auto simp: sound_programs_def)
  then show ?thesis
    using x(2) accepted_code_faults unfolding rec_crash_def accepted_def by metis
qed

section \<open>Databases to run\<close>

text \<open>
  Doubles are small integers here, on which the IEEE operations are exact; the words are their
  two's complement.
\<close>

definition int_fp :: fp_ops where
  "int_fp =
     \<lparr>fp_eq = (=), fp_lt = (\<lambda>x y. sint x < sint y), fp_isnan = (\<lambda>_. False),
      fp_finite = (\<lambda>_. True), fp_isinf = (\<lambda>_. 0), fp_of_int32 = signed, fp_to_int32 = unsigned,
      fp_to_uint32 = unsigned,
      fp_arith = (\<lambda>op x y. if op = ADD then x + y else if op = MULT then x * y
        else if op = DIV then word_of_int (sint x sdiv sint y) else x - y),
      fp_math = (\<lambda>op x. if op = UNARY_NEG then - x
        else if op = ABS_VAL then (if sint x < 0 then - x else x) else x),
      fp_const = (\<lambda>_. 3), fp_nint_half = id, fp_random = unsigned, fp_nan = 0\<rparr>"

text \<open>The clock returns the seconds of the list.\<close>

definition clock_env :: "uint32 list \<Rightarrow> env" where
  "clock_env secs =
     \<lparr>fp = int_fp, fp_inf = 1000000, fp_threshold = 0, fp_floor_int = sint,
      fp_to_int16 = unsigned, fp_to_uint8 = unsigned, junk = replicate 81 0,
      time_event = (\<lambda>ev n. if n < length secs then Some \<lparr>secPastEpoch = secs ! n, nsec = 0\<rparr> else None),
      time_diff = (\<lambda>a b. word_of_int (sint (secPastEpoch a) - sint (secPastEpoch b))),
      onceQueueSize = 10\<rparr>"

text \<open>A passive \<^verbatim>\<open>calc\<close> record for \<^verbatim>\<open>A\<close>, without links.\<close>

definition blank :: dbrec where
  "blank =
     \<lparr>scan = 0, pact = False, putf = False, rpro = False, lcnt = 0, disp_f = 0, proc_f = 0,
      disa = 0, disv = 1, diss = 0, stat = 0, sevr = 0, nsta = 0, nsev = 0, acks = 0, ackt = 1,
      udf = False, udfs = 3, tse = 0, tse_time = False, time = \<lparr>secPastEpoch = 0, nsec = 0\<rparr>,
      sdis = CONST_LINK, tsel = CONST_LINK, flnk = CONST_LINK, mlis = 0, rset = calcRSET,
      dset = devCalcoutSoft, ppn = None, wait_on = False, restartList = [],
      val = 0, rpcl = [4, 0], inp = replicate 12 CONST_LINK, args = replicate 12 0,
      la = replicate 12 0, hihi = 0, lolo = 0, high = 0, low = 0, hhsv = 0, llsv = 0, hsv = 0,
      lsv = 0, aftc = 0, afvl = 0, hyst = 0, adel = 0, mdel = 0, lalm = 0, alst = 0, mlst = 0,
      pval = 0, oval = 0, povl = 0, out = CONST_LINK, oopt = 0, odly = 0, dlya = False, dopt = 0,
      orpc = [4, 0], epvt = None, ivoa = 0, ivov = 0\<rparr>"

definition fresh :: "dbrec list \<Rightarrow> db" where
  "fresh rs = \<lparr>recs = rs, pns = [], notify_cbs = [], posts = [], onceQ = [], delayed = [],
     soft_events = [], ticks = 0, calc_seed = 1, calling = [], cancellers = [], restarters = [],
     notify_log = []\<rparr>"

lemma settled_fresh:
  assumes "\<And>p. p \<in> set rs \<Longrightarrow> rec_ok (length rs) p \<and> \<not> pact p \<and> \<not> putf p \<and> \<not> rpro p \<and>
    ppn p = None \<and> \<not> wait_on p \<and> restartList p = []"
  shows "settled (fresh rs)"
proof -
  have "notify_ok (fresh rs)"
    using assms by (simp add: notify_ok_def book_ok_def reqs_but_def tasks_ok_def notify_defs fresh_def)
  moreover have "delayed_ok (fresh rs)" by (simp add: delayed_ok_def fresh_def)
  ultimately show ?thesis
    using assms by (auto simp: settled_def db_ok_def at_rest_def fresh_def)
qed

text \<open>Two \<^verbatim>\<open>calc\<close> records that point to each other.\<close>

definition loop_db :: db where
  "loop_db = fresh [blank\<lparr>flnk := DB_LINK 1 PROC False NMS\<rparr>, blank\<lparr>flnk := DB_LINK 0 PROC False NMS\<rparr>]"

text \<open>A delayed record and its successor, which is delayed, too, and reads its value.\<close>

definition chain_db :: db where
  "chain_db = fresh
     [blank\<lparr>rset := calcoutRSET, odly := 1, flnk := DB_LINK 1 PROC False NMS\<rparr>,
      blank\<lparr>rset := calcoutRSET, odly := 1, inp := DB_LINK 0 VAL False NMS # replicate 11 CONST_LINK\<rparr>]"

definition seconds :: env where
  "seconds = clock_env (map of_nat [1..<30])"

lemmas db_eval = rec_ok_def link_ok_def blank_def CALC_NARGS_def less_Suc_eq numeral_eq_Suc

lemma settled_loop_db: "settled loop_db"
  unfolding loop_db_def by (rule settled_fresh) (auto simp: db_eval)

lemma settled_chain_db: "settled chain_db"
  unfolding chain_db_def by (rule settled_fresh) (auto simp: db_eval)

section \<open>Properties\<close>

text \<open>
  C1: processing returns for every database, also when its links form cycles: the depth of the
  recursion is at most the number of records. Whatever sequence of scans, puts, queued requests,
  callbacks and calls of process-notify clients a settled lock set goes through, the run ends
  settled, with no assertion of the process-notify bookkeeping failed; only the program or the
  alarm filter of a record can fault.
\<close>

theorem processing_returns:
  assumes "settled s" "\<forall>a \<in> set as. op_ok (length (recs s)) a" "length (recs s) < n"
  shows "(\<exists>s'. run_ops e n as s = Done () s' \<and> settled s' \<and> same_config s s') \<or>
    (\<exists>f. run_ops e n as s = Crash f \<and> may_crash e s f)"
  using run_ops_settles [OF assms, of e] by (auto simp: settles_def split: res.splits)

theorem processing_returns_witness:
  "\<exists>s'. run_ops seconds 3 [Client_put 0 PROC (Put_short 1), Once_task] loop_db = Done () s' \<and> settled s'"
proof -
  have "run_ops seconds 3 [Client_put 0 PROC (Put_short 1), Once_task] loop_db \<noteq> Crash f" for f
  proof -
    have "case run_ops seconds 3 [Client_put 0 PROC (Put_short 1), Once_task] loop_db of
        Done u s \<Rightarrow> True | _ \<Rightarrow> False"
      by code_simp
    then show ?thesis by auto
  qed
  moreover have "length (recs loop_db) = 2" by (simp add: loop_db_def fresh_def)
  ultimately show ?thesis
    using processing_returns [OF settled_loop_db, of "[Client_put 0 PROC (Put_short 1), Once_task]" 3 seconds]
    by auto
qed

text \<open>
  C2: the contract that the comment at the head of \<^verbatim>\<open>dbDbLink.c\<close> states: after any sequence of
  operations a record that is not active has \<^verbatim>\<open>PUTF\<close> and \<^verbatim>\<open>RPRO\<close> clear, so no request to process
  it again is left behind on the record.
\<close>

theorem idle_records_clean:
  assumes "settled s" "\<forall>a \<in> set as. op_ok (length (recs s)) a" "length (recs s) < n"
    and "run_ops e n as s = Done () s'" "x < length (recs s)" "\<not> pact (recs s' ! x)"
  shows "\<not> putf (recs s' ! x) \<and> \<not> rpro (recs s' ! x)"
  using run_ops_settles [OF assms(1-3), of e] assms(4-6)
  by (auto simp: settles_def settled_def same_config_def at_rest_def)

theorem idle_records_clean_witness:
  "\<exists>s'. run_ops seconds 3 [Client_put 0 PROC (Put_short 1)] chain_db = Done () s' \<and>
     \<not> putf (recs s' ! 1) \<and> \<not> rpro (recs s' ! 1)"
proof -
  have "case run_ops seconds 3 [Client_put 0 PROC (Put_short 1)] chain_db of
      Done u s \<Rightarrow> \<not> pact (recs s ! 1) | _ \<Rightarrow> False"
    by code_simp
  then obtain s' where run: "run_ops seconds 3 [Client_put 0 PROC (Put_short 1)] chain_db = Done () s'"
    and "\<not> pact (recs s' ! 1)"
    by (auto split: res.splits)
  moreover have "length (recs chain_db) = 2" by (simp add: chain_db_def fresh_def)
  ultimately show ?thesis
    using idle_records_clean [OF settled_chain_db _ _ run, of 1] by auto
qed

text \<open>
  C3: no record stays active for ever. When a lock set has come to rest after any sequence of
  operations, each active record that has its support has a delayed callback to come. When this
  callback runs it returns with the record inactive and the lock set at rest, or else the program
  or the alarm filter of some record of the lock set has faulted. If all programs are as in the
  next property, the record completes unless a program traps on \<open>INT_MIN % -1\<close>.
\<close>

theorem active_records_complete:
  assumes "settled s" "\<forall>a \<in> set as. op_ok (length (recs s)) a" "length (recs s) < n"
    and "run_ops e n as s = Done () s'"
    and "x < length (recs s)" "pact (recs s' ! x)" "supported (recs s' ! x)"
  shows "\<exists>i < length (delayed s'). delayed s' ! i = x \<and>
    ((\<exists>st t. ProcessCallback e n i s' = Done st t \<and> settled t \<and> \<not> pact (recs t ! x)) \<or>
     (\<exists>f. ProcessCallback e n i s' = Crash f \<and> may_crash e s f \<and>
        (sound_programs e s \<longrightarrow> f = Calc_fault DivisionTrap)))"
proof -
  have s': "settled s'" "same_config s s'"
    using run_ops_settles [OF assms(1-3), of e] assms(4) by (auto simp: settles_def)
  then have "length (recs s') = length (recs s)" by (simp add: same_config_def)
  then obtain i where i: "i < length (delayed s')" "delayed s' ! i = x"
    "completes e x s' (ProcessCallback e n i s')"
    using callback_completes [OF s'(1), of x n e] assms(3,5-7) by auto
  show ?thesis
  proof (cases "ProcessCallback e n i s'")
    case (Crash f)
    then have "may_crash e s' f" using i(3) by (simp add: completes_def)
    then have "may_crash e s f" by (rule may_crash_config [OF s'(2)])
    then show ?thesis using Crash i(1,2) sound_programs_crash [of e s f] by auto
  qed (use i in \<open>auto simp: completes_def\<close>)
qed

theorem active_records_complete_witness:
  "\<exists>s'. run_ops seconds 3 [Client_put 0 PROC (Put_short 1)] chain_db = Done () s' \<and>
     (\<exists>i < length (delayed s'). delayed s' ! i = 0 \<and>
        ((\<exists>st t. ProcessCallback seconds 3 i s' = Done st t \<and> settled t \<and> \<not> pact (recs t ! 0)) \<or>
         (\<exists>f. ProcessCallback seconds 3 i s' = Crash f)))"
proof -
  have "case run_ops seconds 3 [Client_put 0 PROC (Put_short 1)] chain_db of
      Done u s \<Rightarrow> pact (recs s ! 0) \<and> rset (recs s ! 0) = calcoutRSET \<and>
        dset (recs s ! 0) = devCalcoutSoft | _ \<Rightarrow> False"
    by code_simp
  then obtain s' where run: "run_ops seconds 3 [Client_put 0 PROC (Put_short 1)] chain_db = Done () s'"
    and "pact (recs s' ! 0)" "supported (recs s' ! 0)"
    by (auto simp: supported_def split: res.splits)
  moreover have "length (recs chain_db) = 2" by (simp add: chain_db_def fresh_def)
  ultimately show ?thesis
    using active_records_complete [OF settled_chain_db _ _ run, of 0] by auto
qed

text \<open>
  C4: records whose programs \<^verbatim>\<open>postfix()\<close> made of expressions without a colon, and which do not
  filter their alarms, never make processing fail, except for the division trap of
  \<open>INT_MIN % -1\<close>.
\<close>

theorem accepted_programs_process:
  assumes "settled s" "\<forall>a \<in> set as. op_ok (length (recs s)) a" "length (recs s) < n"
    and "sound_programs e s"
  shows "(\<exists>s'. run_ops e n as s = Done () s') \<or>
    run_ops e n as s = Crash (Calc_fault DivisionTrap)"
  using run_ops_settles [OF assms(1-3), of e] sound_programs_crash [OF assms(4)]
  by (auto simp: settles_def split: res.splits)

theorem accepted_programs_process_witness:
  "(\<exists>s'. run_ops seconds 3 [Scan_task 0, Callback_task 0] chain_db = Done () s') \<or>
    run_ops seconds 3 [Scan_task 0, Callback_task 0] chain_db = Crash (Calc_fault DivisionTrap)"
proof (rule accepted_programs_process [OF settled_chain_db])
  have "postfix int_fp (\<lambda>_. (0, 0, False)) True True (Some ''A'') = PfOk [4, 0]" by code_simp
  then have "accepted seconds [4, 0]"
    unfolding accepted_def by (intro exI) (auto simp: seconds_def clock_env_def)
  then show "sound_programs seconds chain_db"
    by (auto simp: sound_programs_def chain_db_def fresh_def blank_def seconds_def clock_env_def int_fp_def)
qed (simp_all add: chain_db_def fresh_def)

end
