(* ===== verification/DbNotifyProps.thy ===== *)
theory DbNotifyProps
  imports DbProps
begin

text \<open>
  What clients of process-notify can rely on: no request is forgotten, each has one outcome, and
  what becomes of a call that a client makes in the \<^verbatim>\<open>doneCallback\<close> of the same request.
\<close>

section \<open>At rest\<close>

text \<open>Nothing is left to do for the tasks of the IOC and of the clients.\<close>

definition tasks_idle :: "db \<Rightarrow> bool" where
  "tasks_idle s \<longleftrightarrow> delayed s = [] \<and> notify_cbs s = [] \<and> calling s = []"

lemma idle_no_wait:
  assumes s: "settled s" and idle: "tasks_idle s" and sup: "\<forall>c \<in> set (recs s). supported c"
    and x: "x < length (recs s)"
  shows "\<not> pact (recs s ! x)" "\<not> wait_on (recs s ! x)"
proof -
  have "supported (recs s ! x)" using sup x by simp
  then have "\<not> waits s x" using idle by (auto simp: waits_def tasks_idle_def supported_def)
  then show "\<not> pact (recs s ! x)" using s x by (auto simp: settled_def)
  then show "\<not> wait_on (recs s ! x)" using s x by (auto simp: settled_def at_rest_def)
qed

lemma idle_unowned:
  assumes s: "settled s" and idle: "tasks_idle s" and sup: "\<forall>c \<in> set (recs s). supported c"
    and x: "x < length (recs s)"
  shows "ppn (recs s ! x) = None" "restartList (recs s ! x) = []"
proof -
  have own: "owner_ok s x" using s x by (simp add: settled_parts notify_ok_def book_ok_def)
  show none: "ppn (recs s ! x) = None"
  proof (cases "ppn (recs s ! x)")
    case (Some p)
    then have p: "p < length (pns s)" "may_own (pns s ! p) x" "\<not> in_progress (pn_state (pns s ! p))"
      using own idle_no_wait(2) [OF assms] by (auto simp: owner_ok_def)
    have rcr: "pn_state (pns s ! p) = notifyRestartCallbackRequested"
      using p(2,3) by (auto simp: may_own_def in_progress_def)
    have "place_ok s p" by (rule settled_request(4) [OF s p(1)])
    then have "cancelEvent (pns s ! p)" "cancelEvent (pns s ! p) \<longrightarrow> ppn (recs s ! x) \<noteq> Some p"
      using rcr idle x by (auto simp: place_ok_def callback_due_def tasks_idle_def Let_def)
    then show ?thesis using Some by simp
  qed
  show "restartList (recs s ! x) = []" using own none by (simp add: owner_ok_def)
qed

text \<open>The request is not in use, or the client's blocked call on it has its event.\<close>

definition answered :: "db \<Rightarrow> nat \<Rightarrow> bool" where
  "answered s p \<longleftrightarrow> pn_state (pns s ! p) = notifyNotActive \<or>
     op_enabled (Start_resume p) s \<or> op_enabled (Cancel_resume p) s"

lemma idle_answered:
  assumes s: "settled s" and idle: "tasks_idle s" and sup: "\<forall>c \<in> set (recs s). supported c"
    and p: "p < length (pns s)"
  shows "answered s p" "\<not> outstanding (pns s ! p)"
proof -
  let ?n = "pns s ! p"
  note sr = settled_request [OF s p]
  have chan: "pn_chan ?n < length (recs s)" using sr(4) by (simp add: place_ok_def Let_def)
  have wait: "pn_state ?n \<noteq> notifyWaitForRestart"
    using sr(4) idle_unowned(2) [OF s idle sup chan] by (auto simp: place_ok_def Let_def)
  have "waits_ok {} s p" using sr(1) p by (simp add: book_ok_def)
  then have "set (waitList ?n) = {}" using idle_unowned(1) [OF s idle sup] by (auto simp: waits_ok_def)
  then have nip: "\<not> in_progress (pn_state ?n)" using sr(4) by (auto simp: place_ok_def Let_def)
  have due: "callback_due (pn_state ?n) \<Longrightarrow> cancelEvent ?n"
    using sr(4) idle by (auto simp: place_ok_def tasks_idle_def Let_def)
  have act: "pn_state ?n = notifyUserCallbackActive \<Longrightarrow> cancelEvent ?n \<or> userCallbackEvent ?n"
    using sr(5) idle by (auto simp: client_ok_def tasks_idle_def Let_def)
  show "\<not> outstanding ?n" using wait nip due by (auto simp: outstanding_def)
  have c: "cancelEvent ?n \<Longrightarrow> p \<in> fst ` set (cancellers s)"
    using sr(5) unfolding client_ok_def Let_def by blast
  have u: "userCallbackEvent ?n \<Longrightarrow> p \<in> fst ` set (restarters s)"
    using sr(5) unfolding client_ok_def Let_def by blast
  show "answered s p"
    using wait nip due act c u
    by (cases "pn_state ?n") (auto simp: answered_def callback_due_def in_progress_def)
qed

section \<open>Outcomes\<close>

lemma under_way_counts:
  "under_way l = Some b \<Longrightarrow>
   count_list l Requested = count_list l Completed + count_list l Canceled + (if b then 1 else 0)"
proof (induction l arbitrary: b rule: rev_induct)
  case (snoc ev l)
  then obtain b' where b': "under_way l = Some b'" "step_event (Some b') ev = Some b"
    by (cases "under_way l") auto
  then show ?case using snoc.IH [OF b'(1)] by (cases b'; cases ev) auto
qed simp

section \<open>Calls inside the own callback\<close>

text \<open>Operations that end no call.\<close>

definition grows :: "'a dbm \<Rightarrow> bool" where
  "grows m \<longleftrightarrow> (\<forall>s x s'. m s = Done x s' \<longrightarrow> set (calling s) \<subseteq> set (calling s') \<and>
     set (cancellers s) \<subseteq> set (cancellers s') \<and> set (restarters s) \<subseteq> set (restarters s'))"

named_theorems grows_rules \<open>rules for operations that end no call\<close>

lemma grows_bind [grows_rules]:
  assumes "grows m" "\<And>x. grows (k x)"
  shows "grows (dbind m k)"
  unfolding grows_def
proof (intro allI impI)
  fix s x s' assume "dbind m k s = Done x s'"
  then obtain y t where "m s = Done y t" "k y t = Done x s'" by (rule dbind_Done)
  then show "set (calling s) \<subseteq> set (calling s') \<and>
     set (cancellers s) \<subseteq> set (cancellers s') \<and> set (restarters s) \<subseteq> set (restarters s')"
    using assms unfolding grows_def by blast
qed

lemma grows_then [grows_rules]: "grows m \<Longrightarrow> grows k \<Longrightarrow> grows (dthen m k)"
  unfolding dthen_def by (rule grows_bind)

lemma grows_dmod:
  assumes "\<And>s. set (calling s) \<subseteq> set (calling (f s))" "\<And>s. set (cancellers s) \<subseteq> set (cancellers (f s))"
    "\<And>s. set (restarters s) \<subseteq> set (restarters (f s))"
  shows "grows (dmod f)"
  using assms by (simp add: grows_def dmod_def)

lemma grows_prims [grows_rules]:
  "grows (dret x)" "grows (dget f)" "grows (getr r g)" "grows (get_pn p h)" "grows (dcrash c)"
  "grows (dassert b)" "grows (updr r g')" "grows (upd_notify p h')" "grows (set_state p st)"
  "grows (post_monitor r fd m)" "grows (callbackRequest p)" "grows (log_notify p ev)"
  by (simp_all add: grows_def dbm_defs get_pn_def upd_notify_def set_state_def callbackRequest_def
      log_notify_def)

lemma grows_when [grows_rules]: "grows m \<Longrightarrow> grows (dwhen b m)"
  by (simp add: dwhen_def grows_rules)

lemma grows_if [grows_rules]: "grows m \<Longrightarrow> grows k \<Longrightarrow> grows (if b then m else k)"
  by simp

lemma grows_mods [grows_rules]:
  "grows (dmod (upd_pn p h))" "grows (dmod (\<lambda>s. s\<lparr>onceQ := q\<rparr>))" "grows (dmod (\<lambda>s. s\<lparr>ticks := k\<rparr>))"
  "grows (dmod (\<lambda>s. s\<lparr>calc_seed := w\<rparr>))" "grows (dmod (\<lambda>s. s\<lparr>soft_events := soft_events s @ [k]\<rparr>))"
  "grows (dmod (\<lambda>s. s\<lparr>delayed := delayed s @ [r]\<rparr>))" "grows (dmod (\<lambda>s. s\<lparr>delayed := d\<rparr>))"
  "grows (dmod (\<lambda>s. s\<lparr>notify_cbs := cbs\<rparr>))" "grows (dmod (\<lambda>s. s\<lparr>calling := p # calling s\<rparr>))"
  "grows (dmod (\<lambda>s. s\<lparr>cancellers := cancellers s @ [c]\<rparr>))"
  "grows (dmod (\<lambda>s. s\<lparr>restarters := restarters s @ [c]\<rparr>))"
  by (auto intro!: grows_dmod)

lemma grows_list [grows_rules]:
  "grows a \<Longrightarrow> (\<And>x xs. grows (b x xs)) \<Longrightarrow> grows (case l of [] \<Rightarrow> a | x # xs \<Rightarrow> b x xs)"
  "grows a' \<Longrightarrow> (\<And>y. grows (b' y)) \<Longrightarrow> grows (case opt of None \<Rightarrow> a' | Some y \<Rightarrow> b' y)"
  "(\<And>y z. grows (c y z)) \<Longrightarrow> grows (case pr of (y, z) \<Rightarrow> c y z)"
  by (simp_all split: list.split option.split prod.split)

lemma grows_notify [grows_rules]:
  "grows (ellSafeAdd_wait p r)" "grows (ellSafeDelete_wait p r)" "grows (ellSafeAdd_restart r p)"
  "grows (ellSafeDelete_restart r p)"
  unfolding ellSafeAdd_wait_def ellSafeDelete_wait_def ellSafeAdd_restart_def ellSafeDelete_restart_def
  by (intro grows_rules)+

lemma grows_restartCheck [grows_rules]: "grows (restartCheck r)"
  unfolding restartCheck_def by (intro grows_rules)

lemma grows_completion [grows_rules]: "grows (dbNotifyCompletion r)"
  unfolding dbNotifyCompletion_def by (intro grows_rules)

lemma grows_add [grows_rules]: "grows (dbNotifyAdd r t)"
  unfolding dbNotifyAdd_def by (intro grows_rules)

lemma grows_alarms [grows_rules]:
  "grows (recGblSetSevr r st sv)" "grows (raise_sevr r st sv)" "grows (recGblInheritSevr ms r st sv)"
  "grows (recGblResetAlarms r)"
proof -
  show *: "grows (recGblSetSevr r st sv)" for st sv
    unfolding recGblSetSevr_def by (intro grows_rules)
  show raise: "grows (raise_sevr r st sv)" for st sv
    unfolding raise_sevr_def by (intro grows_rules *)
  show "grows (recGblInheritSevr ms r st sv)"
    unfolding recGblInheritSevr_def by (cases ms; simp only: ms_mode.case; intro grows_rules raise)
  show "grows (recGblResetAlarms r)" unfolding recGblResetAlarms_def Let_def by (intro grows_rules)
qed

lemma grows_dbPut [grows_rules]: "grows (dbPut e r f v)"
  unfolding dbPut_def putAckt_def putAcks_def
  by (cases v; simp only: dbr_put.case; intro grows_rules)

lemma grows_scanOnce [grows_rules]: "grows (scanOnce e r)"
  unfolding scanOnce_def by (intro grows_rules)

lemma grows_monitor_inputs [grows_rules]: "grows (monitor_inputs e r m is)"
  by (induction "is") (simp_all, (intro grows_rules | assumption)+)

lemma grows_monitors [grows_rules]: "grows (calc_monitor e r)" "grows (calcout_monitor e r)"
  unfolding calcout_monitor_def calc_monitor_def Let_def by (intro grows_rules)+

lemma grows_checks [grows_rules]:
  "grows (calc_checkAlarms e r ts)" "grows (raise_limit r st sv lev)" "grows (calcout_checkAlarms e r)"
  unfolding calc_checkAlarms_def calcout_checkAlarms_def raise_limit_def Let_def
  by (intro grows_rules)+

lemma grows_perform [grows_rules]: "grows (calc_perform e r prog getv setv)"
  unfolding calc_perform_def
  by (intro grows_rules) (auto split: calc_outcome.split intro!: grows_rules)

lemma grows_evaluate [grows_rules]: "grows (calc_evaluate e r)" "grows (output_data e r)"
  unfolding calc_evaluate_def output_data_def by (intro grows_rules)+

lemma grows_process_active [grows_rules]:
  "grows (process_active r)" "grows (notify_if_owned r)" "grows (process_disabled r)"
  unfolding process_active_def process_disabled_def notify_if_owned_def by (intro grows_rules)+

lemma grows_target [grows_rules]: "(\<And>t. grows (proc t)) \<Longrightarrow> grows (processTarget proc r t)"
  unfolding processTarget_def by (intro grows_rules)

lemma grows_links [grows_rules]:
  assumes "\<And>t. grows (proc t)"
  shows "grows (dbScanPassive proc r t)" "grows (dbGetLink proc r lk)" "grows (dbPutLink e proc r lk v)"
    "grows (dbScanFwdLink proc r lk)"
  unfolding dbScanPassive_def dbGetLink_def dbTryGetLink_def dbDbGetValue_def dbPutLink_def
    dbDbPutValue_def dbScanFwdLink_def
  by (cases lk; (simp only: link.case)?; intro grows_rules assms)+

lemma grows_fwdLink [grows_rules]:
  "(\<And>t. grows (proc t)) \<Longrightarrow> grows (recGblFwdLink e proc r)"
  unfolding recGblFwdLink_def by (intro grows_rules)

lemma grows_timeStamp [grows_rules]:
  assumes "\<And>t. grows (proc t)"
  shows "grows (recGblGetTimeStamp e proc r)"
  unfolding recGblGetTimeStamp_def
  by (intro grows_rules) (auto split: prod.split link.split bool.split intro!: grows_rules assms)

lemma grows_fetch [grows_rules]:
  assumes "\<And>t. grows (proc t)"
  shows "grows (fetch_values e proc r)"
proof -
  have "grows (fetch_from e proc r is st)" for "is" st
    by (induction "is" arbitrary: st) (simp_all, (intro grows_rules assms | assumption)+)
  then show ?thesis by (simp add: fetch_values_def)
qed

lemma grows_calc [grows_rules]:
  assumes "\<And>t. grows (proc t)"
  shows "grows (calc_process e proc r)"
  unfolding calc_process_def by (intro grows_rules assms)

lemma grows_output [grows_rules]:
  assumes "\<And>t. grows (proc t)"
  shows "grows (writeValue e proc r)" "grows (write_and_post e proc r)" "grows (execOutput e proc r)"
  unfolding writeValue_def write_and_post_def execOutput_def write_calcout_def
  by (intro grows_rules assms, (auto split: dset.split intro!: grows_rules assms)?)+

lemma grows_calcout [grows_rules]:
  assumes "\<And>t. grows (proc t)"
  shows "grows (calcout_process e proc r)"
proof -
  have fin: "grows (calcout_done e proc r)"
    unfolding calcout_done_def by (intro grows_rules assms)
  have out: "grows m \<Longrightarrow> grows (output_then e proc r m)" for m
    unfolding output_then_def by (intro grows_rules assms)
  show ?thesis
    unfolding calcout_process_def calcout_start_def calcout_continue_def
    by (intro grows_rules assms fin out)
qed

lemma grows_body [grows_rules]:
  assumes "\<And>t. grows (proc t)"
  shows "grows (rset_process e proc rs r)" "grows (dbProcess_body e proc r)"
proof -
  show *: "grows (rset_process e proc rs r)" for rs
    unfolding rset_process_def by (cases rs; simp only: rset.case; intro grows_rules assms)
  show "grows (dbProcess_body e proc r)"
    unfolding dbProcess_body_def by (intro grows_rules assms *)
qed

lemma grows_dbProcess [grows_rules]: "grows (dbProcess e n r)"
proof (induction n arbitrary: r)
  case 0
  show ?case by (simp add: grows_def)
next
  case (Suc n)
  show ?case by (simp only: dbProcess.simps) (intro grows_rules Suc)
qed

lemma grows_tasks [grows_rules]:
  "grows (dbPutField e n r f v)" "grows (onceTask e n)" "grows (ProcessCallback e n i)"
  unfolding dbPutField_def onceTask_def ProcessCallback_def by (intro grows_rules)+

lemma grows_put [grows_rules]: "grows (notify_put e n p r)"
  unfolding notify_put_def write_notify_put_callback_def db_put_process_def by (intro grows_rules)

lemma grows_callDone [grows_rules]: "grows (callDone_begin p)"
  unfolding callDone_begin_def getCallback_def by (intro grows_rules)

lemma grows_common [grows_rules]: "grows (processNotifyCommon e n p r)"
  unfolding processNotifyCommon_def by (intro grows_rules)

lemma grows_start [grows_rules]: "grows (dbProcessNotify_start e n p)" "grows (notifyCleanup p)"
  unfolding dbProcessNotify_start_def notifyInit_def notifyCleanup_def by (intro grows_rules)+

lemma grows_cancel_waits [grows_rules]: "grows (cancel_waits p xs)"
  by (induction xs) (simp_all only: cancel_waits.simps, (intro grows_rules | assumption)+)

lemma grows_client [grows_rules]:
  "grows (notifyCallback e n i)" "grows (dbProcessNotify e n p by)" "grows (dbNotifyCancel p by)"
  unfolding notifyCallback_def dbProcessNotify_def dbNotifyCancel_def Let_def by (intro grows_rules)+

text \<open>The thread that runs the \<^verbatim>\<open>doneCallback\<close> of \<open>p\<close> waits for the end of \<open>p\<close>.\<close>

definition stuck :: "db \<Rightarrow> nat \<Rightarrow> bool" where
  "stuck s p \<longleftrightarrow> p \<in> set (calling s) \<and>
     ((p, Some p) \<in> set (cancellers s) \<or> (p, Some p) \<in> set (restarters s))"

lemma stuck_grows: "grows m \<Longrightarrow> m s = Done x s' \<Longrightarrow> stuck s p \<Longrightarrow> stuck s' p"
  unfolding grows_def stuck_def by blast

lemma stuck_dmod_then:
  assumes "dthen (dmod f) k s = Done x s'" "grows k" "stuck s p \<Longrightarrow> stuck (f s) p" "stuck s p"
  shows "stuck s' p"
  using assms stuck_grows [of k "f s" x s' p] by (simp add: run_dmod)

lemma stuck_request:
  assumes s: "settled s" and p: "stuck s p"
  shows "p < length (pns s)" "pn_state (pns s ! p) = notifyUserCallbackActive" "blocked_in s p"
    "\<not> cancelEvent (pns s ! p)" "\<not> userCallbackEvent (pns s ! p)"
proof -
  have c: "p \<in> set (calling s)" using p by (simp add: stuck_def)
  show pl: "p < length (pns s)"
    using s c by (auto simp: settled_parts notify_ok_def reqs_but_def tasks_ok_def)
  show "blocked_in s p" using p by (force simp: stuck_def blocked_in_def)
  show "pn_state (pns s ! p) = notifyUserCallbackActive"
    "\<not> cancelEvent (pns s ! p)" "\<not> userCallbackEvent (pns s ! p)"
    using settled_request(5) [OF s pl] c unfolding client_ok_def Let_def by blast+
qed

lemma stuck_run_op:
  assumes s: "settled s" and p: "stuck s p" and run: "run_op e n a s = Done x s'"
  shows "stuck s' p"
proof (cases "op_enabled a s")
  case True
  note st = stuck_request [OF s p]
  have run': "perform e n a s = Done x s'" using run True by (simp add: run_op_def)
  have ok: "stuck s' p" if "ok_after m s = Done x s'" "\<And>y. m s = Done y s' \<Longrightarrow> stuck s' p" for m
    using that by (auto simp: ok_after_def dret_def elim!: dbind_Done)
  show ?thesis
  proof (cases a)
    case (Done_return q)
    then have q: "q \<noteq> p" using True st(3) by auto
    show ?thesis
    proof (rule ok)
      show "ok_after (callDone_end q) s = Done x s'" using run' Done_return by simp
      show "stuck s' p" if "callDone_end q s = Done y s'" for y
        using that unfolding callDone_end_def
        by (rule stuck_dmod_then) (use p q in \<open>auto intro!: grows_rules simp: stuck_def\<close>)
    qed
  next
    case (Start_resume q)
    then have q: "q \<noteq> p" using True st(5) by auto
    show ?thesis
    proof (rule ok)
      show "ok_after (dbProcessNotify_resume e n q) s = Done x s'" using run' Start_resume by simp
      show "stuck s' p" if "dbProcessNotify_resume e n q s = Done y s'" for y
        using that unfolding dbProcessNotify_resume_def
        by (rule stuck_dmod_then) (use p q in \<open>auto intro!: grows_rules simp: stuck_def\<close>)
    qed
  next
    case (Cancel_resume q)
    then have q: "q \<noteq> p" using True st(4) by auto
    show ?thesis
    proof (rule ok)
      show "ok_after (dbNotifyCancel_resume q) s = Done x s'" using run' Cancel_resume by simp
      show "stuck s' p" if "dbNotifyCancel_resume q s = Done y s'" for y
        using that unfolding dbNotifyCancel_resume_def
        by (rule stuck_dmod_then) (use p q in \<open>auto intro!: grows_rules simp: stuck_def\<close>)
    qed
  qed (rule stuck_grows [of "perform e n a", OF _ run' p], simp add: ok_after_def, intro grows_rules)+
next
  case False
  then show ?thesis using run p by (simp add: run_op_def)
qed

lemma stuck_run_ops:
  "settled s \<Longrightarrow> stuck s p \<Longrightarrow> \<forall>a \<in> set as. op_ok (length (recs s)) a \<Longrightarrow> length (recs s) < n \<Longrightarrow>
   run_ops e n as s = Done () s' \<Longrightarrow> stuck s' p"
proof (induction as arbitrary: s)
  case Nil
  then show ?case by (simp add: dret_def)
next
  case (Cons a as)
  obtain x s1 where 1: "run_op e n a s = Done x s1" and 2: "run_ops e n as s1 = Done () s'"
    using Cons.prems(5) by (auto elim: dbind_Done)
  have "settles e s (run_op e n a s)" using Cons.prems by (intro run_op_settles) auto
  then have s1: "settled s1" "length (recs s1) = length (recs s)"
    using 1 by (auto simp: settles_def same_config_def)
  show ?case
    using Cons.prems s1 2 by (intro Cons.IH [OF s1(1)] stuck_run_op [OF Cons.prems(1,2) 1]) auto
qed


section \<open>Databases to run\<close>

text \<open>A delayed record, and two requests for it: a put with completion, and one to process it.\<close>

definition idle_request :: processNotify where
  "idle_request =
     \<lparr>pn_state = notifyNotActive, waitList = [], pn_chan = 0, pn_field = ARG 0, pn_value = Put_short 1,
      pn_got = None, requestType = putProcessRequest, pn_status = notifyOK, wasProcessed = False,
      restart_on = False, pvt = False, cancelWait = False, userCallbackWait = False,
      cancelEvent = False, userCallbackEvent = False\<rparr>"

definition notify_db :: db where
  "notify_db =
     (fresh [blank\<lparr>rset := calcoutRSET, odly := 1\<rparr>])
     \<lparr>pns := [idle_request, idle_request, idle_request\<lparr>requestType := processRequest\<rparr>]\<rparr>"

lemma settled_notify_db: "settled notify_db"
proof -
  let ?f = "fresh [blank\<lparr>rset := calcoutRSET, odly := 1\<rparr>]"
  have "settled ?f" by (rule settled_fresh) (auto simp: db_eval)
  then have f: "db_ok ?f" "at_rest ?f 0" "\<not> pact (recs ?f ! 0)"
    by (auto simp: settled_def fresh_def blank_def)
  have "notify_ok notify_db"
    by (auto simp: notify_ok_def book_ok_def reqs_but_def tasks_ok_def notify_defs req_defs notify_db_def
        fresh_def idle_request_def blank_def history_def less_Suc_eq)
  then show ?thesis
    using f by (auto simp: settled_def db_ok_def delayed_ok_def at_rest_def notify_db_def fresh_def blank_def)
qed

text \<open>Two puts with completion, the second while the first is under way, up to the end of both.\<close>

definition two_puts :: "db_op list" where
  "two_puts =
     [Notify_start 0 None, Notify_start 1 None, Callback_task 0, Notify_callback 0, Notify_callback 0,
      Done_return 0, Callback_task 0, Notify_callback 0, Done_return 1]"

section \<open>Properties\<close>



text \<open>
  C6: one outcome for each request. In any history a request is first started and then either
  completed, which calls \<^verbatim>\<open>doneCallback\<close>, or canceled, before it is started again; so the completions
  and cancellations are as many as the starts, less one while the request is under way.
\<close>

theorem one_outcome_per_request:
  assumes "settled s" "\<forall>a \<in> set as. op_ok (length (recs s)) a" "length (recs s) < n"
    and "run_ops e n as s = Done () s'" "p < length (pns s')"
  shows "under_way (history p s') = Some (outstanding (pns s' ! p)) \<and>
    count_list (history p s') Requested =
      count_list (history p s') Completed + count_list (history p s') Canceled +
      (if outstanding (pns s' ! p) then 1 else 0)"
proof -
  have s': "settled s'" using run_ops_settles [OF assms(1-3), of e] assms(4) by (auto simp: settles_def)
  have "under_way (history p s') = Some (outstanding (pns s' ! p))"
    using settled_request(5) [OF s' assms(5)] by (simp add: client_ok_def Let_def)
  with under_way_counts [OF this] show ?thesis by simp
qed

theorem one_outcome_per_request_witness:
  "\<exists>s'. run_ops seconds 2 [Notify_start 0 None, Notify_start 1 None] notify_db = Done () s' \<and>
     under_way (history 1 s') = Some (outstanding (pns s' ! 1)) \<and> outstanding (pns s' ! 1)"
proof -
  have "case run_ops seconds 2 [Notify_start 0 None, Notify_start 1 None] notify_db of
      Done u s \<Rightarrow> length (pns s) = 3 \<and> outstanding (pns s ! 1) | _ \<Rightarrow> False"
    by code_simp
  then obtain s' where run: "run_ops seconds 2 [Notify_start 0 None, Notify_start 1 None] notify_db = Done () s'"
    and "length (pns s') = 3" "outstanding (pns s' ! 1)"
    by (auto split: res.splits)
  moreover have "length (recs notify_db) = 1" by (simp add: notify_db_def fresh_def)
  ultimately show ?thesis
    using one_outcome_per_request [OF settled_notify_db _ _ run, of 1] by simp
qed

text \<open>
  C36: \<^verbatim>\<open>dbNotify.h\<close> lets the client issue a new request from \<^verbatim>\<open>doneCallback\<close>, and cancel at any time.
  But a call of \<^verbatim>\<open>dbProcessNotify()\<close> or \<^verbatim>\<open>dbNotifyCancel()\<close> that \<^verbatim>\<open>doneCallback\<close> makes for its own
  request waits for an event that is signalled only after \<^verbatim>\<open>doneCallback\<close> has returned: whatever else
  happens, neither the callback nor the call returns.
\<close>

theorem call_in_own_callback_hangs:
  assumes "settled s" "\<forall>a \<in> set as. op_ok (length (recs s)) a" "length (recs s) < n"
    and "p \<in> set (calling s)" "no_call s p" "\<not> blocked_in s p"
    and "a = Notify_start p (Some p) \<or> a = Notify_cancel p (Some p)"
    and "run_ops e n (a # as) s = Done () s'"
  shows "p \<in> set (calling s') \<and> \<not> op_enabled (Done_return p) s' \<and>
    \<not> op_enabled (Start_resume p) s' \<and> \<not> op_enabled (Cancel_resume p) s'"
proof -
  have pl: "p < length (pns s)"
    using assms(1,4) by (auto simp: settled_parts notify_ok_def reqs_but_def tasks_ok_def)
  have q: "pn_state (pns s ! p) = notifyUserCallbackActive" "pvt (pns s ! p)"
    using settled_request(5) [OF assms(1) pl] assms(4) by (auto simp: client_ok_def Let_def)
  have en: "op_enabled a s"
    using assms(4-7) pl q by (auto simp: thread_free_def)
  obtain x t where t: "run_op e n a s = Done x t" "run_ops e n as t = Done () s'"
    using assms(8) by (auto elim: dbind_Done)
  have stk: "stuck t p"
    using assms(4,7) en t(1) q pl
    by (auto simp: run_op_def ok_after_def dbProcessNotify_def dbNotifyCancel_def upd_notify_def Let_def
        stuck_def dbm_defs get_pn_def)
  have "op_ok (length (recs s)) a" using assms(7) by auto
  from run_op_settles [OF assms(1) this assms(3), of e] t(1)
  have st: "settled t" "length (recs t) = length (recs s)"
    by (simp_all add: settles_def same_config_def)
  have fin: "stuck s' p" by (rule stuck_run_ops [OF st(1) stk _ _ t(2)]) (use assms(2,3) st(2) in simp_all)
  have "settled s'"
    using run_ops_settles [OF st(1), of as n e] st(2) assms(2,3) t(2) by (auto simp: settles_def)
  from stuck_request [OF this fin] show ?thesis using fin by (auto simp: stuck_def)
qed

theorem call_in_own_callback_hangs_witness:
  "\<exists>s s'. run_ops seconds 2 [Notify_start 2 None] notify_db = Done () s \<and>
     run_ops seconds 2 [Notify_cancel 2 (Some 2), Done_return 2, Scan_task 0] s = Done () s' \<and>
     2 \<in> set (calling s') \<and> \<not> op_enabled (Cancel_resume 2) s'"
proof -
  have "case run_ops seconds 2 [Notify_start 2 None] notify_db of
      Done u s \<Rightarrow> 2 \<in> set (calling s) \<and> no_call s 2 \<and> \<not> blocked_in s 2 \<and> length (recs s) = 1 \<and>
        (case run_ops seconds 2 [Notify_cancel 2 (Some 2), Done_return 2, Scan_task 0] s of
           Done v s' \<Rightarrow> True | _ \<Rightarrow> False)
    | _ \<Rightarrow> False"
    by code_simp
  then obtain s s' where run: "run_ops seconds 2 [Notify_start 2 None] notify_db = Done () s"
    "run_ops seconds 2 [Notify_cancel 2 (Some 2), Done_return 2, Scan_task 0] s = Done () s'"
    and q: "2 \<in> set (calling s)" "no_call s 2" "\<not> blocked_in s 2" "length (recs s) = 1"
    by (auto split: res.splits simp del: run_ops.simps)
  have "length (recs notify_db) = 1" by (simp add: notify_db_def fresh_def)
  then have "settled s"
    using run_ops_settles [OF settled_notify_db, of "[Notify_start 2 None]" 2 seconds] run(1)
    by (simp add: settles_def del: run_ops.simps)
  from call_in_own_callback_hangs [OF this _ _ q(1-3) _ run(2)] run q(4) show ?thesis
    by (auto simp del: run_ops.simps)
qed

text \<open>
  C37: the comment in \<^verbatim>\<open>dbNotify.h\<close> has a passive record processed when the requester has issued a
  process request. The code never does: a \<^verbatim>\<open>processRequest\<close> for any record that is neither active nor
  owned is answered at once, with no record changed and \<^verbatim>\<open>wasProcessed\<close> false.
\<close>

theorem process_request_not_processed:
  assumes "p < length (pns s)" "requestType (pns s ! p) = processRequest" "\<not> pvt (pns s ! p)"
    and "ppn (recs s ! pn_chan (pns s ! p)) = None" "\<not> pact (recs s ! pn_chan (pns s ! p))"
  shows "\<exists>s'. dbProcessNotify e n p by s = Done () s' \<and> recs s' = recs s \<and> p \<in> set (calling s') \<and>
    \<not> wasProcessed (pns s' ! p) \<and> history p s' = history p s @ [Requested, Completed]"
  using assms
  by (simp add: dbProcessNotify_def dbProcessNotify_start_def notifyInit_def log_notify_def upd_notify_def
      processNotifyCommon_def notify_put_def notify_doProcess_def callDone_begin_def set_state_def
      get_pn_def dbm_defs history_def)

theorem process_request_not_processed_witness:
  "\<exists>s'. dbProcessNotify seconds 2 2 None notify_db = Done () s' \<and> recs s' = recs notify_db \<and>
     \<not> wasProcessed (pns s' ! 2)"
  using process_request_not_processed [of 2 notify_db seconds 2 None]
  by (auto simp: notify_db_def fresh_def idle_request_def blank_def)

end
