(* ===== verification/Spec2Isabelle.thy ===== *)
theory Spec2Isabelle
  imports RingSpsc EllSort GpHash BucketLib CalcSafe MacTable AsRuns DbLockRun DbEventProps DbNotifyProps
begin

text \<open>
  Verification of the C core of EPICS base: the libraries of \<^verbatim>\<open>modules/libcom/src\<close> that an IOC (an input/output controller)
  and its clients rest on, and four subsystems of the IOC itself under \<^verbatim>\<open>modules/database/src/ioc\<close>.

  \<^bold>\<open>The program.\<close> An IOC holds a database of records. Records are connected by links and processed by several
  threads, so each set of connected records has one lock (\<^verbatim>\<open>db/dbLock.c\<close>). Processing a record reads its inputs through
  links, runs its program, raises its alarms, writes its output and processes its successors (\<^verbatim>\<open>db/dbAccess.c\<close>,
  \<^verbatim>\<open>db/dbDbLink.c\<close>, \<^verbatim>\<open>std/rec\<close>). When a field changes, the record posts
  the change to the subscriptions of clients, which an event task delivers (\<^verbatim>\<open>db/dbEvent.c\<close>). Whether a client may read or
  write is decided by access security (\<^verbatim>\<open>libcom/src/as\<close>), whose rules may contain calculations (\<^verbatim>\<open>libcom/src/calc\<close>) over the
  values of other records (\<^verbatim>\<open>ioc/as/asCa.c\<close>), and whose files are read after macro substitution (\<^verbatim>\<open>libcom/src/macLib\<close>).
  Below these are lists (\<^verbatim>\<open>ellLib\<close>), hash tables (\<^verbatim>\<open>gpHash\<close>, \<^verbatim>\<open>bucketLib\<close>), the ring buffer (\<^verbatim>\<open>ring\<close>), string functions and
  number parsers (\<^verbatim>\<open>misc\<close>).

  \<^bold>\<open>Conventions.\<close> A definition has the name of the C function it models. C structures are records; pointers are
  addresses, indices or list positions; a NULL pointer is \<open>None\<close>. A failed assertion, \<^verbatim>\<open>cantProceed\<close>, an access outside of
  an array and the use of a null or dangling pointer are \<open>None\<close> of a result, or a constructor of a result type for the
  calculation engine; errors that the code reports are values. Unsigned integers have their width where
  they can wrap. Memory allocation succeeds where not said otherwise.

  \<^item> \<open>Epics_Prelude\<close>: memory as lists of bytes, addresses, lemmas on lists that several theories use.

  \<^item> \<open>RingBytes\<close>, \<open>RingSpsc\<close>: \<^verbatim>\<open>ring/epicsRingBytes.c\<close>. Each operation computes on the indices and the buffer as the code
    does. The ring refines a queue of bytes; a put is all or nothing. With one producer and one consumer thread
    and no lock, every interleaving of their reads and writes of the indices and copies of bytes keeps the order
    and never exceeds the capacity.

  \<^item> \<open>EllLib\<close>, \<open>EllSort\<close>: \<^verbatim>\<open>ellLib/ellLib.c\<close> and \<^verbatim>\<open>ellSort.c\<close> on a heap of nodes, with an abstraction to lists of
    addresses. Every operation refines the list operation and leaves other nodes alone; the assertions of
    \<^verbatim>\<open>ellVerify\<close> hold exactly for well-formed lists; the merge sort ends and is a stable sort.

  \<^item> \<open>EpicsString\<close>, \<open>EpicsStdlib\<close>: \<^verbatim>\<open>misc/epicsString.c\<close> and the number parsers of \<^verbatim>\<open>misc/epicsStdlib.c\<close>: escaping and its
    inverse (sizes and counters that the code keeps in an \<^verbatim>\<open>int\<close> have 32 bits), bounds of buffers, glob matching against its recursive meaning, tokens, parsers against
    decimal notation with their range errors. The parser of floating point numbers is over \<^verbatim>\<open>strtod\<close> as a parameter.

  \<^item> \<open>KvTable\<close>, \<open>GpHash\<close>, \<open>BucketLib\<close>: \<^verbatim>\<open>gpHash/gpHashLib.c\<close> and \<^verbatim>\<open>bucketLib/bucketLib.c\<close>. \<open>KvTable\<close> states what a
    chained hash table promises as a locale and shows once that such a table is a map over any run of
    operations; both libraries are interpretations of it.

  \<^item> \<open>CalcCode\<close>, \<open>CalcPostfix\<close>, \<open>CalcPerform\<close>, \<open>CalcSize\<close>, \<open>CalcSafe\<close>: \<^verbatim>\<open>calc/postfix.c\<close> and \<^verbatim>\<open>calcPerform.c\<close>, the compiler of
    expressions to byte code and the stack machine that runs it. The output of the compiler fits the buffer that
    callers are told to provide; an expression that is accepted and has no conditional runs without stack overflow,
    underflow or bad code. Beginnings of expressions for which the compiler leaves its own stack are given. Arithmetic on doubles is the parameter \<open>fp_ops\<close>.

  \<^item> \<open>MacCore\<close>, \<open>MacUtil\<close>, \<open>MacFrame\<close>, \<open>MacInv\<close>, \<open>MacTerm\<close>, \<open>MacParse\<close>, \<open>MacTable\<close>: \<^verbatim>\<open>macLib/macCore.c\<close>, \<^verbatim>\<open>macUtil.c\<close> and
    \<^verbatim>\<open>macEnv.c\<close>. The recursive functions \<^verbatim>\<open>trans\<close> and \<^verbatim>\<open>refer\<close> take fuel, since the code may not return; a result does not
    depend on the fuel once there is enough, and for texts and macros without a comma an amount that is enough is
    shown to exist. An expansion that returns has not written behind its buffer, and the table of macros stays
    well formed; scopes restore what definitions in them hide, but not what NULL values delete; definitions that are
    printed are parsed back, lists of bare names overrun the parser's arrays, and expansion of a text gives the text with
    its references replaced. The environment is a parameter.

  \<^item> \<open>AsLib\<close>, \<open>AsPolicy\<close>, \<open>AsConfig\<close>, \<open>AsInv\<close>, \<open>AsSteps\<close>, \<open>AsCompute\<close>, \<open>AsCa\<close>, \<open>AsRuns\<close>: \<^verbatim>\<open>as/asLibRoutines.c\<close>, the actions of the
    grammar \<^verbatim>\<open>as/asLib.y\<close> and the callbacks of \<^verbatim>\<open>ioc/as/asCa.c\<close>. After any run of loading configurations, adding,
    changing and removing members and clients, and reports about inputs, the access that each client has been
    granted is the best of the rules that admit it, and all lists agree. The values and events of channels are
    arguments of the callbacks; name lookup uses the verified hash table.

  \<^item> \<open>DbLock\<close>, \<open>DbLockInv\<close>, \<open>DbLockMerge\<close>, \<open>DbLockSplit\<close>, \<open>DbLockRun\<close>: \<^verbatim>\<open>db/dbLock.c\<close> with the part of \<^verbatim>\<open>dbDbLink.c\<close> and of
    \<^verbatim>\<open>dbPutFieldLink\<close> in \<^verbatim>\<open>dbAccess.c\<close> that changes links. The search for a split and the retry of a locker are
    partial functions, whose results are shown to exist. Lock sets are always the connected components of
    the graph of links, reference counts are exact, every put to a link completes and releases its locks, and shutting
    down leaves no lock set. One thread changes the database at a time here.

  \<^item> \<open>DbRecord\<close>, \<open>RecGbl\<close>, \<open>DbNotify\<close>, \<open>DbLink\<close>, \<open>CalcRecord\<close>, \<open>CalcoutRecord\<close>, \<open>DbAccess\<close>: record processing. The state is
    a list of records with what processing changes beside them. An operation is a state transformer whose result
    is \<open>Done\<close>, \<open>Crash\<close> (a failed assertion, a fault of the calculation engine, an index out of range) or \<open>NoFuel\<close>.
    \<open>RecGbl\<close> has the alarms and deadbands of \<^verbatim>\<open>db/recGbl.c\<close>; \<open>DbNotify\<close> the calls of \<^verbatim>\<open>db/dbNotify.c\<close> from processing; \<open>DbLink\<close> the
    gets, puts and forward links of \<^verbatim>\<open>db/dbDbLink.c\<close> and \<^verbatim>\<open>db/dbLink.c\<close>, over a parameter for \<^verbatim>\<open>dbProcess\<close>; \<open>CalcRecord\<close> and
    \<open>CalcoutRecord\<close> the record types of \<^verbatim>\<open>std/rec\<close> that run programs, the second asynchronous with an output delay; \<open>DbAccess\<close>
    \<^verbatim>\<open>dbProcess\<close>, \<^verbatim>\<open>dbPutField\<close>, \<^verbatim>\<open>onceTask\<close> and \<^verbatim>\<open>ProcessCallback\<close>. The fuel of \<^verbatim>\<open>dbProcess\<close> is the depth of its recursion through links;
    more than the number of idle records is enough. Time stamps, doubles and conversions are parameters.

  \<^item> \<open>DbNotifyApi\<close>: the process-notify requests of clients, the rest of \<^verbatim>\<open>db/dbNotify.c\<close>: \<^verbatim>\<open>dbProcessNotify\<close>, \<^verbatim>\<open>dbNotifyCancel\<close>, the
    callback of a request and the end of it. A routine that waits for an event, or that runs the client's \<^verbatim>\<open>doneCallback\<close>
    without a lock, is cut in two, so that everything else can happen in between. The client puts as the Channel Access
    server does.

  \<^item> \<open>DbNotifyInv\<close>, \<open>DbRequests\<close>, \<open>DbFlow\<close>, \<open>DbServe\<close>, \<open>DbProcess\<close>, \<open>DbSettle\<close>, \<open>DbNotifySettle\<close>, \<open>DbRun\<close>: what record
    processing keeps. \<open>DbNotifyInv\<close> has the lists that tie requests to records, \<open>DbRequests\<close> the state of each request and
    its history. \<open>DbFlow\<close> and \<open>DbServe\<close> have one rule per operation; the locale \<open>processes\<close> is what callers assume of
    \<^verbatim>\<open>dbProcess\<close>, and \<open>DbProcess\<close> interprets it for \<^verbatim>\<open>dbProcess\<close> at each depth. \<open>DbSettle\<close> and \<open>DbNotifySettle\<close> show that each
    operation of the tasks and of clients leaves the lock set settled; \<open>DbRun\<close> has their sequences.

  \<^item> \<open>DbProps\<close>, \<open>DbNotifyProps\<close>: processing returns for every graph of links, no idle record keeps \<^verbatim>\<open>PUTF\<close> or \<^verbatim>\<open>RPRO\<close>, every active
    record has a callback that completes it, and programs that the compiler accepted do not fault. No process-notify
    request is lost and each has one outcome; a client that calls for a request in its own callback hangs.

  \<^item> \<open>DbEvent\<close>, \<open>DbEventRing\<close>, \<open>DbEventInv\<close>, \<open>DbEventOps\<close>, \<open>DbEventUser\<close>, \<open>DbEventRun\<close>, \<open>DbEventProps\<close>: \<^verbatim>\<open>db/dbEvent.c\<close>. Each step is what
    a thread does while it holds the lock of a queue; posts, cancellations, flow control and the turns of the event
    task interleave freely. \<open>DbEventRing\<close> refines the ring to a list of entries. A parameter of the steps tells whether the
    routine of a subscription may cancel others. If it does not, no assertion fails unless many cancelled entries are
    queued, and the event task always wakes to deliver the last update; if it does, the event task can use a freed
    subscription. Updates stay in order in any case. A run is given that overflows a queue.

  \<^bold>\<open>Not modelled.\<close> Reports that print; files and the generated scanners; starting, stopping and joining of threads,
  and the operating system layer \<^verbatim>\<open>osi\<close>; the clients and servers of Channel Access and PV Access, which are network
  protocol code, the larger part of it in C++; the static database and the other record types; put notification for link fields;
  break points, arrays and string conversions; and vendored tools. The
  interleaving of threads is modelled for the ring buffer and the event queues, not for lock sets, record processing
  and access security, whose operations run under locks.
\<close>

end
